(* ===== verification/Prelude.thy ===== *)
theory Prelude
  imports Main "HOL-Library.Word" "HOL-Library.Monad_Syntax"
begin

unbundle bit_operations_syntax

text \<open>
  Shared vocabulary of the development: the machine types of the C sources (\<open>uint8_t\<close> to
  \<open>uint64_t\<close>, pointers), the null pointer, the removal of the first match from a list (the loop
  that both container ADTs of the kernel run), and the generic lemmas on lists, option-valued
  computations and words that the component theories share.

  A C computation that may dereference a null pointer, index outside an array or spin for ever is
  a value of an option type: \<^term>\<open>None\<close> is that undefined outcome, \<^term>\<open>Some\<close> a normal return.
\<close>

section \<open>Machine types\<close>

type_synonym u8 = "8 word"
type_synonym u16 = "16 word"
type_synonym u32 = "32 word"
type_synonym u64 = "64 word"

text \<open>Pointers, process identifiers and sizes are all 64 bits wide on x86-64.\<close>

type_synonym ptr = u64

abbreviation NULL :: ptr where
  "NULL \<equiv> 0"

section \<open>Fact collections\<close>

text \<open>
  \<open>adt\<close> collects the equations that evaluate container operations, \<open>keeps\<close> the facts that an
  operation preserves an invariant.
\<close>

named_theorems adt "evaluation of container operations"
named_theorems keeps "operations preserve their invariant"

section \<open>Removing the first match\<close>

text \<open>The first element that satisfies a predicate, dropped; the list itself when none does.\<close>

fun drop_first :: "('a \<Rightarrow> bool) \<Rightarrow> 'a list \<Rightarrow> 'a list" where
  "drop_first P [] = []"
| "drop_first P (x # xs) = (if P x then xs else x # drop_first P xs)"

lemma drop_first_none [simp]: "\<forall>x\<in>set xs. \<not> P x \<Longrightarrow> drop_first P xs = xs"
  by (induction xs) auto

lemma set_drop_first_subset: "set (drop_first P xs) \<subseteq> set xs"
  by (induction xs) auto

lemma in_set_drop_firstD: "x \<in> set (drop_first P xs) \<Longrightarrow> x \<in> set xs"
  using set_drop_first_subset by fastforce

lemma distinct_drop_first [intro]: "distinct xs \<Longrightarrow> distinct (drop_first P xs)"
  by (induction xs) (auto dest: in_set_drop_firstD)

lemma drop_first_append:
  "drop_first P (xs @ ys) =
     (if \<exists>x\<in>set xs. P x then drop_first P xs @ ys else xs @ drop_first P ys)"
  by (induction xs) auto

lemma map_drop_first: "map f (drop_first (\<lambda>x. P (f x)) xs) = drop_first P (map f xs)"
  by (induction xs) auto

lemma find_map: "map_option f (find (\<lambda>x. P (f x)) xs) = find P (map f xs)"
  by (induction xs) auto

lemma drop_first_cong:
  "(\<And>x. x \<in> set xs \<Longrightarrow> P x = Q x) \<Longrightarrow> drop_first P xs = drop_first Q xs"
  by (induction xs) auto

lemma set_drop_first_distinct:
  "distinct xs \<Longrightarrow> (\<And>x y. x \<in> set xs \<Longrightarrow> y \<in> set xs \<Longrightarrow> P x \<Longrightarrow> P y \<Longrightarrow> x = y)
   \<Longrightarrow> set (drop_first P xs) = {x \<in> set xs. \<not> P x}"
  by (induction xs) (auto dest: in_set_drop_firstD)

lemma drop_first_eq_remove1: "drop_first (\<lambda>x. x = a) xs = remove1 a xs"
  by (induction xs) auto

lemma length_drop_first:
  "length (drop_first P xs) = (if \<exists>x\<in>set xs. P x then length xs - 1 else length xs)"
  by (induction xs) (auto simp: Suc_diff_Suc neq_Nil_conv length_greater_0_conv
      dest: length_pos_if_in_set)

lemma drop_first_split:
  "find P xs = Some x \<Longrightarrow>
     \<exists>us vs. xs = us @ x # vs \<and> P x \<and> (\<forall>u\<in>set us. \<not> P u) \<and> drop_first P xs = us @ vs"
proof (induction xs)
  case Nil
  then show ?case by simp
next
  case (Cons a xs)
  show ?case
  proof (cases "P a")
    case True
    with Cons.prems have "a # xs = [] @ x # xs" "drop_first P (a # xs) = [] @ xs" "P x" by auto
    then show ?thesis by force
  next
    case False
    with Cons obtain us vs where "xs = us @ x # vs" "P x" "\<forall>u\<in>set us. \<not> P u"
      "drop_first P xs = us @ vs" by auto
    with False have "a # xs = (a # us) @ x # vs" "P x" "\<forall>u\<in>set (a # us). \<not> P u"
      "drop_first P (a # xs) = (a # us) @ vs" by auto
    then show ?thesis by blast
  qed
qed

lemma find_unique: "(\<And>x. x \<in> set xs \<Longrightarrow> P x \<longleftrightarrow> x = p) \<Longrightarrow> p \<in> set xs \<Longrightarrow> find P xs = Some p"
  by (induction xs) auto

lemma drop_first_notfound: "find P xs = None \<Longrightarrow> drop_first P xs = xs"
  by (simp add: find_None_iff)

section \<open>Words\<close>

lemma unat_of_nat_small: "n < 2 ^ LENGTH('a::len) \<Longrightarrow> unat (of_nat n :: 'a word) = n"
  by (simp add: unat_of_nat take_bit_nat_eq_self)

lemma word_less_Suc:
  assumes "(x :: 'a::len word) \<noteq> -1"
  shows "x < x + 1"
proof -
  have "1 + x \<noteq> 0" using assms by (metis add_eq_0_iff add.commute minus_minus)
  then have "unat (1 + x) = Suc (unat x)" by (rule unatSuc)
  then show ?thesis by (simp add: word_less_nat_alt add.commute)
qed

end
