(* ===== verification/Allocator.thy ===== *)
theory Allocator
  imports Prelude
begin

text \<open>
  The interface of the physical memory manager (\<open>Kernel/mem/include/pmem.h\<close>) as its clients see
  it: \<open>mem_alloc\<close> and \<open>mem_free\<close>, which two implementations provide (\<open>pmem_bitmap.c\<close>, the default
  build, and \<open>pmem_buddy.c\<close>). The laws are stated over \<open>extent m a\<close>, the number of bytes reserved
  by the live block that starts at address \<open>a\<close> (0 when no live block starts there).
\<close>

locale allocator =
  fixes alloc :: "'m \<Rightarrow> u64 \<Rightarrow> 'm \<times> ptr"
    and dealloc :: "'m \<Rightarrow> ptr \<Rightarrow> 'm option"
    and inv :: "'m \<Rightarrow> bool"
    and extent :: "'m \<Rightarrow> ptr \<Rightarrow> nat"
  assumes alloc_inv: "inv m \<Longrightarrow> alloc m n = (m', a) \<Longrightarrow> inv m'"
    and alloc_null: "inv m \<Longrightarrow> alloc m n = (m', NULL) \<Longrightarrow> m' = m"
    and alloc_fresh: "inv m \<Longrightarrow> alloc m n = (m', a) \<Longrightarrow> a \<noteq> NULL \<Longrightarrow> extent m a = 0"
    and alloc_size: "inv m \<Longrightarrow> alloc m n = (m', a) \<Longrightarrow> a \<noteq> NULL
          \<Longrightarrow> 0 < extent m' a \<and> unat n \<le> extent m' a"
    and alloc_frame: "inv m \<Longrightarrow> alloc m n = (m', a) \<Longrightarrow> a \<noteq> NULL \<Longrightarrow> b \<noteq> a
          \<Longrightarrow> extent m' b = extent m b"
    and dealloc_live: "inv m \<Longrightarrow> 0 < extent m a
          \<Longrightarrow> \<exists>m'. dealloc m a = Some m' \<and> inv m' \<and> extent m' = (extent m)(a := 0)"
    and extent_null: "inv m \<Longrightarrow> extent m NULL = 0"
    and extent_disjoint: "inv m \<Longrightarrow> 0 < extent m a \<Longrightarrow> 0 < extent m b \<Longrightarrow> a \<noteq> b
          \<Longrightarrow> unat a + extent m a \<le> unat b \<or> unat b + extent m b \<le> unat a"
begin

text \<open>The live blocks before an allocation are exactly those after it, less the new one.\<close>

lemma alloc_extent:
  assumes "inv m" and "alloc m n = (m', a)" and "a \<noteq> NULL"
  shows "extent m' = (extent m)(a := extent m' a)"
  using alloc_frame [OF assms] by auto

text \<open>A block that was live stays live, and is not the new block.\<close>

lemma alloc_keeps_live:
  assumes "inv m" and "alloc m n = (m', a)" and "0 < extent m b"
  shows "0 < extent m' b \<and> (a \<noteq> NULL \<longrightarrow> a \<noteq> b)"
proof (cases "a = NULL")
  case True
  with assms show ?thesis using alloc_null by auto
next
  case False
  with assms show ?thesis using alloc_frame alloc_fresh by (metis nat_less_le)
qed

text \<open>Allocating a block and freeing it at once gives back the same live blocks.\<close>

lemma alloc_dealloc_roundtrip:
  assumes "inv m" and "alloc m n = (m', a)" and "a \<noteq> NULL"
  shows "\<exists>m''. dealloc m' a = Some m'' \<and> inv m'' \<and> extent m'' = extent m"
proof -
  from assms have "inv m'" and "0 < extent m' a"
    using alloc_inv alloc_size by blast+
  then obtain m'' where "dealloc m' a = Some m''" "inv m''" "extent m'' = (extent m')(a := 0)"
    using dealloc_live by blast
  moreover have "(extent m')(a := 0) = extent m"
    using alloc_frame [OF assms] alloc_fresh [OF assms] by auto
  ultimately show ?thesis by auto
qed

text \<open>A new block does not overlap a block that was live.\<close>

lemma alloc_no_overlap:
  assumes "inv m" and "alloc m n = (m', a)" and "a \<noteq> NULL" and "0 < extent m b"
  shows "unat a + extent m' a \<le> unat b \<or> unat b + extent m b \<le> unat a"
proof -
  have "inv m'" "0 < extent m' a" using assms alloc_inv alloc_size by blast+
  moreover have "0 < extent m' b" "a \<noteq> b" using alloc_keeps_live [OF assms(1,2,4)] assms(3) by auto
  moreover have "extent m' b = extent m b"
    using alloc_frame [OF assms(1-3)] \<open>a \<noteq> b\<close> by auto
  ultimately show ?thesis using extent_disjoint by metis
qed

end

text \<open>
  Both managers hand out whole pages. For requests of at most one page (every structure the kernel
  allocates) the number of free pages decides success.
\<close>

locale page_allocator = allocator +
  fixes avail :: "'a \<Rightarrow> nat"
  assumes alloc_avail: "inv m \<Longrightarrow> unat n \<le> 4096 \<Longrightarrow> 0 < avail m
          \<Longrightarrow> \<exists>m' a. alloc m n = (m', a) \<and> a \<noteq> NULL \<and> avail m' = avail m - 1 \<and> extent m' a = 4096"
    and dealloc_avail: "inv m \<Longrightarrow> 0 < extent m a \<Longrightarrow> dealloc m a = Some m'
          \<Longrightarrow> avail m' = avail m + extent m a div 4096"
begin

text \<open>A one-page block that is freed gives its page back.\<close>

lemma page_roundtrip:
  assumes "inv m" and "unat n \<le> 4096" and "0 < avail m"
  shows "\<exists>m' a m''. alloc m n = (m', a) \<and> dealloc m' a = Some m'' \<and> avail m'' = avail m"
proof -
  obtain m' a where a: "alloc m n = (m', a)" "a \<noteq> NULL" "avail m' = avail m - 1"
    "extent m' a = 4096" using alloc_avail assms by blast
  obtain m'' where f: "dealloc m' a = Some m''"
    using alloc_dealloc_roundtrip [OF assms(1) a(1,2)] by blast
  have "inv m'" using alloc_inv [OF assms(1) a(1)] .
  then have "avail m'' = avail m' + 4096 div 4096"
    using dealloc_avail [of m' a m''] a(4) f by simp
  with a f assms(3) show ?thesis by auto
qed

end

end
