(* ===== verification/Digits.thy ===== *)
theory Digits
  imports Prelude
begin

text \<open>
  Positional numerals, shared by the number printers of \<open>strings.c\<close>, \<open>lib.c\<close>, \<open>naiveConsole.c\<close>,
  \<open>stringLib.c\<close> and \<open>usrio.c\<close>: the reference \<open>render b a n\<close> (the digits of \<open>n\<close> in base \<open>b\<close>, the
  letters from \<open>a\<close> on), its inverse \<open>number\<close>, and the three ways the code produces it: recursion,
  a temporary array emptied backwards, and an array reversed in place. Arrays are lists with checked
  access: an index out of range is a fault, \<open>None\<close>.
\<close>

section \<open>Checked arrays\<close>

definition aget :: "'a list \<Rightarrow> nat \<Rightarrow> 'a option" where
  "aget xs i = (if i < length xs then Some (xs ! i) else None)"

definition aset :: "'a list \<Rightarrow> nat \<Rightarrow> 'a \<Rightarrow> 'a list option" where
  "aset xs i v = (if i < length xs then Some (xs[i := v]) else None)"

lemma aset_length: "aset xs i v = Some ys \<Longrightarrow> length ys = length xs"
  by (auto simp: aset_def split: if_splits)

lemma aset_append [simp]: "i = length xs \<Longrightarrow> aset (xs @ y # ys) i v = Some (xs @ v # ys)"
  by (simp add: aset_def)

lemma aget_append [simp]: "i = length xs \<Longrightarrow> aget (xs @ y # ys) i = Some y"
  by (simp add: aget_def)

text \<open>Reversing a range in place by swapping its ends.\<close>

function swap_loop :: "nat \<Rightarrow> nat \<Rightarrow> 'a list \<Rightarrow> 'a list option" where
  "swap_loop i j xs =
     (if i < j
      then do { x \<leftarrow> aget xs i; y \<leftarrow> aget xs j; xs \<leftarrow> aset xs i y; xs \<leftarrow> aset xs j x;
                swap_loop (Suc i) (j - 1) xs }
      else Some xs)"
  by pat_completeness auto
termination by (relation "measure (\<lambda>(i, j, _). j - i)") auto

declare swap_loop.simps [simp del]

lemma swap_loop_rev:
  "swap_loop (length us) (length us + length vs - 1) (us @ vs @ ws) = Some (us @ rev vs @ ws)"
proof (induction "length vs" arbitrary: us vs ws rule: less_induct)
  case less
  show ?case
  proof (cases "length vs < 2")
    case True
    then have "rev vs = vs" by (cases vs) auto
    moreover have "\<not> length us < length us + length vs - 1" using True by simp
    ultimately show ?thesis by (subst swap_loop.simps) simp
  next
    case False
    then obtain x mid y where vs: "vs = x # mid @ [y]"
      by (metis (no_types, opaque_lifting) One_nat_def Suc_1 append_butlast_last_id length_Cons
          length_greater_0_conv less_Suc_eq list.exhaust list.size(3) not_less_eq zero_less_Suc)
    have "swap_loop (length (us @ [y])) (length (us @ [y]) + length mid - 1) ((us @ [y]) @ mid @ (x # ws)) =
        Some ((us @ [y]) @ rev mid @ (x # ws))"
      by (rule less) (simp add: vs)
    moreover have "aget (us @ vs @ ws) (length us + length vs - 1) = Some y"
      using aget_append [of "length us + length vs - 1" "us @ x # mid" y ws] by (simp add: vs)
    moreover have "aset (us @ (y # mid @ [y]) @ ws) (length us + length vs - 1) x =
        Some (us @ (y # mid @ [x]) @ ws)"
      using aset_append [of "length us + length vs - 1" "us @ y # mid" y ws x] by (simp add: vs)
    ultimately show ?thesis by (subst swap_loop.simps) (simp add: vs)
  qed
qed

section \<open>Numerals\<close>

definition digit_char :: "nat \<Rightarrow> nat \<Rightarrow> char" where
  "digit_char a d = (if d < 10 then char_of (48 + d) else char_of (a + (d - 10)))"

function render :: "nat \<Rightarrow> nat \<Rightarrow> nat \<Rightarrow> string" where
  "render b a n = (if b < 2 \<or> n < b then [digit_char a n]
                   else render b a (n div b) @ [digit_char a (n mod b)])"
  by pat_completeness auto
termination by (relation "measure (\<lambda>(_, _, n). n)") auto

declare render.simps [simp del]

definition digit_val :: "nat \<Rightarrow> char \<Rightarrow> nat" where
  "digit_val a c = (if of_char c < (58::nat) then of_char c - 48 else of_char c - a + 10)"

definition number :: "nat \<Rightarrow> nat \<Rightarrow> string \<Rightarrow> nat" where
  "number b a s = foldl (\<lambda>n c. n * b + digit_val a c) 0 s"

lemma number_snoc: "number b a (s @ [c]) = number b a s * b + digit_val a c"
  by (simp add: number_def)

lemma digit_val_char: "d < b \<Longrightarrow> b \<le> 16 \<Longrightarrow> 58 \<le> a \<Longrightarrow> a < 200 \<Longrightarrow> digit_val a (digit_char a d) = d"
  by (auto simp: digit_val_def digit_char_def)

lemma number_render:
  assumes "2 \<le> b" and "b \<le> 16" and "58 \<le> a" and "a < 200"
  shows "number b a (render b a n) = n"
proof (induction n rule: less_induct)
  case (less n)
  show ?case
  proof (cases "n < b")
    case True
    with assms show ?thesis
      by (subst render.simps) (simp add: number_def digit_val_char [of n b])
  next
    case False
    with assms have "n div b < n" by simp
    from less [OF this] show ?thesis
      using False assms by (subst render.simps) (simp add: number_snoc digit_val_char [of "n mod b" b])
  qed
qed

lemma render_length:
  assumes "2 \<le> b"
  shows "n < b ^ k \<Longrightarrow> 0 < k \<Longrightarrow> length (render b a n) \<le> k"
proof (induction k arbitrary: n)
  case (Suc k)
  show ?case
  proof (cases "n < b")
    case True
    then show ?thesis by (subst render.simps) simp
  next
    case False
    then have "k \<noteq> 0" using Suc.prems by (cases k) auto
    moreover have "n div b < b ^ k" using Suc.prems assms by (simp add: less_mult_imp_div_less mult.commute)
    ultimately have "length (render b a (n div b)) \<le> k" using Suc.IH by simp
    then show ?thesis using False by (subst render.simps) simp
  qed
qed simp

lemma render_nonempty [simp]: "render b a n \<noteq> []"
  by (subst render.simps) simp

lemma render_length_iff:
  assumes "2 \<le> b" and "0 < k"
  shows "length (render b a n) \<le> k \<longleftrightarrow> n < b ^ k"
proof
  show "length (render b a n) \<le> k \<Longrightarrow> n < b ^ k" using assms(2)
  proof (induction k arbitrary: n)
    case (Suc k)
    show ?case
    proof (cases "n < b")
      case True
      also have "b \<le> b ^ Suc k" using assms(1) by simp
      finally show ?thesis .
    next
      case False
      then have "length (render b a (n div b)) \<le> k"
        using Suc.prems(1) assms(1) by (subst (asm) render.simps) simp
      moreover from this have "0 < k" using render_nonempty [of b a "n div b"] by (cases k) auto
      ultimately have "n div b < b ^ k" by (rule Suc.IH)
      then show ?thesis using assms(1) by (simp add: div_less_iff_less_mult mult.commute)
    qed
  qed simp
qed (use assms render_length in simp)

lemma render_digits: "2 \<le> b \<Longrightarrow> b \<le> 10 \<Longrightarrow> c \<in> set (render b a n) \<Longrightarrow> \<exists>d<b. c = char_of (48 + d :: nat)"
proof (induction n rule: less_induct)
  case (less n)
  show ?case
  proof (cases "n < b")
    case True
    with less.prems show ?thesis by (subst (asm) render.simps) (auto simp: digit_char_def)
  next
    case False
    have dec: "n div b < n" and lt: "n mod b < b" using False less.prems by simp_all
    from False less.prems have "c = digit_char a (n mod b) \<or> c \<in> set (render b a (n div b))"
      by (subst (asm) render.simps) auto
    then show ?thesis
    proof
      assume "c = digit_char a (n mod b)"
      moreover have "n mod b < 10" using lt less.prems(2) by linarith
      ultimately show ?thesis using lt by (intro exI [of _ "n mod b"]) (simp add: digit_char_def)
    next
      assume "c \<in> set (render b a (n div b))"
      with less.IH [OF dec] less.prems show ?thesis by blast
    qed
  qed
qed

text \<open>Different numbers have different numerals.\<close>

lemma render_inj: "2 \<le> b \<Longrightarrow> b \<le> 16 \<Longrightarrow> 58 \<le> a \<Longrightarrow> a < 200 \<Longrightarrow> render b a m = render b a n \<longleftrightarrow> m = n"
  using number_render by metis

lemma render_zero: "render b a 0 = ''0''"
  by (subst render.simps) (auto simp: digit_char_def char_of_def bit_0)

section \<open>Words\<close>

lemma unat_less: "unat (x :: 'a::len word) < 2 ^ LENGTH('a)"
  by (rule unsigned_less)

lemma unat_scast:
  fixes x :: u32
  assumes "unat x < 2 ^ 31"
  shows "unat (scast x :: u64) = unat x"
proof -
  have u: "uint x < 2 ^ 31" using assms by (metis uint_nat of_nat_less_iff of_nat_numeral of_nat_power)
  moreover have "0 \<le> uint x" by simp
  ultimately have "signed_take_bit 31 (uint x) = uint x" by (intro signed_take_bit_int_eq_self) linarith+
  then have "sint x = uint x" by (simp add: sint_uint)
  then have "(scast x :: u64) = word_of_int (uint x)" by (simp only: scast_eq)
  also have "\<dots> = of_nat (unat x)" by (simp only: uint_nat of_int_of_nat_eq)
  finally have e: "(scast x :: u64) = of_nat (unat x)" .
  have "unat x < 2 ^ LENGTH(64)" using assms by simp
  from unat_of_nat_small [OF this] show ?thesis unfolding e .
qed

lemma unat_ucast32: "unat (ucast (x :: u32) :: u64) = unat x"
proof -
  have "unat x < 2 ^ LENGTH(64)" using unat_less [of x] by simp
  then show ?thesis by (simp only: unsigned_ucast_eq take_bit_nat_eq_self)
qed

lemma sint_of_nat_small: "n < 2 ^ 31 \<Longrightarrow> sint (of_nat n :: u32) = int n"
  by (simp add: signed_of_nat signed_take_bit_int_eq_self)

lemma unat_drop_bit: "unat (drop_bit n x) = unat (x :: 'a::len word) div 2 ^ n"
proof -
  have "unat (drop_bit n x) = drop_bit n (take_bit LENGTH('a) (unat x))" by (rule unsigned_drop_bit_eq)
  also have "take_bit LENGTH('a) (unat x) = unat x" by (simp only: take_bit_nat_eq_self_iff unsigned_less)
  also have "drop_bit n (unat x) = unat x div 2 ^ n" by (rule drop_bit_eq_div)
  finally show ?thesis .
qed

lemma unat_and_15: "4 < LENGTH('a) \<Longrightarrow> unat ((x :: 'a::len word) AND 15) = unat x mod 16"
proof -
  have "(15 :: 'a word) = mask 4" by (simp add: mask_eq_exp_minus_1)
  then have "x AND 15 = take_bit 4 x" by (simp add: take_bit_eq_mask)
  then have "unat (x AND 15) = take_bit 4 (unat x)" by (simp only: unsigned_take_bit_eq)
  then show ?thesis by (simp add: take_bit_eq_mod)
qed

lemma unat_ten: "4 < LENGTH('a) \<Longrightarrow> unat (10 :: 'a::len word) = 10"
proof -
  assume "4 < LENGTH('a)"
  then have "(2::nat) ^ 5 \<le> 2 ^ LENGTH('a)" by (intro power_increasing) auto
  then show ?thesis using unat_of_nat_small [of 10, where 'a='a] by simp
qed

section \<open>Digits stored least significant first\<close>

function lsd_fill :: "nat \<Rightarrow> nat \<Rightarrow> nat \<Rightarrow> nat \<Rightarrow> string \<Rightarrow> (nat \<times> string) option" where
  "lsd_fill b a n i xs =
     (if b < 2 \<or> n = 0 then Some (i, xs)
      else do { xs \<leftarrow> aset xs i (digit_char a (n mod b)); lsd_fill b a (n div b) (Suc i) xs })"
  by pat_completeness auto
termination by (relation "measure (\<lambda>(_, _, n, _). n)") auto

declare lsd_fill.simps [simp del]

definition digits_of :: "nat \<Rightarrow> nat \<Rightarrow> nat \<Rightarrow> string" where
  "digits_of b a n = (if n = 0 then [] else render b a n)"

lemma digits_of_step: "2 \<le> b \<Longrightarrow> n \<noteq> 0 \<Longrightarrow> digits_of b a n = digits_of b a (n div b) @ [digit_char a (n mod b)]"
  by (cases "n < b") (simp_all add: digits_of_def render.simps [of b a n] div_greater_zero_iff)

lemma lsd_fill_digits:
  assumes b: "2 \<le> b"
  shows "length (digits_of b a n) \<le> length vs \<Longrightarrow>
           lsd_fill b a n (length us) (us @ vs) =
             Some (length us + length (digits_of b a n),
                   us @ rev (digits_of b a n) @ drop (length (digits_of b a n)) vs)"
proof (induction n arbitrary: us vs rule: less_induct)
  case (less n)
  show ?case
  proof (cases "n = 0")
    case True
    then show ?thesis by (subst lsd_fill.simps) (simp add: digits_of_def)
  next
    case False
    with less.prems b obtain v vs' where vs: "vs = v # vs'" by (cases vs) (auto simp: digits_of_def)
    note st = digits_of_step [OF b False, of a]
    have "n div b < n" using False b by simp
    from less.IH [OF this, of vs' "us @ [digit_char a (n mod b)]"] less.prems
    have "lsd_fill b a (n div b) (Suc (length us)) (us @ digit_char a (n mod b) # vs') =
        Some (Suc (length us) + length (digits_of b a (n div b)),
              us @ digit_char a (n mod b) # rev (digits_of b a (n div b)) @
              drop (length (digits_of b a (n div b))) vs')"
      by (simp add: vs st)
    then show ?thesis using False b by (subst lsd_fill.simps) (simp add: vs st)
  qed
qed

lemma lsd_reverse:
  assumes "2 \<le> b" and "n \<noteq> 0" and "length (render b a n) < length xs"
  shows "\<exists>ys. lsd_fill b a n 0 xs = Some (length (render b a n), ys) \<and> length ys = length xs \<and>
           swap_loop 0 (length (render b a n) - 1) (ys[length (render b a n) := z]) =
             Some (render b a n @ z # drop (Suc (length (render b a n))) xs)"
proof -
  let ?r = "render b a n"
  have d: "digits_of b a n = ?r" using assms(2) by (simp add: digits_of_def)
  let ?ys = "rev ?r @ drop (length ?r) xs"
  have f: "lsd_fill b a n 0 xs = Some (length ?r, ?ys)"
    using lsd_fill_digits [OF assms(1), of a n xs "[]"] assms(3) by (simp add: d)
  have "drop (length ?r) xs = xs ! length ?r # drop (Suc (length ?r)) xs"
    using assms(3) by (rule Cons_nth_drop_Suc [symmetric])
  then have "?ys[length ?r := z] = rev ?r @ z # drop (Suc (length ?r)) xs"
    by (simp add: list_update_append)
  then have "swap_loop 0 (length ?r - 1) (?ys[length ?r := z]) =
      Some (?r @ z # drop (Suc (length ?r)) xs)"
    using swap_loop_rev [of "[]" "rev ?r" "z # drop (Suc (length ?r)) xs"] by simp
  with f assms(3) show ?thesis by (intro exI [of _ ?ys]) simp
qed

end
