(* ===== verification/Buddy.thy ===== *)
theory Buddy
  imports Allocator Digits
begin

unbundle bit_operations_syntax

text \<open>
  The other physical memory manager, \<open>Kernel/mem/pmem_buddy.c\<close>: free lists of blocks of \<open>2 ^ o\<close> bytes.
  The lists are threaded through the free blocks themselves; here each is the list of the addresses
  on it. \<open>order_map\<close> is the table of bytes in front of the managed memory, one for each page.
\<close>

section \<open>State and operations\<close>

abbreviation BUDDY_MIN_ORDER :: nat where "BUDDY_MIN_ORDER \<equiv> 12"
abbreviation BUDDY_MAX_ORDER :: nat where "BUDDY_MAX_ORDER \<equiv> 32"

record buddy =
  base_addr :: u64
  total_len :: u64
  max_order :: nat
  free_list :: "ptr list list"
  order_map :: "u8 list"
  managed_total :: u64

definition BLOCK_SIZE :: "nat \<Rightarrow> u64" where
  "BLOCK_SIZE order = push_bit order 1"

definition ALIGN_DOWN :: "u64 \<Rightarrow> u64 \<Rightarrow> u64" where
  "ALIGN_DOWN x a = x AND NOT (a - 1)"

definition ALIGN_UP :: "u64 \<Rightarrow> u64 \<Rightarrow> u64" where
  "ALIGN_UP x a = (x + (a - 1)) AND NOT (a - 1)"

definition buddy_of :: "ptr \<Rightarrow> nat \<Rightarrow> ptr" where
  "buddy_of addr order = addr XOR BLOCK_SIZE order"

text \<open>The places of the table and of the array of lists; outside them is a fault.\<close>

definition slot :: "buddy \<Rightarrow> ptr \<Rightarrow> nat" where
  "slot b addr = unat (drop_bit BUDDY_MIN_ORDER (addr - base_addr b))"

definition set_order :: "ptr \<Rightarrow> nat \<Rightarrow> buddy \<Rightarrow> buddy option" where
  "set_order addr o' b = do { t \<leftarrow> aset (order_map b) (slot b addr) (of_nat o'); Some (b\<lparr>order_map := t\<rparr>) }"

definition push_free :: "nat \<Rightarrow> ptr \<Rightarrow> buddy \<Rightarrow> buddy option" where
  "push_free o' addr b =
     do { l \<leftarrow> aget (free_list b) o'; Some (b\<lparr>free_list := (free_list b)[o' := addr # l]\<rparr>) }"

definition pop_free :: "nat \<Rightarrow> buddy \<Rightarrow> (ptr \<times> buddy) option" where
  "pop_free o' b =
     do { l \<leftarrow> aget (free_list b) o';
          (case l of [] \<Rightarrow> None | a # l \<Rightarrow> Some (a, b\<lparr>free_list := (free_list b)[o' := l]\<rparr>)) }"

text \<open>Initialisation.\<close>

fun order_up :: "nat \<Rightarrow> nat \<Rightarrow> u64 \<Rightarrow> nat" where
  "order_up 0 o' len = o'"
| "order_up (Suc n) o' len = (if BLOCK_SIZE (o' + 1) \<le> len then order_up n (o' + 1) len else o')"

partial_function (option) fill_order :: "nat \<Rightarrow> u64 \<Rightarrow> u64 \<Rightarrow> buddy \<Rightarrow> (u64 \<times> buddy) option" where
  "fill_order i cur e b =
     (if cur + BLOCK_SIZE i \<le> e
      then do {
        b \<leftarrow> push_free i cur b;
        b \<leftarrow> set_order cur i b;
        fill_order i (cur + BLOCK_SIZE i) e (b\<lparr>managed_total := managed_total b + BLOCK_SIZE i\<rparr>)
      }
      else Some (cur, b))"

fun fill_orders :: "nat list \<Rightarrow> u64 \<Rightarrow> u64 \<Rightarrow> buddy \<Rightarrow> buddy option" where
  "fill_orders [] cur e b = Some b"
| "fill_orders (i # is) cur e b =
     do { (cur, b) \<leftarrow> fill_order i (ALIGN_UP cur (BLOCK_SIZE i)) e b; fill_orders is cur e b }"

text \<open>\<open>raw\<close> is what the memory that becomes the table held before.\<close>

definition mem_init :: "ptr \<Rightarrow> u64 \<Rightarrow> u8 list \<Rightarrow> buddy \<Rightarrow> (int \<times> buddy) option" where
  "mem_init base len raw b =
     (let start = ALIGN_DOWN base (BLOCK_SIZE BUDDY_MIN_ORDER);
          total = len - (start - base);
          mo = order_up (BUDDY_MAX_ORDER - 1 - BUDDY_MIN_ORDER) BUDDY_MIN_ORDER total;
          fl = map (\<lambda>i. if BUDDY_MIN_ORDER \<le> i \<and> i \<le> mo then [] else free_list b ! i) [0..<BUDDY_MAX_ORDER];
          blocks = drop_bit BUDDY_MIN_ORDER total;
          start' = start + ((blocks + BLOCK_SIZE BUDDY_MIN_ORDER - 1) AND NOT (BLOCK_SIZE BUDDY_MIN_ORDER - 1));
          total' = total - (start' - base);
          b = \<lparr>base_addr = start', total_len = total', max_order = mo, free_list = fl,
               order_map = take (unat blocks) raw, managed_total = 0\<rparr>
      in do { b \<leftarrow> fill_orders (rev [BUDDY_MIN_ORDER..<Suc mo]) start' (start' + total') b; Some (0, b) })"

text \<open>Shifting by 64 or more is undefined; the loop reaches it only for a request of more than \<open>2 ^ 63\<close> bytes.\<close>

fun order_for :: "nat \<Rightarrow> nat \<Rightarrow> u64 \<Rightarrow> nat option" where
  "order_for 0 order sz = None"
| "order_for (Suc n) order sz = (if BLOCK_SIZE order < sz then order_for n (order + 1) sz else Some order)"

fun first_list :: "nat \<Rightarrow> nat \<Rightarrow> buddy \<Rightarrow> nat" where
  "first_list 0 o' b = o'"
| "first_list (Suc n) o' b = (if o' \<le> max_order b \<and> free_list b ! o' = [] then first_list n (o' + 1) b else o')"

text \<open>The splitting loop, with \<open>n\<close> orders to go down.\<close>

fun split_loop :: "nat \<Rightarrow> nat \<Rightarrow> buddy \<Rightarrow> buddy option" where
  "split_loop order 0 b = Some b"
| "split_loop order (Suc n) b =
     do {
       (addr, b) \<leftarrow> pop_free (order + Suc n) b;
       let o' = order + n;
       let half = addr + BLOCK_SIZE o';
       b \<leftarrow> push_free o' addr b;
       b \<leftarrow> push_free o' half b;
       b \<leftarrow> set_order addr o' b;
       b \<leftarrow> set_order half o' b;
       split_loop order n b
     }"

definition mem_alloc :: "u64 \<Rightarrow> buddy \<Rightarrow> (ptr \<times> buddy) option" where
  "mem_alloc sz b =
     do {
       order \<leftarrow> order_for (64 - BUDDY_MIN_ORDER) BUDDY_MIN_ORDER sz;
       if order > max_order b then Some (NULL, b)
       else let o' = first_list (Suc (max_order b) - order) order b
            in if o' > max_order b then Some (NULL, b)
               else do {
                 b \<leftarrow> split_loop order (o' - order) b;
                 (a, b) \<leftarrow> pop_free order b;
                 b \<leftarrow> set_order a order b;
                 Some (a, b)
               }
     }"

text \<open>The merging loop, with \<open>n\<close> orders up to the largest.\<close>

fun merge_loop :: "nat \<Rightarrow> ptr \<Rightarrow> nat \<Rightarrow> buddy \<Rightarrow> (ptr \<times> nat \<times> buddy) option" where
  "merge_loop 0 addr order b = Some (addr, order, b)"
| "merge_loop (Suc n) addr order b =
     do {
       let buddy = buddy_of addr order;
       l \<leftarrow> aget (free_list b) order;
       if buddy \<in> set l
       then merge_loop n (if addr < buddy then addr else buddy) (order + 1)
              (b\<lparr>free_list := (free_list b)[order := remove1 buddy l]\<rparr>)
       else Some (addr, order, b)
     }"

definition mem_free :: "ptr \<Rightarrow> buddy \<Rightarrow> buddy option" where
  "mem_free p b =
     (if p = NULL then Some b
      else do {
        w \<leftarrow> aget (order_map b) (slot b p);
        let order = unat w;
        (addr, order, b) \<leftarrow> merge_loop (max_order b - order) p order b;
        push_free order addr b
      })"

definition mem_get_stats :: "buddy \<Rightarrow> u64 \<times> u64 \<times> u64" where
  "mem_get_stats b =
     (let free_bytes = (\<Sum>i\<leftarrow>[BUDDY_MIN_ORDER..<Suc (max_order b)]. of_nat (length (free_list b ! i)) * BLOCK_SIZE i)
      in (managed_total b, managed_total b - free_bytes, free_bytes))"

section \<open>Blocks\<close>

lemma BLOCK_SIZE_eq: "BLOCK_SIZE i = 2 ^ i"
  by (simp add: BLOCK_SIZE_def)

lemma unat_BLOCK_SIZE: "i < 64 \<Longrightarrow> unat (BLOCK_SIZE i) = 2 ^ i"
proof -
  assume "i < 64"
  then have "(2 :: nat) ^ i < 2 ^ 64" by (rule power_strict_increasing) simp
  moreover have e: "BLOCK_SIZE i = of_nat (2 ^ i)" by (simp add: BLOCK_SIZE_eq)
  ultimately show ?thesis unfolding e by (intro unat_of_nat_small) simp
qed

lemma unat_add_small: "unat (a :: u64) + k < 2 ^ 64 \<Longrightarrow> unat (a + of_nat k) = unat a + k"
proof -
  assume a: "unat a + k < 2 ^ 64"
  have e: "a + of_nat k = of_nat (unat a + k)" by simp
  show ?thesis unfolding e by (rule unat_of_nat_small) (use a in simp)
qed

lemma unat_add_block: "unat a + 2 ^ i < 2 ^ 64 \<Longrightarrow> unat (a + BLOCK_SIZE i) = unat a + 2 ^ i"
  using unat_add_small [of a "2 ^ i"] by (simp add: BLOCK_SIZE_eq)

lemma bit_aligned: "2 ^ i dvd unat (a :: u64) \<Longrightarrow> bit a i \<longleftrightarrow> \<not> 2 ^ Suc i dvd unat a"
proof -
  assume "2 ^ i dvd unat a"
  then obtain k where k: "unat a = 2 ^ i * k" by blast
  have "bit a i \<longleftrightarrow> bit (unat a) i" by (simp add: bit_unsigned_iff)
  also have "\<dots> \<longleftrightarrow> odd k" by (simp add: bit_iff_odd k)
  also have "\<dots> \<longleftrightarrow> \<not> 2 ^ Suc i dvd unat a" by (simp add: k mult.commute)
  finally show ?thesis .
qed

text \<open>The buddy of an aligned block is the other half of the block twice as large.\<close>

lemma unat_buddy:
  assumes "2 ^ i dvd unat a" and "unat a + 2 ^ i < 2 ^ 64"
  shows "unat (buddy_of a i) = (if 2 ^ Suc i dvd unat a then unat a + 2 ^ i else unat a - 2 ^ i)"
proof -
  have b: "buddy_of a i = flip_bit i a" by (simp add: buddy_of_def BLOCK_SIZE_def flip_bit_eq_xor)
  show ?thesis
  proof (cases "2 ^ Suc i dvd unat a")
    case True
    then have n: "\<not> bit a i" using bit_aligned [OF assms(1)] by simp
    then have "buddy_of a i = a + BLOCK_SIZE i"
      unfolding b by (simp add: flip_bit_eq_if set_bit_eq BLOCK_SIZE_eq)
    with True show ?thesis using unat_add_block [OF assms(2)] by simp
  next
    case False
    then have n: "bit a i" using bit_aligned [OF assms(1)] by simp
    then have "buddy_of a i = a - BLOCK_SIZE i"
      unfolding b by (simp add: flip_bit_eq_if unset_bit_eq BLOCK_SIZE_eq)
    moreover have i: "i < 64" using bit_imp_le_length [OF n] by simp
    have "unat a \<noteq> 0" using False by (intro notI) simp
    then have "2 ^ i \<le> unat a" using assms(1) by (simp add: dvd_imp_le)
    then have "unat (a - BLOCK_SIZE i) = unat a - 2 ^ i"
      using unat_BLOCK_SIZE [OF i] by (subst unat_sub) (simp_all add: word_le_nat_alt)
    ultimately show ?thesis using False by simp
  qed
qed

definition fits :: "buddy \<Rightarrow> ptr \<times> nat \<Rightarrow> bool" where
  "fits b x \<longleftrightarrow>
     (case x of (a, i) \<Rightarrow>
        12 \<le> i \<and> i \<le> max_order b \<and> 2 ^ i dvd unat a \<and> unat (base_addr b) \<le> unat a \<and>
        unat a + 2 ^ i \<le> unat (base_addr b) + unat (total_len b))"

definition apart :: "ptr \<times> nat \<Rightarrow> ptr \<times> nat \<Rightarrow> bool" where
  "apart x y \<longleftrightarrow> unat (fst x) + 2 ^ snd x \<le> unat (fst y) \<or> unat (fst y) + 2 ^ snd y \<le> unat (fst x)"

definition frees :: "buddy \<Rightarrow> (ptr \<times> nat) set" where
  "frees b = {(a, i). i < length (free_list b) \<and> a \<in> set (free_list b ! i)}"

definition shape :: "buddy \<Rightarrow> bool" where
  "shape b \<longleftrightarrow>
     length (free_list b) = BUDDY_MAX_ORDER \<and> 12 \<le> max_order b \<and> max_order b < BUDDY_MAX_ORDER \<and>
     0 < unat (base_addr b) \<and> 4096 dvd unat (base_addr b) \<and>
     unat (base_addr b) + unat (total_len b) < 2 ^ 64 \<and> unat (total_len b) div 4096 \<le> length (order_map b)"

definition coalesced :: "buddy \<Rightarrow> bool" where
  "coalesced b \<longleftrightarrow>
     (\<forall>i<max_order b. \<forall>a\<in>set (free_list b ! i). buddy_of a i \<notin> set (free_list b ! i))"

text \<open>The invariant, for a set of blocks in use: free blocks and blocks in use are aligned to their size, lie in
  the managed memory and do not overlap; no two free blocks could be merged.\<close>

definition buddy_ok :: "buddy \<Rightarrow> (ptr \<times> nat) set \<Rightarrow> bool" where
  "buddy_ok b L \<longleftrightarrow>
     shape b \<and> (\<forall>i<BUDDY_MAX_ORDER. distinct (free_list b ! i)) \<and> frees b \<inter> L = {} \<and> (\<forall>x\<in>frees b \<union> L. fits b x) \<and>
     pairwise apart (frees b \<union> L) \<and> coalesced b"

lemma buddy_okD:
  assumes "buddy_ok b L"
  shows "shape b" and "\<And>i. i < 32 \<Longrightarrow> distinct (free_list b ! i)" and "frees b \<inter> L = {}"
    and "\<And>x. x \<in> frees b \<Longrightarrow> fits b x" and "\<And>x. x \<in> L \<Longrightarrow> fits b x"
    and "\<And>x y. x \<in> frees b \<union> L \<Longrightarrow> y \<in> frees b \<union> L \<Longrightarrow> x \<noteq> y \<Longrightarrow> apart x y" and "coalesced b"
    and "length (free_list b) = 32" and "max_order b < 32" and "12 \<le> max_order b"
  using assms by (auto simp: buddy_ok_def shape_def pairwise_def)

lemma fitsD:
  assumes "fits b (a, i)" and "shape b"
  shows "12 \<le> i" and "i \<le> max_order b" and "i < 32" and "2 ^ i dvd unat a" and "unat (base_addr b) \<le> unat a"
    and "unat a + 2 ^ i \<le> unat (base_addr b) + unat (total_len b)" and "unat a + 2 ^ i < 2 ^ 64" and "a \<noteq> NULL"
  using assms by (auto simp: fits_def shape_def)

abbreviation set_list :: "nat \<Rightarrow> ptr list \<Rightarrow> buddy \<Rightarrow> buddy" where
  "set_list i l b \<equiv> b\<lparr>free_list := (free_list b)[i := l]\<rparr>"

lemma fits_set [simp]: "fits (set_list i l b) x = fits b x" "fits (b\<lparr>order_map := t\<rparr>) x = fits b x"
  by (simp_all add: fits_def)

lemma frees_set: "i < length (free_list b) \<Longrightarrow>
    frees (set_list i l b) = {(a, j) \<in> frees b. j \<noteq> i} \<union> (\<lambda>a. (a, i)) ` set l"
  by (auto simp: frees_def nth_list_update)

lemma frees_take:
  assumes "i < length (free_list b)" and "distinct (free_list b ! i)"
  shows "frees (set_list i (remove1 a (free_list b ! i)) b) = frees b - {(a, i)}"
  unfolding frees_set [OF assms(1)] using assms by (auto simp: frees_def)

lemma frees_put:
  assumes "i < length (free_list b)"
  shows "frees (set_list i (a # free_list b ! i) b) = insert (a, i) (frees b)"
  unfolding frees_set [OF assms(1)] using assms by (auto simp: frees_def)

lemma shape_set [simp]: "shape (set_list i l b) = shape b"
  by (simp add: shape_def)

lemma take_ok:
  assumes ok: "buddy_ok b L" and a: "a \<in> set (free_list b ! i)" and i: "i < 32"
  shows "buddy_ok (set_list i (remove1 a (free_list b ! i)) b) (insert (a, i) L)" and "(a, i) \<notin> L"
proof -
  note D = buddy_okD [OF ok]
  have f: "(a, i) \<in> frees b" using a i D(8) by (simp add: frees_def)
  then show nL: "(a, i) \<notin> L" using D(3) by blast
  note t = frees_take [of i b a, unfolded D(8), OF i D(2) [OF i]]
  have e: "frees b - {(a, i)} \<union> insert (a, i) L = frees b \<union> L" using f by blast
  have "distinct (free_list (set_list i (remove1 a (free_list b ! i)) b) ! j)" if "j < 32" for j
    using D(2) [OF that] D(2) [OF i] i D(8) by (simp add: nth_list_update)
  moreover have "coalesced (set_list i (remove1 a (free_list b ! i)) b)"
    using D(7) i D(8) unfolding coalesced_def
    by (auto simp: nth_list_update dest: notin_set_remove1)
  ultimately show "buddy_ok (set_list i (remove1 a (free_list b ! i)) b) (insert (a, i) L)"
    using ok nL D(3) unfolding buddy_ok_def t e by auto
qed

lemma put_ok:
  assumes ok: "buddy_ok b (insert (a, i) L)" and nL: "(a, i) \<notin> L"
    and m: "i = max_order b \<or> buddy_of a i \<notin> set (free_list b ! i)"
  shows "buddy_ok (set_list i (a # free_list b ! i) b) L"
proof -
  note D = buddy_okD [OF ok]
  have "fits b (a, i)" using D(5) by blast
  then have i: "i < 32" "i \<le> max_order b" using fitsD D(1) by blast+
  have nf: "a \<notin> set (free_list b ! i)" using D(3) i D(8) by (auto simp: frees_def)
  note t = frees_put [of i b a, unfolded D(8), OF i(1)]
  have e: "insert (a, i) (frees b) \<union> L = frees b \<union> insert (a, i) L" by blast
  have dist: "distinct (free_list (set_list i (a # free_list b ! i) b) ! j)" if "j < 32" for j
    using D(2) [OF that] D(2) [OF i(1)] i D(8) nf by (auto simp: nth_list_update)
  have bb: "buddy_of (buddy_of c j) j = c" for c j by (simp add: buddy_of_def xor.assoc)
  have "BLOCK_SIZE i \<noteq> 0" using unat_BLOCK_SIZE [of i] i by auto
  moreover have "BLOCK_SIZE i = 0" if e: "buddy_of a i = a"
  proof -
    have "a XOR buddy_of a i = BLOCK_SIZE i" by (simp add: buddy_of_def flip: xor.assoc)
    then show ?thesis unfolding e by simp
  qed
  ultimately have "buddy_of a i \<noteq> a" by blast
  then have co: "coalesced (set_list i (a # free_list b ! i) b)"
    using D(7) i D(8) m bb unfolding coalesced_def
    by (auto simp: nth_list_update)
  show ?thesis
    using ok nL D(3) co dist unfolding buddy_ok_def t e by auto
qed

lemma apart_sym: "apart x y \<longleftrightarrow> apart y x"
  by (auto simp: apart_def)

lemma pairwise_apart_insert:
  "pairwise apart (insert x S) \<longleftrightarrow> pairwise apart S \<and> (\<forall>y\<in>S. y \<noteq> x \<longrightarrow> apart x y)"
  by (auto simp: pairwise_insert apart_sym)

lemma halve_ok:
  assumes ok: "buddy_ok b (insert (a, Suc i) L)" and nL: "(a, Suc i) \<notin> L" and i: "12 \<le> i"
  shows "buddy_ok b (insert (a, i) (insert (a + BLOCK_SIZE i, i) L))"
    and "(a, i) \<notin> L" and "(a + BLOCK_SIZE i, i) \<notin> L" and "a + BLOCK_SIZE i \<noteq> a"
    and "buddy_of a i = a + BLOCK_SIZE i" and "buddy_of (a + BLOCK_SIZE i) i = a"
proof -
  note D = buddy_okD [OF ok]
  let ?h = "a + BLOCK_SIZE i" and ?S = "frees b \<union> L"
  have fx: "fits b (a, Suc i)" using D(5) by blast
  note f = fitsD [OF fx D(1)]
  have h: "unat ?h = unat a + 2 ^ i" using f(7) by (intro unat_add_block) simp
  have fit: "fits b (a, i)" "fits b (?h, i)"
    using f i h by (auto simp: fits_def intro: dvd_trans [OF le_imp_power_dvd])
  have S: "apart (a, Suc i) y" if "y \<in> ?S" for y
    using D(6) [of "(a, Suc i)" y] that nL D(3) by blast
  have sub: "apart (a, i) y \<and> apart (?h, i) y" if "y \<in> ?S" for y
    using S [OF that] h by (auto simp: apart_def)
  have ah: "apart (a, i) (?h, i)" using h by (simp add: apart_def)
  have out: "(a, i) \<notin> ?S" "(?h, i) \<notin> ?S"
    using sub [of "(a, i)"] sub [of "(?h, i)"] by (auto simp: apart_def)
  then show "(a, i) \<notin> L" "(?h, i) \<notin> L" by blast+
  show ne: "?h \<noteq> a" using h by auto
  have pS: "pairwise apart ?S" using ok unfolding buddy_ok_def by (auto simp: pairwise_def)
  have e: "frees b \<union> insert (a, i) (insert (?h, i) L) = insert (a, i) (insert (?h, i) ?S)" by blast
  have "pairwise apart (frees b \<union> insert (a, i) (insert (?h, i) L))"
    unfolding e pairwise_apart_insert using pS sub ah by auto
  then show "buddy_ok b (insert (a, i) (insert (?h, i) L))"
    using ok fit out unfolding buddy_ok_def by auto
  have d: "2 ^ Suc i dvd unat a" "2 ^ i dvd unat a" using f(4) by (auto intro: dvd_trans [OF le_imp_power_dvd])
  have "unat (buddy_of a i) = unat ?h" using unat_buddy [OF d(2)] d(1) f(7) h by simp
  then show bo: "buddy_of a i = ?h" by (rule unsigned_word_eqI)
  show "buddy_of ?h i = a" unfolding bo [symmetric] by (simp add: buddy_of_def xor.assoc)
qed

lemma join_ok:
  assumes ok: "buddy_ok b (insert (a, i) (insert (buddy_of a i, i) L))" and nL: "(a, i) \<notin> L" "(buddy_of a i, i) \<notin> L"
    and i: "i < max_order b"
  defines "m \<equiv> (if a < buddy_of a i then a else buddy_of a i)"
  shows "buddy_ok b (insert (m, Suc i) L)" and "(m, Suc i) \<notin> L"
proof -
  note D = buddy_okD [OF ok]
  let ?c = "buddy_of a i" and ?S = "frees b \<union> L"
  have fx: "fits b (a, i)" "fits b (?c, i)" using D(5) by blast+
  note f = fitsD [OF fx(1) D(1)] and g = fitsD [OF fx(2) D(1)]
  note u = unat_buddy [OF f(4,7)]
  have m: "2 ^ Suc i dvd unat m" "unat m = unat a \<and> unat ?c = unat a + 2 ^ i \<or> unat m = unat ?c \<and> unat a = unat ?c + 2 ^ i"
  proof -
    obtain k where k: "unat a = 2 ^ i * k" using f(4) by blast
    show "unat m = unat a \<and> unat ?c = unat a + 2 ^ i \<or> unat m = unat ?c \<and> unat a = unat ?c + 2 ^ i"
    proof (cases "2 ^ Suc i dvd unat a")
      case True
      then show ?thesis using u by (simp add: m_def word_less_nat_alt)
    next
      case False
      then have "unat a \<noteq> 0" by (intro notI) simp
      then have "2 ^ i \<le> unat a" using f(4) by (simp add: dvd_imp_le)
      moreover have "\<not> a < buddy_of a i" using u False by (simp add: word_less_nat_alt not_less)
      ultimately show ?thesis using u False by (simp add: m_def)
    qed
    show "2 ^ Suc i dvd unat m"
    proof (cases "2 ^ Suc i dvd unat a")
      case True
      then show ?thesis using u by (simp add: m_def word_less_nat_alt)
    next
      case False
      then have "odd k" by (simp add: k mult.commute)
      then obtain j where "k = Suc (2 * j)" by (auto elim: oddE)
      then have "unat ?c = 2 ^ Suc i * j" "unat ?c < unat a" using u False by (simp_all add: k)
      then show ?thesis by (simp add: m_def word_less_nat_alt)
    qed
  qed
  have fit: "fits b (m, Suc i)" using m f g i by (auto simp: fits_def)
  have out: "(a, i) \<notin> frees b" "(?c, i) \<notin> frees b" using D(3) by blast+
  have S: "apart (a, i) y \<and> apart (?c, i) y" if "y \<in> ?S" for y
    using D(6) [of "(a, i)" y] D(6) [of "(?c, i)" y] that nL out by blast
  have ap: "apart (m, Suc i) y" if "y \<in> ?S" for y
  proof -
    have p: "0 < (2 :: nat) ^ snd y" by simp
    show ?thesis using S [OF that] m(2) p unfolding apart_def fst_conv snd_conv power_Suc by linarith
  qed
  have nS: "(m, Suc i) \<notin> ?S" using ap [of "(m, Suc i)"] by (auto simp: apart_def)
  then show "(m, Suc i) \<notin> L" by blast
  have pS: "pairwise apart ?S" using ok unfolding buddy_ok_def by (auto simp: pairwise_def)
  have e: "frees b \<union> insert (m, Suc i) L = insert (m, Suc i) ?S" by blast
  have "pairwise apart (frees b \<union> insert (m, Suc i) L)"
    unfolding e pairwise_apart_insert using pS ap by auto
  then show "buddy_ok b (insert (m, Suc i) L)"
    using ok fit nS unfolding buddy_ok_def by auto
qed

section \<open>The table of orders\<close>

lemma slot_eq:
  assumes "fits b (a, i)" and "shape b"
  shows "slot b a = (unat a - unat (base_addr b)) div 4096" and "slot b a < length (order_map b)"
proof -
  note f = fitsD [OF assms]
  have "unat (a - base_addr b) = unat a - unat (base_addr b)" using f(5) by (subst unat_sub) (simp_all add: word_le_nat_alt)
  then show e: "slot b a = (unat a - unat (base_addr b)) div 4096"
    by (simp add: slot_def unsigned_drop_bit_eq drop_bit_eq_div unat_div)
  have "(2 :: nat) ^ 12 \<le> 2 ^ i" using f(1) by (rule power_increasing) simp
  then have "unat a - unat (base_addr b) + 4096 \<le> unat (total_len b)" using f(5,6) by simp
  then have "(unat a - unat (base_addr b) + 4096) div 4096 \<le> unat (total_len b) div 4096" by (rule div_le_mono)
  moreover have "(k + 4096) div 4096 = Suc (k div 4096)" for k :: nat by simp
  ultimately show "slot b a < length (order_map b)" using assms(2) unfolding e shape_def by simp
qed

lemma slot_inj:
  assumes "fits b (a, i)" and "fits b (c, j)" and "shape b" and "slot b a = slot b c"
  shows "a = c"
proof -
  note f = fitsD [OF assms(1,3)] and g = fitsD [OF assms(2,3)]
  have p: "(4096 :: nat) dvd 2 ^ k" if "12 \<le> k" for k using le_imp_power_dvd [OF that, of 2] by simp
  have b: "4096 dvd unat (base_addr b)" using assms(3) by (simp add: shape_def)
  have "4096 dvd unat a" "4096 dvd unat c" using p f(1,4) g(1,4) dvd_trans by blast+
  then have "4096 dvd unat a - unat (base_addr b)" "4096 dvd unat c - unat (base_addr b)" using b by (simp_all add: dvd_diff_nat)
  then have "unat a - unat (base_addr b) = unat c - unat (base_addr b)"
    using assms(4) slot_eq(1) [OF assms(1,3)] slot_eq(1) [OF assms(2,3)] by (metis dvd_div_mult_self)
  then have "unat a = unat c" using f(5) g(5) by simp
  then show ?thesis by (rule unsigned_word_eqI)
qed

abbreviation set_tag :: "ptr \<Rightarrow> nat \<Rightarrow> buddy \<Rightarrow> buddy" where
  "set_tag a i b \<equiv> b\<lparr>order_map := (order_map b)[slot b a := of_nat i]\<rparr>"

lemma set_order_ok: "fits b (a, j) \<Longrightarrow> shape b \<Longrightarrow> set_order a i b = Some (set_tag a i b)"
  using slot_eq(2) [of b a j] by (simp add: set_order_def aset_def)

lemma slot_upd [simp]: "slot (b\<lparr>order_map := t\<rparr>) a = slot b a" "slot (b\<lparr>free_list := f\<rparr>) a = slot b a"
  by (simp_all add: slot_def)

lemma buddy_ok_tag [simp]: "length t = length (order_map b) \<Longrightarrow> buddy_ok (b\<lparr>order_map := t\<rparr>) L = buddy_ok b L"
  by (simp add: buddy_ok_def shape_def frees_def coalesced_def)

definition tagged :: "buddy \<Rightarrow> (ptr \<times> nat) set \<Rightarrow> bool" where
  "tagged b L \<longleftrightarrow> (\<forall>(a, i)\<in>L. order_map b ! slot b a = of_nat i)"

lemma tagged_other:
  assumes "buddy_ok b (insert (c, j) L)" and "(c, j) \<notin> L" and "tagged b L"
  shows "tagged (set_tag c i b) L"
proof -
  note D = buddy_okD [OF assms(1)]
  have "slot b a \<noteq> slot b c" if "(a, k) \<in> L" for a k
  proof
    assume "slot b a = slot b c"
    then have "a = c" using slot_inj [of b a k c j] D(1) D(5) that by auto
    then show False using D(6) [of "(a, k)" "(c, j)"] that assms(2) by (auto simp: apart_def)
  qed
  then show ?thesis using assms(3) by (force simp: tagged_def slot_def)
qed

lemma push_free_eq: "i < 32 \<Longrightarrow> length (free_list b) = 32 \<Longrightarrow> push_free i a b = Some (set_list i (a # free_list b ! i) b)"
  by (simp add: push_free_def aget_def)

section \<open>Free memory\<close>

definition fsum :: "buddy \<Rightarrow> nat" where
  "fsum b = (\<Sum>x\<in>frees b. 2 ^ snd x)"

lemma finite_frees [simp]: "finite (frees b)"
proof -
  have "frees b = (\<Union>i<length (free_list b). (\<lambda>a. (a, i)) ` set (free_list b ! i))" by (auto simp: frees_def)
  then show ?thesis by simp
qed

lemma fsum_put:
  "i < length (free_list b) \<Longrightarrow> (a, i) \<notin> frees b \<Longrightarrow> fsum (set_list i (a # free_list b ! i) b) = fsum b + 2 ^ i"
  by (simp add: fsum_def frees_put)

lemma fsum_take:
  assumes "i < length (free_list b)" and "distinct (free_list b ! i)" and "a \<in> set (free_list b ! i)"
  shows "fsum (set_list i (remove1 a (free_list b ! i)) b) + 2 ^ i = fsum b"
proof -
  have "(a, i) \<in> frees b" using assms by (simp add: frees_def)
  then show ?thesis using sum.remove [of "frees b" "(a, i)" "\<lambda>x. (2 :: nat) ^ snd x"]
    by (simp add: fsum_def frees_take [OF assms(1,2)])
qed

lemma fsum_tag [simp]: "fsum (b\<lparr>order_map := t\<rparr>) = fsum b"
  by (simp add: fsum_def frees_def)

text \<open>What no operation changes.\<close>

definition same_pool :: "buddy \<Rightarrow> buddy \<Rightarrow> bool" where
  "same_pool b b' \<longleftrightarrow>
     base_addr b' = base_addr b \<and> total_len b' = total_len b \<and> max_order b' = max_order b \<and>
     managed_total b' = managed_total b \<and> length (order_map b') = length (order_map b)"

lemma same_pool_refl [simp]: "same_pool b b"
  by (simp add: same_pool_def)

lemma same_pool_trans: "same_pool b c \<Longrightarrow> same_pool c d \<Longrightarrow> same_pool b d"
  by (simp add: same_pool_def)

lemma same_pool_set [simp]: "same_pool b (set_list i l c) = same_pool b c" "same_pool b (set_tag a i c) = same_pool b c"
  by (simp_all add: same_pool_def)

section \<open>Splitting\<close>

text \<open>The splitting loop seen from the block in hand: it keeps the lower half on its list and goes on with the
  upper one, which the code puts on the list and takes off again.\<close>

fun split_held :: "nat \<Rightarrow> nat \<Rightarrow> ptr \<Rightarrow> buddy \<Rightarrow> (ptr \<times> buddy) option" where
  "split_held order 0 x b = Some (x, b)"
| "split_held order (Suc n) x b =
     do {
       let o' = order + n;
       let half = x + BLOCK_SIZE o';
       b \<leftarrow> push_free o' x b;
       b \<leftarrow> set_order x o' b;
       b \<leftarrow> set_order half o' b;
       split_held order n half b
     }"

lemma split_loop_held:
  assumes "length (free_list b) = 32" and "order + n < 32"
  shows "do { b \<leftarrow> split_loop order n b; pop_free order b } =
         do { (x, b) \<leftarrow> pop_free (order + n) b; split_held order n x b }"
  using assms
proof (induction n arbitrary: b)
  case 0
  show ?case by (cases "pop_free order b") auto
next
  case (Suc n)
  show ?case
  proof (cases "free_list b ! (order + Suc n)")
    case Nil
    then show ?thesis using Suc.prems by (simp add: pop_free_def aget_def)
  next
    case (Cons x l)
    let ?o = "order + n" and ?h = "x + BLOCK_SIZE (order + n)"
    let ?b = "set_list (Suc (order + n)) l b"
    let ?t = "(order_map b)[slot b x := of_nat ?o, slot b ?h := of_nat ?o]"
    let ?c = "b\<lparr>free_list := (free_list b)[Suc ?o := l, ?o := x # free_list b ! ?o], order_map := ?t\<rparr>"
    let ?d = "b\<lparr>free_list := (free_list b)[Suc ?o := l, ?o := ?h # x # free_list b ! ?o], order_map := ?t\<rparr>"
    have sl: "slot (c\<lparr>free_list := f\<rparr>) a = slot c a" "slot (c\<lparr>order_map := t\<rparr>) a = slot c a" for c f a t
      by (simp_all add: slot_def)
    have pop: "pop_free (order + Suc n) b = Some (x, ?b)"
      using Suc.prems Cons by (simp add: pop_free_def aget_def)
    show ?thesis
    proof (cases "slot b x < length (order_map b) \<and> slot b ?h < length (order_map b)")
      case False
      then show ?thesis using Suc.prems unfolding split_loop.simps split_held.simps pop
        by (auto simp: push_free_def aget_def set_order_def aset_def sl Let_def)
    next
      case True
      have "do { b \<leftarrow> split_loop order (Suc n) b; pop_free order b } =
            do { b \<leftarrow> split_loop order n ?d; pop_free order b }"
        using Suc.prems True unfolding split_loop.simps pop
        by (simp add: push_free_def aget_def set_order_def aset_def sl Let_def)
      also have "\<dots> = do { (x, b) \<leftarrow> pop_free ?o ?d; split_held order n x b }"
        using Suc.IH [of ?d] Suc.prems by simp
      also have "pop_free ?o ?d = Some (?h, ?c)"
        using Suc.prems by (simp add: pop_free_def aget_def)
      also have "do { (x, b) \<leftarrow> Some (?h, ?c); split_held order n x b } = split_held order n ?h ?c" by simp
      also have "\<dots> = do { (x, b) \<leftarrow> pop_free (order + Suc n) b; split_held order (Suc n) x b }"
        using Suc.prems True unfolding split_held.simps pop
        by (simp add: push_free_def aget_def set_order_def aset_def sl Let_def)
      finally show ?thesis .
    qed
  qed
qed

lemma buddy_ok_subset: "buddy_ok b L \<Longrightarrow> K \<subseteq> L \<Longrightarrow> buddy_ok b K"
  unfolding buddy_ok_def by (auto intro: pairwise_subset)

lemma tagged_set [simp]: "tagged (set_list i l b) L = tagged b L"
  by (simp add: tagged_def slot_def)

lemma split_held_ok:
  assumes "buddy_ok b (insert (x, order + n) L)" and "(x, order + n) \<notin> L" and "12 \<le> order" and "tagged b L"
  shows "\<exists>y b'. split_held order n x b = Some (y, b') \<and> buddy_ok b' (insert (y, order) L) \<and> (y, order) \<notin> L \<and>
           tagged b' L \<and> same_pool b b' \<and> fsum b' + 2 ^ order = fsum b + 2 ^ (order + n) \<and>
           ((\<forall>i. order \<le> i \<and> i < order + n \<longrightarrow> free_list b ! i = []) \<longrightarrow>
            (\<forall>N. merge_loop (N + n) y order b' = merge_loop N x (order + n) (b'\<lparr>free_list := free_list b\<rparr>)))"
  using assms
proof (induction n arbitrary: x b)
  case 0
  then show ?case by simp
next
  case (Suc n)
  let ?o = "order + n" and ?h = "x + BLOCK_SIZE (order + n)"
  have ok: "buddy_ok b (insert (x, Suc ?o) L)" "(x, Suc ?o) \<notin> L" using Suc.prems(1,2) by simp_all
  have o12: "12 \<le> ?o" using Suc.prems(3) by simp
  note hv = halve_ok [OF ok o12]
  note D = buddy_okD [OF hv(1)]
  have fx: "fits b (x, ?o)" "fits b (?h, ?o)" using D(5) by blast+
  note f = fitsD [OF fx(1) D(1)]
  have nx: "(x, ?o) \<notin> insert (?h, ?o) L" using hv(2,4) by auto
  have hf: "?h \<notin> set (free_list b ! ?o)" using D(3) f(3) D(8) by (auto simp: frees_def)
  let ?b1 = "set_list ?o (x # free_list b ! ?o) b"
  have ok1: "buddy_ok ?b1 (insert (?h, ?o) L)"
    using put_ok [OF hv(1) nx] hf hv(5) by simp
  have okx: "buddy_ok b (insert (x, ?o) L)" "buddy_ok b (insert (?h, ?o) L)"
    using hv(1) by (auto elim: buddy_ok_subset)
  let ?b2 = "set_tag x ?o ?b1" and ?b3 = "set_tag ?h ?o (set_tag x ?o ?b1)"
  have run: "split_held order (Suc n) x b = split_held order n ?h ?b3"
  proof -
    have "push_free ?o x b = Some ?b1" by (rule push_free_eq [OF f(3) D(8)])
    moreover have "set_order x ?o ?b1 = Some ?b2" using fx(1) D(1) by (intro set_order_ok) simp_all
    moreover have "set_order ?h ?o ?b2 = Some ?b3"
      using fx(2) D(1) by (intro set_order_ok [where j = ?o]) (simp_all add: shape_def)
    ultimately show ?thesis by (simp add: Let_def)
  qed
  have "tagged (set_tag x ?o b) L" using tagged_other [OF okx(1) hv(2) Suc.prems(4)] .
  then have "tagged (set_tag ?h ?o (set_tag x ?o b)) L"
    using tagged_other [of "set_tag x ?o b" ?h ?o L ?o] okx(2) hv(3) by simp
  then have t3: "tagged ?b3 L" by (simp add: tagged_def slot_def)
  have "buddy_ok ?b3 (insert (?h, ?o) L)" using ok1 by simp
  from Suc.IH [OF this hv(3) Suc.prems(3) t3] obtain y b' where
    y: "split_held order n ?h ?b3 = Some (y, b')" "buddy_ok b' (insert (y, order) L)" "(y, order) \<notin> L"
      "tagged b' L" "same_pool ?b3 b'" "fsum b' + 2 ^ order = fsum ?b3 + 2 ^ ?o"
      "(\<forall>i. order \<le> i \<and> i < ?o \<longrightarrow> free_list ?b3 ! i = []) \<longrightarrow>
       (\<forall>N. merge_loop (N + n) y order b' = merge_loop N ?h ?o (b'\<lparr>free_list := free_list ?b3\<rparr>))" by blast
  have xf: "(x, ?o) \<notin> frees b" using D(3) by blast
  have fs: "fsum b' + 2 ^ order = fsum b + 2 ^ (order + Suc n)"
    using y(6) fsum_put [of ?o b x] xf f(3) D(8) by simp
  have sp: "same_pool b b'" using y(5) by (simp add: same_pool_def)
  have undo: "merge_loop (N + Suc n) y order b' = merge_loop N x (order + Suc n) (b'\<lparr>free_list := free_list b\<rparr>)"
    if e: "\<forall>i. order \<le> i \<and> i < order + Suc n \<longrightarrow> free_list b ! i = []" for N
  proof -
    have eo: "free_list b ! ?o = []" using e by simp
    have "\<forall>i. order \<le> i \<and> i < ?o \<longrightarrow> free_list ?b3 ! i = []" using e by simp
    then have "merge_loop (Suc N + n) y order b' = merge_loop (Suc N) ?h ?o (b'\<lparr>free_list := free_list ?b3\<rparr>)"
      using y(7) by blast
    moreover have "free_list ?b3 = (free_list b)[?o := [x]]" by (simp add: eo)
    moreover have "unat ?h = unat x + 2 ^ ?o" using f(7) by (rule unat_add_block)
    then have "\<not> ?h < x" by (simp add: word_less_nat_alt)
    moreover have "(free_list b)[?o := []] = free_list b" using eo by (metis list_update_id)
    ultimately show ?thesis using f(3) D(8) hv(6) by (simp add: aget_def)
  qed
  show ?case unfolding run using y(1-4) fs sp undo by blast
qed

text \<open>Merging.\<close>

lemma merge_loop_ok:
  assumes "buddy_ok b (insert (a, i) L)" and "(a, i) \<notin> L" and "tagged b L" and "n = max_order b - i"
  shows "\<exists>c j b'. merge_loop n a i b = Some (c, j, b') \<and> buddy_ok b' (insert (c, j) L) \<and> (c, j) \<notin> L \<and> tagged b' L \<and>
           same_pool b b' \<and> (j = max_order b' \<or> buddy_of c j \<notin> set (free_list b' ! j)) \<and> fsum b' + 2 ^ j = fsum b + 2 ^ i"
  using assms
proof (induction n arbitrary: a i b)
  case 0
  note D = buddy_okD [OF 0(1)]
  have "fits b (a, i)" using D(5) by blast
  then have "i = max_order b" using fitsD(2) D(1) 0(4) by fastforce
  with 0 show ?case by simp
next
  case (Suc n)
  note D = buddy_okD [OF Suc.prems(1)]
  have "fits b (a, i)" using D(5) by blast
  note f = fitsD [OF this D(1)]
  have g: "aget (free_list b) i = Some (free_list b ! i)" using f(3) D(8) by (simp add: aget_def)
  show ?case
  proof (cases "buddy_of a i \<in> set (free_list b ! i)")
    case False
    then have "merge_loop (Suc n) a i b = Some (a, i, b)" using g by simp
    with False Suc.prems(1-3) show ?thesis by auto
  next
    case True
    let ?c = "buddy_of a i" and ?b1 = "set_list i (remove1 (buddy_of a i) (free_list b ! i)) b"
    let ?m = "if a < ?c then a else ?c"
    note tk = take_ok [OF Suc.prems(1) True f(3)]
    have ok1: "buddy_ok ?b1 (insert (a, i) (insert (?c, i) L))" using tk(1) by (simp add: insert_commute)
    have i: "i < max_order ?b1" using Suc.prems(4) by simp
    have "(?c, i) \<notin> L" using tk(2) by blast
    note j = join_ok [OF ok1 Suc.prems(2) this i]
    have "n = max_order ?b1 - Suc i" using Suc.prems(4) by simp
    from Suc.IH [OF j(1,2) _ this] Suc.prems(3) obtain c k b' where
      m: "merge_loop n ?m (Suc i) ?b1 = Some (c, k, b')" "buddy_ok b' (insert (c, k) L)" "(c, k) \<notin> L" "tagged b' L"
         "same_pool ?b1 b'" "k = max_order b' \<or> buddy_of c k \<notin> set (free_list b' ! k)"
         "fsum b' + 2 ^ k = fsum ?b1 + 2 ^ Suc i" by auto
    have "fsum ?b1 + 2 ^ i = fsum b" using fsum_take [of i b ?c] f(3) D(8) D(2) [OF f(3)] True by simp
    then have "fsum b' + 2 ^ k = fsum b + 2 ^ i" using m(7) by simp
    moreover have "merge_loop (Suc n) a i b = merge_loop n ?m (Suc i) ?b1" using g True by (simp add: Let_def)
    moreover have "same_pool b b'" using m(5) by (simp add: same_pool_def)
    ultimately show ?thesis using m(1-4,6) by metis
  qed
qed

section \<open>Allocation and freeing\<close>

text \<open>The order of a request: the least from 12 on whose blocks are large enough.\<close>

definition right_order :: "u64 \<Rightarrow> nat \<Rightarrow> bool" where
  "right_order sz i \<longleftrightarrow> 12 \<le> i \<and> unat sz \<le> 2 ^ i \<and> (i = 12 \<or> 2 ^ (i - 1) < unat sz)"

lemma order_for_loop:
  assumes "i + n = 64" and "unat sz \<le> 2 ^ 63" and "i \<le> 63" and "12 \<le> i" and "i = 12 \<or> 2 ^ (i - 1) < unat sz"
  shows "\<exists>j. order_for n i sz = Some j \<and> right_order sz j"
  using assms
proof (induction n arbitrary: i)
  case (Suc n)
  have lt: "BLOCK_SIZE i < sz \<longleftrightarrow> 2 ^ i < unat sz" using unat_BLOCK_SIZE [of i] Suc.prems(3) by (simp add: word_less_nat_alt)
  show ?case
  proof (cases "2 ^ i < unat sz")
    case True
    then have "i \<noteq> 63" using Suc.prems(2) by auto
    with True Suc.IH [of "i + 1"] Suc.prems lt show ?thesis by simp
  next
    case False
    with Suc.prems lt show ?thesis by (simp add: right_order_def)
  qed
qed simp

lemma order_for_ok: "unat sz \<le> 2 ^ 63 \<Longrightarrow> \<exists>j. order_for (64 - BUDDY_MIN_ORDER) BUDDY_MIN_ORDER sz = Some j \<and> right_order sz j"
  by (rule order_for_loop) simp_all

lemma first_list_ok:
  assumes "n = Suc (max_order b) - i" and "i \<le> Suc (max_order b)"
  shows "i \<le> first_list n i b \<and> first_list n i b \<le> Suc (max_order b) \<and>
         (\<forall>j. i \<le> j \<and> j < first_list n i b \<longrightarrow> free_list b ! j = []) \<and>
         (first_list n i b \<le> max_order b \<longrightarrow> free_list b ! first_list n i b \<noteq> [])"
  using assms
proof (induction n arbitrary: i)
  case (Suc n)
  show ?case
  proof (cases "free_list b ! i = []")
    case True
    have "n = Suc (max_order b) - (i + 1)" "i + 1 \<le> Suc (max_order b)" using Suc.prems by simp_all
    note IH = Suc.IH [OF this]
    have "i \<le> max_order b" using Suc.prems(1) by simp
    then have e: "first_list (Suc n) i b = first_list n (i + 1) b" using True by simp
    have "free_list b ! j = []" if "i \<le> j" "j < first_list n (i + 1) b" for j
      using that IH True by (cases "j = i") auto
    with IH show ?thesis unfolding e by auto
  next
    case False
    then have "first_list (Suc n) i b = i" by simp
    with False Suc.prems(2) show ?thesis by auto
  qed
qed auto

lemma merge_loop_tag:
  "merge_loop n a i (b\<lparr>order_map := t\<rparr>) = map_option (\<lambda>(c, j, b). (c, j, b\<lparr>order_map := t\<rparr>)) (merge_loop n a i b)"
proof (induction n arbitrary: a i b)
  case (Suc n)
  have sw: "b\<lparr>order_map := t, free_list := f\<rparr> = b\<lparr>free_list := f\<rparr>\<lparr>order_map := t\<rparr>" for b :: buddy and f by simp
  show ?case
    using Suc.IH by (cases "aget (free_list b) i") (auto simp: Let_def sw)
qed simp

lemma unat_order: "i < 32 \<Longrightarrow> unat (of_nat i :: u8) = i"
  by (rule unat_of_nat_small) simp

lemma mem_free_ok:
  assumes "buddy_ok b (insert (a, i) L)" and "(a, i) \<notin> L" and "tagged b (insert (a, i) L)"
  shows "\<exists>b'. mem_free a b = Some b' \<and> buddy_ok b' L \<and> tagged b' L \<and> same_pool b b' \<and> fsum b' = fsum b + 2 ^ i"
proof -
  note D = buddy_okD [OF assms(1)]
  have fx: "fits b (a, i)" using D(5) by blast
  note f = fitsD [OF this D(1)]
  have w: "aget (order_map b) (slot b a) = Some (of_nat i)" "tagged b L"
    using slot_eq(2) [OF fx D(1)] assms(3) by (simp_all add: aget_def tagged_def)
  from merge_loop_ok [OF assms(1,2) w(2) refl] obtain c j b' where
    m: "merge_loop (max_order b - i) a i b = Some (c, j, b')" "buddy_ok b' (insert (c, j) L)" "(c, j) \<notin> L" "tagged b' L"
       "same_pool b b'" "j = max_order b' \<or> buddy_of c j \<notin> set (free_list b' ! j)" "fsum b' + 2 ^ j = fsum b + 2 ^ i" by blast
  note D' = buddy_okD [OF m(2)]
  have "fits b' (c, j)" using D'(5) by blast
  note g = fitsD [OF this D'(1)]
  have "(c, j) \<notin> frees b'" using D'(3) by blast
  then have "fsum (set_list j (c # free_list b' ! j) b') = fsum b + 2 ^ i"
    using fsum_put [of j b' c] g(3) D'(8) m(7) by simp
  moreover have "mem_free a b = Some (set_list j (c # free_list b' ! j) b')"
    using w(1) f(3,8) m(1) push_free_eq [OF g(3) D'(8)] by (simp add: mem_free_def unat_order)
  ultimately show ?thesis using put_ok [OF m(2,3,6)] m(4,5) by simp
qed

lemma mem_alloc_ok:
  assumes ok: "buddy_ok b L" and t: "tagged b L" and sz: "unat sz \<le> 2 ^ 63"
  shows "\<exists>i. right_order sz i \<and>
     ((\<forall>x\<in>frees b. snd x < i) \<and> mem_alloc sz b = Some (NULL, b) \<or>
      (\<exists>x\<in>frees b. i \<le> snd x) \<and>
      (\<exists>a b'. mem_alloc sz b = Some (a, b') \<and> buddy_ok b' (insert (a, i) L) \<and> (a, i) \<notin> L \<and>
              tagged b' (insert (a, i) L) \<and> same_pool b b' \<and> fsum b' + 2 ^ i = fsum b \<and>
              mem_free a b' = Some (b'\<lparr>free_list := free_list b\<rparr>)))"
proof -
  note D = buddy_okD [OF ok]
  obtain i where i: "order_for (64 - BUDDY_MIN_ORDER) BUDDY_MIN_ORDER sz = Some i" "right_order sz i"
    using order_for_ok [OF sz] by blast
  have i12: "12 \<le> i" using i(2) by (simp add: right_order_def)
  have le: "snd x \<le> max_order b" if "x \<in> frees b" for x
    using fitsD(2) [of b "fst x" "snd x"] D(4) [OF that] D(1) by simp
  show ?thesis
  proof (cases "max_order b < i")
    case True
    then have "mem_alloc sz b = Some (NULL, b)" using i(1) by (simp add: mem_alloc_def)
    moreover have "\<forall>x\<in>frees b. snd x < i" using le True by fastforce
    ultimately show ?thesis using i(2) by blast
  next
    case False
    let ?r = "first_list (Suc (max_order b) - i) i b"
    have il: "i \<le> Suc (max_order b)" using False by simp
    note r = first_list_ok [OF refl il]
    show ?thesis
    proof (cases "max_order b < ?r")
      case True
      have "snd x < i" if "x \<in> frees b" for x
      proof (rule ccontr)
        assume "\<not> snd x < i"
        then have "free_list b ! snd x = []" using r le [OF that] True by auto
        then show False using that by (auto simp: frees_def)
      qed
      moreover have "mem_alloc sz b = Some (NULL, b)" using i(1) False True by (simp add: mem_alloc_def Let_def)
      ultimately show ?thesis using i(2) by blast
    next
      case rm: False
      then obtain x l where l: "free_list b ! ?r = x # l" using r by (cases "free_list b ! ?r") auto
      have r32: "?r < 32" using rm D(9) by simp
      let ?b0 = "set_list ?r l b"
      have xl: "x \<in> set (free_list b ! ?r)" "remove1 x (free_list b ! ?r) = l" by (simp_all add: l)
      note tk = take_ok [OF ok xl(1) r32, unfolded xl(2)]
      have n: "i + (?r - i) = ?r" using r by simp
      have "tagged ?b0 L" using t by simp
      from split_held_ok [of ?b0 x i "?r - i" L, unfolded n, OF tk i12 this] obtain y b1 where
        y: "split_held i (?r - i) x ?b0 = Some (y, b1)" "buddy_ok b1 (insert (y, i) L)" "(y, i) \<notin> L" "tagged b1 L"
           "same_pool ?b0 b1" "fsum b1 + 2 ^ i = fsum ?b0 + 2 ^ ?r"
           "(\<forall>j. i \<le> j \<and> j < ?r \<longrightarrow> free_list ?b0 ! j = []) \<longrightarrow>
            (\<forall>N. merge_loop (N + (?r - i)) y i b1 = merge_loop N x ?r (b1\<lparr>free_list := free_list ?b0\<rparr>))" by blast
      note D1 = buddy_okD [OF y(2)]
      have fy: "fits b1 (y, i)" using D1(5) by blast
      note g = fitsD [OF fy D1(1)]
      let ?b2 = "set_tag y i b1"
      have pop: "pop_free ?r b = Some (x, ?b0)" using l r32 D(8) by (simp add: pop_free_def aget_def)
      have "do { b \<leftarrow> split_loop i (?r - i) b; pop_free i b } = Some (y, b1)"
        using split_loop_held [OF D(8), of i "?r - i"] n r32 pop y(1) by simp
      then have "do { b \<leftarrow> split_loop i (?r - i) b; (a, b) \<leftarrow> pop_free i b; b \<leftarrow> set_order a i b; Some (a, b) } =
          Some (y, ?b2)"
        using set_order_ok [OF fy D1(1), of i] by (cases "split_loop i (?r - i) b") auto
      then have al: "mem_alloc sz b = Some (y, ?b2)"
        using i(1) False rm by (simp add: mem_alloc_def Let_def)
      have tg: "tagged ?b2 (insert (y, i) L)"
        using tagged_other [OF y(2-4)] slot_eq(2) [OF fy D1(1)] by (simp add: tagged_def)
      have fs: "fsum ?b2 + 2 ^ i = fsum b"
        using y(6) fsum_take [of ?r b x] xl r32 D(8) D(2) [OF r32] by simp
      have sp: "same_pool b ?b2" using y(5) by (simp add: same_pool_def)
      have "\<forall>j. i \<le> j \<and> j < ?r \<longrightarrow> free_list ?b0 ! j = []" using r by simp
      then have "merge_loop (max_order b - ?r + (?r - i)) y i b1 =
          merge_loop (max_order b - ?r) x ?r (b1\<lparr>free_list := free_list ?b0\<rparr>)" using y(7) by blast
      moreover have "max_order b - ?r + (?r - i) = max_order ?b2 - i" using rm r sp by (simp add: same_pool_def)
      ultimately have "merge_loop (max_order ?b2 - i) y i b1 =
          merge_loop (max_order b - ?r) x ?r (b1\<lparr>free_list := free_list ?b0\<rparr>)" by simp
      moreover have "merge_loop (max_order b - ?r) x ?r (b1\<lparr>free_list := free_list ?b0\<rparr>) =
          Some (x, ?r, b1\<lparr>free_list := free_list ?b0\<rparr>)"
      proof (cases "max_order b - ?r")
        case (Suc k)
        then have "buddy_of x ?r \<notin> set (free_list b ! ?r)" using D(7) xl(1) by (simp add: coalesced_def)
        then show ?thesis using Suc r32 D(8) l by (simp add: aget_def)
      qed simp
      ultimately have "merge_loop (max_order ?b2 - i) y i ?b2 = Some (x, ?r, ?b2\<lparr>free_list := free_list ?b0\<rparr>)"
        by (simp add: merge_loop_tag)
      moreover have "aget (order_map ?b2) (slot ?b2 y) = Some (of_nat i)"
        using slot_eq(2) [OF fy D1(1)] by (simp add: aget_def)
      moreover have "(free_list b)[?r := x # l] = free_list b" by (metis l list_update_id)
      ultimately have "mem_free y ?b2 = Some (?b2\<lparr>free_list := free_list b\<rparr>)"
        using g(3,8) r32 D(8) by (simp add: mem_free_def unat_order push_free_def aget_def)
      moreover have "\<exists>x\<in>frees b. i \<le> snd x"
        using xl(1) r32 D(8) r by (intro bexI [of _ "(x, ?r)"]) (simp_all add: frees_def)
      ultimately show ?thesis using i(2) al y(2,3) tg sp fs by auto
    qed
  qed
qed

section \<open>The manager as a page allocator\<close>

text \<open>The state together with the blocks handed out and not given back, and their orders.\<close>

type_synonym managed = "buddy \<times> (ptr \<rightharpoonup> nat)"

definition bd_alloc :: "managed \<Rightarrow> u64 \<Rightarrow> managed \<times> ptr" where
  "bd_alloc m n =
     (case mem_alloc n (fst m) of
        None \<Rightarrow> (m, NULL)
      | Some (a, b) \<Rightarrow>
          if a = NULL then (m, NULL) else ((b, (snd m)(a \<mapsto> unat (order_map b ! slot b a))), a))"

definition bd_free :: "managed \<Rightarrow> ptr \<Rightarrow> managed option" where
  "bd_free m a = map_option (\<lambda>b. (b, (snd m)(a := None))) (mem_free a (fst m))"

definition bd_inv :: "managed \<Rightarrow> bool" where
  "bd_inv m \<longleftrightarrow> buddy_ok (fst m) (Map.graph (snd m)) \<and> tagged (fst m) (Map.graph (snd m))"

definition bd_extent :: "managed \<Rightarrow> ptr \<Rightarrow> nat" where
  "bd_extent m a = (case snd m a of None \<Rightarrow> 0 | Some i \<Rightarrow> 2 ^ i)"

definition bd_avail :: "managed \<Rightarrow> nat" where
  "bd_avail m = fsum (fst m) div 4096"

lemma order_for_none: "i + n = 64 \<Longrightarrow> 2 ^ 63 < unat sz \<Longrightarrow> order_for n i sz = None"
proof (induction n arbitrary: i)
  case (Suc n)
  have "(2 :: nat) ^ i \<le> 2 ^ 63" by (rule power_increasing) (use Suc.prems in simp_all)
  then have "BLOCK_SIZE i < sz" using unat_BLOCK_SIZE [of i] Suc.prems by (simp add: word_less_nat_alt)
  then show ?case using Suc by simp
qed simp

lemma bd_alloc_cases:
  assumes "bd_inv m"
  obtains (full) "bd_alloc m n = (m, NULL)" and "unat n \<le> 2 ^ 63 \<longrightarrow> mem_alloc n (fst m) = Some (NULL, fst m)" and "\<forall>i. right_order n i \<longrightarrow> (\<forall>x\<in>frees (fst m). snd x < i)"
  | (block) a b i where "bd_alloc m n = ((b, (snd m)(a \<mapsto> i)), a)" and "right_order n i" and "a \<noteq> NULL"
      and "snd m a = None" and "bd_inv (b, (snd m)(a \<mapsto> i))" and "fsum b + 2 ^ i = fsum (fst m)"
      and "fits (fst m) (a, i)" and "mem_alloc n (fst m) = Some (a, b)"
      and "mem_free a b = Some (b\<lparr>free_list := free_list (fst m)\<rparr>)"
proof -
  obtain b0 live where m: "m = (b0, live)" by (cases m)
  have ok: "buddy_ok b0 (Map.graph live)" and tg: "tagged b0 (Map.graph live)" using assms by (simp_all add: bd_inv_def m)
  have uniq: "i = j" if "right_order n i" "right_order n j" for i j
  proof (rule ccontr)
    have *: False if "right_order n i" "right_order n j" "i < j" for i j
    proof -
      have "(2 :: nat) ^ i \<le> 2 ^ (j - 1)" by (rule power_increasing) (use that in simp_all)
      then have "unat n \<le> 2 ^ (j - 1)" using that(1) unfolding right_order_def by linarith
      moreover have "2 ^ (j - 1) < unat n" using that by (simp add: right_order_def)
      ultimately show False by simp
    qed
    assume "i \<noteq> j"
    then show False using * that by (meson linorder_neqE_nat)
  qed
  show thesis
  proof (cases "unat n \<le> 2 ^ 63")
    case False
    then have "mem_alloc n b0 = None" using order_for_none [of 12 52 n] by (simp add: mem_alloc_def)
    then have "bd_alloc m n = (m, NULL)" by (simp add: bd_alloc_def m)
    moreover have "snd x < i" if "right_order n i" "x \<in> frees (fst m)" for i x
    proof -
      have "snd x \<le> 63" using fitsD(3) [of b0 "fst x" "snd x"] buddy_okD(1,4) [OF ok] that(2) by (simp add: m)
      moreover have "\<not> i \<le> 63" using that(1) False power_increasing [of i 63 "2 :: nat"] by (auto simp: right_order_def)
      ultimately show ?thesis by simp
    qed
    ultimately show thesis using full False by blast
  next
    case True
    from mem_alloc_ok [OF ok tg True] obtain i where i: "right_order n i"
      "(\<forall>x\<in>frees b0. snd x < i) \<and> mem_alloc n b0 = Some (NULL, b0) \<or>
       (\<exists>a b'. mem_alloc n b0 = Some (a, b') \<and> buddy_ok b' (insert (a, i) (Map.graph live)) \<and> (a, i) \<notin> Map.graph live \<and>
              tagged b' (insert (a, i) (Map.graph live)) \<and> same_pool b0 b' \<and> fsum b' + 2 ^ i = fsum b0 \<and>
              mem_free a b' = Some (b'\<lparr>free_list := free_list b0\<rparr>))" by blast
    from i(2) show thesis
    proof (elim disjE exE conjE)
      assume "\<forall>x\<in>frees b0. snd x < i" "mem_alloc n b0 = Some (NULL, b0)"
      then show thesis using full uniq [OF i(1)] by (auto simp: bd_alloc_def m)
    next
      fix a b'
      assume r: "mem_alloc n b0 = Some (a, b')" "buddy_ok b' (insert (a, i) (Map.graph live))" "(a, i) \<notin> Map.graph live"
        "tagged b' (insert (a, i) (Map.graph live))" "same_pool b0 b'" "fsum b' + 2 ^ i = fsum b0"
        "mem_free a b' = Some (b'\<lparr>free_list := free_list b0\<rparr>)"
      note D = buddy_okD [OF r(2)]
      have fx: "fits b' (a, i)" using D(5) by blast
      note f = fitsD [OF this D(1)]
      have la: "live a = None"
      proof (rule ccontr)
        assume "live a \<noteq> None"
        then obtain j where "(a, j) \<in> Map.graph live" by (auto intro: in_graphI)
        then show False using D(6) [of "(a, j)" "(a, i)"] r(3) by (auto simp: apart_def)
      qed
      then have g: "Map.graph (live(a \<mapsto> i)) = insert (a, i) (Map.graph live)" by (simp add: fun_upd_idem)
      have "unat (order_map b' ! slot b' a) = i" using r(4) unat_order [OF f(3)] by (simp add: tagged_def)
      then have "bd_alloc m n = ((b', (snd m)(a \<mapsto> i)), a)" using r(1) f(8) by (simp add: bd_alloc_def m)
      moreover have "bd_inv (b', (snd m)(a \<mapsto> i))" using r(2,4) by (simp only: bd_inv_def fst_conv snd_conv m g)
      moreover have "fits (fst m) (a, i)" using fx r(5) by (simp add: fits_def same_pool_def m)
      ultimately show thesis using block [of b' a i] i(1) f(8) la r(1,6,7) by (simp add: m)
    qed
  qed
qed

lemma bd_free_live:
  assumes "bd_inv m" and "snd m a = Some i"
  obtains b where "bd_free m a = Some (b, (snd m)(a := None))" and "bd_inv (b, (snd m)(a := None))"
    and "fsum b = fsum (fst m) + 2 ^ i"
proof -
  obtain b0 live where m: "m = (b0, live)" by (cases m)
  have g: "Map.graph live = insert (a, i) (Map.graph (live(a := None)))" "(a, i) \<notin> Map.graph (live(a := None))"
    using assms(2) by (auto simp: m Map.graph_def split: if_splits)
  have "buddy_ok b0 (insert (a, i) (Map.graph (live(a := None))))" "tagged b0 (insert (a, i) (Map.graph (live(a := None))))"
    using assms(1) unfolding bd_inv_def m fst_conv snd_conv g(1) [symmetric] by blast+
  from mem_free_ok [OF this(1) g(2) this(2)] obtain b' where
    "mem_free a b0 = Some b'" "buddy_ok b' (Map.graph (live(a := None)))" "tagged b' (Map.graph (live(a := None)))"
    "fsum b' = fsum b0 + 2 ^ i" by blast
  then show thesis using that [of b'] by (simp add: bd_free_def bd_inv_def m)
qed

lemma graph_iff: "(a, i) \<in> Map.graph f \<longleftrightarrow> f a = Some i"
  by (simp add: Map.graph_def)

lemma bd_live_fits:
  assumes "bd_inv m" and "0 < bd_extent m a"
  obtains i where "snd m a = Some i" and "bd_extent m a = 2 ^ i" and "fits (fst m) (a, i)" and "shape (fst m)"
proof -
  obtain i where i: "snd m a = Some i" using assms(2) by (auto simp: bd_extent_def split: option.splits)
  have ok: "buddy_ok (fst m) (Map.graph (snd m))" using assms(1) by (simp add: bd_inv_def)
  show thesis using that [OF i] i buddy_okD(1,5) [OF ok] by (simp add: bd_extent_def graph_iff)
qed

lemma right_order_page: "right_order n i \<Longrightarrow> unat n \<le> 4096 \<Longrightarrow> i = 12"
proof (rule ccontr)
  assume o: "right_order n i" "unat n \<le> 4096" "i \<noteq> 12"
  then have "12 \<le> i - 1" unfolding right_order_def by linarith
  then have "(2 :: nat) ^ 12 \<le> 2 ^ (i - 1)" by (intro power_increasing) simp_all
  with o show False by (simp add: right_order_def)
qed

lemma page_divides: "fits b (a, i) \<Longrightarrow> (4096 :: nat) dvd 2 ^ i"
  using le_imp_power_dvd [of 12 i "2 :: nat"] by (simp add: fits_def)

interpretation bd: page_allocator bd_alloc bd_free bd_inv bd_extent bd_avail
proof (unfold_locales, goal_cases)
  case (1 m n m' a)
  from 1(1) show ?case by (rule bd_alloc_cases [of m n]) (use 1 in auto)
next
  case (2 m n m')
  from 2(1) show ?case by (rule bd_alloc_cases [of m n]) (use 2 in auto)
next
  case (3 m n m' a)
  from 3(1) show ?case by (rule bd_alloc_cases [of m n]) (use 3 in \<open>auto simp: bd_extent_def\<close>)
next
  case (4 m n m' a)
  from 4(1) show ?case by (rule bd_alloc_cases [of m n]) (use 4 in \<open>auto simp: bd_extent_def right_order_def\<close>)
next
  case (5 m n m' a b)
  from 5(1) show ?case by (rule bd_alloc_cases [of m n]) (use 5 in \<open>auto simp: bd_extent_def\<close>)
next
  case (6 m a)
  obtain i where i: "snd m a = Some i" using 6(2) by (auto simp: bd_extent_def split: option.splits)
  from bd_free_live [OF 6(1) i] obtain b where
    b: "bd_free m a = Some (b, (snd m)(a := None))" "bd_inv (b, (snd m)(a := None))" by blast
  have "bd_extent (b, (snd m)(a := None)) = (bd_extent m)(a := 0)" by (auto simp: bd_extent_def)
  with b show ?case by blast
next
  case (7 m)
  show ?case
  proof (rule ccontr)
    assume "bd_extent m NULL \<noteq> 0"
    then have "0 < bd_extent m NULL" by simp
    with 7 obtain i where "fits (fst m) (NULL, i)" "shape (fst m)" by (rule bd_live_fits)
    then show False using fitsD(8) by blast
  qed
next
  case (8 m a b)
  from 8(1,2) obtain i where a: "snd m a = Some i" "bd_extent m a = 2 ^ i" by (rule bd_live_fits)
  from 8(1,3) obtain j where b: "snd m b = Some j" "bd_extent m b = 2 ^ j" by (rule bd_live_fits)
  have ok: "buddy_ok (fst m) (Map.graph (snd m))" using 8(1) by (simp add: bd_inv_def)
  have "apart (a, i) (b, j)" using buddy_okD(6) [OF ok, of "(a, i)" "(b, j)"] a b 8(4) by (simp add: graph_iff)
  then show ?case using a b by (simp add: apart_def)
next
  case (9 m n)
  from 9(1) show ?case
  proof (rule bd_alloc_cases [of m n])
    assume full: "\<forall>i. right_order n i \<longrightarrow> (\<forall>x\<in>frees (fst m). snd x < i)"
    have ok: "buddy_ok (fst m) (Map.graph (snd m))" using 9(1) by (simp add: bd_inv_def)
    have "right_order n 12" using 9(2) by (simp add: right_order_def)
    with full have "\<forall>x\<in>frees (fst m). snd x < 12" by blast
    moreover have "12 \<le> snd x" if "x \<in> frees (fst m)" for x
      using buddy_okD(4) [OF ok that] by (auto simp: fits_def split: prod.splits)
    ultimately have "frees (fst m) = {}" by fastforce
    then show ?thesis using 9(3) by (simp add: bd_avail_def fsum_def)
  next
    fix a b i assume r: "bd_alloc m n = ((b, (snd m)(a \<mapsto> i)), a)" "right_order n i" "a \<noteq> NULL" "fsum b + 2 ^ i = fsum (fst m)"
    have i: "i = 12" using right_order_page [OF r(2) 9(2)] .
    have "fsum (fst m) = fsum b + 4096" using r(4) i by simp
    then have "fsum (fst m) div 4096 = Suc (fsum b div 4096)" by simp
    with r i show ?thesis by (auto simp: bd_avail_def bd_extent_def)
  qed
next
  case (10 m a m')
  from 10(1,2) obtain i where i: "snd m a = Some i" "bd_extent m a = 2 ^ i" "fits (fst m) (a, i)" by (rule bd_live_fits)
  from bd_free_live [OF 10(1) i(1)] obtain b where
    "bd_free m a = Some (b, (snd m)(a := None))" "fsum b = fsum (fst m) + 2 ^ i" by blast
  with 10(3) i page_divides [OF i(3)] show ?case by (auto simp: bd_avail_def div_plus_div_distrib_dvd_right)
qed

section \<open>Initialisation\<close>

lemma and_not_block:
  assumes "i < 64"
  shows "unat (y AND NOT (BLOCK_SIZE i - 1)) = unat y div 2 ^ i * 2 ^ i"
proof -
  have "y AND NOT (BLOCK_SIZE i - 1) = push_bit i (drop_bit i y)"
    by (rule bit_word_eqI) (auto simp: BLOCK_SIZE_eq mask_eq_exp_minus_1 [symmetric] bit_simps)
  also have "\<dots> = y - take_bit i y" using bits_ident [of i y] by (simp add: eq_diff_eq)
  finally have e: "y AND NOT (BLOCK_SIZE i - 1) = y - take_bit i y" .
  have t: "unat (take_bit i y) = unat y mod 2 ^ i" by (simp only: unsigned_take_bit_eq take_bit_nat_def)
  then have "unat (y - take_bit i y) = unat y - unat y mod 2 ^ i"
    by (subst unat_sub) (simp_all add: word_le_nat_alt)
  then show ?thesis unfolding e by (simp add: minus_mod_eq_div_mult)
qed

lemma unat_ALIGN_UP:
  assumes "i < 64" and "unat x + 2 ^ i \<le> 2 ^ 64"
  shows "unat (ALIGN_UP x (BLOCK_SIZE i)) = (unat x + (2 ^ i - 1)) div 2 ^ i * 2 ^ i"
proof -
  have p: "(0 :: nat) < 2 ^ i" by simp
  then have k: "unat x + (2 ^ i - 1) < 2 ^ 64" using assms(2) by linarith
  have "BLOCK_SIZE i - 1 = of_nat (2 ^ i - 1)" by (simp add: BLOCK_SIZE_eq of_nat_diff)
  then have "unat (x + (BLOCK_SIZE i - 1)) = unat x + (2 ^ i - 1)" using unat_add_small [OF k] by simp
  then show ?thesis unfolding ALIGN_UP_def and_not_block [OF assms(1)] by simp
qed

lemma round_up_dvd: "(k :: nat) dvd n \<Longrightarrow> 0 < k \<Longrightarrow> (n + (k - 1)) div k * k = n"
proof -
  assume k: "k dvd n" "0 < k"
  then obtain q where q: "n = k * q" by blast
  have "(n + (k - 1)) div k = q" by (rule div_nat_eqI) (use k in \<open>simp_all add: q\<close>)
  then show ?thesis by (simp add: q)
qed

lemma round_up_bounds: "0 < (k :: nat) \<Longrightarrow> n \<le> (n + (k - 1)) div k * k \<and> (n + (k - 1)) div k * k < n + k"
proof -
  assume k: "0 < k"
  have e: "(n + (k - 1)) div k * k + (n + (k - 1)) mod k = n + (k - 1)" by simp
  have "(n + (k - 1)) mod k < k" using k by simp
  with e k show ?thesis by linarith
qed

lemma add_live: "buddy_ok b {} \<Longrightarrow> fits b x \<Longrightarrow> \<forall>y\<in>frees b. apart x y \<Longrightarrow> buddy_ok b {x}"
  unfolding buddy_ok_def by (auto simp: pairwise_apart_insert apart_def fits_def)

definition below :: "nat \<Rightarrow> buddy \<Rightarrow> bool" where
  "below c b \<longleftrightarrow> (\<forall>x\<in>frees b. unat (fst x) + 2 ^ snd x \<le> c)"

text \<open>The fields the filling does not change.\<close>

definition same_mem :: "buddy \<Rightarrow> buddy \<Rightarrow> bool" where
  "same_mem b b' \<longleftrightarrow> base_addr b' = base_addr b \<and> total_len b' = total_len b \<and> max_order b' = max_order b"

lemma same_mem_trans: "same_mem b c \<Longrightarrow> same_mem c d \<Longrightarrow> same_mem b d"
  by (simp add: same_mem_def)

lemma buddy_ok_managed [simp]: "buddy_ok (b\<lparr>managed_total := v\<rparr>) L = buddy_ok b L"
  by (simp add: buddy_ok_def shape_def frees_def coalesced_def fits_def)

text \<open>The addresses of the free blocks; the count of managed bytes kept right.\<close>

definition free_bytes :: "buddy \<Rightarrow> nat set" where
  "free_bytes b = (\<Union>x\<in>frees b. {unat (fst x)..<unat (fst x) + 2 ^ snd x})"

definition counted :: "buddy \<Rightarrow> bool" where
  "counted b \<longleftrightarrow> managed_total b = of_nat (fsum b)"

lemma ivl_append: "a \<le> b \<Longrightarrow> b \<le> c \<Longrightarrow> {a..<b} \<union> {b..<c} = {a..<c :: nat}"
  by auto

lemma fill_step:
  assumes ok: "buddy_ok b {}" and fx: "fits b (a, i)" and be: "below (unat a) b"
    and m: "i = max_order b \<or> free_list b ! i = []"
  defines "b' \<equiv> (set_tag a i (set_list i (a # free_list b ! i) b))\<lparr>managed_total := managed_total b + BLOCK_SIZE i\<rparr>"
  shows "do { b \<leftarrow> push_free i a b; b \<leftarrow> set_order a i b; Some (b\<lparr>managed_total := managed_total b + BLOCK_SIZE i\<rparr>) } = Some b'"
    and "buddy_ok b' {}" and "below (unat a + 2 ^ i) b'" and "same_mem b b'" and "fsum b' = fsum b + 2 ^ i"
    and "\<forall>j. j \<noteq> i \<longrightarrow> free_list b' ! j = free_list b ! j"
    and "free_bytes b' = free_bytes b \<union> {unat a..<unat a + 2 ^ i}" and "counted b \<Longrightarrow> counted b'"
proof -
  note D = buddy_okD [OF ok]
  note f = fitsD [OF fx D(1)]
  have ap: "\<forall>y\<in>frees b. apart (a, i) y" using be by (auto simp: below_def apart_def)
  have "buddy_ok b {(a, i)}" by (rule add_live [OF ok fx ap])
  then have "buddy_ok b (insert (a, i) {})" by simp
  from put_ok [OF this] m have "buddy_ok (set_list i (a # free_list b ! i) b) {}" by auto
  then show "buddy_ok b' {}" by (simp add: b'_def)
  have nf: "(a, i) \<notin> frees b"
  proof
    assume "(a, i) \<in> frees b"
    then have "apart (a, i) (a, i)" using ap by blast
    then show False by (simp add: apart_def)
  qed
  have l: "i < length (free_list b)" using f(3) D(8) by simp
  have fr: "frees b' = insert (a, i) (frees b)"
    using frees_put [OF l, of a] by (simp add: b'_def frees_def)
  then show "below (unat a + 2 ^ i) b'" using be by (auto simp: below_def)
  show fs: "fsum b' = fsum b + 2 ^ i" unfolding fsum_def fr using nf by simp
  show "free_bytes b' = free_bytes b \<union> {unat a..<unat a + 2 ^ i}" unfolding free_bytes_def fr by auto
  show "counted b'" if "counted b" using that unfolding counted_def fs by (simp add: b'_def BLOCK_SIZE_eq)
  show "same_mem b b'" by (simp add: b'_def same_mem_def)
  show "\<forall>j. j \<noteq> i \<longrightarrow> free_list b' ! j = free_list b ! j" by (simp add: b'_def)
  show "do { b \<leftarrow> push_free i a b; b \<leftarrow> set_order a i b; Some (b\<lparr>managed_total := managed_total b + BLOCK_SIZE i\<rparr>) } = Some b'"
    using push_free_eq [OF f(3) D(8), of a] set_order_ok [of "set_list i (a # free_list b ! i) b" a i i] fx D(1)
    by (simp add: b'_def)
qed

lemma fill_order_ok:
  assumes "buddy_ok b {}" and "below (unat cur) b" and "2 ^ i dvd unat cur" and "12 \<le> i" and "i \<le> max_order b"
    and "unat (base_addr b) \<le> unat cur" and "unat e = unat (base_addr b) + unat (total_len b)"
    and "unat cur + 2 ^ i < 2 ^ 64" and "unat e + 2 ^ i < 2 ^ 64" and "k = (unat e - unat cur) div 2 ^ i"
    and "i = max_order b \<or> k = 0 \<or> k = 1 \<and> free_list b ! i = []"
  shows "\<exists>cur' b'. fill_order i cur e b = Some (cur', b') \<and> buddy_ok b' {} \<and> unat cur' = unat cur + k * 2 ^ i \<and>
           below (unat cur') b' \<and> same_mem b b' \<and> fsum b' = fsum b + k * 2 ^ i \<and>
           (\<forall>j. j \<noteq> i \<longrightarrow> free_list b' ! j = free_list b ! j) \<and>
           free_bytes b' = free_bytes b \<union> {unat cur..<unat cur'} \<and> (counted b \<longrightarrow> counted b')"
  using assms
proof (induction k arbitrary: cur b)
  case 0
  have p: "(0 :: nat) < 2 ^ i" by simp
  have "unat e - unat cur < 2 ^ i" using 0(10) by (simp add: div_eq_0_iff)
  then have "unat e < unat cur + 2 ^ i" using p by linarith
  then have "\<not> cur + BLOCK_SIZE i \<le> e" using unat_add_block [OF 0(8)] by (simp add: word_le_nat_alt)
  then have "fill_order i cur e b = Some (cur, b)" by (subst fill_order.simps) simp
  with 0 show ?case by (simp add: same_mem_def)
next
  case (Suc k)
  have p: "(0 :: nat) < 2 ^ i" by simp
  have "(unat e - unat cur) div 2 ^ i * 2 ^ i \<le> unat e - unat cur" by simp
  then have "Suc k * 2 ^ i \<le> unat e - unat cur" using Suc.prems(10) by simp
  moreover have "2 ^ i \<le> Suc k * 2 ^ i" by simp
  ultimately have le: "unat cur + 2 ^ i \<le> unat e" using p by linarith
  have fx: "fits b (cur, i)" using Suc.prems le by (simp add: fits_def)
  have m: "i = max_order b \<or> free_list b ! i = []" using Suc.prems(11) by blast
  note st = fill_step [OF Suc.prems(1) fx Suc.prems(2) m]
  let ?b = "(set_tag cur i (set_list i (cur # free_list b ! i) b))\<lparr>managed_total := managed_total b + BLOCK_SIZE i\<rparr>"
  let ?c = "cur + BLOCK_SIZE i"
  have c: "unat ?c = unat cur + 2 ^ i" by (rule unat_add_block [OF Suc.prems(8)])
  have k: "k = (unat e - unat ?c) div 2 ^ i"
  proof -
    have "unat e - unat cur = (unat e - unat ?c) + 2 ^ i" using le c by simp
    moreover have "(x + 2 ^ i) div 2 ^ i = Suc (x div 2 ^ i)" for x :: nat using div_add_self2 [of "2 ^ i" x] by simp
    ultimately show ?thesis using Suc.prems(10) by (simp only: nat.inject)
  qed
  have l: "i = max_order ?b \<or> k = 0 \<or> k = 1 \<and> free_list ?b ! i = []" using Suc.prems(11) by auto
  have g: "below (unat ?c) ?b" "2 ^ i dvd unat ?c" "unat ?c + 2 ^ i < 2 ^ 64"
    using st(3) Suc.prems(3,9) le c by simp_all
  from Suc.IH [OF st(2) g(1,2) Suc.prems(4) _ _ _ g(3) Suc.prems(9) k l] Suc.prems(5,6,7) c obtain cur' b' where
    r: "fill_order i ?c e ?b = Some (cur', b')" "buddy_ok b' {}" "unat cur' = unat ?c + k * 2 ^ i" "below (unat cur') b'"
       "same_mem ?b b'" "fsum b' = fsum ?b + k * 2 ^ i" "\<forall>j. j \<noteq> i \<longrightarrow> free_list b' ! j = free_list ?b ! j"
       "free_bytes b' = free_bytes ?b \<union> {unat ?c..<unat cur'}" "counted ?b \<longrightarrow> counted b'" by auto
  have "cur + BLOCK_SIZE i \<le> e" using le c by (simp add: word_le_nat_alt)
  then have "fill_order i cur e b = do { b \<leftarrow> do { b \<leftarrow> push_free i cur b; b \<leftarrow> set_order cur i b;
      Some (b\<lparr>managed_total := managed_total b + BLOCK_SIZE i\<rparr>) }; fill_order i ?c e b }"
    by (subst fill_order.simps) (cases "push_free i cur b"; auto)
  then have "fill_order i cur e b = Some (cur', b')" unfolding st(1) using r(1) by simp
  moreover have "unat cur' = unat cur + Suc k * 2 ^ i" "fsum b' = fsum b + Suc k * 2 ^ i"
    using r(3,6) c st(5) by simp_all
  moreover have "\<forall>j. j \<noteq> i \<longrightarrow> free_list b' ! j = free_list b ! j" using r(7) st(6) by simp
  moreover have "free_bytes b' = free_bytes b \<union> {unat cur..<unat cur'}"
    unfolding r(8) st(7) Un_assoc using ivl_append [of "unat cur" "unat ?c" "unat cur'"] c r(3) by simp
  moreover have "counted b \<longrightarrow> counted b'" using st(8) r(9) by blast
  ultimately show ?case using r(2,4) same_mem_trans [OF st(4) r(5)] by blast
qed

text \<open>Below the largest order at most one block of each order is left to cut off.\<close>

lemma fill_orders_ok:
  assumes "buddy_ok b {}" and "below (unat cur) b" and "2 ^ n dvd unat cur" and "12 \<le> n" and "n \<le> max_order b"
    and "unat (base_addr b) \<le> unat cur" and "unat e = unat (base_addr b) + unat (total_len b)"
    and "unat cur + 2 ^ n < 2 ^ 64" and "unat e + 2 ^ n < 2 ^ 64" and "unat e - unat cur < 2 ^ n"
    and "\<forall>j. 12 \<le> j \<and> j < n \<longrightarrow> free_list b ! j = []"
  shows "\<exists>b'. fill_orders (rev [12..<n]) cur e b = Some b' \<and> buddy_ok b' {} \<and> same_mem b b' \<and>
           fsum b' = fsum b + (unat e - unat cur) div 4096 * 4096 \<and>
           free_bytes b' = free_bytes b \<union> {unat cur..<unat cur + (unat e - unat cur) div 4096 * 4096} \<and>
           (counted b \<longrightarrow> counted b')"
  using assms
proof (induction n arbitrary: cur b)
  case 0
  then show ?case by simp
next
  case (Suc n)
  show ?case
  proof (cases "Suc n = 12")
    case True
    then have "unat e - unat cur < 4096" using Suc.prems(10) by simp
    with True Suc.prems show ?thesis by (simp add: same_mem_def)
  next
    case False
    then have n: "12 \<le> n" using Suc.prems(4) by simp
    have p: "(0 :: nat) < 2 ^ n" by simp
    have d: "2 ^ n dvd unat cur" using Suc.prems(3) by (auto intro: dvd_trans [OF le_imp_power_dvd])
    have small: "unat cur + 2 ^ n < 2 ^ 64" "unat e + 2 ^ n < 2 ^ 64" using Suc.prems(8,9) by simp_all
    have "unat (ALIGN_UP cur (BLOCK_SIZE n)) = unat cur"
      using unat_ALIGN_UP [of n cur] round_up_dvd [OF d p] small(1) bit_imp_le_length Suc.prems(5) buddy_okD(9) [OF Suc.prems(1)] by simp
    then have al: "ALIGN_UP cur (BLOCK_SIZE n) = cur" by (rule unsigned_word_eqI)
    let ?k = "(unat e - unat cur) div 2 ^ n"
    have "?k < 2" using Suc.prems(10) by (simp add: less_mult_imp_div_less)
    then have k: "n = max_order b \<or> ?k = 0 \<or> ?k = 1 \<and> free_list b ! n = []" using Suc.prems(11) n by auto
    have nm: "n \<le> max_order b" using Suc.prems(5) by simp
    from fill_order_ok [OF Suc.prems(1,2) d n nm Suc.prems(6,7) small refl k] obtain c b1 where
      c: "fill_order n cur e b = Some (c, b1)" "buddy_ok b1 {}" "unat c = unat cur + ?k * 2 ^ n" "below (unat c) b1"
         "same_mem b b1" "fsum b1 = fsum b + ?k * 2 ^ n" "\<forall>j. j \<noteq> n \<longrightarrow> free_list b1 ! j = free_list b ! j"
         "free_bytes b1 = free_bytes b \<union> {unat cur..<unat c}" "counted b \<longrightarrow> counted b1" by blast
    have s: "base_addr b1 = base_addr b" "total_len b1 = total_len b" "max_order b1 = max_order b"
      using c(5) by (simp_all add: same_mem_def)
    have kle: "?k * 2 ^ n \<le> unat e - unat cur" by simp
    have rest: "unat e - unat c < 2 ^ n" using c(3) mod_less_divisor [OF p, of "unat e - unat cur"]
      by (simp add: minus_div_mult_eq_mod [symmetric])
    have d1: "2 ^ n dvd unat c" using d c(3) by simp
    have c1: "unat c + 2 ^ n < 2 ^ 64"
    proof (cases "?k = 0")
      case False
      then have "unat cur \<le> unat e" by (cases "unat cur \<le> unat e") simp_all
      then have "unat c \<le> unat e" using c(3) kle by linarith
      then show ?thesis using small(2) by simp
    qed (use c(3) small(1) in simp)
    have b1: "unat (base_addr b1) \<le> unat c" "unat e = unat (base_addr b1) + unat (total_len b1)" "n \<le> max_order b1"
      "\<forall>j. 12 \<le> j \<and> j < n \<longrightarrow> free_list b1 ! j = []"
      using Suc.prems(6,7,11) c(3,7) nm s by auto
    from Suc.IH [OF c(2,4) d1 n b1(3,1,2) c1 small(2) rest b1(4)] obtain b' where
      b': "fill_orders (rev [12..<n]) c e b1 = Some b'" "buddy_ok b' {}" "same_mem b1 b'"
          "fsum b' = fsum b1 + (unat e - unat c) div 4096 * 4096"
          "free_bytes b' = free_bytes b1 \<union> {unat c..<unat c + (unat e - unat c) div 4096 * 4096}"
          "counted b1 \<longrightarrow> counted b'" by blast
    have "(4096 :: nat) dvd ?k * 2 ^ n" using le_imp_power_dvd [OF n, of "2 :: nat"] by simp
    then obtain q where q: "?k * 2 ^ n = 4096 * q" by blast
    have "unat e - unat cur = 4096 * q + (unat e - unat c)" using c(3) kle q by simp
    then have w: "(unat e - unat cur) div 4096 * 4096 = ?k * 2 ^ n + (unat e - unat c) div 4096 * 4096"
      unfolding q by simp
    then have "fsum b' = fsum b + (unat e - unat cur) div 4096 * 4096" using b'(4) c(6) by simp
    moreover have tail: "unat c + (unat e - unat c) div 4096 * 4096 = unat cur + (unat e - unat cur) div 4096 * 4096"
      unfolding w c(3) by simp
    have "unat cur \<le> unat c" "unat c \<le> unat cur + (unat e - unat cur) div 4096 * 4096"
      using c(3) tail [symmetric] by simp_all
    from ivl_append [OF this]
    have "free_bytes b' = free_bytes b \<union> {unat cur..<unat cur + (unat e - unat cur) div 4096 * 4096}"
      unfolding b'(5) c(8) tail Un_assoc by (simp only:)
    moreover have "counted b \<longrightarrow> counted b'" using c(9) b'(6) by blast
    moreover have "rev [12..<Suc n] = n # rev [12..<n]" using n by simp
    ultimately show ?thesis using b'(1-3) c(1) al same_mem_trans [OF c(5) b'(3)] by simp
  qed
qed

lemma order_up_ok:
  assumes "12 \<le> i" and "i + n = 31" and "i = 12 \<or> 2 ^ i \<le> unat len"
  shows "12 \<le> order_up n i len \<and> order_up n i len \<le> 31 \<and> (order_up n i len = 12 \<or> 2 ^ order_up n i len \<le> unat len) \<and>
         (order_up n i len = 31 \<or> unat len < 2 ^ Suc (order_up n i len))"
  using assms
proof (induction n arbitrary: i)
  case (Suc n)
  have "BLOCK_SIZE (i + 1) \<le> len \<longleftrightarrow> 2 ^ Suc i \<le> unat len"
    using unat_BLOCK_SIZE [of "Suc i"] Suc.prems by (simp add: word_le_nat_alt)
  then show ?case using Suc.IH [of "i + 1"] Suc.prems by auto
qed simp

text \<open>The table of orders takes the pages in front; then everything up to the first multiple of the largest
  block is left out, and the rest is managed to the last whole page.\<close>

lemma mem_init_ok:
  assumes "4096 dvd unat base" and "base \<noteq> 0" and "unat base + unat len + 2 ^ 32 < 2 ^ 64"
    and "free_list b = replicate 32 []" and "unat len div 4096 \<le> length raw"
  defines "first \<equiv> unat base + (unat len div 4096 + 4095) div 4096 * 4096"
  defines "block \<equiv> 2 ^ order_up 19 12 len"
  defines "lowest \<equiv> (first + (block - 1)) div block * block"
  shows "\<exists>b'. mem_init base len raw b = Some (0, b') \<and> buddy_ok b' {} \<and>
           unat (base_addr b') = first \<and> max_order b' = order_up 19 12 len \<and>
           unat (total_len b') = unat base + unat len - first \<and>
           fsum b' = (unat base + unat len - lowest) div 4096 * 4096 \<and>
           free_bytes b' = {lowest..<lowest + (unat base + unat len - lowest) div 4096 * 4096} \<and> counted b'"
proof -
  let ?mo = "order_up 19 12 len" and ?meta = "(unat len div 4096 + 4095) div 4096 * 4096"
  have mo: "12 \<le> ?mo" "?mo \<le> 31" using order_up_ok [of 12 19 len] by simp_all
  have b12: "BLOCK_SIZE 12 = 4096" by (simp add: BLOCK_SIZE_eq)
  have "unat (ALIGN_DOWN base (BLOCK_SIZE 12)) = unat base"
    using and_not_block [of 12 base] assms(1) by (simp add: ALIGN_DOWN_def)
  then have start: "ALIGN_DOWN base (BLOCK_SIZE 12) = base" by (rule unsigned_word_eqI)
  have blocks: "unat (drop_bit 12 len) = unat len div 4096"
    by (simp add: unsigned_drop_bit_eq drop_bit_eq_div unat_div)
  have "unat len div 4096 + 2 ^ 12 \<le> 2 ^ 64" using assms(3) by simp
  then have "unat (ALIGN_UP (drop_bit 12 len) (BLOCK_SIZE 12)) = ?meta"
    using unat_ALIGN_UP [of 12 "drop_bit 12 len"] blocks by simp
  then have meta: "unat ((drop_bit 12 len + BLOCK_SIZE 12 - 1) AND NOT (BLOCK_SIZE 12 - 1)) = ?meta"
    by (simp add: ALIGN_UP_def add_diff_eq)
  have ml: "?meta \<le> unat len"
  proof -
    have "(k + 4095) div 4096 < Suc k" for k :: nat by (rule less_mult_imp_div_less) simp
    then have "(unat len div 4096 + 4095) div 4096 \<le> unat len div 4096" by (simp only: less_Suc_eq_le)
    then have "?meta \<le> unat len div 4096 * 4096" by (rule mult_le_mono1)
    then show ?thesis by (meson div_times_less_eq_dividend le_trans)
  qed
  let ?s = "base + ((drop_bit 12 len + BLOCK_SIZE 12 - 1) AND NOT (BLOCK_SIZE 12 - 1))"
  have s: "unat ?s = first"
  proof -
    let ?w = "(drop_bit 12 len + BLOCK_SIZE 12 - 1) AND NOT (BLOCK_SIZE 12 - 1)"
    have "?w = of_nat (unat ?w)" by simp
    then have "?w = of_nat ?meta" unfolding meta .
    then show ?thesis using unat_add_small [of base ?meta] ml assms(3) by (simp add: first_def)
  qed
  let ?t = "len - (?s - base)"
  have t: "unat ?t = unat len - ?meta" using ml meta by (subst unat_sub) (simp_all add: word_le_nat_alt)
  let ?b = "\<lparr>base_addr = ?s, total_len = ?t, max_order = ?mo, free_list = replicate 32 [],
             order_map = take (unat (drop_bit 12 len)) raw, managed_total = 0\<rparr>"
  have fl: "map (\<lambda>i. if 12 \<le> i \<and> i \<le> ?mo then [] else free_list b ! i) [0..<32] = replicate 32 []"
    by (rule nth_equalityI) (simp_all add: assms(4))
  have l0: "len - (base - base) = len" and n19: "BUDDY_MAX_ORDER - 1 - BUDDY_MIN_ORDER = 19" by simp_all
  have init: "mem_init base len raw b =
      do { c \<leftarrow> fill_orders (rev [12..<Suc ?mo]) ?s (?s + ?t) ?b; Some (0, c) }"
    unfolding mem_init_def Let_def start l0 n19 fl ..
  have e: "unat (?s + ?t) = unat base + unat len"
  proof -
    have "unat ?s + unat ?t = unat base + unat len" using s t ml by (simp add: first_def)
    then show ?thesis using unat_add_small [of ?s "unat ?t"] assms(3) by simp
  qed
  have fr: "frees ?b = {}" by (simp add: frees_def)
  have b0: "0 < unat base" using assms(2) by (simp add: unat_gt_0)
  have "(unat len - ?meta) div 4096 \<le> unat len div 4096" by (rule div_le_mono) simp
  then have ok: "buddy_ok ?b {}"
    using mo s t ml b0 assms(1,3,5) blocks fr
    by (auto simp: buddy_ok_def shape_def coalesced_def first_def min_def)
  let ?cur = "ALIGN_UP ?s (BLOCK_SIZE ?mo)"
  have bl: "block \<le> 2 ^ 31" "0 < block" unfolding block_def using power_increasing [OF mo(2), of "2 :: nat"] by simp_all
  have "unat ?s + 2 ^ ?mo \<le> 2 ^ 64" using bl ml s assms(3) by (simp add: block_def first_def)
  then have cur: "unat ?cur = lowest"
    using unat_ALIGN_UP [of ?mo ?s] mo(2) s by (simp add: lowest_def block_def)
  note lb = round_up_bounds [OF bl(2), of first, folded lowest_def]
  have lo: "first \<le> lowest" "lowest + 2 ^ ?mo < 2 ^ 64" "unat (?s + ?t) + 2 ^ ?mo < 2 ^ 64"
    using lb bl ml e assms(3) by (simp_all add: block_def first_def)
  have d: "2 ^ ?mo dvd unat ?cur" unfolding cur by (simp add: lowest_def block_def)
  let ?k = "(unat (?s + ?t) - unat ?cur) div 2 ^ ?mo"
  have pre: "below (unat ?cur) ?b" "?mo \<le> max_order ?b" "unat (base_addr ?b) \<le> unat ?cur"
    "unat (?s + ?t) = unat (base_addr ?b) + unat (total_len ?b)" "unat ?cur + 2 ^ ?mo < 2 ^ 64"
    "?mo = max_order ?b \<or> ?k = 0 \<or> ?k = 1 \<and> free_list ?b ! ?mo = []"
    using fr lo s t ml e cur by (simp_all add: below_def first_def)
  from fill_order_ok [OF ok pre(1) d mo(1) pre(2-5) lo(3) refl pre(6)] obtain c b1 where
    c: "fill_order ?mo ?cur (?s + ?t) ?b = Some (c, b1)" "buddy_ok b1 {}" "unat c = unat ?cur + ?k * 2 ^ ?mo"
       "below (unat c) b1" "same_mem ?b b1" "fsum b1 = fsum ?b + ?k * 2 ^ ?mo"
       "\<forall>j. j \<noteq> ?mo \<longrightarrow> free_list b1 ! j = free_list ?b ! j"
       "free_bytes b1 = free_bytes ?b \<union> {unat ?cur..<unat c}" "counted ?b \<longrightarrow> counted b1" by blast
  have kle: "?k * 2 ^ ?mo \<le> unat (?s + ?t) - unat ?cur" by simp
  have rest: "unat (?s + ?t) - unat c < 2 ^ ?mo"
    using c(3) mod_less_divisor [of "2 ^ ?mo" "unat (?s + ?t) - unat ?cur"] by (simp add: minus_div_mult_eq_mod [symmetric])
  have sm: "base_addr b1 = ?s" "total_len b1 = ?t" "max_order b1 = ?mo" using c(5) by (simp_all add: same_mem_def)
  have c1: "unat c + 2 ^ ?mo < 2 ^ 64"
  proof (cases "unat ?cur \<le> unat (?s + ?t)")
    case True
    then have "unat c \<le> unat (?s + ?t)" using c(3) kle by linarith
    then show ?thesis using lo(3) by simp
  qed (use c(3) pre(5) in simp)
  have b1: "?mo \<le> max_order b1" "unat (base_addr b1) \<le> unat c" "unat (?s + ?t) = unat (base_addr b1) + unat (total_len b1)"
    "\<forall>j. 12 \<le> j \<and> j < ?mo \<longrightarrow> free_list b1 ! j = []" "2 ^ ?mo dvd unat c"
    using pre(3,4) c(3,7) sm d mo(2) by auto
  from fill_orders_ok [OF c(2,4) b1(5) mo(1) b1(1-3) c1 lo(3) rest b1(4)] obtain b2 where
    b2: "fill_orders (rev [12..<?mo]) c (?s + ?t) b1 = Some b2" "buddy_ok b2 {}" "same_mem b1 b2"
        "fsum b2 = fsum b1 + (unat (?s + ?t) - unat c) div 4096 * 4096"
        "free_bytes b2 = free_bytes b1 \<union> {unat c..<unat c + (unat (?s + ?t) - unat c) div 4096 * 4096}"
        "counted b1 \<longrightarrow> counted b2" by blast
  have "(4096 :: nat) dvd ?k * 2 ^ ?mo" using le_imp_power_dvd [OF mo(1), of "2 :: nat"] by simp
  then obtain q where q: "?k * 2 ^ ?mo = 4096 * q" by blast
  have cut: "unat (?s + ?t) - unat ?cur = 4096 * q + (unat (?s + ?t) - unat c)" using c(3) kle q by linarith
  have z: "fsum ?b = 0" unfolding fsum_def fr by simp
  have "free_bytes ?b = {}" unfolding free_bytes_def fr by simp
  moreover have tail: "unat c + (unat (?s + ?t) - unat c) div 4096 * 4096 =
      unat ?cur + (unat base + unat len - lowest) div 4096 * 4096"
    using cut c(3) q cur e by simp
  have "unat ?cur \<le> unat c" "unat c \<le> unat ?cur + (unat base + unat len - lowest) div 4096 * 4096"
    using c(3) tail [symmetric] by simp_all
  note app = ivl_append [OF this]
  ultimately have fb: "free_bytes b2 = {lowest..<lowest + (unat base + unat len - lowest) div 4096 * 4096}"
    unfolding b2(5) c(8) tail Un_assoc app unfolding cur by (simp only: Un_empty_left)
  have "counted ?b" using z by (simp add: counted_def)
  then have ct: "counted b2" using c(9) b2(6) by blast
  have "unat ?t = unat base + unat len - first" using t by (simp add: first_def)
  note tl = this
  have "fsum b2 = (unat base + unat len - lowest) div 4096 * 4096" using b2(4) c(6) e cur q cut z by simp
  moreover have "rev [12..<Suc ?mo] = ?mo # rev [12..<?mo]" using mo by simp
  then have "mem_init base len raw b = Some (0, b2)" unfolding init using c(1) b2(1) by simp
  ultimately show ?thesis using b2(2,3) sm s tl fb ct by (intro exI [of _ b2]) (simp add: same_mem_def)
qed

lemma free_bytes_sum:
  assumes "buddy_ok b L"
  shows "fsum b = (\<Sum>i\<leftarrow>[12..<Suc (max_order b)]. length (free_list b ! i) * 2 ^ i)"
proof -
  note D = buddy_okD [OF assms]
  have i: "12 \<le> i \<and> i \<le> max_order b" if "(a, i) \<in> frees b" for a i using D(4) [OF that] by (simp add: fits_def)
  have "frees b = (\<Union>i\<in>{12..<Suc (max_order b)}. (\<lambda>a. (a, i)) ` set (free_list b ! i))"
    using i D(8,9) by (auto simp: frees_def) force
  then have "fsum b = (\<Sum>i\<in>{12..<Suc (max_order b)}. \<Sum>x\<in>(\<lambda>a. (a, i)) ` set (free_list b ! i). 2 ^ snd x)"
    unfolding fsum_def by (simp only:) (subst sum.UNION_disjoint; auto)
  also have "\<dots> = (\<Sum>i\<in>{12..<Suc (max_order b)}. length (free_list b ! i) * 2 ^ i)"
  proof (rule sum.cong [OF refl])
    fix i assume "i \<in> {12..<Suc (max_order b)}"
    then have "distinct (free_list b ! i)" using D(2,9) by simp
    then show "(\<Sum>x\<in>(\<lambda>a. (a, i)) ` set (free_list b ! i). 2 ^ snd x) = length (free_list b ! i) * 2 ^ i"
      by (subst sum.reindex) (auto simp: inj_on_def distinct_card)
  qed
  also have "\<dots> = (\<Sum>i\<leftarrow>[12..<Suc (max_order b)]. length (free_list b ! i) * 2 ^ i)"
    by (simp only: sum_list_distinct_conv_sum_set [OF distinct_upt] set_upt)
  finally show ?thesis .
qed

lemma mem_get_stats_free:
  assumes "buddy_ok b L"
  shows "snd (snd (mem_get_stats b)) = of_nat (fsum b)"
proof -
  have "of_nat (\<Sum>i\<leftarrow>is. f i) = (\<Sum>i\<leftarrow>is. (of_nat (f i) :: u64))" for "is" :: "nat list" and f
    by (induction "is") simp_all
  then show ?thesis unfolding free_bytes_sum [OF assms] by (simp add: mem_get_stats_def BLOCK_SIZE_eq Let_def del: upt_Suc)
qed

section \<open>Properties\<close>

text \<open>C28: initialisation. On an aligned region \<open>mem_init\<close> puts the table of orders, rounded up to pages, in front and
  takes the rest; it sets up a consistent manager with nothing handed out, whose free blocks cover exactly the whole pages from
  the first multiple of the largest block size to the end. As the blocks are aligned to their size, apart, and no two free
  buddies lie unmerged, this says which blocks they are. The pages between the table and that multiple are never
  managed. The statistics say that as much is managed as is free and that nothing is used.\<close>

theorem buddy_init:
  assumes "4096 dvd unat base" and "base \<noteq> 0" and "unat base + unat len + 2 ^ 32 < 2 ^ 64"
    and "free_list b = replicate 32 []" and "unat len div 4096 \<le> length raw"
  defines "first \<equiv> unat base + (unat len div 4096 + 4095) div 4096 * 4096"
  defines "block \<equiv> 2 ^ order_up 19 12 len"
  defines "lowest \<equiv> (first + (block - 1)) div block * block"
  defines "free \<equiv> (unat base + unat len - lowest) div 4096 * 4096"
  shows "\<exists>b'. mem_init base len raw b = Some (0, b') \<and> bd_inv (b', Map.empty) \<and> unat (base_addr b') = first \<and>
           unat (total_len b') = unat base + unat len - first \<and> max_order b' = order_up 19 12 len \<and>
           (\<Union>(a, i)\<in>frees b'. {unat a..<unat a + 2 ^ i}) = {lowest..<lowest + free} \<and>
           mem_get_stats b' = (of_nat free, 0, of_nat free)"
proof -
  from mem_init_ok [OF assms(1-5)] obtain b' where b': "mem_init base len raw b = Some (0, b')" "buddy_ok b' {}"
    "unat (base_addr b') = first" "fsum b' = free" "max_order b' = order_up 19 12 len"
    "unat (total_len b') = unat base + unat len - first" "free_bytes b' = {lowest..<lowest + free}" "counted b'"
    unfolding first_def block_def lowest_def free_def by blast
  have "mem_get_stats b' = (managed_total b', managed_total b' - snd (snd (mem_get_stats b')), snd (snd (mem_get_stats b')))"
    by (simp add: mem_get_stats_def Let_def)
  then have "mem_get_stats b' = (of_nat free, 0, of_nat free)"
    using mem_get_stats_free [OF b'(2)] b'(4,8) by (simp add: counted_def)
  moreover have "(\<Union>(a, i)\<in>frees b'. {unat a..<unat a + 2 ^ i}) = free_bytes b'" by (auto simp: free_bytes_def)
  ultimately show ?thesis using b' by (simp add: bd_inv_def tagged_def)
qed

definition static_buddy :: buddy where
  "static_buddy = \<lparr>base_addr = 0, total_len = 0, max_order = 0, free_list = replicate 32 [], order_map = [], managed_total = 0\<rparr>"

lemma boot_buddy:
  "\<exists>b. mem_init 0x600000 0x800000 (replicate 2048 0) static_buddy = Some (0, b) \<and> buddy_ok b {} \<and> fsum b = 0x600000"
proof -
  have o: "order_up 19 12 0x800000 = 23" by code_simp
  have u: "unat (0x600000 :: u64) = 0x600000" "unat (0x800000 :: u64) = 0x800000" by simp_all
  have d: "(4096 :: nat) dvd 0x600000" by simp
  show ?thesis
    using mem_init_ok [of "0x600000" "0x800000" static_buddy "replicate 2048 0", unfolded o u] d
    by (simp add: static_buddy_def) blast
qed

theorem buddy_init_witness:
  "\<exists>b'. mem_init 0x600000 0x800000 (replicate 2048 0) static_buddy = Some (0, b') \<and> bd_inv (b', Map.empty) \<and>
        unat (base_addr b') = 0x601000 \<and> (\<Union>(a, i)\<in>frees b'. {unat a..<unat a + 2 ^ i}) = {0x800000..<0xE00000} \<and>
        mem_get_stats b' = (0x600000, 0, 0x600000)"
proof -
  have o: "order_up 19 12 0x800000 = 23" by code_simp
  have u: "unat (0x600000 :: u64) = 0x600000" "unat (0x800000 :: u64) = 0x800000" by simp_all
  have d: "(4096 :: nat) dvd 0x600000" by simp
  show ?thesis
    using buddy_init [of "0x600000" "0x800000" static_buddy "replicate 2048 0", unfolded o u] d
    by (simp add: static_buddy_def) blast
qed

text \<open>C29: splitting and merging. \<open>mem_alloc\<close> fails only when no free block is large enough for the request.
  Otherwise it hands out a block of the least sufficient size, aligned to it and apart from every block in use,
  and keeps the invariant, which says that no two free buddies lie unmerged; and freeing that block at once
  brings back every free list exactly as it was.\<close>

theorem buddy_splits_and_merges:
  assumes "bd_inv m" and "unat n \<le> 2 ^ 63"
  shows "mem_alloc n (fst m) = Some (NULL, fst m) \<and> (\<forall>i. right_order n i \<longrightarrow> (\<forall>x\<in>frees (fst m). snd x < i)) \<or>
         (\<exists>a b i. mem_alloc n (fst m) = Some (a, b) \<and> a \<noteq> NULL \<and> right_order n i \<and> 2 ^ i dvd unat a \<and>
            (\<forall>c j. snd m c = Some j \<longrightarrow> unat a + 2 ^ i \<le> unat c \<or> unat c + 2 ^ j \<le> unat a) \<and>
            bd_inv (b, (snd m)(a \<mapsto> i)) \<and> mem_free a b = Some (b\<lparr>free_list := free_list (fst m)\<rparr>))"
  using assms(1)
proof (rule bd_alloc_cases [of m n])
  assume "unat n \<le> 2 ^ 63 \<longrightarrow> mem_alloc n (fst m) = Some (NULL, fst m)"
    "\<forall>i. right_order n i \<longrightarrow> (\<forall>x\<in>frees (fst m). snd x < i)"
  then show ?thesis using assms(2) by blast
next
  fix a b i assume r: "bd_alloc m n = ((b, (snd m)(a \<mapsto> i)), a)" "right_order n i" "a \<noteq> NULL"
    "bd_inv (b, (snd m)(a \<mapsto> i))" "fits (fst m) (a, i)" "mem_alloc n (fst m) = Some (a, b)"
    "mem_free a b = Some (b\<lparr>free_list := free_list (fst m)\<rparr>)"
  have "unat a + 2 ^ i \<le> unat c \<or> unat c + 2 ^ j \<le> unat a" if "snd m c = Some j" for c j
    using bd.alloc_no_overlap [OF assms(1) r(1,3), of c] that by (simp add: bd_extent_def)
  then show ?thesis using r by (auto simp: fits_def)
qed

theorem buddy_splits_and_merges_witness:
  "\<exists>b a b'. mem_init 0x600000 0x800000 (replicate 2048 0) static_buddy = Some (0, b) \<and>
     mem_alloc 100 b = Some (a, b') \<and> a \<noteq> NULL \<and> mem_free a b' = Some (b'\<lparr>free_list := free_list b\<rparr>)"
proof -
  obtain b where b: "mem_init 0x600000 0x800000 (replicate 2048 0) static_buddy = Some (0, b)" "buddy_ok b {}" "fsum b = 0x600000"
    using boot_buddy by blast
  have inv: "bd_inv (b, Map.empty)" using b(2) by (simp add: bd_inv_def tagged_def)
  have "0 < bd_avail (b, Map.empty)" by (simp add: bd_avail_def b(3))
  with bd.alloc_avail [OF inv, of 100] have "\<exists>m' a. bd_alloc (b, Map.empty) 100 = (m', a) \<and> a \<noteq> NULL" by force
  then have "mem_alloc 100 b \<noteq> Some (NULL, b)" by (auto simp: bd_alloc_def)
  with buddy_splits_and_merges [OF inv, of 100] b(1) show ?thesis by auto
qed

end
