(* ===== verification/Bitmap.thy ===== *)
theory Bitmap
  imports Allocator
begin

text \<open>
  \<open>Kernel/mem/pmem_bitmap.c\<close>: the page allocator of the default build. Its static variables are
  the fields of \<open>pmem\<close>; \<open>bitmap\<close> and \<open>runlen\<close> are the two tables the code lays out at the start of
  the pool (page-aligned, so both are at least as long as the number of pages).
\<close>

section \<open>State and operations\<close>

abbreviation PM_PAGE_SIZE :: nat where
  "PM_PAGE_SIZE \<equiv> 4096"

record pmem =
  pool_base :: u64
  pool_len :: u64
  page_count :: nat
  bitmap :: "u8 list"
  runlen :: "u32 list"
  free_pages :: u64
  used_pages :: u64

definition ALIGN_UP :: "nat \<Rightarrow> nat \<Rightarrow> nat" where
  "ALIGN_UP x a = (x + (a - 1)) div a * a"

definition page_addr :: "pmem \<Rightarrow> nat \<Rightarrow> ptr" where
  "page_addr m idx = pool_base m + of_nat (idx * PM_PAGE_SIZE)"

definition pages_needed :: "u64 \<Rightarrow> nat" where
  "pages_needed bytes =
     (if bytes = 0 then 1
      else let k = unat bytes div PM_PAGE_SIZE
           in if unat bytes mod PM_PAGE_SIZE \<noteq> 0 then k + 1 else k)"

definition mark_page_used :: "u8 list \<Rightarrow> nat \<Rightarrow> u8 list" where
  "mark_page_used bm i = bm[i := 1]"

definition mark_page_free :: "u8 list \<Rightarrow> nat \<Rightarrow> u8 list" where
  "mark_page_free bm i = bm[i := 0]"

definition page_is_used :: "u8 \<Rightarrow> bool" where
  "page_is_used b \<longleftrightarrow> b \<noteq> 0"

text \<open>The loops that mark \<open>n\<close> pages from page \<open>i\<close> on, with either marking function.\<close>

fun mark_run :: "(u8 list \<Rightarrow> nat \<Rightarrow> u8 list) \<Rightarrow> u8 list \<Rightarrow> nat \<Rightarrow> nat \<Rightarrow> u8 list" where
  "mark_run mark bm i 0 = bm"
| "mark_run mark bm i (Suc n) = mark_run mark (mark bm i) (Suc i) n"

text \<open>
  The tables of a pool: \<open>bm_bytes_al\<close> bytes of bitmap, \<open>rl_bytes_al\<close> bytes of run lengths, both
  rounded up to whole pages; \<open>meta_pages\<close> is what they occupy together.
\<close>

definition bm_bytes_al :: "nat \<Rightarrow> nat" where
  "bm_bytes_al pages = ALIGN_UP pages PM_PAGE_SIZE"

definition rl_bytes_al :: "nat \<Rightarrow> nat" where
  "rl_bytes_al pages = ALIGN_UP (pages * 4) PM_PAGE_SIZE"

definition meta_pages :: "nat \<Rightarrow> nat" where
  "meta_pages pages = (bm_bytes_al pages + rl_bytes_al pages) div PM_PAGE_SIZE"

text \<open>
  \<open>mem_init\<close> returns -1 after setting only the globals above the check when the tables leave no
  page to hand out.
\<close>

definition mem_init :: "pmem \<Rightarrow> u64 \<Rightarrow> u64 \<Rightarrow> int \<times> pmem" where
  "mem_init m pool_start pool_length =
     (let pages = unat pool_length div PM_PAGE_SIZE;
          m1 = m\<lparr>pool_base := pool_start, pool_len := pool_length, page_count := pages\<rparr>;
          meta = meta_pages pages
      in if pages \<le> meta then (-1, m1)
         else (0, m1\<lparr>bitmap := mark_run mark_page_used (replicate (bm_bytes_al pages) 0) 0 meta,
                     runlen := replicate (rl_bytes_al pages div 4) 0,
                     used_pages := of_nat meta,
                     free_pages := of_nat (pages - meta)\<rparr>))"

text \<open>
  The search loop of \<open>mem_alloc\<close>, over the pages from index \<open>i\<close> on: \<open>streak\<close> free pages precede
  \<open>i\<close>, the first of them is \<open>head\<close>.
\<close>

fun alloc_scan :: "u8 list \<Rightarrow> nat \<Rightarrow> nat \<Rightarrow> nat \<Rightarrow> nat \<Rightarrow> nat option" where
  "alloc_scan [] need i streak head = None"
| "alloc_scan (b # bs) need i streak head =
     (if \<not> page_is_used b then
        (let streak' = streak + 1;
             head' = (if streak' = 1 then i else head)
         in if streak' = need then Some head'
            else alloc_scan bs need (i + 1) streak' head')
      else alloc_scan bs need (i + 1) 0 head)"

definition mem_alloc :: "pmem \<Rightarrow> u64 \<Rightarrow> pmem \<times> ptr" where
  "mem_alloc m bytes =
     (let p_needed = pages_needed bytes
      in if p_needed > unat (free_pages m) then (m, NULL)
         else case alloc_scan (take (page_count m) (bitmap m)) p_needed 0 0 0 of
                None \<Rightarrow> (m, NULL)
              | Some head \<Rightarrow>
                  (m\<lparr>bitmap := mark_run mark_page_used (bitmap m) head p_needed,
                     runlen := (runlen m)[head := of_nat p_needed],
                     used_pages := used_pages m + of_nat p_needed,
                     free_pages := free_pages m - of_nat p_needed\<rparr>,
                   page_addr m head))"

text \<open>
  \<open>mem_free\<close> trusts its argument: the two warnings in its comments take no action, and an address
  whose page index lies outside the run-length table makes it read outside the table
  (\<^term>\<open>None\<close>).
\<close>

definition mem_free :: "pmem \<Rightarrow> ptr \<Rightarrow> pmem option" where
  "mem_free m p =
     (let idx = unat (p - pool_base m) div PM_PAGE_SIZE
      in if idx \<ge> length (runlen m) then None
         else let block_size = unat (runlen m ! idx)
              in if idx + block_size > length (bitmap m) then None
                 else Some (m\<lparr>bitmap := mark_run mark_page_free (bitmap m) idx block_size,
                              runlen := (runlen m)[idx := 0],
                              used_pages := used_pages m - of_nat block_size,
                              free_pages := free_pages m + of_nat block_size\<rparr>))"

record pm_stats =
  st_total :: u64
  st_used :: u64
  st_free :: u64

definition mem_get_stats :: "pmem \<Rightarrow> pm_stats" where
  "mem_get_stats m =
     \<lparr>st_total = of_nat (page_count m) * of_nat PM_PAGE_SIZE,
      st_used = used_pages m * of_nat PM_PAGE_SIZE,
      st_free = free_pages m * of_nat PM_PAGE_SIZE\<rparr>"

section \<open>The free-list invariant\<close>

definition run_at :: "pmem \<Rightarrow> nat \<Rightarrow> nat" where
  "run_at m h = (if h < length (runlen m) then unat (runlen m ! h) else 0)"

definition extent :: "pmem \<Rightarrow> ptr \<Rightarrow> nat" where
  "extent m a =
     (let off = unat (a - pool_base m)
      in if off mod PM_PAGE_SIZE = 0 then run_at m (off div PM_PAGE_SIZE) * PM_PAGE_SIZE else 0)"

definition free_set :: "pmem \<Rightarrow> nat set" where
  "free_set m = {i. i < page_count m \<and> bitmap m ! i = 0}"

text \<open>
  The pool does not wrap around the address space and does not start at address 0; a page is marked
  used exactly when it holds a table or belongs to a block; blocks lie in the data pages and do not
  overlap; the two counters count the pages.
\<close>

definition pm_shape :: "pmem \<Rightarrow> bool" where
  "pm_shape m \<longleftrightarrow>
     length (bitmap m) = bm_bytes_al (page_count m) \<and>
     length (runlen m) = rl_bytes_al (page_count m) div 4 \<and>
     page_count m < 2 ^ 31 \<and> 0 < unat (pool_base m) \<and>
     unat (pool_base m) + page_count m * PM_PAGE_SIZE \<le> 2 ^ 64"

definition pm_blocks :: "pmem \<Rightarrow> bool" where
  "pm_blocks m \<longleftrightarrow>
     (\<forall>i < page_count m. bitmap m ! i \<noteq> 0 \<longleftrightarrow>
        i < meta_pages (page_count m) \<or> (\<exists>h \<le> i. i < h + run_at m h)) \<and>
     (\<forall>h. 0 < run_at m h \<longrightarrow> meta_pages (page_count m) \<le> h \<and> h + run_at m h \<le> page_count m) \<and>
     (\<forall>h h'. 0 < run_at m h \<longrightarrow> 0 < run_at m h' \<longrightarrow> h < h' \<longrightarrow> h + run_at m h \<le> h')"

definition pm_counts :: "pmem \<Rightarrow> bool" where
  "pm_counts m \<longleftrightarrow>
     free_pages m = of_nat (card (free_set m)) \<and>
     used_pages m = of_nat (page_count m - card (free_set m))"

definition pm_inv :: "pmem \<Rightarrow> bool" where
  "pm_inv m \<longleftrightarrow> pm_shape m \<and> pm_blocks m \<and> pm_counts m"

subsection \<open>Tables\<close>

lemma ALIGN_UP_ge: "x \<le> ALIGN_UP x 4096"
  by (simp add: ALIGN_UP_def)

lemma ALIGN_UP_dvd: "4096 dvd ALIGN_UP x 4096"
  by (simp add: ALIGN_UP_def)

lemma bm_ge: "n \<le> bm_bytes_al n"
  by (simp add: bm_bytes_al_def ALIGN_UP_ge)

lemma rl_ge: "n \<le> rl_bytes_al n div 4"
  using ALIGN_UP_ge [of "n * 4"] by (simp add: rl_bytes_al_def)

lemma meta_pages_pos: "0 < n \<Longrightarrow> 0 < meta_pages n"
  using ALIGN_UP_ge [of n] ALIGN_UP_dvd [of n]
  by (auto simp: meta_pages_def bm_bytes_al_def dvd_def)

lemma length_mark_run [simp]:
  "length (mark_run mark_page_used bm i n) = length bm"
  "length (mark_run mark_page_free bm i n) = length bm"
  by (induction n arbitrary: bm i) (auto simp: mark_page_used_def mark_page_free_def)

lemma nth_mark_used:
  "i + n \<le> length bm \<Longrightarrow>
     mark_run mark_page_used bm i n ! j = (if i \<le> j \<and> j < i + n then 1 else bm ! j)"
  by (induction n arbitrary: bm i) (auto simp: mark_page_used_def nth_list_update)

lemma nth_mark_free:
  "i + n \<le> length bm \<Longrightarrow>
     mark_run mark_page_free bm i n ! j = (if i \<le> j \<and> j < i + n then 0 else bm ! j)"
  by (induction n arbitrary: bm i) (auto simp: mark_page_free_def nth_list_update)

lemma finite_free_set [simp]: "finite (free_set m)"
  by (simp add: free_set_def)

lemma card_free_set_le: "card (free_set m) \<le> page_count m"
proof -
  have "free_set m \<subseteq> {..<page_count m}" by (auto simp: free_set_def)
  from card_mono [OF _ this] show ?thesis by simp
qed

lemma pages_needed_size: "unat n \<le> pages_needed n * 4096"
proof -
  have "unat n = unat n div 4096 * 4096 + unat n mod 4096" by simp
  moreover have "unat n mod 4096 < 4096" by simp
  ultimately show ?thesis by (auto simp: pages_needed_def Let_def)
qed

lemma pages_needed_small: "unat n \<le> 4096 \<Longrightarrow> pages_needed n = 1"
proof -
  assume a: "unat n \<le> 4096"
  show ?thesis
  proof (cases "unat n = 4096")
    case True
    then have "n \<noteq> 0" by auto
    with True show ?thesis by (simp add: pages_needed_def)
  next
    case False
    with a have lt: "unat n < 4096" by simp
    then show ?thesis
      by (auto simp: pages_needed_def Let_def unat_eq_0)
  qed
qed

lemma pages_needed_pos: "0 < pages_needed n"
proof (cases "n = 0")
  case False
  then have "0 < unat n" by (simp add: word_neq_0_conv word_less_nat_alt)
  with pages_needed_size [of n] show ?thesis by (cases "pages_needed n") auto
qed (simp add: pages_needed_def)

subsection \<open>The search loop\<close>

definition free_run :: "u8 list \<Rightarrow> nat \<Rightarrow> nat \<Rightarrow> bool" where
  "free_run bm h n \<longleftrightarrow> h + n \<le> length bm \<and> (\<forall>j. h \<le> j \<longrightarrow> j < h + n \<longrightarrow> bm ! j = 0)"

text \<open>
  Both directions at once: the search fails only when no run of \<open>need\<close> free pages exists, and
  otherwise returns the first one. The loop invariant is that the \<open>streak\<close> pages before \<open>i\<close> are free
  and that no run of \<open>need\<close> pages starts before them.
\<close>

lemma alloc_scan_spec:
  assumes "i \<le> length bm" and "streak \<le> i" and "streak < need"
    and "\<forall>j. i - streak \<le> j \<longrightarrow> j < i \<longrightarrow> bm ! j = 0"
    and "0 < streak \<longrightarrow> head = i - streak"
    and "\<forall>h. free_run bm h need \<longrightarrow> i - streak \<le> h"
  shows "case alloc_scan (drop i bm) need i streak head of
           None \<Rightarrow> \<nexists>h. free_run bm h need
         | Some h \<Rightarrow> free_run bm h need \<and> (\<forall>h'. free_run bm h' need \<longrightarrow> h \<le> h')"
  using assms
proof (induction "length bm - i" arbitrary: i streak head)
  case 0
  then have "drop i bm = []" and i: "i = length bm" by auto
  moreover have "\<not> free_run bm h need" for h
  proof
    assume h: "free_run bm h need"
    then have "i - streak \<le> h" using "0.prems"(6) by blast
    moreover have "h + need \<le> i" using h i by (simp add: free_run_def)
    ultimately show False using "0.prems"(3) by linarith
  qed
  ultimately show ?case by simp
next
  case (Suc k)
  then have i: "i < length bm" and k: "k = length bm - Suc i" by auto
  then have d: "drop i bm = bm ! i # drop (Suc i) bm" by (simp add: Cons_nth_drop_Suc)
  show ?case
  proof (cases "bm ! i = 0")
    case True
    have head: "(if streak + 1 = 1 then i else head) = Suc i - Suc streak"
      using Suc.prems(2,5) by auto
    have run: "\<forall>j. Suc i - Suc streak \<le> j \<longrightarrow> j < Suc i \<longrightarrow> bm ! j = 0"
      using Suc.prems(4) True by (auto simp: less_Suc_eq)
    show ?thesis
    proof (cases "streak + 1 = need")
      case last: True
      have "free_run bm (i - streak) need"
        using run i last Suc.prems(2) by (auto simp: free_run_def)
      then show ?thesis using d True last head Suc.prems(6) by (auto simp: page_is_used_def Let_def)
    next
      case False
      have "case alloc_scan (drop (Suc i) bm) need (Suc i) (Suc streak)
                   (if streak + 1 = 1 then i else head) of
              None \<Rightarrow> \<nexists>h. free_run bm h need
            | Some h \<Rightarrow> free_run bm h need \<and> (\<forall>h'. free_run bm h' need \<longrightarrow> h \<le> h')"
        by (rule Suc.hyps(1) [OF k]) (use i False Suc.prems run head in auto)
      with False True d show ?thesis by (simp add: page_is_used_def Let_def)
    qed
  next
    case False
    have "Suc i \<le> h" if h: "free_run bm h need" for h
    proof (rule ccontr)
      assume "\<not> Suc i \<le> h"
      moreover have "i - streak \<le> h" using h Suc.prems(6) by blast
      ultimately have "h \<le> i" "i < h + need" using Suc.prems(2,3) by auto
      with h False show False by (auto simp: free_run_def)
    qed
    then have "case alloc_scan (drop (Suc i) bm) need (Suc i) 0 head of
              None \<Rightarrow> \<nexists>h. free_run bm h need
            | Some h \<Rightarrow> free_run bm h need \<and> (\<forall>h'. free_run bm h' need \<longrightarrow> h \<le> h')"
      by (intro Suc.hyps(1) [OF k]) (use i Suc.prems in auto)
    with False d show ?thesis by (simp add: page_is_used_def)
  qed
qed

lemma alloc_scan_None:
  "0 < need \<Longrightarrow> alloc_scan bm need 0 0 0 = None \<Longrightarrow> \<not> free_run bm h need"
  using alloc_scan_spec [of 0 bm 0 need 0] by simp

lemma alloc_scan_Some:
  "0 < need \<Longrightarrow> alloc_scan bm need 0 0 0 = Some h \<Longrightarrow>
     free_run bm h need \<and> (\<forall>h'. free_run bm h' need \<longrightarrow> h \<le> h')"
  using alloc_scan_spec [of 0 bm 0 need 0] by simp

subsection \<open>Claiming and releasing a block\<close>

definition claim :: "pmem \<Rightarrow> nat \<Rightarrow> nat \<Rightarrow> pmem" where
  "claim m h k = m\<lparr>bitmap := mark_run mark_page_used (bitmap m) h k,
                   runlen := (runlen m)[h := of_nat k],
                   used_pages := used_pages m + of_nat k,
                   free_pages := free_pages m - of_nat k\<rparr>"

definition release :: "pmem \<Rightarrow> nat \<Rightarrow> nat \<Rightarrow> pmem" where
  "release m h k = m\<lparr>bitmap := mark_run mark_page_free (bitmap m) h k,
                   runlen := (runlen m)[h := 0],
                   used_pages := used_pages m - of_nat k,
                   free_pages := free_pages m + of_nat k\<rparr>"

lemma claim_simps [simp]:
  "pool_base (claim m h k) = pool_base m" "page_count (claim m h k) = page_count m"
  "pool_base (release m h k) = pool_base m" "page_count (release m h k) = page_count m"
  "used_pages (claim m h k) = used_pages m + of_nat k"
  "free_pages (claim m h k) = free_pages m - of_nat k"
  "used_pages (release m h k) = used_pages m - of_nat k"
  "free_pages (release m h k) = free_pages m + of_nat k"
  by (simp_all add: claim_def release_def)

lemma pm_shapeD:
  assumes "pm_shape m"
  shows "page_count m \<le> length (bitmap m)" and "page_count m \<le> length (runlen m)"
    and "page_count m < 2 ^ 31"
  using assms bm_ge [of "page_count m"] rl_ge [of "page_count m"] by (auto simp: pm_shape_def)

lemma run_at_claim:
  "pm_shape m \<Longrightarrow> h + k \<le> page_count m \<Longrightarrow> 0 < k \<Longrightarrow>
     run_at (claim m h k) j = (if j = h then k else run_at m j)"
  using pm_shapeD [of m]
  by (auto simp: run_at_def claim_def nth_list_update unat_of_nat_small)

lemma run_at_release:
  "run_at (release m h k) j = (if j = h then 0 else run_at m j)"
  by (auto simp: run_at_def release_def nth_list_update)

lemma free_run_take:
  assumes "pm_shape m"
  shows "free_run (take (page_count m) (bitmap m)) h n \<longleftrightarrow>
     h + n \<le> page_count m \<and> (\<forall>j. h \<le> j \<longrightarrow> j < h + n \<longrightarrow> bitmap m ! j = 0)"
  using pm_shapeD(1) [OF assms] by (auto simp: free_run_def)

lemma pm_blocksD:
  assumes "pm_blocks m"
  shows "i < page_count m \<Longrightarrow> bitmap m ! i \<noteq> 0 \<longleftrightarrow>
           i < meta_pages (page_count m) \<or> (\<exists>h \<le> i. i < h + run_at m h)"
    and "0 < run_at m h \<Longrightarrow> meta_pages (page_count m) \<le> h \<and> h + run_at m h \<le> page_count m"
    and "0 < run_at m h \<Longrightarrow> 0 < run_at m h' \<Longrightarrow> h < h' \<Longrightarrow> h + run_at m h \<le> h'"
  using assms unfolding pm_blocks_def by blast+

lemma claim_blocks:
  assumes sh: "pm_shape m" and bl: "pm_blocks m" and k: "0 < k"
    and bnd: "h + k \<le> page_count m"
    and free: "\<forall>j. h \<le> j \<longrightarrow> j < h + k \<longrightarrow> bitmap m ! j = 0"
  shows "pm_blocks (claim m h k)"
proof -
  note run = run_at_claim [OF sh bnd k]
  have bm: "bitmap (claim m h k) ! j = (if h \<le> j \<and> j < h + k then 1 else bitmap m ! j)" for j
    using pm_shapeD(1) [OF sh] bnd by (simp add: claim_def nth_mark_used)
  have h_free: "bitmap m ! h = 0" using free k by simp
  have meta: "meta_pages (page_count m) \<le> h"
    using pm_blocksD(1) [OF bl, of h] h_free bnd k by auto
  have none: "run_at m h = 0"
    using pm_blocksD(1) [OF bl, of h] h_free bnd k by (cases "run_at m h") auto
  have below: "h' + run_at m h' \<le> h" if "0 < run_at m h'" "h' < h" for h'
    using pm_blocksD(1) [OF bl, of h] h_free bnd k that by (meson add_lessD1 less_imp_le_nat not_le
      less_le_trans less_add_same_cancel1)
  have above: "h + k \<le> h'" if "0 < run_at m h'" "h < h'" for h'
  proof (rule ccontr)
    assume "\<not> h + k \<le> h'"
    then have "bitmap m ! h' = 0" "h' < page_count m" using free that bnd by auto
    then show False using pm_blocksD(1) [OF bl, of h'] that by auto
  qed
  have cover: "bitmap (claim m h k) ! i \<noteq> 0 \<longleftrightarrow>
      i < meta_pages (page_count m) \<or> (\<exists>h' \<le> i. i < h' + run_at (claim m h k) h')"
    if i: "i < page_count m" for i
  proof (cases "h \<le> i \<and> i < h + k")
    case True
    then show ?thesis using bm run by (metis zero_neq_one)
  next
    case False
    have "(\<exists>h' \<le> i. i < h' + run_at (claim m h k) h') \<longleftrightarrow> (\<exists>h' \<le> i. i < h' + run_at m h')"
      using False none run by (metis add_0_right not_less)
    then show ?thesis using pm_blocksD(1) [OF bl i] bm [of i] False by auto
  qed
  show ?thesis
    unfolding pm_blocks_def claim_simps
    using cover meta bnd below above run none pm_blocksD(2,3) [OF bl]
    by (auto split: if_splits)
qed

lemma claim_counts:
  assumes sh: "pm_shape m" and ct: "pm_counts m" and bnd: "h + k \<le> page_count m"
    and free: "\<forall>j. h \<le> j \<longrightarrow> j < h + k \<longrightarrow> bitmap m ! j = 0"
  shows "card (free_set (claim m h k)) + k = card (free_set m)" and "pm_counts (claim m h k)"
proof -
  have "free_set (claim m h k) = free_set m - {h..<h + k}"
    using pm_shapeD(1) [OF sh] bnd by (auto simp: free_set_def claim_def nth_mark_used)
  moreover have sub: "{h..<h + k} \<subseteq> free_set m"
    using bnd free by (auto simp: free_set_def)
  ultimately have c: "card (free_set (claim m h k)) = card (free_set m) - k"
    by (simp add: card_Diff_subset)
  have le: "k \<le> card (free_set m)"
    using card_mono [OF _ sub] by simp
  with c show sum: "card (free_set (claim m h k)) + k = card (free_set m)" by simp
  have "free_pages m - of_nat k = of_nat (card (free_set (claim m h k)))"
    using ct unfolding pm_counts_def sum [symmetric] by simp
  moreover have "page_count m - card (free_set (claim m h k)) = page_count m - card (free_set m) + k"
    using sum card_free_set_le [of m] by arith
  then have "used_pages m + of_nat k = of_nat (page_count m - card (free_set (claim m h k)))"
    using ct unfolding pm_counts_def by simp
  ultimately show "pm_counts (claim m h k)"
    unfolding pm_counts_def claim_simps by blast
qed

lemma claim_shape [simp]: "pm_shape (claim m h k) = pm_shape m"
  by (simp add: pm_shape_def) (simp add: claim_def)

lemma release_shape [simp]: "pm_shape (release m h k) = pm_shape m"
  by (simp add: pm_shape_def) (simp add: release_def)

lemma release_blocks:
  assumes sh: "pm_shape m" and bl: "pm_blocks m" and k: "k = run_at m h" "0 < k"
  shows "pm_blocks (release m h k)"
proof -
  note run = run_at_release [of m h k]
  have bnd: "h + k \<le> page_count m" "meta_pages (page_count m) \<le> h"
    using pm_blocksD(2) [OF bl, of h] k by auto
  have bm: "bitmap (release m h k) ! j = (if h \<le> j \<and> j < h + k then 0 else bitmap m ! j)" for j
    using pm_shapeD(1) [OF sh] bnd by (simp add: release_def nth_mark_free)
  have cover: "bitmap (release m h k) ! i \<noteq> 0 \<longleftrightarrow>
      i < meta_pages (page_count m) \<or> (\<exists>h' \<le> i. i < h' + run_at (release m h k) h')"
    if i: "i < page_count m" for i
  proof (cases "h \<le> i \<and> i < h + k")
    case True
    have "\<not> (h' \<le> i \<and> i < h' + run_at m h')" if "h' \<noteq> h" for h'
    proof
      assume *: "h' \<le> i \<and> i < h' + run_at m h'"
      then have "0 < run_at m h'" by auto
      with that k have "h + k \<le> h' \<or> h' + run_at m h' \<le> h"
        using pm_blocksD(3) [OF bl] by (metis nat_neq_iff)
      with * True show False by auto
    qed
    then show ?thesis using bm run True bnd by auto
  next
    case False
    have "(\<exists>h' \<le> i. i < h' + run_at (release m h k) h') \<longleftrightarrow> (\<exists>h' \<le> i. i < h' + run_at m h')"
      using False k run by (metis add_0_right not_less)
    then show ?thesis using pm_blocksD(1) [OF bl i] bm [of i] False by auto
  qed
  show ?thesis
    unfolding pm_blocks_def claim_simps
    using cover run pm_blocksD(2,3) [OF bl] by (auto split: if_splits)
qed

lemma release_counts:
  assumes sh: "pm_shape m" and bl: "pm_blocks m" and ct: "pm_counts m"
    and k: "k = run_at m h" "0 < k"
  shows "card (free_set (release m h k)) = card (free_set m) + k" and "pm_counts (release m h k)"
proof -
  have bnd: "h + k \<le> page_count m"
    using pm_blocksD(2) [OF bl, of h] k by auto
  have used: "bitmap m ! j \<noteq> 0" if "h \<le> j" "j < h + k" for j
    using pm_blocksD(1) [OF bl, of j] that k bnd by auto
  have "free_set (release m h k) = free_set m \<union> {h..<h + k}"
    using pm_shapeD(1) [OF sh] bnd by (auto simp: free_set_def release_def nth_mark_free)
  moreover have "free_set m \<inter> {h..<h + k} = {}"
    using used by (auto simp: free_set_def)
  ultimately show sum: "card (free_set (release m h k)) = card (free_set m) + k"
    by (simp add: card_Un_disjoint)
  have "free_pages m + of_nat k = of_nat (card (free_set (release m h k)))"
    using ct sum unfolding pm_counts_def by simp
  moreover have "page_count m - card (free_set m) = page_count m - card (free_set (release m h k)) + k"
    using sum card_free_set_le [of "release m h k"] by simp
  then have "used_pages m - of_nat k = of_nat (page_count m - card (free_set (release m h k)))"
    using ct unfolding pm_counts_def by simp
  ultimately show "pm_counts (release m h k)"
    unfolding pm_counts_def claim_simps by blast
qed

section \<open>What the operations do under the invariant\<close>

lemma pm_invD:
  assumes "pm_inv m"
  shows "pm_shape m" and "pm_blocks m" and "pm_counts m"
  using assms by (auto simp: pm_inv_def)

lemma claim_inv [keeps]:
  assumes "pm_inv m" and "0 < k" and "h + k \<le> page_count m"
    and "\<forall>j. h \<le> j \<longrightarrow> j < h + k \<longrightarrow> bitmap m ! j = 0"
  shows "pm_inv (claim m h k)"
  using assms claim_blocks claim_counts(2) by (simp add: pm_inv_def)

lemma release_inv [keeps]:
  assumes "pm_inv m" and "0 < run_at m h"
  shows "pm_inv (release m h (run_at m h))"
  using assms release_blocks [of m] release_counts(2) [of m] by (simp add: pm_inv_def)

lemma free_count:
  assumes "pm_inv m"
  shows "unat (free_pages m) = card (free_set m)"
proof -
  have "card (free_set m) < 2 ^ 31"
    using card_free_set_le [of m] pm_shapeD(3) [OF pm_invD(1) [OF assms]] by linarith
  then show ?thesis using pm_invD(3) [OF assms] by (simp add: pm_counts_def unat_of_nat_small)
qed

lemma unat_page_addr:
  assumes "pm_shape m" and "h < page_count m"
  shows "unat (page_addr m h) = unat (pool_base m) + h * 4096"
proof -
  have "unat (of_nat (h * 4096) :: u64) = h * 4096"
    using assms by (intro unat_of_nat_small) (auto simp: pm_shape_def)
  then show ?thesis
    using assms unfolding page_addr_def pm_shape_def by (subst unat_add_lem [THEN iffD1]) auto
qed

lemma page_addr_offset:
  assumes "pm_shape m" and "h < page_count m"
  shows "unat (page_addr m h - pool_base m) = h * 4096"
  using assms by (simp add: page_addr_def pm_shape_def unat_of_nat_small del: of_nat_mult)

lemma offset_page_addr: "unat (b - pool_base m) = h * 4096 \<Longrightarrow> b = page_addr m h"
proof -
  assume off: "unat (b - pool_base m) = h * 4096"
  have "b - pool_base m = of_nat (unat (b - pool_base m))" by simp
  then have "b - pool_base m = of_nat (h * 4096)" unfolding off .
  then show ?thesis by (simp add: page_addr_def algebra_simps)
qed

lemma page_addr_not_null: "pm_shape m \<Longrightarrow> h < page_count m \<Longrightarrow> page_addr m h \<noteq> NULL"
  using unat_page_addr [of m h] by (auto simp: pm_shape_def)

lemma extent_page_addr:
  "pm_shape m \<Longrightarrow> h < page_count m \<Longrightarrow> extent m (page_addr m h) = run_at m h * 4096"
  by (simp add: extent_def page_addr_offset)

text \<open>A live block starts at the address of the page that holds its length.\<close>

lemma extent_pos:
  assumes "pm_inv m" and "0 < extent m a"
  obtains h where "a = page_addr m h" and "h < page_count m" and "0 < run_at m h"
    and "extent m a = run_at m h * 4096" and "h + run_at m h \<le> page_count m"
proof -
  define h where "h = unat (a - pool_base m) div 4096"
  from assms(2) have off: "unat (a - pool_base m) = h * 4096" and run: "0 < run_at m h"
    by (auto simp: extent_def Let_def h_def split: if_splits)
  from run have bnd: "h + run_at m h \<le> page_count m"
    using pm_blocksD(2) [OF pm_invD(2) [OF assms(1)]] by blast
  with run have h: "h < page_count m" by simp
  have "a = page_addr m h" using off by (rule offset_page_addr)
  moreover from this h have "extent m a = run_at m h * 4096"
    using extent_page_addr pm_invD(1) [OF assms(1)] by simp
  ultimately show thesis using that h run bnd by blast
qed

lemma mem_alloc_cases:
  assumes inv: "pm_inv m" and al: "mem_alloc m n = (m', a)"
  shows "(m' = m \<and> a = NULL \<and> (\<nexists>h. free_run (take (page_count m) (bitmap m)) h (pages_needed n))) \<or>
         (\<exists>h. m' = claim m h (pages_needed n) \<and> a = page_addr m h \<and>
              free_run (take (page_count m) (bitmap m)) h (pages_needed n) \<and>
              (\<forall>h'. free_run (take (page_count m) (bitmap m)) h' (pages_needed n) \<longrightarrow> h \<le> h'))"
proof (cases "pages_needed n > unat (free_pages m)")
  case True
  have "\<not> free_run (take (page_count m) (bitmap m)) h (pages_needed n)" for h
  proof
    assume "free_run (take (page_count m) (bitmap m)) h (pages_needed n)"
    then have "{h..<h + pages_needed n} \<subseteq> free_set m"
      using free_run_take [OF pm_invD(1) [OF inv]] by (auto simp: free_set_def)
    from card_mono [OF _ this] True free_count [OF inv] show False by simp
  qed
  with True al show ?thesis by (auto simp: mem_alloc_def)
next
  case False
  let ?scan = "alloc_scan (take (page_count m) (bitmap m)) (pages_needed n) 0 0 0"
  show ?thesis
  proof (cases ?scan)
    case None
    then show ?thesis
      using False al alloc_scan_None [OF pages_needed_pos None] by (simp add: mem_alloc_def Let_def)
  next
    case (Some h)
    then show ?thesis
      using False al alloc_scan_Some [OF pages_needed_pos Some]
      by (intro disjI2 exI [of _ h]) (simp add: mem_alloc_def claim_def Let_def)
  qed
qed

lemma mem_free_live:
  assumes inv: "pm_inv m" and h: "h < page_count m"
  shows "mem_free m (page_addr m h) = Some (release m h (run_at m h))"
proof -
  note sh = pm_invD(1) [OF inv]
  have idx: "unat (page_addr m h - pool_base m) div 4096 = h"
    using page_addr_offset [OF sh h] by simp
  have run: "run_at m h = unat (runlen m ! h)" "h < length (runlen m)"
    using h pm_shapeD(2) [OF sh] by (auto simp: run_at_def)
  have "h + run_at m h \<le> length (bitmap m)"
    using pm_blocksD(2) [OF pm_invD(2) [OF inv], of h] h pm_shapeD(1) [OF sh]
    by (cases "run_at m h = 0") auto
  with idx run show ?thesis by (simp add: mem_free_def release_def Let_def)
qed

lemma alloc_one_page:
  assumes inv: "pm_inv m" and n: "unat n \<le> 4096" and av: "0 < unat (free_pages m)"
  shows "\<exists>h. mem_alloc m n = (claim m h 1, page_addr m h) \<and> h < page_count m \<and> bitmap m ! h = 0"
proof -
  have "free_set m \<noteq> {}" using free_count [OF inv] av by (metis card.empty less_irrefl)
  then obtain i where "i < page_count m" "bitmap m ! i = 0" by (auto simp: free_set_def)
  then have ex: "free_run (take (page_count m) (bitmap m)) i 1"
    using free_run_take [OF pm_invD(1) [OF inv]] by (auto simp: le_Suc_eq less_Suc_eq)
  obtain m' a where al: "mem_alloc m n = (m', a)" by force
  have p1: "pages_needed n = 1" using pages_needed_small n .
  from mem_alloc_cases [OF inv al] ex obtain h where
    "m' = claim m h 1" "a = page_addr m h" "free_run (take (page_count m) (bitmap m)) h 1"
    unfolding p1 by blast
  then show ?thesis using al free_run_take [OF pm_invD(1) [OF inv], of h 1] by auto
qed

section \<open>The bitmap allocator provides the interface\<close>

lemma extent_claim:
  assumes inv: "pm_inv m" and k: "0 < k" "h + k \<le> page_count m"
  shows "extent (claim m h k) = (extent m)(page_addr m h := k * 4096)"
proof
  fix b
  note sh = pm_invD(1) [OF inv]
  note run = run_at_claim [OF sh k(2,1)]
  show "extent (claim m h k) b = ((extent m)(page_addr m h := k * 4096)) b"
  proof (cases "b = page_addr m h")
    case True
    with k run show ?thesis using page_addr_offset [OF sh, of h] by (simp add: extent_def)
  next
    case False
    then have "unat (b - pool_base m) \<noteq> h * 4096" using offset_page_addr by blast
    then have "unat (b - pool_base m) mod 4096 = 0 \<Longrightarrow> unat (b - pool_base m) div 4096 \<noteq> h"
      by auto
    with False run show ?thesis by (auto simp: extent_def Let_def)
  qed
qed

lemma extent_release:
  assumes inv: "pm_inv m" and h: "h < page_count m"
  shows "extent (release m h k) = (extent m)(page_addr m h := 0)"
proof
  fix b
  note sh = pm_invD(1) [OF inv]
  show "extent (release m h k) b = ((extent m)(page_addr m h := 0)) b"
  proof (cases "b = page_addr m h")
    case True
    then show ?thesis
      using page_addr_offset [OF sh h] by (simp add: extent_def run_at_release)
  next
    case False
    then have "unat (b - pool_base m) \<noteq> h * 4096" using offset_page_addr by blast
    then have "unat (b - pool_base m) mod 4096 = 0 \<Longrightarrow> unat (b - pool_base m) div 4096 \<noteq> h"
      by auto
    with False show ?thesis by (auto simp: extent_def run_at_release Let_def)
  qed
qed

lemma bm_alloc_fresh:
  assumes inv: "pm_inv m" and al: "mem_alloc m n = (m', a)" and a: "a \<noteq> NULL"
  obtains h where "m' = claim m h (pages_needed n)" and "a = page_addr m h"
    and "h + pages_needed n \<le> page_count m" and "run_at m h = 0"
    and "\<forall>j. h \<le> j \<longrightarrow> j < h + pages_needed n \<longrightarrow> bitmap m ! j = 0"
proof -
  from mem_alloc_cases [OF inv al] a obtain h where h:
    "m' = claim m h (pages_needed n)" "a = page_addr m h" "h + pages_needed n \<le> page_count m"
    and z: "\<forall>j. h \<le> j \<longrightarrow> j < h + pages_needed n \<longrightarrow> bitmap m ! j = 0"
    unfolding free_run_take [OF pm_invD(1) [OF inv]] by blast
  have "run_at m h = 0"
    using pm_blocksD(1) [OF pm_invD(2) [OF inv], of h] z h(3) pages_needed_pos [of n]
    by (cases "run_at m h") auto
  with h z that show thesis by blast
qed

interpretation bm: page_allocator mem_alloc mem_free pm_inv extent "\<lambda>m. unat (free_pages m)"
proof (unfold_locales, goal_cases)
  case (1 m n m' a)
  then show ?case
    using mem_alloc_cases [of m n m' a] claim_inv [of m "pages_needed n"] pages_needed_pos [of n]
      free_run_take [OF pm_invD(1)] by auto
next
  case (2 m n m')
  have "page_addr m h \<noteq> NULL" if "free_run (take (page_count m) (bitmap m)) h (pages_needed n)" for h
    using that free_run_take [OF pm_invD(1) [OF 2(1)]] pages_needed_pos [of n]
      page_addr_not_null [OF pm_invD(1) [OF 2(1)], of h] by simp
  then show ?case using mem_alloc_cases [OF 2] by metis
next
  case (3 m n m' a)
  then obtain h where h: "a = page_addr m h" "h + pages_needed n \<le> page_count m" "run_at m h = 0"
    using bm_alloc_fresh by metis
  then show ?case
    using extent_page_addr [OF pm_invD(1) [OF 3(1)], of h] pages_needed_pos [of n] by simp
next
  case (4 m n m' a)
  then obtain h where h: "m' = claim m h (pages_needed n)" "a = page_addr m h"
    "h + pages_needed n \<le> page_count m" using bm_alloc_fresh by metis
  then show ?case
    using extent_claim [OF 4(1) pages_needed_pos h(3)] pages_needed_pos [of n]
      pages_needed_size [of n] by simp
next
  case (5 m n m' a b)
  then obtain h where h: "m' = claim m h (pages_needed n)" "a = page_addr m h"
    "h + pages_needed n \<le> page_count m" using bm_alloc_fresh by metis
  with 5 show ?case using extent_claim [OF 5(1) pages_needed_pos h(3)] by simp
next
  case (6 m a)
  then obtain h where h: "a = page_addr m h" "h < page_count m" "0 < run_at m h"
    by (elim extent_pos)
  with 6 show ?case
    using mem_free_live extent_release release_inv by metis
next
  case (7 m)
  then show ?case
    using extent_pos [of m NULL] page_addr_not_null [OF pm_invD(1)] by (metis neq0_conv)
next
  case (8 m a b)
  obtain h where h: "a = page_addr m h" "h < page_count m" "0 < run_at m h"
    "extent m a = run_at m h * 4096" using 8 by (elim extent_pos) blast
  obtain k where k: "b = page_addr m k" "k < page_count m" "0 < run_at m k"
    "extent m b = run_at m k * 4096" using 8 by (elim extent_pos) blast
  have "h \<noteq> k" using 8 h k by auto
  then have "h + run_at m h \<le> k \<or> k + run_at m k \<le> h"
    using pm_blocksD(3) [OF pm_invD(2) [OF 8(1)]] h(3) k(3) by (metis nat_neq_iff)
  then show ?case
    using h k unat_page_addr [OF pm_invD(1) [OF 8(1)]] by auto
next
  case (9 m n)
  then obtain h where h: "mem_alloc m n = (claim m h 1, page_addr m h)" "h < page_count m"
    using alloc_one_page by blast
  then show ?case
    using extent_claim [OF 9(1), of 1 h] page_addr_not_null [OF pm_invD(1) [OF 9(1)]] 9(3)
    by (simp add: unat_sub word_le_nat_alt)
next
  case (10 m a m')
  then obtain h where h: "a = page_addr m h" "h < page_count m" "0 < run_at m h"
    "extent m a = run_at m h * 4096" by (elim extent_pos) blast
  have m': "m' = release m h (run_at m h)" using mem_free_live [OF 10(1) h(2)] h(1) 10(3) by simp
  have "pm_inv m'" using m' release_inv [OF 10(1) h(3)] by simp
  then have "unat (free_pages m') = card (free_set m')" by (rule free_count)
  also have "\<dots> = card (free_set m) + run_at m h"
    unfolding m' using release_counts(1) [OF _ _ _ refl h(3)] pm_invD [OF 10(1)] by blast
  finally have "unat (free_pages m') = card (free_set m) + run_at m h" .
  then show ?case using h(4) free_count [OF 10(1)] by simp
qed

section \<open>Initialisation\<close>

text \<open>
  The pool of \<open>Kernel/core/kernel.c\<close>: 8 MiB at 0x600000, on zero-initialised static variables.
\<close>

definition pmem_static :: pmem where
  "pmem_static = \<lparr>pool_base = 0, pool_len = 0, page_count = 0, bitmap = [], runlen = [],
                  free_pages = 0, used_pages = 0\<rparr>"

definition boot_pool :: pmem where
  "boot_pool = snd (mem_init pmem_static 0x600000 0x800000)"

lemma mem_init_shape:
  assumes "mem_init m b len = (0, m')"
  shows "page_count m' = unat len div 4096" and "pool_base m' = b"
    and "meta_pages (page_count m') < page_count m'" and "\<And>h. run_at m' h = 0"
    and "length (bitmap m') = bm_bytes_al (page_count m')"
    and "length (runlen m') = rl_bytes_al (page_count m') div 4"
    and "free_pages m' = of_nat (page_count m' - meta_pages (page_count m'))"
    and "used_pages m' = of_nat (meta_pages (page_count m'))"
  using assms by (auto simp: mem_init_def Let_def run_at_def split: if_splits)

lemma mem_init_bitmap:
  assumes "mem_init m b len = (0, m')" and "i < page_count m'"
  shows "bitmap m' ! i = (if i < meta_pages (page_count m') then 1 else 0)"
proof -
  have "bitmap m' = mark_run mark_page_used (replicate (bm_bytes_al (page_count m')) 0) 0
      (meta_pages (page_count m'))"
    using assms(1) by (auto simp: mem_init_def Let_def split: if_splits)
  moreover have "meta_pages (page_count m') \<le> bm_bytes_al (page_count m')" "i < bm_bytes_al (page_count m')"
    using mem_init_shape(3) [OF assms(1)] bm_ge [of "page_count m'"] assms(2) by linarith+
  ultimately show ?thesis by (simp add: nth_mark_used)
qed

lemma mem_init_free_set:
  assumes "mem_init m b len = (0, m')"
  shows "free_set m' = {meta_pages (page_count m')..<page_count m'}"
  using mem_init_bitmap [OF assms] by (auto simp: free_set_def split: if_splits)

lemma mem_init_keeps [keeps]:
  assumes i: "mem_init m b len = (0, m')" and b: "b \<noteq> 0" "unat b + unat len \<le> 2 ^ 64"
    and small: "unat len < 2 ^ 43"
  shows "pm_inv m'"
proof -
  note sh = mem_init_shape [OF i]
  have "unat len div 4096 * 4096 \<le> unat len" by simp
  then have "unat b + unat len div 4096 * 4096 \<le> 2 ^ 64" using b(2) by linarith
  moreover have "unat len div 4096 < 2 ^ 31" using small by auto
  moreover have "0 < unat b" using b(1) by (simp add: unat_gt_0)
  ultimately have "pm_shape m'" using sh by (simp add: pm_shape_def)
  moreover have "pm_blocks m'"
    using mem_init_bitmap [OF i] sh(4) by (auto simp: pm_blocks_def)
  moreover have "pm_counts m'"
    using mem_init_free_set [OF i] sh(3,7,8) by (simp add: pm_counts_def)
  ultimately show ?thesis by (simp add: pm_inv_def)
qed

lemma boot_pool_init: "mem_init pmem_static 0x600000 0x800000 = (0, boot_pool)"
  by (simp add: boot_pool_def mem_init_def meta_pages_def bm_bytes_al_def rl_bytes_al_def ALIGN_UP_def
      Let_def)

lemma boot_pool_inv: "pm_inv boot_pool"
  by (rule mem_init_keeps [OF boot_pool_init]) simp_all

lemma boot_pool_avail: "unat (free_pages boot_pool) = 2045"
  using mem_init_shape(1,7) [OF boot_pool_init]
  by (simp add: meta_pages_def bm_bytes_al_def rl_bytes_al_def ALIGN_UP_def)

lemma release_claim:
  assumes sh: "pm_shape m" and bnd: "h + k \<le> page_count m" and k: "0 < k"
    and z: "\<forall>j. h \<le> j \<longrightarrow> j < h + k \<longrightarrow> bitmap m ! j = 0" and r: "run_at m h = 0"
  shows "release (claim m h k) h k = m"
proof -
  have "mark_run mark_page_free (mark_run mark_page_used (bitmap m) h k) h k = bitmap m"
    using z bnd pm_shapeD(1) [OF sh]
    by (intro nth_equalityI) (auto simp: nth_mark_free nth_mark_used)
  moreover have "(runlen m)[h := 0] = runlen m"
    using r bnd k pm_shapeD(2) [OF sh] by (auto simp: run_at_def unat_eq_0 list_update_same_conv)
  ultimately show ?thesis by (simp add: release_def claim_def)
qed

lemma boot_alloc: "\<exists>m a. mem_alloc boot_pool 88 = (m, a) \<and> a \<noteq> NULL"
  using bm.alloc_avail [OF boot_pool_inv, of 88] boot_pool_avail by auto

lemma mem_free_alloc:
  assumes "pm_inv m" and "mem_alloc m n = (m', a)" and "a \<noteq> NULL"
  shows "mem_free m' a = Some m"
proof -
  from bm_alloc_fresh [OF assms] obtain h where h: "m' = claim m h (pages_needed n)"
    "a = page_addr m h" "h + pages_needed n \<le> page_count m" "run_at m h = 0"
    "\<forall>j. h \<le> j \<longrightarrow> j < h + pages_needed n \<longrightarrow> bitmap m ! j = 0" by blast
  note sh = pm_invD(1) [OF assms(1)]
  have inv: "pm_inv m'" using bm.alloc_inv [OF assms(1,2)] .
  have "run_at m' h = pages_needed n"
    using h run_at_claim [OF sh h(3) pages_needed_pos] by simp
  moreover have "a = page_addr m' h" "h < page_count m'"
    using h pages_needed_pos [of n] by (auto simp: page_addr_def)
  ultimately show ?thesis
    using mem_free_live [OF inv] h release_claim [OF sh h(3) pages_needed_pos h(5,4)] by simp
qed

section \<open>Properties\<close>

text \<open>C1: initialisation. When \<open>mem_init\<close> accepts a pool, the manager starts in a consistent state:
  no block is live, the tables' pages are the only used ones, and the counters agree with the
  bitmap.\<close>

theorem mem_init_inv:
  assumes "mem_init m b len = (0, m')" and "b \<noteq> 0" and "unat b + unat len \<le> 2 ^ 64"
    and "unat len < 2 ^ 43"
  shows "pm_inv m' \<and> (\<forall>a. extent m' a = 0) \<and>
         unat (free_pages m') = unat len div 4096 - meta_pages (unat len div 4096)"
proof -
  have inv: "pm_inv m'" by (rule mem_init_keeps [OF assms])
  moreover have "extent m' a = 0" for a
    using mem_init_shape(4) [OF assms(1)] by (simp add: extent_def Let_def)
  ultimately show ?thesis
    using free_count [OF inv] mem_init_free_set [OF assms(1)] mem_init_shape(1) [OF assms(1)] by simp
qed

theorem mem_init_inv_witness:
  "pm_inv boot_pool \<and> unat (free_pages boot_pool) = 2045"
  using mem_init_inv [OF boot_pool_init]
  by (simp add: meta_pages_def bm_bytes_al_def rl_bytes_al_def ALIGN_UP_def)

text \<open>C2: first fit. Under the invariant \<open>mem_alloc\<close> fails exactly when no run of enough free pages
  exists; otherwise it keeps the invariant and returns the page-aligned start of the first such run,
  which overlaps no live block.\<close>

theorem mem_alloc_first_fit:
  assumes "pm_inv m" and "mem_alloc m n = (m', a)"
  defines "fits \<equiv> free_run (take (page_count m) (bitmap m))"
  shows "pm_inv m' \<and>
         (a = NULL \<longleftrightarrow> (\<nexists>h. fits h (pages_needed n))) \<and>
         (a = NULL \<longrightarrow> m' = m) \<and>
         (a \<noteq> NULL \<longrightarrow> (\<exists>h. a = page_addr m h \<and> fits h (pages_needed n) \<and>
             (\<forall>h'. fits h' (pages_needed n) \<longrightarrow> h \<le> h') \<and>
             extent m' = (extent m)(a := pages_needed n * 4096) \<and>
             (\<forall>b. 0 < extent m b \<longrightarrow>
                unat a + extent m' a \<le> unat b \<or> unat b + extent m b \<le> unat a)))"
proof (cases "a = NULL")
  case True
  have "\<not> fits h (pages_needed n)" for h
    using mem_alloc_cases [OF assms(1,2)] page_addr_not_null [OF pm_invD(1) [OF assms(1)]]
      free_run_take [OF pm_invD(1) [OF assms(1)]] pages_needed_pos [of n] True
    unfolding fits_def by (metis add_lessD1 less_add_same_cancel1 order_less_le_trans)
  then show ?thesis
    using True bm.alloc_null [of m n m'] bm.alloc_inv [OF assms(1,2)] assms(1,2) by blast
next
  case False
  then obtain h where h: "m' = claim m h (pages_needed n)" "a = page_addr m h"
      "fits h (pages_needed n)" "\<forall>h'. fits h' (pages_needed n) \<longrightarrow> h \<le> h'"
    using mem_alloc_cases [OF assms(1,2)] unfolding fits_def by blast
  then have bnd: "h + pages_needed n \<le> page_count m"
    using free_run_take [OF pm_invD(1) [OF assms(1)]] unfolding fits_def by blast
  from h bnd have "extent m' = (extent m)(a := pages_needed n * 4096)"
    using extent_claim [OF assms(1) pages_needed_pos] by simp
  then show ?thesis
    using False h bm.alloc_no_overlap [OF assms(1,2) False] bm.alloc_inv [OF assms(1,2)] by blast
qed

theorem mem_alloc_first_fit_witness:
  "pm_inv (fst (mem_alloc boot_pool 5000))"
  using mem_alloc_first_fit [OF boot_pool_inv, of 5000] by (metis prod.collapse)

text \<open>Round trip. Freeing a block right after it was allocated restores the manager exactly:
  the bitmap, the run lengths and both counters.\<close>

theorem mem_free_undoes_alloc:
  assumes "pm_inv m" and "mem_alloc m n = (m', a)" and "a \<noteq> NULL"
  shows "mem_free m' a = Some m"
  by (rule mem_free_alloc [OF assms])

theorem mem_free_undoes_alloc_witness:
  "\<exists>m a. mem_alloc boot_pool 88 = (m, a) \<and> a \<noteq> NULL \<and> mem_free m a = Some boot_pool"
  using boot_alloc mem_free_undoes_alloc [OF boot_pool_inv, of 88] by blast

text \<open>C3: freeing. A live block is released whole and leaves every other block alone; freeing it a
  second time changes nothing; and the reported used and free bytes always add up to the pool.\<close>

theorem mem_free_releases:
  assumes "pm_inv m" and "0 < extent m a"
  shows "\<exists>m'. mem_free m a = Some m' \<and> pm_inv m' \<and> extent m' = (extent m)(a := 0) \<and>
           mem_free m' a = Some m' \<and>
           st_free (mem_get_stats m') = st_free (mem_get_stats m) + of_nat (extent m a) \<and>
           st_used (mem_get_stats m') + st_free (mem_get_stats m') = st_total (mem_get_stats m')"
proof -
  obtain h where h: "a = page_addr m h" "h < page_count m" "0 < run_at m h"
    "extent m a = run_at m h * 4096" using assms by (elim extent_pos) blast
  let ?m = "release m h (run_at m h)"
  have f: "mem_free m a = Some ?m" using mem_free_live [OF assms(1) h(2)] h(1) by simp
  have inv: "pm_inv ?m" using release_inv [OF assms(1) h(3)] .
  have "mem_free ?m (page_addr ?m h) = Some (release ?m h (run_at ?m h))"
    using mem_free_live [OF inv] h(2) by simp
  moreover have "release ?m h (run_at ?m h) = ?m"
    by (simp add: run_at_release) (simp add: release_def)
  ultimately have again: "mem_free ?m a = Some ?m" using h(1) by (simp add: page_addr_def)
  have "used_pages ?m + free_pages ?m = of_nat (page_count ?m)"
    using pm_invD(3) [OF inv] card_free_set_le [of ?m] unfolding pm_counts_def
    by (metis le_add_diff_inverse2 of_nat_add)
  then have "st_used (mem_get_stats ?m) + st_free (mem_get_stats ?m) = st_total (mem_get_stats ?m)"
    unfolding mem_get_stats_def pm_stats.simps by (metis distrib_right)
  moreover have "st_free (mem_get_stats ?m) = st_free (mem_get_stats m) + of_nat (extent m a)"
    unfolding h(4) mem_get_stats_def pm_stats.simps claim_simps by (simp add: distrib_right)
  moreover have "extent ?m = (extent m)(a := 0)" using extent_release [OF assms(1) h(2)] h(1) by simp
  ultimately show ?thesis using f inv again by blast
qed

theorem mem_free_releases_witness:
  "\<exists>m a m'. pm_inv m \<and> a \<noteq> NULL \<and> mem_free m a = Some m' \<and> mem_free m' a = Some m'"
proof -
  obtain m a where al: "mem_alloc boot_pool 88 = (m, a)" "a \<noteq> NULL" using boot_alloc by blast
  have "pm_inv m" "0 < extent m a"
    using bm.alloc_inv [OF boot_pool_inv al(1)] bm.alloc_size [OF boot_pool_inv al] by auto
  with mem_free_releases [OF this] al(2) show ?thesis by blast
qed

end
