(* ===== verification/Strings.thy ===== *)
theory Strings
  imports Digits Bitmap
begin

text \<open>
  \<open>Kernel/lib/string/strings.c\<close>: copying strings, and \<open>ksprintf\<close> with its number printers. A
  string in memory is the list of its bytes up to the terminator; the output pointer \<open>buf\<close> of the
  printers only moves forward, so what has been written through it is a list that grows at its end.
\<close>

abbreviation nul :: char where "nul \<equiv> CHR 0x00"

text \<open>A character and its byte.\<close>

definition byte_char :: "u8 \<Rightarrow> char" where
  "byte_char b = char_of (unat b)"

definition char_byte :: "char \<Rightarrow> u8" where
  "char_byte c = of_nat (of_char c)"

text \<open>A \<open>char\<close> is signed.\<close>

definition schar :: "char \<Rightarrow> int" where
  "schar c = (let n = of_char c in if n < 128 then n else n - 256)"

lemma byte_char_byte [simp]: "byte_char (char_byte c) = c"
proof -
  have "(of_char c :: nat) < 256" by simp
  then have "unat (of_nat (of_char c) :: u8) = of_char c" by (simp add: unat_of_nat_small)
  then show ?thesis by (simp add: byte_char_def char_byte_def)
qed

section \<open>Copying\<close>

text \<open>\<open>strLen\<close> walks over a block of memory; running past its end is a fault.\<close>

fun strLen :: "char list \<Rightarrow> u64 option" where
  "strLen [] = None"
| "strLen (c # cs) = (if c = nul then Some 0 else do { n \<leftarrow> strLen cs; Some (n + 1) })"

text \<open>\<open>strCpy dest src\<close>: the contents of the block \<open>dest\<close> after the copy.\<close>

fun strCpy :: "char list \<Rightarrow> char list \<Rightarrow> char list option" where
  "strCpy (d # ds) (c # cs) =
     (if c = nul then Some (nul # ds) else do { ds \<leftarrow> strCpy ds cs; Some (c # ds) })"
| "strCpy _ _ = None"

text \<open>
  \<open>strDup\<close>: the null pointer for a null argument or when the allocation fails, otherwise the new
  block and its contents; \<open>old\<close> is what the block held before. The length goes through an \<open>int\<close>.
\<close>

definition strDup :: "char list option \<Rightarrow> char list \<Rightarrow> pmem \<Rightarrow> ((ptr \<times> char list) \<times> pmem) option" where
  "strDup src old m =
     (case src of
        None \<Rightarrow> Some ((NULL, old), m)
      | Some s \<Rightarrow> do {
          n \<leftarrow> strLen s;
          let len = (ucast n :: u32);
          let (m, dup) = mem_alloc m (scast (len + 1));
          if dup = NULL then Some ((NULL, old), m)
          else do { b \<leftarrow> strCpy old s; Some ((dup, b), m) }
        })"

lemma strLen_nul:
  assumes "nul \<notin> set s"
  shows "strLen (s @ nul # t) = Some (of_nat (length s))"
  using assms by (induction s) (auto simp: algebra_simps)

lemma strCpy_nul:
  assumes "nul \<notin> set s"
  shows "length s < length d \<Longrightarrow> strCpy d (s @ nul # t) = Some (s @ nul # drop (Suc (length s)) d)"
  using assms
proof (induction s arbitrary: d)
  case Nil
  then show ?case by (cases d) auto
next
  case (Cons c s)
  then obtain x d' where "d = x # d'" by (cases d) auto
  with Cons show ?case by auto
qed

section \<open>Printing numbers\<close>

text \<open>\<open>unsigned int\<close> and \<open>unsigned long\<close> in decimal: the same recursion at two widths.\<close>

function write_unsigned :: "u32 \<Rightarrow> string \<Rightarrow> string" where
  "write_unsigned u buf =
     (let buf = (if 10 \<le> u then write_unsigned (u div 10) buf else buf)
      in buf @ [char_of (48 + unat (u mod 10))])"
  by pat_completeness auto
termination
  by (relation "measure (\<lambda>(u, _). unat u)") (auto simp: unat_div word_le_nat_alt)

function write_ulong :: "u64 \<Rightarrow> string \<Rightarrow> string" where
  "write_ulong u buf =
     (let buf = (if 10 \<le> u then write_ulong (u div 10) buf else buf)
      in buf @ [char_of (48 + unat (u mod 10))])"
  by pat_completeness auto
termination
  by (relation "measure (\<lambda>(u, _). unat u)") (auto simp: unat_div word_le_nat_alt)

declare write_unsigned.simps [simp del] write_ulong.simps [simp del]

text \<open>The argument of \<open>write_int\<close> is a 32-bit \<open>int\<close>, negated with wrap-around; for the least one, whose negation C
  leaves undefined, this is what the negation instruction gives.\<close>

definition write_int :: "u32 \<Rightarrow> string \<Rightarrow> string" where
  "write_int d buf =
     (if d <s 0 then write_unsigned (- d) (buf @ ''-'') else write_unsigned d buf)"

text \<open>
  Hexadecimal: the digits go into a local array of 8 (16) entries, least significant first, and are
  then written out backwards. An index outside the array would be a fault.
\<close>

definition hex_digit :: "'a::len word \<Rightarrow> char" where
  "hex_digit d = (if d < 10 then char_of (48 + unat d) else char_of (97 + (unat d - 10)))"

function hex_fill :: "'a::len word \<Rightarrow> nat \<Rightarrow> string \<Rightarrow> (nat \<times> string) option" where
  "hex_fill x i temp =
     (if x = 0 then Some (i, temp)
      else do { temp \<leftarrow> aset temp i (hex_digit (x AND 15)); hex_fill (drop_bit 4 x) (Suc i) temp })"
  by pat_completeness auto
termination
  by (relation "measure (\<lambda>(x, _). unat x)")
    (auto simp: unat_drop_bit unat_gt_0)

declare hex_fill.simps [simp del]

fun hex_drain :: "nat \<Rightarrow> string \<Rightarrow> string \<Rightarrow> string option" where
  "hex_drain 0 temp buf = Some buf"
| "hex_drain (Suc i) temp buf = do { c \<leftarrow> aget temp i; hex_drain i temp (buf @ [c]) }"

definition write_hex :: "u32 \<Rightarrow> string \<Rightarrow> string option" where
  "write_hex x buf =
     (if x = 0 then Some (buf @ ''0'')
      else do { (i, temp) \<leftarrow> hex_fill x 0 (replicate 8 nul); hex_drain i temp buf })"

definition write_hex_long :: "u64 \<Rightarrow> string \<Rightarrow> string option" where
  "write_hex_long x buf =
     (if x = 0 then Some (buf @ ''0'')
      else do { (i, temp) \<leftarrow> hex_fill x 0 (replicate 16 nul); hex_drain i temp buf })"

text \<open>They write the numeral of the number.\<close>

lemma write_unsigned_render: "write_unsigned u buf = buf @ render 10 a (unat u)"
proof (induction u buf rule: write_unsigned.induct)
  case (1 u buf)
  show ?case
  proof (cases "10 \<le> u")
    case True
    then have "\<not> unat u < 10" by (simp add: word_le_nat_alt)
    with 1 True show ?thesis
      by (subst write_unsigned.simps, subst render.simps)
        (simp add: Let_def unat_div unat_mod digit_char_def)
  next
    case False
    then have "unat u < 10" by (simp add: word_le_nat_alt)
    with False show ?thesis
      by (subst write_unsigned.simps, subst render.simps) (simp add: Let_def unat_mod digit_char_def)
  qed
qed

lemma write_ulong_render: "write_ulong u buf = buf @ render 10 a (unat u)"
proof (induction u buf rule: write_ulong.induct)
  case (1 u buf)
  show ?case
  proof (cases "10 \<le> u")
    case True
    then have "\<not> unat u < 10" by (simp add: word_le_nat_alt)
    with 1 True show ?thesis
      by (subst write_ulong.simps, subst render.simps)
        (simp add: Let_def unat_div unat_mod digit_char_def)
  next
    case False
    then have "unat u < 10" by (simp add: word_le_nat_alt)
    with False show ?thesis
      by (subst write_ulong.simps, subst render.simps) (simp add: Let_def unat_mod digit_char_def)
  qed
qed

lemma hex_digit_char: "hex_digit (x AND 15) = digit_char 97 (unat (x :: 'a::len word) mod 16)"
  if "4 < LENGTH('a)"
  using unat_and_15 [OF that, of x] unat_ten [OF that] by (simp add: hex_digit_def digit_char_def word_less_nat_alt)

lemma hex_fill_lsd:
  "4 < LENGTH('a) \<Longrightarrow> hex_fill (x :: 'a::len word) i temp = lsd_fill 16 97 (unat x) i temp"
proof (induction x i temp rule: hex_fill.induct)
  case (1 x i temp)
  show ?case
  proof (cases "x = 0")
    case True
    then show ?thesis by (subst hex_fill.simps, subst lsd_fill.simps) simp
  next
    case False
    then have "unat x \<noteq> 0" by (simp add: unat_eq_0)
    moreover have "unat (drop_bit 4 x) = unat x div 16" by (simp only: unat_drop_bit) simp
    ultimately show ?thesis using False 1
      by (subst hex_fill.simps, subst lsd_fill.simps) (simp add: hex_digit_char cong: Option.bind_cong)
  qed
qed

lemma hex_drain_rev: "hex_drain (length us) (us @ vs) buf = Some (buf @ rev us)"
proof (induction us arbitrary: vs buf rule: rev_induct)
  case (snoc u us)
  show ?case using snoc [of "u # vs" "buf @ [u]"] by simp
qed simp

lemma hex_write:
  assumes "x \<noteq> 0" and "4 < LENGTH('a)" and "length (render 16 97 (unat (x :: 'a::len word))) \<le> k"
  shows "do { (i, temp) \<leftarrow> hex_fill x 0 (replicate k nul); hex_drain i temp buf } =
           Some (buf @ render 16 97 (unat x))"
proof -
  have "digits_of 16 97 (unat x) = render 16 97 (unat x)" using assms(1) by (simp add: digits_of_def unat_eq_0)
  with assms(3) lsd_fill_digits [of 16 97 "unat x" "replicate k nul" "[]"]
  have "hex_fill x 0 (replicate k nul) =
      Some (length (render 16 97 (unat x)), rev (render 16 97 (unat x)) @ drop (length (render 16 97 (unat x))) (replicate k nul))"
    by (simp add: hex_fill_lsd [OF assms(2)])
  then show ?thesis using hex_drain_rev [of "rev (render 16 97 (unat x))"] by simp
qed

lemma write_hex_render: "write_hex x buf = Some (buf @ render 16 97 (unat x))"
proof (cases "x = 0")
  case True
  then show ?thesis by (simp add: write_hex_def render_zero)
next
  case False
  have "length (render 16 97 (unat x)) \<le> 8" by (rule render_length) (use unsigned_less [of x] in simp_all)
  with hex_write [OF False, of 8 buf] False show ?thesis by (simp add: write_hex_def)
qed

lemma write_hex_long_render: "write_hex_long x buf = Some (buf @ render 16 97 (unat x))"
proof (cases "x = 0")
  case True
  then show ?thesis by (simp add: write_hex_long_def render_zero)
next
  case False
  have "length (render 16 97 (unat x)) \<le> 16" by (rule render_length) (use unsigned_less [of x] in simp_all)
  with hex_write [OF False, of 16 buf] False show ?thesis by (simp add: write_hex_long_def)
qed

text \<open>The text of an \<open>int\<close>; \<open>- d\<close> is right for the least integer too, read as unsigned.\<close>

definition int_text :: "int \<Rightarrow> string" where
  "int_text z = (if z < 0 then ''-'' @ render 10 97 (nat (- z)) else render 10 97 (nat z))"

lemma unat_minus_int:
  fixes d :: u32
  assumes "sint d < 0"
  shows "unat (- d) = nat (- sint d)"
proof -
  have "- (2 ^ 31) \<le> sint d" using sint_greater_eq [of d] by simp
  then have "(- sint d) mod 2 ^ 32 = - sint d" using assms by (intro mod_pos_pos_trivial) auto
  moreover have "- d = word_of_int (- sint d)" by simp
  then have "uint (- d) = (- sint d) mod 2 ^ 32" by (simp only: uint_word_of_int) simp
  ultimately have "uint (- d) = - sint d" by simp
  then show ?thesis by (metis nat_uint_eq)
qed

lemma unat_int: "0 \<le> sint (d :: u32) \<Longrightarrow> unat d = nat (sint d)"
proof -
  assume nn: "0 \<le> sint d"
  have "sint d < 2 ^ 31" using sint_less [of d] by simp
  with nn have "sint d mod 2 ^ 32 = sint d" by (intro mod_pos_pos_trivial) auto
  moreover have "uint (word_of_int (sint d) :: u32) = sint d mod 2 ^ 32"
    by (simp only: uint_word_of_int) simp
  moreover have "(word_of_int (sint d) :: u32) = d" by simp
  ultimately have "uint d = sint d mod 2 ^ 32" "sint d mod 2 ^ 32 = sint d" by simp_all
  then show ?thesis by (metis nat_uint_eq)
qed

lemma write_int_text: "write_int d buf = buf @ int_text (sint d)"
  using unat_minus_int [of d] unat_int [of d] write_unsigned_render [of _ _ 97]
  by (simp add: write_int_def int_text_def word_sless_alt)

text \<open>Reading a decimal back.\<close>

definition parse_int :: "string \<Rightarrow> int" where
  "parse_int s = (case s of c # t \<Rightarrow> if c = CHR ''-'' then - int (number 10 97 t) else int (number 10 97 s) | [] \<Rightarrow> 0)"

lemma parse_int_text: "parse_int (int_text z) = z"
proof (cases "z < 0")
  case True
  then show ?thesis by (simp add: int_text_def parse_int_def number_render)
next
  case False
  obtain c t where ct: "render 10 97 (nat z) = c # t" using render_nonempty by (metis list.exhaust)
  have "c \<in> set (render 10 97 (nat z))" using ct by simp
  from render_digits [OF _ _ this] obtain d :: nat where "d < 10" "c = char_of (48 + d)" by auto
  then have "(of_char c :: nat) = 48 + d" by simp
  then have "c \<noteq> CHR ''-''" by auto
  then show ?thesis using False ct number_render [of 10 97 "nat z"] by (simp add: int_text_def parse_int_def)
qed

section \<open>ksprintf\<close>

text \<open>The variadic arguments, as the caller pushed them; reading one at another type is undefined.\<close>

datatype arg = AInt u32 | ALong u64 | AStr "string option"

text \<open>
  One conversion: \<open>c\<close> is the character after the percent sign, \<open>f\<close> the rest of the format. It returns
  the format and the arguments that remain, and the output.
\<close>

definition ksprintf_conv :: "char \<Rightarrow> string \<Rightarrow> arg list \<Rightarrow> string \<Rightarrow> (string \<times> arg list \<times> string) option" where
  "ksprintf_conv c f args buf =
     (if c = CHR ''d'' then
        (case args of AInt d # args \<Rightarrow> Some (f, args, write_int d buf) | _ \<Rightarrow> None)
      else if c = CHR ''u'' then
        (case args of AInt u # args \<Rightarrow> Some (f, args, write_unsigned u buf) | _ \<Rightarrow> None)
      else if c = CHR ''x'' then
        (case args of AInt x # args \<Rightarrow> do { buf \<leftarrow> write_hex x buf; Some (f, args, buf) } | _ \<Rightarrow> None)
      else if c = CHR ''l'' then
        (case f of
           [] \<Rightarrow> Some (f, args, buf)
         | g # f' \<Rightarrow>
             if g = CHR ''u'' then
               (case args of ALong u # args \<Rightarrow> Some (f', args, write_ulong u buf) | _ \<Rightarrow> None)
             else if g = CHR ''x'' then
               (case args of ALong x # args \<Rightarrow> do { buf \<leftarrow> write_hex_long x buf; Some (f', args, buf) }
                | _ \<Rightarrow> None)
             else Some (f, args, buf))
      else if c = CHR ''c'' then
        (case args of AInt a # args \<Rightarrow> Some (f, args, buf @ [char_of (unat a)]) | _ \<Rightarrow> None)
      else if c = CHR ''s'' then
        (case args of
           AStr (Some t) # args \<Rightarrow> Some (f, args, buf @ t)
         | AStr None # args \<Rightarrow> Some (f, args, buf @ ''(null)'')
         | _ \<Rightarrow> None)
      else if c = CHR ''%'' then Some (f, args, buf @ ''%'')
      else Some (f, args, buf @ ''%'' @ [c]))"

lemma ksprintf_conv_length: "ksprintf_conv c f args buf = Some (f', args', buf') \<Longrightarrow> length f' \<le> length f"
  by (auto simp: ksprintf_conv_def split: if_splits list.splits arg.splits option.splits Option.bind_splits)

text \<open>
  The loop over the format. After a percent sign at the very end the code steps over the terminator
  and goes on reading: a fault.
\<close>

function ksprintf_loop :: "string \<Rightarrow> arg list \<Rightarrow> string \<Rightarrow> string option" where
  "ksprintf_loop [] args buf = Some buf"
| "ksprintf_loop (c # f) args buf =
     (if c \<noteq> CHR ''%'' then ksprintf_loop f args (buf @ [c])
      else (case f of
              [] \<Rightarrow> None
            | d # f \<Rightarrow> do { (f, args, buf) \<leftarrow> ksprintf_conv d f args buf; ksprintf_loop f args buf }))"
  by pat_completeness auto
termination
  by (relation "measure (\<lambda>(f, _). length f)") (auto dest!: ksprintf_conv_length)

text \<open>The text written, without its terminator, and the returned length.\<close>

definition ksprintf :: "string \<Rightarrow> arg list \<Rightarrow> (string \<times> u32) option" where
  "ksprintf format args = do { buf \<leftarrow> ksprintf_loop format args []; Some (buf, of_nat (length buf)) }"

text \<open>What a format means: a list of pieces, each with its format, its arguments and its text.\<close>

datatype piece = PLit char | PInt u32 | PUns u32 | PHex u32 | PULong u64 | PHexLong u64 | PChar u32
  | PStr "string option" | PPercent

fun fmt_of :: "piece \<Rightarrow> string" where
  "fmt_of (PLit c) = [c]"
| "fmt_of (PInt _) = ''%d''"
| "fmt_of (PUns _) = ''%u''"
| "fmt_of (PHex _) = ''%x''"
| "fmt_of (PULong _) = ''%lu''"
| "fmt_of (PHexLong _) = ''%lx''"
| "fmt_of (PChar _) = ''%c''"
| "fmt_of (PStr _) = ''%s''"
| "fmt_of PPercent = ''%%''"

fun args_of :: "piece \<Rightarrow> arg list" where
  "args_of (PInt d) = [AInt d]"
| "args_of (PUns d) = [AInt d]"
| "args_of (PHex d) = [AInt d]"
| "args_of (PULong d) = [ALong d]"
| "args_of (PHexLong d) = [ALong d]"
| "args_of (PChar d) = [AInt d]"
| "args_of (PStr s) = [AStr s]"
| "args_of _ = []"

fun text_of :: "piece \<Rightarrow> string" where
  "text_of (PLit c) = [c]"
| "text_of (PInt d) = int_text (sint d)"
| "text_of (PUns u) = render 10 97 (unat u)"
| "text_of (PHex u) = render 16 97 (unat u)"
| "text_of (PULong u) = render 10 97 (unat u)"
| "text_of (PHexLong u) = render 16 97 (unat u)"
| "text_of (PChar u) = [char_of (unat u)]"
| "text_of (PStr s) = (case s of Some t \<Rightarrow> t | None \<Rightarrow> ''(null)'')"
| "text_of PPercent = ''%''"

lemma ksprintf_loop_pieces:
  "\<forall>c. PLit c \<in> set ps \<longrightarrow> c \<noteq> CHR ''%'' \<Longrightarrow>
   ksprintf_loop (concat (map fmt_of ps)) (concat (map args_of ps)) buf = Some (buf @ concat (map text_of ps))"
proof (induction ps arbitrary: buf)
  case (Cons p ps)
  note [simp] = ksprintf_conv_def write_int_text write_unsigned_render [of _ _ 97]
    write_ulong_render [of _ _ 97] write_hex_render write_hex_long_render
  from Cons show ?case by (cases p) (auto split: option.splits)
qed simp

section \<open>Properties\<close>

text \<open>C12: \<open>ksprintf\<close> is the interpretation of its format: for a format built from literal characters and
  conversions it never faults, consumes exactly its arguments, writes the concatenation of their texts
  (signed and unsigned decimals, hexadecimals, characters, strings, \<open>(null)\<close>), and returns its length.\<close>

theorem ksprintf_correct:
  assumes "\<forall>c. PLit c \<in> set ps \<longrightarrow> c \<noteq> CHR ''%''"
  shows "ksprintf (concat (map fmt_of ps)) (concat (map args_of ps)) =
           Some (concat (map text_of ps), of_nat (length (concat (map text_of ps))))"
  unfolding ksprintf_def using ksprintf_loop_pieces [OF assms, of "[]"] by simp

theorem ksprintf_correct_witness:
  "ksprintf ''%d_%s'' [AInt 7, AStr (Some ''read'')] = Some (''7_read'', 6)"
proof -
  have "render 10 97 7 = ''7''" by (subst render.simps) (simp add: digit_char_def char_of_def bit_0 bit_numeral_rec)
  then have "int_text 7 = ''7''" by (simp add: int_text_def)
  then show ?thesis
    using ksprintf_correct [of "[PInt 7, PLit (CHR ''_''), PStr (Some ''read'')]"] by simp
qed

text \<open>The printed numbers read back as the numbers: signed decimal (the least integer included),
  unsigned decimal and hexadecimal at both widths. The local digit arrays are never overrun.\<close>

theorem printed_numbers_read_back:
  "parse_int (write_int d []) = sint d \<and>
   number 10 97 (write_unsigned d []) = unat d \<and>
   number 10 97 (write_ulong l []) = unat l \<and>
   (\<exists>s. write_hex d [] = Some s \<and> number 16 97 s = unat d \<and> length s \<le> 8) \<and>
   (\<exists>s. write_hex_long l [] = Some s \<and> number 16 97 s = unat l \<and> length s \<le> 16)"
proof (intro conjI)
  show "parse_int (write_int d []) = sint d" by (simp add: write_int_text parse_int_text)
  show "number 10 97 (write_unsigned d []) = unat d"
    by (simp add: write_unsigned_render [of _ _ 97] number_render)
  show "number 10 97 (write_ulong l []) = unat l" by (simp add: write_ulong_render [of _ _ 97] number_render)
  have "length (render 16 97 (unat d)) \<le> 8" by (rule render_length) (use unsigned_less [of d] in simp_all)
  then show "\<exists>s. write_hex d [] = Some s \<and> number 16 97 s = unat d \<and> length s \<le> 8"
    by (simp add: write_hex_render number_render)
  have "length (render 16 97 (unat l)) \<le> 16" by (rule render_length) (use unsigned_less [of l] in simp_all)
  then show "\<exists>s. write_hex_long l [] = Some s \<and> number 16 97 s = unat l \<and> length s \<le> 16"
    by (simp add: write_hex_long_render number_render)
qed

end
