(* ===== verification/UserLib.thy ===== *)
theory UserLib
  imports Strings
begin

text \<open>
  The interface of user programs: the system calls of \<open>Userland/UserLib/include/syscallLib.h\<close> and the wrappers
  of \<open>mem.c\<close>, \<open>pipe.c\<close>, \<open>semaphores.c\<close>, \<open>soundLib.c\<close>, \<open>timeLib.c\<close>, \<open>videoLib.c\<close> and \<open>processes.c\<close>. A program is
  written over any kernel: a function that says, for a call in a world, what comes back.
\<close>

section \<open>System calls\<close>

text \<open>
  One constructor for each call, with the values of its arguments: a pointer to characters stands as the
  characters, a pointer to a function as its symbol, and a buffer the kernel fills is part of the answer.
\<close>

type_synonym symbol = string

datatype sys_call =
    Sys_clearScreen
  | Sys_putPixel u32 u64 u64
  | Sys_drawChar char u32 u64 u64
  | Sys_drawString string u32 u64 u64
  | Sys_drawRectangle u64 u64 u32 u64 u64
  | Sys_drawCircle u64 u32 u64 u64
  | Sys_drawDecimal u64 u32 u64 u64
  | Sys_drawHexa u64 u32 u64 u64
  | Sys_drawBin u64 u32 u64 u64
  | Sys_getScreenWidth
  | Sys_getScreenHeight
  | Sys_kbdGetChar
  | Sys_write u8 string u64
  | Sys_read u8 u64
  | Sys_zoomIn
  | Sys_zoomOut
  | Sys_getDateTime
  | Sys_getRegisters
  | Sys_sleepMilli u64
  | Sys_playSound u32 u32
  | Sys_createProcess string symbol u32 "string list" "u16 list option" bool
  | Sys_deleteProcess u64
  | Sys_getPid
  | Sys_getAllProcessesInfo u64
  | Sys_changeProcessPriority u64 u8
  | Sys_blockProcess u64
  | Sys_unblockProcess u64
  | Sys_yield
  | Sys_waitPid u64
  | Sys_getProcessFd u32
  | Sys_getProcessStatus u64
  | Sys_semOpen string u32
  | Sys_semClose ptr
  | Sys_semWait ptr
  | Sys_semPost ptr
  | Sys_semTryWait ptr
  | Sys_semGetValue ptr
  | Sys_semUnlink string
  | Sys_pipe_open
  | Sys_pipe_close u16
  | Sys_mem_info
  | Sys_mem_alloc u64
  | Sys_mem_free ptr

text \<open>
  A kernel answers a call with the register \<open>rax\<close>, the bytes it stored in the caller's buffer, and the new
  state of the world. No answer, \<^term>\<open>None\<close>, is a call that does not return.
\<close>

type_synonym 'w kernel_calls = "sys_call \<Rightarrow> 'w \<Rightarrow> (u64 \<times> u8 list \<times> 'w) option"

definition ask :: "'w kernel_calls \<Rightarrow> sys_call \<Rightarrow> 'w \<Rightarrow> (u64 \<times> 'w) option" where
  "ask k c w = do { (r, _, w) \<leftarrow> k c w; Some (r, w) }"

definition tell :: "'w kernel_calls \<Rightarrow> sys_call \<Rightarrow> 'w \<Rightarrow> 'w option" where
  "tell k c w = do { (_, _, w) \<leftarrow> k c w; Some w }"

text \<open>Numbers laid out in memory, least significant byte first.\<close>

fun word_at :: "u8 list \<Rightarrow> u64" where
  "word_at [] = 0"
| "word_at (b # bs) = ucast b OR push_bit 8 (word_at bs)"

text \<open>A structure of \<open>n\<close> words read from the bytes stored; with fewer bytes some words were never written.\<close>

definition words_at :: "nat \<Rightarrow> u8 list \<Rightarrow> u64 list option" where
  "words_at n bs =
     (if length bs < 8 * n then None else Some (map (\<lambda>i. word_at (take 8 (drop (8 * i) bs))) [0..<n]))"

section \<open>Memory, pipes, semaphores\<close>

record pm_stats_t =
  total :: u64
  used :: u64
  free :: u64

definition mem_alloc :: "'w kernel_calls \<Rightarrow> u64 \<Rightarrow> 'w \<Rightarrow> (ptr \<times> 'w) option" where
  "mem_alloc k n w = ask k (Sys_mem_alloc n) w"

definition mem_free :: "'w kernel_calls \<Rightarrow> ptr \<Rightarrow> 'w \<Rightarrow> 'w option" where
  "mem_free k p w = tell k (Sys_mem_free p) w"

definition get_mem_info :: "'w kernel_calls \<Rightarrow> 'w \<Rightarrow> (pm_stats_t \<times> 'w) option" where
  "get_mem_info k w =
     do {
       (_, bs, w) \<leftarrow> k Sys_mem_info w;
       ns \<leftarrow> words_at 3 bs;
       Some (\<lparr>total = ns ! 0, used = ns ! 1, free = ns ! 2\<rparr>, w)
     }"

text \<open>The identifier of the pipe, 16 bits wide, and the two descriptors stored in \<open>fds\<close>.\<close>

definition pipeOpen :: "'w kernel_calls \<Rightarrow> 'w \<Rightarrow> (u16 \<times> u16 list \<times> 'w) option" where
  "pipeOpen k w =
     do {
       (r, bs, w) \<leftarrow> k Sys_pipe_open w;
       Some (ucast r, (if length bs < 4 then [] else [ucast (word_at (take 2 bs)), ucast (word_at (take 2 (drop 2 bs)))]), w)
     }"

definition pipeClose :: "'w kernel_calls \<Rightarrow> u32 \<Rightarrow> 'w \<Rightarrow> (u16 \<times> 'w) option" where
  "pipeClose k pipe_id w = do { (r, w) \<leftarrow> ask k (Sys_pipe_close (ucast pipe_id)) w; Some (ucast r, w) }"

definition semOpen :: "'w kernel_calls \<Rightarrow> string \<Rightarrow> u32 \<Rightarrow> 'w \<Rightarrow> (ptr \<times> 'w) option" where
  "semOpen k name v w = ask k (Sys_semOpen name v) w"

definition semClose :: "'w kernel_calls \<Rightarrow> ptr \<Rightarrow> 'w \<Rightarrow> 'w option" where
  "semClose k sem w = tell k (Sys_semClose sem) w"

definition semWait :: "'w kernel_calls \<Rightarrow> ptr \<Rightarrow> 'w \<Rightarrow> 'w option" where
  "semWait k sem w = tell k (Sys_semWait sem) w"

definition semPost :: "'w kernel_calls \<Rightarrow> ptr \<Rightarrow> 'w \<Rightarrow> 'w option" where
  "semPost k sem w = tell k (Sys_semPost sem) w"

definition semTryWait :: "'w kernel_calls \<Rightarrow> ptr \<Rightarrow> 'w \<Rightarrow> (u32 \<times> 'w) option" where
  "semTryWait k sem w = do { (r, w) \<leftarrow> ask k (Sys_semTryWait sem) w; Some (ucast r, w) }"

definition semGetValue :: "'w kernel_calls \<Rightarrow> ptr \<Rightarrow> 'w \<Rightarrow> (u32 \<times> u8 list \<times> 'w) option" where
  "semGetValue k sem w = do { (r, bs, w) \<leftarrow> k (Sys_semGetValue sem) w; Some (ucast r, bs, w) }"

definition semUnlink :: "'w kernel_calls \<Rightarrow> string \<Rightarrow> 'w \<Rightarrow> (u32 \<times> 'w) option" where
  "semUnlink k name w = do { (r, w) \<leftarrow> ask k (Sys_semUnlink name) w; Some (ucast r, w) }"

section \<open>Sound and time\<close>

definition playSound :: "'w kernel_calls \<Rightarrow> u32 \<Rightarrow> u32 \<Rightarrow> 'w \<Rightarrow> 'w option" where
  "playSound k frequency duration w = tell k (Sys_playSound frequency duration) w"

definition playHitSound :: "'w kernel_calls \<Rightarrow> 'w \<Rightarrow> 'w option" where
  "playHitSound k w = do { w \<leftarrow> playSound k 300 100 w; playSound k 250 50 w }"

definition playStartMusic :: "'w kernel_calls \<Rightarrow> 'w \<Rightarrow> 'w option" where
  "playStartMusic k w =
     do {
       w \<leftarrow> playSound k 262 150 w;
       w \<leftarrow> playSound k 294 150 w;
       w \<leftarrow> playSound k 330 150 w;
       w \<leftarrow> playSound k 349 150 w;
       w \<leftarrow> playSound k 392 200 w;
       w \<leftarrow> playSound k 440 150 w;
       playSound k 523 300 w
     }"

definition playHoleMusic :: "'w kernel_calls \<Rightarrow> 'w \<Rightarrow> 'w option" where
  "playHoleMusic k w =
     do {
       w \<leftarrow> playSound k 523 200 w;
       w \<leftarrow> playSound k 659 200 w;
       w \<leftarrow> playSound k 784 200 w;
       w \<leftarrow> playSound k 1047 400 w;
       w \<leftarrow> playSound k 294 150 w;
       playSound k 523 600 w
     }"

record dateTime =
  sec :: u8
  minute :: u8
  hour :: u8
  day :: u8
  month :: u8
  year :: u8

definition getDateTime :: "'w kernel_calls \<Rightarrow> 'w \<Rightarrow> (dateTime \<times> 'w) option" where
  "getDateTime k w =
     do {
       (_, bs, w) \<leftarrow> k Sys_getDateTime w;
       if length bs < 6 then None
       else Some (\<lparr>sec = bs ! 0, minute = bs ! 1, hour = bs ! 2, day = bs ! 3, month = bs ! 4, year = bs ! 5\<rparr>, w)
     }"

definition sleepMilli :: "'w kernel_calls \<Rightarrow> u64 \<Rightarrow> 'w \<Rightarrow> 'w option" where
  "sleepMilli k milliseconds w = tell k (Sys_sleepMilli milliseconds) w"

section \<open>Video\<close>

definition clearScreen :: "'w kernel_calls \<Rightarrow> 'w \<Rightarrow> 'w option" where
  "clearScreen k w = tell k Sys_clearScreen w"

definition putPixel :: "'w kernel_calls \<Rightarrow> u32 \<Rightarrow> u64 \<Rightarrow> u64 \<Rightarrow> 'w \<Rightarrow> 'w option" where
  "putPixel k hexColor x y w = tell k (Sys_putPixel hexColor x y) w"

definition drawChar :: "'w kernel_calls \<Rightarrow> char \<Rightarrow> u32 \<Rightarrow> u64 \<Rightarrow> u64 \<Rightarrow> 'w \<Rightarrow> 'w option" where
  "drawChar k c hexColor x y w = tell k (Sys_drawChar c hexColor x y) w"

definition drawString :: "'w kernel_calls \<Rightarrow> string \<Rightarrow> u32 \<Rightarrow> u64 \<Rightarrow> u64 \<Rightarrow> 'w \<Rightarrow> 'w option" where
  "drawString k str hexColor x y w = tell k (Sys_drawString str hexColor x y) w"

definition drawRectangle :: "'w kernel_calls \<Rightarrow> u64 \<Rightarrow> u64 \<Rightarrow> u32 \<Rightarrow> u64 \<Rightarrow> u64 \<Rightarrow> 'w \<Rightarrow> 'w option" where
  "drawRectangle k width height hexColor x y w = tell k (Sys_drawRectangle width height hexColor x y) w"

definition drawDecimal :: "'w kernel_calls \<Rightarrow> u64 \<Rightarrow> u32 \<Rightarrow> u64 \<Rightarrow> u64 \<Rightarrow> 'w \<Rightarrow> 'w option" where
  "drawDecimal k n hexColor x y w = tell k (Sys_drawDecimal n hexColor x y) w"

definition drawHexa :: "'w kernel_calls \<Rightarrow> u64 \<Rightarrow> u32 \<Rightarrow> u64 \<Rightarrow> u64 \<Rightarrow> 'w \<Rightarrow> 'w option" where
  "drawHexa k n hexColor x y w = tell k (Sys_drawHexa n hexColor x y) w"

definition drawBin :: "'w kernel_calls \<Rightarrow> u64 \<Rightarrow> u32 \<Rightarrow> u64 \<Rightarrow> u64 \<Rightarrow> 'w \<Rightarrow> 'w option" where
  "drawBin k n hexColor x y w = tell k (Sys_drawBin n hexColor x y) w"

definition getScreenWidth :: "'w kernel_calls \<Rightarrow> 'w \<Rightarrow> (u16 \<times> 'w) option" where
  "getScreenWidth k w = do { (r, w) \<leftarrow> ask k Sys_getScreenWidth w; Some (ucast r, w) }"

definition getScreenHeight :: "'w kernel_calls \<Rightarrow> 'w \<Rightarrow> (u16 \<times> 'w) option" where
  "getScreenHeight k w = do { (r, w) \<leftarrow> ask k Sys_getScreenHeight w; Some (ucast r, w) }"

definition paintScreen :: "'w kernel_calls \<Rightarrow> u32 \<Rightarrow> 'w \<Rightarrow> 'w option" where
  "paintScreen k hexColor w =
     do {
       (width, w) \<leftarrow> getScreenWidth k w;
       (height, w) \<leftarrow> getScreenHeight k w;
       drawRectangle k (ucast width) (ucast height) hexColor 0 0 w
     }"

definition drawCircle :: "'w kernel_calls \<Rightarrow> u64 \<Rightarrow> u32 \<Rightarrow> u64 \<Rightarrow> u64 \<Rightarrow> 'w \<Rightarrow> 'w option" where
  "drawCircle k radius hexColor x y w = tell k (Sys_drawCircle radius hexColor x y) w"

definition zoomIn :: "'w kernel_calls \<Rightarrow> 'w \<Rightarrow> 'w option" where
  "zoomIn k w = tell k Sys_zoomIn w"

definition zoomOut :: "'w kernel_calls \<Rightarrow> 'w \<Rightarrow> 'w option" where
  "zoomOut k w = tell k Sys_zoomOut w"

section \<open>Processes\<close>

definition createProcess ::
  "'w kernel_calls \<Rightarrow> string \<Rightarrow> symbol \<Rightarrow> u32 \<Rightarrow> string list \<Rightarrow> u16 list option \<Rightarrow> bool \<Rightarrow> 'w \<Rightarrow> (u64 \<times> 'w) option" where
  "createProcess k name main argc argv fds foreground w = ask k (Sys_createProcess name main argc argv fds foreground) w"

definition deleteProcess :: "'w kernel_calls \<Rightarrow> u64 \<Rightarrow> 'w \<Rightarrow> (u32 \<times> 'w) option" where
  "deleteProcess k pid w = do { (r, w) \<leftarrow> ask k (Sys_deleteProcess pid) w; Some (ucast r, w) }"

definition getPID :: "'w kernel_calls \<Rightarrow> 'w \<Rightarrow> (u64 \<times> 'w) option" where
  "getPID k w = ask k Sys_getPid w"

definition getProcessesInfo :: "'w kernel_calls \<Rightarrow> u64 \<Rightarrow> 'w \<Rightarrow> (u64 \<times> u8 list \<times> 'w) option" where
  "getProcessesInfo k bufferSize w = k (Sys_getAllProcessesInfo bufferSize) w"

definition changeProcessPriority :: "'w kernel_calls \<Rightarrow> u64 \<Rightarrow> u8 \<Rightarrow> 'w \<Rightarrow> 'w option" where
  "changeProcessPriority k pid newPriority w = tell k (Sys_changeProcessPriority pid newPriority) w"

definition blockProcess :: "'w kernel_calls \<Rightarrow> u64 \<Rightarrow> 'w \<Rightarrow> 'w option" where
  "blockProcess k pid w = tell k (Sys_blockProcess pid) w"

definition unblockProcess :: "'w kernel_calls \<Rightarrow> u64 \<Rightarrow> 'w \<Rightarrow> 'w option" where
  "unblockProcess k pid w = tell k (Sys_unblockProcess pid) w"

definition yield :: "'w kernel_calls \<Rightarrow> 'w \<Rightarrow> 'w option" where
  "yield k w = tell k Sys_yield w"

definition waitPid :: "'w kernel_calls \<Rightarrow> u64 \<Rightarrow> 'w \<Rightarrow> (u64 \<times> 'w) option" where
  "waitPid k pid w = ask k (Sys_waitPid pid) w"

definition getProcessStatus :: "'w kernel_calls \<Rightarrow> u64 \<Rightarrow> 'w \<Rightarrow> (u64 \<times> 'w) option" where
  "getProcessStatus k pid w = ask k (Sys_getProcessStatus pid) w"

definition kill :: "'w kernel_calls \<Rightarrow> u64 \<Rightarrow> 'w \<Rightarrow> 'w option" where
  "kill k pid w = tell k (Sys_deleteProcess pid) w"

lemmas call_defs = ask_def tell_def

end
