(* ===== verification/UserStrings.thy ===== *)
theory UserStrings
  imports Strings "HOL-Library.Signed_Division"
begin

text \<open>
  \<open>Userland/UserLib/stringLib.c\<close>: the length, the comparison and the number conversions of user programs. A
  string is the block of memory it starts; an access past the end of the block is a fault.
\<close>

section \<open>Length and comparison\<close>

text \<open>The result of \<open>strlen\<close> is one byte wide.\<close>

fun strlen_from :: "u8 \<Rightarrow> char list \<Rightarrow> u8 option" where
  "strlen_from len [] = None"
| "strlen_from len (c # s) = (if c = nul then Some len else strlen_from (len + 1) s)"

definition strlen :: "char list \<Rightarrow> u8 option" where
  "strlen str = strlen_from 0 str"

text \<open>So is the difference that \<open>strcmp\<close> returns.\<close>

fun strcmp :: "char list \<Rightarrow> char list \<Rightarrow> u8 option" where
  "strcmp (a # s1) (b # s2) =
     (if a \<noteq> nul \<and> b \<noteq> nul
      then if a \<noteq> b then Some (char_byte a - char_byte b) else strcmp s1 s2
      else Some (char_byte a - char_byte b))"
| "strcmp _ _ = None"

section \<open>Numbers\<close>

text \<open>An \<open>int\<close> is a word of 32 bits, a sum or product beyond its range wraps.\<close>

fun skip_blanks :: "char list \<Rightarrow> char list" where
  "skip_blanks (c # s) = (if c = CHR '' '' then skip_blanks s else c # s)"
| "skip_blanks [] = []"

definition is_digit :: "char \<Rightarrow> bool" where
  "is_digit c \<longleftrightarrow> 48 \<le> (of_char c :: nat) \<and> (of_char c :: nat) \<le> 57"

fun atoi_digits :: "u32 \<Rightarrow> char list \<Rightarrow> u32 option" where
  "atoi_digits n [] = None"
| "atoi_digits n (c # s) =
     (if is_digit c then atoi_digits (n * 10 + (of_nat (of_char c) - 48)) s else Some n)"

definition atoi :: "char list \<Rightarrow> u32 option" where
  "atoi str =
     (case skip_blanks str of
        [] \<Rightarrow> None
      | c # s \<Rightarrow>
          if c = CHR ''-'' then do { n \<leftarrow> atoi_digits 0 s; Some (- n) }
          else if c = CHR ''+'' then atoi_digits 0 s
          else atoi_digits 0 (c # s))"

text \<open>The remainders of a negative number are negative.\<close>

definition int_digit :: "int \<Rightarrow> char" where
  "int_digit r = (if r > 9 then char_of (nat ((r - 10 + 97) mod 256)) else char_of (nat ((r + 48) mod 256)))"

function itoa_fill :: "int \<Rightarrow> int \<Rightarrow> nat \<Rightarrow> string \<Rightarrow> (nat \<times> string) option" where
  "itoa_fill num base i str =
     (if num = 0 then Some (i, str)
      else do { str \<leftarrow> aset str i (int_digit (num smod base)); itoa_fill (num sdiv base) base (Suc i) str })"
  by pat_completeness auto
termination
  by (relation "measure (\<lambda>(_, _, i, str). length str - i)") (auto simp: aset_def split: if_splits)

declare itoa_fill.simps [simp del]

definition itoa :: "u32 \<Rightarrow> string \<Rightarrow> u32 \<Rightarrow> string option" where
  "itoa num str base =
     (if num = 0 then do { str \<leftarrow> aset str 0 (CHR ''0''); aset str 1 nul }
      else do {
        let isNegative = (num <s 0 \<and> base = 10);
        let num = (if isNegative then - num else num);
        if base = 0 then None
        else do {
          (i, str) \<leftarrow> itoa_fill (sint num) (sint base) 0 str;
          (i, str) \<leftarrow> (if isNegative then do { str \<leftarrow> aset str i (CHR ''-''); Some (Suc i, str) } else Some (i, str));
          str \<leftarrow> aset str i nul;
          swap_loop 0 (i - 1) str
        }
      })"

section \<open>What they compute\<close>

lemma strlen_from_nul: "nul \<notin> set s \<Longrightarrow> strlen_from n (s @ nul # t) = Some (n + of_nat (length s))"
  by (induction s arbitrary: n) (auto simp: algebra_simps)

text \<open>A string of 256 characters has length 0.\<close>

lemma strlen_wraps: "nul \<notin> set s \<Longrightarrow> strlen (s @ nul # t) = Some (of_nat (length s))"
  using strlen_from_nul [of s 0 t] by (simp add: strlen_def)

lemma char_byte_eq: "char_byte a = char_byte b \<longleftrightarrow> a = b"
  by (metis byte_char_byte)

text \<open>\<open>strcmp\<close> answers 0 exactly for equal strings, although it forgets the sign of the difference.\<close>

lemma strcmp_zero:
  "nul \<notin> set s \<Longrightarrow> nul \<notin> set t \<Longrightarrow> \<exists>r. strcmp (s @ nul # x) (t @ nul # y) = Some r \<and> (r = 0 \<longleftrightarrow> s = t)"
proof (induction s arbitrary: t)
  case Nil
  then show ?case using char_byte_eq [of nul] by (cases t) auto
next
  case (Cons a s)
  show ?case
  proof (cases t)
    case Nil
    then show ?thesis using Cons.prems char_byte_eq [of a nul] by auto
  next
    case t: (Cons b t')
    then show ?thesis using Cons char_byte_eq [of a b] by auto
  qed
qed

lemma int_digit_char: "r < b \<Longrightarrow> b \<le> 36 \<Longrightarrow> int_digit (int r) = digit_char 97 r"
  by (auto simp: int_digit_def digit_char_def nat_mod_distrib nat_add_distrib algebra_simps of_nat_diff
      intro!: arg_cong [where f = char_of])

lemma itoa_fill_lsd:
  "2 \<le> b \<Longrightarrow> b \<le> 36 \<Longrightarrow> itoa_fill (int n) (int b) i str = lsd_fill b 97 n i str"
proof (induction n arbitrary: i str rule: less_induct)
  case (less n)
  show ?case
  proof (cases "n = 0")
    case True
    then show ?thesis by (subst itoa_fill.simps, subst lsd_fill.simps) simp
  next
    case False
    have m: "int n smod int b = int (n mod b)" "int n sdiv int b = int (n div b)"
      using False less.prems by (simp_all add: signed_modulo_int_def signed_divide_int_def zmod_int zdiv_int)
    have d: "int_digit (int (n mod b)) = digit_char 97 (n mod b)"
      using less.prems by (intro int_digit_char [of _ b]) simp_all
    have "n div b < n" using False less.prems by simp
    from less.IH [OF this] show ?thesis
      using False less.prems
      by (subst itoa_fill.simps, subst lsd_fill.simps) (simp add: m d cong: Option.bind_cong)
  qed
qed

text \<open>The digits, an optional sign and the terminator, reversed in place.\<close>

lemma itoa_reverse:
  assumes "2 \<le> b" and "b \<le> 36" and "n \<noteq> 0" and "sg = [] \<or> sg = [c]"
    and "length (sg @ render b 97 n) < length str"
  shows "do {
           (i, str) \<leftarrow> itoa_fill (int n) (int b) 0 str;
           (i, str) \<leftarrow> (if sg \<noteq> [] then do { str \<leftarrow> aset str i c; Some (Suc i, str) } else Some (i, str));
           str \<leftarrow> aset str i nul;
           swap_loop 0 (i - 1) str
         } = Some ((sg @ render b 97 n) @ nul # drop (Suc (length (sg @ render b 97 n))) str)"
proof -
  let ?r = "render b 97 n"
  have d: "digits_of b 97 n = ?r" using assms(3) by (simp add: digits_of_def)
  have f: "itoa_fill (int n) (int b) 0 str = Some (length ?r, rev ?r @ drop (length ?r) str)"
    using lsd_fill_digits [OF assms(1), of 97 n str "[]"] assms(1,2,5) by (simp add: d itoa_fill_lsd)
  have dr: "k < length str \<Longrightarrow> drop k str = str ! k # drop (Suc k) str" for k by (simp add: Cons_nth_drop_Suc)
  have sw: "swap_loop 0 (length (sg @ ?r) - 1) (rev ?r @ sg @ nul # ys) = Some ((sg @ ?r) @ nul # ys)" for ys
    using swap_loop_rev [of "[]" "rev ?r @ sg" "nul # ys"] assms(4) by (auto simp: add.commute)
  have a: "length ?r < length str" "sg \<noteq> [] \<Longrightarrow> Suc (length ?r) < length str" using assms(4,5) by auto
  show ?thesis
  proof (cases "sg = []")
    case True
    then show ?thesis using f sw [of "drop (Suc (length ?r)) str"] dr [OF a(1)] by simp
  next
    case False
    with assms(4) have sg: "sg = [c]" by simp
    have "aset (rev ?r @ c # drop (Suc (length ?r)) str) (Suc (length ?r)) nul =
        Some (rev ?r @ sg @ nul # drop (Suc (Suc (length ?r))) str)"
      using aset_append [of "Suc (length ?r)" "rev ?r @ [c]"] dr [OF a(2) [OF False]] by (simp add: sg)
    then show ?thesis using f sw [of "drop (Suc (Suc (length ?r))) str"] dr [OF a(1)] by (simp add: sg)
  qed
qed

lemma itoa_decimal:
  assumes "- (2 ^ 31) < sint num" and "length (int_text (sint num)) < length str"
  shows "itoa num str 10 = Some (int_text (sint num) @ nul # drop (Suc (length (int_text (sint num)))) str)"
proof (cases "num = 0")
  case True
  then have "Suc 0 < length str" using assms(2) by (simp add: int_text_def render_zero)
  then obtain x y ys where "str = x # y # ys" by (cases str) (auto simp: Suc_less_eq2 length_Suc_conv neq_Nil_conv)
  then show ?thesis using True by (simp add: itoa_def int_text_def render_zero aset_def)
next
  case nz: False
  have ten: "sint (10 :: u32) = int 10" by simp
  show ?thesis
  proof (cases "sint num < 0")
    case True
    then obtain n where n: "sint num = - int n" "n \<noteq> 0" by (metis int_cases3 neg_int_cases less_irrefl)
    have "sint (- num) = sint (word_of_int (- sint num) :: u32)" by simp
    also have "\<dots> = signed_take_bit 31 (- sint num)" by (simp only: sint_sbintrunc') simp
    also have "\<dots> = int n" using assms(1) n by (simp add: signed_take_bit_int_eq_self)
    finally have m: "sint (- num) = int n" .
    have t: "int_text (sint num) = [CHR ''-''] @ render 10 97 n" using n by (simp add: int_text_def)
    have sl: "num <s 0" using True by (simp add: word_sless_alt)
    have l: "length ([CHR ''-''] @ render 10 97 n) < length str" using assms(2) by (simp only: t)
    note r = itoa_reverse [OF _ _ n(2) _ l, of "CHR ''-''"]
    have "itoa num str 10 = do {
           (i, str) \<leftarrow> itoa_fill (int n) (int 10) 0 str;
           (i, str) \<leftarrow> (if [CHR ''-''] \<noteq> [] then do { str \<leftarrow> aset str i (CHR ''-''); Some (Suc i, str) } else Some (i, str));
           str \<leftarrow> aset str i nul;
           swap_loop 0 (i - 1) str
         }"
      unfolding itoa_def Let_def using nz sl m by simp
    also have "\<dots> = Some (int_text (sint num) @ nul # drop (Suc (length (int_text (sint num)))) str)"
      unfolding t by (rule r) simp_all
    finally show ?thesis .
  next
    case False
    then obtain n where m: "sint num = int n" by (metis nonneg_int_cases not_less)
    have "sint num \<noteq> 0" using nz signed_word_eqI [of num 0] by auto
    then have z: "n \<noteq> 0" using m by auto
    have t: "int_text (sint num) = [] @ render 10 97 n" using m by (simp add: int_text_def)
    have sl: "\<not> num <s 0" using False by (simp add: word_sless_alt)
    have l: "length ([] @ render 10 97 n) < length str" using assms(2) by (simp only: t)
    note r = itoa_reverse [OF _ _ z _ l, of "CHR ''-''"]
    have "itoa num str 10 = do {
           (i, str) \<leftarrow> itoa_fill (int n) (int 10) 0 str;
           (i, str) \<leftarrow> (if ([] :: string) \<noteq> [] then do { str \<leftarrow> aset str i (CHR ''-''); Some (Suc i, str) } else Some (i, str));
           str \<leftarrow> aset str i nul;
           swap_loop 0 (i - 1) str
         }"
      unfolding itoa_def Let_def using nz sl m by simp
    also have "\<dots> = Some (int_text (sint num) @ nul # drop (Suc (length (int_text (sint num)))) str)"
      unfolding t by (rule r) simp_all
    finally show ?thesis .
  qed
qed

lemma digit_step: "is_digit c \<Longrightarrow> of_nat (of_char c) - 48 = (of_nat (digit_val 97 c) :: u32)"
  by (simp add: is_digit_def digit_val_def of_nat_diff)

lemma atoi_digits_number:
  "\<forall>c\<in>set s. is_digit c \<Longrightarrow> \<not> is_digit c \<Longrightarrow>
     atoi_digits (of_nat m) (s @ c # t) = Some (of_nat (foldl (\<lambda>n c. n * 10 + digit_val 97 c) m s))"
proof (induction s arbitrary: m)
  case (Cons d s)
  have "of_nat m * 10 + (of_nat (of_char d) - 48) = (of_nat (m * 10 + digit_val 97 d) :: u32)"
    using Cons.prems digit_step [of d] by simp
  then show ?case using Cons.IH [of "m * 10 + digit_val 97 d"] Cons.prems by simp
qed simp

lemma atoi_numeral: "atoi_digits 0 (render 10 97 n @ nul # t) = Some (of_nat n)"
proof -
  have "is_digit c" if "c \<in> set (render 10 97 n)" for c
    using render_digits [OF _ _ that] by (auto simp: is_digit_def)
  moreover have "\<not> is_digit nul" by (simp add: is_digit_def)
  moreover have "foldl (\<lambda>n c. n * 10 + digit_val 97 c) 0 (render 10 97 n) = n"
    using number_render [of 10 97 n] by (simp add: number_def)
  ultimately show ?thesis using atoi_digits_number [of "render 10 97 n" nul 0 t] by simp
qed

text \<open>\<open>atoi\<close> reads every decimal, modulo the width of an \<open>int\<close>.\<close>

lemma atoi_text: "atoi (int_text z @ nul # t) = Some (word_of_int z)"
proof (cases "z < 0")
  case True
  then obtain n where z: "z = - int n" by (metis int_cases3 neg_int_cases less_irrefl)
  then show ?thesis using True by (simp add: atoi_def int_text_def atoi_numeral)
next
  case False
  then obtain n where z: "z = int n" by (metis nonneg_int_cases not_less)
  obtain c r where cr: "render 10 97 n = c # r" using render_nonempty by (metis list.exhaust)
  have "c \<in> set (render 10 97 n)" using cr by simp
  from render_digits [OF _ _ this] obtain d :: nat where "d < 10" "c = char_of (48 + d)" by auto
  then have "(of_char c :: nat) = 48 + d" by simp
  then have "c \<noteq> CHR '' ''" "c \<noteq> CHR ''-''" "c \<noteq> CHR ''+''" by auto
  then have "atoi (int_text z @ nul # t) = atoi_digits 0 (render 10 97 n @ nul # t)"
    using z by (simp add: atoi_def int_text_def cr)
  then show ?thesis using z by (simp add: atoi_numeral)
qed

lemma int_text_length:
  assumes "\<bar>sint (num :: u32)\<bar> < 2 ^ 31"
  shows "length (int_text (sint num)) \<le> 11"
proof -
  have "\<bar>sint num\<bar> < 10 ^ 10" using assms by simp
  then have "nat \<bar>sint num\<bar> < 10 ^ 10" by (simp add: nat_less_iff)
  from render_length [OF _ this] have "length (render 10 97 (nat \<bar>sint num\<bar>)) \<le> 10" by simp
  then show ?thesis by (cases "sint num < 0") (simp_all add: int_text_def)
qed

text \<open>The least integer has no positive counterpart, and the digits come out of negative remainders.\<close>

lemma itoa_least:
  "itoa 0x80000000 (replicate 12 nul) 10 = Some (''-./,),(-*,('' @ [nul])"
  by code_simp

section \<open>Properties\<close>

text \<open>\<open>atoi\<close> inverts \<open>itoa\<close>. For every \<open>int\<close> but the least one and any buffer of twelve bytes or more, \<open>itoa\<close> in
  base 10 writes the decimal with its sign and terminator without leaving the buffer or touching the rest
  of it, and \<open>atoi\<close> reads the number back.\<close>

theorem itoa_then_atoi:
  assumes "sint num \<noteq> - (2 ^ 31)" and "12 \<le> length str"
  shows "\<exists>out. itoa num str 10 = Some out \<and> atoi out = Some num \<and> length out = length str \<and>
           (\<exists>n \<le> 12. take n out = int_text (sint num) @ [nul] \<and> drop n out = drop n str)"
proof -
  let ?t = "int_text (sint num)"
  have b: "- (2 ^ 31) < sint num" "\<bar>sint num\<bar> < 2 ^ 31"
    using assms(1) sint_greater_eq [of num] sint_less [of num] by auto
  from int_text_length [OF b(2)] assms(2) have l: "Suc (length ?t) \<le> 12" "length ?t < length str" by simp_all
  let ?o = "?t @ nul # drop (Suc (length ?t)) str"
  have "itoa num str 10 = Some ?o" by (rule itoa_decimal [OF b(1) l(2)])
  moreover have "atoi ?o = Some num" by (simp add: atoi_text)
  moreover have "length ?o = length str" using l by simp
  moreover have "take (Suc (length ?t)) ?o = ?t @ [nul]" "drop (Suc (length ?t)) ?o = drop (Suc (length ?t)) str" by simp_all
  ultimately show ?thesis using l(1) by blast
qed

theorem itoa_then_atoi_witness: "\<exists>out. itoa (- 45) (replicate 12 nul) 10 = Some out \<and> atoi out = Some (- 45)"
  using itoa_then_atoi [of "- 45" "replicate 12 nul"] by auto

end
