(* ===== verification/UserIO.thy ===== *)
theory UserIO
  imports UserLib UserStrings
begin

text \<open>
  \<open>Userland/UserLib/usrio.c\<close>: characters to and from the standard streams, \<open>printf\<close>, \<open>scanf\<close> and \<open>to_lower\<close>, over
  any kernel. The \<open>int\<close> results that no caller looks at (\<open>putchar\<close> returns its argument, \<open>printf\<close> 0) are left out.
\<close>

section \<open>Characters\<close>

text \<open>A descriptor goes through \<open>int16_t\<close> and \<open>uint8_t\<close>; after a failed read the character was never written.\<close>

definition getchar :: "'w kernel_calls \<Rightarrow> 'w \<Rightarrow> (char \<times> 'w) option" where
  "getchar k w =
     do {
       (fd, w) \<leftarrow> ask k (Sys_getProcessFd 0) w;
       (bytesRead, c, w) \<leftarrow> k (Sys_read (ucast fd) 1) w;
       if bytesRead = 0 then Some (nul, w)
       else (case c of [] \<Rightarrow> None | b # _ \<Rightarrow> Some (byte_char b, w))
     }"

definition putchar :: "'w kernel_calls \<Rightarrow> char \<Rightarrow> 'w \<Rightarrow> 'w option" where
  "putchar k c w =
     do { (fd, w) \<leftarrow> ask k (Sys_getProcessFd 1) w; tell k (Sys_write (ucast fd) [c] 1) w }"

text \<open>The loop that writes a string up to its terminator.\<close>

fun put_text :: "'w kernel_calls \<Rightarrow> string \<Rightarrow> 'w \<Rightarrow> 'w option" where
  "put_text k [] w = Some w"
| "put_text k (c # s) w = do { w \<leftarrow> putchar k c w; put_text k s w }"

definition puts :: "'w kernel_calls \<Rightarrow> string \<Rightarrow> 'w \<Rightarrow> (u32 \<times> 'w) option" where
  "puts k s w =
     do { w \<leftarrow> put_text k s w; w \<leftarrow> putchar k (CHR 0x0A) w; Some (of_nat (length s) + 1, w) }"

section \<open>Numbers\<close>

function printUnsigned :: "'w kernel_calls \<Rightarrow> u32 \<Rightarrow> 'w \<Rightarrow> 'w option" where
  "printUnsigned k u w =
     do {
       w \<leftarrow> (if 10 \<le> u then printUnsigned k (u div 10) w else Some w);
       putchar k (char_of (48 + unat (u mod 10))) w
     }"
  by pat_completeness auto
termination
  by (relation "measure (\<lambda>(_, u, _). unat u)") (auto simp: unat_div word_le_nat_alt)

function printUnsignedLong :: "'w kernel_calls \<Rightarrow> u64 \<Rightarrow> 'w \<Rightarrow> 'w option" where
  "printUnsignedLong k u w =
     do {
       w \<leftarrow> (if 10 \<le> u then printUnsignedLong k (u div 10) w else Some w);
       putchar k (char_of (48 + unat (u mod 10))) w
     }"
  by pat_completeness auto
termination
  by (relation "measure (\<lambda>(_, u, _). unat u)") (auto simp: unat_div word_le_nat_alt)

function printUnsignedLongLong :: "'w kernel_calls \<Rightarrow> u64 \<Rightarrow> 'w \<Rightarrow> 'w option" where
  "printUnsignedLongLong k u w =
     do {
       w \<leftarrow> (if 10 \<le> u then printUnsignedLongLong k (u div 10) w else Some w);
       putchar k (char_of (48 + unat (u mod 10))) w
     }"
  by pat_completeness auto
termination
  by (relation "measure (\<lambda>(_, u, _). unat u)") (auto simp: unat_div word_le_nat_alt)

declare printUnsigned.simps [simp del] printUnsignedLong.simps [simp del] printUnsignedLongLong.simps [simp del]

definition printInt :: "'w kernel_calls \<Rightarrow> u32 \<Rightarrow> 'w \<Rightarrow> 'w option" where
  "printInt k d w =
     (if d <s 0 then do { w \<leftarrow> putchar k (CHR ''-'') w; printUnsigned k (- d) w } else printUnsigned k d w)"

fun put_backwards :: "'w kernel_calls \<Rightarrow> nat \<Rightarrow> string \<Rightarrow> 'w \<Rightarrow> 'w option" where
  "put_backwards k 0 buf w = Some w"
| "put_backwards k (Suc i) buf w = do { c \<leftarrow> aget buf i; w \<leftarrow> putchar k c w; put_backwards k i buf w }"

definition printHex :: "'w kernel_calls \<Rightarrow> u32 \<Rightarrow> 'w \<Rightarrow> 'w option" where
  "printHex k x w =
     (if x = 0 then putchar k (CHR ''0'') w
      else do { (i, buf) \<leftarrow> hex_fill x 0 (replicate 8 nul); put_backwards k i buf w })"

section \<open>printf\<close>

text \<open>
  One conversion, as in the kernel's \<open>ksprintf\<close>: the format and the arguments that remain. A null pointer
  for \<open>%s\<close> is followed, and signed \<open>long\<close> arguments are printed as unsigned ones.
\<close>

definition printf_conv :: "'w kernel_calls \<Rightarrow> char \<Rightarrow> string \<Rightarrow> arg list \<Rightarrow> 'w \<Rightarrow> (string \<times> arg list \<times> 'w) option" where
  "printf_conv k c f args w =
     (if c = CHR ''d'' then
        (case args of AInt d # args \<Rightarrow> do { w \<leftarrow> printInt k d w; Some (f, args, w) } | _ \<Rightarrow> None)
      else if c = CHR ''u'' then
        (case args of AInt u # args \<Rightarrow> do { w \<leftarrow> printUnsigned k u w; Some (f, args, w) } | _ \<Rightarrow> None)
      else if c = CHR ''x'' then
        (case args of AInt x # args \<Rightarrow> do { w \<leftarrow> printHex k x w; Some (f, args, w) } | _ \<Rightarrow> None)
      else if c = CHR ''c'' then
        (case args of AInt a # args \<Rightarrow> do { w \<leftarrow> putchar k (char_of (unat a)) w; Some (f, args, w) } | _ \<Rightarrow> None)
      else if c = CHR ''s'' then
        (case args of AStr (Some s) # args \<Rightarrow> do { w \<leftarrow> put_text k s w; Some (f, args, w) } | _ \<Rightarrow> None)
      else if c = CHR ''%'' then do { w \<leftarrow> putchar k (CHR ''%'') w; Some (f, args, w) }
      else if c = CHR ''l'' then
        (case f of
           [] \<Rightarrow> Some (f, args, w)
         | g # f' \<Rightarrow>
             if g = CHR ''l'' then
               (case f' of
                  [] \<Rightarrow> Some (f', args, w)
                | h # f'' \<Rightarrow>
                    if h = CHR ''u'' \<or> h = CHR ''d'' then
                      (case args of ALong u # args \<Rightarrow> do { w \<leftarrow> printUnsignedLongLong k u w; Some (f'', args, w) }
                       | _ \<Rightarrow> None)
                    else Some (f', args, w))
             else if g = CHR ''u'' \<or> g = CHR ''d'' then
               (case args of ALong u # args \<Rightarrow> do { w \<leftarrow> printUnsignedLong k u w; Some (f', args, w) } | _ \<Rightarrow> None)
             else Some (f, args, w))
      else do { w \<leftarrow> putchar k (CHR ''%'') w; w \<leftarrow> putchar k c w; Some (f, args, w) })"

lemma printf_conv_length: "printf_conv k c f args w = Some (f', args', w') \<Longrightarrow> length f' \<le> length f"
  by (auto simp: printf_conv_def split: if_splits list.splits arg.splits option.splits Option.bind_splits)

text \<open>After a percent sign at the very end the loop steps over the terminator: a fault.\<close>

function printf :: "'w kernel_calls \<Rightarrow> string \<Rightarrow> arg list \<Rightarrow> 'w \<Rightarrow> 'w option" where
  "printf k [] args w = Some w"
| "printf k (c # f) args w =
     (if c \<noteq> CHR ''%'' then do { w \<leftarrow> putchar k c w; printf k f args w }
      else (case f of
              [] \<Rightarrow> None
            | d # f \<Rightarrow> do { (f, args, w) \<leftarrow> printf_conv k d f args w; printf k f args w }))"
  by pat_completeness auto
termination
  by (relation "measure (\<lambda>(_, f, _). length f)") (auto dest!: printf_conv_length)

section \<open>scanf\<close>

partial_function (option) scan_blanks :: "'w kernel_calls \<Rightarrow> 'w \<Rightarrow> (char \<times> 'w) option" where
  "scan_blanks k w = do { (c, w) \<leftarrow> getchar k w; if schar c \<le> 32 then scan_blanks k w else Some (c, w) }"

partial_function (option) scan_digits :: "'w kernel_calls \<Rightarrow> char \<Rightarrow> u32 \<Rightarrow> 'w \<Rightarrow> (u32 \<times> 'w) option" where
  "scan_digits k c v w =
     (if is_digit c
      then do { (d, w) \<leftarrow> getchar k w; scan_digits k d (v * 10 + (of_nat (of_char c) - 48)) w }
      else Some (v, w))"

partial_function (option) scan_word :: "'w kernel_calls \<Rightarrow> char \<Rightarrow> nat \<Rightarrow> string \<Rightarrow> 'w \<Rightarrow> (string \<times> 'w) option" where
  "scan_word k c i s w =
     (if schar c > 32
      then do { s \<leftarrow> aset s i c; (c, w) \<leftarrow> getchar k w; scan_word k c (Suc i) s w }
      else do { s \<leftarrow> aset s i nul; Some (s, w) })"

text \<open>What an argument points to: an \<open>int\<close>, or an array of characters.\<close>

datatype place = IntAt u32 | TextAt string

definition scan_int :: "'w kernel_calls \<Rightarrow> 'w \<Rightarrow> (u32 \<times> 'w) option" where
  "scan_int k w =
     do {
       (c, w) \<leftarrow> scan_blanks k w;
       let neg = (c = CHR ''-'');
       (c, w) \<leftarrow> (if neg then getchar k w else Some (c, w));
       (v, w) \<leftarrow> scan_digits k c 0 w;
       Some (if neg then - v else v, w)
     }"

fun scanf :: "'w kernel_calls \<Rightarrow> string \<Rightarrow> place list \<Rightarrow> 'w \<Rightarrow> (u32 \<times> place list \<times> 'w) option" where
  "scanf k [] ps w = Some (0, ps, w)"
| "scanf k [c] ps w = (if c \<noteq> CHR ''%'' then Some (0, ps, w) else None)"
| "scanf k (c # d # f) ps w =
     (if c \<noteq> CHR ''%'' then scanf k (d # f) ps w
      else if d = CHR ''d'' then
        (case ps of
           IntAt _ # ps \<Rightarrow> do { (v, w) \<leftarrow> scan_int k w; (n, qs, w) \<leftarrow> scanf k f ps w; Some (n + 1, IntAt v # qs, w) }
         | _ \<Rightarrow> None)
      else if d = CHR ''s'' then
        (case ps of
           TextAt s # ps \<Rightarrow> do {
             (c, w) \<leftarrow> scan_blanks k w;
             (s, w) \<leftarrow> scan_word k c 0 s w;
             (n, qs, w) \<leftarrow> scanf k f ps w;
             Some (n + 1, TextAt s # qs, w)
           }
         | _ \<Rightarrow> None)
      else scanf k f ps w)"

section \<open>Letters and registers\<close>

fun to_lower :: "char list \<Rightarrow> char list option" where
  "to_lower [] = None"
| "to_lower (c # s) =
     (if c = nul then Some (c # s)
      else do {
        s \<leftarrow> to_lower s;
        Some ((if 65 \<le> (of_char c :: nat) \<and> (of_char c :: nat) \<le> 90 then char_of (of_char c + 32 :: nat) else c) # s)
      })"

definition get_regist :: "'w kernel_calls \<Rightarrow> 'w \<Rightarrow> (u64 \<times> u8 list \<times> 'w) option" where
  "get_regist k w = k Sys_getRegisters w"

section \<open>What is printed\<close>

lemma put_text_nil [simp]: "put_text k [] = Some"
  by (rule ext) simp

lemma put_text_append: "put_text k (s @ t) w = do { w \<leftarrow> put_text k s w; put_text k t w }"
  by (induction s arbitrary: w) (auto intro!: Option.bind_cong)

lemma printUnsigned_render: "printUnsigned k u w = put_text k (render 10 a (unat u)) w"
proof (induction k u w rule: printUnsigned.induct)
  case (1 k u w)
  show ?case
  proof (cases "10 \<le> u")
    case True
    then have "\<not> unat u < 10" by (simp add: word_le_nat_alt)
    with 1 True show ?thesis
      by (subst printUnsigned.simps, subst render.simps)
        (simp add: unat_div unat_mod digit_char_def put_text_append)
  next
    case False
    then have "unat u < 10" by (simp add: word_le_nat_alt)
    with False show ?thesis
      by (subst printUnsigned.simps, subst render.simps) (simp add: unat_mod digit_char_def)
  qed
qed

lemma printUnsignedLong_render: "printUnsignedLong k u w = put_text k (render 10 a (unat u)) w"
proof (induction k u w rule: printUnsignedLong.induct)
  case (1 k u w)
  show ?case
  proof (cases "10 \<le> u")
    case True
    then have "\<not> unat u < 10" by (simp add: word_le_nat_alt)
    with 1 True show ?thesis
      by (subst printUnsignedLong.simps, subst render.simps)
        (simp add: unat_div unat_mod digit_char_def put_text_append)
  next
    case False
    then have "unat u < 10" by (simp add: word_le_nat_alt)
    with False show ?thesis
      by (subst printUnsignedLong.simps, subst render.simps) (simp add: unat_mod digit_char_def)
  qed
qed

lemma printUnsignedLongLong_same: "printUnsignedLongLong k u w = printUnsignedLong k u w"
  by (induction k u w rule: printUnsignedLong.induct)
    (subst printUnsignedLongLong.simps, subst printUnsignedLong.simps, simp)

lemma printInt_text: "printInt k d w = put_text k (int_text (sint d)) w"
  using unat_minus_int [of d] unat_int [of d] printUnsigned_render [of k _ _ 97]
  by (simp add: printInt_def int_text_def word_sless_alt)

lemma put_backwards_rev: "put_backwards k (length us) (us @ vs) w = put_text k (rev us) w"
proof (induction us arbitrary: vs w rule: rev_induct)
  case (snoc u us)
  show ?case using snoc [of "u # vs"] by (auto intro!: Option.bind_cong)
qed simp

lemma printHex_render: "printHex k x w = put_text k (render 16 97 (unat x)) w"
proof (cases "x = 0")
  case True
  then show ?thesis by (simp add: printHex_def render_zero)
next
  case False
  let ?r = "render 16 97 (unat x)"
  have "length ?r \<le> 8" by (rule render_length) (use unsigned_less [of x] in simp_all)
  moreover have "digits_of 16 97 (unat x) = ?r" using False by (simp add: digits_of_def unat_eq_0)
  ultimately have "hex_fill x 0 (replicate 8 nul) = Some (length ?r, rev ?r @ drop (length ?r) (replicate 8 nul))"
    using lsd_fill_digits [of 16 97 "unat x" "replicate 8 nul" "[]"] by (simp add: hex_fill_lsd)
  then show ?thesis using put_backwards_rev [of k "rev ?r"] False by (simp add: printHex_def)
qed

text \<open>The pieces of a format: its text in the format, its argument, and what is printed for it.\<close>

datatype item = Lit char | Dec u32 | Uns u32 | Hex u32 | Chr u32 | Str string | Percent
  | Ulong u64 | Slong u64 | Ullong u64 | Sllong u64

fun item_fmt :: "item \<Rightarrow> string" where
  "item_fmt (Lit c) = [c]"
| "item_fmt (Dec _) = ''%d''"
| "item_fmt (Uns _) = ''%u''"
| "item_fmt (Hex _) = ''%x''"
| "item_fmt (Chr _) = ''%c''"
| "item_fmt (Str _) = ''%s''"
| "item_fmt Percent = ''%%''"
| "item_fmt (Ulong _) = ''%lu''"
| "item_fmt (Slong _) = ''%ld''"
| "item_fmt (Ullong _) = ''%llu''"
| "item_fmt (Sllong _) = ''%lld''"

fun item_args :: "item \<Rightarrow> arg list" where
  "item_args (Dec d) = [AInt d]"
| "item_args (Uns d) = [AInt d]"
| "item_args (Hex d) = [AInt d]"
| "item_args (Chr d) = [AInt d]"
| "item_args (Str s) = [AStr (Some s)]"
| "item_args (Ulong d) = [ALong d]"
| "item_args (Slong d) = [ALong d]"
| "item_args (Ullong d) = [ALong d]"
| "item_args (Sllong d) = [ALong d]"
| "item_args _ = []"

fun item_text :: "item \<Rightarrow> string" where
  "item_text (Lit c) = [c]"
| "item_text (Dec d) = int_text (sint d)"
| "item_text (Uns u) = render 10 97 (unat u)"
| "item_text (Hex u) = render 16 97 (unat u)"
| "item_text (Chr u) = [char_of (unat u)]"
| "item_text (Str s) = s"
| "item_text Percent = ''%''"
| "item_text (Ulong u) = render 10 97 (unat u)"
| "item_text (Slong u) = render 10 97 (unat u)"
| "item_text (Ullong u) = render 10 97 (unat u)"
| "item_text (Sllong u) = render 10 97 (unat u)"

lemma printf_items:
  "\<forall>c. Lit c \<in> set ps \<longrightarrow> c \<noteq> CHR ''%'' \<Longrightarrow>
   printf k (concat (map item_fmt ps)) (concat (map item_args ps)) w = put_text k (concat (map item_text ps)) w"
proof (induction ps arbitrary: w)
  case (Cons p ps)
  note [simp] = printf_conv_def printInt_text printUnsigned_render [of _ _ _ 97] printHex_render
    printUnsignedLong_render [of _ _ _ 97] printUnsignedLongLong_same put_text_append
  from Cons show ?case by (cases p) (auto intro!: Option.bind_cong)
qed simp

lemma printf_plain: "CHR ''%'' \<notin> set s \<Longrightarrow> printf k s [] w = put_text k s w"
  by (induction s arbitrary: w) (auto intro!: Option.bind_cong)

section \<open>A console\<close>

text \<open>
  The contract of the standard streams: in a state that is \<open>ok\<close>, \<open>getchar\<close> returns the first character that
  waits to be read, and \<open>putchar\<close> shows a character on whatever the output leads to, when there is room.
\<close>

locale console =
  fixes k :: "'w kernel_calls" and ok :: "'w \<Rightarrow> bool" and inp :: "'w \<Rightarrow> string"
    and out :: "'w \<Rightarrow> 'v" and emit :: "char \<Rightarrow> 'v \<Rightarrow> 'v option"
  assumes get: "ok w \<Longrightarrow> inp w = c # cs \<Longrightarrow>
      \<exists>w'. getchar k w = Some (c, w') \<and> ok w' \<and> inp w' = cs \<and> out w' = out w"
    and put: "ok w \<Longrightarrow> emit c (out w) = Some v \<Longrightarrow>
      \<exists>w'. putchar k c w = Some w' \<and> ok w' \<and> inp w' = inp w \<and> out w' = v"
begin

fun emits :: "string \<Rightarrow> 'v \<Rightarrow> 'v option" where
  "emits [] v = Some v"
| "emits (c # s) v = do { v \<leftarrow> emit c v; emits s v }"

lemma emits_append: "emits (s @ t) v = do { v \<leftarrow> emits s v; emits t v }"
  by (induction s arbitrary: v) (auto intro!: Option.bind_cong)

lemma put_text_shows:
  "ok w \<Longrightarrow> emits s (out w) = Some v \<Longrightarrow>
     \<exists>w'. put_text k s w = Some w' \<and> ok w' \<and> inp w' = inp w \<and> out w' = v"
proof (induction s arbitrary: w)
  case (Cons c s)
  then obtain v1 where v: "emit c (out w) = Some v1" "emits s v1 = Some v" by (auto split: Option.bind_splits)
  from put [OF Cons.prems(1) v(1)] obtain w1
    where w: "putchar k c w = Some w1" "ok w1" "inp w1 = inp w" "out w1 = v1" by auto
  with Cons.IH [of w1] v(2) show ?case by auto
qed simp

lemma printf_shows:
  assumes "ok w" and "\<forall>c. Lit c \<in> set ps \<longrightarrow> c \<noteq> CHR ''%''" and "emits (concat (map item_text ps)) (out w) = Some v"
  shows "\<exists>w'. printf k (concat (map item_fmt ps)) (concat (map item_args ps)) w = Some w' \<and> ok w' \<and>
           inp w' = inp w \<and> out w' = v"
  using put_text_shows [OF assms(1,3)] by (simp only: printf_items [OF assms(2)])

end

end
