(* ===== verification/Golf.thy ===== *)
theory Golf
  imports UserIO
begin

text \<open>
  The game \<open>Userland/UserApps/PongisGolf\<close> (\<open>pongisLib.c\<close>, \<open>pongisgolf.c\<close>), over any kernel. The objects the code
  passes by reference are passed and returned by value.
\<close>

section \<open>Objects\<close>

record MipT =
  mip_x :: u64
  mip_y :: u64
  mip_speed :: u64
  mip_radius :: u64
  mip_color :: u32
  mip_degree :: u16

record BallT =
  ball_x :: u64
  ball_y :: u64
  ball_speed :: u64
  ball_radius :: u64
  ball_color :: u32

record HoleT =
  hole_x :: u64
  hole_y :: u64
  hole_radius :: u64
  hole_color :: u32

abbreviation BACKGROUND_COLOR :: u32 where "BACKGROUND_COLOR \<equiv> 0x00FF00"
abbreviation WHITE :: u32 where "WHITE \<equiv> 0xFFFFFF"
abbreviation BLACK :: u32 where "BLACK \<equiv> 0x000000"
abbreviation BLUE :: u32 where "BLUE \<equiv> 0x0000FF"
abbreviation MIP_INITIAL_RADIUS :: u64 where "MIP_INITIAL_RADIUS \<equiv> 20"
abbreviation MIP_INITIAL_SPEED :: u64 where "MIP_INITIAL_SPEED \<equiv> 10"
abbreviation MIP_INITIAL_X :: u64 where "MIP_INITIAL_X \<equiv> 100"
abbreviation MIP_INITIAL_Y :: u64 where "MIP_INITIAL_Y \<equiv> 100"
abbreviation MIP_EYE_RADIUS :: u64 where "MIP_EYE_RADIUS \<equiv> 5"
abbreviation BALL_RADIUS :: u64 where "BALL_RADIUS \<equiv> 10"
abbreviation BALL_INITIAL_SPEED :: u64 where "BALL_INITIAL_SPEED \<equiv> 25"
abbreviation BALL_INITIAL_X :: u64 where "BALL_INITIAL_X \<equiv> 150"
abbreviation BALL_INITIAL_Y :: u64 where "BALL_INITIAL_Y \<equiv> 150"
abbreviation HOLE_DEFAULT_RADIUS :: u64 where "HOLE_DEFAULT_RADIUS \<equiv> 30"
abbreviation HOLE_DEFAULT_X :: u64 where "HOLE_DEFAULT_X \<equiv> 500"
abbreviation HOLE_DEFAULT_Y :: u64 where "HOLE_DEFAULT_Y \<equiv> 500"
abbreviation MAX_PLAYERS :: int where "MAX_PLAYERS \<equiv> 2"

section \<open>Drawing\<close>

definition drawMip :: "'w kernel_calls \<Rightarrow> MipT \<Rightarrow> 'w \<Rightarrow> 'w option" where
  "drawMip k mip w =
     do {
       w \<leftarrow> drawCircle k (mip_radius mip) (mip_color mip) (mip_x mip) (mip_y mip) w;
       let eye_radius = (mip_radius mip * MIP_EYE_RADIUS) div 100;
       let eye_distance = mip_radius mip div 2;
       let (eye_x, eye_y) =
         (if mip_degree mip = 0 then (mip_x mip, mip_y mip - eye_distance)
          else if mip_degree mip = 1 then (mip_x mip + eye_distance, mip_y mip)
          else if mip_degree mip = 2 then (mip_x mip, mip_y mip + eye_distance)
          else if mip_degree mip = 3 then (mip_x mip - eye_distance, mip_y mip)
          else (mip_x mip, mip_y mip - eye_distance));
       drawCircle k eye_radius BLACK eye_x eye_y w
     }"

definition eraseMip :: "'w kernel_calls \<Rightarrow> MipT \<Rightarrow> 'w \<Rightarrow> 'w option" where
  "eraseMip k mip w = drawCircle k (mip_radius mip) BACKGROUND_COLOR (mip_x mip) (mip_y mip) w"

definition drawBall :: "'w kernel_calls \<Rightarrow> BallT \<Rightarrow> 'w \<Rightarrow> 'w option" where
  "drawBall k ball w = drawCircle k (ball_radius ball) (ball_color ball) (ball_x ball) (ball_y ball) w"

definition eraseBall :: "'w kernel_calls \<Rightarrow> BallT \<Rightarrow> 'w \<Rightarrow> 'w option" where
  "eraseBall k ball w = drawCircle k (ball_radius ball) BACKGROUND_COLOR (ball_x ball) (ball_y ball) w"

definition drawHole :: "'w kernel_calls \<Rightarrow> HoleT \<Rightarrow> 'w \<Rightarrow> 'w option" where
  "drawHole k hole w = drawCircle k (hole_radius hole) BLACK (hole_x hole) (hole_y hole) w"

definition eraseHole :: "'w kernel_calls \<Rightarrow> HoleT \<Rightarrow> 'w \<Rightarrow> 'w option" where
  "eraseHole k hole w = drawCircle k (hole_radius hole) BACKGROUND_COLOR (hole_x hole) (hole_y hole) w"

section \<open>Collisions\<close>

text \<open>The differences are signed, but the squares and the comparison are the same at 64 bits without sign.\<close>

definition touching :: "u64 \<Rightarrow> u64 \<Rightarrow> u64 \<Rightarrow> u64 \<Rightarrow> u64 \<Rightarrow> bool" where
  "touching x1 y1 x2 y2 d =
     (let dx = x1 - x2; dy = y1 - y2; distanceSquared = dx * dx + dy * dy in distanceSquared \<le> d * d)"

definition checkColisionMipBall :: "MipT \<Rightarrow> BallT \<Rightarrow> bool" where
  "checkColisionMipBall mip ball =
     touching (mip_x mip) (mip_y mip) (ball_x ball) (ball_y ball) (mip_radius mip + ball_radius ball)"

definition checkColisionMipMip :: "MipT \<Rightarrow> MipT \<Rightarrow> bool" where
  "checkColisionMipMip mip1 mip2 =
     touching (mip_x mip1) (mip_y mip1) (mip_x mip2) (mip_y mip2) (mip_radius mip1 + mip_radius mip2)"

definition checkHoleCollision :: "BallT \<Rightarrow> HoleT \<Rightarrow> bool" where
  "checkHoleCollision ball hole =
     touching (ball_x ball) (ball_y ball) (hole_x hole) (hole_y hole) (hole_radius hole)"

text \<open>The coordinates lose their upper half.\<close>

definition checkValidScreenPosition :: "'w kernel_calls \<Rightarrow> u32 \<Rightarrow> u32 \<Rightarrow> u32 \<Rightarrow> 'w \<Rightarrow> (bool \<times> 'w) option" where
  "checkValidScreenPosition k x y radius w =
     do {
       (wd, w) \<leftarrow> getScreenWidth k w;
       (ht, w) \<leftarrow> getScreenHeight k w;
       let screenWidth = (ucast wd :: u32);
       let screenHeight = (ucast ht :: u32);
       Some (x + radius < screenWidth \<and> x \<ge> radius \<and> y + radius < screenHeight \<and> y \<ge> radius, w)
     }"

section \<open>Moving\<close>

text \<open>One step in a direction, if the place it leads to is on the screen.\<close>

definition step_to :: "'w kernel_calls \<Rightarrow> u16 \<Rightarrow> u64 \<Rightarrow> u64 \<Rightarrow> u64 \<Rightarrow> u64 \<Rightarrow> 'w \<Rightarrow> ((u64 \<times> u64) \<times> 'w) option" where
  "step_to k degree speed radius x y w =
     (let try = (\<lambda>x' y'. do { (ok, w) \<leftarrow> checkValidScreenPosition k (ucast x') (ucast y') (ucast radius) w;
                             Some (if ok then (x', y') else (x, y), w) })
      in if degree = 0 then try x (y - speed)
         else if degree = 1 then try (x + speed) y
         else if degree = 2 then try x (y + speed)
         else if degree = 3 then try (x - speed) y
         else Some ((x, y), w))"

definition walkMip :: "'w kernel_calls \<Rightarrow> MipT \<Rightarrow> 'w \<Rightarrow> (MipT \<times> 'w) option" where
  "walkMip k mip w =
     do {
       w \<leftarrow> eraseMip k mip w;
       ((x, y), w) \<leftarrow> step_to k (mip_degree mip) (mip_speed mip) (mip_radius mip) (mip_x mip) (mip_y mip) w;
       let mip = mip\<lparr>mip_x := x, mip_y := y\<rparr>;
       w \<leftarrow> drawMip k mip w;
       Some (mip, w)
     }"

definition moveBall :: "'w kernel_calls \<Rightarrow> BallT \<Rightarrow> MipT \<Rightarrow> 'w \<Rightarrow> (BallT \<times> 'w) option" where
  "moveBall k ball mip w =
     do {
       w \<leftarrow> eraseBall k ball w;
       ((x, y), w) \<leftarrow> step_to k (mip_degree mip) BALL_INITIAL_SPEED (ball_radius ball) (ball_x ball) (ball_y ball) w;
       let ball = ball\<lparr>ball_x := x, ball_y := y\<rparr>;
       w \<leftarrow> drawBall k ball w;
       Some (ball, w)
     }"

definition changeMipDir :: "'w kernel_calls \<Rightarrow> MipT \<Rightarrow> u16 \<Rightarrow> 'w \<Rightarrow> (MipT \<times> 'w) option" where
  "changeMipDir k mip degree w =
     (let mip = mip\<lparr>mip_degree := degree\<rparr> in do { w \<leftarrow> drawMip k mip w; Some (mip, w) })"

definition getMipDegree :: "MipT \<Rightarrow> u16" where
  "getMipDegree mip = mip_degree mip"

section \<open>Menus and levels\<close>

abbreviation endl :: string where "endl \<equiv> [CHR 0x0A]"

text \<open>The number of players is an \<open>int8_t\<close>, and so is the difference of characters it is read from.\<close>

partial_function (option) ask_players :: "'w kernel_calls \<Rightarrow> 'w \<Rightarrow> (8 word \<times> 'w) option" where
  "ask_players k w =
     do {
       (c, w) \<leftarrow> getchar k w;
       let n = char_byte c - 48;
       if sint n < 0 \<or> sint n > MAX_PLAYERS then ask_players k w else Some (n, w)
     }"

partial_function (option) ask_color :: "'w kernel_calls \<Rightarrow> 'w \<Rightarrow> (u8 \<times> 'w) option" where
  "ask_color k w =
     do {
       (c, w) \<leftarrow> getchar k w;
       let n = char_byte c - 48;
       if n < 1 \<or> n > 4 then ask_color k w else Some (n, w)
     }"

definition colores :: "u32 list" where "colores = [WHITE, 0xFF8000, 0x00FF80, 0x808000]"

definition choose_color :: "'w kernel_calls \<Rightarrow> nat \<Rightarrow> MipT \<times> MipT \<Rightarrow> 'w \<Rightarrow> ((MipT \<times> MipT) \<times> 'w) option" where
  "choose_color k player mips w =
     do {
       w \<leftarrow> printf k (''Select Mip%d color:'' @ endl) [AInt (of_nat player)] w;
       w \<leftarrow> printf k (''1. White'' @ endl) [] w;
       w \<leftarrow> printf k (''2. Orange'' @ endl) [] w;
       w \<leftarrow> printf k (''3. Turquoise'' @ endl) [] w;
       w \<leftarrow> printf k (''4. Olive'' @ endl) [] w;
       (n, w) \<leftarrow> ask_color k w;
       let color = colores ! (unat n - 1);
       let mips = (if player = 1 then ((fst mips)\<lparr>mip_color := color\<rparr>, snd mips)
                   else (fst mips, (snd mips)\<lparr>mip_color := color\<rparr>));
       w \<leftarrow> clearScreen k w;
       Some (mips, w)
     }"

fun choose_colors :: "'w kernel_calls \<Rightarrow> nat list \<Rightarrow> MipT \<times> MipT \<Rightarrow> 'w \<Rightarrow> ((MipT \<times> MipT) \<times> 'w) option" where
  "choose_colors k [] mips w = Some (mips, w)"
| "choose_colors k (i # is) mips w = do { (mips, w) \<leftarrow> choose_color k i mips w; choose_colors k is mips w }"

definition startMenu :: "'w kernel_calls \<Rightarrow> MipT \<Rightarrow> MipT \<Rightarrow> 'w \<Rightarrow> (8 word \<times> (MipT \<times> MipT) \<times> 'w) option" where
  "startMenu k mip1 mip2 w =
     do {
       w \<leftarrow> clearScreen k w;
       w \<leftarrow> printf k (''Welcome to Pongis Golf!'' @ endl) [] w;
       w \<leftarrow> printf k (''Slect 1 or 2 players'' @ endl) [] w;
       (n, w) \<leftarrow> ask_players k w;
       w \<leftarrow> clearScreen k w;
       (mips, w) \<leftarrow> choose_colors k [1..<Suc (unat n)] (mip1, mip2) w;
       Some (n, mips, w)
     }"

definition endMenu :: "'w kernel_calls \<Rightarrow> u8 \<Rightarrow> 'w \<Rightarrow> 'w option" where
  "endMenu k winner w =
     do {
       w \<leftarrow> clearScreen k w;
       w \<leftarrow> (if winner = 1 then printf k (''Player 1 wins!!!'' @ endl) [] w
            else if winner = 2 then printf k (''Player 2 wins!!!'' @ endl) [] w
            else Some w);
       playHoleMusic k w
     }"

text \<open>The state of a game; \<open>players\<close> is the static variable of the library.\<close>

record game =
  mip1 :: MipT
  mip2 :: MipT
  ball :: BallT
  hole :: HoleT
  players :: "8 word"

definition drawLevel :: "'w kernel_calls \<Rightarrow> u16 \<Rightarrow> game \<Rightarrow> 'w \<Rightarrow> (game \<times> 'w) option" where
  "drawLevel k level g w =
     do {
       w \<leftarrow> paintScreen k BACKGROUND_COLOR w;
       (g, w) \<leftarrow>
         (if level = 1
          then do {
            let g = g\<lparr>mip1 := (mip1 g)\<lparr>mip_x := MIP_INITIAL_X, mip_y := MIP_INITIAL_Y\<rparr>\<rparr>;
            w \<leftarrow> drawMip k (mip1 g) w;
            (g, w) \<leftarrow> (if players g = 2
                       then let g = g\<lparr>mip2 := (mip2 g)\<lparr>mip_x := MIP_INITIAL_X, mip_y := MIP_INITIAL_Y + 100\<rparr>\<rparr>
                            in do { w \<leftarrow> drawMip k (mip2 g) w; Some (g, w) }
                       else Some (g, w));
            let g = g\<lparr>ball := (ball g)\<lparr>ball_x := BALL_INITIAL_X, ball_y := BALL_INITIAL_Y\<rparr>\<rparr>;
            w \<leftarrow> drawBall k (ball g) w;
            let g = g\<lparr>hole := (hole g)\<lparr>hole_x := HOLE_DEFAULT_X, hole_y := HOLE_DEFAULT_Y,
                                        hole_radius := HOLE_DEFAULT_RADIUS + 30\<rparr>\<rparr>;
            w \<leftarrow> drawHole k (hole g) w;
            Some (g, w)
          }
          else Some (g, w));
       w \<leftarrow> playStartMusic k w;
       Some (g, w)
     }"

section \<open>The game\<close>

text \<open>A player walks, pushes the ball, and may win; the result tells whether the game goes on.\<close>

definition play_walk :: "'w kernel_calls \<Rightarrow> u8 \<Rightarrow> MipT \<Rightarrow> game \<Rightarrow> 'w \<Rightarrow> (MipT \<times> game \<times> bool \<times> 'w) option" where
  "play_walk k player mip g w =
     do {
       (mip, w) \<leftarrow> walkMip k mip w;
       (g, w) \<leftarrow> (if checkColisionMipBall mip (ball g)
                  then do {
                    (b, w) \<leftarrow> moveBall k (ball g) mip w;
                    w \<leftarrow> drawMip k mip w;
                    w \<leftarrow> playHitSound k w;
                    Some (g\<lparr>ball := b\<rparr>, w)
                  }
                  else Some (g, w));
       if checkHoleCollision (ball g) (hole g)
       then do { w \<leftarrow> endMenu k player w; Some (mip, g, False, w) }
       else Some (mip, g, True, w)
     }"

definition turn_right :: "MipT \<Rightarrow> u16" where
  "turn_right mip = (getMipDegree mip + 1) mod 4"

text \<open>The degree less one goes through an \<open>int8_t\<close>.\<close>

definition turn_left :: "MipT \<Rightarrow> u16" where
  "turn_left mip =
     (let mipDegree = sint (word_of_int (int (unat (getMipDegree mip)) - 1) :: 8 word)
      in word_of_int ((if mipDegree < 0 then mipDegree + 4 else mipDegree) smod 4))"

text \<open>What a key does for the player with keys \<open>up\<close>, \<open>right\<close> and \<open>left\<close>.\<close>

definition player_key :: "'w kernel_calls \<Rightarrow> u8 \<Rightarrow> string \<Rightarrow> char \<Rightarrow> MipT \<Rightarrow> game \<Rightarrow> 'w \<Rightarrow> (MipT \<times> game \<times> bool \<times> 'w) option" where
  "player_key k player keys c mip g w =
     (if c = keys ! 0 then play_walk k player mip g w
      else if c = keys ! 1 then do { (mip, w) \<leftarrow> changeMipDir k mip (turn_right mip) w; Some (mip, g, True, w) }
      else if c = keys ! 2 then do { (mip, w) \<leftarrow> changeMipDir k mip (turn_left mip) w; Some (mip, g, True, w) }
      else Some (mip, g, True, w))"

definition game_key :: "'w kernel_calls \<Rightarrow> char \<Rightarrow> game \<Rightarrow> 'w \<Rightarrow> (game \<times> bool \<times> 'w) option" where
  "game_key k c g w =
     do {
       (m, g, on, w) \<leftarrow> player_key k 1 ''wda'' c (mip1 g) g w;
       let g = g\<lparr>mip1 := m\<rparr>;
       if players g = 2
       then do { (m, g, on', w) \<leftarrow> player_key k 2 ''ilj'' c (mip2 g) g w; Some (g\<lparr>mip2 := m\<rparr>, on \<and> on', w) }
       else Some (g, on, w)
     }"

partial_function (option) game_loop :: "'w kernel_calls \<Rightarrow> game \<Rightarrow> 'w \<Rightarrow> (game \<times> 'w) option" where
  "game_loop k g w =
     do {
       (c, w) \<leftarrow> getchar k w;
       (g, on, w) \<leftarrow> game_key k c g w;
       if on then game_loop k g w else Some (g, w)
     }"

definition new_mip :: "u64 \<Rightarrow> MipT" where
  "new_mip d =
     \<lparr>mip_x = MIP_INITIAL_X + d, mip_y = MIP_INITIAL_Y + d, mip_speed = MIP_INITIAL_SPEED, mip_radius = MIP_INITIAL_RADIUS,
      mip_color = WHITE, mip_degree = 0\<rparr>"

definition new_game :: game where
  "new_game =
     \<lparr>mip1 = new_mip 0, mip2 = new_mip 100,
      ball = \<lparr>ball_x = BALL_INITIAL_X, ball_y = BALL_INITIAL_Y, ball_speed = BALL_INITIAL_SPEED, ball_radius = BALL_RADIUS,
              ball_color = BLUE\<rparr>,
      hole = \<lparr>hole_x = HOLE_DEFAULT_X, hole_y = HOLE_DEFAULT_Y, hole_radius = HOLE_DEFAULT_RADIUS, hole_color = BLACK\<rparr>,
      players = 0\<rparr>"

definition startPongisGolf :: "'w kernel_calls \<Rightarrow> 'w \<Rightarrow> (game \<times> 'w) option" where
  "startPongisGolf k w =
     do {
       (n, mips, w) \<leftarrow> startMenu k (mip1 new_game) (mip2 new_game) w;
       let g = new_game\<lparr>mip1 := fst mips, mip2 := snd mips, players := n\<rparr>;
       (g, w) \<leftarrow> drawLevel k 1 g w;
       game_loop k g w
     }"

section \<open>A display\<close>

text \<open>The contract of a screen of a fixed size: whatever is drawn, played or printed, the call returns.\<close>

locale display =
  fixes k :: "'w kernel_calls" and ok :: "'w \<Rightarrow> bool" and wd ht :: u16
  assumes circle: "ok w \<Longrightarrow> \<exists>w'. drawCircle k r c x y w = Some w' \<and> ok w'"
    and width: "ok w \<Longrightarrow> \<exists>w'. getScreenWidth k w = Some (wd, w') \<and> ok w'"
    and height: "ok w \<Longrightarrow> \<exists>w'. getScreenHeight k w = Some (ht, w') \<and> ok w'"
    and clear: "ok w \<Longrightarrow> \<exists>w'. clearScreen k w = Some w' \<and> ok w'"
    and sound: "ok w \<Longrightarrow> f \<noteq> 0 \<Longrightarrow> \<exists>w'. playSound k f d w = Some w' \<and> ok w'"
    and print: "ok w \<Longrightarrow> \<exists>w'. putchar k ch w = Some w' \<and> ok w'"

section \<open>Positions\<close>

definition inside :: "u16 \<Rightarrow> u16 \<Rightarrow> u64 \<Rightarrow> u64 \<Rightarrow> u64 \<Rightarrow> bool" where
  "inside wd ht r x y \<longleftrightarrow>
     unat r \<le> unat x \<and> unat x + unat r < unat wd \<and> unat r \<le> unat y \<and> unat y + unat r < unat ht"

definition accepted :: "u16 \<Rightarrow> u16 \<Rightarrow> u64 \<Rightarrow> u64 \<Rightarrow> u64 \<Rightarrow> bool" where
  "accepted wd ht r x y \<longleftrightarrow>
     (ucast x :: u32) + ucast r < ucast wd \<and> (ucast x :: u32) \<ge> ucast r \<and>
     (ucast y :: u32) + ucast r < ucast ht \<and> (ucast y :: u32) \<ge> ucast r"

lemma unat_low: "unat (x :: u64) < 2 ^ 32 \<Longrightarrow> unat (ucast x :: u32) = unat x"
  by (simp add: unsigned_ucast_eq take_bit_nat_eq_self)

lemma unat_up16: "unat (ucast (x :: u16) :: u32) = unat x"
proof -
  have "unat x < 2 ^ 32" using unsigned_less [of x, where 'a = nat] by simp
  then show ?thesis by (simp add: unsigned_ucast_eq take_bit_nat_eq_self)
qed

text \<open>For coordinates that fit the check is right.\<close>

lemma accepted_fits:
  assumes "unat x < 2 ^ 31" and "unat y < 2 ^ 31" and "unat r < 2 ^ 31"
  shows "accepted wd ht r x y \<longleftrightarrow> inside wd ht r x y"
proof -
  have u: "unat (ucast z :: u32) = unat z" if "z \<in> {x, y, r}" for z using assms that by (intro unat_low) auto
  have s: "unat ((ucast z :: u32) + ucast r) = unat z + unat r" if "z \<in> {x, y}" for z
  proof -
    have "unat z + unat r < 2 ^ 32" using assms that by auto
    moreover have "unat (ucast z :: u32) = unat z" "unat (ucast r :: u32) = unat r" using u that by auto
    ultimately show ?thesis by (simp add: unat_word_ariths)
  qed
  show ?thesis
    using u s unfolding accepted_def inside_def by (simp add: word_less_nat_alt word_le_nat_alt unat_up16 conj_ac)
qed

text \<open>A coordinate that wrapped below 0 by no more than the radius is accepted.\<close>

lemma accepted_wrapped: "accepted 1024 768 10 (15 - 25) 100 \<and> \<not> inside 1024 768 10 (15 - 25) 100"
  by (simp add: accepted_def inside_def)

text \<open>The places of a game: a player's position, and a ball that lies on a grid of its steps.\<close>

definition mip_ok :: "u16 \<Rightarrow> u16 \<Rightarrow> MipT \<Rightarrow> bool" where
  "mip_ok wd ht m \<longleftrightarrow>
     mip_radius m = MIP_INITIAL_RADIUS \<and> mip_speed m = MIP_INITIAL_SPEED \<and> mip_degree m < 4 \<and>
     inside wd ht (mip_radius m) (mip_x m) (mip_y m)"

definition ball_ok :: "u16 \<Rightarrow> u16 \<Rightarrow> BallT \<Rightarrow> bool" where
  "ball_ok wd ht b \<longleftrightarrow>
     ball_radius b = BALL_RADIUS \<and> unat (ball_x b) mod 25 = 0 \<and> unat (ball_y b) mod 25 = 0 \<and>
     inside wd ht (ball_radius b) (ball_x b) (ball_y b)"

definition game_ok :: "u16 \<Rightarrow> u16 \<Rightarrow> game \<Rightarrow> bool" where
  "game_ok wd ht g \<longleftrightarrow> mip_ok wd ht (mip1 g) \<and> mip_ok wd ht (mip2 g) \<and> ball_ok wd ht (ball g)"

lemma inside_bounds:
  assumes "inside wd ht r x y"
  shows "unat x < 2 ^ 16" and "unat y < 2 ^ 16"
  using assms unsigned_less [of wd, where 'a = nat] unsigned_less [of ht, where 'a = nat] by (auto simp: inside_def)

lemma step_forward: "unat x < 2 ^ 16 \<Longrightarrow> unat s < 2 ^ 16 \<Longrightarrow> unat (x + s :: u64) = unat x + unat s"
  by (simp add: unat_word_ariths)

lemma step_back: "unat s \<le> unat x \<Longrightarrow> unat (x - s :: u64) = unat x - unat s"
  by (simp add: unat_sub word_le_nat_alt)

lemma turn_right_range: "turn_right m < 4"
  by (simp add: turn_right_def word_less_nat_alt unat_mod)

lemma turn_left_range: "mip_degree m < 4 \<Longrightarrow> turn_left m < 4"
proof -
  assume "mip_degree m < 4"
  then have "unat (mip_degree m) < 4" by (simp add: word_less_nat_alt)
  moreover have "mip_degree m = of_nat (unat (mip_degree m))" by simp
  ultimately obtain n where n: "n < 4" "mip_degree m = of_nat n" by blast
  from n(1) consider "n = 0" | "n = 1" | "n = 2" | "n = 3" by linarith
  then show ?thesis by cases (use n(2) in \<open>simp_all add: turn_left_def getMipDegree_def signed_modulo_int_def\<close>)
qed

text \<open>The keys of a game, until it ends.\<close>

fun play_keys :: "'w kernel_calls \<Rightarrow> string \<Rightarrow> game \<Rightarrow> 'w \<Rightarrow> (game \<times> bool \<times> 'w) option" where
  "play_keys k [] g w = Some (g, True, w)"
| "play_keys k (c # cs) g w =
     do { (g, on, w) \<leftarrow> game_key k c g w; if on then play_keys k cs g w else Some (g, False, w) }"

context display
begin

lemma put_text_returns: "ok w \<Longrightarrow> \<exists>w'. put_text k s w = Some w' \<and> ok w'"
proof (induction s arbitrary: w)
  case (Cons c s)
  from print [OF Cons.prems, of c] obtain w1 where "putchar k c w = Some w1" "ok w1" by blast
  with Cons.IH [of w1] show ?case by auto
qed simp

lemma drawMip_returns: "ok w \<Longrightarrow> \<exists>w'. drawMip k m w = Some w' \<and> ok w'"
proof -
  assume "ok w"
  from circle [OF this] obtain w1 where
    w: "drawCircle k (mip_radius m) (mip_color m) (mip_x m) (mip_y m) w = Some w1" "ok w1" by blast
  from circle [OF w(2)] show ?thesis by (simp add: drawMip_def w(1) Let_def split: prod.split)
qed

lemma check_position:
  "ok w \<Longrightarrow> \<exists>w'. checkValidScreenPosition k (ucast x) (ucast y) (ucast r) w = Some (accepted wd ht r x y, w') \<and> ok w'"
proof -
  assume "ok w"
  from width [OF this] obtain w1 where w1: "getScreenWidth k w = Some (wd, w1)" "ok w1" by blast
  from height [OF w1(2)] obtain w2 where w2: "getScreenHeight k w1 = Some (ht, w2)" "ok w2" by blast
  then show ?thesis by (simp add: checkValidScreenPosition_def w1 w2 accepted_def Let_def)
qed

lemma step_to_ok:
  assumes "ok w" and "inside wd ht r x y" and "unat s \<le> unat x" and "unat s \<le> unat y" and "unat s < 2 ^ 16"
    and "unat r < 2 ^ 16"
  shows "\<exists>x' y' w'. step_to k d s r x y w = Some ((x', y'), w') \<and> ok w' \<and> inside wd ht r x' y' \<and>
           x' \<in> {x, x + s, x - s} \<and> y' \<in> {y, y + s, y - s}"
proof -
  note b = inside_bounds [OF assms(2)]
  have go: "\<exists>w'. (do { (ok, w) \<leftarrow> checkValidScreenPosition k (ucast x') (ucast y') (ucast r) w;
                        Some (if ok then (x', y') else (x, y), w) })
              = Some (if inside wd ht r x' y' then (x', y') else (x, y), w') \<and> ok w'"
    if "unat x' < 2 ^ 31" "unat y' < 2 ^ 31" for x' y'
  proof -
    from check_position [OF assms(1), of x' y' r] obtain w' where
      "checkValidScreenPosition k (ucast x') (ucast y') (ucast r) w = Some (accepted wd ht r x' y', w')" "ok w'" by blast
    then show ?thesis using accepted_fits [OF that] assms(6) by simp
  qed
  have f: "unat (x + s) < 2 ^ 31" "unat (y + s) < 2 ^ 31" "unat (x - s) < 2 ^ 31" "unat (y - s) < 2 ^ 31"
    "unat x < 2 ^ 31" "unat y < 2 ^ 31"
    using b assms(3-5) by (simp_all add: step_forward step_back)
  show ?thesis
    using go [OF f(5) f(4)] go [OF f(1) f(6)] go [OF f(5) f(2)] go [OF f(3) f(6)] assms(1,2)
    unfolding step_to_def Let_def by (cases "d = 0"; cases "d = 1"; cases "d = 2"; cases "d = 3") auto
qed

lemma walkMip_ok:
  assumes "ok w" and "mip_ok wd ht m"
  shows "\<exists>m' w'. walkMip k m w = Some (m', w') \<and> ok w' \<and> mip_ok wd ht m'"
proof -
  from circle [OF assms(1)] obtain w1 where w1: "eraseMip k m w = Some w1" "ok w1" unfolding eraseMip_def by blast
  have o: "inside wd ht (mip_radius m) (mip_x m) (mip_y m)" "mip_radius m = 20" "mip_speed m = 10"
    using assms(2) unfolding mip_ok_def by metis+
  then have s: "unat (mip_speed m) \<le> unat (mip_x m)" "unat (mip_speed m) \<le> unat (mip_y m)" "unat (mip_speed m) < 2 ^ 16"
    "unat (mip_radius m) < 2 ^ 16" by (simp_all add: inside_def)
  from step_to_ok [OF w1(2) o(1) s, of "mip_degree m"] obtain x y w2 where
    w2: "step_to k (mip_degree m) (mip_speed m) (mip_radius m) (mip_x m) (mip_y m) w1 = Some ((x, y), w2)" "ok w2"
      "inside wd ht (mip_radius m) x y" by blast
  from drawMip_returns [OF w2(2), of "m\<lparr>mip_x := x, mip_y := y\<rparr>"] w1 w2 assms(2) show ?thesis
    by (auto simp: walkMip_def mip_ok_def)
qed

lemma grid:
  assumes "unat x mod 25 = 0" and "25 \<le> unat x" and "unat x < 2 ^ 16" and "x' \<in> {x, x + 25, x - (25 :: u64)}"
  shows "unat x' mod 25 = 0"
  using assms step_forward [of x 25] step_back [of 25 x] by (auto simp: mod_eq_0_iff_dvd)

lemma moveBall_ok:
  assumes "ok w" and "ball_ok wd ht b"
  shows "\<exists>b' w'. moveBall k b m w = Some (b', w') \<and> ok w' \<and> ball_ok wd ht b'"
proof -
  from circle [OF assms(1)] obtain w1 where w1: "eraseBall k b w = Some w1" "ok w1" unfolding eraseBall_def by blast
  have o: "inside wd ht (ball_radius b) (ball_x b) (ball_y b)" "ball_radius b = 10"
    "unat (ball_x b) mod 25 = 0" "unat (ball_y b) mod 25 = 0" using assms(2) unfolding ball_ok_def by metis+
  note bd = inside_bounds [OF o(1)]
  have ge: "25 \<le> n" if "10 \<le> n" "n mod 25 = 0" for n :: nat
  proof (rule ccontr)
    assume "\<not> 25 \<le> n"
    then have "n mod 25 = n" by simp
    with that show False by simp
  qed
  have "10 \<le> unat (ball_x b)" "10 \<le> unat (ball_y b)" using o(1,2) by (simp_all add: inside_def)
  then have g: "25 \<le> unat (ball_x b)" "25 \<le> unat (ball_y b)" using ge o(3,4) by simp_all
  then have s: "unat (25 :: u64) \<le> unat (ball_x b)" "unat (25 :: u64) \<le> unat (ball_y b)" "unat (25 :: u64) < 2 ^ 16"
    "unat (ball_radius b) < 2 ^ 16" using o(2) by simp_all
  from step_to_ok [OF w1(2) o(1) s, of "mip_degree m"] obtain x y w2 where
    w2: "step_to k (mip_degree m) 25 (ball_radius b) (ball_x b) (ball_y b) w1 = Some ((x, y), w2)" "ok w2"
      "inside wd ht (ball_radius b) x y" "x \<in> {ball_x b, ball_x b + 25, ball_x b - 25}"
      "y \<in> {ball_y b, ball_y b + 25, ball_y b - 25}" by blast
  from circle [OF w2(2)] obtain w3 where w3: "drawBall k (b\<lparr>ball_x := x, ball_y := y\<rparr>) w2 = Some w3" "ok w3"
    unfolding drawBall_def by blast
  have "ball_ok wd ht (b\<lparr>ball_x := x, ball_y := y\<rparr>)"
    using assms(2) w2(3) grid [OF o(3) g(1) bd(1) w2(4)] grid [OF o(4) g(2) bd(2) w2(5)] by (simp add: ball_ok_def)
  then show ?thesis using w1 w2(1) w3 by (simp add: moveBall_def)
qed

lemma playHitSound_returns: "ok w \<Longrightarrow> \<exists>w'. playHitSound k w = Some w' \<and> ok w'"
proof -
  assume "ok w"
  from sound [OF this, of 300 100] obtain w1 where "playSound k 300 100 w = Some w1" "ok w1" by auto
  with sound [of w1 250 50] show ?thesis by (auto simp: playHitSound_def)
qed

lemma playHoleMusic_returns: "ok w \<Longrightarrow> \<exists>w'. playHoleMusic k w = Some w' \<and> ok w'"
proof -
  assume "ok w"
  from sound [OF this, of 523 200] obtain w1 where w1: "playSound k 523 200 w = Some w1" "ok w1" by auto
  from sound [OF w1(2), of 659 200] obtain w2 where w2: "playSound k 659 200 w1 = Some w2" "ok w2" by auto
  from sound [OF w2(2), of 784 200] obtain w3 where w3: "playSound k 784 200 w2 = Some w3" "ok w3" by auto
  from sound [OF w3(2), of 1047 400] obtain w4 where w4: "playSound k 1047 400 w3 = Some w4" "ok w4" by auto
  from sound [OF w4(2), of 294 150] obtain w5 where w5: "playSound k 294 150 w4 = Some w5" "ok w5" by auto
  from sound [OF w5(2), of 523 600] show ?thesis by (auto simp: playHoleMusic_def w1 w2 w3 w4 w5)
qed

lemma endMenu_returns:
  assumes "ok w"
  shows "\<exists>w'. endMenu k n w = Some w' \<and> ok w'"
proof -
  from clear [OF assms] obtain w1 where w1: "clearScreen k w = Some w1" "ok w1" by blast
  have p: "\<exists>w'. printf k s [] w1 = Some w' \<and> ok w'" if "CHR ''%'' \<notin> set s" for s
    using put_text_returns [OF w1(2), of s] by (simp add: printf_plain [OF that])
  have "\<exists>w2. (if n = 1 then printf k (''Player 1 wins!!!'' @ endl) [] w1
              else if n = 2 then printf k (''Player 2 wins!!!'' @ endl) [] w1 else Some w1) = Some w2 \<and> ok w2"
    using p [of "''Player 1 wins!!!'' @ endl"] p [of "''Player 2 wins!!!'' @ endl"] w1(2) by simp
  then obtain w2 where w2: "(if n = 1 then printf k (''Player 1 wins!!!'' @ endl) [] w1
              else if n = 2 then printf k (''Player 2 wins!!!'' @ endl) [] w1 else Some w1) = Some w2" "ok w2" by blast
  show ?thesis unfolding endMenu_def using w1 w2 playHoleMusic_returns [OF w2(2)] by simp
qed

lemma play_walk_ok:
  assumes "ok w" and "mip_ok wd ht m" and "ball_ok wd ht (ball g)"
  shows "\<exists>m' b on w'. play_walk k n m g w = Some (m', g\<lparr>ball := b\<rparr>, on, w') \<and> ok w' \<and> mip_ok wd ht m' \<and> ball_ok wd ht b \<and>
           (on \<longleftrightarrow> \<not> checkHoleCollision b (hole g))"
proof -
  from walkMip_ok [OF assms(1,2)] obtain m' w1 where w1: "walkMip k m w = Some (m', w1)" "ok w1" "mip_ok wd ht m'" by blast
  have "\<exists>b w2. (if checkColisionMipBall m' (ball g)
         then do { (b, w) \<leftarrow> moveBall k (ball g) m' w1; w \<leftarrow> drawMip k m' w; w \<leftarrow> playHitSound k w; Some (g\<lparr>ball := b\<rparr>, w) }
         else Some (g, w1)) = Some (g\<lparr>ball := b\<rparr>, w2) \<and> ok w2 \<and> ball_ok wd ht b"
  proof (cases "checkColisionMipBall m' (ball g)")
    case True
    from moveBall_ok [OF w1(2) assms(3), of m'] obtain b w2 where
      w2: "moveBall k (ball g) m' w1 = Some (b, w2)" "ok w2" "ball_ok wd ht b" by blast
    from drawMip_returns [OF w2(2), of m'] obtain w3 where w3: "drawMip k m' w2 = Some w3" "ok w3" by blast
    from playHitSound_returns [OF w3(2)] True w2 w3 show ?thesis by auto
  next
    case False
    with w1(2) assms(3) show ?thesis by (intro exI [of _ "ball g"]) simp
  qed
  then obtain b w2 where w2: "(if checkColisionMipBall m' (ball g)
         then do { (b, w) \<leftarrow> moveBall k (ball g) m' w1; w \<leftarrow> drawMip k m' w; w \<leftarrow> playHitSound k w; Some (g\<lparr>ball := b\<rparr>, w) }
         else Some (g, w1)) = Some (g\<lparr>ball := b\<rparr>, w2)" "ok w2" "ball_ok wd ht b" by blast
  show ?thesis
  proof (cases "checkHoleCollision b (hole g)")
    case True
    with endMenu_returns [OF w2(2), of n] w1 w2 show ?thesis unfolding play_walk_def by auto
  next
    case False
    with w1 w2 show ?thesis unfolding play_walk_def by auto
  qed
qed

lemma player_key_ok:
  assumes "ok w" and "mip_ok wd ht m" and "ball_ok wd ht (ball g)"
  shows "\<exists>m' b on w'. player_key k n keys c m g w = Some (m', g\<lparr>ball := b\<rparr>, on, w') \<and> ok w' \<and> mip_ok wd ht m' \<and>
           ball_ok wd ht b \<and> (\<not> on \<longrightarrow> c = keys ! 0) \<and>
           (c \<notin> {keys ! 0, keys ! 1, keys ! 2} \<longrightarrow> b = ball g \<and> on) \<and>
           (\<not> checkHoleCollision (ball g) (hole g) \<longrightarrow> on = (\<not> checkHoleCollision b (hole g)))"
proof -
  have turn: "\<exists>w'. changeMipDir k m d w = Some (m\<lparr>mip_degree := d\<rparr>, w') \<and> ok w' \<and> mip_ok wd ht (m\<lparr>mip_degree := d\<rparr>)"
    if "d < 4" for d
    using drawMip_returns [OF assms(1), of "m\<lparr>mip_degree := d\<rparr>"] assms(2) that
    by (auto simp: changeMipDir_def mip_ok_def)
  have b: "g = g\<lparr>ball := ball g\<rparr>" by simp
  note r = turn [OF turn_right_range [of m]] and l = turn [OF turn_left_range [of m]]
  have d: "mip_degree m < 4" using assms(2) by (simp add: mip_ok_def)
  show ?thesis
  proof (cases "c = keys ! 0")
    case True
    with play_walk_ok [OF assms, of n] show ?thesis unfolding player_key_def by auto
  next
    case False
    then show ?thesis
      using r l [OF d] assms b unfolding player_key_def
      by (cases "c = keys ! 1"; cases "c = keys ! 2") (fastforce intro: exI [of _ "ball g"])+
  qed
qed

lemma game_key_ok:
  assumes "ok w" and "game_ok wd ht g" and "\<not> checkHoleCollision (ball g) (hole g)"
  shows "\<exists>g' on w'. game_key k c g w = Some (g', on, w') \<and> ok w' \<and> game_ok wd ht g' \<and>
           on = (\<not> checkHoleCollision (ball g') (hole g')) \<and> hole g' = hole g \<and> players g' = players g"
proof -
  have i: "mip_ok wd ht (mip1 g)" "mip_ok wd ht (mip2 g)" "ball_ok wd ht (ball g)" using assms(2) by (simp_all add: game_ok_def)
  from player_key_ok [OF assms(1) i(1,3), of 1 "''wda''" c] assms(3) obtain m b on w1 where
    p: "player_key k 1 ''wda'' c (mip1 g) g w = Some (m, g\<lparr>ball := b\<rparr>, on, w1)" "ok w1" "mip_ok wd ht m"
      "ball_ok wd ht b" "\<not> on \<longrightarrow> c = CHR ''w''" "on = (\<not> checkHoleCollision b (hole g))" by auto
  show ?thesis
  proof (cases "players g = 2")
    case False
    with p i(2) show ?thesis by (simp add: game_key_def Let_def game_ok_def)
  next
    case True
    let ?g = "g\<lparr>ball := b, mip1 := m\<rparr>"
    have "ball_ok wd ht (ball ?g)" "mip_ok wd ht (mip2 ?g)" using p(4) i(2) by simp_all
    from player_key_ok [OF p(2) this(2,1), of 2 "''ilj''" c] obtain m' b' on' w2 where
      q: "player_key k 2 ''ilj'' c (mip2 ?g) ?g w1 = Some (m', ?g\<lparr>ball := b'\<rparr>, on', w2)" "ok w2" "mip_ok wd ht m'"
        "ball_ok wd ht b'" "c \<notin> {CHR ''i'', CHR ''l'', CHR ''j''} \<longrightarrow> b' = b \<and> on'"
        "\<not> checkHoleCollision b (hole g) \<longrightarrow> on' = (\<not> checkHoleCollision b' (hole g))" by auto
    have "(on \<and> on') = (\<not> checkHoleCollision b' (hole g))" using p(5,6) q(5,6) by (cases on) auto
    then show ?thesis using True p(1,3) q by (simp add: game_key_def Let_def game_ok_def)
  qed
qed

lemma play_keys_ok:
  "ok w \<Longrightarrow> game_ok wd ht g \<Longrightarrow> \<not> checkHoleCollision (ball g) (hole g) \<Longrightarrow>
     \<exists>g' on w'. play_keys k cs g w = Some (g', on, w') \<and> ok w' \<and> game_ok wd ht g' \<and>
       on = (\<not> checkHoleCollision (ball g') (hole g')) \<and> hole g' = hole g \<and> players g' = players g"
proof (induction cs arbitrary: g w)
  case (Cons c cs)
  from game_key_ok [OF Cons.prems, of c] obtain g1 on w1 where
    g: "game_key k c g w = Some (g1, on, w1)" "ok w1" "game_ok wd ht g1"
      "on = (\<not> checkHoleCollision (ball g1) (hole g1))" "hole g1 = hole g" "players g1 = players g" by blast
  show ?case
  proof (cases on)
    case True
    with g Cons.IH [OF g(2,3)] show ?thesis by auto
  next
    case False
    with g show ?thesis by simp
  qed
qed auto

end

end
