(* ===== verification/UserTools.thy ===== *)
theory UserTools
  imports UserIO
begin

text \<open>
  The programs of \<open>Userland/UserLib/processes.c\<close> that run as stages of a pipeline, \<open>cat\<close>, \<open>wc\<close> and \<open>filter\<close>, and
  \<open>ps\<close> and \<open>loop\<close>. A stage reads until a read returns no character or the character 0.
\<close>

section \<open>The programs\<close>

abbreviation newline :: char where "newline \<equiv> CHR 0x0A"
abbreviation backspace :: char where "backspace \<equiv> CHR 0x08"
abbreviation tab :: char where "tab \<equiv> CHR 0x09"

partial_function (option) cat_loop :: "'w kernel_calls \<Rightarrow> u32 \<Rightarrow> 'w \<Rightarrow> 'w option" where
  "cat_loop k charsInline w =
     do {
       (c, w) \<leftarrow> getchar k w;
       if c = nul then Some w
       else if c = backspace
       then if 0 <s charsInline then do { w \<leftarrow> putchar k c w; cat_loop k (charsInline - 1) w }
            else cat_loop k charsInline w
       else do { w \<leftarrow> putchar k c w; cat_loop k (if c = newline then 0 else charsInline + 1) w }
     }"

definition cat :: "'w kernel_calls \<Rightarrow> 'w \<Rightarrow> 'w option" where
  "cat k w = cat_loop k 0 w"

partial_function (option) wc_loop ::
  "'w kernel_calls \<Rightarrow> u32 \<Rightarrow> u32 \<Rightarrow> u32 \<Rightarrow> bool \<Rightarrow> 'w \<Rightarrow> ((u32 \<times> u32 \<times> u32) \<times> 'w) option" where
  "wc_loop k chars words lines inWord w =
     do {
       (c, w) \<leftarrow> getchar k w;
       if c = nul then Some ((lines, words, chars), w)
       else if c = newline then wc_loop k (chars + 1) words (lines + 1) False w
       else if c = CHR '' '' \<or> c = tab then wc_loop k (chars + 1) words lines False w
       else if \<not> inWord then wc_loop k (chars + 1) (words + 1) lines True w
       else wc_loop k (chars + 1) words lines inWord w
     }"

definition wc :: "'w kernel_calls \<Rightarrow> 'w \<Rightarrow> 'w option" where
  "wc k w =
     do {
       ((lines, words, chars), w) \<leftarrow> wc_loop k 0 0 0 False w;
       printf k (''%d %d %d'' @ [newline]) [AInt lines, AInt words, AInt chars] w
     }"

definition is_vowel :: "char \<Rightarrow> bool" where
  "is_vowel c \<longleftrightarrow> c \<in> set ''aeiouAEIOU''"

partial_function (option) filter_stream :: "'w kernel_calls \<Rightarrow> 'w \<Rightarrow> 'w option" where
  "filter_stream k w =
     do {
       (c, w) \<leftarrow> getchar k w;
       if c = nul then Some w
       else if is_vowel c then do { w \<leftarrow> putchar k c w; filter_stream k w }
       else filter_stream k w
     }"

text \<open>The listing goes through an array of 2000 characters.\<close>

definition ps :: "'w kernel_calls \<Rightarrow> 'w \<Rightarrow> 'w option" where
  "ps k w =
     do {
       (_, bs, w) \<leftarrow> getProcessesInfo k 2000 w;
       if nul \<notin> set (map byte_char bs) then None
       else printf k ''%s'' [AStr (Some (takeWhile (\<lambda>c. c \<noteq> nul) (map byte_char bs)))] w
     }"

text \<open>One turn of the endless loop of \<open>loop\<close>, after it has asked for its identifier.\<close>

definition loop_body :: "'w kernel_calls \<Rightarrow> u32 \<Rightarrow> 'w \<Rightarrow> 'w option" where
  "loop_body k pid w =
     do { w \<leftarrow> printf k (''Hi! My PID is: %d'' @ [newline]) [AInt pid] w; sleepMilli k 2000 w }"

partial_function (option) forever :: "('w \<Rightarrow> 'w option) \<Rightarrow> 'w \<Rightarrow> 'w option" where
  "forever f w = do { w \<leftarrow> f w; forever f w }"

definition loop :: "'w kernel_calls \<Rightarrow> 'w \<Rightarrow> 'w option" where
  "loop k w = do { (pid, w) \<leftarrow> getPID k w; forever (loop_body k (ucast pid)) w }"

section \<open>What the stages do\<close>

text \<open>The text \<open>cat\<close> echoes: a backspace only where the line has a character to erase.\<close>

fun echoed :: "nat \<Rightarrow> string \<Rightarrow> string" where
  "echoed n [] = []"
| "echoed n (c # s) =
     (if c = backspace then (if n > 0 then c # echoed (n - 1) s else echoed n s)
      else c # echoed (if c = newline then 0 else Suc n) s)"

text \<open>Words are the maximal runs of characters other than blanks, tabs and newlines.\<close>

definition blank :: "char \<Rightarrow> bool" where
  "blank c \<longleftrightarrow> c = newline \<or> c = CHR '' '' \<or> c = tab"

fun words_in :: "bool \<Rightarrow> string \<Rightarrow> nat" where
  "words_in b [] = 0"
| "words_in b (c # s) = (if blank c then words_in False s else (if b then 0 else 1) + words_in True s)"

definition wc_line :: "string \<Rightarrow> item list" where
  "wc_line s =
     [Dec (of_nat (length (filter (\<lambda>c. c = newline) s))), Lit (CHR '' ''), Dec (of_nat (words_in False s)), Lit (CHR '' ''),
      Dec (of_nat (length s)), Lit newline]"

context console
begin

lemma filter_copies_vowels:
  "ok w \<Longrightarrow> inp w = s @ nul # r \<Longrightarrow> nul \<notin> set s \<Longrightarrow> emits (filter is_vowel s) (out w) = Some v \<Longrightarrow>
     \<exists>w'. filter_stream k w = Some w' \<and> ok w' \<and> inp w' = r \<and> out w' = v"
proof (induction s arbitrary: w)
  case Nil
  then obtain w' where "getchar k w = Some (nul, w')" "ok w'" "inp w' = r" "out w' = out w"
    using get [of w nul r] by auto
  with Nil show ?case by (subst filter_stream.simps) simp
next
  case (Cons c s)
  then obtain w1 where w1: "getchar k w = Some (c, w1)" "ok w1" "inp w1 = s @ nul # r" "out w1 = out w"
    using get [of w c "s @ nul # r"] by auto
  show ?case
  proof (cases "is_vowel c")
    case True
    with Cons.prems obtain v1 where v: "emit c (out w) = Some v1" "emits (filter is_vowel s) v1 = Some v"
      by (auto split: Option.bind_splits)
    from put [OF w1(2), of c v1] v(1) w1 obtain w2
      where w2: "putchar k c w1 = Some w2" "ok w2" "inp w2 = s @ nul # r" "out w2 = v1" by auto
    from Cons.IH [OF w2(2,3)] v(2) w2(4) Cons.prems(3) obtain w' where
      "filter_stream k w2 = Some w'" "ok w'" "inp w' = r" "out w' = v" by auto
    with True w1 w2 Cons.prems(3) show ?thesis by (subst filter_stream.simps) auto
  next
    case False
    with Cons.IH [OF w1(2,3)] Cons.prems(3,4) w1(4) obtain w' where
      "filter_stream k w1 = Some w'" "ok w'" "inp w' = r" "out w' = v" by auto
    with False w1 Cons.prems(3) show ?thesis by (subst filter_stream.simps) auto
  qed
qed

lemma cat_loop_echoes:
  "ok w \<Longrightarrow> inp w = s @ nul # r \<Longrightarrow> nul \<notin> set s \<Longrightarrow> emits (echoed n s) (out w) = Some v \<Longrightarrow> n + length s < 2 ^ 31 \<Longrightarrow>
     \<exists>w'. cat_loop k (of_nat n) w = Some w' \<and> ok w' \<and> inp w' = r \<and> out w' = v"
proof (induction s arbitrary: w n)
  case Nil
  then obtain w' where "getchar k w = Some (nul, w')" "ok w'" "inp w' = r" "out w' = out w"
    using get [of w nul r] by auto
  with Nil show ?case by (subst cat_loop.simps) simp
next
  case (Cons c s)
  then obtain w1 where w1: "getchar k w = Some (c, w1)" "ok w1" "inp w1 = s @ nul # r" "out w1 = out w"
    using get [of w c "s @ nul # r"] by auto
  have pos: "(0 :: u32) <s of_nat n \<longleftrightarrow> 0 < n" using Cons.prems(5) by (simp add: word_sless_alt sint_of_nat_small)
  show ?case
  proof (cases "c = backspace \<and> n = 0")
    case True
    with Cons.IH [OF w1(2,3), of n] Cons.prems(3-5) w1(4) obtain w' where
      "cat_loop k (of_nat n) w1 = Some w'" "ok w'" "inp w' = r" "out w' = v" by auto
    with True w1 Cons.prems(3) show ?thesis by (subst cat_loop.simps) auto
  next
    case False
    let ?n = "if c = backspace then n - 1 else if c = newline then 0 else Suc n"
    from False Cons.prems(4) obtain v1 where v: "emit c (out w) = Some v1" "emits (echoed ?n s) v1 = Some v"
      by (auto split: Option.bind_splits if_splits)
    from put [OF w1(2), of c v1] v(1) w1 obtain w2
      where w2: "putchar k c w1 = Some w2" "ok w2" "inp w2 = s @ nul # r" "out w2 = v1" by auto
    have "?n + length s < 2 ^ 31" using Cons.prems(5) by auto
    from Cons.IH [OF w2(2,3) _ _ this] v(2) w2(4) Cons.prems(3) obtain w' where
      "cat_loop k (of_nat ?n) w2 = Some w'" "ok w'" "inp w' = r" "out w' = v" by auto
    with False w1 w2 Cons.prems(3) pos show ?thesis
      by (subst cat_loop.simps) (auto simp: of_nat_diff add.commute split: if_splits)
  qed
qed

lemma wc_loop_counts:
  "ok w \<Longrightarrow> inp w = s @ nul # r \<Longrightarrow> nul \<notin> set s \<Longrightarrow>
     \<exists>w'. wc_loop k a b c inWord w =
            Some ((c + of_nat (length (filter (\<lambda>c. c = newline) s)), b + of_nat (words_in inWord s), a + of_nat (length s)), w') \<and>
          ok w' \<and> inp w' = r \<and> out w' = out w"
proof (induction s arbitrary: w a b c inWord)
  case Nil
  then obtain w' where "getchar k w = Some (nul, w')" "ok w'" "inp w' = r" "out w' = out w"
    using get [of w nul r] by auto
  with Nil show ?case by (subst wc_loop.simps) simp
next
  case (Cons d s)
  then obtain w1 where w1: "getchar k w = Some (d, w1)" "ok w1" "inp w1 = s @ nul # r" "out w1 = out w"
    using get [of w d "s @ nul # r"] by auto
  let ?b = "b + (if blank d \<or> inWord then 0 else 1)" and ?c = "c + (if d = newline then 1 else 0)"
  from Cons.IH [OF w1(2,3), of "a + 1" ?b ?c "\<not> blank d"] Cons.prems(3) w1 show ?case
    by (subst wc_loop.simps) (auto simp: blank_def algebra_simps split: if_splits)
qed

lemma wc_prints_counts:
  assumes "ok w" and "inp w = s @ nul # r" and "nul \<notin> set s"
    and "emits (concat (map item_text (wc_line s))) (out w) = Some v"
  shows "\<exists>w'. wc k w = Some w' \<and> ok w' \<and> inp w' = r \<and> out w' = v"
proof -
  from wc_loop_counts [OF assms(1-3), of 0 0 0 False] obtain w1 where
    w1: "wc_loop k 0 0 0 False w =
           Some ((of_nat (length (filter (\<lambda>c. c = newline) s)), of_nat (words_in False s), of_nat (length s)), w1)"
    "ok w1" "inp w1 = r" "out w1 = out w" by auto
  have "\<forall>c. Lit c \<in> set (wc_line s) \<longrightarrow> c \<noteq> CHR ''%''" by (auto simp: wc_line_def)
  from printf_shows [OF w1(2) this] assms(4) w1(3,4) obtain w' where
    "printf k (concat (map item_fmt (wc_line s))) (concat (map item_args (wc_line s))) w1 = Some w'"
    "ok w'" "inp w' = r" "out w' = v" by auto
  then show ?thesis using w1(1) by (simp add: wc_def wc_line_def)
qed

end

end
