(* ===== verification/Chain.thy ===== *)
theory Chain
  imports Bitmap
begin

text \<open>
  What the two linked containers of the kernel (\<open>Kernel/lib/ADT\<close>) have in common at the list level:
  a container is null, or the address of its header with its nodes in order, each node a block of the
  memory manager (its address) and the element it carries.
\<close>

type_synonym chain = "(ptr \<times> (ptr \<times> u64) list) option"

definition items :: "chain \<Rightarrow> u64 list" where
  "items q = (case q of None \<Rightarrow> [] | Some (qa, ns) \<Rightarrow> map snd ns)"

text \<open>The blocks a container occupies: its header and its nodes.\<close>

definition blocks :: "chain \<Rightarrow> ptr list" where
  "blocks q = (case q of None \<Rightarrow> [] | Some (qa, ns) \<Rightarrow> qa # map fst ns)"

definition last_addr :: "(ptr \<times> 'a) list \<Rightarrow> ptr" where
  "last_addr xs = (if xs = [] then NULL else fst (last xs))"

text \<open>Freeing the nodes of a container from the first to the last.\<close>

fun free_nodes :: "('m \<Rightarrow> ptr \<Rightarrow> 'm option) \<Rightarrow> (ptr \<times> 'a) list \<Rightarrow> 'm \<Rightarrow> 'm option" where
  "free_nodes dealloc [] m = Some m"
| "free_nodes dealloc ((a, x) # ns) m = do { m' \<leftarrow> dealloc m a; free_nodes dealloc ns m' }"

definition free_chain :: "('m \<Rightarrow> ptr \<Rightarrow> 'm option) \<Rightarrow> chain \<Rightarrow> 'm \<Rightarrow> 'm option" where
  "free_chain dealloc q m =
     (case q of None \<Rightarrow> Some m
      | Some (qa, ns) \<Rightarrow> do { m' \<leftarrow> free_nodes dealloc ns m; dealloc m' qa })"

definition find_chain :: "(u64 \<Rightarrow> bool) \<Rightarrow> chain \<Rightarrow> u64" where
  "find_chain P q = (case find P (items q) of None \<Rightarrow> NULL | Some x \<Rightarrow> x)"

text \<open>Unlinking the first node whose element satisfies \<open>P\<close> and freeing it.\<close>

definition remove_chain ::
    "('m \<Rightarrow> ptr \<Rightarrow> 'm option) \<Rightarrow> (u64 \<Rightarrow> bool) \<Rightarrow> chain \<Rightarrow> 'm \<Rightarrow> (chain \<times> 'm) option" where
  "remove_chain dealloc P q m =
     (case q of None \<Rightarrow> Some (q, m)
      | Some (qa, ns) \<Rightarrow>
          (case find (\<lambda>n. P (snd n)) ns of
             None \<Rightarrow> Some (q, m)
           | Some (a, x) \<Rightarrow>
               do { m' \<leftarrow> dealloc m a;
                    Some (Some (qa, drop_first (\<lambda>n. P (snd n)) ns), m') }))"

lemma items_simps [simp]:
  "items None = []" "items (Some (qa, ns)) = map snd ns"
  by (simp_all add: items_def)

lemma blocks_simps [simp]:
  "blocks None = []" "blocks (Some (qa, ns)) = qa # map fst ns"
  by (simp_all add: blocks_def)

lemma last_addr_simps [simp]:
  "last_addr [] = NULL" "last_addr (xs @ [(a, x)]) = a"
  by (simp_all add: last_addr_def)

lemma last_addr_Cons: "last_addr ((a, x) # xs) = (if xs = [] then a else last_addr xs)"
  by (simp add: last_addr_def)

lemma remove_chain_items [adt]:
  assumes r: "remove_chain dealloc P q m = Some (q', m')"
  shows "items q' = drop_first P (items q) \<and> (q' = None \<longleftrightarrow> q = None)"
proof (cases q)
  case None
  with r show ?thesis by (simp add: remove_chain_def)
next
  case (Some p)
  obtain qa ns where p: "p = (qa, ns)" by force
  show ?thesis
  proof (cases "find (\<lambda>n. P (snd n)) ns")
    case None
    then have "drop_first P (map snd ns) = map snd ns"
      by (intro drop_first_none) (auto simp: find_None_iff)
    with r Some p None show ?thesis by (auto simp: remove_chain_def)
  next
    case (Some n)
    with r \<open>q = Some p\<close> p show ?thesis
      by (auto simp: remove_chain_def Option.bind_eq_Some_conv map_drop_first split: prod.splits)
  qed
qed

context allocator
begin

text \<open>Live, distinct nodes can all be freed; nothing else changes.\<close>

lemma free_nodes_live:
  assumes "inv m" and "distinct (map fst ns)" and "\<forall>a\<in>fst ` set ns. 0 < extent m a"
  shows "\<exists>m'. free_nodes dealloc ns m = Some m' \<and> inv m'
           \<and> extent m' = (\<lambda>a. if a \<in> fst ` set ns then 0 else extent m a)"
  using assms
proof (induction ns arbitrary: m)
  case Nil
  then show ?case by simp
next
  case (Cons n ns)
  obtain a x where n: "n = (a, x)" by force
  with dealloc_live [OF Cons.prems(1), of a] Cons.prems(3) obtain m1 where
    m1: "dealloc m a = Some m1" "inv m1" "extent m1 = (extent m)(a := 0)" by auto
  then have "\<forall>b\<in>fst ` set ns. 0 < extent m1 b" "distinct (map fst ns)"
    using Cons.prems n by auto
  from Cons.IH [OF m1(2) this(2,1)] obtain m2 where
    "free_nodes dealloc ns m1 = Some m2" "inv m2"
    "extent m2 = (\<lambda>b. if b \<in> fst ` set ns then 0 else extent m1 b)" by blast
  with n m1 show ?case by auto
qed

lemma free_chain_live:
  assumes "inv m" and "distinct (blocks q)" and "\<forall>a\<in>set (blocks q). 0 < extent m a"
  shows "\<exists>m'. free_chain dealloc q m = Some m' \<and> inv m'
           \<and> extent m' = (\<lambda>a. if a \<in> set (blocks q) then 0 else extent m a)"
proof (cases q)
  case None
  with assms show ?thesis by (simp add: free_chain_def)
next
  case (Some p)
  obtain qa ns where p: "p = (qa, ns)" by force
  from free_nodes_live [OF assms(1), of ns] assms Some p obtain m1 where
    m1: "free_nodes dealloc ns m = Some m1" "inv m1"
    "extent m1 = (\<lambda>a. if a \<in> fst ` set ns then 0 else extent m a)" by auto
  with assms Some p have "0 < extent m1 qa" by auto
  from dealloc_live [OF m1(2) this] obtain m2 where
    "dealloc m1 qa = Some m2" "inv m2" "extent m2 = (extent m1)(qa := 0)" by blast
  with m1 Some p show ?thesis by (auto simp: free_chain_def)
qed

end

context page_allocator
begin

text \<open>
  Page accounting: every block of a container is one page, so removing a node gives back exactly the
  page that adding it took.
\<close>

lemma alloc_page:
  assumes "inv m" and "unat n \<le> 4096" and "0 < avail m"
  obtains m' a where "alloc m n = (m', a)" and "a \<noteq> NULL" and "inv m'"
    and "avail m' = avail m - 1" and "extent m' = (extent m)(a := 4096)" and "extent m a = 0"
proof -
  obtain m' a where a: "alloc m n = (m', a)" "a \<noteq> NULL" "avail m' = avail m - 1"
    "extent m' a = 4096" using alloc_avail [OF assms] by blast
  moreover have "extent m' = (extent m)(a := 4096)" using alloc_extent [OF assms(1) a(1,2)] a(4) by simp
  ultimately show thesis
    using that alloc_inv [OF assms(1) a(1)] alloc_fresh [OF assms(1) a(1,2)] by blast
qed

lemma dealloc_page:
  assumes "inv m" and "extent m a = 4096"
  obtains m' where "dealloc m a = Some m'" and "inv m'" and "avail m' = avail m + 1"
    and "extent m' = (extent m)(a := 0)"
  using dealloc_live [OF assms(1), of a] dealloc_avail [OF assms(1), of a] assms(2) by force

lemma remove_chain_page:
  assumes inv: "inv m" and pages: "\<forall>a\<in>set (blocks q). extent m a = 4096"
    and d: "distinct (blocks q)"
  shows "\<exists>q' m'. remove_chain dealloc P q m = Some (q', m') \<and> inv m' \<and>
           items q' = drop_first P (items q) \<and> (q' = None \<longleftrightarrow> q = None) \<and>
           set (blocks q') \<subseteq> set (blocks q) \<and> distinct (blocks q') \<and>
           (\<forall>a\<in>set (blocks q'). extent m' a = 4096) \<and>
           avail m' + length (items q') = avail m + length (items q) \<and>
           (\<forall>a. a \<notin> set (blocks q) \<longrightarrow> extent m' a = extent m a)"
proof (cases q)
  case None
  with assms show ?thesis by (simp add: remove_chain_def)
next
  case (Some pr)
  obtain qa ns where q: "q = Some (qa, ns)" using Some by (cases pr) auto
  let ?Q = "\<lambda>n. P (snd n)"
  show ?thesis
  proof (cases "find ?Q ns")
    case None
    with assms q have "remove_chain dealloc P q m = Some (q, m)" by (simp add: remove_chain_def)
    moreover have "drop_first P (map snd ns) = map snd ns"
      by (rule drop_first_none) (use None in \<open>auto simp: find_None_iff\<close>)
    ultimately show ?thesis using assms q by auto
  next
    case found: (Some ax)
    obtain a x where ax: "ax = (a, x)" by force
    from drop_first_split [OF found] ax obtain us vs where
      xs: "ns = us @ (a, x) # vs" "drop_first ?Q ns = us @ vs" by auto
    have "extent m a = 4096" using pages q xs(1) by simp
    then obtain m' where m': "dealloc m a = Some m'" "inv m'" "avail m' = avail m + 1"
      "extent m' = (extent m)(a := 0)" using dealloc_page [OF inv] by blast
    have r: "remove_chain dealloc P q m = Some (Some (qa, us @ vs), m')"
      using q found ax m'(1) xs(2) by (simp add: remove_chain_def)
    then have it: "items (Some (qa, us @ vs)) = drop_first P (items q)"
      by (rule remove_chain_items [THEN conjunct1])
    have sub: "set (blocks (Some (qa, us @ vs))) \<subseteq> set (blocks q)" "a \<in> set (blocks q)"
      using q xs(1) by auto
    have d': "distinct (blocks (Some (qa, us @ vs)))" "a \<notin> set (blocks (Some (qa, us @ vs)))"
      using d q xs(1) by auto
    have "length (items q) = Suc (length (items (Some (qa, us @ vs))))" using q xs(1) by simp
    then have "avail m' + length (items (Some (qa, us @ vs))) = avail m + length (items q)"
      using m'(3) by simp
    moreover have "\<forall>b\<in>set (blocks (Some (qa, us @ vs))). extent m' b = 4096"
      using pages sub(1) d'(2) m'(4) by auto
    moreover have "\<forall>b. b \<notin> set (blocks q) \<longrightarrow> extent m' b = extent m b"
      using sub(2) m'(4) by auto
    ultimately show ?thesis
      using r m'(2) it sub(1) d'(1) q by blast
  qed
qed

lemma free_nodes_page:
  assumes "inv m" and "distinct (map fst ns)" and "\<forall>a\<in>fst ` set ns. extent m a = 4096"
  shows "\<exists>m'. free_nodes dealloc ns m = Some m' \<and> inv m' \<and> avail m' = avail m + length ns \<and>
           extent m' = (\<lambda>a. if a \<in> fst ` set ns then 0 else extent m a)"
  using assms
proof (induction ns arbitrary: m)
  case Nil
  then show ?case by simp
next
  case (Cons n ns)
  obtain a x where n: "n = (a, x)" by force
  then have "extent m a = 4096" using Cons.prems(3) by simp
  then obtain m1 where
    m1: "dealloc m a = Some m1" "inv m1" "avail m1 = avail m + 1" "extent m1 = (extent m)(a := 0)"
    using dealloc_page [OF Cons.prems(1)] by blast
  then have "\<forall>b\<in>fst ` set ns. extent m1 b = 4096" "distinct (map fst ns)"
    using Cons.prems n by auto
  from Cons.IH [OF m1(2) this(2,1)] obtain m2 where
    "free_nodes dealloc ns m1 = Some m2" "inv m2" "avail m2 = avail m1 + length ns"
    "extent m2 = (\<lambda>b. if b \<in> fst ` set ns then 0 else extent m1 b)" by blast
  with n m1 show ?case by auto
qed

lemma free_chain_page:
  assumes "inv m" and "distinct (blocks q)" and "\<forall>a\<in>set (blocks q). extent m a = 4096"
  shows "\<exists>m'. free_chain dealloc q m = Some m' \<and> inv m' \<and> avail m' = avail m + length (blocks q) \<and>
           extent m' = (\<lambda>a. if a \<in> set (blocks q) then 0 else extent m a)"
proof (cases q)
  case None
  with assms show ?thesis by (simp add: free_chain_def)
next
  case (Some p)
  obtain qa ns where p: "p = (qa, ns)" by force
  from free_nodes_page [OF assms(1), of ns] assms Some p obtain m1 where
    m1: "free_nodes dealloc ns m = Some m1" "inv m1" "avail m1 = avail m + length ns"
    "extent m1 = (\<lambda>a. if a \<in> fst ` set ns then 0 else extent m a)" by auto
  with assms Some p have "extent m1 qa = 4096" by auto
  then obtain m2 where
    "dealloc m1 qa = Some m2" "inv m2" "avail m2 = avail m1 + 1" "extent m2 = (extent m1)(qa := 0)"
    using dealloc_page [OF m1(2)] by blast
  with m1 Some p show ?thesis by (auto simp: free_chain_def)
qed

end

end
