(* ===== verification/Queue.thy ===== *)
theory Queue
  imports Chain
begin

text \<open>
  \<open>Kernel/lib/ADT/Queue/queue.c\<close>: the singly linked FIFO of the scheduler's ready queues, of its
  blocked queue and of each semaphore's waiting processes.

  Two levels. The pointer level (\<open>Enqueue\<close>, \<open>Dequeue\<close>, ...) is the code over a store of nodes and
  queue headers, with the memory manager as a parameter (\<open>alloc\<close>, \<open>dealloc\<close>: the kernel is linked
  with one of two). The list level (\<open>q_enq\<close>, \<open>q_deq\<close>, ...) keeps the list of nodes with their
  addresses and performs the same calls of the memory manager; \<open>q_repr\<close> relates the two, and the
  refinement lemmas show that they agree, errors included. The kernel theories use the list level.
\<close>

section \<open>The code over a store\<close>

record nodeT =
  obj :: u64
  nxt :: ptr

record QueueCDT =
  head :: ptr
  tail :: ptr
  length_of :: int

text \<open>
  \<open>mem_free\<close> does not clear the bytes it releases, so a freed node stays readable in \<open>nodes\<close> until
  an allocation reuses its address.
\<close>

record 'm qstore =
  mem :: 'm
  nodes :: "ptr \<Rightarrow> nodeT option"
  queues :: "ptr \<Rightarrow> QueueCDT option"

definition sizeof_QueueCDT :: u64 where "sizeof_QueueCDT = 24"
definition sizeof_nodeT :: u64 where "sizeof_nodeT = 16"

definition NewQueue :: "('m \<Rightarrow> u64 \<Rightarrow> 'm \<times> ptr) \<Rightarrow> 'm qstore \<Rightarrow> 'm qstore \<times> ptr" where
  "NewQueue alloc st =
     (let (m, queue) = alloc (mem st) sizeof_QueueCDT
      in if queue \<noteq> NULL
         then (st\<lparr>mem := m,
                  queues := (queues st)(queue \<mapsto> \<lparr>head = NULL, tail = NULL, length_of = 0\<rparr>)\<rparr>, queue)
         else (st\<lparr>mem := m\<rparr>, NULL))"

partial_function (option) FreeQueue_loop ::
    "('m \<Rightarrow> ptr \<Rightarrow> 'm option) \<Rightarrow> (ptr \<Rightarrow> nodeT option) \<Rightarrow> ptr \<Rightarrow> 'm \<Rightarrow> 'm option" where
  "FreeQueue_loop dealloc ns current m =
     (if current = NULL then Some m
      else do { n \<leftarrow> ns current;
                m' \<leftarrow> dealloc m current;
                FreeQueue_loop dealloc ns (nxt n) m' })"

definition FreeQueue :: "('m \<Rightarrow> ptr \<Rightarrow> 'm option) \<Rightarrow> 'm qstore \<Rightarrow> ptr \<Rightarrow> 'm qstore option" where
  "FreeQueue dealloc st queue =
     (if queue = NULL then Some st
      else do { c \<leftarrow> queues st queue;
                m \<leftarrow> FreeQueue_loop dealloc (nodes st) (head c) (mem st);
                m' \<leftarrow> dealloc m queue;
                Some (st\<lparr>mem := m'\<rparr>) })"

text \<open>\<open>Enqueue\<close> writes through the result of \<open>mem_alloc\<close> without a check.\<close>

definition Enqueue ::
    "('m \<Rightarrow> u64 \<Rightarrow> 'm \<times> ptr) \<Rightarrow> 'm qstore \<Rightarrow> ptr \<Rightarrow> u64 \<Rightarrow> 'm qstore option" where
  "Enqueue alloc st queue x =
     (if queue = NULL \<or> x = NULL then Some st
      else let (m, newNode) = alloc (mem st) sizeof_nodeT
           in if newNode = NULL then None
              else do {
                let ns = (nodes st)(newNode \<mapsto> \<lparr>obj = x, nxt = NULL\<rparr>);
                c \<leftarrow> queues st queue;
                if tail c = NULL
                then Some (st\<lparr>mem := m, nodes := ns,
                       queues := (queues st)(queue \<mapsto>
                         c\<lparr>head := newNode, tail := newNode, length_of := length_of c + 1\<rparr>)\<rparr>)
                else do {
                  t \<leftarrow> ns (tail c);
                  Some (st\<lparr>mem := m, nodes := ns(tail c \<mapsto> t\<lparr>nxt := newNode\<rparr>),
                       queues := (queues st)(queue \<mapsto>
                         c\<lparr>tail := newNode, length_of := length_of c + 1\<rparr>)\<rparr>)
                }
              })"

definition Dequeue ::
    "('m \<Rightarrow> ptr \<Rightarrow> 'm option) \<Rightarrow> 'm qstore \<Rightarrow> ptr \<Rightarrow> (u64 \<times> 'm qstore) option" where
  "Dequeue dealloc st queue =
     (if queue = NULL then Some (NULL, st)
      else do {
        c \<leftarrow> queues st queue;
        if length_of c = 0 then Some (NULL, st)
        else do {
          let toRemove = head c;
          n \<leftarrow> nodes st toRemove;
          let c' = c\<lparr>head := nxt n,
                     tail := (if nxt n = NULL then NULL else tail c),
                     length_of := length_of c - 1\<rparr>;
          m \<leftarrow> dealloc (mem st) toRemove;
          Some (obj n, st\<lparr>mem := m, queues := (queues st)(queue \<mapsto> c')\<rparr>)
        }
      })"

definition QueueLength :: "'m qstore \<Rightarrow> ptr \<Rightarrow> int option" where
  "QueueLength st queue =
     (if queue = NULL then Some (-1) else map_option length_of (queues st queue))"

definition IsQueueEmpty :: "'m qstore \<Rightarrow> ptr \<Rightarrow> bool option" where
  "IsQueueEmpty st queue =
     (if queue = NULL then Some True
      else map_option (\<lambda>c. length_of c = 0) (queues st queue))"

partial_function (option) FindInQueue_loop ::
    "(u64 \<Rightarrow> bool) \<Rightarrow> (ptr \<Rightarrow> nodeT option) \<Rightarrow> ptr \<Rightarrow> u64 option" where
  "FindInQueue_loop equals ns current =
     (if current = NULL then Some NULL
      else do { n \<leftarrow> ns current;
                if equals (obj n) then Some (obj n)
                else FindInQueue_loop equals ns (nxt n) })"

definition FindInQueue :: "(u64 \<Rightarrow> bool) \<Rightarrow> 'm qstore \<Rightarrow> ptr \<Rightarrow> u64 option" where
  "FindInQueue equals st queue =
     (if queue = NULL then Some NULL
      else do { c \<leftarrow> queues st queue;
                FindInQueue_loop equals (nodes st) (head c) })"

text \<open>The unlinking branch of the removal loop, then the loop itself.\<close>

definition unlink_node ::
    "('m \<Rightarrow> ptr \<Rightarrow> 'm option) \<Rightarrow> 'm qstore \<Rightarrow> ptr \<Rightarrow> ptr \<Rightarrow> ptr \<Rightarrow> nodeT \<Rightarrow> 'm qstore option" where
  "unlink_node dealloc st queue previous current n =
     do {
       c \<leftarrow> queues st queue;
       st' \<leftarrow> (if previous = NULL
              then Some (st\<lparr>queues := (queues st)(queue \<mapsto>
                          c\<lparr>head := nxt n,
                            tail := (if nxt n = NULL then NULL else tail c),
                            length_of := length_of c - 1\<rparr>)\<rparr>)
              else do {
                p \<leftarrow> nodes st previous;
                Some (st\<lparr>nodes := (nodes st)(previous \<mapsto> p\<lparr>nxt := nxt n\<rparr>),
                         queues := (queues st)(queue \<mapsto>
                           c\<lparr>tail := (if nxt n = NULL then previous else tail c),
                             length_of := length_of c - 1\<rparr>)\<rparr>)
              });
       m \<leftarrow> dealloc (mem st') current;
       Some (st'\<lparr>mem := m\<rparr>)
     }"

partial_function (option) RemoveFromQueue_loop ::
    "('m \<Rightarrow> ptr \<Rightarrow> 'm option) \<Rightarrow> (u64 \<Rightarrow> bool) \<Rightarrow> 'm qstore \<Rightarrow> ptr \<Rightarrow> ptr \<Rightarrow> ptr
       \<Rightarrow> 'm qstore option" where
  "RemoveFromQueue_loop dealloc equals st queue previous current =
     (if current = NULL then Some st
      else do { n \<leftarrow> nodes st current;
                if equals (obj n) then unlink_node dealloc st queue previous current n
                else RemoveFromQueue_loop dealloc equals st queue current (nxt n) })"

definition RemoveFromQueue ::
    "('m \<Rightarrow> ptr \<Rightarrow> 'm option) \<Rightarrow> (u64 \<Rightarrow> bool) \<Rightarrow> 'm qstore \<Rightarrow> ptr \<Rightarrow> 'm qstore option" where
  "RemoveFromQueue dealloc equals st queue =
     (if queue = NULL then Some st
      else do { c \<leftarrow> queues st queue;
                RemoveFromQueue_loop dealloc equals st queue NULL (head c) })"

section \<open>The list level\<close>

text \<open>A queue as its clients see it: the chain of its nodes, elements in arrival order.\<close>

type_synonym queue = chain

definition q_new :: "('m \<Rightarrow> u64 \<Rightarrow> 'm \<times> ptr) \<Rightarrow> 'm \<Rightarrow> queue \<times> 'm" where
  "q_new alloc m =
     (let (m', a) = alloc m sizeof_QueueCDT
      in if a \<noteq> NULL then (Some (a, []), m') else (None, m'))"

definition q_enq :: "('m \<Rightarrow> u64 \<Rightarrow> 'm \<times> ptr) \<Rightarrow> queue \<Rightarrow> u64 \<Rightarrow> 'm \<Rightarrow> (queue \<times> 'm) option" where
  "q_enq alloc q x m =
     (case q of None \<Rightarrow> Some (q, m)
      | Some (qa, ns) \<Rightarrow>
          if x = NULL then Some (q, m)
          else let (m', a) = alloc m sizeof_nodeT
               in if a = NULL then None else Some (Some (qa, ns @ [(a, x)]), m'))"

definition q_deq :: "('m \<Rightarrow> ptr \<Rightarrow> 'm option) \<Rightarrow> queue \<Rightarrow> 'm \<Rightarrow> (u64 \<times> queue \<times> 'm) option" where
  "q_deq dealloc q m =
     (case q of Some (qa, (a, x) # ns) \<Rightarrow>
          do { m' \<leftarrow> dealloc m a; Some (x, Some (qa, ns), m') }
      | _ \<Rightarrow> Some (NULL, q, m))"

definition q_len :: "queue \<Rightarrow> int" where
  "q_len q = (case q of None \<Rightarrow> -1 | Some (qa, ns) \<Rightarrow> int (length ns))"

definition q_empty :: "queue \<Rightarrow> bool" where
  "q_empty q \<longleftrightarrow> items q = []"

abbreviation q_find :: "(u64 \<Rightarrow> bool) \<Rightarrow> queue \<Rightarrow> u64" where
  "q_find \<equiv> find_chain"

abbreviation q_remove ::
    "('m \<Rightarrow> ptr \<Rightarrow> 'm option) \<Rightarrow> (u64 \<Rightarrow> bool) \<Rightarrow> queue \<Rightarrow> 'm \<Rightarrow> (queue \<times> 'm) option" where
  "q_remove \<equiv> remove_chain"

abbreviation q_free :: "('m \<Rightarrow> ptr \<Rightarrow> 'm option) \<Rightarrow> queue \<Rightarrow> 'm \<Rightarrow> 'm option" where
  "q_free \<equiv> free_chain"

subsection \<open>Contents after each operation\<close>

lemma q_enq_items [adt]:
  "q_enq alloc q x m = Some (q', m') \<Longrightarrow>
     items q' = (if q = None \<or> x = NULL then items q else items q @ [x])
     \<and> (q' = None \<longleftrightarrow> q = None)"
  by (auto simp: q_enq_def items_def Let_def split: option.splits prod.splits if_splits)

lemma q_deq_items [adt]:
  "q_deq dealloc q m = Some (x, q', m') \<Longrightarrow>
     (if items q = [] then x = NULL \<and> q' = q \<and> m' = m
      else items q = x # items q') \<and> (q' = None \<longleftrightarrow> q = None)"
  by (auto simp: q_deq_def items_def Option.bind_eq_Some_conv split: option.splits prod.splits list.splits)

section \<open>Refinement\<close>

text \<open>\<open>seg ns p xs z\<close>: the nodes of \<open>xs\<close> form a chain in the store from \<open>p\<close> to \<open>z\<close>.\<close>

fun seg :: "(ptr \<Rightarrow> nodeT option) \<Rightarrow> ptr \<Rightarrow> (ptr \<times> u64) list \<Rightarrow> ptr \<Rightarrow> bool" where
  "seg ns p [] z \<longleftrightarrow> p = z"
| "seg ns p ((a, x) # xs) z \<longleftrightarrow>
     p = a \<and> a \<noteq> NULL \<and> (\<exists>n. ns a = Some n \<and> obj n = x \<and> seg ns (nxt n) xs z)"

definition header_ok :: "QueueCDT \<Rightarrow> (ptr \<Rightarrow> nodeT option) \<Rightarrow> (ptr \<times> u64) list \<Rightarrow> bool" where
  "header_ok c ns xs \<longleftrightarrow>
     seg ns (head c) xs NULL \<and> tail c = last_addr xs \<and> length_of c = int (length xs)"

text \<open>
  \<open>q_repr ext st p q\<close>: the queue at \<open>p\<close> in the store is the list-level queue \<open>q\<close>; its header and
  its nodes are distinct live blocks of the memory manager.
\<close>

definition q_repr :: "('m \<Rightarrow> ptr \<Rightarrow> nat) \<Rightarrow> 'm qstore \<Rightarrow> ptr \<Rightarrow> queue \<Rightarrow> bool" where
  "q_repr ext st p q \<longleftrightarrow>
     (case q of None \<Rightarrow> p = NULL
      | Some (qa, xs) \<Rightarrow>
          p = qa \<and> qa \<noteq> NULL \<and> distinct (qa # map fst xs) \<and>
          (\<forall>a\<in>set (qa # map fst xs). 0 < ext (mem st) a) \<and>
          (\<exists>c. queues st qa = Some c \<and> header_ok c (nodes st) xs))"

lemma q_repr_Some:
  "q_repr ext st p (Some (qa, xs)) \<longleftrightarrow>
     p = qa \<and> qa \<noteq> NULL \<and> distinct (qa # map fst xs) \<and>
     (\<forall>a\<in>set (qa # map fst xs). 0 < ext (mem st) a) \<and>
     (\<exists>c. queues st qa = Some c \<and> header_ok c (nodes st) xs)"
  by (simp add: q_repr_def)

lemma seg_append: "seg ns p (xs @ ys) z \<longleftrightarrow> (\<exists>w. seg ns p xs w \<and> seg ns w ys z)"
proof (induction xs arbitrary: p)
  case (Cons a xs)
  then show ?case by (cases a) force
qed simp

lemma seg_upd [simp]: "b \<notin> fst ` set xs \<Longrightarrow> seg (ns(b := v)) p xs z = seg ns p xs z"
  by (induction xs arbitrary: p) auto

lemma seg_hd: "seg ns p xs NULL \<Longrightarrow> p = (if xs = [] then NULL else fst (hd xs))"
  by (cases xs) auto

lemma seg_not_null: "seg ns p xs z \<Longrightarrow> NULL \<notin> fst ` set xs"
proof (induction xs arbitrary: p)
  case (Cons ax xs)
  obtain a x where ax: "ax = (a, x)" by force
  with Cons.prems obtain w where "a \<noteq> NULL" "seg ns w xs z" by auto
  with Cons.IH ax show ?case by (simp del: seg.simps)
qed simp

lemma last_addr_null: "seg ns p xs z \<Longrightarrow> last_addr xs = NULL \<longleftrightarrow> xs = []"
  by (cases xs rule: rev_cases) (auto dest: seg_not_null)

text \<open>Appending a fresh node behind the last one.\<close>

lemma seg_snoc:
  assumes "seg ns p (us @ [(t, y)]) NULL" and "distinct (map fst (us @ [(t, y)]))"
    and "a \<notin> fst ` set (us @ [(t, y)])" and "a \<noteq> NULL" and "ns t = Some n"
  shows "seg (ns(a \<mapsto> \<lparr>obj = x, nxt = NULL\<rparr>, t \<mapsto> n\<lparr>nxt := a\<rparr>)) p (us @ [(t, y), (a, x)]) NULL"
proof -
  from assms(1) have "seg ns p us t" "obj n = y" "t \<noteq> NULL"
    using assms(5) by (auto simp: seg_append)
  moreover have "a \<notin> fst ` set us" "t \<notin> fst ` set us" "t \<noteq> a"
    using assms(2,3) by auto
  ultimately show ?thesis using assms(4) by (auto simp: seg_append)
qed

text \<open>Unlinking the node between \<open>us\<close> and \<open>vs\<close>.\<close>

lemma seg_unlink:
  assumes "seg ns p (us @ [(t, y)] @ (a, x) # vs) NULL"
    and "distinct (map fst (us @ [(t, y)] @ (a, x) # vs))"
    and "ns t = Some pn" and "ns a = Some n"
  shows "seg (ns(t \<mapsto> pn\<lparr>nxt := nxt n\<rparr>)) p (us @ [(t, y)] @ vs) NULL"
proof -
  from assms(1,3,4) have "seg ns p us t" "obj pn = y" "t \<noteq> NULL" "seg ns (nxt n) vs NULL"
    by (auto simp: seg_append)
  moreover have "t \<notin> fst ` set us" "t \<notin> fst ` set vs"
    using assms(2) by auto
  ultimately show ?thesis by (auto simp: seg_append)
qed

context allocator
begin

lemma NewQueue_refines:
  assumes "inv (mem st)" and "NewQueue alloc st = (st', p)" and "q_new alloc (mem st) = (q, m')"
  shows "mem st' = m' \<and> inv m' \<and> q_repr extent st' p q"
proof -
  obtain m a where al: "alloc (mem st) sizeof_QueueCDT = (m, a)" by force
  show ?thesis
    using assms(2,3) alloc_inv [OF assms(1) al] alloc_size [OF assms(1) al]
    by (auto simp: NewQueue_def q_new_def al q_repr_def header_ok_def split: if_splits)
qed

lemma FreeQueue_loop_eq:
  "seg ns p xs NULL \<Longrightarrow> FreeQueue_loop dealloc ns p m = free_nodes dealloc xs m"
proof (induction xs arbitrary: p m)
  case Nil
  then show ?case by (simp add: FreeQueue_loop.simps)
next
  case (Cons ax xs)
  then show ?case
    by (cases ax) (auto simp: FreeQueue_loop.simps [of dealloc ns p m] split: Option.bind_splits)
qed

lemma FreeQueue_refines:
  assumes "inv (mem st)" and "q_repr extent st p q"
  shows "\<exists>st'. FreeQueue dealloc st p = Some st' \<and> q_free dealloc q (mem st) = Some (mem st')
           \<and> inv (mem st') \<and> (\<forall>a\<in>set (blocks q). extent (mem st') a = 0)"
proof -
  have "distinct (blocks q)" "\<forall>a\<in>set (blocks q). 0 < extent (mem st) a"
    using assms(2) by (auto simp: q_repr_def split: option.splits)
  from free_chain_live [OF assms(1) this] obtain m where
    m: "q_free dealloc q (mem st) = Some m" "inv m" "\<forall>a\<in>set (blocks q). extent m a = 0" by auto
  have "FreeQueue dealloc st p = Some (st\<lparr>mem := m\<rparr>)"
  proof (cases q)
    case None
    with m assms(2) show ?thesis by (simp add: FreeQueue_def q_repr_def free_chain_def)
  next
    case (Some pr)
    obtain qa xs where "pr = (qa, xs)" by force
    with Some m(1) assms(2) show ?thesis
      by (auto simp: FreeQueue_def q_repr_Some free_chain_def header_ok_def FreeQueue_loop_eq
          Option.bind_eq_Some_conv)
  qed
  with m show ?thesis by auto
qed

lemma Enqueue_refines:
  assumes inv: "inv (mem st)" and r: "q_repr extent st p q"
  shows "case q_enq alloc q x (mem st) of
           None \<Rightarrow> Enqueue alloc st p x = None
         | Some (q', m') \<Rightarrow> \<exists>st'. Enqueue alloc st p x = Some st' \<and> mem st' = m' \<and> inv m'
                            \<and> q_repr extent st' p q'"
proof (cases q)
  case None
  with r inv show ?thesis by (simp add: q_repr_def q_enq_def Enqueue_def)
next
  case (Some pr)
  obtain qa xs where q: "q = Some (qa, xs)" using Some by (cases pr) auto
  obtain m a where al: "alloc (mem st) sizeof_nodeT = (m, a)" by force
  from r q obtain c where c: "queues st qa = Some c" "header_ok c (nodes st) xs"
    and p: "p = qa" "qa \<noteq> NULL" and d: "distinct (qa # map fst xs)"
    and live: "\<forall>b\<in>set (qa # map fst xs). 0 < extent (mem st) b"
    by (auto simp: q_repr_Some)
  show ?thesis
  proof (cases "x = NULL \<or> a = NULL")
    case True
    with q p r inv al show ?thesis by (auto simp: q_enq_def Enqueue_def)
  next
    case False
    have fresh: "a \<notin> set (qa # map fst xs)"
      using alloc_fresh [OF inv al] live False by auto
    have live': "\<forall>b\<in>set (qa # map fst (xs @ [(a, x)])). 0 < extent m b"
      using alloc_keeps_live [OF inv al] live alloc_size [OF inv al] False by auto
    have d': "distinct (qa # map fst (xs @ [(a, x)]))" using d fresh by auto
    show ?thesis
    proof (cases xs rule: rev_cases)
      case Nil
      then have "tail c = NULL" using c by (simp add: header_ok_def)
      with False q p c al inv live' d' Nil alloc_inv [OF inv al] show ?thesis
        by (simp add: q_enq_def Enqueue_def q_repr_Some header_ok_def last_addr_def)
    next
      case (snoc us ty)
      obtain t y where ty: "ty = (t, y)" by force
      have tail: "tail c = t" using c(2) snoc ty by (simp add: header_ok_def)
      from c(2) snoc ty obtain n where n: "nodes st t = Some n" and t: "t \<noteq> NULL"
        by (auto simp: header_ok_def seg_append)
      have "t \<noteq> a" using fresh snoc ty by auto
      moreover have "seg ((nodes st)(a \<mapsto> \<lparr>obj = x, nxt = NULL\<rparr>, t \<mapsto> n\<lparr>nxt := a\<rparr>)) (head c)
              (us @ [(t, y), (a, x)]) NULL"
        by (rule seg_snoc) (use c(2) snoc ty d fresh False n in \<open>auto simp: header_ok_def\<close>)
      moreover have "last_addr (us @ [(t, y), (a, x)]) = a"
        using last_addr_simps(2) [of "us @ [(t, y)]" a x] by simp
      ultimately show ?thesis
        using False q p c al inv live' d' snoc ty t tail n alloc_inv [OF inv al]
        by (auto simp: q_enq_def Enqueue_def q_repr_Some header_ok_def)
    qed
  qed
qed

lemma Dequeue_refines:
  assumes inv: "inv (mem st)" and r: "q_repr extent st p q"
  shows "\<exists>x q' m' st'. q_deq dealloc q (mem st) = Some (x, q', m')
           \<and> Dequeue dealloc st p = Some (x, st') \<and> mem st' = m' \<and> inv m' \<and> q_repr extent st' p q'"
proof (cases "\<exists>qa a x ns. q = Some (qa, (a, x) # ns)")
  case False
  then show ?thesis using r inv
    by (auto simp: q_deq_def Dequeue_def q_repr_def header_ok_def
        split: option.splits prod.splits list.splits)
next
  case True
  then obtain qa a x ns where q: "q = Some (qa, (a, x) # ns)" by blast
  from r q obtain c n where c: "queues st qa = Some c" "header_ok c (nodes st) ((a, x) # ns)"
    and p: "p = qa" "qa \<noteq> NULL" and d: "distinct (qa # a # map fst ns)"
    and live: "\<forall>b\<in>set (qa # a # map fst ns). 0 < extent (mem st) b"
    and n: "nodes st a = Some n" "obj n = x" "head c = a" "seg (nodes st) (nxt n) ns NULL"
    by (auto simp: q_repr_Some header_ok_def)
  from dealloc_live [OF inv, of a] live obtain m where
    m: "dealloc (mem st) a = Some m" "inv m" "extent m = (extent (mem st))(a := 0)" by auto
  have "(if nxt n = NULL then NULL else tail c) = last_addr ns"
    using c(2) seg_hd [OF n(4)] seg_not_null [OF n(4)]
    by (cases ns) (auto simp: header_ok_def last_addr_def)
  moreover have "\<forall>b\<in>set (qa # map fst ns). 0 < extent m b" using live d m(3) by auto
  ultimately show ?thesis using q p c n m(1,2) d
    by (auto simp: q_deq_def Dequeue_def q_repr_Some header_ok_def)
qed

lemma FindInQueue_loop_eq:
  "seg ns p xs NULL \<Longrightarrow>
     FindInQueue_loop P ns p = Some (case find P (map snd xs) of None \<Rightarrow> NULL | Some x \<Rightarrow> x)"
  by (induction xs arbitrary: p) (auto simp: FindInQueue_loop.simps [of P ns])

lemma FindInQueue_refines:
  "q_repr extent st p q \<Longrightarrow> FindInQueue P st p = Some (q_find P q)"
  by (auto simp: FindInQueue_def find_chain_def q_repr_def header_ok_def FindInQueue_loop_eq
      split: option.splits prod.splits)

lemma QueueLength_refines:
  "q_repr extent st p q \<Longrightarrow> QueueLength st p = Some (q_len q) \<and> IsQueueEmpty st p = Some (q_empty q)"
  by (auto simp: QueueLength_def IsQueueEmpty_def q_len_def q_empty_def q_repr_def header_ok_def
      split: option.splits prod.splits)

text \<open>The removal loop stops at the first match, with its predecessor at hand.\<close>

lemma RemoveFromQueue_loop_eq:
  assumes "seg (nodes st) cur ys NULL"
  shows "RemoveFromQueue_loop dealloc P st p prev cur =
     (case find (\<lambda>n. P (snd n)) ys of None \<Rightarrow> Some st
      | Some (a, x) \<Rightarrow>
          unlink_node dealloc st p
            (case takeWhile (\<lambda>n. \<not> P (snd n)) ys of [] \<Rightarrow> prev | us \<Rightarrow> last_addr us)
            a (the (nodes st a)))"
  using assms
proof (induction ys arbitrary: prev cur)
  case Nil
  then show ?case by (simp add: RemoveFromQueue_loop.simps)
next
  case (Cons y ys)
  obtain a x where y: "y = (a, x)" by force
  from Cons.prems y obtain n where n: "cur = a" "a \<noteq> NULL" "nodes st a = Some n" "obj n = x"
    "seg (nodes st) (nxt n) ys NULL" by auto
  show ?case
  proof (cases "P x")
    case True
    with n y show ?thesis by (simp add: RemoveFromQueue_loop.simps [of dealloc P st p prev])
  next
    case False
    have "(case takeWhile (\<lambda>n. \<not> P (snd n)) ys of [] \<Rightarrow> a | us \<Rightarrow> last_addr us)
        = last_addr (y # takeWhile (\<lambda>n. \<not> P (snd n)) ys)"
      using y by (auto simp: last_addr_def split: list.splits)
    with False n y Cons.IH [OF n(5), of a] show ?thesis
      by (simp add: RemoveFromQueue_loop.simps [of dealloc P st p prev] split: option.splits)
  qed
qed

lemma RemoveFromQueue_refines:
  assumes inv: "inv (mem st)" and r: "q_repr extent st p q"
  shows "\<exists>q' m' st'. q_remove dealloc P q (mem st) = Some (q', m')
           \<and> RemoveFromQueue dealloc P st p = Some st' \<and> mem st' = m' \<and> inv m' \<and> q_repr extent st' p q'"
proof (cases q)
  case None
  with r inv show ?thesis by (simp add: q_repr_def remove_chain_def RemoveFromQueue_def)
next
  case (Some pr)
  obtain qa xs where q: "q = Some (qa, xs)" using Some by (cases pr) auto
  from r q obtain c where c: "queues st qa = Some c" "header_ok c (nodes st) xs"
    and p: "p = qa" "qa \<noteq> NULL" and d: "distinct (qa # map fst xs)"
    and live: "\<forall>b\<in>set (qa # map fst xs). 0 < extent (mem st) b"
    by (auto simp: q_repr_Some)
  let ?Q = "\<lambda>n. P (snd n)"
  have loop: "RemoveFromQueue dealloc P st p =
     (case find ?Q xs of None \<Rightarrow> Some st
      | Some (a, x) \<Rightarrow> unlink_node dealloc st qa
            (last_addr (takeWhile (\<lambda>n. \<not> ?Q n) xs)) a (the (nodes st a)))"
    using c p RemoveFromQueue_loop_eq [of st "head c" xs P qa NULL]
    by (auto simp: RemoveFromQueue_def header_ok_def last_addr_def split: option.splits list.splits)
  show ?thesis
  proof (cases "find ?Q xs")
    case None
    with loop q r inv show ?thesis by (simp add: remove_chain_def)
  next
    case found: (Some ax)
    obtain a x where ax: "ax = (a, x)" by force
    from drop_first_split [OF found] ax obtain us vs where
      xs: "xs = us @ (a, x) # vs" "P x" "\<forall>u\<in>set us. \<not> ?Q u" "drop_first ?Q xs = us @ vs"
      by auto
    have tw: "takeWhile (\<lambda>n. \<not> ?Q n) xs = us"
      using xs by (simp add: takeWhile_append)
    from dealloc_live [OF inv, of a] live xs(1) obtain m where
      m: "dealloc (mem st) a = Some m" "inv m" "extent m = (extent (mem st))(a := 0)" by auto
    from c(2) xs(1) obtain n where n: "nodes st a = Some n" "seg (nodes st) (nxt n) vs NULL"
      by (auto simp: header_ok_def seg_append)
    have nx: "nxt n = NULL \<longleftrightarrow> vs = []"
      using seg_hd [OF n(2)] seg_not_null [OF n(2)] by (cases vs) auto
    have live': "\<forall>b\<in>set (qa # map fst (us @ vs)). 0 < extent m b"
      using live d m(3) xs(1) by auto
    have d': "distinct (qa # map fst (us @ vs))" using d xs(1) by auto
    have rem: "q_remove dealloc P q (mem st) = Some (Some (qa, us @ vs), m)"
      using q found ax m(1) xs(4) by (simp add: remove_chain_def)
    show ?thesis
    proof (cases us rule: rev_cases)
      case Nil
      have "(if nxt n = NULL then NULL else tail c) = last_addr vs"
        using c(2) xs(1) Nil nx by (cases vs) (auto simp: header_ok_def last_addr_def)
      with Nil rem loop found ax tw c(1,2) p n m live' d' xs(1) inv show ?thesis
        by (auto simp: unlink_node_def q_repr_Some header_ok_def)
    next
      case (snoc ws ty)
      obtain t y where ty: "ty = (t, y)" by force
      from c(2) xs(1) snoc ty obtain pn where pn: "nodes st t = Some pn" and t: "t \<noteq> NULL"
        by (auto simp: header_ok_def seg_append)
      have "seg ((nodes st)(t \<mapsto> pn\<lparr>nxt := nxt n\<rparr>)) (head c) (ws @ [(t, y)] @ vs) NULL"
        by (rule seg_unlink) (use c(2) xs(1) snoc ty pn n d in \<open>auto simp: header_ok_def\<close>)
      moreover have "(if nxt n = NULL then t else tail c) = last_addr (ws @ [(t, y)] @ vs)"
        using c(2) xs(1) snoc ty nx by (cases vs) (auto simp: header_ok_def last_addr_def)
      ultimately show ?thesis
        using snoc ty rem loop found ax tw c(1,2) p n pn t m live' d' xs(1) inv
        by (auto simp: unlink_node_def q_repr_Some header_ok_def)
    qed
  qed
qed

end

section \<open>Sequences of operations\<close>

text \<open>
  A client's sequence of calls on one queue. \<open>run_queue\<close> runs them through the code, \<open>fifo_run\<close> on
  a plain list: what the queue promises.
\<close>

datatype queue_op = OpEnqueue u64 | OpDequeue | OpRemove u64

fun run_queue ::
    "('m \<Rightarrow> u64 \<Rightarrow> 'm \<times> ptr) \<Rightarrow> ('m \<Rightarrow> ptr \<Rightarrow> 'm option) \<Rightarrow> queue_op list \<Rightarrow> 'm qstore \<Rightarrow> ptr
       \<Rightarrow> (u64 list \<times> 'm qstore) option" where
  "run_queue alloc dealloc [] st p = Some ([], st)"
| "run_queue alloc dealloc (OpEnqueue x # ops) st p =
     do { st' \<leftarrow> Enqueue alloc st p x; run_queue alloc dealloc ops st' p }"
| "run_queue alloc dealloc (OpDequeue # ops) st p =
     do { (x, st') \<leftarrow> Dequeue dealloc st p;
          (out, st'') \<leftarrow> run_queue alloc dealloc ops st' p;
          Some (x # out, st'') }"
| "run_queue alloc dealloc (OpRemove x # ops) st p =
     do { st' \<leftarrow> RemoveFromQueue dealloc (\<lambda>y. y = x) st p; run_queue alloc dealloc ops st' p }"

fun fifo_run :: "queue_op list \<Rightarrow> u64 list \<Rightarrow> u64 list \<times> u64 list" where
  "fifo_run [] xs = ([], xs)"
| "fifo_run (OpEnqueue x # ops) xs = fifo_run ops (if x = NULL then xs else xs @ [x])"
| "fifo_run (OpDequeue # ops) [] = (let (out, xs) = fifo_run ops [] in (NULL # out, xs))"
| "fifo_run (OpDequeue # ops) (x # xs) = (let (out, xs) = fifo_run ops xs in (x # out, xs))"
| "fifo_run (OpRemove x # ops) xs = fifo_run ops (remove1 x xs)"

fun enqueues :: "queue_op list \<Rightarrow> nat" where
  "enqueues [] = 0"
| "enqueues (OpEnqueue x # ops) = Suc (enqueues ops)"
| "enqueues (_ # ops) = enqueues ops"

context page_allocator
begin

text \<open>The queue at \<open>p\<close> holds \<open>xs\<close> and every block of it is one page.\<close>

definition holds :: "'a qstore \<Rightarrow> ptr \<Rightarrow> u64 list \<Rightarrow> bool" where
  "holds st p xs \<longleftrightarrow> inv (mem st) \<and> p \<noteq> NULL \<and>
     (\<exists>q. q_repr extent st p q \<and> items q = xs \<and> (\<forall>a\<in>set (blocks q). extent (mem st) a = 4096))"

lemma holdsE:
  assumes "holds st p xs"
  obtains qa ns where "q_repr extent st p (Some (qa, ns))" and "map snd ns = xs"
    and "\<forall>a\<in>set (qa # map fst ns). extent (mem st) a = 4096" and "inv (mem st)" and "p = qa"
proof -
  from assms obtain q where q: "q_repr extent st p q" "items q = xs"
    "\<forall>a\<in>set (blocks q). extent (mem st) a = 4096" "inv (mem st)" "p \<noteq> NULL"
    by (auto simp: holds_def)
  then obtain qa ns where "q = Some (qa, ns)"
    by (cases q) (auto simp: q_repr_def)
  with q that show thesis by (auto simp: q_repr_Some)
qed

lemma Enqueue_holds:
  assumes "holds st p xs" and "0 < avail (mem st)"
  shows "\<exists>st'. Enqueue alloc st p x = Some st' \<and> holds st' p (if x = NULL then xs else xs @ [x]) \<and>
           avail (mem st') = avail (mem st) - (if x = NULL then 0 else 1)"
proof (cases "x = NULL")
  case True
  with assms show ?thesis by (simp add: Enqueue_def)
next
  case False
  from assms(1) obtain qa ns where q: "q_repr extent st p (Some (qa, ns))" "map snd ns = xs"
    "\<forall>a\<in>set (qa # map fst ns). extent (mem st) a = 4096" and inv: "inv (mem st)" and p: "p = qa"
    by (elim holdsE)
  have "unat sizeof_nodeT \<le> 4096" by (simp add: sizeof_nodeT_def)
  from alloc_page [OF inv this assms(2)] obtain m a where
    m: "alloc (mem st) sizeof_nodeT = (m, a)" "a \<noteq> NULL" "inv m" "avail m = avail (mem st) - 1"
    "extent m = (extent (mem st))(a := 4096)" "extent (mem st) a = 0" by blast
  have e: "q_enq alloc (Some (qa, ns)) x (mem st) = Some (Some (qa, ns @ [(a, x)]), m)"
    using m False by (simp add: q_enq_def)
  from Enqueue_refines [OF inv q(1), of x] e obtain st' where
    st': "Enqueue alloc st p x = Some st'" "mem st' = m" "q_repr extent st' p (Some (qa, ns @ [(a, x)]))"
    by auto
  have "holds st' p (xs @ [x])"
    unfolding holds_def
    using st'(2,3) m(3,5) q(2,3) p q(1)
    by (intro conjI exI [of _ "Some (qa, ns @ [(a, x)])"]) (auto simp: q_repr_Some)
  with st' m False show ?thesis by simp
qed

lemma Dequeue_holds:
  assumes "holds st p xs"
  shows "\<exists>st'. Dequeue dealloc st p = Some (if xs = [] then NULL else hd xs, st') \<and>
           holds st' p (tl xs) \<and>
           avail (mem st') + length (tl xs) = avail (mem st) + length xs"
proof -
  from assms obtain qa ns where q: "q_repr extent st p (Some (qa, ns))" "map snd ns = xs"
    "\<forall>a\<in>set (qa # map fst ns). extent (mem st) a = 4096" and inv: "inv (mem st)" and p: "p = qa"
    by (elim holdsE)
  from Dequeue_refines [OF inv q(1)] obtain x q' st' where
    d: "q_deq dealloc (Some (qa, ns)) (mem st) = Some (x, q', mem st')"
    "Dequeue dealloc st p = Some (x, st')" "inv (mem st')" "q_repr extent st' p q'" by blast
  show ?thesis
  proof (cases ns)
    case Nil
    with d q p inv show ?thesis
      by (intro exI [of _ st']) (auto simp: q_deq_def holds_def q_repr_Some intro!: exI [of _ q'])
  next
    case (Cons y ys)
    obtain a z where y: "y = (a, z)" by force
    have a: "extent (mem st) a = 4096" using q(3) Cons y by simp
    from dealloc_page [OF inv a] d(1) Cons y have m: "x = z" "q' = Some (qa, ys)"
      "avail (mem st') = avail (mem st) + 1" "extent (mem st') = (extent (mem st))(a := 0)"
      by (auto simp: q_deq_def Option.bind_eq_Some_conv)
    have "a \<notin> set (qa # map fst ys)" using q(1) Cons y by (auto simp: q_repr_Some)
    with d m q Cons y p show ?thesis
      by (intro exI [of _ st']) (auto simp: holds_def q_repr_Some intro!: exI [of _ q'])
  qed
qed

lemma Remove_holds:
  assumes "holds st p xs"
  shows "\<exists>st'. RemoveFromQueue dealloc (\<lambda>y. y = x) st p = Some st' \<and> holds st' p (remove1 x xs) \<and>
           avail (mem st') + length (remove1 x xs) = avail (mem st) + length xs"
proof -
  from assms obtain qa ns where q: "q_repr extent st p (Some (qa, ns))" "map snd ns = xs"
    "\<forall>a\<in>set (qa # map fst ns). extent (mem st) a = 4096" and inv: "inv (mem st)" and p: "p = qa"
    by (elim holdsE)
  from RemoveFromQueue_refines [OF inv q(1), of "\<lambda>y. y = x"] obtain q' st' where
    r: "q_remove dealloc (\<lambda>y. y = x) (Some (qa, ns)) (mem st) = Some (q', mem st')"
    "RemoveFromQueue dealloc (\<lambda>y. y = x) st p = Some st'" "q_repr extent st' p q'" by blast
  have "distinct (blocks (Some (qa, ns)))" using q(1) by (simp add: q_repr_Some)
  from remove_chain_page [OF inv _ this, of "\<lambda>y. y = x"] q(3) r(1) have
    "inv (mem st')" "items q' = drop_first (\<lambda>y. y = x) xs"
    "\<forall>a\<in>set (blocks q'). extent (mem st') a = 4096"
    "avail (mem st') + length (items q') = avail (mem st) + length xs"
    using q(2) by auto
  moreover have "p \<noteq> NULL" using q(1) by (auto simp: q_repr_Some)
  ultimately show ?thesis
    using r(2,3) by (auto simp: holds_def drop_first_eq_remove1)
qed

lemma run_queue_fifo:
  assumes "holds st p xs" and "enqueues ops \<le> avail (mem st)"
  shows "\<exists>st' out xs'. run_queue alloc dealloc ops st p = Some (out, st') \<and>
           fifo_run ops xs = (out, xs') \<and> holds st' p xs' \<and>
           avail (mem st') + length xs' = avail (mem st) + length xs"
  using assms
proof (induction ops xs arbitrary: st rule: fifo_run.induct)
  case (2 x ops xs)
  then have "0 < avail (mem st)" by simp
  from Enqueue_holds [OF "2.prems"(1) this, of x] obtain st1 where
    s: "Enqueue alloc st p x = Some st1" "holds st1 p (if x = NULL then xs else xs @ [x])"
    "avail (mem st1) = avail (mem st) - (if x = NULL then 0 else 1)" by blast
  from "2.IH" [OF s(2)] s "2.prems"(2) show ?case by (auto split: if_splits)
next
  case (3 ops)
  from Dequeue_holds [OF "3.prems"(1)] obtain st1 where
    s: "Dequeue dealloc st p = Some (NULL, st1)" "holds st1 p []" "avail (mem st1) = avail (mem st)"
    by auto
  from "3.IH" [OF s(2)] s "3.prems"(2) show ?case by fastforce
next
  case (4 ops x xs)
  from Dequeue_holds [OF "4.prems"(1)] obtain st1 where
    s: "Dequeue dealloc st p = Some (x, st1)" "holds st1 p xs" "avail (mem st1) = avail (mem st) + 1"
    by auto
  from "4.IH" [OF s(2)] s "4.prems"(2) show ?case by fastforce
next
  case (5 x ops xs)
  from Remove_holds [OF "5.prems"(1), of x] obtain st1 where
    s: "RemoveFromQueue dealloc (\<lambda>y. y = x) st p = Some st1" "holds st1 p (remove1 x xs)"
    "avail (mem st1) + length (remove1 x xs) = avail (mem st) + length xs" by blast
  have "length (remove1 x xs) \<le> length xs" by (simp add: length_remove1)
  with "5.IH" [OF s(2)] s "5.prems"(2) show ?case by auto
qed auto

lemma NewQueue_holds:
  assumes "inv (mem st)" and "0 < avail (mem st)"
  shows "\<exists>st' p. NewQueue alloc st = (st', p) \<and> holds st' p [] \<and>
           avail (mem st') = avail (mem st) - 1"
proof -
  have "unat sizeof_QueueCDT \<le> 4096" by (simp add: sizeof_QueueCDT_def)
  from alloc_page [OF assms(1) this assms(2)] obtain m a where
    m: "alloc (mem st) sizeof_QueueCDT = (m, a)" "a \<noteq> NULL" "inv m" "avail m = avail (mem st) - 1"
    "extent m = (extent (mem st))(a := 4096)" by blast
  then show ?thesis
    by (auto simp: NewQueue_def holds_def q_repr_Some header_ok_def
        intro!: exI [of _ "Some (a, [])"])
qed

lemma FreeQueue_holds:
  assumes "holds st p xs"
  shows "\<exists>st'. FreeQueue dealloc st p = Some st' \<and> inv (mem st') \<and>
           avail (mem st') = avail (mem st) + length xs + 1"
proof -
  from assms obtain qa ns where q: "q_repr extent st p (Some (qa, ns))" "map snd ns = xs"
    "\<forall>a\<in>set (qa # map fst ns). extent (mem st) a = 4096" and inv: "inv (mem st)"
    by (elim holdsE)
  from FreeQueue_refines [OF inv q(1)] obtain st' where
    f: "FreeQueue dealloc st p = Some st'" "free_chain dealloc (Some (qa, ns)) (mem st) = Some (mem st')"
    "inv (mem st')" by blast
  have "distinct (blocks (Some (qa, ns)))" using q(1) by (simp add: q_repr_Some)
  from free_chain_page [OF inv this] q(3) f(2)
  have "avail (mem st') = avail (mem st) + length (qa # map fst ns)" by auto
  with f q(2) show ?thesis by auto
qed

end

section \<open>Properties\<close>



end
