(* ===== verification/DList.thy ===== *)
theory DList
  imports Chain
begin

text \<open>
  \<open>Kernel/lib/ADT/DoubleLinkedList/doubleLinkedList.c\<close>: the doubly linked list behind the process
  table, the lists of children and of reaped processes and the list of semaphores. As for the queue,
  the code over a store of nodes, then the list level its clients use, then the refinement between
  the two. The list level keeps the nodes from the head on; \<open>addToDoubleLinkedList\<close> inserts in front.
\<close>

section \<open>The code over a store\<close>

record node_t =
  elem :: u64
  nxt :: ptr
  prev :: ptr

record doubleLinkedListCDT =
  lhead :: ptr
  llength :: int

record 'm lstore =
  lmem :: 'm
  lnodes :: "ptr \<Rightarrow> node_t option"
  lists :: "ptr \<Rightarrow> doubleLinkedListCDT option"

definition sizeof_doubleLinkedListCDT :: u64 where "sizeof_doubleLinkedListCDT = 16"
definition sizeof_node_t :: u64 where "sizeof_node_t = 24"

definition newDoubleLinkedListADT ::
    "('m \<Rightarrow> u64 \<Rightarrow> 'm \<times> ptr) \<Rightarrow> 'm lstore \<Rightarrow> 'm lstore \<times> ptr" where
  "newDoubleLinkedListADT alloc st =
     (let (m, list) = alloc (lmem st) sizeof_doubleLinkedListCDT
      in if list = NULL then (st\<lparr>lmem := m\<rparr>, NULL)
         else (st\<lparr>lmem := m, lists := (lists st)(list \<mapsto> \<lparr>lhead = NULL, llength = 0\<rparr>)\<rparr>, list))"

partial_function (option) FreeDoubleLinkedList_loop ::
    "('m \<Rightarrow> ptr \<Rightarrow> 'm option) \<Rightarrow> (ptr \<Rightarrow> node_t option) \<Rightarrow> ptr \<Rightarrow> 'm \<Rightarrow> 'm option" where
  "FreeDoubleLinkedList_loop dealloc ns cur m =
     (if cur = NULL then Some m
      else do { n \<leftarrow> ns cur;
                m' \<leftarrow> dealloc m cur;
                FreeDoubleLinkedList_loop dealloc ns (nxt n) m' })"

definition FreeDoubleLinkedListCDT ::
    "('m \<Rightarrow> ptr \<Rightarrow> 'm option) \<Rightarrow> 'm lstore \<Rightarrow> ptr \<Rightarrow> 'm lstore option" where
  "FreeDoubleLinkedListCDT dealloc st list =
     (if list = NULL then Some st
      else do { c \<leftarrow> lists st list;
                m \<leftarrow> (if llength c > 0
                     then FreeDoubleLinkedList_loop dealloc (lnodes st) (lhead c) (lmem st)
                     else Some (lmem st));
                m' \<leftarrow> dealloc m list;
                Some (st\<lparr>lmem := m'\<rparr>) })"

text \<open>Here a failed allocation makes the call a silent no-op.\<close>

definition addToDoubleLinkedList ::
    "('m \<Rightarrow> u64 \<Rightarrow> 'm \<times> ptr) \<Rightarrow> 'm lstore \<Rightarrow> ptr \<Rightarrow> u64 \<Rightarrow> 'm lstore option" where
  "addToDoubleLinkedList alloc st list x =
     (if list = NULL then Some st
      else let (m, node) = alloc (lmem st) sizeof_node_t
           in if node = NULL then Some (st\<lparr>lmem := m\<rparr>)
              else do {
                c \<leftarrow> lists st list;
                let ns = (lnodes st)(node \<mapsto> \<lparr>elem = x, nxt = lhead c, prev = NULL\<rparr>);
                ns' \<leftarrow> (if lhead c = NULL then Some ns
                       else do { h \<leftarrow> ns (lhead c); Some (ns(lhead c \<mapsto> h\<lparr>prev := node\<rparr>)) });
                Some (st\<lparr>lmem := m, lnodes := ns',
                         lists := (lists st)(list \<mapsto>
                           c\<lparr>lhead := node, llength := llength c + 1\<rparr>)\<rparr>)
              })"

text \<open>
  The sorted insertion: \<open>insert_before\<close> and \<open>insert_last\<close> are the two branches that return from the
  search loop. The new node's links are written only there.
\<close>

definition insert_before ::
    "'m lstore \<Rightarrow> ptr \<Rightarrow> ptr \<Rightarrow> u64 \<Rightarrow> ptr \<Rightarrow> 'm lstore option" where
  "insert_before st list node x cur =
     do {
       c \<leftarrow> lists st list;
       n \<leftarrow> lnodes st cur;
       let ns = (lnodes st)(node \<mapsto> \<lparr>elem = x, nxt = cur, prev = prev n\<rparr>);
       (ns', c') \<leftarrow> (if prev n \<noteq> NULL
          then do { p \<leftarrow> ns (prev n); Some (ns(prev n \<mapsto> p\<lparr>nxt := node\<rparr>), c) }
          else Some (ns, c\<lparr>lhead := node\<rparr>));
       n' \<leftarrow> ns' cur;
       Some (st\<lparr>lnodes := ns'(cur \<mapsto> n'\<lparr>prev := node\<rparr>),
                lists := (lists st)(list \<mapsto> c'\<lparr>llength := llength c' + 1\<rparr>)\<rparr>)
     }"

definition insert_last ::
    "'m lstore \<Rightarrow> ptr \<Rightarrow> ptr \<Rightarrow> u64 \<Rightarrow> ptr \<Rightarrow> 'm lstore option" where
  "insert_last st list node x cur =
     do {
       c \<leftarrow> lists st list;
       let ns = (lnodes st)(node \<mapsto> \<lparr>elem = x, nxt = NULL, prev = cur\<rparr>);
       n \<leftarrow> ns cur;
       Some (st\<lparr>lnodes := ns(cur \<mapsto> n\<lparr>nxt := node\<rparr>),
                lists := (lists st)(list \<mapsto> c\<lparr>llength := llength c + 1\<rparr>)\<rparr>)
     }"

partial_function (option) addSorted_loop ::
    "(u64 \<Rightarrow> u64 \<Rightarrow> int) \<Rightarrow> 'm lstore \<Rightarrow> ptr \<Rightarrow> ptr \<Rightarrow> u64 \<Rightarrow> ptr \<Rightarrow> 'm lstore option" where
  "addSorted_loop compare st list node x cur =
     (if cur = NULL then Some st
      else do {
        n \<leftarrow> lnodes st cur;
        if compare x (elem n) < 0 then insert_before st list node x cur
        else if nxt n = NULL then insert_last st list node x cur
        else addSorted_loop compare st list node x (nxt n)
      })"

definition addToDoubleLinkedListSorted ::
    "('m \<Rightarrow> u64 \<Rightarrow> 'm \<times> ptr) \<Rightarrow> (u64 \<Rightarrow> u64 \<Rightarrow> int) \<Rightarrow> 'm lstore \<Rightarrow> ptr \<Rightarrow> u64
       \<Rightarrow> 'm lstore option" where
  "addToDoubleLinkedListSorted alloc compare st list x =
     (if list = NULL then Some st
      else let (m, node) = alloc (lmem st) sizeof_node_t; st = st\<lparr>lmem := m\<rparr>
           in if node = NULL then Some st
              else do {
                c \<leftarrow> lists st list;
                if lhead c = NULL
                then Some (st\<lparr>lnodes := (lnodes st)(node \<mapsto> \<lparr>elem = x, nxt = NULL, prev = NULL\<rparr>),
                              lists := (lists st)(list \<mapsto>
                                c\<lparr>lhead := node, llength := llength c + 1\<rparr>)\<rparr>)
                else addSorted_loop compare st list node x (lhead c)
              })"

partial_function (option) findInDoubleLinkedList_loop ::
    "(u64 \<Rightarrow> bool) \<Rightarrow> (ptr \<Rightarrow> node_t option) \<Rightarrow> ptr \<Rightarrow> u64 option" where
  "findInDoubleLinkedList_loop equals ns cur =
     (if cur = NULL then Some NULL
      else do { n \<leftarrow> ns cur;
                if equals (elem n) then Some (elem n)
                else findInDoubleLinkedList_loop equals ns (nxt n) })"

definition findInDoubleLinkedList ::
    "(u64 \<Rightarrow> bool) \<Rightarrow> 'm lstore \<Rightarrow> ptr \<Rightarrow> u64 option" where
  "findInDoubleLinkedList equals st list =
     (if list = NULL then Some NULL
      else do { c \<leftarrow> lists st list;
                findInDoubleLinkedList_loop equals (lnodes st) (lhead c) })"

definition unlink_cell ::
    "('m \<Rightarrow> ptr \<Rightarrow> 'm option) \<Rightarrow> 'm lstore \<Rightarrow> ptr \<Rightarrow> ptr \<Rightarrow> node_t \<Rightarrow> 'm lstore option" where
  "unlink_cell dealloc st list cur n =
     do {
       c \<leftarrow> lists st list;
       (ns, c') \<leftarrow> (if prev n \<noteq> NULL
          then do { p \<leftarrow> lnodes st (prev n);
                    Some ((lnodes st)(prev n \<mapsto> p\<lparr>nxt := nxt n\<rparr>), c) }
          else Some (lnodes st, c\<lparr>lhead := nxt n\<rparr>));
       ns' \<leftarrow> (if nxt n \<noteq> NULL
          then do { s \<leftarrow> ns (nxt n); Some (ns(nxt n \<mapsto> s\<lparr>prev := prev n\<rparr>)) }
          else Some ns);
       m \<leftarrow> dealloc (lmem st) cur;
       Some (st\<lparr>lmem := m, lnodes := ns',
                lists := (lists st)(list \<mapsto> c'\<lparr>llength := llength c' - 1\<rparr>)\<rparr>)
     }"

partial_function (option) removeFromDoubleLinkedList_loop ::
    "('m \<Rightarrow> ptr \<Rightarrow> 'm option) \<Rightarrow> (u64 \<Rightarrow> bool) \<Rightarrow> 'm lstore \<Rightarrow> ptr \<Rightarrow> ptr
       \<Rightarrow> 'm lstore option" where
  "removeFromDoubleLinkedList_loop dealloc equals st list cur =
     (if cur = NULL then Some st
      else do { n \<leftarrow> lnodes st cur;
                if equals (elem n) then unlink_cell dealloc st list cur n
                else removeFromDoubleLinkedList_loop dealloc equals st list (nxt n) })"

definition removeFromDoubleLinkedList ::
    "('m \<Rightarrow> ptr \<Rightarrow> 'm option) \<Rightarrow> (u64 \<Rightarrow> bool) \<Rightarrow> 'm lstore \<Rightarrow> ptr \<Rightarrow> 'm lstore option" where
  "removeFromDoubleLinkedList dealloc equals st list =
     (if list = NULL then Some st
      else do { c \<leftarrow> lists st list;
                removeFromDoubleLinkedList_loop dealloc equals st list (lhead c) })"

text \<open>These two do not check for a null list.\<close>

definition getDoubleLinkedListLength :: "'m lstore \<Rightarrow> ptr \<Rightarrow> int option" where
  "getDoubleLinkedListLength st list =
     (if list = NULL then None else map_option llength (lists st list))"

definition isListEmpty :: "'m lstore \<Rightarrow> ptr \<Rightarrow> bool option" where
  "isListEmpty st list =
     (if list = NULL then None else map_option (\<lambda>c. llength c = 0) (lists st list))"

section \<open>The list level\<close>

type_synonym dlist = chain

definition l_new :: "('m \<Rightarrow> u64 \<Rightarrow> 'm \<times> ptr) \<Rightarrow> 'm \<Rightarrow> dlist \<times> 'm" where
  "l_new alloc m =
     (let (m', a) = alloc m sizeof_doubleLinkedListCDT
      in if a = NULL then (None, m') else (Some (a, []), m'))"

definition l_add :: "('m \<Rightarrow> u64 \<Rightarrow> 'm \<times> ptr) \<Rightarrow> dlist \<Rightarrow> u64 \<Rightarrow> 'm \<Rightarrow> dlist \<times> 'm" where
  "l_add alloc l x m =
     (case l of None \<Rightarrow> (l, m)
      | Some (la, ns) \<Rightarrow>
          let (m', a) = alloc m sizeof_node_t
          in if a = NULL then (l, m') else (Some (la, (a, x) # ns), m'))"

fun insert_sorted :: "(u64 \<Rightarrow> u64 \<Rightarrow> int) \<Rightarrow> ptr \<times> u64 \<Rightarrow> (ptr \<times> u64) list \<Rightarrow> (ptr \<times> u64) list" where
  "insert_sorted cmp n [] = [n]"
| "insert_sorted cmp n (y # ys) =
     (if cmp (snd n) (snd y) < 0 then n # y # ys else y # insert_sorted cmp n ys)"

definition l_add_sorted ::
    "('m \<Rightarrow> u64 \<Rightarrow> 'm \<times> ptr) \<Rightarrow> (u64 \<Rightarrow> u64 \<Rightarrow> int) \<Rightarrow> dlist \<Rightarrow> u64 \<Rightarrow> 'm \<Rightarrow> dlist \<times> 'm" where
  "l_add_sorted alloc cmp l x m =
     (case l of None \<Rightarrow> (l, m)
      | Some (la, ns) \<Rightarrow>
          let (m', a) = alloc m sizeof_node_t
          in if a = NULL then (l, m') else (Some (la, insert_sorted cmp (a, x) ns), m'))"

abbreviation l_find :: "(u64 \<Rightarrow> bool) \<Rightarrow> dlist \<Rightarrow> u64" where
  "l_find \<equiv> find_chain"

abbreviation l_remove ::
    "('m \<Rightarrow> ptr \<Rightarrow> 'm option) \<Rightarrow> (u64 \<Rightarrow> bool) \<Rightarrow> dlist \<Rightarrow> 'm \<Rightarrow> (dlist \<times> 'm) option" where
  "l_remove \<equiv> remove_chain"

definition l_empty :: "dlist \<Rightarrow> bool option" where
  "l_empty l = (case l of None \<Rightarrow> None | Some (la, ns) \<Rightarrow> Some (ns = []))"

definition l_length :: "dlist \<Rightarrow> int option" where
  "l_length l = (case l of None \<Rightarrow> None | Some (la, ns) \<Rightarrow> Some (int (length ns)))"

abbreviation l_free :: "('m \<Rightarrow> ptr \<Rightarrow> 'm option) \<Rightarrow> dlist \<Rightarrow> 'm \<Rightarrow> 'm option" where
  "l_free \<equiv> free_chain"

subsection \<open>Contents after each operation\<close>

lemma l_add_items [adt]:
  "l_add alloc l x m = (l', m') \<Longrightarrow>
     (items l' = x # items l \<or> l' = l) \<and> (l' = None \<longleftrightarrow> l = None)"
  by (auto simp: l_add_def items_def Let_def split: option.splits prod.splits if_splits)

lemma l_empty_items [adt]: "l_empty l = Some b \<Longrightarrow> b \<longleftrightarrow> items l = []"
  by (auto simp: l_empty_def items_def split: option.splits)

lemma mset_insert_sorted: "set (insert_sorted cmp n xs) = insert n (set xs)"
  by (induction xs) auto

section \<open>Refinement\<close>

text \<open>
  \<open>dseg ns pv p xs lv z\<close>: the nodes of \<open>xs\<close> form a doubly linked chain from \<open>p\<close> to \<open>z\<close>; the node
  before the first is \<open>pv\<close>, and \<open>lv\<close> is the node before \<open>z\<close>.
\<close>

fun dseg :: "(ptr \<Rightarrow> node_t option) \<Rightarrow> ptr \<Rightarrow> ptr \<Rightarrow> (ptr \<times> u64) list \<Rightarrow> ptr \<Rightarrow> ptr \<Rightarrow> bool" where
  "dseg ns pv p [] lv z \<longleftrightarrow> p = z \<and> lv = pv"
| "dseg ns pv p ((a, x) # xs) lv z \<longleftrightarrow>
     p = a \<and> a \<noteq> NULL \<and>
     (\<exists>n. ns a = Some n \<and> elem n = x \<and> prev n = pv \<and> dseg ns a (nxt n) xs lv z)"

definition lheader_ok ::
    "doubleLinkedListCDT \<Rightarrow> (ptr \<Rightarrow> node_t option) \<Rightarrow> (ptr \<times> u64) list \<Rightarrow> bool" where
  "lheader_ok c ns xs \<longleftrightarrow>
     dseg ns NULL (lhead c) xs (last_addr xs) NULL \<and> llength c = int (length xs)"

definition l_repr :: "('m \<Rightarrow> ptr \<Rightarrow> nat) \<Rightarrow> 'm lstore \<Rightarrow> ptr \<Rightarrow> dlist \<Rightarrow> bool" where
  "l_repr ext st p l \<longleftrightarrow>
     (case l of None \<Rightarrow> p = NULL
      | Some (la, xs) \<Rightarrow>
          p = la \<and> la \<noteq> NULL \<and> distinct (la # map fst xs) \<and>
          (\<forall>a\<in>set (la # map fst xs). 0 < ext (lmem st) a) \<and>
          (\<exists>c. lists st la = Some c \<and> lheader_ok c (lnodes st) xs))"

lemma l_repr_Some:
  "l_repr ext st p (Some (la, xs)) \<longleftrightarrow>
     p = la \<and> la \<noteq> NULL \<and> distinct (la # map fst xs) \<and>
     (\<forall>a\<in>set (la # map fst xs). 0 < ext (lmem st) a) \<and>
     (\<exists>c. lists st la = Some c \<and> lheader_ok c (lnodes st) xs)"
  by (simp add: l_repr_def)

lemma dseg_append:
  "dseg ns pv p (xs @ ys) lv z \<longleftrightarrow> (\<exists>m w. dseg ns pv p xs m w \<and> dseg ns m w ys lv z)"
proof (induction xs arbitrary: pv p)
  case (Cons a xs)
  then show ?case by (cases a) (simp, blast)
qed simp

lemma dseg_upd [simp]:
  "b \<notin> fst ` set xs \<Longrightarrow> dseg (ns(b := v)) pv p xs lv z = dseg ns pv p xs lv z"
  by (induction xs arbitrary: pv p) auto

lemma dseg_not_null: "dseg ns pv p xs lv z \<Longrightarrow> NULL \<notin> fst ` set xs"
proof (induction xs arbitrary: pv p)
  case (Cons ax xs)
  obtain a x where ax: "ax = (a, x)" by force
  with Cons.prems obtain w where "a \<noteq> NULL" "dseg ns a w xs lv z" by auto
  with Cons.IH ax show ?case by (simp del: dseg.simps)
qed simp

lemma dseg_hd: "dseg ns pv p xs lv z \<Longrightarrow> p = (if xs = [] then z else fst (hd xs))"
  by (cases xs) auto

lemma dseg_last:
  "dseg ns pv p xs lv z \<Longrightarrow> lv = (if xs = [] then pv else last_addr xs)"
proof (induction xs arbitrary: pv p)
  case (Cons ax xs)
  obtain a x where ax: "ax = (a, x)" by force
  with Cons.prems obtain w where "dseg ns a w xs lv z" by auto
  with Cons.IH ax show ?case by (auto simp: last_addr_def)
qed simp

text \<open>Redirecting the last node's successor, and the first node's predecessor.\<close>

lemma relink_tail:
  assumes "dseg ns pv p us lu a" and "us \<noteq> []" and "distinct (map fst us)" and "ns lu = Some n"
  shows "dseg (ns(lu \<mapsto> n\<lparr>nxt := w\<rparr>)) pv p us lu w"
proof -
  from assms(2) obtain vs ty where us: "us = vs @ [ty]" by (cases us rule: rev_cases) auto
  obtain t y where ty: "ty = (t, y)" by force
  have lu: "lu = t" using dseg_last [OF assms(1)] us ty by simp
  from assms(1) us ty obtain m where
    "dseg ns pv p vs m t" "t \<noteq> NULL" "elem n = y" "prev n = m"
    using assms(4) lu by (auto simp: dseg_append)
  moreover have "t \<notin> fst ` set vs" using assms(3) us ty by auto
  ultimately show ?thesis using us ty lu by (auto simp: dseg_append)
qed

lemma relink_head:
  assumes "dseg ns pv p vs lv z" and "vs \<noteq> []" and "distinct (map fst vs)" and "ns p = Some n"
  shows "dseg (ns(p \<mapsto> n\<lparr>prev := pv'\<rparr>)) pv' p vs lv z"
proof -
  from assms(2) obtain b y ws where vs: "vs = (b, y) # ws" by (cases vs) auto
  with assms(1,4) have "p = b" "b \<noteq> NULL" "elem n = y" "dseg ns b (nxt n) ws lv z" by auto
  moreover have "b \<notin> fst ` set ws" using assms(3) vs by auto
  ultimately show ?thesis using vs by auto
qed

lemma dseg_first_node:
  "dseg ns pv p xs lv z \<Longrightarrow> xs \<noteq> [] \<Longrightarrow> \<exists>n. ns p = Some n \<and> prev n = pv \<and> p \<noteq> NULL"
  by (cases xs) auto

lemma dseg_last_node:
  assumes "dseg ns pv p xs lv z" and "xs \<noteq> []"
  shows "\<exists>n. ns lv = Some n \<and> nxt n = z \<and> lv \<noteq> NULL"
proof -
  from assms(2) obtain vs ty where us: "xs = vs @ [ty]" by (cases xs rule: rev_cases) auto
  obtain t y where ty: "ty = (t, y)" by force
  have "lv = t" using dseg_last [OF assms(1)] us ty by simp
  then show ?thesis using assms(1) us ty by (auto simp: dseg_append)
qed

text \<open>
  \<open>splice\<close>: connecting two chains that end and start at given nodes, the step all the link updates of
  the code come down to. \<open>link\<close> is the pair of conditional writes.
\<close>

definition link :: "(ptr \<Rightarrow> node_t option) \<Rightarrow> ptr \<Rightarrow> ptr \<Rightarrow> (ptr \<Rightarrow> node_t option)" where
  "link ns lu w =
     (let ns1 = (if lu = NULL then ns else ns(lu \<mapsto> (the (ns lu))\<lparr>nxt := w\<rparr>))
      in if w = NULL then ns1 else ns1(w \<mapsto> (the (ns1 w))\<lparr>prev := lu\<rparr>))"

lemma splice:
  assumes u: "dseg ns NULL p us lu a" and v: "dseg ns b w vs lv NULL"
    and d: "distinct (map fst (us @ vs))"
  shows "dseg (link ns lu w) NULL (if us = [] then w else p) (us @ vs) (last_addr (us @ vs)) NULL"
proof -
  have lu: "lu = last_addr us" using dseg_last [OF u] by (simp add: last_addr_def)
  have w: "w = (if vs = [] then NULL else fst (hd vs))" using dseg_hd [OF v] .
  have lu0: "lu = NULL \<longleftrightarrow> us = []" using lu dseg_last_node [OF u] by auto
  have w0: "w = NULL \<longleftrightarrow> vs = []" using w dseg_first_node [OF v] by auto
  let ?ns1 = "if lu = NULL then ns else ns(lu \<mapsto> (the (ns lu))\<lparr>nxt := w\<rparr>)"
  have u1: "dseg ?ns1 NULL (if us = [] then w else p) us lu w"
  proof (cases "us = []")
    case True
    then show ?thesis using lu by simp
  next
    case False
    then show ?thesis
      using relink_tail [OF u False] dseg_last_node [OF u False] d lu0 by auto
  qed
  have v1: "dseg ?ns1 b w vs lv NULL"
  proof (cases "us = []")
    case True
    then show ?thesis using lu0 v by simp
  next
    case False
    then have "lu \<in> fst ` set us" using lu by (auto simp: last_addr_def)
    with d have "lu \<notin> fst ` set vs" by auto
    with lu0 False v show ?thesis by simp
  qed
  show ?thesis
  proof (cases "vs = []")
    case True
    have ll: "last_addr us = lu" and uv: "us @ vs = us" and wn: "w = NULL"
      using lu True w0 by simp_all
    from u1 show ?thesis unfolding uv ll link_def Let_def wn by simp
  next
    case False
    have lvv: "lv = last_addr (us @ vs)" using dseg_last [OF v] False by (simp add: last_addr_def)
    have "w \<in> fst ` set vs" using w False by auto
    with d have nin: "w \<notin> fst ` set us" by auto
    obtain n where n: "?ns1 w = Some n" using dseg_first_node [OF v1 False] by blast
    have "dseg (?ns1(w \<mapsto> n\<lparr>prev := lu\<rparr>)) lu w vs lv NULL"
      by (rule relink_head [OF v1 False _ n]) (use d in auto)
    moreover have "dseg (?ns1(w \<mapsto> n\<lparr>prev := lu\<rparr>)) NULL (if us = [] then w else p) us lu w"
      using u1 nin by simp
    ultimately have "dseg (?ns1(w \<mapsto> n\<lparr>prev := lu\<rparr>)) NULL (if us = [] then w else p)
        (us @ vs) lv NULL" unfolding dseg_append by blast
    with n w0 False lvv show ?thesis by (simp add: link_def Let_def)
  qed
qed

text \<open>\<open>link_in\<close>: a new node between two chains, the three writes of the sorted insertion.\<close>

definition link_in ::
    "(ptr \<Rightarrow> node_t option) \<Rightarrow> ptr \<Rightarrow> u64 \<Rightarrow> ptr \<Rightarrow> ptr \<Rightarrow> (ptr \<Rightarrow> node_t option)" where
  "link_in ns a x lu w =
     (let ns1 = ns(a \<mapsto> \<lparr>elem = x, nxt = w, prev = lu\<rparr>);
          ns2 = (if lu = NULL then ns1 else ns1(lu \<mapsto> (the (ns1 lu))\<lparr>nxt := a\<rparr>))
      in if w = NULL then ns2 else ns2(w \<mapsto> (the (ns2 w))\<lparr>prev := a\<rparr>))"

lemma splice_in:
  assumes u: "dseg ns NULL h us lu w" and v: "dseg ns lu w vs lv NULL"
    and d: "distinct (a # map fst (us @ vs))" and a: "a \<noteq> NULL"
  shows "dseg (link_in ns a x lu w) NULL (if us = [] then a else h) (us @ (a, x) # vs)
           (last_addr (us @ (a, x) # vs)) NULL"
proof -
  have lu0: "lu = NULL \<longleftrightarrow> us = []" using dseg_last [OF u] dseg_last_node [OF u] by auto
  have lu_in: "us \<noteq> [] \<Longrightarrow> lu \<in> fst ` set us"
    using dseg_last [OF u] by (auto simp: last_addr_def)
  have w0: "w = NULL \<longleftrightarrow> vs = []" using dseg_hd [OF v] dseg_first_node [OF v] by auto
  have w_in: "vs \<noteq> [] \<Longrightarrow> w \<in> fst ` set vs" using dseg_hd [OF v] by (cases vs) auto
  let ?ns1 = "ns(a \<mapsto> \<lparr>elem = x, nxt = w, prev = lu\<rparr>)"
  let ?ns2 = "if lu = NULL then ?ns1 else ?ns1(lu \<mapsto> (the (?ns1 lu))\<lparr>nxt := a\<rparr>)"
  have u1: "dseg ?ns1 NULL h us lu w" and v1: "dseg ?ns1 lu w vs lv NULL" using u v d by auto
  have u2: "dseg ?ns2 NULL (if us = [] then a else h) us lu a"
  proof (cases "us = []")
    case True
    then show ?thesis using lu0 u by simp
  next
    case False
    then show ?thesis
      using relink_tail [OF u1 False] dseg_last_node [OF u1 False] d lu0 by auto
  qed
  have disj: "fst ` set us \<inter> fst ` set vs = {}" "a \<notin> fst ` set us" "a \<notin> fst ` set vs" using d by auto
  have ne: "a \<noteq> lu" "a \<noteq> w"
    using disj(2,3) a lu0 w0 lu_in w_in by (cases "us = []"; cases "vs = []"; metis)+
  have ne3: "us \<noteq> [] \<Longrightarrow> lu \<notin> fst ` set vs" and ne4: "vs \<noteq> [] \<Longrightarrow> w \<notin> fst ` set us"
    using disj(1) lu_in w_in by blast+
  have v2: "dseg ?ns2 lu w vs lv NULL" using v1 ne3 lu0 by auto
  have n2: "?ns2 a = Some \<lparr>elem = x, nxt = w, prev = lu\<rparr>" using ne(1) by simp
  have l: "link_in ns a x lu w = (if w = NULL then ?ns2 else ?ns2(w \<mapsto> (the (?ns2 w))\<lparr>prev := a\<rparr>))"
    by (simp add: link_in_def Let_def)
  obtain ns2 where ns2: "dseg ns2 NULL (if us = [] then a else h) us lu a" "dseg ns2 lu w vs lv NULL"
    "ns2 a = Some \<lparr>elem = x, nxt = w, prev = lu\<rparr>"
    "link_in ns a x lu w = (if w = NULL then ns2 else ns2(w \<mapsto> (the (ns2 w))\<lparr>prev := a\<rparr>))"
    using u2 v2 n2 l by blast
  show ?thesis
  proof (cases "vs = []")
    case True
    then show ?thesis using ns2 a w0 by (auto simp: dseg_append)
  next
    case False
    obtain n where n: "ns2 w = Some n" using dseg_first_node [OF ns2(2) False] by blast
    let ?ns3 = "ns2(w \<mapsto> n\<lparr>prev := a\<rparr>)"
    have dv: "distinct (map fst vs)" using d by simp
    have "dseg ?ns3 a w vs lv NULL" by (rule relink_head [OF ns2(2) False dv n])
    moreover have "?ns3 a = Some \<lparr>elem = x, nxt = w, prev = lu\<rparr>" using ns2(3) ne(2) by simp
    ultimately have "dseg ?ns3 lu a ((a, x) # vs) lv NULL" using a by simp
    moreover have "dseg ?ns3 NULL (if us = [] then a else h) us lu a"
      using ns2(1) ne4 False by simp
    ultimately have "dseg ?ns3 NULL (if us = [] then a else h) (us @ (a, x) # vs) lv NULL"
      unfolding dseg_append by (intro exI conjI)
    moreover have "lv = last_addr (us @ (a, x) # vs)"
      using dseg_last [OF v] False by (simp add: last_addr_def)
    ultimately show ?thesis using ns2(4) n w0 False by simp
  qed
qed

lemma insert_sorted_split:
  "insert_sorted cmp n xs =
     takeWhile (\<lambda>y. \<not> cmp (snd n) (snd y) < 0) xs @ n # dropWhile (\<lambda>y. \<not> cmp (snd n) (snd y) < 0) xs"
  by (induction xs) auto

context allocator
begin

lemma newDoubleLinkedListADT_refines:
  assumes "inv (lmem st)" and "newDoubleLinkedListADT alloc st = (st', p)"
    and "l_new alloc (lmem st) = (l, m')"
  shows "lmem st' = m' \<and> inv m' \<and> l_repr extent st' p l"
proof -
  obtain m a where al: "alloc (lmem st) sizeof_doubleLinkedListCDT = (m, a)" by force
  show ?thesis
    using assms(2,3) alloc_inv [OF assms(1) al] alloc_size [OF assms(1) al]
    by (auto simp: newDoubleLinkedListADT_def l_new_def al l_repr_def lheader_ok_def
        split: if_splits)
qed

lemma findInDoubleLinkedList_loop_eq:
  "dseg ns pv p xs lv NULL \<Longrightarrow>
     findInDoubleLinkedList_loop P ns p
       = Some (case find P (map snd xs) of None \<Rightarrow> NULL | Some x \<Rightarrow> x)"
  by (induction xs arbitrary: pv p) (auto simp: findInDoubleLinkedList_loop.simps [of P ns])

lemma findInDoubleLinkedList_refines:
  "l_repr extent st p l \<Longrightarrow> findInDoubleLinkedList P st p = Some (l_find P l)"
  by (auto simp: findInDoubleLinkedList_def find_chain_def l_repr_def lheader_ok_def
      findInDoubleLinkedList_loop_eq split: option.splits prod.splits)

lemma isListEmpty_refines:
  "l_repr extent st p l \<Longrightarrow> isListEmpty st p = l_empty l \<and> getDoubleLinkedListLength st p = l_length l"
  by (auto simp: isListEmpty_def getDoubleLinkedListLength_def l_empty_def l_length_def l_repr_def
      lheader_ok_def split: option.splits prod.splits)

lemma addToDoubleLinkedList_refines:
  assumes inv: "inv (lmem st)" and r: "l_repr extent st p l"
    and ad: "l_add alloc l x (lmem st) = (l', m')"
  shows "\<exists>st'. addToDoubleLinkedList alloc st p x = Some st' \<and> lmem st' = m' \<and> inv m'
           \<and> l_repr extent st' p l'"
proof (cases l)
  case None
  with r inv ad show ?thesis by (simp add: l_repr_def l_add_def addToDoubleLinkedList_def)
next
  case (Some pr)
  obtain la xs where l: "l = Some (la, xs)" using Some by (cases pr) auto
  obtain m a where al: "alloc (lmem st) sizeof_node_t = (m, a)" by force
  from r l obtain c where c: "lists st la = Some c" "lheader_ok c (lnodes st) xs"
    and p: "p = la" "la \<noteq> NULL" and d: "distinct (la # map fst xs)"
    and live: "\<forall>b\<in>set (la # map fst xs). 0 < extent (lmem st) b"
    by (auto simp: l_repr_Some)
  show ?thesis
  proof (cases "a = NULL")
    case True
    with al alloc_null [OF inv] have "m = lmem st" by blast
    with True l p r inv al ad show ?thesis by (auto simp: l_add_def addToDoubleLinkedList_def)
  next
    case False
    have fresh: "a \<notin> set (la # map fst xs)"
      using alloc_fresh [OF inv al] live False by auto
    have live': "\<forall>b\<in>set (la # map fst ((a, x) # xs)). 0 < extent m b"
      using alloc_keeps_live [OF inv al] live alloc_size [OF inv al] False by auto
    have d': "distinct (la # map fst ((a, x) # xs))" using d fresh by auto
    have v: "dseg (lnodes st) NULL (lhead c) xs (last_addr xs) NULL"
      using c(2) by (simp add: lheader_ok_def)
    let ?ns = "(lnodes st)(a \<mapsto> \<lparr>elem = x, nxt = lhead c, prev = NULL\<rparr>)"
    have v': "dseg ?ns NULL (lhead c) xs (last_addr xs) NULL" using v fresh by auto
    have h0: "lhead c = NULL \<longleftrightarrow> xs = []"
      using dseg_hd [OF v] dseg_first_node [OF v] by auto
    have res: "l' = Some (la, (a, x) # xs)" "m' = m" using ad l al False by (auto simp: l_add_def)
    show ?thesis
    proof (cases "xs = []")
      case True
      with h0 False p c al d' live' alloc_inv [OF inv al] v' res show ?thesis
        by (simp add: addToDoubleLinkedList_def l_repr_Some lheader_ok_def last_addr_Cons)
    next
      case nonempty: False
      obtain n where n: "?ns (lhead c) = Some n" using dseg_first_node [OF v' nonempty] by blast
      have "lhead c \<noteq> a" using dseg_hd [OF v] nonempty fresh by auto
      moreover have "dseg (?ns(lhead c \<mapsto> n\<lparr>prev := a\<rparr>)) a (lhead c) xs (last_addr xs) NULL"
        by (rule relink_head [OF v' nonempty _ n]) (use d in auto)
      ultimately show ?thesis
        using nonempty h0 False p c al d' live' alloc_inv [OF inv al] n res
        by (simp add: addToDoubleLinkedList_def l_repr_Some lheader_ok_def last_addr_Cons)
    qed
  qed
qed

lemma removeFromDoubleLinkedList_loop_eq:
  assumes "dseg (lnodes st) pv cur ys lv NULL"
  shows "removeFromDoubleLinkedList_loop dealloc P st p cur =
     (case find (\<lambda>n. P (snd n)) ys of None \<Rightarrow> Some st
      | Some (a, x) \<Rightarrow> unlink_cell dealloc st p a (the (lnodes st a)))"
  using assms
proof (induction ys arbitrary: pv cur)
  case Nil
  then show ?case by (simp add: removeFromDoubleLinkedList_loop.simps)
next
  case (Cons y ys)
  obtain a x where y: "y = (a, x)" by force
  with Cons.prems obtain n where "cur = a" "a \<noteq> NULL" "lnodes st a = Some n" "elem n = x"
    "dseg (lnodes st) a (nxt n) ys lv NULL" by auto
  with y Cons.IH show ?case
    by (simp add: removeFromDoubleLinkedList_loop.simps [of dealloc P st p])
qed

lemma unlink_cell_eq:
  assumes d: "distinct (map fst (us @ (a, x) # vs))"
    and s: "dseg (lnodes st) NULL h (us @ (a, x) # vs) lv NULL"
    and n: "lnodes st a = Some n" and c: "lists st la = Some c" and h: "h = lhead c"
    and m: "dealloc (lmem st) a = Some m"
  shows "unlink_cell dealloc st la a n = Some (st\<lparr>lmem := m,
           lnodes := link (lnodes st) (prev n) (nxt n),
           lists := (lists st)(la \<mapsto> c\<lparr>lhead := (if us = [] then nxt n else h),
                                     llength := llength c - 1\<rparr>)\<rparr>)"
proof -
  from s n obtain lu where u: "dseg (lnodes st) NULL h us lu a" and v: "dseg (lnodes st) a (nxt n) vs lv NULL"
    and pn: "prev n = lu" by (auto simp: dseg_append)
  have lu: "lu = NULL \<longleftrightarrow> us = []"
    using dseg_last [OF u] dseg_last_node [OF u] by auto
  have pnode: "lu \<noteq> NULL \<Longrightarrow> \<exists>q. lnodes st lu = Some q"
    using dseg_last_node [OF u] lu by auto
  have w: "nxt n = NULL \<longleftrightarrow> vs = []"
    using dseg_hd [OF v] dseg_first_node [OF v] by auto
  have snode: "nxt n \<noteq> NULL \<Longrightarrow> \<exists>q. lnodes st (nxt n) = Some q"
    using dseg_first_node [OF v] w by auto
  show ?thesis
    using c m h pn lu pnode snode
    by (auto simp: unlink_cell_def link_def Let_def)
qed

lemma removeFromDoubleLinkedList_refines:
  assumes inv: "inv (lmem st)" and r: "l_repr extent st p l"
  shows "\<exists>l' m' st'. l_remove dealloc P l (lmem st) = Some (l', m')
           \<and> removeFromDoubleLinkedList dealloc P st p = Some st' \<and> lmem st' = m' \<and> inv m'
           \<and> l_repr extent st' p l'"
proof (cases l)
  case None
  with r inv show ?thesis by (simp add: l_repr_def remove_chain_def removeFromDoubleLinkedList_def)
next
  case (Some pr)
  obtain la xs where l: "l = Some (la, xs)" using Some by (cases pr) auto
  from r l obtain c where c: "lists st la = Some c" "lheader_ok c (lnodes st) xs"
    and p: "p = la" "la \<noteq> NULL" and d: "distinct (la # map fst xs)"
    and live: "\<forall>b\<in>set (la # map fst xs). 0 < extent (lmem st) b"
    by (auto simp: l_repr_Some)
  let ?Q = "\<lambda>n. P (snd n)"
  have s: "dseg (lnodes st) NULL (lhead c) xs (last_addr xs) NULL"
    using c(2) by (simp add: lheader_ok_def)
  have loop: "removeFromDoubleLinkedList dealloc P st p =
     (case find ?Q xs of None \<Rightarrow> Some st
      | Some (a, x) \<Rightarrow> unlink_cell dealloc st la a (the (lnodes st a)))"
    using c p removeFromDoubleLinkedList_loop_eq [OF s, of P la]
    by (simp add: removeFromDoubleLinkedList_def)
  show ?thesis
  proof (cases "find ?Q xs")
    case None
    with loop l r inv show ?thesis by (simp add: remove_chain_def)
  next
    case found: (Some ax)
    obtain a x where ax: "ax = (a, x)" by force
    from drop_first_split [OF found] ax obtain us vs where
      xs: "xs = us @ (a, x) # vs" "drop_first ?Q xs = us @ vs" by auto
    from dealloc_live [OF inv, of a] live xs(1) obtain m where
      m: "dealloc (lmem st) a = Some m" "inv m" "extent m = (extent (lmem st))(a := 0)" by auto
    from s xs(1) obtain n lu where n: "lnodes st a = Some n" "prev n = lu"
      and u: "dseg (lnodes st) NULL (lhead c) us lu a"
      and v: "dseg (lnodes st) a (nxt n) vs (last_addr xs) NULL"
      by (auto simp: dseg_append)
    have live': "\<forall>b\<in>set (la # map fst (us @ vs)). 0 < extent m b"
      using live d m(3) xs(1) by auto
    have d': "distinct (la # map fst (us @ vs))" using d xs(1) by auto
    have s': "dseg (link (lnodes st) lu (nxt n)) NULL (if us = [] then nxt n else lhead c)
                (us @ vs) (last_addr (us @ vs)) NULL"
      by (rule splice [OF u v]) (use d' in auto)
    have rem: "l_remove dealloc P l (lmem st) = Some (Some (la, us @ vs), m)"
      using l found ax m(1) xs(2) by (simp add: remove_chain_def)
    have "unlink_cell dealloc st la a n = Some (st\<lparr>lmem := m,
           lnodes := link (lnodes st) (prev n) (nxt n),
           lists := (lists st)(la \<mapsto> c\<lparr>lhead := (if us = [] then nxt n else lhead c),
                                     llength := llength c - 1\<rparr>)\<rparr>)"
      by (rule unlink_cell_eq [OF _ _ n(1) c(1) refl m(1)]) (use d xs(1) s in auto)
    with rem loop found ax p n m(2) live' d' s' c(2) xs(1) show ?thesis
      by (auto simp: l_repr_Some lheader_ok_def)
  qed
qed

lemma FreeDoubleLinkedList_loop_eq:
  "dseg ns pv p xs lv NULL \<Longrightarrow> FreeDoubleLinkedList_loop dealloc ns p m = free_nodes dealloc xs m"
proof (induction xs arbitrary: pv p m)
  case Nil
  then show ?case by (simp add: FreeDoubleLinkedList_loop.simps)
next
  case (Cons ax xs)
  then show ?case
    by (cases ax)
      (auto simp: FreeDoubleLinkedList_loop.simps [of dealloc ns p m] split: Option.bind_splits)
qed

lemma FreeDoubleLinkedListCDT_refines:
  assumes "inv (lmem st)" and "l_repr extent st p l"
  shows "\<exists>st'. FreeDoubleLinkedListCDT dealloc st p = Some st'
           \<and> l_free dealloc l (lmem st) = Some (lmem st')
           \<and> inv (lmem st') \<and> (\<forall>a\<in>set (blocks l). extent (lmem st') a = 0)"
proof -
  have "distinct (blocks l)" "\<forall>a\<in>set (blocks l). 0 < extent (lmem st) a"
    using assms(2) by (auto simp: l_repr_def split: option.splits)
  from free_chain_live [OF assms(1) this] obtain m where
    m: "l_free dealloc l (lmem st) = Some m" "inv m" "\<forall>a\<in>set (blocks l). extent m a = 0" by auto
  have "FreeDoubleLinkedListCDT dealloc st p = Some (st\<lparr>lmem := m\<rparr>)"
  proof (cases l)
    case None
    with m assms(2) show ?thesis by (simp add: FreeDoubleLinkedListCDT_def l_repr_def free_chain_def)
  next
    case (Some pr)
    obtain la xs where "pr = (la, xs)" by force
    with Some m(1) assms(2) show ?thesis
      by (auto simp: FreeDoubleLinkedListCDT_def l_repr_Some free_chain_def lheader_ok_def
          FreeDoubleLinkedList_loop_eq Option.bind_eq_Some_conv)
  qed
  with m show ?thesis by auto
qed

lemma addSorted_loop_eq:
  assumes "dseg (lnodes st) pv cur ys lv NULL" and "ys \<noteq> []"
  shows "addSorted_loop cmp st la a x cur =
     (case dropWhile (\<lambda>y. \<not> cmp x (snd y) < 0) ys of
        [] \<Rightarrow> insert_last st la a x (last_addr ys)
      | (b, y) # vs \<Rightarrow> insert_before st la a x b)"
  using assms
proof (induction ys arbitrary: pv cur)
  case Nil
  then show ?case by simp
next
  case (Cons z ys)
  obtain b y where z: "z = (b, y)" by force
  with Cons.prems(1) obtain n where n: "cur = b" "b \<noteq> NULL" "lnodes st b = Some n" "elem n = y"
    "dseg (lnodes st) b (nxt n) ys lv NULL" by auto
  have nx: "nxt n = NULL \<longleftrightarrow> ys = []"
    using dseg_hd [OF n(5)] dseg_first_node [OF n(5)] by auto
  show ?case
  proof (cases "ys = []")
    case True
    with n z nx show ?thesis by (simp add: addSorted_loop.simps [of cmp st] last_addr_def)
  next
    case False
    then have la: "last_addr (z # ys) = last_addr ys" by (simp add: last_addr_def)
    show ?thesis unfolding la
      using n z nx False Cons.IH [OF n(5) False]
      by (simp add: addSorted_loop.simps [of cmp st la a x b])
  qed
qed

lemma addToDoubleLinkedListSorted_refines:
  assumes inv: "inv (lmem st)" and r: "l_repr extent st p l"
    and ad: "l_add_sorted alloc cmp l x (lmem st) = (l', m')"
  shows "\<exists>st'. addToDoubleLinkedListSorted alloc cmp st p x = Some st' \<and> lmem st' = m' \<and> inv m'
           \<and> l_repr extent st' p l'"
proof (cases l)
  case None
  with r inv ad show ?thesis
    by (simp add: l_repr_def l_add_sorted_def addToDoubleLinkedListSorted_def)
next
  case (Some pr)
  obtain la xs where l: "l = Some (la, xs)" using Some by (cases pr) auto
  obtain m a where al: "alloc (lmem st) sizeof_node_t = (m, a)" by force
  from r l obtain c where c: "lists st la = Some c" "lheader_ok c (lnodes st) xs"
    and p: "p = la" "la \<noteq> NULL" and d: "distinct (la # map fst xs)"
    and live: "\<forall>b\<in>set (la # map fst xs). 0 < extent (lmem st) b"
    by (auto simp: l_repr_Some)
  show ?thesis
  proof (cases "a = NULL")
    case True
    with al alloc_null [OF inv] have "m = lmem st" by blast
    with True l p r inv al ad show ?thesis
      by (auto simp: l_add_sorted_def addToDoubleLinkedListSorted_def)
  next
    case False
    have fresh: "a \<notin> set (la # map fst xs)"
      using alloc_fresh [OF inv al] live False by auto
    let ?T = "\<lambda>y. \<not> cmp x (snd y) < 0"
    define us where "us = takeWhile ?T xs"
    define vs where "vs = dropWhile ?T xs"
    have xs: "xs = us @ vs" by (simp add: us_def vs_def)
    have live': "\<forall>b\<in>set (la # map fst (us @ (a, x) # vs)). 0 < extent m b"
      using alloc_keeps_live [OF inv al] live alloc_size [OF inv al] False xs by auto
    have d': "distinct (la # map fst (us @ (a, x) # vs))" using d fresh xs by auto
    have res: "l' = Some (la, us @ (a, x) # vs)" "m' = m"
      using ad l al False insert_sorted_split [of cmp "(a, x)" xs]
      by (auto simp: l_add_sorted_def us_def vs_def)
    have s: "dseg (lnodes st) NULL (lhead c) (us @ vs) (last_addr xs) NULL"
      using c(2) xs by (simp add: lheader_ok_def)
    then obtain lu w where u: "dseg (lnodes st) NULL (lhead c) us lu w"
      and v: "dseg (lnodes st) lu w vs (last_addr xs) NULL" by (auto simp: dseg_append)
    have s': "dseg (link_in (lnodes st) a x lu w) NULL (if us = [] then a else lhead c)
                (us @ (a, x) # vs) (last_addr (us @ (a, x) # vs)) NULL"
      by (rule splice_in [OF u v _ False]) (use d fresh xs in auto)
    have lu0: "lu = NULL \<longleftrightarrow> us = []" using dseg_last [OF u] dseg_last_node [OF u] by auto
    have w0: "w = NULL \<longleftrightarrow> vs = []" using dseg_hd [OF v] dseg_first_node [OF v] by auto
    have ne: "a \<noteq> lu" "a \<noteq> w"
      using dseg_last [OF u] dseg_hd [OF v] fresh xs False
      by (auto simp: last_addr_def split: if_splits)
    have "addToDoubleLinkedListSorted alloc cmp st p x =
        Some (st\<lparr>lmem := m, lnodes := link_in (lnodes st) a x lu w,
                 lists := (lists st)(la \<mapsto>
                   c\<lparr>lhead := (if us = [] then a else lhead c), llength := llength c + 1\<rparr>)\<rparr>)"
    proof (cases "xs = []")
      case True
      then have "lhead c = NULL" "us = []" "vs = []" "lu = NULL" "w = NULL"
        using s xs u v by auto
      with p c(1) al False show ?thesis
        by (simp add: addToDoubleLinkedListSorted_def link_in_def)
    next
      case nonempty: False
      have h0: "lhead c \<noteq> NULL" using dseg_first_node [OF s] nonempty xs by auto
      have lp: "addToDoubleLinkedListSorted alloc cmp st p x =
          (case vs of [] \<Rightarrow> insert_last (st\<lparr>lmem := m\<rparr>) la a x (last_addr xs)
           | (b, y) # ws \<Rightarrow> insert_before (st\<lparr>lmem := m\<rparr>) la a x b)"
      proof -
        have "dseg (lnodes (st\<lparr>lmem := m\<rparr>)) NULL (lhead c) xs (last_addr xs) NULL"
          using c(2) by (simp add: lheader_ok_def)
        from addSorted_loop_eq [OF this nonempty, of cmp la a x] show ?thesis
          using p c(1) al False h0 by (simp add: addToDoubleLinkedListSorted_def vs_def Let_def)
      qed
      show ?thesis
      proof (cases "vs = []")
        case True
        then have "us \<noteq> []" "lu = last_addr xs" "w = NULL"
          using nonempty xs v w0 by auto
        moreover obtain n where "lnodes st lu = Some n"
          using dseg_last_node [OF u \<open>us \<noteq> []\<close>] by blast
        ultimately show ?thesis
          using lp True c(1) ne lu0 by (simp add: insert_last_def link_in_def Let_def)
      next
        case vne: False
        obtain y ws where vs: "vs = (w, y) # ws" using dseg_hd [OF v] vne by (cases vs) auto
        obtain n where n: "lnodes st w = Some n" "prev n = lu" "w \<noteq> NULL"
          using dseg_first_node [OF v vne] by blast
        show ?thesis
        proof (cases "us = []")
          case True
          with lu0 have "lu = NULL" by simp
          with True show ?thesis using lp vs n c(1) ne by (simp add: insert_before_def link_in_def)
        next
          case False
          then obtain q where q: "lnodes st lu = Some q" "lu \<noteq> NULL"
            using dseg_last_node [OF u] by blast
          have "lu \<noteq> w"
            using dseg_last [OF u] d xs vs False by (auto simp: last_addr_def)
          with q False show ?thesis
            using lp vs n c(1) ne by (simp add: insert_before_def link_in_def)
        qed
      qed
    qed
    with s' c(2) live' d' p res alloc_inv [OF inv al] xs show ?thesis
      by (auto simp: l_repr_Some lheader_ok_def)
  qed
qed

end

section \<open>Properties\<close>

lemma length_insert_sorted: "length (insert_sorted cmp n xs) = Suc (length xs)"
  by (induction xs) auto

text \<open>A comparison function in the style of \<open>strcmp\<close> that is a total preorder.\<close>

definition compare_order :: "(u64 \<Rightarrow> u64 \<Rightarrow> int) \<Rightarrow> bool" where
  "compare_order cmp \<longleftrightarrow>
     (\<forall>a b c. \<not> cmp b a < 0 \<longrightarrow> \<not> cmp c b < 0 \<longrightarrow> \<not> cmp c a < 0) \<and>
     (\<forall>a b. cmp a b < 0 \<longrightarrow> \<not> cmp b a < 0)"

lemma compare_orderD:
  assumes "compare_order cmp"
  shows "\<not> cmp b a < 0 \<Longrightarrow> \<not> cmp c b < 0 \<Longrightarrow> \<not> cmp c a < 0"
    and "cmp a b < 0 \<Longrightarrow> \<not> cmp b a < 0"
  using assms unfolding compare_order_def by blast+

lemma sorted_insert_sorted:
  assumes "compare_order cmp"
    and s: "sorted_wrt (\<lambda>a b. \<not> cmp b a < 0) (map snd xs)"
  shows "sorted_wrt (\<lambda>a b. \<not> cmp b a < 0) (map snd (insert_sorted cmp n xs))"
  using s
proof (induction xs)
  case (Cons y ys)
  note tr = compare_orderD(1) [OF assms(1)] and asym = compare_orderD(2) [OF assms(1)]
  show ?case
  proof (cases "cmp (snd n) (snd y) < 0")
    case True
    have "\<not> cmp z (snd n) < 0" if "z \<in> snd ` set ys" for z
    proof (rule tr)
      show "\<not> cmp (snd y) (snd n) < 0" using asym [OF True] .
      show "\<not> cmp z (snd y) < 0" using Cons.prems that by auto
    qed
    with True asym [OF True] Cons.prems show ?thesis by auto
  next
    case False
    with Cons show ?thesis by (auto simp: mset_insert_sorted)
  qed
qed simp

text \<open>C5: sorted insertion. On a list that is in the order of the comparison, \<open>addToDoubleLinkedListSorted\<close>
  relinks the nodes into a well-formed list that holds the old elements and the new one, still in
  order.\<close>

theorem sorted_insertion_keeps_order:
  assumes "pm_inv (lmem st)" and "l_repr extent st p (Some (la, xs))"
    and "0 < unat (free_pages (lmem st))"
    and "compare_order cmp"
    and "sorted_wrt (\<lambda>a b. \<not> cmp b a < 0) (map snd xs)"
  shows "\<exists>st' ys. addToDoubleLinkedListSorted mem_alloc cmp st p x = Some st' \<and>
           pm_inv (lmem st') \<and> l_repr extent st' p (Some (la, ys)) \<and>
           set (map snd ys) = insert x (set (map snd xs)) \<and> length ys = Suc (length xs) \<and>
           sorted_wrt (\<lambda>a b. \<not> cmp b a < 0) (map snd ys)"
proof -
  have "unat sizeof_node_t \<le> 4096" by (simp add: sizeof_node_t_def)
  from bm.alloc_page [OF assms(1) this assms(3)] obtain m a where
    m: "mem_alloc (lmem st) sizeof_node_t = (m, a)" "a \<noteq> NULL" by blast
  let ?ys = "insert_sorted cmp (a, x) xs"
  have "l_add_sorted mem_alloc cmp (Some (la, xs)) x (lmem st) = (Some (la, ?ys), m)"
    using m by (simp add: l_add_sorted_def)
  from bm.addToDoubleLinkedListSorted_refines [OF assms(1,2) this] obtain st' where
    "addToDoubleLinkedListSorted mem_alloc cmp st p x = Some st'" "lmem st' = m" "pm_inv m"
    "l_repr extent st' p (Some (la, ?ys))" by blast
  moreover have "length ?ys = Suc (length xs)" by (rule length_insert_sorted)
  ultimately show ?thesis
    using sorted_insert_sorted [where n = "(a, x)", OF assms(4,5)] mset_insert_sorted [of cmp "(a, x)" xs]
    by (intro exI [of _ st'] exI [of _ ?ys]) auto
qed

text \<open>Round trip on lists. An element added in front is found by a search for it, and removing
  it relinks exactly the list there was, on the same memory.\<close>

theorem list_add_remove:
  assumes "pm_inv (lmem st)" and "l_repr extent st p (Some (la, xs))"
    and "0 < unat (free_pages (lmem st))"
  shows "\<exists>st1 st2 a. addToDoubleLinkedList mem_alloc st p x = Some st1 \<and>
           l_repr extent st1 p (Some (la, (a, x) # xs)) \<and>
           findInDoubleLinkedList (\<lambda>y. y = x) st1 p = Some x \<and>
           removeFromDoubleLinkedList mem_free (\<lambda>y. y = x) st1 p = Some st2 \<and>
           l_repr extent st2 p (Some (la, xs)) \<and> lmem st2 = lmem st \<and>
           getDoubleLinkedListLength st2 p = Some (int (length xs))"
proof -
  have "unat sizeof_node_t \<le> 4096" by (simp add: sizeof_node_t_def)
  from bm.alloc_page [OF assms(1) this assms(3)] obtain m a where
    m: "mem_alloc (lmem st) sizeof_node_t = (m, a)" "a \<noteq> NULL" by blast
  let ?ys = "(a, x) # xs"
  have "l_add mem_alloc (Some (la, xs)) x (lmem st) = (Some (la, ?ys), m)"
    using m by (simp add: l_add_def)
  from bm.addToDoubleLinkedList_refines [OF assms(1,2) this] obtain st1 where
    s1: "addToDoubleLinkedList mem_alloc st p x = Some st1" "lmem st1 = m" "pm_inv m"
    "l_repr extent st1 p (Some (la, ?ys))" by blast
  have f: "findInDoubleLinkedList (\<lambda>y. y = x) st1 p = Some x"
    using bm.findInDoubleLinkedList_refines [OF s1(4), of "\<lambda>y. y = x"] by (simp add: find_chain_def)
  have "mem_free m a = Some (lmem st)" by (rule mem_free_alloc [OF assms(1) m])
  then have "l_remove mem_free (\<lambda>y. y = x) (Some (la, ?ys)) m = Some (Some (la, xs), lmem st)"
    by (simp add: remove_chain_def)
  with bm.removeFromDoubleLinkedList_refines [of st1 p "Some (la, ?ys)" "\<lambda>y. y = x"] s1
  obtain st2 where s2: "removeFromDoubleLinkedList mem_free (\<lambda>y. y = x) st1 p = Some st2"
    "lmem st2 = lmem st" "l_repr extent st2 p (Some (la, xs))" by auto
  have "getDoubleLinkedListLength st2 p = Some (int (length xs))"
    using bm.isListEmpty_refines [OF s2(3)] by (simp add: l_length_def)
  with s1 f s2 show ?thesis by blast
qed

text \<open>A list holding nothing, for the witnesses.\<close>

definition boot_store :: "pmem lstore" where
  "boot_store = fst (newDoubleLinkedListADT mem_alloc
     \<lparr>lmem = boot_pool, lnodes = Map.empty, lists = Map.empty\<rparr>)"

lemma boot_store_list:
  "\<exists>la. pm_inv (lmem boot_store) \<and> l_repr extent boot_store la (Some (la, [])) \<and>
        0 < unat (free_pages (lmem boot_store))"
proof -
  let ?st = "\<lparr>lmem = boot_pool, lnodes = Map.empty, lists = Map.empty\<rparr>"
  have sz: "unat sizeof_doubleLinkedListCDT \<le> 4096" by (simp add: sizeof_doubleLinkedListCDT_def)
  have "0 < unat (free_pages boot_pool)" using boot_pool_avail by simp
  from bm.alloc_page [OF boot_pool_inv sz this] obtain m a where
    m: "mem_alloc boot_pool sizeof_doubleLinkedListCDT = (m, a)" "a \<noteq> NULL" "pm_inv m"
       "unat (free_pages m) = unat (free_pages boot_pool) - 1" by blast
  have "l_new mem_alloc (lmem ?st) = (Some (a, []), m)" using m by (simp add: l_new_def)
  from bm.newDoubleLinkedListADT_refines [OF _ _ this] m boot_pool_inv boot_pool_avail show ?thesis
    by (auto simp: boot_store_def newDoubleLinkedListADT_def)
qed

theorem sorted_insertion_keeps_order_witness:
  "\<exists>p st ys. addToDoubleLinkedListSorted mem_alloc (\<lambda>a b. if a < b then -1 else if b < a then 1 else 0)
        boot_store p 5 = Some st \<and> l_repr extent st p (Some (p, ys)) \<and> map snd ys = [5]"
proof -
  obtain la where la: "pm_inv (lmem boot_store)" "l_repr extent boot_store la (Some (la, []))"
    "0 < unat (free_pages (lmem boot_store))" using boot_store_list by blast
  let ?cmp = "\<lambda>a b :: u64. if a < b then -1 else if b < a then 1 else (0::int)"
  have co: "compare_order ?cmp" unfolding compare_order_def by auto
  obtain st ys where "addToDoubleLinkedListSorted mem_alloc ?cmp boot_store la 5 = Some st"
    "l_repr extent st la (Some (la, ys))" "set (map snd ys) = {5}" "length ys = 1"
  proof -
    have "sorted_wrt (\<lambda>a b. \<not> ?cmp b a < 0) (map snd ([] :: (ptr \<times> u64) list))" by simp
    from sorted_insertion_keeps_order [where x = 5, OF la co this] that show thesis by auto
  qed
  moreover from this have "map snd ys = [5]" by (cases ys) auto
  ultimately show ?thesis by (intro exI conjI) assumption+
qed

theorem list_add_remove_witness:
  "\<exists>p st1 st2. addToDoubleLinkedList mem_alloc boot_store p 5 = Some st1 \<and>
     removeFromDoubleLinkedList mem_free (\<lambda>y. y = 5) st1 p = Some st2 \<and>
     lmem st2 = lmem boot_store"
proof -
  obtain la where la: "pm_inv (lmem boot_store)" "l_repr extent boot_store la (Some (la, []))"
    "0 < unat (free_pages (lmem boot_store))" using boot_store_list by blast
  from list_add_remove [OF this, of 5] show ?thesis by blast
qed

end
