(* ===== verification/Owner.thy ===== *)
theory Owner
  imports Queue DList "HOL-Library.Multiset"
begin

text \<open>
  Ownership of memory. A kernel structure owns a multiset of blocks; \<open>owns M m\<close> says that the memory
  manager is consistent, that no block has two owners, and that every owned block is live. Each
  container operation changes the owned blocks and the memory together; these are the only facts about
  memory that the proofs on the scheduler and on the semaphores need.
\<close>

context allocator
begin

definition owns :: "ptr multiset \<Rightarrow> 'm \<Rightarrow> bool" where
  "owns M m \<longleftrightarrow> inv m \<and> (\<forall>a. count M a \<le> 1) \<and> (\<forall>a. a \<in># M \<longrightarrow> 0 < extent m a)"

lemma owns_inv: "owns M m \<Longrightarrow> inv m"
  by (simp add: owns_def)

lemma owns_fresh: "owns (M + {#a#}) m \<Longrightarrow> a \<notin># M"
  unfolding owns_def by (metis count_union count_single not_in_iff add_le_same_cancel2 le_zero_eq)

lemma owns_subset: "owns (M + N) m \<Longrightarrow> owns M m"
  unfolding owns_def by (metis add_leD1 count_union union_iff)

lemma owns_alloc:
  assumes "owns M m" and "alloc m n = (m', a)"
  shows "owns (M + (if a = NULL then {#} else {#a#})) m'"
proof (cases "a = NULL")
  case True
  with assms(2) have "m' = m" using alloc_null [OF owns_inv [OF assms(1)], of n m'] by simp
  with True assms(1) show ?thesis by simp
next
  case False
  from assms(1) have inv: "inv m" by (rule owns_inv)
  have "a \<notin># M"
    using assms(1) alloc_fresh [OF inv assms(2) False] by (auto simp: owns_def)
  then have "\<forall>b. count (M + {#a#}) b \<le> 1"
    using assms(1) by (auto simp: owns_def not_in_iff)
  moreover have "\<forall>b. b \<in># M + {#a#} \<longrightarrow> 0 < extent m' b"
    using assms(1) alloc_keeps_live [OF inv assms(2)] alloc_size [OF inv assms(2) False]
    by (auto simp: owns_def)
  ultimately show ?thesis using False alloc_inv [OF inv assms(2)] by (simp add: owns_def)
qed

lemma owns_dealloc:
  assumes "owns (M + {#a#}) m"
  shows "\<exists>m'. dealloc m a = Some m' \<and> owns M m'"
proof -
  have inv: "inv m" and "0 < extent m a" using assms by (auto simp: owns_def)
  then obtain m' where m': "dealloc m a = Some m'" "inv m'" "extent m' = (extent m)(a := 0)"
    using dealloc_live by blast
  have c: "count (M + {#a#}) a \<le> 1" using assms unfolding owns_def by blast
  then have "a \<notin># M" by (simp add: not_in_iff)
  moreover have "owns M m" using assms by (rule owns_subset)
  ultimately show ?thesis using m' by (auto simp: owns_def)
qed

lemma owns_free_nodes:
  "owns (M + mset (map fst ns)) m \<Longrightarrow> \<exists>m'. free_nodes dealloc ns m = Some m' \<and> owns M m'"
proof (induction ns arbitrary: m)
  case (Cons n ns)
  obtain a x where n: "n = (a, x)" by force
  with Cons.prems have "owns ((M + mset (map fst ns)) + {#a#}) m" by simp
  from owns_dealloc [OF this] Cons.IH n show ?case by fastforce
qed simp

lemma owns_free_chain:
  assumes "owns (M + mset (blocks q)) m"
  shows "\<exists>m'. free_chain dealloc q m = Some m' \<and> owns M m'"
proof (cases q)
  case None
  with assms show ?thesis by (simp add: free_chain_def)
next
  case (Some p)
  obtain qa ns where q: "q = Some (qa, ns)" using Some by (cases p) auto
  have "owns ((M + {#qa#}) + mset (map fst ns)) m" using assms q by (simp add: ac_simps)
  from owns_free_nodes [OF this] obtain m1 where
    "free_nodes dealloc ns m = Some m1" "owns (M + {#qa#}) m1" by blast
  with owns_dealloc [of M qa m1] q show ?thesis by (auto simp: free_chain_def)
qed

lemma owns_remove_chain:
  assumes "owns (M + mset (blocks q)) m"
  shows "\<exists>q' m'. remove_chain dealloc P q m = Some (q', m') \<and> owns (M + mset (blocks q')) m' \<and>
           items q' = drop_first P (items q) \<and> (q' = None \<longleftrightarrow> q = None)"
proof -
  have "\<exists>q' m'. remove_chain dealloc P q m = Some (q', m') \<and> owns (M + mset (blocks q')) m'"
  proof (cases q)
    case None
    with assms show ?thesis by (simp add: remove_chain_def)
  next
    case (Some p)
    obtain qa ns where q: "q = Some (qa, ns)" using Some by (cases p) auto
    let ?Q = "\<lambda>n. P (snd n)"
    show ?thesis
    proof (cases "find ?Q ns")
      case None
      with assms q show ?thesis by (simp add: remove_chain_def)
    next
      case found: (Some ax)
      obtain a x where ax: "ax = (a, x)" by force
      from drop_first_split [OF found] ax obtain us vs where
        ns: "ns = us @ (a, x) # vs" "drop_first ?Q ns = us @ vs" by auto
      let ?q = "Some (qa, us @ vs)"
      have "owns ((M + mset (blocks ?q)) + {#a#}) m" using assms q ns(1) by (simp add: ac_simps)
      from owns_dealloc [OF this] obtain m' where
        "dealloc m a = Some m'" "owns (M + mset (blocks ?q)) m'" by blast
      with q found ax ns(2) show ?thesis
        by (intro exI [of _ ?q] exI [of _ m']) (simp add: remove_chain_def)
    qed
  qed
  then obtain q' m' where r: "remove_chain dealloc P q m = Some (q', m')"
    "owns (M + mset (blocks q')) m'" by blast
  from r(2) remove_chain_items [OF r(1)] show ?thesis
    by (intro exI [of _ q'] exI [of _ m'] conjI r(1)) simp_all
qed

lemma owns_q_deq:
  assumes "owns (M + mset (blocks q)) m"
  shows "\<exists>x q' m'. q_deq dealloc q m = Some (x, q', m') \<and> owns (M + mset (blocks q')) m' \<and>
           (if items q = [] then x = NULL \<and> q' = q \<and> m' = m else items q = x # items q') \<and>
           (q' = None \<longleftrightarrow> q = None)"
proof -
  have "\<exists>x q' m'. q_deq dealloc q m = Some (x, q', m') \<and> owns (M + mset (blocks q')) m'"
  proof (cases "\<exists>qa a x ns. q = Some (qa, (a, x) # ns)")
    case True
    then obtain qa a x ns where q: "q = Some (qa, (a, x) # ns)" by blast
    then have "owns ((M + mset (blocks (Some (qa, ns)))) + {#a#}) m"
      using assms by (simp add: ac_simps)
    from owns_dealloc [OF this] q show ?thesis by (fastforce simp: q_deq_def)
  next
    case False
    with assms show ?thesis by (auto simp: q_deq_def split: option.splits list.splits prod.splits)
  qed
  then obtain x q' m' where r: "q_deq dealloc q m = Some (x, q', m')"
    "owns (M + mset (blocks q')) m'" by blast
  from r(2) q_deq_items [OF r(1)] show ?thesis
    by (intro exI [of _ x] exI [of _ q'] exI [of _ m'] conjI r(1)) simp_all
qed

lemma owns_q_enq:
  assumes "owns (M + mset (blocks q)) m" and "q_enq alloc q x m = Some (q', m')"
  shows "owns (M + mset (blocks q')) m'"
proof (cases "q = None \<or> x = NULL")
  case True
  with assms show ?thesis by (auto simp: q_enq_def split: option.splits)
next
  case False
  then obtain qa ns where q: "q = Some (qa, ns)" by auto
  obtain m1 a where al: "alloc m sizeof_nodeT = (m1, a)" by force
  with assms(2) q False have r: "a \<noteq> NULL" "q' = Some (qa, ns @ [(a, x)])" "m' = m1"
    by (auto simp: q_enq_def split: if_splits)
  from owns_alloc [OF assms(1) al] r q show ?thesis by (simp add: ac_simps)
qed

lemma owns_l_add:
  assumes "owns (M + mset (blocks l)) m" and "l_add alloc l x m = (l', m')"
  shows "owns (M + mset (blocks l')) m'"
proof (cases l)
  case None
  with assms show ?thesis by (simp add: l_add_def)
next
  case (Some p)
  obtain la ns where l: "l = Some (la, ns)" using Some by (cases p) auto
  obtain m1 a where al: "alloc m sizeof_node_t = (m1, a)" by force
  from owns_alloc [OF assms(1) al] al assms(2) l show ?thesis
    by (auto simp: l_add_def ac_simps split: if_splits)
qed

lemma owns_l_add_sorted:
  assumes "owns (M + mset (blocks l)) m" and "l_add_sorted alloc cmp l x m = (l', m')"
  shows "owns (M + mset (blocks l')) m'"
proof (cases l)
  case None
  with assms show ?thesis by (simp add: l_add_sorted_def)
next
  case (Some p)
  obtain la ns where l: "l = Some (la, ns)" using Some by (cases p) auto
  obtain m1 a where al: "alloc m sizeof_node_t = (m1, a)" by force
  have "mset (insert_sorted cmp (a, x) ns) = add_mset (a, x) (mset ns)"
    by (induction ns) auto
  then have "mset (map fst (insert_sorted cmp (a, x) ns)) = add_mset a (mset (map fst ns))"
    by simp
  with owns_alloc [OF assms(1) al] al assms(2) l show ?thesis
    by (auto simp: l_add_sorted_def ac_simps split: if_splits)
qed

lemma owns_l_new:
  assumes "owns M m" and "l_new alloc m = (l, m')"
  shows "owns (M + mset (blocks l)) m' \<and> items l = []"
  using owns_alloc [OF assms(1), of sizeof_doubleLinkedListCDT] assms(2)
  by (auto simp: l_new_def split: prod.splits if_splits)

lemma owns_q_new:
  assumes "owns M m" and "q_new alloc m = (q, m')"
  shows "owns (M + mset (blocks q)) m' \<and> items q = []"
  using owns_alloc [OF assms(1), of sizeof_QueueCDT] assms(2)
  by (auto simp: q_new_def split: prod.splits if_splits)

end

context page_allocator
begin

lemma q_enq_succeeds:
  assumes "inv m" and "0 < avail m"
  shows "\<exists>q' m'. q_enq alloc q x m = Some (q', m') \<and> avail m \<le> avail m' + 1"
proof -
  have "unat sizeof_nodeT \<le> 4096" by (simp add: sizeof_nodeT_def)
  from alloc_page [OF assms(1) this assms(2)] obtain m' a where
    "alloc m sizeof_nodeT = (m', a)" "a \<noteq> NULL" "avail m' = avail m - 1" by blast
  then show ?thesis by (auto simp: q_enq_def split: option.splits)
qed

lemma l_new_succeeds:
  assumes "inv m" and "0 < avail m"
  shows "\<exists>a m'. l_new alloc m = (Some (a, []), m') \<and> avail m' = avail m - 1"
proof -
  have "unat sizeof_doubleLinkedListCDT \<le> 4096" by (simp add: sizeof_doubleLinkedListCDT_def)
  from alloc_page [OF assms(1) this assms(2)] obtain m' a where
    "alloc m sizeof_doubleLinkedListCDT = (m', a)" "a \<noteq> NULL" "avail m' = avail m - 1" by blast
  then show ?thesis by (auto simp: l_new_def)
qed

lemma q_new_succeeds:
  assumes "inv m" and "0 < avail m"
  shows "\<exists>a m'. q_new alloc m = (Some (a, []), m') \<and> avail m' = avail m - 1"
proof -
  have "unat sizeof_QueueCDT \<le> 4096" by (simp add: sizeof_QueueCDT_def)
  from alloc_page [OF assms(1) this assms(2)] obtain m' a where
    "alloc m sizeof_QueueCDT = (m', a)" "a \<noteq> NULL" "avail m' = avail m - 1" by blast
  then show ?thesis by (auto simp: q_new_def)
qed

lemma l_add_succeeds:
  assumes "inv m" and "0 < avail m" and "l \<noteq> None"
  shows "\<exists>l' m'. l_add alloc l x m = (l', m') \<and> items l' = x # items l \<and> l' \<noteq> None \<and> avail m' = avail m - 1"
proof -
  have "unat sizeof_node_t \<le> 4096" by (simp add: sizeof_node_t_def)
  from alloc_page [OF assms(1) this assms(2)] obtain m' a where
    "alloc m sizeof_node_t = (m', a)" "a \<noteq> NULL" "avail m' = avail m - 1" by blast
  with assms(3) show ?thesis by (auto simp: l_add_def)
qed

text \<open>Freeing never lowers the number of free pages.\<close>

lemma dealloc_avail_mono:
  "owns (M + {#a#}) m \<Longrightarrow> dealloc m a = Some m' \<Longrightarrow> avail m \<le> avail m'"
  using dealloc_avail [of m a m'] by (simp add: owns_def)

lemma q_deq_avail:
  assumes "owns (M + mset (blocks q)) m" and "q_deq dealloc q m = Some (x, q', m')"
  shows "avail m \<le> avail m'"
proof (cases "\<exists>qa a x ns. q = Some (qa, (a, x) # ns)")
  case True
  then obtain qa a y ns where q: "q = Some (qa, (a, y) # ns)" by blast
  then have "owns ((M + mset (blocks (Some (qa, ns)))) + {#a#}) m"
    using assms(1) by (simp add: ac_simps)
  then show ?thesis using assms(2) q dealloc_avail_mono
    by (fastforce simp: q_deq_def Option.bind_eq_Some_conv)
next
  case False
  with assms show ?thesis by (auto simp: q_deq_def split: option.splits list.splits prod.splits)
qed


lemma remove_chain_avail:
  assumes "owns (M + mset (blocks q)) m" and "remove_chain dealloc P q m = Some (q', m')"
  shows "avail m \<le> avail m'"
proof (cases "\<exists>qa ns ax. q = Some (qa, ns) \<and> find (\<lambda>n. P (snd n)) ns = Some ax")
  case True
  then obtain qa ns a x where q: "q = Some (qa, ns)" "find (\<lambda>n. P (snd n)) ns = Some (a, x)" by auto
  from drop_first_split [OF q(2)] obtain us vs where "ns = us @ (a, x) # vs" by blast
  then have "owns ((M + {#qa#} + mset (map fst (us @ vs))) + {#a#}) m"
    using assms(1) q by (simp add: ac_simps)
  then show ?thesis using assms(2) q dealloc_avail_mono
    by (auto simp: remove_chain_def Option.bind_eq_Some_conv)
next
  case False
  with assms(2) show ?thesis
    by (auto simp: remove_chain_def split: option.splits prod.splits)
qed

lemma free_nodes_avail:
  "owns (M + mset (map fst ns)) m \<Longrightarrow> free_nodes dealloc ns m = Some m' \<Longrightarrow> avail m \<le> avail m'"
proof (induction ns arbitrary: m)
  case (Cons n ns)
  obtain a x where n: "n = (a, x)" by force
  with Cons.prems have o: "owns ((M + mset (map fst ns)) + {#a#}) m" by simp
  from owns_dealloc [OF o] obtain m1 where m1: "dealloc m a = Some m1" "owns (M + mset (map fst ns)) m1"
    by blast
  with Cons.IH [OF m1(2)] Cons.prems(2) n dealloc_avail_mono [OF o m1(1)] show ?case by auto
qed simp

lemma free_chain_avail:
  assumes "owns (M + mset (blocks q)) m" and "free_chain dealloc q m = Some m'"
  shows "avail m \<le> avail m'"
proof (cases q)
  case None
  with assms show ?thesis by (simp add: free_chain_def)
next
  case (Some p)
  obtain qa ns where q: "q = Some (qa, ns)" using Some by (cases p) auto
  have o: "owns ((M + {#qa#}) + mset (map fst ns)) m" using assms(1) q by (simp add: ac_simps)
  from owns_free_nodes [OF o] obtain m1 where
    m1: "free_nodes dealloc ns m = Some m1" "owns (M + {#qa#}) m1" by blast
  have "dealloc m1 qa = Some m'" using assms(2) q m1(1) by (simp add: free_chain_def)
  from free_nodes_avail [OF o m1(1)] dealloc_avail_mono [OF m1(2) this] show ?thesis by simp
qed

end

end
