(* ===== verification/Sched.thy ===== *)
theory Sched
  imports Owner
begin

text \<open>
  \<open>Kernel/sched/scheduler.c\<close> on the default memory manager: the process control blocks, the process
  table, the four ready queues with their weights and credits, the blocked queue and the idle
  process. All the static state of the kernel that these functions touch is the record \<open>kernel\<close>.

  Kernel code runs with interrupts disabled, so a function is atomic up to a \<open>_timerInterrupt()\<close>
  that it executes itself. There the processor leaves for the stack that \<open>schedule\<close> returns and the
  rest of the function runs when the process is scheduled again. \<open>ctl\<close> tells the two apart: \<open>Ret r\<close>
  is a normal return, \<open>Switch sp\<close> says that the interrupt was taken and the processor continues on
  \<open>sp\<close>. The code after such a point, when there is any, is a separate \<open>_resume\<close> definition with the
  function's local variables as arguments.
\<close>

section \<open>State\<close>

datatype ProcessState = READY | RUNNING | BLOCKED | ZOMBIE

text \<open>The enumeration constants, in the order the C \<open>enum\<close> numbers them.\<close>

fun state_code :: "ProcessState \<Rightarrow> nat" where
  "state_code READY = 0"
| "state_code RUNNING = 1"
| "state_code BLOCKED = 2"
| "state_code ZOMBIE = 3"

instantiation ProcessState :: linorder
begin

definition less_eq_ProcessState :: "ProcessState \<Rightarrow> ProcessState \<Rightarrow> bool" where
  "less_eq_ProcessState s t \<longleftrightarrow> state_code s \<le> state_code t"

definition less_ProcessState :: "ProcessState \<Rightarrow> ProcessState \<Rightarrow> bool" where
  "less_ProcessState s t \<longleftrightarrow> state_code s < state_code t"

instance
proof
  fix s t u :: ProcessState
  show "s < t \<longleftrightarrow> s \<le> t \<and> \<not> t \<le> s" by (auto simp: less_eq_ProcessState_def less_ProcessState_def)
  show "s \<le> s" by (simp add: less_eq_ProcessState_def)
  show "s \<le> t \<Longrightarrow> t \<le> u \<Longrightarrow> s \<le> u" by (simp add: less_eq_ProcessState_def)
  show "s \<le> t \<Longrightarrow> t \<le> s \<Longrightarrow> s = t" by (cases s; cases t) (auto simp: less_eq_ProcessState_def)
  show "s \<le> t \<or> t \<le> s" by (auto simp: less_eq_ProcessState_def)
qed

end

text \<open>
  \<open>argv\<close> is the heap copy of the argument vector: the array's block and, for each argument, its block
  and its text. \<open>nombre\<close> points to memory of the creator. \<open>parent\<close> and the container elements are
  addresses or process identifiers in one 64-bit word, as in the code.
\<close>

record ProcessCDT =
  basePointer :: ptr
  stack :: ptr
  argv :: "(ptr \<times> (ptr \<times> string) list) option"
  pid :: u64
  nombre :: ptr
  state :: ProcessState
  priority :: u8
  parent :: ptr
  children :: dlist
  reaped :: dlist
  waitingPid :: u64
  fileDescriptors :: "16 word list"
  quantumLeft :: u8
  foreground :: bool

record kernel =
  kmem :: pmem
  procs :: "ptr \<Rightarrow> ProcessCDT option"
  currentProcess :: ptr
  processTable :: dlist
  priorityQueues :: "queue list"
  weights :: "u8 list"
  credits :: "u8 list"
  blockedQueue :: queue
  idleProcess :: ptr
  lastPid :: u64
  ticks :: u64

datatype 'a ctl = Ret 'a | Switch ptr

abbreviation QUANTUM :: u8 where "QUANTUM \<equiv> 5"
abbreviation PRIO :: nat where "PRIO \<equiv> 4"
abbreviation DEFAULT_PRIORITY :: u8 where "DEFAULT_PRIORITY \<equiv> 2"
definition sizeof_ProcessCDT :: u64 where "sizeof_ProcessCDT = 88"

section \<open>Access to the state\<close>

text \<open>Reading a control block through a pointer; the null pointer faults.\<close>

definition pcb :: "kernel \<Rightarrow> ptr \<Rightarrow> ProcessCDT option" where
  "pcb k p = (if p = NULL then None else procs k p)"

definition upd_pcb :: "ptr \<Rightarrow> (ProcessCDT \<Rightarrow> ProcessCDT) \<Rightarrow> kernel \<Rightarrow> kernel option" where
  "upd_pcb p f k = do { pr \<leftarrow> pcb k p; Some (k\<lparr>procs := (procs k)(p \<mapsto> f pr)\<rparr>) }"

definition matchPid :: "kernel \<Rightarrow> u64 \<Rightarrow> ptr \<Rightarrow> bool" where
  "matchPid k target p = (case procs k p of None \<Rightarrow> False | Some pr \<Rightarrow> pid pr = target)"

definition matchPidInList :: "u64 \<Rightarrow> u64 \<Rightarrow> bool" where
  "matchPidInList target elem_pid \<longleftrightarrow> elem_pid = target"

definition alwaysTrue :: "u64 \<Rightarrow> bool" where
  "alwaysTrue x = True"

definition getProcessByPid :: "u64 \<Rightarrow> kernel \<Rightarrow> ptr" where
  "getProcessByPid target k = l_find (matchPid k target) (processTable k)"

text \<open>The container calls on the queues of the scheduler.\<close>

definition Enqueue_ready :: "u8 \<Rightarrow> ptr \<Rightarrow> kernel \<Rightarrow> kernel option" where
  "Enqueue_ready pr p k =
     (if unat pr < length (priorityQueues k)
      then do { (q, m) \<leftarrow> q_enq mem_alloc (priorityQueues k ! unat pr) p (kmem k);
                Some (k\<lparr>kmem := m, priorityQueues := (priorityQueues k)[unat pr := q]\<rparr>) }
      else None)"

definition Dequeue_ready :: "nat \<Rightarrow> kernel \<Rightarrow> (ptr \<times> kernel) option" where
  "Dequeue_ready i k =
     (if i < length (priorityQueues k)
      then do { (p, q, m) \<leftarrow> q_deq mem_free (priorityQueues k ! i) (kmem k);
                Some (p, k\<lparr>kmem := m, priorityQueues := (priorityQueues k)[i := q]\<rparr>) }
      else None)"

definition RemoveFrom_ready :: "u8 \<Rightarrow> u64 \<Rightarrow> kernel \<Rightarrow> kernel option" where
  "RemoveFrom_ready pr target k =
     (if unat pr < length (priorityQueues k)
      then do { (q, m) \<leftarrow> q_remove mem_free (matchPid k target) (priorityQueues k ! unat pr) (kmem k);
                Some (k\<lparr>kmem := m, priorityQueues := (priorityQueues k)[unat pr := q]\<rparr>) }
      else None)"

definition Enqueue_blocked :: "ptr \<Rightarrow> kernel \<Rightarrow> kernel option" where
  "Enqueue_blocked p k =
     do { (q, m) \<leftarrow> q_enq mem_alloc (blockedQueue k) p (kmem k);
          Some (k\<lparr>kmem := m, blockedQueue := q\<rparr>) }"

definition RemoveFrom_blocked :: "u64 \<Rightarrow> kernel \<Rightarrow> kernel option" where
  "RemoveFrom_blocked target k =
     do { (q, m) \<leftarrow> q_remove mem_free (matchPid k target) (blockedQueue k) (kmem k);
          Some (k\<lparr>kmem := m, blockedQueue := q\<rparr>) }"

definition RemoveFrom_table :: "u64 \<Rightarrow> kernel \<Rightarrow> kernel option" where
  "RemoveFrom_table target k =
     do { (t, m) \<leftarrow> l_remove mem_free (matchPid k target) (processTable k) (kmem k);
          Some (k\<lparr>kmem := m, processTable := t\<rparr>) }"

text \<open>A call on one of the two lists that a control block holds.\<close>

definition add_child :: "ptr \<Rightarrow> u64 \<Rightarrow> kernel \<Rightarrow> kernel option" where
  "add_child p i k =
     do { pr \<leftarrow> pcb k p;
          let (l, m) = l_add mem_alloc (children pr) i (kmem k);
          upd_pcb p (\<lambda>pr. pr\<lparr>children := l\<rparr>) (k\<lparr>kmem := m\<rparr>) }"

definition add_reaped :: "ptr \<Rightarrow> u64 \<Rightarrow> kernel \<Rightarrow> kernel option" where
  "add_reaped p i k =
     do { pr \<leftarrow> pcb k p;
          let (l, m) = l_add mem_alloc (reaped pr) i (kmem k);
          upd_pcb p (\<lambda>pr. pr\<lparr>reaped := l\<rparr>) (k\<lparr>kmem := m\<rparr>) }"

definition remove_child :: "ptr \<Rightarrow> u64 \<Rightarrow> kernel \<Rightarrow> kernel option" where
  "remove_child p i k =
     do { pr \<leftarrow> pcb k p;
          (l, m) \<leftarrow> l_remove mem_free (matchPidInList i) (children pr) (kmem k);
          upd_pcb p (\<lambda>pr. pr\<lparr>children := l\<rparr>) (k\<lparr>kmem := m\<rparr>) }"

definition remove_reaped :: "ptr \<Rightarrow> u64 \<Rightarrow> kernel \<Rightarrow> kernel option" where
  "remove_reaped p i k =
     do { pr \<leftarrow> pcb k p;
          (l, m) \<leftarrow> l_remove mem_free (matchPidInList i) (reaped pr) (kmem k);
          upd_pcb p (\<lambda>pr. pr\<lparr>reaped := l\<rparr>) (k\<lparr>kmem := m\<rparr>) }"

definition do_free :: "ptr \<Rightarrow> kernel \<Rightarrow> kernel option" where
  "do_free p k = do { m \<leftarrow> mem_free (kmem k) p; Some (k\<lparr>kmem := m\<rparr>) }"

section \<open>Choosing the next process\<close>

definition refill_credits :: "kernel \<Rightarrow> kernel" where
  "refill_credits k = k\<lparr>credits := weights k\<rparr>"

fun credit_sum :: "queue list \<Rightarrow> u8 list \<Rightarrow> int" where
  "credit_sum (q # qs) (c # cs) =
     (if \<not> q_empty q then int (unat c) else 0) + credit_sum qs cs"
| "credit_sum _ _ = 0"

fun first_credit :: "queue list \<Rightarrow> u8 list \<Rightarrow> nat \<Rightarrow> nat option" where
  "first_credit (q # qs) (c # cs) p =
     (if c > 0 \<and> \<not> q_empty q then Some p else first_credit qs cs (Suc p))"
| "first_credit _ _ p = None"

definition pickNextQueue :: "kernel \<Rightarrow> int \<times> kernel" where
  "pickNextQueue k =
     (let k1 = (if credit_sum (priorityQueues k) (credits k) = 0 then refill_credits k else k)
      in case first_credit (priorityQueues k1) (credits k1) 0 of
           None \<Rightarrow> (-1, k1)
         | Some p \<Rightarrow> (int p, k1\<lparr>credits := (credits k1)[p := credits k1 ! p - 1]\<rparr>))"

definition pickNextProcess :: "kernel \<Rightarrow> (ptr \<times> kernel) option" where
  "pickNextProcess k =
     (let (q, k) = pickNextQueue k
      in if q < 0
         then do {
           let k = k\<lparr>currentProcess := idleProcess k\<rparr>;
           k \<leftarrow> upd_pcb (idleProcess k) (\<lambda>pr. pr\<lparr>state := RUNNING\<rparr>) k;
           pr \<leftarrow> pcb k (idleProcess k);
           Some (stack pr, k)
         }
         else do {
           (p, k) \<leftarrow> Dequeue_ready (nat q) k;
           let k = k\<lparr>currentProcess := p\<rparr>;
           k \<leftarrow> upd_pcb p (\<lambda>pr. pr\<lparr>state := RUNNING\<rparr>) k;
           k \<leftarrow> upd_pcb p (\<lambda>pr. pr\<lparr>quantumLeft := QUANTUM\<rparr>) k;
           pr \<leftarrow> pcb k p;
           Some (stack pr, k)
         })"

text \<open>
  \<open>schedule\<close> saves the stack pointer, charges a running process one tick, and either lets it go on or
  queues it again and picks the next one.
\<close>

definition schedule :: "ptr \<Rightarrow> kernel \<Rightarrow> (ptr \<times> kernel) option" where
  "schedule stackPointer k =
     (let cur = currentProcess k
      in if cur = NULL then pickNextProcess k
         else do {
           k \<leftarrow> upd_pcb cur (\<lambda>pr. pr\<lparr>stack := stackPointer\<rparr>) k;
           if cur = idleProcess k then pickNextProcess k
           else do {
             pr \<leftarrow> pcb k cur;
             if state pr = RUNNING \<and> quantumLeft pr - 1 \<noteq> 0
             then do {
               k \<leftarrow> upd_pcb cur (\<lambda>pr. pr\<lparr>quantumLeft := quantumLeft pr - 1\<rparr>) k;
               Some (stackPointer, k)
             }
             else do {
               k \<leftarrow> (if state pr = RUNNING
                    then upd_pcb cur (\<lambda>pr. pr\<lparr>quantumLeft := quantumLeft pr - 1, state := READY\<rparr>) k
                    else Some k);
               pr \<leftarrow> pcb k cur;
               k \<leftarrow> (if state pr = READY then Enqueue_ready (priority pr) cur k else Some k);
               pickNextProcess k
             }
           }
         })"

text \<open>
  \<open>int 0x20\<close>: the interrupt stub calls \<open>irqDispatcher\<close>, \<open>timer_handler\<close> counts the tick and calls the
  scheduler, and the stub loads the stack pointer it returns.
\<close>

definition timer_handler :: "ptr \<Rightarrow> kernel \<Rightarrow> (ptr \<times> kernel) option" where
  "timer_handler stackPointer k = schedule stackPointer (k\<lparr>ticks := ticks k + 1\<rparr>)"

definition timerInterrupt :: "ptr \<Rightarrow> kernel \<Rightarrow> ('a ctl \<times> kernel) option" where
  "timerInterrupt sp k = do { (sp', k) \<leftarrow> timer_handler sp k; Some (Switch sp', k) }"

section \<open>Creating processes\<close>

definition addProcess :: "ptr \<Rightarrow> 16 word list option \<Rightarrow> kernel \<Rightarrow> (u64 \<times> kernel) option" where
  "addProcess stackPointer fds k =
     (let (m, p) = mem_alloc (kmem k) sizeof_ProcessCDT
      in if p = NULL then Some (0, k\<lparr>kmem := m\<rparr>)
         else do {
           f \<leftarrow> fds;
           _ \<leftarrow> (if length f < 3 then None else Some ());
           let i = lastPid k;
           let (ch, m) = l_new mem_alloc m;
           let (re, m) = l_new mem_alloc m;
           let pr = \<lparr>basePointer = NULL, stack = stackPointer, argv = None, pid = i, nombre = NULL,
                     state = READY, priority = DEFAULT_PRIORITY, parent = currentProcess k,
                     children = ch, reaped = re, waitingPid = -1, fileDescriptors = take 3 f,
                     quantumLeft = QUANTUM, foreground = False\<rparr>;
           let (t, m) = l_add mem_alloc (processTable k) p m;
           let k = k\<lparr>kmem := m, procs := (procs k)(p \<mapsto> pr), processTable := t, lastPid := i + 1\<rparr>;
           k \<leftarrow> Enqueue_ready DEFAULT_PRIORITY p k;
           k \<leftarrow> (if currentProcess k \<noteq> NULL then add_child (currentProcess k) i k else Some k);
           Some (i, k)
         })"

definition addProcessInfo ::
    "u64 \<Rightarrow> ptr \<Rightarrow> ptr \<Rightarrow> (ptr \<times> (ptr \<times> string) list) option \<Rightarrow> bool \<Rightarrow> kernel \<Rightarrow> kernel option" where
  "addProcessInfo i name base av fg k =
     (let p = getProcessByPid i k
      in if p = NULL then Some k
         else upd_pcb p (\<lambda>pr. pr\<lparr>nombre := name, basePointer := base, argv := av, foreground := fg\<rparr>) k)"

section \<open>Changing state\<close>

definition changeProcessPriority :: "ptr \<Rightarrow> u64 \<Rightarrow> u8 \<Rightarrow> kernel \<Rightarrow> (unit ctl \<times> kernel) option" where
  "changeProcessPriority sp i newPriority k =
     (let p = getProcessByPid i k
      in if unat newPriority \<ge> PRIO \<or> p = NULL then Some (Ret (), k)
         else do {
           pr \<leftarrow> pcb k p;
           if priority pr = newPriority then Some (Ret (), k)
           else if state pr = BLOCKED
           then do { k \<leftarrow> upd_pcb p (\<lambda>pr. pr\<lparr>priority := newPriority\<rparr>) k; Some (Ret (), k) }
           else if state pr = ZOMBIE then Some (Ret (), k)
           else do {
             k \<leftarrow> RemoveFrom_ready (priority pr) (pid pr) k;
             k \<leftarrow> upd_pcb p (\<lambda>pr. pr\<lparr>priority := newPriority\<rparr>) k;
             k \<leftarrow> Enqueue_ready newPriority p k;
             if state pr = RUNNING then timerInterrupt sp (k\<lparr>currentProcess := NULL\<rparr>)
             else Some (Ret (), k)
           }
         })"

definition addProcessToBlockQueue :: "u64 \<Rightarrow> kernel \<Rightarrow> kernel option" where
  "addProcessToBlockQueue i k =
     do {
       own \<leftarrow> (if currentProcess k = NULL then Some False
              else do { pr \<leftarrow> pcb k (currentProcess k); Some (pid pr = i) });
       if own
       then do {
         pr \<leftarrow> pcb k (currentProcess k);
         if state pr = BLOCKED then Some k
         else do {
           k \<leftarrow> upd_pcb (currentProcess k) (\<lambda>pr. pr\<lparr>state := BLOCKED\<rparr>) k;
           Enqueue_blocked (currentProcess k) k
         }
       }
       else (let p = getProcessByPid i k
             in if p = NULL then Some k
                else do {
                  pr \<leftarrow> pcb k p;
                  k \<leftarrow> RemoveFrom_ready (priority pr) (pid pr) k;
                  k \<leftarrow> upd_pcb p (\<lambda>pr. pr\<lparr>state := BLOCKED\<rparr>) k;
                  Enqueue_blocked p k
                })
     }"

definition blockProcess :: "ptr \<Rightarrow> u64 \<Rightarrow> kernel \<Rightarrow> (unit ctl \<times> kernel) option" where
  "blockProcess sp i k =
     do {
       k \<leftarrow> addProcessToBlockQueue i k;
       pr \<leftarrow> pcb k (currentProcess k);
       if i = pid pr then timerInterrupt sp k else Some (Ret (), k)
     }"

definition unblockProcess :: "u64 \<Rightarrow> kernel \<Rightarrow> kernel option" where
  "unblockProcess i k =
     (let p = getProcessByPid i k
      in if p = NULL then Some k
         else do {
           pr \<leftarrow> pcb k p;
           k \<leftarrow> RemoveFrom_blocked (pid pr) k;
           k \<leftarrow> upd_pcb p (\<lambda>pr. pr\<lparr>state := READY\<rparr>) k;
           Enqueue_ready (priority pr) p k
         })"

text \<open>The function \<open>yield\<close>.\<close>

definition yield_cpu :: "ptr \<Rightarrow> kernel \<Rightarrow> (unit ctl \<times> kernel) option" where
  "yield_cpu sp k =
     do { k \<leftarrow> upd_pcb (currentProcess k) (\<lambda>pr. pr\<lparr>quantumLeft := 1\<rparr>) k; timerInterrupt sp k }"

definition getPid :: "kernel \<Rightarrow> u64 option" where
  "getPid k = map_option pid (pcb k (currentProcess k))"

section \<open>Terminating and waiting\<close>

definition deleteProcess :: "ptr \<Rightarrow> kernel \<Rightarrow> kernel option" where
  "deleteProcess p k =
     do {
       pr \<leftarrow> pcb k p;
       k \<leftarrow> RemoveFrom_table (pid pr) k;
       k \<leftarrow> (if basePointer pr \<noteq> NULL then do_free (basePointer pr) k else Some k);
       k \<leftarrow> (case argv pr of None \<Rightarrow> Some k
            | Some (arr, args) \<Rightarrow>
                do { m \<leftarrow> free_nodes mem_free args (kmem k); do_free arr (k\<lparr>kmem := m\<rparr>) });
       m \<leftarrow> l_free mem_free (children pr) (kmem k);
       m \<leftarrow> l_free mem_free (reaped pr) m;
       do_free p (k\<lparr>kmem := m\<rparr>)
     }"

text \<open>The two loops of \<open>terminateProcess\<close>: children lose their parent, zombies already reaped go.\<close>

partial_function (option) orphan_children :: "ptr \<Rightarrow> kernel \<Rightarrow> kernel option" where
  "orphan_children p k =
     do {
       pr \<leftarrow> pcb k p;
       empty \<leftarrow> l_empty (children pr);
       if empty then Some k
       else do {
         let childPid = l_find alwaysTrue (children pr);
         let childProc = getProcessByPid childPid k;
         k \<leftarrow> (if childProc \<noteq> NULL then upd_pcb childProc (\<lambda>pr. pr\<lparr>parent := NULL\<rparr>) k else Some k);
         k \<leftarrow> remove_child p childPid k;
         orphan_children p k
       }
     }"

partial_function (option) delete_reaped :: "ptr \<Rightarrow> kernel \<Rightarrow> kernel option" where
  "delete_reaped p k =
     do {
       pr \<leftarrow> pcb k p;
       empty \<leftarrow> l_empty (reaped pr);
       if empty then Some k
       else do {
         let reapedPid = l_find alwaysTrue (reaped pr);
         let zombieProc = getProcessByPid reapedPid k;
         k \<leftarrow> remove_reaped p reapedPid k;
         k \<leftarrow> (if zombieProc \<noteq> NULL then deleteProcess zombieProc k else Some k);
         delete_reaped p k
       }
     }"

text \<open>Telling the parent, or deleting at once a process that has none.\<close>

definition notify_parent :: "ptr \<Rightarrow> kernel \<Rightarrow> kernel option" where
  "notify_parent p k =
     do {
       pr \<leftarrow> pcb k p;
       if parent pr \<noteq> NULL
       then do {
         k \<leftarrow> remove_child (parent pr) (pid pr) k;
         k \<leftarrow> add_reaped (parent pr) (pid pr) k;
         pa \<leftarrow> pcb k (parent pr);
         if (waitingPid pa = 0 \<or> waitingPid pa = pid pr) \<and> state pa = BLOCKED
         then unblockProcess (pid pa) k
         else Some k
       }
       else deleteProcess p k
     }"

definition terminateProcess :: "ptr \<Rightarrow> u64 \<Rightarrow> kernel \<Rightarrow> (int ctl \<times> kernel) option" where
  "terminateProcess sp i k =
     (let p = getProcessByPid i k
      in if p = NULL then Some (Ret (-1), k)
         else do {
           pr \<leftarrow> pcb k p;
           k \<leftarrow> RemoveFrom_ready (priority pr) (pid pr) k;
           k \<leftarrow> RemoveFrom_blocked (pid pr) k;
           k \<leftarrow> orphan_children p k;
           k \<leftarrow> delete_reaped p k;
           k \<leftarrow> upd_pcb p (\<lambda>pr. pr\<lparr>state := ZOMBIE\<rparr>) k;
           k \<leftarrow> notify_parent p k;
           if currentProcess k = p then timerInterrupt sp k else Some (Ret 0, k)
         })"

text \<open>\<open>wait\<close> and \<open>waitPid\<close>: up to the possible switch, then the part that reaps the child.\<close>

definition wait_resume :: "ptr \<Rightarrow> kernel \<Rightarrow> (u64 \<times> kernel) option" where
  "wait_resume process k =
     do {
       pr \<leftarrow> pcb k process;
       let reapedPid = l_find alwaysTrue (reaped pr);
       let reapedProcess = getProcessByPid reapedPid k;
       if reapedProcess = NULL then Some (-1, k)
       else do {
         k \<leftarrow> remove_reaped process reapedPid k;
         k \<leftarrow> deleteProcess reapedProcess k;
         Some (reapedPid, k)
       }
     }"

definition wait_any :: "ptr \<Rightarrow> kernel \<Rightarrow> (u64 ctl \<times> kernel) option" where
  "wait_any sp k =
     (let process = currentProcess k
      in do {
        pr \<leftarrow> pcb k process;
        empty \<leftarrow> l_empty (reaped pr);
        if empty
        then do {
          k \<leftarrow> upd_pcb process (\<lambda>pr. pr\<lparr>waitingPid := 0\<rparr>) k;
          (r, k) \<leftarrow> blockProcess sp (pid pr) k;
          (case r of Switch sp' \<Rightarrow> Some (Switch sp', k)
           | Ret _ \<Rightarrow> do { (i, k) \<leftarrow> wait_resume process k; Some (Ret i, k) })
        }
        else do { (i, k) \<leftarrow> wait_resume process k; Some (Ret i, k) }
      })"

definition waitPid_resume :: "ptr \<Rightarrow> ptr \<Rightarrow> u64 \<Rightarrow> kernel \<Rightarrow> (u64 \<times> kernel) option" where
  "waitPid_resume parentProcess waitingProcess i k =
     do {
       k \<leftarrow> remove_reaped parentProcess i k;
       k \<leftarrow> deleteProcess waitingProcess k;
       Some (i, k)
     }"

definition waitPid :: "ptr \<Rightarrow> u64 \<Rightarrow> kernel \<Rightarrow> (u64 ctl \<times> kernel) option" where
  "waitPid sp i k =
     (let waitingProcess = getProcessByPid i k; parentProcess = currentProcess k
      in if waitingProcess = NULL \<or> parentProcess = NULL then Some (Ret (-1), k)
         else do {
           w \<leftarrow> pcb k waitingProcess;
           if state w \<noteq> ZOMBIE
           then do {
             k \<leftarrow> upd_pcb parentProcess (\<lambda>pr. pr\<lparr>waitingPid := i\<rparr>) k;
             pr \<leftarrow> pcb k parentProcess;
             (r, k) \<leftarrow> blockProcess sp (pid pr) k;
             (case r of Switch sp' \<Rightarrow> Some (Switch sp', k)
              | Ret _ \<Rightarrow> do { (j, k) \<leftarrow> waitPid_resume parentProcess waitingProcess i k; Some (Ret j, k) })
           }
           else do { (j, k) \<leftarrow> waitPid_resume parentProcess waitingProcess i k; Some (Ret j, k) }
         })"

section \<open>Queries\<close>

definition matchForeground :: "kernel \<Rightarrow> ptr \<Rightarrow> bool" where
  "matchForeground k p =
     (case procs k p of None \<Rightarrow> False | Some pr \<Rightarrow> foreground pr \<and> state pr \<noteq> ZOMBIE)"

definition getForegroundPid :: "kernel \<Rightarrow> u64 option" where
  "getForegroundPid k =
     (let p = l_find (matchForeground k) (processTable k)
      in if p = NULL then Some 0 else map_option pid (pcb k p))"

definition getProcesFd :: "int \<Rightarrow> kernel \<Rightarrow> 16 word option" where
  "getProcesFd fdIdx k =
     do { pr \<leftarrow> pcb k (currentProcess k);
          if 0 \<le> fdIdx \<and> fdIdx < int (length (fileDescriptors pr))
          then Some (fileDescriptors pr ! nat fdIdx) else None }"

definition getProcessStatus :: "u64 \<Rightarrow> kernel \<Rightarrow> int option" where
  "getProcessStatus i k =
     (let p = getProcessByPid i k
      in if p = NULL then Some (-1) else map_option (\<lambda>pr. int (state_code (state pr))) (pcb k p))"

end
