(* ===== verification/Process.thy ===== *)
theory Process
  imports Sched
begin

text \<open>
  \<open>Kernel/proc/process.c\<close>: creating a process (its stack, the heap copy of its arguments, its control
  block) and killing it, and the initialisation of the scheduler, which creates the idle process.
\<close>

abbreviation STACK_SIZE :: u64 where "STACK_SIZE \<equiv> 4096"

text \<open>An argument vector is \<open>None\<close> for the null pointer, otherwise its strings up to the null entry.\<close>

definition argsLen :: "string list option \<Rightarrow> nat" where
  "argsLen args = (case args of None \<Rightarrow> 0 | Some ss \<Rightarrow> length ss)"

text \<open>
  The copy loop of \<open>dupArgs\<close>: \<open>acc\<close> holds the copies made so far, which are freed in order when an
  allocation fails.
\<close>

fun dup_strings ::
    "string list \<Rightarrow> (ptr \<times> string) list \<Rightarrow> pmem \<Rightarrow> ((ptr \<times> string) list option \<times> pmem) option" where
  "dup_strings [] acc m = Some (Some acc, m)"
| "dup_strings (s # ss) acc m =
     (let (m, a) = mem_alloc m (of_nat (length s + 1))
      in if a = NULL then do { m \<leftarrow> free_nodes mem_free acc m; Some (None, m) }
         else dup_strings ss (acc @ [(a, s)]) m)"

definition dupArgs ::
    "string list option \<Rightarrow> pmem \<Rightarrow> ((ptr \<times> (ptr \<times> string) list) option \<times> pmem) option" where
  "dupArgs args m =
     (case args of
        Some (s # ss) \<Rightarrow>
          (let count = argsLen args; (m, newArgs) = mem_alloc m (of_nat ((count + 1) * 8))
           in if newArgs = NULL then Some (None, m)
              else do {
                (r, m) \<leftarrow> dup_strings (s # ss) [] m;
                (case r of
                   None \<Rightarrow> do { m \<leftarrow> mem_free m newArgs; Some (None, m) }
                 | Some copies \<Rightarrow> Some (Some (newArgs, copies), m))
              })
      | _ \<Rightarrow>
          (let (m, newArgs) = mem_alloc m 8
           in if newArgs = NULL then Some (None, m) else Some (Some (newArgs, []), m)))"

text \<open>
  \<open>arch/x86_64/asm/processes.asm\<close> pushes the interrupt frame (5 words) and the registers (15 words)
  on the new stack and returns the pointer below them.
\<close>

definition initializeProcess :: "ptr \<Rightarrow> ptr" where
  "initializeProcess stackEnd = stackEnd - 8 * (5 + 15)"

definition createProcess ::
    "ptr \<Rightarrow> string list option \<Rightarrow> 16 word list option \<Rightarrow> bool \<Rightarrow> kernel \<Rightarrow> (u64 \<times> kernel) option" where
  "createProcess name args fds fg k =
     (let (m, stackStart) = mem_alloc (kmem k) STACK_SIZE
      in if stackStart = NULL then Some (0, k\<lparr>kmem := m\<rparr>)
         else do {
           (newArgv, m) \<leftarrow> dupArgs args m;
           if newArgv = None \<and> args \<noteq> None
           then do { m \<leftarrow> mem_free m stackStart; Some (0, k\<lparr>kmem := m\<rparr>) }
           else do {
             (newProc, k) \<leftarrow> addProcess (initializeProcess (stackStart + STACK_SIZE)) fds (k\<lparr>kmem := m\<rparr>);
             k \<leftarrow> (if newProc \<noteq> 0 then addProcessInfo newProc name stackStart newArgv fg k else Some k);
             Some (newProc, k)
           }
         })"

definition killProcess :: "ptr \<Rightarrow> u64 \<Rightarrow> kernel \<Rightarrow> (int ctl \<times> kernel) option" where
  "killProcess sp i k = terminateProcess sp i k"

text \<open>
  \<open>startWrapper\<close> after \<open>main\<close> has returned: the process kills itself.
\<close>

definition startWrapper_exit :: "ptr \<Rightarrow> kernel \<Rightarrow> (int ctl \<times> kernel) option" where
  "startWrapper_exit sp k = do { i \<leftarrow> getPid k; killProcess sp i k }"

text \<open>
  \<open>initializeScheduler\<close>, on any previous content of the static variables. The name of the idle process
  is a string literal of the kernel image, at \<open>idle_name\<close>.
\<close>

fun new_queues :: "nat \<Rightarrow> pmem \<Rightarrow> queue list \<times> pmem" where
  "new_queues 0 m = ([], m)"
| "new_queues (Suc n) m =
     (let (q, m) = q_new mem_alloc m; (qs, m) = new_queues n m in (q # qs, m))"

definition initializeScheduler :: "ptr \<Rightarrow> kernel \<Rightarrow> kernel option" where
  "initializeScheduler idle_name k =
     (let (t, m) = l_new mem_alloc (kmem k);
          (qs, m) = new_queues PRIO m;
          k = refill_credits (k\<lparr>processTable := t, priorityQueues := qs, currentProcess := NULL,
                               weights := map (\<lambda>i. of_nat (PRIO - i)) [0..<PRIO]\<rparr>);
          (b, m) = q_new mem_alloc m
      in do {
        (_, k) \<leftarrow> createProcess idle_name None (Some [0, 1, 2]) False (k\<lparr>kmem := m, blockedQueue := b\<rparr>);
        (p, k) \<leftarrow> Dequeue_ready (unat DEFAULT_PRIORITY) k;
        Some (k\<lparr>idleProcess := p\<rparr>)
      })"

end
