(* ===== verification/SchedInv.thy ===== *)
theory SchedInv
  imports Process
begin

text \<open>
  The invariants of the scheduler. \<open>sched_inv\<close>: the table holds distinct control blocks with distinct
  identifiers; each ready queue holds exactly the processes that are READY at its priority, the blocked
  queue exactly the BLOCKED ones, the idle process is in none; at most the current process is RUNNING.
  \<open>mem_ok R k\<close>: every container, control block, stack and argument vector is a live block of the memory
  manager with one owner (\<open>R\<close> are the blocks that other parts of the kernel and the user own).
\<close>

section \<open>Views of the state\<close>

definition table :: "kernel \<Rightarrow> ptr list" where
  "table k = items (processTable k)"

definition ready :: "kernel \<Rightarrow> nat \<Rightarrow> ptr list" where
  "ready k i = items (priorityQueues k ! i)"

definition blocked :: "kernel \<Rightarrow> ptr list" where
  "blocked k = items (blockedQueue k)"

definition pr_of :: "kernel \<Rightarrow> ptr \<Rightarrow> ProcessCDT" where
  "pr_of k p = the (procs k p)"

abbreviation st_of :: "kernel \<Rightarrow> ptr \<Rightarrow> ProcessState" where
  "st_of k p \<equiv> state (pr_of k p)"

abbreviation level :: "kernel \<Rightarrow> ptr \<Rightarrow> nat" where
  "level k p \<equiv> unat (priority (pr_of k p))"

section \<open>Owned blocks\<close>

definition proc_blocks :: "ptr \<Rightarrow> ProcessCDT \<Rightarrow> ptr multiset" where
  "proc_blocks p pr =
     {#p#} + mset (blocks (children pr)) + mset (blocks (reaped pr)) +
     (if basePointer pr \<noteq> NULL then {#basePointer pr#} else {#}) +
     (case argv pr of None \<Rightarrow> {#} | Some (arr, args) \<Rightarrow> {#arr#} + mset (map fst args))"

definition queues_blocks :: "queue list \<Rightarrow> ptr multiset" where
  "queues_blocks qs = (\<Sum>q\<leftarrow>qs. mset (blocks q))"

definition table_blocks :: "kernel \<Rightarrow> ptr multiset" where
  "table_blocks k = (\<Sum>p\<leftarrow>table k. proc_blocks p (pr_of k p))"

definition owned :: "kernel \<Rightarrow> ptr multiset" where
  "owned k = queues_blocks (priorityQueues k) + mset (blocks (blockedQueue k)) +
             mset (blocks (processTable k)) + table_blocks k"

definition mem_ok :: "ptr multiset \<Rightarrow> kernel \<Rightarrow> bool" where
  "mem_ok R k \<longleftrightarrow> bm.owns (R + owned k) (kmem k)"

abbreviation pages_left :: "kernel \<Rightarrow> nat" where
  "pages_left k \<equiv> unat (free_pages (kmem k))"

lemma view_simps [simp]:
  "table (k\<lparr>kmem := m\<rparr>) = table k" "table (k\<lparr>procs := f\<rparr>) = table k"
  "table (k\<lparr>currentProcess := c\<rparr>) = table k" "table (k\<lparr>priorityQueues := qs\<rparr>) = table k"
  "table (k\<lparr>credits := cs\<rparr>) = table k" "table (k\<lparr>blockedQueue := b\<rparr>) = table k"
  "table (k\<lparr>ticks := t\<rparr>) = table k" "table (k\<lparr>lastPid := l\<rparr>) = table k"
  "table (k\<lparr>processTable := q\<rparr>) = items q"
  "ready (k\<lparr>kmem := m\<rparr>) = ready k" "ready (k\<lparr>procs := f\<rparr>) = ready k"
  "ready (k\<lparr>currentProcess := c\<rparr>) = ready k" "ready (k\<lparr>processTable := q\<rparr>) = ready k"
  "ready (k\<lparr>credits := cs\<rparr>) = ready k" "ready (k\<lparr>blockedQueue := b\<rparr>) = ready k"
  "ready (k\<lparr>ticks := t\<rparr>) = ready k" "ready (k\<lparr>lastPid := l\<rparr>) = ready k"
  "ready (k\<lparr>priorityQueues := qs\<rparr>) i = items (qs ! i)"
  "blocked (k\<lparr>kmem := m\<rparr>) = blocked k" "blocked (k\<lparr>procs := f\<rparr>) = blocked k"
  "blocked (k\<lparr>currentProcess := c\<rparr>) = blocked k" "blocked (k\<lparr>priorityQueues := qs\<rparr>) = blocked k"
  "blocked (k\<lparr>credits := cs\<rparr>) = blocked k" "blocked (k\<lparr>processTable := q\<rparr>) = blocked k"
  "blocked (k\<lparr>ticks := t\<rparr>) = blocked k" "blocked (k\<lparr>lastPid := l\<rparr>) = blocked k"
  "blocked (k\<lparr>blockedQueue := b\<rparr>) = items b"
  "pr_of (k\<lparr>kmem := m\<rparr>) = pr_of k" "pr_of (k\<lparr>processTable := q\<rparr>) = pr_of k"
  "pr_of (k\<lparr>currentProcess := c\<rparr>) = pr_of k" "pr_of (k\<lparr>priorityQueues := qs\<rparr>) = pr_of k"
  "pr_of (k\<lparr>credits := cs\<rparr>) = pr_of k" "pr_of (k\<lparr>blockedQueue := b\<rparr>) = pr_of k"
  "pr_of (k\<lparr>ticks := t\<rparr>) = pr_of k" "pr_of (k\<lparr>lastPid := l\<rparr>) = pr_of k"
  "pr_of (k\<lparr>procs := f\<rparr>) p = the (f p)"
  "table (k\<lparr>idleProcess := ip\<rparr>) = table k" "ready (k\<lparr>idleProcess := ip\<rparr>) = ready k"
  "blocked (k\<lparr>idleProcess := ip\<rparr>) = blocked k" "pr_of (k\<lparr>idleProcess := ip\<rparr>) = pr_of k"
  by (simp_all add: table_def ready_def blocked_def pr_of_def fun_eq_iff)

lemma table_blocks_simps [simp]:
  "table_blocks (k\<lparr>kmem := m\<rparr>) = table_blocks k"
  "table_blocks (k\<lparr>currentProcess := c\<rparr>) = table_blocks k"
  "table_blocks (k\<lparr>priorityQueues := qs\<rparr>) = table_blocks k"
  "table_blocks (k\<lparr>credits := cs\<rparr>) = table_blocks k"
  "table_blocks (k\<lparr>blockedQueue := b\<rparr>) = table_blocks k"
  "table_blocks (k\<lparr>ticks := t\<rparr>) = table_blocks k"
  "table_blocks (k\<lparr>lastPid := l\<rparr>) = table_blocks k"
  "table_blocks (k\<lparr>idleProcess := ip\<rparr>) = table_blocks k"
  by (simp_all add: table_blocks_def)

lemma owned_simps [simp]:
  "owned (k\<lparr>kmem := m\<rparr>) = owned k" "owned (k\<lparr>currentProcess := c\<rparr>) = owned k"
  "owned (k\<lparr>credits := cs\<rparr>) = owned k" "owned (k\<lparr>ticks := t\<rparr>) = owned k"
  "owned (k\<lparr>lastPid := l\<rparr>) = owned k" "owned (k\<lparr>idleProcess := ip\<rparr>) = owned k"
  by (simp_all add: owned_def)

lemma queues_blocks_update:
  "i < length qs \<Longrightarrow> \<exists>M. \<forall>q. queues_blocks (qs[i := q]) = M + mset (blocks q)"
proof (induction qs arbitrary: i)
  case (Cons a qs)
  show ?case
  proof (cases i)
    case 0
    then show ?thesis by (intro exI [of _ "queues_blocks qs"]) (simp add: queues_blocks_def ac_simps)
  next
    case (Suc j)
    with Cons obtain M where "\<forall>q. queues_blocks (qs[j := q]) = M + mset (blocks q)" by auto
    with Suc show ?thesis
      by (intro exI [of _ "mset (blocks a) + M"]) (simp add: queues_blocks_def ac_simps)
  qed
qed simp

text \<open>The blocks of one container, split off from the rest.\<close>

lemma owned_ready:
  assumes "i < length (priorityQueues k)"
  obtains M where "owned k = M + mset (blocks (priorityQueues k ! i))"
    and "\<And>q. owned (k\<lparr>priorityQueues := (priorityQueues k)[i := q]\<rparr>) = M + mset (blocks q)"
proof -
  from queues_blocks_update [OF assms] obtain M where
    M: "\<And>q. queues_blocks ((priorityQueues k)[i := q]) = M + mset (blocks q)" by blast
  let ?M = "M + mset (blocks (blockedQueue k)) + mset (blocks (processTable k)) + table_blocks k"
  have "queues_blocks (priorityQueues k) = M + mset (blocks (priorityQueues k ! i))"
    using M [of "priorityQueues k ! i"] by simp
  then have "owned k = ?M + mset (blocks (priorityQueues k ! i))" by (simp add: owned_def ac_simps)
  moreover have "owned (k\<lparr>priorityQueues := (priorityQueues k)[i := q]\<rparr>) = ?M + mset (blocks q)" for q
    using M [of q] by (simp add: owned_def ac_simps)
  ultimately show thesis using that by blast
qed

lemma owned_blocked:
  obtains M where "owned k = M + mset (blocks (blockedQueue k))"
    and "\<And>q. owned (k\<lparr>blockedQueue := q\<rparr>) = M + mset (blocks q)"
proof -
  let ?M = "queues_blocks (priorityQueues k) + mset (blocks (processTable k)) + table_blocks k"
  have "owned k = ?M + mset (blocks (blockedQueue k))"
    "\<And>q. owned (k\<lparr>blockedQueue := q\<rparr>) = ?M + mset (blocks q)"
    by (simp_all add: owned_def ac_simps)
  then show thesis using that by blast
qed

lemma owned_upd [simp]:
  assumes "proc_blocks p pr' = proc_blocks p (pr_of k p)"
  shows "owned (k\<lparr>procs := (procs k)(p \<mapsto> pr')\<rparr>) = owned k"
proof -
  have "table_blocks (k\<lparr>procs := (procs k)(p \<mapsto> pr')\<rparr>) = table_blocks k"
    unfolding table_blocks_def view_simps
    by (intro arg_cong [where f = sum_list] map_cong refl) (use assms in \<open>auto simp: pr_of_def\<close>)
  then show ?thesis by (simp add: owned_def)
qed

text \<open>One control block, split off from the rest.\<close>

lemma table_blocks_split:
  assumes "p \<in> set (table k)" and "distinct (table k)"
  obtains M where "table_blocks k = M + proc_blocks p (pr_of k p)"
    and "\<And>pr. table_blocks (k\<lparr>procs := (procs k)(p \<mapsto> pr)\<rparr>) = M + proc_blocks p pr"
    and "M = (\<Sum>q\<leftarrow>remove1 p (table k). proc_blocks q (pr_of k q))"
proof -
  let ?M = "\<Sum>q\<leftarrow>remove1 p (table k). proc_blocks q (pr_of k q)"
  have split: "(\<Sum>q\<leftarrow>table k. f q) = (\<Sum>q\<leftarrow>remove1 p (table k). f q) + f p"
    for f :: "ptr \<Rightarrow> ptr multiset"
    using assms(1) by (simp add: sum_list_map_remove1 add.commute)
  have notin: "p \<notin> set (remove1 p (table k))" using assms(2) by simp
  have "table_blocks (k\<lparr>procs := (procs k)(p \<mapsto> pr)\<rparr>) = ?M + proc_blocks p pr" for pr
  proof -
    have "(\<Sum>q\<leftarrow>remove1 p (table k). proc_blocks q (pr_of (k\<lparr>procs := (procs k)(p \<mapsto> pr)\<rparr>) q)) = ?M"
      by (intro arg_cong [where f = sum_list] map_cong refl) (use notin in \<open>auto simp: pr_of_def\<close>)
    then show ?thesis
      unfolding table_blocks_def view_simps(2) split [of "\<lambda>q. proc_blocks q (pr_of _ q)"]
      by (simp del: view_simps) (simp add: pr_of_def)
  qed
  moreover have "table_blocks k = ?M + proc_blocks p (pr_of k p)"
    unfolding table_blocks_def by (rule split)
  ultimately show thesis using that by blast
qed

section \<open>Effects of the container calls\<close>

lemma upd_pcb_eq:
  "procs k p = Some pr \<Longrightarrow> p \<noteq> NULL \<Longrightarrow>
     upd_pcb p f k = Some (k\<lparr>procs := (procs k)(p \<mapsto> f pr)\<rparr>)"
  by (simp add: upd_pcb_def pcb_def)

lemma Enqueue_ready_eff:
  assumes "mem_ok R k" and "0 < pages_left k" and "unat pr < length (priorityQueues k)"
    and "priorityQueues k ! unat pr \<noteq> None" and "p \<noteq> NULL"
  shows "\<exists>q m. Enqueue_ready pr p k =
             Some (k\<lparr>kmem := m, priorityQueues := (priorityQueues k)[unat pr := q]\<rparr>) \<and>
           items q = ready k (unat pr) @ [p] \<and> q \<noteq> None \<and> pages_left k \<le> unat (free_pages m) + 1 \<and>
           mem_ok R (k\<lparr>kmem := m, priorityQueues := (priorityQueues k)[unat pr := q]\<rparr>)"
proof -
  obtain M where M: "owned k = M + mset (blocks (priorityQueues k ! unat pr))"
    "\<And>q. owned (k\<lparr>priorityQueues := (priorityQueues k)[unat pr := q]\<rparr>) = M + mset (blocks q)"
    using owned_ready [OF assms(3)] by blast
  have own: "bm.owns ((R + M) + mset (blocks (priorityQueues k ! unat pr))) (kmem k)"
    using assms(1) M(1) by (simp add: mem_ok_def ac_simps)
  from bm.q_enq_succeeds [OF bm.owns_inv [OF own] assms(2)] obtain q m where
    e: "q_enq mem_alloc (priorityQueues k ! unat pr) p (kmem k) = Some (q, m)"
      and av: "pages_left k \<le> unat (free_pages m) + 1" by blast
  have "bm.owns ((R + M) + mset (blocks q)) m" by (rule bm.owns_q_enq [OF own e])
  moreover have "owned (k\<lparr>kmem := m, priorityQueues := (priorityQueues k)[unat pr := q]\<rparr>)
      = M + mset (blocks q)"
    using M(2) [of q] by (simp add: owned_def)
  ultimately have "mem_ok R (k\<lparr>kmem := m, priorityQueues := (priorityQueues k)[unat pr := q]\<rparr>)"
    by (simp add: mem_ok_def ac_simps)
  with q_enq_items [OF e] e av assms(3-5) show ?thesis
    by (auto simp: Enqueue_ready_def ready_def)
qed

lemma Dequeue_ready_eff:
  assumes "mem_ok R k" and "i < length (priorityQueues k)" and "ready k i = p # ps"
  shows "\<exists>q m. Dequeue_ready i k =
             Some (p, k\<lparr>kmem := m, priorityQueues := (priorityQueues k)[i := q]\<rparr>) \<and>
           items q = ps \<and> q \<noteq> None \<and> pages_left k \<le> unat (free_pages m) \<and>
           mem_ok R (k\<lparr>kmem := m, priorityQueues := (priorityQueues k)[i := q]\<rparr>)"
proof -
  obtain M where M: "owned k = M + mset (blocks (priorityQueues k ! i))"
    "\<And>q. owned (k\<lparr>priorityQueues := (priorityQueues k)[i := q]\<rparr>) = M + mset (blocks q)"
    using owned_ready [OF assms(2)] by blast
  have own: "bm.owns ((R + M) + mset (blocks (priorityQueues k ! i))) (kmem k)"
    using assms(1) M(1) by (simp add: mem_ok_def ac_simps)
  from bm.owns_q_deq [OF own] obtain x q m where
    d: "q_deq mem_free (priorityQueues k ! i) (kmem k) = Some (x, q, m)"
      "bm.owns ((R + M) + mset (blocks q)) m"
      "p # ps = x # items q"
      "q = None \<longleftrightarrow> priorityQueues k ! i = None"
    unfolding assms(3) [unfolded ready_def] by (simp only: list.simps if_False) metis
  have "owned (k\<lparr>kmem := m, priorityQueues := (priorityQueues k)[i := q]\<rparr>) = M + mset (blocks q)"
    using M(2) [of q] by (simp add: owned_def)
  with d(2) have "mem_ok R (k\<lparr>kmem := m, priorityQueues := (priorityQueues k)[i := q]\<rparr>)"
    by (simp add: mem_ok_def ac_simps)
  moreover have "\<exists>a b. priorityQueues k ! i = Some (a, b)"
    using assms(3) by (cases "priorityQueues k ! i") (auto simp: ready_def)
  ultimately show ?thesis
    using d assms(2,3) bm.q_deq_avail [OF own d(1)]
    by (intro exI [of _ q] exI [of _ m]) (simp add: Dequeue_ready_def)
qed

lemma RemoveFrom_ready_eff:
  assumes "mem_ok R k" and "unat pr < length (priorityQueues k)"
  shows "\<exists>q m. RemoveFrom_ready pr i k =
             Some (k\<lparr>kmem := m, priorityQueues := (priorityQueues k)[unat pr := q]\<rparr>) \<and>
           items q = drop_first (matchPid k i) (ready k (unat pr)) \<and>
           (q = None \<longleftrightarrow> priorityQueues k ! unat pr = None) \<and> pages_left k \<le> unat (free_pages m) \<and>
           mem_ok R (k\<lparr>kmem := m, priorityQueues := (priorityQueues k)[unat pr := q]\<rparr>)"
proof -
  obtain M where M: "owned k = M + mset (blocks (priorityQueues k ! unat pr))"
    "\<And>q. owned (k\<lparr>priorityQueues := (priorityQueues k)[unat pr := q]\<rparr>) = M + mset (blocks q)"
    using owned_ready [OF assms(2)] by blast
  have own: "bm.owns ((R + M) + mset (blocks (priorityQueues k ! unat pr))) (kmem k)"
    using assms(1) M(1) by (simp add: mem_ok_def ac_simps)
  from bm.owns_remove_chain [OF own, of "matchPid k i"] obtain q m where
    d: "q_remove mem_free (matchPid k i) (priorityQueues k ! unat pr) (kmem k) = Some (q, m)"
      "bm.owns ((R + M) + mset (blocks q)) m"
      "items q = drop_first (matchPid k i) (ready k (unat pr))"
      "q = None \<longleftrightarrow> priorityQueues k ! unat pr = None" by (auto simp: ready_def)
  have "owned (k\<lparr>kmem := m, priorityQueues := (priorityQueues k)[unat pr := q]\<rparr>) = M + mset (blocks q)"
    using M(2) [of q] by (simp add: owned_def)
  with d(2) have "mem_ok R (k\<lparr>kmem := m, priorityQueues := (priorityQueues k)[unat pr := q]\<rparr>)"
    by (simp add: mem_ok_def ac_simps)
  with d assms(2) bm.remove_chain_avail [OF own d(1)] show ?thesis
    by (intro exI [of _ q] exI [of _ m]) (simp add: RemoveFrom_ready_def)
qed

lemma Enqueue_blocked_eff:
  assumes "mem_ok R k" and "0 < pages_left k" and "blockedQueue k \<noteq> None" and "p \<noteq> NULL"
  shows "\<exists>q m. Enqueue_blocked p k = Some (k\<lparr>kmem := m, blockedQueue := q\<rparr>) \<and>
           items q = blocked k @ [p] \<and> q \<noteq> None \<and> pages_left k \<le> unat (free_pages m) + 1 \<and> mem_ok R (k\<lparr>kmem := m, blockedQueue := q\<rparr>)"
proof -
  obtain M where M: "owned k = M + mset (blocks (blockedQueue k))"
    "\<And>q. owned (k\<lparr>blockedQueue := q\<rparr>) = M + mset (blocks q)" using owned_blocked by blast
  have own: "bm.owns ((R + M) + mset (blocks (blockedQueue k))) (kmem k)"
    using assms(1) M(1) by (simp add: mem_ok_def ac_simps)
  from bm.q_enq_succeeds [OF bm.owns_inv [OF own] assms(2)] obtain q m where
    e: "q_enq mem_alloc (blockedQueue k) p (kmem k) = Some (q, m)"
      and av: "pages_left k \<le> unat (free_pages m) + 1" by blast
  have "bm.owns ((R + M) + mset (blocks q)) m" by (rule bm.owns_q_enq [OF own e])
  moreover have "owned (k\<lparr>kmem := m, blockedQueue := q\<rparr>) = M + mset (blocks q)"
    using M(2) [of q] by (simp add: owned_def)
  ultimately have "mem_ok R (k\<lparr>kmem := m, blockedQueue := q\<rparr>)" by (simp add: mem_ok_def ac_simps)
  with q_enq_items [OF e] e av assms(3,4) show ?thesis
    by (auto simp: Enqueue_blocked_def blocked_def)
qed

lemma RemoveFrom_blocked_eff:
  assumes "mem_ok R k"
  shows "\<exists>q m. RemoveFrom_blocked i k = Some (k\<lparr>kmem := m, blockedQueue := q\<rparr>) \<and>
           items q = drop_first (matchPid k i) (blocked k) \<and>
           (q = None \<longleftrightarrow> blockedQueue k = None) \<and> pages_left k \<le> unat (free_pages m) \<and>
           mem_ok R (k\<lparr>kmem := m, blockedQueue := q\<rparr>)"
proof -
  obtain M where M: "owned k = M + mset (blocks (blockedQueue k))"
    "\<And>q. owned (k\<lparr>blockedQueue := q\<rparr>) = M + mset (blocks q)" using owned_blocked by blast
  have own: "bm.owns ((R + M) + mset (blocks (blockedQueue k))) (kmem k)"
    using assms(1) M(1) by (simp add: mem_ok_def ac_simps)
  from bm.owns_remove_chain [OF own, of "matchPid k i"] obtain q m where
    d: "q_remove mem_free (matchPid k i) (blockedQueue k) (kmem k) = Some (q, m)"
      "bm.owns ((R + M) + mset (blocks q)) m" "items q = drop_first (matchPid k i) (blocked k)"
      "q = None \<longleftrightarrow> blockedQueue k = None" by (auto simp: blocked_def)
  have "owned (k\<lparr>kmem := m, blockedQueue := q\<rparr>) = M + mset (blocks q)"
    using M(2) [of q] by (simp add: owned_def)
  with d(2) have "mem_ok R (k\<lparr>kmem := m, blockedQueue := q\<rparr>)" by (simp add: mem_ok_def ac_simps)
  with d bm.remove_chain_avail [OF own d(1)] show ?thesis
    by (intro exI [of _ q] exI [of _ m]) (simp add: RemoveFrom_blocked_def)
qed

section \<open>The scheduling invariant\<close>

definition table_core :: "kernel \<Rightarrow> bool" where
  "table_core k \<longleftrightarrow>
     processTable k \<noteq> None \<and> distinct (table k) \<and>
     (\<forall>p\<in>set (table k). p \<noteq> NULL \<and> procs k p \<noteq> None \<and> level k p < PRIO \<and> pid (pr_of k p) < lastPid k) \<and>
     inj_on (\<lambda>p. pid (pr_of k p)) (set (table k))"

definition table_ok :: "kernel \<Rightarrow> bool" where
  "table_ok k \<longleftrightarrow> table_core k \<and> idleProcess k \<in> set (table k)"

definition in_state :: "kernel \<Rightarrow> ProcessState \<Rightarrow> ptr set" where
  "in_state k s = {p \<in> set (table k). p \<noteq> idleProcess k \<and> st_of k p = s}"

definition queue_ok :: "kernel \<Rightarrow> bool" where
  "queue_ok k \<longleftrightarrow>
     length (priorityQueues k) = PRIO \<and>
     (\<forall>i<PRIO. priorityQueues k ! i \<noteq> None \<and> distinct (ready k i) \<and>
        set (ready k i) = {p \<in> in_state k READY. level k p = i}) \<and>
     blockedQueue k \<noteq> None \<and> distinct (blocked k) \<and> set (blocked k) = in_state k BLOCKED"

definition credits_ok :: "kernel \<Rightarrow> bool" where
  "credits_ok k \<longleftrightarrow>
     weights k = [4, 3, 2, 1] \<and> length (credits k) = PRIO \<and>
     (\<forall>i<PRIO. credits k ! i \<le> weights k ! i)"

definition current_ok :: "kernel \<Rightarrow> bool" where
  "current_ok k \<longleftrightarrow>
     (currentProcess k \<noteq> NULL \<longrightarrow>
        procs k (currentProcess k) \<noteq> None \<and>
        (currentProcess k \<in> set (table k) \<or> st_of k (currentProcess k) = ZOMBIE) \<and>
        (currentProcess k \<noteq> idleProcess k \<longrightarrow> st_of k (currentProcess k) \<noteq> READY)) \<and>
     in_state k RUNNING \<subseteq> {currentProcess k}"

definition sched_inv :: "kernel \<Rightarrow> bool" where
  "sched_inv k \<longleftrightarrow> table_ok k \<and> queue_ok k \<and> credits_ok k \<and> current_ok k"

lemma sched_invD:
  assumes "sched_inv k"
  shows "table_ok k" and "queue_ok k" and "credits_ok k" and "current_ok k"
  using assms by (auto simp: sched_inv_def)

lemma table_coreD:
  assumes "table_core k"
  shows "distinct (table k)" and "processTable k \<noteq> None"
    and "p \<in> set (table k) \<Longrightarrow> p \<noteq> NULL \<and> procs k p = Some (pr_of k p) \<and> level k p < PRIO \<and>
           pid (pr_of k p) < lastPid k"
    and "p \<in> set (table k) \<Longrightarrow> q \<in> set (table k) \<Longrightarrow> pid (pr_of k p) = pid (pr_of k q) \<Longrightarrow> p = q"
  using assms unfolding table_core_def pr_of_def inj_on_def by (blast, blast, force, blast)

lemma table_okD:
  assumes "table_ok k"
  shows "distinct (table k)" and "processTable k \<noteq> None"
    and "p \<in> set (table k) \<Longrightarrow> p \<noteq> NULL \<and> procs k p = Some (pr_of k p) \<and> level k p < PRIO \<and>
           pid (pr_of k p) < lastPid k"
    and "p \<in> set (table k) \<Longrightarrow> q \<in> set (table k) \<Longrightarrow> pid (pr_of k p) = pid (pr_of k q) \<Longrightarrow> p = q"
    and "idleProcess k \<in> set (table k)" and "table_core k"
  using assms table_coreD [of k] unfolding table_ok_def by blast+

lemma queue_okD:
  assumes "queue_ok k"
  shows "length (priorityQueues k) = PRIO"
    and "i < PRIO \<Longrightarrow> priorityQueues k ! i \<noteq> None \<and> distinct (ready k i) \<and>
           set (ready k i) = {p \<in> in_state k READY. level k p = i}"
    and "blockedQueue k \<noteq> None \<and> distinct (blocked k) \<and> set (blocked k) = in_state k BLOCKED"
  using assms unfolding queue_ok_def by blast+

lemma in_stateD: "p \<in> in_state k s \<Longrightarrow> p \<in> set (table k) \<and> p \<noteq> idleProcess k \<and> st_of k p = s"
  by (simp add: in_state_def)

lemma in_state_simps [simp]:
  "in_state (k\<lparr>kmem := m\<rparr>) = in_state k" "in_state (k\<lparr>currentProcess := c\<rparr>) = in_state k"
  "in_state (k\<lparr>priorityQueues := qs\<rparr>) = in_state k" "in_state (k\<lparr>credits := cs\<rparr>) = in_state k"
  "in_state (k\<lparr>blockedQueue := b\<rparr>) = in_state k" "in_state (k\<lparr>ticks := t\<rparr>) = in_state k"
  "in_state (k\<lparr>lastPid := l\<rparr>) = in_state k"
  by (simp_all add: in_state_def fun_eq_iff)

text \<open>What a control-block update does to the sets the queues are compared with.\<close>

lemma in_state_upd:
  assumes "p \<in> set (table k)" and "p \<noteq> idleProcess k"
  shows "in_state (k\<lparr>procs := (procs k)(p \<mapsto> pr)\<rparr>) s =
           (if state pr = s then insert p (in_state k s) else in_state k s - {p})"
  using assms by (auto simp: in_state_def pr_of_def)

lemma in_state_upd_other:
  assumes "p \<notin> set (table k) \<or> p = idleProcess k \<or> state pr = st_of k p"
  shows "in_state (k\<lparr>procs := (procs k)(p \<mapsto> pr)\<rparr>) s = in_state k s"
  using assms by (auto simp: in_state_def pr_of_def)

lemma table_core_upd:
  assumes "table_core k" and "pid pr = pid (pr_of k p)" and "unat (priority pr) < PRIO"
  shows "table_core (k\<lparr>procs := (procs k)(p \<mapsto> pr)\<rparr>)"
proof -
  let ?k = "k\<lparr>procs := (procs k)(p \<mapsto> pr)\<rparr>"
  have pid_eq: "pid (pr_of ?k q) = pid (pr_of k q)" for q using assms(2) by (simp add: pr_of_def)
  have pr_eq: "level ?k q < PRIO" if "level k q < PRIO" for q
    using assms(3) that by (simp add: pr_of_def)
  show ?thesis
    using assms(1) pr_eq unfolding table_core_def pid_eq by auto
qed

lemma table_ok_upd:
  assumes "table_ok k" and "pid pr = pid (pr_of k p)" and "unat (priority pr) < PRIO"
  shows "table_ok (k\<lparr>procs := (procs k)(p \<mapsto> pr)\<rparr>)"
  using assms table_core_upd by (simp add: table_ok_def)

lemma table_core_simps [simp]:
  "table_core (k\<lparr>kmem := m\<rparr>) = table_core k" "table_core (k\<lparr>currentProcess := c\<rparr>) = table_core k"
  "table_core (k\<lparr>priorityQueues := qs\<rparr>) = table_core k" "table_core (k\<lparr>credits := cs\<rparr>) = table_core k"
  "table_core (k\<lparr>blockedQueue := b\<rparr>) = table_core k" "table_core (k\<lparr>ticks := t\<rparr>) = table_core k"
  "table_core (k\<lparr>idleProcess := ip\<rparr>) = table_core k"
  by (simp_all add: table_core_def table_def pr_of_def)

lemma table_ok_simps [simp]:
  "table_ok (k\<lparr>kmem := m\<rparr>) = table_ok k" "table_ok (k\<lparr>currentProcess := c\<rparr>) = table_ok k"
  "table_ok (k\<lparr>priorityQueues := qs\<rparr>) = table_ok k" "table_ok (k\<lparr>credits := cs\<rparr>) = table_ok k"
  "table_ok (k\<lparr>blockedQueue := b\<rparr>) = table_ok k" "table_ok (k\<lparr>ticks := t\<rparr>) = table_ok k"
  by (simp_all add: table_ok_def)

lemma queue_ok_simps [simp]:
  "queue_ok (k\<lparr>kmem := m\<rparr>) = queue_ok k" "queue_ok (k\<lparr>currentProcess := c\<rparr>) = queue_ok k"
  "queue_ok (k\<lparr>credits := cs\<rparr>) = queue_ok k" "queue_ok (k\<lparr>ticks := t\<rparr>) = queue_ok k"
  by (simp_all add: queue_ok_def)

lemma credits_ok_simps [simp]:
  "credits_ok (k\<lparr>kmem := m\<rparr>) = credits_ok k" "credits_ok (k\<lparr>currentProcess := c\<rparr>) = credits_ok k"
  "credits_ok (k\<lparr>priorityQueues := qs\<rparr>) = credits_ok k" "credits_ok (k\<lparr>procs := f\<rparr>) = credits_ok k"
  "credits_ok (k\<lparr>blockedQueue := b\<rparr>) = credits_ok k" "credits_ok (k\<lparr>ticks := t\<rparr>) = credits_ok k"
  "credits_ok (k\<lparr>processTable := q\<rparr>) = credits_ok k" "credits_ok (k\<lparr>lastPid := l\<rparr>) = credits_ok k"
  "credits_ok (k\<lparr>idleProcess := ip\<rparr>) = credits_ok k"
  by (simp_all add: credits_ok_def)

lemma mem_ok_simps [simp]:
  "mem_ok R (k\<lparr>currentProcess := c\<rparr>) = mem_ok R k" "mem_ok R (k\<lparr>credits := cs\<rparr>) = mem_ok R k"
  "mem_ok R (k\<lparr>ticks := t\<rparr>) = mem_ok R k" "mem_ok R (k\<lparr>lastPid := l\<rparr>) = mem_ok R k"
  by (simp_all add: mem_ok_def)

lemma mem_ok_upd:
  "proc_blocks p pr = proc_blocks p (pr_of k p) \<Longrightarrow>
     mem_ok R (k\<lparr>procs := (procs k)(p \<mapsto> pr)\<rparr>) = mem_ok R k"
  by (simp add: mem_ok_def)

section \<open>Choosing a queue\<close>

lemma credit_sum_zero:
  "length qs = length cs \<Longrightarrow> 0 \<le> credit_sum qs cs \<and>
     (credit_sum qs cs = 0 \<longleftrightarrow> (\<forall>i<length qs. q_empty (qs ! i) \<or> cs ! i = 0))"
proof (induction qs cs rule: credit_sum.induct)
  case (1 q qs c cs)
  then have IH: "0 \<le> credit_sum qs cs"
    "credit_sum qs cs = 0 \<longleftrightarrow> (\<forall>i<length qs. q_empty (qs ! i) \<or> cs ! i = 0)" by auto
  have "(\<forall>i<length (q # qs). q_empty ((q # qs) ! i) \<or> (c # cs) ! i = 0) \<longleftrightarrow>
      (q_empty q \<or> c = 0) \<and> (\<forall>i<length qs. q_empty (qs ! i) \<or> cs ! i = 0)"
    by (auto simp: less_Suc_eq_0_disj)
  moreover have "0 \<le> uint c" "uint c = 0 \<longleftrightarrow> c = 0" by (simp_all add: uint_0_iff)
  ultimately show ?case using IH by (auto simp: add_nonneg_eq_0_iff)
qed auto

lemma first_credit_spec:
  "length qs = length cs \<Longrightarrow>
     (case first_credit qs cs n of
        None \<Rightarrow> \<forall>i<length qs. q_empty (qs ! i) \<or> cs ! i = 0
      | Some j \<Rightarrow> n \<le> j \<and> j - n < length qs \<and> \<not> q_empty (qs ! (j - n)) \<and> cs ! (j - n) \<noteq> 0 \<and>
          (\<forall>i<j - n. q_empty (qs ! i) \<or> cs ! i = 0))"
proof (induction qs cs n rule: first_credit.induct)
  case (1 q qs c cs n)
  show ?case
  proof (cases "c > 0 \<and> \<not> q_empty q")
    case True
    then show ?thesis by auto
  next
    case False
    then have h: "q_empty q \<or> c = 0" by (auto simp: word_gt_0)
    from 1 False have IH: "case first_credit qs cs (Suc n) of
        None \<Rightarrow> \<forall>i<length qs. q_empty (qs ! i) \<or> cs ! i = 0
      | Some j \<Rightarrow> Suc n \<le> j \<and> j - Suc n < length qs \<and> \<not> q_empty (qs ! (j - Suc n)) \<and>
          cs ! (j - Suc n) \<noteq> 0 \<and> (\<forall>i<j - Suc n. q_empty (qs ! i) \<or> cs ! i = 0)" by auto
    show ?thesis
    proof (cases "first_credit qs cs (Suc n)")
      case None
      with IH False h show ?thesis by (auto simp: less_Suc_eq_0_disj)
    next
      case (Some j)
      with IH have j: "Suc n \<le> j" "j - n = Suc (j - Suc n)" by auto
      with Some IH False h show ?thesis by (auto simp: less_Suc_eq_0_disj)
    qed
  qed
qed auto

definition eligible :: "kernel \<Rightarrow> nat \<Rightarrow> bool" where
  "eligible k i \<longleftrightarrow> i < PRIO \<and> \<not> q_empty (priorityQueues k ! i) \<and> credits k ! i \<noteq> 0"

text \<open>The state \<open>pickNextQueue\<close> looks at: credits refilled when no queue could be served.\<close>

definition topped_up :: "kernel \<Rightarrow> kernel" where
  "topped_up k = (if \<forall>i. \<not> eligible k i then refill_credits k else k)"

lemma topped_up_simps [simp]:
  "priorityQueues (topped_up k) = priorityQueues k" "weights (topped_up k) = weights k"
  by (simp_all add: topped_up_def refill_credits_def)

lemma topped_up_credits: "credits_ok k \<Longrightarrow> credits_ok (topped_up k)"
  by (auto simp: topped_up_def refill_credits_def credits_ok_def)

lemma eligible_topped_up:
  assumes "credits_ok k"
  shows "(\<exists>i. eligible (topped_up k) i) \<longleftrightarrow> (\<exists>i<PRIO. \<not> q_empty (priorityQueues k ! i))"
proof (cases "\<forall>i. \<not> eligible k i")
  case True
  have "weights k ! i \<noteq> 0" if "i < PRIO" for i
  proof -
    have "i = 0 \<or> i = 1 \<or> i = 2 \<or> i = 3" using that by linarith
    then show ?thesis using assms by (auto simp: credits_ok_def)
  qed
  with True show ?thesis by (auto simp: topped_up_def refill_credits_def eligible_def)
next
  case False
  then show ?thesis by (auto simp: topped_up_def eligible_def)
qed

lemma pickNextQueue_eq:
  assumes len: "length (priorityQueues k) = PRIO" and cr: "credits_ok k"
  shows "pickNextQueue k =
     (if \<forall>i<PRIO. q_empty (priorityQueues k ! i) then (-1, topped_up k)
      else (int (LEAST i. eligible (topped_up k) i),
            (topped_up k)\<lparr>credits := (credits (topped_up k))[LEAST i. eligible (topped_up k) i :=
               credits (topped_up k) ! (LEAST i. eligible (topped_up k) i) - 1]\<rparr>))"
proof -
  let ?k = "topped_up k"
  have len2: "length (priorityQueues k) = length (credits k)"
    and len3: "length (priorityQueues ?k) = length (credits ?k)"
    using len cr topped_up_credits [OF cr] by (auto simp: credits_ok_def)
  have "credit_sum (priorityQueues k) (credits k) = 0 \<longleftrightarrow> (\<forall>i. \<not> eligible k i)"
    using credit_sum_zero [OF len2] len by (auto simp: eligible_def)
  then have k1: "(if credit_sum (priorityQueues k) (credits k) = 0 then refill_credits k else k) = ?k"
    by (simp add: topped_up_def)
  note fc = first_credit_spec [OF len3, of 0]
  show ?thesis
  proof (cases "first_credit (priorityQueues ?k) (credits ?k) 0")
    case None
    with fc len have "\<nexists>i. eligible ?k i" by (auto simp: eligible_def)
    then have "\<forall>i<PRIO. q_empty (priorityQueues k ! i)" using eligible_topped_up [OF cr] by auto
    with None k1 show ?thesis by (simp add: pickNextQueue_def)
  next
    case (Some j)
    with fc len have j: "eligible ?k j" "\<forall>i<j. \<not> eligible ?k i"
      by (auto simp: eligible_def)
    then have "(LEAST i. eligible ?k i) = j" by (intro Least_equality) (auto simp: not_less [symmetric])
    moreover have "\<not> (\<forall>i<PRIO. q_empty (priorityQueues k ! i))" using j(1) by (auto simp: eligible_def)
    ultimately show ?thesis unfolding pickNextQueue_def k1 using Some by (simp add: Let_def)
  qed
qed

lemma credits_ok_dec:
  assumes cr: "credits_ok k" and nz: "credits k ! i \<noteq> 0"
  shows "credits_ok (k\<lparr>credits := (credits k)[i := credits k ! i - 1]\<rparr>)"
proof -
  have c: "credits k ! i - 1 \<le> credits k ! i"
    using nz by (simp add: word_le_nat_alt unat_minus_one)
  have "(credits k)[i := credits k ! i - 1] ! j \<le> weights k ! j" if "j < PRIO" for j
    using cr c that unfolding credits_ok_def by (cases "j = i") (auto intro: order_trans)
  then show ?thesis using cr unfolding credits_ok_def by simp
qed

lemma pickNextQueue_spec:
  assumes len: "length (priorityQueues k) = PRIO" and cr: "credits_ok k"
    and pk: "pickNextQueue k = (q, k')"
  shows "\<exists>cs. k' = k\<lparr>credits := cs\<rparr> \<and> credits_ok k' \<and>
           (if \<forall>i<PRIO. q_empty (priorityQueues k ! i) then q = -1
            else \<exists>i<PRIO. q = int i \<and> \<not> q_empty (priorityQueues k ! i) \<and> eligible (topped_up k) i \<and>
                   (\<forall>j<i. \<not> eligible (topped_up k) j))"
proof (cases "\<forall>i<PRIO. q_empty (priorityQueues k ! i)")
  case True
  then have "k' = topped_up k" "q = -1" using pk pickNextQueue_eq [OF len cr] by auto
  then show ?thesis using True topped_up_credits [OF cr]
    by (auto simp: topped_up_def refill_credits_def intro: exI [of _ "credits k"])
next
  case False
  let ?cs = "credits (topped_up k)"
  have ex: "\<exists>i. eligible (topped_up k) i" using eligible_topped_up [OF cr] False by auto
  obtain i where i: "eligible (topped_up k) i" "\<forall>j<i. \<not> eligible (topped_up k) j"
    "(LEAST i. eligible (topped_up k) i) = i"
    using LeastI_ex [OF ex] not_less_Least by blast
  have k': "k' = (topped_up k)\<lparr>credits := ?cs[i := ?cs ! i - 1]\<rparr>" "q = int i"
    using pk pickNextQueue_eq [OF len cr] False unfolding i(3) by auto
  have c: "credits_ok k'"
    unfolding k'(1) by (rule credits_ok_dec [OF topped_up_credits [OF cr]]) (use i(1) in \<open>simp add: eligible_def\<close>)
  have "k' = k\<lparr>credits := ?cs[i := ?cs ! i - 1]\<rparr>"
    unfolding k'(1) by (simp add: topped_up_def refill_credits_def)
  moreover have "i < PRIO" "\<not> q_empty (priorityQueues k ! i)" using i(1) by (auto simp: eligible_def)
  ultimately show ?thesis using False k'(2) c i(1,2) by auto
qed

end
