(* ===== verification/Dispatch.thy ===== *)
theory Dispatch
  imports SchedInv
begin

text \<open>
  \<open>schedule\<close> keeps the invariants, and which process it chooses; then the absence of starvation among
  the ready queues.
\<close>

section \<open>Dispatching\<close>

lemma q_empty_ready: "q_empty (priorityQueues k ! i) \<longleftrightarrow> ready k i = []"
  by (simp add: q_empty_def ready_def)

text \<open>The two ways \<open>pickNextProcess\<close> goes, under the invariant.\<close>

lemma pickNextProcess_idle:
  assumes t: "table_ok k" and q: "queue_ok k" and c: "credits_ok k"
    and none: "\<forall>i<PRIO. ready k i = []"
  shows "\<exists>cs. let pr = pr_of k (idleProcess k); i = idleProcess k in
     pickNextProcess k = Some (stack pr,
       k\<lparr>credits := cs, currentProcess := i, procs := (procs k)(i \<mapsto> pr\<lparr>state := RUNNING\<rparr>)\<rparr>) \<and>
     credits_ok (k\<lparr>credits := cs\<rparr>)"
proof -
  note idle = table_okD(3) [OF t table_okD(5) [OF t]]
  obtain q' k' where pk: "pickNextQueue k = (q', k')" by force
  from pickNextQueue_spec [OF queue_okD(1) [OF q] c pk] none obtain cs where
    "k' = k\<lparr>credits := cs\<rparr>" "credits_ok k'" "q' = -1" by (auto simp: q_empty_ready)
  with pk idle show ?thesis
    by (intro exI [of _ cs]) (simp add: pickNextProcess_def Let_def upd_pcb_def pcb_def)
qed

lemma pickNextProcess_ready:
  assumes t: "table_ok k" and q: "queue_ok k" and c: "credits_ok k" and m: "mem_ok R k"
    and some: "\<exists>i<PRIO. ready k i \<noteq> []"
  shows "\<exists>i cs q m. let p = hd (ready k i); pr = pr_of k p;
       k' = k\<lparr>credits := cs, kmem := m, priorityQueues := (priorityQueues k)[i := q],
             currentProcess := p,
             procs := (procs k)(p \<mapsto> pr\<lparr>state := RUNNING, quantumLeft := QUANTUM\<rparr>)\<rparr> in
     i < PRIO \<and> ready k i \<noteq> [] \<and> eligible (topped_up k) i \<and> (\<forall>j<i. \<not> eligible (topped_up k) j) \<and>
     pickNextProcess k = Some (stack pr, k') \<and> credits_ok (k\<lparr>credits := cs\<rparr>) \<and>
     items q = tl (ready k i) \<and> q \<noteq> None \<and> mem_ok R k' \<and> pages_left k \<le> unat (free_pages m)"
proof -
  obtain q' k1 where pk: "pickNextQueue k = (q', k1)" by force
  have ne: "(\<forall>i<PRIO. ready k i = []) = False" using some by auto
  from pickNextQueue_spec [OF queue_okD(1) [OF q] c pk] obtain cs i where
    k1: "k1 = k\<lparr>credits := cs\<rparr>" "credits_ok k1" "q' = int i" "i < PRIO" "ready k i \<noteq> []"
      "eligible (topped_up k) i" "\<forall>j<i. \<not> eligible (topped_up k) j"
    unfolding q_empty_ready ne if_False by metis
  obtain p ps where r: "ready k i = p # ps" using k1(5) by (cases "ready k i") auto
  have len: "i < length (priorityQueues k1)" using k1(1,4) queue_okD(1) [OF q] by simp
  have "mem_ok R k1" "ready k1 i = p # ps" using m r k1(1) by simp_all
  from Dequeue_ready_eff [OF this(1) len this(2)] obtain qq mm where
    d: "Dequeue_ready i k1 = Some (p, k1\<lparr>kmem := mm, priorityQueues := (priorityQueues k1)[i := qq]\<rparr>)"
      "items qq = ps" "qq \<noteq> None" "pages_left k1 \<le> unat (free_pages mm)"
      "mem_ok R (k1\<lparr>kmem := mm, priorityQueues := (priorityQueues k1)[i := qq]\<rparr>)" by blast
  have "p \<in> set (table k)"
    using queue_okD(2) [OF q k1(4)] r by (auto dest: in_stateD)
  note pp = table_okD(3) [OF t this]
  have mo: "mem_ok R (k\<lparr>credits := cs, kmem := mm, priorityQueues := (priorityQueues k)[i := qq],
      currentProcess := p,
      procs := (procs k)(p \<mapsto> (pr_of k p)\<lparr>state := RUNNING, quantumLeft := QUANTUM\<rparr>)\<rparr>)"
  proof -
    let ?k2 = "k1\<lparr>kmem := mm, priorityQueues := (priorityQueues k1)[i := qq], currentProcess := p\<rparr>"
    have "mem_ok R ?k2" using d(5) mem_ok_simps(1) by simp
    then have "mem_ok R (?k2\<lparr>procs := (procs ?k2)(p \<mapsto> (pr_of ?k2 p)\<lparr>state := RUNNING, quantumLeft := QUANTUM\<rparr>)\<rparr>)"
      by (subst mem_ok_upd) (simp_all add: proc_blocks_def)
    then show ?thesis using k1(1) by simp
  qed
  have "pickNextProcess k = Some (stack (pr_of k p),
      k\<lparr>credits := cs, kmem := mm, priorityQueues := (priorityQueues k)[i := qq],
        currentProcess := p,
        procs := (procs k)(p \<mapsto> (pr_of k p)\<lparr>state := RUNNING, quantumLeft := QUANTUM\<rparr>)\<rparr>)"
    using pk k1(1,3) d(1) pp by (simp add: pickNextProcess_def upd_pcb_def pcb_def)
  with mo d r k1 show ?thesis
    by (intro exI [of _ i] exI [of _ cs] exI [of _ qq] exI [of _ mm]) (simp add: Let_def)
qed

text \<open>
  \<open>dispatched k k'\<close>: from \<open>k\<close>, the head of the first queue that can be served runs in \<open>k'\<close>, or the idle
  process when all queues are empty.
\<close>

definition dispatched :: "kernel \<Rightarrow> kernel \<Rightarrow> bool" where
  "dispatched k k' \<longleftrightarrow>
     (if \<forall>i<PRIO. ready k i = [] then currentProcess k' = idleProcess k \<and> ready k' = ready k
      else \<exists>i<PRIO. eligible (topped_up k) i \<and> (\<forall>j<i. \<not> eligible (topped_up k) j) \<and>
             ready k i = currentProcess k' # ready k' i \<and>
             (\<forall>j<PRIO. j \<noteq> i \<longrightarrow> ready k' j = ready k j) \<and>
             quantumLeft (pr_of k' (currentProcess k')) = QUANTUM)"

lemma pickNextProcess_inv:
  assumes t: "table_ok k" and q: "queue_ok k" and c: "credits_ok k" and m: "mem_ok R k"
    and run: "in_state k RUNNING = {}"
  shows "\<exists>sp k'. pickNextProcess k = Some (sp, k') \<and> sched_inv k' \<and> mem_ok R k' \<and>
           pages_left k \<le> pages_left k' \<and> table k' = table k \<and> blocked k' = blocked k \<and>
           idleProcess k' = idleProcess k \<and>
           sp = stack (pr_of k' (currentProcess k')) \<and>
           st_of k' (currentProcess k') = RUNNING \<and> dispatched k k'"
proof (cases "\<forall>i<PRIO. ready k i = []")
  case True
  let ?i = "idleProcess k"
  let ?pr = "pr_of k ?i"
  from pickNextProcess_idle [OF t q c True] obtain cs where
    pk: "pickNextProcess k = Some (stack ?pr,
           k\<lparr>credits := cs, currentProcess := ?i, procs := (procs k)(?i \<mapsto> ?pr\<lparr>state := RUNNING\<rparr>)\<rparr>)"
      and cr: "credits_ok (k\<lparr>credits := cs\<rparr>)"
    by (auto simp: Let_def)
  let ?k' = "k\<lparr>credits := cs, currentProcess := ?i, procs := (procs k)(?i \<mapsto> ?pr\<lparr>state := RUNNING\<rparr>)\<rparr>"
  note idle = table_okD(3) [OF t table_okD(5) [OF t]]
  have ist: "in_state ?k' = in_state k"
    using in_state_upd_other [of ?i k "?pr\<lparr>state := RUNNING\<rparr>"] by (auto simp: in_state_def pr_of_def fun_eq_iff)
  have lev: "level ?k' p = level k p" for p by (simp add: pr_of_def)
  have "table_ok (k\<lparr>procs := (procs k)(?i \<mapsto> ?pr\<lparr>state := RUNNING\<rparr>)\<rparr>)"
    by (rule table_ok_upd [OF t]) (use idle in auto)
  then have t': "table_ok ?k'" by (simp add: table_ok_def table_core_def)
  have q': "queue_ok ?k'" using q unfolding queue_ok_def ist lev by (simp add: ready_def)
  have "current_ok ?k'"
    unfolding current_ok_def ist run using table_okD(5) [OF t] by (simp add: pr_of_def)
  then have "sched_inv ?k'" using t' q' cr by (simp add: sched_inv_def)
  moreover have "mem_ok R ?k'"
  proof -
    have "mem_ok R (k\<lparr>procs := (procs k)(?i \<mapsto> ?pr\<lparr>state := RUNNING\<rparr>)\<rparr>)"
      using m by (subst mem_ok_upd) (simp_all add: proc_blocks_def)
    then show ?thesis by (simp add: mem_ok_def owned_def table_blocks_def pr_of_def)
  qed
  moreover have "dispatched k ?k'" using True by (simp add: dispatched_def ready_def fun_eq_iff)
  ultimately show ?thesis
    using pk by (intro exI [of _ "stack ?pr"] exI [of _ ?k']) (simp add: pr_of_def)
next
  case False
  from pickNextProcess_ready [OF t q c m] False obtain i cs qq mm where
    i: "i < PRIO" "ready k i \<noteq> []" "eligible (topped_up k) i" "\<forall>j<i. \<not> eligible (topped_up k) j"
    and pk: "pickNextProcess k = Some (stack (pr_of k (hd (ready k i))),
       k\<lparr>credits := cs, kmem := mm, priorityQueues := (priorityQueues k)[i := qq],
         currentProcess := hd (ready k i),
         procs := (procs k)(hd (ready k i) \<mapsto>
           (pr_of k (hd (ready k i)))\<lparr>state := RUNNING, quantumLeft := QUANTUM\<rparr>)\<rparr>)"
    and cr: "credits_ok (k\<lparr>credits := cs\<rparr>)" and it: "items qq = tl (ready k i)" "qq \<noteq> None"
    and mo: "mem_ok R (k\<lparr>credits := cs, kmem := mm, priorityQueues := (priorityQueues k)[i := qq],
         currentProcess := hd (ready k i),
         procs := (procs k)(hd (ready k i) \<mapsto>
           (pr_of k (hd (ready k i)))\<lparr>state := RUNNING, quantumLeft := QUANTUM\<rparr>)\<rparr>)"
    and pg: "pages_left k \<le> unat (free_pages mm)"
    unfolding Let_def by blast
  let ?p = "hd (ready k i)"
  let ?pr = "(pr_of k ?p)\<lparr>state := RUNNING, quantumLeft := QUANTUM\<rparr>"
  let ?k' = "k\<lparr>credits := cs, kmem := mm, priorityQueues := (priorityQueues k)[i := qq],
         currentProcess := ?p, procs := (procs k)(?p \<mapsto> ?pr)\<rparr>"
  have rd: "ready k i = ?p # tl (ready k i)" using i(2) by simp
  have pin: "?p \<in> in_state k READY" "level k ?p = i"
    using queue_okD(2) [OF q i(1)] i(2) hd_in_set [of "ready k i"] by auto
  note p = in_stateD [OF pin(1)]
  note pp = table_okD(3) [OF t, of ?p]
  have ist: "in_state ?k' s = (if s = RUNNING then insert ?p (in_state k s) else in_state k s - {?p})" for s
    using p by (auto simp: in_state_def pr_of_def)
  have lev: "level ?k' p = level k p" for p by (simp add: pr_of_def)
  have "table_ok (k\<lparr>procs := (procs k)(?p \<mapsto> ?pr)\<rparr>)"
    by (rule table_ok_upd [OF t]) (use p pp in auto)
  then have t': "table_ok ?k'" by (simp add: table_ok_def table_core_def)
  have rdy: "ready ?k' j = (if j = i then tl (ready k i) else ready k j)" for j
    using i(1) queue_okD(1) [OF q] it(1) by (simp add: ready_def nth_list_update)
  have q': "queue_ok ?k'"
  proof -
    have "distinct (ready ?k' j) \<and> set (ready ?k' j) = {r \<in> in_state ?k' READY. level ?k' r = j}"
      if j: "j < PRIO" for j
    proof (cases "j = i")
      case True
      have "distinct (?p # tl (ready k i))" using queue_okD(2) [OF q i(1)] rd by simp
      then have "set (tl (ready k i)) = set (ready k i) - {?p}" using rd
        by (metis Diff_insert_absorb distinct.simps(2) list.simps(15))
      then show ?thesis
        using queue_okD(2) [OF q i(1)] True ist [of READY] rdy [of j] lev
        by (auto simp: distinct_tl)
    next
      case False
      then show ?thesis
        using queue_okD(2) [OF q j] ist [of READY] rdy [of j] lev pin by auto
    qed
    moreover have "priorityQueues ?k' ! j \<noteq> None" if "j < PRIO" for j
      using queue_okD(2) [OF q that] it(2) queue_okD(1) [OF q] that by (cases "j = i") simp_all
    moreover have "in_state ?k' BLOCKED = in_state k BLOCKED" "blocked ?k' = blocked k"
      unfolding ist using p by (auto simp: in_state_def blocked_def)
    ultimately show ?thesis
      using queue_okD(1,3) [OF q] unfolding queue_ok_def by simp
  qed
  have "current_ok ?k'"
    unfolding current_ok_def ist run using p by (simp add: pr_of_def)
  then have "sched_inv ?k'" using t' q' cr by (simp add: sched_inv_def)
  moreover have "dispatched k ?k'"
    unfolding dispatched_def using False i rd rdy
    by (auto simp: pr_of_def intro!: exI [of _ i])
  ultimately show ?thesis
    using pk mo pg by (intro exI [of _ "stack (pr_of k ?p)"] exI [of _ ?k']) (simp add: pr_of_def blocked_def table_def)
qed

section \<open>Moving one process between queues\<close>

text \<open>\<open>queue_ok_but p k\<close>: the queues are right for every process except \<open>p\<close>, which is in none.\<close>

definition queue_ok_but :: "ptr \<Rightarrow> kernel \<Rightarrow> bool" where
  "queue_ok_but p k \<longleftrightarrow>
     length (priorityQueues k) = PRIO \<and>
     (\<forall>i<PRIO. priorityQueues k ! i \<noteq> None \<and> distinct (ready k i) \<and>
        set (ready k i) = {q \<in> in_state k READY. level k q = i} - {p}) \<and>
     blockedQueue k \<noteq> None \<and> distinct (blocked k) \<and> set (blocked k) = in_state k BLOCKED - {p}"

lemma queue_ok_butD:
  assumes "queue_ok_but p k"
  shows "length (priorityQueues k) = PRIO"
    and "i < PRIO \<Longrightarrow> priorityQueues k ! i \<noteq> None \<and> distinct (ready k i) \<and>
           set (ready k i) = {q \<in> in_state k READY. level k q = i} - {p}"
    and "blockedQueue k \<noteq> None \<and> distinct (blocked k) \<and> set (blocked k) = in_state k BLOCKED - {p}"
  using assms unfolding queue_ok_but_def by blast+

lemma queue_ok_but_simps [simp]:
  "queue_ok_but p (k\<lparr>kmem := m\<rparr>) = queue_ok_but p k"
  "queue_ok_but p (k\<lparr>currentProcess := c\<rparr>) = queue_ok_but p k"
  "queue_ok_but p (k\<lparr>credits := cs\<rparr>) = queue_ok_but p k"
  "queue_ok_but p (k\<lparr>ticks := t\<rparr>) = queue_ok_but p k"
  by (simp_all add: queue_ok_but_def)

text \<open>A process that is neither READY nor BLOCKED is in no queue, and conversely may be in none.\<close>

lemma queue_ok_not_queued:
  assumes "p \<notin> in_state k READY" and "p \<notin> in_state k BLOCKED"
  shows "queue_ok_but p k = queue_ok k"
proof -
  have "{q \<in> in_state k READY. level k q = i} - {p} = {q \<in> in_state k READY. level k q = i}"
    "in_state k BLOCKED - {p} = in_state k BLOCKED" for i
    using assms by auto
  then show ?thesis by (simp add: queue_ok_but_def queue_ok_def)
qed

lemma queue_ok_but_upd:
  assumes "queue_ok_but p k" and "p \<in> set (table k)" and "p \<noteq> idleProcess k"
  shows "queue_ok_but p (k\<lparr>procs := (procs k)(p \<mapsto> pr)\<rparr>)"
proof -
  let ?k = "k\<lparr>procs := (procs k)(p \<mapsto> pr)\<rparr>"
  have "in_state ?k s - {p} = in_state k s - {p}" for s
    unfolding in_state_upd [OF assms(2,3)] by auto
  moreover have "{q \<in> in_state ?k READY. level ?k q = i} - {p} = {q \<in> in_state k READY. level k q = i} - {p}" for i
    unfolding in_state_upd [OF assms(2,3)] by (auto simp: pr_of_def)
  ultimately show ?thesis using assms(1) unfolding queue_ok_but_def by simp
qed

lemma Enqueue_ready_ok:
  assumes t: "table_core k" and q: "queue_ok_but p k" and m: "mem_ok R k" and pg: "0 < pages_left k"
    and p: "p \<in> in_state k READY"
  shows "\<exists>qq mm. let i = level k p; k' = k\<lparr>kmem := mm, priorityQueues := (priorityQueues k)[i := qq]\<rparr> in
     Enqueue_ready (priority (pr_of k p)) p k = Some k' \<and> queue_ok k' \<and> mem_ok R k' \<and>
     pages_left k \<le> pages_left k' + 1 \<and> (\<forall>j. ready k' j = (if j = i then ready k i @ [p] else ready k j))"
proof -
  note pt = table_coreD(3) [OF t, of p]
  let ?i = "level k p"
  have pp: "p \<in> set (table k)" "p \<noteq> NULL" "?i < PRIO" using in_stateD [OF p] pt by auto
  have len: "?i < length (priorityQueues k)" using queue_ok_butD(1) [OF q] pp(3) by simp
  from Enqueue_ready_eff [OF m pg len _ pp(2)] queue_ok_butD(2) [OF q pp(3)] obtain qq mm where
    e: "Enqueue_ready (priority (pr_of k p)) p k =
          Some (k\<lparr>kmem := mm, priorityQueues := (priorityQueues k)[?i := qq]\<rparr>)"
      "items qq = ready k ?i @ [p]" "qq \<noteq> None" "pages_left k \<le> unat (free_pages mm) + 1"
      "mem_ok R (k\<lparr>kmem := mm, priorityQueues := (priorityQueues k)[?i := qq]\<rparr>)" by blast
  let ?k' = "k\<lparr>kmem := mm, priorityQueues := (priorityQueues k)[?i := qq]\<rparr>"
  have rdy: "ready ?k' j = (if j = ?i then ready k ?i @ [p] else ready k j)" for j
    using len e(2) by (simp add: ready_def)
  have "set (ready ?k' j) = {r \<in> in_state k READY. level k r = j} \<and> distinct (ready ?k' j)"
    if j: "j < PRIO" for j
    using queue_ok_butD(2) [OF q j] p rdy [of j] by auto
  moreover have "priorityQueues ?k' ! j \<noteq> None" if "j < PRIO" for j
    using queue_ok_butD(2) [OF q that] e(3) queue_ok_butD(1) [OF q] that by (cases "j = ?i") simp_all
  moreover have "p \<notin> in_state k BLOCKED" using p by (simp add: in_state_def)
  ultimately have "queue_ok ?k'"
    using queue_ok_butD(1,3) [OF q] unfolding queue_ok_def by simp
  with e rdy show ?thesis unfolding Let_def by (intro exI [of _ qq] exI [of _ mm]) simp
qed

lemma Enqueue_blocked_ok:
  assumes q: "queue_ok_but p k" and m: "mem_ok R k" and pg: "0 < pages_left k"
    and p: "p \<in> in_state k BLOCKED" and nn: "p \<noteq> NULL"
  shows "\<exists>qq mm. let k' = k\<lparr>kmem := mm, blockedQueue := qq\<rparr> in
     Enqueue_blocked p k = Some k' \<and> queue_ok k' \<and> mem_ok R k' \<and> pages_left k \<le> pages_left k' + 1 \<and> blocked k' = blocked k @ [p]"
proof -
  have "blockedQueue k \<noteq> None" using queue_ok_butD(3) [OF q] by blast
  from Enqueue_blocked_eff [OF m pg this nn] obtain qq mm where
    e: "Enqueue_blocked p k = Some (k\<lparr>kmem := mm, blockedQueue := qq\<rparr>)"
      "items qq = blocked k @ [p]" "qq \<noteq> None" "pages_left k \<le> unat (free_pages mm) + 1" "mem_ok R (k\<lparr>kmem := mm, blockedQueue := qq\<rparr>)" by blast
  have "{r \<in> in_state k READY. level k r = i} - {p} = {r \<in> in_state k READY. level k r = i}" for i
    using p by (auto simp: in_state_def)
  then have "queue_ok (k\<lparr>kmem := mm, blockedQueue := qq\<rparr>)"
    using q e(2,3) p unfolding queue_ok_but_def queue_ok_def by auto
  with e show ?thesis unfolding Let_def by (intro exI [of _ qq] exI [of _ mm]) simp
qed

text \<open>Removal by process identifier takes out exactly that process.\<close>

lemma drop_by_pid:
  assumes t: "table_ok k" and p: "p \<in> set (table k)" and xs: "set xs \<subseteq> set (table k)" "distinct xs"
  shows "set (drop_first (matchPid k (pid (pr_of k p))) xs) = set xs - {p} \<and>
         distinct (drop_first (matchPid k (pid (pr_of k p))) xs)"
proof -
  have iff: "matchPid k (pid (pr_of k p)) x \<longleftrightarrow> x = p" if "x \<in> set xs" for x
    using table_okD(3) [OF t, of x] table_okD(4) [OF t, of x p] p xs(1) that
    by (auto simp: matchPid_def)
  then have "drop_first (matchPid k (pid (pr_of k p))) xs = remove1 p xs"
    using drop_first_cong [of xs _ "\<lambda>x. x = p"] drop_first_eq_remove1 by metis
  then show ?thesis using xs(2) by simp
qed

lemma RemoveFrom_ready_ok:
  assumes t: "table_ok k" and q: "queue_ok k" and m: "mem_ok R k"
    and p: "p \<in> set (table k)" "p \<notin> in_state k BLOCKED"
  shows "\<exists>qq mm. let i = level k p; k' = k\<lparr>kmem := mm, priorityQueues := (priorityQueues k)[i := qq]\<rparr> in
     RemoveFrom_ready (priority (pr_of k p)) (pid (pr_of k p)) k = Some k' \<and> queue_ok_but p k' \<and>
     mem_ok R k' \<and> pages_left k \<le> pages_left k' \<and>
     (\<forall>j. j \<noteq> i \<longrightarrow> ready k' j = ready k j) \<and>
     ready k' i = drop_first (matchPid k (pid (pr_of k p))) (ready k i)"
proof -
  let ?i = "level k p" and ?P = "matchPid k (pid (pr_of k p))"
  have i: "?i < PRIO" using table_okD(3) [OF t p(1)] by simp
  have len: "?i < length (priorityQueues k)" using queue_okD(1) [OF q] i by simp
  from RemoveFrom_ready_eff [OF m len, of "pid (pr_of k p)"] obtain qq mm where
    e: "RemoveFrom_ready (priority (pr_of k p)) (pid (pr_of k p)) k =
          Some (k\<lparr>kmem := mm, priorityQueues := (priorityQueues k)[?i := qq]\<rparr>)"
      "items qq = drop_first ?P (ready k ?i)" "qq = None \<longleftrightarrow> priorityQueues k ! ?i = None"
      "pages_left k \<le> unat (free_pages mm)"
      "mem_ok R (k\<lparr>kmem := mm, priorityQueues := (priorityQueues k)[?i := qq]\<rparr>)" by metis
  let ?k' = "k\<lparr>kmem := mm, priorityQueues := (priorityQueues k)[?i := qq]\<rparr>"
  have rdy: "ready ?k' j = (if j = ?i then drop_first ?P (ready k ?i) else ready k j)" for j
    using len e(2) by (simp add: ready_def)
  have "set (ready k ?i) \<subseteq> set (table k)" "distinct (ready k ?i)"
    using queue_okD(2) [OF q i] by (auto simp: in_state_def)
  note drop = drop_by_pid [OF t p(1) this]
  have "set (ready ?k' j) = {r \<in> in_state k READY. level k r = j} - {p} \<and> distinct (ready ?k' j)"
    if j: "j < PRIO" for j
    using queue_okD(2) [OF q j] drop rdy [of j] by (cases "j = ?i") auto
  moreover have "priorityQueues ?k' ! j \<noteq> None" if "j < PRIO" for j
    using queue_okD(2) [OF q that] queue_okD(2) [OF q i] e(3) queue_okD(1) [OF q] that
    by (cases "j = ?i") simp_all
  moreover have "in_state k BLOCKED - {p} = in_state k BLOCKED" using p(2) by simp
  ultimately have "queue_ok_but p ?k'"
    using queue_okD(1,3) [OF q] unfolding queue_ok_but_def by simp
  with e rdy show ?thesis unfolding Let_def by (intro exI [of _ qq] exI [of _ mm]) (simp add: ready_def)
qed

lemma RemoveFrom_blocked_ok:
  assumes t: "table_ok k" and q: "queue_ok k \<or> queue_ok_but p k" and m: "mem_ok R k"
    and p: "p \<in> set (table k)" "p \<notin> in_state k READY \<or> queue_ok_but p k"
  shows "\<exists>qq mm. let k' = k\<lparr>kmem := mm, blockedQueue := qq\<rparr> in
     RemoveFrom_blocked (pid (pr_of k p)) k = Some k' \<and> queue_ok_but p k' \<and>
     mem_ok R k' \<and> pages_left k \<le> pages_left k' \<and>
     blocked k' = drop_first (matchPid k (pid (pr_of k p))) (blocked k)"
proof -
  let ?P = "matchPid k (pid (pr_of k p))"
  from RemoveFrom_blocked_eff [OF m, of "pid (pr_of k p)"] obtain qq mm where
    e: "RemoveFrom_blocked (pid (pr_of k p)) k = Some (k\<lparr>kmem := mm, blockedQueue := qq\<rparr>)"
      "items qq = drop_first ?P (blocked k)" "qq = None \<longleftrightarrow> blockedQueue k = None"
      "pages_left k \<le> unat (free_pages mm)" "mem_ok R (k\<lparr>kmem := mm, blockedQueue := qq\<rparr>)" by metis
  have bl: "blockedQueue k \<noteq> None" "distinct (blocked k)" "set (blocked k) - {p} = in_state k BLOCKED - {p}"
    using q queue_okD(3) [of k] queue_ok_butD(3) [of p k] by auto
  have "set (blocked k) \<subseteq> in_state k BLOCKED"
    using q queue_okD(3) [of k] queue_ok_butD(3) [of p k] by auto
  then have "set (blocked k) \<subseteq> set (table k)" by (auto simp: in_state_def)
  note drop = drop_by_pid [OF t p(1) this bl(2)]
  have rd: "length (priorityQueues k) = PRIO \<and> (\<forall>i<PRIO. priorityQueues k ! i \<noteq> None \<and> distinct (ready k i) \<and>
        set (ready k i) = {q \<in> in_state k READY. level k q = i} - {p})"
  proof (cases "queue_ok_but p k")
    case True
    then show ?thesis by (simp add: queue_ok_but_def)
  next
    case False
    then have "queue_ok k" "p \<notin> in_state k READY" using q p(2) by auto
    then show ?thesis unfolding queue_ok_def by auto
  qed
  have "queue_ok_but p (k\<lparr>kmem := mm, blockedQueue := qq\<rparr>)"
    using rd bl drop e(2,3) unfolding queue_ok_but_def by simp
  with e show ?thesis unfolding Let_def by (intro exI [of _ qq] exI [of _ mm]) simp
qed

section \<open>The timer\<close>

definition on_cpu :: "kernel \<Rightarrow> bool" where
  "on_cpu k \<longleftrightarrow> currentProcess k \<in> in_state k RUNNING"

lemma on_cpu_pcb:
  assumes "sched_inv k"
  shows "on_cpu k \<longleftrightarrow> currentProcess k \<noteq> NULL \<and> currentProcess k \<noteq> idleProcess k \<and>
           st_of k (currentProcess k) = RUNNING"
  using sched_invD(4) [OF assms] table_okD(3) [OF sched_invD(1) [OF assms]]
  by (auto simp: on_cpu_def in_state_def current_ok_def)

text \<open>The running process keeps the processor while its quantum lasts.\<close>

lemma schedule_keeps:
  assumes inv: "sched_inv k" and m: "mem_ok R k" and on: "on_cpu k"
    and q1: "quantumLeft (pr_of k (currentProcess k)) \<noteq> 1"
    and pr_def: "pr = pr_of k (currentProcess k)"
    and k'_def: "k' = k\<lparr>procs := (procs k)(currentProcess k \<mapsto> pr\<lparr>stack := sp, quantumLeft := quantumLeft pr - 1\<rparr>)\<rparr>"
  shows "schedule sp k = Some (sp, k')" and "sched_inv k'" and "mem_ok R k'" and "ready k' = ready k"
    and "in_state k' = in_state k"
proof -
  note t = sched_invD(1) [OF inv] and q = sched_invD(2) [OF inv] and c = sched_invD(3) [OF inv]
    and cur = sched_invD(4) [OF inv]
  let ?c = "currentProcess k"
  have ct: "?c \<in> set (table k)" "?c \<noteq> idleProcess k" "state pr = RUNNING"
    using on by (auto simp: on_cpu_def in_state_def pr_def)
  have pr: "procs k ?c = Some pr" "?c \<noteq> NULL" using table_okD(3) [OF t ct(1)] by (auto simp: pr_def)
  have st: "st_of k' p = st_of k p" and lv: "level k' p = level k p" for p
    by (simp_all add: k'_def pr_def pr_of_def)
  have "quantumLeft pr - 1 \<noteq> 0" using q1 by (simp add: pr_def)
  then show "schedule sp k = Some (sp, k')"
    using pr ct by (simp add: schedule_def pcb_def upd_pcb_def Let_def k'_def)
  show is': "in_state k' = in_state k" unfolding in_state_def st by (simp add: k'_def fun_eq_iff)
  show rd: "ready k' = ready k" by (simp add: k'_def)
  have "table_ok k'"
    unfolding k'_def by (rule table_ok_upd [OF t]) (use table_okD(3) [OF t ct(1)] in \<open>auto simp: pr_def\<close>)
  moreover have "queue_ok k'" using q unfolding queue_ok_def is' lv by (simp add: k'_def)
  moreover have "current_ok k'" using cur pr ct unfolding current_ok_def is' st by (auto simp: k'_def)
  moreover have "credits_ok k'" using c by (simp add: k'_def)
  ultimately show "sched_inv k'" by (simp add: sched_inv_def)
  show "mem_ok R k'"
    unfolding k'_def using m by (subst mem_ok_upd) (simp_all add: proc_blocks_def pr_def)
qed

text \<open>Otherwise the next process is picked from a state with the running process queued again.\<close>

definition requeued :: "ptr \<Rightarrow> kernel \<Rightarrow> kernel \<Rightarrow> bool" where
  "requeued sp k k1 \<longleftrightarrow>
     table k1 = table k \<and> idleProcess k1 = idleProcess k \<and> blocked k1 = blocked k \<and> credits k1 = credits k \<and>
     (\<forall>i<PRIO. ready k1 i = (if on_cpu k \<and> i = level k (currentProcess k)
                            then ready k i @ [currentProcess k] else ready k i)) \<and>
     (currentProcess k \<noteq> NULL \<longrightarrow> stack (pr_of k1 (currentProcess k)) = sp) \<and>
     (\<forall>p. p \<noteq> currentProcess k \<longrightarrow> pr_of k1 p = pr_of k p)"

lemma schedule_leaves_other:
  assumes inv: "sched_inv k" and m: "mem_ok R k" and off: "\<not> on_cpu k"
  shows "\<exists>k1. schedule sp k = pickNextProcess k1 \<and> requeued sp k k1 \<and> table_ok k1 \<and> queue_ok k1 \<and>
           credits_ok k1 \<and> mem_ok R k1 \<and> in_state k1 RUNNING = {} \<and> kmem k1 = kmem k"
proof -
  note t = sched_invD(1) [OF inv] and q = sched_invD(2) [OF inv] and c = sched_invD(3) [OF inv]
    and cur = sched_invD(4) [OF inv]
  let ?c = "currentProcess k"
  have none: "in_state k RUNNING = {}" using cur off by (auto simp: current_ok_def on_cpu_def)
  show ?thesis
  proof (cases "?c = NULL")
    case True
    with none t q c m off show ?thesis
      by (intro exI [of _ k]) (simp add: schedule_def requeued_def)
  next
    case nn: False
    then obtain pr where pr: "procs k ?c = Some pr" "pr_of k ?c = pr"
      and zomb: "?c \<in> set (table k) \<or> state pr = ZOMBIE"
      and nr: "?c \<noteq> idleProcess k \<Longrightarrow> state pr \<noteq> READY"
      using cur by (auto simp: current_ok_def pr_of_def)
    let ?k1 = "k\<lparr>procs := (procs k)(?c \<mapsto> pr\<lparr>stack := sp\<rparr>)\<rparr>"
    have u1: "upd_pcb ?c (\<lambda>pr. pr\<lparr>stack := sp\<rparr>) k = Some ?k1" using pr(1) nn by (simp add: upd_pcb_eq)
    have is1: "in_state ?k1 = in_state k" using pr by (auto simp: in_state_def pr_of_def fun_eq_iff)
    have lev1: "level ?k1 p = level k p" for p using pr by (simp add: pr_of_def)
    have t1: "table_ok ?k1"
    proof (cases "?c \<in> set (table k)")
      case True
      show ?thesis by (rule table_ok_upd [OF t]) (use pr(2) table_okD(3) [OF t True] in auto)
    next
      case False
      have "pr_of ?k1 p = pr_of k p" if "p \<in> set (table k)" for p
        using that False by (auto simp: pr_of_def)
      then show ?thesis using t by (simp add: table_ok_def table_core_def inj_on_def)
    qed
    have q1: "queue_ok ?k1" using q unfolding queue_ok_def is1 lev1 by simp
    have m1: "mem_ok R ?k1" using m pr(2) by (subst mem_ok_upd) (simp_all add: proc_blocks_def)
    have "state pr \<noteq> RUNNING" if "?c \<noteq> idleProcess k"
      using off that zomb pr(2) by (auto simp: on_cpu_def in_state_def)
    then have "schedule sp k = pickNextProcess ?k1"
      using nn nr u1 by (auto simp: schedule_def pcb_def Let_def)
    moreover have "requeued sp k ?k1" using off by (simp add: requeued_def) (simp add: pr_of_def)
    ultimately show ?thesis using t1 q1 m1 c is1 none by (intro exI [of _ ?k1]) simp
  qed
qed

lemma schedule_leaves_expired:
  assumes inv: "sched_inv k" and m: "mem_ok R k" and pg: "0 < pages_left k" and on: "on_cpu k"
    and q1: "quantumLeft (pr_of k (currentProcess k)) = 1"
  shows "\<exists>k1. schedule sp k = pickNextProcess k1 \<and> requeued sp k k1 \<and> table_ok k1 \<and> queue_ok k1 \<and>
           credits_ok k1 \<and> mem_ok R k1 \<and> in_state k1 RUNNING = {}"
proof -
  note t = sched_invD(1) [OF inv] and q = sched_invD(2) [OF inv] and c = sched_invD(3) [OF inv]
    and cur = sched_invD(4) [OF inv]
  let ?c = "currentProcess k"
  define pr where "pr = pr_of k ?c"
  have ct: "?c \<in> set (table k)" and ni: "?c \<noteq> idleProcess k" and run: "state pr = RUNNING"
    using on by (auto simp: on_cpu_def in_state_def pr_def)
  have pr: "procs k ?c = Some pr" and nn: "?c \<noteq> NULL" and pr2: "pr_of k ?c = pr"
    using table_okD(3) [OF t ct] by (auto simp: pr_def)
  let ?pr = "pr\<lparr>stack := sp, quantumLeft := quantumLeft pr - 1, state := READY\<rparr>"
  let ?k2 = "k\<lparr>procs := (procs k)(?c \<mapsto> ?pr)\<rparr>"
  have t2: "table_ok ?k2" by (rule table_ok_upd [OF t]) (use pr2 table_okD(3) [OF t ct] in auto)
  have "queue_ok_but ?c k"
    using q run pr2 by (subst queue_ok_not_queued) (auto simp: in_state_def)
  then have q2: "queue_ok_but ?c ?k2" by (rule queue_ok_but_upd [OF _ ct ni])
  have m2: "mem_ok R ?k2" using m pr2 by (subst mem_ok_upd) (simp_all add: proc_blocks_def)
  have is2: "in_state ?k2 s = (if s = READY then insert ?c (in_state k s) else in_state k s - {?c})" for s
    using in_state_upd [OF ct ni, of ?pr s] by auto
  have p2: "?c \<in> in_state ?k2 READY" using is2 by simp
  have pg2: "0 < pages_left ?k2" using pg by simp
  from Enqueue_ready_ok [OF table_okD(6) [OF t2] q2 m2 pg2 p2] obtain qq mm where
    e: "Enqueue_ready (priority ?pr) ?c ?k2 =
          Some (?k2\<lparr>kmem := mm, priorityQueues := (priorityQueues k)[unat (priority pr) := qq]\<rparr>)"
      "queue_ok (?k2\<lparr>kmem := mm, priorityQueues := (priorityQueues k)[unat (priority pr) := qq]\<rparr>)"
      "mem_ok R (?k2\<lparr>kmem := mm, priorityQueues := (priorityQueues k)[unat (priority pr) := qq]\<rparr>)"
      "\<forall>j. ready (?k2\<lparr>kmem := mm, priorityQueues := (priorityQueues k)[unat (priority pr) := qq]\<rparr>) j =
         (if j = unat (priority pr) then ready k (unat (priority pr)) @ [?c] else ready k j)"
    unfolding Let_def by auto
  let ?k3 = "?k2\<lparr>kmem := mm, priorityQueues := (priorityQueues k)[unat (priority pr) := qq]\<rparr>"
  have "in_state ?k3 RUNNING = {}" using is2 [of RUNNING] cur by (auto simp: current_ok_def)
  moreover have "schedule sp k = pickNextProcess ?k3"
    using q1 nn ni run e(1) pr pr2 by (simp add: schedule_def pcb_def upd_pcb_def Let_def)
  moreover have "ready ?k3 i = (if i = level k ?c then ready k i @ [?c] else ready k i)" for i
    using spec [OF e(4), of i] pr2 by simp
  then have "requeued sp k ?k3"
    unfolding requeued_def using on by (auto simp del: view_simps(18)) (auto simp: pr_of_def)
  ultimately show ?thesis using e(2,3) t2 c by (intro exI [of _ ?k3]) simp
qed

text \<open>Together: what a timer tick does.\<close>

lemma schedule_inv:
  assumes inv: "sched_inv k" and m: "mem_ok R k" and pg: "0 < pages_left k"
  shows "\<exists>sp' k'. schedule sp k = Some (sp', k') \<and> sched_inv k' \<and> mem_ok R k' \<and>
           table k' = table k \<and> idleProcess k' = idleProcess k \<and> blocked k' = blocked k \<and>
           currentProcess k' \<in> set (table k) \<and> st_of k' (currentProcess k') = RUNNING \<and>
           sp' = stack (pr_of k' (currentProcess k')) \<and>
           (if on_cpu k \<and> quantumLeft (pr_of k (currentProcess k)) \<noteq> 1
            then currentProcess k' = currentProcess k \<and> sp' = sp \<and> ready k' = ready k
            else \<exists>k1. requeued sp k k1 \<and> dispatched k1 k')"
proof (cases "on_cpu k \<and> quantumLeft (pr_of k (currentProcess k)) \<noteq> 1")
  case True
  then have "on_cpu k" "quantumLeft (pr_of k (currentProcess k)) \<noteq> 1" by auto
  note keep = schedule_keeps [OF inv m this refl refl, of sp]
  show ?thesis
    by (intro exI conjI, rule keep(1), rule keep(2), rule keep(3))
      (use True in \<open>simp_all add: on_cpu_def in_state_def\<close>)
next
  case False
  have "\<exists>k1. schedule sp k = pickNextProcess k1 \<and> requeued sp k k1 \<and> table_ok k1 \<and> queue_ok k1 \<and>
          credits_ok k1 \<and> mem_ok R k1 \<and> in_state k1 RUNNING = {}"
    using False schedule_leaves_other [OF inv m, of sp] schedule_leaves_expired [OF inv m pg, of sp]
    by (cases "on_cpu k") blast+
  then obtain k1 where k1: "schedule sp k = pickNextProcess k1" "requeued sp k k1" "table_ok k1" "queue_ok k1"
      "credits_ok k1" "mem_ok R k1" "in_state k1 RUNNING = {}" by blast
  from pickNextProcess_inv [OF k1(3-7)] obtain sp' k' where
    k': "pickNextProcess k1 = Some (sp', k')" "sched_inv k'" "mem_ok R k'" "table k' = table k1" "blocked k' = blocked k1"
      "idleProcess k' = idleProcess k1" "sp' = stack (pr_of k' (currentProcess k'))"
      "st_of k' (currentProcess k') = RUNNING" "dispatched k1 k'" by blast
  have "currentProcess k' \<in> set (table k1)"
  proof (cases "\<forall>i<PRIO. ready k1 i = []")
    case True
    with k'(9) show ?thesis using table_okD(5) [OF k1(3)] by (simp add: dispatched_def)
  next
    case False
    with k'(9) obtain i where "i < PRIO" "currentProcess k' \<in> set (ready k1 i)"
      by (auto simp: dispatched_def)
    then show ?thesis using queue_okD(2) [OF k1(4)] by (auto simp: in_state_def)
  qed
  with k' k1(1,2) False show ?thesis unfolding requeued_def [of sp k k1]
    by (intro exI [of _ sp'] exI [of _ k']) (auto simp: requeued_def)
qed

text \<open>A tick that finds no process on the processor takes no memory.\<close>

lemma schedule_off_pages:
  assumes inv: "sched_inv k" and m: "mem_ok R k" and off: "\<not> on_cpu k"
    and sc: "schedule sp k = Some (sp', k')"
  shows "pages_left k \<le> pages_left k'"
proof -
  from schedule_leaves_other [OF inv m off, of sp] obtain k1 where
    k1: "schedule sp k = pickNextProcess k1" "table_ok k1" "queue_ok k1" "credits_ok k1" "mem_ok R k1"
      "in_state k1 RUNNING = {}" "kmem k1 = kmem k" by blast
  from pickNextProcess_inv [OF k1(2-6)] sc k1(1,7) show ?thesis by auto
qed

section \<open>No starvation among the ready queues\<close>

definition credit_total :: "u8 list \<Rightarrow> nat" where
  "credit_total cs = (\<Sum>c\<leftarrow>cs. unat c)"

lemma credit_total_dec:
  "i < length cs \<Longrightarrow> cs ! i \<noteq> 0 \<Longrightarrow> Suc (credit_total (cs[i := cs ! i - 1])) = credit_total cs"
proof (induction cs arbitrary: i)
  case (Cons c cs)
  show ?case
  proof (cases i)
    case 0
    with Cons.prems have "Suc (unat (c - 1)) = unat c" by (simp add: unat_minus_one unat_gt_0)
    with 0 show ?thesis by (simp add: credit_total_def)
  next
    case (Suc j)
    with Cons show ?thesis by (simp add: credit_total_def)
  qed
qed simp

lemma credit_total_ge: "i < length cs \<Longrightarrow> unat (cs ! i) \<le> credit_total cs"
  unfolding credit_total_def by (rule member_le_sum_list) auto

lemma credit_total_two:
  "i < length cs \<Longrightarrow> j < length cs \<Longrightarrow> i \<noteq> j \<Longrightarrow> unat (cs ! i) + unat (cs ! j) \<le> credit_total cs"
proof (induction cs arbitrary: i j)
  case (Cons c cs)
  show ?case
  proof (cases "i = 0 \<or> j = 0")
    case True
    with Cons.prems show ?thesis
      using credit_total_ge [of "i - 1" cs] credit_total_ge [of "j - 1" cs]
      by (auto simp: credit_total_def nth_Cons')
  next
    case False
    then obtain a b where "i = Suc a" "j = Suc b" by (metis not0_implies_Suc)
    with Cons.IH [of a b] Cons.prems show ?thesis by (simp add: credit_total_def)
  qed
qed simp

text \<open>One choice, in terms of the credits.\<close>

lemma pick_step:
  assumes len: "length (priorityQueues k) = PRIO" and cr: "credits_ok k"
    and ne: "p < PRIO" "\<not> q_empty (priorityQueues k ! p)"
    and np: "fst (pickNextQueue k) \<noteq> int p"
  defines "cs' \<equiv> credits (snd (pickNextQueue k))"
  shows "(credits k ! p \<noteq> 0 \<longrightarrow> cs' ! p = credits k ! p \<and> Suc (credit_total cs') = credit_total (credits k)) \<and>
         (credits k ! p = 0 \<longrightarrow> (cs' ! p = 0 \<and> Suc (credit_total cs') = credit_total (credits k)) \<or>
                                (cs' ! p \<noteq> 0 \<and> Suc (credit_total cs') = 10))"
proof -
  obtain q k' where pk: "pickNextQueue k = (q, k')" by force
  let ?k = "topped_up k"
  let ?i = "LEAST i. eligible ?k i"
  have nE: "(\<forall>i<PRIO. q_empty (priorityQueues k ! i)) = False" using ne by blast
  have res: "q = int ?i" "credits k' = (credits ?k)[?i := credits ?k ! ?i - 1]"
    using pickNextQueue_eq [OF len cr, unfolded nE if_False] pk by simp_all
  have "\<exists>i. eligible ?k i" using eligible_topped_up [OF cr] ne by blast
  then have el: "eligible ?k ?i" by (rule LeastI_ex)
  have ok: "credits_ok ?k" by (rule topped_up_credits [OF cr])
  have l: "length (credits ?k) = PRIO" using ok by (simp add: credits_ok_def)
  have i: "?i < PRIO" "credits ?k ! ?i \<noteq> 0" "?i \<noteq> p"
    using el np res pk by (auto simp: eligible_def)
  have cs: "cs' = (credits ?k)[?i := credits ?k ! ?i - 1]" using res pk by (simp add: cs'_def)
  have keep: "cs' ! p = credits ?k ! p" using cs i by simp
  have tot: "Suc (credit_total cs') = credit_total (credits ?k)"
    using credit_total_dec [of ?i "credits ?k"] i l cs by simp
  show ?thesis
  proof (cases "\<forall>i. \<not> eligible k i")
    case True
    then have z: "credits k ! p = 0" using ne by (auto simp: eligible_def)
    have w: "credits ?k = weights k" "weights k = [4, 3, 2, 1]"
      using True cr by (auto simp: topped_up_def refill_credits_def credits_ok_def)
    have "p = 0 \<or> p = 1 \<or> p = 2 \<or> p = 3" using ne(1) by linarith
    then have "weights k ! p \<noteq> 0" unfolding w by auto
    with z keep tot w show ?thesis by (simp add: credit_total_def)
  next
    case False
    then have "?k = k" unfolding topped_up_def by (rule if_not_P)
    with keep tot show ?thesis by auto
  qed
qed

text \<open>
  A run of choices: between two of them anything may happen to the queues, as long as queue \<open>p\<close> is
  not empty when the choice is made; only \<open>pickNextQueue\<close> writes the credits.
\<close>

definition picking_run :: "nat \<Rightarrow> (nat \<Rightarrow> kernel) \<Rightarrow> bool" where
  "picking_run p f \<longleftrightarrow>
     (\<forall>j. length (priorityQueues (f j)) = PRIO \<and> weights (f j) = [4, 3, 2, 1] \<and>
          \<not> q_empty (priorityQueues (f j) ! p) \<and>
          credits (f (Suc j)) = credits (snd (pickNextQueue (f j)))) \<and>
     credits_ok (f 0)"

lemma picking_run_credits:
  assumes "picking_run p f"
  shows "credits_ok (f j)"
proof (induction j)
  case 0
  then show ?case using assms by (simp add: picking_run_def)
next
  case (Suc j)
  obtain q k' where pk: "pickNextQueue (f j) = (q, k')" by force
  have "length (priorityQueues (f j)) = PRIO" using assms by (simp add: picking_run_def)
  from pickNextQueue_spec [OF this Suc pk] have w: "credits_ok k'" "weights k' = weights (f j)" by auto
  moreover have "credits (f (Suc j)) = credits k'" "weights (f (Suc j)) = weights (f j)"
    using assms pk by (simp_all add: picking_run_def)
  moreover from this w have "weights (f (Suc j)) = weights k'" by simp
  ultimately show ?case unfolding credits_ok_def by metis
qed

lemma served_with_credit:
  assumes run: "picking_run p f" and p: "p < PRIO"
  shows "credits (f j) ! p \<noteq> 0 \<Longrightarrow> credit_total (credits (f j)) \<le> n + unat (credits (f j) ! p) \<Longrightarrow>
           \<exists>d\<le>n. fst (pickNextQueue (f (j + d))) = int p"
proof (induction n arbitrary: j)
  case 0
  show ?case
  proof (rule ccontr)
    assume "\<not> ?case"
    then have np: "fst (pickNextQueue (f j)) \<noteq> int p" by auto
    have len: "length (priorityQueues (f j)) = PRIO" and ne: "\<not> q_empty (priorityQueues (f j) ! p)"
      using run by (auto simp: picking_run_def)
    let ?cs' = "credits (snd (pickNextQueue (f j)))"
    from pick_step [OF len picking_run_credits [OF run] p ne np] 0
    have "?cs' ! p = credits (f j) ! p" "Suc (credit_total ?cs') \<le> unat (credits (f j) ! p)" by auto
    moreover have "unat (?cs' ! p) \<le> credit_total ?cs'"
      using picking_run_credits [OF run, of "Suc j"] run p
      by (intro credit_total_ge) (simp add: picking_run_def credits_ok_def)
    ultimately show False by simp
  qed
next
  case (Suc n)
  show ?case
  proof (cases "fst (pickNextQueue (f j)) = int p")
    case True
    then show ?thesis by (intro exI [of _ 0]) simp
  next
    case False
    have len: "length (priorityQueues (f j)) = PRIO" and ne: "\<not> q_empty (priorityQueues (f j) ! p)"
      and nx: "credits (f (Suc j)) = credits (snd (pickNextQueue (f j)))"
      using run by (auto simp: picking_run_def)
    from pick_step [OF len picking_run_credits [OF run] p ne False] Suc.prems
    have "credits (f (Suc j)) ! p = credits (f j) ! p"
      "Suc (credit_total (credits (f (Suc j)))) = credit_total (credits (f j))" unfolding nx by auto
    with Suc.prems Suc.IH [of "Suc j"] obtain d where
      "d \<le> n" "fst (pickNextQueue (f (Suc j + d))) = int p" by auto
    then show ?thesis by (intro exI [of _ "Suc d"]) simp
  qed
qed

lemma served_without_credit:
  assumes run: "picking_run p f" and p: "p < PRIO"
  shows "credits (f j) ! p = 0 \<Longrightarrow> credit_total (credits (f j)) \<le> n \<Longrightarrow>
           \<exists>d\<le>n + 9. fst (pickNextQueue (f (j + d))) = int p"
proof (induction n arbitrary: j)
  case (Suc n)
  show ?case
  proof (cases "fst (pickNextQueue (f j)) = int p")
    case True
    then show ?thesis by (intro exI [of _ 0]) simp
  next
    case False
    have len: "length (priorityQueues (f j)) = PRIO" and ne: "\<not> q_empty (priorityQueues (f j) ! p)"
      and nx: "credits (f (Suc j)) = credits (snd (pickNextQueue (f j)))"
      using run by (auto simp: picking_run_def)
    from pick_step [OF len picking_run_credits [OF run] p ne False] Suc.prems(1)
    consider (dry) "credits (f (Suc j)) ! p = 0"
        "Suc (credit_total (credits (f (Suc j)))) = credit_total (credits (f j))"
      | (refill) "credits (f (Suc j)) ! p \<noteq> 0" "credit_total (credits (f (Suc j))) = 9"
      unfolding nx by auto
    then show ?thesis
    proof cases
      case dry
      with Suc.IH [of "Suc j"] Suc.prems(2) obtain d where
        "d \<le> n + 9" "fst (pickNextQueue (f (Suc j + d))) = int p" by auto
      then show ?thesis by (intro exI [of _ "Suc d"]) simp
    next
      case refill
      have "0 < unat (credits (f (Suc j)) ! p)" using refill(1) by (simp add: unat_gt_0)
      with served_with_credit [OF run p refill(1), of 8] refill(2) obtain d where
        "d \<le> 8" "fst (pickNextQueue (f (Suc j + d))) = int p" by auto
      then show ?thesis by (intro exI [of _ "Suc d"]) simp
    qed
  qed
next
  case 0
  show ?case
  proof (cases "fst (pickNextQueue (f j)) = int p")
    case True
    then show ?thesis by (intro exI [of _ 0]) simp
  next
    case False
    have len: "length (priorityQueues (f j)) = PRIO" and ne: "\<not> q_empty (priorityQueues (f j) ! p)"
      and nx: "credits (f (Suc j)) = credits (snd (pickNextQueue (f j)))"
      using run by (auto simp: picking_run_def)
    from pick_step [OF len picking_run_credits [OF run] p ne False] "0.prems"
    have refill: "credits (f (Suc j)) ! p \<noteq> 0" "credit_total (credits (f (Suc j))) = 9"
      unfolding nx by auto
    have "0 < unat (credits (f (Suc j)) ! p)" using refill(1) by (simp add: unat_gt_0)
    with served_with_credit [OF run p refill(1), of 8] refill(2) obtain d where
      "d \<le> 8" "fst (pickNextQueue (f (Suc j + d))) = int p" by auto
    then show ?thesis by (intro exI [of _ "Suc d"]) simp
  qed
qed

lemma credit_total_bound: "credits_ok k \<Longrightarrow> p < PRIO \<Longrightarrow> credit_total (credits k) \<le> 9 + unat (credits k ! p) \<and>
    (credits k ! p = 0 \<longrightarrow> credit_total (credits k) \<le> 9)"
proof -
  assume ok: "credits_ok k" and p: "p < PRIO"
  then obtain a b c d where cs: "credits k = [a, b, c, d]"
    by (auto simp: credits_ok_def numeral_eq_Suc length_Suc_conv)
  have le: "i < PRIO \<Longrightarrow> [a, b, c, d] ! i \<le> ([4, 3, 2, 1] :: u8 list) ! i" for i
    using ok unfolding credits_ok_def cs by metis
  have "a \<le> 4 \<and> b \<le> 3 \<and> c \<le> 2 \<and> d \<le> 1"
    using le [of 0] le [of 1] le [of 2] le [of 3] by simp
  then have u: "unat a \<le> 4" "unat b \<le> 3" "unat c \<le> 2" "unat d \<le> 1"
    by (simp_all add: word_le_nat_alt)
  have "p = 0 \<or> p = 1 \<or> p = 2 \<or> p = 3" using p by linarith
  then show ?thesis using u by (auto simp: cs credit_total_def)
qed

end
