(* ===== verification/SchedOps.thy ===== *)
theory SchedOps
  imports Dispatch
begin

text \<open>
  Creating processes and initialising the scheduler: the invariants hold from the first state on, and
  every process created keeps them.
\<close>

section \<open>Bookkeeping for a new process\<close>

lemma table_in_owned:
  assumes "q \<in> set (table k)"
  shows "q \<in># owned k"
proof -
  have "q \<in># proc_blocks q (pr_of k q)" by (simp add: proc_blocks_def)
  moreover have "table_blocks k = (\<Sum>p\<leftarrow>remove1 q (table k). proc_blocks p (pr_of k p)) + proc_blocks q (pr_of k q)"
    unfolding table_blocks_def using assms by (simp add: sum_list_map_remove1 add.commute)
  ultimately show ?thesis by (simp add: owned_def)
qed

text \<open>Replacing one list of a control block, with what that does to the memory.\<close>

lemma mem_ok_field:
  assumes "mem_ok R k" and "q \<in> set (table k)" and "distinct (table k)"
    and "proc_blocks q (pr_of k q) = B + mset (blocks l)" and "proc_blocks q pr' = B + mset (blocks l')"
    and "\<And>M. bm.owns (M + mset (blocks l)) (kmem k) \<Longrightarrow> bm.owns (M + mset (blocks l')) m"
  shows "mem_ok R (k\<lparr>kmem := m, procs := (procs k)(q \<mapsto> pr')\<rparr>)"
proof -
  obtain M where M: "table_blocks k = M + proc_blocks q (pr_of k q)"
    "\<And>pr. table_blocks (k\<lparr>procs := (procs k)(q \<mapsto> pr)\<rparr>) = M + proc_blocks q pr"
    using table_blocks_split [OF assms(2,3)] by blast
  let ?rest = "R + queues_blocks (priorityQueues k) + mset (blocks (blockedQueue k)) +
      mset (blocks (processTable k)) + M + B"
  have "bm.owns (?rest + mset (blocks l)) (kmem k)"
    using assms(1,4) M(1) by (simp add: mem_ok_def owned_def ac_simps)
  from assms(6) [OF this] have "bm.owns (?rest + mset (blocks l')) m" .
  moreover have "table_blocks (k\<lparr>kmem := m, procs := (procs k)(q \<mapsto> pr')\<rparr>) = M + (B + mset (blocks l'))"
    using M(2) [of pr'] assms(5) by (simp add: table_blocks_def)
  ultimately show ?thesis by (simp add: mem_ok_def owned_def ac_simps)
qed

lemma add_child_eff:
  assumes m: "mem_ok R k" and q: "q \<in> set (table k)" and t: "table_core k" and pg: "0 < pages_left k"
  shows "\<exists>l mm. add_child q i k =
           Some (k\<lparr>kmem := mm, procs := (procs k)(q \<mapsto> (pr_of k q)\<lparr>children := l\<rparr>)\<rparr>) \<and>
         (children (pr_of k q) \<noteq> None \<longrightarrow> items l = i # items (children (pr_of k q)) \<and> l \<noteq> None) \<and>
         pages_left k \<le> unat (free_pages mm) + 1 \<and>
         mem_ok R (k\<lparr>kmem := mm, procs := (procs k)(q \<mapsto> (pr_of k q)\<lparr>children := l\<rparr>)\<rparr>)"
proof -
  note qq = table_coreD(3) [OF t q]
  let ?c = "children (pr_of k q)"
  obtain l mm where al: "l_add mem_alloc ?c i (kmem k) = (l, mm)" by force
  have "mem_ok R (k\<lparr>kmem := mm, procs := (procs k)(q \<mapsto> (pr_of k q)\<lparr>children := l\<rparr>)\<rparr>)"
    by (rule mem_ok_field [OF m q table_coreD(1) [OF t], of
          "proc_blocks q ((pr_of k q)\<lparr>children := None\<rparr>)" ?c _ l])
      (use bm.owns_l_add [OF _ al] in \<open>auto simp: proc_blocks_def ac_simps\<close>)
  moreover have "add_child q i k =
      Some (k\<lparr>kmem := mm, procs := (procs k)(q \<mapsto> (pr_of k q)\<lparr>children := l\<rparr>)\<rparr>)"
    using qq al by (simp add: add_child_def pcb_def upd_pcb_def)
  moreover have "bm.owns (R + owned k) (kmem k)" using m by (simp add: mem_ok_def)
  then have "pm_inv (kmem k)" by (rule bm.owns_inv)
  from bm.l_add_succeeds [OF this pg, of ?c i] al
  have "?c \<noteq> None \<longrightarrow> items l = i # items ?c \<and> l \<noteq> None \<and> unat (free_pages mm) = pages_left k - 1" by auto
  moreover have "pages_left k \<le> unat (free_pages mm) + 1"
    using calculation(3) al by (cases "?c = None") (auto simp: l_add_def)
  ultimately show ?thesis by blast
qed

section \<open>A new process\<close>

definition core_inv :: "kernel \<Rightarrow> bool" where
  "core_inv k \<longleftrightarrow> table_core k \<and> queue_ok k \<and> credits_ok k \<and> current_ok k"

lemma sched_inv_core: "sched_inv k \<longleftrightarrow> core_inv k \<and> idleProcess k \<in> set (table k)"
  by (auto simp: sched_inv_def core_inv_def table_ok_def)

text \<open>The control block of a new process entered in the table, before any queue knows it.\<close>

definition admitted :: "kernel \<Rightarrow> ptr \<Rightarrow> ProcessCDT \<Rightarrow> dlist \<Rightarrow> pmem \<Rightarrow> kernel" where
  "admitted k p pr t m =
     k\<lparr>kmem := m, procs := (procs k)(p \<mapsto> pr), processTable := t, lastPid := lastPid k + 1\<rparr>"

lemma admitted_simps [simp]:
  "table (admitted k p pr t m) = items t" "ready (admitted k p pr t m) = ready k"
  "blocked (admitted k p pr t m) = blocked k" "priorityQueues (admitted k p pr t m) = priorityQueues k"
  "blockedQueue (admitted k p pr t m) = blockedQueue k" "idleProcess (admitted k p pr t m) = idleProcess k"
  "currentProcess (admitted k p pr t m) = currentProcess k" "kmem (admitted k p pr t m) = m"
  "pr_of (admitted k p pr t m) q = (if q = p then pr else pr_of k q)"
  "lastPid (admitted k p pr t m) = lastPid k + 1" "processTable (admitted k p pr t m) = t"
  "credits_ok (admitted k p pr t m) = credits_ok k"
  "procs (admitted k p pr t m) = (procs k)(p \<mapsto> pr)"
  by (auto simp: admitted_def pr_of_def)

lemma admitted_in_state:
  assumes "items t = p # table k" and "p \<notin> set (table k)" and "p \<noteq> idleProcess k"
  shows "in_state (admitted k p pr t m) s =
           (if state pr = s then insert p (in_state k s) else in_state k s)"
  using assms by (auto simp: in_state_def)

lemma admitted_core:
  assumes c: "core_inv k" and t: "items t = p # table k" "t \<noteq> None" and p: "p \<notin> set (table k)" "p \<noteq> NULL"
    and pr: "pid pr = lastPid k" "state pr = READY" "unat (priority pr) < PRIO"
    and idle: "p \<noteq> idleProcess k" and last: "lastPid k \<noteq> -1"
    and cur: "currentProcess k = NULL \<or> currentProcess k \<in> set (table k)"
  shows "table_core (admitted k p pr t m)" and "queue_ok_but p (admitted k p pr t m)"
    and "current_ok (admitted k p pr t m)"
proof -
  have tc: "table_core k" and q: "queue_ok k" and co: "current_ok k" using c by (auto simp: core_inv_def)
  have lt: "lastPid k < lastPid k + 1" using last by (rule word_less_Suc)
  have old: "q \<noteq> NULL \<and> procs k q \<noteq> None \<and> level k q < PRIO \<and> pid (pr_of k q) < lastPid k"
    if "q \<in> set (table k)" for q using table_coreD(3) [OF tc that] by simp
  then have old': "pid (pr_of k q) < lastPid k + 1" if "q \<in> set (table k)" for q
    using that lt by (meson less_trans)
  have "inj_on (\<lambda>q. pid (pr_of (admitted k p pr t m) q)) (set (table (admitted k p pr t m)))"
  proof (rule inj_onI)
    let ?f = "\<lambda>q. pid (pr_of (admitted k p pr t m) q)"
    fix x y
    assume xy: "x \<in> set (table (admitted k p pr t m))" "y \<in> set (table (admitted k p pr t m))" "?f x = ?f y"
    have new: "?f p = lastPid k" and oldf: "\<And>q. q \<in> set (table k) \<Longrightarrow> ?f q = pid (pr_of k q)"
      using pr(1) p(1) by auto
    have "x = p \<or> x \<in> set (table k)" "y = p \<or> y \<in> set (table k)" using xy(1,2) t(1) by auto
    then show "x = y"
      using xy(3) new oldf old table_coreD(4) [OF tc] by (metis less_irrefl)
  qed
  then show "table_core (admitted k p pr t m)"
    using table_coreD(1) [OF tc] t p pr old old' lt unfolding table_core_def by auto
  note ist = admitted_in_state [OF t(1) p(1) idle, of pr m]
  have pin: "p \<notin> in_state k s" for s using p(1) by (simp add: in_state_def)
  have lv: "{q \<in> in_state k READY. level (admitted k p pr t m) q = i} = {q \<in> in_state k READY. level k q = i}" for i
    using pin by auto
  have "{q \<in> in_state (admitted k p pr t m) READY. level (admitted k p pr t m) q = i} - {p}
      = {q \<in> in_state k READY. level k q = i}" for i
    using pin unfolding ist by auto
  moreover have "in_state (admitted k p pr t m) BLOCKED - {p} = in_state k BLOCKED"
    using pin unfolding ist by auto
  ultimately show "queue_ok_but p (admitted k p pr t m)"
    using q unfolding queue_ok_def queue_ok_but_def by simp
  have "in_state (admitted k p pr t m) RUNNING = in_state k RUNNING"
    unfolding ist using pr(2) by simp
  moreover have "currentProcess k \<noteq> p" using cur p by auto
  ultimately show "current_ok (admitted k p pr t m)"
    using co cur t(1) unfolding current_ok_def by auto
qed

lemma admitted_mem:
  assumes o: "bm.owns (R + owned k + proc_blocks p pr) m" and p: "p \<notin> set (table k)"
    and al: "l_add mem_alloc (processTable k) p m = (t, m')" and t: "items t = p # table k"
  shows "mem_ok R (admitted k p pr t m')"
proof -
  let ?M = "R + proc_blocks p pr + queues_blocks (priorityQueues k) + mset (blocks (blockedQueue k)) +
      table_blocks k"
  have "bm.owns (?M + mset (blocks (processTable k))) m"
    using o by (simp add: owned_def ac_simps)
  from bm.owns_l_add [OF this al] have "bm.owns (?M + mset (blocks t)) m'" .
  moreover have "(\<Sum>q\<leftarrow>table k. proc_blocks q (pr_of (admitted k p pr t m') q)) =
      (\<Sum>q\<leftarrow>table k. proc_blocks q (pr_of k q))"
    by (intro arg_cong [where f = sum_list] map_cong refl) (use p in auto)
  then have "table_blocks (admitted k p pr t m') = proc_blocks p pr + table_blocks k"
    using t by (simp add: table_blocks_def)
  ultimately show ?thesis by (simp add: mem_ok_def owned_def ac_simps)
qed

text \<open>
  \<open>entered k k' p pr\<close>: \<open>k'\<close> is \<open>k\<close> with the new process \<open>p\<close> at the end of the default queue; the
  parent, if there is one, has it among its children.
\<close>

definition entered :: "kernel \<Rightarrow> kernel \<Rightarrow> ptr \<Rightarrow> bool" where
  "entered k k' p \<longleftrightarrow>
     p \<notin> set (table k) \<and> table k' = p # table k \<and> lastPid k' = lastPid k + 1 \<and>
     pid (pr_of k' p) = lastPid k \<and> st_of k' p = READY \<and> parent (pr_of k' p) = currentProcess k \<and>
     priority (pr_of k' p) = DEFAULT_PRIORITY \<and> quantumLeft (pr_of k' p) = QUANTUM \<and>
     ready k' 2 = ready k 2 @ [p] \<and> (\<forall>j. j \<noteq> 2 \<longrightarrow> ready k' j = ready k j) \<and> blocked k' = blocked k \<and>
     currentProcess k' = currentProcess k \<and> idleProcess k' = idleProcess k \<and>
     (\<forall>q\<in>set (table k). q \<noteq> currentProcess k \<longrightarrow> pr_of k' q = pr_of k q) \<and>
     (currentProcess k \<noteq> NULL \<longrightarrow> children (pr_of k (currentProcess k)) \<noteq> None \<longrightarrow>
        items (children (pr_of k' (currentProcess k))) =
          lastPid k # items (children (pr_of k (currentProcess k))))"

text \<open>The lists and the table entry of a new process, when memory allows them.\<close>

lemma new_lists:
  assumes o: "bm.owns M m" and pg: "3 \<le> unat (free_pages m)" and l: "l \<noteq> None"
  shows "\<exists>ch m1 re m2 t m3. l_new mem_alloc m = (ch, m1) \<and> l_new mem_alloc m1 = (re, m2) \<and>
           l_add mem_alloc l x m2 = (t, m3) \<and> items ch = [] \<and> items re = [] \<and> ch \<noteq> None \<and> re \<noteq> None \<and>
           bm.owns (M + mset (blocks ch) + mset (blocks re)) m2 \<and>
           items t = x # items l \<and> t \<noteq> None \<and> unat (free_pages m3) = unat (free_pages m) - 3"
proof -
  have "0 < unat (free_pages m)" using pg by simp
  from bm.l_new_succeeds [OF bm.owns_inv [OF o] this] obtain a m1 where
    n1: "l_new mem_alloc m = (Some (a, []), m1)" "unat (free_pages m1) = unat (free_pages m) - 1" by blast
  have o1: "bm.owns (M + mset (blocks (Some (a, [])))) m1" using bm.owns_l_new [OF o n1(1)] by simp
  have "0 < unat (free_pages m1)" using pg n1(2) by simp
  from bm.l_new_succeeds [OF bm.owns_inv [OF o1] this] obtain b m2 where
    n2: "l_new mem_alloc m1 = (Some (b, []), m2)" "unat (free_pages m2) = unat (free_pages m1) - 1" by blast
  have o2: "bm.owns (M + mset (blocks (Some (a, []))) + mset (blocks (Some (b, [])))) m2"
    using bm.owns_l_new [OF o1 n2(1)] by simp
  have "0 < unat (free_pages m2)" using pg n1(2) n2(2) by simp
  from bm.l_add_succeeds [OF bm.owns_inv [OF o2] this l, of x] obtain t m3 where
    n3: "l_add mem_alloc l x m2 = (t, m3)" "items t = x # items l" "t \<noteq> None"
      "unat (free_pages m3) = unat (free_pages m2) - 1" by blast
  have "items (Some (a, [])) = []" "items (Some (b, [])) = []" by simp_all
  moreover have "unat (free_pages m3) = unat (free_pages m) - 3"
    using n1(2) n2(2) n3(4) by simp
  ultimately show ?thesis using n1(1) n2(1) n3 o2 by blast
qed

lemma current_ok_upd_other:
  assumes "current_ok k" and "state pr = st_of k q"
  shows "current_ok (k\<lparr>kmem := m, procs := (procs k)(q \<mapsto> pr)\<rparr>)"
proof -
  let ?k = "k\<lparr>kmem := m, procs := (procs k)(q \<mapsto> pr)\<rparr>"
  have s: "st_of ?k p = st_of k p" for p using assms(2) by (simp add: pr_of_def)
  have "in_state ?k = in_state k" unfolding in_state_def s by (simp add: fun_eq_iff)
  then show ?thesis using assms(1) unfolding current_ok_def s by auto
qed

lemma queue_ok_upd_other:
  assumes "queue_ok k" and "state pr = st_of k q" and "priority pr = priority (pr_of k q)"
  shows "queue_ok (k\<lparr>kmem := m, procs := (procs k)(q \<mapsto> pr)\<rparr>)"
proof -
  let ?k = "k\<lparr>kmem := m, procs := (procs k)(q \<mapsto> pr)\<rparr>"
  have s: "st_of ?k p = st_of k p" "level ?k p = level k p" for p using assms(2,3) by (simp_all add: pr_of_def)
  have "in_state ?k = in_state k" unfolding in_state_def s by (simp add: fun_eq_iff)
  then show ?thesis using assms(1) unfolding queue_ok_def s by simp
qed

lemma addProcess_ok:
  assumes c: "core_inv k" and m: "mem_ok R k" and pg: "6 \<le> pages_left k" and f: "3 \<le> length f"
    and last: "lastPid k \<noteq> -1" and cur: "currentProcess k = NULL \<or> currentProcess k \<in> set (table k)"
    and idle: "idleProcess k = NULL \<or> idleProcess k \<in> set (table k)"
  shows "\<exists>k' p. addProcess sp (Some f) k = Some (lastPid k, k') \<and> core_inv k' \<and> mem_ok R k' \<and>
           entered k k' p \<and> basePointer (pr_of k' p) = NULL \<and> argv (pr_of k' p) = None \<and>
           stack (pr_of k' p) = sp \<and> fileDescriptors (pr_of k' p) = take 3 f \<and>
           pages_left k \<le> pages_left k' + 6"
proof -
  have tc: "table_core k" and cr: "credits_ok k" using c by (auto simp: core_inv_def)
  have o: "bm.owns (R + owned k) (kmem k)" using m by (simp add: mem_ok_def)
  have sz: "unat sizeof_ProcessCDT \<le> 4096" and pg0: "0 < pages_left k"
    using pg by (auto simp: sizeof_ProcessCDT_def)
  obtain m1 p where al: "mem_alloc (kmem k) sizeof_ProcessCDT = (m1, p)" "p \<noteq> NULL"
    "unat (free_pages m1) = pages_left k - 1"
    using bm.alloc_page [OF bm.owns_inv [OF o] sz pg0] by metis
  have o1: "bm.owns (R + owned k + {#p#}) m1" using bm.owns_alloc [OF o al(1)] al(2) by simp
  have fresh: "p \<notin> set (table k)" using bm.owns_fresh [OF o1] table_in_owned by auto
  have "3 \<le> unat (free_pages m1)" using al(3) pg by simp
  from new_lists [OF o1 this table_coreD(2) [OF tc], of p] obtain ch m2 re m3 t m4 where
    n: "l_new mem_alloc m1 = (ch, m2)" "l_new mem_alloc m2 = (re, m3)"
      "l_add mem_alloc (processTable k) p m3 = (t, m4)" "items ch = []" "items re = []"
      "bm.owns (R + owned k + {#p#} + mset (blocks ch) + mset (blocks re)) m3"
      "items t = p # items (processTable k)" "t \<noteq> None" "unat (free_pages m4) = unat (free_pages m1) - 3"
    by blast
  let ?pr = "\<lparr>basePointer = NULL, stack = sp, argv = None, pid = lastPid k, nombre = NULL,
              state = READY, priority = DEFAULT_PRIORITY, parent = currentProcess k,
              children = ch, reaped = re, waitingPid = -1, fileDescriptors = take 3 f,
              quantumLeft = QUANTUM, foreground = False\<rparr>"
  let ?k1 = "admitted k p ?pr t m4"
  have t: "items t = p # table k" using n(7) by (simp add: table_def)
  have pb: "proc_blocks p ?pr = {#p#} + mset (blocks ch) + mset (blocks re)"
    by (simp add: proc_blocks_def)
  have mo: "mem_ok R ?k1"
    by (rule admitted_mem [OF _ fresh n(3) t]) (use n(6) in \<open>simp add: pb ac_simps\<close>)
  have ni: "p \<noteq> idleProcess k" using idle fresh al(2) by auto
  note ac = admitted_core [OF c t n(8) fresh al(2) _ _ _ ni last cur, of ?pr m4, simplified]
  have "p \<in> in_state ?k1 READY" using t ni by (simp add: in_state_def)
  moreover have "0 < pages_left ?k1" using n(9) al(3) pg by simp
  ultimately obtain qq mm where
    e: "Enqueue_ready (priority (pr_of ?k1 p)) p ?k1 =
          Some (?k1\<lparr>kmem := mm, priorityQueues := (priorityQueues ?k1)[level ?k1 p := qq]\<rparr>)"
      "queue_ok (?k1\<lparr>kmem := mm, priorityQueues := (priorityQueues ?k1)[level ?k1 p := qq]\<rparr>)"
      "mem_ok R (?k1\<lparr>kmem := mm, priorityQueues := (priorityQueues ?k1)[level ?k1 p := qq]\<rparr>)"
      "pages_left ?k1 \<le> unat (free_pages mm) + 1"
      "\<forall>j. ready (?k1\<lparr>kmem := mm, priorityQueues := (priorityQueues ?k1)[level ?k1 p := qq]\<rparr>) j =
         (if j = level ?k1 p then ready ?k1 (level ?k1 p) @ [p] else ready ?k1 j)"
    using Enqueue_ready_ok [OF ac(1,2) mo] unfolding Let_def by auto
  let ?k2 = "?k1\<lparr>kmem := mm, priorityQueues := (priorityQueues ?k1)[level ?k1 p := qq]\<rparr>"
  have en: "Enqueue_ready DEFAULT_PRIORITY p ?k1 = Some ?k2" using e(1) by simp
  have core2: "core_inv ?k2"
    using e(2) ac cr unfolding core_inv_def current_ok_def by simp
  have prefix: "addProcess sp (Some f) k =
      do { k' \<leftarrow> (if currentProcess k \<noteq> NULL then add_child (currentProcess k) (lastPid k) ?k2 else Some ?k2);
           Some (lastPid k, k') }"
    using al f n(1-3) en unfolding admitted_def by (simp add: addProcess_def Let_def)
  have ent2: "ready ?k2 2 = ready k 2 @ [p]" "\<forall>j. j \<noteq> 2 \<longrightarrow> ready ?k2 j = ready k j"
  proof -
    show "ready ?k2 2 = ready k 2 @ [p]" using spec [OF e(5), of 2] by simp
    show "\<forall>j. j \<noteq> 2 \<longrightarrow> ready ?k2 j = ready k j" by (simp add: ready_def [of k])
  qed
  show ?thesis
  proof (cases "currentProcess k = NULL")
    case True
    have "entered k ?k2 p" unfolding entered_def using fresh t True ent2 by simp
    with True prefix core2 e(3,4) n(9) al(3) pg show ?thesis
      by (intro exI [of _ ?k2] exI [of _ p]) simp
  next
    case False
    let ?c = "currentProcess k"
    have cin: "?c \<in> set (table k)" "?c \<noteq> p" using cur False fresh by auto
    have c2: "?c \<in> set (table ?k2)" "table_core ?k2" "0 < pages_left ?k2"
      using cin t core2 e(4) n(9) al(3) pg by (auto simp: core_inv_def)
    from add_child_eff [OF e(3) c2, of "lastPid k"] obtain l m5 where
      a: "add_child ?c (lastPid k) ?k2 =
            Some (?k2\<lparr>kmem := m5, procs := (procs ?k2)(?c \<mapsto> (pr_of ?k2 ?c)\<lparr>children := l\<rparr>)\<rparr>)"
        "children (pr_of ?k2 ?c) \<noteq> None \<longrightarrow> items l = lastPid k # items (children (pr_of ?k2 ?c)) \<and> l \<noteq> None"
        "pages_left ?k2 \<le> unat (free_pages m5) + 1"
        "mem_ok R (?k2\<lparr>kmem := m5, procs := (procs ?k2)(?c \<mapsto> (pr_of ?k2 ?c)\<lparr>children := l\<rparr>)\<rparr>)" by blast
    let ?k3 = "?k2\<lparr>kmem := m5, procs := (procs ?k2)(?c \<mapsto> (pr_of ?k2 ?c)\<lparr>children := l\<rparr>)\<rparr>"
    have pc: "pr_of ?k2 ?c = pr_of k ?c" using cin(2) by simp
    have core3: "core_inv ?k3"
    proof -
      have lev: "level k ?c < PRIO" using table_coreD(3) [OF tc cin(1)] by simp
      have "table_core ?k3"
        using table_core_upd [of "?k2\<lparr>kmem := m5\<rparr>" "(pr_of ?k2 ?c)\<lparr>children := l\<rparr>" ?c] c2(2) pc lev by simp
      moreover have "queue_ok ?k3" using e(2) by (intro queue_ok_upd_other) simp_all
      moreover have "current_ok ?k3"
        using core2 by (intro current_ok_upd_other) (simp_all add: core_inv_def)
      ultimately show ?thesis using cr by (simp add: core_inv_def)
    qed
    have "entered k ?k3 p" unfolding entered_def using fresh t ent2 cin(2) a(2) pc by (auto simp: pr_of_def [of k])
    with False prefix core3 a e(4) n(9) al(3) pg cin show ?thesis
      by (intro exI [of _ ?k3] exI [of _ p]) (simp del: owned_upd)
  qed
qed

section \<open>Copying the arguments\<close>

lemma dup_strings_ok:
  assumes "bm.owns (M + mset (map fst acc)) m" and "\<forall>s\<in>set ss. length s < 4096"
    and "length ss \<le> unat (free_pages m)"
  shows "\<exists>cs m'. dup_strings ss acc m = Some (Some (acc @ cs), m') \<and> map snd cs = ss \<and>
           bm.owns (M + mset (map fst (acc @ cs))) m' \<and>
           unat (free_pages m') = unat (free_pages m) - length ss"
  using assms
proof (induction ss arbitrary: acc m)
  case Nil
  then show ?case by auto
next
  case (Cons s ss)
  have sz: "unat (of_nat (length s + 1) :: u64) \<le> 4096" and pg: "0 < unat (free_pages m)"
    using Cons.prems(2,3) by (auto simp: unat_of_nat_small simp del: of_nat_Suc of_nat_add)
  obtain m1 a where al: "mem_alloc m (of_nat (length s + 1)) = (m1, a)" "a \<noteq> NULL"
    "unat (free_pages m1) = unat (free_pages m) - 1"
    using bm.alloc_page [OF bm.owns_inv [OF Cons.prems(1)] sz pg] by metis
  have "bm.owns (M + mset (map fst (acc @ [(a, s)]))) m1"
    using bm.owns_alloc [OF Cons.prems(1) al(1)] al(2) by (simp add: ac_simps)
  moreover have "\<forall>s\<in>set ss. length s < 4096" "length ss \<le> unat (free_pages m1)"
    using Cons.prems(2,3) al(3) by auto
  ultimately obtain cs m' where
    "dup_strings ss (acc @ [(a, s)]) m1 = Some (Some ((acc @ [(a, s)]) @ cs), m')" "map snd cs = ss"
    "bm.owns (M + mset (map fst ((acc @ [(a, s)]) @ cs))) m'"
    "unat (free_pages m') = unat (free_pages m1) - length ss"
    using Cons.IH [of "acc @ [(a, s)]" m1] by blast
  with al show ?case by (intro exI [of _ "(a, s) # cs"] exI [of _ m']) simp
qed

text \<open>Whatever happens, the copies that were made are owned, or freed again.\<close>

lemma dup_strings_owns:
  assumes "bm.owns (M + mset (map fst acc)) m"
  shows "\<exists>r m'. dup_strings ss acc m = Some (r, m') \<and>
           (case r of None \<Rightarrow> bm.owns M m' | Some cs \<Rightarrow> bm.owns (M + mset (map fst cs)) m')"
  using assms
proof (induction ss arbitrary: acc m)
  case Nil
  then show ?case by simp
next
  case (Cons s ss)
  obtain m1 a where al: "mem_alloc m (of_nat (length s + 1)) = (m1, a)" by force
  show ?case
  proof (cases "a = NULL")
    case True
    then have "bm.owns (M + mset (map fst acc)) m1" using bm.owns_alloc [OF Cons.prems al] by simp
    from bm.owns_free_nodes [OF this] True al show ?thesis by auto
  next
    case False
    then have "bm.owns (M + mset (map fst (acc @ [(a, s)]))) m1"
      using bm.owns_alloc [OF Cons.prems al] by (simp add: ac_simps)
    from Cons.IH [OF this] False al show ?thesis by simp
  qed
qed

lemma dupArgs_ok:
  assumes o: "bm.owns M m" and small: "\<forall>ss. args = Some ss \<longrightarrow> length ss < 512 \<and> (\<forall>s\<in>set ss. length s < 4096)"
    and pg: "argsLen args < unat (free_pages m)"
  shows "\<exists>arr cs m'. dupArgs args m = Some (Some (arr, cs), m') \<and>
           map snd cs = (case args of None \<Rightarrow> [] | Some ss \<Rightarrow> ss) \<and>
           bm.owns (M + {#arr#} + mset (map fst cs)) m' \<and>
           unat (free_pages m') = unat (free_pages m) - (argsLen args + 1)"
proof (cases "args = None \<or> args = Some []")
  case True
  have sz: "unat (8 :: u64) \<le> 4096" by simp
  have "0 < unat (free_pages m)" using pg by simp
  then obtain m1 a where al: "mem_alloc m 8 = (m1, a)" "a \<noteq> NULL"
    "unat (free_pages m1) = unat (free_pages m) - 1"
    using bm.alloc_page [OF bm.owns_inv [OF o] sz] by metis
  then have "bm.owns (M + {#a#}) m1" using bm.owns_alloc [OF o al(1)] by simp
  with True al show ?thesis
    by (intro exI [of _ a] exI [of _ "[]"] exI [of _ m1]) (auto simp: dupArgs_def argsLen_def)
next
  case False
  then obtain s ss where args: "args = Some (s # ss)" by (metis list.exhaust option.exhaust)
  let ?n = "of_nat ((argsLen args + 1) * 8) :: u64"
  have "(argsLen args + 1) * 8 < 2 ^ 64" "(argsLen args + 1) * 8 \<le> 4096"
    using small args by (auto simp: argsLen_def)
  then have sz: "unat ?n \<le> 4096" by (subst unat_of_nat_small) simp_all
  have "0 < unat (free_pages m)" using pg by simp
  then obtain m1 a where al: "mem_alloc m ?n = (m1, a)" "a \<noteq> NULL"
    "unat (free_pages m1) = unat (free_pages m) - 1"
    using bm.alloc_page [OF bm.owns_inv [OF o] sz] by metis
  have "bm.owns ((M + {#a#}) + mset (map fst [])) m1" using bm.owns_alloc [OF o al(1)] al(2) by simp
  moreover have "length (s # ss) \<le> unat (free_pages m1)" "\<forall>s\<in>set (s # ss). length s < 4096"
    using pg al(3) args small by (auto simp: argsLen_def)
  ultimately obtain cs m' where
    "dup_strings (s # ss) [] m1 = Some (Some cs, m')" "map snd cs = s # ss"
    "bm.owns (M + {#a#} + mset (map fst cs)) m'"
    "unat (free_pages m') = unat (free_pages m1) - length (s # ss)"
    using dup_strings_ok [of "M + {#a#}" "[]" m1 "s # ss"] by auto
  with al args show ?thesis
    by (intro exI [of _ a] exI [of _ cs] exI [of _ m']) (auto simp: dupArgs_def argsLen_def Let_def)
qed

section \<open>Creating a process\<close>

lemma getProcessByPid_eq:
  assumes t: "table_core k" and p: "p \<in> set (table k)"
  shows "getProcessByPid (pid (pr_of k p)) k = p"
proof -
  have iff: "matchPid k (pid (pr_of k p)) x \<longleftrightarrow> x = p" if "x \<in> set (table k)" for x
    using table_coreD(3) [OF t, of x] table_coreD(4) [OF t, of x p] p that
    by (auto simp: matchPid_def)
  then have "find (matchPid k (pid (pr_of k p))) (table k) = Some p"
    using find_unique [of "table k", OF _ p] by blast
  then show ?thesis by (simp add: getProcessByPid_def find_chain_def table_def)
qed

lemma getProcessByPid_none:
  assumes t: "table_core k" and none: "\<forall>p\<in>set (table k). pid (pr_of k p) \<noteq> i"
  shows "getProcessByPid i k = NULL"
proof -
  have "\<not> matchPid k i x" if "x \<in> set (table k)" for x
    using table_coreD(3) [OF t that] none that by (auto simp: matchPid_def)
  then have "find (matchPid k i) (table k) = None" by (simp add: find_None_iff)
  then show ?thesis by (simp add: getProcessByPid_def find_chain_def table_def)
qed

lemma getProcessByPid_cases:
  assumes t: "table_core k"
  obtains (found) p where "getProcessByPid i k = p" and "p \<in> set (table k)" and "pid (pr_of k p) = i" and "p \<noteq> NULL"
  | (missing) "getProcessByPid i k = NULL" and "\<forall>p\<in>set (table k). pid (pr_of k p) \<noteq> i"
proof (cases "\<exists>p\<in>set (table k). pid (pr_of k p) = i")
  case True
  then obtain p where "p \<in> set (table k)" "pid (pr_of k p) = i" by blast
  then show thesis using found getProcessByPid_eq [OF t] table_coreD(3) [OF t] by blast
next
  case False
  then show thesis using missing getProcessByPid_none [OF t] by blast
qed

text \<open>Handing the stack and the arguments over to the control block.\<close>

lemma addProcessInfo_ok:
  assumes c: "core_inv k" and p: "p \<in> set (table k)" and none: "basePointer (pr_of k p) = NULL" "argv (pr_of k p) = None"
    and m: "mem_ok (R + {#base#} + {#arr#} + mset (map fst cs)) k" and b: "base \<noteq> NULL"
  shows "\<exists>k'. addProcessInfo (pid (pr_of k p)) name base (Some (arr, cs)) fg k = Some k' \<and>
           k' = k\<lparr>procs := (procs k)(p \<mapsto> (pr_of k p)\<lparr>nombre := name, basePointer := base,
                          argv := Some (arr, cs), foreground := fg\<rparr>)\<rparr> \<and>
           core_inv k' \<and> mem_ok R k'"
proof -
  have t: "table_core k" using c by (simp add: core_inv_def)
  note pt = table_coreD(3) [OF t p]
  let ?pr = "(pr_of k p)\<lparr>nombre := name, basePointer := base, argv := Some (arr, cs), foreground := fg\<rparr>"
  let ?k = "k\<lparr>procs := (procs k)(p \<mapsto> ?pr)\<rparr>"
  have e: "addProcessInfo (pid (pr_of k p)) name base (Some (arr, cs)) fg k = Some ?k"
    using pt getProcessByPid_eq [OF t p] by (simp add: addProcessInfo_def upd_pcb_def pcb_def Let_def)
  obtain M where M: "table_blocks k = M + proc_blocks p (pr_of k p)"
    "\<And>pr. table_blocks (k\<lparr>procs := (procs k)(p \<mapsto> pr)\<rparr>) = M + proc_blocks p pr"
    using table_blocks_split [OF p table_coreD(1) [OF t]] by blast
  have "proc_blocks p ?pr = proc_blocks p (pr_of k p) + ({#base#} + {#arr#} + mset (map fst cs))"
    using none b by (simp add: proc_blocks_def ac_simps)
  then have eq: "R + owned ?k = R + {#base#} + {#arr#} + mset (map fst cs) + owned k"
    using M by (simp add: owned_def ac_simps)
  have mo: "mem_ok R ?k" using m unfolding mem_ok_def eq by simp
  have "table_core ?k" using table_core_upd [OF t, of ?pr p] pt by simp
  moreover have "queue_ok ?k"
    using queue_ok_upd_other [of k ?pr p "kmem k"] c by (simp add: core_inv_def)
  moreover have "current_ok ?k"
    using current_ok_upd_other [of k ?pr p "kmem k"] c by (simp add: core_inv_def)
  ultimately have "core_inv ?k" using c by (simp add: core_inv_def)
  with e mo show ?thesis by blast
qed

lemma core_inv_kmem [simp]: "core_inv (k\<lparr>kmem := m\<rparr>) = core_inv k"
  by (simp add: core_inv_def current_ok_def)

lemma createProcess_parts:
  assumes c: "core_inv k" and m: "mem_ok R k"
    and small: "\<forall>ss. args = Some ss \<longrightarrow> length ss < 512 \<and> (\<forall>s\<in>set ss. length s < 4096)"
    and pg: "argsLen args + 8 \<le> pages_left k"
    and f: "3 \<le> length f"
    and last: "lastPid k \<noteq> -1" and cur: "currentProcess k = NULL \<or> currentProcess k \<in> set (table k)"
    and idle: "idleProcess k = NULL \<or> idleProcess k \<in> set (table k)"
  shows "\<exists>base arr cs k1 p. base \<noteq> NULL \<and> map snd cs = (case args of None \<Rightarrow> [] | Some ss \<Rightarrow> ss) \<and>
     createProcess name args (Some f) fg k =
       (if lastPid k = 0 then Some (0, k1)
        else do { k2 \<leftarrow> addProcessInfo (lastPid k) name base (Some (arr, cs)) fg k1; Some (lastPid k, k2) }) \<and>
     core_inv k1 \<and> mem_ok (R + {#base#} + {#arr#} + mset (map fst cs)) k1 \<and> entered k k1 p \<and>
     basePointer (pr_of k1 p) = NULL \<and> argv (pr_of k1 p) = None \<and>
     stack (pr_of k1 p) = initializeProcess (base + STACK_SIZE) \<and>
     fileDescriptors (pr_of k1 p) = take 3 f \<and> pages_left k \<le> pages_left k1 + (argsLen args + 8)"
proof -
  have o: "bm.owns (R + owned k) (kmem k)" using m by (simp add: mem_ok_def)
  have sz: "unat STACK_SIZE \<le> 4096" and pg0: "0 < pages_left k" using pg by auto
  obtain m1 base where al: "mem_alloc (kmem k) STACK_SIZE = (m1, base)" "base \<noteq> NULL"
    "unat (free_pages m1) = pages_left k - 1"
    using bm.alloc_page [OF bm.owns_inv [OF o] sz pg0] by metis
  have o1: "bm.owns (R + owned k + {#base#}) m1" using bm.owns_alloc [OF o al(1)] al(2) by simp
  have "argsLen args < unat (free_pages m1)" using al(3) pg by simp
  from dupArgs_ok [OF o1 small this] obtain arr cs m2 where
    d: "dupArgs args m1 = Some (Some (arr, cs), m2)" "map snd cs = (case args of None \<Rightarrow> [] | Some ss \<Rightarrow> ss)"
      "bm.owns (R + owned k + {#base#} + {#arr#} + mset (map fst cs)) m2"
      "unat (free_pages m2) = unat (free_pages m1) - (argsLen args + 1)" by blast
  let ?R = "R + {#base#} + {#arr#} + mset (map fst cs)"
  let ?k = "k\<lparr>kmem := m2\<rparr>"
  have mo: "mem_ok ?R ?k" using d(3) by (simp add: mem_ok_def ac_simps)
  have pg2: "6 \<le> pages_left ?k" using d(4) al(3) pg by simp
  have "core_inv ?k" using c by simp
  moreover have "lastPid ?k \<noteq> -1" "currentProcess ?k = NULL \<or> currentProcess ?k \<in> set (table ?k)"
    "idleProcess ?k = NULL \<or> idleProcess ?k \<in> set (table ?k)" using last cur idle by simp_all
  ultimately obtain k1 p where
    a: "addProcess (initializeProcess (base + STACK_SIZE)) (Some f) ?k = Some (lastPid k, k1)"
      "core_inv k1" "mem_ok ?R k1" "entered ?k k1 p" "basePointer (pr_of k1 p) = NULL"
      "argv (pr_of k1 p) = None" "stack (pr_of k1 p) = initializeProcess (base + STACK_SIZE)"
      "fileDescriptors (pr_of k1 p) = take 3 f" "pages_left ?k \<le> pages_left k1 + 6"
    using addProcess_ok [OF _ mo pg2 f, of "initializeProcess (base + STACK_SIZE)"] by auto
  have "entered k k1 p" using a(4) by (simp add: entered_def)
  moreover have "createProcess name args (Some f) fg k =
       (if lastPid k = 0 then Some (0, k1)
        else do { k2 \<leftarrow> addProcessInfo (lastPid k) name base (Some (arr, cs)) fg k1; Some (lastPid k, k2) })"
    using al(1,2) d(1) a(1) by (simp add: createProcess_def)
  moreover have "pages_left k \<le> pages_left k1 + (argsLen args + 8)"
    using a(9) d(4) al(3) by simp
  ultimately show ?thesis using al(2) d(2) a by blast
qed

text \<open>
  \<open>created\<close>: the new process with its identity, its program's stack and its own copy of the
  arguments.
\<close>

definition created ::
    "kernel \<Rightarrow> kernel \<Rightarrow> ptr \<Rightarrow> ptr \<Rightarrow> string list option \<Rightarrow> 16 word list \<Rightarrow> bool \<Rightarrow> bool" where
  "created k k' p name args f fg \<longleftrightarrow>
     entered k k' p \<and> nombre (pr_of k' p) = name \<and> foreground (pr_of k' p) = fg \<and>
     basePointer (pr_of k' p) \<noteq> NULL \<and>
     stack (pr_of k' p) = initializeProcess (basePointer (pr_of k' p) + STACK_SIZE) \<and>
     fileDescriptors (pr_of k' p) = take 3 f \<and>
     (\<exists>arr cs. argv (pr_of k' p) = Some (arr, cs) \<and> map snd cs = (case args of None \<Rightarrow> [] | Some ss \<Rightarrow> ss))"

lemma createProcess_ok:
  assumes c: "core_inv k" and m: "mem_ok R k"
    and small: "\<forall>ss. args = Some ss \<longrightarrow> length ss < 512 \<and> (\<forall>s\<in>set ss. length s < 4096)"
    and pg: "argsLen args + 8 \<le> pages_left k" and f: "3 \<le> length f"
    and last: "lastPid k \<noteq> -1" "lastPid k \<noteq> 0"
    and cur: "currentProcess k = NULL \<or> currentProcess k \<in> set (table k)"
    and idle: "idleProcess k = NULL \<or> idleProcess k \<in> set (table k)"
  shows "\<exists>k' p. createProcess name args (Some f) fg k = Some (lastPid k, k') \<and> core_inv k' \<and>
           mem_ok R k' \<and> created k k' p name args f fg \<and>
           pages_left k \<le> pages_left k' + (argsLen args + 8)"
proof -
  from createProcess_parts [OF c m small pg f last(1) cur idle, of name fg] obtain base arr cs k1 p where
    b: "base \<noteq> NULL" "map snd cs = (case args of None \<Rightarrow> [] | Some ss \<Rightarrow> ss)"
      "createProcess name args (Some f) fg k =
       (if lastPid k = 0 then Some (0, k1)
        else do { k2 \<leftarrow> addProcessInfo (lastPid k) name base (Some (arr, cs)) fg k1; Some (lastPid k, k2) })"
      "core_inv k1" "mem_ok (R + {#base#} + {#arr#} + mset (map fst cs)) k1" "entered k k1 p"
      "basePointer (pr_of k1 p) = NULL" "argv (pr_of k1 p) = None"
      "stack (pr_of k1 p) = initializeProcess (base + STACK_SIZE)"
      "fileDescriptors (pr_of k1 p) = take 3 f" "pages_left k \<le> pages_left k1 + (argsLen args + 8)"
    by blast
  have p: "p \<in> set (table k1)" "pid (pr_of k1 p) = lastPid k" using b(6) by (auto simp: entered_def)
  from addProcessInfo_ok [OF b(4) p(1) b(7,8,5,1), of name fg] p(2) obtain k2 where
    k2: "addProcessInfo (lastPid k) name base (Some (arr, cs)) fg k1 = Some k2"
      "k2 = k1\<lparr>procs := (procs k1)(p \<mapsto> (pr_of k1 p)\<lparr>nombre := name, basePointer := base,
                          argv := Some (arr, cs), foreground := fg\<rparr>)\<rparr>"
      "core_inv k2" "mem_ok R k2" by auto
  have np: "p \<notin> set (table k)" "p \<noteq> currentProcess k \<or> currentProcess k = NULL"
    using b(6) cur by (auto simp: entered_def)
  have "entered k k2 p"
    using b(6) np unfolding entered_def k2(2) by (auto simp: pr_of_def [of k1])
  then have "created k k2 p name args f fg"
    unfolding created_def k2(2) using b by simp
  then show ?thesis using b(3,11) last(2) k2 by (intro exI [of _ k2] exI [of _ p]) simp
qed

section \<open>Initialisation\<close>

lemma new_queues_ok:
  assumes "bm.owns M m" and "n \<le> unat (free_pages m)"
  shows "\<exists>qs m'. new_queues n m = (qs, m') \<and> length qs = n \<and> (\<forall>q\<in>set qs. q \<noteq> None \<and> items q = []) \<and>
           bm.owns (M + queues_blocks qs) m' \<and> unat (free_pages m') = unat (free_pages m) - n"
  using assms
proof (induction n arbitrary: M m)
  case 0
  then show ?case by (simp add: queues_blocks_def)
next
  case (Suc n)
  then have "0 < unat (free_pages m)" by simp
  from bm.q_new_succeeds [OF bm.owns_inv [OF Suc.prems(1)] this] obtain a m1 where
    q: "q_new mem_alloc m = (Some (a, []), m1)" "unat (free_pages m1) = unat (free_pages m) - 1" by blast
  have o1: "bm.owns (M + mset (blocks (Some (a, [])))) m1"
    using bm.owns_q_new [OF Suc.prems(1) q(1)] by simp
  have "n \<le> unat (free_pages m1)" using q(2) Suc.prems(2) by simp
  from Suc.IH [OF o1 this] obtain qs m2 where
    "new_queues n m1 = (qs, m2)" "length qs = n" "\<forall>q\<in>set qs. q \<noteq> None \<and> items q = []"
    "bm.owns (M + mset (blocks (Some (a, []))) + queues_blocks qs) m2"
    "unat (free_pages m2) = unat (free_pages m1) - n" by blast
  with q show ?case
    by (intro exI [of _ "Some (a, []) # qs"] exI [of _ m2]) (simp add: queues_blocks_def ac_simps)
qed

lemma initializeScheduler_ok:
  assumes inv: "pm_inv (kmem k)" and pg: "14 \<le> pages_left k"
    and static: "lastPid k = 0" "idleProcess k = NULL"
  shows "\<exists>k'. initializeScheduler name k = Some k' \<and> sched_inv k' \<and> mem_ok {#} k' \<and>
           table k' = [idleProcess k'] \<and> currentProcess k' = NULL \<and> lastPid k' = 1 \<and>
           pid (pr_of k' (idleProcess k')) = 0 \<and> st_of k' (idleProcess k') = READY \<and>
           (\<forall>i<PRIO. ready k' i = []) \<and> blocked k' = [] \<and>
           pages_left k \<le> pages_left k' + 14"
proof -
  have o: "bm.owns {#} (kmem k)" using inv by (simp add: bm.owns_def)
  have pg0: "0 < pages_left k" using pg by simp
  from bm.l_new_succeeds [OF inv pg0] obtain ta m1 where
    t: "l_new mem_alloc (kmem k) = (Some (ta, []), m1)" "unat (free_pages m1) = pages_left k - 1" by blast
  have o1: "bm.owns {#ta#} m1" using bm.owns_l_new [OF o t(1)] by simp
  have "PRIO \<le> unat (free_pages m1)" using t(2) pg by simp
  from new_queues_ok [OF o1 this] obtain qs m2 where
    q: "new_queues PRIO m1 = (qs, m2)" "length qs = PRIO" "\<forall>q\<in>set qs. q \<noteq> None \<and> items q = []"
      "bm.owns ({#ta#} + queues_blocks qs) m2" "unat (free_pages m2) = unat (free_pages m1) - PRIO" by blast
  have "0 < unat (free_pages m2)" using q(5) t(2) pg by simp
  from bm.q_new_succeeds [OF bm.owns_inv [OF q(4)] this] obtain ba m3 where
    b: "q_new mem_alloc m2 = (Some (ba, []), m3)" "unat (free_pages m3) = unat (free_pages m2) - 1" by blast
  have o3: "bm.owns ({#ta#} + queues_blocks qs + {#ba#}) m3"
    using bm.owns_q_new [OF q(4) b(1)] by simp
  let ?k = "k\<lparr>processTable := Some (ta, []), priorityQueues := qs, currentProcess := NULL,
              weights := [4, 3, 2, 1], credits := [4, 3, 2, 1], kmem := m3, blockedQueue := Some (ba, [])\<rparr>"
  have tb: "table ?k = []" "blocked ?k = []" by (simp_all add: table_def blocked_def)
  have rd: "ready ?k i = []" if "i < PRIO" for i using q(2,3) that by (simp add: ready_def)
  have ist: "in_state ?k s = {}" for s using tb(1) by (simp add: in_state_def)
  have "table_core ?k" using tb(1) by (simp add: table_core_def)
  moreover have "queue_ok ?k" unfolding queue_ok_def ist using tb(2) rd q(2,3) by simp
  moreover have "credits_ok ?k" by (simp add: credits_ok_def)
  moreover have "current_ok ?k" unfolding current_ok_def ist by simp
  ultimately have core: "core_inv ?k" by (simp add: core_inv_def)
  have eq: "{#} + owned ?k = {#ta#} + queues_blocks qs + {#ba#}"
    using tb(1) by (simp add: owned_def table_blocks_def table_def)
  have mo: "mem_ok {#} ?k" using o3 unfolding mem_ok_def eq by simp
  have "argsLen None + 8 \<le> pages_left ?k" using b(2) q(5) t(2) pg by (simp add: argsLen_def)
  from createProcess_parts [OF core mo _ this, of "[0, 1, 2]" name False] static obtain k1 p R' where
    c: "createProcess name None (Some [0, 1, 2]) False ?k = Some (0, k1)" "core_inv k1"
      "mem_ok R' k1" "entered ?k k1 p"
      "pages_left ?k \<le> pages_left k1 + 8"
    by (auto simp: argsLen_def)
  have r1: "ready k1 2 = [p]" "\<And>j. j \<noteq> 2 \<Longrightarrow> ready k1 j = ready ?k j" "table k1 = [p]"
    using c(4) rd [of 2] tb by (simp_all add: entered_def)
  have len: "2 < length (priorityQueues k1)" using c(2) queue_okD(1) [of k1] by (simp add: core_inv_def)
  have mo1: "mem_ok {#} k1"
    using c(3) bm.owns_subset [of "owned k1" R'] by (simp add: mem_ok_def add.commute)
  from Dequeue_ready_eff [OF mo1 len r1(1)] obtain qq mm where
    d: "Dequeue_ready 2 k1 = Some (p, k1\<lparr>kmem := mm, priorityQueues := (priorityQueues k1)[2 := qq]\<rparr>)"
      "items qq = []" "qq \<noteq> None" "pages_left k1 \<le> unat (free_pages mm)"
      "mem_ok {#} (k1\<lparr>kmem := mm, priorityQueues := (priorityQueues k1)[2 := qq]\<rparr>)" by blast
  let ?k2 = "k1\<lparr>kmem := mm, priorityQueues := (priorityQueues k1)[2 := qq], idleProcess := p\<rparr>"
  have init: "initializeScheduler name k = Some ?k2"
  proof -
    have w: "map (\<lambda>i. of_nat (PRIO - i)) [0..<PRIO] = ([4, 3, 2, 1] :: u8 list)" by (simp add: upt_rec)
    show ?thesis using t(1) q(1) b(1) c(1) d(1)
      by (simp add: initializeScheduler_def refill_credits_def w Let_def)
  qed
  have r2: "ready ?k2 i = []" if "i < PRIO" for i
    using r1(2) [of i] rd [OF that] d(2) len by (cases "i = 2") (simp_all add: ready_def)
  have is2: "in_state ?k2 s = {}" for s using r1(3) by (auto simp: in_state_def)
  have c2: "table_core k1" "queue_ok k1" "credits_ok k1" "current_ok k1" using c(2) by (simp_all add: core_inv_def)
  have bl: "blocked k1 = []" "currentProcess k1 = NULL" using c(4) tb by (simp_all add: entered_def)
  have "priorityQueues ?k2 ! i \<noteq> None" if "i < PRIO" for i
    using queue_okD(2) [OF c2(2) that] d(3) len that by (cases "i = 2") simp_all
  then have "queue_ok ?k2"
    unfolding queue_ok_def is2 using r2 bl queue_okD(1,3) [OF c2(2)] by simp
  moreover have "current_ok ?k2" unfolding current_ok_def is2 using bl by simp
  moreover have "table_ok ?k2" using c2(1) r1(3) by (simp add: table_ok_def)
  moreover have "credits_ok ?k2" using c2(3) by simp
  ultimately have si: "sched_inv ?k2" by (simp add: sched_inv_def)
  have m2: "mem_ok {#} ?k2" using d(5) by (simp add: mem_ok_def)
  have "pages_left k \<le> pages_left ?k2 + 14"
    using c(5) d(4) b(2) q(5) t(2) by simp
  then show ?thesis
    using init si m2 r1(3) bl r2 c(4) static
    by (intro exI [of _ ?k2] conjI) (simp_all add: entered_def)
qed

end
