(* ===== verification/SchedProps.thy ===== *)
theory SchedProps
  imports SchedOps
begin

text \<open>
  Blocking and unblocking a process keep the invariants.
\<close>

section \<open>Blocking and unblocking\<close>

lemma current_not_ready:
  assumes inv: "sched_inv k" and p: "p \<in> in_state k READY"
  shows "p \<noteq> currentProcess k"
  using assms in_stateD [OF p] table_okD(3) [OF sched_invD(1) [OF inv], of p]
  by (auto simp: sched_inv_def current_ok_def)

text \<open>Setting the state of a process that no queue holds.\<close>

lemma set_state_core:
  assumes t: "table_core k" and p: "p \<in> set (table k)"
  shows "table_core (k\<lparr>procs := (procs k)(p \<mapsto> (pr_of k p)\<lparr>state := s\<rparr>)\<rparr>)"
  using table_core_upd [OF t, of "(pr_of k p)\<lparr>state := s\<rparr>" p] table_coreD(3) [OF t p] by simp

lemma set_state_mem:
  "mem_ok R (k\<lparr>procs := (procs k)(p \<mapsto> (pr_of k p)\<lparr>state := s\<rparr>)\<rparr>) = mem_ok R k"
  by (rule mem_ok_upd) (simp add: proc_blocks_def)

lemma addProcessToBlockQueue_ok:
  assumes inv: "sched_inv k" and m: "mem_ok R k" and pg: "0 < pages_left k"
    and p: "p \<in> in_state k READY \<or> p \<in> in_state k RUNNING"
    and rest: "currentProcess k = NULL \<or> currentProcess k \<in> set (table k)"
  shows "\<exists>k'. addProcessToBlockQueue (pid (pr_of k p)) k = Some k' \<and> sched_inv k' \<and> mem_ok R k' \<and>
           blocked k' = blocked k @ [p] \<and> st_of k' p = BLOCKED \<and> table k' = table k \<and>
           currentProcess k' = currentProcess k \<and> idleProcess k' = idleProcess k \<and>
           (\<forall>i<PRIO. p \<notin> set (ready k' i)) \<and>
           (\<forall>q. q \<noteq> p \<longrightarrow> pr_of k' q = pr_of k q) \<and> pages_left k \<le> pages_left k' + 1"
proof -
  note t = sched_invD(1) [OF inv] and q = sched_invD(2) [OF inv] and cr = sched_invD(3) [OF inv]
    and cu = sched_invD(4) [OF inv]
  have pt: "p \<in> set (table k)" "p \<noteq> idleProcess k" "st_of k p = READY \<or> st_of k p = RUNNING"
    using p by (auto simp: in_state_def)
  note pp = table_okD(3) [OF t pt(1)]
  have pb: "p \<notin> in_state k BLOCKED" using pt(3) by (auto simp: in_state_def)
  show ?thesis
  proof (cases "p = currentProcess k")
    case True
    then have run: "st_of k p = RUNNING" using cu pt pp by (auto simp: current_ok_def)
    let ?k1 = "k\<lparr>procs := (procs k)(p \<mapsto> (pr_of k p)\<lparr>state := BLOCKED\<rparr>)\<rparr>"
    have "queue_ok_but p k" using q run by (subst queue_ok_not_queued) (auto simp: in_state_def)
    then have q1: "queue_ok_but p ?k1" by (rule queue_ok_but_upd [OF _ pt(1,2)])
    have p1: "p \<in> in_state ?k1 BLOCKED" by (simp add: in_state_upd [OF pt(1,2)])
    have "mem_ok R ?k1" "0 < pages_left ?k1" using m pg by (simp_all add: set_state_mem)
    from Enqueue_blocked_ok [OF q1 this p1] pp obtain qq mm where
      e: "Enqueue_blocked p ?k1 = Some (?k1\<lparr>kmem := mm, blockedQueue := qq\<rparr>)"
        "queue_ok (?k1\<lparr>kmem := mm, blockedQueue := qq\<rparr>)" "mem_ok R (?k1\<lparr>kmem := mm, blockedQueue := qq\<rparr>)"
        "blocked (?k1\<lparr>kmem := mm, blockedQueue := qq\<rparr>) = blocked k @ [p]"
        "pages_left k \<le> unat (free_pages mm) + 1" by (auto simp: Let_def)
    let ?k2 = "?k1\<lparr>kmem := mm, blockedQueue := qq\<rparr>"
    have a: "addProcessToBlockQueue (pid (pr_of k p)) k = Some ?k2"
      using True pp e(1) run by (simp add: addProcessToBlockQueue_def pcb_def upd_pcb_def)
    have is2: "in_state ?k2 s = (if s = BLOCKED then insert p (in_state k s) else in_state k s - {p})" for s
      using in_state_upd [OF pt(1,2), of "(pr_of k p)\<lparr>state := BLOCKED\<rparr>" s] by auto
    have "current_ok ?k2"
      unfolding current_ok_def is2 using cu True pp pt by (auto simp: current_ok_def)
    moreover have "table_core ?k1" by (rule set_state_core [OF table_okD(6) [OF t] pt(1)])
    then have t2: "table_ok ?k2" using table_okD(5) [OF t] by (simp add: table_ok_def)
    ultimately have "sched_inv ?k2" using e(2) cr by (simp add: sched_inv_def)
    moreover have "\<forall>i<PRIO. p \<notin> set (ready ?k2 i)"
      using queue_okD(2) [OF e(2)] is2 [of READY] by auto
    moreover have "\<forall>r. r \<noteq> p \<longrightarrow> pr_of ?k2 r = pr_of k r" by (simp add: pr_of_def)
    ultimately show ?thesis using a e(3-5) by (intro exI [of _ ?k2]) simp
  next
    case False
    have rdy: "p \<in> in_state k READY" using p cu False by (auto simp: current_ok_def)
    from RemoveFrom_ready_ok [OF t q m pt(1) pb] obtain qq m1 where
      r: "RemoveFrom_ready (priority (pr_of k p)) (pid (pr_of k p)) k =
            Some (k\<lparr>kmem := m1, priorityQueues := (priorityQueues k)[level k p := qq]\<rparr>)"
        "queue_ok_but p (k\<lparr>kmem := m1, priorityQueues := (priorityQueues k)[level k p := qq]\<rparr>)"
        "mem_ok R (k\<lparr>kmem := m1, priorityQueues := (priorityQueues k)[level k p := qq]\<rparr>)"
        "pages_left k \<le> unat (free_pages m1)"
      by (auto simp: Let_def)
    let ?k1 = "k\<lparr>kmem := m1, priorityQueues := (priorityQueues k)[level k p := qq]\<rparr>"
    let ?k2 = "?k1\<lparr>procs := (procs ?k1)(p \<mapsto> (pr_of ?k1 p)\<lparr>state := BLOCKED\<rparr>)\<rparr>"
    have pt1: "p \<in> set (table ?k1)" "p \<noteq> idleProcess ?k1" using pt by simp_all
    have q2: "queue_ok_but p ?k2" by (rule queue_ok_but_upd [OF r(2) pt1])
    have m2: "mem_ok R ?k2" using r(3) by (simp only: set_state_mem)
    have p2: "p \<in> in_state ?k2 BLOCKED" using pt by (simp add: in_state_def)
    have "0 < pages_left ?k2" using r(4) pg by simp
    from Enqueue_blocked_ok [OF q2 m2 this p2] pp obtain qb mm where
      e: "Enqueue_blocked p ?k2 = Some (?k2\<lparr>kmem := mm, blockedQueue := qb\<rparr>)"
        "queue_ok (?k2\<lparr>kmem := mm, blockedQueue := qb\<rparr>)" "mem_ok R (?k2\<lparr>kmem := mm, blockedQueue := qb\<rparr>)"
        "blocked (?k2\<lparr>kmem := mm, blockedQueue := qb\<rparr>) = blocked k @ [p]"
        "unat (free_pages m1) \<le> unat (free_pages mm) + 1" by (auto simp: Let_def)
    let ?k3 = "?k2\<lparr>kmem := mm, blockedQueue := qb\<rparr>"
    have own: "(if currentProcess k = NULL then Some False
         else do { pr \<leftarrow> pcb k (currentProcess k); Some (pid pr = pid (pr_of k p)) }) = Some False"
    proof (cases "currentProcess k = NULL")
      case nn: False
      then have cin: "currentProcess k \<in> set (table k)" using rest by blast
      then have "pid (pr_of k (currentProcess k)) \<noteq> pid (pr_of k p)"
        using table_okD(4) [OF t _ pt(1)] False by blast
      then show ?thesis using table_okD(3) [OF t cin] by (simp add: pcb_def)
    qed simp
    have a: "addProcessToBlockQueue (pid (pr_of k p)) k = Some ?k3"
      unfolding addProcessToBlockQueue_def own
      using r(1) e(1) pp getProcessByPid_eq [OF table_okD(6) [OF t] pt(1)]
      by (simp add: upd_pcb_def pcb_def)
    have is3: "in_state ?k3 s = (if s = BLOCKED then insert p (in_state k s) else in_state k s - {p})" for s
      using pt by (auto simp: in_state_def pr_of_def)
    have "current_ok ?k3"
      unfolding current_ok_def is3 using cu False by (auto simp: current_ok_def pr_of_def)
    moreover have "table_core ?k2"
      by (rule set_state_core) (use table_okD(6) [OF t] pt(1) in simp_all)
    then have "table_ok ?k3" using table_okD(5) [OF t] by (simp add: table_ok_def table_core_def)
    ultimately have "sched_inv ?k3" using e(2) cr by (simp add: sched_inv_def)
    moreover have "\<forall>i<PRIO. p \<notin> set (ready ?k3 i)"
      using queue_okD(2) [OF e(2)] is3 [of READY] by auto
    moreover have "\<forall>r. r \<noteq> p \<longrightarrow> pr_of ?k3 r = pr_of k r" by (simp add: pr_of_def)
    ultimately show ?thesis using a e(3-5) r(4) by (intro exI [of _ ?k3]) simp
  qed
qed

lemma unblockProcess_ok:
  assumes inv: "sched_inv k" and m: "mem_ok R k" and pg: "0 < pages_left k"
    and p: "p \<in> in_state k BLOCKED" and nc: "p \<noteq> currentProcess k"
  shows "\<exists>k'. unblockProcess (pid (pr_of k p)) k = Some k' \<and> sched_inv k' \<and> mem_ok R k' \<and>
           set (blocked k') = set (blocked k) - {p} \<and> st_of k' p = READY \<and> table k' = table k \<and>
           ready k' (level k p) = ready k (level k p) @ [p] \<and>
           (\<forall>i. i \<noteq> level k p \<longrightarrow> ready k' i = ready k i) \<and>
           currentProcess k' = currentProcess k \<and> idleProcess k' = idleProcess k \<and>
           (\<forall>q. q \<noteq> p \<longrightarrow> pr_of k' q = pr_of k q)"
proof -
  note t = sched_invD(1) [OF inv] and q = sched_invD(2) [OF inv] and cr = sched_invD(3) [OF inv]
    and cu = sched_invD(4) [OF inv]
  have pt: "p \<in> set (table k)" "p \<noteq> idleProcess k" "st_of k p = BLOCKED"
    using p by (auto simp: in_state_def)
  note pp = table_okD(3) [OF t pt(1)]
  have nr: "p \<notin> in_state k READY" using pt(3) by (simp add: in_state_def)
  have nr': "p \<notin> in_state k READY \<or> queue_ok_but p k" and qq: "queue_ok k \<or> queue_ok_but p k"
    using nr q by blast+
  from RemoveFrom_blocked_ok [OF t qq m pt(1) nr'] obtain qb m1 where
    r: "RemoveFrom_blocked (pid (pr_of k p)) k = Some (k\<lparr>kmem := m1, blockedQueue := qb\<rparr>)"
      "queue_ok_but p (k\<lparr>kmem := m1, blockedQueue := qb\<rparr>)" "mem_ok R (k\<lparr>kmem := m1, blockedQueue := qb\<rparr>)"
      "pages_left k \<le> unat (free_pages m1)"
    by (auto simp: Let_def)
  let ?k1 = "k\<lparr>kmem := m1, blockedQueue := qb\<rparr>"
  let ?k2 = "?k1\<lparr>procs := (procs ?k1)(p \<mapsto> (pr_of ?k1 p)\<lparr>state := READY\<rparr>)\<rparr>"
  have pt1: "p \<in> set (table ?k1)" "p \<noteq> idleProcess ?k1" using pt by simp_all
  have q2: "queue_ok_but p ?k2" by (rule queue_ok_but_upd [OF r(2) pt1])
  have m2: "mem_ok R ?k2" using r(3) by (simp only: set_state_mem)
  have p2: "p \<in> in_state ?k2 READY" using pt by (simp add: in_state_def)
  have tc2: "table_core ?k2" by (rule set_state_core) (use table_okD(6) [OF t] pt(1) in simp_all)
  have "0 < pages_left ?k2" using r(4) pg by simp
  from Enqueue_ready_ok [OF tc2 q2 m2 this p2] obtain qr mm where
    e: "Enqueue_ready (priority (pr_of k p)) p ?k2 =
          Some (?k2\<lparr>kmem := mm, priorityQueues := (priorityQueues k)[level k p := qr]\<rparr>)"
      "queue_ok (?k2\<lparr>kmem := mm, priorityQueues := (priorityQueues k)[level k p := qr]\<rparr>)"
      "mem_ok R (?k2\<lparr>kmem := mm, priorityQueues := (priorityQueues k)[level k p := qr]\<rparr>)"
      "\<forall>j. ready (?k2\<lparr>kmem := mm, priorityQueues := (priorityQueues k)[level k p := qr]\<rparr>) j =
         (if j = level k p then ready k (level k p) @ [p] else ready k j)"
    unfolding Let_def by auto
  let ?k3 = "?k2\<lparr>kmem := mm, priorityQueues := (priorityQueues k)[level k p := qr]\<rparr>"
  have a: "unblockProcess (pid (pr_of k p)) k = Some ?k3"
    using r(1) e(1) pp getProcessByPid_eq [OF table_okD(6) [OF t] pt(1)]
    by (simp add: unblockProcess_def upd_pcb_def pcb_def Let_def)
  have is3: "in_state ?k3 s = (if s = READY then insert p (in_state k s) else in_state k s - {p})" for s
    using pt by (auto simp: in_state_def pr_of_def)
  have "current_ok ?k3"
    unfolding current_ok_def is3 using cu nc by (auto simp: current_ok_def pr_of_def)
  moreover have "table_ok ?k3" using tc2 table_okD(5) [OF t] by (simp add: table_ok_def table_core_def)
  ultimately have "sched_inv ?k3" using e(2) cr by (simp add: sched_inv_def)
  moreover have "set (blocked ?k3) = set (blocked k) - {p}"
  proof -
    have "set (blocked ?k3) = in_state ?k3 BLOCKED" using queue_okD(3) [OF e(2)] by blast
    then show ?thesis using is3 [of BLOCKED] queue_okD(3) [OF q] by simp
  qed
  moreover have "ready ?k3 (level k p) = ready k (level k p) @ [p]" using spec [OF e(4), of "level k p"] by simp
  moreover have "\<forall>i. i \<noteq> level k p \<longrightarrow> ready ?k3 i = ready k i" by (simp add: ready_def [of k])
  moreover have "\<forall>r. r \<noteq> p \<longrightarrow> pr_of ?k3 r = pr_of k r" by (simp add: pr_of_def)
  ultimately show ?thesis using a e(3) by (intro exI [of _ ?k3]) simp
qed

end
