(* ===== verification/SchedTheorems.thy ===== *)
theory SchedTheorems
  imports SchedProps
begin

text \<open>
  The properties of the scheduler, each with a witness on the state the kernel boots into: the memory
  manager initialised on the pool that \<open>kernel.c\<close> gives it, then \<open>initializeScheduler\<close>.
\<close>

section \<open>The booted kernel\<close>

definition static_kernel :: kernel where
  "static_kernel = \<lparr>kmem = boot_pool, procs = Map.empty, currentProcess = NULL, processTable = None,
                    priorityQueues = [], weights = [], credits = [], blockedQueue = None,
                    idleProcess = NULL, lastPid = 0, ticks = 0\<rparr>"

definition boot_kernel :: kernel where
  "boot_kernel = the (initializeScheduler 0x500000 static_kernel)"

lemma boot_kernel_ok:
  "initializeScheduler 0x500000 static_kernel = Some boot_kernel" "sched_inv boot_kernel"
  "mem_ok {#} boot_kernel" "table boot_kernel = [idleProcess boot_kernel]"
  "currentProcess boot_kernel = NULL" "lastPid boot_kernel = 1" "\<And>i. i < PRIO \<Longrightarrow> ready boot_kernel i = []"
  "blocked boot_kernel = []" "2000 \<le> pages_left boot_kernel"
proof -
  have s: "kmem static_kernel = boot_pool" "lastPid static_kernel = 0" "idleProcess static_kernel = NULL"
    by (simp_all add: static_kernel_def)
  have pg: "pages_left static_kernel = 2045" using boot_pool_avail by (simp only: s)
  have "pm_inv (kmem static_kernel)" using boot_pool_inv s(1) by simp
  from initializeScheduler_ok [OF this _ s(2,3), of "0x500000"] pg obtain k' where
    "initializeScheduler 0x500000 static_kernel = Some k'" "sched_inv k'" "mem_ok {#} k'"
    "table k' = [idleProcess k']" "currentProcess k' = NULL" "lastPid k' = 1"
    "\<forall>i<PRIO. ready k' i = []" "blocked k' = []" "pages_left static_kernel \<le> pages_left k' + 14"
    by auto
  moreover from this have "boot_kernel = k'" by (simp add: boot_kernel_def)
  ultimately show "initializeScheduler 0x500000 static_kernel = Some boot_kernel" "sched_inv boot_kernel"
    "mem_ok {#} boot_kernel" "table boot_kernel = [idleProcess boot_kernel]"
    "currentProcess boot_kernel = NULL" "lastPid boot_kernel = 1" "\<And>i. i < PRIO \<Longrightarrow> ready boot_kernel i = []"
    "blocked boot_kernel = []" "2000 \<le> pages_left boot_kernel"
    using pg by simp_all
qed

text \<open>Creating a process keeps the whole scheduler invariant.\<close>

lemma createProcess_keeps:
  assumes inv: "sched_inv k" and m: "mem_ok R k"
    and small: "\<forall>ss. args = Some ss \<longrightarrow> length ss < 512 \<and> (\<forall>s\<in>set ss. length s < 4096)"
    and pg: "argsLen args + 8 \<le> pages_left k" and f: "3 \<le> length f"
    and last: "lastPid k \<noteq> -1" "lastPid k \<noteq> 0"
    and cur: "currentProcess k = NULL \<or> currentProcess k \<in> set (table k)"
  shows "\<exists>k' p. createProcess name args (Some f) fg k = Some (lastPid k, k') \<and> sched_inv k' \<and>
           mem_ok R k' \<and> created k k' p name args f fg \<and>
           pages_left k \<le> pages_left k' + (argsLen args + 8)"
proof -
  have c: "core_inv k" and idle: "idleProcess k \<in> set (table k)" using inv sched_inv_core by auto
  from createProcess_ok [OF c m small pg f last cur disjI2 [OF idle], of name fg] obtain k' p where
    k': "createProcess name args (Some f) fg k = Some (lastPid k, k')" "core_inv k'" "mem_ok R k'"
      "created k k' p name args f fg" "pages_left k \<le> pages_left k' + (argsLen args + 8)" by blast
  have "idleProcess k' \<in> set (table k')" using k'(4) idle by (auto simp: created_def entered_def)
  with k' show ?thesis using sched_inv_core by blast
qed

text \<open>The shell of the booted kernel, ready to be scheduled.\<close>

definition shell_kernel :: kernel where
  "shell_kernel = snd (the (createProcess 0x500010 None (Some [0, 1, 2]) True boot_kernel))"

lemma shell_kernel_ok:
  "\<exists>p. createProcess 0x500010 None (Some [0, 1, 2]) True boot_kernel = Some (1, shell_kernel) \<and>
     sched_inv shell_kernel \<and> mem_ok {#} shell_kernel \<and> 1900 \<le> pages_left shell_kernel \<and>
     created boot_kernel shell_kernel p 0x500010 None [0, 1, 2] True"
proof -
  have "argsLen None + 8 \<le> pages_left boot_kernel" using boot_kernel_ok(9) by (simp add: argsLen_def)
  from createProcess_keeps [OF boot_kernel_ok(2,3) _ this, of "[0, 1, 2]" "0x500010" True]
  obtain k' p where k': "createProcess 0x500010 None (Some [0, 1, 2]) True boot_kernel = Some (1, k')"
      "sched_inv k'" "mem_ok {#} k'" "created boot_kernel k' p 0x500010 None [0, 1, 2] True"
      "pages_left boot_kernel \<le> pages_left k' + (argsLen None + 8)"
    using boot_kernel_ok(5,6) by auto
  have "shell_kernel = k'" using k'(1) by (simp add: shell_kernel_def)
  with k' show ?thesis using boot_kernel_ok(9) by (auto simp: argsLen_def intro!: exI [of _ p])
qed

text \<open>The scheduler never touches the identifier counter.\<close>

lemma upd_pcb_lastPid: "upd_pcb p f k = Some k' \<Longrightarrow> lastPid k' = lastPid k"
  by (auto simp: upd_pcb_def split: Option.bind_splits)

lemma pickNextQueue_lastPid: "pickNextQueue k = (q, k') \<Longrightarrow> lastPid k' = lastPid k"
  by (auto simp: pickNextQueue_def refill_credits_def Let_def split: option.splits if_splits)

lemma pickNextProcess_lastPid: "pickNextProcess k = Some (sp, k') \<Longrightarrow> lastPid k' = lastPid k"
  by (auto simp: pickNextProcess_def Dequeue_ready_def Let_def
      split: Option.bind_splits if_splits prod.splits dest!: upd_pcb_lastPid pickNextQueue_lastPid)

lemma schedule_lastPid: "schedule sp k = Some (sp', k') \<Longrightarrow> lastPid k' = lastPid k"
  by (auto simp: schedule_def Enqueue_ready_def Let_def
      split: Option.bind_splits if_splits prod.splits dest!: upd_pcb_lastPid pickNextProcess_lastPid)

text \<open>Nor does it change who is who.\<close>

definition same_pids :: "kernel \<Rightarrow> kernel \<Rightarrow> bool" where
  "same_pids k k' \<longleftrightarrow> (\<forall>p. map_option pid (procs k' p) = map_option pid (procs k p))"

lemma same_pidsD: "same_pids k k' \<Longrightarrow> procs k p \<noteq> None \<Longrightarrow> pid (pr_of k' p) = pid (pr_of k p)"
  by (auto simp: same_pids_def pr_of_def) (metis option.map_sel option.map_disc_iff option.distinct(1) option.sel)

lemma upd_pcb_pids: "upd_pcb p f k = Some k' \<Longrightarrow> (\<And>pr. pid (f pr) = pid pr) \<Longrightarrow> same_pids k k'"
  by (auto simp: upd_pcb_def pcb_def same_pids_def split: Option.bind_splits if_splits)

lemma pickNextProcess_pids: "pickNextProcess k = Some (sp, k') \<Longrightarrow> same_pids k k'"
  by (auto simp: pickNextProcess_def pickNextQueue_def refill_credits_def Dequeue_ready_def Let_def
      upd_pcb_def pcb_def same_pids_def split: Option.bind_splits if_splits prod.splits option.splits)

lemma schedule_pids: "schedule sp k = Some (sp', k') \<Longrightarrow> same_pids k k'"
  by (auto simp: schedule_def Enqueue_ready_def Let_def
      split: Option.bind_splits if_splits prod.splits dest!: upd_pcb_pids pickNextProcess_pids)
    (auto simp: same_pids_def)

text \<open>Changing a control block outside its identity, level and state.\<close>

lemma sched_inv_quiet:
  assumes inv: "sched_inv k" and m: "mem_ok R k" and p: "p \<in> set (table k)"
    and pr: "pid pr = pid (pr_of k p)" "priority pr = priority (pr_of k p)" "state pr = st_of k p"
      "proc_blocks p pr = proc_blocks p (pr_of k p)"
  defines "k' \<equiv> k\<lparr>procs := (procs k)(p \<mapsto> pr)\<rparr>"
  shows "sched_inv k'" and "mem_ok R k'" and "in_state k' = in_state k"
proof -
  have st: "st_of k' q = st_of k q" and lv: "level k' q = level k q" for q
    using pr by (simp_all add: k'_def pr_of_def)
  show is': "in_state k' = in_state k" unfolding in_state_def st by (simp add: k'_def fun_eq_iff)
  have "table_ok k'" unfolding k'_def
    by (rule table_ok_upd [OF sched_invD(1) [OF inv]])
      (use pr table_okD(3) [OF sched_invD(1) [OF inv] p] in simp_all)
  moreover have "queue_ok k'"
    using sched_invD(2) [OF inv] unfolding queue_ok_def is' lv by (simp add: k'_def)
  moreover have "current_ok k'"
    using sched_invD(4) [OF inv] unfolding current_ok_def is' st by (auto simp: k'_def)
  moreover have "credits_ok k'" using sched_invD(3) [OF inv] by (simp add: k'_def)
  ultimately show "sched_inv k'" by (simp add: sched_inv_def)
  show "mem_ok R k'" unfolding k'_def using m pr(4) by (subst mem_ok_upd)
qed

lemma sched_inv_ticks [simp]:
  "sched_inv (k\<lparr>ticks := t\<rparr>) = sched_inv k" "mem_ok R (k\<lparr>ticks := t\<rparr>) = mem_ok R k"
proof -
  have "credits_ok (k\<lparr>ticks := t\<rparr>) = credits_ok k" unfolding credits_ok_def by simp
  moreover have "current_ok (k\<lparr>ticks := t\<rparr>) = current_ok k" unfolding current_ok_def by simp
  ultimately show "sched_inv (k\<lparr>ticks := t\<rparr>) = sched_inv k" unfolding sched_inv_def by simp
  show "mem_ok R (k\<lparr>ticks := t\<rparr>) = mem_ok R k" unfolding mem_ok_def by simp
qed

lemma requeued_ticks [simp]:
  "on_cpu (k\<lparr>ticks := t\<rparr>) = on_cpu k" "requeued sp (k\<lparr>ticks := t\<rparr>) = requeued sp k"
proof -
  show "on_cpu (k\<lparr>ticks := t\<rparr>) = on_cpu k" by (simp add: on_cpu_def)
  then show "requeued sp (k\<lparr>ticks := t\<rparr>) = requeued sp k" by (simp add: fun_eq_iff requeued_def)
qed

text \<open>One tick later it runs, with a whole quantum.\<close>

definition running_kernel :: kernel where
  "running_kernel = snd (the (schedule 0 shell_kernel))"

lemma running_kernel_ok:
  "sched_inv running_kernel" "mem_ok {#} running_kernel" "on_cpu running_kernel"
  "quantumLeft (pr_of running_kernel (currentProcess running_kernel)) = QUANTUM"
  "schedule 0 shell_kernel = Some (stack (pr_of running_kernel (currentProcess running_kernel)), running_kernel)"
  "1900 \<le> pages_left running_kernel"
  "currentProcess running_kernel \<in> set (table running_kernel)"
  "\<And>i. i < PRIO \<Longrightarrow> ready running_kernel i = []"
  "pid (pr_of running_kernel (currentProcess running_kernel)) = 1"
proof -
  obtain p where p: "sched_inv shell_kernel" "mem_ok {#} shell_kernel" "1900 \<le> pages_left shell_kernel"
      "entered boot_kernel shell_kernel p"
    using shell_kernel_ok by (auto simp: created_def)
  have r: "ready shell_kernel i = (if i = 2 then [p] else [])" if "i < PRIO" for i
    using p(4) boot_kernel_ok(7) that by (simp add: entered_def)
  have cn: "currentProcess shell_kernel = NULL" using p(4) boot_kernel_ok(5) by (simp add: entered_def)
  have run: "in_state shell_kernel RUNNING = {}"
    using sched_invD(4) [OF p(1)] cn table_okD(3) [OF sched_invD(1) [OF p(1)]]
    by (auto simp: current_ok_def in_state_def)
  from pickNextProcess_inv [OF sched_invD(1-3) [OF p(1)] p(2) run] obtain sp k' where
    k': "pickNextProcess shell_kernel = Some (sp, k')" "sched_inv k'" "mem_ok {#} k'"
      "pages_left shell_kernel \<le> pages_left k'" "table k' = table shell_kernel"
      "idleProcess k' = idleProcess shell_kernel" "sp = stack (pr_of k' (currentProcess k'))"
      "st_of k' (currentProcess k') = RUNNING" "dispatched shell_kernel k'" by blast
  have s: "schedule 0 shell_kernel = Some (sp, k')" using k'(1) cn by (simp add: schedule_def)
  have e: "running_kernel = k'" using s by (simp add: running_kernel_def)
  have "\<not> (\<forall>i<PRIO. ready shell_kernel i = [])"
    using r [of 2] by (intro notI) (drule spec [of _ 2], simp)
  then obtain i where i: "i < PRIO" "ready shell_kernel i = currentProcess k' # ready k' i"
      "\<forall>j<PRIO. j \<noteq> i \<longrightarrow> ready k' j = ready shell_kernel j"
      "quantumLeft (pr_of k' (currentProcess k')) = QUANTUM"
    using k'(9) unfolding dispatched_def by (metis (no_types, lifting))
  have pi: "currentProcess k' = p" "i = 2" "ready k' i = []" using i(1,2) r [OF i(1)] by (auto split: if_splits)
  have "p \<in> in_state shell_kernel READY"
    using queue_okD(2) [OF sched_invD(2) [OF p(1)], of 2] r [of 2] by auto
  then have "p \<in> set (table shell_kernel)" "p \<noteq> idleProcess shell_kernel" by (auto simp: in_state_def)
  then show "on_cpu running_kernel" "currentProcess running_kernel \<in> set (table running_kernel)"
    unfolding e on_cpu_def in_state_def using k' pi by auto
  have "procs shell_kernel p \<noteq> None"
    using table_okD(3) [OF sched_invD(1) [OF p(1)] \<open>p \<in> set (table shell_kernel)\<close>] by simp
  from same_pidsD [OF schedule_pids [OF s] this]
  show "pid (pr_of running_kernel (currentProcess running_kernel)) = 1"
    unfolding e pi(1) using p(4) boot_kernel_ok(6) by (simp add: entered_def)
  show "ready running_kernel j = []" if "j < PRIO" for j
    unfolding e using i(3) pi r [OF that] that by (cases "j = 2") auto
  show "sched_inv running_kernel" "mem_ok {#} running_kernel" "1900 \<le> pages_left running_kernel"
    "quantumLeft (pr_of running_kernel (currentProcess running_kernel)) = QUANTUM"
    "schedule 0 shell_kernel = Some (stack (pr_of running_kernel (currentProcess running_kernel)), running_kernel)"
    unfolding e using k' p i s by auto
qed

section \<open>The properties\<close>

text \<open>C6: initialisation. On any consistent memory manager with fourteen free pages
  \<open>initializeScheduler\<close> succeeds and establishes the scheduler invariant: the idle process is the only
  one in the table, ready but in no queue, nothing runs, and the next process gets identifier 1.\<close>

theorem boot_reaches_invariant:
  assumes "pm_inv (kmem k)" and "14 \<le> pages_left k" and "lastPid k = 0" and "idleProcess k = NULL"
  shows "\<exists>k'. initializeScheduler name k = Some k' \<and> sched_inv k' \<and> mem_ok {#} k' \<and>
           table k' = [idleProcess k'] \<and> currentProcess k' = NULL \<and> lastPid k' = 1 \<and>
           pid (pr_of k' (idleProcess k')) = 0 \<and> st_of k' (idleProcess k') = READY \<and>
           (\<forall>i<PRIO. ready k' i = []) \<and> blocked k' = []"
  using initializeScheduler_ok [OF assms, of name] by blast

theorem boot_reaches_invariant_witness:
  "\<exists>k'. initializeScheduler 0x500000 static_kernel = Some k' \<and> sched_inv k' \<and> lastPid k' = 1"
  using boot_reaches_invariant [of static_kernel "0x500000"] boot_pool_inv boot_pool_avail
  by (auto simp: static_kernel_def)

text \<open>C7: process creation. With enough pages for the stack, the argument copies, the control block and
  its lists, \<open>createProcess\<close> returns the next identifier and keeps the invariant; the new process is
  ready at the end of the default queue, owns copies of its arguments, starts on its own stack, and is
  a child of its creator, and no other control block changes.\<close>

theorem createProcess_creates:
  assumes "sched_inv k" and "mem_ok R k"
    and "\<forall>ss. args = Some ss \<longrightarrow> length ss < 512 \<and> (\<forall>s\<in>set ss. length s < 4096)"
    and "argsLen args + 8 \<le> pages_left k" and "3 \<le> length f"
    and "lastPid k \<noteq> -1" and "lastPid k \<noteq> 0"
    and "currentProcess k = NULL \<or> currentProcess k \<in> set (table k)"
  shows "\<exists>k' p. createProcess name args (Some f) fg k = Some (lastPid k, k') \<and> sched_inv k' \<and>
           mem_ok R k' \<and> created k k' p name args f fg \<and>
           pages_left k \<le> pages_left k' + (argsLen args + 8)"
  by (rule createProcess_keeps [OF assms])

theorem createProcess_creates_witness:
  "\<exists>k' p. createProcess 0x500020 (Some [''a'', ''bc'']) (Some [0, 1, 2]) False running_kernel =
            Some (lastPid running_kernel, k') \<and> sched_inv k' \<and>
          parent (pr_of k' p) = currentProcess running_kernel"
proof -
  obtain p where "entered boot_kernel shell_kernel p" using shell_kernel_ok by (auto simp: created_def)
  then have "lastPid shell_kernel = 2" using boot_kernel_ok(6) by (simp add: entered_def)
  then have l: "lastPid running_kernel = 2"
    using running_kernel_ok(5) schedule_lastPid by metis
  have "argsLen (Some [''a'', ''bc'']) + 8 \<le> pages_left running_kernel"
    using running_kernel_ok(6) by (simp add: argsLen_def)
  from createProcess_creates [OF running_kernel_ok(1,2) _ this, of "[0, 1, 2]" "0x500020" False] l
    running_kernel_ok(7)
  show ?thesis by (auto simp: created_def entered_def)
qed

text \<open>Who is marked running: the current process, and the idle process, whose mark nobody takes off.\<close>

lemma sched_inv_running:
  assumes "sched_inv k" and "p \<in> set (table k)" and "st_of k p = RUNNING"
  shows "p = currentProcess k \<or> p = idleProcess k"
  using sched_invD(4) [OF assms(1)] assms(2,3) by (auto simp: current_ok_def in_state_def)

lemma pickNextProcess_others:
  assumes "pickNextProcess k = Some (sp, k')" and "p \<noteq> currentProcess k'"
  shows "pr_of k' p = pr_of k p"
  using assms
  by (auto simp: pickNextProcess_def pickNextQueue_def refill_credits_def Dequeue_ready_def upd_pcb_def pr_of_def Let_def
      split: option.splits if_splits Option.bind_splits prod.splits)

text \<open>
  When a process is ready and the idle process is running, the tick hands the processor over and leaves both marked as
  running: \<open>schedule\<close> sets only the process it picks.
\<close>

lemma idle_stays_running:
  assumes inv: "sched_inv k" and m: "mem_ok R k" and pg: "0 < pages_left k"
    and cur: "currentProcess k = idleProcess k" "st_of k (idleProcess k) = RUNNING" and i: "i < PRIO" "ready k i \<noteq> []"
  shows "\<exists>sp' k'. timer_handler sp k = Some (sp', k') \<and> currentProcess k' \<noteq> idleProcess k' \<and>
           {currentProcess k', idleProcess k'} \<subseteq> set (table k') \<and>
           st_of k' (currentProcess k') = RUNNING \<and> st_of k' (idleProcess k') = RUNNING"
proof -
  note t = sched_invD(1) [OF inv]
  let ?i = "idleProcess k"
  note idle = table_okD(3) [OF t table_okD(5) [OF t]]
  let ?k = "k\<lparr>ticks := ticks k + 1, procs := (procs k)(?i \<mapsto> (pr_of k ?i)\<lparr>stack := sp\<rparr>)\<rparr>"
  have th: "timer_handler sp k = pickNextProcess ?k"
    using cur(1) idle by (simp add: timer_handler_def schedule_def upd_pcb_def pcb_def Let_def)
  have "sched_inv (k\<lparr>ticks := ticks k + 1\<rparr>)" "mem_ok R (k\<lparr>ticks := ticks k + 1\<rparr>)" "0 < pages_left (k\<lparr>ticks := ticks k + 1\<rparr>)"
    using inv m pg by simp_all
  from schedule_inv [OF this, of sp] obtain sp' k' where
    s: "schedule sp (k\<lparr>ticks := ticks k + 1\<rparr>) = Some (sp', k')" "table k' = table k" "idleProcess k' = ?i"
      "currentProcess k' \<in> set (table k)" "st_of k' (currentProcess k') = RUNNING"
      "if on_cpu k \<and> quantumLeft (pr_of k (currentProcess k)) \<noteq> 1
       then currentProcess k' = currentProcess k \<and> sp' = sp \<and> ready k' = ready k
       else \<exists>k1. requeued sp k k1 \<and> dispatched k1 k'"
    by (simp cong: if_cong split del: if_split) blast
  have off: "\<not> on_cpu k" using cur(1) by (simp add: on_cpu_def in_state_def)
  with s(6) obtain k1 where d: "requeued sp k k1" "dispatched k1 k'" by (simp only: simp_thms if_False) blast
  have th': "timer_handler sp k = Some (sp', k')" using s(1) by (simp add: timer_handler_def)
  have rd: "\<forall>j<PRIO. ready k1 j = ready k j" using d(1) off by (simp add: requeued_def)
  obtain j where j: "j < PRIO" "currentProcess k' \<in> set (ready k j)"
  proof -
    have "\<not> (\<forall>i<PRIO. ready k1 i = [])" using rd i by auto
    with d(2) obtain j where "j < PRIO" "ready k1 j = currentProcess k' # ready k' j" unfolding dispatched_def by auto
    with rd that [of j] show thesis by auto
  qed
  have "currentProcess k' \<in> in_state k READY" using queue_okD(2) [OF sched_invD(2) [OF inv] j(1)] j(2) by auto
  then have n: "currentProcess k' \<noteq> ?i" by (simp add: in_state_def)
  have "pickNextProcess ?k = Some (sp', k')" using th' unfolding th .
  from pickNextProcess_others [OF this n [symmetric]] have "st_of k' ?i = RUNNING" using cur(2) by (simp add: pr_of_def)
  with s(2-5) th' n table_okD(5) [OF t] show ?thesis by (intro exI [of _ sp'] exI [of _ k']) simp
qed

text \<open>C8: a timer tick. It always finishes in a state that satisfies the invariant, with the current process marked
  as running and its saved stack pointer the one returned; no other process of the table is marked as running, except
  perhaps the idle process, which keeps the mark after it was preempted (\<open>idle_stays_running\<close>). The running process goes on
  while ticks of its quantum are left; otherwise it is queued behind the others of its level, with the interrupted stack
  pointer saved, and the head of the first queue that has credit runs, or the idle process when all queues are empty. A page
  is left for the queue's node.\<close>

theorem tick_round_robin:
  assumes "sched_inv k" and "mem_ok R k" and "0 < pages_left k"
  shows "\<exists>sp' k'. timer_handler sp k = Some (sp', k') \<and> sched_inv k' \<and> mem_ok R k' \<and>
           table k' = table k \<and> idleProcess k' = idleProcess k \<and> blocked k' = blocked k \<and>
           currentProcess k' \<in> set (table k) \<and> st_of k' (currentProcess k') = RUNNING \<and>
           (\<forall>p\<in>set (table k'). st_of k' p = RUNNING \<longrightarrow> p = currentProcess k' \<or> p = idleProcess k') \<and>
           sp' = stack (pr_of k' (currentProcess k')) \<and>
           (if on_cpu k \<and> quantumLeft (pr_of k (currentProcess k)) \<noteq> 1
            then currentProcess k' = currentProcess k \<and> sp' = sp \<and> ready k' = ready k
            else \<exists>k1. requeued sp k k1 \<and> dispatched k1 k')"
proof -
  let ?k = "k\<lparr>ticks := ticks k + 1\<rparr>"
  have "sched_inv ?k" "mem_ok R ?k" "0 < pages_left ?k"
    using assms by (simp_all add: sched_inv_ticks)
  from schedule_inv [OF this, of sp] obtain sp' k' where
    s: "schedule sp ?k = Some (sp', k')" "sched_inv k'" "mem_ok R k'" "table k' = table k" "idleProcess k' = idleProcess k"
      "blocked k' = blocked k" "currentProcess k' \<in> set (table k)" "st_of k' (currentProcess k') = RUNNING"
      "sp' = stack (pr_of k' (currentProcess k'))"
      "if on_cpu k \<and> quantumLeft (pr_of k (currentProcess k)) \<noteq> 1
       then currentProcess k' = currentProcess k \<and> sp' = sp \<and> ready k' = ready k
       else \<exists>k1. requeued sp k k1 \<and> dispatched k1 k'"
    by (simp cong: if_cong split del: if_split) blast
  have "timer_handler sp k = Some (sp', k')" using s(1) by (simp add: timer_handler_def)
  moreover have "\<forall>p\<in>set (table k'). st_of k' p = RUNNING \<longrightarrow> p = currentProcess k' \<or> p = idleProcess k'"
    using sched_inv_running [OF s(2)] by blast
  ultimately show ?thesis using s by (intro exI [of _ sp'] exI [of _ k'] conjI)
qed

theorem tick_round_robin_witness:
  "\<exists>sp' k'. timer_handler 0x700000 running_kernel = Some (sp', k') \<and> sched_inv k' \<and>
           currentProcess k' = currentProcess running_kernel \<and> sp' = 0x700000"
  using tick_round_robin [OF running_kernel_ok(1,2), of "0x700000"] running_kernel_ok(3,4,6) by auto

text \<open>The quantum, over a run of timer interrupts; each element is the interrupted stack pointer.\<close>

fun run_ticks :: "ptr list \<Rightarrow> kernel \<Rightarrow> kernel option" where
  "run_ticks [] k = Some k"
| "run_ticks (sp # sps) k = do { (sp', k) \<leftarrow> timer_handler sp k; run_ticks sps k }"

lemma tick_within_quantum:
  assumes "sched_inv k" and "mem_ok R k" and on: "on_cpu k"
    and q: "quantumLeft (pr_of k (currentProcess k)) \<noteq> 1"
  shows "\<exists>k'. timer_handler sp k = Some (sp, k') \<and> sched_inv k' \<and> mem_ok R k' \<and> on_cpu k' \<and>
           currentProcess k' = currentProcess k \<and> ready k' = ready k \<and> kmem k' = kmem k \<and>
           quantumLeft (pr_of k' (currentProcess k)) = quantumLeft (pr_of k (currentProcess k)) - 1"
proof -
  let ?k = "k\<lparr>ticks := ticks k + 1\<rparr>"
  have "sched_inv ?k" "mem_ok R ?k" "on_cpu ?k" "quantumLeft (pr_of ?k (currentProcess ?k)) \<noteq> 1"
    using assms by (simp_all add: on_cpu_def)
  note keep = schedule_keeps [OF this refl refl, of sp]
  show ?thesis
    by (intro exI conjI, unfold timer_handler_def, rule keep(1), rule keep(2), rule keep(3))
      (use keep(5) on in \<open>simp_all add: on_cpu_def pr_of_def\<close>)
qed

lemma run_ticks_quantum:
  assumes "sched_inv k" and "mem_ok R k" and "on_cpu k"
    and "length sps < unat (quantumLeft (pr_of k (currentProcess k)))"
  shows "\<exists>k'. run_ticks sps k = Some k' \<and> sched_inv k' \<and> mem_ok R k' \<and> on_cpu k' \<and>
           currentProcess k' = currentProcess k \<and> ready k' = ready k \<and> kmem k' = kmem k \<and>
           unat (quantumLeft (pr_of k' (currentProcess k))) + length sps =
             unat (quantumLeft (pr_of k (currentProcess k)))"
  using assms
proof (induction sps arbitrary: k)
  case (Cons sp sps)
  let ?q = "quantumLeft (pr_of k (currentProcess k))"
  have "?q \<noteq> 1" using Cons.prems(4) by auto
  from tick_within_quantum [OF Cons.prems(1-3) this, of sp] obtain k1 where
    k1: "timer_handler sp k = Some (sp, k1)" "sched_inv k1" "mem_ok R k1" "on_cpu k1"
      "currentProcess k1 = currentProcess k" "ready k1 = ready k" "kmem k1 = kmem k"
      "quantumLeft (pr_of k1 (currentProcess k)) = ?q - 1" by blast
  have "?q \<noteq> 0" using Cons.prems(4) by auto
  then have u: "Suc (unat (?q - 1)) = unat ?q" by (simp add: unat_minus_one unat_gt_0)
  then have "length sps < unat (quantumLeft (pr_of k1 (currentProcess k1)))"
    using Cons.prems(4) k1(5,8) by simp
  from Cons.IH [OF k1(2-4) this] k1 u show ?case by auto
qed simp

text \<open>C9: the quantum. A process with \<open>q\<close> ticks left keeps the processor through the next \<open>q - 1\<close> timer
  interrupts, whatever their stack pointers, and loses it at the \<open>q\<close>-th: there it is queued behind the
  processes of its level and the policy picks who runs.\<close>

theorem quantum_respected:
  assumes "sched_inv k" and "mem_ok R k" and "on_cpu k" and "0 < pages_left k"
    and "Suc (length sps) = unat (quantumLeft (pr_of k (currentProcess k)))"
  shows "(\<forall>n\<le>length sps. \<exists>k'. run_ticks (take n sps) k = Some k' \<and> on_cpu k' \<and>
            currentProcess k' = currentProcess k) \<and>
         (\<exists>kq k1 sp' k'. run_ticks sps k = Some kq \<and> timer_handler sp kq = Some (sp', k') \<and> sched_inv k' \<and>
            requeued sp kq k1 \<and> dispatched k1 k' \<and> currentProcess k \<in> set (ready k1 (level kq (currentProcess k))))"
proof
  show "\<forall>n\<le>length sps. \<exists>k'. run_ticks (take n sps) k = Some k' \<and> on_cpu k' \<and>
            currentProcess k' = currentProcess k"
  proof (intro allI impI)
    fix n assume "n \<le> length sps"
    then have "length (take n sps) < unat (quantumLeft (pr_of k (currentProcess k)))" using assms(5) by simp
    from run_ticks_quantum [OF assms(1-3) this]
    show "\<exists>k'. run_ticks (take n sps) k = Some k' \<and> on_cpu k' \<and> currentProcess k' = currentProcess k"
      by blast
  qed
  have "length sps < unat (quantumLeft (pr_of k (currentProcess k)))" using assms(5) by simp
  from run_ticks_quantum [OF assms(1-3) this] obtain kq where
    kq: "run_ticks sps k = Some kq" "sched_inv kq" "mem_ok R kq" "on_cpu kq"
      "currentProcess kq = currentProcess k" "kmem kq = kmem k"
      "unat (quantumLeft (pr_of kq (currentProcess k))) + length sps =
         unat (quantumLeft (pr_of k (currentProcess k)))" by blast
  then have one: "quantumLeft (pr_of kq (currentProcess kq)) = 1"
    using assms(5) unfolding kq(5) by (subst word_unat_eq_iff) simp
  let ?k = "kq\<lparr>ticks := ticks kq + 1\<rparr>"
  have on: "on_cpu ?k" "quantumLeft (pr_of ?k (currentProcess ?k)) = 1"
    using kq(4) one by (simp_all add: on_cpu_def)
  have "sched_inv ?k" "mem_ok R ?k" "0 < pages_left ?k" using kq assms(4) by simp_all
  from schedule_inv [OF this, of sp] on obtain sp' k' k1 where
    k': "schedule sp ?k = Some (sp', k')" "sched_inv k'" "requeued sp ?k k1" "dispatched k1 k'" by auto
  have r: "requeued sp kq k1" using k'(3) by (simp add: requeued_def on_cpu_def)
  have "level kq (currentProcess k) < PRIO"
    using kq(4,5) table_okD(3) [OF sched_invD(1) [OF kq(2)]] by (auto simp: on_cpu_def in_state_def)
  then have "currentProcess k \<in> set (ready k1 (level kq (currentProcess k)))"
    using r kq(4,5) by (simp add: requeued_def)
  with kq(1) k' r show "\<exists>kq k1 sp' k'. run_ticks sps k = Some kq \<and> timer_handler sp kq = Some (sp', k') \<and>
      sched_inv k' \<and> requeued sp kq k1 \<and> dispatched k1 k' \<and>
      currentProcess k \<in> set (ready k1 (level kq (currentProcess k)))"
    unfolding timer_handler_def by blast
qed

theorem quantum_respected_witness:
  "\<exists>kq sp' k'. run_ticks [1, 2, 3, 4] running_kernel = Some kq \<and> timer_handler 5 kq = Some (sp', k') \<and> sched_inv k'"
  using quantum_respected [OF running_kernel_ok(1-3), of "[1, 2, 3, 4]" 5] running_kernel_ok(4,6) by auto

text \<open>The choice of a queue. \<open>pickNextQueue\<close> answers -1 exactly when all four queues are empty;
  otherwise the first non-empty queue with credit, after refilling the credits when no non-empty queue
  had any. Only the credits change, and they never exceed the weights.\<close>

theorem pickNextQueue_chooses:
  assumes "length (priorityQueues k) = PRIO" and "credits_ok k" and "pickNextQueue k = (q, k')"
  shows "\<exists>cs. k' = k\<lparr>credits := cs\<rparr> \<and> credits_ok k' \<and>
           (if \<forall>i<PRIO. q_empty (priorityQueues k ! i) then q = -1
            else \<exists>i<PRIO. q = int i \<and> \<not> q_empty (priorityQueues k ! i) \<and> eligible (topped_up k) i \<and>
                   (\<forall>j<i. \<not> eligible (topped_up k) j))"
  by (rule pickNextQueue_spec [OF assms])

theorem pickNextQueue_chooses_witness:
  "\<exists>q k'. pickNextQueue running_kernel = (q, k') \<and> credits_ok k'"
proof -
  obtain q k' where pk: "pickNextQueue running_kernel = (q, k')" by force
  from pickNextQueue_chooses [OF queue_okD(1) [OF sched_invD(2) [OF running_kernel_ok(1)]]
      sched_invD(3) [OF running_kernel_ok(1)] pk] pk
  show ?thesis by blast
qed

text \<open>C10: no starvation. However the queues change between two choices, a queue that is never empty when
  the scheduler chooses is served at least once in any nineteen consecutive choices.\<close>

theorem no_starvation:
  assumes "picking_run p f" and "p < PRIO"
  shows "\<exists>j<19. fst (pickNextQueue (f (n + j))) = int p"
proof -
  note b = credit_total_bound [OF picking_run_credits [OF assms(1), of n] assms(2)]
  show ?thesis
  proof (cases "credits (f n) ! p = 0")
    case True
    with served_without_credit [OF assms True, of 9] b obtain d where
      "d \<le> 9 + 9" "fst (pickNextQueue (f (n + d))) = int p" by blast
    then show ?thesis by (intro exI [of _ d]) simp
  next
    case False
    with served_with_credit [OF assms False, of 9] b obtain d where
      "d \<le> 9" "fst (pickNextQueue (f (n + d))) = int p" by blast
    then show ?thesis by (intro exI [of _ d]) simp
  qed
qed

theorem no_starvation_witness:
  "\<exists>j<19. fst (pickNextQueue (((\<lambda>k. snd (pickNextQueue k)) ^^ j) shell_kernel)) = 2"
proof -
  let ?f = "\<lambda>j. ((\<lambda>k. snd (pickNextQueue k)) ^^ j) shell_kernel"
  obtain p where p: "sched_inv shell_kernel" "entered boot_kernel shell_kernel p"
    using shell_kernel_ok by (auto simp: created_def)
  note q = queue_okD [OF sched_invD(2) [OF p(1)]]
  have "ready shell_kernel 2 = [p]" using p(2) boot_kernel_ok(7) [of 2] by (simp add: entered_def)
  then have ne: "\<not> q_empty (priorityQueues shell_kernel ! 2)"
    by (auto simp: ready_def q_empty_def split: option.splits)
  have step: "length (priorityQueues (?f j)) = PRIO \<and> weights (?f j) = [4, 3, 2, 1] \<and>
      credits_ok (?f j) \<and> priorityQueues (?f j) = priorityQueues shell_kernel" for j
  proof (induction j)
    case 0
    have c: "credits_ok shell_kernel" by (rule sched_invD(3) [OF p(1)])
    then have "weights shell_kernel = [4, 3, 2, 1]" by (simp add: credits_ok_def)
    with c show ?case using q(1) by simp
  next
    case (Suc j)
    obtain r k' where pk: "pickNextQueue (?f j) = (r, k')" by force
    from pickNextQueue_spec [OF _ _ pk] Suc obtain cs where
      "k' = (?f j)\<lparr>credits := cs\<rparr>" "credits_ok k'" by blast
    with pk Suc q(1) show ?case by simp
  qed
  have "picking_run 2 ?f"
    unfolding picking_run_def using step ne q(1) sched_invD(3) [OF p(1)] by simp
  from no_starvation [OF this, of 0] show ?thesis by simp
qed

text \<open>C11: blocking and unblocking. Blocking a ready or running process takes it out of its ready queue and
  puts it at the end of the blocked queue; unblocking it afterwards puts it at the end of its ready
  queue. Both keep the invariant and change no other control block.\<close>

theorem block_unblock:
  assumes "sched_inv k" and "mem_ok R k" and "1 < pages_left k"
    and "p \<in> in_state k READY" and "currentProcess k = NULL \<or> currentProcess k \<in> set (table k)"
  shows "\<exists>k'. addProcessToBlockQueue (pid (pr_of k p)) k = Some k' \<and> sched_inv k' \<and> mem_ok R k' \<and>
           blocked k' = blocked k @ [p] \<and> st_of k' p = BLOCKED \<and> (\<forall>i<PRIO. p \<notin> set (ready k' i)) \<and>
           (\<forall>q. q \<noteq> p \<longrightarrow> pr_of k' q = pr_of k q) \<and>
           (\<exists>k''. unblockProcess (pid (pr_of k' p)) k' = Some k'' \<and> sched_inv k'' \<and>
              mem_ok R k'' \<and> set (blocked k'') = set (blocked k) \<and> st_of k'' p = READY \<and>
              ready k'' (level k' p) = ready k' (level k' p) @ [p] \<and>
              (\<forall>q. q \<noteq> p \<longrightarrow> pr_of k'' q = pr_of k q))"
proof -
  have pg: "0 < pages_left k" using assms(3) by simp
  from addProcessToBlockQueue_ok [OF assms(1,2) pg disjI1 [OF assms(4)] assms(5)] obtain k' where
    k': "addProcessToBlockQueue (pid (pr_of k p)) k = Some k'" "sched_inv k'" "mem_ok R k'"
      "blocked k' = blocked k @ [p]" "st_of k' p = BLOCKED" "table k' = table k"
      "currentProcess k' = currentProcess k" "idleProcess k' = idleProcess k"
      "\<forall>i<PRIO. p \<notin> set (ready k' i)" "\<forall>q. q \<noteq> p \<longrightarrow> pr_of k' q = pr_of k q"
      "pages_left k \<le> pages_left k' + 1" by blast
  have pg': "0 < pages_left k'" using k'(11) assms(3) by simp
  have b: "p \<in> in_state k' BLOCKED" using assms(4) k' by (auto simp: in_state_def)
  have nc: "p \<noteq> currentProcess k'" using current_not_ready [OF assms(1,4)] k'(7) by simp
  have d: "p \<notin> set (blocked k)" using queue_okD(3) [OF sched_invD(2) [OF k'(2)]] k'(4) by auto
  have "\<exists>k''. unblockProcess (pid (pr_of k' p)) k' = Some k'' \<and> sched_inv k'' \<and>
              mem_ok R k'' \<and> set (blocked k'') = set (blocked k) \<and> st_of k'' p = READY \<and>
              ready k'' (level k' p) = ready k' (level k' p) @ [p] \<and>
              (\<forall>q. q \<noteq> p \<longrightarrow> pr_of k'' q = pr_of k q)"
    using unblockProcess_ok [OF k'(2,3) pg' b nc] k'(4,10) d by auto
  with k' show ?thesis by blast
qed

theorem block_unblock_witness:
  "\<exists>p k'. addProcessToBlockQueue (pid (pr_of shell_kernel p)) shell_kernel = Some k' \<and> sched_inv k' \<and>
     st_of k' p = BLOCKED"
proof -
  obtain p where p: "sched_inv shell_kernel" "mem_ok {#} shell_kernel" "1900 \<le> pages_left shell_kernel"
      "entered boot_kernel shell_kernel p"
    using shell_kernel_ok by (auto simp: created_def)
  have "ready shell_kernel 2 = [p]" using p(4) boot_kernel_ok(7) [of 2] by (simp add: entered_def)
  then have "p \<in> in_state shell_kernel READY"
    using queue_okD(2) [OF sched_invD(2) [OF p(1)], of 2] by auto
  moreover have "currentProcess shell_kernel = NULL" using p(4) boot_kernel_ok(5) by (simp add: entered_def)
  ultimately show ?thesis using block_unblock [OF p(1,2), of p] p(3) by fastforce
qed

end
