(* ===== verification/LibC.thy ===== *)
theory LibC
  imports Strings
begin

text \<open>
  \<open>Kernel/lib/console/lib.c\<close> (block operations on raw memory and \<open>uint64ToString\<close>) and
  \<open>Kernel/lib/console/naiveConsole.c\<close>. Raw memory is a total map from addresses to bytes, so that
  address arithmetic wraps as it does on the machine.
\<close>

section \<open>Raw memory\<close>

type_synonym memory = "u64 \<Rightarrow> u8"

fun memset_loop :: "ptr \<Rightarrow> u8 \<Rightarrow> nat \<Rightarrow> memory \<Rightarrow> memory" where
  "memset_loop dst chr 0 m = m"
| "memset_loop dst chr (Suc n) m = memset_loop dst chr n (m(dst + of_nat n := chr))"

definition memset :: "ptr \<Rightarrow> u32 \<Rightarrow> u64 \<Rightarrow> memory \<Rightarrow> memory" where
  "memset destination c len m = memset_loop destination (ucast c) (unat len) m"

text \<open>32-bit loads and stores, little endian.\<close>

definition load32 :: "memory \<Rightarrow> ptr \<Rightarrow> u32" where
  "load32 m a = ucast (m a) OR push_bit 8 (ucast (m (a + 1))) OR push_bit 16 (ucast (m (a + 2))) OR
                push_bit 24 (ucast (m (a + 3)))"

definition store32 :: "ptr \<Rightarrow> u32 \<Rightarrow> memory \<Rightarrow> memory" where
  "store32 a w m = m(a := ucast w, a + 1 := ucast (drop_bit 8 w), a + 2 := ucast (drop_bit 16 w),
                     a + 3 := ucast (drop_bit 24 w))"

fun copy_words :: "nat \<Rightarrow> nat \<Rightarrow> ptr \<Rightarrow> ptr \<Rightarrow> memory \<Rightarrow> memory" where
  "copy_words 0 i d s m = m"
| "copy_words (Suc n) i d s m =
     copy_words n (Suc i) d s (store32 (d + of_nat (4 * i)) (load32 m (s + of_nat (4 * i))) m)"

fun copy_bytes :: "nat \<Rightarrow> nat \<Rightarrow> ptr \<Rightarrow> ptr \<Rightarrow> memory \<Rightarrow> memory" where
  "copy_bytes 0 i d s m = m"
| "copy_bytes (Suc n) i d s m = copy_bytes n (Suc i) d s (m(d + of_nat i := m (s + of_nat i)))"

definition memcpy :: "ptr \<Rightarrow> ptr \<Rightarrow> u64 \<Rightarrow> memory \<Rightarrow> memory" where
  "memcpy destination source len m =
     (if destination mod 4 = 0 \<and> source mod 4 = 0 \<and> len mod 4 = 0
      then copy_words (unat (len div 4)) 0 destination source m
      else copy_bytes (unat len) 0 destination source m)"

lemma offset_iff: "n < 2 ^ 64 \<Longrightarrow> a = (d :: u64) + of_nat n \<longleftrightarrow> unat (a - d) = n"
proof
  assume n: "n < 2 ^ 64" and "a = d + of_nat n"
  then have "a - d = of_nat n" by simp
  then show "unat (a - d) = n" using n unat_of_nat_small [of n, where 'a=64] by simp
next
  assume u: "unat (a - d) = n"
  have "of_nat (unat (a - d)) = a - d" by simp
  then have "of_nat n = a - d" unfolding u .
  then show "a = d + of_nat n" by simp
qed

lemma memset_loop_eq:
  "n \<le> 2 ^ 64 \<Longrightarrow> memset_loop dst chr n m a = (if unat (a - dst) < n then chr else m a)"
proof (induction n arbitrary: m)
  case (Suc n)
  have at: "a = dst + of_nat n \<longleftrightarrow> unat (a - dst) = n" by (rule offset_iff) (use Suc.prems in simp)
  have "memset_loop dst chr (Suc n) m a =
      (if unat (a - dst) < n then chr else (m(dst + of_nat n := chr)) a)"
    using Suc by simp
  also have "\<dots> = (if unat (a - dst) < Suc n then chr else m a)" using at by auto
  finally show ?case .
qed simp

lemma store_load32: "store32 d (load32 m s) m' =
    m'(d := m s, d + 1 := m (s + 1), d + 2 := m (s + 2), d + 3 := m (s + 3))"
proof -
  have "ucast (load32 m s) = m s" "ucast (drop_bit 8 (load32 m s)) = m (s + 1)"
    "ucast (drop_bit 16 (load32 m s)) = m (s + 2)" "ucast (drop_bit 24 (load32 m s)) = m (s + 3)"
    by (rule bit_word_eqI; auto simp: load32_def bit_simps dest: bit_imp_le_length)+
  then show ?thesis by (simp add: store32_def)
qed

lemma copy_bytes_eq:
  assumes "\<And>j k. j < i + n \<Longrightarrow> k < i + n \<Longrightarrow> d + of_nat j \<noteq> s + of_nat k" and "i + n \<le> 2 ^ 64"
  shows "copy_bytes n i d s m a =
           (if i \<le> unat (a - d) \<and> unat (a - d) < i + n then m (s + of_nat (unat (a - d))) else m a)"
  using assms
proof (induction n arbitrary: i m)
  case (Suc n)
  let ?m = "m(d + of_nat i := m (s + of_nat i))" and ?k = "unat (a - d)"
  have at: "a = d + of_nat i \<longleftrightarrow> ?k = i" by (rule offset_iff) (use Suc.prems(2) in simp)
  have src: "?m (s + of_nat k) = m (s + of_nat k)" if "k < i + Suc n" for k
    using Suc.prems(1) [of i k] that by auto
  have "copy_bytes (Suc n) i d s m a =
      (if Suc i \<le> ?k \<and> ?k < Suc i + n then ?m (s + of_nat ?k) else ?m a)"
    using Suc.IH [of "Suc i" ?m] Suc.prems by (simp del: fun_upd_apply)
  also have "\<dots> = (if i \<le> ?k \<and> ?k < i + Suc n then m (s + of_nat ?k) else m a)"
  proof (cases "?k = i")
    case True
    then have "?m a = m (s + of_nat i)" using at by simp
    with True show ?thesis by (simp del: fun_upd_apply)
  next
    case False
    then have "?m a = m a" using at by simp
    with False src [of ?k] show ?thesis by (simp del: fun_upd_apply)
  qed
  finally show ?case .
qed auto

lemma copy_bytes_add: "copy_bytes (a + b) i d s m = copy_bytes b (i + a) d s (copy_bytes a i d s m)"
  by (induction a arbitrary: i m) simp_all

text \<open>A word copied at once is four bytes copied, when source and destination do not overlap.\<close>

lemma copy_words_bytes:
  assumes "\<And>j k. j < 4 * (i + n) \<Longrightarrow> k < 4 * (i + n) \<Longrightarrow> d + of_nat j \<noteq> s + of_nat k"
  shows "copy_words n i d s m = copy_bytes (4 * n) (4 * i) d s m"
  using assms
proof (induction n arbitrary: i m)
  case (Suc n)
  let ?d = "d + of_nat (4 * i)" and ?s = "s + of_nat (4 * i)"
  have ne: "?s + of_nat k \<noteq> ?d + of_nat j" if "j < 4" "k < 4" for j k
    using Suc.prems [of "4 * i + j" "4 * i + k"] that by (auto simp: algebra_simps)
  have "store32 ?d (load32 m ?s) m = copy_bytes 4 (4 * i) d s m"
    using ne [of 0 1] ne [of 0 2] ne [of 0 3] ne [of 1 2] ne [of 1 3] ne [of 2 3]
    by (simp add: store_load32 eval_nat_numeral algebra_simps)
  then show ?case
    using Suc.IH [of "Suc i"] Suc.prems copy_bytes_add [of 4 "4 * n" "4 * i"]
      by (simp add: add.commute [of "4 * i" 4])
qed simp

lemma memcpy_eq:
  assumes "\<And>i j. i < unat len \<Longrightarrow> j < unat len \<Longrightarrow> d + of_nat i \<noteq> s + of_nat j"
  shows "memcpy d s len m a = (if unat (a - d) < unat len then m (s + (a - d)) else m a)"
proof -
  have le: "unat len \<le> 2 ^ 64" using unat_less [of len] by simp
  have "copy_words (unat (len div 4)) 0 d s m = copy_bytes (unat len) 0 d s m" if "len mod 4 = 0"
  proof -
    have "unat (len mod 4) = 0" using that by simp
    then have "unat len mod 4 = 0" by (simp add: unat_mod)
    then have e: "4 * unat (len div 4) = unat len" using mult_div_mod_eq [of 4 "unat len"] by (simp add: unat_div)
    show ?thesis using copy_words_bytes [of 0 "unat (len div 4)" d s m] assms by (simp add: e)
  qed
  then have "memcpy d s len m = copy_bytes (unat len) 0 d s m" by (simp add: memcpy_def)
  with copy_bytes_eq [of 0 "unat len" d s m a] assms le show ?thesis by simp
qed

section \<open>Numbers to strings\<close>

text \<open>
  \<open>uint64ToString\<close>: the digits least significant first, then reversed in place. The buffer is the
  caller's; with base 0 the division faults and with base 1 the loop writes until it leaves the buffer.
\<close>

partial_function (option) digits_loop :: "u64 \<Rightarrow> u64 \<Rightarrow> nat \<Rightarrow> nat \<Rightarrow> string \<Rightarrow> (nat \<times> string) option" where
  "digits_loop v base a p buffer =
     (if v = 0 then Some (p, buffer)
      else if base = 0 then None
      else do { buffer \<leftarrow> aset buffer p (digit_char a (unat (v mod base)));
                digits_loop (v div base) base a (Suc p) buffer })"

definition uint64ToString :: "u64 \<Rightarrow> string \<Rightarrow> u32 \<Rightarrow> string option" where
  "uint64ToString value buffer base =
     (if value = 0 then do { buffer \<leftarrow> aset buffer 0 (CHR ''0''); aset buffer 1 nul }
      else do {
        (p, buffer) \<leftarrow> digits_loop value (scast base) 97 0 buffer;
        buffer \<leftarrow> aset buffer p nul;
        swap_loop 0 (p - 1) buffer
      })"

definition strlenght :: "char list \<Rightarrow> u32 option" where
  "strlenght str = map_option ucast (strLen str)"

lemma digits_loop_lsd:
  assumes "2 \<le> b"
  shows "digits_loop v b a p xs = lsd_fill (unat b) a (unat v) p xs"
proof (induction "unat v" arbitrary: v p xs rule: less_induct)
  case less
  have b: "2 \<le> unat b" "b \<noteq> 0" using assms by (auto simp: word_le_nat_alt)
  show ?case
  proof (cases "v = 0")
    case True
    then show ?thesis by (subst digits_loop.simps, subst lsd_fill.simps) simp
  next
    case False
    then have "unat (v div b) < unat v" using b by (simp add: unat_div unat_gt_0)
    from less [OF this] have "digits_loop (v div b) b a (Suc p) = lsd_fill (unat b) a (unat v div unat b) (Suc p)"
      by (simp add: fun_eq_iff unat_div)
    then show ?thesis using False b
      by (subst digits_loop.simps, subst lsd_fill.simps)
        (simp add: unat_div unat_mod unat_eq_0)
  qed
qed

lemma uint64ToString_render:
  assumes "2 \<le> base" and "base \<le> 36" and "length (render (unat base) 97 (unat v)) < length buffer"
  shows "uint64ToString v buffer base =
           Some (render (unat base) 97 (unat v) @ nul # drop (Suc (length (render (unat base) 97 (unat v)))) buffer)"
proof (cases "v = 0")
  case True
  from assms(3) obtain x y zs where "buffer = x # y # zs"
    by (cases buffer; cases "tl buffer") (auto simp: True render_zero)
  then show ?thesis by (simp add: True uint64ToString_def render_zero aset_def)
next
  case False
  have "unat base \<le> 36" "2 \<le> unat base" using assms by (auto simp: word_le_nat_alt)
  then have sb: "unat (scast base :: u64) = unat base" and le: "2 \<le> (scast base :: u64)"
    using unat_scast [of base] by (auto simp: word_le_nat_alt)
  let ?r = "render (unat base) 97 (unat v)"
  have "2 \<le> unat base" "unat v \<noteq> 0" using assms False by (auto simp: word_le_nat_alt unat_eq_0)
  from lsd_reverse [OF this assms(3), of nul] obtain ys where
    "lsd_fill (unat base) 97 (unat v) 0 buffer = Some (length ?r, ys)" "length ys = length buffer"
    "swap_loop 0 (length ?r - 1) (ys[length ?r := nul]) = Some (?r @ nul # drop (Suc (length ?r)) buffer)"
    by blast
  with False show ?thesis using assms(3)
    by (simp add: uint64ToString_def digits_loop_lsd [OF le] sb aset_def)
qed

section \<open>The console\<close>

text \<open>
  \<open>naiveConsole.c\<close> writes characters straight into the video memory at \<open>0xB8000\<close>; the cursor only
  moves forward and is not kept inside the screen. The static buffer of the number printers has 64
  bytes.
\<close>

record console =
  vmem :: memory
  currentVideo :: ptr
  ncbuffer :: string

abbreviation video :: ptr where "video \<equiv> 0xB8000"
abbreviation nc_width :: u32 where "nc_width \<equiv> 80"
abbreviation nc_height :: u32 where "nc_height \<equiv> 25"

definition ncPrintChar :: "char \<Rightarrow> console \<Rightarrow> console" where
  "ncPrintChar character c =
     c\<lparr>vmem := (vmem c)(currentVideo c := of_nat (of_char character)), currentVideo := currentVideo c + 2\<rparr>"

text \<open>The string is a block of memory; printing runs up to its terminator.\<close>

fun ncPrint :: "char list \<Rightarrow> console \<Rightarrow> console option" where
  "ncPrint [] c = None"
| "ncPrint (x # xs) c = (if x = nul then Some c else ncPrint xs (ncPrintChar x c))"

partial_function (option) ncNewline :: "console \<Rightarrow> console option" where
  "ncNewline c =
     (let c = ncPrintChar (CHR '' '') c
      in if (currentVideo c - video) mod (ucast (nc_width * 2)) \<noteq> 0 then ncNewline c else Some c)"

definition uintToBase :: "u64 \<Rightarrow> string \<Rightarrow> u32 \<Rightarrow> (u32 \<times> string) option" where
  "uintToBase value buf base =
     (if base = 0 then None
      else do {
        buf \<leftarrow> aset buf 0 (digit_char 65 (unat (value mod ucast base)));
        (p, buf) \<leftarrow> digits_loop (value div ucast base) (ucast base) 65 1 buf;
        buf \<leftarrow> aset buf p nul;
        buf \<leftarrow> swap_loop 0 (p - 1) buf;
        Some (of_nat p, buf)
      })"

definition ncPrintBase :: "u64 \<Rightarrow> u32 \<Rightarrow> console \<Rightarrow> console option" where
  "ncPrintBase value base c =
     do { (_, buf) \<leftarrow> uintToBase value (ncbuffer c) base; ncPrint buf (c\<lparr>ncbuffer := buf\<rparr>) }"

definition ncPrintDec :: "u64 \<Rightarrow> console \<Rightarrow> console option" where
  "ncPrintDec value c = ncPrintBase value 10 c"

definition ncPrintHex :: "u64 \<Rightarrow> console \<Rightarrow> console option" where
  "ncPrintHex value c = ncPrintBase value 16 c"

definition ncPrintBin :: "u64 \<Rightarrow> console \<Rightarrow> console option" where
  "ncPrintBin value c = ncPrintBase value 2 c"

fun ncClear_loop :: "nat \<Rightarrow> nat \<Rightarrow> memory \<Rightarrow> memory" where
  "ncClear_loop 0 i m = m"
| "ncClear_loop (Suc n) i m = ncClear_loop n (Suc i) (m(video + of_nat (i * 2) := 32))"

definition ncClear :: "console \<Rightarrow> console" where
  "ncClear c = c\<lparr>vmem := ncClear_loop (unat (nc_height * nc_width)) 0 (vmem c), currentVideo := video\<rparr>"

text \<open>The cells of a printed text.\<close>

fun printed :: "ptr \<Rightarrow> string \<Rightarrow> memory \<Rightarrow> memory" where
  "printed a [] m = m"
| "printed a (x # xs) m = printed (a + 2) xs (m(a := of_nat (of_char x)))"

lemma ncPrint_printed:
  assumes "nul \<notin> set s"
  shows "ncPrint (s @ nul # t) c =
           Some (c\<lparr>vmem := printed (currentVideo c) s (vmem c), currentVideo := currentVideo c + 2 * of_nat (length s)\<rparr>)"
  using assms by (induction s arbitrary: c) (auto simp: ncPrintChar_def algebra_simps)

lemma digit_char_not_nul: "n < 36 \<Longrightarrow> a = 65 \<or> a = 97 \<Longrightarrow> digit_char a n \<noteq> nul"
proof -
  assume "n < 36" "a = 65 \<or> a = 97"
  then have "of_char (digit_char a n) \<noteq> (0 :: nat)" by (auto simp: digit_char_def)
  then show ?thesis by auto
qed

lemma render_no_nul: "2 \<le> b \<Longrightarrow> b \<le> 36 \<Longrightarrow> a = 65 \<or> a = 97 \<Longrightarrow> nul \<notin> set (render b a n)"
proof (induction n rule: less_induct)
  case (less n)
  show ?case
  proof (cases "n < b")
    case True
    with less.prems digit_char_not_nul [of n a] show ?thesis by (subst render.simps) auto
  next
    case False
    have "n div b < n" "n mod b < b" using False less.prems by simp_all
    with less digit_char_not_nul [of "n mod b" a] False show ?thesis by (subst render.simps) auto
  qed
qed

text \<open>\<open>uintToBase\<close> writes the numeral and its terminator, as long as both fit the buffer.\<close>

lemma uintToBase_render:
  assumes "2 \<le> base" and "base \<le> 36" and "length buf = 64"
  shows "uintToBase v buf base =
           (let r = render (unat base) 65 (unat v)
            in if length r < 64 then Some (of_nat (length r), r @ nul # drop (Suc (length r)) buf) else None)"
proof -
  let ?r = "render (unat base) 65 (unat v)" and ?b = "ucast base :: u64"
  have ub: "unat ?b = unat base" by (rule unat_ucast32)
  have b2: "2 \<le> unat base" "base \<noteq> 0" "2 \<le> ?b" using assms(1) by (auto simp: word_le_nat_alt ub)
  have "unat v < 2 ^ 64" using unat_less [of v] by simp
  also have "(2::nat) ^ 64 \<le> unat base ^ 64" using b2(1) by (rule power_mono) simp
  finally have r64: "length ?r \<le> 64" by (intro render_length b2(1)) simp_all
  show ?thesis
  proof (cases "v = 0")
    case True
    from assms(3) obtain x y zs where "buf = x # y # zs" by (cases buf; cases "tl buf") auto
    then show ?thesis using b2
      by (simp add: True uintToBase_def render_zero aset_def digits_loop.simps swap_loop.simps
          digit_char_def char_of_def bit_0 bit_numeral_rec)
  next
    case False
    then have v: "unat v \<noteq> 0" by (simp add: unat_eq_0)
    have d: "digits_of (unat base) 65 (unat v) = ?r" using v by (simp add: digits_of_def)
    have "digits_loop (v div ?b) ?b 65 1 = lsd_fill (unat base) 65 (unat v div unat base) 1"
      by (simp add: fun_eq_iff digits_loop_lsd [OF b2(3)] ub unat_div)
    then have "lsd_fill (unat base) 65 (unat v) 0 buf =
        do { buf \<leftarrow> aset buf 0 (digit_char 65 (unat (v mod ?b))); digits_loop (v div ?b) ?b 65 1 buf }"
      using v b2(1) by (subst lsd_fill.simps) (simp add: ub unat_mod)
    then have u: "uintToBase v buf base =
        do { (p, buf) \<leftarrow> lsd_fill (unat base) 65 (unat v) 0 buf; buf \<leftarrow> aset buf p nul;
             buf \<leftarrow> swap_loop 0 (p - 1) buf; Some (of_nat p, buf) }"
      using b2 by (simp add: uintToBase_def)
    show ?thesis
    proof (cases "length ?r < 64")
      case True
      then have "length ?r < length buf" using assms(3) by simp
      from lsd_reverse [OF b2(1) v this, of nul] obtain ys where
        "lsd_fill (unat base) 65 (unat v) 0 buf = Some (length ?r, ys)" "length ys = length buf"
        "swap_loop 0 (length ?r - 1) (ys[length ?r := nul]) = Some (?r @ nul # drop (Suc (length ?r)) buf)"
        by blast
      then show ?thesis using True assms(3) by (simp add: u aset_def Let_def)
    next
      case False
      then have "length ?r = 64" using r64 by simp
      with lsd_fill_digits [OF b2(1), of 65 "unat v" buf "[]"] assms(3)
      have "lsd_fill (unat base) 65 (unat v) 0 buf = Some (64, rev ?r)" by (simp add: d)
      then show ?thesis using False \<open>length ?r = 64\<close> by (simp add: u aset_def Let_def)
    qed
  qed
qed

section \<open>Properties\<close>

text \<open>\<open>memset\<close> writes the byte exactly on its range. \<open>memcpy\<close>, whether it goes by words or by bytes,
  makes its destination a copy of the source when the two do not overlap, and changes nothing else.\<close>

theorem blocks_set_and_copied:
  assumes "\<forall>i<unat len. \<forall>j<unat len. d + of_nat i \<noteq> s + of_nat j"
  shows "memset d c len m a = (if unat (a - d) < unat len then ucast c else m a) \<and>
         memcpy d s len m a = (if unat (a - d) < unat len then m (s + (a - d)) else m a)"
proof
  have "unat len \<le> 2 ^ 64" using unat_less [of len] by simp
  then show "memset d c len m a = (if unat (a - d) < unat len then ucast c else m a)"
    by (simp add: memset_def memset_loop_eq)
  show "memcpy d s len m a = (if unat (a - d) < unat len then m (s + (a - d)) else m a)"
    by (rule memcpy_eq) (use assms in blast)
qed

theorem blocks_set_and_copied_witness:
  "memcpy 0x2000 0x1000 8 (\<lambda>a. ucast a) 0x2005 = 5 \<and> memcpy 0x2000 0x1000 8 (\<lambda>a. ucast a) 0x2009 = 9"
proof -
  have "(0x2000 :: u64) + of_nat i \<noteq> 0x1000 + of_nat j" if "i < 8" "j < 8" for i j :: nat
  proof
    assume "(0x2000 :: u64) + of_nat i = 0x1000 + of_nat j"
    then have "unat ((0x2000 :: u64) + of_nat i) = unat ((0x1000 :: u64) + of_nat j)" by (rule arg_cong)
    then show False using that by (simp add: unat_word_ariths unat_of_nat_small)
  qed
  then show ?thesis
    using blocks_set_and_copied [of 8 "0x2000" "0x1000" 0 "\<lambda>a. ucast a" "0x2005"]
      blocks_set_and_copied [of 8 "0x2000" "0x1000" 0 "\<lambda>a. ucast a" "0x2009"] by simp
qed

text \<open>\<open>ncPrintBase\<close> prints the numeral at the cursor and advances it by one cell per digit, unless the
  numeral has 64 digits: then the terminator is written past the end of the static buffer. In binary
  that happens for every number from \<open>2 ^ 63\<close> on; decimal and hexadecimal numerals always fit.\<close>

theorem console_numbers:
  assumes "length (ncbuffer c) = 64"
  shows "(ncPrintBin v c = None \<longleftrightarrow> 2 ^ 63 \<le> unat v) \<and> ncPrintDec v c \<noteq> None \<and> ncPrintHex v c \<noteq> None \<and>
         (\<forall>b c'. ncPrintBase v b c = Some c' \<longrightarrow> 2 \<le> b \<longrightarrow> b \<le> 16 \<longrightarrow>
            (\<exists>s. number (unat b) 65 s = unat v \<and> vmem c' = printed (currentVideo c) s (vmem c) \<and>
                 currentVideo c' = currentVideo c + 2 * of_nat (length s)))"
proof (intro conjI allI impI)
  have pr: "ncPrintBase v b c =
      (let r = render (unat b) 65 (unat v) in if length r < 64
         then Some (c\<lparr>ncbuffer := r @ nul # drop (Suc (length r)) (ncbuffer c),
                      vmem := printed (currentVideo c) r (vmem c),
                      currentVideo := currentVideo c + 2 * of_nat (length r)\<rparr>)
         else None)" if "2 \<le> b" "b \<le> 16" for b
  proof -
    have "b \<le> 36" using that(2) by (rule order_trans) simp
    moreover have "2 \<le> unat b" "unat b \<le> 36" using that by (auto simp: word_le_nat_alt)
    then have "nul \<notin> set (render (unat b) 65 (unat v))" by (intro render_no_nul) auto
    ultimately show ?thesis using uintToBase_render [OF that(1) _ assms]
      by (simp add: ncPrintBase_def Let_def ncPrint_printed)
  qed
  have lt: "unat v < 2 ^ 64" using unat_less [of v] by simp
  have lf: "length (render b 65 (unat v)) < 64" if "10 \<le> b" for b
  proof -
    have "unat v < 10 ^ 63" using lt by simp
    also have "(10::nat) ^ 63 \<le> b ^ 63" using that by (rule power_mono) simp
    finally have "length (render b 65 (unat v)) \<le> 63" using that by (intro render_length) simp_all
    then show ?thesis by simp
  qed
  show "ncPrintBin v c = None \<longleftrightarrow> 2 ^ 63 \<le> unat v"
    using render_length_iff [of 2 63 65 "unat v"] by (simp add: ncPrintBin_def pr Let_def) linarith
  show "ncPrintDec v c \<noteq> None" "ncPrintHex v c \<noteq> None"
    using lf [of 10] lf [of 16] by (simp_all add: ncPrintDec_def ncPrintHex_def pr Let_def)
  fix b c' assume b: "ncPrintBase v b c = Some c'" "2 \<le> b" "b \<le> 16"
  then have "2 \<le> unat b" "unat b \<le> 16" by (auto simp: word_le_nat_alt)
  with b show "\<exists>s. number (unat b) 65 s = unat v \<and> vmem c' = printed (currentVideo c) s (vmem c) \<and>
               currentVideo c' = currentVideo c + 2 * of_nat (length s)"
    by (intro exI [of _ "render (unat b) 65 (unat v)"])
      (auto simp: pr Let_def number_render split: if_splits)
qed

theorem console_numbers_witness:
  "ncPrintBin (2 ^ 63) \<lparr>vmem = \<lambda>_. 0, currentVideo = video, ncbuffer = replicate 64 nul\<rparr> = None \<and>
   ncPrintDec (2 ^ 63) \<lparr>vmem = \<lambda>_. 0, currentVideo = video, ncbuffer = replicate 64 nul\<rparr> \<noteq> None"
proof -
  have "length (ncbuffer \<lparr>vmem = \<lambda>_. 0, currentVideo = video, ncbuffer = replicate 64 nul\<rparr>) = 64" by simp
  from console_numbers [OF this, of "2 ^ 63"] show ?thesis by simp
qed

end
