(* ===== verification/Semaphore.thy ===== *)
theory Semaphore
  imports SchedTheorems LibC
begin

text \<open>
  \<open>Kernel/semaphore/semaphore.c\<close> and the spin lock of \<open>arch/x86_64/asm/sync.asm\<close>. The state of the
  kernel together with the list of semaphores and their contents is the record \<open>system\<close>. A semaphore's
  name is the block that \<open>strDup\<close> returned, or \<open>None\<close> when it returned the null pointer. The kernel runs
  with interrupts disabled on one processor, so spinning on a taken lock never ends: a fault.
\<close>

section \<open>State\<close>

record semaphore =
  semName :: "(ptr \<times> char list) option"
  semValue :: u32
  lock :: u64
  waitingProcesses :: queue
  linkedProcesses :: dlist
  pendingDestruction :: bool

definition sizeof_semaphore :: u64 where "sizeof_semaphore = 48"

record system =
  kern :: kernel
  semaphoreList :: dlist
  sems :: "ptr \<Rightarrow> semaphore option"

definition sem_at :: "ptr \<Rightarrow> system \<Rightarrow> semaphore option" where
  "sem_at s S = (if s = NULL then None else sems S s)"

definition upd_sem :: "ptr \<Rightarrow> (semaphore \<Rightarrow> semaphore) \<Rightarrow> system \<Rightarrow> system option" where
  "upd_sem s f S = do { sem \<leftarrow> sem_at s S; Some (S\<lparr>sems := (sems S)(s \<mapsto> f sem)\<rparr>) }"

text \<open>Running a function of the kernel inside the system.\<close>

definition in_kern :: "(kernel \<Rightarrow> kernel option) \<Rightarrow> system \<Rightarrow> system option" where
  "in_kern f S = do { k \<leftarrow> f (kern S); Some (S\<lparr>kern := k\<rparr>) }"

abbreviation with_mem :: "system \<Rightarrow> pmem \<Rightarrow> system" where
  "with_mem S m \<equiv> S\<lparr>kern := (kern S)\<lparr>kmem := m\<rparr>\<rparr>"

section \<open>The spin lock\<close>

definition acquire :: "ptr \<Rightarrow> system \<Rightarrow> system option" where
  "acquire s S =
     do { sem \<leftarrow> sem_at s S; if lock sem = 0 then upd_sem s (\<lambda>sem. sem\<lparr>lock := 1\<rparr>) S else None }"

text \<open>The previous value of the lock is returned; it is taken when that is 0.\<close>

definition try_acquire :: "ptr \<Rightarrow> system \<Rightarrow> (u64 \<times> system) option" where
  "try_acquire s S =
     do { sem \<leftarrow> sem_at s S;
          if lock sem = 0 then do { S \<leftarrow> upd_sem s (\<lambda>sem. sem\<lparr>lock := 1\<rparr>) S; Some (0, S) }
          else Some (lock sem, S) }"

definition release :: "ptr \<Rightarrow> system \<Rightarrow> system option" where
  "release s S = upd_sem s (\<lambda>sem. sem\<lparr>lock := 0\<rparr>) S"

section \<open>Names\<close>

text \<open>The loop of \<open>matchSemName\<close> over two strings in memory.\<close>

fun match_name :: "char list \<Rightarrow> char list \<Rightarrow> bool option" where
  "match_name (a # as) (b # bs) =
     (if a \<noteq> nul \<and> b \<noteq> nul then if a \<noteq> b then Some False else match_name as bs else Some (a = b))"
| "match_name _ _ = None"

definition matchSemName :: "system \<Rightarrow> char list \<Rightarrow> ptr \<Rightarrow> bool" where
  "matchSemName S name p =
     (case sems S p of
        Some sem \<Rightarrow> (case semName sem of Some (_, b) \<Rightarrow> match_name b name = Some True | None \<Rightarrow> False)
      | None \<Rightarrow> False)"

text \<open>Characters compare as the signed \<open>char\<close> of the target.\<close>

fun cmp_name :: "char list \<Rightarrow> char list \<Rightarrow> int option" where
  "cmp_name (a # as) (b # bs) =
     (if a \<noteq> nul \<and> b \<noteq> nul
      then if schar a < schar b then Some (-1) else if schar a > schar b then Some 1 else cmp_name as bs
      else if a = nul \<and> b \<noteq> nul then Some (-1)
      else if a \<noteq> nul \<and> b = nul then Some 1
      else Some 0)"
| "cmp_name _ _ = None"

definition cmpSem :: "system \<Rightarrow> ptr \<Rightarrow> ptr \<Rightarrow> int" where
  "cmpSem S a b =
     (case (map_option semName (sems S a), map_option semName (sems S b)) of
        (Some (Some (_, x)), Some (Some (_, y))) \<Rightarrow> (case cmp_name x y of Some r \<Rightarrow> r | None \<Rightarrow> 0)
      | _ \<Rightarrow> 0)"

text \<open>
  Walking over a semaphore whose name is the null pointer faults; the search visits the elements in
  front of the first match.
\<close>

definition nameless :: "system \<Rightarrow> ptr \<Rightarrow> bool" where
  "nameless S p \<longleftrightarrow> (case sems S p of Some sem \<Rightarrow> semName sem = None | None \<Rightarrow> True)"

definition getSem :: "char list option \<Rightarrow> system \<Rightarrow> ptr option" where
  "getSem name S =
     (case name of
        None \<Rightarrow> Some NULL
      | Some n \<Rightarrow>
          if semaphoreList S = None then Some NULL
          else if \<exists>p\<in>set (takeWhile (\<lambda>p. \<not> matchSemName S n p) (items (semaphoreList S))). nameless S p
          then None
          else Some (l_find (matchSemName S n) (semaphoreList S)))"

section \<open>Opening and closing\<close>

definition semaphoresInit :: "system \<Rightarrow> system" where
  "semaphoresInit S = (let (l, m) = l_new mem_alloc (kmem (kern S)) in (with_mem S m)\<lparr>semaphoreList := l\<rparr>)"

text \<open>The result of \<open>mem_alloc\<close> is used unchecked; the other fields get their values from \<open>semOpen\<close>.\<close>

definition createSem :: "system \<Rightarrow> (ptr \<times> system) option" where
  "createSem S =
     (let (m, a) = mem_alloc (kmem (kern S)) sizeof_semaphore
      in if a = NULL then None
         else let (q, m) = q_new mem_alloc m; (l, m) = l_new mem_alloc m;
                  sem = \<lparr>semName = None, semValue = 0, lock = 0, waitingProcesses = q,
                         linkedProcesses = l, pendingDestruction = False\<rparr>;
                  S = (with_mem S m)\<lparr>sems := (sems S)(a \<mapsto> sem)\<rparr>
              in if l = None \<or> q = None then Some (NULL, S) else Some (a, S))"

text \<open>
  When no memory is left for its name, the new semaphore is compared with the others by a null name, a null dereference; in
  an empty list it is not compared.
\<close>

definition semOpen :: "char list option \<Rightarrow> u32 \<Rightarrow> system \<Rightarrow> (ptr \<times> system) option" where
  "semOpen name v S =
     (if semaphoreList S = None \<or> name = None then Some (NULL, S)
      else do {
        s \<leftarrow> getSem name S;
        if s \<noteq> NULL
        then do { sem \<leftarrow> sem_at s S; Some (if \<not> pendingDestruction sem then s else NULL, S) }
        else do {
          (s, S) \<leftarrow> createSem S;
          if s = NULL then Some (NULL, S)
          else do {
            S \<leftarrow> upd_sem s (\<lambda>sem. sem\<lparr>semValue := v\<rparr>) S;
            ((d, b), m) \<leftarrow> strDup name (replicate (length (the name)) nul) (kmem (kern S));
            S \<leftarrow> upd_sem s (\<lambda>sem. sem\<lparr>semName := if d = NULL then None else Some (d, b), lock := 0,
                                         pendingDestruction := False\<rparr>) (with_mem S m);
            _ \<leftarrow> (if d = NULL \<and> items (semaphoreList S) \<noteq> [] then None else Some ());
            let (l, m) = l_add_sorted mem_alloc (cmpSem S) (semaphoreList S) s (kmem (kern S));
            let S = (with_mem S m)\<lparr>semaphoreList := l\<rparr>;
            i \<leftarrow> getPid (kern S);
            sem \<leftarrow> sem_at s S;
            let (l, m) = l_add mem_alloc (linkedProcesses sem) i (kmem (kern S));
            S \<leftarrow> upd_sem s (\<lambda>sem. sem\<lparr>linkedProcesses := l\<rparr>) (with_mem S m);
            Some (s, S)
          }
        }
      })"

definition semClose :: "ptr \<Rightarrow> system \<Rightarrow> system option" where
  "semClose s S =
     do {
       sem \<leftarrow> sem_at s S;
       i \<leftarrow> getPid (kern S);
       (l, m) \<leftarrow> l_remove mem_free (matchPidInList i) (linkedProcesses sem) (kmem (kern S));
       upd_sem s (\<lambda>sem. sem\<lparr>linkedProcesses := l\<rparr>) (with_mem S m)
     }"

definition sem_unlink :: "char list option \<Rightarrow> system \<Rightarrow> (int \<times> system) option" where
  "sem_unlink name S =
     do {
       s \<leftarrow> getSem name S;
       if s = NULL then Some (-1, S)
       else do {
         (l, m) \<leftarrow> l_remove mem_free (matchSemName S (the name)) (semaphoreList S) (kmem (kern S));
         S \<leftarrow> upd_sem s (\<lambda>sem. sem\<lparr>pendingDestruction := True\<rparr>) ((with_mem S m)\<lparr>semaphoreList := l\<rparr>);
         Some (0, S)
       }
     }"

section \<open>Waiting and posting\<close>

text \<open>The last part of \<open>semPost\<close>: a semaphore nobody uses any more is freed.\<close>

definition sem_reap :: "ptr \<Rightarrow> system \<Rightarrow> system option" where
  "sem_reap s S =
     do {
       sem \<leftarrow> sem_at s S;
       e \<leftarrow> l_empty (linkedProcesses sem);
       if e \<and> q_empty (waitingProcesses sem) \<and> pendingDestruction sem
       then do {
         m \<leftarrow> free_chain mem_free (waitingProcesses sem) (kmem (kern S));
         m \<leftarrow> l_free mem_free (linkedProcesses sem) m;
         m \<leftarrow> mem_free m s;
         Some (with_mem S m)
       }
       else Some S
     }"

definition semPost :: "ptr \<Rightarrow> system \<Rightarrow> system option" where
  "semPost s S =
     do {
       S \<leftarrow> acquire s S;
       S \<leftarrow> upd_sem s (\<lambda>sem. sem\<lparr>semValue := semValue sem + 1\<rparr>) S;
       sem \<leftarrow> sem_at s S;
       S \<leftarrow> (if semValue sem \<le>s 0
            then do {
              (i, q, m) \<leftarrow> q_deq mem_free (waitingProcesses sem) (kmem (kern S));
              S \<leftarrow> upd_sem s (\<lambda>sem. sem\<lparr>waitingProcesses := q\<rparr>) (with_mem S m);
              in_kern (unblockProcess i) S
            }
            else Some S);
       S \<leftarrow> release s S;
       sem_reap s S
     }"

definition semWait :: "ptr \<Rightarrow> ptr \<Rightarrow> system \<Rightarrow> (unit ctl \<times> system) option" where
  "semWait sp s S =
     do {
       i \<leftarrow> getPid (kern S);
       S \<leftarrow> acquire s S;
       S \<leftarrow> upd_sem s (\<lambda>sem. sem\<lparr>semValue := semValue sem - 1\<rparr>) S;
       sem \<leftarrow> sem_at s S;
       if semValue sem <s 0
       then do {
         (q, m) \<leftarrow> q_enq mem_alloc (waitingProcesses sem) i (kmem (kern S));
         S \<leftarrow> upd_sem s (\<lambda>sem. sem\<lparr>waitingProcesses := q\<rparr>) (with_mem S m);
         S \<leftarrow> in_kern (addProcessToBlockQueue i) S;
         S \<leftarrow> release s S;
         (r, k) \<leftarrow> yield_cpu sp (kern S);
         Some (r, S\<lparr>kern := k\<rparr>)
       }
       else do { S \<leftarrow> release s S; Some (Ret (), S) }
     }"

definition semTryWait :: "ptr \<Rightarrow> system \<Rightarrow> (int \<times> system) option" where
  "semTryWait s S =
     do {
       (taken, S) \<leftarrow> try_acquire s S;
       if taken \<noteq> 0 then Some (-1, S)
       else do {
         S \<leftarrow> upd_sem s (\<lambda>sem. sem\<lparr>semValue := semValue sem - 1\<rparr>) S;
         sem \<leftarrow> sem_at s S;
         if semValue sem <s 0
         then do {
           S \<leftarrow> upd_sem s (\<lambda>sem. sem\<lparr>semValue := semValue sem + 1\<rparr>) S;
           S \<leftarrow> release s S;
           Some (-1, S)
         }
         else do { S \<leftarrow> release s S; Some (0, S) }
       }
     }"

text \<open>\<open>has_out\<close> tells whether the caller passed a place for the value; the value is the second component.\<close>

definition semGetValue :: "ptr \<Rightarrow> bool \<Rightarrow> system \<Rightarrow> (int \<times> int option \<times> system) option" where
  "semGetValue s has_out S =
     (if s = NULL \<or> \<not> has_out then Some (-1, None, S)
      else do {
        S \<leftarrow> acquire s S;
        sem \<leftarrow> sem_at s S;
        let v = (if q_empty (waitingProcesses sem) then sint (semValue sem) else - q_len (waitingProcesses sem));
        S \<leftarrow> release s S;
        Some (0, Some v, S)
      })"

section \<open>Invariant\<close>

text \<open>
  A semaphore at rest: the lock is free; the value counts the waiting processes when it is negative,
  and nobody waits otherwise; every waiting process is blocked, is not the idle process, and waits once.
\<close>

definition waiting :: "system \<Rightarrow> ptr \<Rightarrow> u64 list" where
  "waiting S s = (case sems S s of Some sem \<Rightarrow> items (waitingProcesses sem) | None \<Rightarrow> [])"

definition val :: "system \<Rightarrow> ptr \<Rightarrow> int" where
  "val S s = (case sems S s of Some sem \<Rightarrow> sint (semValue sem) | None \<Rightarrow> 0)"

definition blocked_pids :: "kernel \<Rightarrow> u64 set" where
  "blocked_pids k = (\<lambda>p. pid (pr_of k p)) ` in_state k BLOCKED"

definition sem_inv :: "system \<Rightarrow> ptr \<Rightarrow> bool" where
  "sem_inv S s \<longleftrightarrow>
     s \<noteq> NULL \<and>
     (\<exists>sem. sems S s = Some sem \<and> lock sem = 0 \<and> waitingProcesses sem \<noteq> None \<and> linkedProcesses sem \<noteq> None) \<and>
     int (length (waiting S s)) = max 0 (- val S s) \<and>
     distinct (waiting S s) \<and> 0 \<notin> set (waiting S s) \<and> set (waiting S s) \<subseteq> blocked_pids (kern S)"

text \<open>The blocks of the waiting queue are the semaphore's; \<open>R\<close> is everything else outside the scheduler.\<close>

definition sem_mem :: "ptr multiset \<Rightarrow> system \<Rightarrow> ptr \<Rightarrow> bool" where
  "sem_mem R S s \<longleftrightarrow>
     (\<exists>sem. sems S s = Some sem \<and> mem_ok (R + mset (blocks (waitingProcesses sem))) (kern S))"

lemma sem_invE:
  assumes "sem_inv S s"
  obtains sem where "s \<noteq> NULL" "sems S s = Some sem" "lock sem = 0" "waitingProcesses sem \<noteq> None"
    "linkedProcesses sem \<noteq> None" "val S s = sint (semValue sem)" "waiting S s = items (waitingProcesses sem)"
  using assms by (auto simp: sem_inv_def val_def waiting_def)

text \<open>Queue operations on the memory of the kernel.\<close>

lemma mem_ok_enq:
  assumes "mem_ok (R + mset (blocks q)) k" and "0 < pages_left k" and "q \<noteq> None" and "x \<noteq> NULL"
  shows "\<exists>q' m. q_enq mem_alloc q x (kmem k) = Some (q', m) \<and> items q' = items q @ [x] \<and> q' \<noteq> None \<and>
           mem_ok (R + mset (blocks q')) (k\<lparr>kmem := m\<rparr>) \<and> pages_left k \<le> unat (free_pages m) + 1"
proof -
  have own: "bm.owns ((R + owned k) + mset (blocks q)) (kmem k)"
    using assms(1) by (simp add: mem_ok_def ac_simps)
  from bm.q_enq_succeeds [OF bm.owns_inv [OF own] assms(2)] obtain q' m where
    e: "q_enq mem_alloc q x (kmem k) = Some (q', m)" "pages_left k \<le> unat (free_pages m) + 1" by blast
  have "bm.owns ((R + owned k) + mset (blocks q')) m" by (rule bm.owns_q_enq [OF own e(1)])
  then have "mem_ok (R + mset (blocks q')) (k\<lparr>kmem := m\<rparr>)"
    unfolding mem_ok_def by (simp add: owned_def ac_simps)
  with e q_enq_items [OF e(1)] assms(3,4) show ?thesis by auto
qed

lemma mem_ok_deq:
  assumes "mem_ok (R + mset (blocks q)) k" and "items q = x # xs"
  shows "\<exists>q' m. q_deq mem_free q (kmem k) = Some (x, q', m) \<and> items q' = xs \<and> q' \<noteq> None \<and>
           mem_ok (R + mset (blocks q')) (k\<lparr>kmem := m\<rparr>) \<and> pages_left k \<le> unat (free_pages m)"
proof -
  have own: "bm.owns ((R + owned k) + mset (blocks q)) (kmem k)"
    using assms(1) by (simp add: mem_ok_def ac_simps)
  from bm.owns_q_deq [OF own] assms(2) obtain q' m where
    e: "q_deq mem_free q (kmem k) = Some (x, q', m)" "bm.owns ((R + owned k) + mset (blocks q')) m"
      "items q' = xs" "q' = None \<longleftrightarrow> q = None" by force
  have "mem_ok (R + mset (blocks q')) (k\<lparr>kmem := m\<rparr>)"
    using e(2) unfolding mem_ok_def by (simp add: owned_def ac_simps)
  moreover have "q \<noteq> None" using assms(2) by (cases q) (auto simp: items_def)
  ultimately show ?thesis using e bm.q_deq_avail [OF own e(1)] by auto
qed

lemma kmem_sched_inv [simp]: "sched_inv (k\<lparr>kmem := m\<rparr>) = sched_inv k"
  by (simp add: sched_inv_core)

text \<open>The value of a counter one up and one down, within the range of \<open>int\<close>.\<close>

lemma sint_inc: "sint (v :: u32) < 2 ^ 31 - 1 \<Longrightarrow> sint (v + 1) = sint v + 1"
  using sint_greater_eq [of v] by (simp add: signed_take_bit_int_eq_self sint_word_ariths)

lemma sint_dec: "- (2 ^ 31) < sint (v :: u32) \<Longrightarrow> sint (v - 1) = sint v - 1"
  using sint_less [of v] by (simp add: signed_take_bit_int_eq_self sint_word_ariths)

lemma blocked_pidsE:
  assumes "i \<in> blocked_pids k"
  obtains p where "p \<in> in_state k BLOCKED" "pid (pr_of k p) = i"
  using assms by (auto simp: blocked_pids_def)

lemma getSem_cong:
  assumes "semaphoreList S' = semaphoreList S"
    and "\<And>p. map_option semName (sems S' p) = map_option semName (sems S p)"
  shows "getSem n S' = getSem n S"
proof -
  have "matchSemName S' m p = matchSemName S m p" for m p
    using assms(2) [of p] by (cases "sems S p"; cases "sems S' p") (auto simp: matchSemName_def)
  then have e: "matchSemName S' = matchSemName S" by (simp add: fun_eq_iff)
  have "nameless S' p = nameless S p" for p
    using assms(2) [of p] by (cases "sems S p"; cases "sems S' p") (auto simp: nameless_def)
  with e assms(1) show ?thesis by (auto simp: getSem_def split: option.splits)
qed

section \<open>Posting\<close>

text \<open>With nobody waiting, \<open>semPost\<close> counts up and leaves the scheduler alone.\<close>

lemma semPost_free:
  assumes i: "sem_inv S s" and w: "waiting S s = []" and v: "val S s < 2 ^ 31 - 1"
    and keep: "\<not> pendingDestruction (the (sems S s))"
  shows "\<exists>S'. semPost s S = Some S' \<and> sem_inv S' s \<and> kern S' = kern S \<and> val S' s = val S s + 1 \<and>
           waiting S' s = [] \<and> semaphoreList S' = semaphoreList S \<and>
           (\<forall>t. t \<noteq> s \<longrightarrow> sems S' t = sems S t) \<and> (\<forall>R. sem_mem R S s \<longrightarrow> sem_mem R S' s) \<and>
           pendingDestruction (the (sems S' s)) = pendingDestruction (the (sems S s)) \<and>
           (\<forall>n. getSem n S' = getSem n S)"
proof -
  from i obtain sem where sem: "s \<noteq> NULL" "sems S s = Some sem" "lock sem = 0"
    "waitingProcesses sem \<noteq> None" "linkedProcesses sem \<noteq> None" "val S s = sint (semValue sem)"
    "waiting S s = items (waitingProcesses sem)" by (rule sem_invE)
  have nn: "0 \<le> sint (semValue sem)" using i w sem(6) by (simp add: sem_inv_def max_def split: if_splits)
  have inc: "sint (semValue sem + 1) = sint (semValue sem) + 1" by (rule sint_inc) (use v sem(6) in simp)
  then have up: "\<not> semValue sem + 1 \<le>s 0" using nn by (simp add: word_sle_eq)
  let ?sem = "sem\<lparr>semValue := semValue sem + 1, lock := 0\<rparr>"
  let ?S = "S\<lparr>sems := (sems S)(s \<mapsto> ?sem)\<rparr>"
  have "semPost s S = Some ?S"
    using sem up keep
    by (auto simp: semPost_def acquire_def release_def upd_sem_def sem_at_def sem_reap_def l_empty_def Let_def
        split: option.splits)
  moreover have "waiting ?S s = []" "val ?S s = val S s + 1"
    using sem w inc by (simp_all add: waiting_def val_def)
  moreover from this have "sem_inv ?S s" using i sem nn unfolding sem_inv_def by (auto simp: waiting_def)
  moreover have "\<forall>R. sem_mem R S s \<longrightarrow> sem_mem R ?S s" using sem(2) by (simp add: sem_mem_def)
  moreover have "\<forall>n. getSem n ?S = getSem n S" by (intro allI getSem_cong) (use sem(2) in auto)
  ultimately show ?thesis using sem(2) by (intro exI [of _ ?S]) simp
qed

text \<open>Otherwise the first waiting process becomes ready, at the end of its queue.\<close>

lemma semPost_wakes:
  assumes i: "sem_inv S s" and w: "waiting S s = j # js"
    and inv: "sched_inv (kern S)" and m: "sem_mem R S s" and pg: "0 < pages_left (kern S)"
    and cur: "currentProcess (kern S) \<notin> in_state (kern S) BLOCKED"
    and keep: "\<not> pendingDestruction (the (sems S s))"
  shows "\<exists>S' p. semPost s S = Some S' \<and> sem_inv S' s \<and> sched_inv (kern S') \<and> sem_mem R S' s \<and>
           val S' s = val S s + 1 \<and> waiting S' s = js \<and>
           p \<in> in_state (kern S) BLOCKED \<and> pid (pr_of (kern S) p) = j \<and> st_of (kern S') p = READY \<and>
           ready (kern S') (level (kern S) p) = ready (kern S) (level (kern S) p) @ [p] \<and>
           currentProcess (kern S') = currentProcess (kern S) \<and>
           (\<forall>q. q \<noteq> p \<longrightarrow> pr_of (kern S') q = pr_of (kern S) q) \<and>
           pendingDestruction (the (sems S' s)) = pendingDestruction (the (sems S s)) \<and>
           (\<forall>n. getSem n S' = getSem n S) \<and> (\<forall>t. t \<noteq> s \<longrightarrow> sems S' t = sems S t) \<and>
           blocked_pids (kern S) - {j} \<subseteq> blocked_pids (kern S') \<and> table (kern S') = table (kern S)"
proof -
  let ?k = "kern S"
  from i obtain sem where sem: "s \<noteq> NULL" "sems S s = Some sem" "lock sem = 0"
    "waitingProcesses sem \<noteq> None" "linkedProcesses sem \<noteq> None" "val S s = sint (semValue sem)"
    "waiting S s = items (waitingProcesses sem)" by (rule sem_invE)
  have len: "int (length (j # js)) = - sint (semValue sem)" "distinct (j # js)" "0 \<notin> set (j # js)"
    "set (j # js) \<subseteq> blocked_pids ?k" using i unfolding sem_inv_def w sem(6) by (auto simp: max_def split: if_splits)
  have inc: "sint (semValue sem + 1) = sint (semValue sem) + 1" by (rule sint_inc) (use len in simp)
  then have up: "semValue sem + 1 \<le>s 0" using len by (simp add: word_sle_eq)
  have mm: "mem_ok (R + mset (blocks (waitingProcesses sem))) ?k" using m sem(2) by (simp add: sem_mem_def)
  from mem_ok_deq [OF mm, of j js] w sem(7) obtain q' m' where
    d: "q_deq mem_free (waitingProcesses sem) (kmem ?k) = Some (j, q', m')" "items q' = js" "q' \<noteq> None"
      "mem_ok (R + mset (blocks q')) (?k\<lparr>kmem := m'\<rparr>)" "pages_left ?k \<le> unat (free_pages m')" by auto
  let ?k1 = "?k\<lparr>kmem := m'\<rparr>"
  from len(4) obtain p where p: "p \<in> in_state ?k BLOCKED" "pid (pr_of ?k p) = j"
    by (auto elim: blocked_pidsE)
  have "sched_inv ?k1" "0 < pages_left ?k1" "p \<in> in_state ?k1 BLOCKED" "p \<noteq> currentProcess ?k1"
    using inv pg d(5) p cur by auto
  from unblockProcess_ok [OF this(1) d(4) this(2-4)] p(2) obtain k' where
    k': "unblockProcess j ?k1 = Some k'" "sched_inv k'" "mem_ok (R + mset (blocks q')) k'"
      "set (blocked k') = set (blocked ?k) - {p}" "st_of k' p = READY" "table k' = table ?k"
      "ready k' (level ?k p) = ready ?k (level ?k p) @ [p]" "currentProcess k' = currentProcess ?k"
      "\<forall>q. q \<noteq> p \<longrightarrow> pr_of k' q = pr_of ?k q" by auto
  let ?sem = "sem\<lparr>semValue := semValue sem + 1, waitingProcesses := q', lock := 0\<rparr>"
  let ?S = "S\<lparr>kern := k', sems := (sems S)(s \<mapsto> ?sem)\<rparr>"
  have post: "semPost s S = Some ?S"
    using sem up keep d(1) k'(1)
    by (auto simp: semPost_def acquire_def release_def upd_sem_def sem_at_def sem_reap_def l_empty_def Let_def
        in_kern_def split: option.splits)
  have wv: "waiting ?S s = js" "val ?S s = val S s + 1"
    using sem d(2) inc by (simp_all add: waiting_def val_def)
  have bk: "in_state k' BLOCKED = in_state ?k BLOCKED - {p}"
    using queue_okD(3) [OF sched_invD(2) [OF k'(2)]] queue_okD(3) [OF sched_invD(2) [OF inv]] k'(4) by auto
  have bp: "blocked_pids ?k - {j} \<subseteq> blocked_pids k'"
  proof
    fix x assume x: "x \<in> blocked_pids ?k - {j}"
    then obtain q where q: "q \<in> in_state ?k BLOCKED" "pid (pr_of ?k q) = x" by (auto elim: blocked_pidsE)
    then have "q \<noteq> p" using x p by auto
    then have "q \<in> in_state k' BLOCKED" "pid (pr_of k' q) = x" using q bk k'(9) by auto
    then show "x \<in> blocked_pids k'" by (auto simp: blocked_pids_def)
  qed
  then have "set js \<subseteq> blocked_pids k'" using len by auto
  then have "sem_inv ?S s"
    unfolding sem_inv_def wv using sem d(3) len by auto
  moreover have "\<forall>n. getSem n ?S = getSem n S" by (intro allI getSem_cong) (use sem(2) in auto)
  ultimately show ?thesis using post wv p k' sem(2) bp
    by (intro exI [of _ ?S] exI [of _ p]) (simp add: sem_mem_def)
qed

section \<open>Waiting\<close>

lemma semWait_free:
  assumes i: "sem_inv S s" and v: "0 < val S s" and c: "getPid (kern S) \<noteq> None"
  shows "\<exists>S'. semWait sp s S = Some (Ret (), S') \<and> sem_inv S' s \<and> kern S' = kern S \<and>
           val S' s = val S s - 1 \<and> waiting S' s = [] \<and> semaphoreList S' = semaphoreList S \<and>
           (\<forall>t. t \<noteq> s \<longrightarrow> sems S' t = sems S t) \<and> (\<forall>R. sem_mem R S s \<longrightarrow> sem_mem R S' s) \<and>
           pendingDestruction (the (sems S' s)) = pendingDestruction (the (sems S s)) \<and>
           (\<forall>n. getSem n S' = getSem n S)"
proof -
  from i obtain sem where sem: "s \<noteq> NULL" "sems S s = Some sem" "lock sem = 0"
    "waitingProcesses sem \<noteq> None" "linkedProcesses sem \<noteq> None" "val S s = sint (semValue sem)"
    "waiting S s = items (waitingProcesses sem)" by (rule sem_invE)
  have dec: "sint (semValue sem - 1) = sint (semValue sem) - 1" by (rule sint_dec) (use v sem(6) in simp)
  then have dn: "\<not> semValue sem - 1 <s 0" using v sem(6) by (simp add: word_sless_alt)
  have w: "waiting S s = []" using i v by (simp add: sem_inv_def max_def split: if_splits)
  let ?sem = "sem\<lparr>semValue := semValue sem - 1, lock := 0\<rparr>"
  let ?S = "S\<lparr>sems := (sems S)(s \<mapsto> ?sem)\<rparr>"
  have "semWait sp s S = Some (Ret (), ?S)"
    using sem dn c by (auto simp: semWait_def acquire_def release_def upd_sem_def sem_at_def)
  moreover have "waiting ?S s = []" "val ?S s = val S s - 1"
    using sem w dec by (simp_all add: waiting_def val_def)
  moreover from this have "sem_inv ?S s" using i sem v unfolding sem_inv_def by (auto simp: waiting_def)
  moreover have "\<forall>R. sem_mem R S s \<longrightarrow> sem_mem R ?S s" using sem(2) by (simp add: sem_mem_def)
  moreover have "\<forall>n. getSem n ?S = getSem n S" by (intro allI getSem_cong) (use sem(2) in auto)
  ultimately show ?thesis using sem(2) by (intro exI [of _ ?S]) simp
qed

text \<open>
  Giving up the processor as a blocked process: the rest of \<open>semWait\<close> after the process was put in the
  blocked queue.
\<close>

lemma yield_blocked:
  assumes inv: "sched_inv k" and m: "mem_ok R k" and pg: "0 < pages_left k"
    and c: "currentProcess k \<in> in_state k BLOCKED"
  shows "\<exists>sp' k'. yield_cpu sp k = Some (Switch sp', k') \<and> sched_inv k' \<and> mem_ok R k' \<and>
           table k' = table k \<and> in_state k' BLOCKED = in_state k BLOCKED \<and> same_pids k k' \<and>
           st_of k' (currentProcess k') = RUNNING \<and> currentProcess k' \<noteq> currentProcess k \<and>
           sp' = stack (pr_of k' (currentProcess k')) \<and> pages_left k \<le> pages_left k'"
proof -
  let ?c = "currentProcess k"
  have ct: "?c \<in> set (table k)" "st_of k ?c = BLOCKED" using c by (auto simp: in_state_def)
  note pc = table_okD(3) [OF sched_invD(1) [OF inv] ct(1)]
  let ?k1 = "k\<lparr>procs := (procs k)(?c \<mapsto> (pr_of k ?c)\<lparr>quantumLeft := 1\<rparr>)\<rparr>"
  note q = sched_inv_quiet [OF inv m ct(1), of "(pr_of k ?c)\<lparr>quantumLeft := 1\<rparr>"]
  have i1: "sched_inv ?k1" "mem_ok R ?k1" "in_state ?k1 = in_state k"
    using q by (simp_all add: proc_blocks_def)
  let ?k2 = "?k1\<lparr>ticks := ticks ?k1 + 1\<rparr>"
  have i2: "sched_inv ?k2" "mem_ok R ?k2" "0 < pages_left ?k2" using i1 pg by simp_all
  from schedule_inv [OF i2, of sp] obtain sp' k' where
    k': "schedule sp ?k2 = Some (sp', k')" "sched_inv k'" "mem_ok R k'" "table k' = table ?k2"
      "idleProcess k' = idleProcess ?k2" "blocked k' = blocked ?k2"
      "st_of k' (currentProcess k') = RUNNING" "sp' = stack (pr_of k' (currentProcess k'))" by blast
  have "\<not> on_cpu ?k2" using c i1(3) by (simp add: on_cpu_def in_state_def)
  from schedule_off_pages [OF i2(1,2) this k'(1)] have pgs: "pages_left k \<le> pages_left k'" by simp
  have bk: "in_state k' BLOCKED = in_state k BLOCKED"
    using queue_okD(3) [OF sched_invD(2) [OF k'(2)]] queue_okD(3) [OF sched_invD(2) [OF inv]] k'(6) by simp
  have "yield_cpu sp k = Some (Switch sp', k')"
    using pc k'(1) by (simp add: yield_cpu_def upd_pcb_def pcb_def timerInterrupt_def timer_handler_def)
  moreover have "same_pids k k'"
  proof -
    have "same_pids k ?k1" using pc by (simp add: same_pids_def)
    then have "same_pids k ?k2" by (simp add: same_pids_def)
    then show ?thesis using schedule_pids [OF k'(1)] unfolding same_pids_def by (metis (no_types, lifting))
  qed
  moreover have "currentProcess k' \<noteq> ?c"
  proof
    assume "currentProcess k' = ?c"
    with c bk have "currentProcess k' \<in> in_state k' BLOCKED" by simp
    with k'(7) show False by (simp add: in_state_def)
  qed
  ultimately show ?thesis using k' bk pgs by (intro exI [of _ sp'] exI [of _ k']) simp
qed

lemma addProcessToBlockQueue_pids: "addProcessToBlockQueue i k = Some k' \<Longrightarrow> same_pids k k'"
  by (auto simp: addProcessToBlockQueue_def RemoveFrom_ready_def Enqueue_blocked_def Let_def
      split: Option.bind_splits if_splits prod.splits dest!: upd_pcb_pids)
    (auto simp: same_pids_def)

lemma semWait_blocks:
  assumes i: "sem_inv S s" and v: "val S s \<le> 0" "- (2 ^ 31) < val S s"
    and inv: "sched_inv (kern S)" and m: "sem_mem R S s" and pg: "2 < pages_left (kern S)"
    and on: "on_cpu (kern S)" and nz: "pid (pr_of (kern S) (currentProcess (kern S))) \<noteq> 0"
  defines "c \<equiv> currentProcess (kern S)"
  shows "\<exists>sp' S'. semWait sp s S = Some (Switch sp', S') \<and> sem_inv S' s \<and> sched_inv (kern S') \<and> sem_mem R S' s \<and>
           val S' s = val S s - 1 \<and> waiting S' s = waiting S s @ [pid (pr_of (kern S) c)] \<and>
           c \<in> in_state (kern S') BLOCKED \<and> currentProcess (kern S') \<noteq> c \<and>
           st_of (kern S') (currentProcess (kern S')) = RUNNING \<and>
           pendingDestruction (the (sems S' s)) = pendingDestruction (the (sems S s)) \<and>
           pages_left (kern S) \<le> pages_left (kern S') + 2 \<and> (\<forall>n. getSem n S' = getSem n S) \<and>
           pid (pr_of (kern S') c) = pid (pr_of (kern S) c) \<and> (\<forall>t. t \<noteq> s \<longrightarrow> sems S' t = sems S t) \<and>
           blocked_pids (kern S) \<subseteq> blocked_pids (kern S')"
proof -
  let ?k = "kern S" and ?i = "pid (pr_of (kern S) c)"
  from i obtain sem where sem: "s \<noteq> NULL" "sems S s = Some sem" "lock sem = 0"
    "waitingProcesses sem \<noteq> None" "linkedProcesses sem \<noteq> None" "val S s = sint (semValue sem)"
    "waiting S s = items (waitingProcesses sem)" by (rule sem_invE)
  have ct: "c \<in> set (table ?k)" "st_of ?k c = RUNNING" "c \<in> in_state ?k RUNNING"
    using on by (auto simp: on_cpu_def in_state_def c_def)
  note pc = table_okD(3) [OF sched_invD(1) [OF inv] ct(1)]
  have gp: "getPid ?k = Some ?i" using pc by (simp add: getPid_def pcb_def c_def)
  have dec: "sint (semValue sem - 1) = sint (semValue sem) - 1" by (rule sint_dec) (use v sem(6) in simp)
  then have dn: "semValue sem - 1 <s 0" using v sem(6) by (simp add: word_sless_alt)
  have mm: "mem_ok (R + mset (blocks (waitingProcesses sem))) ?k" using m sem(2) by (simp add: sem_mem_def)
  have pg0: "0 < pages_left ?k" using pg by simp
  from mem_ok_enq [OF mm pg0 sem(4), of ?i] nz obtain q' m' where
    e: "q_enq mem_alloc (waitingProcesses sem) ?i (kmem ?k) = Some (q', m')"
      "items q' = waiting S s @ [?i]" "q' \<noteq> None" "mem_ok (R + mset (blocks q')) (?k\<lparr>kmem := m'\<rparr>)"
      "pages_left ?k \<le> unat (free_pages m') + 1" using sem(7) by (auto simp: c_def)
  let ?k1 = "?k\<lparr>kmem := m'\<rparr>"
  have k1: "sched_inv ?k1" "1 < pages_left ?k1" "c \<in> in_state ?k1 RUNNING" using inv pg e(5) ct by auto
  have "0 < pages_left ?k1" "currentProcess ?k1 = NULL \<or> currentProcess ?k1 \<in> set (table ?k1)"
    using k1(2) ct(1) by (simp_all add: c_def)
  from addProcessToBlockQueue_ok [OF k1(1) e(4) this(1) disjI2 [OF k1(3)] this(2)] obtain k2 where
    k2: "addProcessToBlockQueue ?i ?k1 = Some k2" "sched_inv k2" "mem_ok (R + mset (blocks q')) k2"
      "blocked k2 = blocked ?k @ [c]" "currentProcess k2 = c" "pages_left ?k1 \<le> pages_left k2 + 1"
      "\<forall>q. q \<noteq> c \<longrightarrow> pr_of k2 q = pr_of ?k q" "table k2 = table ?k" "st_of k2 c = BLOCKED"
    by (auto simp: c_def)
  note b0 = queue_okD(3) [OF sched_invD(2) [OF inv]] and b2 = queue_okD(3) [OF sched_invD(2) [OF k2(2)]]
  have bk2: "in_state k2 BLOCKED = insert c (in_state ?k BLOCKED)" using b0 b2 k2(4) by auto
  have "currentProcess k2 \<in> in_state k2 BLOCKED" "0 < pages_left k2" using bk2 k2 k1(2) by simp_all
  from yield_blocked [OF k2(2,3) this(2,1), of sp] obtain sp' k' where
    y: "yield_cpu sp k2 = Some (Switch sp', k')" "sched_inv k'" "mem_ok (R + mset (blocks q')) k'"
      "in_state k' BLOCKED = in_state k2 BLOCKED" "same_pids k2 k'"
      "st_of k' (currentProcess k') = RUNNING" "currentProcess k' \<noteq> c" "pages_left k2 \<le> pages_left k'"
    using k2(5) by auto
  let ?sem = "sem\<lparr>semValue := semValue sem - 1, waitingProcesses := q', lock := 0\<rparr>"
  let ?S = "S\<lparr>kern := k', sems := (sems S)(s \<mapsto> ?sem)\<rparr>"
  have res: "semWait sp s S = Some (Switch sp', ?S)"
    using sem dn gp e(1) k2(1) y(1)
    by (auto simp: semWait_def acquire_def release_def upd_sem_def sem_at_def in_kern_def)
  have wv: "waiting ?S s = waiting S s @ [?i]" "val ?S s = val S s - 1"
    using sem e(2) dec by (simp_all add: waiting_def val_def)
  have pids: "pid (pr_of k' p) = pid (pr_of ?k p)" if "p \<in> in_state k2 BLOCKED" for p
  proof -
    have "procs k2 p \<noteq> None"
      using that table_okD(3) [OF sched_invD(1) [OF k2(2)]] by (auto simp: in_state_def)
    then have "pid (pr_of k' p) = pid (pr_of k2 p)" by (rule same_pidsD [OF y(5)])
    moreover have "pid (pr_of k2 c) = ?i"
      using same_pidsD [OF addProcessToBlockQueue_pids [OF k2(1)], of c] pc by simp
    ultimately show ?thesis using k2(7) by (cases "p = c") auto
  qed
  have new: "?i \<notin> set (waiting S s)"
  proof
    assume "?i \<in> set (waiting S s)"
    then have "?i \<in> blocked_pids ?k" using i by (auto simp: sem_inv_def)
    then obtain p where p: "p \<in> in_state ?k BLOCKED" "pid (pr_of ?k p) = ?i" by (rule blocked_pidsE)
    then have "p = c" using table_okD(4) [OF sched_invD(1) [OF inv] _ ct(1)] by (auto simp: in_state_def)
    with p(1) ct(2) show False by (auto simp: in_state_def)
  qed
  have bp: "insert ?i (blocked_pids ?k) \<subseteq> blocked_pids k'"
  proof
    fix x assume "x \<in> insert ?i (blocked_pids ?k)"
    then obtain p where "p \<in> in_state k2 BLOCKED" "pid (pr_of ?k p) = x"
      using bk2 by (auto elim: blocked_pidsE)
    then show "x \<in> blocked_pids k'" using pids y(4) by (force simp: blocked_pids_def)
  qed
  then have "set (waiting ?S s) \<subseteq> blocked_pids k'" using i unfolding wv by (auto simp: sem_inv_def)
  moreover have "int (length (waiting ?S s)) = max 0 (- val ?S s)"
    using i v unfolding wv by (auto simp: sem_inv_def max_def split: if_splits)
  moreover have "distinct (waiting ?S s)" "0 \<notin> set (waiting ?S s)"
    using i new nz unfolding wv by (auto simp: sem_inv_def c_def)
  ultimately have "sem_inv ?S s" unfolding sem_inv_def using sem e(3) by auto
  moreover have "pages_left ?k \<le> pages_left k' + 2" using e(5) k2(6) y(8) by simp
  moreover have "\<forall>n. getSem n ?S = getSem n S" by (intro allI getSem_cong) (use sem(2) in auto)
  moreover have "pid (pr_of k' c) = ?i" using pids [of c] bk2 by simp
  ultimately show ?thesis using res wv y bk2 sem(2) bp
    by (intro exI [of _ sp'] exI [of _ ?S]) (simp add: sem_mem_def)
qed

section \<open>Opening\<close>

lemma match_name_iff:
  assumes "nul \<notin> set a" and "nul \<notin> set b"
  shows "match_name (a @ nul # x) (b @ nul # y) = Some (a = b)"
  using assms
proof (induction a arbitrary: b)
  case Nil
  then show ?case by (cases b) auto
next
  case (Cons c a)
  then show ?case by (cases b) auto
qed

text \<open>Copying a short name takes one page.\<close>

lemma strDup_ok:
  assumes own: "bm.owns M m" and pg: "0 < unat (free_pages m)" and n: "nul \<notin> set n" "length n < 4000"
    and old: "length n < length old"
  shows "\<exists>d m'. strDup (Some (n @ nul # t)) old m = Some ((d, n @ nul # drop (Suc (length n)) old), m') \<and> d \<noteq> NULL \<and>
           bm.owns (M + {#d#}) m' \<and> unat (free_pages m') = unat (free_pages m) - 1"
proof -
  have k: "length n < 2 ^ LENGTH(64)" using n(2) by simp
  have "(ucast (of_nat (length n) :: u64) :: u32) = of_nat (length n)"
    by (simp only: unsigned_of_nat take_bit_nat_eq_self [OF k])
  moreover have "(of_nat (length n) + 1 :: u32) = of_nat (Suc (length n))" by simp
  moreover have "Suc (length n) < 2 ^ LENGTH(32)" using n(2) by simp
  then have "unat (of_nat (Suc (length n)) :: u32) = Suc (length n)" by (rule unat_of_nat_small)
  ultimately have sz: "unat (scast ((ucast (of_nat (length n) :: u64) :: u32) + 1) :: u64) = Suc (length n)"
    using unat_scast [of "of_nat (Suc (length n))"] n(2) by (simp add: add.commute)
  obtain m' d where a: "mem_alloc m (scast ((ucast (of_nat (length n) :: u64) :: u32) + 1)) = (m', d)" "d \<noteq> NULL"
      "unat (free_pages m') = unat (free_pages m) - 1"
    by (rule bm.alloc_page [OF bm.owns_inv [OF own] _ pg]) (use sz n(2) in auto)
  have "bm.owns (M + {#d#}) m'" using bm.owns_alloc [OF own a(1)] a(2) by simp
  then show ?thesis
    using a strLen_nul [OF n(1), of t] strCpy_nul [OF n(1) old, of t] by (simp add: strDup_def Let_def)
qed

lemma mset_insert: "mset (insert_sorted cmp n xs) = add_mset n (mset xs)"
  by (induction xs) (auto simp: add_mset_commute)

lemma l_add_sorted_ok:
  assumes own: "bm.owns (M + mset (blocks l)) m" and pg: "0 < unat (free_pages m)" and l: "l \<noteq> None"
  shows "\<exists>l' m'. l_add_sorted mem_alloc cmp l x m = (l', m') \<and> mset (items l') = add_mset x (mset (items l)) \<and> l' \<noteq> None \<and>
           bm.owns (M + mset (blocks l')) m' \<and> unat (free_pages m') = unat (free_pages m) - 1"
proof -
  obtain la ns where la: "l = Some (la, ns)" using l by (cases l) auto
  obtain m' a where a: "mem_alloc m sizeof_node_t = (m', a)" "a \<noteq> NULL"
      "unat (free_pages m') = unat (free_pages m) - 1"
    by (rule bm.alloc_page [OF bm.owns_inv [OF own] _ pg]) (auto simp: sizeof_node_t_def)
  let ?l' = "Some (la, insert_sorted cmp (a, x) ns)"
  have e: "l_add_sorted mem_alloc cmp l x m = (?l', m')" using la a by (simp add: l_add_sorted_def)
  have "mset (map snd (insert_sorted cmp (a, x) ns)) = image_mset snd (mset (insert_sorted cmp (a, x) ns))" by simp
  then have "mset (items ?l') = add_mset x (mset (items l))" by (simp add: items_def la mset_insert)
  with e bm.owns_l_add_sorted [OF own e] a(3) show ?thesis by blast
qed

lemma getPid_kmem [simp]: "getPid (k\<lparr>kmem := m\<rparr>) = getPid k"
  by (simp add: getPid_def pcb_def)

text \<open>What \<open>semOpen\<close> adds for a new name.\<close>

lemma createSem_ok:
  assumes own: "bm.owns M (kmem (kern S))" and pg: "3 \<le> pages_left (kern S)"
  shows "\<exists>a qa la m. createSem S = Some (a, (with_mem S m)\<lparr>sems := (sems S)(a \<mapsto>
             \<lparr>semName = None, semValue = 0, lock = 0, waitingProcesses = Some (qa, []),
              linkedProcesses = Some (la, []), pendingDestruction = False\<rparr>)\<rparr>) \<and> a \<noteq> NULL \<and> a \<notin># M \<and>
           bm.owns (M + {#a#} + {#qa#} + {#la#}) m \<and> unat (free_pages m) = pages_left (kern S) - 3"
proof -
  have p0: "0 < pages_left (kern S)" using pg by simp
  obtain m1 a where a: "mem_alloc (kmem (kern S)) sizeof_semaphore = (m1, a)" "a \<noteq> NULL"
      "unat (free_pages m1) = pages_left (kern S) - 1"
    by (rule bm.alloc_page [OF bm.owns_inv [OF own] _ p0]) (auto simp: sizeof_semaphore_def)
  have o1: "bm.owns (M + {#a#}) m1" using bm.owns_alloc [OF own a(1)] a(2) by simp
  have "0 < unat (free_pages m1)" using a(3) pg by simp
  from bm.q_new_succeeds [OF bm.owns_inv [OF o1] this] obtain qa m2 where
    q: "q_new mem_alloc m1 = (Some (qa, []), m2)" "unat (free_pages m2) = unat (free_pages m1) - 1" by blast
  have o2: "bm.owns (M + {#a#} + {#qa#}) m2" using bm.owns_q_new [OF o1 q(1)] by (simp add: blocks_def)
  have "0 < unat (free_pages m2)" using a(3) q(2) pg by simp
  from bm.l_new_succeeds [OF bm.owns_inv [OF o2] this] obtain la m3 where
    l: "l_new mem_alloc m2 = (Some (la, []), m3)" "unat (free_pages m3) = unat (free_pages m2) - 1" by blast
  have o3: "bm.owns (M + {#a#} + {#qa#} + {#la#}) m3" using bm.owns_l_new [OF o2 l(1)] by (simp add: blocks_def)
  show ?thesis using a q l o3 bm.owns_fresh [OF o1] pg
    by (intro exI [of _ a] exI [of _ qa] exI [of _ la] exI [of _ m3]) (simp add: createSem_def)
qed

text \<open>The list of semaphores: every element is a semaphore with a proper name.\<close>

definition named :: "system \<Rightarrow> ptr \<Rightarrow> string \<Rightarrow> bool" where
  "named S p n \<longleftrightarrow> nul \<notin> set n \<and> (\<exists>sem d t. sems S p = Some sem \<and> semName sem = Some (d, n @ nul # t))"

definition list_ok :: "ptr multiset \<Rightarrow> system \<Rightarrow> bool" where
  "list_ok R S \<longleftrightarrow>
     semaphoreList S \<noteq> None \<and> mset (items (semaphoreList S)) \<subseteq># R \<and>
     (\<forall>p\<in>set (items (semaphoreList S)). p \<noteq> NULL \<and> (\<exists>n. named S p n))"

lemma named_match: "named S p n \<Longrightarrow> nul \<notin> set n' \<Longrightarrow> matchSemName S (n' @ nul # t) p \<longleftrightarrow> n = n'"
  by (auto simp: named_def matchSemName_def match_name_iff)

lemma nul_split: "nul \<notin> set a \<Longrightarrow> nul \<notin> set b \<Longrightarrow> a @ nul # x = b @ nul # y \<Longrightarrow> a = b"
proof (induction a arbitrary: b)
  case Nil
  then show ?case by (cases b) auto
next
  case (Cons c a)
  then show ?case by (cases b) auto
qed

lemma named_unique: "named S p a \<Longrightarrow> named S p b \<Longrightarrow> a = b"
  by (auto simp: named_def intro: nul_split)

lemma named_nameless: "named S p n \<Longrightarrow> \<not> nameless S p"
  by (auto simp: named_def nameless_def)

text \<open>\<open>getSem\<close> finds the semaphore with the name.\<close>

lemma getSem_spec:
  assumes ok: "list_ok R S" and n: "nul \<notin> set n"
  shows "\<exists>p. getSem (Some (n @ nul # t)) S = Some p \<and>
           (if \<exists>q\<in>set (items (semaphoreList S)). named S q n
            then p \<in> set (items (semaphoreList S)) \<and> named S p n else p = NULL)"
proof -
  let ?P = "matchSemName S (n @ nul # t)" and ?xs = "items (semaphoreList S)"
  have el: "\<exists>n. named S q n" "q \<noteq> NULL" if "q \<in> set ?xs" for q using ok that by (auto simp: list_ok_def)
  have P: "?P q \<longleftrightarrow> named S q n" if "q \<in> set ?xs" for q
    using el(1) [OF that] named_match [OF _ n] named_unique by blast
  have "\<not> (\<exists>p\<in>set (takeWhile (\<lambda>p. \<not> ?P p) ?xs). nameless S p)"
    using el(1) named_nameless by (metis set_takeWhileD)
  then have g: "getSem (Some (n @ nul # t)) S = Some (find_chain ?P (semaphoreList S))"
    using ok by (auto simp: getSem_def list_ok_def)
  show ?thesis
  proof (cases "find ?P ?xs")
    case None
    then have "\<not> (\<exists>q\<in>set ?xs. named S q n)" using P by (auto simp: find_None_iff)
    with g None show ?thesis by (simp add: find_chain_def)
  next
    case (Some p)
    then have "p \<in> set ?xs" "?P p" by (auto simp: find_Some_iff)
    with g Some P show ?thesis by (auto simp: find_chain_def)
  qed
qed

lemma getSem_named:
  assumes "list_ok R S" and "p \<in> set (items (semaphoreList S))" and "named S p n"
    and "\<And>q. q \<in> set (items (semaphoreList S)) \<Longrightarrow> named S q n \<Longrightarrow> q = p"
  shows "getSem (Some (n @ nul # t)) S = Some p"
proof -
  have "nul \<notin> set n" using assms(3) by (simp add: named_def)
  from getSem_spec [OF assms(1) this, of t] assms(2,3) obtain p' where
    "getSem (Some (n @ nul # t)) S = Some p'" "p' \<in> set (items (semaphoreList S))" "named S p' n"
    by (auto split: if_splits)
  with assms(4) show ?thesis by blast
qed

lemma semOpen_new:
  assumes ok: "list_ok R S" and m: "mem_ok (R + mset (blocks (semaphoreList S))) (kern S)"
    and pg: "6 \<le> pages_left (kern S)" and n: "nul \<notin> set n" "length n < 4000"
    and new: "\<not> (\<exists>q\<in>set (items (semaphoreList S)). named S q n)" and gp: "getPid (kern S) = Some i"
  shows "\<exists>s S' m' R'. semOpen (Some (n @ nul # t)) v S = Some (s, S') \<and> s \<noteq> NULL \<and> s \<notin> set (items (semaphoreList S)) \<and>
           kern S' = (kern S)\<lparr>kmem := m'\<rparr> \<and> (0 \<le> sint v \<longrightarrow> sem_inv S' s) \<and> val S' s = sint v \<and> waiting S' s = [] \<and>
           named S' s n \<and> \<not> pendingDestruction (the (sems S' s)) \<and> sem_mem R' S' s \<and>
           set (items (semaphoreList S')) = insert s (set (items (semaphoreList S))) \<and>
           (\<forall>q. q \<noteq> s \<longrightarrow> sems S' q = sems S q) \<and> pages_left (kern S) \<le> unat (free_pages m') + 6 \<and>
           (\<exists>R1. list_ok R1 S' \<and> mem_ok (R1 + mset (blocks (semaphoreList S'))) (kern S') \<and> R \<subseteq># R1 \<and>
              mset (blocks (waitingProcesses (the (sems S' s)))) \<subseteq># R1) \<and> R \<subseteq># R'"
proof -
  let ?k = "kern S" and ?l = "semaphoreList S" and ?name = "n @ nul # t"
  from getSem_spec [OF ok n(1), of t] new have g: "getSem (Some ?name) S = Some NULL" by auto
  let ?M = "R + mset (blocks ?l) + owned ?k"
  have own: "bm.owns ?M (kmem ?k)" using m by (simp add: mem_ok_def)
  have "3 \<le> pages_left ?k" using pg by simp
  from createSem_ok [OF own this] obtain a qa la m1 where
    c: "createSem S = Some (a, (with_mem S m1)\<lparr>sems := (sems S)(a \<mapsto>
             \<lparr>semName = None, semValue = 0, lock = 0, waitingProcesses = Some (qa, []),
              linkedProcesses = Some (la, []), pendingDestruction = False\<rparr>)\<rparr>)" "a \<noteq> NULL" "a \<notin># ?M"
       "bm.owns (?M + {#a#} + {#qa#} + {#la#}) m1" "unat (free_pages m1) = pages_left ?k - 3" by blast
  have p1: "0 < unat (free_pages m1)" using c(5) pg by simp
  have old: "length n < length (replicate (length ?name) nul)" by simp
  from strDup_ok [OF c(4) p1 n old] obtain d b m2 where
    d: "strDup (Some ?name) (replicate (length ?name) nul) m1 = Some ((d, n @ nul # b), m2)" "d \<noteq> NULL"
      "bm.owns (?M + {#a#} + {#qa#} + {#la#} + {#d#}) m2" "unat (free_pages m2) = unat (free_pages m1) - 1"
    by blast
  let ?sem = "\<lparr>semName = Some (d, n @ nul # b), semValue = v, lock = 0, waitingProcesses = Some (qa, []),
              linkedProcesses = Some (la, []), pendingDestruction = False\<rparr>"
  let ?S2 = "(with_mem S m2)\<lparr>sems := (sems S)(a \<mapsto> ?sem)\<rparr>"
  let ?M2 = "R + owned ?k + {#a#} + {#qa#} + {#la#} + {#d#}"
  have "bm.owns (?M2 + mset (blocks ?l)) m2" using d(3) by (simp add: ac_simps)
  moreover have "0 < unat (free_pages m2)" using c(5) d(4) pg by simp
  moreover have "?l \<noteq> None" using ok by (simp add: list_ok_def)
  ultimately obtain l' m3 where
    l: "l_add_sorted mem_alloc (cmpSem ?S2) ?l a m2 = (l', m3)" "mset (items l') = add_mset a (mset (items ?l))"
      "l' \<noteq> None" "bm.owns (?M2 + mset (blocks l')) m3" "unat (free_pages m3) = unat (free_pages m2) - 1"
    using l_add_sorted_ok by blast
  have "0 < unat (free_pages m3)" using c(5) d(4) l(5) pg by simp
  from bm.l_add_succeeds [OF bm.owns_inv [OF l(4)] this, of "Some (la, [])" i] obtain ll m4 where
    ll: "l_add mem_alloc (Some (la, [])) i m3 = (ll, m4)" "ll \<noteq> None"
      "unat (free_pages m4) = unat (free_pages m3) - 1" by auto
  let ?M3 = "R + owned ?k + {#a#} + {#qa#} + {#d#} + mset (blocks l')"
  have eq: "?M3 + mset (blocks (Some (la, []))) = ?M2 + mset (blocks l')"
    by (simp add: blocks_def ac_simps add_mset_commute)
  have "bm.owns (?M3 + mset (blocks (Some (la, [])))) m3" unfolding eq by (rule l(4))
  from bm.owns_l_add [OF this ll(1)] have o4: "bm.owns (?M3 + mset (blocks ll)) m4" .
  let ?sem' = "?sem\<lparr>linkedProcesses := ll\<rparr>"
  let ?S = "(with_mem S m4)\<lparr>semaphoreList := l', sems := (sems S)(a \<mapsto> ?sem')\<rparr>"
  have res: "semOpen (Some ?name) v S = Some (a, ?S)"
    using g c(1,2) d(1,2) l(1) ll(1) gp \<open>?l \<noteq> None\<close>
    by (simp add: semOpen_def upd_sem_def sem_at_def Let_def)
  have sl: "set (items l') = insert a (set (items ?l))" using arg_cong [OF l(2), of set_mset] by simp
  let ?R1 = "R + {#a#} + {#qa#} + {#d#} + mset (blocks ll)"
  have "mset (items ?l) \<subseteq># R" using ok by (simp add: list_ok_def)
  then have "mset (items l') \<subseteq># R + {#a#}" unfolding l(2) by simp
  then have sub: "mset (items l') \<subseteq># ?R1" by (rule subset_mset.order_trans) simp
  have na: "named ?S a n" using n(1) by (simp add: named_def)
  have nq: "named ?S q x" if "q \<noteq> a" "named S q x" for q x using that by (simp add: named_def)
  have el: "q \<noteq> NULL \<and> (\<exists>x. named S q x)" if "q \<in> set (items ?l)" for q
    using ok that unfolding list_ok_def by blast
  have "q \<noteq> NULL \<and> (\<exists>x. named ?S q x)" if "q \<in> set (items l')" for q
  proof (cases "q = a")
    case True
    then show ?thesis using na c(2) by blast
  next
    case False
    then have "q \<in> set (items ?l)" using that sl by simp
    then show ?thesis using el nq [OF False] by blast
  qed
  then have lk: "list_ok ?R1 ?S" using l(3) sub by (simp add: list_ok_def)
  have eq2: "?R1 + mset (blocks (semaphoreList ?S)) + owned (kern ?S) = ?M3 + mset (blocks ll)"
    by (simp add: owned_def blocks_def ac_simps add_mset_commute)
  then have mk: "mem_ok (?R1 + mset (blocks (semaphoreList ?S))) (kern ?S)"
    unfolding mem_ok_def eq2 using o4 by simp
  have lst: "\<exists>R1. list_ok R1 ?S \<and> mem_ok (R1 + mset (blocks (semaphoreList ?S))) (kern ?S) \<and> R \<subseteq># R1 \<and>
      mset (blocks (waitingProcesses (the (sems ?S a)))) \<subseteq># R1"
    by (intro exI [of _ ?R1] conjI, intro lk, intro mk) (simp_all add: blocks_def)
  have "a \<notin> set (items ?l)" using c(3) ok mset_subset_eqD [of "mset (items ?l)" R a]
    by (auto simp: list_ok_def)
  moreover have "mem_ok (R + {#a#} + {#d#} + mset (blocks l') + mset (blocks ll) + mset (blocks (Some (qa, [])))) (kern ?S)"
  proof -
    have eq: "R + {#a#} + {#d#} + mset (blocks l') + mset (blocks ll) + mset (blocks (Some (qa, []))) + owned (kern ?S) =
        ?M3 + mset (blocks ll)"
      by (simp add: owned_def blocks_def ac_simps add_mset_commute)
    show ?thesis unfolding mem_ok_def eq using o4 by simp
  qed
  then have "sem_mem (R + {#a#} + {#d#} + mset (blocks l') + mset (blocks ll)) ?S a" by (simp add: sem_mem_def add_mset_commute)
  moreover have "pages_left ?k \<le> unat (free_pages m4) + 6" using ll(3) l(5) d(4) c(5) by simp
  moreover note sl lst
  ultimately show ?thesis using res n(1) c(2) ll(2)
    by (intro exI [of _ a] exI [of _ ?S] exI [of _ m4]
          exI [of _ "R + {#a#} + {#d#} + mset (blocks l') + mset (blocks ll)"])
      (auto simp: val_def waiting_def named_def items_def sem_inv_def)
qed

section \<open>The protocol\<close>

text \<open>
  All that processes can do with one semaphore, on any schedule: \<open>semWait\<close> and \<open>semPost\<close> by the process that is
  running, and timer ticks in between. Nothing in the rules says which way a call goes: that is read off its result.
  \<open>h\<close> is the number of processes that \<open>semWait\<close> let through and that have not posted since: a wait that
  returns lets its caller through, one that gives up the processor does not, and a post gives back the poster's permit and
  lets those through that have left the waiting queue by it. A call needs what the kernel itself needs for it, should it have to
  queue its caller: the two pages of a queue insertion, a process with a pid, and a counter that does not overflow.
\<close>

definition can_queue :: "system \<Rightarrow> ptr \<Rightarrow> bool" where
  "can_queue S s \<longleftrightarrow> - (2 ^ 31) < val S s \<and> 2 < pages_left (kern S) \<and>
     pid (pr_of (kern S) (currentProcess (kern S))) \<noteq> 0"

fun let_through :: "'a ctl \<Rightarrow> nat" where
  "let_through (Ret _) = 1"
| "let_through (Switch _) = 0"

inductive sem_run :: "ptr \<Rightarrow> ptr multiset \<Rightarrow> int \<Rightarrow> system \<Rightarrow> nat \<Rightarrow> bool" for s R v0 where
  start: "sem_inv S s \<Longrightarrow> sched_inv (kern S) \<Longrightarrow> sem_mem R S s \<Longrightarrow> \<not> pendingDestruction (the (sems S s)) \<Longrightarrow>
     waiting S s = [] \<Longrightarrow> val S s = v0 \<Longrightarrow> sem_run s R v0 S 0"
| wait: "sem_run s R v0 S h \<Longrightarrow> on_cpu (kern S) \<Longrightarrow> semWait sp s S = Some (r, S') \<Longrightarrow>
     (val S s \<le> 0 \<longrightarrow> can_queue S s) \<Longrightarrow> sem_run s R v0 S' (h + let_through r)"
| post: "sem_run s R v0 S (Suc h) \<Longrightarrow> on_cpu (kern S) \<Longrightarrow> semPost s S = Some S' \<Longrightarrow>
     0 < pages_left (kern S) \<Longrightarrow> val S s < 2 ^ 31 - 1 \<Longrightarrow>
     sem_run s R v0 S' (h + (length (waiting S s) - length (waiting S' s)))"
| tick: "sem_run s R v0 S h \<Longrightarrow> timer_handler sp (kern S) = Some (sp', k') \<Longrightarrow> 0 < pages_left (kern S) \<Longrightarrow>
     sem_run s R v0 (S\<lparr>kern := k'\<rparr>) h"

lemma sem_inv_kern:
  assumes i: "sem_inv S s" and b: "in_state k' BLOCKED = in_state (kern S) BLOCKED"
    and p: "\<And>p. p \<in> in_state (kern S) BLOCKED \<Longrightarrow> pid (pr_of k' p) = pid (pr_of (kern S) p)"
  shows "sem_inv (S\<lparr>kern := k'\<rparr>) s"
proof -
  have "blocked_pids k' = blocked_pids (kern S)" using b p by (auto simp: blocked_pids_def)
  then show ?thesis using i by (simp add: sem_inv_def waiting_def val_def)
qed

lemma running_not_blocked: "on_cpu k \<Longrightarrow> currentProcess k \<notin> in_state k BLOCKED"
  by (auto simp: on_cpu_def in_state_def)

definition run_inv :: "ptr \<Rightarrow> ptr multiset \<Rightarrow> int \<Rightarrow> system \<Rightarrow> nat \<Rightarrow> bool" where
  "run_inv s R v0 S h \<longleftrightarrow>
     sem_inv S s \<and> sched_inv (kern S) \<and> sem_mem R S s \<and> \<not> pendingDestruction (the (sems S s)) \<and>
     int h + max 0 (val S s) = v0"

lemma sem_run_inv:
  assumes "sem_run s R v0 S h"
  shows "run_inv s R v0 S h"
  using assms
proof induction
  case (start S)
  then show ?case by (auto simp: run_inv_def sem_inv_def max_def split: if_splits)
next
  case (wait S h sp r S')
  then have i: "sem_inv S s" "sched_inv (kern S)" "sem_mem R S s" "int h + max 0 (val S s) = v0"
      "\<not> pendingDestruction (the (sems S s))" by (auto simp: run_inv_def)
  show ?case
  proof (cases "0 < val S s")
    case True
    have "currentProcess (kern S) \<in> set (table (kern S))" using wait.hyps(2) by (auto simp: on_cpu_def in_state_def)
    from table_okD(3) [OF sched_invD(1) [OF i(2)] this] have "getPid (kern S) \<noteq> None" by (simp add: getPid_def pcb_def)
    from semWait_free [OF i(1) True this, of sp] wait.hyps(3) have
      "r = Ret ()" "sem_inv S' s" "kern S' = kern S" "val S' s = val S s - 1" "sem_mem R S' s"
      "pendingDestruction (the (sems S' s)) = pendingDestruction (the (sems S s))" using i(3) by auto
    then show ?thesis using i True by (simp add: run_inv_def)
  next
    case False
    then have v: "val S s \<le> 0" by simp
    then have q: "- (2 ^ 31) < val S s" "2 < pages_left (kern S)" "pid (pr_of (kern S) (currentProcess (kern S))) \<noteq> 0"
      using wait.hyps(4) by (auto simp: can_queue_def)
    from semWait_blocks [OF i(1) v q(1) i(2,3) q(2) wait.hyps(2) q(3), of sp] wait.hyps(3) obtain sp' where
      "r = Switch sp'" "sem_inv S' s" "sched_inv (kern S')" "sem_mem R S' s" "val S' s = val S s - 1"
      "pendingDestruction (the (sems S' s)) = pendingDestruction (the (sems S s))" by auto
    then show ?thesis using i v by (simp add: run_inv_def)
  qed
next
  case (post S h S')
  then have i: "sem_inv S s" "sched_inv (kern S)" "sem_mem R S s" "int (Suc h) + max 0 (val S s) = v0"
      "\<not> pendingDestruction (the (sems S s))" by (auto simp: run_inv_def)
  show ?case
  proof (cases "waiting S s")
    case Nil
    from semPost_free [OF i(1) Nil post.hyps(5) i(5)] post.hyps(3) have
      "sem_inv S' s" "kern S' = kern S" "val S' s = val S s + 1" "sem_mem R S' s"
      "pendingDestruction (the (sems S' s)) = pendingDestruction (the (sems S s))" using i(3) by auto
    moreover have "0 \<le> val S s" using i(1) Nil by (simp add: sem_inv_def max_def split: if_splits)
    ultimately show ?thesis using i Nil by (simp add: run_inv_def)
  next
    case (Cons j js)
    from semPost_wakes [OF i(1) Cons i(2,3) post.hyps(4) running_not_blocked [OF post.hyps(2)] i(5)] post.hyps(3) have
      "sem_inv S' s" "sched_inv (kern S')" "sem_mem R S' s" "val S' s = val S s + 1" "waiting S' s = js"
      "pendingDestruction (the (sems S' s)) = pendingDestruction (the (sems S s))" by auto
    moreover have "val S s < 0" using i(1) Cons by (simp add: sem_inv_def max_def split: if_splits)
    ultimately show ?thesis using i Cons by (simp add: run_inv_def)
  qed
next
  case (tick S h sp sp' k')
  then have i: "sem_inv S s" "sched_inv (kern S)" "sem_mem R S s" by (auto simp: run_inv_def)
  let ?k = "(kern S)\<lparr>ticks := ticks (kern S) + 1\<rparr>"
  obtain sem where sem: "sems S s = Some sem" "mem_ok (R + mset (blocks (waitingProcesses sem))) (kern S)"
    using i(3) by (auto simp: sem_mem_def)
  have k: "sched_inv ?k" "mem_ok (R + mset (blocks (waitingProcesses sem))) ?k" "0 < pages_left ?k"
    using i sem tick.hyps(3) by simp_all
  have sc: "schedule sp ?k = Some (sp', k')" using tick.hyps(2) by (simp add: timer_handler_def)
  from schedule_inv [OF k, of sp] sc have
    r: "sched_inv k'" "mem_ok (R + mset (blocks (waitingProcesses sem))) k'" "blocked k' = blocked (kern S)" by auto
  have b: "in_state k' BLOCKED = in_state (kern S) BLOCKED"
    using queue_okD(3) [OF sched_invD(2) [OF r(1)]] queue_okD(3) [OF sched_invD(2) [OF i(2)]] r(3) by simp
  have "pid (pr_of k' p) = pid (pr_of (kern S) p)" if "p \<in> in_state (kern S) BLOCKED" for p
  proof -
    have "procs ?k p \<noteq> None" using that table_okD(3) [OF sched_invD(1) [OF i(2)]] by (auto simp: in_state_def)
    from same_pidsD [OF schedule_pids [OF sc] this] show ?thesis by simp
  qed
  from sem_inv_kern [OF i(1) b this] r sem tick.IH show ?case
    by (auto simp: run_inv_def sem_mem_def val_def)
qed

section \<open>A mutex on the booted kernel\<close>

definition boot_system :: system where
  "boot_system = semaphoresInit \<lparr>kern = running_kernel, semaphoreList = None, sems = Map.empty\<rparr>"

lemma boot_system_ok:
  "list_ok {#} boot_system" "mem_ok ({#} + mset (blocks (semaphoreList boot_system))) (kern boot_system)"
  "1800 \<le> pages_left (kern boot_system)" "items (semaphoreList boot_system) = []"
  "\<exists>m. kern boot_system = running_kernel\<lparr>kmem := m\<rparr>"
proof -
  have own: "bm.owns (owned running_kernel) (kmem running_kernel)"
    using running_kernel_ok(2) by (simp add: mem_ok_def)
  have "0 < pages_left running_kernel" using running_kernel_ok(6) by simp
  from bm.l_new_succeeds [OF bm.owns_inv [OF own] this] obtain la m where
    l: "l_new mem_alloc (kmem running_kernel) = (Some (la, []), m)" "unat (free_pages m) = pages_left running_kernel - 1"
    by blast
  have b: "boot_system = \<lparr>kern = running_kernel\<lparr>kmem := m\<rparr>, semaphoreList = Some (la, []), sems = Map.empty\<rparr>"
    using l(1) by (simp add: boot_system_def semaphoresInit_def)
  have "bm.owns (owned running_kernel + mset (blocks (Some (la, [])))) m" using bm.owns_l_new [OF own l(1)] by simp
  then show "mem_ok ({#} + mset (blocks (semaphoreList boot_system))) (kern boot_system)"
    by (simp add: b mem_ok_def owned_def blocks_def ac_simps)
  show "list_ok {#} boot_system" by (simp add: b list_ok_def items_def)
  show "1800 \<le> pages_left (kern boot_system)" using l(2) running_kernel_ok(6) by (simp add: b)
  show "items (semaphoreList boot_system) = []" by (simp add: b items_def)
  show "\<exists>m. kern boot_system = running_kernel\<lparr>kmem := m\<rparr>" by (auto simp: b)
qed

lemma running_pid: "getPid running_kernel \<noteq> None" "getPid (kern boot_system) \<noteq> None"
proof -
  show "getPid running_kernel \<noteq> None"
    using table_okD(3) [OF sched_invD(1) [OF running_kernel_ok(1)] running_kernel_ok(7)]
    by (simp add: getPid_def pcb_def)
  with boot_system_ok(5) show "getPid (kern boot_system) \<noteq> None" by auto
qed

lemma mutex_exists:
  "\<exists>s S R. semOpen (Some (''mutex'' @ [nul])) 1 boot_system = Some (s, S) \<and> sem_inv S s \<and> sched_inv (kern S) \<and>
     sem_mem R S s \<and> \<not> pendingDestruction (the (sems S s)) \<and> waiting S s = [] \<and> val S s = 1 \<and>
     on_cpu (kern S) \<and> pid (pr_of (kern S) (currentProcess (kern S))) = 1 \<and> 1700 \<le> pages_left (kern S)"
proof -
  obtain i where i: "getPid (kern boot_system) = Some i" using running_pid by auto
  have n: "nul \<notin> set ''mutex''" "length ''mutex'' < 4000" by simp_all
  have pg: "6 \<le> pages_left (kern boot_system)" using boot_system_ok(3) by simp
  from semOpen_new [OF boot_system_ok(1,2) pg n _ i, of "[]" 1] boot_system_ok(4) obtain s S' m' R' where
    s: "semOpen (Some (''mutex'' @ [nul])) 1 boot_system = Some (s, S')" "kern S' = (kern boot_system)\<lparr>kmem := m'\<rparr>"
      "sem_inv S' s" "val S' s = 1" "waiting S' s = []" "\<not> pendingDestruction (the (sems S' s))"
      "sem_mem R' S' s" "pages_left (kern boot_system) \<le> unat (free_pages m') + 6" by auto
  obtain m where k: "kern boot_system = running_kernel\<lparr>kmem := m\<rparr>" using boot_system_ok(5) by blast
  have "sched_inv (kern S')" using running_kernel_ok(1) by (simp add: s(2) k)
  moreover have "on_cpu (kern S')" using running_kernel_ok(3) by (simp add: s(2) k on_cpu_def)
  moreover have "pid (pr_of (kern S') (currentProcess (kern S'))) = 1"
    using running_kernel_ok(9) by (simp add: s(2) k)
  moreover have "1700 \<le> pages_left (kern S')" using s(2,8) boot_system_ok(3) by simp
  ultimately show ?thesis using s by blast
qed

section \<open>Properties\<close>

text \<open>C13: opening. \<open>semOpen\<close> of a new name registers a semaphore with the given value and nobody waiting,
  and no other semaphore changes; from then on \<open>getSem\<close> finds it under every string with that name,
  and opening the name again returns it with the state unchanged.\<close>

theorem semOpen_registers:
  assumes "list_ok R S" and "mem_ok (R + mset (blocks (semaphoreList S))) (kern S)"
    and "6 \<le> pages_left (kern S)" and "nul \<notin> set n" and "length n < 4000"
    and "\<not> (\<exists>q\<in>set (items (semaphoreList S)). named S q n)" and "getPid (kern S) = Some i"
  shows "\<exists>s S'. semOpen (Some (n @ nul # t)) v S = Some (s, S') \<and> val S' s = sint v \<and> waiting S' s = [] \<and>
           (0 \<le> sint v \<longrightarrow> sem_inv S' s) \<and> (\<forall>q. q \<noteq> s \<longrightarrow> sems S' q = sems S q) \<and>
           s \<noteq> NULL \<and> (\<forall>t. getSem (Some (n @ nul # t)) S' = Some s) \<and>
           (\<forall>t w. semOpen (Some (n @ nul # t)) w S' = Some (s, S'))"
proof -
  from semOpen_new [OF assms, of t v] obtain s S' where
    s: "semOpen (Some (n @ nul # t)) v S = Some (s, S')" "s \<notin> set (items (semaphoreList S))"
      "0 \<le> sint v \<longrightarrow> sem_inv S' s" "val S' s = sint v" "waiting S' s = []" "named S' s n"
      "\<not> pendingDestruction (the (sems S' s))"
      "set (items (semaphoreList S')) = insert s (set (items (semaphoreList S)))"
      "\<forall>q. q \<noteq> s \<longrightarrow> sems S' q = sems S q" and sn: "s \<noteq> NULL" by blast
  have nm: "named S' q a \<longleftrightarrow> named S q a" if "q \<noteq> s" for q a using s(9) that by (simp add: named_def)
  have old: "q \<noteq> s" if "q \<in> set (items (semaphoreList S))" for q using s(2) that by auto
  have sl: "semaphoreList S' \<noteq> None" using s(8) by (cases "semaphoreList S'") (auto simp: items_def)
  have "q \<noteq> NULL \<and> (\<exists>n. named S' q n)" if "q \<in> set (items (semaphoreList S'))" for q
    using that s(6,8) sn nm old assms(1) unfolding list_ok_def by (cases "q = s") auto
  with sl have ok: "list_ok (mset (items (semaphoreList S'))) S'" by (simp add: list_ok_def)
  have g: "getSem (Some (n @ nul # t)) S' = Some s" for t
  proof -
    from getSem_spec [OF ok assms(4), of t] obtain p where
      p: "getSem (Some (n @ nul # t)) S' = Some p" "p \<in> set (items (semaphoreList S'))" "named S' p n"
      using s(6,8) by auto
    then have "p = s" using s(8) nm old assms(6) by auto
    with p show ?thesis by simp
  qed
  obtain sem where "sems S' s = Some sem" using s(6) by (auto simp: named_def)
  then have "semOpen (Some (n @ nul # t)) w S' = Some (s, S')" for t w
    using g sl sn s(7) by (simp add: semOpen_def sem_at_def)
  with s(1,3,4,5,9) sn g show ?thesis by (intro exI [of _ s] exI [of _ S']) simp
qed

theorem semOpen_registers_witness:
  "\<exists>s S'. semOpen (Some (''mutex'' @ nul # [])) 1 boot_system = Some (s, S') \<and>
     getSem (Some (''mutex'' @ nul # ''xyz'')) S' = Some s"
proof -
  obtain i where i: "getPid (kern boot_system) = Some i" using running_pid by auto
  have n: "nul \<notin> set ''mutex''" "length ''mutex'' < 4000" by simp_all
  have pg: "6 \<le> pages_left (kern boot_system)" using boot_system_ok(3) by simp
  have "\<not> (\<exists>q\<in>set (items (semaphoreList boot_system)). named boot_system q ''mutex'')"
    using boot_system_ok(4) by simp
  from semOpen_registers [OF boot_system_ok(1,2) pg n this i, of "[]" 1] show ?thesis by blast
qed

text \<open>C14: waiting. With a positive value \<open>semWait\<close> counts down and returns, without touching the scheduler;
  otherwise it counts down, queues the caller on the semaphore, blocks it and gives the processor to
  another process. The semaphore's and the scheduler's invariants hold afterwards.\<close>

theorem semWait_takes_or_blocks:
  assumes "sem_inv S s" and "- (2 ^ 31) < val S s" and "sched_inv (kern S)" and "sem_mem R S s"
    and "2 < pages_left (kern S)" and "on_cpu (kern S)"
    and "pid (pr_of (kern S) (currentProcess (kern S))) \<noteq> 0"
  defines "c \<equiv> currentProcess (kern S)"
  shows "\<exists>r S'. semWait sp s S = Some (r, S') \<and> sem_inv S' s \<and> sched_inv (kern S') \<and> sem_mem R S' s \<and>
           val S' s = val S s - 1 \<and>
           (if 0 < val S s then r = Ret () \<and> kern S' = kern S \<and> waiting S' s = []
            else (\<exists>sp'. r = Switch sp') \<and> waiting S' s = waiting S s @ [pid (pr_of (kern S) c)] \<and>
                 c \<in> in_state (kern S') BLOCKED \<and> currentProcess (kern S') \<noteq> c \<and>
                 st_of (kern S') (currentProcess (kern S')) = RUNNING)"
proof (cases "0 < val S s")
  case True
  have "currentProcess (kern S) \<in> set (table (kern S))" using assms(6) by (auto simp: on_cpu_def in_state_def)
  from table_okD(3) [OF sched_invD(1) [OF assms(3)] this] have "getPid (kern S) \<noteq> None"
    by (simp add: getPid_def pcb_def)
  from semWait_free [OF assms(1) True this, of sp] True assms(3,4) show ?thesis by auto
next
  case False
  then have "val S s \<le> 0" by simp
  from semWait_blocks [OF assms(1) this assms(2-7), of sp] False show ?thesis unfolding c_def by auto
qed

theorem semWait_takes_or_blocks_witness:
  "\<exists>s S r S'. semOpen (Some (''mutex'' @ [nul])) 1 boot_system = Some (s, S) \<and>
     semWait 0x700000 s S = Some (r, S') \<and> sem_inv S' s \<and> val S' s = 0"
proof -
  obtain s S R where m: "semOpen (Some (''mutex'' @ [nul])) 1 boot_system = Some (s, S)" "sem_inv S s"
      "sched_inv (kern S)" "sem_mem R S s" "val S s = 1" "on_cpu (kern S)"
      "pid (pr_of (kern S) (currentProcess (kern S))) = 1" "1700 \<le> pages_left (kern S)"
    using mutex_exists by blast
  from semWait_takes_or_blocks [OF m(2) _ m(3,4) _ m(6), of "0x700000"] m show ?thesis by auto
qed

text \<open>C15: posting. \<open>semPost\<close> counts up; with nobody waiting the scheduler is untouched, otherwise the process
  that has waited longest becomes ready at the end of its level and only its control block changes.\<close>

theorem semPost_wakes_first:
  assumes "sem_inv S s" and "val S s < 2 ^ 31 - 1" and "sched_inv (kern S)" and "sem_mem R S s"
    and "0 < pages_left (kern S)" and "currentProcess (kern S) \<notin> in_state (kern S) BLOCKED"
    and "\<not> pendingDestruction (the (sems S s))"
  shows "\<exists>S'. semPost s S = Some S' \<and> sem_inv S' s \<and> sched_inv (kern S') \<and> sem_mem R S' s \<and>
           val S' s = val S s + 1 \<and>
           (case waiting S s of
              [] \<Rightarrow> kern S' = kern S \<and> waiting S' s = []
            | j # js \<Rightarrow> waiting S' s = js \<and>
                (\<exists>p. p \<in> in_state (kern S) BLOCKED \<and> pid (pr_of (kern S) p) = j \<and> st_of (kern S') p = READY \<and>
                     ready (kern S') (level (kern S) p) = ready (kern S) (level (kern S) p) @ [p] \<and>
                     (\<forall>q. q \<noteq> p \<longrightarrow> pr_of (kern S') q = pr_of (kern S) q)))"
proof (cases "waiting S s")
  case Nil
  from semPost_free [OF assms(1) Nil assms(2,7)] assms(3,4) Nil show ?thesis by auto
next
  case (Cons j js)
  from semPost_wakes [OF assms(1) Cons assms(3-7)] Cons show ?thesis by auto
qed

theorem semPost_wakes_first_witness:
  "\<exists>s S S'. semOpen (Some (''mutex'' @ [nul])) 1 boot_system = Some (s, S) \<and>
     semPost s S = Some S' \<and> sem_inv S' s \<and> val S' s = 2"
proof -
  obtain s S R where m: "semOpen (Some (''mutex'' @ [nul])) 1 boot_system = Some (s, S)" "sem_inv S s"
      "sched_inv (kern S)" "sem_mem R S s" "val S s = 1" "on_cpu (kern S)"
      "\<not> pendingDestruction (the (sems S s))" "1700 \<le> pages_left (kern S)"
    using mutex_exists by blast
  have "0 < pages_left (kern S)" "val S s < 2 ^ 31 - 1" using m by simp_all
  from semPost_wakes_first [OF m(2) this(2) m(3,4) this(1) running_not_blocked [OF m(6)] m(7)] m
  show ?thesis by auto
qed

text \<open>C16: no permit is lost or made up. Whatever sequence of waits, posts and timer ticks is run on a
  semaphore that starts at \<open>v0\<close>, the processes that \<open>semWait\<close> let through and the permits left add up to
  \<open>v0\<close>; in particular a mutex is held by at most one process, and when somebody waits all permits are held. Whether a
  wait lets its caller through or blocks it, and whom a post lets through, is decided by the code. The callers are not the
  idle process; one that finds no permit has the two pages that queueing needs and a pid other than 0; the counter does not
  overflow; and a process posts only after it was let through.\<close>

theorem permits_conserved:
  assumes "sem_run s R v0 S h"
  shows "int h + max 0 (val S s) = v0 \<and> int h \<le> v0 \<and> (waiting S s \<noteq> [] \<longrightarrow> int h = v0) \<and>
         sem_inv S s \<and> sched_inv (kern S)"
  using sem_run_inv [OF assms] by (auto simp: run_inv_def sem_inv_def max_def split: if_splits)

theorem permits_conserved_witness:
  "\<exists>s R S S'. sem_run s R 1 S 0 \<and> sem_run s R 1 S' 1 \<and> val S' s = 0"
proof -
  obtain s S R where m: "sem_inv S s" "sched_inv (kern S)" "sem_mem R S s" "waiting S s = []" "val S s = 1"
      "on_cpu (kern S)" "\<not> pendingDestruction (the (sems S s))"
    using mutex_exists by blast
  have ct: "currentProcess (kern S) \<in> set (table (kern S))" using m(6) by (auto simp: on_cpu_def in_state_def)
  have g: "getPid (kern S) \<noteq> None"
    using table_okD(3) [OF sched_invD(1) [OF m(2)] ct] by (simp add: getPid_def pcb_def)
  from semWait_free [OF m(1) _ g, of "0x700000"] m(5) obtain S' where
    w: "semWait 0x700000 s S = Some (Ret (), S')" "val S' s = 0" by auto
  have st: "sem_run s R 1 S 0" by (rule sem_run.start) (use m in auto)
  have "sem_run s R 1 S' (0 + let_through (Ret ()))"
    by (rule sem_run.wait [OF st m(6) w(1)]) (simp add: m(5))
  then have r: "sem_run s R 1 S' 1" by simp
  from permits_conserved [OF this] have "val S' s \<le> 0" by auto
  with st r w(2) show ?thesis by blast
qed

end
