(* ===== verification/Ring.thy ===== *)
theory Ring
  imports Digits
begin

text \<open>
  The circular buffers of the kernel: the keyboard buffer and the buffer of a pipe are both an array
  with a reading index, a writing index and a count. \<open>ring\<close> is what they hold, oldest first. The locale
  \<open>bounded_fifo\<close> is their common contract; its lemmas are about runs of operations.
\<close>

section \<open>Contents of a circular array\<close>

definition ring :: "'a list \<Rightarrow> nat \<Rightarrow> nat \<Rightarrow> 'a list" where
  "ring xs r n = map (\<lambda>i. xs ! ((r + i) mod length xs)) [0..<n]"

definition ring_ok :: "'a list \<Rightarrow> nat \<Rightarrow> nat \<Rightarrow> nat \<Rightarrow> bool" where
  "ring_ok xs r w n \<longleftrightarrow> r < length xs \<and> n \<le> length xs \<and> w = (r + n) mod length xs"

lemma ring_length [simp]: "length (ring xs r n) = n"
  by (simp add: ring_def)

lemma mod_shift: "i < j \<Longrightarrow> j < i + m \<Longrightarrow> (i :: nat) mod m \<noteq> j mod m"
  by (metis less_diff_conv2 less_imp_le_nat mod_eq_dvd_iff_nat nat_dvd_not_less zero_less_diff add.commute)

lemma ring_put:
  assumes "ring_ok xs r w n" and "n < length xs"
  shows "ring (xs[w := x]) r (Suc n) = ring xs r n @ [x]"
    and "ring_ok (xs[w := x]) r ((w + 1) mod length xs) (Suc n)"
proof -
  have "w \<noteq> (r + i) mod length xs" if "i < n" for i
    using mod_shift [of "r + i" "r + n" "length xs"] that assms by (auto simp: ring_ok_def)
  moreover have "0 < length xs" using assms(2) by (rule le_less_trans [OF le0])
  then have "w < length xs" using assms(1) by (simp add: ring_ok_def)
  moreover have "(r + n) mod length xs = w" using assms(1) by (simp add: ring_ok_def)
  ultimately show "ring (xs[w := x]) r (Suc n) = ring xs r n @ [x]"
    by (simp add: ring_def nth_list_update_neq)
  show "ring_ok (xs[w := x]) r ((w + 1) mod length xs) (Suc n)"
    using assms by (simp add: ring_ok_def mod_simps)
qed

lemma ring_get:
  assumes "ring_ok xs r w (Suc n)"
  shows "ring xs r (Suc n) = xs ! r # ring xs ((r + 1) mod length xs) n"
    and "ring_ok xs ((r + 1) mod length xs) w n"
proof -
  have r: "r < length xs" using assms by (simp add: ring_ok_def)
  show "ring xs r (Suc n) = xs ! r # ring xs ((r + 1) mod length xs) n"
    using r by (simp add: ring_def upt_conv_Cons map_Suc_upt [symmetric] mod_simps del: upt_Suc)
  have "0 < length xs" using r by (rule le_less_trans [OF le0])
  then show "ring_ok xs ((r + 1) mod length xs) w n" using assms by (simp add: ring_ok_def mod_simps)
qed

section \<open>The contract\<close>

locale bounded_fifo =
  fixes put :: "'a \<Rightarrow> 'b \<Rightarrow> 'b option"
    and get :: "'b \<Rightarrow> ('a \<times> 'b) option"
    and inv :: "'b \<Rightarrow> bool"
    and held :: "'b \<Rightarrow> 'a list"
    and cap :: nat
    and legal :: "'a \<Rightarrow> bool"
  assumes bound: "inv b \<Longrightarrow> length (held b) \<le> cap"
    and put_room: "inv b \<Longrightarrow> legal x \<Longrightarrow> length (held b) < cap \<Longrightarrow> \<exists>b'. put x b = Some b' \<and> inv b' \<and> held b' = held b @ [x]"
    and get_some: "inv b \<Longrightarrow> held b = x # xs \<Longrightarrow> \<exists>b'. get b = Some (x, b') \<and> inv b' \<and> held b' = xs"
begin

text \<open>Writing a text and reading it back, in pieces of any size that fit.\<close>

fun puts :: "'a list \<Rightarrow> 'b \<Rightarrow> 'b option" where
  "puts [] b = Some b"
| "puts (x # xs) b = do { b \<leftarrow> put x b; puts xs b }"

fun gets :: "nat \<Rightarrow> 'b \<Rightarrow> ('a list \<times> 'b) option" where
  "gets 0 b = Some ([], b)"
| "gets (Suc n) b = do { (x, b) \<leftarrow> get b; (xs, b) \<leftarrow> gets n b; Some (x # xs, b) }"

lemma puts_held:
  assumes "inv b" and "list_all legal xs" and "length (held b) + length xs \<le> cap"
  shows "\<exists>b'. puts xs b = Some b' \<and> inv b' \<and> held b' = held b @ xs"
  using assms
proof (induction xs arbitrary: b)
  case (Cons x xs)
  then obtain b1 where b1: "put x b = Some b1" "inv b1" "held b1 = held b @ [x]"
    using put_room [of b x] by auto
  with Cons.IH [of b1] Cons.prems show ?case by auto
qed simp

lemma gets_held:
  assumes "inv b" and "n \<le> length (held b)"
  shows "\<exists>b'. gets n b = Some (take n (held b), b') \<and> inv b' \<and> held b' = drop n (held b)"
  using assms
proof (induction n arbitrary: b)
  case (Suc n)
  then obtain x xs where h: "held b = x # xs" by (cases "held b") auto
  from get_some [OF Suc.prems(1) h] obtain b1 where b1: "get b = Some (x, b1)" "inv b1" "held b1 = xs" by blast
  with Suc.IH [of b1] Suc.prems h show ?case by auto
qed simp

lemma puts_gets:
  assumes "inv b" and "held b = []" and "list_all legal xs" and "length xs \<le> cap"
  shows "\<exists>b' b''. puts xs b = Some b' \<and> gets (length xs) b' = Some (xs, b'') \<and> held b'' = []"
  using puts_held [OF assms(1), of xs] gets_held [of _ "length xs"] assms(2-4) by fastforce

end

end
