(* ===== verification/Pipe.thy ===== *)
theory Pipe
  imports Semaphore Ring
begin

text \<open>
  \<open>Kernel/ipc/pipe.c\<close>: two pipes, each a block with a circular buffer of 256 characters, two file
  descriptors and the names of its two semaphores. A call that waits on a semaphore may lose the
  processor in the middle; it then continues with the corresponding \<open>_resume\<close> definition.
\<close>

section \<open>State\<close>

abbreviation MAX_PIPES :: nat where "MAX_PIPES \<equiv> 2"
abbreviation PIPE_BUFFER :: nat where "PIPE_BUFFER \<equiv> 256"
abbreviation SEM_NAME_SIZE :: nat where "SEM_NAME_SIZE \<equiv> 32"

record pipe_t =
  pbuffer :: string
  fds :: "u16 \<times> u16"
  readingPos :: u64
  writePos :: u64
  psize :: u64
  writeSemName :: "char list"
  readSemName :: "char list"

definition sizeof_pipe_t :: u64 where "sizeof_pipe_t = 352"

record pipe_sys =
  sys :: system
  pipes :: "ptr list"
  pipe_mem :: "ptr \<Rightarrow> pipe_t option"
  nextFd :: u16

definition pipe_at :: "ptr \<Rightarrow> pipe_sys \<Rightarrow> pipe_t option" where
  "pipe_at p P = (if p = NULL then None else pipe_mem P p)"

definition upd_pipe :: "ptr \<Rightarrow> (pipe_t \<Rightarrow> pipe_t) \<Rightarrow> pipe_sys \<Rightarrow> pipe_sys option" where
  "upd_pipe p f P = do { pipe \<leftarrow> pipe_at p P; Some (P\<lparr>pipe_mem := (pipe_mem P)(p \<mapsto> f pipe)\<rparr>) }"

abbreviation pipe_kmem :: "pipe_sys \<Rightarrow> pmem" where
  "pipe_kmem P \<equiv> kmem (kern (sys P))"

text \<open>Writing a text and its terminator over an array of characters, as \<open>ksprintf\<close> does.\<close>

definition write_over :: "string \<Rightarrow> char list \<Rightarrow> char list option" where
  "write_over s arr = (if length s < length arr then Some (s @ nul # drop (Suc (length s)) arr) else None)"

definition buildSemName :: "u32 \<Rightarrow> string \<Rightarrow> char list \<Rightarrow> char list option" where
  "buildSemName pipeId suffix out =
     do { (s, _) \<leftarrow> ksprintf ''%d_%s'' [AInt pipeId, AStr (Some suffix)]; write_over s out }"

section \<open>Opening and closing\<close>

text \<open>\<open>uninit\<close> is what the new block held before. The result: the identifier, and what is in \<open>fds\<close>.\<close>

definition pipe_create :: "nat \<Rightarrow> pipe_t \<Rightarrow> u16 \<times> u16 \<Rightarrow> pipe_sys \<Rightarrow> (int \<times> (u16 \<times> u16) \<times> pipe_sys) option" where
  "pipe_create i uninit out P =
     (let (m, p) = mem_alloc (pipe_kmem P) sizeof_pipe_t;
          P = P\<lparr>sys := with_mem (sys P) m, pipes := (pipes P)[i := p]\<rparr>
      in if p = NULL then Some (-1, out, P)
         else do {
           let f0 = nextFd P;
           let f1 = nextFd P + 1;
           let P = P\<lparr>nextFd := nextFd P + 2,
                     pipe_mem := (pipe_mem P)(p \<mapsto> uninit\<lparr>readingPos := 0, writePos := 0, psize := 0, fds := (f0, f1)\<rparr>)\<rparr>;
           wn \<leftarrow> buildSemName (of_nat i) ''write'' (writeSemName uninit);
           P \<leftarrow> upd_pipe p (\<lambda>pipe. pipe\<lparr>writeSemName := wn\<rparr>) P;
           (ws, S) \<leftarrow> semOpen (Some wn) (of_nat PIPE_BUFFER) (sys P);
           let P = P\<lparr>sys := S\<rparr>;
           if ws = NULL
           then do {
             m \<leftarrow> mem_free (pipe_kmem P) p;
             Some (-1, (f0, f1), P\<lparr>sys := with_mem (sys P) m, pipes := (pipes P)[i := NULL]\<rparr>)
           }
           else do {
             rn \<leftarrow> buildSemName (of_nat i) ''read'' (readSemName uninit);
             P \<leftarrow> upd_pipe p (\<lambda>pipe. pipe\<lparr>readSemName := rn\<rparr>) P;
             (rs, S) \<leftarrow> semOpen (Some rn) 0 (sys P);
             let P = P\<lparr>sys := S\<rparr>;
             if rs = NULL
             then do {
               (_, S) \<leftarrow> sem_unlink (Some wn) (sys P);
               S \<leftarrow> semClose rs S;
               m \<leftarrow> mem_free (kmem (kern S)) p;
               Some (-1, (f0, f1), P\<lparr>sys := with_mem S m, pipes := (pipes P)[i := NULL]\<rparr>)
             }
             else Some (int i, (f0, f1), P)
           }
         })"

fun pipe_open_loop :: "nat list \<Rightarrow> pipe_t \<Rightarrow> u16 \<times> u16 \<Rightarrow> pipe_sys \<Rightarrow> (int \<times> (u16 \<times> u16) \<times> pipe_sys) option" where
  "pipe_open_loop [] uninit out P = Some (-1, out, P)"
| "pipe_open_loop (i # is) uninit out P =
     do {
       p \<leftarrow> aget (pipes P) i;
       if p = NULL then pipe_create i uninit out P else pipe_open_loop is uninit out P
     }"

definition pipe_open :: "pipe_t \<Rightarrow> u16 \<times> u16 \<Rightarrow> pipe_sys \<Rightarrow> (int \<times> (u16 \<times> u16) \<times> pipe_sys) option" where
  "pipe_open uninit out P = pipe_open_loop [0..<MAX_PIPES] uninit out P"

fun get_pipe_idx_loop :: "nat list \<Rightarrow> u16 \<Rightarrow> pipe_sys \<Rightarrow> int option" where
  "get_pipe_idx_loop [] fd P = Some (-1)"
| "get_pipe_idx_loop (i # is) fd P =
     do {
       p \<leftarrow> aget (pipes P) i;
       if p = NULL then get_pipe_idx_loop is fd P
       else do {
         pipe \<leftarrow> pipe_at p P;
         if fst (fds pipe) = fd \<or> snd (fds pipe) = fd then Some (int i) else get_pipe_idx_loop is fd P
       }
     }"

definition get_pipe_idx :: "u16 \<Rightarrow> pipe_sys \<Rightarrow> int option" where
  "get_pipe_idx fd P = get_pipe_idx_loop [0..<MAX_PIPES] fd P"

definition pipe_close :: "int \<Rightarrow> pipe_sys \<Rightarrow> (int \<times> pipe_sys) option" where
  "pipe_close pipe_id P =
     (if pipe_id < 0 \<or> pipe_id \<ge> int MAX_PIPES then Some (-1, P)
      else do {
        p \<leftarrow> aget (pipes P) (nat pipe_id);
        if p = NULL then Some (-1, P)
        else do {
          pipe \<leftarrow> pipe_at p P;
          rs \<leftarrow> getSem (Some (readSemName pipe)) (sys P);
          S \<leftarrow> semClose rs (sys P);
          ws \<leftarrow> getSem (Some (writeSemName pipe)) S;
          S \<leftarrow> semClose ws S;
          (_, S) \<leftarrow> sem_unlink (Some (readSemName pipe)) S;
          (_, S) \<leftarrow> sem_unlink (Some (writeSemName pipe)) S;
          m \<leftarrow> mem_free (kmem (kern S)) p;
          Some (0, P\<lparr>sys := with_mem S m, pipes := (pipes P)[nat pipe_id := NULL]\<rparr>)
        }
      })"

section \<open>Writing and reading\<close>

text \<open>The part of each loop after the wait.\<close>

definition pipe_put :: "ptr \<Rightarrow> char \<Rightarrow> pipe_sys \<Rightarrow> pipe_sys option" where
  "pipe_put p c P =
     do {
       pipe \<leftarrow> pipe_at p P;
       b \<leftarrow> aset (pbuffer pipe) (unat (writePos pipe)) c;
       P \<leftarrow> upd_pipe p (\<lambda>pipe. pipe\<lparr>pbuffer := b, writePos := (writePos pipe + 1) mod of_nat PIPE_BUFFER,
                                    psize := psize pipe + 1\<rparr>) P;
       rs \<leftarrow> getSem (Some (readSemName pipe)) (sys P);
       S \<leftarrow> semPost rs (sys P);
       Some (P\<lparr>sys := S\<rparr>)
     }"

definition pipe_get :: "ptr \<Rightarrow> pipe_sys \<Rightarrow> (char \<times> pipe_sys) option" where
  "pipe_get p P =
     do {
       pipe \<leftarrow> pipe_at p P;
       c \<leftarrow> aget (pbuffer pipe) (unat (readingPos pipe));
       P \<leftarrow> upd_pipe p (\<lambda>pipe. pipe\<lparr>readingPos := (readingPos pipe + 1) mod of_nat PIPE_BUFFER,
                                    psize := psize pipe - 1\<rparr>) P;
       ws \<leftarrow> getSem (Some (writeSemName pipe)) (sys P);
       S \<leftarrow> semPost ws (sys P);
       Some (c, P\<lparr>sys := S\<rparr>)
     }"

text \<open>The loops: \<open>written\<close> and \<open>acc\<close> are the progress made; on a switch they tell where to resume.\<close>

fun pipe_write_from :: "ptr \<Rightarrow> ptr \<Rightarrow> char list \<Rightarrow> int \<Rightarrow> pipe_sys \<Rightarrow> (unit ctl \<times> int \<times> pipe_sys) option" where
  "pipe_write_from sp p [] written P = Some (Ret (), written, P)"
| "pipe_write_from sp p (c # cs) written P =
     do {
       pipe \<leftarrow> pipe_at p P;
       ws \<leftarrow> getSem (Some (writeSemName pipe)) (sys P);
       (r, S) \<leftarrow> semWait sp ws (sys P);
       let P = P\<lparr>sys := S\<rparr>;
       (case r of
          Switch sp' \<Rightarrow> Some (Switch sp', written, P)
        | Ret _ \<Rightarrow> do { P \<leftarrow> pipe_put p c P; pipe_write_from sp p cs (written + 1) P })
     }"

definition pipe_write_resume :: "ptr \<Rightarrow> ptr \<Rightarrow> char list \<Rightarrow> int \<Rightarrow> pipe_sys \<Rightarrow> (unit ctl \<times> int \<times> pipe_sys) option" where
  "pipe_write_resume sp p cs written P =
     do { P \<leftarrow> pipe_put p (hd cs) P; pipe_write_from sp p (tl cs) (written + 1) P }"

fun pipe_read_from :: "ptr \<Rightarrow> ptr \<Rightarrow> nat \<Rightarrow> string \<Rightarrow> pipe_sys \<Rightarrow> (unit ctl \<times> string \<times> pipe_sys) option" where
  "pipe_read_from sp p 0 acc P = Some (Ret (), acc, P)"
| "pipe_read_from sp p (Suc n) acc P =
     do {
       pipe \<leftarrow> pipe_at p P;
       rs \<leftarrow> getSem (Some (readSemName pipe)) (sys P);
       (r, S) \<leftarrow> semWait sp rs (sys P);
       let P = P\<lparr>sys := S\<rparr>;
       (case r of
          Switch sp' \<Rightarrow> Some (Switch sp', acc, P)
        | Ret _ \<Rightarrow> do { (c, P) \<leftarrow> pipe_get p P; pipe_read_from sp p n (acc @ [c]) P })
     }"

definition pipe_read_resume :: "ptr \<Rightarrow> ptr \<Rightarrow> nat \<Rightarrow> string \<Rightarrow> pipe_sys \<Rightarrow> (unit ctl \<times> string \<times> pipe_sys) option" where
  "pipe_read_resume sp p n acc P =
     do { (c, P) \<leftarrow> pipe_get p P; pipe_read_from sp p (n - 1) (acc @ [c]) P }"

text \<open>The results are 16 bits wide; \<open>buffer\<close> is the caller's array.\<close>

definition to_i16 :: "int \<Rightarrow> int" where
  "to_i16 n = sint (word_of_int n :: u16)"

definition find_pipe :: "u16 \<Rightarrow> pipe_sys \<Rightarrow> ptr option" where
  "find_pipe fd P =
     do { i \<leftarrow> get_pipe_idx fd P;
          if i < 0 \<or> i \<ge> int MAX_PIPES then Some NULL else aget (pipes P) (nat i) }"

definition pipe_write :: "ptr \<Rightarrow> u16 \<Rightarrow> char list \<Rightarrow> int \<Rightarrow> pipe_sys \<Rightarrow> (int ctl \<times> pipe_sys) option" where
  "pipe_write sp fd buffer cnt P =
     do {
       p \<leftarrow> find_pipe fd P;
       if p = NULL then Some (Ret (-1), P)
       else if nat cnt > length buffer then None
       else do {
         (r, written, P) \<leftarrow> pipe_write_from sp p (take (nat cnt) buffer) 0 P;
         (case r of Switch sp' \<Rightarrow> Some (Switch sp', P) | Ret _ \<Rightarrow> Some (Ret (to_i16 written), P))
       }
     }"

definition pipe_read :: "ptr \<Rightarrow> u16 \<Rightarrow> int \<Rightarrow> pipe_sys \<Rightarrow> (int ctl \<times> string \<times> pipe_sys) option" where
  "pipe_read sp fd cnt P =
     do {
       p \<leftarrow> find_pipe fd P;
       if p = NULL then Some (Ret (-1), [], P)
       else do {
         (r, cs, P) \<leftarrow> pipe_read_from sp p (nat cnt) [] P;
         (case r of Switch sp' \<Rightarrow> Some (Switch sp', cs, P)
          | Ret _ \<Rightarrow> Some (Ret (to_i16 (int (length cs))), cs, P))
       }
     }"

section \<open>Invariant\<close>

text \<open>
  A pipe with nobody waiting: the buffer is a well-formed circular array, and its two semaphores, found
  under the names in the pipe, cnt the characters held and the room left.
\<close>

definition pipe_sems :: "pipe_sys \<Rightarrow> pipe_t \<Rightarrow> ptr \<Rightarrow> ptr \<Rightarrow> bool" where
  "pipe_sems P pipe rs ws \<longleftrightarrow>
     getSem (Some (readSemName pipe)) (sys P) = Some rs \<and> getSem (Some (writeSemName pipe)) (sys P) = Some ws \<and>
     rs \<noteq> ws \<and> sem_inv (sys P) rs \<and> sem_inv (sys P) ws \<and>
     \<not> pendingDestruction (the (sems (sys P) rs)) \<and> \<not> pendingDestruction (the (sems (sys P) ws))"

definition pipe_ring :: "pipe_t \<Rightarrow> bool" where
  "pipe_ring pipe \<longleftrightarrow>
     length (pbuffer pipe) = PIPE_BUFFER \<and>
     ring_ok (pbuffer pipe) (unat (readingPos pipe)) (unat (writePos pipe)) (unat (psize pipe))"

definition pipe_ok :: "ptr \<Rightarrow> pipe_sys \<Rightarrow> bool" where
  "pipe_ok p P \<longleftrightarrow>
     p \<noteq> NULL \<and> getPid (kern (sys P)) \<noteq> None \<and>
     (\<exists>pipe rs ws. pipe_mem P p = Some pipe \<and> pipe_ring pipe \<and> pipe_sems P pipe rs ws \<and>
        val (sys P) rs = int (unat (psize pipe)) \<and> val (sys P) ws = int PIPE_BUFFER - int (unat (psize pipe)))"

definition contents :: "ptr \<Rightarrow> pipe_sys \<Rightarrow> string" where
  "contents p P = (case pipe_mem P p of
     Some pipe \<Rightarrow> ring (pbuffer pipe) (unat (readingPos pipe)) (unat (psize pipe)) | None \<Rightarrow> [])"

lemma pos_step: "unat (w :: u64) < 256 \<Longrightarrow> unat ((w + 1) mod of_nat PIPE_BUFFER) = (unat w + 1) mod PIPE_BUFFER"
  by (simp add: unat_mod unat_word_ariths)

lemma size_up: "unat (n :: u64) < 256 \<Longrightarrow> unat (n + 1) = Suc (unat n)"
  by (simp add: unat_word_ariths)

lemma size_down: "(n :: u64) \<noteq> 0 \<Longrightarrow> unat n = Suc (unat (n - 1))"
  by (simp add: unat_minus_one unat_gt_0)

text \<open>A wait and a post on two semaphores of the same system, when nobody has to wait.\<close>

lemma wait_then_post:
  assumes a: "sem_inv S a" "0 < val S a" and b: "sem_inv S b" "0 \<le> val S b" "val S b < 2 ^ 31 - 1"
    and ab: "a \<noteq> b" and pd: "\<not> pendingDestruction (the (sems S a))" "\<not> pendingDestruction (the (sems S b))"
    and gp: "getPid (kern S) \<noteq> None"
  shows "\<exists>S1 S2. semWait sp a S = Some (Ret (), S1) \<and> semPost b S1 = Some S2 \<and> kern S1 = kern S \<and> kern S2 = kern S \<and>
           sem_inv S2 a \<and> sem_inv S2 b \<and> val S2 a = val S a - 1 \<and> val S2 b = val S b + 1 \<and>
           (\<forall>n. getSem n S1 = getSem n S) \<and> (\<forall>n. getSem n S2 = getSem n S) \<and>
           \<not> pendingDestruction (the (sems S2 a)) \<and> \<not> pendingDestruction (the (sems S2 b)) \<and>
           (\<forall>t. t \<noteq> a \<longrightarrow> t \<noteq> b \<longrightarrow> sems S2 t = sems S t)"
proof -
  from semWait_free [OF a gp, of sp] obtain S1 where
    s1: "semWait sp a S = Some (Ret (), S1)" "sem_inv S1 a" "kern S1 = kern S" "val S1 a = val S a - 1"
      "\<forall>t. t \<noteq> a \<longrightarrow> sems S1 t = sems S t" "\<forall>n. getSem n S1 = getSem n S"
      "pendingDestruction (the (sems S1 a)) = pendingDestruction (the (sems S a))" by blast
  have "sems S1 b = sems S b" using s1(5) ab by auto
  then have b1: "sem_inv S1 b" "val S1 b = val S b" "waiting S1 b = waiting S b"
    "\<not> pendingDestruction (the (sems S1 b))"
    using b pd s1(3) by (simp_all add: sem_inv_def val_def waiting_def)
  have w: "waiting S1 b = []" using b(1,2) b1(3) by (simp add: sem_inv_def max_def split: if_splits)
  from semPost_free [OF b1(1) w _ b1(4)] b(3) b1(2) obtain S2 where
    s2: "semPost b S1 = Some S2" "sem_inv S2 b" "kern S2 = kern S1" "val S2 b = val S1 b + 1"
      "\<forall>t. t \<noteq> b \<longrightarrow> sems S2 t = sems S1 t" "\<forall>n. getSem n S2 = getSem n S1"
      "pendingDestruction (the (sems S2 b)) = pendingDestruction (the (sems S1 b))" by auto
  have "sems S2 a = sems S1 a" using s2(5) ab by auto
  then have "sem_inv S2 a" "val S2 a = val S1 a" "\<not> pendingDestruction (the (sems S2 a))"
    using s1(2,7) s2(3) pd by (simp_all add: sem_inv_def val_def waiting_def)
  with s1 s2 b1 show ?thesis by (intro exI [of _ S1] exI [of _ S2]) simp
qed

text \<open>The semaphores of a pipe; what an operation on one pipe leaves alone, all others are made of.\<close>

definition sems_of :: "ptr \<Rightarrow> pipe_sys \<Rightarrow> ptr set" where
  "sems_of p P = {s. \<exists>pipe. pipe_mem P p = Some pipe \<and>
     (getSem (Some (readSemName pipe)) (sys P) = Some s \<or> getSem (Some (writeSemName pipe)) (sys P) = Some s)}"

definition only_pipe :: "ptr \<Rightarrow> pipe_sys \<Rightarrow> pipe_sys \<Rightarrow> bool" where
  "only_pipe p P P' \<longleftrightarrow>
     pipes P' = pipes P \<and> kern (sys P') = kern (sys P) \<and> (\<forall>n. getSem n (sys P') = getSem n (sys P)) \<and>
     (\<forall>s. s \<notin> sems_of p P \<longrightarrow> sems (sys P') s = sems (sys P) s) \<and> (\<forall>q. q \<noteq> p \<longrightarrow> pipe_mem P' q = pipe_mem P q) \<and>
     (\<exists>f. pipe_mem P' p = map_option f (pipe_mem P p) \<and>
        (\<forall>x. fds (f x) = fds x \<and> readSemName (f x) = readSemName x \<and> writeSemName (f x) = writeSemName x))"

lemma only_pipe_refl: "only_pipe p P P"
  unfolding only_pipe_def by (intro conjI exI [of _ "\<lambda>x. x"]) (simp_all add: option.map_ident)

lemma only_pipe_sems: "only_pipe p P P' \<Longrightarrow> sems_of q P' = sems_of q P"
  unfolding only_pipe_def sems_of_def by (cases "q = p"; cases "pipe_mem P p") auto

lemma only_pipe_trans:
  assumes "only_pipe p P P1" and "only_pipe p P1 P2"
  shows "only_pipe p P P2"
proof -
  from assms obtain f g where
    "pipe_mem P1 p = map_option f (pipe_mem P p)" "pipe_mem P2 p = map_option g (pipe_mem P1 p)"
    "\<forall>x. fds (f x) = fds x \<and> readSemName (f x) = readSemName x \<and> writeSemName (f x) = writeSemName x"
    "\<forall>x. fds (g x) = fds x \<and> readSemName (g x) = readSemName x \<and> writeSemName (g x) = writeSemName x"
    unfolding only_pipe_def by blast
  then have "\<exists>h. pipe_mem P2 p = map_option h (pipe_mem P p) \<and>
      (\<forall>x. fds (h x) = fds x \<and> readSemName (h x) = readSemName x \<and> writeSemName (h x) = writeSemName x)"
    by (intro exI [of _ "g \<circ> f"]) (simp add: option.map_comp)
  then show ?thesis using assms only_pipe_sems [OF assms(1), of p] by (simp add: only_pipe_def)
qed

lemma other_pipe:
  assumes "only_pipe p P P'" and "pipe_ok q P" and "q \<noteq> p" and "sems_of q P \<inter> sems_of p P = {}"
  shows "pipe_ok q P' \<and> contents q P' = contents q P"
proof -
  from assms(2) obtain pipe rs ws where o: "q \<noteq> NULL" "getPid (kern (sys P)) \<noteq> None" "pipe_mem P q = Some pipe"
    "pipe_ring pipe" "pipe_sems P pipe rs ws" "val (sys P) rs = int (unat (psize pipe))"
    "val (sys P) ws = int PIPE_BUFFER - int (unat (psize pipe))" unfolding pipe_ok_def by blast
  have "rs \<in> sems_of q P" "ws \<in> sems_of q P" using o(3,5) by (auto simp: sems_of_def pipe_sems_def)
  then have "rs \<notin> sems_of p P" "ws \<notin> sems_of p P" using assms(4) by auto
  then have e: "sems (sys P') rs = sems (sys P) rs" "sems (sys P') ws = sems (sys P) ws" "kern (sys P') = kern (sys P)"
    "pipe_mem P' q = pipe_mem P q" "\<forall>n. getSem n (sys P') = getSem n (sys P)"
    using assms(1,3) by (auto simp: only_pipe_def)
  have "pipe_sems P' pipe rs ws" "val (sys P') rs = val (sys P) rs" "val (sys P') ws = val (sys P) ws"
    using o(5) e by (simp_all add: pipe_sems_def sem_inv_def val_def waiting_def)
  with o e show ?thesis unfolding pipe_ok_def by (auto simp: contents_def)
qed

text \<open>One character in, one character out.\<close>

lemma write_byte:
  assumes ok: "pipe_ok p P" and room: "length (contents p P) < PIPE_BUFFER"
  shows "\<exists>P'. (\<forall>cs n. pipe_write_from sp p (c # cs) n P = pipe_write_from sp p cs (n + 1) P') \<and>
           pipe_ok p P' \<and> contents p P' = contents p P @ [c] \<and> pipes P' = pipes P \<and>
           kern (sys P') = kern (sys P) \<and> map_option fds (pipe_mem P' p) = map_option fds (pipe_mem P p) \<and>
           (\<forall>q. q \<noteq> p \<longrightarrow> pipe_mem P' q = pipe_mem P q) \<and> only_pipe p P P'"
proof -
  from ok obtain pipe rs ws where pp: "p \<noteq> NULL" "pipe_mem P p = Some pipe" "pipe_ring pipe"
    and gp: "getPid (kern (sys P)) \<noteq> None" and se: "pipe_sems P pipe rs ws"
    and v: "val (sys P) rs = int (unat (psize pipe))" "val (sys P) ws = int PIPE_BUFFER - int (unat (psize pipe))"
    unfolding pipe_ok_def by blast
  have n: "unat (psize pipe) < PIPE_BUFFER" using room pp(2) by (simp add: contents_def)
  then have "int (unat (psize pipe)) < int PIPE_BUFFER" by (simp only: of_nat_less_iff)
  then have n': "uint (psize pipe) < 256" by simp
  have a: "sem_inv (sys P) ws" "0 < val (sys P) ws" "sem_inv (sys P) rs" "0 \<le> val (sys P) rs"
    "val (sys P) rs < 2 ^ 31 - 1" "ws \<noteq> rs" "\<not> pendingDestruction (the (sems (sys P) ws))"
    "\<not> pendingDestruction (the (sems (sys P) rs))" using se v n' by (auto simp: pipe_sems_def)
  from wait_then_post [OF a(1-8) gp, of sp] obtain S1 S2 where
    s: "semWait sp ws (sys P) = Some (Ret (), S1)" "semPost rs S1 = Some S2" "kern S1 = kern (sys P)"
      "kern S2 = kern (sys P)" "sem_inv S2 ws" "sem_inv S2 rs" "val S2 ws = val (sys P) ws - 1"
      "val S2 rs = val (sys P) rs + 1" "\<forall>n. getSem n S1 = getSem n (sys P)" "\<forall>n. getSem n S2 = getSem n (sys P)"
      "\<not> pendingDestruction (the (sems S2 ws))" "\<not> pendingDestruction (the (sems S2 rs))"
      "\<forall>t. t \<noteq> ws \<longrightarrow> t \<noteq> rs \<longrightarrow> sems S2 t = sems (sys P) t" by blast
  let ?w = "unat (writePos pipe)"
  have r: "length (pbuffer pipe) = PIPE_BUFFER"
    "ring_ok (pbuffer pipe) (unat (readingPos pipe)) ?w (unat (psize pipe))" using pp(3) by (auto simp: pipe_ring_def)
  have wl: "?w < PIPE_BUFFER" using r by (simp add: ring_ok_def)
  let ?pipe = "pipe\<lparr>pbuffer := (pbuffer pipe)[?w := c], writePos := (writePos pipe + 1) mod of_nat PIPE_BUFFER,
                   psize := psize pipe + 1\<rparr>"
  let ?P = "P\<lparr>pipe_mem := (pipe_mem P)(p \<mapsto> ?pipe), sys := S2\<rparr>"
  have st: "pipe_write_from sp p (c # cs) n P = pipe_write_from sp p cs (n + 1) ?P" for cs n
    using pp(1,2) se s(1,2,9) wl r(1)
    by (simp add: pipe_at_def pipe_sems_def pipe_put_def aset_def upd_pipe_def Let_def)
  note rp = ring_put [OF r(2), of c] and ps = pos_step [of "writePos pipe"] and su = size_up [of "psize pipe"]
  have ring': "pipe_ring ?pipe" using rp(2) ps su wl n r(1) by (simp add: pipe_ring_def)
  moreover have "pipe_sems ?P ?pipe rs ws" using se s by (simp add: pipe_sems_def)
  ultimately have "pipe_ok p ?P"
    unfolding pipe_ok_def using pp(1) gp s v su n
    by (intro conjI exI [of _ ?pipe] exI [of _ rs] exI [of _ ws]) simp_all
  moreover have "contents p ?P = contents p P @ [c]" using rp(1) su n r(1) pp(2) by (simp add: contents_def)
  moreover have "only_pipe p P ?P"
    unfolding only_pipe_def using pp(2) s(4,10,13) se
    by (intro conjI exI [of _ "\<lambda>x. x\<lparr>pbuffer := (pbuffer pipe)[?w := c], writePos := (writePos pipe + 1) mod of_nat PIPE_BUFFER,
          psize := psize pipe + 1\<rparr>"]) (auto simp: sems_of_def pipe_sems_def)
  ultimately show ?thesis using st s(4) pp(2) by (intro exI [of _ ?P]) simp
qed

lemma read_byte:
  assumes ok: "pipe_ok p P" and some: "contents p P = c # xs"
  shows "\<exists>P'. (\<forall>n acc. pipe_read_from sp p (Suc n) acc P = pipe_read_from sp p n (acc @ [c]) P') \<and>
           pipe_ok p P' \<and> contents p P' = xs \<and> pipes P' = pipes P \<and>
           kern (sys P') = kern (sys P) \<and> map_option fds (pipe_mem P' p) = map_option fds (pipe_mem P p) \<and>
           (\<forall>q. q \<noteq> p \<longrightarrow> pipe_mem P' q = pipe_mem P q) \<and> only_pipe p P P'"
proof -
  from ok obtain pipe rs ws where pp: "p \<noteq> NULL" "pipe_mem P p = Some pipe" "pipe_ring pipe"
    and gp: "getPid (kern (sys P)) \<noteq> None" and se: "pipe_sems P pipe rs ws"
    and v: "val (sys P) rs = int (unat (psize pipe))" "val (sys P) ws = int PIPE_BUFFER - int (unat (psize pipe))"
    unfolding pipe_ok_def by blast
  have r: "length (pbuffer pipe) = PIPE_BUFFER"
    "ring_ok (pbuffer pipe) (unat (readingPos pipe)) (unat (writePos pipe)) (unat (psize pipe))"
    using pp(3) by (auto simp: pipe_ring_def)
  have n: "unat (psize pipe) \<le> PIPE_BUFFER" using r by (simp add: ring_ok_def)
  have ne: "psize pipe \<noteq> 0" using some pp(2) by (auto simp: contents_def ring_def)
  note sd = size_down [OF ne]
  have "int (unat (psize pipe)) \<le> int PIPE_BUFFER" using n by (simp only: of_nat_le_iff)
  moreover have "0 < int (unat (psize pipe))" unfolding sd of_nat_0_less_iff by (rule zero_less_Suc)
  ultimately have n': "uint (psize pipe) \<le> 256" "0 < uint (psize pipe)" by simp_all
  have a: "sem_inv (sys P) rs" "0 < val (sys P) rs" "sem_inv (sys P) ws" "0 \<le> val (sys P) ws"
    "val (sys P) ws < 2 ^ 31 - 1" "rs \<noteq> ws" "\<not> pendingDestruction (the (sems (sys P) rs))"
    "\<not> pendingDestruction (the (sems (sys P) ws))" using se v n' by (auto simp: pipe_sems_def)
  from wait_then_post [OF a(1-8) gp, of sp] obtain S1 S2 where
    s: "semWait sp rs (sys P) = Some (Ret (), S1)" "semPost ws S1 = Some S2" "kern S1 = kern (sys P)"
      "kern S2 = kern (sys P)" "sem_inv S2 rs" "sem_inv S2 ws" "val S2 rs = val (sys P) rs - 1"
      "val S2 ws = val (sys P) ws + 1" "\<forall>n. getSem n S1 = getSem n (sys P)" "\<forall>n. getSem n S2 = getSem n (sys P)"
      "\<not> pendingDestruction (the (sems S2 rs))" "\<not> pendingDestruction (the (sems S2 ws))"
      "\<forall>t. t \<noteq> rs \<longrightarrow> t \<noteq> ws \<longrightarrow> sems S2 t = sems (sys P) t" by blast
  let ?r = "unat (readingPos pipe)"
  have rl: "?r < PIPE_BUFFER" using r by (simp add: ring_ok_def)
  note rg = ring_get [OF r(2) [unfolded sd]] and ps = pos_step [of "readingPos pipe"]
  have c: "c = pbuffer pipe ! ?r" "xs = ring (pbuffer pipe) ((?r + 1) mod PIPE_BUFFER) (unat (psize pipe - 1))"
    using some rg(1) r(1) pp(2) by (simp_all add: contents_def sd)
  let ?pipe = "pipe\<lparr>readingPos := (readingPos pipe + 1) mod of_nat PIPE_BUFFER, psize := psize pipe - 1\<rparr>"
  let ?P = "P\<lparr>pipe_mem := (pipe_mem P)(p \<mapsto> ?pipe), sys := S2\<rparr>"
  have st: "pipe_read_from sp p (Suc n) acc P = pipe_read_from sp p n (acc @ [c]) ?P" for n acc
    using pp(1,2) se s(1,2,9) rl r(1) c(1)
    by (simp add: pipe_at_def pipe_sems_def pipe_get_def aget_def upd_pipe_def Let_def)
  have ring': "pipe_ring ?pipe" using rg(2) ps rl r(1) by (simp add: pipe_ring_def)
  moreover have "pipe_sems ?P ?pipe rs ws" using se s by (simp add: pipe_sems_def)
  ultimately have "pipe_ok p ?P"
    unfolding pipe_ok_def using pp(1) gp s v sd
    by (intro conjI exI [of _ ?pipe] exI [of _ rs] exI [of _ ws]) simp_all
  moreover have "contents p ?P = xs" using c(2) ps rl by (simp add: contents_def)
  moreover have "only_pipe p P ?P"
    unfolding only_pipe_def using pp(2) s(4,10,13) se
    by (intro conjI exI [of _ "\<lambda>x. x\<lparr>readingPos := (readingPos pipe + 1) mod of_nat PIPE_BUFFER, psize := psize pipe - 1\<rparr>"])
      (auto simp: sems_of_def pipe_sems_def)
  ultimately show ?thesis using st s(4) pp(2) by (intro exI [of _ ?P]) simp
qed

section \<open>A bounded queue\<close>

text \<open>One character through the system calls, as the operations of the contract.\<close>

definition put1 :: "ptr \<Rightarrow> char \<Rightarrow> pipe_sys \<Rightarrow> pipe_sys option" where
  "put1 p c P = do { (r, _, P) \<leftarrow> pipe_write_from 0 p [c] 0 P; if r = Ret () then Some P else None }"

definition get1 :: "ptr \<Rightarrow> pipe_sys \<Rightarrow> (char \<times> pipe_sys) option" where
  "get1 p P = do { (r, s, P) \<leftarrow> pipe_read_from 0 p 1 [] P; if r = Ret () then Some (hd s, P) else None }"

lemma contents_bound: "pipe_ok p P \<Longrightarrow> length (contents p P) \<le> PIPE_BUFFER"
  by (auto simp: pipe_ok_def contents_def pipe_ring_def ring_ok_def)

interpretation pipe_fifo: bounded_fifo "put1 p" "get1 p" "pipe_ok p" "contents p" PIPE_BUFFER "\<lambda>_. True" for p
proof
  show "pipe_ok p P \<Longrightarrow> length (contents p P) \<le> PIPE_BUFFER" for P by (rule contents_bound)
  fix P x xs
  show "\<exists>P'. put1 p x P = Some P' \<and> pipe_ok p P' \<and> contents p P' = contents p P @ [x]"
    if "pipe_ok p P" "length (contents p P) < PIPE_BUFFER"
  proof -
    from write_byte [OF that, of 0 x] obtain P' where
      w: "\<forall>cs n. pipe_write_from 0 p (x # cs) n P = pipe_write_from 0 p cs (n + 1) P'" "pipe_ok p P'"
        "contents p P' = contents p P @ [x]" by blast
    have "pipe_write_from 0 p [x] 0 P = Some (Ret (), 1, P')" using w(1) [rule_format, of "[]" 0] by simp
    then show ?thesis using w(2,3) unfolding put1_def by simp
  qed
  show "\<exists>P'. get1 p P = Some (x, P') \<and> pipe_ok p P' \<and> contents p P' = xs"
    if "pipe_ok p P" "contents p P = x # xs"
  proof -
    from read_byte [OF that, of 0] obtain P' where
      r: "\<forall>n acc. pipe_read_from 0 p (Suc n) acc P = pipe_read_from 0 p n (acc @ [x]) P'" "pipe_ok p P'" "contents p P' = xs"
      by blast
    have "pipe_read_from 0 p 1 [] P = Some (Ret (), [x], P')"
      unfolding One_nat_def using r(1) [rule_format, of 0 "[]"] by simp
    then show ?thesis using r(2,3) unfolding get1_def by simp
  qed
qed

text \<open>Whole buffers.\<close>

lemma write_all:
  assumes "pipe_ok p P" and "length (contents p P) + length cs \<le> PIPE_BUFFER"
  shows "\<exists>P'. pipe_write_from sp p cs n P = Some (Ret (), n + int (length cs), P') \<and> pipe_ok p P' \<and>
           contents p P' = contents p P @ cs \<and> pipes P' = pipes P \<and> kern (sys P') = kern (sys P) \<and>
           map_option fds (pipe_mem P' p) = map_option fds (pipe_mem P p) \<and>
           (\<forall>q. q \<noteq> p \<longrightarrow> pipe_mem P' q = pipe_mem P q) \<and> only_pipe p P P'"
  using assms
proof (induction cs arbitrary: n P)
  case (Cons c cs)
  have "length (contents p P) < PIPE_BUFFER" using Cons.prems(2) by simp
  from write_byte [OF Cons.prems(1) this, of sp c] obtain P1 where
    p1: "\<forall>cs n. pipe_write_from sp p (c # cs) n P = pipe_write_from sp p cs (n + 1) P1" "pipe_ok p P1"
      "contents p P1 = contents p P @ [c]" "pipes P1 = pipes P" "kern (sys P1) = kern (sys P)"
      "map_option fds (pipe_mem P1 p) = map_option fds (pipe_mem P p)"
      "\<forall>q. q \<noteq> p \<longrightarrow> pipe_mem P1 q = pipe_mem P q" "only_pipe p P P1" by blast
  have "length (contents p P1) + length cs \<le> PIPE_BUFFER" using Cons.prems(2) p1(3) by simp
  from Cons.IH [OF p1(2) this, of "n + 1"] obtain P2 where
    "pipe_write_from sp p cs (n + 1) P1 = Some (Ret (), n + 1 + int (length cs), P2)" "pipe_ok p P2"
    "contents p P2 = contents p P1 @ cs" "pipes P2 = pipes P1" "kern (sys P2) = kern (sys P1)"
    "map_option fds (pipe_mem P2 p) = map_option fds (pipe_mem P1 p)" "\<forall>q. q \<noteq> p \<longrightarrow> pipe_mem P2 q = pipe_mem P1 q"
    "only_pipe p P1 P2" by blast
  with p1 only_pipe_trans [OF p1(8)] show ?case by (intro exI [of _ P2]) (auto simp: algebra_simps)
qed (simp add: only_pipe_refl)

lemma read_all:
  assumes "pipe_ok p P" and "n \<le> length (contents p P)"
  shows "\<exists>P'. pipe_read_from sp p n acc P = Some (Ret (), acc @ take n (contents p P), P') \<and> pipe_ok p P' \<and>
           contents p P' = drop n (contents p P) \<and> pipes P' = pipes P \<and> kern (sys P') = kern (sys P) \<and> only_pipe p P P'"
  using assms
proof (induction n arbitrary: acc P)
  case (Suc n)
  then obtain c xs where cx: "contents p P = c # xs" by (cases "contents p P") auto
  from read_byte [OF Suc.prems(1) cx, of sp] obtain P1 where
    p1: "\<forall>n acc. pipe_read_from sp p (Suc n) acc P = pipe_read_from sp p n (acc @ [c]) P1" "pipe_ok p P1"
      "contents p P1 = xs" "pipes P1 = pipes P" "kern (sys P1) = kern (sys P)" "only_pipe p P P1" by blast
  have "n \<le> length (contents p P1)" using Suc.prems(2) cx p1(3) by simp
  from Suc.IH [OF p1(2) this, of "acc @ [c]"] obtain P2 where
    "pipe_read_from sp p n (acc @ [c]) P1 = Some (Ret (), (acc @ [c]) @ take n (contents p P1), P2)" "pipe_ok p P2"
    "contents p P2 = drop n (contents p P1)" "pipes P2 = pipes P1" "kern (sys P2) = kern (sys P1)" "only_pipe p P1 P2"
    by blast
  with p1 cx only_pipe_trans [OF p1(6)] show ?case by (intro exI [of _ P2]) auto
qed (simp add: only_pipe_refl)

text \<open>The full and the empty pipe make the caller wait.\<close>

lemma write_full:
  assumes ok: "pipe_ok p P" and full: "length (contents p P) = PIPE_BUFFER"
    and inv: "sched_inv (kern (sys P))" and on: "on_cpu (kern (sys P))" and pg: "2 < pages_left (kern (sys P))"
    and nz: "pid (pr_of (kern (sys P)) (currentProcess (kern (sys P)))) \<noteq> 0"
    and m: "\<forall>pipe ws. pipe_mem P p = Some pipe \<longrightarrow> getSem (Some (writeSemName pipe)) (sys P) = Some ws \<longrightarrow>
              sem_mem R (sys P) ws"
  shows "\<exists>sp' P'. pipe_write_from sp p (c # cs) n P = Some (Switch sp', n, P') \<and> pipe_mem P' = pipe_mem P \<and>
           sched_inv (kern (sys P')) \<and> currentProcess (kern (sys P)) \<in> in_state (kern (sys P')) BLOCKED"
proof -
  from ok obtain pipe rs ws where pp: "p \<noteq> NULL" "pipe_mem P p = Some pipe" and se: "pipe_sems P pipe rs ws"
    and v: "val (sys P) ws = int PIPE_BUFFER - int (unat (psize pipe))" unfolding pipe_ok_def by blast
  have v0: "val (sys P) ws \<le> 0" "- (2 ^ 31) < val (sys P) ws" using full pp(2) v by (simp_all add: contents_def)
  have i: "sem_inv (sys P) ws" "sem_mem R (sys P) ws" using se m pp(2) by (auto simp: pipe_sems_def)
  from semWait_blocks [OF i(1) v0 inv i(2) pg on nz, of sp] obtain sp' S' where
    "semWait sp ws (sys P) = Some (Switch sp', S')" "sched_inv (kern S')"
    "currentProcess (kern (sys P)) \<in> in_state (kern S') BLOCKED" by blast
  then show ?thesis using pp se
    by (intro exI [of _ sp'] exI [of _ "P\<lparr>sys := S'\<rparr>"]) (simp add: pipe_at_def pipe_sems_def)
qed

section \<open>Opening\<close>

lemma buildSemName_ok:
  assumes "i < MAX_PIPES" and "length suffix \<le> 6" and "length arr = SEM_NAME_SIZE"
  shows "\<exists>t. buildSemName (of_nat i) suffix arr = Some ((int_text (int i) @ ''_'' @ suffix) @ nul # t)"
proof -
  have si: "sint (of_nat i :: u32) = int i" using assms(1) by (auto simp: less_2_cases_iff)
  have "i < 10 ^ 1" using assms(1) by simp
  then have "length (render 10 97 i) \<le> 1" by (intro render_length) simp_all
  then have l: "length (int_text (int i)) \<le> 1" by (simp add: int_text_def)
  have "ksprintf ''%d_%s'' [AInt (of_nat i), AStr (Some suffix)] =
      Some (int_text (int i) @ ''_'' @ suffix, of_nat (length (int_text (int i) @ ''_'' @ suffix)))"
    unfolding ksprintf_def using ksprintf_loop_pieces [of "[PInt (of_nat i), PLit (CHR ''_''), PStr (Some suffix)]" "[]"]
    by (simp add: si)
  then show ?thesis using l assms(2,3) by (simp add: buildSemName_def write_over_def)
qed

lemma pipe_name_no_nul: "nul \<notin> set suffix \<Longrightarrow> nul \<notin> set (int_text (int i) @ ''_'' @ suffix)"
  using render_no_nul [of 10 97] by (simp add: int_text_def)

lemma pipe_create_ok:
  assumes ok: "list_ok R (sys P)" and m: "mem_ok (R + mset (blocks (semaphoreList (sys P)))) (kern (sys P))"
    and pg: "13 \<le> pages_left (kern (sys P))" and gp: "getPid (kern (sys P)) \<noteq> None"
    and i: "i < MAX_PIPES" "length (pipes P) = MAX_PIPES"
    and un: "length (pbuffer u) = PIPE_BUFFER" "length (writeSemName u) = SEM_NAME_SIZE" "length (readSemName u) = SEM_NAME_SIZE"
    and new: "\<And>q suffix. suffix = ''write'' \<or> suffix = ''read'' \<Longrightarrow> q \<in> set (items (semaphoreList (sys P))) \<Longrightarrow>
                \<not> named (sys P) q (int_text (int i) @ ''_'' @ suffix)"
  shows "\<exists>p P'. pipe_create i u out P = Some (int i, (nextFd P, nextFd P + 1), P') \<and> pipe_ok p P' \<and>
           contents p P' = [] \<and> pipes P' = (pipes P)[i := p] \<and> nextFd P' = nextFd P + 2 \<and>
           map_option fds (pipe_mem P' p) = Some (nextFd P, nextFd P + 1) \<and>
           (\<exists>R rs. getSem (Some (readSemName (the (pipe_mem P' p)))) (sys P') = Some rs \<and> sem_mem R (sys P') rs) \<and>
           (\<exists>m'. kern (sys P') = (kern (sys P))\<lparr>kmem := m'\<rparr> \<and> pages_left (kern (sys P)) \<le> unat (free_pages m') + 13) \<and>
           (\<exists>R rs ws. pipe_sems P' (the (pipe_mem P' p)) rs ws \<and> waiting (sys P') rs = [] \<and> waiting (sys P') ws = [] \<and>
              sem_mem (R + mset (blocks (waitingProcesses (the (sems (sys P') ws))))) (sys P') rs)"
proof -
  let ?S = "sys P" and ?wn = "int_text (int i) @ ''_write''" and ?rn = "int_text (int i) @ ''_read''"
  obtain pid where gp': "getPid (kern ?S) = Some pid" using gp by auto
  have nn: "nul \<notin> set ?wn" "nul \<notin> set ?rn"
    using pipe_name_no_nul [of "''write''" i] pipe_name_no_nul [of "''read''" i] by simp_all
  obtain t where t: "buildSemName (of_nat i) ''write'' (writeSemName u) = Some (?wn @ nul # t)"
    using buildSemName_ok [OF i(1) _ un(2), of "''write''"] by auto
  obtain t' where t': "buildSemName (of_nat i) ''read'' (readSemName u) = Some (?rn @ nul # t')"
    using buildSemName_ok [OF i(1) _ un(3), of "''read''"] by auto
  have "i < 10 ^ 1" using i(1) by simp
  then have "length (render 10 97 i) \<le> 1" by (intro render_length) simp_all
  then have ln: "length ?wn < 4000" "length ?rn < 4000" by (simp_all add: int_text_def)
  have own: "bm.owns (R + mset (blocks (semaphoreList ?S)) + owned (kern ?S)) (kmem (kern ?S))"
    using m by (simp add: mem_ok_def)
  have p0: "0 < pages_left (kern ?S)" using pg by simp
  obtain m1 p where a: "mem_alloc (kmem (kern ?S)) sizeof_pipe_t = (m1, p)" "p \<noteq> NULL"
      "unat (free_pages m1) = pages_left (kern ?S) - 1"
    by (rule bm.alloc_page [OF bm.owns_inv [OF own] _ p0]) (auto simp: sizeof_pipe_t_def)
  let ?S1 = "with_mem ?S m1"
  have m1: "mem_ok (R + {#p#} + mset (blocks (semaphoreList ?S1))) (kern ?S1)"
    using bm.owns_alloc [OF own a(1)] a(2) by (simp add: mem_ok_def owned_def ac_simps)
  have "list_ok R ?S1" using ok by (simp add: list_ok_def named_def)
  then have ok1: "list_ok (R + {#p#}) ?S1" unfolding list_ok_def by (auto intro: subset_mset.order_trans)
  have nm1: "named ?S1 q n = named ?S q n" for q n by (simp add: named_def)
  have "6 \<le> pages_left (kern ?S1)" "\<not> (\<exists>q\<in>set (items (semaphoreList ?S1)). named ?S1 q ?wn)"
    "getPid (kern ?S1) = Some pid" using a(3) pg gp' new [of "''write''"] nm1 by simp_all
  from semOpen_new [OF ok1 m1 this(1) nn(1) ln(1) this(2,3), of t "of_nat PIPE_BUFFER"] obtain ws S2 m2 R2 where
    w: "semOpen (Some (?wn @ nul # t)) (of_nat PIPE_BUFFER) ?S1 = Some (ws, S2)" "ws \<noteq> NULL"
      "ws \<notin> set (items (semaphoreList ?S))" "kern S2 = (kern ?S1)\<lparr>kmem := m2\<rparr>" "sem_inv S2 ws" "val S2 ws = 256"
      "waiting S2 ws = []" "named S2 ws ?wn" "\<not> pendingDestruction (the (sems S2 ws))"
      "set (items (semaphoreList S2)) = insert ws (set (items (semaphoreList ?S)))"
      "\<forall>q. q \<noteq> ws \<longrightarrow> sems S2 q = sems ?S q" "pages_left (kern ?S1) \<le> unat (free_pages m2) + 6"
      "list_ok R2 S2" "mem_ok (R2 + mset (blocks (semaphoreList S2))) (kern S2)"
      "mset (blocks (waitingProcesses (the (sems S2 ws)))) \<subseteq># R2" by auto
  have nm2: "named S2 q n = named ?S q n" if "q \<noteq> ws" for q n using w(11) that by (simp add: named_def)
  have ne: "?wn \<noteq> ?rn" by simp
  have six: "6 \<le> pages_left (kern S2)" "getPid (kern S2) = Some pid" using w(4,12) a(3) pg gp' by simp_all
  have "\<not> named S2 q ?rn" if q: "q \<in> set (items (semaphoreList S2))" for q
  proof (cases "q = ws")
    case True
    then show ?thesis using named_unique [OF w(8), of ?rn] ne by auto
  next
    case False
    then show ?thesis using q w(10) nm2 new [of "''read''" q] by simp
  qed
  then have nw: "\<not> (\<exists>q\<in>set (items (semaphoreList S2)). named S2 q ?rn)" by blast
  from semOpen_new [OF w(13,14) six(1) nn(2) ln(2) nw six(2), of t' 0] obtain rs S3 m3 R3 Rm where
    r0: "semOpen (Some (?rn @ nul # t')) 0 S2 = Some (rs, S3)" "rs \<noteq> NULL"
      "rs \<notin> set (items (semaphoreList S2))" "kern S3 = (kern S2)\<lparr>kmem := m3\<rparr>" "0 \<le> sint (0 :: u32) \<longrightarrow> sem_inv S3 rs" "val S3 rs = sint (0 :: u32)"
      "waiting S3 rs = []" "named S3 rs ?rn" "\<not> pendingDestruction (the (sems S3 rs))"
      "set (items (semaphoreList S3)) = insert rs (set (items (semaphoreList S2)))"
      "\<forall>q. q \<noteq> rs \<longrightarrow> sems S3 q = sems S2 q" "list_ok R3 S3" "sem_mem Rm S3 rs"
      "pages_left (kern S2) \<le> unat (free_pages m3) + 6" "R2 \<subseteq># Rm" by blast
  have ri: "sem_inv S3 rs" "val S3 rs = 0" using r0(5,6) by simp_all
  note r = r0(1-4) ri r0(7-14)
  have nm3: "named S3 q n = named S2 q n" if "q \<noteq> rs" for q n using r(11) that by (simp add: named_def)
  have wr: "ws \<noteq> rs" using r(3) w(10) by auto
  have gr: "getSem (Some (?rn @ nul # t')) S3 = Some rs"
  proof (rule getSem_named [OF r(12) _ r(8)])
    show "rs \<in> set (items (semaphoreList S3))" using r(10) by simp
    fix q assume q: "q \<in> set (items (semaphoreList S3))" "named S3 q ?rn"
    show "q = rs"
    proof (rule ccontr)
      assume "q \<noteq> rs"
      then have q2: "q \<in> set (items (semaphoreList S2))" "named S2 q ?rn" using q nm3 r(10) by auto
      then show False
        using named_unique [OF w(8), of ?rn] ne nm2 [of q] w(10) new [of "''read''" q] by (cases "q = ws") auto
    qed
  qed
  have gw: "getSem (Some (?wn @ nul # t)) S3 = Some ws"
  proof (rule getSem_named [OF r(12)])
    show "ws \<in> set (items (semaphoreList S3))" using r(10) w(10) by simp
    show "named S3 ws ?wn" using nm3 wr w(8) by simp
    fix q assume q: "q \<in> set (items (semaphoreList S3))" "named S3 q ?wn"
    show "q = ws"
    proof (rule ccontr)
      assume qw: "q \<noteq> ws"
      have "q \<noteq> rs" using q(2) named_unique [OF r(8), of ?wn] ne by auto
      then have "q \<in> set (items (semaphoreList ?S))" "named ?S q ?wn" using q qw nm3 nm2 r(10) w(10) by auto
      then show False using new [of "''write''" q] by simp
    qed
  qed
  have s3w: "sems S3 ws = sems S2 ws" using r(11) wr by auto
  have bp: "blocked_pids (kern S3) = blocked_pids (kern S2)" by (simp add: r(4) blocked_pids_def)
  have ws3: "sem_inv S3 ws" "val S3 ws = 256" "\<not> pendingDestruction (the (sems S3 ws))"
    using w(5,6,9) s3w bp by (simp_all add: sem_inv_def val_def waiting_def)
  let ?u = "u\<lparr>readingPos := 0, writePos := 0, psize := 0, fds := (nextFd P, nextFd P + 1),
              writeSemName := ?wn @ nul # t, readSemName := ?rn @ nul # t'\<rparr>"
  let ?P = "P\<lparr>sys := S3, pipes := (pipes P)[i := p], pipe_mem := (pipe_mem P)(p \<mapsto> ?u), nextFd := nextFd P + 2\<rparr>"
  have res: "pipe_create i u out P = Some (int i, (nextFd P, nextFd P + 1), ?P)"
    using a(1,2) t t' w(1,2) r(1,2)
    by (simp add: pipe_create_def Let_def upd_pipe_def pipe_at_def)
  have k3: "kern S3 = (kern ?S)\<lparr>kmem := m3\<rparr>" using r(4) w(4) by simp
  have two: "\<exists>R. sem_mem (R + mset (blocks (waitingProcesses (the (sems S3 ws))))) S3 rs"
  proof -
    have "mset (blocks (waitingProcesses (the (sems S3 ws)))) \<subseteq># Rm"
      using w(15) r0(15) s3w subset_mset.order_trans by metis
    then obtain R' where "Rm = R' + mset (blocks (waitingProcesses (the (sems S3 ws))))"
      by (metis subset_mset.diff_add)
    with r0(13) show ?thesis by metis
  qed
  have ww3: "waiting S3 ws = []" "waiting S3 rs = []" using w(7) r0(7) s3w by (simp_all add: waiting_def)
  have "pipe_sems ?P ?u rs ws" unfolding pipe_sems_def using gr gw wr r(5,9) ws3 by simp
  note se = this
  have "pipe_ring ?u" using un(1) by (simp add: pipe_ring_def ring_ok_def)
  with se have "pipe_ok p ?P"
    unfolding pipe_ok_def using a(2) gp k3 r(6) ws3(2)
    by (intro conjI exI [of _ ?u] exI [of _ rs] exI [of _ ws]) simp_all
  moreover have "pages_left (kern ?S) \<le> unat (free_pages m3) + 13" using a(3) pg w(4,12) r(14) by simp
  then have "\<exists>m'. kern S3 = (kern ?S)\<lparr>kmem := m'\<rparr> \<and> pages_left (kern ?S) \<le> unat (free_pages m') + 13"
    using k3 by blast
  moreover have "\<exists>R. getSem (Some (readSemName (the (pipe_mem ?P p)))) (sys ?P) = Some rs \<and> sem_mem R (sys ?P) rs"
    using gr r(13) by auto
  moreover have "\<exists>R rs ws. pipe_sems ?P (the (pipe_mem ?P p)) rs ws \<and> waiting (sys ?P) rs = [] \<and> waiting (sys ?P) ws = [] \<and>
      sem_mem (R + mset (blocks (waitingProcesses (the (sems (sys ?P) ws))))) (sys ?P) rs"
    using se ww3 two by auto
  ultimately show ?thesis using res by (intro exI [of _ p] exI [of _ ?P]) (simp add: contents_def ring_def)
qed

lemma read_empty:
  assumes ok: "pipe_ok p P" and empty: "contents p P = []"
    and inv: "sched_inv (kern (sys P))" and on: "on_cpu (kern (sys P))" and pg: "2 < pages_left (kern (sys P))"
    and nz: "pid (pr_of (kern (sys P)) (currentProcess (kern (sys P)))) \<noteq> 0"
    and m: "getSem (Some (readSemName (the (pipe_mem P p)))) (sys P) = Some rs" "sem_mem R (sys P) rs"
  shows "\<exists>sp' P'. pipe_read_from sp p (Suc n) acc P = Some (Switch sp', acc, P') \<and> pipe_mem P' = pipe_mem P \<and>
           sched_inv (kern (sys P')) \<and> currentProcess (kern (sys P)) \<in> in_state (kern (sys P')) BLOCKED \<and>
           waiting (sys P') rs = [pid (pr_of (kern (sys P)) (currentProcess (kern (sys P))))]"
proof -
  from ok m(1) obtain pipe ws where pp: "p \<noteq> NULL" "pipe_mem P p = Some pipe" and se: "pipe_sems P pipe rs ws"
    and v: "val (sys P) rs = int (unat (psize pipe))" unfolding pipe_ok_def pipe_sems_def by auto
  have v0: "val (sys P) rs = 0" using empty pp(2) v by (simp add: contents_def ring_def)
  have i: "sem_inv (sys P) rs" using se by (simp add: pipe_sems_def)
  have w: "waiting (sys P) rs = []" using i v0 by (auto simp: sem_inv_def)
  have v1: "val (sys P) rs \<le> 0" "- (2 ^ 31) < val (sys P) rs" using v0 by simp_all
  from semWait_blocks [OF i v1 inv m(2) pg on nz, of sp] w obtain sp' S' where
    "semWait sp rs (sys P) = Some (Switch sp', S')" "sched_inv (kern S')"
    "currentProcess (kern (sys P)) \<in> in_state (kern S') BLOCKED"
    "waiting S' rs = [pid (pr_of (kern (sys P)) (currentProcess (kern (sys P))))]" by auto
  then show ?thesis using pp se
    by (intro exI [of _ sp'] exI [of _ "P\<lparr>sys := S'\<rparr>"]) (simp add: pipe_at_def pipe_sems_def)
qed

lemma pipe_open_first:
  assumes "i < length (pipes P)" and "pipes P ! i = NULL" and "\<forall>j<i. pipes P ! j \<noteq> NULL" and "i < MAX_PIPES"
  shows "pipe_open u out P = pipe_create i u out P"
  using assms by (auto simp: pipe_open_def aget_def upt_rec less_2_cases_iff)

lemma find_pipe_same:
  assumes "pipes P' = pipes P" and "map_option fds (pipe_mem P' p) = map_option fds (pipe_mem P p)"
    and "\<forall>q. q \<noteq> p \<longrightarrow> pipe_mem P' q = pipe_mem P q"
  shows "find_pipe fd P' = find_pipe fd P"
proof -
  have at: "map_option fds (pipe_at q P') = map_option fds (pipe_at q P)" for q
    using assms(2,3) by (cases "q = p") (auto simp: pipe_at_def)
  have "get_pipe_idx_loop xs fd P' = get_pipe_idx_loop xs fd P" for xs
  proof (induction xs)
    case (Cons a xs)
    have "do { pipe \<leftarrow> pipe_at q P'; if fst (fds pipe) = fd \<or> snd (fds pipe) = fd then Some (int a) else t } =
          do { pipe \<leftarrow> pipe_at q P; if fst (fds pipe) = fd \<or> snd (fds pipe) = fd then Some (int a) else t }" for q t
      using at [of q] by (cases "pipe_at q P"; cases "pipe_at q P'") simp_all
    with Cons show ?case by (cases "aget (pipes P) a") (simp_all add: assms(1) cong: if_cong)
  qed simp
  then show ?thesis unfolding find_pipe_def get_pipe_idx_def assms(1) by simp
qed

section \<open>A pipe on the booted kernel\<close>

definition boot_pipes :: pipe_sys where
  "boot_pipes = \<lparr>sys = boot_system, pipes = [NULL, NULL], pipe_mem = Map.empty, nextFd = 3\<rparr>"

definition raw_block :: pipe_t where
  "raw_block = \<lparr>pbuffer = replicate PIPE_BUFFER nul, fds = (0, 0), readingPos = 0, writePos = 0, psize = 0,
                writeSemName = replicate SEM_NAME_SIZE nul, readSemName = replicate SEM_NAME_SIZE nul\<rparr>"

section \<open>Properties\<close>

text \<open>Opening. With a free slot and thirteen free pages \<open>pipe_open\<close> fills the first free slot with an empty
  pipe, hands out the next two descriptors, and sets up two semaphores, found by the names kept in the
  pipe, that count nothing to read and 256 places to write. The processes are not touched.\<close>

theorem pipe_open_empty:
  assumes "list_ok R (sys P)" and "mem_ok (R + mset (blocks (semaphoreList (sys P)))) (kern (sys P))"
    and "13 \<le> pages_left (kern (sys P))" and "getPid (kern (sys P)) \<noteq> None"
    and "i < MAX_PIPES" and "length (pipes P) = MAX_PIPES" and "pipes P ! i = NULL" and "\<forall>j<i. pipes P ! j \<noteq> NULL"
    and "length (pbuffer u) = PIPE_BUFFER" and "length (writeSemName u) = SEM_NAME_SIZE"
    and "length (readSemName u) = SEM_NAME_SIZE"
    and "\<And>q suffix. suffix = ''write'' \<or> suffix = ''read'' \<Longrightarrow> q \<in> set (items (semaphoreList (sys P))) \<Longrightarrow>
           \<not> named (sys P) q (int_text (int i) @ ''_'' @ suffix)"
  shows "\<exists>p P'. pipe_open u out P = Some (int i, (nextFd P, nextFd P + 1), P') \<and> pipe_ok p P' \<and>
           contents p P' = [] \<and> pipes P' = (pipes P)[i := p] \<and> nextFd P' = nextFd P + 2 \<and>
           (\<exists>m. kern (sys P') = (kern (sys P))\<lparr>kmem := m\<rparr>) \<and>
           (i = 0 \<longrightarrow> find_pipe (nextFd P) P' = Some p \<and> find_pipe (nextFd P + 1) P' = Some p)"
proof -
  from pipe_create_ok [OF assms(1-6,9-12), of out] obtain p P' where
    r: "pipe_create i u out P = Some (int i, (nextFd P, nextFd P + 1), P')" "pipe_ok p P'" "contents p P' = []"
      "pipes P' = (pipes P)[i := p]" "nextFd P' = nextFd P + 2"
      "map_option fds (pipe_mem P' p) = Some (nextFd P, nextFd P + 1)"
      "\<exists>m. kern (sys P') = (kern (sys P))\<lparr>kmem := m\<rparr>" by blast
  have o: "pipe_open u out P = pipe_create i u out P"
    using pipe_open_first [of i P] assms(5-8) by simp
  have p: "p \<noteq> NULL" using r(2) by (simp add: pipe_ok_def)
  have "find_pipe fd P' = Some p" if "i = 0" "fd = nextFd P \<or> fd = nextFd P + 1" for fd
  proof -
    obtain q where q: "pipe_mem P' p = Some q" "fds q = (nextFd P, nextFd P + 1)" using r(6) by auto
    have "pipes P' ! 0 = p" "length (pipes P') = 2" using r(4) that(1) assms(6) by auto
    then show ?thesis using that p q
      by (auto simp: find_pipe_def get_pipe_idx_def upt_rec aget_def pipe_at_def)
  qed
  with o r show ?thesis by (intro exI [of _ p] exI [of _ P']) simp
qed

lemma boot_pipes_ready:
  "list_ok {#} (sys boot_pipes)" "mem_ok ({#} + mset (blocks (semaphoreList (sys boot_pipes)))) (kern (sys boot_pipes))"
  "13 \<le> pages_left (kern (sys boot_pipes))" "getPid (kern (sys boot_pipes)) \<noteq> None"
  "0 < MAX_PIPES" "length (pipes boot_pipes) = MAX_PIPES" "pipes boot_pipes ! 0 = NULL"
  "length (pbuffer raw_block) = PIPE_BUFFER" "length (writeSemName raw_block) = SEM_NAME_SIZE"
  "length (readSemName raw_block) = SEM_NAME_SIZE" "items (semaphoreList (sys boot_pipes)) = []"
  using boot_system_ok running_pid by (simp_all add: boot_pipes_def raw_block_def)

theorem pipe_open_empty_witness:
  "\<exists>p P'. pipe_open raw_block (0, 0) boot_pipes = Some (0, (3, 4), P') \<and> pipe_ok p P' \<and> contents p P' = [] \<and>
     find_pipe 3 P' = Some p"
proof -
  note b = boot_pipes_ready
  from pipe_open_empty [OF b(1-7) _ b(8-10), of "(0, 0)"] b(11) show ?thesis
    by (auto simp: boot_pipes_def)
qed

lemma first_pipe:
  "\<exists>p P'. pipe_open raw_block (0, 0) boot_pipes = Some (0, (3, 4), P') \<and> pipe_ok p P' \<and> contents p P' = [] \<and>
     find_pipe 3 P' = Some p \<and> find_pipe 4 P' = Some p \<and>
     sched_inv (kern (sys P')) \<and> on_cpu (kern (sys P')) \<and> 1700 < pages_left (kern (sys P')) \<and>
     pid (pr_of (kern (sys P')) (currentProcess (kern (sys P')))) = 1 \<and>
     (\<exists>R rs. getSem (Some (readSemName (the (pipe_mem P' p)))) (sys P') = Some rs \<and> sem_mem R (sys P') rs) \<and>
     (\<exists>R rs ws. pipe_sems P' (the (pipe_mem P' p)) rs ws \<and> waiting (sys P') rs = [] \<and> waiting (sys P') ws = [] \<and>
        sem_mem (R + mset (blocks (waitingProcesses (the (sems (sys P') ws))))) (sys P') rs)"
proof -
  note b = boot_pipes_ready
  from pipe_create_ok [OF b(1-6,8-10), of "(0, 0)"] b(11) obtain p P' m where
    r: "pipe_create 0 raw_block (0, 0) boot_pipes = Some (0, (3, 4), P')" "pipe_ok p P'" "contents p P' = []"
      "pipes P' = [p, NULL]" "map_option fds (pipe_mem P' p) = Some (3, 4)"
      "kern (sys P') = (kern boot_system)\<lparr>kmem := m\<rparr>"
      "pages_left (kern boot_system) \<le> unat (free_pages m) + 13"
      "\<exists>R rs. getSem (Some (readSemName (the (pipe_mem P' p)))) (sys P') = Some rs \<and> sem_mem R (sys P') rs"
      "\<exists>R rs ws. pipe_sems P' (the (pipe_mem P' p)) rs ws \<and> waiting (sys P') rs = [] \<and> waiting (sys P') ws = [] \<and>
         sem_mem (R + mset (blocks (waitingProcesses (the (sems (sys P') ws))))) (sys P') rs"
    by (simp add: boot_pipes_def) blast
  have o: "pipe_open raw_block (0, 0) boot_pipes = Some (0, (3, 4), P')"
    using pipe_open_first [of 0 boot_pipes] r(1) b(6,7) by simp
  have p: "p \<noteq> NULL" using r(2) by (simp add: pipe_ok_def)
  obtain q where q: "pipe_mem P' p = Some q" "fds q = (3, 4)" using r(5) by auto
  then have f: "find_pipe fd P' = Some p" if "fd = 3 \<or> fd = 4" for fd
    using that p r(4) by (auto simp: find_pipe_def get_pipe_idx_def upt_rec aget_def pipe_at_def)
  obtain m0 where k: "kern boot_system = running_kernel\<lparr>kmem := m0\<rparr>" using boot_system_ok(5) by blast
  have "sched_inv (kern (sys P'))" using running_kernel_ok(1) by (simp add: r(6) k)
  moreover have "on_cpu (kern (sys P'))" using running_kernel_ok(3) by (simp add: r(6) k on_cpu_def)
  moreover have "pid (pr_of (kern (sys P')) (currentProcess (kern (sys P')))) = 1"
    using running_kernel_ok(9) by (simp add: r(6) k)
  moreover have "1700 < pages_left (kern (sys P'))" using r(6,7) boot_system_ok(3) by simp
  ultimately show ?thesis using o r(2,3,8,9) f by (intro exI [of _ p] exI [of _ P']) simp
qed

text \<open>Writing and reading. What \<open>pipe_write\<close> puts into a pipe with room for it goes behind what the pipe
  holds, and \<open>pipe_read\<close> takes characters from the front in the same order, both returning the number of
  characters moved and neither giving up the processor; reading everything leaves the pipe empty.\<close>

theorem pipe_round_trip:
  assumes "pipe_ok p P" and "find_pipe fd P = Some p" and "find_pipe fd' P = Some p"
    and "length (contents p P) + length text \<le> PIPE_BUFFER" and "n \<le> length (contents p P) + length text"
  shows "\<exists>P1 P2. pipe_write sp fd text (int (length text)) P = Some (Ret (int (length text)), P1) \<and>
           contents p P1 = contents p P @ text \<and>
           pipe_read sp' fd' (int n) P1 = Some (Ret (int n), take n (contents p P @ text), P2) \<and>
           contents p P2 = drop n (contents p P @ text) \<and> pipe_ok p P2 \<and> kern (sys P2) = kern (sys P)"
proof -
  have p: "p \<noteq> NULL" using assms(1) by (simp add: pipe_ok_def)
  have i16: "to_i16 (int m) = int m" if "m \<le> 256" for m
  proof -
    have "int m \<le> 256" using that by simp
    then have "sint (word_of_int (int m) :: u16) = int m" by (subst signed_of_int) (simp_all add: signed_take_bit_int_eq_self)
    then show ?thesis by (simp only: to_i16_def)
  qed
  from write_all [OF assms(1,4), of sp 0] obtain P1 where
    w: "pipe_write_from sp p text 0 P = Some (Ret (), int (length text), P1)" "pipe_ok p P1"
      "contents p P1 = contents p P @ text" "pipes P1 = pipes P" "kern (sys P1) = kern (sys P)"
      "map_option fds (pipe_mem P1 p) = map_option fds (pipe_mem P p)"
      "\<forall>q. q \<noteq> p \<longrightarrow> pipe_mem P1 q = pipe_mem P q" by auto
  have n1: "n \<le> length (contents p P1)" using assms(5) w(3) by simp
  from read_all [OF w(2) this, of sp' "[]"] w(3) obtain P2 where
    r: "pipe_read_from sp' p n [] P1 = Some (Ret (), take n (contents p P @ text), P2)" "pipe_ok p P2"
      "contents p P2 = drop n (contents p P @ text)" "kern (sys P2) = kern (sys P1)" by auto
  have f: "find_pipe fd' P1 = Some p" using find_pipe_same [OF w(4,6,7)] assms(3) by simp
  have l: "length (take n (contents p P @ text)) = n" using assms(5) by simp
  have "n \<le> 256" using assms(4,5) by simp
  then have "pipe_read sp' fd' (int n) P1 = Some (Ret (int n), take n (contents p P @ text), P2)"
    using f p r(1) l i16 by (simp add: pipe_read_def del: length_take take_append)
  moreover have "length text \<le> 256" using assms(4) by simp
  then have "pipe_write sp fd text (int (length text)) P = Some (Ret (int (length text)), P1)"
    using assms(2) p w(1) i16 by (simp add: pipe_write_def)
  ultimately show ?thesis using w r by (intro exI [of _ P1] exI [of _ P2]) simp
qed

theorem pipe_round_trip_witness:
  "\<exists>P P1 P2. pipe_open raw_block (0, 0) boot_pipes = Some (0, (3, 4), P) \<and>
     pipe_write 0x700000 4 ''hola'' 4 P = Some (Ret 4, P1) \<and> pipe_read 0x710000 3 3 P1 = Some (Ret 3, ''hol'', P2)"
proof -
  obtain p P where p: "pipe_open raw_block (0, 0) boot_pipes = Some (0, (3, 4), P)" "pipe_ok p P" "contents p P = []"
     "find_pipe 3 P = Some p" "find_pipe 4 P = Some p" using first_pipe by blast
  have "length (contents p P) + length ''hola'' \<le> PIPE_BUFFER" "3 \<le> length (contents p P) + length ''hola''"
    by (simp_all add: p(3))
  from pipe_round_trip [OF p(2,5,4) this] p show ?thesis by fastforce
qed

text \<open>An empty pipe makes its reader wait. \<open>pipe_read\<close> takes nothing, queues the caller on the reading
  semaphore and gives the processor to another process; the pipe is as it was.\<close>

theorem pipe_read_blocks:
  assumes "pipe_ok p P" and "contents p P = []" and "find_pipe fd P = Some p" and "0 < n"
    and "sched_inv (kern (sys P))" and "on_cpu (kern (sys P))" and "2 < pages_left (kern (sys P))"
    and "pid (pr_of (kern (sys P)) (currentProcess (kern (sys P)))) \<noteq> 0"
    and "getSem (Some (readSemName (the (pipe_mem P p)))) (sys P) = Some rs" and "sem_mem R (sys P) rs"
  shows "\<exists>sp' P'. pipe_read sp fd n P = Some (Switch sp', [], P') \<and> pipe_mem P' = pipe_mem P \<and>
           sched_inv (kern (sys P')) \<and> currentProcess (kern (sys P)) \<in> in_state (kern (sys P')) BLOCKED \<and>
           waiting (sys P') rs = [pid (pr_of (kern (sys P)) (currentProcess (kern (sys P))))]"
proof -
  have p: "p \<noteq> NULL" using assms(1) by (simp add: pipe_ok_def)
  obtain m where m: "nat n = Suc m" using assms(4) by (cases "nat n") auto
  from read_empty [OF assms(1,2,5-10), of sp m "[]"] obtain sp' P' where
    "pipe_read_from sp p (Suc m) [] P = Some (Switch sp', [], P')" "pipe_mem P' = pipe_mem P"
    "sched_inv (kern (sys P'))" "currentProcess (kern (sys P)) \<in> in_state (kern (sys P')) BLOCKED"
    "waiting (sys P') rs = [pid (pr_of (kern (sys P)) (currentProcess (kern (sys P))))]" by blast
  with assms(3) p m show ?thesis
    by (intro exI [of _ sp'] exI [of _ P']) (simp add: pipe_read_def del: pipe_read_from.simps)
qed

theorem pipe_read_blocks_witness:
  "\<exists>P sp' P'. pipe_open raw_block (0, 0) boot_pipes = Some (0, (3, 4), P) \<and>
     pipe_read 0x700000 3 10 P = Some (Switch sp', [], P') \<and> pipe_mem P' = pipe_mem P"
proof -
  obtain p P R rs where p: "pipe_open raw_block (0, 0) boot_pipes = Some (0, (3, 4), P)" "pipe_ok p P" "contents p P = []"
     "find_pipe 3 P = Some p" "sched_inv (kern (sys P))" "on_cpu (kern (sys P))" "1700 < pages_left (kern (sys P))"
     "pid (pr_of (kern (sys P)) (currentProcess (kern (sys P)))) = 1"
     "getSem (Some (readSemName (the (pipe_mem P p)))) (sys P) = Some rs" "sem_mem R (sys P) rs"
    using first_pipe by blast
  have "2 < pages_left (kern (sys P))" "pid (pr_of (kern (sys P)) (currentProcess (kern (sys P)))) \<noteq> 0" using p by simp_all
  from pipe_read_blocks [OF p(2-4) _ p(5,6) this p(9,10), where n = 10 and sp = "0x700000"] p(1) show ?thesis by auto
qed

end
