(* ===== verification/Keyboard.thy ===== *)
theory Keyboard
  imports Pipe
begin

text \<open>
  \<open>Kernel/drivers/keyboard/keyboardDriver.c\<close> and the register snapshot of \<open>Kernel/syscall/syscalls.c\<close>.
  The scan code is what \<open>getKeyCode\<close> reads from the controller, an argument here. The buffer is a
  circular array of 256 characters; the semaphore \<open>keyboard_sem\<close> counts what there is to read.
\<close>

section \<open>Scan codes\<close>

record modifier_state =
  lshift :: bool
  rshift :: bool
  caps_lock_on :: bool
  ctrl :: bool
  alt :: bool

abbreviation SC_LSHIFT_PRESS :: u32 where "SC_LSHIFT_PRESS \<equiv> 0x2A"
abbreviation SC_RSHIFT_PRESS :: u32 where "SC_RSHIFT_PRESS \<equiv> 0x36"
abbreviation SC_CAPSLOCK_PRESS :: u32 where "SC_CAPSLOCK_PRESS \<equiv> 0x3A"
abbreviation SC_CTRL_PRESS :: u32 where "SC_CTRL_PRESS \<equiv> 0x1D"
abbreviation SC_ALT_PRESS :: u32 where "SC_ALT_PRESS \<equiv> 0x38"

text \<open>Both tables have 128 entries; those not written down are zero.\<close>

definition padded :: "string \<Rightarrow> string" where
  "padded s = s @ replicate (128 - length s) nul"

definition scancode_to_ascii_map_normal :: string where
  "scancode_to_ascii_map_normal = padded
     ([nul, CHR 0x1B] @ ''1234567890-='' @ [CHR 0x08, CHR 0x09] @
      ''qwertyuiop[]'' @ [CHR 0x0A, nul] @ ''asdfghjkl;'' @ [CHR 0x27, CHR 0x60, nul, CHR 0x5C] @
      ''zxcvbnm,./'' @ [nul, CHR ''*'', nul, CHR '' ''])"

definition scancode_to_ascii_map_shifted :: string where
  "scancode_to_ascii_map_shifted = padded
     ([nul, CHR 0x1B] @ ''!@#$%^&*()_+'' @ [CHR 0x08, CHR 0x09] @
      ''QWERTYUIOP{}'' @ [CHR 0x0A, nul] @ ''ASDFGHJKL:'' @ [CHR 0x22, CHR ''~'', nul, CHR ''|''] @
      ''ZXCVBNM<>?'' @ [nul, CHR ''*'', nul, CHR '' ''])"

definition code :: "char \<Rightarrow> nat" where
  "code c = of_char c"

definition is_lower :: "char \<Rightarrow> bool" where
  "is_lower c \<longleftrightarrow> 97 \<le> code c \<and> code c \<le> 122"

definition is_upper :: "char \<Rightarrow> bool" where
  "is_upper c \<longleftrightarrow> 65 \<le> code c \<and> code c \<le> 90"

text \<open>The character of a key that is not a modifier.\<close>

definition key_char :: "u32 \<Rightarrow> modifier_state \<Rightarrow> char" where
  "key_char make_code m =
     (let char_normal = scancode_to_ascii_map_normal ! unat make_code;
          char_shifted = scancode_to_ascii_map_shifted ! unat make_code
      in if char_normal = nul then nul
         else let is_alpha_lower = is_lower char_normal;
                  any_shift_pressed = (lshift m \<or> rshift m)
              in if any_shift_pressed
                 then if caps_lock_on m \<and> is_alpha_lower
                      then if is_upper char_shifted \<and> code char_shifted - 65 = code char_normal - 97
                           then char_normal else char_shifted
                      else char_shifted
                 else if caps_lock_on m \<and> is_alpha_lower then char_shifted else char_normal)"

text \<open>The result for scan code 0 is the \<open>char\<close> -1.\<close>

definition procesScanCode :: "u32 \<Rightarrow> modifier_state \<Rightarrow> char \<times> modifier_state" where
  "procesScanCode scancode m =
     (if scancode = 0 then (CHR 0xFF, m)
      else let is_press = (scancode AND 0x80 = 0); make_code = scancode AND 0x7F
           in if make_code = SC_LSHIFT_PRESS then (nul, m\<lparr>lshift := is_press\<rparr>)
              else if make_code = SC_RSHIFT_PRESS then (nul, m\<lparr>rshift := is_press\<rparr>)
              else if make_code = SC_CAPSLOCK_PRESS
              then (nul, if is_press then m\<lparr>caps_lock_on := \<not> caps_lock_on m\<rparr> else m)
              else if make_code = SC_CTRL_PRESS then (nul, m\<lparr>ctrl := is_press\<rparr>)
              else if make_code = SC_ALT_PRESS then (nul, m\<lparr>alt := is_press\<rparr>)
              else (if is_press then key_char make_code m else nul, m))"

section \<open>State\<close>

abbreviation KEYBOARD_BUFFER_SIZE :: nat where "KEYBOARD_BUFFER_SIZE \<equiv> 256"

record keyboard =
  kbd_modifier_state :: modifier_state
  keyboard_buffer :: string
  buffer_write_idx :: u32
  buffer_read_idx :: u32
  buffer_count :: u32
  kbd_eof_flag :: bool

text \<open>The saved registers of an interrupt, in the order of \<open>pushState\<close>.\<close>

record Registers_t =
  r15 :: u64
  r14 :: u64
  r13 :: u64
  r12 :: u64
  r11 :: u64
  r10 :: u64
  r9 :: u64
  r8 :: u64
  rsi :: u64
  rdi :: u64
  rbp :: u64
  rdx :: u64
  rcx :: u64
  rbx :: u64
  rax :: u64
  rip :: u64
  r_cs :: u64
  rflags :: u64
  rsp :: u64
  r_ss :: u64

record kbd_sys =
  kbd :: keyboard
  ksys :: system
  snapshot :: Registers_t
  snapshotReady :: bool

definition loadSnapshot :: "Registers_t option \<Rightarrow> kbd_sys \<Rightarrow> kbd_sys" where
  "loadSnapshot regs M =
     (case regs of None \<Rightarrow> M | Some r \<Rightarrow> M\<lparr>snapshot := r, snapshotReady := True\<rparr>)"

definition keyboard_sem :: "char list" where
  "keyboard_sem = ''keyboard_sem'' @ [nul]"

section \<open>Operations\<close>

definition keyboard_init :: "kbd_sys \<Rightarrow> kbd_sys option" where
  "keyboard_init M = do { (_, S) \<leftarrow> semOpen (Some keyboard_sem) 0 (ksys M); Some (M\<lparr>ksys := S\<rparr>) }"

definition kbd_check_eof :: "keyboard \<Rightarrow> bool \<times> keyboard" where
  "kbd_check_eof K = (if kbd_eof_flag K then (True, K\<lparr>kbd_eof_flag := False\<rparr>) else (False, K))"

definition loadCharToBuffer :: "char \<Rightarrow> keyboard \<Rightarrow> keyboard option" where
  "loadCharToBuffer c K =
     (if c \<noteq> nul \<and> buffer_count K < of_nat KEYBOARD_BUFFER_SIZE
      then do {
        b \<leftarrow> aset (keyboard_buffer K) (unat (buffer_write_idx K)) c;
        Some (K\<lparr>keyboard_buffer := b,
                buffer_write_idx := (buffer_write_idx K + 1) mod of_nat KEYBOARD_BUFFER_SIZE,
                buffer_count := buffer_count K + 1\<rparr>)
      }
      else Some K)"

definition post_key :: "kbd_sys \<Rightarrow> kbd_sys option" where
  "post_key M =
     do { s \<leftarrow> getSem (Some keyboard_sem) (ksys M); S \<leftarrow> semPost s (ksys M); Some (M\<lparr>ksys := S\<rparr>) }"

definition store_key :: "char \<Rightarrow> kbd_sys \<Rightarrow> kbd_sys option" where
  "store_key c M = do { K \<leftarrow> loadCharToBuffer c (kbd M); post_key (M\<lparr>kbd := K\<rparr>) }"

text \<open>Killing the foreground process gives up the processor when it is the running one.\<close>

definition keyboard_handler :: "ptr \<Rightarrow> Registers_t option \<Rightarrow> u32 \<Rightarrow> kbd_sys \<Rightarrow> (unit ctl \<times> kbd_sys) option" where
  "keyboard_handler sp regs keyCode M =
     (let scanCode = (ucast keyCode :: u8);
          (c, m) = procesScanCode (ucast scanCode) (kbd_modifier_state (kbd M));
          M = M\<lparr>kbd := (kbd M)\<lparr>kbd_modifier_state := m\<rparr>\<rparr>
      in if ctrl m \<and> (c = CHR ''r'' \<or> c = CHR ''R'') then Some (Ret (), loadSnapshot regs M)
         else if ctrl m \<and> (c = CHR ''c'' \<or> c = CHR ''C'')
         then do {
           fgPid \<leftarrow> getForegroundPid (kern (ksys M));
           if fgPid \<noteq> 0
           then do {
             (r, k) \<leftarrow> killProcess sp fgPid (kern (ksys M));
             Some (case r of Ret _ \<Rightarrow> Ret () | Switch sp' \<Rightarrow> Switch sp', M\<lparr>ksys := (ksys M)\<lparr>kern := k\<rparr>\<rparr>)
           }
           else Some (Ret (), M)
         }
         else if ctrl m \<and> (c = CHR ''d'' \<or> c = CHR ''D'')
         then do { M \<leftarrow> post_key (M\<lparr>kbd := (kbd M)\<lparr>kbd_eof_flag := True\<rparr>\<rparr>); Some (Ret (), M) }
         else if c \<noteq> nul then do { M \<leftarrow> store_key c M; Some (Ret (), M) }
         else Some (Ret (), M))"

text \<open>The part of \<open>kbd_get_char\<close> after the wait; the whole of it is either this or a switch.\<close>

definition take_char :: "keyboard \<Rightarrow> (char \<times> keyboard) option" where
  "take_char K =
     (if buffer_count K = 0 then Some (nul, K)
      else do {
        c \<leftarrow> aget (keyboard_buffer K) (unat (buffer_read_idx K));
        Some (c, K\<lparr>buffer_read_idx := (buffer_read_idx K + 1) mod of_nat KEYBOARD_BUFFER_SIZE,
                   buffer_count := buffer_count K - 1\<rparr>)
      })"

definition kbd_get_char_resume :: "kbd_sys \<Rightarrow> (char \<times> kbd_sys) option" where
  "kbd_get_char_resume M = do { (c, K) \<leftarrow> take_char (kbd M); Some (c, M\<lparr>kbd := K\<rparr>) }"

definition kbd_get_char :: "ptr \<Rightarrow> kbd_sys \<Rightarrow> (char ctl \<times> kbd_sys) option" where
  "kbd_get_char sp M =
     do {
       s \<leftarrow> getSem (Some keyboard_sem) (ksys M);
       (r, S) \<leftarrow> semWait sp s (ksys M);
       let M = M\<lparr>ksys := S\<rparr>;
       (case r of
          Switch sp' \<Rightarrow> Some (Switch sp', M)
        | Ret _ \<Rightarrow> do { (c, M) \<leftarrow> kbd_get_char_resume M; Some (Ret c, M) })
     }"

section \<open>The layout\<close>

text \<open>What a key should give: a letter is a capital when shift and caps lock disagree, and every other key
  gives its upper character under shift, whatever caps lock is.\<close>

definition capital :: "char \<Rightarrow> char" where
  "capital c = char_of (code c - 32)"

definition layout :: "modifier_state \<Rightarrow> nat \<Rightarrow> char" where
  "layout m i =
     (let lower = scancode_to_ascii_map_normal ! i; upper = scancode_to_ascii_map_shifted ! i;
          shift = (lshift m \<or> rshift m)
      in if is_lower lower then (if shift \<noteq> caps_lock_on m then capital lower else lower)
         else if lower = nul then nul
         else if shift then upper else lower)"

lemma map_lengths [simp]:
  "length scancode_to_ascii_map_normal = 128" "length scancode_to_ascii_map_shifted = 128"
  by (simp_all add: scancode_to_ascii_map_normal_def scancode_to_ascii_map_shifted_def padded_def)

lemma list_all2_replicate: "P x y \<Longrightarrow> list_all2 P (replicate n x) (replicate n y)"
  by (simp add: list_all2_conv_all_nth)

lemma letters_table:
  "list_all2 (\<lambda>n s. is_lower n \<longrightarrow> is_upper s \<and> code s + 32 = code n)
     scancode_to_ascii_map_normal scancode_to_ascii_map_shifted"
  unfolding scancode_to_ascii_map_normal_def scancode_to_ascii_map_shifted_def padded_def
  by (simp add: is_lower_def is_upper_def code_def list_all2_replicate)

lemma letters:
  assumes "i < 128" and "is_lower (scancode_to_ascii_map_normal ! i)"
  shows "scancode_to_ascii_map_shifted ! i = capital (scancode_to_ascii_map_normal ! i) \<and>
         is_upper (scancode_to_ascii_map_shifted ! i) \<and>
         code (scancode_to_ascii_map_shifted ! i) - 65 = code (scancode_to_ascii_map_normal ! i) - 97"
proof -
  have "is_upper (scancode_to_ascii_map_shifted ! i)"
    "code (scancode_to_ascii_map_shifted ! i) + 32 = code (scancode_to_ascii_map_normal ! i)"
    using list_all2_nthD [OF letters_table, of i] assms by simp_all
  moreover from this(2) have "char_of (code (scancode_to_ascii_map_normal ! i) - 32) = scancode_to_ascii_map_shifted ! i"
    by (metis add_diff_cancel_right' char_of_char code_def)
  ultimately show ?thesis by (simp add: capital_def)
qed

lemma key_char_layout: "unat i < 128 \<Longrightarrow> key_char i m = layout m (unat i)"
  using letters [of "unat i"]
  by (auto simp: key_char_def layout_def Let_def is_lower_def code_def)

section \<open>The buffer\<close>

definition kbd_ok :: "ptr \<Rightarrow> kbd_sys \<Rightarrow> bool" where
  "kbd_ok s M \<longleftrightarrow>
     getSem (Some keyboard_sem) (ksys M) = Some s \<and> sem_inv (ksys M) s \<and>
     \<not> pendingDestruction (the (sems (ksys M) s)) \<and> getPid (kern (ksys M)) \<noteq> None \<and>
     length (keyboard_buffer (kbd M)) = KEYBOARD_BUFFER_SIZE \<and>
     ring_ok (keyboard_buffer (kbd M)) (unat (buffer_read_idx (kbd M))) (unat (buffer_write_idx (kbd M)))
       (unat (buffer_count (kbd M))) \<and>
     val (ksys M) s = int (unat (buffer_count (kbd M)))"

definition keys_held :: "kbd_sys \<Rightarrow> string" where
  "keys_held M = ring (keyboard_buffer (kbd M)) (unat (buffer_read_idx (kbd M))) (unat (buffer_count (kbd M)))"

lemma idx_step: "unat (w :: u32) < 256 \<Longrightarrow> unat ((w + 1) mod of_nat KEYBOARD_BUFFER_SIZE) = (unat w + 1) mod KEYBOARD_BUFFER_SIZE"
  by (simp add: unat_mod unat_word_ariths)

lemma loadCharToBuffer_room:
  assumes c: "c \<noteq> nul" and l: "length (keyboard_buffer K) = KEYBOARD_BUFFER_SIZE"
    and r: "ring_ok (keyboard_buffer K) (unat (buffer_read_idx K)) (unat (buffer_write_idx K)) (unat (buffer_count K))"
    and n: "unat (buffer_count K) < KEYBOARD_BUFFER_SIZE"
  shows "\<exists>K'. loadCharToBuffer c K = Some K' \<and> length (keyboard_buffer K') = KEYBOARD_BUFFER_SIZE \<and>
           ring_ok (keyboard_buffer K') (unat (buffer_read_idx K')) (unat (buffer_write_idx K')) (unat (buffer_count K')) \<and>
           ring (keyboard_buffer K') (unat (buffer_read_idx K')) (unat (buffer_count K')) =
             ring (keyboard_buffer K) (unat (buffer_read_idx K)) (unat (buffer_count K)) @ [c] \<and>
           unat (buffer_count K') = Suc (unat (buffer_count K)) \<and>
           kbd_modifier_state K' = kbd_modifier_state K \<and> kbd_eof_flag K' = kbd_eof_flag K"
proof -
  have w: "unat (buffer_write_idx K) < KEYBOARD_BUFFER_SIZE" using r l by (simp add: ring_ok_def)
  have lt: "buffer_count K < of_nat KEYBOARD_BUFFER_SIZE" using n by (simp add: word_less_nat_alt)
  have up: "unat (buffer_count K + 1) = Suc (unat (buffer_count K))" using n by (simp add: unat_word_ariths)
  note p = ring_put [OF r, of c]
  show ?thesis using c lt w l up n p idx_step [OF w] by (simp add: loadCharToBuffer_def aset_def)
qed

lemma take_char_some:
  assumes l: "length (keyboard_buffer K) = KEYBOARD_BUFFER_SIZE"
    and r: "ring_ok (keyboard_buffer K) (unat (buffer_read_idx K)) (unat (buffer_write_idx K)) (unat (buffer_count K))"
    and h: "ring (keyboard_buffer K) (unat (buffer_read_idx K)) (unat (buffer_count K)) = c # cs"
  shows "\<exists>K'. take_char K = Some (c, K') \<and> length (keyboard_buffer K') = KEYBOARD_BUFFER_SIZE \<and>
           ring_ok (keyboard_buffer K') (unat (buffer_read_idx K')) (unat (buffer_write_idx K')) (unat (buffer_count K')) \<and>
           ring (keyboard_buffer K') (unat (buffer_read_idx K')) (unat (buffer_count K')) = cs \<and>
           unat (buffer_count K) = Suc (unat (buffer_count K')) \<and>
           kbd_modifier_state K' = kbd_modifier_state K \<and> kbd_eof_flag K' = kbd_eof_flag K"
proof -
  have n: "buffer_count K \<noteq> 0" using h by (auto simp: ring_def)
  then have d: "unat (buffer_count K) = Suc (unat (buffer_count K - 1))" by (simp add: unat_minus_one unat_gt_0)
  have rl: "unat (buffer_read_idx K) < KEYBOARD_BUFFER_SIZE" using r l by (simp add: ring_ok_def)
  note g = ring_get [OF r [unfolded d]]
  have "c = keyboard_buffer K ! unat (buffer_read_idx K)"
    "cs = ring (keyboard_buffer K) ((unat (buffer_read_idx K) + 1) mod KEYBOARD_BUFFER_SIZE) (unat (buffer_count K - 1))"
    using h g(1) l d by simp_all
  then show ?thesis using n rl l d g(2) idx_step [OF rl] by (simp add: take_char_def aget_def)
qed

lemma loadCharToBuffer_mods:
  "loadCharToBuffer c (K\<lparr>kbd_modifier_state := m\<rparr>) =
     map_option (\<lambda>K. K\<lparr>kbd_modifier_state := m\<rparr>) (loadCharToBuffer c K)"
  by (simp add: loadCharToBuffer_def aset_def)

text \<open>One key stored and one key read, as the operations of the contract of a bounded queue.\<close>

definition get_key :: "kbd_sys \<Rightarrow> (char \<times> kbd_sys) option" where
  "get_key M = do { (r, M) \<leftarrow> kbd_get_char 0 M; (case r of Ret c \<Rightarrow> Some (c, M) | Switch _ \<Rightarrow> None) }"

lemma store_key_room:
  assumes ok: "kbd_ok s M" and c: "c \<noteq> nul" and room: "length (keys_held M) < KEYBOARD_BUFFER_SIZE"
  shows "\<exists>M'. store_key c M = Some M' \<and> kbd_ok s M' \<and> keys_held M' = keys_held M @ [c] \<and>
           kbd_modifier_state (kbd M') = kbd_modifier_state (kbd M) \<and> kern (ksys M') = kern (ksys M)"
proof -
  from ok have o: "getSem (Some keyboard_sem) (ksys M) = Some s" "sem_inv (ksys M) s"
    "\<not> pendingDestruction (the (sems (ksys M) s))" "getPid (kern (ksys M)) \<noteq> None"
    "val (ksys M) s = int (unat (buffer_count (kbd M)))" by (auto simp: kbd_ok_def)
  have n: "unat (buffer_count (kbd M)) < KEYBOARD_BUFFER_SIZE" using room by (simp add: keys_held_def)
  from loadCharToBuffer_room [OF c _ _ n] ok obtain K where
    k: "loadCharToBuffer c (kbd M) = Some K" "length (keyboard_buffer K) = KEYBOARD_BUFFER_SIZE"
      "ring_ok (keyboard_buffer K) (unat (buffer_read_idx K)) (unat (buffer_write_idx K)) (unat (buffer_count K))"
      "ring (keyboard_buffer K) (unat (buffer_read_idx K)) (unat (buffer_count K)) = keys_held M @ [c]"
      "unat (buffer_count K) = Suc (unat (buffer_count (kbd M)))"
      "kbd_modifier_state K = kbd_modifier_state (kbd M)" by (auto simp: kbd_ok_def keys_held_def)
  have w: "waiting (ksys M) s = []" using o(2,5) by (simp add: sem_inv_def)
  have "int (unat (buffer_count (kbd M))) < int KEYBOARD_BUFFER_SIZE" using n by (simp only: of_nat_less_iff)
  then have "val (ksys M) s < 2 ^ 31 - 1" using o(5) by simp
  from semPost_free [OF o(2) w this o(3)] obtain S where
    s: "semPost s (ksys M) = Some S" "sem_inv S s" "kern S = kern (ksys M)" "val S s = val (ksys M) s + 1"
      "pendingDestruction (the (sems S s)) = pendingDestruction (the (sems (ksys M) s))"
      "\<forall>n. getSem n S = getSem n (ksys M)" by blast
  have "store_key c M = Some (M\<lparr>kbd := K, ksys := S\<rparr>)" using k(1) s(1) o(1) by (simp add: store_key_def post_key_def)
  moreover have "kbd_ok s (M\<lparr>kbd := K, ksys := S\<rparr>)" using s o k by (simp add: kbd_ok_def)
  ultimately show ?thesis using k s(3) by (intro exI [of _ "M\<lparr>kbd := K, ksys := S\<rparr>"]) (simp add: keys_held_def)
qed

lemma kbd_get_char_some:
  assumes ok: "kbd_ok s M" and h: "keys_held M = c # cs"
  shows "\<exists>M'. kbd_get_char sp M = Some (Ret c, M') \<and> kbd_ok s M' \<and> keys_held M' = cs \<and>
           kbd_modifier_state (kbd M') = kbd_modifier_state (kbd M) \<and> kern (ksys M') = kern (ksys M)"
proof -
  from ok have o: "getSem (Some keyboard_sem) (ksys M) = Some s" "sem_inv (ksys M) s"
    "\<not> pendingDestruction (the (sems (ksys M) s))" "getPid (kern (ksys M)) \<noteq> None"
    "val (ksys M) s = int (unat (buffer_count (kbd M)))" by (auto simp: kbd_ok_def)
  from take_char_some [of "kbd M" c cs] ok h obtain K where
    k: "take_char (kbd M) = Some (c, K)" "length (keyboard_buffer K) = KEYBOARD_BUFFER_SIZE"
      "ring_ok (keyboard_buffer K) (unat (buffer_read_idx K)) (unat (buffer_write_idx K)) (unat (buffer_count K))"
      "ring (keyboard_buffer K) (unat (buffer_read_idx K)) (unat (buffer_count K)) = cs"
      "unat (buffer_count (kbd M)) = Suc (unat (buffer_count K))"
      "kbd_modifier_state K = kbd_modifier_state (kbd M)" by (auto simp: kbd_ok_def keys_held_def)
  have v: "val (ksys M) s = int (Suc (unat (buffer_count K)))" using o(5) k(5) by simp
  have "0 < val (ksys M) s" unfolding v of_nat_0_less_iff by (rule zero_less_Suc)
  from semWait_free [OF o(2) this o(4), of sp] obtain S where
    s: "semWait sp s (ksys M) = Some (Ret (), S)" "sem_inv S s" "kern S = kern (ksys M)" "val S s = val (ksys M) s - 1"
      "pendingDestruction (the (sems S s)) = pendingDestruction (the (sems (ksys M) s))"
      "\<forall>n. getSem n S = getSem n (ksys M)" by blast
  have "kbd_get_char sp M = Some (Ret c, M\<lparr>ksys := S, kbd := K\<rparr>)"
    using k(1) s(1) o(1) by (simp add: kbd_get_char_def kbd_get_char_resume_def)
  moreover have "val S s = int (unat (buffer_count K))" using s(4) v by simp
  then have "kbd_ok s (M\<lparr>ksys := S, kbd := K\<rparr>)" using s o k by (simp add: kbd_ok_def)
  ultimately show ?thesis using k s(3) by (intro exI [of _ "M\<lparr>ksys := S, kbd := K\<rparr>"]) (simp add: keys_held_def)
qed

interpretation kbd_fifo: bounded_fifo store_key get_key "kbd_ok s" keys_held KEYBOARD_BUFFER_SIZE "\<lambda>c. c \<noteq> nul" for s
proof
  show "kbd_ok s M \<Longrightarrow> length (keys_held M) \<le> KEYBOARD_BUFFER_SIZE" for M
    by (simp add: kbd_ok_def keys_held_def ring_ok_def)
  show "\<exists>M'. store_key c M = Some M' \<and> kbd_ok s M' \<and> keys_held M' = keys_held M @ [c]"
    if "kbd_ok s M" "c \<noteq> nul" "length (keys_held M) < KEYBOARD_BUFFER_SIZE" for M c
    using store_key_room [OF that] by blast
  show "\<exists>M'. get_key M = Some (c, M') \<and> kbd_ok s M' \<and> keys_held M' = cs"
    if "kbd_ok s M" "keys_held M = c # cs" for M c cs
    using kbd_get_char_some [OF that, of 0] by (auto simp: get_key_def)
qed

text \<open>A run of key presses and releases, and reading a number of characters.\<close>

fun type_keys :: "u8 list \<Rightarrow> kbd_sys \<Rightarrow> kbd_sys option" where
  "type_keys [] M = Some M"
| "type_keys (k # ks) M =
     do { (r, M) \<leftarrow> keyboard_handler 0 None (ucast k) M; (case r of Ret _ \<Rightarrow> type_keys ks M | Switch _ \<Rightarrow> None) }"

fun read_keys :: "nat \<Rightarrow> kbd_sys \<Rightarrow> (string \<times> kbd_sys) option" where
  "read_keys 0 M = Some ([], M)"
| "read_keys (Suc n) M = do { (c, M) \<leftarrow> get_key M; (cs, M) \<leftarrow> read_keys n M; Some (c # cs, M) }"

lemma read_keys_gets: "read_keys n M = kbd_fifo.gets n M"
  by (induction n arbitrary: M) simp_all

text \<open>What a run of keys spells.\<close>

fun spelled :: "u8 list \<Rightarrow> modifier_state \<Rightarrow> string" where
  "spelled [] m = []"
| "spelled (k # ks) m =
     (let (c, m) = procesScanCode (ucast k) m in (if c = nul then [] else [c]) @ spelled ks m)"

definition plain_key :: "u8 \<Rightarrow> bool" where
  "plain_key k \<longleftrightarrow> unat k mod 128 \<noteq> 0x1D"

lemma unat_up: "unat (ucast (k :: u8) :: u32) = unat k"
  using unsigned_less [of k, where 'a = nat] by (simp add: unsigned_ucast_eq take_bit_nat_eq_self)

lemma down_up: "ucast (ucast (k :: u8) :: u32) = k"
  by (rule bit_word_eqI) (auto simp: bit_ucast_iff)

lemma make_code: "unat ((ucast k :: u32) AND 0x7F) = unat (k :: u8) mod 128"
proof -
  have "(ucast k :: u32) AND 0x7F = take_bit 7 (ucast k)" unfolding take_bit_eq_mask by (simp add: mask_eq_exp_minus_1)
  then show ?thesis by (simp add: unat_mod unat_up take_bit_eq_mod)
qed

lemma make_code_eq: "unat c < 0x80 \<Longrightarrow> (ucast k :: u32) AND 0x7F = c \<longleftrightarrow> unat (k :: u8) mod 128 = unat c"
  using make_code [of k] by (metis unsigned_word_eqI)

lemma press_bit: "(ucast k :: u32) AND 0x80 = 0 \<longleftrightarrow> unat (k :: u8) < 128"
proof -
  have e: "(0x80 :: u32) = 2 ^ 7" by simp
  have "unat k < 256" using unsigned_less [of k, where 'a = nat] by simp
  then have "unat k div 128 < 2" by (simp add: div_less_iff_less_mult)
  then have c: "unat k div 128 = 0 \<or> unat k div 128 = 1" by auto
  have "bit (ucast k :: u32) 7 = odd (unat (ucast k :: u32) div 2 ^ 7)"
    unfolding bit_iff_odd [symmetric] by (simp add: bit_unsigned_iff)
  with c have "bit (ucast k :: u32) 7 \<longleftrightarrow> \<not> unat k < 128" unfolding unat_up by auto
  then show ?thesis unfolding e and_exp_eq_0_iff_not_bit by simp
qed

section \<open>Properties\<close>

text \<open>C18: the layout. For every scan code but 0 a key press of an ordinary key gives what the layout says: a
  letter is a capital exactly when shift and caps lock disagree, any other key gives its upper character under
  shift; a release and a modifier give nothing. Shift, control and alt follow their keys, and only a press of
  caps lock toggles it. Scan code 0 gives the character 0xFF and changes nothing.\<close>

theorem scan_codes_follow_layout:
  defines "i \<equiv> \<lambda>k. unat (k :: u8) mod 128" and "press \<equiv> \<lambda>k. unat (k :: u8) < 128"
  shows "procesScanCode (ucast k) m =
    (if k = 0 then (CHR 0xFF, m)
     else (if press k \<and> i k \<notin> {0x2A, 0x36, 0x3A, 0x1D, 0x38} then layout m (i k) else nul,
           m\<lparr>lshift := (if i k = 0x2A then press k else lshift m),
             rshift := (if i k = 0x36 then press k else rshift m),
             caps_lock_on := (if i k = 0x3A \<and> press k then \<not> caps_lock_on m else caps_lock_on m),
             ctrl := (if i k = 0x1D then press k else ctrl m),
             alt := (if i k = 0x38 then press k else alt m)\<rparr>))"
proof -
  have z: "(ucast k :: u32) = 0 \<longleftrightarrow> k = 0" by (metis down_up ucast_0)
  have lt: "unat ((ucast k :: u32) AND 0x7F) < 128" by (simp add: make_code)
  show ?thesis
    using z key_char_layout [OF lt, of m]
    by (simp add: procesScanCode_def Let_def make_code_eq press_bit i_def press_def make_code)
qed

lemma handler_plain:
  assumes ok: "kbd_ok s M" and c: "\<not> ctrl (kbd_modifier_state (kbd M))" and p: "plain_key k"
    and pr: "procesScanCode (ucast k) (kbd_modifier_state (kbd M)) = (c, m)"
    and room: "c \<noteq> nul \<Longrightarrow> length (keys_held M) < KEYBOARD_BUFFER_SIZE"
  shows "\<exists>M'. keyboard_handler sp regs (ucast k) M = Some (Ret (), M') \<and> kbd_ok s M' \<and>
           keys_held M' = keys_held M @ (if c = nul then [] else [c]) \<and> kbd_modifier_state (kbd M') = m \<and> \<not> ctrl m \<and>
           kern (ksys M') = kern (ksys M)"
proof -
  have "ctrl m = ctrl (kbd_modifier_state (kbd M))"
    using pr p by (auto simp: procesScanCode_def plain_key_def Let_def make_code_eq split: if_splits)
  with c have nc: "\<not> ctrl m" by simp
  let ?M = "M\<lparr>kbd := (kbd M)\<lparr>kbd_modifier_state := m\<rparr>\<rparr>"
  have ok': "kbd_ok s ?M" "keys_held ?M = keys_held M" using ok by (simp_all add: kbd_ok_def keys_held_def)
  show ?thesis
  proof (cases "c = nul")
    case True
    then show ?thesis using ok' nc pr by (simp add: keyboard_handler_def down_up)
  next
    case False
    from store_key_room [OF ok'(1) False] room [OF False] ok'(2) obtain M' where
      "store_key c ?M = Some M'" "kbd_ok s M'" "keys_held M' = keys_held M @ [c]"
      "kbd_modifier_state (kbd M') = m" "kern (ksys M') = kern (ksys M)" by auto
    then show ?thesis using False nc pr by (simp add: keyboard_handler_def down_up)
  qed
qed

lemma type_keys_ok:
  assumes "kbd_ok s M" and "\<not> ctrl (kbd_modifier_state (kbd M))" and "list_all plain_key ks"
    and "length (keys_held M) + length (spelled ks (kbd_modifier_state (kbd M))) \<le> KEYBOARD_BUFFER_SIZE"
  shows "\<exists>M'. type_keys ks M = Some M' \<and> kbd_ok s M' \<and>
           keys_held M' = keys_held M @ spelled ks (kbd_modifier_state (kbd M))"
  using assms
proof (induction ks arbitrary: M)
  case (Cons k ks)
  obtain c m where pr: "procesScanCode (ucast k) (kbd_modifier_state (kbd M)) = (c, m)" by fastforce
  have pk: "plain_key k" "list_all plain_key ks" using Cons.prems(3) by simp_all
  have "length (keys_held M) < KEYBOARD_BUFFER_SIZE" if "c \<noteq> nul" using Cons.prems(4) pr that by simp
  from handler_plain [OF Cons.prems(1,2) pk(1) pr this, of 0 None] obtain M1 where
    m1: "keyboard_handler 0 None (ucast k) M = Some (Ret (), M1)" "kbd_ok s M1"
      "keys_held M1 = keys_held M @ (if c = nul then [] else [c])" "kbd_modifier_state (kbd M1) = m" "\<not> ctrl m" by auto
  have "length (keys_held M1) + length (spelled ks (kbd_modifier_state (kbd M1))) \<le> KEYBOARD_BUFFER_SIZE"
    using Cons.prems(4) pr m1(3,4) by (simp split: if_splits)
  from Cons.IH [OF m1(2) _ pk(2) this] m1 pr show ?case by (auto split: if_splits)
qed simp

text \<open>C19: typing. On a keyboard whose buffer is empty and whose control key is up, any run of events of keys other than the
  control key that spells at most 256 characters is read back as it was spelled, in order, and the buffer is empty again. (With
  the control key down a key may store no character: \<open>D\<close> marks the end of the input.)\<close>

theorem typing_is_read_back:
  assumes "kbd_ok s M" and "keys_held M = []" and "\<not> ctrl (kbd_modifier_state (kbd M))"
    and "list_all plain_key ks" and "length (spelled ks (kbd_modifier_state (kbd M))) \<le> KEYBOARD_BUFFER_SIZE"
  shows "\<exists>M1 M2. type_keys ks M = Some M1 \<and>
           read_keys (length (spelled ks (kbd_modifier_state (kbd M)))) M1 =
             Some (spelled ks (kbd_modifier_state (kbd M)), M2) \<and> keys_held M2 = []"
proof -
  from type_keys_ok [OF assms(1,3,4)] assms(2,5) obtain M1 where
    m1: "type_keys ks M = Some M1" "kbd_ok s M1" "keys_held M1 = spelled ks (kbd_modifier_state (kbd M))" by auto
  from kbd_fifo.gets_held [OF m1(2), of "length (keys_held M1)"] m1(1,3) show ?thesis
    by (auto simp: read_keys_gets)
qed

definition boot_keyboard :: kbd_sys where
  "boot_keyboard =
     \<lparr>kbd = \<lparr>kbd_modifier_state = \<lparr>lshift = False, rshift = False, caps_lock_on = False, ctrl = False, alt = False\<rparr>,
             keyboard_buffer = replicate KEYBOARD_BUFFER_SIZE nul, buffer_write_idx = 0, buffer_read_idx = 0,
             buffer_count = 0, kbd_eof_flag = False\<rparr>,
      ksys = boot_system,
      snapshot = \<lparr>r15 = 0, r14 = 0, r13 = 0, r12 = 0, r11 = 0, r10 = 0, r9 = 0, r8 = 0, rsi = 0, rdi = 0, rbp = 0,
                  rdx = 0, rcx = 0, rbx = 0, rax = 0, rip = 0, r_cs = 0, rflags = 0, rsp = 0, r_ss = 0\<rparr>,
      snapshotReady = False\<rparr>"

lemma boot_keyboard_ok:
  "\<exists>s M R. keyboard_init boot_keyboard = Some M \<and> kbd_ok s M \<and> keys_held M = [] \<and>
     kbd M = kbd boot_keyboard \<and> sem_mem R (ksys M) s \<and> sched_inv (kern (ksys M)) \<and> on_cpu (kern (ksys M)) \<and>
     pid (pr_of (kern (ksys M)) (currentProcess (kern (ksys M)))) = 1 \<and> 1700 \<le> pages_left (kern (ksys M))"
proof -
  obtain i where i: "getPid (kern boot_system) = Some i" using running_pid by auto
  have n: "nul \<notin> set ''keyboard_sem''" "length ''keyboard_sem'' < 4000" by simp_all
  have pg: "6 \<le> pages_left (kern boot_system)" using boot_system_ok(3) by simp
  have none: "\<not> (\<exists>q\<in>set (items (semaphoreList boot_system)). named boot_system q ''keyboard_sem'')"
    using boot_system_ok(4) by simp
  from semOpen_new [OF boot_system_ok(1,2) pg n none i, of "[]" 0] obtain s S' m' R' R1 where
    s: "semOpen (Some (''keyboard_sem'' @ nul # [])) 0 boot_system = Some (s, S')" "s \<noteq> NULL"
      "kern S' = (kern boot_system)\<lparr>kmem := m'\<rparr>" "0 \<le> sint (0 :: u32) \<longrightarrow> sem_inv S' s" "val S' s = sint (0 :: u32)"
      "named S' s ''keyboard_sem''" "\<not> pendingDestruction (the (sems S' s))" "sem_mem R' S' s"
      "set (items (semaphoreList S')) = insert s (set (items (semaphoreList boot_system)))"
      "pages_left (kern boot_system) \<le> unat (free_pages m') + 6" "list_ok R1 S'" by blast
  have g: "getSem (Some keyboard_sem) S' = Some s"
    unfolding keyboard_sem_def by (rule getSem_named [OF s(11) _ s(6)]) (use s(9) boot_system_ok(4) in simp_all)
  obtain m where k: "kern boot_system = running_kernel\<lparr>kmem := m\<rparr>" using boot_system_ok(5) by blast
  let ?M = "boot_keyboard\<lparr>ksys := S'\<rparr>"
  have "keyboard_init boot_keyboard = Some ?M"
    using s(1) by (simp add: keyboard_init_def keyboard_sem_def boot_keyboard_def)
  moreover have "kbd_ok s ?M"
    using g s(3,4,5,7) running_pid by (simp add: kbd_ok_def boot_keyboard_def ring_ok_def)
  moreover have "keys_held ?M = []" by (simp add: keys_held_def boot_keyboard_def ring_def)
  moreover have "sched_inv (kern S')" using running_kernel_ok(1) by (simp add: s(3) k)
  moreover have "on_cpu (kern S')" using running_kernel_ok(3) by (simp add: s(3) k on_cpu_def)
  moreover have "pid (pr_of (kern S') (currentProcess (kern S'))) = 1"
    using running_kernel_ok(9) by (simp add: s(3) k)
  moreover have "1700 \<le> pages_left (kern S')" using s(3,10) boot_system_ok(3) by simp
  ultimately show ?thesis using s(8)
    by (intro exI [of _ s] exI [of _ ?M] exI [of _ R']) simp
qed

theorem typing_is_read_back_witness:
  "\<exists>M M1 M2. keyboard_init boot_keyboard = Some M \<and>
     type_keys [0x23, 0xA3, 0x2A, 0x17, 0x97, 0xAA, 0x02] M = Some M1 \<and> read_keys 3 M1 = Some (''hI1'', M2)"
proof -
  obtain s M where m: "keyboard_init boot_keyboard = Some M" "kbd_ok s M" "keys_held M = []" "kbd M = kbd boot_keyboard"
    using boot_keyboard_ok by blast
  let ?ks = "[0x23, 0xA3, 0x2A, 0x17, 0x97, 0xAA, 0x02] :: u8 list"
  have sp: "spelled ?ks (kbd_modifier_state (kbd boot_keyboard)) = ''hI1''"
    by (simp add: boot_keyboard_def) code_simp
  have l: "length ''hI1'' = 3" by simp
  have "\<not> ctrl (kbd_modifier_state (kbd M))" "list_all plain_key ?ks"
    "length (spelled ?ks (kbd_modifier_state (kbd M))) \<le> KEYBOARD_BUFFER_SIZE"
    unfolding m(4) sp by (simp_all add: boot_keyboard_def plain_key_def)
  from typing_is_read_back [OF m(2,3) this] m(1) l show ?thesis unfolding m(4) sp l by blast
qed

text \<open>C20: waiting for a key. A reader that finds no key is blocked and the processor goes to another process;
  the next key press with a character makes the reader ready, and when it runs again it reads that character.\<close>

theorem key_press_wakes_reader:
  assumes "kbd_ok s M" and "keys_held M = []" and "sched_inv (kern (ksys M))" and "sem_mem R (ksys M) s"
    and "on_cpu (kern (ksys M))" and "2 < pages_left (kern (ksys M))"
    and "pid (pr_of (kern (ksys M)) (currentProcess (kern (ksys M)))) \<noteq> 0"
    and "procesScanCode (ucast (k :: u8)) (kbd_modifier_state (kbd M)) = (c, m)" and "c \<noteq> nul" and "\<not> ctrl m"
  defines "reader \<equiv> currentProcess (kern (ksys M))"
  shows "\<exists>sp' M1 M2 M3. kbd_get_char sp M = Some (Switch sp', M1) \<and> st_of (kern (ksys M1)) reader = BLOCKED \<and>
           currentProcess (kern (ksys M1)) \<noteq> reader \<and>
           keyboard_handler sp' regs (ucast k) M1 = Some (Ret (), M2) \<and> sched_inv (kern (ksys M2)) \<and>
           st_of (kern (ksys M2)) reader = READY \<and> kbd_get_char_resume M2 = Some (c, M3)"
proof -
  let ?S = "ksys M" and ?i = "pid (pr_of (kern (ksys M)) reader)"
  from assms(1) have o: "getSem (Some keyboard_sem) ?S = Some s" "sem_inv ?S s"
    "\<not> pendingDestruction (the (sems ?S s))" "val ?S s = int (unat (buffer_count (kbd M)))"
    "length (keyboard_buffer (kbd M)) = KEYBOARD_BUFFER_SIZE" by (auto simp: kbd_ok_def)
  have n0: "unat (buffer_count (kbd M)) = 0" using assms(2) by (simp add: keys_held_def ring_def)
  then have v0: "val ?S s \<le> 0" "- (2 ^ 31) < val ?S s" using o(4) by simp_all
  have w0: "waiting ?S s = []" using o(2,4) n0 by (auto simp: sem_inv_def)
  from semWait_blocks [OF o(2) v0 assms(3,4,6,5,7), of sp] obtain sp' S1 where
    b: "semWait sp s ?S = Some (Switch sp', S1)" "sem_inv S1 s" "sched_inv (kern S1)" "sem_mem R S1 s"
      "val S1 s = val ?S s - 1" "waiting S1 s = waiting ?S s @ [?i]" "reader \<in> in_state (kern S1) BLOCKED"
      "currentProcess (kern S1) \<noteq> reader" "st_of (kern S1) (currentProcess (kern S1)) = RUNNING"
      "pendingDestruction (the (sems S1 s)) = pendingDestruction (the (sems ?S s))"
      "pages_left (kern ?S) \<le> pages_left (kern S1) + 2" "\<forall>n. getSem n S1 = getSem n ?S"
      "pid (pr_of (kern S1) reader) = ?i"
    unfolding reader_def by blast
  have r: "kbd_get_char sp M = Some (Switch sp', M\<lparr>ksys := S1\<rparr>)" using o(1) b(1) by (simp add: kbd_get_char_def)
  from loadCharToBuffer_room [OF assms(9) o(5)] assms(1) n0 obtain K where
    k: "loadCharToBuffer c (kbd M) = Some K" "length (keyboard_buffer K) = KEYBOARD_BUFFER_SIZE"
      "ring_ok (keyboard_buffer K) (unat (buffer_read_idx K)) (unat (buffer_write_idx K)) (unat (buffer_count K))"
      "ring (keyboard_buffer K) (unat (buffer_read_idx K)) (unat (buffer_count K)) = [c]"
    by (auto simp: kbd_ok_def ring_def)
  have w1: "waiting S1 s = ?i # []" using b(6) w0 by simp
  have "0 < pages_left (kern S1)" "currentProcess (kern S1) \<notin> in_state (kern S1) BLOCKED"
    "\<not> pendingDestruction (the (sems S1 s))" using b(9,10,11) assms(6) o(3) by (auto simp: in_state_def)
  from semPost_wakes [OF b(2) w1 b(3,4) this] obtain p S2 where
    p: "semPost s S1 = Some S2" "sem_inv S2 s" "sched_inv (kern S2)" "val S2 s = val S1 s + 1"
      "p \<in> in_state (kern S1) BLOCKED" "pid (pr_of (kern S1) p) = ?i" "st_of (kern S2) p = READY"
      "pendingDestruction (the (sems S2 s)) = pendingDestruction (the (sems S1 s))"
      "\<forall>n. getSem n S2 = getSem n S1" by blast
  have "p = reader"
    using table_okD(4) [OF sched_invD(1) [OF b(3)], of p reader] p(5,6) b(7,13) by (auto simp: in_state_def)
  moreover let ?M1 = "M\<lparr>ksys := S1\<rparr>" and ?M2 = "M\<lparr>kbd := K\<lparr>kbd_modifier_state := m\<rparr>, ksys := S2\<rparr>"
  have "keyboard_handler sp' regs (ucast k) ?M1 = Some (Ret (), ?M2)"
    using assms(8-10) k(1) p(1) b(12) o(1)
    by (simp add: keyboard_handler_def down_up store_key_def post_key_def loadCharToBuffer_mods)
  moreover from take_char_some [of "K\<lparr>kbd_modifier_state := m\<rparr>" c "[]"] k obtain K' where
    t: "take_char (K\<lparr>kbd_modifier_state := m\<rparr>) = Some (c, K')" by auto
  then have "kbd_get_char_resume ?M2 = Some (c, ?M2\<lparr>kbd := K'\<rparr>)" by (simp add: kbd_get_char_resume_def)
  moreover have "st_of (kern S1) reader = BLOCKED" using b(7) by (simp add: in_state_def)
  ultimately show ?thesis using r b(8) p(3,7)
    by (intro exI [of _ sp'] exI [of _ ?M1] exI [of _ ?M2] exI [of _ "?M2\<lparr>kbd := K'\<rparr>"]) simp
qed

theorem key_press_wakes_reader_witness:
  "\<exists>M sp' M1 M2 M3. keyboard_init boot_keyboard = Some M \<and> kbd_get_char 0x700000 M = Some (Switch sp', M1) \<and>
     keyboard_handler sp' None (ucast (0x1E :: u8)) M1 = Some (Ret (), M2) \<and>
     kbd_get_char_resume M2 = Some (CHR ''a'', M3)"
proof -
  obtain s M R where m: "keyboard_init boot_keyboard = Some M" "kbd_ok s M" "keys_held M = []"
     "kbd M = kbd boot_keyboard" "sem_mem R (ksys M) s" "sched_inv (kern (ksys M))" "on_cpu (kern (ksys M))"
     "pid (pr_of (kern (ksys M)) (currentProcess (kern (ksys M)))) = 1" "1700 \<le> pages_left (kern (ksys M))"
    using boot_keyboard_ok by blast
  let ?m = "kbd_modifier_state (kbd boot_keyboard)"
  have "procesScanCode (ucast (0x1E :: u8)) (kbd_modifier_state (kbd M)) = (CHR ''a'', ?m)"
    unfolding m(4) by (simp add: boot_keyboard_def) code_simp
  moreover have "CHR ''a'' \<noteq> nul" "\<not> ctrl ?m" by (simp_all add: boot_keyboard_def)
  moreover have "2 < pages_left (kern (ksys M))" "pid (pr_of (kern (ksys M)) (currentProcess (kern (ksys M)))) \<noteq> 0"
    using m by simp_all
  ultimately show ?thesis
    using key_press_wakes_reader [OF m(2,3,6,5,7), where k = "0x1E" and sp = "0x700000" and regs = None] m(1) by blast
qed

end
