(* ===== verification/Devices.thy ===== *)
theory Devices
  imports Keyboard
begin

text \<open>
  The small drivers: \<open>Kernel/drivers/timer/timeLib.c\<close> with the clock routines of \<open>libasm.asm\<close>,
  \<open>Kernel/drivers/sound/soundDriver.c\<close>, \<open>Kernel/interrupt/idtLoader.c\<close>, \<open>irqDispatcher.c\<close>, and the
  boot sequence of \<open>Kernel/core/kernel.c\<close>. Ports of the machine are read through a function and written
  into a log.
\<close>

section \<open>The clock\<close>

definition ticks_elapsed :: "kernel \<Rightarrow> u32" where
  "ticks_elapsed k = ucast (ticks k)"

definition seconds_elapsed :: "kernel \<Rightarrow> u32" where
  "seconds_elapsed k = ucast (ticks k div 18)"

definition ms_elapsed :: "kernel \<Rightarrow> u64" where
  "ms_elapsed k = (ticks k * 1000) div 18"

text \<open>
  \<open>sleep\<close> enables the interrupts and spins while the condition holds; only timer interrupts change the
  counter, so the loop ends at the first tick for which it does not.
\<close>

definition sleep_target :: "u64 \<Rightarrow> u64" where
  "sleep_target milliseconds = (milliseconds * 18) div 1000"

definition sleeping :: "u64 \<Rightarrow> u64 \<Rightarrow> u64 \<Rightarrow> bool" where
  "sleeping start_ticks target_ticks now \<longleftrightarrow> now - start_ticks < target_ticks"

fun sleep_spins :: "nat \<Rightarrow> u64 \<Rightarrow> u64 \<Rightarrow> u64 \<Rightarrow> nat option" where
  "sleep_spins 0 start_ticks target_ticks now = None"
| "sleep_spins (Suc fuel) start_ticks target_ticks now =
     (if sleeping start_ticks target_ticks now
      then map_option Suc (sleep_spins fuel start_ticks target_ticks (now + 1)) else Some 0)"

text \<open>The real-time clock keeps binary coded decimals in its registers.\<close>

definition convertBCDtoDec :: "u8 \<Rightarrow> u8" where
  "convertBCDtoDec al = drop_bit 4 al * 10 + (al AND 0x0F)"

definition getSec :: "(u8 \<Rightarrow> u8) \<Rightarrow> u16" where "getSec cmos = ucast (convertBCDtoDec (cmos 0))"
definition getMin :: "(u8 \<Rightarrow> u8) \<Rightarrow> u16" where "getMin cmos = ucast (convertBCDtoDec (cmos 2))"
definition getHour :: "(u8 \<Rightarrow> u8) \<Rightarrow> u16" where "getHour cmos = ucast (convertBCDtoDec (cmos 4))"
definition getDay :: "(u8 \<Rightarrow> u8) \<Rightarrow> u16" where "getDay cmos = ucast (convertBCDtoDec (cmos 7))"
definition getMonth :: "(u8 \<Rightarrow> u8) \<Rightarrow> u16" where "getMonth cmos = ucast (convertBCDtoDec (cmos 8))"
definition getYear :: "(u8 \<Rightarrow> u8) \<Rightarrow> u16" where "getYear cmos = ucast (convertBCDtoDec (cmos 9))"

record dateTime =
  sec :: u8
  min_of :: u8
  hour :: u8
  day :: u8
  month :: u8
  year :: u8

definition getTime :: "(u8 \<Rightarrow> u8) \<Rightarrow> dateTime" where
  "getTime cmos =
     \<lparr>sec = ucast (getSec cmos), min_of = ucast (getMin cmos), hour = ucast (getHour cmos),
      day = ucast (getDay cmos), month = ucast (getMonth cmos), year = ucast (getYear cmos)\<rparr>"

section \<open>Sound\<close>

text \<open>
  The speaker's port reads as what was last written to it; \<open>out_log\<close> is every write, newest first, and
  \<open>Sleep\<close> marks the pauses. Division by a frequency of zero faults.
\<close>

datatype io_event = Out u16 u8 | Sleep u64

record io =
  speaker :: u8
  out_log :: "io_event list"

definition outb :: "u16 \<Rightarrow> u8 \<Rightarrow> io \<Rightarrow> io" where
  "outb port v s = s\<lparr>speaker := (if port = 0x61 then v else speaker s), out_log := Out port v # out_log s\<rparr>"

definition sleep_io :: "u64 \<Rightarrow> io \<Rightarrow> io" where
  "sleep_io ms s = s\<lparr>out_log := Sleep ms # out_log s\<rparr>"

definition play_sound :: "u32 \<Rightarrow> io \<Rightarrow> io option" where
  "play_sound nFrequence s =
     (if nFrequence = 0 then None
      else let d = 1193180 div nFrequence;
               s = outb 0x42 (ucast (drop_bit 8 d)) (outb 0x42 (ucast d) (outb 0x43 0xb6 s));
               tmp = speaker s
           in Some (if tmp \<noteq> (tmp OR 3) then outb 0x61 (tmp OR 3) s else s))"

definition nosound :: "io \<Rightarrow> io" where
  "nosound s = outb 0x61 (speaker s AND 0xFC) s"

definition playSoundForDuration :: "u32 \<Rightarrow> u32 \<Rightarrow> io \<Rightarrow> io option" where
  "playSoundForDuration nFrequence duration s =
     do { s \<leftarrow> play_sound nFrequence s; Some (nosound (sleep_io (ucast duration) s)) }"

definition beep :: "io \<Rightarrow> io option" where
  "beep s = do { s \<leftarrow> play_sound 1000 s; Some (nosound (sleep_io 10 s)) }"

definition game_thud_sound :: "io \<Rightarrow> io option" where
  "game_thud_sound s = do { s \<leftarrow> play_sound 500 s; Some (nosound (sleep_io 4 s)) }"

definition play_boot_sound :: "io \<Rightarrow> io option" where
  "play_boot_sound s =
     do {
       s \<leftarrow> playSoundForDuration 100 100 s;
       s \<leftarrow> playSoundForDuration 200 100 (sleep_io 100 s);
       s \<leftarrow> playSoundForDuration 300 100 (sleep_io 100 s);
       s \<leftarrow> playSoundForDuration 400 100 (sleep_io 100 s);
       playSoundForDuration 500 100 (sleep_io 100 s)
     }"

section \<open>The interrupt table\<close>

record DESCR_INT =
  offset_l :: u16
  selector :: u16
  cero :: u8
  access :: u8
  offset_m :: u16
  offset_h :: u32
  other_cero :: u32

abbreviation ACS_INT :: u8 where "ACS_INT \<equiv> 0x80 OR 0x0E"

type_synonym idt = "nat \<Rightarrow> DESCR_INT"

definition setup_IDT_entry :: "nat \<Rightarrow> u64 \<Rightarrow> idt \<Rightarrow> idt" where
  "setup_IDT_entry index offset t =
     t(index := \<lparr>offset_l = ucast (offset AND 0xFFFF), selector = 0x08, cero = 0, access = ACS_INT,
                 offset_m = ucast (drop_bit 16 offset AND 0xFFFF),
                 offset_h = ucast (drop_bit 32 offset AND 0xFFFFFFFF), other_cero = 0\<rparr>)"

text \<open>The handlers are addresses the linker gives; the masks go to the two interrupt controllers.\<close>

record handlers =
  irq00Handler :: u64
  irq01Handler :: u64
  exception0Handler :: u64
  exception6Handler :: u64
  int80Handler :: u64

definition picMasterMask :: "u8 \<Rightarrow> io \<Rightarrow> io" where "picMasterMask m = outb 0x21 m"
definition picSlaveMask :: "u8 \<Rightarrow> io \<Rightarrow> io" where "picSlaveMask m = outb 0xA1 m"

definition load_idt :: "handlers \<Rightarrow> idt \<Rightarrow> io \<Rightarrow> idt \<times> io" where
  "load_idt hs t s =
     (setup_IDT_entry 0x80 (int80Handler hs) (setup_IDT_entry 0x06 (exception6Handler hs)
        (setup_IDT_entry 0x00 (exception0Handler hs) (setup_IDT_entry 0x21 (irq01Handler hs)
           (setup_IDT_entry 0x20 (irq00Handler hs) t)))),
      picSlaveMask 0xFF (picMasterMask 0xFC s))"

text \<open>The address the processor jumps to for an interrupt.\<close>

definition gate_target :: "DESCR_INT \<Rightarrow> u64" where
  "gate_target d = ucast (offset_l d) OR push_bit 16 (ucast (offset_m d)) OR push_bit 32 (ucast (offset_h d))"

section \<open>Interrupt requests\<close>

text \<open>The result is the stack to go on with; the scan code is what the keyboard's port holds.\<close>

definition int_20 :: "ptr \<Rightarrow> kbd_sys \<Rightarrow> (ptr \<times> kbd_sys) option" where
  "int_20 stackPointer M =
     do { (sp, k) \<leftarrow> timer_handler stackPointer (kern (ksys M)); Some (sp, M\<lparr>ksys := (ksys M)\<lparr>kern := k\<rparr>\<rparr>) }"

definition int_21 :: "ptr \<Rightarrow> Registers_t \<Rightarrow> u32 \<Rightarrow> kbd_sys \<Rightarrow> (unit ctl \<times> kbd_sys) option" where
  "int_21 sp regs keyCode M = keyboard_handler sp (Some regs) keyCode M"

definition irqDispatcher :: "ptr \<Rightarrow> Registers_t \<Rightarrow> u32 \<Rightarrow> u64 \<Rightarrow> kbd_sys \<Rightarrow> (ptr \<times> kbd_sys) option" where
  "irqDispatcher stackPointer regs keyCode irq M =
     (if irq = 0 then int_20 stackPointer M
      else if irq = 1
      then do { (r, M) \<leftarrow> int_21 stackPointer regs keyCode M;
                Some (case r of Ret _ \<Rightarrow> stackPointer | Switch sp \<Rightarrow> sp, M) }
      else Some (stackPointer, M))"

section \<open>Booting\<close>

text \<open>
  \<open>main\<close>, with the pool the linker reserves. The static variables of the kernel start at zero, the names
  of the two processes are literals of the kernel's image, and the interrupt table is memory at address 0.
\<close>

definition kernel_memory_init :: "u64 \<Rightarrow> u64 \<Rightarrow> pmem \<Rightarrow> pmem" where
  "kernel_memory_init pool_start pool_end m = snd (mem_init m pool_start (pool_end - pool_start))"

definition kernel_main ::
  "u64 \<Rightarrow> u64 \<Rightarrow> ptr \<Rightarrow> ptr \<Rightarrow> handlers \<Rightarrow> kbd_sys \<Rightarrow> idt \<Rightarrow> io \<Rightarrow> (kbd_sys \<times> idt \<times> io) option" where
  "kernel_main pool_start pool_end idle_name shell_name hs M t s =
     do {
       let k = kern (ksys M);
       let k = k\<lparr>kmem := kernel_memory_init pool_start pool_end (kmem k)\<rparr>;
       k \<leftarrow> initializeScheduler idle_name k;
       let S = semaphoresInit ((ksys M)\<lparr>kern := k\<rparr>);
       M \<leftarrow> keyboard_init (M\<lparr>ksys := S\<rparr>);
       (i, k) \<leftarrow> createProcess shell_name None (Some [0, 1, 2]) False (kern (ksys M));
       (_, k) \<leftarrow> changeProcessPriority 0 i 0 k;
       let (t, s) = load_idt hs t s;
       Some (M\<lparr>ksys := (ksys M)\<lparr>kern := k\<rparr>\<rparr>, t, s)
     }"

lemma semOpen_no_process:
  assumes ok: "list_ok R S" and m: "mem_ok (R + mset (blocks (semaphoreList S))) (kern S)"
    and pg: "6 \<le> pages_left (kern S)" and n: "nul \<notin> set n" "length n < 4000"
    and new: "\<not> (\<exists>q\<in>set (items (semaphoreList S)). named S q n)" and gp: "getPid (kern S) = None"
  shows "semOpen (Some (n @ nul # t)) v S = None"
proof -
  let ?k = "kern S" and ?l = "semaphoreList S" and ?name = "n @ nul # t"
  from getSem_spec [OF ok n(1), of t] new have g: "getSem (Some ?name) S = Some NULL" by auto
  let ?M = "R + mset (blocks ?l) + owned ?k"
  have own: "bm.owns ?M (kmem ?k)" using m by (simp add: mem_ok_def)
  have "3 \<le> pages_left ?k" using pg by simp
  from createSem_ok [OF own this] obtain a qa la m1 where
    c: "createSem S = Some (a, (with_mem S m1)\<lparr>sems := (sems S)(a \<mapsto>
             \<lparr>semName = None, semValue = 0, lock = 0, waitingProcesses = Some (qa, []),
              linkedProcesses = Some (la, []), pendingDestruction = False\<rparr>)\<rparr>)" "a \<noteq> NULL"
       "bm.owns (?M + {#a#} + {#qa#} + {#la#}) m1" "unat (free_pages m1) = pages_left ?k - 3" by blast
  have p1: "0 < unat (free_pages m1)" using c(4) pg by simp
  have old: "length n < length (replicate (length ?name) nul)" by simp
  from strDup_ok [OF c(3) p1 n old] obtain d b m2 where
    d: "strDup (Some ?name) (replicate (length ?name) nul) m1 = Some ((d, n @ nul # b), m2)" "d \<noteq> NULL" by blast
  have "getPid (?k\<lparr>kmem := x\<rparr>) = None" for x using gp by (auto simp: getPid_def pcb_def split: if_splits)
  then show ?thesis using g c(1,2) d ok
    by (simp add: semOpen_def upd_sem_def sem_at_def Let_def list_ok_def split: prod.split)
qed

section \<open>Properties\<close>

text \<open>C25: the boot sequence. \<open>main\<close> calls \<open>keyboard_init\<close> before any process runs; opening the keyboard's
  semaphore asks for the identifier of the running process and dereferences the null \<open>currentProcess\<close>.
  So from the initial state of the static variables, on any pool with memory enough, \<open>main\<close> does not
  reach the creation of the shell by defined steps.\<close>

theorem boot_dereferences_null:
  assumes "mem_init (kmem (kern (ksys M))) ps (pe - ps) = (0, m')" and "ps \<noteq> 0"
    and "unat ps + unat (pe - ps) \<le> 2 ^ 64" and "unat (pe - ps) < 2 ^ 43" and "24 \<le> unat (free_pages m')"
    and "lastPid (kern (ksys M)) = 0" and "idleProcess (kern (ksys M)) = NULL"
  shows "(\<exists>k. initializeScheduler idle_name ((kern (ksys M))\<lparr>kmem := m'\<rparr>) = Some k \<and> currentProcess k = NULL) \<and>
         kernel_main ps pe idle_name shell_name hs M t s = None"
proof -
  let ?k = "(kern (ksys M))\<lparr>kmem := m'\<rparr>"
  have km: "kernel_memory_init ps pe (kmem (kern (ksys M))) = m'" using assms(1) by (simp add: kernel_memory_init_def)
  have pm: "pm_inv (kmem ?k)" using mem_init_keeps [OF assms(1-4)] by simp
  have "14 \<le> pages_left ?k" "lastPid ?k = 0" "idleProcess ?k = NULL" using assms(5-7) by simp_all
  from initializeScheduler_ok [OF pm this, of idle_name] obtain k where
    k: "initializeScheduler idle_name ?k = Some k" "mem_ok {#} k" "currentProcess k = NULL"
      "pages_left ?k \<le> pages_left k + 14" by blast
  have pg: "10 \<le> pages_left k" using k(4) assms(5) by simp
  have own: "bm.owns (owned k) (kmem k)" using k(2) by (simp add: mem_ok_def)
  have "0 < pages_left k" using pg by simp
  from bm.l_new_succeeds [OF bm.owns_inv [OF own] this] obtain la m where
    l: "l_new mem_alloc (kmem k) = (Some (la, []), m)" "unat (free_pages m) = pages_left k - 1" by blast
  let ?S = "semaphoresInit ((ksys M)\<lparr>kern := k\<rparr>)"
  have S: "?S = (ksys M)\<lparr>kern := k\<lparr>kmem := m\<rparr>, semaphoreList := Some (la, [])\<rparr>"
    using l(1) by (simp add: semaphoresInit_def)
  have "bm.owns (owned k + mset (blocks (Some (la, [])))) m" using bm.owns_l_new [OF own l(1)] by simp
  then have "mem_ok ({#} + mset (blocks (semaphoreList ?S))) (kern ?S)"
    by (simp add: S mem_ok_def owned_def blocks_def ac_simps)
  moreover have "list_ok {#} ?S" by (simp add: S list_ok_def items_def)
  moreover have "6 \<le> pages_left (kern ?S)" using l(2) pg by (simp add: S)
  moreover have "nul \<notin> set ''keyboard_sem''" "length ''keyboard_sem'' < 4000" by simp_all
  moreover have "\<not> (\<exists>q\<in>set (items (semaphoreList ?S)). named ?S q ''keyboard_sem'')" by (simp add: S items_def)
  moreover have "getPid (kern ?S) = None" using k(3) by (simp add: S getPid_def pcb_def)
  ultimately have "semOpen (Some (''keyboard_sem'' @ nul # [])) 0 ?S = None" using semOpen_no_process by blast
  then have "keyboard_init (M\<lparr>ksys := ?S\<rparr>) = None" by (simp add: keyboard_init_def keyboard_sem_def)
  then have "kernel_main ps pe idle_name shell_name hs M t s = None"
    using k(1) by (simp add: kernel_main_def km Let_def)
  with k(1,3) show ?thesis by blast
qed

theorem boot_dereferences_null_witness:
  "\<forall>hs t s. kernel_main 0x600000 0xE00000 0x500000 0x500010 hs
     \<lparr>kbd = kbd boot_keyboard, ksys = \<lparr>kern = static_kernel\<lparr>kmem := pmem_static\<rparr>, semaphoreList = None, sems = Map.empty\<rparr>,
      snapshot = snapshot boot_keyboard, snapshotReady = False\<rparr> t s = None"
proof -
  let ?M = "\<lparr>kbd = kbd boot_keyboard, ksys = \<lparr>kern = static_kernel\<lparr>kmem := pmem_static\<rparr>, semaphoreList = None, sems = Map.empty\<rparr>,
      snapshot = snapshot boot_keyboard, snapshotReady = False\<rparr>"
  have "mem_init (kmem (kern (ksys ?M))) 0x600000 (0xE00000 - 0x600000) = (0, boot_pool)" using boot_pool_init by simp
  moreover have "24 \<le> unat (free_pages boot_pool)" using boot_pool_avail by simp
  ultimately show ?thesis
    using boot_dereferences_null [of ?M "0x600000" "0xE00000" boot_pool] by (simp add: static_kernel_def)
qed

lemma gate_split:
  "ucast (ucast (off AND 0xFFFF) :: u16) OR push_bit 16 (ucast (ucast (drop_bit 16 off AND 0xFFFF) :: u16)) OR
   push_bit 32 (ucast (ucast (drop_bit 32 off AND 0xFFFFFFFF) :: u32)) = (off :: u64)"
proof -
  have m: "(0xFFFF :: u64) = mask 16" "(0xFFFFFFFF :: u64) = mask 32" by (simp_all add: mask_eq_exp_minus_1)
  show ?thesis unfolding m
    by (rule bit_word_eqI) (auto simp: bit_simps not_less, (rule ccontr, simp add: not_less le_diff_conv2)+)
qed

text \<open>The interrupt table. \<open>load_idt\<close> makes the five gates it sets lead to their handlers, through the
  kernel's code segment, and leaves every other entry alone; the mask lets through the timer and the keyboard.\<close>

theorem interrupt_gates:
  "gate_target (fst (load_idt hs t s) 0x20) = irq00Handler hs \<and> gate_target (fst (load_idt hs t s) 0x21) = irq01Handler hs \<and>
   gate_target (fst (load_idt hs t s) 0x00) = exception0Handler hs \<and>
   gate_target (fst (load_idt hs t s) 0x06) = exception6Handler hs \<and>
   gate_target (fst (load_idt hs t s) 0x80) = int80Handler hs \<and>
   list_all (\<lambda>i. selector (fst (load_idt hs t s) i) = 8 \<and> access (fst (load_idt hs t s) i) = 0x8E)
     [0x20, 0x21, 0x00, 0x06, 0x80] \<and>
   (fst (load_idt hs t s))(0x20 := a, 0x21 := b, 0x00 := c, 0x06 := d, 0x80 := e) =
     t(0x20 := a, 0x21 := b, 0x00 := c, 0x06 := d, 0x80 := e) \<and>
   out_log (snd (load_idt hs t s)) = Out 0xA1 0xFF # Out 0x21 0xFC # out_log s"
  by (simp add: load_idt_def setup_IDT_entry_def gate_target_def gate_split picMasterMask_def picSlaveMask_def outb_def
      fun_upd_def fun_eq_iff)

lemma sleep_spins_eq:
  "unat d + n = unat target \<Longrightarrow> sleep_spins (Suc n) start target (start + d) = Some n"
proof (induction n arbitrary: d)
  case 0
  then have "d = target" by (simp add: unsigned_word_eqI)
  then show ?case by (simp add: sleeping_def)
next
  case (Suc n)
  then have lt: "d < target" by (simp add: word_less_nat_alt)
  have "Suc (unat d) < 2 ^ 64" using Suc.prems unsigned_less [of target, where 'a = nat] by simp
  then have "unat (d + 1) = Suc (unat d)" by (simp add: unat_word_ariths)
  then have "unat (d + 1) + n = unat target" using Suc.prems by simp
  from Suc.IH [OF this] lt show ?case
    by (subst sleep_spins.simps(2)) (simp add: sleeping_def add.assoc del: sleep_spins.simps)
qed

text \<open>Sleeping. A sleep that starts at any value of the tick counter, even when the counter wraps on the
  way, lasts exactly its number of ticks: 18 for every 1000 milliseconds, rounded down.\<close>

theorem sleep_lasts:
  "sleep_spins (Suc (unat (sleep_target ms))) start (sleep_target ms) start = Some (unat (sleep_target ms)) \<and>
   unat (sleep_target ms) = unat ms * 18 mod 2 ^ 64 div 1000"
  using sleep_spins_eq [of 0 "unat (sleep_target ms)" "sleep_target ms" start]
  by (simp add: sleep_target_def unat_div unat_mult_lem unat_word_ariths)

end
