(* ===== verification/Fonts.thy ===== *)
theory Fonts
  imports Digits
begin

text \<open>
  \<open>Kernel/drivers/video/fonts.c\<close>: the bitmaps of the 95 printable characters, 16 rows of 8 pixels each,
  and the three sizes they are drawn in.
\<close>

section \<open>The bitmaps\<close>

text \<open>The table in the order of the characters: space to \<open>O\<close>, and \<open>P\<close> to the tilde.\<close>

definition font_small_1 :: "u8 list list" where
  "font_small_1 =
    [[0, 0, 0, 0, 0, 0, 0, 0, 0, 0, 0, 0, 0, 0, 0, 0],
     [0, 0, 0x18, 0x18, 0x18, 0x18, 0x18, 0x18, 0x18, 0, 0x18, 0x18, 0, 0, 0, 0],
     [0, 0x66, 0x66, 0x66, 0x24, 0, 0, 0, 0, 0, 0, 0, 0, 0, 0, 0],
     [0, 0, 0x6C, 0x6C, 0xFE, 0x6C, 0x6C, 0x6C, 0xFE, 0x6C, 0x6C, 0, 0, 0, 0, 0],
     [0, 0x18, 0x7E, 0xD8, 0xD0, 0x7C, 0x1E, 0x1B, 0xDB, 0x7E, 0x18, 0, 0, 0, 0, 0],
     [0, 0, 0xC6, 0xCE, 0x1C, 0x38, 0x70, 0xE6, 0xC6, 0, 0, 0, 0, 0, 0, 0],
     [0, 0, 0x70, 0xD8, 0xD8, 0x70, 0xFA, 0xDE, 0xCC, 0x76, 0, 0, 0, 0, 0, 0],
     [0, 0x18, 0x18, 0x18, 0x30, 0, 0, 0, 0, 0, 0, 0, 0, 0, 0, 0],
     [0, 0, 0xE, 0x1C, 0x18, 0x18, 0x18, 0x18, 0x1C, 0xE, 0, 0, 0, 0, 0, 0],
     [0, 0, 0x70, 0x38, 0x18, 0x18, 0x18, 0x18, 0x38, 0x70, 0, 0, 0, 0, 0, 0],
     [0, 0, 0, 0x66, 0x3C, 0xFF, 0x3C, 0x66, 0, 0, 0, 0, 0, 0, 0, 0],
     [0, 0, 0, 0x18, 0x18, 0x7E, 0x18, 0x18, 0, 0, 0, 0, 0, 0, 0, 0],
     [0, 0, 0, 0, 0, 0, 0, 0, 0x18, 0x18, 0x30, 0, 0, 0, 0, 0],
     [0, 0, 0, 0, 0, 0x7E, 0, 0, 0, 0, 0, 0, 0, 0, 0, 0],
     [0, 0, 0, 0, 0, 0, 0, 0, 0x18, 0x18, 0, 0, 0, 0, 0, 0],
     [0, 0, 0x6, 0xC, 0x18, 0x30, 0x60, 0xC0, 0, 0, 0, 0, 0, 0, 0, 0],
     [0, 0, 0x3C, 0x66, 0x6E, 0x7E, 0x76, 0x66, 0x66, 0x3C, 0, 0, 0, 0, 0, 0],
     [0, 0, 0x18, 0x38, 0x18, 0x18, 0x18, 0x18, 0x18, 0x7E, 0, 0, 0, 0, 0, 0],
     [0, 0, 0x3C, 0x66, 0x6, 0xC, 0x18, 0x30, 0x60, 0x7E, 0, 0, 0, 0, 0, 0],
     [0, 0, 0x3C, 0x66, 0x6, 0x1C, 0x6, 0x6, 0x66, 0x3C, 0, 0, 0, 0, 0, 0],
     [0, 0, 0xC, 0x1C, 0x3C, 0x6C, 0xCC, 0xFE, 0xC, 0x1E, 0, 0, 0, 0, 0, 0],
     [0, 0, 0x7E, 0x60, 0x7C, 0x6, 0x6, 0x6, 0x66, 0x3C, 0, 0, 0, 0, 0, 0],
     [0, 0, 0x1C, 0x30, 0x60, 0x7C, 0x66, 0x66, 0x66, 0x3C, 0, 0, 0, 0, 0, 0],
     [0, 0, 0x7E, 0x6, 0xC, 0x18, 0x30, 0x30, 0x30, 0x30, 0, 0, 0, 0, 0, 0],
     [0, 0, 0x3C, 0x66, 0x66, 0x3C, 0x66, 0x66, 0x66, 0x3C, 0, 0, 0, 0, 0, 0],
     [0, 0, 0x3C, 0x66, 0x66, 0x66, 0x3E, 0x6, 0xC, 0x38, 0, 0, 0, 0, 0, 0],
     [0, 0, 0, 0x18, 0x18, 0, 0, 0x18, 0x18, 0, 0, 0, 0, 0, 0, 0],
     [0, 0, 0, 0x18, 0x18, 0, 0, 0x18, 0x18, 0x30, 0, 0, 0, 0, 0, 0],
     [0, 0, 0xC, 0x18, 0x30, 0x60, 0x30, 0x18, 0xC, 0, 0, 0, 0, 0, 0, 0],
     [0, 0, 0, 0x7E, 0, 0, 0x7E, 0, 0, 0, 0, 0, 0, 0, 0, 0],
     [0, 0, 0x60, 0x30, 0x18, 0xC, 0x18, 0x30, 0x60, 0, 0, 0, 0, 0, 0, 0],
     [0, 0, 0x3C, 0x66, 0x6, 0xC, 0x18, 0x18, 0, 0x18, 0, 0, 0, 0, 0, 0],
     [0, 0, 0x3C, 0x66, 0x6E, 0x6A, 0x6E, 0x60, 0x62, 0x3C, 0, 0, 0, 0, 0, 0],
     [0, 0, 0x18, 0x3C, 0x66, 0x66, 0x7E, 0x66, 0x66, 0x66, 0, 0, 0, 0, 0, 0],
     [0, 0, 0x7C, 0x66, 0x66, 0x7C, 0x66, 0x66, 0x66, 0x7C, 0, 0, 0, 0, 0, 0],
     [0, 0, 0x3C, 0x66, 0x60, 0x60, 0x60, 0x60, 0x66, 0x3C, 0, 0, 0, 0, 0, 0],
     [0, 0, 0x78, 0x6C, 0x66, 0x66, 0x66, 0x66, 0x6C, 0x78, 0, 0, 0, 0, 0, 0],
     [0, 0, 0x7E, 0x60, 0x60, 0x7C, 0x60, 0x60, 0x60, 0x7E, 0, 0, 0, 0, 0, 0],
     [0, 0, 0x7E, 0x60, 0x60, 0x7C, 0x60, 0x60, 0x60, 0x60, 0, 0, 0, 0, 0, 0],
     [0, 0, 0x3C, 0x66, 0x60, 0x60, 0x6E, 0x66, 0x66, 0x3E, 0, 0, 0, 0, 0, 0],
     [0, 0, 0x66, 0x66, 0x66, 0x7E, 0x66, 0x66, 0x66, 0x66, 0, 0, 0, 0, 0, 0],
     [0, 0, 0x7E, 0x18, 0x18, 0x18, 0x18, 0x18, 0x18, 0x7E, 0, 0, 0, 0, 0, 0],
     [0, 0, 0x1E, 0xC, 0xC, 0xC, 0xC, 0xC, 0x6C, 0x38, 0, 0, 0, 0, 0, 0],
     [0, 0, 0x66, 0x6C, 0x78, 0x70, 0x78, 0x6C, 0x66, 0x66, 0, 0, 0, 0, 0, 0],
     [0, 0, 0x60, 0x60, 0x60, 0x60, 0x60, 0x60, 0x60, 0x7E, 0, 0, 0, 0, 0, 0],
     [0, 0, 0xC6, 0xEE, 0xFE, 0xD6, 0xC6, 0xC6, 0xC6, 0xC6, 0, 0, 0, 0, 0, 0],
     [0, 0, 0x66, 0x76, 0x7E, 0x6E, 0x66, 0x66, 0x66, 0x66, 0, 0, 0, 0, 0, 0],
     [0, 0, 0x3C, 0x66, 0x66, 0x66, 0x66, 0x66, 0x66, 0x3C, 0, 0, 0, 0, 0, 0]]"

definition font_small_2 :: "u8 list list" where
  "font_small_2 =
    [[0, 0, 0x7C, 0x66, 0x66, 0x7C, 0x60, 0x60, 0x60, 0x60, 0, 0, 0, 0, 0, 0],
     [0, 0, 0x3C, 0x66, 0x66, 0x66, 0x66, 0x6E, 0x3C, 0xE, 0, 0, 0, 0, 0, 0],
     [0, 0, 0x7C, 0x66, 0x66, 0x7C, 0x78, 0x6C, 0x66, 0x66, 0, 0, 0, 0, 0, 0],
     [0, 0, 0x3C, 0x66, 0x60, 0x3C, 0x6, 0x6, 0x66, 0x3C, 0, 0, 0, 0, 0, 0],
     [0, 0, 0x7E, 0x18, 0x18, 0x18, 0x18, 0x18, 0x18, 0x18, 0, 0, 0, 0, 0, 0],
     [0, 0, 0x66, 0x66, 0x66, 0x66, 0x66, 0x66, 0x66, 0x3C, 0, 0, 0, 0, 0, 0],
     [0, 0, 0x66, 0x66, 0x66, 0x66, 0x66, 0x3C, 0x3C, 0x18, 0, 0, 0, 0, 0, 0],
     [0, 0, 0xC6, 0xC6, 0xC6, 0xD6, 0xFE, 0xEE, 0xC6, 0xC6, 0, 0, 0, 0, 0, 0],
     [0, 0, 0x66, 0x66, 0x3C, 0x18, 0x3C, 0x66, 0x66, 0x66, 0, 0, 0, 0, 0, 0],
     [0, 0, 0x66, 0x66, 0x66, 0x3C, 0x18, 0x18, 0x18, 0x18, 0, 0, 0, 0, 0, 0],
     [0, 0, 0x7E, 0x6, 0xC, 0x18, 0x30, 0x60, 0x60, 0x7E, 0, 0, 0, 0, 0, 0],
     [0, 0, 0x3C, 0x30, 0x30, 0x30, 0x30, 0x30, 0x30, 0x3C, 0, 0, 0, 0, 0, 0],
     [0, 0, 0xC0, 0x60, 0x30, 0x18, 0xC, 0x6, 0, 0, 0, 0, 0, 0, 0, 0],
     [0, 0, 0x3C, 0xC, 0xC, 0xC, 0xC, 0xC, 0xC, 0x3C, 0, 0, 0, 0, 0, 0],
     [0, 0x18, 0x3C, 0x66, 0, 0, 0, 0, 0, 0, 0, 0, 0, 0, 0, 0],
     [0, 0, 0, 0, 0, 0, 0, 0, 0, 0, 0, 0, 0, 0xFF, 0, 0],
     [0, 0x30, 0x18, 0xC, 0, 0, 0, 0, 0, 0, 0, 0, 0, 0, 0, 0],
     [0, 0, 0, 0, 0x3C, 0x6, 0x3E, 0x66, 0x66, 0x3E, 0, 0, 0, 0, 0, 0],
     [0, 0x60, 0x60, 0x60, 0x7C, 0x66, 0x66, 0x66, 0x66, 0x7C, 0, 0, 0, 0, 0, 0],
     [0, 0, 0, 0, 0x3C, 0x66, 0x60, 0x60, 0x66, 0x3C, 0, 0, 0, 0, 0, 0],
     [0, 0x6, 0x6, 0x6, 0x3E, 0x66, 0x66, 0x66, 0x66, 0x3E, 0, 0, 0, 0, 0, 0],
     [0, 0, 0, 0, 0x3C, 0x66, 0x7E, 0x60, 0x66, 0x3C, 0, 0, 0, 0, 0, 0],
     [0, 0x1C, 0x36, 0x30, 0x7C, 0x30, 0x30, 0x30, 0x30, 0x30, 0, 0, 0, 0, 0, 0],
     [0, 0, 0, 0, 0x3E, 0x66, 0x66, 0x3E, 0x6, 0x66, 0x3C, 0, 0, 0, 0, 0],
     [0, 0x60, 0x60, 0x60, 0x7C, 0x66, 0x66, 0x66, 0x66, 0x66, 0, 0, 0, 0, 0, 0],
     [0, 0, 0x18, 0, 0x38, 0x18, 0x18, 0x18, 0x18, 0x3C, 0, 0, 0, 0, 0, 0],
     [0, 0, 0xC, 0, 0x1C, 0xC, 0xC, 0xC, 0xC, 0x6C, 0x38, 0, 0, 0, 0, 0],
     [0, 0x60, 0x60, 0x66, 0x6C, 0x78, 0x70, 0x78, 0x6C, 0x66, 0, 0, 0, 0, 0, 0],
     [0, 0x38, 0x18, 0x18, 0x18, 0x18, 0x18, 0x18, 0x18, 0x3C, 0, 0, 0, 0, 0, 0],
     [0, 0, 0, 0, 0xCC, 0xFE, 0xFE, 0xD6, 0xD6, 0xC6, 0, 0, 0, 0, 0, 0],
     [0, 0, 0, 0, 0x7C, 0x66, 0x66, 0x66, 0x66, 0x66, 0, 0, 0, 0, 0, 0],
     [0, 0, 0, 0, 0x3C, 0x66, 0x66, 0x66, 0x66, 0x3C, 0, 0, 0, 0, 0, 0],
     [0, 0, 0, 0, 0x7C, 0x66, 0x66, 0x7C, 0x60, 0x60, 0x60, 0, 0, 0, 0, 0],
     [0, 0, 0, 0, 0x3E, 0x66, 0x66, 0x3E, 0x6, 0x6, 0xE, 0, 0, 0, 0, 0],
     [0, 0, 0, 0, 0x7C, 0x66, 0x60, 0x60, 0x60, 0x60, 0, 0, 0, 0, 0, 0],
     [0, 0, 0, 0, 0x3E, 0x60, 0x3C, 0x6, 0x6, 0x7C, 0, 0, 0, 0, 0, 0],
     [0, 0, 0x30, 0x30, 0x7C, 0x30, 0x30, 0x30, 0x36, 0x1C, 0, 0, 0, 0, 0, 0],
     [0, 0, 0, 0, 0x66, 0x66, 0x66, 0x66, 0x66, 0x3E, 0, 0, 0, 0, 0, 0],
     [0, 0, 0, 0, 0x66, 0x66, 0x66, 0x66, 0x3C, 0x18, 0, 0, 0, 0, 0, 0],
     [0, 0, 0, 0, 0xC6, 0xC6, 0xD6, 0xFE, 0x6C, 0x6C, 0, 0, 0, 0, 0, 0],
     [0, 0, 0, 0, 0x66, 0x3C, 0x18, 0x3C, 0x66, 0x66, 0, 0, 0, 0, 0, 0],
     [0, 0, 0, 0, 0x66, 0x66, 0x66, 0x3E, 0x6, 0xC, 0x78, 0, 0, 0, 0, 0],
     [0, 0, 0, 0, 0x7E, 0xC, 0x18, 0x30, 0x60, 0x7E, 0, 0, 0, 0, 0, 0],
     [0, 0, 0xE, 0x18, 0x18, 0x70, 0x18, 0x18, 0x18, 0xE, 0, 0, 0, 0, 0, 0],
     [0, 0x18, 0x18, 0x18, 0x18, 0x18, 0x18, 0x18, 0x18, 0x18, 0x18, 0, 0, 0, 0, 0],
     [0, 0, 0x70, 0x18, 0x18, 0xE, 0x18, 0x18, 0x18, 0x70, 0, 0, 0, 0, 0, 0],
     [0, 0, 0, 0x76, 0xDC, 0, 0, 0, 0, 0, 0, 0, 0, 0, 0, 0]]"

definition font_small :: "u8 list list" where
  "font_small = font_small_1 @ font_small_2"

section \<open>Sizes\<close>

abbreviation FONTS :: nat where "FONTS \<equiv> 3"
abbreviation FONT_CHAR_WIDTH_BYTES :: nat where "FONT_CHAR_WIDTH_BYTES \<equiv> 8"
abbreviation FONT_CHAR_HEIGHT_BYTES :: nat where "FONT_CHAR_HEIGHT_BYTES \<equiv> 16"
abbreviation FONT_CHAR_GAP :: nat where "FONT_CHAR_GAP \<equiv> 2"
abbreviation FONT_MASK_SMALL :: u32 where "FONT_MASK_SMALL \<equiv> 0x80"

text \<open>The current font is a small number that never leaves the range of the tables.\<close>

definition zoomInFont :: "nat \<Rightarrow> nat" where
  "zoomInFont currentFont = (if currentFont < FONTS - 1 then currentFont + 1 else currentFont)"

definition zoomOutFont :: "nat \<Rightarrow> nat" where
  "zoomOutFont currentFont = (if currentFont > 0 then currentFont - 1 else currentFont)"

definition font_widths :: "nat list" where
  "font_widths = [FONT_CHAR_WIDTH_BYTES, FONT_CHAR_WIDTH_BYTES * 2, FONT_CHAR_WIDTH_BYTES * 3]"

definition font_heights :: "nat list" where
  "font_heights = [FONT_CHAR_HEIGHT_BYTES, FONT_CHAR_HEIGHT_BYTES * 2, FONT_CHAR_HEIGHT_BYTES * 3]"

definition getCurrentFontWidth :: "nat \<Rightarrow> nat" where
  "getCurrentFontWidth currentFont = font_widths ! currentFont"

definition getCurrentFontHeight :: "nat \<Rightarrow> nat" where
  "getCurrentFontHeight currentFont = font_heights ! currentFont"

record FontChar =
  glyph :: "u8 list"
  glyph_width :: nat
  glyph_height :: nat
  bitMask :: u32

text \<open>A null bitmap, for a character outside the table, is \<^term>\<open>None\<close>.\<close>

definition getCharBitMap :: "nat \<Rightarrow> char \<Rightarrow> FontChar option" where
  "getCharBitMap currentFont c =
     (let i = of_char c :: nat
      in if i < 32 \<or> i > 126 then None
         else Some \<lparr>glyph = font_small ! (i - 32), glyph_width = font_widths ! currentFont,
                    glyph_height = font_heights ! currentFont, bitMask = FONT_MASK_SMALL\<rparr>)"

lemma font_lengths: "length font_small_1 = 48" "length font_small_2 = 47" "length font_small = 95"
proof -
  show "length font_small_1 = 48" unfolding font_small_1_def by simp
  moreover show "length font_small_2 = 47" unfolding font_small_2_def by simp
  ultimately show "length font_small = 95" by (simp add: font_small_def)
qed

lemma font_rows: "\<forall>r\<in>set font_small. length r = 16"
  unfolding font_small_def font_small_1_def font_small_2_def by simp

lemma glyph_rows: "getCharBitMap f c = Some g \<Longrightarrow> length (glyph g) = 16"
proof -
  assume g: "getCharBitMap f c = Some g"
  then have i: "\<not> (of_char c < (32 :: nat) \<or> (126 :: nat) < of_char c)"
    by (auto simp: getCharBitMap_def Let_def split: if_splits)
  then have "of_char c - (32 :: nat) < length font_small" unfolding font_lengths by linarith
  then have "font_small ! (of_char c - 32) \<in> set font_small" by (rule nth_mem)
  moreover have "glyph g = font_small ! (of_char c - 32)" using g i by (auto simp: getCharBitMap_def Let_def)
  ultimately show ?thesis using font_rows by simp
qed

end
