(* ===== verification/Video.thy ===== *)
theory Video
  imports Fonts LibC
begin

text \<open>
  \<open>Kernel/drivers/video/videoDriver.c\<close> on a linear frame buffer. The mode information block that the
  boot loader leaves in memory is the record of its fields the driver reads; the frame buffer lies in
  the raw memory of \<open>LibC\<close>.
\<close>

section \<open>State and pixels\<close>

record screen =
  vbe_pitch :: u16
  vbe_width :: u16
  vbe_height :: u16
  vbe_bpp :: u8
  vbe_framebuffer :: u32
  currentFont :: nat
  vmem :: memory

definition pixel_address :: "screen \<Rightarrow> u64 \<Rightarrow> u64 \<Rightarrow> u64" where
  "pixel_address V x y =
     ucast (vbe_framebuffer V) + (x * ucast (vbe_bpp V div 8) + y * ucast (vbe_pitch V))"

definition putPixel :: "u32 \<Rightarrow> u64 \<Rightarrow> u64 \<Rightarrow> screen \<Rightarrow> screen" where
  "putPixel hexColor x y V =
     (let a = pixel_address V x y
      in V\<lparr>vmem := (vmem V)(a := ucast (hexColor AND 0xFF),
                           a + 1 := ucast (drop_bit 8 hexColor AND 0xFF),
                           a + 2 := ucast (drop_bit 16 hexColor AND 0xFF))\<rparr>)"

definition getScreenWidth :: "screen \<Rightarrow> u16" where
  "getScreenWidth V = vbe_width V"

definition getScreenHeight :: "screen \<Rightarrow> u16" where
  "getScreenHeight V = vbe_height V"

definition isValidScreenCoordinate :: "u16 \<Rightarrow> u16 \<Rightarrow> screen \<Rightarrow> bool" where
  "isValidScreenCoordinate x y V \<longleftrightarrow> x \<le> getScreenWidth V \<and> y \<le> getScreenHeight V"

definition isValidScreenPrint :: "u16 \<Rightarrow> u16 \<Rightarrow> u16 \<Rightarrow> u16 \<Rightarrow> screen \<Rightarrow> bool" where
  "isValidScreenPrint x y width height V \<longleftrightarrow>
     isValidScreenCoordinate x y V \<and> isValidScreenCoordinate (x + width - 1) (y + height - 1) V"

definition getRemainingScreenWidth :: "u16 \<Rightarrow> screen \<Rightarrow> u16" where
  "getRemainingScreenWidth x_coord V = getScreenWidth V - x_coord"

text \<open>The coordinates are signed here.\<close>

definition putPixelIfValid :: "u32 \<Rightarrow> u64 \<Rightarrow> u64 \<Rightarrow> screen \<Rightarrow> screen" where
  "putPixelIfValid color x y V =
     (if 0 \<le> sint x \<and> sint x < uint (getScreenWidth V) \<and> 0 \<le> sint y \<and> sint y < uint (getScreenHeight V)
      then putPixel color x y V else V)"

section \<open>Text\<close>

definition drawChar :: "char \<Rightarrow> u32 \<Rightarrow> u64 \<Rightarrow> u64 \<Rightarrow> screen \<Rightarrow> screen" where
  "drawChar c color x y V =
     (case getCharBitMap (currentFont V) c of
        None \<Rightarrow> V
      | Some f \<Rightarrow>
          let scale = glyph_width f div FONT_CHAR_WIDTH_BYTES
          in if \<not> isValidScreenPrint (ucast x) (ucast y) (of_nat (glyph_width f)) (of_nat (glyph_height f)) V then V
             else fold (\<lambda>row. fold (\<lambda>col.
                    if (ucast (glyph f ! row) :: u32) AND drop_bit col (bitMask f) \<noteq> 0
                    then fold (\<lambda>dy. fold (\<lambda>dx.
                           putPixelIfValid color (x + of_nat (col * scale + dx)) (y + of_nat (row * scale + dy)))
                           [0..<scale]) [0..<scale]
                    else (\<lambda>V. V)) [0..<FONT_CHAR_WIDTH_BYTES]) [0..<FONT_CHAR_HEIGHT_BYTES] V)"

text \<open>The string has a terminator, or the loop reads past its end.\<close>

fun drawString :: "char list \<Rightarrow> u32 \<Rightarrow> u64 \<Rightarrow> u64 \<Rightarrow> screen \<Rightarrow> screen option" where
  "drawString [] hexColor x y V = None"
| "drawString (c # cs) hexColor x y V =
     (if c = nul then Some V
      else let w = getCurrentFontWidth (currentFont V);
               h = getCurrentFontHeight (currentFont V);
               fits = (\<lambda>x y. isValidScreenPrint (ucast x) (ucast y) (of_nat w) (of_nat h) V);
               wrap = (\<not> fits x y);
               x1 = (if wrap then 0 else x);
               y1 = (if wrap then y + of_nat (h + FONT_CHAR_GAP) else y)
           in if wrap \<and> \<not> fits x1 y1 then Some V
              else drawString cs hexColor (x1 + of_nat (w + FONT_CHAR_GAP)) y1 (drawChar c hexColor x1 y1 V))"

section \<open>Shapes\<close>

text \<open>The values of a counter that runs from \<open>a\<close> as long as it is below \<open>b\<close>.\<close>

definition range64 :: "u64 \<Rightarrow> u64 \<Rightarrow> u64 list" where
  "range64 a b = map of_nat [unat a..<unat b]"

definition drawRectangle :: "u64 \<Rightarrow> u64 \<Rightarrow> u32 \<Rightarrow> u64 \<Rightarrow> u64 \<Rightarrow> screen \<Rightarrow> screen" where
  "drawRectangle width heigth hexColor x y V =
     (if \<not> isValidScreenPrint (ucast x) (ucast y) (ucast width) (ucast heigth) V then V
      else fold (\<lambda>i. fold (\<lambda>j. putPixel hexColor i j) (range64 y (y + heigth))) (range64 x (x + width)) V)"

definition clearScreen :: "screen \<Rightarrow> screen" where
  "clearScreen V = drawRectangle (ucast (getScreenWidth V)) (ucast (getScreenHeight V)) 0 0 0 V"

text \<open>The octants of an unfilled circle; nothing calls it.\<close>

definition plotCircleOctants :: "u32 \<Rightarrow> u64 \<Rightarrow> u64 \<Rightarrow> u64 \<Rightarrow> u64 \<Rightarrow> screen \<Rightarrow> screen" where
  "plotCircleOctants hexColor xc yc dx dy V =
     fold (\<lambda>(x, y). putPixelIfValid hexColor x y)
       [(xc + dx, yc + dy), (xc - dx, yc + dy), (xc + dx, yc - dy), (xc - dx, yc - dy),
        (xc + dy, yc + dx), (xc - dy, yc + dx), (xc + dy, yc - dx), (xc - dy, yc - dx)] V"

definition drawHLine :: "u32 \<Rightarrow> u64 \<Rightarrow> u64 \<Rightarrow> u64 \<Rightarrow> screen \<Rightarrow> screen" where
  "drawHLine hexColor x1 x2 y V =
     (let (a, b) = (if x2 <s x1 then (x2, x1) else (x1, x2))
      in fold (\<lambda>x. putPixelIfValid hexColor (word_of_int x) y) [sint a..sint b] V)"

definition fillCircleOctants :: "u32 \<Rightarrow> u64 \<Rightarrow> u64 \<Rightarrow> u64 \<Rightarrow> u64 \<Rightarrow> screen \<Rightarrow> screen" where
  "fillCircleOctants hexColor xc yc dx dy V =
     drawHLine hexColor (xc - dy) (xc + dy) (yc - dx)
       (drawHLine hexColor (xc - dy) (xc + dy) (yc + dx)
         (drawHLine hexColor (xc - dx) (xc + dx) (yc - dy)
           (drawHLine hexColor (xc - dx) (xc + dx) (yc + dy) V)))"

function circle_loop :: "u32 \<Rightarrow> u64 \<Rightarrow> u64 \<Rightarrow> u64 \<Rightarrow> u64 \<Rightarrow> u64 \<Rightarrow> screen \<Rightarrow> screen" where
  "circle_loop hexColor xc yc x y p V =
     (if x <s y
      then let x' = x + 1;
               y' = (if p <s 0 then y else y - 1);
               p' = (if p <s 0 then p + (2 * x' + 1) else p + (2 * x' + 1 - 2 * y'))
           in circle_loop hexColor xc yc x' y' p' (fillCircleOctants hexColor xc yc x' y' V)
      else V)"
  by pat_completeness auto

lemma sint_suc64: "(x :: u64) <s y \<Longrightarrow> sint (x + 1) = sint x + 1"
proof -
  assume "x <s y"
  then have "sint x < sint y" by (simp add: word_sless_alt)
  moreover have "sint y < 2 ^ 63" using sint_lt [of y] by simp
  ultimately have "sint x + 1 < 2 ^ 63" by simp
  moreover have "- (2 ^ 63) \<le> sint x" using sint_ge [of x] by simp
  ultimately show ?thesis by (simp add: sint_word_ariths signed_take_bit_int_eq_self)
qed

lemma sint_pred64: "(x :: u64) <s y \<Longrightarrow> sint (y - 1) = sint y - 1"
proof -
  assume "x <s y"
  then have "sint x < sint y" by (simp add: word_sless_alt)
  moreover have "- (2 ^ 63) \<le> sint x" using sint_ge [of x] by simp
  ultimately have "- (2 ^ 63) \<le> sint y - 1" by simp
  moreover have "sint y < 2 ^ 63" using sint_lt [of y] by simp
  ultimately show ?thesis by (simp add: sint_word_ariths signed_take_bit_int_eq_self)
qed

termination circle_loop
proof (relation "measure (\<lambda>(_, _, _, x, y, _, _). nat (sint y - sint x))", goal_cases)
  case (2 hexColor xc yc x y p V)
  then have "sint x < sint y" by (simp add: word_sless_alt)
  then show ?case using sint_suc64 [OF 2(1)] sint_pred64 [OF 2(1)] 2(2,3) by auto
qed simp

declare circle_loop.simps [simp del]

definition drawCircle :: "u64 \<Rightarrow> u32 \<Rightarrow> u64 \<Rightarrow> u64 \<Rightarrow> screen \<Rightarrow> screen" where
  "drawCircle r hexColor xc yc V =
     (if r \<le>s 0 then putPixelIfValid hexColor xc yc V
      else circle_loop hexColor xc yc 0 r (1 - r) (fillCircleOctants hexColor xc yc 0 r V))"

section \<open>Numbers\<close>

text \<open>The local arrays are written before they are read, so what they hold at first does not matter.\<close>

definition local_array :: "nat \<Rightarrow> string" where
  "local_array n = replicate n nul"

definition drawDecimal :: "u64 \<Rightarrow> u32 \<Rightarrow> u64 \<Rightarrow> u64 \<Rightarrow> screen \<Rightarrow> screen option" where
  "drawDecimal v hexColor x y V =
     do { buffer \<leftarrow> uint64ToString v (local_array 21) 10; drawString buffer hexColor x y V }"

definition drawHexa :: "u64 \<Rightarrow> u32 \<Rightarrow> u64 \<Rightarrow> u64 \<Rightarrow> screen \<Rightarrow> screen option" where
  "drawHexa v hexColor x y V =
     do { buffer \<leftarrow> uint64ToString v (local_array 17) 16; drawString (''0x'' @ buffer) hexColor x y V }"

definition drawBin :: "u64 \<Rightarrow> u32 \<Rightarrow> u64 \<Rightarrow> u64 \<Rightarrow> screen \<Rightarrow> screen option" where
  "drawBin v hexColor x y V =
     do { buffer \<leftarrow> uint64ToString v (local_array 65) 2; drawString (''0b'' @ buffer) hexColor x y V }"

section \<open>What is on the screen\<close>

text \<open>A mode with 24 bits for a pixel and lines long enough.\<close>

definition video_ok :: "screen \<Rightarrow> bool" where
  "video_ok V \<longleftrightarrow> vbe_bpp V = 24 \<and> 3 * unat (vbe_width V) \<le> unat (vbe_pitch V) \<and> currentFont V < FONTS"

abbreviation W :: "screen \<Rightarrow> nat" where "W V \<equiv> unat (vbe_width V)"
abbreviation H :: "screen \<Rightarrow> nat" where "H V \<equiv> unat (vbe_height V)"

definition pixel :: "screen \<Rightarrow> nat \<Rightarrow> nat \<Rightarrow> u8 list" where
  "pixel V x y = map (\<lambda>i. vmem V (pixel_address V (of_nat x) (of_nat y) + of_nat i)) [0..<3]"

definition rgb :: "u32 \<Rightarrow> u8 list" where
  "rgb c = [ucast (c AND 0xFF), ucast (drop_bit 8 c AND 0xFF), ucast (drop_bit 16 c AND 0xFF)]"

text \<open>The mode does not change, and neither does memory outside the frame buffer.\<close>

definition same_mode :: "screen \<Rightarrow> screen \<Rightarrow> bool" where
  "same_mode V V' \<longleftrightarrow> V' = V\<lparr>vmem := vmem V'\<rparr>"

lemma same_modeD:
  assumes "same_mode V V'"
  shows "vbe_pitch V' = vbe_pitch V" and "vbe_width V' = vbe_width V" and "vbe_height V' = vbe_height V"
    and "vbe_bpp V' = vbe_bpp V" and "vbe_framebuffer V' = vbe_framebuffer V" and "currentFont V' = currentFont V"
proof -
  have "V' = V\<lparr>vmem := vmem V'\<rparr>" using assms by (simp add: same_mode_def)
  then show "vbe_pitch V' = vbe_pitch V" "vbe_width V' = vbe_width V" "vbe_height V' = vbe_height V"
    "vbe_bpp V' = vbe_bpp V" "vbe_framebuffer V' = vbe_framebuffer V" "currentFont V' = currentFont V"
    by (metis (no_types, lifting) screen.select_convs screen.simps(8) screen.simps(9) screen.simps(10)
        screen.simps(11) screen.simps(12) screen.simps(13) screen.surjective screen.update_convs(7))+
qed

lemma same_mode_refl [simp]: "same_mode V V"
  by (simp add: same_mode_def)

lemma same_mode_trans: "same_mode V V1 \<Longrightarrow> same_mode V1 V2 \<Longrightarrow> same_mode V V2"
  unfolding same_mode_def by (metis (no_types, lifting) screen.surjective screen.update_convs(7))

lemma putPixel_mode [simp]: "same_mode V (putPixel c x y V)"
  by (simp add: same_mode_def putPixel_def Let_def)

lemma putPixelIfValid_mode [simp]: "same_mode V (putPixelIfValid c x y V)"
  by (simp add: putPixelIfValid_def)

lemma pixel_address_nat:
  assumes "vbe_bpp V = 24"
  shows "pixel_address V (of_nat x) (of_nat y) =
           of_nat (unat (vbe_framebuffer V) + (x * 3 + y * unat (vbe_pitch V)))"
proof -
  have "(ucast (vbe_framebuffer V) :: u64) = of_nat (unat (vbe_framebuffer V))"
    "(ucast (vbe_pitch V) :: u64) = of_nat (unat (vbe_pitch V))" by simp_all
  then show ?thesis using assms by (simp add: pixel_address_def)
qed

lemma of_nat_inj64: "a < 2 ^ 64 \<Longrightarrow> b < 2 ^ 64 \<Longrightarrow> (of_nat a :: u64) = of_nat b \<longleftrightarrow> a = b"
  by (simp add: word_of_nat_eq_iff take_bit_nat_eq_self)

lemma pixel_distinct:
  assumes ok: "video_ok V" and x: "x < W V" "x' < W V" and y: "y < H V" "y' < H V" and i: "i < 3" "j < 3"
  shows "pixel_address V (of_nat x) (of_nat y) + of_nat i = pixel_address V (of_nat x') (of_nat y') + of_nat j \<longleftrightarrow>
           x = x' \<and> y = y' \<and> i = j"
proof -
  let ?F = "unat (vbe_framebuffer V)" and ?P = "unat (vbe_pitch V)"
  have b: "?F < 2 ^ 32" "?P < 2 ^ 16" "H V < 2 ^ 16"
    using unsigned_less [of "vbe_framebuffer V", where 'a = nat] unsigned_less [of "vbe_pitch V", where 'a = nat]
      unsigned_less [of "vbe_height V", where 'a = nat] by simp_all
  have p: "x * 3 + i < ?P" "x' * 3 + j < ?P" using ok x i unfolding video_ok_def by linarith+
  have small: "?F + (a * 3 + b * ?P) + k < 2 ^ 64" if "a * 3 + k < ?P" "b < H V" for a b k
  proof -
    have "b * ?P \<le> 2 ^ 16 * 2 ^ 16" using that(2) \<open>?P < 2 ^ 16\<close> \<open>H V < 2 ^ 16\<close> by (intro mult_le_mono) simp_all
    then show ?thesis using that(1) b by simp
  qed
  have eq: "pixel_address V (of_nat a) (of_nat b) + of_nat k = of_nat (?F + (a * 3 + b * ?P) + k)" for a b k
    using ok by (simp only: pixel_address_nat video_ok_def of_nat_add)
  have "pixel_address V (of_nat x) (of_nat y) + of_nat i = pixel_address V (of_nat x') (of_nat y') + of_nat j \<longleftrightarrow>
          ?F + (x * 3 + y * ?P) + i = ?F + (x' * 3 + y' * ?P) + j"
    unfolding eq using small [OF p(1) y(1)] small [OF p(2) y(2)]
    by (rule of_nat_inj64)
  also have "\<dots> \<longleftrightarrow> x = x' \<and> y = y' \<and> i = j"
  proof
    assume e: "?F + (x * 3 + y * ?P) + i = ?F + (x' * 3 + y' * ?P) + j"
    then have "(x * 3 + i) + y * ?P = (x' * 3 + j) + y' * ?P" by simp
    then have "((x * 3 + i) + y * ?P) div ?P = ((x' * 3 + j) + y' * ?P) div ?P" by simp
    then have yy: "y = y'" using p by simp
    then have "x * 3 + i = x' * 3 + j" using e by simp
    then show "x = x' \<and> y = y' \<and> i = j" using yy i by presburger
  qed simp
  finally show ?thesis .
qed

lemma pixel_putPixel:
  assumes "video_ok V" and "x < W V" "x' < W V" and "y < H V" "y' < H V"
  shows "pixel (putPixel c (of_nat x) (of_nat y) V) x' y' = (if x' = x \<and> y' = y then rgb c else pixel V x' y')"
proof -
  have a: "pixel_address (putPixel c a b V) u v = pixel_address V u v" for a b u v
    by (simp add: pixel_address_def putPixel_def Let_def)
  let ?a = "pixel_address V (of_nat x) (of_nat y)" and ?b = "pixel_address V (of_nat x') (of_nat y')"
  have d: "?b + of_nat i = ?a + of_nat j \<longleftrightarrow> x' = x \<and> y' = y \<and> i = j" if "i < 3" "j < 3" for i j
    using pixel_distinct [OF assms(1,3,2,5,4) that] by blast
  have up: "[0..<3] = [0, 1, 2 :: nat]" by (simp add: upt_rec)
  show ?thesis
    using d [of 0 0] d [of 0 1] d [of 0 2] d [of 1 0] d [of 1 1] d [of 1 2] d [of 2 0] d [of 2 1] d [of 2 2]
    unfolding pixel_def a up by (auto simp: putPixel_def Let_def rgb_def)
qed

text \<open>Painting a list of points of the screen.\<close>

lemma fold_mode: "(\<And>p V. same_mode V (f p V)) \<Longrightarrow> same_mode V (fold f ps V)"
  by (induction ps arbitrary: V) (auto intro: same_mode_trans)

definition paint :: "u32 \<Rightarrow> (nat \<times> nat) list \<Rightarrow> screen \<Rightarrow> screen" where
  "paint c = fold (\<lambda>(x, y). putPixel c (of_nat x) (of_nat y))"

lemma paint_mode [simp]: "same_mode V (paint c ps V)"
  unfolding paint_def by (rule fold_mode) (simp split: prod.split)

lemma pixel_paint:
  assumes "video_ok V" and "\<forall>(x, y)\<in>set ps. x < W V \<and> y < H V" and "x' < W V" "y' < H V"
  shows "pixel (paint c ps V) x' y' = (if (x', y') \<in> set ps then rgb c else pixel V x' y')"
  using assms
proof (induction ps arbitrary: V)
  case (Cons p ps)
  obtain x y where p: "p = (x, y)" by fastforce
  let ?V = "putPixel c (of_nat x) (of_nat y) V"
  have m: "same_mode V ?V" by simp
  have "video_ok ?V" "\<forall>(x, y)\<in>set ps. x < W ?V \<and> y < H ?V" "x' < W ?V" "y' < H ?V"
    using Cons.prems same_modeD [OF m] by (auto simp: video_ok_def)
  from Cons.IH [OF this] have "pixel (paint c ps ?V) x' y' = (if (x', y') \<in> set ps then rgb c else pixel ?V x' y')" .
  then show ?case using pixel_putPixel [of V x x' y y' c] Cons.prems p by (auto simp: paint_def)
qed (simp add: paint_def)

lemma paint_append: "paint c (ps @ qs) V = paint c qs (paint c ps V)"
  by (simp add: paint_def)

lemma fold_paint: "fold (\<lambda>i. paint c (f i)) xs V = paint c (concat (map f xs)) V"
  by (induction xs arbitrary: V) (simp_all add: paint_append, simp add: paint_def)

section \<open>Rectangles\<close>

definition box :: "nat \<Rightarrow> nat \<Rightarrow> nat \<Rightarrow> nat \<Rightarrow> (nat \<times> nat) list" where
  "box x y w h = concat (map (\<lambda>i. map (Pair i) [y..<y + h]) [x..<x + w])"

lemma set_box [simp]: "set (box x y w h) = {x..<x + w} \<times> {y..<y + h}"
  by (auto simp: box_def)

lemma range64_nat: "a + n < 2 ^ 64 \<Longrightarrow> range64 (of_nat a) (of_nat a + of_nat n) = map of_nat [a..<a + n]"
  by (simp add: range64_def unat_of_nat_small flip: of_nat_add)

lemma column_paint:
  assumes "y + h < 2 ^ 64"
  shows "fold (putPixel c (of_nat i)) (range64 (of_nat y) (of_nat y + of_nat h)) V = paint c (map (Pair i) [y..<y + h]) V"
  unfolding range64_nat [OF assms] paint_def by (simp add: fold_map comp_def)

lemma rectangle_loops:
  assumes "x + w < 2 ^ 64" and "y + h < 2 ^ 64"
  shows "fold (\<lambda>i. fold (putPixel c i) (range64 (of_nat y) (of_nat y + of_nat h)))
           (range64 (of_nat x) (of_nat x + of_nat w)) V = paint c (box x y w h) V"
proof -
  have "fold (\<lambda>i. fold (putPixel c i) (range64 (of_nat y) (of_nat y + of_nat h)))
           (range64 (of_nat x) (of_nat x + of_nat w)) V =
        fold (\<lambda>i. fold (putPixel c (of_nat i)) (range64 (of_nat y) (of_nat y + of_nat h))) [x..<x + w] V"
    unfolding range64_nat [OF assms(1)] by (simp add: fold_map comp_def)
  also have "\<dots> = fold (\<lambda>i. paint c (map (Pair i) [y..<y + h])) [x..<x + w] V"
    unfolding column_paint [OF assms(2)] ..
  finally show ?thesis by (simp only: fold_paint box_def)
qed

lemma valid_box:
  assumes "x + w \<le> W V" and "y + h \<le> H V" and "0 < w" and "0 < h"
  shows "isValidScreenPrint (of_nat x) (of_nat y) (of_nat w) (of_nat h) V"
proof -
  have b: "W V < 2 ^ 16" "H V < 2 ^ 16"
    using unsigned_less [of "vbe_width V", where 'a = nat] unsigned_less [of "vbe_height V", where 'a = nat] by simp_all
  have le: "(of_nat n :: u16) \<le> v \<longleftrightarrow> n \<le> unat v" if "n < 2 ^ 16" for n v
    using that by (simp add: word_le_nat_alt unat_of_nat_small)
  have e: "(of_nat a :: u16) + of_nat k - 1 = of_nat (a + k - 1)" if "0 < k" for a k
    using that by (simp add: of_nat_diff)
  have "x < 2 ^ 16" "y < 2 ^ 16" "x + w - 1 < 2 ^ 16" "y + h - 1 < 2 ^ 16" using assms b by simp_all
  note l = this [THEN le]
  have "(of_nat x :: u16) \<le> vbe_width V" "(of_nat y :: u16) \<le> vbe_height V"
    "(of_nat (x + w - 1) :: u16) \<le> vbe_width V" "(of_nat (y + h - 1) :: u16) \<le> vbe_height V"
    unfolding l using assms by linarith+
  then show ?thesis
    unfolding isValidScreenPrint_def isValidScreenCoordinate_def getScreenWidth_def getScreenHeight_def
      e [OF assms(3)] e [OF assms(4)] by blast
qed

lemma ucast_small: "n < 2 ^ 64 \<Longrightarrow> (ucast (of_nat n :: u64) :: u16) = of_nat n"
  by (simp add: unsigned_of_nat take_bit_nat_eq_self)

lemma drawRectangle_paint:
  assumes "x + w \<le> W V" and "y + h \<le> H V"
  shows "drawRectangle (of_nat w) (of_nat h) c (of_nat x) (of_nat y) V = paint c (box x y w h) V"
proof -
  have b: "W V < 2 ^ 16" "H V < 2 ^ 16"
    using unsigned_less [of "vbe_width V", where 'a = nat] unsigned_less [of "vbe_height V", where 'a = nat] by simp_all
  have lt: "x + w < 2 ^ 64" "y + h < 2 ^ 64" using assms b by simp_all
  then have u: "(ucast (of_nat n :: u64) :: u16) = of_nat n" if "n \<in> {x, y, w, h}" for n
    using that by (intro ucast_small) auto
  show ?thesis
  proof (cases "w = 0 \<or> h = 0")
    case True
    then have "box x y w h = []" by (auto simp: box_def)
    moreover have "fold (\<lambda>i. fold (\<lambda>j. putPixel c i j) (range64 (of_nat y) (of_nat y + of_nat h)))
        (range64 (of_nat x) (of_nat x + of_nat w)) V = V"
      using rectangle_loops [OF lt, of c V] calculation by (simp add: paint_def)
    ultimately show ?thesis by (simp add: drawRectangle_def paint_def)
  next
    case False
    then have "isValidScreenPrint (of_nat x) (of_nat y) (of_nat w) (of_nat h) V" using valid_box [OF assms] by simp
    then show ?thesis using rectangle_loops [OF lt, of c V] by (simp add: drawRectangle_def u)
  qed
qed

section \<open>Characters\<close>

text \<open>The points of a character's bitmap, enlarged by the scale of the font.\<close>

definition ink :: "u8 list \<Rightarrow> nat \<Rightarrow> nat \<Rightarrow> bool" where
  "ink g row col \<longleftrightarrow> bit (g ! row) (7 - col)"

definition glyph_points :: "u8 list \<Rightarrow> nat \<Rightarrow> nat \<Rightarrow> nat \<Rightarrow> (nat \<times> nat) list" where
  "glyph_points g scale x y =
     concat (map (\<lambda>row. concat (map (\<lambda>col.
       if ink g row col
       then concat (map (\<lambda>dy. map (\<lambda>dx. (x + (col * scale + dx), y + (row * scale + dy))) [0..<scale]) [0..<scale])
       else []) [0..<8])) [0..<16])"

lemma ink_bit: "col < 8 \<Longrightarrow> (ucast (b :: u8) :: u32) AND drop_bit col FONT_MASK_SMALL \<noteq> 0 \<longleftrightarrow> bit b (7 - col)"
proof -
  assume c: "col < 8"
  then have "drop_bit col FONT_MASK_SMALL = (2 :: u32) ^ (7 - col)"
  proof -
    have "col \<in> {0, 1, 2, 3, 4, 5, 6, 7}" using c by auto
    then show ?thesis by (auto simp: drop_bit_eq_div)
  qed
  moreover have "7 - col < (32 :: nat)" by linarith
  ultimately show ?thesis by (simp add: and_exp_eq_0_iff_not_bit bit_ucast_iff)
qed

lemma putPixelIfValid_nat:
  assumes "x < W V" and "y < H V"
  shows "putPixelIfValid c (of_nat x) (of_nat y) V = putPixel c (of_nat x) (of_nat y) V"
proof -
  have b: "W V < 2 ^ 16" "H V < 2 ^ 16"
    using unsigned_less [of "vbe_width V", where 'a = nat] unsigned_less [of "vbe_height V", where 'a = nat] by simp_all
  have s: "sint (of_nat n :: u64) = int n" if "n < 2 ^ 16" for n
  proof -
    have "int n < 2 ^ 16" using that by (simp only: of_nat_less_iff of_nat_power of_nat_numeral flip: of_nat_less_iff [where 'a = int])
    then show ?thesis by (simp add: signed_of_nat signed_take_bit_int_eq_self)
  qed
  have "int x < int (W V)" "int y < int (H V)" by (simp_all only: of_nat_less_iff assms)
  then have "int x < uint (vbe_width V)" "int y < uint (vbe_height V)" by simp_all
  then show ?thesis using s [of x] s [of y] assms b
    by (simp add: putPixelIfValid_def getScreenWidth_def getScreenHeight_def)
qed

lemma paint_valid:
  assumes "\<forall>(x, y)\<in>set ps. x < W V \<and> y < H V"
  shows "fold (\<lambda>(x, y). putPixelIfValid c (of_nat x) (of_nat y)) ps V = paint c ps V"
  using assms
proof (induction ps arbitrary: V)
  case (Cons p ps)
  obtain x y where p: "p = (x, y)" by fastforce
  let ?V = "putPixel c (of_nat x) (of_nat y) V"
  have m: "same_mode V ?V" by simp
  have "\<forall>(x, y)\<in>set ps. x < W ?V \<and> y < H ?V" using Cons.prems same_modeD [OF m] by auto
  from Cons.IH [OF this] show ?case using putPixelIfValid_nat [of x V y c] Cons.prems p by (simp add: paint_def)
qed (simp add: paint_def)

lemma fold_concat: "fold (\<lambda>i. fold g (f i)) xs V = fold g (concat (map f xs)) V"
  by (induction xs arbitrary: V) simp_all

lemma in_concat_upt: "p \<in> set (concat (map f [0..<n])) \<longleftrightarrow> (\<exists>i<n. p \<in> set (f i))"
  by auto

lemma in_map_upt: "p \<in> set (map f [0..<n]) \<longleftrightarrow> (\<exists>i<n. p = f i)"
  by auto

lemma in_set_if: "p \<in> set (if P then xs else []) \<longleftrightarrow> P \<and> p \<in> set xs"
  by simp

lemma set_glyph_points:
  "p \<in> set (glyph_points g s x y) \<longleftrightarrow>
     (\<exists>row<16. \<exists>col<8. \<exists>dy < s. \<exists>dx < s. ink g row col \<and> p = (x + (col * s + dx), y + (row * s + dy)))"
  unfolding glyph_points_def in_concat_upt in_map_upt in_set_if by blast

text \<open>Point by point: which points of the character's box are inked.\<close>

lemma in_glyph_points:
  assumes "0 < s"
  shows "(x + i, y + j) \<in> set (glyph_points g s x y) \<longleftrightarrow> i < 8 * s \<and> j < 16 * s \<and> ink g (j div s) (i div s)"
proof
  assume "(x + i, y + j) \<in> set (glyph_points g s x y)"
  then obtain row col dx dy where r: "row < 16" "col < 8" "dx < s" "dy < s" "ink g row col"
    "i = col * s + dx" "j = row * s + dy" unfolding set_glyph_points by auto
  have "i div s = col" "j div s = row" using r by simp_all
  moreover have "i < 8 * s" "j < 16 * s"
  proof -
    have "(col + 1) * s \<le> 8 * s" "(row + 1) * s \<le> 16 * s" using r(1,2) by (intro mult_le_mono; simp)+
    then have "col * s + s \<le> 8 * s" "row * s + s \<le> 16 * s" by (simp_all only: add_mult_distrib mult_1)
    then show "i < 8 * s" "j < 16 * s" using r(3,4,6,7) by linarith+
  qed
  ultimately show "i < 8 * s \<and> j < 16 * s \<and> ink g (j div s) (i div s)" using r(5) by simp
next
  assume a: "i < 8 * s \<and> j < 16 * s \<and> ink g (j div s) (i div s)"
  then have "i div s < 8" "j div s < 16" by (simp_all add: less_mult_imp_div_less)
  moreover have "i = (i div s) * s + i mod s" "j = (j div s) * s + j mod s" by simp_all
  moreover have "i mod s < s" "j mod s < s" using assms by simp_all
  ultimately show "(x + i, y + j) \<in> set (glyph_points g s x y)" using a unfolding set_glyph_points prod.inject by metis
qed

lemma glyph_in_box:
  assumes "x + 8 * s \<le> w" and "y + 16 * s \<le> h" and "0 < s"
  shows "\<forall>(a, b)\<in>set (glyph_points g s x y). a < w \<and> b < h"
proof -
  have "x + i < w \<and> y + j < h" if "(x + i, y + j) \<in> set (glyph_points g s x y)" for i j
    using that assms unfolding in_glyph_points [OF assms(3)] by simp
  note b = this
  have "fst p < w \<and> snd p < h" if p: "p \<in> set (glyph_points g s x y)" for p
  proof -
    obtain i j where "p = (x + i, y + j)" using p unfolding set_glyph_points by blast
    with b p show ?thesis by simp
  qed
  then show ?thesis by fastforce
qed

lemma char_loops:
  "fold (\<lambda>row. fold (\<lambda>col.
       if ink g row col
       then fold (\<lambda>dy. fold (\<lambda>dx. f (x + (col * s + dx), y + (row * s + dy))) [0..<s]) [0..<s]
       else (\<lambda>V. V)) [0..<8]) [0..<16] V = fold f (glyph_points g s x y) V"
proof -
  have i: "(if p then fold (\<lambda>dy. fold (\<lambda>dx. f (h dx dy)) [0..<s]) [0..<s] else (\<lambda>V. V)) =
        fold f (if p then concat (map (\<lambda>dy. map (\<lambda>dx. h dx dy) [0..<s]) [0..<s]) else [])" for p h
    by (auto simp: fun_eq_iff fold_map comp_def simp flip: fold_concat)
  show ?thesis unfolding glyph_points_def i fold_concat ..
qed

lemma glyph_scale:
  assumes "getCharBitMap f c = Some g" and "f < FONTS"
  shows "glyph_width g = 8 * (f + 1)" and "glyph_height g = 16 * (f + 1)" and "bitMask g = FONT_MASK_SMALL"
proof -
  have "f = 0 \<or> f = 1 \<or> f = 2" using assms(2) by auto
  with assms(1) show "glyph_width g = 8 * (f + 1)" "glyph_height g = 16 * (f + 1)" "bitMask g = FONT_MASK_SMALL"
    by (auto simp: getCharBitMap_def Let_def font_widths_def font_heights_def split: if_splits)
qed

lemma fold_eq: "(\<And>x. x \<in> set xs \<Longrightarrow> f x = g x) \<Longrightarrow> fold f xs = fold g xs"
  by (induction xs) simp_all

lemma drawChar_paint:
  assumes ok: "video_ok V" and g: "getCharBitMap (currentFont V) c = Some g"
    and x: "x + glyph_width g \<le> W V" and y: "y + glyph_height g \<le> H V"
  shows "drawChar c color (of_nat x) (of_nat y) V = paint color (glyph_points (glyph g) (currentFont V + 1) x y) V"
proof -
  let ?s = "currentFont V + 1"
  have f: "currentFont V < FONTS" using ok by (simp add: video_ok_def)
  note gs = glyph_scale [OF g f]
  have b: "W V < 2 ^ 16" "H V < 2 ^ 16"
    using unsigned_less [of "vbe_width V", where 'a = nat] unsigned_less [of "vbe_height V", where 'a = nat] by simp_all
  have v: "isValidScreenPrint (of_nat x) (of_nat y) (of_nat (glyph_width g)) (of_nat (glyph_height g)) V"
    by (rule valid_box [OF x y]) (simp_all add: gs)
  have u: "(ucast (of_nat x :: u64) :: u16) = of_nat x" "(ucast (of_nat y :: u64) :: u16) = of_nat y"
    using x y b by (simp_all add: ucast_small)
  have s: "glyph_width g div 8 = ?s" by (simp add: gs)
  have "\<forall>(a, b)\<in>set (glyph_points (glyph g) ?s x y). a < W V \<and> b < H V"
    by (rule glyph_in_box) (use x y in \<open>simp_all add: gs\<close>)
  note p = paint_valid [OF this, of color]
  have "drawChar c color (of_nat x) (of_nat y) V =
      fold (\<lambda>row. fold (\<lambda>col.
        if ink (glyph g) row col
        then fold (\<lambda>dy. fold (\<lambda>dx. (\<lambda>(a, b). putPixelIfValid color (of_nat a) (of_nat b))
               (x + (col * ?s + dx), y + (row * ?s + dy))) [0..<?s]) [0..<?s]
        else (\<lambda>V. V)) [0..<8]) [0..<16] V"
    unfolding drawChar_def g option.case Let_def s u if_P [OF v] not_not if_True if_False using v
    by (simp add: gs(3) del: gs(1,2)) (intro fold_eq [THEN fun_cong] fold_eq, simp add: ink_def ink_bit)
  also have "\<dots> = paint color (glyph_points (glyph g) ?s x y) V" unfolding char_loops p ..
  finally show ?thesis .
qed

section \<open>Staying on the screen\<close>

text \<open>An address that holds no part of a visible pixel.\<close>

definition off_screen :: "screen \<Rightarrow> u64 \<Rightarrow> bool" where
  "off_screen V a \<longleftrightarrow>
     (\<forall>x<W V. \<forall>y<H V. \<forall>i<3. a \<noteq> pixel_address V (of_nat x) (of_nat y) + of_nat i)"

definition stays :: "u64 \<Rightarrow> (screen \<Rightarrow> screen) \<Rightarrow> bool" where
  "stays a f \<longleftrightarrow> (\<forall>V. off_screen V a \<longrightarrow> vmem (f V) a = vmem V a \<and> same_mode V (f V))"

lemma off_screen_mode: "same_mode V V' \<Longrightarrow> off_screen V' a = off_screen V a"
  unfolding off_screen_def pixel_address_def by (simp add: same_modeD)

lemma stays_comp: "stays a f \<Longrightarrow> stays a g \<Longrightarrow> stays a (\<lambda>V. g (f V))"
  unfolding stays_def using off_screen_mode same_mode_trans by metis

lemma stays_id: "stays a (\<lambda>V. V)"
  by (simp add: stays_def)

lemma stays_fold: "(\<And>x. stays a (f x)) \<Longrightarrow> stays a (fold f xs)"
proof (induction xs)
  case Nil
  then show ?case by (simp add: stays_def)
next
  case (Cons x xs)
  then show ?case using stays_comp [of a "f x" "fold f xs"] by (simp add: comp_def)
qed

lemma stays_pixel: "stays a (putPixelIfValid c x y)"
proof -
  have "vmem (putPixelIfValid c x y V) a = vmem V a" if o: "off_screen V a" for V
  proof (cases "0 \<le> sint x \<and> sint x < uint (vbe_width V) \<and> 0 \<le> sint y \<and> sint y < uint (vbe_height V)")
    case True
    have n: "int (unat v) = sint v" if "0 \<le> sint v" for v :: u64
    proof -
      have "\<not> bit v 63" using that bit_last_iff [of v] by simp
      moreover have "take_bit 64 (uint v) = uint v"
        using unsigned_less [of v, where 'a = int] by (intro take_bit_int_eq_self) simp_all
      ultimately show ?thesis by (simp add: sint_uint signed_take_bit_eq_take_bit_minus bit_uint_iff)
    qed
    have "int (unat x) < int (W V)" "int (unat y) < int (H V)" using True n [of x] n [of y] by simp_all
    then have l: "unat x < W V" "unat y < H V" by (simp_all only: of_nat_less_iff)
    have e: "of_nat (unat x) = x" "of_nat (unat y) = y" by simp_all
    have "a \<noteq> pixel_address V x y + of_nat i" if "i < 3" for i
      using o l that unfolding off_screen_def by (metis e)
    from this [of 0] this [of 1] this [of 2] show ?thesis
      by (auto simp: putPixelIfValid_def putPixel_def Let_def)
  qed (auto simp: putPixelIfValid_def getScreenWidth_def getScreenHeight_def)
  then show ?thesis by (simp add: stays_def)
qed

lemma stays_if: "stays a f \<Longrightarrow> stays a g \<Longrightarrow> stays a (if b then f else g)"
  by simp

lemma stays_drawChar: "stays a (drawChar c color x y)"
proof -
  have "stays a (\<lambda>V. fold (\<lambda>row. fold (\<lambda>col.
          if (ucast (g ! row) :: u32) AND drop_bit col m \<noteq> 0
          then fold (\<lambda>dy. fold (\<lambda>dx.
                 putPixelIfValid color (x + of_nat (col * s + dx)) (y + of_nat (row * s + dy))) [0..<s]) [0..<s]
          else (\<lambda>V. V)) [0..<8]) [0..<16] V)" for g s m
    by (intro stays_fold stays_if stays_pixel stays_id)
  then show ?thesis unfolding stays_def drawChar_def Let_def by (auto split: option.split)
qed

lemma stays_circle: "stays a (drawCircle r c xc yc)"
proof -
  have h: "stays a (drawHLine c x1 x2 y)" for c x1 x2 y
    unfolding drawHLine_def by (auto intro!: stays_fold stays_pixel split: prod.split)
  have o: "stays a (fillCircleOctants c xc yc dx dy)" for c xc yc dx dy
    unfolding fillCircleOctants_def by (intro stays_comp [OF _ h] h)
  have l: "off_screen V a \<Longrightarrow> vmem (circle_loop c xc yc x y p V) a = vmem V a \<and> same_mode V (circle_loop c xc yc x y p V)"
    for x y p V
  proof (induction c xc yc x y p V rule: circle_loop.induct)
    case (1 c xc yc x y p V)
    show ?case
    proof (cases "x <s y")
      case True
      let ?x = "x + 1" and ?y = "if p <s 0 then y else y - 1"
      let ?p = "if p <s 0 then p + (2 * ?x + 1) else p + (2 * ?x + 1 - 2 * ?y)"
      let ?V = "fillCircleOctants c xc yc ?x ?y V"
      note f = o [of c xc yc ?x ?y, unfolded stays_def, rule_format, OF "1.prems"]
      have e: "circle_loop c xc yc x y p V = circle_loop c xc yc ?x ?y ?p ?V"
        using True by (simp add: circle_loop.simps [of c xc yc x y p V] Let_def)
      have "off_screen ?V a" by (rule off_screen_mode [OF conjunct2 [OF f], THEN iffD2, OF "1.prems"])
      from "1.IH" [OF True refl refl refl this] show ?thesis
        unfolding e using f same_mode_trans [OF conjunct2 [OF f]] by simp
    qed (simp add: circle_loop.simps)
  qed
  have "stays a (\<lambda>V. circle_loop c xc yc 0 r (1 - r) (fillCircleOctants c xc yc 0 r V))"
    by (rule stays_comp [OF o]) (use l in \<open>simp add: stays_def\<close>)
  then show ?thesis using stays_pixel [of a c xc yc] by (simp add: stays_def drawCircle_def)
qed

lemma stays_drawString:
  "drawString s c x y V = Some V' \<Longrightarrow> off_screen V a \<Longrightarrow> vmem V' a = vmem V a \<and> same_mode V V'"
proof (induction s arbitrary: x y V)
  case (Cons k ks)
  show ?case
  proof (cases "V' = V")
    case False
    then obtain w x1 y1 where d: "drawString ks c w y1 (drawChar k c x1 y1 V) = Some V'"
      using Cons.prems(1) by (auto simp: Let_def split: if_splits)
    note k = stays_drawChar [of a k c x1 y1, unfolded stays_def, rule_format, OF Cons.prems(2)]
    have "off_screen (drawChar k c x1 y1 V) a" using k Cons.prems(2) off_screen_mode by blast
    from Cons.IH [OF d this] k same_mode_trans show ?thesis by auto
  qed simp
qed simp

section \<open>Properties\<close>

definition demo_screen :: screen where
  "demo_screen = \<lparr>vbe_pitch = 3072, vbe_width = 1024, vbe_height = 768, vbe_bpp = 24,
                  vbe_framebuffer = 0xFD000000, currentFont = 1, vmem = (\<lambda>_. 7)\<rparr>"

lemma demo_screen_ok: "video_ok demo_screen" "W demo_screen = 1024" "H demo_screen = 768"
  by (simp_all add: demo_screen_def video_ok_def)

text \<open>Rectangles. A rectangle that fits on the screen colours exactly its own pixels and leaves every
  other pixel as it was; clearing the screen makes every pixel black.\<close>

theorem rectangle_exact:
  assumes "video_ok V" and "x + w \<le> W V" and "y + h \<le> H V" and "x' < W V" and "y' < H V"
  shows "pixel (drawRectangle (of_nat w) (of_nat h) c (of_nat x) (of_nat y) V) x' y' =
           (if x \<le> x' \<and> x' < x + w \<and> y \<le> y' \<and> y' < y + h then rgb c else pixel V x' y') \<and>
         pixel (clearScreen V) x' y' = [0, 0, 0]"
proof -
  have b: "\<forall>(a, b)\<in>set (box x y w h). a < W V \<and> b < H V"
    "\<forall>(a, b)\<in>set (box 0 0 (W V) (H V)). a < W V \<and> b < H V" using assms by auto
  have "clearScreen V = paint 0 (box 0 0 (W V) (H V)) V"
    using drawRectangle_paint [of 0 "W V" V 0 "H V" 0] by (simp add: clearScreen_def getScreenWidth_def getScreenHeight_def)
  then show ?thesis
    unfolding drawRectangle_paint [OF assms(2,3)]
    using pixel_paint [OF assms(1) b(1) assms(4,5), of c] pixel_paint [OF assms(1) b(2) assms(4,5), of 0] assms(4,5)
    by (auto simp: rgb_def)
qed

theorem rectangle_exact_witness:
  "pixel (drawRectangle (of_nat 10) (of_nat 5) 0xFF8000 (of_nat 1014) (of_nat 763) demo_screen) 1023 767 = [0, 0x80, 0xFF]"
proof -
  from rectangle_exact [of demo_screen 1014 10 763 5 1023 767 "0xFF8000"]
  show ?thesis by (simp add: demo_screen_ok rgb_def)
qed

text \<open>C22: characters. A character that fits is drawn exactly as its bitmap, enlarged by the size of the font:
  the inked points get the colour and every other pixel of the screen keeps its own.\<close>

theorem character_exact:
  assumes "video_ok V" and "getCharBitMap (currentFont V) c = Some g"
    and "x + glyph_width g \<le> W V" and "y + glyph_height g \<le> H V" and "x' < W V" and "y' < H V"
  defines "s \<equiv> currentFont V + 1"
  shows "pixel (drawChar c color (of_nat x) (of_nat y) V) x' y' =
           (if x \<le> x' \<and> x' < x + 8 * s \<and> y \<le> y' \<and> y' < y + 16 * s \<and>
               bit (glyph g ! ((y' - y) div s)) (7 - (x' - x) div s)
            then rgb color else pixel V x' y')"
proof -
  have f: "currentFont V < FONTS" using assms(1) by (simp add: video_ok_def)
  have s: "0 < s" "x + 8 * s \<le> W V" "y + 16 * s \<le> H V"
    using assms(3,4) glyph_scale [OF assms(2) f] by (simp_all add: s_def)
  note b = glyph_in_box [OF s(2,3,1), of "glyph g"]
  have m: "(x', y') \<in> set (glyph_points (glyph g) s x y) \<longleftrightarrow>
      x \<le> x' \<and> y \<le> y' \<and> (x + (x' - x), y + (y' - y)) \<in> set (glyph_points (glyph g) s x y)"
    by (cases "x \<le> x' \<and> y \<le> y'") (auto simp: set_glyph_points [of "(x', y')"])
  show ?thesis
    unfolding drawChar_paint [OF assms(1-4)] s_def [symmetric] pixel_paint [OF assms(1) b assms(5,6)] m
      in_glyph_points [OF s(1)] ink_def by auto
qed

theorem character_exact_witness:
  "pixel (drawChar (CHR ''!'') 0xFFFFFF (of_nat 100) (of_nat 200) demo_screen) 106 204 = [0xFF, 0xFF, 0xFF] \<and>
   pixel (drawChar (CHR ''!'') 0xFFFFFF (of_nat 100) (of_nat 200) demo_screen) 104 204 = [7, 7, 7]"
proof -
  obtain g where g: "getCharBitMap (currentFont demo_screen) (CHR ''!'') = Some g" "glyph g ! 2 = 0x18"
    "glyph_width g = 16" "glyph_height g = 32"
    by (simp add: getCharBitMap_def demo_screen_def font_widths_def font_heights_def font_small_def font_small_1_def)
  have p: "pixel demo_screen a b = [7, 7, 7]" for a b by (simp add: pixel_def demo_screen_def upt_rec)
  have cf: "currentFont demo_screen + 1 = 2" by (simp add: demo_screen_def)
  show ?thesis
    using character_exact [OF demo_screen_ok(1) g(1), of 100 200 106 204 "0xFFFFFF", unfolded cf]
      character_exact [OF demo_screen_ok(1) g(1), of 100 200 104 204 "0xFFFFFF", unfolded cf]
    by (simp add: g(2-4) demo_screen_ok p rgb_def bit_numeral_rec)
qed

text \<open>C23: nothing is written outside the screen. Characters, strings and circles, wherever and however large
  they are asked for, change no byte of memory that is not part of a visible pixel.\<close>

theorem drawing_stays_on_screen:
  assumes "off_screen V a"
  shows "vmem (drawChar c color x y V) a = vmem V a \<and> vmem (drawCircle r color x y V) a = vmem V a \<and>
         (\<forall>V'. drawString s color x y V = Some V' \<longrightarrow> vmem V' a = vmem V a)"
  using stays_drawChar [of a c color x y] stays_circle [of a r color x y] assms stays_drawString
  unfolding stays_def by blast

theorem drawing_stays_on_screen_witness:
  "vmem (drawCircle 5000 0xFF0000 3 (- 7) demo_screen) 0x600000 = 7"
proof -
  have "off_screen demo_screen 0x600000"
  proof (unfold off_screen_def, intro allI impI)
    fix x y i assume xy: "x < W demo_screen" "y < H demo_screen" "i < (3 :: nat)"
    have fb: "unat (vbe_framebuffer demo_screen) = 0xFD000000" "unat (vbe_pitch demo_screen) = 3072"
      by (simp_all add: demo_screen_def)
    have "pixel_address demo_screen (of_nat x) (of_nat y) + of_nat i = of_nat (0xFD000000 + (x * 3 + y * 3072) + i)"
      using pixel_address_nat [of demo_screen x y] unfolding fb by (simp add: demo_screen_def)
    moreover have "(0x600000 :: u64) = of_nat 0x600000" by simp
    moreover have "0xFD000000 + (x * 3 + y * 3072) + i < 2 ^ 64" using xy by (simp add: demo_screen_ok)
    then have "(of_nat (0xFD000000 + (x * 3 + y * 3072) + i) :: u64) \<noteq> of_nat 0x600000"
      using of_nat_inj64 [of "0xFD000000 + (x * 3 + y * 3072) + i" "0x600000"] by simp
    ultimately show "0x600000 \<noteq> pixel_address demo_screen (of_nat x) (of_nat y) + of_nat i" by simp
  qed
  from drawing_stays_on_screen [OF this, of "CHR ''a''" "0xFF0000" 3 "- 7" 5000 "[]"]
  show ?thesis by (simp add: demo_screen_def)
qed

text \<open>The edge of the screen. \<open>isValidScreenCoordinate\<close> accepts the column just right of the last one, so a
  one-pixel rectangle asked for there is not refused: without padding between the lines it colours the first
  pixel of the next line.\<close>

theorem rectangle_past_the_edge:
  assumes "unat (vbe_pitch V) = 3 * W V" and "vbe_bpp V = 24" and "W V < 2 ^ 16 - 1" and "y < H V"
  shows "isValidScreenPrint (vbe_width V) (of_nat y) 1 1 V \<and>
         drawRectangle 1 1 c (of_nat (W V)) (of_nat y) V = putPixel c 0 (of_nat (y + 1)) V"
proof -
  have hb: "H V < 2 ^ 16" using unsigned_less [of "vbe_height V", where 'a = nat] by simp
  have y16: "unat (of_nat y :: u16) = y" using assms(4) hb by (intro unat_of_nat_small) simp
  then have yv: "(of_nat y :: u16) \<le> vbe_height V" using assms(4) by (simp add: word_le_nat_alt)
  then have v: "isValidScreenPrint (vbe_width V) (of_nat y) 1 1 V"
    by (simp add: isValidScreenPrint_def isValidScreenCoordinate_def getScreenWidth_def getScreenHeight_def)
  have u: "(ucast (of_nat (W V) :: u64) :: u16) = vbe_width V" "(ucast (of_nat y :: u64) :: u16) = of_nat y"
    using ucast_small [of "W V"] ucast_small [of y] assms hb by simp_all
  have r: "range64 (of_nat n) (of_nat n + 1) = [of_nat n]" if "n < 2 ^ 16" for n
    using range64_nat [of n 1] that by simp
  have "pixel_address V (of_nat (W V)) (of_nat y) = pixel_address V (of_nat 0) (of_nat (y + 1))"
    unfolding pixel_address_nat [OF assms(2)] assms(1) by (simp add: algebra_simps)
  then have "pixel_address V (of_nat (W V)) (of_nat y) = pixel_address V 0 (of_nat (y + 1))" by (simp only: semiring_1_class.of_nat_0)
  then have p: "putPixel c (of_nat (W V)) (of_nat y) V = putPixel c 0 (of_nat (y + 1)) V"
    by (simp only: putPixel_def)
  have "range64 (of_nat (W V)) (of_nat (W V) + 1) = [of_nat (W V)]" "range64 (of_nat y) (of_nat y + 1) = [of_nat y]"
    by (rule r, use assms hb in simp)+
  then have "drawRectangle 1 1 c (of_nat (W V)) (of_nat y) V = putPixel c (of_nat (W V)) (of_nat y) V"
    unfolding drawRectangle_def u using v by simp
  with v p show ?thesis by simp
qed

theorem rectangle_past_the_edge_witness:
  "drawRectangle 1 1 0xFF (of_nat (W demo_screen)) (of_nat 10) demo_screen = putPixel 0xFF 0 (of_nat (10 + 1)) demo_screen"
  using rectangle_past_the_edge [of demo_screen 10 "0xFF"] by (simp add: demo_screen_ok) (simp add: demo_screen_def)

end
