(* ===== verification/Terminal.thy ===== *)
theory Terminal
  imports Devices Video
begin

text \<open>
  The terminal of \<open>Kernel/syscall/syscalls.c\<close>: the cursor and the part of \<open>sys_write\<close> that writes on the
  screen; and \<open>Kernel/interrupt/exceptions.c\<close>, which prints the registers there. The text lies in the same
  raw memory as the frame buffer.
\<close>

section \<open>The cursor\<close>

record terminal =
  x_coord :: u16
  y_coord :: u16
  scr :: screen

abbreviation tmem :: "terminal \<Rightarrow> memory" where "tmem T \<equiv> screen.vmem (scr T)"

abbreviation BLANCO :: u32 where "BLANCO \<equiv> 0xFFFFFF"
abbreviation NEGRO :: u32 where "NEGRO \<equiv> 0"
abbreviation TAB_SPACES :: nat where "TAB_SPACES \<equiv> 4"

definition resetCursorCoord :: "terminal \<Rightarrow> terminal" where
  "resetCursorCoord T = T\<lparr>x_coord := 0, y_coord := 0\<rparr>"

definition isSpecialChar :: "char \<Rightarrow> bool" where
  "isSpecialChar c \<longleftrightarrow> c = CHR 0x0A \<or> c = CHR 0x0D \<or> c = CHR 0x09 \<or> c = CHR 0x08"

section \<open>Writing\<close>

text \<open>
  One iteration of the loop of \<open>sys_write\<close>, for a font of the given size. The coordinates are 16 bits wide
  and wrap; the tabulator takes a remainder by the width of the screen, which faults when that is zero.
\<close>

definition put_special :: "nat \<Rightarrow> nat \<Rightarrow> char \<Rightarrow> terminal \<Rightarrow> terminal option" where
  "put_special width height c T =
     (let dx = of_nat (width + FONT_CHAR_GAP); dy = of_nat (height + FONT_CHAR_GAP); sw = getScreenWidth (scr T)
      in if c = CHR 0x0A then Some (T\<lparr>y_coord := y_coord T + dy, x_coord := 0\<rparr>)
         else if c = CHR 0x0D then Some (T\<lparr>x_coord := 0\<rparr>)
         else if c = CHR 0x09
         then let x = x_coord T + of_nat TAB_SPACES * dx
              in if x \<ge> sw
                 then if sw = 0 then None else Some (T\<lparr>x_coord := x mod sw, y_coord := y_coord T + dy\<rparr>)
                 else Some (T\<lparr>x_coord := x\<rparr>)
         else let T = (if unat (x_coord T) > width + FONT_CHAR_GAP then T\<lparr>x_coord := x_coord T - dx\<rparr>
                       else if y_coord T > 0
                       then T\<lparr>y_coord := y_coord T - dy, x_coord := sw - of_nat TAB_SPACES * dx + x_coord T\<rparr>
                       else T\<lparr>x_coord := 0\<rparr>)
              in Some (T\<lparr>scr := drawRectangle (of_nat width) (of_nat height) NEGRO
                                  (ucast (x_coord T)) (ucast (y_coord T)) (scr T)\<rparr>))"

definition put_char :: "nat \<Rightarrow> nat \<Rightarrow> char \<Rightarrow> terminal \<Rightarrow> terminal option" where
  "put_char width height c T =
     (if isSpecialChar c then put_special width height c T
      else if isValidScreenPrint (x_coord T) (y_coord T) (of_nat width) (of_nat height) (scr T)
      then Some (T\<lparr>scr := drawChar c BLANCO (ucast (x_coord T)) (ucast (y_coord T)) (scr T),
                   x_coord := x_coord T + of_nat (width + FONT_CHAR_GAP)\<rparr>)
      else Some (T\<lparr>x_coord := 0, y_coord := y_coord T + of_nat (height + FONT_CHAR_GAP)\<rparr>))"

fun write_loop :: "nat \<Rightarrow> nat \<Rightarrow> ptr \<Rightarrow> nat \<Rightarrow> nat \<Rightarrow> terminal \<Rightarrow> terminal option" where
  "write_loop width height str i 0 T = Some T"
| "write_loop width height str i (Suc n) T =
     do { T \<leftarrow> put_char width height (byte_char (tmem T (str + of_nat i))) T;
          write_loop width height str (Suc i) n T }"

definition terminal_write :: "ptr \<Rightarrow> u64 \<Rightarrow> terminal \<Rightarrow> terminal option" where
  "terminal_write str n T =
     (let f = currentFont (scr T) in write_loop (getCurrentFontWidth f) (getCurrentFontHeight f) str 0 (unat n) T)"

section \<open>Exceptions\<close>

abbreviation RED :: u32 where "RED \<equiv> 0xFF0000"

definition regs_strings :: "string list" where
  "regs_strings = [''R15'', ''R14'', ''R13'', ''R12'', ''R11'', ''R10'', ''R9 '', ''R8 '', ''RSI'', ''RDI'',
                   ''RBP'', ''RDX'', ''RCX'', ''RBX'', ''RAX'', ''RIP'', ''CS '', ''FLG'', ''RSP'', ''SS '']"

definition exception_messages :: "string list" where
  "exception_messages = [''Exception: Division by Zero'', ''Exception: Invalid Opcode'']"

text \<open>The structure of the saved registers read as an array.\<close>

definition regs_array :: "Registers_t \<Rightarrow> u64 list" where
  "regs_array r = [r15 r, r14 r, r13 r, r12 r, r11 r, r10 r, r9 r, r8 r, rsi r, rdi r,
                   rbp r, rdx r, rcx r, rbx r, rax r, rip r, r_cs r, rflags r, rsp r, r_ss r]"

fun print_rows :: "(string \<times> u64) list \<Rightarrow> u32 \<Rightarrow> screen \<Rightarrow> screen option" where
  "print_rows [] linesPrinted V = Some V"
| "print_rows ((name, v) # rows) linesPrinted V =
     do {
       let currentY = ucast (of_nat (getCurrentFontHeight (currentFont V) + FONT_CHAR_GAP) * linesPrinted);
       V \<leftarrow> drawString (name @ [nul]) RED 0 currentY V;
       V \<leftarrow> drawHexa v RED (of_nat (10 * (getCurrentFontWidth (currentFont V) + FONT_CHAR_GAP))) currentY V;
       print_rows rows (linesPrinted + 1) V
     }"

definition printRegisters :: "Registers_t \<Rightarrow> screen \<Rightarrow> screen option" where
  "printRegisters regs V = print_rows (zip regs_strings (regs_array regs)) 2 V"

definition exceptionDispatcher :: "Registers_t \<Rightarrow> int \<Rightarrow> terminal \<Rightarrow> io \<Rightarrow> (terminal \<times> io) option" where
  "exceptionDispatcher regs exception T s =
     do {
       let V = clearScreen (scr T);
       V \<leftarrow> (if exception = 0 then drawString (exception_messages ! 0 @ [nul]) RED 0 0 V
             else if exception = 6 then drawString (exception_messages ! 1 @ [nul]) RED 0 0 V
             else Some V);
       V \<leftarrow> printRegisters regs V;
       let s = sleep_io 10000 s;
       let T = resetCursorCoord (T\<lparr>scr := V\<rparr>);
       Some (T\<lparr>scr := clearScreen (scr T)\<rparr>, s)
     }"

section \<open>Properties\<close>

definition plain :: "char \<Rightarrow> bool" where
  "plain c \<longleftrightarrow> c \<noteq> nul \<and> \<not> isSpecialChar c"

text \<open>A text in memory that drawing on the screen does not disturb.\<close>

definition text_at :: "screen \<Rightarrow> ptr \<Rightarrow> nat \<Rightarrow> string \<Rightarrow> bool" where
  "text_at V str i cs \<longleftrightarrow>
     (\<forall>j<length cs. off_screen V (str + of_nat (i + j)) \<and> byte_char (screen.vmem V (str + of_nat (i + j))) = cs ! j)"

lemma text_at_Cons:
  "text_at V str i (c # cs) \<longleftrightarrow>
     off_screen V (str + of_nat i) \<and> byte_char (screen.vmem V (str + of_nat i)) = c \<and> text_at V str (Suc i) cs"
proof -
  have "(\<forall>j<Suc n. P j) \<longleftrightarrow> P 0 \<and> (\<forall>j<n. P (Suc j))" for n and P :: "nat \<Rightarrow> bool"
    using All_less_Suc2 [of n P] by simp
  then show ?thesis by (simp add: text_at_def add.left_commute)
qed

lemma text_at_drawChar: "text_at V str i cs \<Longrightarrow> text_at (drawChar c k x y V) str i cs"
  unfolding text_at_def
proof (intro allI impI)
  fix j assume t: "\<forall>j<length cs. off_screen V (str + of_nat (i + j)) \<and> byte_char (screen.vmem V (str + of_nat (i + j))) = cs ! j"
    and j: "j < length cs"
  let ?a = "str + of_nat (i + j)"
  have o: "off_screen V ?a" "byte_char (screen.vmem V ?a) = cs ! j" using t j by blast+
  from stays_drawChar [of ?a c k x y] o(1)
  have "screen.vmem (drawChar c k x y V) ?a = screen.vmem V ?a" "same_mode V (drawChar c k x y V)"
    unfolding stays_def by blast+
  with o show "off_screen (drawChar c k x y V) ?a \<and> byte_char (screen.vmem (drawChar c k x y V) ?a) = cs ! j"
    using off_screen_mode [of V "drawChar c k x y V" ?a] by simp
qed

lemma font_positive:
  assumes "video_ok V"
  shows "0 < getCurrentFontWidth (currentFont V)" and "0 < getCurrentFontHeight (currentFont V)"
proof -
  consider "currentFont V = 0" | "currentFont V = 1" | "currentFont V = 2"
    using assms unfolding video_ok_def by linarith
  then have "0 < getCurrentFontWidth (currentFont V) \<and> 0 < getCurrentFontHeight (currentFont V)"
    by cases (simp_all add: getCurrentFontWidth_def getCurrentFontHeight_def font_widths_def font_heights_def)
  then show "0 < getCurrentFontWidth (currentFont V)" "0 < getCurrentFontHeight (currentFont V)" by blast+
qed

lemma video_ok_mode: "same_mode V V' \<Longrightarrow> video_ok V' = video_ok V"
  by (simp add: video_ok_def same_modeD)

lemma drawChar_mode: "same_mode V (drawChar c k x y V)"
proof -
  have "same_mode V (fold f ps V)" if "\<And>p V. same_mode V (f p V)" for f and ps :: "nat list" and V
    using that by (rule fold_mode)
  then show ?thesis unfolding drawChar_def Let_def by (auto split: option.split intro!: fold_mode)
qed

lemma write_loop_fits:
  assumes "video_ok V" and "list_all plain cs" and "text_at V str i cs"
    and w: "w = getCurrentFontWidth (currentFont V)" and h: "h = getCurrentFontHeight (currentFont V)"
    and "X + length cs * (w + 2) \<le> W V + 2" and "Y + h \<le> H V"
  shows "\<exists>V'. drawString (cs @ [nul]) BLANCO (of_nat X) (of_nat Y) V = Some V' \<and>
           write_loop w h str i (length cs) \<lparr>x_coord = of_nat X, y_coord = of_nat Y, scr = V\<rparr> =
             Some \<lparr>x_coord = of_nat (X + length cs * (w + 2)), y_coord = of_nat Y, scr = V'\<rparr>"
  using assms
proof (induction cs arbitrary: i X V)
  case (Cons c cs)
  note pos = font_positive [OF Cons.prems(1), folded Cons.prems(4,5)]
  have b: "W V < 2 ^ 16" "H V < 2 ^ 16"
    using unsigned_less [of "vbe_width V", where 'a = nat] unsigned_less [of "vbe_height V", where 'a = nat] by simp_all
  have X: "X + w \<le> W V" using Cons.prems(6) by simp
  have fits: "isValidScreenPrint (of_nat X) (of_nat Y) (of_nat w) (of_nat h) V"
    by (rule valid_box) (use X Cons.prems(7) pos in simp_all)
  have u: "(ucast (of_nat X :: u64) :: u16) = of_nat X" "(ucast (of_nat Y :: u64) :: u16) = of_nat Y"
    by (rule ucast_small, use X Cons.prems(7) b in simp)+
  have up: "(ucast (of_nat X :: u16) :: u64) = of_nat X" "(ucast (of_nat Y :: u16) :: u64) = of_nat Y"
    using X Cons.prems(7) b by (simp_all add: unsigned_of_nat take_bit_nat_eq_self)
  let ?V = "drawChar c BLANCO (of_nat X) (of_nat Y) V"
  note m = drawChar_mode [of V c BLANCO "of_nat X" "of_nat Y"]
  have t: "text_at ?V str (Suc i) cs" "byte_char (screen.vmem V (str + of_nat i)) = c"
    using Cons.prems(3) text_at_drawChar by (auto simp: text_at_Cons)
  have "X + (w + 2) + length cs * (w + 2) \<le> W ?V + 2" using Cons.prems(6) by (simp add: same_modeD [OF m])
  from Cons.IH [OF _ _ t(1) _ _ this] Cons.prems m obtain V' where V':
    "drawString (cs @ [nul]) BLANCO (of_nat (X + (w + 2))) (of_nat Y) ?V = Some V'"
    "write_loop w h str (Suc i) (length cs) \<lparr>x_coord = of_nat (X + (w + 2)), y_coord = of_nat Y, scr = ?V\<rparr> =
       Some \<lparr>x_coord = of_nat (X + (w + 2) + length cs * (w + 2)), y_coord = of_nat Y, scr = V'\<rparr>"
    by (auto simp: same_modeD [OF m] video_ok_mode [OF m])
  have c: "c \<noteq> nul" "\<not> isSpecialChar c" using Cons.prems(2) by (simp_all add: plain_def)
  have "drawString ((c # cs) @ [nul]) BLANCO (of_nat X) (of_nat Y) V = Some V'"
    using V'(1) c(1) fits by (simp add: u Let_def Cons.prems(4,5) [symmetric] ac_simps)
  moreover have "write_loop w h str i (length (c # cs)) \<lparr>x_coord = of_nat X, y_coord = of_nat Y, scr = V\<rparr> =
      Some \<lparr>x_coord = of_nat (X + (w + 2) + length cs * (w + 2)), y_coord = of_nat Y, scr = V'\<rparr>"
    using V'(2) c(2) fits t(2) by (simp add: put_char_def up ac_simps)
  ultimately show ?case by (simp add: algebra_simps)
qed simp

text \<open>C26: printing. Plain text that fits on the rest of the line is written at the cursor exactly as \<open>drawString\<close>
  draws it, and the cursor moves by one cell for each character.\<close>

theorem terminal_prints:
  assumes "video_ok (scr T)" and "list_all plain cs" and "text_at (scr T) str 0 cs" and "length cs < 2 ^ 64"
  defines "w \<equiv> getCurrentFontWidth (currentFont (scr T))" and "h \<equiv> getCurrentFontHeight (currentFont (scr T))"
  assumes "unat (x_coord T) + length cs * (w + 2) \<le> W (scr T) + 2" and "unat (y_coord T) + h \<le> H (scr T)"
  shows "\<exists>V. drawString (cs @ [nul]) BLANCO (ucast (x_coord T)) (ucast (y_coord T)) (scr T) = Some V \<and>
             terminal_write str (of_nat (length cs)) T =
               Some (T\<lparr>x_coord := x_coord T + of_nat (length cs * (w + 2)), scr := V\<rparr>)"
proof -
  from write_loop_fits [OF assms(1-3) refl refl, of "unat (x_coord T)" "unat (y_coord T)"] assms(7,8)
  obtain V where V: "drawString (cs @ [nul]) BLANCO (ucast (x_coord T)) (ucast (y_coord T)) (scr T) = Some V"
    "write_loop w h str 0 (length cs) \<lparr>x_coord = x_coord T, y_coord = y_coord T, scr = scr T\<rparr> =
       Some \<lparr>x_coord = x_coord T + of_nat (length cs * (w + 2)), y_coord = y_coord T, scr = V\<rparr>"
    by (auto simp: w_def h_def)
  have "unat (of_nat (length cs) :: u64) = length cs" using assms(4) by (simp add: unat_of_nat_small)
  moreover have T: "\<lparr>x_coord = x_coord T, y_coord = y_coord T, scr = scr T\<rparr> = T" by (cases T) simp
  ultimately have "terminal_write str (of_nat (length cs)) T =
      Some \<lparr>x_coord = x_coord T + of_nat (length cs * (w + 2)), y_coord = y_coord T, scr = V\<rparr>"
    using V(2) [unfolded T] by (simp add: terminal_write_def Let_def w_def h_def)
  with V(1) show ?thesis by (cases T) simp
qed

lemma off_screen_below:
  assumes "vbe_bpp V = 24" and "unat a < unat (vbe_framebuffer V)"
  shows "off_screen V a"
proof (unfold off_screen_def, intro allI impI)
  fix x y i assume xy: "x < W V" "y < H V" "i < (3 :: nat)"
  let ?F = "unat (vbe_framebuffer V)" and ?P = "unat (vbe_pitch V)"
  have b: "?F < 2 ^ 32" "?P < 2 ^ 16" "W V < 2 ^ 16" "H V < 2 ^ 16"
    using unsigned_less [of "vbe_framebuffer V", where 'a = nat] unsigned_less [of "vbe_pitch V", where 'a = nat]
      unsigned_less [of "vbe_width V", where 'a = nat] unsigned_less [of "vbe_height V", where 'a = nat] by simp_all
  have "y * ?P \<le> 2 ^ 16 * 2 ^ 16" using xy b by (intro mult_le_mono) simp_all
  then have l: "?F + (x * 3 + y * ?P) + i < 2 ^ 64" using xy b by simp
  have "pixel_address V (of_nat x) (of_nat y) + of_nat i = of_nat (?F + (x * 3 + y * ?P) + i)"
    by (simp only: pixel_address_nat [OF assms(1)] of_nat_add)
  then have "unat (pixel_address V (of_nat x) (of_nat y) + of_nat i) = ?F + (x * 3 + y * ?P) + i"
    using unat_of_nat_small [of "?F + (x * 3 + y * ?P) + i", where 'a = 64] l by simp
  with assms(2) show "a \<noteq> pixel_address V (of_nat x) (of_nat y) + of_nat i" by auto
qed

definition demo_terminal :: terminal where
  "demo_terminal = \<lparr>x_coord = 90, y_coord = 34, scr = demo_screen\<lparr>screen.vmem := (\<lambda>_. 65)\<rparr>\<rparr>"

theorem terminal_prints_witness:
  "\<exists>V. drawString (''AAAA'' @ [nul]) BLANCO 90 34 (scr demo_terminal) = Some V \<and>
       terminal_write 0x600000 4 demo_terminal = Some (demo_terminal\<lparr>x_coord := 162, scr := V\<rparr>)"
proof -
  have f: "getCurrentFontWidth (currentFont (scr demo_terminal)) = 16"
    "getCurrentFontHeight (currentFont (scr demo_terminal)) = 32"
    by (simp_all add: demo_terminal_def demo_screen_def getCurrentFontWidth_def getCurrentFontHeight_def
        font_widths_def font_heights_def)
  have v: "video_ok (scr demo_terminal)" "W (scr demo_terminal) = 1024" "H (scr demo_terminal) = 768"
    by (simp_all add: demo_terminal_def demo_screen_def video_ok_def)
  have p: "list_all plain ''AAAA''" by (simp add: plain_def isSpecialChar_def)
  have c: "byte_char 65 = CHR ''A''" by (simp add: byte_char_def char_of_def bit_Suc_0_iff)
  have o: "off_screen (scr demo_terminal) (0x600000 + of_nat j)" if "j < 4" for j
  proof (rule off_screen_below)
    have e: "(0x600000 :: u64) + of_nat j = of_nat (0x600000 + j)" by simp
    have "unat ((0x600000 :: u64) + of_nat j) = 0x600000 + j"
      unfolding e by (rule unat_of_nat_small) (use that in simp)
    then show "unat ((0x600000 :: u64) + of_nat j) < unat (vbe_framebuffer (scr demo_terminal))"
      using that by (simp add: demo_terminal_def demo_screen_def)
  qed (simp add: demo_terminal_def demo_screen_def)
  have m: "byte_char (tmem demo_terminal a) = CHR ''A''" for a by (simp add: demo_terminal_def c)
  have "text_at (scr demo_terminal) 0x600000 0 ''AAAA''"
    unfolding text_at_def using o by (auto simp: m nth_Cons' less_Suc_eq_le)
  from terminal_prints [OF v(1) p this, unfolded f v] show ?thesis
    by (simp add: demo_terminal_def)
qed

text \<open>A character for which there is no room on the line is not printed: the cursor goes to the next line as for
  a line feed, and the loop goes on with the character after it.\<close>

lemma wrapped_character_lost:
  assumes "\<not> isSpecialChar c" and "\<not> isValidScreenPrint (x_coord T) (y_coord T) (of_nat w) (of_nat h) (scr T)"
  shows "put_char w h c T = put_char w h (CHR 0x0A) T"
  using assms by (simp add: put_char_def put_special_def isSpecialChar_def Let_def)

text \<open>A backspace after a character takes the cursor back, unless the character was the first of its line:
  there the comparison is strict, and the cursor goes to the line above.\<close>

lemma backspace_undoes:
  assumes "plain c" and "isValidScreenPrint (x_coord T) (y_coord T) (of_nat w) (of_nat h) (scr T)"
    and "0 < unat (x_coord T)" and "unat (x_coord T) + (w + 2) < 2 ^ 16"
  shows "\<exists>V. do { T \<leftarrow> put_char w h c T; put_char w h (CHR 0x08) T } = Some (T\<lparr>scr := V\<rparr>)"
proof -
  have e: "x_coord T + of_nat (w + 2) = of_nat (unat (x_coord T) + (w + 2))" by simp
  have "unat (x_coord T + of_nat (w + 2)) = unat (x_coord T) + (w + 2)"
    unfolding e by (rule unat_of_nat_small) (use assms(4) in simp)
  then have "w + 2 < unat (x_coord T + of_nat (w + 2))" using assms(3) by simp
  then show ?thesis using assms(1,2) by (cases T) (simp add: put_char_def put_special_def plain_def isSpecialChar_def Let_def)
qed

lemma backspace_goes_up:
  assumes "unat (x_coord T) = w + 2" and "0 < y_coord T"
  shows "\<exists>V. put_char w h (CHR 0x08) T =
           Some (T\<lparr>x_coord := getScreenWidth (scr T) - of_nat TAB_SPACES * of_nat (w + 2) + x_coord T, y_coord := y_coord T - of_nat (h + 2), scr := V\<rparr>)"
  using assms by (cases T) (simp add: put_char_def put_special_def isSpecialChar_def Let_def)

text \<open>After an exception the terminal is cleared and the cursor is in the corner.\<close>

lemma exception_clears:
  assumes "exceptionDispatcher regs e T s = Some (T', s')"
  shows "x_coord T' = 0 \<and> y_coord T' = 0 \<and> (\<exists>V. scr T' = clearScreen V) \<and> out_log s' = Sleep 10000 # out_log s"
  using assms by (auto simp: exceptionDispatcher_def Let_def resetCursorCoord_def sleep_io_def bind_eq_Some_conv)

end
