(* ===== verification/ProcInfo.thy ===== *)
theory ProcInfo
  imports Keyboard
begin

text \<open>
  The process listing of \<open>Kernel/sched/scheduler.c\<close>: \<open>getProcessInfo\<close> and \<open>getAllProcessesInfo\<close>, which
  print the control blocks as lines of comma separated values into a buffer of the caller. Names of
  processes are strings somewhere in memory, given by \<open>names\<close>.
\<close>

section \<open>Lines\<close>

definition getProcessStateString :: "ProcessState \<Rightarrow> string" where
  "getProcessStateString s =
     (case s of READY \<Rightarrow> ''READY'' | RUNNING \<Rightarrow> ''RUNNING'' | BLOCKED \<Rightarrow> ''BLOCKED'' | ZOMBIE \<Rightarrow> ''ZOMBIE'')"

definition display_name :: "(ptr \<Rightarrow> string) \<Rightarrow> ProcessCDT \<Rightarrow> string" where
  "display_name names p = (if nombre p \<noteq> NULL then names (nombre p) else ''(unnamed)'')"

abbreviation csv_format :: string where "csv_format \<equiv> ''%lu,%s,%u,%s,%s,0x%lx,0x%lx''"

definition csv_args :: "(ptr \<Rightarrow> string) \<Rightarrow> ProcessCDT \<Rightarrow> arg list" where
  "csv_args names p =
     [ALong (pid p), AStr (Some (display_name names p)), AInt (ucast (priority p)),
      AStr (Some (getProcessStateString (state p))), AStr (Some (if foreground p then ''Yes'' else ''No'')),
      ALong (stack p), ALong (basePointer p)]"

text \<open>Writing at a place of a buffer, with the terminator; past its end is a fault.\<close>

definition write_at :: "nat \<Rightarrow> string \<Rightarrow> char list \<Rightarrow> char list option" where
  "write_at pos s buf =
     (if pos + length s < length buf then Some (take pos buf @ s @ nul # drop (Suc (pos + length s)) buf) else None)"

definition ksprintf_at :: "nat \<Rightarrow> char list \<Rightarrow> string \<Rightarrow> arg list \<Rightarrow> (int \<times> char list) option" where
  "ksprintf_at pos buf format args =
     do { (s, n) \<leftarrow> ksprintf format args; buf \<leftarrow> write_at pos s buf; Some (sint n, buf) }"

section \<open>Operations\<close>

text \<open>The buffer is \<open>None\<close> when the caller passes the null pointer.\<close>

definition getProcessInfo ::
  "(ptr \<Rightarrow> string) \<Rightarrow> u64 \<Rightarrow> char list option \<Rightarrow> u64 \<Rightarrow> kernel \<Rightarrow> (int \<times> char list option) option" where
  "getProcessInfo names i buffer bufferSize k =
     (case buffer of
        None \<Rightarrow> Some (-1, None)
      | Some buf \<Rightarrow>
          if bufferSize = 0 then Some (-1, Some buf)
          else let p = getProcessByPid i k
               in if p = NULL then Some (-1, Some buf)
                  else do {
                    pr \<leftarrow> pcb k p;
                    (written, buf) \<leftarrow> ksprintf_at 0 buf csv_format (csv_args names pr);
                    Some (written, Some buf)
                  })"

definition csv_header :: string where
  "csv_header = ''PID,Name,Priority,State,Foreground,Stack,BasePointer'' @ [CHR 0x0A]"

text \<open>The loop over the identifiers still to visit; \<open>pos\<close> is where the next line starts.\<close>

fun list_processes ::
  "(ptr \<Rightarrow> string) \<Rightarrow> kernel \<Rightarrow> u64 \<Rightarrow> nat list \<Rightarrow> nat \<Rightarrow> u64 \<Rightarrow> char list \<Rightarrow> (nat \<times> u64 \<times> char list) option" where
  "list_processes names k bufferSize [] pos n buf = Some (pos, n, buf)"
| "list_processes names k bufferSize (i # is) pos n buf =
     (let p = getProcessByPid (of_nat i) k
      in if p = NULL then list_processes names k bufferSize is pos n buf
         else do {
           pr \<leftarrow> pcb k p;
           (written, buf) \<leftarrow> ksprintf_at pos buf (csv_format @ [CHR 0x0A]) (csv_args names pr);
           if 0 < written \<and> pos + nat written < unat bufferSize
           then list_processes names k bufferSize is (pos + nat written) (n + 1) buf
           else Some (pos, n, buf)
         })"

definition getAllProcessesInfo ::
  "(ptr \<Rightarrow> string) \<Rightarrow> char list option \<Rightarrow> u64 \<Rightarrow> kernel \<Rightarrow> (u64 \<times> char list option) option" where
  "getAllProcessesInfo names buffer bufferSize k =
     (case buffer of
        None \<Rightarrow> Some (0, None)
      | Some buf \<Rightarrow>
          if bufferSize = 0 then Some (0, Some buf)
          else do {
            (written, buf) \<leftarrow> ksprintf_at 0 buf csv_header [];
            let pos = nat written;
            if unat bufferSize \<le> pos
            then do { buf \<leftarrow> aset buf (unat bufferSize - 1) nul; Some (0, Some buf) }
            else do {
              (pos, n, buf) \<leftarrow> list_processes names k bufferSize [0..<unat (lastPid k)] pos 0 buf;
              buf \<leftarrow> aset buf (if pos < unat bufferSize then pos else unat bufferSize - 1) nul;
              Some (n, Some buf)
            }
          })"

section \<open>What is printed\<close>

definition csv_text :: "(ptr \<Rightarrow> string) \<Rightarrow> ProcessCDT \<Rightarrow> string" where
  "csv_text names p =
     render 10 97 (unat (pid p)) @ '','' @ display_name names p @ '','' @ render 10 97 (unat (priority p)) @ '','' @
     getProcessStateString (state p) @ '','' @ (if foreground p then ''Yes'' else ''No'') @ '',0x'' @
     render 16 97 (unat (stack p)) @ '',0x'' @ render 16 97 (unat (basePointer p))"

definition csv_pieces :: "(ptr \<Rightarrow> string) \<Rightarrow> ProcessCDT \<Rightarrow> piece list" where
  "csv_pieces names p =
     [PULong (pid p), PLit (CHR '',''), PStr (Some (display_name names p)), PLit (CHR '',''), PUns (ucast (priority p)),
      PLit (CHR '',''), PStr (Some (getProcessStateString (state p))), PLit (CHR '',''),
      PStr (Some (if foreground p then ''Yes'' else ''No'')), PLit (CHR '',''), PLit (CHR ''0''), PLit (CHR ''x''),
      PHexLong (stack p), PLit (CHR '',''), PLit (CHR ''0''), PLit (CHR ''x''), PHexLong (basePointer p)]"

lemma ksprintf_csv:
  "ksprintf (csv_format @ [CHR 0x0A]) (csv_args names p) =
     Some (csv_text names p @ [CHR 0x0A], of_nat (length (csv_text names p @ [CHR 0x0A])))"
proof -
  have "\<forall>c\<in>set (csv_pieces names p @ [PLit (CHR 0x0A)]). case c of PLit c \<Rightarrow> c \<noteq> CHR ''%'' | _ \<Rightarrow> True"
    by (simp add: csv_pieces_def)
  then show ?thesis
    unfolding ksprintf_def
    using ksprintf_loop_pieces [of "csv_pieces names p @ [PLit (CHR 0x0A)]" "[]"]
    by (simp add: csv_pieces_def csv_args_def csv_text_def unat_up)
qed

lemma ksprintf_header: "ksprintf csv_header [] = Some (csv_header, of_nat (length csv_header))"
  unfolding ksprintf_def csv_header_def
  using ksprintf_loop_pieces [of "map PLit (''PID,Name,Priority,State,Foreground,Stack,BasePointer'' @ [CHR 0x0A])" "[]"]
  by simp

text \<open>The processes in the order of their identifiers.\<close>

definition by_pid :: "kernel \<Rightarrow> nat list \<Rightarrow> ptr list" where
  "by_pid k is = filter (\<lambda>p. p \<noteq> NULL) (map (\<lambda>i. getProcessByPid (of_nat i) k) is)"

definition csv_lines :: "(ptr \<Rightarrow> string) \<Rightarrow> kernel \<Rightarrow> ptr list \<Rightarrow> string" where
  "csv_lines names k ps = concat (map (\<lambda>p. csv_text names (pr_of k p) @ [CHR 0x0A]) ps)"

lemma write_at_ok:
  assumes "pos + length s < length buf"
  shows "\<exists>buf'. write_at pos s buf = Some buf' \<and> length buf' = length buf \<and> take (pos + length s) buf' = take pos buf @ s"
  using assms by (simp add: write_at_def)

lemma distinct_singleton_list: "set xs = {a} \<Longrightarrow> distinct xs \<Longrightarrow> xs = [a]"
  by (cases xs; cases "tl xs") auto

lemma list_processes_ok:
  assumes t: "table_ok k" and small: "unat sz < 2 ^ 31"
    and "pos + length (csv_lines names k (by_pid k is)) < unat sz" and "unat sz \<le> length buf"
  shows "\<exists>buf'. list_processes names k sz is pos n buf =
             Some (pos + length (csv_lines names k (by_pid k is)), n + of_nat (length (by_pid k is)), buf') \<and>
           length buf' = length buf \<and>
           take (pos + length (csv_lines names k (by_pid k is))) buf' = take pos buf @ csv_lines names k (by_pid k is)"
  using assms(3,4)
proof (induction "is" arbitrary: pos n buf)
  case Nil
  then show ?case by (simp add: by_pid_def csv_lines_def)
next
  case (Cons i "is")
  let ?p = "getProcessByPid (of_nat i) k"
  show ?case
  proof (cases "?p = NULL")
    case True
    then have "by_pid k (i # is) = by_pid k is" by (simp add: by_pid_def)
    with Cons True show ?thesis by simp
  next
    case False
    then have p: "?p \<in> set (table k)" using getProcessByPid_cases [OF table_okD(6) [OF t], of "of_nat i"] by metis
    then have pc: "pcb k ?p = Some (pr_of k ?p)" using table_okD(3) [OF t p] False by (simp add: pcb_def)
    let ?line = "csv_text names (pr_of k ?p) @ [CHR 0x0A]" and ?L = "csv_lines names k (by_pid k is)"
    have bp: "by_pid k (i # is) = ?p # by_pid k is" using False by (simp add: by_pid_def)
    then have L: "csv_lines names k (by_pid k (i # is)) = ?line @ ?L" by (simp add: csv_lines_def)
    then have tot: "pos + length ?line + length ?L < unat sz" using Cons.prems(1) by simp
    then have "pos + length ?line < length buf" using Cons.prems(2) by simp
    from write_at_ok [OF this] obtain buf1 where
      b1: "write_at pos ?line buf = Some buf1" "length buf1 = length buf" "take (pos + length ?line) buf1 = take pos buf @ ?line"
      by blast
    have "length ?line < 2 ^ 31" using tot small by linarith
    then have si: "sint (of_nat (length ?line) :: u32) = int (length ?line)" by (rule sint_of_nat_small)
    have kp: "ksprintf_at pos buf (csv_format @ [CHR 0x0A]) (csv_args names (pr_of k ?p)) = Some (int (length ?line), buf1)"
      unfolding ksprintf_at_def ksprintf_csv using b1(1) si by simp
    from Cons.IH [of "pos + length ?line" buf1 "n + 1"] tot b1(2) Cons.prems(2) obtain buf' where
      b': "list_processes names k sz is (pos + length ?line) (n + 1) buf1 =
             Some (pos + length ?line + length ?L, n + 1 + of_nat (length (by_pid k is)), buf')"
        "length buf' = length buf1" "take (pos + length ?line + length ?L) buf' = take (pos + length ?line) buf1 @ ?L" by auto
    obtain l where l: "length ?line = l" and "0 < l" by simp
    have "list_processes names k sz (i # is) pos n buf = list_processes names k sz is (pos + l) (n + 1) buf1"
      unfolding list_processes.simps Let_def using False pc kp [unfolded l] tot [unfolded l] \<open>0 < l\<close> by simp
    then have "list_processes names k sz (i # is) pos n buf =
        list_processes names k sz is (pos + length ?line) (n + 1) buf1" by (simp only: l)
    with b' b1 L bp show ?thesis by (simp add: add.assoc)
  qed
qed

lemma by_pid_table:
  assumes t: "table_ok k"
  shows "set (by_pid k [0..<unat (lastPid k)]) = set (table k)" and "distinct (by_pid k [0..<unat (lastPid k)])"
proof -
  have "p \<in> set (by_pid k [0..<unat (lastPid k)])" if p: "p \<in> set (table k)" for p
  proof -
    note pp = table_okD(3) [OF t p]
    have "unat (pid (pr_of k p)) < unat (lastPid k)" using pp by (simp add: word_less_nat_alt)
    moreover have "getProcessByPid (of_nat (unat (pid (pr_of k p)))) k = p"
      using getProcessByPid_eq [OF table_okD(6) [OF t] p] by simp
    ultimately show ?thesis using pp unfolding by_pid_def by force
  qed
  moreover have "p \<in> set (table k)" if "p \<in> set (by_pid k [0..<unat (lastPid k)])" for p
    using that getProcessByPid_cases [OF table_okD(6) [OF t]] unfolding by_pid_def by auto
  ultimately show "set (by_pid k [0..<unat (lastPid k)]) = set (table k)" by blast
  have pidof: "pid (pr_of k (getProcessByPid i k)) = i" if "getProcessByPid i k \<noteq> NULL" for i
    by (rule getProcessByPid_cases [OF table_okD(6) [OF t], of i]) (simp_all add: that)
  have inj: "i = j" if "i < unat (lastPid k)" "j < unat (lastPid k)" "getProcessByPid (of_nat i) k = getProcessByPid (of_nat j) k"
    "getProcessByPid (of_nat i) k \<noteq> NULL" for i j
  proof -
    have "pid (pr_of k (getProcessByPid (of_nat i) k)) = of_nat i" by (rule pidof [OF that(4)])
    moreover have "pid (pr_of k (getProcessByPid (of_nat j) k)) = of_nat j" by (rule pidof [OF that(4) [unfolded that(3)]])
    ultimately have "(of_nat i :: u64) = of_nat j" unfolding that(3) by (rule trans [OF sym])
    moreover have "i < 2 ^ 64" "j < 2 ^ 64" using that(1,2) unsigned_less [of "lastPid k", where 'a = nat] by simp_all
    ultimately show ?thesis by (simp add: word_of_nat_eq_iff take_bit_nat_eq_self)
  qed
  have "distinct (by_pid k is)" if "distinct is" "set is \<subseteq> {..<unat (lastPid k)}" for "is"
    using that
  proof (induction "is")
    case (Cons i "is")
    then have IH: "distinct (by_pid k is)" by simp
    have "getProcessByPid (of_nat i) k \<notin> set (by_pid k is)" if "getProcessByPid (of_nat i) k \<noteq> NULL"
    proof
      assume "getProcessByPid (of_nat i) k \<in> set (by_pid k is)"
      then obtain j where "j \<in> set is" "getProcessByPid (of_nat i) k = getProcessByPid (of_nat j) k"
        by (auto simp: by_pid_def)
      with inj [of i j] that Cons.prems show False by auto
    qed
    with IH show ?case by (simp add: by_pid_def)
  qed (simp add: by_pid_def)
  from this [OF distinct_upt [of 0 "unat (lastPid k)"]]
  show "distinct (by_pid k [0..<unat (lastPid k)])" by (simp add: atLeast0LessThan)
qed

section \<open>Properties\<close>

text \<open>C24: the listing. Into a buffer the text fits in, \<open>getAllProcessesInfo\<close> writes the header and one line for
  every process of the table, each exactly once and in the order of the identifiers, then a terminator, and
  returns their number.\<close>

theorem listing_complete:
  fixes names :: "ptr \<Rightarrow> string"
  assumes "sched_inv k"
  defines "ps \<equiv> by_pid k [0..<unat (lastPid k)]"
  defines "text \<equiv> csv_header @ csv_lines names k ps"
  assumes "length text < unat sz" and "unat sz \<le> length buf" and "unat sz < 2 ^ 31"
  shows "\<exists>buf'. getAllProcessesInfo names (Some buf) sz k = Some (of_nat (length ps), Some buf') \<and>
           length buf' = length buf \<and> take (length text) buf' = text \<and> buf' ! length text = nul \<and>
           set ps = set (table k) \<and> distinct ps"
proof -
  note t = sched_invD(1) [OF assms(1)]
  have hl: "length csv_header = 53" by (simp add: csv_header_def)
  have "0 + length csv_header < length buf" using assms(4,5) by (simp add: text_def)
  from write_at_ok [OF this] obtain b1 where
    b1: "write_at 0 csv_header buf = Some b1" "length b1 = length buf" "take (length csv_header) b1 = csv_header" by auto
  have kp: "ksprintf_at 0 buf csv_header [] = Some (int (length csv_header), b1)"
    unfolding ksprintf_at_def ksprintf_header using b1(1) by (simp add: hl)
  have "length csv_header + length (csv_lines names k (by_pid k [0..<unat (lastPid k)])) < unat sz"
    using assms(4) by (simp add: text_def ps_def)
  from list_processes_ok [OF t assms(6) this, of b1 0] b1(2) assms(5) obtain b2 where
    b2: "list_processes names k sz [0..<unat (lastPid k)] (length csv_header) 0 b1 =
          Some (length text, of_nat (length ps), b2)" "length b2 = length buf" "take (length text) b2 = text"
    using b1(3) by (auto simp: text_def ps_def)
  have z: "sz \<noteq> 0" "\<not> unat sz \<le> length csv_header" using assms(4) by (auto simp: text_def)
  have "aset b2 (length text) nul = Some (b2[length text := nul])" using assms(4,5) b2(2) by (simp add: aset_def)
  then have "getAllProcessesInfo names (Some buf) sz k = Some (of_nat (length ps), Some (b2[length text := nul]))"
    unfolding getAllProcessesInfo_def using kp b2(1) z assms(4) by simp
  moreover have "length text < length b2" using assms(4,5) b2(2) by simp
  ultimately show ?thesis using b2(2,3) by_pid_table [OF t] by (simp add: ps_def)
qed

lemma csv_text_length: "length (csv_text names p) \<le> 90 + length (display_name names p)"
proof -
  have "unat (pid p) < 10 ^ 20" "unat (stack p) < 16 ^ 16" "unat (basePointer p) < 16 ^ 16" "unat (priority p) < 10 ^ 3"
    using unsigned_less [of "pid p", where 'a = nat] unsigned_less [of "stack p", where 'a = nat]
      unsigned_less [of "basePointer p", where 'a = nat] unsigned_less [of "priority p", where 'a = nat] by simp_all
  then have "length (render 10 97 (unat (pid p))) \<le> 20" "length (render 16 97 (unat (stack p))) \<le> 16"
    "length (render 16 97 (unat (basePointer p))) \<le> 16" "length (render 10 97 (unat (priority p))) \<le> 3"
    by (simp_all add: render_length)
  moreover have "length (getProcessStateString (state p)) \<le> 7"
    by (simp add: getProcessStateString_def split: ProcessState.split)
  ultimately show ?thesis by (simp add: csv_text_def)
qed

theorem listing_complete_witness:
  "\<exists>buf'. getAllProcessesInfo (\<lambda>_. ''idle'') (Some (replicate 4096 nul)) 4096 boot_kernel = Some (1, Some buf')"
proof -
  let ?ps = "by_pid boot_kernel [0..<unat (lastPid boot_kernel)]"
  note bp = by_pid_table [OF sched_invD(1) [OF boot_kernel_ok(2)]]
  have "set ?ps = {idleProcess boot_kernel}" using bp(1) boot_kernel_ok(4) by simp
  then have ps: "?ps = [idleProcess boot_kernel]" using bp(2) by (rule distinct_singleton_list)
  have "length (csv_lines (\<lambda>_. ''idle'') boot_kernel ?ps) \<le> 110"
    using csv_text_length [of "\<lambda>_. ''idle''" "pr_of boot_kernel (idleProcess boot_kernel)"]
    unfolding ps by (simp add: csv_lines_def display_name_def split: if_splits)
  then have "length (csv_header @ csv_lines (\<lambda>_. ''idle'') boot_kernel ?ps) < unat (4096 :: u64)"
    by (simp add: csv_header_def)
  from listing_complete [OF boot_kernel_ok(2) this, of "replicate 4096 nul"] show ?thesis unfolding ps by auto
qed

text \<open>The header is written before the size of the buffer is looked at.\<close>

lemma listing_overflow:
  assumes "0 < length buf" and "length buf \<le> 53" and "sz \<noteq> 0"
  shows "getAllProcessesInfo names (Some buf) sz k = None"
  using assms unfolding getAllProcessesInfo_def ksprintf_at_def ksprintf_header
  by (simp add: write_at_def csv_header_def)

end
