(* ===== verification/Modules.thy ===== *)
theory Modules
  imports Devices LibC
begin

text \<open>
  \<open>Kernel/core/moduleLoader.c\<close> and the start of \<open>kernel.c\<close>: the modules packed behind the kernel's image are
  copied to their addresses, with a line on the text console for each. The console's cells and the modules
  lie in the same raw memory.
\<close>

definition readUint32 :: "ptr \<Rightarrow> memory \<Rightarrow> u32 \<times> ptr" where
  "readUint32 address m = (load32 m address, address + 4)"

definition loadModule :: "ptr \<Rightarrow> ptr \<Rightarrow> console \<Rightarrow> (ptr \<times> console) option" where
  "loadModule module targetModuleAddress c =
     do {
       let (moduleSize, module) = readUint32 module (console.vmem c);
       c \<leftarrow> ncPrint (''  Will copy module at 0x'' @ [nul]) c;
       c \<leftarrow> ncPrintHex module c;
       c \<leftarrow> ncPrint ('' to 0x'' @ [nul]) c;
       c \<leftarrow> ncPrintHex targetModuleAddress c;
       c \<leftarrow> ncPrint ('' ('' @ [nul]) c;
       c \<leftarrow> ncPrintDec (ucast moduleSize) c;
       c \<leftarrow> ncPrint ('' bytes)'' @ [nul]) c;
       let c = c\<lparr>console.vmem := memcpy targetModuleAddress module (ucast moduleSize) (console.vmem c)\<rparr>;
       c \<leftarrow> ncPrint ('' [Done]'' @ [nul]) c;
       c \<leftarrow> ncNewline c;
       Some (module + ucast moduleSize, c)
     }"

text \<open>The loop over the modules; past the end of the array of targets is a fault.\<close>

fun load_loop :: "nat \<Rightarrow> ptr \<Rightarrow> ptr list \<Rightarrow> console \<Rightarrow> console option" where
  "load_loop 0 module targets c = Some c"
| "load_loop (Suc n) module [] c = None"
| "load_loop (Suc n) module (t # targets) c =
     do { (module, c) \<leftarrow> loadModule module t c; load_loop n module targets c }"

definition loadModules :: "ptr \<Rightarrow> ptr list \<Rightarrow> console \<Rightarrow> console option" where
  "loadModules payloadStart targetModuleAddress c =
     (let (moduleCount, module) = readUint32 payloadStart (console.vmem c)
      in load_loop (unat moduleCount) module targetModuleAddress c)"

section \<open>Before main\<close>

text \<open>The addresses \<open>bss\<close>, \<open>endOfKernelBinary\<close> and \<open>endOfKernel\<close> are given by the linker.\<close>

abbreviation PageSize :: u64 where "PageSize \<equiv> 0x1000"
abbreviation shellAddress :: ptr where "shellAddress \<equiv> 0x400000"
abbreviation shellDataAddress :: ptr where "shellDataAddress \<equiv> 0x500000"

definition clearBSS :: "ptr \<Rightarrow> u64 \<Rightarrow> memory \<Rightarrow> memory" where
  "clearBSS bssAddress bssSize m = memset bssAddress 0 bssSize m"

definition getStackBase :: "ptr \<Rightarrow> ptr" where
  "getStackBase endOfKernel = endOfKernel + PageSize * 8 - 8"

definition initializeKernelBinary :: "ptr \<Rightarrow> ptr \<Rightarrow> ptr \<Rightarrow> console \<Rightarrow> (ptr \<times> console) option" where
  "initializeKernelBinary bss endOfKernelBinary endOfKernel c =
     do {
       c \<leftarrow> loadModules endOfKernelBinary [shellAddress, shellDataAddress] c;
       let c = c\<lparr>console.vmem := clearBSS bss (endOfKernel - bss) (console.vmem c)\<rparr>;
       Some (getStackBase endOfKernel, c)
     }"

end
