(* ===== verification/Syscalls.thy ===== *)
theory Syscalls
  imports Terminal Pipe ProcInfo Modules
begin

text \<open>
  The system calls of \<open>Kernel/syscall/syscalls.c\<close>: \<open>sys_write\<close>, \<open>sys_read\<close> and \<open>syscallDispatcher\<close>, over
  the whole state of the kernel. Pointers of the caller lead into the raw memory of the terminal's screen.
\<close>

section \<open>The machine\<close>

record machine =
  psys :: pipe_sys
  keyb :: keyboard
  snap :: Registers_t
  snap_ready :: bool
  tty :: terminal
  ports :: io

text \<open>
  What a call needs beside the state: the stack pointer of the interrupted process, what a new pipe's block
  held, the registers of the clock, and how many bytes the caller owns at the buffer of a process listing.
\<close>

record env =
  stack_ptr :: ptr
  old_pipe :: pipe_t
  cmos :: "u8 \<Rightarrow> u8"
  room :: nat

abbreviation ram :: "machine \<Rightarrow> memory" where "ram M \<equiv> tmem (tty M)"
abbreviation the_kernel :: "machine \<Rightarrow> kernel" where "the_kernel M \<equiv> kern (sys (psys M))"

definition with_mem_of :: "(memory \<Rightarrow> memory) \<Rightarrow> machine \<Rightarrow> machine" where
  "with_mem_of f M = M\<lparr>tty := (tty M)\<lparr>scr := (scr (tty M))\<lparr>screen.vmem := f (ram M)\<rparr>\<rparr>\<rparr>"

definition kbd_view :: "machine \<Rightarrow> kbd_sys" where
  "kbd_view M = \<lparr>kbd = keyb M, ksys = sys (psys M), snapshot = snap M, snapshotReady = snap_ready M\<rparr>"

definition with_kbd :: "kbd_sys \<Rightarrow> machine \<Rightarrow> machine" where
  "with_kbd K M = M\<lparr>psys := (psys M)\<lparr>sys := ksys K\<rparr>, keyb := kbd K, snap := snapshot K, snap_ready := snapshotReady K\<rparr>"

definition on_system :: "(system \<Rightarrow> ('a \<times> system) option) \<Rightarrow> machine \<Rightarrow> ('a \<times> machine) option" where
  "on_system f M = do { (r, S) \<leftarrow> f (sys (psys M)); Some (r, M\<lparr>psys := (psys M)\<lparr>sys := S\<rparr>\<rparr>) }"

definition on_kernel :: "(kernel \<Rightarrow> ('a \<times> kernel) option) \<Rightarrow> machine \<Rightarrow> ('a \<times> machine) option" where
  "on_kernel f = on_system (\<lambda>S. do { (r, k) \<leftarrow> f (kern S); Some (r, S\<lparr>kern := k\<rparr>) })"

definition on_screen :: "(screen \<Rightarrow> screen) \<Rightarrow> machine \<Rightarrow> machine" where
  "on_screen f M = M\<lparr>tty := (tty M)\<lparr>scr := f (scr (tty M))\<rparr>\<rparr>"

definition try_screen :: "(screen \<Rightarrow> screen option) \<Rightarrow> machine \<Rightarrow> machine option" where
  "try_screen f M = do { V \<leftarrow> f (scr (tty M)); Some (on_screen (\<lambda>_. V) M) }"

section \<open>The caller's memory\<close>

definition chars_at :: "memory \<Rightarrow> ptr \<Rightarrow> nat \<Rightarrow> string" where
  "chars_at m a n = map (\<lambda>i. byte_char (m (a + of_nat i))) [0..<n]"

fun store_bytes :: "ptr \<Rightarrow> u8 list \<Rightarrow> memory \<Rightarrow> memory" where
  "store_bytes a [] m = m"
| "store_bytes a (b # bs) m = store_bytes (a + 1) bs (m(a := b))"

text \<open>A string runs up to its terminator, which is part of the result; without one it never ends.\<close>

partial_function (option) c_string :: "memory \<Rightarrow> ptr \<Rightarrow> char list option" where
  "c_string m a = (if m a = 0 then Some [nul] else do { s \<leftarrow> c_string m (a + 1); Some (byte_char (m a) # s) })"

definition c_name :: "memory \<Rightarrow> ptr \<Rightarrow> char list option option" where
  "c_name m a = (if a = NULL then Some None else map_option Some (c_string m a))"

definition load16 :: "memory \<Rightarrow> ptr \<Rightarrow> u16" where
  "load16 m a = ucast (m a) OR push_bit 8 (ucast (m (a + 1)))"

definition load64 :: "memory \<Rightarrow> ptr \<Rightarrow> u64" where
  "load64 m a = ucast (load32 m a) OR push_bit 32 (ucast (load32 m (a + 4)))"

definition bytes_of :: "nat \<Rightarrow> u64 \<Rightarrow> u8 list" where
  "bytes_of n w = map (\<lambda>i. ucast (drop_bit (8 * i) w)) [0..<n]"

partial_function (option) c_pointers :: "memory \<Rightarrow> ptr \<Rightarrow> ptr list option" where
  "c_pointers m a =
     (if load64 m a = NULL then Some [] else do { ps \<leftarrow> c_pointers m (a + 8); Some (load64 m a # ps) })"

definition c_args :: "memory \<Rightarrow> ptr \<Rightarrow> string list option option" where
  "c_args m a =
     (if a = NULL then Some None
      else do { ps \<leftarrow> c_pointers m a; ss \<leftarrow> those (map (c_string m) ps); Some (Some (map butlast ss)) })"

definition c_fds :: "memory \<Rightarrow> ptr \<Rightarrow> 16 word list option" where
  "c_fds m a = (if a = NULL then None else Some [load16 m a, load16 m (a + 2), load16 m (a + 4)])"

definition name_at :: "memory \<Rightarrow> ptr \<Rightarrow> string" where
  "name_at m a = (case c_string m a of None \<Rightarrow> [] | Some s \<Rightarrow> butlast s)"

section \<open>Reading and writing\<close>

text \<open>An \<open>int\<close> or \<open>int16_t\<close> result in a 64-bit register.\<close>

abbreviation sext :: "int \<Rightarrow> u64" where "sext \<equiv> word_of_int"

definition ctl_map :: "('a \<Rightarrow> 'b) \<Rightarrow> 'a ctl \<Rightarrow> 'b ctl" where
  "ctl_map f r = (case r of Ret v \<Rightarrow> Ret (f v) | Switch sp \<Rightarrow> Switch sp)"

definition sys_write :: "ptr \<Rightarrow> u8 \<Rightarrow> ptr \<Rightarrow> u64 \<Rightarrow> machine \<Rightarrow> (u64 ctl \<times> machine) option" where
  "sys_write sp fd str n M =
     (if fd = 1
      then do { T \<leftarrow> terminal_write str n (tty M); Some (Ret n, M\<lparr>tty := T\<rparr>) }
      else let cnt = sint (ucast n :: u32)
           in do {
             (r, P) \<leftarrow> pipe_write sp (ucast fd) (chars_at (ram M) str (nat cnt)) cnt (psys M);
             Some (ctl_map sext r, M\<lparr>psys := P\<rparr>)
           })"

text \<open>Storing a character read and looking for the end of the input; the result tells whether it has come.\<close>

definition got_char :: "ptr \<Rightarrow> nat \<Rightarrow> char \<Rightarrow> machine \<Rightarrow> bool \<times> machine" where
  "got_char buffer i c M =
     (let M = with_mem_of (\<lambda>m. m(buffer + of_nat i := char_byte c)) M; (eof, K) = kbd_check_eof (keyb M)
      in (eof, M\<lparr>keyb := K\<rparr>))"

text \<open>The loop over the keyboard; the second result is the number of characters stored so far.\<close>

fun read_loop :: "ptr \<Rightarrow> ptr \<Rightarrow> nat \<Rightarrow> nat \<Rightarrow> machine \<Rightarrow> (u64 ctl \<times> nat \<times> machine) option" where
  "read_loop sp buffer i 0 M = Some (Ret (of_nat i), i, M)"
| "read_loop sp buffer i (Suc n) M =
     do {
       (r, K) \<leftarrow> kbd_get_char sp (kbd_view M);
       let M = with_kbd K M;
       (case r of
          Switch sp' \<Rightarrow> Some (Switch sp', i, M)
        | Ret c \<Rightarrow>
            let (eof, M) = got_char buffer i c M
            in if eof then Some (Ret (of_nat i), i, M) else read_loop sp buffer (Suc i) n M)
     }"

text \<open>What a reader does when it runs again, with \<open>n\<close> characters to go after the one it waited for.\<close>

definition read_resume :: "ptr \<Rightarrow> ptr \<Rightarrow> nat \<Rightarrow> nat \<Rightarrow> machine \<Rightarrow> (u64 ctl \<times> nat \<times> machine) option" where
  "read_resume sp buffer i n M =
     do {
       (c, K) \<leftarrow> kbd_get_char_resume (kbd_view M);
       let (eof, M) = got_char buffer i c (with_kbd K M);
       if eof then Some (Ret (of_nat i), i, M) else read_loop sp buffer (Suc i) n M
     }"

definition sys_read :: "ptr \<Rightarrow> u8 \<Rightarrow> ptr \<Rightarrow> u64 \<Rightarrow> machine \<Rightarrow> (u64 ctl \<times> nat \<times> machine) option" where
  "sys_read sp fd buffer n M =
     (if fd = 0
      then let (eof, K) = kbd_check_eof (keyb M); M = M\<lparr>keyb := K\<rparr>
           in if eof then Some (Ret 0, 0, M) else read_loop sp buffer 0 (unat n) M
      else do {
        (r, cs, P) \<leftarrow> pipe_read sp (ucast fd) (sint (ucast n :: u32)) (psys M);
        Some (ctl_map sext r, length cs, with_mem_of (store_bytes buffer (map char_byte cs)) (M\<lparr>psys := P\<rparr>))
      })"

section \<open>The dispatcher\<close>

definition answer :: "u64 \<Rightarrow> Registers_t \<Rightarrow> machine \<Rightarrow> (unit ctl \<times> Registers_t \<times> machine) option" where
  "answer v regs M = Some (Ret (), regs\<lparr>rax := v\<rparr>, M)"

text \<open>A call that may give up the processor: the result is stored when the call returns.\<close>

definition reply :: "('a \<Rightarrow> u64) \<Rightarrow> Registers_t \<Rightarrow> 'a ctl \<Rightarrow> machine \<Rightarrow> (unit ctl \<times> Registers_t \<times> machine) option" where
  "reply f regs r M =
     (case r of Ret v \<Rightarrow> answer (f v) regs M | Switch sp \<Rightarrow> Some (Switch sp, regs, M))"

definition clear_terminal :: "(screen \<Rightarrow> screen) \<Rightarrow> machine \<Rightarrow> machine" where
  "clear_terminal f M =
     (let T = tty M; V = clearScreen (f (scr T)) in M\<lparr>tty := T\<lparr>scr := V, x_coord := 0, y_coord := 0\<rparr>\<rparr>)"

text \<open>The cases from \<open>0x50\<close> on: processes, semaphores, pipes and memory; any other number is an unknown call.\<close>

definition service_call ::
  "env \<Rightarrow> u64 \<Rightarrow> u64 \<Rightarrow> u64 \<Rightarrow> u64 \<Rightarrow> u64 \<Rightarrow> u64 \<Rightarrow> Registers_t \<Rightarrow> machine \<Rightarrow> (unit ctl \<times> Registers_t \<times> machine) option"
where
  "service_call E syscall_id arg1 arg2 arg4 arg5 arg6 regs M =
     (let sp = stack_ptr E
      in if syscall_id = 0x50
         then do {
           args \<leftarrow> c_args (ram M) arg4;
           (i, M) \<leftarrow> on_kernel (createProcess arg1 args (c_fds (ram M) arg5) (arg6 \<noteq> 0)) M;
           answer i regs M
         }
         else if syscall_id = 0x51
         then do { (r, M) \<leftarrow> on_kernel (killProcess sp arg1) M; reply sext regs r M }
         else if syscall_id = 0x52 then do { i \<leftarrow> getPid (the_kernel M); answer i regs M }
         else if syscall_id = 0x53
         then do {
           (n, b) \<leftarrow> getAllProcessesInfo (name_at (ram M))
                      (if arg1 = NULL then None else Some (chars_at (ram M) arg1 (room E))) arg2 (the_kernel M);
           answer n regs
             (case b of None \<Rightarrow> M | Some cs \<Rightarrow> with_mem_of (store_bytes arg1 (map char_byte cs)) M)
         }
         else if syscall_id = 0x55
         then do { (r, M) \<leftarrow> on_kernel (changeProcessPriority sp arg1 (ucast arg2)) M; reply (\<lambda>_. 0) regs r M }
         else if syscall_id = 0x56
         then do { (r, M) \<leftarrow> on_kernel (blockProcess sp arg1) M; reply (\<lambda>_. 0) regs r M }
         else if syscall_id = 0x57
         then do { (_, M) \<leftarrow> on_system (\<lambda>S. map_option (Pair ()) (in_kern (unblockProcess arg1) S)) M; answer 0 regs M }
         else if syscall_id = 0x58
         then do { (r, M) \<leftarrow> on_kernel (yield_cpu sp) M; reply (\<lambda>_. 0) regs r M }
         else if syscall_id = 0x59
         then do { (r, M) \<leftarrow> on_kernel (waitPid sp arg1) M; reply id regs r M }
         else if syscall_id = 0x60
         then do {
           name \<leftarrow> c_name (ram M) arg1;
           (s, M) \<leftarrow> on_system (semOpen name (ucast arg2)) M;
           answer s regs M
         }
         else if syscall_id = 0x61
         then do { (_, M) \<leftarrow> on_system (\<lambda>S. map_option (Pair ()) (semClose arg1 S)) M; answer 0 regs M }
         else if syscall_id = 0x62
         then do { (r, M) \<leftarrow> on_system (semWait sp arg1) M; reply (\<lambda>_. 0) regs r M }
         else if syscall_id = 0x63
         then do { (_, M) \<leftarrow> on_system (\<lambda>S. map_option (Pair ()) (semPost arg1 S)) M; answer 0 regs M }
         else if syscall_id = 0x64
         then do { (n, M) \<leftarrow> on_system (semTryWait arg1) M; answer (sext n) regs M }
         else if syscall_id = 0x65
         then do {
           (n, v, S) \<leftarrow> semGetValue arg1 (arg2 \<noteq> NULL) (sys (psys M));
           let M = M\<lparr>psys := (psys M)\<lparr>sys := S\<rparr>\<rparr>;
           answer (sext n) regs
             (case v of None \<Rightarrow> M | Some v \<Rightarrow> with_mem_of (store32 arg2 (word_of_int v)) M)
         }
         else if syscall_id = 0x66
         then do {
           name \<leftarrow> c_name (ram M) arg1;
           (n, M) \<leftarrow> on_system (sem_unlink name) M;
           answer (sext n) regs M
         }
         else if syscall_id = 0x80
         then do {
           (n, (f0, f1), P) \<leftarrow> pipe_open (old_pipe E) (load16 (ram M) arg1, load16 (ram M) (arg1 + 2)) (psys M);
           answer (sext n) regs
             (with_mem_of (store_bytes arg1 (bytes_of 2 (ucast f0) @ bytes_of 2 (ucast f1))) (M\<lparr>psys := P\<rparr>))
         }
         else if syscall_id = 0x81
         then do { (n, P) \<leftarrow> pipe_close (sint (ucast arg1 :: u32)) (psys M); answer (sext n) regs (M\<lparr>psys := P\<rparr>) }
         else if syscall_id = 0x90
         then let st = mem_get_stats (kmem (the_kernel M))
              in answer 0 regs
                   (with_mem_of (store_bytes arg1 (concat (map (bytes_of 8) [st_total st, st_used st, st_free st]))) M)
         else if syscall_id = 0x91
         then do {
           (a, M) \<leftarrow> on_kernel (\<lambda>k. let (m, a) = mem_alloc (kmem k) arg1 in Some (a, k\<lparr>kmem := m\<rparr>)) M;
           answer a regs M
         }
         else if syscall_id = 0x92
         then do {
           (_, M) \<leftarrow> on_kernel (\<lambda>k. do { m \<leftarrow> mem_free (kmem k) arg1; Some ((), k\<lparr>kmem := m\<rparr>) }) M;
           Some (Ret (), regs, M)
         }
         else if syscall_id = 0x100
         then do { f \<leftarrow> getProcesFd (sint (ucast arg1 :: u32)) (the_kernel M); answer (scast f) regs M }
         else if syscall_id = 0x101
         then do { n \<leftarrow> getProcessStatus arg1 (the_kernel M); answer (sext n) regs M }
         else answer (-1) regs M)"

definition syscallDispatcher :: "env \<Rightarrow> Registers_t \<Rightarrow> machine \<Rightarrow> (unit ctl \<times> Registers_t \<times> machine) option" where
  "syscallDispatcher E regs M =
     (let syscall_id = rax regs; arg1 = rdi regs; arg2 = rsi regs; arg3 = rdx regs; arg4 = rcx regs;
          arg5 = r8 regs; arg6 = r9 regs; sp = stack_ptr E
      in if syscall_id = 0x1
         then do { (r, M) \<leftarrow> sys_write sp (ucast arg1) arg2 arg3 M; reply (\<lambda>_. arg1) regs r M }
         else if syscall_id = 0x2
         then do { (r, _, M) \<leftarrow> sys_read sp (ucast arg1) arg2 arg3 M; reply id regs r M }
         else if syscall_id = 0x04
         then if \<not> snap_ready M then answer 1 regs M
              else answer 0 regs (with_mem_of (store_bytes arg1 (concat (map (bytes_of 8) (regs_array (snap M))))) M)
         else if syscall_id = 0x05
         then let d = getTime (cmos E)
              in answer 0 regs (with_mem_of (store_bytes arg1 [sec d, min_of d, hour d, day d, month d, year d]) M)
         else if syscall_id = 0x06
         then Some (Ret (), regs, clear_terminal (\<lambda>V. V\<lparr>currentFont := zoomInFont (currentFont V)\<rparr>) M)
         else if syscall_id = 0x07
         then Some (Ret (), regs, clear_terminal (\<lambda>V. V\<lparr>currentFont := zoomOutFont (currentFont V)\<rparr>) M)
         else if syscall_id = 0x10 then answer 0 regs (clear_terminal (\<lambda>V. V) M)
         else if syscall_id = 0x11 then answer 0 regs (on_screen (putPixel (ucast arg1) arg2 arg3) M)
         else if syscall_id = 0x12
         then answer 0 regs (on_screen (drawChar (byte_char (ucast arg1)) (ucast arg2) arg3 arg4) M)
         else if syscall_id = 0x13
         then do { s \<leftarrow> c_string (ram M) arg1; M \<leftarrow> try_screen (drawString s (ucast arg2) arg3 arg4) M; answer 0 regs M }
         else if syscall_id = 0x14
         then answer 0 regs (on_screen (drawRectangle arg1 arg2 (ucast arg3) arg4 (r8 regs)) M)
         else if syscall_id = 0x15
         then do { M \<leftarrow> try_screen (drawDecimal arg1 (ucast arg2) arg3 arg4) M; answer 0 regs M }
         else if syscall_id = 0x16
         then do { M \<leftarrow> try_screen (drawHexa arg1 (ucast arg2) arg3 arg4) M; answer 0 regs M }
         else if syscall_id = 0x17
         then do { M \<leftarrow> try_screen (drawBin arg1 (ucast arg2) arg3 arg4) M; answer 0 regs M }
         else if syscall_id = 0x18 then answer (ucast (getScreenWidth (scr (tty M)))) regs M
         else if syscall_id = 0x19 then answer (ucast (getScreenHeight (scr (tty M)))) regs M
         else if syscall_id = 0x20
         then do { (r, K) \<leftarrow> kbd_get_char sp (kbd_view M); reply (\<lambda>c. sext (schar c)) regs r (with_kbd K M) }
         else if syscall_id = 0x21
         then answer 0 regs (on_screen (drawCircle arg1 (ucast arg2) arg3 arg4) M)
         else if syscall_id = 0x30
         then do { s \<leftarrow> playSoundForDuration (ucast arg1) (ucast arg2) (ports M); answer 0 regs (M\<lparr>ports := s\<rparr>) }
         else if syscall_id = 0x40 then answer 0 regs (M\<lparr>ports := sleep_io arg1 (ports M)\<rparr>)
         else service_call E syscall_id arg1 arg2 arg4 arg5 arg6 regs M)"

definition syscall_numbers :: "u64 list" where
  "syscall_numbers =
     [0x1, 0x2, 0x4, 0x5, 0x6, 0x7, 0x10, 0x11, 0x12, 0x13, 0x14, 0x15, 0x16, 0x17, 0x18, 0x19, 0x20, 0x21, 0x30, 0x40,
      0x50, 0x51, 0x52, 0x53, 0x55, 0x56, 0x57, 0x58, 0x59, 0x60, 0x61, 0x62, 0x63, 0x64, 0x65, 0x66, 0x80, 0x81,
      0x90, 0x91, 0x92, 0x100, 0x101]"

lemma unknown_call: "rax regs \<notin> set syscall_numbers \<Longrightarrow> syscallDispatcher E regs M = answer (-1) regs M"
  by (simp add: syscallDispatcher_def service_call_def syscall_numbers_def Let_def)

lemmas known_call = syscallDispatcher_def service_call_def Let_def

lemma call_write:
  "rax regs = 0x1 \<Longrightarrow> syscallDispatcher E regs M =
     do { (r, M) \<leftarrow> sys_write (stack_ptr E) (ucast (rdi regs)) (rsi regs) (rdx regs) M; reply (\<lambda>_. rdi regs) regs r M }"
  by (simp add: known_call)

lemma call_read:
  "rax regs = 0x2 \<Longrightarrow> syscallDispatcher E regs M =
     do { (r, _, M) \<leftarrow> sys_read (stack_ptr E) (ucast (rdi regs)) (rsi regs) (rdx regs) M; reply id regs r M }"
  by (simp add: known_call)

section \<open>Buffers\<close>

lemma store_bytes_eq:
  "length bs \<le> 2 ^ 64 \<Longrightarrow> store_bytes a bs m x = (if unat (x - a) < length bs then bs ! unat (x - a) else m x)"
proof (induction bs arbitrary: a m)
  case (Cons b bs)
  then have IH: "store_bytes (a + 1) bs (m(a := b)) x =
      (if unat (x - (a + 1)) < length bs then bs ! unat (x - (a + 1)) else (m(a := b)) x)" by simp
  show ?case
  proof (cases "x = a")
    case True
    have "unat (a - (a + 1)) = 2 ^ 64 - 1" by (simp add: unsigned_minus_1_eq_mask mask_eq_exp_minus_1)
    with True IH Cons.prems show ?thesis by simp
  next
    case False
    then have "x - a \<noteq> 0" by simp
    then have "unat (x - a - 1) = unat (x - a) - 1" by (rule unat_minus_one)
    moreover have "0 < unat (x - a)" using \<open>x - a \<noteq> 0\<close> by (simp add: unat_gt_0)
    ultimately show ?thesis using IH False by (auto simp: diff_diff_eq [symmetric] nth_Cons')
  qed
qed simp

lemma chars_at_store:
  assumes "length cs < 2 ^ 64"
  shows "chars_at (store_bytes a (map char_byte cs) m) a (length cs) = cs"
proof (rule nth_equalityI)
  fix i assume "i < length (chars_at (store_bytes a (map char_byte cs) m) a (length cs))"
  then have i: "i < length cs" by (simp add: chars_at_def)
  then have "unat (of_nat i :: u64) = i" using assms by (intro unat_of_nat_small) simp
  then show "chars_at (store_bytes a (map char_byte cs) m) a (length cs) ! i = cs ! i"
    using i assms by (simp add: chars_at_def store_bytes_eq)
qed (simp add: chars_at_def)

lemma length_chars_at [simp]: "length (chars_at m a n) = n"
  by (simp add: chars_at_def)

lemma small_count:
  assumes "unat (n :: u64) \<le> 256"
  shows "sint (ucast n :: u32) = int (unat n)"
proof -
  have "(ucast n :: u32) = of_nat (unat n)" by simp
  then show ?thesis using sint_of_nat_small [of "unat n"] assms by simp
qed

section \<open>Properties\<close>

text \<open>C27: text travels through a pipe by system calls. Writing the bytes of one process's memory to a pipe with
  room for them and reading as many or fewer by the other descriptor puts the oldest characters of the pipe, in
  order, into the reader's buffer. The reading call answers their number; the writing call answers its first argument, the
  descriptor, and not a number of characters (\<open>syscalls.c:176\<close>). Neither call moves the processor.\<close>

theorem pipe_calls_transfer:
  fixes M :: machine
  assumes "pipe_ok p (psys M)"
    and "find_pipe (ucast (ucast (rdi w) :: u8)) (psys M) = Some p" and "(ucast (rdi w) :: u8) \<noteq> 1"
    and "find_pipe (ucast (ucast (rdi r) :: u8)) (psys M) = Some p" and "(ucast (rdi r) :: u8) \<noteq> 0"
    and "rax w = 0x1" and "rax r = 0x2"
  defines "text \<equiv> contents p (psys M) @ chars_at (ram M) (rsi w) (unat (rdx w))"
  assumes "length text \<le> 256" and "unat (rdx r) \<le> length text"
  shows "\<exists>M1 M2. syscallDispatcher E w M = Some (Ret (), w\<lparr>rax := rdi w\<rparr>, M1) \<and> ram M1 = ram M \<and>
           syscallDispatcher E' r M1 = Some (Ret (), r\<lparr>rax := rdx r\<rparr>, M2) \<and>
           chars_at (ram M2) (rsi r) (unat (rdx r)) = take (unat (rdx r)) text \<and>
           contents p (psys M2) = drop (unat (rdx r)) text \<and> pipe_ok p (psys M2) \<and> the_kernel M2 = the_kernel M"
proof -
  let ?t = "chars_at (ram M) (rsi w) (unat (rdx w))"
  have c: "sint (ucast (rdx w) :: u32) = int (length ?t)" "sint (ucast (rdx r) :: u32) = int (unat (rdx r))"
    using small_count [of "rdx w"] small_count [of "rdx r"] assms(9,10) by (simp_all add: text_def)
  from pipe_round_trip [OF assms(1,2,4), of ?t "unat (rdx r)" "stack_ptr E" "stack_ptr E'"] assms(9,10)
  obtain P1 P2 where P:
    "pipe_write (stack_ptr E) (ucast (ucast (rdi w) :: u8)) ?t (int (length ?t)) (psys M) = Some (Ret (int (length ?t)), P1)"
    "pipe_read (stack_ptr E') (ucast (ucast (rdi r) :: u8)) (int (unat (rdx r))) P1 =
       Some (Ret (int (unat (rdx r))), take (unat (rdx r)) text, P2)"
    "contents p P2 = drop (unat (rdx r)) text" "pipe_ok p P2" "kern (sys P2) = kern (sys (psys M))"
    by (auto simp: text_def)
  let ?M1 = "M\<lparr>psys := P1\<rparr>"
  let ?M2 = "with_mem_of (store_bytes (rsi r) (map char_byte (take (unat (rdx r)) text))) (?M1\<lparr>psys := P2\<rparr>)"
  have l: "length (take (unat (rdx r)) text) = unat (rdx r)" using assms(10) by simp
  have "syscallDispatcher E w M = Some (Ret (), w\<lparr>rax := rdi w\<rparr>, ?M1)"
    using assms(3) P(1) c(1)
    by (simp add: call_write [OF assms(6)] sys_write_def Let_def reply_def answer_def ctl_map_def)
  moreover have "syscallDispatcher E' r ?M1 = Some (Ret (), r\<lparr>rax := rdx r\<rparr>, ?M2)"
    using assms(5) P(2) c(2)
    by (simp add: call_read [OF assms(7)] sys_read_def Let_def reply_def answer_def ctl_map_def)
  moreover have "chars_at (ram ?M2) (rsi r) (unat (rdx r)) = take (unat (rdx r)) text"
    using chars_at_store [of "take (unat (rdx r)) text" "rsi r"] assms(9) unsigned_less [of "rdx r", where 'a = nat] unfolding l by (simp add: with_mem_of_def)
  moreover have "psys ?M2 = P2" "ram ?M1 = ram M" by (simp_all add: with_mem_of_def)
  ultimately show ?thesis using P(3-5) by (intro exI [of _ ?M1] exI [of _ ?M2]) simp
qed

definition no_regs :: Registers_t where
  "no_regs = snapshot boot_keyboard"

definition pipe_machine :: "pipe_sys \<Rightarrow> machine" where
  "pipe_machine P =
     \<lparr>psys = P, keyb = kbd boot_keyboard, snap = no_regs, snap_ready = False, tty = demo_terminal,
      ports = \<lparr>speaker = 0, out_log = []\<rparr>\<rparr>"

theorem pipe_calls_transfer_witness:
  "\<exists>P. pipe_open raw_block (0, 0) boot_pipes = Some (0, (3, 4), P) \<and>
     (\<forall>E. \<exists>M1 M2. syscallDispatcher E (no_regs\<lparr>rdi := 4, rsi := 0x600000, rdx := 5, rax := 0x1\<rparr>) (pipe_machine P) =
                 Some (Ret (), no_regs\<lparr>rdi := 4, rsi := 0x600000, rdx := 5, rax := 4\<rparr>, M1) \<and>
               syscallDispatcher E (no_regs\<lparr>rdi := 3, rsi := 0x700000, rdx := 3, rax := 0x2\<rparr>) M1 =
                 Some (Ret (), no_regs\<lparr>rdi := 3, rsi := 0x700000, rdx := 3, rax := 3\<rparr>, M2) \<and>
               chars_at (ram M2) 0x700000 3 = ''AAA'')"
proof -
  obtain p P where p: "pipe_open raw_block (0, 0) boot_pipes = Some (0, (3, 4), P)" "pipe_ok p P" "contents p P = []"
     "find_pipe 3 P = Some p" "find_pipe 4 P = Some p" using first_pipe by blast
  let ?M = "pipe_machine P"
  let ?w = "no_regs\<lparr>rdi := 4, rsi := 0x600000, rdx := 5, rax := 0x1\<rparr>"
    and ?r = "no_regs\<lparr>rdi := 3, rsi := 0x700000, rdx := 3, rax := 0x2\<rparr>"
  have c: "byte_char 65 = CHR ''A''" by (simp add: byte_char_def char_of_def bit_Suc_0_iff)
  have a: "chars_at (ram ?M) 0x600000 5 = ''AAAAA''"
    by (simp add: chars_at_def pipe_machine_def demo_terminal_def c upt_rec)
  have P: "psys ?M = P" by (simp add: pipe_machine_def)
  have "\<exists>M1 M2. syscallDispatcher E ?w ?M = Some (Ret (), ?w\<lparr>rax := rdi ?w\<rparr>, M1) \<and> ram M1 = ram ?M \<and>
           syscallDispatcher E ?r M1 = Some (Ret (), ?r\<lparr>rax := rdx ?r\<rparr>, M2) \<and>
           chars_at (ram M2) (rsi ?r) (unat (rdx ?r)) =
             take (unat (rdx ?r)) (contents p (psys ?M) @ chars_at (ram ?M) (rsi ?w) (unat (rdx ?w))) \<and>
           contents p (psys M2) = drop (unat (rdx ?r)) (contents p (psys ?M) @ chars_at (ram ?M) (rsi ?w) (unat (rdx ?w))) \<and>
           pipe_ok p (psys M2) \<and> the_kernel M2 = the_kernel ?M" for E
    by (rule pipe_calls_transfer) (simp_all add: P p a)
  then have "\<exists>M1 M2. syscallDispatcher E ?w ?M = Some (Ret (), ?w\<lparr>rax := 4\<rparr>, M1) \<and>
           syscallDispatcher E ?r M1 = Some (Ret (), ?r\<lparr>rax := 3\<rparr>, M2) \<and>
           chars_at (ram M2) 0x700000 3 = ''AAA''" for E
    by (simp add: P p a) blast
  with p(1) show ?thesis by simp
qed

end
