(* ===== verification/UserKernel.thy ===== *)
theory UserKernel
  imports UserTools Syscalls
begin

text \<open>
  User programs on the kernel: the stubs of \<open>Userland/UserLib/asm/syscallHelper.asm\<close> put the number of the call
  into \<open>rax\<close> and trap into \<open>syscallDispatcher\<close>. With it the model of the kernel becomes a kernel in the sense of
  the user programs, and a stage of a pipeline is a console in the sense of their contract.
\<close>

section \<open>The stubs\<close>

fun call_number :: "sys_call \<Rightarrow> u64" where
  "call_number (Sys_write _ _ _) = 0x1"
| "call_number (Sys_read _ _) = 0x2"
| "call_number Sys_getRegisters = 0x04"
| "call_number Sys_getDateTime = 0x05"
| "call_number Sys_zoomIn = 0x06"
| "call_number Sys_zoomOut = 0x07"
| "call_number Sys_clearScreen = 0x10"
| "call_number (Sys_putPixel _ _ _) = 0x11"
| "call_number (Sys_drawChar _ _ _ _) = 0x12"
| "call_number (Sys_drawString _ _ _ _) = 0x13"
| "call_number (Sys_drawRectangle _ _ _ _ _) = 0x14"
| "call_number (Sys_drawDecimal _ _ _ _) = 0x15"
| "call_number (Sys_drawHexa _ _ _ _) = 0x16"
| "call_number (Sys_drawBin _ _ _ _) = 0x17"
| "call_number Sys_getScreenWidth = 0x18"
| "call_number Sys_getScreenHeight = 0x19"
| "call_number (Sys_drawCircle _ _ _ _) = 0x21"
| "call_number Sys_kbdGetChar = 0x20"
| "call_number (Sys_playSound _ _) = 0x30"
| "call_number (Sys_sleepMilli _) = 0x40"
| "call_number (Sys_createProcess _ _ _ _ _ _) = 0x50"
| "call_number (Sys_deleteProcess _) = 0x51"
| "call_number Sys_getPid = 0x52"
| "call_number (Sys_getAllProcessesInfo _) = 0x53"
| "call_number (Sys_changeProcessPriority _ _) = 0x55"
| "call_number (Sys_blockProcess _) = 0x56"
| "call_number (Sys_unblockProcess _) = 0x57"
| "call_number Sys_yield = 0x58"
| "call_number (Sys_waitPid _) = 0x59"
| "call_number (Sys_getProcessFd _) = 0x100"
| "call_number (Sys_getProcessStatus _) = 0x101"
| "call_number (Sys_semOpen _ _) = 0x60"
| "call_number (Sys_semClose _) = 0x61"
| "call_number (Sys_semWait _) = 0x62"
| "call_number (Sys_semPost _) = 0x63"
| "call_number (Sys_semTryWait _) = 0x64"
| "call_number (Sys_semGetValue _) = 0x65"
| "call_number (Sys_semUnlink _) = 0x66"
| "call_number Sys_pipe_open = 0x80"
| "call_number (Sys_pipe_close _) = 0x81"
| "call_number Sys_mem_info = 0x90"
| "call_number (Sys_mem_alloc _) = 0x91"
| "call_number (Sys_mem_free _) = 0x92"

text \<open>
  The arguments stay in the registers of the calling convention. \<open>buf\<close> is the caller's buffer; \<open>addr\<close> says where
  the linker has put a constant string or a function. A vector of arguments lies in the buffer, its pointers
  first, then the three descriptors, then the strings.
\<close>

fun string_ptrs :: "ptr \<Rightarrow> string list \<Rightarrow> ptr list" where
  "string_ptrs p [] = [NULL]"
| "string_ptrs p (s # ss) = p # string_ptrs (p + of_nat (length s) + 1) ss"

definition args_fds :: "ptr \<Rightarrow> string list \<Rightarrow> ptr" where
  "args_fds buf ss = buf + 8 * (of_nat (length ss) + 1)"

definition args_block :: "ptr \<Rightarrow> string list \<Rightarrow> u16 list option \<Rightarrow> u8 list" where
  "args_block buf ss fs =
     concat (map (bytes_of 8) (string_ptrs (args_fds buf ss + 6) ss)) @
     concat (map (\<lambda>f. bytes_of 2 (ucast f)) (take 3 ((case fs of Some xs \<Rightarrow> xs | None \<Rightarrow> []) @ [0, 0, 0]))) @
     concat (map (\<lambda>s. map char_byte (s @ [nul])) ss)"

fun call_args :: "(string \<Rightarrow> ptr) \<Rightarrow> ptr \<Rightarrow> sys_call \<Rightarrow> u64 list" where
  "call_args addr buf (Sys_write fd s n) = [ucast fd, buf, n]"
| "call_args addr buf (Sys_read fd n) = [ucast fd, buf, n]"
| "call_args addr buf (Sys_putPixel c x y) = [ucast c, x, y]"
| "call_args addr buf (Sys_drawChar ch c x y) = [ucast (char_byte ch), ucast c, x, y]"
| "call_args addr buf (Sys_drawString s c x y) = [buf, ucast c, x, y]"
| "call_args addr buf (Sys_drawRectangle wd h c x y) = [wd, h, ucast c, x, y]"
| "call_args addr buf (Sys_drawCircle r c x y) = [r, ucast c, x, y]"
| "call_args addr buf (Sys_drawDecimal n c x y) = [n, ucast c, x, y]"
| "call_args addr buf (Sys_drawHexa n c x y) = [n, ucast c, x, y]"
| "call_args addr buf (Sys_drawBin n c x y) = [n, ucast c, x, y]"
| "call_args addr buf (Sys_playSound f d) = [ucast f, ucast d]"
| "call_args addr buf (Sys_sleepMilli n) = [n]"
| "call_args addr buf (Sys_createProcess name main ac av fs fg) =
     [addr name, addr main, ucast ac, buf, if fs = None then NULL else args_fds buf av, if fg then 1 else 0]"
| "call_args addr buf (Sys_deleteProcess i) = [i]"
| "call_args addr buf (Sys_getAllProcessesInfo n) = [buf, n]"
| "call_args addr buf (Sys_changeProcessPriority i p) = [i, ucast p]"
| "call_args addr buf (Sys_blockProcess i) = [i]"
| "call_args addr buf (Sys_unblockProcess i) = [i]"
| "call_args addr buf (Sys_waitPid i) = [i]"
| "call_args addr buf (Sys_getProcessFd i) = [ucast i]"
| "call_args addr buf (Sys_getProcessStatus i) = [i]"
| "call_args addr buf (Sys_semOpen name v) = [buf, ucast v]"
| "call_args addr buf (Sys_semClose s) = [s]"
| "call_args addr buf (Sys_semWait s) = [s]"
| "call_args addr buf (Sys_semPost s) = [s]"
| "call_args addr buf (Sys_semTryWait s) = [s]"
| "call_args addr buf (Sys_semGetValue s) = [s, buf]"
| "call_args addr buf (Sys_semUnlink name) = [buf]"
| "call_args addr buf Sys_pipe_open = [buf]"
| "call_args addr buf (Sys_pipe_close i) = [ucast (scast i :: u32)]"
| "call_args addr buf Sys_getRegisters = [buf]"
| "call_args addr buf Sys_getDateTime = [buf]"
| "call_args addr buf Sys_mem_info = [buf]"
| "call_args addr buf (Sys_mem_alloc n) = [n]"
| "call_args addr buf (Sys_mem_free p) = [p]"
| "call_args addr buf _ = []"

definition stub :: "u64 \<Rightarrow> u64 list \<Rightarrow> Registers_t \<Rightarrow> Registers_t" where
  "stub n xs regs =
     (let arg = (\<lambda>i old. if i < length xs then xs ! i else old)
      in regs\<lparr>rdi := arg 0 (rdi regs), rsi := arg 1 (rsi regs), rdx := arg 2 (rdx regs), rcx := arg 3 (rcx regs),
              r8 := arg 4 (r8 regs), r9 := arg 5 (r9 regs), rax := n\<rparr>)"

text \<open>What the caller has put into the buffer, and how much of it the kernel fills in.\<close>

fun call_data :: "ptr \<Rightarrow> sys_call \<Rightarrow> u8 list" where
  "call_data buf (Sys_write fd s n) = map char_byte s"
| "call_data buf (Sys_drawString s c x y) = map char_byte (s @ [nul])"
| "call_data buf (Sys_createProcess name main ac av fs fg) = args_block buf av fs"
| "call_data buf (Sys_semOpen name v) = map char_byte (name @ [nul])"
| "call_data buf (Sys_semUnlink name) = map char_byte (name @ [nul])"
| "call_data buf _ = []"

fun call_bytes :: "sys_call \<Rightarrow> u64 \<Rightarrow> nat" where
  "call_bytes (Sys_read _ _) r = (if r = -1 then 0 else unat r)"
| "call_bytes Sys_getRegisters r = (if r = 0 then 160 else 0)"
| "call_bytes Sys_getDateTime r = 6"
| "call_bytes Sys_mem_info r = 24"
| "call_bytes Sys_pipe_open r = 4"
| "call_bytes (Sys_semGetValue _) r = 4"
| "call_bytes (Sys_getAllProcessesInfo n) r = unat n"
| "call_bytes _ r = 0"

text \<open>A call that gives up the processor has no answer here: what comes next is another process's.\<close>

definition machine_call :: "env \<Rightarrow> (string \<Rightarrow> ptr) \<Rightarrow> ptr \<Rightarrow> Registers_t \<Rightarrow> machine kernel_calls" where
  "machine_call E addr buf regs c M =
     do {
       (r, regs, M) \<leftarrow> syscallDispatcher E (stub (call_number c) (call_args addr buf c) regs)
                          (with_mem_of (store_bytes buf (call_data buf c)) M);
       (case r of
          Switch _ \<Rightarrow> None
        | Ret _ \<Rightarrow> Some (rax regs, map (\<lambda>i. ram M (buf + of_nat i)) [0..<call_bytes c (rax regs)], M))
     }"

lemma call_numbers: "call_number c \<in> set syscall_numbers"
  by (cases c) (simp_all add: syscall_numbers_def)

section \<open>A stage of a pipeline\<close>

lemma psys_with_mem [simp]: "psys (with_mem_of f M) = psys M"
  by (simp add: with_mem_of_def)

lemma ram_with_mem [simp]: "ram (with_mem_of f M) = f (ram M)"
  by (simp add: with_mem_of_def)

lemma ram_psys [simp]: "ram (M\<lparr>psys := P\<rparr>) = ram M"
  by simp

text \<open>
  The running process reads from pipe \<open>p\<close> and writes to another one, \<open>q\<close>. Nobody waits for either.
\<close>

definition stage_fd :: "nat \<Rightarrow> u8 \<Rightarrow> ptr \<Rightarrow> machine \<Rightarrow> bool" where
  "stage_fd i std p M \<longleftrightarrow>
     (\<exists>f. getProcesFd (int i) (the_kernel M) = Some f \<and> (ucast f :: u8) \<noteq> std \<and>
          find_pipe (ucast (ucast f :: u8)) (psys M) = Some p)"

definition stage_ok :: "ptr \<Rightarrow> ptr \<Rightarrow> machine \<Rightarrow> bool" where
  "stage_ok p q M \<longleftrightarrow>
     pipe_ok p (psys M) \<and> pipe_ok q (psys M) \<and> p \<noteq> q \<and> sems_of p (psys M) \<inter> sems_of q (psys M) = {} \<and>
     stage_fd 0 0 p M \<and> stage_fd 1 1 q M"

lemma only_pipe_find:
  assumes "only_pipe p P P'"
  shows "find_pipe fd P' = find_pipe fd P"
proof (rule find_pipe_same [of P' P p])
  from assms obtain f where "pipe_mem P' p = map_option f (pipe_mem P p)" "\<forall>x. fds (f x) = fds x"
    by (auto simp: only_pipe_def)
  then show "map_option fds (pipe_mem P' p) = map_option fds (pipe_mem P p)" by (simp add: option.map_comp o_def)
qed (use assms in \<open>auto simp: only_pipe_def\<close>)

lemma stage_ok_step:
  assumes "stage_ok p q M" and "only_pipe x (psys M) P'" and "pipe_ok x P'" and "x = p \<or> x = q" and "psys M' = P'"
  shows "stage_ok p q M' \<and> (x \<noteq> p \<longrightarrow> contents p (psys M') = contents p (psys M)) \<and>
           (x \<noteq> q \<longrightarrow> contents q (psys M') = contents q (psys M))"
proof -
  from assms(1) have s: "pipe_ok p (psys M)" "pipe_ok q (psys M)" "p \<noteq> q" "sems_of p (psys M) \<inter> sems_of q (psys M) = {}"
    "stage_fd 0 0 p M" "stage_fd 1 1 q M" by (auto simp: stage_ok_def)
  have k: "kern (sys P') = kern (sys (psys M))" using assms(2) by (simp add: only_pipe_def)
  have f: "stage_fd i std y M' = stage_fd i std y M" for i std y
    using k assms(5) by (simp add: stage_fd_def only_pipe_find [OF assms(2)])
  have o: "pipe_ok y P' \<and> contents y P' = contents y (psys M)" if "y \<noteq> x" "y = p \<or> y = q" for y
    using other_pipe [OF assms(2), of y] that s(1-4) assms(4) by auto
  show ?thesis
    using assms(3-5) s(3-6) o f only_pipe_sems [OF assms(2)] by (auto simp: stage_ok_def)
qed

text \<open>The two calls that \<open>getchar\<close> and \<open>putchar\<close> make.\<close>

lemma fd_call:
  assumes "getProcesFd (int i) (the_kernel M) = Some f" and "i < 3"
  shows "machine_call E addr buf regs (Sys_getProcessFd (of_nat i)) M = Some (scast f, [], with_mem_of (\<lambda>m. m) M)"
proof -
  have "sint (of_nat i :: u32) = int i" using assms(2) by (intro sint_of_nat_small) simp
  moreover have "(ucast (ucast (of_nat i :: u32) :: u64) :: u32) = of_nat i" by (intro bit_word_eqI) (simp add: bit_ucast_iff)
  ultimately have "sint (ucast (ucast (of_nat i :: u32) :: u64) :: u32) = int i" by simp
  moreover have "store_bytes buf [] = (\<lambda>m. m)" by (rule ext) simp
  ultimately show ?thesis
    using assms(1) by (simp add: machine_call_def stub_def Let_def syscallDispatcher_def service_call_def answer_def)
qed

lemma same_mem [simp]: "with_mem_of (\<lambda>m. m) M = M"
  by (simp add: with_mem_of_def)

lemma store_nothing [simp]: "store_bytes buf [] = (\<lambda>m. m)"
  by (rule ext) simp

lemma down_up8 [simp]: "ucast (ucast (b :: u8) :: u64) = b"
  by (rule bit_word_eqI) (auto simp: bit_ucast_iff)

lemma low_byte [simp]: "(ucast (scast (f :: u16) :: u64) :: u8) = ucast f"
  by (rule bit_word_eqI) (auto simp: bit_ucast_iff bit_word_scast_iff)

lemma to_i16_1: "to_i16 1 = 1"
  by (simp add: to_i16_def)

lemma read_call:
  assumes "pipe_ok p (psys M)" and "contents p (psys M) = c # xs" and "find_pipe (ucast fd) (psys M) = Some p" and "fd \<noteq> 0"
  shows "\<exists>M'. machine_call E addr buf regs (Sys_read fd 1) M = Some (1, [char_byte c], M') \<and>
           only_pipe p (psys M) (psys M') \<and> pipe_ok p (psys M') \<and> contents p (psys M') = xs"
proof -
  have "1 \<le> length (contents p (psys M))" using assms(2) by simp
  from read_all [OF assms(1) this, of "stack_ptr E" "[]"] assms(2) obtain P' where
    r: "pipe_read_from (stack_ptr E) p 1 [] (psys M) = Some (Ret (), [c], P')" "pipe_ok p P'" "contents p P' = xs"
      "only_pipe p (psys M) P'" by auto
  have p: "p \<noteq> NULL" using assms(1) by (simp add: pipe_ok_def)
  have "pipe_read (stack_ptr E) (ucast fd) 1 (psys M) = Some (Ret 1, [c], P')"
    using r(1) assms(3) p by (simp add: pipe_read_def to_i16_1)
  then have "machine_call E addr buf regs (Sys_read fd 1) M =
      Some (1, [char_byte c], with_mem_of (store_bytes buf [char_byte c]) (M\<lparr>psys := P'\<rparr>))"
    using assms(4) by (simp add: machine_call_def stub_def Let_def syscallDispatcher_def sys_read_def reply_def answer_def ctl_map_def)
  then show ?thesis using r(2-4) by auto
qed

lemma write_call:
  assumes "pipe_ok q (psys M)" and "length (contents q (psys M)) < PIPE_BUFFER" and "find_pipe (ucast fd) (psys M) = Some q"
    and "fd \<noteq> 1"
  shows "\<exists>r M'. machine_call E addr buf regs (Sys_write fd [c] 1) M = Some (r, [], M') \<and>
           only_pipe q (psys M) (psys M') \<and> pipe_ok q (psys M') \<and> contents q (psys M') = contents q (psys M) @ [c]"
proof -
  have "length (contents q (psys M)) + length [c] \<le> PIPE_BUFFER" using assms(2) by simp
  from write_all [OF assms(1) this, of "stack_ptr E" 0] obtain P' where
    r: "pipe_write_from (stack_ptr E) q [c] 0 (psys M) = Some (Ret (), 1, P')" "pipe_ok q P'"
      "contents q P' = contents q (psys M) @ [c]" "only_pipe q (psys M) P'" by auto
  have p: "q \<noteq> NULL" using assms(1) by (simp add: pipe_ok_def)
  have "chars_at (store_bytes buf [char_byte c] (ram M)) buf 1 = [c]" by (simp add: chars_at_def)
  then have "pipe_write (stack_ptr E) (ucast fd) (chars_at (store_bytes buf [char_byte c] (ram M)) buf 1) 1 (psys M) =
      Some (Ret 1, P')"
    using r(1) assms(3) p by (simp add: pipe_write_def to_i16_1)
  then have "\<exists>r. machine_call E addr buf regs (Sys_write fd [c] 1) M =
      Some (r, [], (with_mem_of (store_bytes buf [char_byte c]) M)\<lparr>psys := P'\<rparr>)"
    using assms(4) by (simp add: machine_call_def stub_def Let_def syscallDispatcher_def sys_write_def reply_def answer_def ctl_map_def
        fun_upd_def)
  then show ?thesis using r(2-4) by auto
qed

definition emit_pipe :: "char \<Rightarrow> string \<Rightarrow> string option" where
  "emit_pipe c s = (if length s < PIPE_BUFFER then Some (s @ [c]) else None)"

interpretation stage: console "machine_call E addr buf regs" "stage_ok p q" "\<lambda>M. contents p (psys M)"
  "\<lambda>M. contents q (psys M)" emit_pipe for E addr buf regs p q
proof
  fix M c cs
  assume ok: "stage_ok p q M" and i: "contents p (psys M) = c # cs"
  from ok obtain f where f: "getProcesFd (int 0) (the_kernel M) = Some f" "(ucast f :: u8) \<noteq> 0"
    "find_pipe (ucast (ucast f :: u8)) (psys M) = Some p" by (auto simp: stage_ok_def stage_fd_def)
  have "pipe_ok p (psys M)" using ok by (simp add: stage_ok_def)
  from read_call [OF this i f(3,2), of E addr buf regs] obtain M' where
    m: "machine_call E addr buf regs (Sys_read (ucast f) 1) M = Some (1, [char_byte c], M')"
      "only_pipe p (psys M) (psys M')" "pipe_ok p (psys M')" "contents p (psys M') = cs" by blast
  have fd: "machine_call E addr buf regs (Sys_getProcessFd 0) M = Some (scast f, [], M)"
    using fd_call [OF f(1)] by simp
  have "getchar (machine_call E addr buf regs) M = Some (c, M')"
    using m(1) by (simp add: getchar_def ask_def fd)
  moreover have "p \<noteq> q" using ok by (simp add: stage_ok_def)
  ultimately show "\<exists>M'. getchar (machine_call E addr buf regs) M = Some (c, M') \<and> stage_ok p q M' \<and>
      contents p (psys M') = cs \<and> contents q (psys M') = contents q (psys M)"
    using stage_ok_step [OF ok m(2,3) disjI1 [OF refl] refl] m(4) by auto
next
  fix M c v
  assume ok: "stage_ok p q M" and e: "emit_pipe c (contents q (psys M)) = Some v"
  from e have v: "length (contents q (psys M)) < PIPE_BUFFER" "v = contents q (psys M) @ [c]"
    by (auto simp: emit_pipe_def split: if_splits)
  from ok obtain f where f: "getProcesFd (int 1) (the_kernel M) = Some f" "(ucast f :: u8) \<noteq> 1"
    "find_pipe (ucast (ucast f :: u8)) (psys M) = Some q" by (auto simp: stage_ok_def stage_fd_def)
  have "pipe_ok q (psys M)" using ok by (simp add: stage_ok_def)
  from write_call [OF this v(1) f(3,2), of E addr buf regs c] obtain r M' where
    m: "machine_call E addr buf regs (Sys_write (ucast f) [c] 1) M = Some (r, [], M')"
      "only_pipe q (psys M) (psys M')" "pipe_ok q (psys M')" "contents q (psys M') = contents q (psys M) @ [c]" by blast
  have fd: "machine_call E addr buf regs (Sys_getProcessFd 1) M = Some (scast f, [], M)"
    using fd_call [OF f(1)] by simp
  have "putchar (machine_call E addr buf regs) c M = Some M'"
    using m(1) by (simp add: putchar_def ask_def tell_def fd)
  moreover have "p \<noteq> q" using ok by (simp add: stage_ok_def)
  ultimately show "\<exists>M'. putchar (machine_call E addr buf regs) c M = Some M' \<and> stage_ok p q M' \<and>
      contents p (psys M') = contents p (psys M) \<and> contents q (psys M') = v"
    using stage_ok_step [OF ok m(2,3) disjI2 [OF refl] refl] m(4) v(2) by auto
qed

lemma emits_pipe: "length s + length t \<le> PIPE_BUFFER \<Longrightarrow> stage.emits t s = Some (s @ t)"
  by (induction t arbitrary: s) (auto simp: emit_pipe_def)

section \<open>Two pipes\<close>

definition stage_kernel :: kernel where
  "stage_kernel =
     running_kernel\<lparr>procs := (procs running_kernel)(currentProcess running_kernel \<mapsto>
       (pr_of running_kernel (currentProcess running_kernel))\<lparr>fileDescriptors := [3, 6, 2]\<rparr>)\<rparr>"

definition demo_sem :: "string \<Rightarrow> u32 \<Rightarrow> semaphore" where
  "demo_sem name v =
     \<lparr>semName = Some (0x60, name @ [nul]), semValue = v, lock = 0, waitingProcesses = Some (0x50, []),
      linkedProcesses = Some (0x58, []), pendingDestruction = False\<rparr>"

definition demo_pipe :: "string \<Rightarrow> string \<Rightarrow> u16 \<Rightarrow> string \<Rightarrow> pipe_t" where
  "demo_pipe rd wr fd s =
     \<lparr>pbuffer = s @ replicate (PIPE_BUFFER - length s) nul, fds = (fd, fd + 1), readingPos = 0,
      writePos = of_nat (length s), psize = of_nat (length s), writeSemName = wr @ [nul], readSemName = rd @ [nul]\<rparr>"

definition two_pipes :: pipe_sys where
  "two_pipes =
     \<lparr>sys = \<lparr>kern = stage_kernel, semaphoreList = Some (0x1, [(0x2, 0x10), (0x3, 0x20), (0x4, 0x30), (0x5, 0x40)]),
             sems = [0x10 \<mapsto> demo_sem ''0_read'' 5, 0x20 \<mapsto> demo_sem ''0_write'' 251, 0x30 \<mapsto> demo_sem ''1_read'' 0,
                     0x40 \<mapsto> demo_sem ''1_write'' 256]\<rparr>,
      pipes = [0x100, 0x200],
      pipe_mem = [0x100 \<mapsto> demo_pipe ''0_read'' ''0_write'' 3 (''hola'' @ [nul]), 0x200 \<mapsto> demo_pipe ''1_read'' ''1_write'' 5 []],
      nextFd = 7\<rparr>"

lemma two_pipes_sems:
  "getSem (Some (''0_read'' @ [nul])) (sys two_pipes) = Some 0x10"
  "getSem (Some (''0_write'' @ [nul])) (sys two_pipes) = Some 0x20"
  "getSem (Some (''1_read'' @ [nul])) (sys two_pipes) = Some 0x30"
  "getSem (Some (''1_write'' @ [nul])) (sys two_pipes) = Some 0x40"
  by (simp_all add: two_pipes_def getSem_def items_def matchSemName_def nameless_def demo_sem_def find_chain_def)

lemma two_pipes_inv:
  "sem_inv (sys two_pipes) 0x10 \<and> sem_inv (sys two_pipes) 0x20 \<and> sem_inv (sys two_pipes) 0x30 \<and>
   sem_inv (sys two_pipes) 0x40"
  by (simp add: two_pipes_def sem_inv_def val_def waiting_def items_def demo_sem_def)

lemma stage_pid: "getPid stage_kernel \<noteq> None" "getProcesFd 0 stage_kernel = Some 3" "getProcesFd 1 stage_kernel = Some 6"
proof -
  obtain pr where "pcb running_kernel (currentProcess running_kernel) = Some pr"
    using running_pid(1) by (auto simp: getPid_def)
  then have "pcb stage_kernel (currentProcess stage_kernel) =
      Some ((pr_of running_kernel (currentProcess running_kernel))\<lparr>fileDescriptors := [3, 6, 2]\<rparr>)"
    by (auto simp: stage_kernel_def pcb_def split: if_splits)
  then show "getPid stage_kernel \<noteq> None" "getProcesFd 0 stage_kernel = Some 3" "getProcesFd 1 stage_kernel = Some 6"
    by (simp_all add: getPid_def getProcesFd_def)
qed

lemma two_pipes_ok:
  "pipe_ok 0x100 two_pipes" "pipe_ok 0x200 two_pipes" "contents 0x100 two_pipes = ''hola'' @ [nul]" "contents 0x200 two_pipes = []"
  "sems_of 0x100 two_pipes = {0x10, 0x20}" "sems_of 0x200 two_pipes = {0x30, 0x40}"
  "find_pipe 3 two_pipes = Some 0x100" "find_pipe 6 two_pipes = Some 0x200" "kern (sys two_pipes) = stage_kernel"
proof -
  note ts = two_pipes_sems two_pipes_inv
  have m: "pipe_mem two_pipes 0x100 = Some (demo_pipe ''0_read'' ''0_write'' 3 (''hola'' @ [nul]))"
    "pipe_mem two_pipes 0x200 = Some (demo_pipe ''1_read'' ''1_write'' 5 [])" "kern (sys two_pipes) = stage_kernel"
    by (simp_all add: two_pipes_def)
  have v: "val (sys two_pipes) 0x10 = 5" "val (sys two_pipes) 0x20 = 251" "val (sys two_pipes) 0x30 = 0"
    "val (sys two_pipes) 0x40 = 256" by (simp_all add: two_pipes_def val_def demo_sem_def)
  have p: "\<not> pendingDestruction (the (sems (sys two_pipes) 0x10)) \<and> \<not> pendingDestruction (the (sems (sys two_pipes) 0x20)) \<and>
      \<not> pendingDestruction (the (sems (sys two_pipes) 0x30)) \<and> \<not> pendingDestruction (the (sems (sys two_pipes) 0x40))"
    by (simp add: two_pipes_def demo_sem_def)
  have ring: "pipe_ring (demo_pipe a b fd t)" if "length t < 256" for a b fd t
    using that by (simp add: pipe_ring_def ring_ok_def demo_pipe_def unat_of_nat_small)
  have sz: "unat (psize (demo_pipe a b fd t)) = length t" if "length t < 256" for a b fd t
    using that by (simp add: demo_pipe_def unat_of_nat_small)
  have se: "pipe_sems two_pipes (demo_pipe ''0_read'' ''0_write'' 3 (''hola'' @ [nul])) 0x10 0x20"
    "pipe_sems two_pipes (demo_pipe ''1_read'' ''1_write'' 5 []) 0x30 0x40"
    unfolding pipe_sems_def using ts p by (simp_all add: demo_pipe_def)
  have "pipe_mem two_pipes 0x100 = Some (demo_pipe ''0_read'' ''0_write'' 3 (''hola'' @ [nul])) \<and>
      pipe_ring (demo_pipe ''0_read'' ''0_write'' 3 (''hola'' @ [nul])) \<and>
      pipe_sems two_pipes (demo_pipe ''0_read'' ''0_write'' 3 (''hola'' @ [nul])) 0x10 0x20 \<and>
      val (sys two_pipes) 0x10 = int (unat (psize (demo_pipe ''0_read'' ''0_write'' 3 (''hola'' @ [nul])))) \<and>
      val (sys two_pipes) 0x20 = int PIPE_BUFFER - int (unat (psize (demo_pipe ''0_read'' ''0_write'' 3 (''hola'' @ [nul]))))"
    using m(1) ring se(1) v sz [of "''hola'' @ [nul]"] by simp
  then show "pipe_ok 0x100 two_pipes" unfolding pipe_ok_def using stage_pid(1) m(3) by auto
  have "pipe_mem two_pipes 0x200 = Some (demo_pipe ''1_read'' ''1_write'' 5 []) \<and>
      pipe_ring (demo_pipe ''1_read'' ''1_write'' 5 []) \<and>
      pipe_sems two_pipes (demo_pipe ''1_read'' ''1_write'' 5 []) 0x30 0x40 \<and>
      val (sys two_pipes) 0x30 = int (unat (psize (demo_pipe ''1_read'' ''1_write'' 5 []))) \<and>
      val (sys two_pipes) 0x40 = int PIPE_BUFFER - int (unat (psize (demo_pipe ''1_read'' ''1_write'' 5 [])))"
    using m(2) ring se(2) v sz [of "[]"] by simp
  then show "pipe_ok 0x200 two_pipes" unfolding pipe_ok_def using stage_pid(1) m(3) by auto
  show "contents 0x100 two_pipes = ''hola'' @ [nul]" "contents 0x200 two_pipes = []"
    by (simp_all add: contents_def m) (simp_all add: demo_pipe_def ring_def upt_rec)
  show "sems_of 0x100 two_pipes = {0x10, 0x20}" "sems_of 0x200 two_pipes = {0x30, 0x40}"
    using ts by (auto simp: sems_of_def m demo_pipe_def)
  show "find_pipe 3 two_pipes = Some 0x100" "find_pipe 6 two_pipes = Some 0x200"
    by (simp_all add: find_pipe_def get_pipe_idx_def upt_rec aget_def pipe_at_def two_pipes_def demo_pipe_def)
  show "kern (sys two_pipes) = stage_kernel" by (rule m(3))
qed

section \<open>Properties\<close>

text \<open>C30: a pipeline moves its data. A process whose standard input is one pipe and whose standard output is
  another runs \<open>cat\<close>, \<open>filter\<close> or \<open>wc\<close> through system calls alone: it consumes the input up to the character 0, over the
  ends of lines (where the README has \<open>wc\<close> and \<open>filter\<close> stop, as it says, at Enter), and
  the other pipe receives the input with its idle backspaces dropped, or its vowels in order, or its numbers of
  lines, words and characters, as long as it has room; whatever the buffers and registers of the process.\<close>

theorem stages_transform:
  assumes "stage_ok p q M" and "contents p (psys M) = s @ nul # r" and "nul \<notin> set s" and "length s < 2 ^ 31"
    and "prog \<in> {(cat, echoed 0 s), (filter_stream, filter is_vowel s), (wc, concat (map item_text (wc_line s)))}"
    and "length (contents q (psys M)) + length (snd prog) \<le> PIPE_BUFFER"
  shows "\<exists>M'. fst prog (machine_call E addr buf regs) M = Some M' \<and> stage_ok p q M' \<and> contents p (psys M') = r \<and>
           contents q (psys M') = contents q (psys M) @ snd prog"
proof -
  note e = emits_pipe [OF assms(6)]
  from assms(5) consider "prog = (cat, echoed 0 s)" | "prog = (filter_stream, filter is_vowel s)" |
    "prog = (wc, concat (map item_text (wc_line s)))" by blast
  then show ?thesis
  proof cases
    case 1
    then show ?thesis using stage.cat_loop_echoes [OF assms(1-3), of 0] e assms(4) by (auto simp: cat_def)
  next
    case 2
    then show ?thesis using stage.filter_copies_vowels [OF assms(1-3)] e by auto
  next
    case 3
    have "stage.emits (concat (map item_text (wc_line s))) (contents q (psys M)) = Some (contents q (psys M) @ snd prog)"
      using e 3 by simp
    from stage.wc_prints_counts [OF assms(1-3) this] 3 show ?thesis by auto
  qed
qed

theorem stages_transform_witness:
  "\<forall>E addr buf regs. \<exists>M'. filter_stream (machine_call E addr buf regs) (pipe_machine two_pipes) = Some M' \<and>
     contents 0x200 (psys M') = ''oa''"
proof (intro allI)
  fix E addr buf regs
  note t = two_pipes_ok
  have M: "psys (pipe_machine two_pipes) = two_pipes" by (simp add: pipe_machine_def)
  have ok: "stage_ok 0x100 0x200 (pipe_machine two_pipes)"
    using t stage_pid by (simp add: stage_ok_def stage_fd_def M)
  have "filter is_vowel ''hola'' = ''oa''" by (simp add: is_vowel_def)
  then show "\<exists>M'. filter_stream (machine_call E addr buf regs) (pipe_machine two_pipes) = Some M' \<and>
      contents 0x200 (psys M') = ''oa''"
    using stages_transform [OF ok, of "''hola''" "[]" "(filter_stream, filter is_vowel ''hola'')" E addr buf regs]
    by (auto simp: M t)
qed

end
