(* ===== verification/GolfKernel.thy ===== *)
theory GolfKernel
  imports Golf UserKernel
begin

text \<open>
  Pongis Golf on the kernel: through its system calls the machine is a display in the sense of the game's
  contract, so a game never stops short and never leaves the screen.
\<close>

section \<open>Drawing keeps the mode\<close>

lemma drawHLine_mode: "same_mode V (drawHLine c a b y V)"
  unfolding drawHLine_def Let_def by (simp split: prod.split add: fold_mode)

lemma fillCircle_mode: "same_mode V (fillCircleOctants c xc yc dx dy V)"
  unfolding fillCircleOctants_def by (meson drawHLine_mode same_mode_trans)

lemma circle_loop_mode: "same_mode V (circle_loop c xc yc x y p V)"
proof (induction c xc yc x y p V rule: circle_loop.induct)
  case (1 c xc yc x y p V)
  show ?case
  proof (cases "x <s y")
    case True
    show ?thesis
      unfolding circle_loop.simps [of c xc yc x y p V] Let_def if_P [OF True]
      by (rule same_mode_trans [OF fillCircle_mode 1 [OF True refl refl refl]])
  next
    case False
    then show ?thesis by (subst circle_loop.simps) simp
  qed
qed

lemma drawCircle_mode: "same_mode V (Video.drawCircle r c xc yc V)"
  unfolding Video.drawCircle_def by (simp add: same_mode_trans [OF fillCircle_mode circle_loop_mode])

lemma drawRectangle_mode: "same_mode V (Video.drawRectangle a b c x y V)"
  unfolding Video.drawRectangle_def by (simp add: fold_mode)

text \<open>What never changes: the size of the screen.\<close>

definition same_size :: "terminal \<Rightarrow> terminal \<Rightarrow> bool" where
  "same_size T T' \<longleftrightarrow> vbe_width (scr T') = vbe_width (scr T) \<and> vbe_height (scr T') = vbe_height (scr T)"

lemma put_char_size:
  assumes "Video.getScreenWidth (scr T) \<noteq> 0"
  shows "\<exists>T'. put_char a b c T = Some T' \<and> same_size T T'"
  using assms
  by (auto simp: put_char_def put_special_def Let_def same_size_def same_modeD [OF drawRectangle_mode] same_modeD [OF drawChar_mode])

section \<open>The machine as a display\<close>

definition size_of :: "machine \<Rightarrow> u16 \<times> u16" where
  "size_of M = (vbe_width (scr (tty M)), vbe_height (scr (tty M)))"

definition display_ok :: "u16 \<Rightarrow> u16 \<Rightarrow> machine \<Rightarrow> bool" where
  "display_ok wd ht M \<longleftrightarrow>
     wd \<noteq> 0 \<and> size_of M = (wd, ht) \<and> (\<exists>f. getProcesFd 1 (the_kernel M) = Some f \<and> (ucast f :: u8) = 1)"

lemma size_of_mem [simp]: "size_of (with_mem_of f M) = size_of M"
  by (simp add: size_of_def with_mem_of_def)

lemma display_ok_step:
  "display_ok wd ht M \<Longrightarrow> size_of M' = size_of M \<Longrightarrow> psys M' = psys M \<Longrightarrow> display_ok wd ht M'"
  by (simp add: display_ok_def)

lemma circle_call:
  "\<exists>M'. machine_call E addr buf regs (Sys_drawCircle r c x y) M = Some (0, [], M') \<and> size_of M' = size_of M \<and> psys M' = psys M"
  by (simp add: machine_call_def stub_def syscallDispatcher_def Let_def answer_def size_of_def Syscalls.on_screen_def
      same_modeD [OF drawCircle_mode])

lemma clear_call:
  "\<exists>M'. machine_call E addr buf regs Sys_clearScreen M = Some (0, [], M') \<and> size_of M' = size_of M \<and> psys M' = psys M"
  by (simp add: machine_call_def stub_def syscallDispatcher_def Let_def answer_def size_of_def clear_terminal_def
      Video.clearScreen_def same_modeD [OF drawRectangle_mode])

lemma width_call:
  "machine_call E addr buf regs Sys_getScreenWidth M = Some (ucast (fst (size_of M)), [], M)"
  "machine_call E addr buf regs Sys_getScreenHeight M = Some (ucast (snd (size_of M)), [], M)"
  by (simp_all add: machine_call_def stub_def syscallDispatcher_def Let_def answer_def size_of_def
      Video.getScreenWidth_def Video.getScreenHeight_def)

lemma down_up32 [simp]: "ucast (ucast (b :: u32) :: u64) = b"
  by (rule bit_word_eqI) (auto simp: bit_ucast_iff)

lemma down_up16 [simp]: "ucast (ucast (b :: u16) :: u64) = b"
  by (rule bit_word_eqI) (auto simp: bit_ucast_iff)

lemma sound_call:
  assumes "f \<noteq> 0"
  shows "\<exists>M'. machine_call E addr buf regs (Sys_playSound f d) M = Some (0, [], M') \<and> size_of M' = size_of M \<and> psys M' = psys M"
proof -
  obtain s where "playSoundForDuration f d (ports M) = Some s"
    using assms by (auto simp: playSoundForDuration_def play_sound_def Let_def)
  then show ?thesis
    by (simp add: machine_call_def stub_def syscallDispatcher_def Let_def answer_def size_of_def)
qed

lemma print_call:
  assumes "display_ok wd ht M"
  shows "\<exists>r M'. machine_call E addr buf regs (Sys_write 1 [ch] 1) M = Some (r, [], M') \<and> size_of M' = size_of M \<and> psys M' = psys M"
proof -
  let ?T = "tty (with_mem_of (store_bytes buf [char_byte ch]) M)"
  have "Video.getScreenWidth (scr ?T) \<noteq> 0"
    using assms by (auto simp: display_ok_def size_of_def Video.getScreenWidth_def with_mem_of_def)
  from put_char_size [OF this] obtain T where
    T: "put_char (getCurrentFontWidth (currentFont (scr ?T))) (getCurrentFontHeight (currentFont (scr ?T)))
          (byte_char (tmem ?T (buf + of_nat 0))) ?T = Some T" "same_size ?T T" by blast
  have "terminal_write buf 1 ?T = Some T"
    using T(1) by (simp add: terminal_write_def Let_def)
  then show ?thesis using T(2)
    by (simp add: machine_call_def stub_def syscallDispatcher_def Let_def answer_def reply_def sys_write_def size_of_def
        same_size_def with_mem_of_def)
qed

interpretation golf: display "machine_call E addr buf regs" "display_ok wd ht" wd ht for E addr buf regs wd ht
proof
  fix M
  assume ok: "display_ok wd ht M"
  note st = display_ok_step [OF ok]
  show "\<exists>M'. UserLib.drawCircle (machine_call E addr buf regs) r c x y M = Some M' \<and> display_ok wd ht M'" for r c x y
    using circle_call [of E addr buf regs r c x y M] st by (auto simp: UserLib.drawCircle_def tell_def)
  show "\<exists>M'. UserLib.getScreenWidth (machine_call E addr buf regs) M = Some (wd, M') \<and> display_ok wd ht M'"
    using ok by (simp add: UserLib.getScreenWidth_def ask_def width_call) (simp add: display_ok_def)
  show "\<exists>M'. UserLib.getScreenHeight (machine_call E addr buf regs) M = Some (ht, M') \<and> display_ok wd ht M'"
    using ok by (simp add: UserLib.getScreenHeight_def ask_def width_call) (simp add: display_ok_def)
  show "\<exists>M'. UserLib.clearScreen (machine_call E addr buf regs) M = Some M' \<and> display_ok wd ht M'"
    using clear_call [of E addr buf regs M] st by (auto simp: UserLib.clearScreen_def tell_def)
  show "\<exists>M'. playSound (machine_call E addr buf regs) f d M = Some M' \<and> display_ok wd ht M'" if "f \<noteq> 0" for f d
    using sound_call [OF that, of E addr buf regs d M] st by (auto simp: playSound_def tell_def)
  show "\<exists>M'. putchar (machine_call E addr buf regs) ch M = Some M' \<and> display_ok wd ht M'" for ch
  proof -
    from ok obtain f where f: "getProcesFd (int 1) (the_kernel M) = Some f" "(ucast f :: u8) = 1"
      by (auto simp: display_ok_def)
    have fd: "machine_call E addr buf regs (Sys_getProcessFd 1) M = Some (scast f, [], M)"
      using fd_call [OF f(1)] by simp
    show ?thesis using print_call [OF ok, of E addr buf regs ch] st f(2) by (auto simp: putchar_def ask_def tell_def fd)
  qed
qed

section \<open>The opening\<close>

definition opened :: "8 word \<Rightarrow> game" where
  "opened n =
     new_game\<lparr>mip2 := (if n = 2 then (mip2 new_game)\<lparr>mip_x := 100, mip_y := 200\<rparr> else mip2 new_game),
              hole := (hole new_game)\<lparr>hole_radius := 60\<rparr>, players := n\<rparr>"

lemma opened_ok: "220 < unat wd \<Longrightarrow> 220 < unat ht \<Longrightarrow> game_ok wd ht (opened n)"
  by (simp add: game_ok_def opened_def new_game_def new_mip_def mip_ok_def ball_ok_def inside_def)

text \<open>The hole of the opening, at (500, 500) with radius 60, is on every screen of more than 560 pixels each way.\<close>

definition hole_ok :: "u16 \<Rightarrow> u16 \<Rightarrow> HoleT \<Rightarrow> bool" where
  "hole_ok wd ht h \<longleftrightarrow> inside wd ht (hole_radius h) (hole_x h) (hole_y h)"

lemma opened_hole: "hole_ok wd ht (hole (opened n)) \<longleftrightarrow> 560 < unat wd \<and> 560 < unat ht"
  by (simp add: hole_ok_def opened_def new_game_def inside_def)

lemma opened_not_over: "\<not> checkHoleCollision (ball (opened n)) (hole (opened n))"
  by (simp add: opened_def new_game_def checkHoleCollision_def touching_def)

definition golf_machine :: machine where
  "golf_machine =
     pipe_machine (boot_pipes\<lparr>sys := boot_system\<lparr>kern :=
       running_kernel\<lparr>procs := (procs running_kernel)(currentProcess running_kernel \<mapsto>
         (pr_of running_kernel (currentProcess running_kernel))\<lparr>fileDescriptors := [0, 1, 2]\<rparr>)\<rparr>\<rparr>\<rparr>)"

lemma golf_machine_ok: "display_ok 1024 768 golf_machine"
proof -
  obtain pr where "pcb running_kernel (currentProcess running_kernel) = Some pr"
    using running_pid(1) by (auto simp: getPid_def)
  then have "currentProcess running_kernel \<noteq> NULL" by (auto simp: pcb_def split: if_splits)
  then show ?thesis
    by (simp add: display_ok_def golf_machine_def pipe_machine_def size_of_def demo_terminal_def demo_screen_def
        getProcesFd_def pcb_def)
qed

section \<open>Properties\<close>

text \<open>C31: a game of golf on the kernel. Whatever keys are pressed, the game goes on key by key without a fault, every
  player stays wholly on the screen and looks in one of the four directions, the ball stays on the screen and on
  the grid of its steps, the hole stays where it is, and the game is over exactly when the ball has reached the hole. The
  game starts with players and ball on the screen, which the opening gives on screens of more than 220 pixels each way
  (\<open>opened_ok\<close>), and with the ball outside the hole; the hole is on the screen when that has more than 560 pixels each way (\<open>opened_hole\<close>).\<close>

theorem golf_stays_on_screen:
  assumes "display_ok wd ht M" and "game_ok wd ht g" and "\<not> checkHoleCollision (ball g) (hole g)"
  shows "\<exists>g' on M'. play_keys (machine_call E addr buf regs) keys g M = Some (g', on, M') \<and> game_ok wd ht g' \<and>
           on = (\<not> checkHoleCollision (ball g') (hole g')) \<and> hole g' = hole g \<and> players g' = players g \<and>
           display_ok wd ht M'"
  using golf.play_keys_ok [OF assms] by blast

theorem golf_stays_on_screen_witness:
  "\<forall>E addr buf regs. \<exists>g' on M'. play_keys (machine_call E addr buf regs) ''wdw'' (opened 2) golf_machine = Some (g', on, M') \<and>
     game_ok 1024 768 g' \<and> hole_ok 1024 768 (hole g')"
proof (intro allI)
  fix E addr buf regs
  have o: "game_ok 1024 768 (opened 2)" by (rule opened_ok) simp_all
  have h: "hole_ok 1024 768 (hole (opened 2))" by (simp add: opened_hole)
  show "\<exists>g' on M'. play_keys (machine_call E addr buf regs) ''wdw'' (opened 2) golf_machine = Some (g', on, M') \<and>
     game_ok 1024 768 g' \<and> hole_ok 1024 768 (hole g')"
    using golf_stays_on_screen [OF golf_machine_ok o opened_not_over,
        where E = E and addr = addr and buf = buf and regs = regs and keys = "''wdw''"] h by auto
qed

end
