(* ===== verification/Mvar.thy ===== *)
theory Mvar
  imports UserIO
begin

text \<open>
  \<open>Userland/UserApps/ReadersWriters/readersWriters.c\<close>: the command \<open>mvar\<close>, writers and readers that share one
  character guarded by two semaphores. The processes interleave at every access to the semaphores and to the
  character; a wait on a semaphore without permits cannot be taken.
\<close>

section \<open>Starting\<close>

definition letters :: string where "letters = ''ABCDEFGHIJKLMNOPQRSTUVWXYZ''"

text \<open>The result of \<open>mem_alloc\<close> is written through unchecked; the null pointer faults.\<close>

definition new_block :: "'w kernel_calls \<Rightarrow> u64 \<Rightarrow> 'w \<Rightarrow> 'w option" where
  "new_block k n w = do { (p, w) \<leftarrow> mem_alloc k n w; if p = NULL then None else Some w }"

definition start_writer :: "'w kernel_calls \<Rightarrow> nat \<Rightarrow> 'w \<Rightarrow> 'w option" where
  "start_writer k i w =
     do {
       w \<leftarrow> new_block k 2 w;
       w \<leftarrow> new_block k 16 w;
       (_, w) \<leftarrow> createProcess k ''Writer'' ''writerMain'' 1 [[letters ! (i mod 26)]] None False w;
       Some w
     }"

text \<open>The number of a reader is written in base 6, into a block of 6 bytes.\<close>

definition start_reader :: "'w kernel_calls \<Rightarrow> nat \<Rightarrow> 'w \<Rightarrow> 'w option" where
  "start_reader k j w =
     do {
       w \<leftarrow> new_block k 6 w;
       text \<leftarrow> itoa (of_nat j) (replicate 6 nul) 6;
       w \<leftarrow> new_block k 16 w;
       (_, w) \<leftarrow> createProcess k ''Reader'' ''readerMain'' 1 [takeWhile (\<lambda>c. c \<noteq> nul) text] None False w;
       Some w
     }"

fun start_all :: "(nat \<Rightarrow> 'w \<Rightarrow> 'w option) \<Rightarrow> nat list \<Rightarrow> 'w \<Rightarrow> 'w option" where
  "start_all f [] w = Some w"
| "start_all f (i # is) w = do { w \<leftarrow> f i w; start_all f is w }"

definition count_arg :: "string list \<Rightarrow> nat \<Rightarrow> u32 option" where
  "count_arg argv i = (if i < length argv then atoi (argv ! i @ [nul]) else Some 2)"

definition mainMvar :: "'w kernel_calls \<Rightarrow> string list \<Rightarrow> 'w \<Rightarrow> ((ptr \<times> ptr) \<times> 'w) option" where
  "mainMvar k argv w =
     do {
       writerCount \<leftarrow> count_arg argv 1;
       readerCount \<leftarrow> count_arg argv 2;
       (semEmpty, w) \<leftarrow> semOpen k ''mvar_empty'' 1 w;
       (semFull, w) \<leftarrow> semOpen k ''mvar_full'' 0 w;
       w \<leftarrow> start_all (start_writer k) [0..<nat (sint writerCount)] w;
       w \<leftarrow> start_all (start_reader k) [0..<nat (sint readerCount)] w;
       (pid, w) \<leftarrow> getPID k w;
       w \<leftarrow> kill k pid w;
       Some ((semEmpty, semFull), w)
     }"

section \<open>What a reader prints\<close>

text \<open>\<open>s\<close> is the local array of ten characters; one more byte is written than was filled in.\<close>

fun copy_id :: "string \<Rightarrow> nat \<Rightarrow> string \<Rightarrow> (nat \<times> string) option" where
  "copy_id [] i s = Some (i, s)"
| "copy_id (c # cs) i s = do { s \<leftarrow> aset s i c; copy_id cs (Suc i) s }"

definition readerConsume :: "'w kernel_calls \<Rightarrow> string \<Rightarrow> char \<Rightarrow> string \<Rightarrow> 'w \<Rightarrow> 'w option" where
  "readerConsume k s v ident w =
     do {
       s \<leftarrow> aset s 0 v;
       s \<leftarrow> aset s 1 (CHR ''('');
       (i, s) \<leftarrow> copy_id ident 2 s;
       s \<leftarrow> aset s i (CHR '')'');
       s \<leftarrow> aset s (i + 1) (CHR 0x0A);
       if i + 3 > length s then None
       else tell k (Sys_write 1 (take (i + 3) s) (of_nat (i + 3))) w
     }"

lemma copy_id_ok: "i + length cs \<le> length s \<Longrightarrow> copy_id cs i s = Some (i + length cs, take i s @ cs @ drop (i + length cs) s)"
proof (induction cs arbitrary: i s)
  case (Cons c cs)
  then have "i < length s" by simp
  with Cons show ?case by (simp add: aset_def take_Suc_conv_app_nth nth_list_update list_update_append upd_conv_take_nth_drop add.commute)
qed simp

section \<open>The shared character\<close>

datatype writer_pc = W_wait | W_store | W_post
datatype reader_pc = R_sleep | R_wait | R_take | R_clear | R_post | R_consume

text \<open>
  The semaphores with their permits, the character, every writer with its symbol, every reader with the
  character it took; and what has been stored and taken so far.
\<close>

record mvar =
  empties :: nat
  fulls :: nat
  slot :: char
  writers :: "(char \<times> writer_pc) list"
  readers :: "(char \<times> reader_pc) list"
  stored :: string
  taken :: string

datatype who = Writer nat | Reader nat

text \<open>The next step of a process in \<open>writerMain\<close> and \<open>readerMain\<close>; none when it has to wait.\<close>

fun turn :: "who \<Rightarrow> mvar \<Rightarrow> mvar option" where
  "turn (Writer i) s =
     (if i < length (writers s)
      then let (symbol, pc) = writers s ! i; at = (\<lambda>pc s. s\<lparr>writers := (writers s)[i := (symbol, pc)]\<rparr>)
           in (case pc of
                 W_wait \<Rightarrow> if empties s = 0 then None else Some (at W_store (s\<lparr>empties := empties s - 1\<rparr>))
               | W_store \<Rightarrow> Some (at W_post (s\<lparr>slot := symbol, stored := stored s @ [symbol]\<rparr>))
               | W_post \<Rightarrow> Some (at W_wait (s\<lparr>fulls := fulls s + 1\<rparr>)))
      else None)"
| "turn (Reader j) s =
     (if j < length (readers s)
      then let (c, pc) = readers s ! j; at = (\<lambda>c pc s. s\<lparr>readers := (readers s)[j := (c, pc)]\<rparr>)
           in (case pc of
                 R_sleep \<Rightarrow> Some (at c R_wait s)
               | R_wait \<Rightarrow> if fulls s = 0 then None else Some (at c R_take (s\<lparr>fulls := fulls s - 1\<rparr>))
               | R_take \<Rightarrow> Some (at (slot s) R_clear (s\<lparr>taken := taken s @ [slot s]\<rparr>))
               | R_clear \<Rightarrow> Some (at c R_post (s\<lparr>slot := nul\<rparr>))
               | R_post \<Rightarrow> Some (at c R_consume (s\<lparr>empties := empties s + 1\<rparr>))
               | R_consume \<Rightarrow> Some (at c R_sleep s))
      else None)"

inductive mvar_step :: "mvar \<Rightarrow> mvar \<Rightarrow> bool" where
  step: "turn p s = Some s' \<Longrightarrow> mvar_step s s'"

inductive_cases mvar_stepE [elim!]: "mvar_step s s'"

definition mvar_start :: "nat \<Rightarrow> nat \<Rightarrow> mvar" where
  "mvar_start m n =
     \<lparr>empties = 1, fulls = 0, slot = nul, writers = map (\<lambda>i. (letters ! (i mod 26), W_wait)) [0..<m],
      readers = replicate n (nul, R_sleep), stored = [], taken = []\<rparr>"

section \<open>Invariant\<close>

text \<open>How many processes are at a point of their program.\<close>

definition at_pc :: "'p \<Rightarrow> (char \<times> 'p) list \<Rightarrow> nat" where
  "at_pc pc xs = length (filter (\<lambda>x. snd x = pc) xs)"

lemma at_pc_update:
  assumes "i < length xs"
  shows "at_pc pc (xs[i := (c, pc')]) = at_pc pc xs + (if pc' = pc then 1 else 0) - (if snd (xs ! i) = pc then 1 else 0)"
proof -
  have x: "xs = take i xs @ xs ! i # drop (Suc i) xs" using assms by (rule id_take_nth_drop)
  have u: "xs[i := (c, pc')] = take i xs @ (c, pc') # drop (Suc i) xs" using assms by (rule upd_conv_take_nth_drop)
  have "at_pc pc xs = at_pc pc (take i xs) + (if snd (xs ! i) = pc then 1 else 0) + at_pc pc (drop (Suc i) xs)"
    unfolding at_pc_def by (subst x) simp
  moreover have "at_pc pc (xs[i := (c, pc')]) = at_pc pc (take i xs) + (if pc' = pc then 1 else 0) + at_pc pc (drop (Suc i) xs)"
    unfolding at_pc_def u by simp
  ultimately show ?thesis by simp
qed

lemma at_pc_pos: "i < length xs \<Longrightarrow> xs ! i = (c, pc) \<Longrightarrow> 0 < at_pc pc xs"
  by (auto simp: at_pc_def filter_empty_conv) (metis nth_mem snd_conv)

text \<open>The processes that hold the character, and the characters stored and not yet taken.\<close>

definition holders :: "mvar \<Rightarrow> nat" where
  "holders s = at_pc W_store (writers s) + at_pc W_post (writers s) + at_pc R_take (readers s) +
     at_pc R_clear (readers s) + at_pc R_post (readers s)"

definition unread :: "mvar \<Rightarrow> nat" where
  "unread s = fulls s + at_pc W_post (writers s) + at_pc R_take (readers s)"

definition mvar_inv :: "mvar \<Rightarrow> bool" where
  "mvar_inv s \<longleftrightarrow> empties s + fulls s + holders s = 1 \<and> stored s = taken s @ (if unread s = 0 then [] else [slot s])"

lemmas mvar_defs = mvar_inv_def holders_def unread_def

lemma writer_keeps:
  assumes inv: "mvar_inv s" and t: "turn (Writer i) s = Some s'"
  shows "mvar_inv s'"
proof -
  from t have i: "i < length (writers s)" by (auto split: if_splits)
  obtain symbol pc where w: "writers s ! i = (symbol, pc)" by fastforce
  note u = at_pc_update [OF i, of _ symbol] and p = at_pc_pos [OF i w]
  show ?thesis
  proof (cases pc)
    case W_wait
    with t i w have e: "empties s \<noteq> 0" "s' = s\<lparr>empties := empties s - 1, writers := (writers s)[i := (symbol, W_store)]\<rparr>"
      by (auto split: if_splits)
    show ?thesis using inv e(1) unfolding e(2) mvar_defs by (simp add: u w W_wait)
  next
    case W_store
    with t i w have e: "s' = s\<lparr>slot := symbol, stored := stored s @ [symbol], writers := (writers s)[i := (symbol, W_post)]\<rparr>"
      by auto
    show ?thesis using inv p unfolding e mvar_defs by (auto simp: u w W_store split: if_splits)
  next
    case W_post
    with t i w have e: "s' = s\<lparr>fulls := fulls s + 1, writers := (writers s)[i := (symbol, W_wait)]\<rparr>" by auto
    show ?thesis using inv p unfolding e mvar_defs by (auto simp: u w W_post split: if_splits)
  qed
qed

lemma reader_keeps:
  assumes inv: "mvar_inv s" and t: "turn (Reader j) s = Some s'"
  shows "mvar_inv s'"
proof -
  from t have j: "j < length (readers s)" by (auto split: if_splits)
  obtain c pc where r: "readers s ! j = (c, pc)" by fastforce
  note u = at_pc_update [OF j] and p = at_pc_pos [OF j r]
  show ?thesis
  proof (cases pc)
    case R_sleep
    with t j r have e: "s' = s\<lparr>readers := (readers s)[j := (c, R_wait)]\<rparr>" by auto
    show ?thesis using inv unfolding e mvar_defs by (simp add: u r R_sleep)
  next
    case R_wait
    with t j r have e: "fulls s \<noteq> 0" "s' = s\<lparr>fulls := fulls s - 1, readers := (readers s)[j := (c, R_take)]\<rparr>"
      by (auto split: if_splits)
    show ?thesis using inv e(1) unfolding e(2) mvar_defs by (auto simp: u r R_wait split: if_splits)
  next
    case R_take
    with t j r have e: "s' = s\<lparr>taken := taken s @ [slot s], readers := (readers s)[j := (slot s, R_clear)]\<rparr>" by auto
    show ?thesis using inv p unfolding e mvar_defs by (auto simp: u r R_take split: if_splits)
  next
    case R_clear
    with t j r have e: "s' = s\<lparr>slot := nul, readers := (readers s)[j := (c, R_post)]\<rparr>" by auto
    show ?thesis using inv p unfolding e mvar_defs by (auto simp: u r R_clear split: if_splits)
  next
    case R_post
    with t j r have e: "s' = s\<lparr>empties := empties s + 1, readers := (readers s)[j := (c, R_consume)]\<rparr>" by auto
    show ?thesis using inv p unfolding e mvar_defs by (auto simp: u r R_post split: if_splits)
  next
    case R_consume
    with t j r have e: "s' = s\<lparr>readers := (readers s)[j := (c, R_sleep)]\<rparr>" by auto
    show ?thesis using inv unfolding e mvar_defs by (simp add: u r R_consume)
  qed
qed

lemma mvar_step_keeps: "mvar_step s s' \<Longrightarrow> mvar_inv s \<Longrightarrow> mvar_inv s'"
proof (elim mvar_stepE)
  fix p assume "mvar_inv s" "turn p s = Some s'"
  then show ?thesis by (cases p) (auto intro: writer_keeps reader_keeps)
qed

lemma mvar_start_inv: "mvar_inv (mvar_start m n)"
  by (simp add: mvar_start_def mvar_defs at_pc_def filter_empty_conv)

text \<open>The processes stay, and only their symbols are stored.\<close>

lemma step_frame:
  assumes "mvar_step s s'"
  shows "map fst (writers s') = map fst (writers s) \<and> length (readers s') = length (readers s) \<and>
           set (stored s') \<subseteq> set (stored s) \<union> set (map fst (writers s))"
proof -
  from assms obtain p where t: "turn p s = Some s'" by blast
  have m: "map fst (xs[i := (c, pc)]) = map fst xs" if "i < length xs" "xs ! i = (c, old)" for xs :: "(char \<times> writer_pc) list" and i c pc old
    using that by (simp add: map_update list_update_same_conv)
  show ?thesis
  proof (cases p)
    case (Writer i)
    with t have i: "i < length (writers s)" by (auto split: if_splits)
    obtain symbol pc where w: "writers s ! i = (symbol, pc)" by fastforce
    have "symbol \<in> fst ` set (writers s)" using i w by (metis fst_conv image_eqI nth_mem)
    then show ?thesis using t i w Writer by (cases pc) (force simp: m [OF i w] split: if_splits)+
  next
    case (Reader j)
    with t show ?thesis by (auto split: prod.splits reader_pc.splits if_splits)
  qed
qed

lemma mvar_reachable:
  "mvar_step\<^sup>*\<^sup>* (mvar_start m n) s \<Longrightarrow>
     mvar_inv s \<and> map fst (writers s) = map (\<lambda>i. letters ! (i mod 26)) [0..<m] \<and> length (readers s) = n \<and>
     set (stored s) \<subseteq> set letters"
proof (induction rule: rtranclp_induct)
  case base
  show ?case by (simp add: mvar_start_inv) (simp add: mvar_start_def)
next
  case (step y z)
  have "letters ! (i mod 26) \<in> set letters" for i by (rule nth_mem) (simp add: letters_def)
  then have "set (map (\<lambda>i. letters ! (i mod 26)) [0..<m]) \<subseteq> set letters" by auto
  with step mvar_step_keeps [OF step(2)] step_frame [OF step(2)] show ?case by (simp del: set_map) blast
qed

lemma at_pc_ex:
  assumes "0 < at_pc pc xs"
  shows "\<exists>i c. i < length xs \<and> xs ! i = (c, pc)"
proof -
  from assms have "filter (\<lambda>x. snd x = pc) xs \<noteq> []" by (simp add: at_pc_def)
  then obtain c where "(c, pc) \<in> set xs" by (auto simp: filter_empty_conv)
  then show ?thesis unfolding in_set_conv_nth by blast
qed

text \<open>Somebody can always go on.\<close>

lemma mvar_progress:
  assumes inv: "mvar_inv s" and ws: "0 < length (writers s)" and rs: "0 < length (readers s)"
  shows "\<exists>p s'. turn p s = Some s'"
proof (cases "holders s = 0")
  case False
  then have "0 < at_pc W_store (writers s) \<or> 0 < at_pc W_post (writers s) \<or> 0 < at_pc R_take (readers s) \<or>
      0 < at_pc R_clear (readers s) \<or> 0 < at_pc R_post (readers s)" unfolding holders_def by linarith
  then consider "0 < at_pc W_store (writers s)" | "0 < at_pc W_post (writers s)" | "0 < at_pc R_take (readers s)"
    | "0 < at_pc R_clear (readers s)" | "0 < at_pc R_post (readers s)" by argo
  then show ?thesis
  proof cases
    case 1
    from at_pc_ex [OF 1] obtain i c where "i < length (writers s)" "writers s ! i = (c, W_store)" by blast
    then show ?thesis by (intro exI [of _ "Writer i"]) simp
  next
    case 2
    from at_pc_ex [OF 2] obtain i c where "i < length (writers s)" "writers s ! i = (c, W_post)" by blast
    then show ?thesis by (intro exI [of _ "Writer i"]) simp
  next
    case 3
    from at_pc_ex [OF 3] obtain i c where "i < length (readers s)" "readers s ! i = (c, R_take)" by blast
    then show ?thesis by (intro exI [of _ "Reader i"]) simp
  next
    case 4
    from at_pc_ex [OF 4] obtain i c where "i < length (readers s)" "readers s ! i = (c, R_clear)" by blast
    then show ?thesis by (intro exI [of _ "Reader i"]) simp
  next
    case 5
    from at_pc_ex [OF 5] obtain i c where "i < length (readers s)" "readers s ! i = (c, R_post)" by blast
    then show ?thesis by (intro exI [of _ "Reader i"]) simp
  qed
next
  case True
  obtain c pc where w: "writers s ! 0 = (c, pc)" by fastforce
  obtain d rc where r: "readers s ! 0 = (d, rc)" by fastforce
  note p = at_pc_pos [OF ws w] at_pc_pos [OF rs r]
  from True p have pc: "pc = W_wait" "rc \<in> {R_sleep, R_wait, R_consume}"
    by (cases pc; simp add: holders_def) (cases rc; use True p in \<open>simp add: holders_def\<close>)
  show ?thesis
  proof (cases "empties s = 0")
    case False
    with ws w pc show ?thesis by (intro exI [of _ "Writer 0"]) simp
  next
    case E: True
    with inv True have "fulls s = 1" by (simp add: mvar_inv_def)
    with rs r pc show ?thesis by (intro exI [of _ "Reader 0"]) auto
  qed
qed

section \<open>Properties\<close>

text \<open>C32: the shared character is handed over safely. In every state that any number of writers and readers reach in
  any order of their steps, at most one process is between its wait and its post; the characters taken are the
  characters stored, in the same order, with at most one not yet taken, which is in the slot; every character
  taken is a letter, never the 0 that a reader leaves; and when there are a writer and a reader, some process can
  take its next step.\<close>

theorem mvar_hands_over:
  assumes "mvar_step\<^sup>*\<^sup>* (mvar_start m n) s"
  shows "holders s \<le> 1 \<and> (stored s = taken s \<or> stored s = taken s @ [slot s]) \<and> set (taken s) \<subseteq> set letters \<and>
           (0 < m \<longrightarrow> 0 < n \<longrightarrow> (\<exists>p s'. turn p s = Some s'))"
proof -
  note r = mvar_reachable [OF assms]
  then have inv: "mvar_inv s" by simp
  have l: "length (writers s) = m" "length (readers s) = n" using r by (auto dest: map_eq_imp_length_eq)
  have "set (taken s) \<subseteq> set (stored s)" using inv by (auto simp: mvar_inv_def split: if_splits)
  moreover have "holders s \<le> 1" "stored s = taken s \<or> stored s = taken s @ [slot s]"
    using inv by (auto simp: mvar_inv_def split: if_splits)
  moreover have "0 < m \<longrightarrow> 0 < n \<longrightarrow> (\<exists>p s'. turn p s = Some s')" using mvar_progress [OF inv] l by simp
  ultimately show ?thesis using r by auto
qed

text \<open>A schedule as a list of turns.\<close>

fun turns :: "who list \<Rightarrow> mvar \<Rightarrow> mvar option" where
  "turns [] s = Some s"
| "turns (p # ps) s = do { s \<leftarrow> turn p s; turns ps s }"

lemma turns_reach: "turns ps s = Some s' \<Longrightarrow> mvar_step\<^sup>*\<^sup>* s s'"
proof (induction ps arbitrary: s)
  case (Cons p ps)
  then obtain s1 where "turn p s = Some s1" "turns ps s1 = Some s'" by (auto split: Option.bind_splits)
  with Cons.IH show ?case by (meson converse_rtranclp_into_rtranclp mvar_step.step)
qed simp

definition demo_schedule :: "who list" where
  "demo_schedule = [Reader 0, Writer 0, Writer 0, Writer 0, Reader 0, Reader 0, Reader 0, Reader 0, Writer 1, Writer 1]"

theorem mvar_hands_over_witness:
  "\<exists>s. turns demo_schedule (mvar_start 2 1) = Some s \<and> taken s = ''A'' \<and> stored s = ''AB'' \<and> holders s \<le> 1"
proof -
  have "turns demo_schedule (mvar_start 2 1) =
      Some \<lparr>empties = 0, fulls = 0, slot = CHR ''B'', writers = [(CHR ''A'', W_wait), (CHR ''B'', W_post)],
            readers = [(CHR ''A'', R_consume)], stored = ''AB'', taken = ''A''\<rparr>" (is "_ = Some ?s")
    by (simp add: demo_schedule_def mvar_start_def letters_def upt_rec)
  with mvar_hands_over [OF turns_reach [OF this]] show ?thesis by (intro exI [of _ ?s]) simp
qed

end
