(* ===== verification/Shell.thy ===== *)
theory Shell
  imports UserTools Golf Mvar
begin

text \<open>
  The shell, \<open>Userland/UserApps/Terminal/shell.c\<close>, over any kernel: the line editor, the parser that cuts the line
  up in place, and the start of commands and pipelines. The input buffer is a list of characters, a pointer into it
  an index; an access outside of it is a fault.
\<close>

section \<open>Commands\<close>

abbreviation BUFFER :: nat where "BUFFER \<equiv> 500"
abbreviation MAX_PIPE_CMDS :: nat where "MAX_PIPE_CMDS \<equiv> 3"
abbreviation MAX_COMMAND_ARGS :: nat where "MAX_COMMAND_ARGS \<equiv> 8"

definition defaultFds :: "u16 list" where "defaultFds = [0, 1, 2]"

datatype command_type = CMD_BUILTIN | CMD_PROC

text \<open>The function of a command stands as its symbol.\<close>

record command_entry =
  cname :: string
  ctype :: command_type
  cfun :: symbol

definition commands :: "command_entry list" where
  "commands =
     map (\<lambda>(n, t, f). \<lparr>cname = n, ctype = t, cfun = f\<rparr>)
      [(''help'', CMD_BUILTIN, ''help''),
       (''pongisgolf'', CMD_BUILTIN, ''startPongis''),
       (''zoom in'', CMD_BUILTIN, ''zoom_in''),
       (''zoom out'', CMD_BUILTIN, ''zoom_out''),
       (''clear'', CMD_BUILTIN, ''clear_screen''),
       (''date'', CMD_BUILTIN, ''printDateTime''),
       (''registers'', CMD_BUILTIN, ''getRegisters''),
       (''busywait'', CMD_BUILTIN, ''busy_wait''),
       (''busywaitkernel'', CMD_BUILTIN, ''busy_wait_kernel''),
       (''exit'', CMD_BUILTIN, ''exitShell''),
       (''nice'', CMD_BUILTIN, ''runNice''),
       (''block'', CMD_BUILTIN, ''runBlock''),
       (''ps'', CMD_PROC, ''runPs''),
       (''cat'', CMD_PROC, ''runCat''),
       (''mem'', CMD_PROC, ''runMem''),
       (''loop'', CMD_PROC, ''runLoop''),
       (''wc'', CMD_PROC, ''runWc''),
       (''filter'', CMD_PROC, ''runFilter''),
       (''kill'', CMD_PROC, ''runKill''),
       (''mvar'', CMD_PROC, ''runMvar''),
       (''test_mm'', CMD_PROC, ''runTestMM''),
       (''test_priority'', CMD_PROC, ''runTestPrio''),
       (''test_processes'', CMD_PROC, ''runTestProcesses''),
       (''test_synchro'', CMD_PROC, ''runTestSync'')]"

text \<open>An argument is the name of the command, a constant string, or a place in the buffer.\<close>

datatype arg_ptr = Name string | At nat

text \<open>The vector \<open>argv\<close> without the null pointer behind its \<open>argc\<close> entries.\<close>

record parsed_command =
  entry :: command_entry
  argv :: "arg_ptr list"
  background :: bool

abbreviation argc :: "parsed_command \<Rightarrow> u32" where "argc p \<equiv> of_nat (length (argv p))"

section \<open>Walking over the buffer\<close>

definition isWhitespace :: "char \<Rightarrow> bool" where
  "isWhitespace c \<longleftrightarrow> c = CHR '' '' \<or> c = tab"

lemma aget_less: "aget xs i = Some c \<Longrightarrow> i < length xs"
  by (auto simp: aget_def split: if_splits)

function scan_while :: "(char \<Rightarrow> bool) \<Rightarrow> string \<Rightarrow> nat \<Rightarrow> nat option" where
  "scan_while P buf p =
     do { c \<leftarrow> aget buf p; if c \<noteq> nul \<and> P c then scan_while P buf (Suc p) else Some p }"
  by pat_completeness auto
termination
  by (relation "measure (\<lambda>(_, buf, p). length buf - p)") (auto dest: aget_less)

declare scan_while.simps [simp del]

definition skipSpaces :: "string \<Rightarrow> nat \<Rightarrow> nat option" where
  "skipSpaces buf p = scan_while isWhitespace buf p"

definition str_len :: "string \<Rightarrow> nat \<Rightarrow> nat option" where
  "str_len buf p = map_option (\<lambda>q. q - p) (scan_while (\<lambda>_. True) buf p)"

fun rtrim_loop :: "string \<Rightarrow> nat \<Rightarrow> nat \<Rightarrow> string option" where
  "rtrim_loop buf p 0 = Some buf"
| "rtrim_loop buf p (Suc n) =
     do {
       c \<leftarrow> aget buf (p + n);
       if isWhitespace c then do { buf \<leftarrow> aset buf (p + n) nul; rtrim_loop buf p n } else Some buf
     }"

definition rtrim :: "string \<Rightarrow> nat \<Rightarrow> string option" where
  "rtrim buf p = do { n \<leftarrow> str_len buf p; rtrim_loop buf p n }"

definition trimSegment :: "string \<Rightarrow> nat \<Rightarrow> (nat \<times> string) option" where
  "trimSegment buf p = do { p \<leftarrow> skipSpaces buf p; buf \<leftarrow> rtrim buf p; Some (p, buf) }"

text \<open>The string at a place of the buffer.\<close>

definition c_str :: "string \<Rightarrow> nat \<Rightarrow> string option" where
  "c_str buf p = map_option (\<lambda>q. take (q - p) (drop p buf)) (scan_while (\<lambda>_. True) buf p)"

fun arg_str :: "string \<Rightarrow> arg_ptr \<Rightarrow> string option" where
  "arg_str buf (Name s) = Some s"
| "arg_str buf (At p) = c_str buf p"

definition arg_strs :: "string \<Rightarrow> arg_ptr list \<Rightarrow> string list option" where
  "arg_strs buf xs = those (map (arg_str buf) xs)"

section \<open>Parsing\<close>

fun match_prefix :: "string \<Rightarrow> nat \<Rightarrow> string \<Rightarrow> (string \<times> nat) option" where
  "match_prefix buf cursor [] = Some ([], cursor)"
| "match_prefix buf cursor (t # ts) =
     do { c \<leftarrow> aget buf cursor;
          if c \<noteq> nul \<and> c = t then match_prefix buf (Suc cursor) ts else Some (t # ts, cursor) }"

text \<open>Where the arguments start, if the segment is the command; the character behind the name is overwritten.\<close>

definition matchesCommandName :: "string \<Rightarrow> nat \<Rightarrow> string \<Rightarrow> (nat option \<times> string) option" where
  "matchesCommandName buf segment name =
     do {
       (target, cursor) \<leftarrow> match_prefix buf segment name;
       if target \<noteq> [] then Some (None, buf)
       else do {
         c \<leftarrow> aget buf cursor;
         if c = nul then Some (Some cursor, buf)
         else if isWhitespace c
         then do { buf \<leftarrow> aset buf cursor nul; cursor \<leftarrow> skipSpaces buf (cursor + 1); Some (Some cursor, buf) }
         else Some (None, buf)
       }
     }"

text \<open>The vector of arguments, or nothing when there are too many.\<close>

partial_function (option) fill_loop :: "string \<Rightarrow> nat \<Rightarrow> arg_ptr list \<Rightarrow> (arg_ptr list option \<times> string) option" where
  "fill_loop buf cursor args =
     do {
       c \<leftarrow> aget buf cursor;
       if c = nul then Some (Some args, buf)
       else do {
         cursor \<leftarrow> skipSpaces buf cursor;
         c \<leftarrow> aget buf cursor;
         if c = nul then Some (Some args, buf)
         else if length args - 1 \<ge> MAX_COMMAND_ARGS then Some (None, buf)
         else do {
           e \<leftarrow> scan_while (\<lambda>c. \<not> isWhitespace c) buf cursor;
           c \<leftarrow> aget buf e;
           if c = nul then Some (Some (args @ [At cursor]), buf)
           else do { buf \<leftarrow> aset buf e nul; fill_loop buf (e + 1) (args @ [At cursor]) }
         }
       }
     }"

definition fillArgVector ::
  "'w kernel_calls \<Rightarrow> command_entry \<Rightarrow> string \<Rightarrow> nat \<Rightarrow> 'w \<Rightarrow> (arg_ptr list option \<times> string \<times> 'w) option" where
  "fillArgVector k e buf argsStart w =
     do {
       (r, buf) \<leftarrow> fill_loop buf argsStart [Name (cname e)];
       w \<leftarrow> (if r = None
            then printf k (''Too many arguments. Max supported: %d'' @ [newline]) [AInt (of_nat MAX_COMMAND_ARGS)] w
            else Some w);
       Some (r, buf, w)
     }"

definition notACommand :: "'w kernel_calls \<Rightarrow> string \<Rightarrow> 'w \<Rightarrow> 'w option" where
  "notACommand k input w =
     printf k (''Command '' @ [CHR 0x22] @ ''%s'' @ [CHR 0x22] @ '' not found. Type '' @ [CHR 0x27] @ ''help'' @ [CHR 0x27] @
               '' for a list of commands.'' @ [newline]) [AStr (Some input)] w"

text \<open>The first command of the table that the segment starts with.\<close>

fun find_command :: "command_entry list \<Rightarrow> string \<Rightarrow> nat \<Rightarrow> ((command_entry \<times> nat) option \<times> string) option" where
  "find_command [] buf segment = Some (None, buf)"
| "find_command (e # es) buf segment =
     do {
       (r, buf) \<leftarrow> matchesCommandName buf segment (cname e);
       (case r of Some argsStart \<Rightarrow> Some (Some (e, argsStart), buf) | None \<Rightarrow> find_command es buf segment)
     }"

definition parseCommandSegment ::
  "'w kernel_calls \<Rightarrow> string \<Rightarrow> nat \<Rightarrow> 'w \<Rightarrow> ((command_entry \<times> arg_ptr list) option \<times> string \<times> 'w) option" where
  "parseCommandSegment k buf segment w =
     do {
       (r, buf) \<leftarrow> find_command commands buf segment;
       (case r of
          None \<Rightarrow> do { s \<leftarrow> c_str buf segment; w \<leftarrow> notACommand k s w; Some (None, buf, w) }
        | Some (e, argsStart) \<Rightarrow> do {
            (args, buf, w) \<leftarrow> fillArgVector k e buf argsStart w;
            Some (map_option (Pair e) args, buf, w)
          })
     }"

text \<open>
  The loop over the segments. The result is the number of commands, or -1; \<open>cmds\<close> are the entries of
  \<open>outCommands\<close> written so far.
\<close>

partial_function (option) parse_loop ::
  "'w kernel_calls \<Rightarrow> string \<Rightarrow> nat \<Rightarrow> parsed_command list \<Rightarrow> nat \<Rightarrow> 'w \<Rightarrow> (int \<times> parsed_command list \<times> string \<times> 'w) option" where
  "parse_loop k buf cursor cmds maxCommands w =
     do {
       segmentStart \<leftarrow> skipSpaces buf cursor;
       c \<leftarrow> aget buf segmentStart;
       if c = nul
       then if cmds = [] then Some (0, cmds, buf, w)
            else do { w \<leftarrow> printf k (''Empty command in pipeline.'' @ [newline]) [] w; Some (-1, cmds, buf, w) }
       else if length cmds \<ge> maxCommands
       then do {
         w \<leftarrow> printf k (''Pipeline too long. Max commands: %d'' @ [newline]) [AInt (of_nat maxCommands)] w;
         Some (-1, cmds, buf, w)
       }
       else do {
         scan \<leftarrow> scan_while (\<lambda>c. c \<noteq> CHR ''|'' \<and> c \<noteq> CHR ''&'') buf segmentStart;
         delimiter \<leftarrow> aget buf scan;
         buf \<leftarrow> (if delimiter = CHR ''|'' \<or> delimiter = CHR ''&'' then aset buf scan nul else Some buf);
         (cleanSegment, buf) \<leftarrow> trimSegment buf segmentStart;
         c \<leftarrow> aget buf cleanSegment;
         if c = nul
         then do { w \<leftarrow> printf k (''Empty command in pipeline.'' @ [newline]) [] w; Some (-1, cmds, buf, w) }
         else do {
           (r, buf, w) \<leftarrow> parseCommandSegment k buf cleanSegment w;
           (case r of
              None \<Rightarrow> Some (-1, cmds, buf, w)
            | Some (e, args) \<Rightarrow>
                let cmds = cmds @ [\<lparr>entry = e, argv = args, background = (delimiter = CHR ''&'')\<rparr>]
                in if delimiter = CHR ''|'' then parse_loop k buf (scan + 1) cmds maxCommands w
                   else Some (int (length cmds), cmds, buf, w))
         }
       }
     }"

definition parseEntry :: "'w kernel_calls \<Rightarrow> string \<Rightarrow> nat \<Rightarrow> 'w \<Rightarrow> (int \<times> parsed_command list \<times> string \<times> 'w) option" where
  "parseEntry k input maxCommands w = parse_loop k input 0 [] maxCommands w"

section \<open>Commands of the shell itself\<close>

fun print_all :: "('a \<Rightarrow> 'w \<Rightarrow> 'w option) \<Rightarrow> 'a list \<Rightarrow> 'w \<Rightarrow> 'w option" where
  "print_all f [] w = Some w"
| "print_all f (x # xs) w = do { w \<leftarrow> f x w; print_all f xs w }"

definition help_command :: "'w kernel_calls \<Rightarrow> 'w \<Rightarrow> 'w option" where
  "help_command k w =
     do {
       w \<leftarrow> printf k (''Commands:'' @ [newline]) [] w;
       print_all (\<lambda>e. printf k ([tab] @ ''- %s'' @ [newline]) [AStr (Some (cname e))]) commands w
     }"

definition printDateTime :: "'w kernel_calls \<Rightarrow> 'w \<Rightarrow> 'w option" where
  "printDateTime k w =
     do {
       (d, w) \<leftarrow> getDateTime k w;
       printf k ('' %d/%d/%d %d:%d:%d'' @ [newline])
         [AInt (ucast (day d)), AInt (ucast (month d)), AInt (ucast (year d)), AInt (ucast (hour d)),
          AInt (ucast (minute d)), AInt (ucast (sec d))] w
     }"

definition register_names :: "string list" where
  "register_names = [''R15'', ''R14'', ''R13'', ''R12'', ''R11'', ''R10'', ''R9 '', ''R8 '', ''RSI'', ''RDI'', ''RBP'', ''RDX'',
     ''RCX'', ''RBX'', ''RAX'', ''RIP'', ''CS '', ''FLG'', ''RSP'', ''SS '']"

definition getRegisters :: "'w kernel_calls \<Rightarrow> 'w \<Rightarrow> 'w option" where
  "getRegisters k w =
     do {
       (r, bs, w) \<leftarrow> get_regist k w;
       if r \<noteq> 0 then printf k (''No snapshot available. Press Ctrl+R first.'' @ [newline]) [] w
       else do {
         w \<leftarrow> printf k (''Register snapshot:'' @ [newline]) [] w;
         registers \<leftarrow> words_at 20 bs;
         print_all (\<lambda>(n, v). printf k (''  %s: %lu'' @ [newline]) [AStr (Some n), ALong v]) (zip register_names registers) w
       }
     }"

definition startPongis :: "'w kernel_calls \<Rightarrow> 'w \<Rightarrow> 'w option" where
  "startPongis k w =
     do {
       w \<leftarrow> printf k (''Starting Pongis Golf...'' @ [newline]) [] w;
       (_, w) \<leftarrow> startPongisGolf k w;
       clearScreen k w
     }"

text \<open>The loop that counts does nothing that can be seen.\<close>

definition busy_wait :: "'w kernel_calls \<Rightarrow> 'w \<Rightarrow> 'w option" where
  "busy_wait k w =
     do {
       w \<leftarrow> printf k (''Running userland busy-wait. Press Ctrl+R now.'' @ [newline]) [] w;
       printf k (''Userland busy-wait finished.'' @ [newline]) [] w
     }"

definition busy_wait_kernel :: "'w kernel_calls \<Rightarrow> 'w \<Rightarrow> 'w option" where
  "busy_wait_kernel k w =
     do {
       w \<leftarrow> printf k (''Running kernel busy-wait. Press Ctrl+R now.'' @ [newline]) [] w;
       w \<leftarrow> sleepMilli k 5000 w;
       printf k (''Kernel busy-wait finished.'' @ [newline]) [] w
     }"

definition exitShell :: "'w kernel_calls \<Rightarrow> 'w \<Rightarrow> 'w option" where
  "exitShell k w =
     do {
       w \<leftarrow> printf k [newline] [] w;
       w \<leftarrow> printf k (''Exiting...'' @ [newline]) [] w;
       printf k ([newline] @ ''[Exit succesful]'' @ [newline]) [] w
     }"

definition num_arg :: "string list \<Rightarrow> nat \<Rightarrow> u32 option" where
  "num_arg args i = do { s \<leftarrow> aget args i; atoi (s @ [nul]) }"

definition runNice :: "'w kernel_calls \<Rightarrow> string list \<Rightarrow> 'w \<Rightarrow> 'w option" where
  "runNice k args w =
     (if length args < 3 then printf k (''Usage: nice <pid> <new_priority>'' @ [newline]) [] w
      else do {
        pid \<leftarrow> num_arg args 1;
        newPriority \<leftarrow> num_arg args 2;
        changeProcessPriority k (scast pid) (ucast newPriority) w
      })"

definition runBlock :: "'w kernel_calls \<Rightarrow> string list \<Rightarrow> 'w \<Rightarrow> 'w option" where
  "runBlock k args w =
     (if length args < 2 then printf k (''Usage: block <pid>'' @ [newline]) [] w
      else do {
        n \<leftarrow> num_arg args 1;
        let pid = scast n;
        (st, w) \<leftarrow> getProcessStatus k pid w;
        if st = 0 then blockProcess k pid w else unblockProcess k pid w
      })"

text \<open>A command run by the shell; the first result is the variable \<open>active\<close>.\<close>

definition run_builtin :: "'w kernel_calls \<Rightarrow> symbol \<Rightarrow> string list \<Rightarrow> u8 \<Rightarrow> 'w \<Rightarrow> (u8 \<times> 'w) option" where
  "run_builtin k f args active w =
     (if f = ''exitShell'' then map_option (Pair 0) (exitShell k w)
      else map_option (Pair active)
        (if f = ''help'' then help_command k w
         else if f = ''startPongis'' then startPongis k w
         else if f = ''zoom_in'' then zoomIn k w
         else if f = ''zoom_out'' then zoomOut k w
         else if f = ''clear_screen'' then clearScreen k w
         else if f = ''printDateTime'' then printDateTime k w
         else if f = ''getRegisters'' then getRegisters k w
         else if f = ''busy_wait'' then busy_wait k w
         else if f = ''busy_wait_kernel'' then busy_wait_kernel k w
         else if f = ''runNice'' then runNice k args w
         else if f = ''runBlock'' then runBlock k args w
         else None))"

section \<open>Commands that are processes\<close>

definition runMem :: "'w kernel_calls \<Rightarrow> 'w \<Rightarrow> 'w option" where
  "runMem k w =
     do {
       (stats, w) \<leftarrow> get_mem_info k w;
       w \<leftarrow> printf k (''Memory stats:'' @ [newline]) [] w;
       w \<leftarrow> printf k (''  Total: %lu bytes'' @ [newline]) [ALong (total stats)] w;
       w \<leftarrow> printf k (''  Used:  %lu bytes'' @ [newline]) [ALong (used stats)] w;
       printf k (''  Free:  %lu bytes'' @ [newline]) [ALong (free stats)] w
     }"

definition runKill :: "'w kernel_calls \<Rightarrow> string list \<Rightarrow> 'w \<Rightarrow> (int \<times> 'w) option" where
  "runKill k args w =
     (if length args < 2 then do { w \<leftarrow> printf k (''Usage: kill <pid>'' @ [newline]) [] w; Some (-1, w) }
      else do { pid \<leftarrow> num_arg args 1; w \<leftarrow> kill k (scast pid) w; Some (0, w) })"

definition runPs :: "'w kernel_calls \<Rightarrow> 'w \<Rightarrow> 'w option" where "runPs k w = ps k w"
definition runCat :: "'w kernel_calls \<Rightarrow> 'w \<Rightarrow> 'w option" where "runCat k w = cat k w"
definition runLoop :: "'w kernel_calls \<Rightarrow> 'w \<Rightarrow> 'w option" where "runLoop k w = loop k w"
definition runWc :: "'w kernel_calls \<Rightarrow> 'w \<Rightarrow> 'w option" where "runWc k w = wc k w"
definition runFilter :: "'w kernel_calls \<Rightarrow> 'w \<Rightarrow> 'w option" where "runFilter k w = filter_stream k w"
definition runMvar :: "'w kernel_calls \<Rightarrow> string list \<Rightarrow> 'w \<Rightarrow> 'w option" where
  "runMvar k args w = map_option snd (mainMvar k args w)"

section \<open>Starting commands\<close>

definition executeSingleCommand :: "'w kernel_calls \<Rightarrow> string \<Rightarrow> parsed_command \<Rightarrow> u8 \<Rightarrow> 'w \<Rightarrow> (u8 \<times> 'w) option" where
  "executeSingleCommand k buf cmd active w =
     do {
       args \<leftarrow> arg_strs buf (argv cmd);
       let e = entry cmd;
       if ctype e = CMD_BUILTIN then run_builtin k (cfun e) args active w
       else do {
         (pid, w) \<leftarrow> createProcess k (cname e) (cfun e) (argc cmd) args (Some defaultFds) (\<not> background cmd) w;
         if pid = 0
         then do { w \<leftarrow> printf k (''Failed to start '' @ [CHR 0x22] @ ''%s'' @ [CHR 0x22] @ ''.'' @ [newline])
                          [AStr (Some (cname e))] w; Some (active, w) }
         else if \<not> background cmd then do { (_, w) \<leftarrow> waitPid k pid w; Some (active, w) }
         else do { w \<leftarrow> printf k (''[%llu] %s'' @ [newline]) [ALong pid, AStr (Some (cname e))] w; Some (active, w) }
       }
     }"

text \<open>The pipes of a pipeline with their descriptors; when one cannot be opened the others are closed again.\<close>

fun open_pipes :: "'w kernel_calls \<Rightarrow> nat list \<Rightarrow> (u16 \<times> u16 list) list \<Rightarrow> 'w \<Rightarrow> ((u16 \<times> u16 list) list option \<times> 'w) option" where
  "open_pipes k [] pipes w = Some (Some pipes, w)"
| "open_pipes k (i # is) pipes w =
     do {
       (id, fds, w) \<leftarrow> pipeOpen k w;
       if id <s 0
       then do {
         w \<leftarrow> printf k (''Failed to create pipe %u.'' @ [newline]) [AInt (of_nat i)] w;
         w \<leftarrow> print_all (\<lambda>(j, _) w. map_option snd (pipeClose k (scast j) w)) pipes w;
         Some (None, w)
       }
       else open_pipes k is (pipes @ [(id, fds)]) w
     }"

text \<open>The descriptors of the \<open>i\<close>-th of \<open>n\<close> commands.\<close>

definition stage_fds :: "(u16 \<times> u16 list) list \<Rightarrow> nat \<Rightarrow> nat \<Rightarrow> u16 list option" where
  "stage_fds pipes n i =
     do {
       rd \<leftarrow> (if i = 0 then aget defaultFds 0 else do { p \<leftarrow> aget pipes (i - 1); aget (snd p) 0 });
       wr \<leftarrow> (if i = n - 1 then aget defaultFds 1 else do { p \<leftarrow> aget pipes i; aget (snd p) 1 });
       er \<leftarrow> aget defaultFds 2;
       Some [rd, wr, er]
     }"

fun spawn :: "'w kernel_calls \<Rightarrow> string \<Rightarrow> bool \<Rightarrow> (u16 \<times> u16 list) list \<Rightarrow> nat \<Rightarrow> nat \<Rightarrow> parsed_command list \<Rightarrow>
    u64 list \<Rightarrow> 'w \<Rightarrow> (u64 list \<times> 'w) option" where
  "spawn k buf isBackground pipes n i [] pids w = Some (pids, w)"
| "spawn k buf isBackground pipes n i (cmd # cmds) pids w =
     do {
       fds \<leftarrow> stage_fds pipes n i;
       args \<leftarrow> arg_strs buf (argv cmd);
       let e = entry cmd;
       (pid, w) \<leftarrow> createProcess k (cname e) (cfun e) (argc cmd) args (Some fds) (i = n - 1 \<and> \<not> isBackground) w;
       if pid = 0
       then do { w \<leftarrow> printf k (''Failed to start '' @ [CHR 0x22] @ ''%s'' @ [CHR 0x22] @ ''.'' @ [newline])
                        [AStr (Some (cname e))] w; Some (pids, w) }
       else spawn k buf isBackground pipes n (i + 1) cmds (pids @ [pid]) w
     }"

definition executePipeline :: "'w kernel_calls \<Rightarrow> string \<Rightarrow> parsed_command list \<Rightarrow> 'w \<Rightarrow> 'w option" where
  "executePipeline k buf cmds w =
     (case find (\<lambda>c. ctype (entry c) \<noteq> CMD_PROC) cmds of
        Some c \<Rightarrow>
          printf k (''Pipelines only support process commands. '' @ [CHR 0x22] @ ''%s'' @ [CHR 0x22] @ '' is builtin.'' @ [newline])
            [AStr (Some (cname (entry c)))] w
      | None \<Rightarrow> do {
          let isBackground = background (last cmds);
          (r, w) \<leftarrow> open_pipes k [0..<length cmds - 1] [] w;
          (case r of
             None \<Rightarrow> Some w
           | Some pipes \<Rightarrow> do {
               (pids, w) \<leftarrow> spawn k buf isBackground pipes (length cmds) 0 cmds [] w;
               w \<leftarrow> (if \<not> isBackground then print_all (\<lambda>pid w. map_option snd (waitPid k pid w)) pids w
                    else do { p \<leftarrow> aget pids 0; printf k (''[%llu] pipeline started'' @ [newline]) [ALong p] w });
               print_all (\<lambda>(j, _) w. tell k (Sys_pipe_close j) w) pipes w
             })
        })"

section \<open>Editing a line\<close>

text \<open>
  The characters of the line go through the pointer \<open>c\<close>, an index into \<open>frame\<close>: the byte in front of the buffer, which
  the code looks at when the line is empty, and then the buffer.
\<close>

partial_function (option) read_line :: "'w kernel_calls \<Rightarrow> string \<Rightarrow> nat \<Rightarrow> nat \<Rightarrow> 'w \<Rightarrow> (string \<times> nat \<times> 'w) option" where
  "read_line k frame c limit_count w =
     do {
       (ch, w) \<leftarrow> getchar k w;
       frame \<leftarrow> aset frame c ch;
       (c, limit_count, full, w) \<leftarrow>
         (if schar ch \<le> 5 then Some (c - 1, limit_count, False, w)
          else if ch = backspace
          then if c > 1 then do { w \<leftarrow> putchar k ch w; Some (c - 2, limit_count, False, w) }
               else Some (c - 1, limit_count, False, w)
          else do { w \<leftarrow> putchar k ch w; Some (c, limit_count + 1, limit_count + 1 > BUFFER, w) });
       if full then Some (frame, c, w)
       else do {
         x \<leftarrow> aget frame c;
         if x \<noteq> newline then read_line k frame (c + 1) limit_count w else Some (frame, c + 1, w)
       }
     }"

definition readInput :: "'w kernel_calls \<Rightarrow> char \<Rightarrow> string \<Rightarrow> 'w \<Rightarrow> (char \<times> string \<times> 'w) option" where
  "readInput k below buffer w =
     do {
       (frame, c, w) \<leftarrow> read_line k (below # buffer) 1 0 w;
       frame \<leftarrow> aset frame (c - 1) nul;
       Some (hd frame, tl frame, w)
     }"

section \<open>The shell\<close>

definition show_prompt :: "'w kernel_calls \<Rightarrow> 'w \<Rightarrow> 'w option" where
  "show_prompt k w = printf k ''user@itba:> '' [] w"

text \<open>One turn of the loop: the byte in front of the buffer, the buffer and the variable \<open>active\<close> go on.\<close>

definition shell_turn :: "'w kernel_calls \<Rightarrow> char \<Rightarrow> string \<Rightarrow> u8 \<Rightarrow> 'w \<Rightarrow> (char \<times> string \<times> u8 \<times> 'w) option" where
  "shell_turn k below buf active w =
     do {
       w \<leftarrow> show_prompt k w;
       (below, buf, w) \<leftarrow> readInput k below buf w;
       buf \<leftarrow> to_lower buf;
       (commandCount, cmds, buf, w) \<leftarrow> parseEntry k buf MAX_PIPE_CMDS w;
       if commandCount \<le> 0 then Some (below, buf, active, w)
       else if commandCount = 1
       then do { cmd \<leftarrow> aget cmds 0; (active, w) \<leftarrow> executeSingleCommand k buf cmd active w; Some (below, buf, active, w) }
       else do { w \<leftarrow> executePipeline k buf cmds w; Some (below, buf, active, w) }
     }"

partial_function (option) shell_loop :: "'w kernel_calls \<Rightarrow> char \<Rightarrow> string \<Rightarrow> u8 \<Rightarrow> 'w \<Rightarrow> 'w option" where
  "shell_loop k below buf active w =
     (if active = 0 then Some w
      else do { (below, buf, active, w) \<leftarrow> shell_turn k below buf active w; shell_loop k below buf active w })"

definition startShell :: "'w kernel_calls \<Rightarrow> char \<Rightarrow> string \<Rightarrow> 'w \<Rightarrow> 'w option" where
  "startShell k below buf w = shell_loop k below buf 1 w"

end
