(* ===== verification/ShellParse.thy ===== *)
theory ShellParse
  imports Shell
begin

text \<open>
  The parser of the shell against a reference that works on strings: what a line means, without a buffer. The
  parser overwrites the line while it walks over it, and leaves pointers into it; the arguments they stand for at
  the end are those of the reference.
\<close>

section \<open>What a line means\<close>

function words :: "string \<Rightarrow> string list" where
  "words s =
     (let t = dropWhile isWhitespace s
      in if t = [] then [] else takeWhile (\<lambda>c. \<not> isWhitespace c) t # words (dropWhile (\<lambda>c. \<not> isWhitespace c) t))"
  by pat_completeness auto
termination
proof (relation "measure length", simp, goal_cases)
  case (1 s t)
  then have h: "\<not> isWhitespace (hd t)" by (metis hd_dropWhile)
  obtain a l where t: "t = a # l" using 1(2) by (cases t) auto
  have "length (dropWhile (\<lambda>c. \<not> isWhitespace c) t) < length t"
    using h by (simp add: t le_imp_less_Suc length_dropWhile_le)
  also have "length t \<le> length s" unfolding 1(1) by (rule length_dropWhile_le)
  finally show ?case by simp
qed

declare words.simps [simp del]

definition strip :: "string \<Rightarrow> string" where
  "strip s = rev (dropWhile isWhitespace (rev s))"

definition trim :: "string \<Rightarrow> string" where
  "trim s = strip (dropWhile isWhitespace s)"

definition names :: "string \<Rightarrow> command_entry \<Rightarrow> bool" where
  "names s e \<longleftrightarrow>
     (let n = length (cname e)
      in take n s = cname e \<and> (drop n s = [] \<or> isWhitespace (hd (drop n s))))"

definition in_segment :: "char \<Rightarrow> bool" where
  "in_segment c \<longleftrightarrow> c \<noteq> CHR ''|'' \<and> c \<noteq> CHR ''&''"

datatype meaning = Complaint string | Commands "(command_entry \<times> string list \<times> bool) list"

definition empty_command :: string where "empty_command = ''Empty command in pipeline.'' @ [newline]"
definition too_long :: "nat \<Rightarrow> string" where
  "too_long m = ''Pipeline too long. Max commands: '' @ int_text (sint (of_nat m :: u32)) @ [newline]"
definition too_many :: string where
  "too_many = ''Too many arguments. Max supported: '' @ int_text 8 @ [newline]"
definition not_found :: "string \<Rightarrow> string" where
  "not_found s = ''Command '' @ [CHR 0x22] @ s @ [CHR 0x22] @ '' not found. Type '' @ [CHR 0x27] @ ''help'' @ [CHR 0x27] @
               '' for a list of commands.'' @ [newline]"

function meaning_of :: "nat \<Rightarrow> (command_entry \<times> string list \<times> bool) list \<Rightarrow> string \<Rightarrow> meaning" where
  "meaning_of m acc s =
     (let s = dropWhile isWhitespace s; segment = takeWhile in_segment s; rest = dropWhile in_segment s; t = trim segment
      in if s = [] then if acc = [] then Commands [] else Complaint empty_command
         else if length acc \<ge> m then Complaint (too_long m)
         else if t = [] then Complaint empty_command
         else (case find (names t) commands of
                 None \<Rightarrow> Complaint (not_found t)
               | Some e \<Rightarrow>
                   let args = words (drop (length (cname e)) t)
                   in if length args > MAX_COMMAND_ARGS then Complaint too_many
                      else let acc = acc @ [(e, cname e # args, rest \<noteq> [] \<and> hd rest = CHR ''&'')]
                           in if rest \<noteq> [] \<and> hd rest = CHR ''|'' then meaning_of m acc (tl rest) else Commands acc))"
  by pat_completeness auto
termination
proof (relation "measure (\<lambda>(_, _, s). length s)", simp, goal_cases)
  case (1 m acc s)
  let ?s = "dropWhile isWhitespace s"
  have "length (dropWhile in_segment ?s) \<le> length s"
    by (meson le_trans length_dropWhile_le)
  then show ?case using 1 by (cases "dropWhile in_segment ?s") auto
qed

declare meaning_of.simps [simp del]

section \<open>Walking\<close>

lemma scan_while_at:
  "\<forall>c\<in>set u. c \<noteq> nul \<and> P c \<Longrightarrow> v = nul \<or> \<not> P v \<Longrightarrow> i = length pre \<Longrightarrow>
     scan_while P (pre @ u @ v # t) i = Some (i + length u)"
proof (induction u arbitrary: pre i)
  case Nil
  then show ?case by (subst scan_while.simps) auto
next
  case (Cons c u)
  have "scan_while P ((pre @ [c]) @ u @ v # t) (Suc i) = Some (Suc i + length u)"
    using Cons.prems by (intro Cons.IH) auto
  then show ?case using Cons.prems by (subst scan_while.simps) simp
qed

lemma scan_while_line:
  assumes "nul \<notin> set s" and "i = length pre"
  shows "scan_while P (pre @ s @ nul # t) i = Some (i + length (takeWhile P s))"
proof (cases "dropWhile P s")
  case Nil
  then have tw: "takeWhile P s = s" by (metis append.right_neutral takeWhile_dropWhile_id)
  have "\<forall>c\<in>set s. c \<noteq> nul \<and> P c" using Nil assms(1) by (auto simp: dropWhile_eq_Nil_conv)
  then show ?thesis unfolding tw using scan_while_at [of s P nul i pre t] assms(2) by simp
next
  case (Cons v x)
  then have s: "s = takeWhile P s @ v # x" by (metis takeWhile_dropWhile_id)
  have "\<not> P v" using Cons by (metis dropWhile_eq_Cons_conv)
  moreover have "\<forall>c\<in>set (takeWhile P s). c \<noteq> nul \<and> P c" using assms(1) by (auto dest: set_takeWhileD)
  ultimately have "scan_while P (pre @ takeWhile P s @ v # (x @ nul # t)) i = Some (i + length (takeWhile P s))"
    using assms(2) by (intro scan_while_at) auto
  moreover have "pre @ takeWhile P s @ v # (x @ nul # t) = pre @ s @ nul # t" by (subst (2) s) simp
  ultimately show ?thesis by simp
qed

lemma scan_to_end: "nul \<notin> set s \<Longrightarrow> i = length pre \<Longrightarrow> scan_while (\<lambda>_. True) (pre @ s @ nul # t) i = Some (i + length s)"
  using scan_while_line [of s i pre "\<lambda>_. True" t] by (simp add: takeWhile_eq_all_conv [THEN iffD2])

lemma c_str_at: "nul \<notin> set s \<Longrightarrow> i = length pre \<Longrightarrow> c_str (pre @ s @ nul # t) i = Some s"
  by (simp add: c_str_def scan_to_end)

lemma aget_at: "i = length pre \<Longrightarrow> aget (pre @ s @ c # t) (i + length s) = Some c"
  using aget_append [of "i + length s" "pre @ s" c t] by simp

lemma aset_at: "i = length pre \<Longrightarrow> aset (pre @ s @ c # t) (i + length s) v = Some (pre @ s @ v # t)"
  using aset_append [of "i + length s" "pre @ s" c t v] by simp

text \<open>The first character of a line, or its end.\<close>

lemma aget_first: "i = length pre \<Longrightarrow> aget (pre @ s @ nul # t) i = Some (if s = [] then nul else hd s)"
  by (cases s) (simp_all add: aget_def nth_append)

lemma strip_snoc: "strip (s @ [c]) = (if isWhitespace c then strip s else s @ [c])"
  by (simp add: strip_def)

lemma strip_length: "length (strip s) \<le> length s"
  by (simp add: strip_def length_dropWhile_le [of _ "rev s", simplified])

lemma rtrim_loop_at:
  "i = length pre \<Longrightarrow> rtrim_loop (pre @ s @ z) i (length s) = Some (pre @ strip s @ replicate (length s - length (strip s)) nul @ z)"
proof (induction s arbitrary: z rule: rev_induct)
  case Nil
  then show ?case by (simp add: strip_def)
next
  case (snoc c s)
  show ?case
  proof (cases "isWhitespace c")
    case True
    have "replicate (length s - length (strip s)) nul @ nul # z = replicate (Suc (length s) - length (strip s)) nul @ z"
      using strip_length [of s] by (simp add: Suc_diff_le replicate_app_Cons_same)
    with True snoc.IH [OF snoc.prems, of "nul # z"] show ?thesis
      by (simp add: strip_snoc aget_at [OF snoc.prems] aset_at [OF snoc.prems])
  next
    case False
    then show ?thesis by (simp add: strip_snoc aget_at [OF snoc.prems])
  qed
qed

lemma rtrim_at:
  "nul \<notin> set s \<Longrightarrow> i = length pre \<Longrightarrow>
     rtrim (pre @ s @ nul # t) i = Some (pre @ strip s @ nul # replicate (length s - length (strip s)) nul @ t)"
  by (simp add: rtrim_def str_len_def scan_to_end rtrim_loop_at replicate_app_Cons_same)

section \<open>Finding the command\<close>

lemma match_prefix_at:
  "nul \<notin> set s \<Longrightarrow> i = length pre \<Longrightarrow>
     \<exists>r j. match_prefix (pre @ s @ nul # t) i n = Some (r, j) \<and> (r = [] \<longleftrightarrow> take (length n) s = n) \<and>
       (r = [] \<longrightarrow> j = i + length n)"
proof (induction n arbitrary: s pre i)
  case (Cons c n)
  show ?case
  proof (cases s)
    case Nil
    then show ?thesis using Cons.prems by (simp add: aget_first)
  next
    case s: (Cons d s')
    then have a: "aget (pre @ s @ nul # t) i = Some d" "d \<noteq> nul" using Cons.prems by (auto simp: aget_first)
    show ?thesis
    proof (cases "d = c")
      case False
      then show ?thesis using a s by simp
    next
      case True
      have "nul \<notin> set s'" "Suc i = length (pre @ [d])" using s Cons.prems by auto
      from Cons.IH [OF this] a s True show ?thesis by simp
    qed
  qed
qed simp

lemma matches_at:
  fixes e :: command_entry
  assumes "nul \<notin> set s" and "i = length pre"
  defines "n \<equiv> length (cname e)"
  shows "matchesCommandName (pre @ s @ nul # t) i (cname e) =
           (if \<not> names s e then Some (None, pre @ s @ nul # t)
            else if drop n s = [] then Some (Some (i + n), pre @ s @ nul # t)
            else Some (Some (i + n + 1 + length (takeWhile isWhitespace (tl (drop n s)))),
                       pre @ cname e @ nul # tl (drop n s) @ nul # t))"
proof -
  from match_prefix_at [OF assms(1,2), of t "cname e"] obtain r j where
    m: "match_prefix (pre @ s @ nul # t) i (cname e) = Some (r, j)" "r = [] \<longleftrightarrow> take n s = cname e"
      "r = [] \<longrightarrow> j = i + n" by (auto simp: n_def)
  show ?thesis
  proof (cases "take n s = cname e")
    case False
    with m show ?thesis by (simp add: matchesCommandName_def names_def n_def Let_def)
  next
    case True
    define r' where "r' = drop n s"
    have s: "s = cname e @ r'" using True by (metis append_take_drop_id r'_def)
    have j: "j = i + n" "r = []" using m(2,3) True by simp_all
    have i': "i + n = length (pre @ cname e)" using assms(2) by (simp add: n_def)
    have g: "aget (pre @ s @ nul # t) (i + n) = Some (if r' = [] then nul else hd r')"
      using aget_first [OF i', of r' t] by (simp add: s)
    show ?thesis
    proof (cases r')
      case Nil
      then have "drop n s = []" by (simp only: r'_def)
      then have "names s e" "drop n s = []" using True by (simp_all add: names_def n_def [symmetric])
      with m(1) j g Nil show ?thesis by (simp add: matchesCommandName_def)
    next
      case (Cons d u)
      then have d: "d \<noteq> nul" "nul \<notin> set u" using assms(1) s by auto
      have "aset ((pre @ cname e) @ d # u @ nul # t) (i + n) nul = Some ((pre @ cname e) @ nul # u @ nul # t)"
        using i' by (rule aset_append)
      then have st: "aset (pre @ s @ nul # t) (i + n) nul = Some (pre @ cname e @ nul # u @ nul # t)"
        by (simp add: s Cons)
      have "skipSpaces ((pre @ cname e @ [nul]) @ u @ nul # t) (i + n + 1) = Some (i + n + 1 + length (takeWhile isWhitespace u))"
        unfolding skipSpaces_def using d(2) i' by (intro scan_while_line) simp_all
      then have sk: "skipSpaces (pre @ cname e @ nul # u @ nul # t) (i + n + 1) = Some (i + n + 1 + length (takeWhile isWhitespace u))"
        by simp
      have dr: "drop n s = d # u" using Cons by (simp only: r'_def)
      moreover from this have "drop n s \<noteq> []" by simp
      ultimately have "names s e \<longleftrightarrow> isWhitespace d" using True by (simp del: drop_eq_Nil add: names_def n_def [symmetric] Let_def)
      with m(1) j g dr Cons d st sk show ?thesis
        by (simp add: matchesCommandName_def r'_def [symmetric])
    qed
  qed
qed

lemma find_command_at:
  assumes "nul \<notin> set s" and "i = length pre"
  shows "find_command es (pre @ s @ nul # t) i =
           (case find (names s) es of
              None \<Rightarrow> Some (None, pre @ s @ nul # t)
            | Some e \<Rightarrow>
                let n = length (cname e)
                in if drop n s = [] then Some (Some (e, i + n), pre @ s @ nul # t)
                   else Some (Some (e, i + n + 1 + length (takeWhile isWhitespace (tl (drop n s)))),
                              pre @ cname e @ nul # tl (drop n s) @ nul # t))"
  by (induction es) (simp_all add: matches_at [OF assms] Let_def)

section \<open>Cutting out the arguments\<close>

text \<open>Pointers that lead to certain strings in a piece of the buffer, whatever lies behind it.\<close>

definition point_to :: "string \<Rightarrow> nat list \<Rightarrow> string list \<Rightarrow> bool" where
  "point_to z qs ss \<longleftrightarrow> (\<forall>t. map (c_str (z @ t)) qs = map Some ss)"

lemma point_to_nil [simp]: "point_to z [] []"
  by (simp add: point_to_def)

lemma point_to_more: "point_to z qs ss \<Longrightarrow> point_to (z @ z') qs ss"
  by (simp add: point_to_def)

lemma words_blank: "words (takeWhile isWhitespace s @ t) = words t"
proof -
  have "dropWhile isWhitespace (takeWhile isWhitespace s @ t) = dropWhile isWhitespace t"
    by (rule dropWhile_append2) (auto dest: set_takeWhileD)
  then show ?thesis by (subst words.simps, subst (2) words.simps) simp
qed

lemma words_drop: "words (dropWhile isWhitespace s) = words s"
  using words_blank [of s "dropWhile isWhitespace s"] by simp

lemma words_tl: "s = [] \<or> isWhitespace (hd s) \<Longrightarrow> words (tl s) = words s"
  by (cases s) (auto simp: words.simps [of "_ # _"] words.simps [of "tl _"] words.simps Let_def)

lemma fill_loop_at:
  "nul \<notin> set s \<Longrightarrow> i = length pre \<Longrightarrow> args \<noteq> [] \<Longrightarrow> length args - 1 \<le> MAX_COMMAND_ARGS \<Longrightarrow>
     \<exists>s' qs. length s' = length s \<and>
       fill_loop (pre @ s @ nul # t) i args =
         Some (if length args - 1 + length (words s) \<le> MAX_COMMAND_ARGS then Some (args @ map At qs) else None, pre @ s' @ nul # t) \<and>
       (length args - 1 + length (words s) \<le> MAX_COMMAND_ARGS \<longrightarrow> point_to (pre @ s' @ [nul]) qs (words s))"
proof (induction "length s" arbitrary: s pre i args rule: less_induct)
  case less
  define sp x where "sp = takeWhile isWhitespace s" and "x = dropWhile isWhitespace s"
  have s: "s = sp @ x" by (simp add: sp_def x_def)
  have nx: "nul \<notin> set x" using less.prems(1) s by auto
  show ?case
  proof (cases "x = []")
    case True
    then have w: "words s = []" by (subst words.simps) (simp add: x_def [symmetric])
    have sk: "skipSpaces (pre @ s @ nul # t) i = Some (i + length s)"
      unfolding skipSpaces_def using scan_while_line [OF less.prems(1,2), of isWhitespace t] True s
      by (metis append_Nil2 sp_def)
    have "fill_loop (pre @ s @ nul # t) i args = Some (Some args, pre @ s @ nul # t)"
      using sk less.prems(1,2) aget_at [OF less.prems(2), of s nul t] by (subst fill_loop.simps) (auto simp: aget_first)
    then show ?thesis using w less.prems(4) by (intro exI [of _ s] exI [of _ "[]"]) simp
  next
    case False
    define wd y where "wd = takeWhile (\<lambda>c. \<not> isWhitespace c) x" and "y = dropWhile (\<lambda>c. \<not> isWhitespace c) x"
    have x: "x = wd @ y" by (simp add: wd_def y_def)
    have hx: "\<not> isWhitespace (hd x)" using False hd_dropWhile unfolding x_def by blast
    then have wd: "wd \<noteq> []" using False by (cases x) (simp_all add: wd_def)
    have w: "words s = wd # words y" by (subst words.simps) (simp add: x_def [symmetric] wd_def y_def False Let_def)
    have nwd: "nul \<notin> set wd" and ny: "nul \<notin> set y" using nx x by auto
    have j: "i + length sp = length (pre @ sp)" using less.prems(2) by simp
    have first: "aget (pre @ s @ nul # t) i = Some (hd s)" "hd s \<noteq> nul" "s \<noteq> []"
    proof -
      show ne: "s \<noteq> []" using s False by auto
      show "aget (pre @ s @ nul # t) i = Some (hd s)" using aget_first [OF less.prems(2), of s t] ne by simp
      show "hd s \<noteq> nul" using ne less.prems(1) hd_in_set [of s] by metis
    qed
    have sk: "skipSpaces (pre @ s @ nul # t) i = Some (i + length sp)"
      unfolding skipSpaces_def using scan_while_line [OF less.prems(1,2)] by (simp add: sp_def)
    have at_x: "aget (pre @ s @ nul # t) (i + length sp) = Some (hd x)" "hd x \<noteq> nul"
    proof -
      show "aget (pre @ s @ nul # t) (i + length sp) = Some (hd x)" using aget_first [OF j, of x t] False by (simp add: s)
      show "hd x \<noteq> nul" using False nx hd_in_set [of x] by metis
    qed
    have sw: "scan_while (\<lambda>c. \<not> isWhitespace c) (pre @ s @ nul # t) (i + length sp) = Some (i + length sp + length wd)"
      using scan_while_line [OF nx j, of "\<lambda>c. \<not> isWhitespace c" t] by (simp add: s wd_def)
    have e: "i + length sp + length wd = length (pre @ sp @ wd)" using less.prems(2) by simp
    have at_y: "aget (pre @ s @ nul # t) (i + length sp + length wd) = Some (if y = [] then nul else hd y)"
      using aget_first [OF e, of y t] by (simp add: s x)
    show ?thesis
    proof (cases "length args - 1 \<ge> MAX_COMMAND_ARGS")
      case True
      then have "fill_loop (pre @ s @ nul # t) i args = Some (None, pre @ s @ nul # t)"
        using first sk at_x by (subst fill_loop.simps) simp
      then show ?thesis using w True by auto
    next
      case room: False
      show ?thesis
      proof (cases y)
        case Nil
        then have "words y = []" by (simp add: words.simps)
        moreover have "fill_loop (pre @ s @ nul # t) i args = Some (Some (args @ [At (i + length sp)]), pre @ s @ nul # t)"
          using first sk at_x sw at_y room Nil by (subst fill_loop.simps) simp
        moreover have "c_str ((pre @ sp) @ wd @ nul # z) (i + length sp) = Some wd" for z
          using nwd j by (rule c_str_at)
        then have "point_to (pre @ s @ [nul]) [i + length sp] [wd]"
          by (simp add: point_to_def s x Nil)
        ultimately show ?thesis using w room by (intro exI [of _ s] exI [of _ "[i + length sp]"]) auto
      next
        case (Cons d y')
        have d: "isWhitespace d" using Cons y_def by (metis dropWhile_eq_Cons_conv)
        have wy: "words y = words y'" using words_tl [of y] d Cons by simp
        have st: "aset (pre @ s @ nul # t) (i + length sp + length wd) nul = Some ((pre @ sp @ wd @ [nul]) @ y' @ nul # t)"
          using aset_append [OF e, of d "y' @ nul # t" nul] by (simp add: s x Cons)
        have dn: "d \<noteq> nul" using ny Cons by auto
        have ny': "nul \<notin> set y'" using ny Cons by simp
        have shorter: "length y' < length s" by (simp add: s x Cons)
        have i': "i + length sp + length wd + 1 = length (pre @ sp @ wd @ [nul])" using e by simp
        define args' where "args' = args @ [At (i + length sp)]"
        have a': "args' \<noteq> []" "length args' - 1 = Suc (length args - 1)" using less.prems(3) by (simp_all add: args'_def Suc_diff_1)
        have le: "length args' - 1 \<le> MAX_COMMAND_ARGS" using room a'(2) by simp
        obtain s2 qs where
          s2: "length s2 = length y'" and
          f2: "fill_loop ((pre @ sp @ wd @ [nul]) @ y' @ nul # t) (i + length sp + length wd + 1) args' =
                 Some (if length args' - 1 + length (words y') \<le> MAX_COMMAND_ARGS then Some (args' @ map At qs) else None,
                       (pre @ sp @ wd @ [nul]) @ s2 @ nul # t)" and
          p2: "length args' - 1 + length (words y') \<le> MAX_COMMAND_ARGS \<longrightarrow>
                 point_to ((pre @ sp @ wd @ [nul]) @ s2 @ [nul]) qs (words y')"
          using less.hyps [OF shorter ny' i' a'(1) le] by blast
        have "fill_loop (pre @ s @ nul # t) i args =
                fill_loop ((pre @ sp @ wd @ [nul]) @ y' @ nul # t) (i + length sp + length wd + 1) args'"
          using first sk at_x sw at_y room Cons st dn by (subst fill_loop.simps) (simp add: args'_def)
        moreover have cnt: "length args' - 1 + length (words y') = length args - 1 + length (words s)" using a'(2) by (simp add: w wy)
        ultimately have f: "fill_loop (pre @ s @ nul # t) i args =
            Some (if length args - 1 + length (words s) \<le> MAX_COMMAND_ARGS then Some (args @ map At ((i + length sp) # qs)) else None,
                  pre @ (sp @ wd @ nul # s2) @ nul # t)"
          using f2 unfolding cnt by (simp only: args'_def append_assoc append_Cons append_Nil list.map)
        have first_arg: "c_str ((pre @ sp) @ wd @ nul # z) (i + length sp) = Some wd" for z
          using nwd j by (rule c_str_at)
        have "point_to (pre @ (sp @ wd @ nul # s2) @ [nul]) ((i + length sp) # qs) (words s)"
          if "length args - 1 + length (words s) \<le> MAX_COMMAND_ARGS"
          using p2 that first_arg unfolding cnt by (simp add: w wy point_to_def)
        moreover have "length (sp @ wd @ nul # s2) = length s" by (simp add: s x Cons s2)
        ultimately show ?thesis using f by blast
      qed
    qed
  qed
qed

lemma rest_at:
  assumes n: "nul \<notin> set s" and i: "i = length pre"
  shows "\<exists>s' qs. length s' = length s \<and>
     fill_loop (pre @ s @ nul # t) (i + length (takeWhile isWhitespace s)) [Name n] =
       Some (if length (words s) \<le> MAX_COMMAND_ARGS then Some (Name n # map At qs) else None, pre @ s' @ nul # t) \<and>
     (length (words s) \<le> MAX_COMMAND_ARGS \<longrightarrow> point_to (pre @ s' @ [nul]) qs (words s))"
proof -
  define a x where "a = takeWhile isWhitespace s" and "x = dropWhile isWhitespace s"
  have s: "s = a @ x" by (simp add: a_def x_def)
  have nx: "nul \<notin> set x" and j: "i + length a = length (pre @ a)" using n i s by auto
  obtain s' qs where "length s' = length x"
    "fill_loop ((pre @ a) @ x @ nul # t) (i + length a) [Name n] =
       Some (if length [Name n] - 1 + length (words x) \<le> MAX_COMMAND_ARGS then Some ([Name n] @ map At qs) else None,
             (pre @ a) @ s' @ nul # t)"
    "length [Name n] - 1 + length (words x) \<le> MAX_COMMAND_ARGS \<longrightarrow> point_to ((pre @ a) @ s' @ [nul]) qs (words x)"
    using fill_loop_at [OF nx j, of "[Name n]" t] by auto
  moreover have "words x = words s" unfolding x_def by (rule words_drop)
  moreover have "pre @ s @ nul # t = (pre @ a) @ x @ nul # t" by (simp add: s)
  ultimately show ?thesis unfolding a_def [symmetric]
    by (intro exI [of _ "a @ s'"] exI [of _ qs]) (simp add: arg_cong [OF s, of length])
qed

lemma too_many_prints:
  "printf k (''Too many arguments. Max supported: %d'' @ [newline]) [AInt (of_nat MAX_COMMAND_ARGS)] w = put_text k too_many w"
  using printf_items [of "map Lit ''Too many arguments. Max supported: '' @ [Dec 8, Lit newline]" k w]
  by (simp add: too_many_def)

lemma not_found_prints: "notACommand k s w = put_text k (not_found s) w"
  using printf_items [of "map Lit (''Command '' @ [CHR 0x22]) @ [Str s] @ map Lit ([CHR 0x22] @ '' not found. Type '' @ [CHR 0x27] @
      ''help'' @ [CHR 0x27] @ '' for a list of commands.'' @ [newline])" k w]
  by (simp add: notACommand_def not_found_def)

lemma too_long_prints:
  "printf k (''Pipeline too long. Max commands: %d'' @ [newline]) [AInt (of_nat m)] w = put_text k (too_long m) w"
  using printf_items [of "map Lit ''Pipeline too long. Max commands: '' @ [Dec (of_nat m), Lit newline]" k w]
  by (simp add: too_long_def)

lemma empty_prints: "printf k (''Empty command in pipeline.'' @ [newline]) [] w = put_text k empty_command w"
  unfolding empty_command_def by (rule printf_plain) simp

declare printf.simps [simp del]

lemmas complaints = too_many_prints [simplified] too_long_prints [simplified] not_found_prints empty_prints [simplified]

lemma find_names: "find (names s) es = Some e \<Longrightarrow> names s e"
  by (metis find_Some_iff)

lemma parse_segment_at:
  assumes n: "nul \<notin> set s" and i: "i = length pre"
  shows "\<exists>s' qs. length s' = length s \<and>
     parseCommandSegment k (pre @ s @ nul # t) i w =
       (case find (names s) commands of
          None \<Rightarrow> do { w \<leftarrow> put_text k (not_found s) w; Some (None, pre @ s' @ nul # t, w) }
        | Some e \<Rightarrow>
            if length (words (drop (length (cname e)) s)) \<le> MAX_COMMAND_ARGS
            then Some (Some (e, Name (cname e) # map At qs), pre @ s' @ nul # t, w)
            else do { w \<leftarrow> put_text k too_many w; Some (None, pre @ s' @ nul # t, w) }) \<and>
     (\<forall>e. find (names s) commands = Some e \<longrightarrow> length (words (drop (length (cname e)) s)) \<le> MAX_COMMAND_ARGS \<longrightarrow>
        point_to (pre @ s' @ [nul]) qs (words (drop (length (cname e)) s)))"
proof (cases "find (names s) commands")
  case None
  then show ?thesis
    using n by (intro exI [of _ s]) (simp add: parseCommandSegment_def find_command_at [OF n i] c_str_at [OF n i] complaints)
next
  case (Some e)
  let ?n = "length (cname e)"
  define r where "r = drop ?n s"
  have nm: "names s e" using Some by (rule find_names)
  then have s: "s = cname e @ r" by (metis append_take_drop_id names_def r_def)
  have "\<exists>s' qs p b. length s' = length s \<and> find_command commands (pre @ s @ nul # t) i = Some (Some (e, p), b) \<and>
      fill_loop b p [Name (cname e)] =
        Some (if length (words r) \<le> MAX_COMMAND_ARGS then Some (Name (cname e) # map At qs) else None, pre @ s' @ nul # t) \<and>
      (length (words r) \<le> MAX_COMMAND_ARGS \<longrightarrow> point_to (pre @ s' @ [nul]) qs (words r))"
  proof (cases r)
    case Nil
    have "i + ?n = length (pre @ s)" using i s Nil by simp
    from rest_at [OF _ this, of "[]" t "cname e"] Nil
    have "\<exists>qs. fill_loop (pre @ s @ nul # t) (i + ?n) [Name (cname e)] =
        Some (if length (words r) \<le> MAX_COMMAND_ARGS then Some (Name (cname e) # map At qs) else None, pre @ s @ nul # t) \<and>
      (length (words r) \<le> MAX_COMMAND_ARGS \<longrightarrow> point_to (pre @ s @ [nul]) qs (words r))" by simp
    moreover have "find_command commands (pre @ s @ nul # t) i = Some (Some (e, i + ?n), pre @ s @ nul # t)"
      using Some Nil by (simp del: drop_eq_Nil add: find_command_at [OF n i] r_def Let_def)
    ultimately show ?thesis by blast
  next
    case (Cons d u)
    then have "nul \<notin> set u" using n s by auto
    moreover have "i + ?n + 1 = length (pre @ cname e @ [nul])" using i by simp
    ultimately obtain s' qs where r: "length s' = length u"
      "fill_loop ((pre @ cname e @ [nul]) @ u @ nul # t) (i + ?n + 1 + length (takeWhile isWhitespace u)) [Name (cname e)] =
         Some (if length (words u) \<le> MAX_COMMAND_ARGS then Some (Name (cname e) # map At qs) else None,
               (pre @ cname e @ [nul]) @ s' @ nul # t)"
      "length (words u) \<le> MAX_COMMAND_ARGS \<longrightarrow> point_to ((pre @ cname e @ [nul]) @ s' @ [nul]) qs (words u)"
      using rest_at by blast
    have "isWhitespace d" using nm Cons by (simp del: drop_eq_Nil add: names_def r_def Let_def)
    then have "words r = words u" using words_tl [of r] Cons by simp
    moreover have "length (cname e @ nul # s') = length s" using r(1) s Cons by simp
    moreover have "find_command commands (pre @ s @ nul # t) i =
        Some (Some (e, i + ?n + 1 + length (takeWhile isWhitespace u)), (pre @ cname e @ [nul]) @ u @ nul # t)"
      using Some Cons by (simp del: drop_eq_Nil add: find_command_at [OF n i] r_def Let_def)
    ultimately show ?thesis using r(2,3) by (intro exI [of _ "cname e @ nul # s'"] exI) simp
  qed
  then obtain s' qs p b where h: "length s' = length s" "find_command commands (pre @ s @ nul # t) i = Some (Some (e, p), b)"
      "fill_loop b p [Name (cname e)] =
        Some (if length (words r) \<le> MAX_COMMAND_ARGS then Some (Name (cname e) # map At qs) else None, pre @ s' @ nul # t)"
      "length (words r) \<le> MAX_COMMAND_ARGS \<longrightarrow> point_to (pre @ s' @ [nul]) qs (words r)" by blast
  show ?thesis
    by (intro exI [of _ s'] exI [of _ qs])
      (simp add: h parseCommandSegment_def fillArgVector_def Some r_def [symmetric] complaints)
qed

section \<open>The whole line\<close>

lemma trim_segment_at:
  assumes n: "nul \<notin> set s" and i: "i = length pre"
  shows "\<exists>u v. length u + length (trim s) + length v = length s \<and>
     trimSegment (pre @ s @ nul # t) i = Some (i + length u, (pre @ u) @ trim s @ nul # v @ t)"
proof -
  define a x where "a = takeWhile isWhitespace s" and "x = dropWhile isWhitespace s"
  have s: "s = a @ x" by (simp add: a_def x_def)
  have nx: "nul \<notin> set x" and j: "i + length a = length (pre @ a)" using n i s by auto
  have "trimSegment (pre @ s @ nul # t) i =
      Some (i + length a, (pre @ a) @ trim s @ nul # replicate (length x - length (trim s)) nul @ t)"
    using scan_while_line [OF n i, of isWhitespace t] rtrim_at [OF nx j, of t]
    by (simp add: trimSegment_def skipSpaces_def a_def [symmetric] trim_def x_def [symmetric]) (simp add: s)
  moreover have "length (trim s) \<le> length x" unfolding trim_def x_def [symmetric] by (rule strip_length)
  moreover have "length s = length a + length x" by (simp add: s)
  ultimately show ?thesis by (intro exI [of _ a] exI [of _ "replicate (length x - length (trim s)) nul"]) simp
qed

lemma trim_free: "nul \<notin> set s \<Longrightarrow> nul \<notin> set (trim s)"
  using set_dropWhileD [of nul isWhitespace s] set_dropWhileD [of nul isWhitespace "rev (dropWhile isWhitespace s)"]
  by (auto simp: trim_def strip_def)

text \<open>Commands whose arguments lie in a piece of the buffer, and what they are.\<close>

definition reads :: "string \<Rightarrow> parsed_command list \<Rightarrow> (command_entry \<times> string list \<times> bool) list \<Rightarrow> bool" where
  "reads z cs ms \<longleftrightarrow>
     (\<forall>t. map (\<lambda>c. (entry c, arg_strs (z @ t) (argv c), background c)) cs = map (\<lambda>(e, a, b). (e, Some a, b)) ms)"

lemma reads_nil [simp]: "reads z [] ms \<longleftrightarrow> ms = []"
  unfolding reads_def by (cases ms) auto

lemma reads_length: "reads z cs ms \<Longrightarrow> length cs = length ms"
  unfolding reads_def by (drule spec [of _ "[]"], drule arg_cong [of _ _ length]) simp

lemma reads_more: "reads z cs ms \<Longrightarrow> reads (z @ z') cs ms"
  by (simp add: reads_def)

lemma those_map_Some: "those (map Some xs) = Some xs"
  by (induction xs) auto

lemma reads_snoc:
  assumes "reads z cs ms" and "point_to z qs ss"
  shows "reads z (cs @ [\<lparr>entry = e, argv = Name n # map At qs, background = b\<rparr>]) (ms @ [(e, n # ss, b)])"
proof -
  have "arg_strs (z @ t) (Name n # map At qs) = Some (n # ss)" for t
  proof -
    have "map (arg_str (z @ t)) (map At qs) = map Some ss" using assms(2) by (simp add: point_to_def comp_def)
    then show ?thesis by (simp add: arg_strs_def those_map_Some)
  qed
  with assms(1) show ?thesis by (simp add: reads_def)
qed

text \<open>What the parser makes of a buffer of \<open>n\<close> bytes.\<close>

definition outcome :: "'w kernel_calls \<Rightarrow> meaning \<Rightarrow> nat \<Rightarrow> 'w \<Rightarrow> (int \<times> parsed_command list \<times> string \<times> 'w) option \<Rightarrow> bool" where
  "outcome k M n w r \<longleftrightarrow>
     (\<exists>cs b. length b = n \<and>
        (case M of
           Complaint msg \<Rightarrow> r = do { w \<leftarrow> put_text k msg w; Some (-1, cs, b, w) }
         | Commands ms \<Rightarrow> r = Some (int (length ms), cs, b, w) \<and> reads b cs ms))"

lemma outcome_complaint:
  "length b = n \<Longrightarrow> r = do { w \<leftarrow> put_text k msg w; Some (-1, cs, b, w) } \<Longrightarrow> outcome k (Complaint msg) n w r"
  by (auto simp: outcome_def)

lemma outcome_commands:
  "length b = n \<Longrightarrow> r = Some (int (length ms), cs, b, w) \<Longrightarrow> reads b cs ms \<Longrightarrow> outcome k (Commands ms) n w r"
  by (auto simp: outcome_def)

lemma in_segment_delimiter: "(\<lambda>c. c \<noteq> CHR ''|'' \<and> c \<noteq> CHR ''&'') = in_segment"
  by (rule ext) (simp add: in_segment_def)

lemma parse_loop_at:
  "nul \<notin> set s \<Longrightarrow> i = length pre \<Longrightarrow> reads pre cmds acc \<Longrightarrow>
     outcome k (meaning_of m acc s) (length pre + length s + Suc (length t)) w (parse_loop k (pre @ s @ nul # t) i cmds m w)"
proof (induction "length s" arbitrary: s pre i cmds acc w rule: less_induct)
  case less
  let ?buf = "pre @ s @ nul # t"
  let ?n = "length pre + length s + Suc (length t)"
  define a x where "a = takeWhile isWhitespace s" and "x = dropWhile isWhitespace s"
  have s: "s = a @ x" by (simp add: a_def x_def)
  have nx: "nul \<notin> set x" and j: "i + length a = length (pre @ a)" using less.prems(1,2) s by auto
  have skip: "skipSpaces ?buf i = Some (i + length a)"
    unfolding skipSpaces_def a_def using less.prems(1,2) by (rule scan_while_line)
  have first: "aget ?buf (i + length a) = Some (if x = [] then nul else hd x)"
    using aget_first [OF j, of x t] by (simp add: s)
  have len: "length cmds = length acc" using less.prems(3) by (rule reads_length)
  have reads_all: "reads ?buf cmds acc" using less.prems(3) by (rule reads_more)
  show ?case
  proof (cases "x = []")
    case True
    have M: "meaning_of m acc s = (if acc = [] then Commands [] else Complaint empty_command)"
      by (subst meaning_of.simps) (simp add: x_def [symmetric] True)
    show ?thesis
    proof (cases "acc = []")
      case acc: True
      then have M: "meaning_of m acc s = Commands []" using M by simp
      show ?thesis unfolding M using skip first True acc len reads_all
        by (intro outcome_commands [of ?buf _ _ _ cmds]) (simp_all add: parse_loop.simps [of _ ?buf])
    next
      case False
      then show ?thesis unfolding M using skip first True len
        by (simp only: if_False) (rule outcome_complaint [of ?buf _ _ _ _ _ cmds], simp, subst parse_loop.simps, auto simp: complaints)
    qed
  next
    case x: False
    then have hx: "hd x \<noteq> nul" using nx hd_in_set [of x] by metis
    show ?thesis
    proof (cases "length acc \<ge> m")
      case True
      have M: "meaning_of m acc s = Complaint (too_long m)"
        by (subst meaning_of.simps) (simp add: x_def [symmetric] True x)
      show ?thesis unfolding M using skip first x hx True len
        by (intro outcome_complaint [of ?buf _ _ _ _ _ cmds]) (simp, subst parse_loop.simps, simp add: complaints)
    next
      case room: False
      define seg rest where "seg = takeWhile in_segment x" and "rest = dropWhile in_segment x"
      define d t1 where "d = (if rest = [] then nul else hd rest)" and "t1 = (if rest = [] then t else tl rest @ nul # t)"
      let ?e = "i + length a + length seg"
      have x': "x = seg @ rest" by (simp add: seg_def rest_def)
      have ns: "nul \<notin> set seg" and nr: "nul \<notin> set rest" using nx x' by auto
      have e: "?e = length (pre @ a @ seg)" using j by simp
      have scan: "scan_while (\<lambda>c. c \<noteq> CHR ''|'' \<and> c \<noteq> CHR ''&'') ?buf (i + length a) = Some ?e"
        using scan_while_line [OF nx j, of in_segment t] by (simp add: in_segment_delimiter s seg_def)
      have at_d: "aget ?buf ?e = Some d" using aget_first [OF e, of rest t] by (simp add: s x' d_def)
      have dc: "rest \<noteq> [] \<Longrightarrow> d = CHR ''|'' \<or> d = CHR ''&''"
        using hd_dropWhile [of in_segment x] by (auto simp: d_def rest_def in_segment_def)
      have cut: "(if d = CHR ''|'' \<or> d = CHR ''&'' then aset ?buf ?e nul else Some ?buf) = Some ((pre @ a) @ seg @ nul # t1)"
      proof (cases rest)
        case Nil
        then show ?thesis by (simp add: d_def t1_def s x')
      next
        case (Cons z zs)
        then show ?thesis using dc aset_append [OF e, of z "zs @ nul # t" nul] by (simp add: d_def t1_def s x')
      qed
      obtain u v where uv: "length u + length (trim seg) + length v = length seg"
        "trimSegment ((pre @ a) @ seg @ nul # t1) (i + length a) = Some (i + length a + length u, ((pre @ a) @ u) @ trim seg @ nul # v @ t1)"
        using trim_segment_at [OF ns j] by blast
      define pr where "pr = (pre @ a) @ u"
      have jj: "i + length a + length u = length pr" using j by (simp add: pr_def)
      have nt: "nul \<notin> set (trim seg)" using ns by (rule trim_free)
      have n: "length (pr @ trim seg @ nul # v @ t1) = ?n" using uv(1) by (cases rest) (simp_all add: pr_def s x' t1_def)
      have at_t: "aget (pr @ trim seg @ nul # v @ t1) (i + length a + length u) = Some (if trim seg = [] then nul else hd (trim seg))"
        using jj by (rule aget_first)
      note step = skip first x hx room len scan at_d cut uv(2) [folded pr_def] at_t
      show ?thesis
      proof (cases "trim seg = []")
        case True
        have M: "meaning_of m acc s = Complaint empty_command"
          by (subst meaning_of.simps) (simp add: x_def [symmetric] seg_def [symmetric] True x room)
        show ?thesis unfolding M using step True n
          by (intro outcome_complaint [of "pr @ trim seg @ nul # v @ t1" _ _ _ _ _ cmds]) (simp, subst parse_loop.simps, simp add: complaints)
      next
        case tr: False
        then have ht: "hd (trim seg) \<noteq> nul" using nt hd_in_set [of "trim seg"] by metis
        obtain s' qs where seg': "length s' = length (trim seg)"
          "parseCommandSegment k (pr @ trim seg @ nul # v @ t1) (i + length a + length u) w =
             (case find (names (trim seg)) commands of
                None \<Rightarrow> do { w \<leftarrow> put_text k (not_found (trim seg)) w; Some (None, pr @ s' @ nul # v @ t1, w) }
              | Some e \<Rightarrow>
                  if length (words (drop (length (cname e)) (trim seg))) \<le> MAX_COMMAND_ARGS
                  then Some (Some (e, Name (cname e) # map At qs), pr @ s' @ nul # v @ t1, w)
                  else do { w \<leftarrow> put_text k too_many w; Some (None, pr @ s' @ nul # v @ t1, w) })"
          "\<forall>e. find (names (trim seg)) commands = Some e \<longrightarrow> length (words (drop (length (cname e)) (trim seg))) \<le> MAX_COMMAND_ARGS \<longrightarrow>
             point_to (pr @ s' @ [nul]) qs (words (drop (length (cname e)) (trim seg)))"
          using parse_segment_at [OF nt jj, of k "v @ t1" w] by blast
        have n': "length (pr @ s' @ nul # v @ t1) = ?n" using n seg'(1) by simp
        note step = step [unfolded if_not_P [OF tr]] ht
        show ?thesis
        proof (cases "find (names (trim seg)) commands")
          case None
          have M: "meaning_of m acc s = Complaint (not_found (trim seg))"
            by (subst meaning_of.simps) (simp add: x_def [symmetric] seg_def [symmetric] tr x room None)
          show ?thesis unfolding M using step seg'(2) None n'
            by (intro outcome_complaint [of "pr @ s' @ nul # v @ t1" _ _ _ _ _ cmds]) (simp, subst parse_loop.simps, simp)
        next
          case (Some c)
          let ?args = "words (drop (length (cname c)) (trim seg))"
          show ?thesis
          proof (cases "length ?args \<le> MAX_COMMAND_ARGS")
            case False
            then have many: "length ?args > MAX_COMMAND_ARGS" by simp
            have M: "meaning_of m acc s = Complaint too_many"
              by (subst meaning_of.simps) (simp add: x_def [symmetric] seg_def [symmetric] tr x room Some Let_def many)
            show ?thesis unfolding M using step seg'(2) Some False n'
              by (intro outcome_complaint [of "pr @ s' @ nul # v @ t1" _ _ _ _ _ cmds]) (simp, subst parse_loop.simps, simp)
          next
            case True
            then have few: "\<not> length ?args > MAX_COMMAND_ARGS" by simp
            define acc' where "acc' = acc @ [(c, cname c # ?args, d = CHR ''&'')]"
            define cmds' where "cmds' = cmds @ [\<lparr>entry = c, argv = Name (cname c) # map At qs, background = (d = CHR ''&'')\<rparr>]"
            have bg: "(rest \<noteq> [] \<and> hd rest = z) = (d = z)" if "z \<noteq> nul" for z using that by (auto simp: d_def)
            have "reads (pr @ s' @ [nul]) cmds acc" using reads_more [OF less.prems(3)] by (simp add: pr_def)
            moreover have "point_to (pr @ s' @ [nul]) qs ?args" using seg'(3) Some True by blast
            ultimately have rd: "reads (pr @ s' @ [nul]) cmds' acc'"
              unfolding cmds'_def acc'_def by (rule reads_snoc)
            have M: "meaning_of m acc s = (if d = CHR ''|'' then meaning_of m acc' (tl rest) else Commands acc')"
              using bg [of "CHR ''|''"] bg [of "CHR ''&''"]
              by (subst meaning_of.simps)
                (simp add: x_def [symmetric] seg_def [symmetric] rest_def [symmetric] acc'_def tr x room Some Let_def few)
            have L: "parse_loop k ?buf i cmds m w =
                (if d = CHR ''|'' then parse_loop k (pr @ s' @ nul # v @ t1) (?e + 1) cmds' m w
                 else Some (int (length cmds'), cmds', pr @ s' @ nul # v @ t1, w))"
              using step seg'(2) Some True by (subst parse_loop.simps) (simp add: cmds'_def)
            show ?thesis
            proof (cases "d = CHR ''|''")
              case False
              have "reads ((pr @ s' @ [nul]) @ v @ t1) cmds' acc'" using rd by (rule reads_more)
              then have "reads (pr @ s' @ nul # v @ t1) cmds' acc'" by simp
              with False n' show ?thesis unfolding M L
                by (simp only: if_False) (rule outcome_commands, auto simp: reads_length [OF rd])
            next
              case bar: True
              then have rest: "rest \<noteq> []" by (auto simp: d_def)
              let ?pr = "(pr @ s' @ [nul]) @ v"
              have "length (tl rest) < length s" using rest by (cases rest) (simp_all add: s x')
              moreover have "nul \<notin> set (tl rest)" using nr rest by (cases rest) auto
              moreover have e': "?e + 1 = length ?pr" using uv(1) seg'(1) j by (simp add: pr_def)
              moreover have "reads ?pr cmds' acc'" using rd by (rule reads_more)
              ultimately have "outcome k (meaning_of m acc' (tl rest)) (length ?pr + length (tl rest) + Suc (length t)) w
                  (parse_loop k (?pr @ tl rest @ nul # t) (?e + 1) cmds' m w)" by (rule less.hyps)
              moreover have "length ?pr + length (tl rest) + Suc (length t) = ?n"
                using e' e rest by (cases rest) (simp_all add: s x')
              moreover have "pr @ s' @ nul # v @ t1 = ?pr @ tl rest @ nul # t" using rest by (simp add: t1_def)
              ultimately show ?thesis unfolding M L using bar by (simp only: refl if_True)
            qed
          qed
        qed
      qed
    qed
  qed
qed

text \<open>C33: The shell's parser, which cuts the line up in place and keeps pointers into it, agrees with a reference that
  works on strings: on every line it returns without a fault and without touching a byte outside of the buffer. It either
  prints the complaint of the reference and returns -1, or returns the number of the reference's commands, and they have the
  reference's table entries, arguments and background flags, where an argument is read through its pointer from
  the buffer as the parser leaves it.\<close>

theorem parse_means:
  assumes "nul \<notin> set s"
  shows "\<exists>cs b. length b = length (s @ nul # t) \<and>
     (case meaning_of m [] s of
        Complaint msg \<Rightarrow> parseEntry k (s @ nul # t) m w = do { w \<leftarrow> put_text k msg w; Some (-1, cs, b, w) }
      | Commands ms \<Rightarrow>
          parseEntry k (s @ nul # t) m w = Some (int (length ms), cs, b, w) \<and>
          map (\<lambda>c. (entry c, arg_strs b (argv c), background c)) cs = map (\<lambda>(e, a, b). (e, Some a, b)) ms)"
proof -
  have "outcome k (meaning_of m [] s) (length (s @ nul # t)) w (parseEntry k (s @ nul # t) m w)"
    using parse_loop_at [OF assms, of 0 "[]" "[]" "[]" k m t w] by (simp add: parseEntry_def)
  then obtain cs b where "length b = length (s @ nul # t)"
      "case meaning_of m [] s of
         Complaint msg \<Rightarrow> parseEntry k (s @ nul # t) m w = do { w \<leftarrow> put_text k msg w; Some (-1, cs, b, w) }
       | Commands ms \<Rightarrow> parseEntry k (s @ nul # t) m w = Some (int (length ms), cs, b, w) \<and> reads b cs ms"
    unfolding outcome_def by blast
  then show ?thesis
    by (intro exI [of _ cs] exI [of _ b])
      (auto simp: reads_def dest: spec [of _ "[]"] split: meaning.split_asm meaning.split)
qed

theorem parse_means_witness:
  "\<forall>k (w :: 'w) t. \<exists>cs b.
     parseEntry k ('' kill 7 | wc&'' @ nul # t) 3 w = Some (2, cs, b, w) \<and>
     map (\<lambda>c. (cname (entry c), arg_strs b (argv c), background c)) cs =
       [(''kill'', Some [''kill'', ''7''], False), (''wc'', Some [''wc''], True)]"
proof (intro allI)
  fix k and w :: 'w and t
  have m: "meaning_of 3 [] '' kill 7 | wc&'' =
      Commands [(commands ! 18, [''kill'', ''7''], False), (commands ! 16, [''wc''], True)]" by code_simp
  have n: "cname (commands ! 18) = ''kill''" "cname (commands ! 16) = ''wc''" by (simp_all add: commands_def)
  obtain cs b where r: "parseEntry k ('' kill 7 | wc&'' @ nul # t) 3 w = Some (2, cs, b, w)"
    "map (\<lambda>c. (entry c, arg_strs b (argv c), background c)) cs =
       [(commands ! 18, Some [''kill'', ''7''], False), (commands ! 16, Some [''wc''], True)]"
    using parse_means [of "'' kill 7 | wc&''" t k 3 w] by (simp only: m meaning.case) auto
  have "map (\<lambda>c. (cname (entry c), arg_strs b (argv c), background c)) cs =
      map (\<lambda>(e, x). (cname e, x)) (map (\<lambda>c. (entry c, arg_strs b (argv c), background c)) cs)" by simp
  also have "\<dots> = [(''kill'', Some [''kill'', ''7''], False), (''wc'', Some [''wc''], True)]" unfolding r(2) by (simp add: n)
  finally have "parseEntry k ('' kill 7 | wc&'' @ nul # t) 3 w = Some (2, cs, b, w) \<and>
      map (\<lambda>c. (cname (entry c), arg_strs b (argv c), background c)) cs =
        [(''kill'', Some [''kill'', ''7''], False), (''wc'', Some [''wc''], True)]" by (intro conjI r(1))
  then show "\<exists>cs b. parseEntry k ('' kill 7 | wc&'' @ nul # t) 3 w = Some (2, cs, b, w) \<and>
     map (\<lambda>c. (cname (entry c), arg_strs b (argv c), background c)) cs =
       [(''kill'', Some [''kill'', ''7''], False), (''wc'', Some [''wc''], True)]"
    by (intro exI [of _ cs] exI [of _ b])
qed

end
