(* ===== verification/Packer.thy ===== *)
theory Packer
  imports Modules
begin

text \<open>
  \<open>Toolchain/ModulePacker/main.c\<close>, the program that packs the kernel and its modules into one image, and its
  inverse, the kernel's module loader. Files are lists of bytes under their names; a file system maps the
  names of the files that can be read to their contents. The parser of the command line is glibc's: the calls
  it makes of \<open>parse_opt\<close> are an argument.
\<close>

type_synonym files = "string \<Rightarrow> u8 list option"

section \<open>Streams\<close>

text \<open>A stream open for reading: the bytes ahead and the end-of-file flag, which only a short read sets.\<close>

record stream =
  ahead :: "u8 list"
  eof :: bool

definition fopen_r :: "files \<Rightarrow> string \<Rightarrow> stream option" where
  "fopen_r fs name = map_option (\<lambda>bs. \<lparr>ahead = bs, eof = False\<rparr>) (fs name)"

definition fread :: "nat \<Rightarrow> stream \<Rightarrow> u8 list \<times> stream" where
  "fread n s = (take n (ahead s), \<lparr>ahead = drop n (ahead s), eof = (length (ahead s) < n)\<rparr>)"

abbreviation BUFFER_SIZE :: nat where "BUFFER_SIZE \<equiv> 128"
abbreviation MAX_FILES :: nat where "MAX_FILES \<equiv> 128"
abbreviation OUTPUT_FILE :: string where "OUTPUT_FILE \<equiv> ''packedKernel.bin''"

section \<open>Writing the image\<close>

text \<open>The loop copies a block of the buffer's size until a read has come up short.\<close>

function write_file :: "u8 list \<Rightarrow> stream \<Rightarrow> u8 list" where
  "write_file target source =
     (if eof source then target
      else let (buffer, source) = fread BUFFER_SIZE source in write_file (target @ buffer) source)"
  by pat_completeness auto
termination
  by (relation "measure (\<lambda>(_, s). if eof s then 0 else Suc (length (ahead s)))") (auto simp: fread_def)

declare write_file.simps [simp del]

text \<open>The bytes of a 32-bit number as they lie in memory.\<close>

definition le32 :: "u32 \<Rightarrow> u8 list" where
  "le32 w = [ucast w, ucast (drop_bit 8 w), ucast (drop_bit 16 w), ucast (drop_bit 24 w)]"

text \<open>The size that \<open>stat\<close> reports is cut to 32 bits.\<close>

definition write_size :: "files \<Rightarrow> u8 list \<Rightarrow> string \<Rightarrow> u8 list option" where
  "write_size fs target filename = map_option (\<lambda>bs. target @ le32 (of_nat (length bs))) (fs filename)"

fun write_modules :: "files \<Rightarrow> u8 list \<Rightarrow> string list \<Rightarrow> u8 list option" where
  "write_modules fs target [] = Some target"
| "write_modules fs target (name # names) =
     do {
       source \<leftarrow> fopen_r fs name;
       target \<leftarrow> write_size fs target name;
       write_modules fs (write_file target source) names
     }"

text \<open>
  \<open>can_create\<close> says whether the output can be opened for writing. A missing input is a fault. So, in the model, is a name
  that stands for both an input and the output: the code goes on with the input it has just emptied, which is left out here.
\<close>

definition buildImage :: "bool \<Rightarrow> files \<Rightarrow> string list \<Rightarrow> string \<Rightarrow> (bool \<times> string \<times> files) option" where
  "buildImage can_create fs array output_file =
     (if \<not> can_create then Some (False, ''Can't create target file'' @ [CHR 0x0A], fs)
      else if output_file \<in> set array then None
      else do {
        name \<leftarrow> aget array 0;
        source \<leftarrow> fopen_r fs name;
        let target = write_file [] source;
        let extraBinaries = (of_nat (length array - 1) :: u32);
        target \<leftarrow> write_modules fs (target @ le32 extraBinaries) (tl array);
        Some (True, [], fs(output_file \<mapsto> target))
      })"

fun checkFiles :: "files \<Rightarrow> string list \<Rightarrow> bool \<times> string" where
  "checkFiles fs [] = (True, [])"
| "checkFiles fs (name # names) =
     (if fs name = None then (False, ''Can't open file: '' @ name @ [CHR 0x0A]) else checkFiles fs names)"

section \<open>The command line\<close>

record arguments =
  args :: "string list"
  output_file :: string
  count :: nat

datatype argp_key = Key_o | ARGP_KEY_ARG | ARGP_KEY_END | Key_other

text \<open>\<open>argp_usage\<close> ends the program.\<close>

datatype parsed = Parsed arguments | ERR_UNKNOWN | Usage

definition parse_opt :: "argp_key \<Rightarrow> string \<Rightarrow> nat \<Rightarrow> arguments \<Rightarrow> parsed option" where
  "parse_opt key arg arg_num a =
     (case key of
        Key_o \<Rightarrow> Some (Parsed (a\<lparr>output_file := arg\<rparr>))
      | ARGP_KEY_ARG \<Rightarrow> map_option (\<lambda>xs. Parsed (a\<lparr>args := xs\<rparr>)) (aset (args a) arg_num arg)
      | ARGP_KEY_END \<Rightarrow> if arg_num < 1 then Some Usage else Some (Parsed (a\<lparr>count := arg_num\<rparr>))
      | Key_other \<Rightarrow> Some ERR_UNKNOWN)"

text \<open>The calls that glibc makes of it, in order; a key it does not know leaves the arguments alone.\<close>

fun argp_parse :: "(argp_key \<times> string \<times> nat) list \<Rightarrow> arguments \<Rightarrow> arguments option option" where
  "argp_parse [] a = Some (Some a)"
| "argp_parse ((key, arg, arg_num) # calls) a =
     do {
       r \<leftarrow> parse_opt key arg arg_num a;
       (case r of Parsed a \<Rightarrow> argp_parse calls a | ERR_UNKNOWN \<Rightarrow> argp_parse calls a | Usage \<Rightarrow> Some None)
     }"

text \<open>The program: its exit code, what it prints, and the files afterwards; \<open>usage_exit\<close> is the code of \<open>argp_usage\<close>.\<close>

definition pack_main :: "int \<Rightarrow> bool \<Rightarrow> (argp_key \<times> string \<times> nat) list \<Rightarrow> files \<Rightarrow> (int \<times> string \<times> files) option" where
  "pack_main usage_exit can_create calls fs =
     do {
       r \<leftarrow> argp_parse calls \<lparr>args = replicate MAX_FILES [], output_file = OUTPUT_FILE, count = 0\<rparr>;
       (case r of
          None \<Rightarrow> Some (usage_exit, [], fs)
        | Some a \<Rightarrow> do {
            let fileArray = take (count a) (args a);
            let (good, msg) = checkFiles fs fileArray;
            if \<not> good then Some (1, msg, fs)
            else do {
              (built, msg, fs) \<leftarrow> buildImage can_create fs fileArray (output_file a);
              Some (if built then 0 else 1, msg, fs)
            }
          })
     }"

section \<open>The image\<close>

text \<open>What the kernel finds behind its own image.\<close>

definition payload :: "u8 list list \<Rightarrow> u8 list" where
  "payload ms = le32 (of_nat (length ms)) @ concat (map (\<lambda>m. le32 (of_nat (length m)) @ m) ms)"

lemma write_file_copies: "\<not> eof s \<Longrightarrow> write_file t s = t @ ahead s"
proof (induction t s rule: write_file.induct)
  case (1 target source)
  let ?s = "snd (fread BUFFER_SIZE source)"
  have "write_file target source = write_file (target @ take BUFFER_SIZE (ahead source)) ?s"
    using 1(2) by (subst write_file.simps) (simp add: fread_def)
  also have "\<dots> = target @ ahead source"
  proof (cases "length (ahead source) < BUFFER_SIZE")
    case True
    then show ?thesis by (subst write_file.simps) (simp add: fread_def)
  next
    case False
    then show ?thesis using 1 by (simp add: fread_def)
  qed
  finally show ?case .
qed

lemma write_modules_concat:
  "map fs names = map Some ms \<Longrightarrow>
     write_modules fs t names = Some (t @ concat (map (\<lambda>m. le32 (of_nat (length m)) @ m) ms))"
  by (induction names arbitrary: t ms)
    (auto simp: fopen_r_def write_size_def write_file_copies)

lemma checkFiles_readable: "fst (checkFiles fs names) \<longleftrightarrow> (\<forall>n\<in>set names. fs n \<noteq> None)"
  by (induction names) auto

lemma buildImage_packs:
  assumes "map fs (kfile # names) = map Some (k # ms)" and "out \<notin> set (kfile # names)"
  shows "buildImage True fs (kfile # names) out = Some (True, [], fs(out \<mapsto> k @ payload ms))"
proof -
  have "length names = length ms" using assms(1) by (metis length_Cons length_map nat.inject)
  with assms show ?thesis
    by (auto simp: buildImage_def aget_def fopen_r_def write_file_copies write_modules_concat payload_def)
qed

section \<open>Memory that holds an image\<close>

definition holds :: "memory \<Rightarrow> ptr \<Rightarrow> u8 list \<Rightarrow> bool" where
  "holds m a bs \<longleftrightarrow> (\<forall>i<length bs. m (a + of_nat i) = bs ! i)"

definition region :: "ptr \<Rightarrow> nat \<Rightarrow> ptr set" where
  "region a n = (\<lambda>i. a + of_nat i) ` {..<n}"

text \<open>The cells of the text screen from the \<open>k\<close>-th on.\<close>

definition cells :: "nat \<Rightarrow> nat \<Rightarrow> ptr set" where
  "cells k n = (\<lambda>j. video + 2 * of_nat j) ` {k..<n}"

lemma all_less_add: "(\<forall>i<(a::nat) + b. P i) \<longleftrightarrow> (\<forall>i<a. P i) \<and> (\<forall>i<b. P (a + i))"
proof (intro iffI conjI allI impI)
  fix i assume h: "(\<forall>i<a. P i) \<and> (\<forall>i<b. P (a + i))" and "i < a + b"
  then show "P i" by (cases "i < a") (auto dest: spec [of _ "i - a"])
qed auto

lemma holds_append: "holds m a (xs @ ys) \<longleftrightarrow> holds m a xs \<and> holds m (a + of_nat (length xs)) ys"
  by (simp add: holds_def all_less_add nth_append algebra_simps)

lemma holds_same: "holds m a bs \<Longrightarrow> (\<And>x. x \<in> region a (length bs) \<Longrightarrow> m' x = m x) \<Longrightarrow> holds m' a bs"
  by (auto simp: holds_def region_def)

lemma region_add: "region a (n + k) = region a n \<union> region (a + of_nat n) k"
proof -
  have "{..<n + k} = {..<n} \<union> (+) n ` {..<k}" by (simp add: lessThan_atLeast0 ivl_disj_un_two add.commute)
  then show ?thesis by (simp add: region_def image_Un image_image algebra_simps)
qed

lemma cells_mono: "k \<le> k' \<Longrightarrow> n' \<le> n \<Longrightarrow> cells k' n' \<subseteq> cells k n"
  by (auto simp: cells_def)

lemma le32_length [simp]: "length (le32 w) = 4"
  by (simp add: le32_def)

lemma load_le32: "holds m a (le32 w) \<Longrightarrow> load32 m a = w"
proof -
  assume h: "holds m a (le32 w)"
  have "m a = ucast w" "m (a + 1) = ucast (drop_bit 8 w)" "m (a + 2) = ucast (drop_bit 16 w)" "m (a + 3) = ucast (drop_bit 24 w)"
    using h [unfolded holds_def, rule_format, of 0] h [unfolded holds_def, rule_format, of 1]
      h [unfolded holds_def, rule_format, of 2] h [unfolded holds_def, rule_format, of 3]
    by (simp_all add: le32_def)
  note m = this
  show ?thesis
  proof (rule bit_word_eqI)
    fix n assume "n < LENGTH(32)"
    then consider "n < 8" | "8 \<le> n" "n < 16" | "16 \<le> n" "n < 24" | "24 \<le> n" "n < 32" by fastforce
    then show "bit (load32 m a) n = bit w n"
    proof cases
      case 1 then show ?thesis by (simp add: load32_def m bit_simps)
    next
      case 2 then show ?thesis by (simp add: load32_def m bit_simps) arith?
    next
      case 3 then show ?thesis by (simp add: load32_def m bit_simps) arith?
    next
      case 4 then show ?thesis by (simp add: load32_def m bit_simps) arith?
    qed
  qed
qed

lemma region_in: "unat a + n < 2 ^ 64 \<Longrightarrow> x \<in> region a n \<Longrightarrow> unat a \<le> unat x \<and> unat x < unat a + n"
  by (auto simp: region_def unat_word_ariths unat_of_nat_small)

section \<open>What the loader prints\<close>

text \<open>The cursor stands at the \<open>k\<close>-th cell and the static buffer of the number printers is whole.\<close>

definition cursor_at :: "nat \<Rightarrow> console \<Rightarrow> bool" where
  "cursor_at k c \<longleftrightarrow> currentVideo c = video + 2 * of_nat k \<and> length (ncbuffer c) = 64"

text \<open>Printing from the \<open>k\<close>-th cell on, at most \<open>n\<close> of them.\<close>

definition prints :: "nat \<Rightarrow> nat \<Rightarrow> console \<Rightarrow> console \<Rightarrow> bool" where
  "prints k n c c' \<longleftrightarrow> (\<exists>k'. k \<le> k' \<and> k' \<le> k + n \<and> cursor_at k' c') \<and> (\<forall>x. x \<notin> cells k (k + n) \<longrightarrow> console.vmem c' x = console.vmem c x)"

lemma printed_frame: "x \<notin> (\<lambda>j. p + 2 * of_nat j) ` {..<length s} \<Longrightarrow> printed p s m x = m x"
proof (induction p s m rule: printed.induct)
  case (2 a y xs m)
  have "x \<notin> (\<lambda>j. a + 2 + 2 * of_nat j) ` {..<length xs}"
  proof
    assume "x \<in> (\<lambda>j. a + 2 + 2 * of_nat j) ` {..<length xs}"
    then obtain j where "x = a + 2 * of_nat (Suc j)" "Suc j < length (y # xs)" by (auto simp: algebra_simps)
    then show False using 2(2) by blast
  qed
  then have "printed a (y # xs) m x = (m(a := of_nat (of_char y))) x" using 2(1) by (simp del: fun_upd_apply)
  moreover have "x \<noteq> a" using imageI [of 0 "{..<length (y # xs)}" "\<lambda>j. a + 2 * of_nat j"] 2(2) by auto
  ultimately show ?case by simp
qed simp

lemma ncPrint_prints:
  assumes "cursor_at k c" and "nul \<notin> set s" and "length s \<le> n"
  shows "\<exists>c'. ncPrint (s @ nul # t) c = Some c' \<and> prints k n c c'"
proof -
  let ?c = "c\<lparr>console.vmem := printed (currentVideo c) s (console.vmem c), currentVideo := currentVideo c + 2 * of_nat (length s)\<rparr>"
  have "(\<lambda>j. currentVideo c + 2 * of_nat j) ` {..<length s} = cells k (k + length s)"
  proof -
    have "{k..<k + length s} = (+) k ` {..<length s}" by (simp add: lessThan_atLeast0 add.commute)
    then show ?thesis using assms(1) by (simp add: cells_def cursor_at_def image_image algebra_simps)
  qed
  moreover have "cells k (k + length s) \<subseteq> cells k (k + n)" using assms(3) by (intro cells_mono) simp_all
  ultimately have "console.vmem ?c x = console.vmem c x" if "x \<notin> cells k (k + n)" for x
    using that printed_frame [of x "currentVideo c" s "console.vmem c"] by auto
  moreover have "cursor_at (k + length s) ?c" using assms(1) by (simp add: cursor_at_def algebra_simps)
  ultimately have "prints k n c ?c" using assms(3) unfolding prints_def by (intro conjI exI [of _ "k + length s"]) simp_all
  then show ?thesis using ncPrint_printed [OF assms(2), of t c] by blast
qed

lemma ncPrintBase_prints:
  assumes "cursor_at k c" and "10 \<le> b" and "b \<le> 16"
  shows "\<exists>c'. ncPrintBase v b c = Some c' \<and> prints k 20 c c'"
proof -
  let ?r = "render (unat b) 65 (unat v)"
  have b: "10 \<le> unat b" "unat b \<le> 16" using assms by (auto simp: word_le_nat_alt)
  have "unat v < 2 ^ 64" using unat_less [of v] by simp
  also have "(2::nat) ^ 64 \<le> 10 ^ 20" by simp
  also have "(10::nat) ^ 20 \<le> unat b ^ 20" using b by (intro power_mono) simp_all
  finally have r: "length ?r \<le> 20" using b by (intro render_length) simp_all
  have "2 \<le> b" "b \<le> 36" using b by (simp_all add: word_le_nat_alt)
  then have "ncPrintBase v b c = ncPrint (?r @ nul # drop (Suc (length ?r)) (ncbuffer c))
      (c\<lparr>ncbuffer := ?r @ nul # drop (Suc (length ?r)) (ncbuffer c)\<rparr>)" (is "_ = ncPrint _ ?c")
    using uintToBase_render [of b "ncbuffer c" v] r assms(1) by (simp add: ncPrintBase_def cursor_at_def Let_def)
  moreover have "nul \<notin> set ?r" using b by (intro render_no_nul) simp_all
  moreover have "cursor_at k ?c" using assms(1) r by (simp add: cursor_at_def)
  ultimately show ?thesis using ncPrint_prints [of k ?c ?r 20] r by (auto simp: prints_def)
qed

lemma ncPrintHex_prints: "cursor_at k c \<Longrightarrow> \<exists>c'. ncPrintHex v c = Some c' \<and> prints k 20 c c'"
  and ncPrintDec_prints: "cursor_at k c \<Longrightarrow> \<exists>c'. ncPrintDec v c = Some c' \<and> prints k 20 c c'"
  unfolding ncPrintHex_def ncPrintDec_def by (rule ncPrintBase_prints; simp)+

text \<open>A line ends after at most eighty cells.\<close>

lemma ncNewline_prints:
  "cursor_at k c \<Longrightarrow> k + (80 - k mod 80) \<le> 2 ^ 33 \<Longrightarrow> \<exists>c'. ncNewline c = Some c' \<and> prints k (80 - k mod 80) c c'"
proof (induction "80 - k mod 80" arbitrary: k c rule: less_induct)
  case less
  let ?c = "ncPrintChar (CHR '' '') c"
  have c: "cursor_at (Suc k) ?c" using less.prems(1) by (simp add: cursor_at_def ncPrintChar_def algebra_simps)
  have f: "console.vmem ?c x = console.vmem c x" if "x \<notin> cells k (k + n)" "0 < n" for x n
    using that less.prems(1) by (auto simp: ncPrintChar_def cursor_at_def cells_def)
  have at: "currentVideo ?c - video = of_nat (2 * Suc k)" using c by (simp add: cursor_at_def)
  have "k < 2 ^ 33" using less.prems(2) mod_less_divisor [of 80 k] by linarith
  then have small: "2 * Suc k < 2 ^ 64" by simp
  have "(currentVideo ?c - video) mod (ucast (nc_width * 2)) = of_nat (2 * Suc k mod 160)"
    unfolding at using small by (intro word_unat_eq_iff [THEN iffD2]) (simp add: unat_mod unat_of_nat_small del: of_nat_mult of_nat_Suc of_nat_mod)
  then have z: "(currentVideo ?c - video) mod (ucast (nc_width * 2)) = 0 \<longleftrightarrow> Suc k mod 80 = 0"
    by (simp add: word_unat_eq_iff unat_of_nat_small del: of_nat_mult of_nat_Suc of_nat_mod) presburger?
  show ?case
  proof (cases "Suc k mod 80 = 0")
    case True
    then have "80 - k mod 80 = 1" by (simp add: mod_Suc split: if_splits)
    moreover have "prints k 1 c ?c" using c f [of _ 1] by (auto simp: prints_def intro!: exI [of _ "Suc k"])
    ultimately show ?thesis using True z by (subst ncNewline.simps) (simp add: Let_def)
  next
    case False
    then have m: "Suc k mod 80 = Suc (k mod 80)" by (simp add: mod_Suc split: if_splits)
    have lt: "80 - Suc k mod 80 < 80 - k mod 80" and same: "Suc k + (80 - Suc k mod 80) = k + (80 - k mod 80)"
      unfolding m using mod_less_divisor [of 80 "Suc k"] unfolding m by simp_all
    obtain c' where c': "ncNewline ?c = Some c'" "prints (Suc k) (80 - Suc k mod 80) ?c c'"
      using less.hyps [OF lt c] same less.prems(2) by auto
    have "console.vmem c' x = console.vmem c x" if "x \<notin> cells k (k + (80 - k mod 80))" for x
    proof -
      have "x \<notin> cells (Suc k) (Suc k + (80 - Suc k mod 80))" using that cells_mono [of k "Suc k"] same by fastforce
      then show ?thesis using c'(2) f [OF that] lt by (simp add: prints_def)
    qed
    then have "prints k (80 - k mod 80) c c'" using c'(2) same unfolding prints_def by (metis Suc_leD)
    then show ?thesis using c'(1) False z by (subst ncNewline.simps) (simp add: Let_def)
  qed
qed

lemma prints_then:
  assumes "prints k n c c1"
    and "\<And>j. k \<le> j \<Longrightarrow> j \<le> k + n \<Longrightarrow> cursor_at j c1 \<Longrightarrow> \<exists>c2. P c2 \<and> prints j n' c1 c2"
  shows "\<exists>c2. P c2 \<and> prints k (n + n') c c2"
proof -
  obtain j where j: "k \<le> j" "j \<le> k + n" "cursor_at j c1" using assms(1) by (auto simp: prints_def)
  then obtain c2 i where c2: "P c2" "j \<le> i" "i \<le> j + n'" "cursor_at i c2"
      "\<forall>x. x \<notin> cells j (j + n') \<longrightarrow> console.vmem c2 x = console.vmem c1 x"
    using assms(2) [OF j] by (auto simp: prints_def)
  have "cells j (j + n') \<subseteq> cells k (k + (n + n'))" "cells k (k + n) \<subseteq> cells k (k + (n + n'))"
    using j by (simp_all add: cells_mono)
  then have "console.vmem c2 x = console.vmem c x" if "x \<notin> cells k (k + (n + n'))" for x
    using that assms(1) c2(5) unfolding prints_def by (metis subsetD)
  with c2 j have "prints k (n + n') c c2"
    unfolding prints_def by (intro conjI exI [of _ i]) simp_all
  with c2(1) show ?thesis by blast
qed

lemma newline_prints: "cursor_at k c \<Longrightarrow> k < 2 ^ 32 \<Longrightarrow> \<exists>c'. ncNewline c = Some c' \<and> prints k 80 c c'"
proof -
  assume h: "cursor_at k c" "k < 2 ^ 32"
  then obtain c' where c': "ncNewline c = Some c'" "prints k (80 - k mod 80) c c'"
  proof -
    have "k + (80 - k mod 80) \<le> 2 ^ 33" using h(2) by simp
    from ncNewline_prints [OF h(1) this] show ?thesis using that by blast
  qed
  have "cells k (k + (80 - k mod 80)) \<subseteq> cells k (k + 80)" by (rule cells_mono) simp_all
  with c'(2) have "prints k 80 c c'" unfolding prints_def by (auto 4 4 simp: subset_iff intro: le_trans)
  with c'(1) show ?thesis by blast
qed

section \<open>Loading\<close>

text \<open>The messages in front of a copy and behind it.\<close>

definition announce :: "ptr \<Rightarrow> ptr \<Rightarrow> u32 \<Rightarrow> console \<Rightarrow> console option" where
  "announce module target n c =
     do {
       c \<leftarrow> ncPrint (''  Will copy module at 0x'' @ [nul]) c;
       c \<leftarrow> ncPrintHex module c;
       c \<leftarrow> ncPrint ('' to 0x'' @ [nul]) c;
       c \<leftarrow> ncPrintHex target c;
       c \<leftarrow> ncPrint ('' ('' @ [nul]) c;
       c \<leftarrow> ncPrintDec (ucast n) c;
       ncPrint ('' bytes)'' @ [nul]) c
     }"

lemma prints_seq:
  assumes "\<exists>c'. f c = Some c' \<and> prints k n c c'"
    and "\<And>c1 j. k \<le> j \<Longrightarrow> j \<le> k + n \<Longrightarrow> cursor_at j c1 \<Longrightarrow> \<exists>c2. g c1 = Some c2 \<and> prints j n' c1 c2"
  shows "\<exists>c'. (f c \<bind> g) = Some c' \<and> prints k (n + n') c c'"
proof -
  obtain c1 where c1: "f c = Some c1" "prints k n c c1" using assms(1) by blast
  from prints_then [OF c1(2), of "\<lambda>c2. g c1 = Some c2" n'] assms(2) show ?thesis by (simp add: c1(1))
qed

lemma announce_prints: "cursor_at k c \<Longrightarrow> \<exists>c'. announce module target n c = Some c' \<and> prints k 100 c c'"
proof -
  assume c: "cursor_at k c"
  have "\<exists>c'. announce module target n c = Some c' \<and> prints k (24 + (20 + (6 + (20 + (3 + (20 + 7)))))) c c'"
    unfolding announce_def
    by (intro prints_seq ncPrint_prints [where t = "[]"] ncPrintHex_prints ncPrintDec_prints c) simp_all
  then show ?thesis by simp
qed

lemma loadModule_announce:
  "loadModule module target c =
     do {
       let n = load32 (console.vmem c) module;
       c \<leftarrow> announce (module + 4) target n c;
       let c = c\<lparr>console.vmem := memcpy target (module + 4) (ucast n) (console.vmem c)\<rparr>;
       c \<leftarrow> ncPrint ('' [Done]'' @ [nul]) c;
       c \<leftarrow> ncNewline c;
       Some (module + 4 + ucast n, c)
     }"
  by (simp add: loadModule_def announce_def readUint32_def Let_def)

lemma word_of_nat_unat_u64: "of_nat (unat w) = (w :: u64)"
  by simp

text \<open>A module that lies apart from its target and from the cells it is announced in.\<close>

lemma loadModule_copies:
  assumes c: "cursor_at k c" "k < 2 ^ 31" and h: "holds (console.vmem c) a (le32 (of_nat (length bs)) @ bs)" and n: "length bs < 2 ^ 32"
    and d: "region a (4 + length bs) \<inter> cells k (k + 187) = {}" "region t (length bs) \<inter> region a (4 + length bs) = {}"
      "region t (length bs) \<inter> cells k (k + 187) = {}"
  shows "\<exists>c' j. loadModule a t c = Some (a + of_nat (4 + length bs), c') \<and> k \<le> j \<and> j \<le> k + 187 \<and> cursor_at j c' \<and>
     holds (console.vmem c') t bs \<and>
     (\<forall>x. x \<notin> cells k (k + 187) \<union> region t (length bs) \<longrightarrow> console.vmem c' x = console.vmem c x)"
proof -
  let ?n = "of_nat (length bs) :: u32"
  have hs: "holds (console.vmem c) a (le32 ?n)" "holds (console.vmem c) (a + 4) bs" using h by (simp_all add: holds_append)
  have sz: "unat (ucast ?n :: u64) = length bs" using n by (simp add: unat_ucast32 unat_of_nat_small)
  have un: "(ucast ?n :: u64) = of_nat (length bs)" using word_of_nat_unat_u64 [of "ucast ?n", unfolded sz] by (rule sym)
  have l: "load32 (console.vmem c) a = ?n" using hs(1) by (rule load_le32)
  obtain c1 where c1: "announce (a + 4) t ?n c = Some c1" "prints k 100 c c1" using announce_prints [OF c(1)] by blast
  then obtain j1 where j1: "k \<le> j1" "j1 \<le> k + 100" "cursor_at j1 c1" by (auto simp: prints_def)
  define c2 where "c2 = c1\<lparr>console.vmem := memcpy t (a + 4) (ucast ?n) (console.vmem c1)\<rparr>"
  have at: "cursor_at j1 c2" using j1(3) by (simp add: c2_def cursor_at_def)
  have "\<exists>c4. (ncPrint ('' [Done]'' @ [nul]) c2 \<bind> ncNewline) = Some c4 \<and> prints j1 (7 + 80) c2 c4"
    using c(2) j1 by (intro prints_seq ncPrint_prints [where t = "[]"] newline_prints at) simp_all
  then obtain c4 where c4: "(ncPrint ('' [Done]'' @ [nul]) c2 \<bind> ncNewline) = Some c4" "prints j1 87 c2 c4" by auto
  then obtain j where j: "j1 \<le> j" "j \<le> j1 + 87" "cursor_at j c4" by (auto simp: prints_def)
  have sub: "cells k (k + 100) \<subseteq> cells k (k + 187)" "cells j1 (j1 + 87) \<subseteq> cells k (k + 187)"
    using j1 by (simp_all add: cells_mono)
  have f1: "console.vmem c1 x = console.vmem c x" if "x \<notin> cells k (k + 187)" for x
  proof -
    have "x \<notin> cells k (k + 100)" using that sub(1) by blast
    with c1(2) show ?thesis by (simp add: prints_def)
  qed
  have f2: "console.vmem c4 x = console.vmem c2 x" if "x \<notin> cells k (k + 187)" for x
  proof -
    have "x \<notin> cells j1 (j1 + 87)" using that sub(2) by blast
    with c4(2) show ?thesis by (simp add: prints_def)
  qed
  have ra: "region a (4 + length bs) = region a 4 \<union> region (a + 4) (length bs)" using region_add [of a 4 "length bs"] by simp
  have src: "holds (console.vmem c1) (a + 4) bs"
    using f1 d(1) by (intro holds_same [OF hs(2)]) (auto simp: ra)
  have apart: "t + of_nat i \<noteq> a + 4 + of_nat j" if "i < length bs" "j < length bs" for i j
  proof -
    have "t + of_nat i \<in> region t (length bs)" "a + 4 + of_nat j \<in> region (a + 4) (length bs)"
      using that by (simp_all add: region_def)
    then show ?thesis using d(2) unfolding ra by auto
  qed
  have mc: "console.vmem c2 x = (if unat (x - t) < length bs then console.vmem c1 (a + 4 + (x - t)) else console.vmem c1 x)" for x
    unfolding c2_def using memcpy_eq [of "ucast ?n" t "a + 4" "console.vmem c1" x] apart by (simp add: sz)
  have small: "length bs < 2 ^ 64" using n by simp
  have copied: "holds (console.vmem c2) t bs"
  proof (unfold holds_def, intro allI impI)
    fix i assume i: "i < length bs"
    then have "unat (t + of_nat i - t) = i" using small by (simp add: unat_of_nat_small)
    then show "console.vmem c2 (t + of_nat i) = bs ! i" using src i by (simp add: mc holds_def)
  qed
  then have res: "holds (console.vmem c4) t bs" using f2 d(3) by (intro holds_same [OF copied]) blast
  have "console.vmem c2 x = console.vmem c1 x" if "x \<notin> region t (length bs)" for x
  proof -
    have "\<not> unat (x - t) < length bs"
    proof
      assume "unat (x - t) < length bs"
      then have "t + of_nat (unat (x - t)) \<in> region t (length bs)" unfolding region_def by (intro imageI) simp
      with that show False by simp
    qed
    then show ?thesis by (simp add: mc)
  qed
  with f1 f2 have "\<forall>x. x \<notin> cells k (k + 187) \<union> region t (length bs) \<longrightarrow> console.vmem c4 x = console.vmem c x" by simp
  moreover have "loadModule a t c = Some (a + of_nat (4 + length bs), c4)"
    using c1(1) c4(1) unfolding loadModule_announce by (auto simp: l c2_def un Let_def bind_eq_Some_conv add.assoc)
  moreover have "k \<le> j" "j \<le> k + 187" using j j1 by simp_all
  ultimately show ?thesis using j(3) res by blast
qed

abbreviation packed :: "u8 list list \<Rightarrow> u8 list" where
  "packed ms \<equiv> concat (map (\<lambda>m. le32 (of_nat (length m)) @ m) ms)"

text \<open>
  The modules \<open>ms\<close> at \<open>a\<close> can be loaded to the targets \<open>ts\<close>: no target meets the packed modules, another
  target or the screen cells \<open>W\<close>, and the packed modules do not lie on the screen.
\<close>

fun loadable :: "ptr set \<Rightarrow> ptr \<Rightarrow> u8 list list \<Rightarrow> ptr list \<Rightarrow> bool" where
  "loadable W a [] ts = True"
| "loadable W a (bs # ms) [] = False"
| "loadable W a (bs # ms) (t # ts) \<longleftrightarrow>
     length bs < 2 ^ 32 \<and>
     region a (length (packed (bs # ms))) \<inter> W = {} \<and>
     region t (length bs) \<inter> (W \<union> region a (length (packed (bs # ms)))) = {} \<and>
     (\<forall>(m, u)\<in>set (zip ms ts). region t (length bs) \<inter> region u (length m) = {}) \<and>
     loadable W (a + of_nat (4 + length bs)) ms ts"

lemma loadable_mono: "loadable W a ms ts \<Longrightarrow> W' \<subseteq> W \<Longrightarrow> loadable W' a ms ts"
proof (induction W a ms ts rule: loadable.induct)
  case (3 W a bs ms t ts)
  then show ?case by simp blast
qed simp_all

lemma load_loop_copies:
  "cursor_at k c \<Longrightarrow> k + 187 * length ms < 2 ^ 31 \<Longrightarrow> holds (console.vmem c) a (packed ms) \<Longrightarrow>
   loadable (cells k (k + 187 * length ms)) a ms ts \<Longrightarrow>
     \<exists>c'. load_loop (length ms) a ts c = Some c' \<and> (\<forall>(m, t)\<in>set (zip ms ts). holds (console.vmem c') t m) \<and>
       (\<forall>x. x \<notin> cells k (k + 187 * length ms) \<union> (\<Union>(m, t)\<in>set (zip ms ts). region t (length m)) \<longrightarrow>
          console.vmem c' x = console.vmem c x)"
proof (induction ms arbitrary: k c a ts)
  case Nil
  then show ?case by simp
next
  case (Cons bs ms)
  obtain t ts' where ts: "ts = t # ts'" using Cons.prems(4) by (cases ts) auto
  let ?W = "cells k (k + 187 * length (bs # ms))" and ?D = "region a (length (packed (bs # ms)))"
  let ?a = "a + of_nat (4 + length bs)"
  have l: "length bs < 2 ^ 32" "?D \<inter> ?W = {}" "region t (length bs) \<inter> (?W \<union> ?D) = {}"
    "\<forall>(m, u)\<in>set (zip ms ts'). region t (length bs) \<inter> region u (length m) = {}" "loadable ?W ?a ms ts'"
    using Cons.prems(4) unfolding ts loadable.simps by blast+
  have D: "?D = region a (4 + length bs) \<union> region ?a (length (packed ms))"
    using region_add [of a "4 + length bs" "length (packed ms)"] by (simp add: add.assoc)
  have h: "holds (console.vmem c) a (le32 (of_nat (length bs)) @ bs)" "holds (console.vmem c) ?a (packed ms)"
    using Cons.prems(3) holds_append [of "console.vmem c" a "le32 (of_nat (length bs)) @ bs" "packed ms"] by simp_all
  have w1: "cells k (k + 187) \<subseteq> ?W" by (rule cells_mono) simp_all
  have small: "k < 2 ^ 31" using Cons.prems(2) by simp
  have "region a (4 + length bs) \<inter> cells k (k + 187) = {}" "region t (length bs) \<inter> region a (4 + length bs) = {}"
    "region t (length bs) \<inter> cells k (k + 187) = {}"
    using l(2,3) w1 unfolding D by blast+
  note copies = loadModule_copies [OF Cons.prems(1) small h(1) l(1) this]
  obtain c1 j where c1: "loadModule a t c = Some (?a, c1)" "k \<le> j" "j \<le> k + 187" "cursor_at j c1"
      "holds (console.vmem c1) t bs"
      "\<forall>x. x \<notin> cells k (k + 187) \<union> region t (length bs) \<longrightarrow> console.vmem c1 x = console.vmem c x"
    using copies by (elim exE conjE) (rule that)
  have w2: "cells j (j + 187 * length ms) \<subseteq> ?W" using c1(2,3) by (intro cells_mono) simp_all
  have rest: "holds (console.vmem c1) ?a (packed ms)"
  proof (rule holds_same [OF h(2)])
    fix x assume "x \<in> region ?a (length (packed ms))"
    then have "x \<in> ?D" unfolding D by (rule UnI2)
    then have "x \<notin> ?W" "x \<notin> region t (length bs)" using l(2,3) by auto
    with c1(6) w1 show "console.vmem c1 x = console.vmem c x" by blast
  qed
  have "j + 187 * length ms < 2 ^ 31" using c1(3) Cons.prems(2) by simp
  from Cons.IH [OF c1(4) this rest loadable_mono [OF l(5) w2]]
  obtain c' where c': "load_loop (length ms) ?a ts' c1 = Some c'" "\<forall>(m, t)\<in>set (zip ms ts'). holds (console.vmem c') t m"
    "\<forall>x. x \<notin> cells j (j + 187 * length ms) \<union> (\<Union>(m, t)\<in>set (zip ms ts'). region t (length m)) \<longrightarrow>
       console.vmem c' x = console.vmem c1 x" by (elim exE conjE) (rule that)
  have "holds (console.vmem c') t bs"
  proof (rule holds_same [OF c1(5)])
    fix x assume x: "x \<in> region t (length bs)"
    then have "x \<notin> ?W" using l(3) by auto
    moreover have "x \<notin> (\<Union>(m, t)\<in>set (zip ms ts'). region t (length m))" using x l(4) by fastforce
    ultimately show "console.vmem c' x = console.vmem c1 x" using c'(3) w2 by blast
  qed
  moreover have "console.vmem c' x = console.vmem c x"
    if "x \<notin> ?W \<union> (\<Union>(m, t)\<in>set (zip (bs # ms) ts). region t (length m))" for x
  proof -
    have "x \<notin> ?W" "x \<notin> region t (length bs)" "x \<notin> (\<Union>(m, t)\<in>set (zip ms ts'). region t (length m))"
      using that by (auto simp: ts)
    moreover from this have "x \<notin> cells j (j + 187 * length ms)" "x \<notin> cells k (k + 187)" using w1 w2 by blast+
    ultimately have "console.vmem c' x = console.vmem c1 x" "console.vmem c1 x = console.vmem c x"
      using c'(3) c1(6) by blast+
    then show ?thesis by simp
  qed
  ultimately show ?case using c1(1) c'(1,2) by (auto simp: ts)
qed

lemma loadModules_copies:
  assumes "cursor_at 0 c" and "length ms \<le> 2 ^ 20" and "holds (console.vmem c) a (payload ms)"
    and "loadable (cells 0 (187 * length ms)) (a + 4) ms ts"
  shows "\<exists>c'. loadModules a ts c = Some c' \<and> (\<forall>(m, t)\<in>set (zip ms ts). holds (console.vmem c') t m)"
proof -
  have h: "holds (console.vmem c) a (le32 (of_nat (length ms)))" "holds (console.vmem c) (a + 4) (packed ms)"
    using assms(3) by (simp_all add: payload_def holds_append)
  have "unat (of_nat (length ms) :: u32) = length ms" using assms(2) by (simp add: unat_of_nat_small)
  then have "loadModules a ts c = load_loop (length ms) (a + 4) ts c"
    using load_le32 [OF h(1)] by (simp add: loadModules_def readUint32_def)
  moreover have "0 + 187 * length ms < 2 ^ 31" using assms(2) by simp
  note load_loop_copies [OF assms(1) this h(2), of ts]
  ultimately show ?thesis using assms(4) by (metis add_0)
qed

section \<open>From the command line\<close>

text \<open>The calls for \<open>-o out file \<dots>\<close>.\<close>

definition command_line :: "string \<Rightarrow> string list \<Rightarrow> (argp_key \<times> string \<times> nat) list" where
  "command_line out names =
     (Key_o, out, 0) # map (\<lambda>(i, n). (ARGP_KEY_ARG, n, i)) (enumerate 0 names) @ [(ARGP_KEY_END, [], length names)]"

lemma argp_parse_args:
  "i + length names \<le> length (args a) \<Longrightarrow>
     argp_parse (map (\<lambda>(i, n). (ARGP_KEY_ARG, n, i)) (enumerate i names) @ calls) a =
       argp_parse calls (a\<lparr>args := take i (args a) @ names @ drop (i + length names) (args a)\<rparr>)"
proof (induction names arbitrary: i a)
  case (Cons n names)
  let ?a = "a\<lparr>args := (args a)[i := n]\<rparr>"
  have "take (Suc i) ((args a)[i := n]) = take i (args a) @ [n]" using Cons.prems by (simp add: take_Suc_conv_app_nth)
  then show ?case using Cons.prems Cons.IH [of "Suc i" ?a] by (simp add: parse_opt_def aset_def)
qed simp

lemma command_line_parses:
  assumes "names \<noteq> []" and "length names \<le> MAX_FILES"
  shows "\<exists>a. argp_parse (command_line out names) \<lparr>args = replicate MAX_FILES [], output_file = d, count = 0\<rparr> = Some (Some a) \<and>
     output_file a = out \<and> take (count a) (args a) = names"
  using assms argp_parse_args [of 0 names "\<lparr>args = replicate MAX_FILES [], output_file = out, count = 0\<rparr>" "[(ARGP_KEY_END, [], length names)]"]
  by (cases names) (auto simp: command_line_def parse_opt_def)

text \<open>C34: packing and loading. Run on a kernel and at most 127 modules that can be read, with an output that can be
  written and is none of them, the packer exits with 0 and leaves an image that, wherever it comes to lie in memory, the
  kernel's loader unpacks: called on the address behind the kernel, it returns without a fault and leaves every module's
  bytes at its target, as long as the targets meet neither one another nor the packed modules nor the cells of the screen that
  the loader prints on.\<close>

theorem pack_then_load:
  assumes "map fs (kfile # names) = map Some (k # ms)" and "out \<notin> set (kfile # names)" and "length names < MAX_FILES"
  shows "\<exists>fs' image. pack_main u True (command_line out (kfile # names)) fs = Some (0, [], fs') \<and> fs' out = Some image \<and>
     (\<forall>c base ts. cursor_at 0 c \<and> holds (console.vmem c) base image \<and>
        loadable (cells 0 (187 * length ms)) (base + of_nat (length k) + 4) ms ts \<longrightarrow>
        (\<exists>c'. loadModules (base + of_nat (length k)) ts c = Some c' \<and> (\<forall>(m, t)\<in>set (zip ms ts). holds (console.vmem c') t m)))"
proof -
  have len: "length ms = length names" using assms(1) by (metis length_Cons length_map nat.inject)
  obtain a where a: "argp_parse (command_line out (kfile # names)) \<lparr>args = replicate MAX_FILES [], output_file = OUTPUT_FILE, count = 0\<rparr> = Some (Some a)"
    "output_file a = out" "take (count a) (args a) = kfile # names"
    using command_line_parses [of "kfile # names" out OUTPUT_FILE] assms(3) by auto
  have "\<forall>n\<in>set (kfile # names). fs n \<noteq> None"
  proof
    fix n assume "n \<in> set (kfile # names)"
    then have "fs n \<in> set (map Some (k # ms))" unfolding assms(1) [symmetric] set_map by (rule imageI)
    then show "fs n \<noteq> None" by auto
  qed
  then have "fst (checkFiles fs (kfile # names))" unfolding checkFiles_readable .
  then have "pack_main u True (command_line out (kfile # names)) fs = Some (0, [], fs(out \<mapsto> k @ payload ms))"
    using buildImage_packs [OF assms(1,2)]
    by (simp add: pack_main_def a case_prod_beta Let_def del: checkFiles.simps)
  moreover have "\<exists>c'. loadModules (base + of_nat (length k)) ts c = Some c' \<and> (\<forall>(m, t)\<in>set (zip ms ts). holds (console.vmem c') t m)"
    if "cursor_at 0 c" "holds (console.vmem c) base (k @ payload ms)"
      "loadable (cells 0 (187 * length ms)) (base + of_nat (length k) + 4) ms ts" for c base ts
    using loadModules_copies [OF that(1) _ _ that(3)] that(2) len assms(3) by (simp add: holds_append)
  ultimately show ?thesis by (intro exI [of _ "fs(out \<mapsto> k @ payload ms)"] exI [of _ "k @ payload ms"]) auto
qed

definition demo_files :: files where
  "demo_files = [''kernel'' \<mapsto> [1, 2, 3], ''a'' \<mapsto> [7], ''b'' \<mapsto> [8, 9]]"

definition demo_memory :: memory where
  "demo_memory a = (let i = unat (a - 0x100000); image = [1, 2, 3] @ payload [[7], [8, 9]] in if i < length image then image ! i else 0)"

lemma cells_in: "x \<in> cells 0 n \<Longrightarrow> n \<le> 0x1000 \<Longrightarrow> 0xB8000 \<le> unat x \<and> unat x < 0xC0000"
  by (auto simp: cells_def unat_word_ariths unat_of_nat_small)

lemma ranges_apart:
  "(\<And>x. x \<in> A \<Longrightarrow> p \<le> unat x \<and> unat x < q) \<Longrightarrow> (\<And>x. x \<in> B \<Longrightarrow> r \<le> unat x \<and> unat x < s) \<Longrightarrow> q \<le> r \<or> s \<le> (p::nat) \<Longrightarrow> A \<inter> B = {}"
  by fastforce

lemma demo_loadable: "loadable (cells 0 374) 0x100007 [[7], [8, 9]] [0x400000, 0x500000]"
proof -
  have w: "cells 0 374 \<inter> region p n = {}" if "unat p + n < 2 ^ 64" "0xC0000 \<le> unat p" for p n
    by (rule ranges_apart [OF cells_in region_in]) (use that in auto)
  have r: "region p n \<inter> region q m = {}" if "unat p + n < 2 ^ 64" "unat q + m < 2 ^ 64" "unat p + n \<le> unat q \<or> unat q + m \<le> unat p" for p q n m
    by (rule ranges_apart [OF region_in region_in]) (use that in auto)
  show ?thesis using w r by (simp add: Int_commute [of _ "cells 0 374"] Int_Un_distrib)
qed

theorem pack_then_load_witness:
  "\<exists>c'. loadModules 0x100003 [0x400000, 0x500000] \<lparr>console.vmem = demo_memory, currentVideo = video, ncbuffer = replicate 64 nul\<rparr> = Some c' \<and>
     console.vmem c' 0x400000 = 7 \<and> console.vmem c' 0x500001 = 9"
proof -
  let ?c = "\<lparr>console.vmem = demo_memory, currentVideo = video, ncbuffer = replicate 64 nul\<rparr>"
  have f: "map demo_files [''kernel'', ''a'', ''b''] = map Some [[1, 2, 3], [7], [8, 9]]" by (simp add: demo_files_def)
  have p: "map_option (\<lambda>(_, _, fs). fs ''out'') (pack_main 64 True (command_line ''out'' [''kernel'', ''a'', ''b'']) demo_files) =
      Some (Some ([1, 2, 3] @ payload [[7], [8, 9]]))" by code_simp
  have h: "holds demo_memory 0x100000 ([1, 2, 3] @ payload [[7], [8, 9]])"
    by (auto simp: holds_def demo_memory_def payload_def Let_def unat_of_nat_small)
  let ?ms = "[[7], [8, 9]] :: u8 list list" and ?ts = "[0x400000, 0x500000] :: ptr list"
  have "\<exists>fs' image. pack_main 64 True (command_line ''out'' [''kernel'', ''a'', ''b'']) demo_files = Some (0, [], fs') \<and>
     fs' ''out'' = Some image \<and>
     (\<forall>c base ts. cursor_at 0 c \<and> holds (console.vmem c) base image \<and>
        loadable (cells 0 (187 * length ?ms)) (base + of_nat (length ([1, 2, 3] :: u8 list)) + 4) ?ms ts \<longrightarrow>
        (\<exists>c'. loadModules (base + of_nat (length ([1, 2, 3] :: u8 list))) ts c = Some c' \<and>
           (\<forall>(m, t)\<in>set (zip ?ms ts). holds (console.vmem c') t m)))"
    by (rule pack_then_load [OF f]) simp_all
  then obtain fs' image where r: "pack_main 64 True (command_line ''out'' [''kernel'', ''a'', ''b'']) demo_files = Some (0, [], fs')"
     "fs' ''out'' = Some image"
     and l: "\<And>c base ts. cursor_at 0 c \<and> holds (console.vmem c) base image \<and>
        loadable (cells 0 (187 * length ?ms)) (base + of_nat (length ([1, 2, 3] :: u8 list)) + 4) ?ms ts \<Longrightarrow>
        \<exists>c'. loadModules (base + of_nat (length ([1, 2, 3] :: u8 list))) ts c = Some c' \<and>
           (\<forall>(m, t)\<in>set (zip ?ms ts). holds (console.vmem c') t m)" by blast
  have "image = [1, 2, 3] @ payload ?ms" using p r by simp
  with h have "\<exists>c'. loadModules 0x100003 ?ts ?c = Some c' \<and> (\<forall>(m, t)\<in>set (zip ?ms ?ts). holds (console.vmem c') t m)"
    using l [of ?c "0x100000" ?ts] demo_loadable by (simp add: cursor_at_def del: loadable.simps)
  then show ?thesis by (auto simp: holds_def dest: spec [of _ 1] spec [of _ 0])
qed

end
