(* ===== verification/Bmfs.thy ===== *)
theory Bmfs
  imports Packer
begin

text \<open>
  \<open>Bootloader/BMFS/bmfs.c\<close>, the tool that writes the disk image the system boots from: a file system of one directory with
  64 entries and files in consecutive blocks of 2 MiB. The image is its bytes by offset and its length; the host's other files
  are those of \<open>Packer\<close>. \<open>Directory\<close> is the list of its entries, which are encoded only where the tool writes them to the disk.
  The lines that report the progress of zeroing a new disk are left out; everything else the tool prints is \<open>shown\<close>.
\<close>

section \<open>Data\<close>

record BMFSEntry =
  FileName :: "u8 list"
  StartingBlock :: u64
  ReservedBlocks :: u64
  FileSize :: u64
  Unused :: u64

text \<open>A disk image reads as 0 where nothing was written.\<close>

record image =
  img_byte :: "nat \<Rightarrow> u8"
  img_len :: nat

text \<open>What the host grants: the files that can be opened for writing, memory, the size the image may grow to, and the line typed.\<close>

record host_env =
  can_write :: "string \<Rightarrow> bool"
  can_malloc :: bool
  space :: nat
  stdin_line :: string

record bmfs =
  host :: files
  disk :: image
  disksize :: u32
  DiskInfo :: "u8 list"
  Directory :: "BMFSEntry list"
  shown :: string

definition say :: "string \<Rightarrow> bmfs \<Rightarrow> bmfs" where "say s B = B\<lparr>shown := shown B @ s\<rparr>"

abbreviation line_end :: string where "line_end \<equiv> [CHR 0x0A]"

definition quoted :: "string \<Rightarrow> string" where "quoted s = [CHR 0x27] @ s @ [CHR 0x27]"

abbreviation BLOCK :: u64 where "BLOCK \<equiv> 2097152"
definition minimumDiskSize :: u64 where "minimumDiskSize = 6 * 1024 * 1024"
definition fs_tag :: string where "fs_tag = ''BMFS''"

section \<open>The bytes of an entry\<close>

fun le_bytes :: "nat \<Rightarrow> nat \<Rightarrow> u8 list" where
  "le_bytes 0 v = []"
| "le_bytes (Suc n) v = of_nat v # le_bytes n (v div 256)"

fun le_value :: "u8 list \<Rightarrow> nat" where
  "le_value [] = 0"
| "le_value (b # bs) = unat b + 256 * le_value bs"

definition le64 :: "u64 \<Rightarrow> u8 list" where "le64 w = le_bytes 8 (unat w)"

definition entry_bytes :: "BMFSEntry \<Rightarrow> u8 list" where
  "entry_bytes e = FileName e @ le64 (StartingBlock e) @ le64 (ReservedBlocks e) @ le64 (FileSize e) @ le64 (Unused e)"

definition entry_at :: "u8 list \<Rightarrow> BMFSEntry" where
  "entry_at bs =
     (let field = (\<lambda>p. of_nat (le_value (take 8 (drop p bs))))
      in \<lparr>FileName = take 32 bs, StartingBlock = field 32, ReservedBlocks = field 40, FileSize = field 48, Unused = field 56\<rparr>)"

definition directory_bytes :: "BMFSEntry list \<Rightarrow> u8 list" where "directory_bytes d = concat (map entry_bytes d)"

definition directory_at :: "u8 list \<Rightarrow> BMFSEntry list" where
  "directory_at bs = map (\<lambda>i. entry_at (take 64 (drop (64 * i) bs))) [0..<64]"

section \<open>The disk\<close>

definition fread_at :: "nat \<Rightarrow> nat \<Rightarrow> image \<Rightarrow> u8 list" where
  "fread_at p n f = map (\<lambda>i. if i < img_len f then img_byte f i else 0) [p..<p + n]"

text \<open>A write beyond the space of the host fails and leaves the image alone.\<close>

definition fwrite_at :: "nat \<Rightarrow> nat \<Rightarrow> u8 list \<Rightarrow> image \<Rightarrow> bool \<times> image" where
  "fwrite_at room p bs f =
     (if p + length bs \<le> room
      then (True, \<lparr>img_byte = (\<lambda>i. if p \<le> i \<and> i < p + length bs then bs ! (i - p) else if i < img_len f then img_byte f i else 0),
                   img_len = max (img_len f) (p + length bs)\<rparr>)
      else (False, f))"

text \<open>Flushing the directory, at 4 KiB.\<close>

definition flush :: "host_env \<Rightarrow> bmfs \<Rightarrow> bmfs" where
  "flush E B = B\<lparr>disk := snd (fwrite_at (space E) 4096 (directory_bytes (Directory B)) (disk B))\<rparr>"

text \<open>\<open>fseek\<close> to a block; an offset that is negative as a \<open>long\<close> leaves the position at the start, where \<open>main\<close> put it.\<close>

definition seek_block :: "u64 \<Rightarrow> nat" where
  "seek_block b = (if sint (b * BLOCK) < 0 then 0 else unat (b * BLOCK))"

section \<open>Looking for a file\<close>

text \<open>\<open>strcmp\<close> with a name in an entry: reading past its 32 bytes is a fault, as is a null pointer.\<close>

fun name_equals :: "string \<Rightarrow> u8 list \<Rightarrow> bool option" where
  "name_equals _ [] = None"
| "name_equals [] (b # bs) = Some (b = 0)"
| "name_equals (c # cs) (b # bs) = (if b = char_byte c then name_equals cs bs else Some False)"

definition end_mark :: "BMFSEntry \<Rightarrow> bool" where "end_mark e \<longleftrightarrow> hd (FileName e) = 0"
definition unused_mark :: "BMFSEntry \<Rightarrow> bool" where "unused_mark e \<longleftrightarrow> hd (FileName e) = 1"

fun find_loop :: "string option \<Rightarrow> nat \<Rightarrow> BMFSEntry list \<Rightarrow> (BMFSEntry \<times> nat) option option" where
  "find_loop filename tint [] = Some None"
| "find_loop filename tint (e # es) =
     (if end_mark e then Some None
      else if unused_mark e then find_loop filename (tint + 1) es
      else do {
        s \<leftarrow> filename;
        eq \<leftarrow> name_equals s (FileName e);
        if eq then Some (Some (e, tint)) else find_loop filename (tint + 1) es
      })"

definition findfile :: "string option \<Rightarrow> bmfs \<Rightarrow> (BMFSEntry \<times> nat) option option" where
  "findfile filename B = find_loop filename 0 (Directory B)"

section \<open>Listing\<close>

definition pad_right :: "nat \<Rightarrow> string \<Rightarrow> string" where "pad_right n s = s @ replicate (n - length s) (CHR '' '')"
definition pad_left :: "nat \<Rightarrow> string \<Rightarrow> string" where "pad_left n s = replicate (n - length s) (CHR '' '') @ s"

text \<open>The name as a string; without a terminator printing it is a fault.\<close>

definition name_text :: "u8 list \<Rightarrow> string option" where
  "name_text bs = (if 0 \<in> set bs then Some (map byte_char (takeWhile (\<lambda>b. b \<noteq> 0) bs)) else None)"

fun list_loop :: "BMFSEntry list \<Rightarrow> string option" where
  "list_loop [] = Some []"
| "list_loop (e # es) =
     (if end_mark e then Some []
      else if unused_mark e then list_loop es
      else do {
        n \<leftarrow> name_text (FileName e);
        rest \<leftarrow> list_loop es;
        Some (pad_right 32 n @ '' '' @ pad_left 20 (int_text (sint (FileSize e))) @ '' ''
              @ pad_left 20 (int_text (sint (ReservedBlocks e * 2))) @ line_end @ rest)
      })"

definition list_files :: "string \<Rightarrow> bmfs \<Rightarrow> bmfs option" where
  "list_files diskname B =
     do {
       t \<leftarrow> list_loop (Directory B);
       Some (say (diskname @ line_end @ ''Disk Size: '' @ int_text (sint (disksize B)) @ '' MiB'' @ line_end
                  @ ''Name                            |            Size (B)|      Reserved (MiB)'' @ line_end
                  @ replicate 74 (CHR ''='') @ line_end @ t) B)
     }"

section \<open>Formatting\<close>

definition empty_entry :: BMFSEntry where
  "empty_entry = \<lparr>FileName = replicate 32 0, StartingBlock = 0, ReservedBlocks = 0, FileSize = 0, Unused = 0\<rparr>"

definition format_disk :: "host_env \<Rightarrow> bmfs \<Rightarrow> bmfs" where
  "format_disk E B =
     (let info = map char_byte fs_tag @ replicate 508 0;
          B = B\<lparr>DiskInfo := info, Directory := replicate 64 empty_entry,
                disk := snd (fwrite_at (space E) 1024 info (disk B))\<rparr>
      in say (''Format complete.'' @ line_end) (flush E B))"

section \<open>Initialising a disk\<close>

definition digit :: "char \<Rightarrow> bool" where "digit c \<longleftrightarrow> c \<in> set ''0123456789''"

definition lower :: "char \<Rightarrow> char" where
  "lower c = (let n = (of_char c :: nat) in if 65 \<le> n \<and> n \<le> 90 then char_of (n + 32) else c)"

definition strcaseeq :: "string \<Rightarrow> string \<Rightarrow> bool" where "strcaseeq s t \<longleftrightarrow> map lower s = map lower t"

text \<open>The unit of a size: how many times it is multiplied by 1024.\<close>

definition unit_factor :: "char \<Rightarrow> nat option" where
  "unit_factor c = map_of [(CHR ''k'', 1), (CHR ''m'', 2), (CHR ''g'', 3), (CHR ''t'', 4), (CHR ''p'', 5)] (lower c)"

definition invalid_size :: "string \<Rightarrow> string" where
  "invalid_size sz = ''Error: Invalid disk size string: '' @ quoted sz @ line_end"

definition size_too_large :: string where "size_too_large = ''Error: Disk size is too large'' @ line_end"

text \<open>The loop over the size string, with the message of the error it stops at.\<close>

fun size_loop :: "string \<Rightarrow> bool \<Rightarrow> string \<Rightarrow> u64 \<Rightarrow> string + (u64 \<times> nat)" where
  "size_loop sz first [] diskSize = Inr (diskSize, 0)"
| "size_loop sz first (ch # chs) diskSize =
     (if digit ch
      then let n = of_nat (of_char ch - 48)
           in if diskSize * 10 > diskSize then size_loop sz False chs (diskSize * 10 + n)
              else if diskSize = 0 then size_loop sz False chs (diskSize + n)
              else Inl size_too_large
      else if first then Inl (''Error: A numeric disk size must be specified'' @ line_end)
      else case unit_factor ch of
             None \<Rightarrow> Inl (invalid_size sz)
           | Some f \<Rightarrow> if chs \<noteq> [] then Inl (invalid_size sz) else Inr (diskSize, f))"

text \<open>The unit is applied even after it did not fit, with one message each time.\<close>

fun scale_loop :: "nat \<Rightarrow> u64 \<Rightarrow> u64 \<times> string" where
  "scale_loop 0 diskSize = (diskSize, [])"
| "scale_loop (Suc n) diskSize =
     (if diskSize * 1024 > diskSize then scale_loop n (diskSize * 1024)
      else let (d, m) = scale_loop n diskSize in (d, size_too_large @ m))"

definition disk_size :: "string \<Rightarrow> string + u64" where
  "disk_size sz =
     (case size_loop sz True sz 0 of
        Inl m \<Rightarrow> Inl m
      | Inr (diskSize, diskSizeFactor) \<Rightarrow>
          let (diskSize, m) = if diskSize > 0 then scale_loop diskSizeFactor diskSize else (diskSize, [])
          in if m \<noteq> [] then Inl m
             else if diskSize < minimumDiskSize
             then Inl (''Error: Disk size must be at least 6291456 bytes (6MiB)'' @ line_end)
             else Inr diskSize)"

text \<open>A step runs unless an earlier one has failed; it says whether it worked.\<close>

definition on_success :: "(bmfs \<Rightarrow> bool \<times> bmfs) \<Rightarrow> bool \<times> bmfs \<Rightarrow> bool \<times> bmfs" where
  "on_success f = (\<lambda>(ok, B). if ok then f B else (False, B))"

definition need :: "bool \<Rightarrow> string \<Rightarrow> bmfs \<Rightarrow> bool \<times> bmfs" where
  "need b m B = (if b then (True, B) else (False, say m B))"

definition bufferSize :: nat where "bufferSize = 50 * 1024"

definition write_failed :: "string \<Rightarrow> string" where
  "write_failed diskname = ''Error: Failed to write disk '' @ quoted diskname @ line_end"

definition read_failed :: "string \<Rightarrow> string" where
  "read_failed name = ''Error: Failed to read file '' @ quoted name @ line_end"

text \<open>Zeroing the new image chunk by chunk, up to \<open>todo\<close> more bytes; \<open>False\<close> when a write fails.\<close>

function zero_fill :: "nat \<Rightarrow> nat \<Rightarrow> nat \<Rightarrow> image \<Rightarrow> bool \<times> image" where
  "zero_fill room writeSize todo f =
     (if todo = 0 then (True, f)
      else let chunkSize = min bufferSize todo;
               (ok, f) = fwrite_at room writeSize (replicate chunkSize 0) f
           in if ok then zero_fill room (writeSize + chunkSize) (todo - chunkSize) f else (False, f))"
  by pat_completeness auto
termination
  by (relation "measure (\<lambda>(_, _, todo, _). todo)") (auto simp: bufferSize_def)

declare zero_fill.simps [simp del]

text \<open>Copying a file to the disk from \<open>pos\<close> on, through the buffer; after a write that fails the loop goes on at the same place.\<close>

function copy_loop :: "nat \<Rightarrow> string \<Rightarrow> nat \<Rightarrow> u8 list \<Rightarrow> image \<Rightarrow> bool \<times> string \<times> nat \<times> image" where
  "copy_loop room msg pos bs f =
     (if bs = [] then (True, [], pos, f)
      else let chunk = take bufferSize bs;
               (ok, f) = fwrite_at room pos chunk f;
               (ok', m, pos, f) = copy_loop room msg (if ok then pos + length chunk else pos) (drop bufferSize bs) f
           in (ok \<and> ok', (if ok then [] else msg) @ m, pos, f))"
  by pat_completeness auto
termination
  by (relation "measure (\<lambda>(_, _, _, bs, _). length bs)") (auto simp: bufferSize_def)

declare copy_loop.simps [simp del]

text \<open>Writing a whole file; when a write has failed, the error is reported once more as one of reading.\<close>

definition write_whole :: "host_env \<Rightarrow> string \<Rightarrow> string \<Rightarrow> string \<Rightarrow> nat \<Rightarrow> bmfs \<Rightarrow> bool \<times> nat \<times> bmfs" where
  "write_whole E diskname what name pos B =
     (let bs = (case host B name of None \<Rightarrow> [] | Some bs \<Rightarrow> bs);
          B = say what B;
          (ok, m, pos, f) = copy_loop (space E) (write_failed diskname) pos bs (disk B)
      in (ok, pos, say (m @ (if ok then [] else read_failed name)) (B\<lparr>disk := f\<rparr>)))"

definition create_disk :: "host_env \<Rightarrow> string \<Rightarrow> u64 \<Rightarrow> bmfs \<Rightarrow> bool \<times> bmfs" where
  "create_disk E diskname diskSize B =
     (let (ok, f) = zero_fill (space E) 0 (unat diskSize) \<lparr>img_byte = (\<lambda>_. 0), img_len = 0\<rparr>;
          B = B\<lparr>disk := f\<rparr>
      in if ok then (True, format_disk E B) else (False, say (write_failed diskname) B))"

definition write_mbr :: "host_env \<Rightarrow> string \<Rightarrow> string \<Rightarrow> bmfs \<Rightarrow> bool \<times> bmfs" where
  "write_mbr E diskname mbr B =
     (let bs = (case host B mbr of None \<Rightarrow> [] | Some bs \<Rightarrow> bs);
          B = say (''Writing master boot record.'' @ line_end) B
      in if length bs < 512 then (False, say (read_failed mbr) B)
         else let (ok, f) = fwrite_at (space E) 0 (take 512 bs) (disk B)
              in if ok then (True, B\<lparr>disk := f\<rparr>) else (False, say (write_failed diskname) B))"

text \<open>The boot loader at 8 KiB and the kernel right behind it.\<close>

definition write_system :: "host_env \<Rightarrow> string \<Rightarrow> string \<Rightarrow> string option \<Rightarrow> string option \<Rightarrow> bmfs \<Rightarrow> bool \<times> bmfs" where
  "write_system E diskname bootFileType boot kernelf B =
     (case boot of
        None \<Rightarrow> (True, B)
      | Some b \<Rightarrow>
          let (ok, pos, B) = write_whole E diskname (''Writing '' @ bootFileType @ '' file.'' @ line_end) b 8192 B
          in case kernelf of
               None \<Rightarrow> (ok, B)
             | Some k \<Rightarrow>
                 if \<not> ok then (False, B)
                 else let (ok, _, B) = write_whole E diskname (''Writing kernel.'' @ line_end) k pos B in (ok, B))"

definition can_read :: "bmfs \<Rightarrow> string option \<Rightarrow> bool" where
  "can_read B name = (case name of None \<Rightarrow> True | Some n \<Rightarrow> host B n \<noteq> None)"

definition the_name :: "string option \<Rightarrow> string" where "the_name name = (case name of None \<Rightarrow> [] | Some n \<Rightarrow> n)"

definition initialize ::
  "host_env \<Rightarrow> string \<Rightarrow> string \<Rightarrow> string option \<Rightarrow> string option \<Rightarrow> string option \<Rightarrow> bmfs \<Rightarrow> int \<times> bmfs" where
  "initialize E diskname sz mbr boot kernelf B =
     (case disk_size sz of
        Inl m \<Rightarrow> (1, say m B)
      | Inr diskSize \<Rightarrow>
          let bootFileType = (if kernelf = None then ''system'' else ''boot loader'');
              (ok, B) =
                on_success (write_system E diskname bootFileType boot kernelf)
                (on_success (\<lambda>B. case mbr of None \<Rightarrow> (True, B) | Some m \<Rightarrow> write_mbr E diskname m B)
                (on_success (create_disk E diskname diskSize)
                (on_success (need (can_write E diskname) (''Error: Unable to open disk '' @ quoted diskname @ line_end))
                (on_success (need (can_malloc E) (''Error: Failed to allocate buffer'' @ line_end))
                (on_success (need (can_read B kernelf) (''Error: Unable to open kernel file '' @ quoted (the_name kernelf) @ line_end))
                (on_success (need (can_read B boot) (''Error: Unable to open '' @ bootFileType @ '' file '' @ quoted (the_name boot) @ line_end))
                (need (can_read B mbr) (''Error: Unable to open MBR file '' @ quoted (the_name mbr) @ line_end) B)))))))
          in if ok then (0, say (''Disk initialization complete.'' @ line_end) B) else (1, B))"

section \<open>Creating a file\<close>

text \<open>The 64-bit difference of the starts is cut to an \<open>int\<close>.\<close>

definition StartingBlockCmp :: "BMFSEntry \<Rightarrow> BMFSEntry \<Rightarrow> int" where
  "StartingBlockCmp ea eb =
     (if unused_mark ea then 1 else if unused_mark eb then - 1
      else sint (ucast (StartingBlock ea - StartingBlock eb) :: u32))"

text \<open>\<open>qsort\<close> of the C library; where the comparison leaves the order open, equal elements keep theirs.\<close>

fun sort_in :: "('a \<Rightarrow> 'a \<Rightarrow> int) \<Rightarrow> 'a \<Rightarrow> 'a list \<Rightarrow> 'a list" where
  "sort_in cmp x [] = [x]"
| "sort_in cmp x (y # ys) = (if cmp x y \<le> 0 then x # y # ys else y # sort_in cmp x ys)"

definition qsort :: "('a \<Rightarrow> 'a \<Rightarrow> int) \<Rightarrow> 'a list \<Rightarrow> 'a list" where
  "qsort cmp xs = foldr (sort_in cmp) xs []"

text \<open>The number of entries up to the end mark, which stays 0 when there is none, and the first entry that can be taken.\<close>

fun count_entries :: "nat \<Rightarrow> nat option \<Rightarrow> BMFSEntry list \<Rightarrow> nat \<times> nat option" where
  "count_entries tint first_free [] = (0, first_free)"
| "count_entries tint first_free (e # es) =
     (if end_mark e then (tint, if first_free = None then Some tint else first_free)
      else count_entries (tint + 1) (if unused_mark e \<and> first_free = None then Some tint else first_free) es)"

text \<open>The first gap that is large enough; 0 when there is none. The entry behind the last file is the end of the disk.\<close>

fun find_gap :: "u64 \<Rightarrow> u64 \<Rightarrow> u64 \<Rightarrow> BMFSEntry list \<Rightarrow> u64" where
  "find_gap num_blocks blocks_requested prev_file_end [] =
     (if num_blocks - 1 - prev_file_end \<ge> blocks_requested then prev_file_end else 0)"
| "find_gap num_blocks blocks_requested prev_file_end (e # es) =
     (let this_file_start = if unused_mark e then num_blocks - 1 else StartingBlock e
      in if this_file_start - prev_file_end \<ge> blocks_requested then prev_file_end
         else find_gap num_blocks blocks_requested (StartingBlock e + ReservedBlocks e) es)"

text \<open>\<open>strcpy\<close> into the name of an entry; a name of 32 characters or more does not fit.\<close>

definition name_into :: "string \<Rightarrow> u8 list \<Rightarrow> u8 list option" where
  "name_into filename old =
     (if length filename < length old then Some (map char_byte filename @ [0] @ drop (length filename + 1) old) else None)"

definition create :: "host_env \<Rightarrow> string \<Rightarrow> u64 \<Rightarrow> bmfs \<Rightarrow> bmfs option" where
  "create E filename maxsize B =
     (let maxsize = (if maxsize mod 2 \<noteq> 0 then maxsize + 1 else maxsize)
      in do {
        found \<leftarrow> findfile (Some filename) B;
        if found \<noteq> None then Some (say (''Error: File already exists.'' @ line_end) B)
        else do {
          let blocks_requested = maxsize div 2;
          let num_blocks = (ucast (disksize B div 2) :: u64);
          let B = say (''Creating new file...'' @ line_end) B;
          let (num_used_entries, first_free_entry) = count_entries 0 None (Directory B);
          (case first_free_entry of
             None \<Rightarrow> Some (say (''Cannot create file: no free directory entries.'' @ line_end) B)
           | Some free \<Rightarrow> do {
               let dir_copy = qsort StartingBlockCmp (take num_used_entries (Directory B));
               let new_file_start = find_gap num_blocks blocks_requested 1 dir_copy;
               if new_file_start = 0
               then Some (say (''Cannot create file of size '' @ int_text (sint maxsize) @ '' MiB.'' @ line_end) B)
               else do {
                 e \<leftarrow> aget (Directory B) free;
                 name \<leftarrow> name_into filename (FileName e);
                 let dir = (Directory B)[free := e\<lparr>StartingBlock := new_file_start, ReservedBlocks := blocks_requested,
                                                 FileSize := 0, FileName := name\<rparr>];
                 let next = num_used_entries + 1;
                 let dir = (if free = num_used_entries \<and> next < 64
                            then dir[next := (dir ! next)\<lparr>FileName := (FileName (dir ! next))[0 := 0]\<rparr>] else dir);
                 Some (say (''Complete'' @ line_end) (flush E (B\<lparr>Directory := dir\<rparr>)))
               }
             })
        }
      })"

section \<open>Reading, writing and deleting\<close>

text \<open>The loops over a file count in an \<open>int\<close>: a file of 2 GiB or more overflows it. The end of the image reads as 255.\<close>

abbreviation INT_MAX :: nat where "INT_MAX \<equiv> 2147483647"

definition read_file :: "host_env \<Rightarrow> string option \<Rightarrow> bmfs \<Rightarrow> bmfs option" where
  "read_file E filename B =
     do {
       found \<leftarrow> findfile filename B;
       (case found of
          None \<Rightarrow> Some (say (''Error: File not found in BMFS.'' @ line_end) B)
        | Some (tempentry, slot) \<Rightarrow> do {
            f \<leftarrow> filename;
            name \<leftarrow> name_text (FileName tempentry);
            let B = say (''Reading '' @ quoted f @ '' from BMFS to local file... '') B;
            if \<not> can_write E name
            then Some (say (''Error: Could not open local file '' @ quoted name @ line_end) B)
            else if unat (FileSize tempentry) > INT_MAX then None
            else do {
              let p = seek_block (StartingBlock tempentry);
              let content = map (\<lambda>i. if i < img_len (disk B) then img_byte (disk B) i else - 1) [p..<p + unat (FileSize tempentry)];
              Some (say (''Complete'' @ line_end) (B\<lparr>host := (host B)(name \<mapsto> content)\<rparr>))
            }
          })
     }"

definition write_to_disk :: "host_env \<Rightarrow> string option \<Rightarrow> bmfs \<Rightarrow> bmfs option" where
  "write_to_disk E filename B =
     do {
       found \<leftarrow> findfile filename B;
       (case found of
          None \<Rightarrow> Some (say (''Error: File not found in BMFS. A file entry must first be created.'' @ line_end) B)
        | Some (tempentry, slot) \<Rightarrow> do {
            f \<leftarrow> filename;
            let B = say (''Writing local file '' @ quoted f @ '' to BMFS... '') B;
            (case host B f of
               None \<Rightarrow> do {
                 name \<leftarrow> name_text (FileName tempentry);
                 Some (say (''Error: Could not open local file '' @ quoted name @ line_end) B)
               }
             | Some content \<Rightarrow>
                 if ReservedBlocks tempentry * BLOCK < of_nat (length content)
                 then Some (say (''Not enough reserved space in BMFS.'' @ line_end) B)
                 else if length content > INT_MAX then None
                 else do {
                   let B = B\<lparr>disk := snd (fwrite_at (space E) (seek_block (StartingBlock tempentry)) content (disk B))\<rparr>;
                   let e = (Directory B ! slot)\<lparr>FileSize := of_nat (length content)\<rparr>;
                   Some (say (''Complete'' @ line_end) (flush E (B\<lparr>Directory := (Directory B)[slot := e]\<rparr>)))
                 })
          })
     }"

definition delete_file :: "host_env \<Rightarrow> string option \<Rightarrow> bmfs \<Rightarrow> bmfs option" where
  "delete_file E filename B =
     do {
       found \<leftarrow> findfile filename B;
       (case found of
          None \<Rightarrow> Some (say (''Error: File not found in BMFS.'' @ line_end) B)
        | Some (tempentry, slot) \<Rightarrow> do {
            f \<leftarrow> filename;
            let B = say (''Deleting file '' @ quoted f @ '' from BMFS... '') B;
            let e = (Directory B ! slot)\<lparr>FileName := (FileName (Directory B ! slot))[0 := 1]\<rparr>;
            Some (say (''Complete'' @ line_end) (flush E (B\<lparr>Directory := (Directory B)[slot := e]\<rparr>)))
          })
     }"

section \<open>The program\<close>

text \<open>\<open>atoi\<close> of the C library; a number that does not fit is undefined.\<close>

definition atoi_int :: "string \<Rightarrow> int option" where
  "atoi_int s =
     (let s = dropWhile (\<lambda>c. c = CHR '' '' \<or> 9 \<le> (of_char c :: nat) \<and> (of_char c :: nat) \<le> 13) s;
          (sign, t) = (case s of c # r \<Rightarrow> if c = CHR ''-'' then (- 1, r) else if c = CHR ''+'' then (1, r) else (1, s) | [] \<Rightarrow> (1, []));
          v = sign * foldl (\<lambda>v c. v * 10 + int (of_char c - 48)) 0 (takeWhile digit t)
      in if - (2 ^ 31) \<le> v \<and> v < 2 ^ 31 then Some v else None)"

definition create_sized :: "host_env \<Rightarrow> string \<Rightarrow> string \<Rightarrow> bmfs \<Rightarrow> bmfs option" where
  "create_sized E filename sz B =
     do {
       filesize \<leftarrow> atoi_int sz;
       if filesize \<ge> 1 then create E filename (word_of_int filesize) B
       else Some (say (''Error: Invalid file size.'' @ line_end) B)
     }"

text \<open>The size typed, at most 31 characters of it, goes through an \<open>unsigned int\<close>.\<close>

definition create_asked :: "host_env \<Rightarrow> string \<Rightarrow> bmfs \<Rightarrow> bmfs option" where
  "create_asked E filename B =
     do {
       let B = say ''Maximum file size in MiB: '' B;
       v \<leftarrow> atoi_int (take 31 (stdin_line E));
       let filesize = (word_of_int v :: u32);
       if filesize \<ge> 1 then create E filename (ucast filesize) B
       else Some (say (''Error: Invalid file size.'' @ line_end) B)
     }"

text \<open>What the tool reads of a disk before it looks at the command.\<close>

definition load_disk :: "bmfs \<Rightarrow> bmfs" where
  "load_disk B =
     B\<lparr>disksize := of_nat (img_len (disk B) div 1048576), DiskInfo := fread_at 1024 512 (disk B),
       Directory := directory_at (fread_at 4096 4096 (disk B))\<rparr>"

definition tagged :: "u8 list \<Rightarrow> bool" where
  "tagged info \<longleftrightarrow> strcaseeq (map byte_char (take 5 info)) (fs_tag @ [nul])"

definition run_command :: "host_env \<Rightarrow> string list \<Rightarrow> bmfs \<Rightarrow> bmfs option" where
  "run_command E av B =
     (let diskname = av ! 1; command = av ! 2; filename = (if length av > 3 then Some (av ! 3) else None)
      in if \<not> tagged (DiskInfo B)
         then if strcaseeq ''format'' command then Some (format_disk E B)
              else Some (say (''Error: Not a valid BMFS drive (Disk is not BMFS formatted).'' @ line_end) B)
         else if strcaseeq ''list'' command then list_files diskname B
         else if strcaseeq ''format'' command
         then if filename \<noteq> None \<and> strcaseeq (the_name filename) ''/FORCE'' then Some (format_disk E B)
              else Some (say (''Format aborted!'' @ line_end) B)
         else if strcaseeq ''create'' command
         then (case filename of
                 None \<Rightarrow> Some (say (''Error: File name not specified.'' @ line_end) B)
               | Some f \<Rightarrow>
                   if length av > 4 then create_sized E f (av ! 4) B
                   else create_asked E f B)
         else if strcaseeq ''read'' command then read_file E filename B
         else if strcaseeq ''write'' command then write_to_disk E filename B
         else if strcaseeq ''delete'' command then delete_file E filename B
         else Some (say (''Unknown command'' @ line_end) B))"

text \<open>The program on a disk that may be missing (\<open>exists\<close>): its exit code and the state it leaves.\<close>

definition bmfs_main :: "host_env \<Rightarrow> bool \<Rightarrow> string list \<Rightarrow> bmfs \<Rightarrow> (int \<times> bmfs) option" where
  "bmfs_main E exists av B =
     (if length av < 3
      then Some (0, say (''BareMetal File System Utility v1.0 (2013 04 10)'' @ line_end
                         @ ''Written by Ian Seyler @ Return Infinity (ian.seyler@returninfinity.com)'' @ line_end @ line_end
                         @ ''Usage: '' @ av ! 0 @ '' disk function file'' @ line_end
                         @ ''Disk: the name of the disk file'' @ line_end
                         @ ''Function: list, read, write, create, delete, format, initialize'' @ line_end
                         @ ''File: (if applicable)'' @ line_end) B)
      else let diskname = av ! 1; command = av ! 2; opt = (\<lambda>i. if i < length av then Some (av ! i) else None)
           in if strcaseeq ''initialize'' command
              then if length av \<ge> 4
                   then Some (initialize E diskname (av ! 3) (opt 4) (opt 5) (opt 6) B)
                   else Some (1, say (''Usage: '' @ av ! 0 @ '' disk '' @ command @ '' size [mbr_file] [bootloader_file] [kernel_file]'' @ line_end) B)
              else if \<not> exists then Some (0, say (''Error: Unable to open disk '' @ quoted diskname @ line_end) B)
              else map_option (Pair 0) (run_command E av (load_disk B)))"

end
