(* ===== verification/BmfsProps.thy ===== *)
theory BmfsProps
  imports Bmfs
begin

text \<open>
  Well-formed images of the disk tool: the bytes of the directory, the map from names to contents that an image stands for, and
  what writing, reading, deleting, formatting and creating do to it.
\<close>

section \<open>Bytes on the disk\<close>

lemma length_le_bytes [simp]: "length (le_bytes n v) = n"
  by (induction n arbitrary: v) auto

lemma le_value_bytes: "le_value (le_bytes n v) = v mod 256 ^ n"
proof (induction n arbitrary: v)
  case (Suc n)
  have "unat (of_nat v :: u8) = v mod 256" by (simp add: unsigned_of_nat take_bit_eq_mod)
  then show ?case using Suc by (simp add: mod_mult2_eq)
qed simp

lemma le_value_le64 [simp]: "of_nat (le_value (le64 w)) = w"
proof -
  have "unat w < 2 ^ LENGTH(64)" by (rule unsigned_less)
  then have "unat w mod 256 ^ 8 = unat w" by simp
  then show ?thesis by (simp add: le64_def le_value_bytes)
qed

lemma length_le64 [simp]: "length (le64 w) = 8"
  by (simp add: le64_def)

lemma entry_round_trip:
  assumes "length (FileName e) = 32"
  shows "entry_at (entry_bytes e) = e"
proof -
  have at: "take 8 (drop p (FileName e @ r)) = take 8 (drop (p - 32) r)" if "32 \<le> p" for p r
    using assms that by simp
  show ?thesis
    by (cases e) (use assms in \<open>simp add: entry_at_def entry_bytes_def at Let_def\<close>)
qed

lemma length_entry_bytes: "length (FileName e) = 32 \<Longrightarrow> length (entry_bytes e) = 64"
  by (simp add: entry_bytes_def)

definition named32 :: "BMFSEntry list \<Rightarrow> bool" where "named32 d \<longleftrightarrow> (\<forall>e\<in>set d. length (FileName e) = 32)"

lemma directory_piece:
  "named32 d \<Longrightarrow> i < length d \<Longrightarrow> take 64 (drop (64 * i) (directory_bytes d)) = entry_bytes (d ! i)"
proof (induction d arbitrary: i)
  case (Cons e d)
  have e: "length (entry_bytes e) = 64" using Cons.prems by (simp add: named32_def length_entry_bytes)
  show ?case
  proof (cases i)
    case 0
    then show ?thesis using e by (simp add: directory_bytes_def)
  next
    case (Suc k)
    have "drop (64 * i) (directory_bytes (e # d)) = drop (64 * k) (directory_bytes d)"
      using e unfolding Suc by (simp add: directory_bytes_def)
    then have "take 64 (drop (64 * i) (directory_bytes (e # d))) = take 64 (drop (64 * k) (directory_bytes d))" by (simp only:)
    also have "\<dots> = entry_bytes (d ! k)" using Cons.prems Suc by (intro Cons.IH) (auto simp: named32_def)
    finally show ?thesis by (simp only: Suc nth_Cons_Suc)
  qed
qed simp

lemma directory_round_trip:
  assumes "length d = 64" and "named32 d"
  shows "directory_at (directory_bytes d) = d"
proof -
  have "entry_at (take 64 (drop (64 * i) (directory_bytes d))) = d ! i" if "i < 64" for i
    using that assms directory_piece [of d i] entry_round_trip [of "d ! i"] by (simp add: named32_def)
  then have "directory_at (directory_bytes d) = map ((!) d) [0..<64]" unfolding directory_at_def by (intro map_cong) auto
  then show ?thesis using map_nth [of d] unfolding assms(1) by (simp only:)
qed

lemma length_directory_bytes: "named32 d \<Longrightarrow> length (directory_bytes d) = 64 * length d"
  by (induction d) (auto simp: directory_bytes_def named32_def length_entry_bytes)

lemma directory_named32: "length bs = 4096 \<Longrightarrow> named32 (directory_at bs) \<and> length (directory_at bs) = 64"
  by (auto simp: named32_def directory_at_def entry_at_def Let_def)

lemma fread_length [simp]: "length (fread_at p n f) = n"
  by (simp add: fread_at_def)

lemma fwrite_then_read:
  "p + length bs \<le> room \<Longrightarrow> fread_at p (length bs) (snd (fwrite_at room p bs f)) = bs"
  by (rule nth_equalityI) (auto simp: fread_at_def fwrite_at_def)

lemma fwrite_read_apart:
  "q + n \<le> p \<or> p + length bs \<le> q \<Longrightarrow> fread_at q n (snd (fwrite_at room p bs f)) = fread_at q n f"
  by (auto simp: fread_at_def fwrite_at_def)

lemma fwrite_len: "p + length bs \<le> img_len f \<Longrightarrow> img_len (snd (fwrite_at room p bs f)) = img_len f"
  by (simp add: fwrite_at_def)

section \<open>Well-formed directories\<close>

definition entry_name :: "BMFSEntry \<Rightarrow> string" where
  "entry_name e = map byte_char (takeWhile (\<lambda>b. b \<noteq> 0) (FileName e))"

definition live_files :: "BMFSEntry list \<Rightarrow> BMFSEntry list" where
  "live_files d = filter (\<lambda>e. \<not> unused_mark e) (takeWhile (\<lambda>e. \<not> end_mark e) d)"

abbreviation first_block :: "BMFSEntry \<Rightarrow> nat" where "first_block e \<equiv> unat (StartingBlock e)"
abbreviation behind :: "BMFSEntry \<Rightarrow> nat" where "behind e \<equiv> unat (StartingBlock e) + unat (ReservedBlocks e)"

text \<open>A file lies between the first block and the last one, which stay free, and its contents lie in its blocks.\<close>

definition file_ok :: "nat \<Rightarrow> BMFSEntry \<Rightarrow> bool" where
  "file_ok nb e \<longleftrightarrow> 0 \<in> set (FileName e) \<and> 1 \<le> first_block e \<and> 1 \<le> unat (ReservedBlocks e) \<and> behind e \<le> nb - 1
     \<and> unat (FileSize e) \<le> unat (ReservedBlocks e) * 2097152"

definition files_apart :: "BMFSEntry \<Rightarrow> BMFSEntry \<Rightarrow> bool" where
  "files_apart a b \<longleftrightarrow> behind a \<le> first_block b \<or> behind b \<le> first_block a"

definition directory_ok :: "nat \<Rightarrow> BMFSEntry list \<Rightarrow> bool" where
  "directory_ok nb d \<longleftrightarrow> length d = 64 \<and> named32 d \<and> (\<forall>e\<in>set (live_files d). file_ok nb e)
     \<and> distinct (map entry_name (live_files d)) \<and> sorted_wrt files_apart (live_files d)"

text \<open>What is stored in a file, and the file system that an image stands for.\<close>

definition stored :: "image \<Rightarrow> BMFSEntry \<Rightarrow> u8 list" where
  "stored f e = fread_at (first_block e * 2097152) (unat (FileSize e)) f"

definition directory_of :: "image \<Rightarrow> BMFSEntry list" where
  "directory_of f = directory_at (fread_at 4096 4096 f)"

definition file_map :: "image \<Rightarrow> string \<Rightarrow> u8 list option" where
  "file_map f = map_of (map (\<lambda>e. (entry_name e, stored f e)) (live_files (directory_of f)))"

definition room_of :: "image \<Rightarrow> string \<Rightarrow> nat" where
  "room_of f name = (case find (\<lambda>e. entry_name e = name) (live_files (directory_of f)) of
     None \<Rightarrow> 0 | Some e \<Rightarrow> unat (ReservedBlocks e) * 2097152)"

definition image_ok :: "image \<Rightarrow> bool" where
  "image_ok f \<longleftrightarrow> 8192 \<le> img_len f \<and> img_len f div 1048576 < 2 ^ 32 \<and> tagged (fread_at 1024 512 f)
     \<and> directory_ok (img_len f div 2097152) (directory_of f)"

section \<open>Looking for a file\<close>

lemma char_byte_char [simp]: "char_byte (byte_char b) = b"
proof -
  have "unat b < 2 ^ LENGTH(8)" by (rule unsigned_less)
  then have "unat b mod 256 = unat b" by simp
  then show ?thesis by (simp add: byte_char_def char_byte_def)
qed

lemma char_byte_inj [simp]: "char_byte c = char_byte d \<longleftrightarrow> c = d"
  by (metis byte_char_byte)

lemma char_byte_zero [simp]: "char_byte c = 0 \<longleftrightarrow> c = nul"
proof -
  have "char_byte nul = 0" by (simp add: char_byte_def)
  then show ?thesis by (metis char_byte_inj)
qed

lemma name_equals_eq:
  "0 \<in> set bs \<Longrightarrow> nul \<notin> set s \<Longrightarrow> name_equals s bs = Some (map byte_char (takeWhile (\<lambda>b. b \<noteq> 0) bs) = s)"
  by (induction s bs rule: name_equals.induct) auto

lemma name_text_eq: "0 \<in> set (FileName e) \<Longrightarrow> name_text (FileName e) = Some (entry_name e)"
  by (simp add: name_text_def entry_name_def)

lemma live_files_Cons [simp]:
  "live_files (e # d) = (if end_mark e then [] else if unused_mark e then live_files d else e # live_files d)"
  by (simp add: live_files_def)

lemma live_files_append: "\<forall>x\<in>set xs. \<not> end_mark x \<Longrightarrow> live_files (xs @ ys) = live_files xs @ live_files ys"
  by (induction xs) (auto simp: live_files_def)

text \<open>The entry at a place in front of which no end mark lies.\<close>

definition entry_in :: "BMFSEntry list \<Rightarrow> BMFSEntry list \<Rightarrow> BMFSEntry \<Rightarrow> BMFSEntry list \<Rightarrow> bool" where
  "entry_in d xs e ys \<longleftrightarrow> d = xs @ e # ys \<and> (\<forall>x\<in>set xs. \<not> end_mark x) \<and> \<not> end_mark e \<and> \<not> unused_mark e"

lemma find_loop_spec:
  assumes "\<forall>x\<in>set (live_files d). 0 \<in> set (FileName x)" and "nul \<notin> set f"
  shows "(find_loop (Some f) i d = Some None \<and> (\<forall>x\<in>set (live_files d). entry_name x \<noteq> f))
    \<or> (\<exists>xs e ys. find_loop (Some f) i d = Some (Some (e, i + length xs)) \<and> entry_in d xs e ys \<and> entry_name e = f)"
  using assms
proof (induction d arbitrary: i)
  case (Cons x d)
  show ?case
  proof (cases "end_mark x")
    case False
    show ?thesis
    proof (cases "\<not> unused_mark x \<and> entry_name x = f")
      case True
      then show ?thesis using Cons.prems False name_equals_eq [of "FileName x" f]
        by (intro disjI2 exI [of _ "[]"] exI [of _ x] exI [of _ d]) (auto simp: entry_in_def entry_name_def)
    next
      case nf: False
      then have step: "find_loop (Some f) i (x # d) = find_loop (Some f) (i + 1) d"
        using Cons.prems False name_equals_eq [of "FileName x" f] by (auto simp: entry_name_def)
      have "\<forall>x\<in>set (live_files d). 0 \<in> set (FileName x)" using Cons.prems False by auto
      from Cons.IH [OF this Cons.prems(2), of "i + 1"] show ?thesis
      proof
        assume "find_loop (Some f) (i + 1) d = Some None \<and> (\<forall>x\<in>set (live_files d). entry_name x \<noteq> f)"
        then show ?thesis using nf step by auto
      next
        assume "\<exists>xs e ys. find_loop (Some f) (i + 1) d = Some (Some (e, i + 1 + length xs)) \<and> entry_in d xs e ys \<and> entry_name e = f"
        then obtain xs e ys where "find_loop (Some f) (i + 1) d = Some (Some (e, i + 1 + length xs))" "entry_in d xs e ys" "entry_name e = f"
          by blast
        then show ?thesis using step False
          by (intro disjI2 exI [of _ "x # xs"] exI [of _ e] exI [of _ ys]) (auto simp: entry_in_def)
      qed
    qed
  qed simp
qed (simp add: live_files_def)

lemma entry_in_live: "entry_in d xs e ys \<Longrightarrow> live_files d = live_files xs @ e # live_files ys"
  by (auto simp: entry_in_def live_files_append)

text \<open>Another entry in the place of a file.\<close>

lemma replace_live:
  assumes "entry_in d xs e ys"
  shows "d[length xs := e'] = xs @ e' # ys" and "\<not> end_mark e' \<Longrightarrow> \<not> unused_mark e' \<Longrightarrow> entry_in (xs @ e' # ys) xs e' ys"
    and "\<not> end_mark e' \<Longrightarrow> unused_mark e' \<Longrightarrow> live_files (xs @ e' # ys) = live_files xs @ live_files ys"
  using assms by (auto simp: entry_in_def live_files_append)

lemma directory_okD:
  assumes "directory_ok nb d"
  shows "length d = 64" "named32 d" "e \<in> set (live_files d) \<Longrightarrow> file_ok nb e" "distinct (map entry_name (live_files d))"
    "\<forall>x\<in>set (live_files d). 0 \<in> set (FileName x)"
  using assms by (auto simp: directory_ok_def file_ok_def)

section \<open>Offsets of blocks\<close>

lemma seek_block_eq:
  assumes "unat b < 2 ^ 32"
  shows "seek_block b = unat b * 2097152"
proof -
  have s: "sint (of_nat n :: u64) = int n" if "n < 2 ^ 63" for n
    using that by (simp add: signed_of_nat signed_take_bit_int_eq_self)
  have "b * BLOCK = of_nat (unat b * 2097152)" by simp
  moreover have "unat b * 2097152 < 2 ^ 63" using assms by simp
  ultimately have "sint (b * BLOCK) = int (unat b * 2097152)" using s by (simp only:)
  moreover have "unat (b * BLOCK) = unat b * 2097152" using assms by (simp add: unat_word_ariths)
  ultimately show ?thesis by (simp add: seek_block_def)
qed

lemma room_bytes:
  assumes "unat w < 2 ^ 32"
  shows "unat (w * BLOCK) = unat w * 2097152"
  using assms by (simp add: unat_word_ariths)

section \<open>Images\<close>

lemma image_okD:
  assumes "image_ok f"
  shows "8192 \<le> img_len f" "tagged (fread_at 1024 512 f)" "directory_ok (img_len f div 2097152) (directory_of f)"
    "img_len f div 2097152 < 2 ^ 31"
proof -
  have "img_len f div 2097152 = img_len f div 1048576 div 2" by (simp flip: div_mult2_eq)
  then show "img_len f div 2097152 < 2 ^ 31" using assms by (auto simp: image_ok_def)
qed (use assms in \<open>auto simp: image_ok_def\<close>)

text \<open>Where the contents of a file lie.\<close>

lemma file_okD:
  assumes "image_ok f" and "e \<in> set (live_files (directory_of f))"
  shows "file_ok (img_len f div 2097152) e" "unat (StartingBlock e) < 2 ^ 32" "unat (ReservedBlocks e) < 2 ^ 32"
    "first_block e * 2097152 + unat (ReservedBlocks e) * 2097152 \<le> img_len f" "8192 \<le> first_block e * 2097152"
proof -
  show ok: "file_ok (img_len f div 2097152) e" using directory_okD(3) [OF image_okD(3) [OF assms(1)] assms(2)] .
  have n: "img_len f div 2097152 < 2 ^ 31" using image_okD(4) [OF assms(1)] .
  have b: "behind e \<le> img_len f div 2097152" using ok unfolding file_ok_def by linarith
  then show "unat (StartingBlock e) < 2 ^ 32" "unat (ReservedBlocks e) < 2 ^ 32" using n by simp_all
  have "behind e * 2097152 \<le> img_len f" using b by (metis div_times_less_eq_dividend mult_le_mono1 order_trans)
  then show "first_block e * 2097152 + unat (ReservedBlocks e) * 2097152 \<le> img_len f" by (simp add: algebra_simps)
  show "8192 \<le> first_block e * 2097152" using ok by (simp add: file_ok_def)
qed

text \<open>Flushing the directory changes the directory only.\<close>

definition flushed :: "nat \<Rightarrow> BMFSEntry list \<Rightarrow> image \<Rightarrow> image" where
  "flushed room d f = snd (fwrite_at room 4096 (directory_bytes d) f)"

lemma flushed_image:
  assumes "8192 \<le> img_len f" "img_len f \<le> room" "length d = 64" "named32 d"
  shows "directory_of (flushed room d f) = d" "img_len (flushed room d f) = img_len f"
    "q + n \<le> 4096 \<or> 8192 \<le> q \<Longrightarrow> fread_at q n (flushed room d f) = fread_at q n f"
proof -
  have l: "length (directory_bytes d) = 4096" using assms(3,4) by (simp add: length_directory_bytes)
  show "directory_of (flushed room d f) = d"
    using fwrite_then_read [of 4096 "directory_bytes d" room f] l assms directory_round_trip [OF assms(3,4)]
    by (simp add: directory_of_def flushed_def)
  show "img_len (flushed room d f) = img_len f" using l assms by (simp add: flushed_def fwrite_len)
  show "q + n \<le> 4096 \<or> 8192 \<le> q \<Longrightarrow> fread_at q n (flushed room d f) = fread_at q n f"
    unfolding flushed_def using l by (intro fwrite_read_apart) auto
qed

lemma flushed_stored:
  assumes "8192 \<le> img_len f" "img_len f \<le> room" "length d = 64" "named32 d" "file_ok nb e"
  shows "stored (flushed room d f) e = stored f e"
  unfolding stored_def using flushed_image(3) [OF assms(1-4)] assms(5) by (simp add: file_ok_def)

text \<open>An image with a new directory.\<close>

lemma flushed_ok:
  assumes "image_ok f" and "img_len f \<le> room" and "directory_ok (img_len f div 2097152) d"
  shows "image_ok (flushed room d f)"
    and "file_map (flushed room d f) = map_of (map (\<lambda>e. (entry_name e, stored f e)) (live_files d))"
proof -
  note h = image_okD(1) [OF assms(1)] assms(2) directory_okD(1,2) [OF assms(3)]
  show "image_ok (flushed room d f)"
    using assms flushed_image [OF h] by (simp add: image_ok_def)
  have "stored (flushed room d f) e = stored f e" if "e \<in> set (live_files d)" for e
    using flushed_stored [OF h directory_okD(3) [OF assms(3) that]] .
  then show "file_map (flushed room d f) = map_of (map (\<lambda>e. (entry_name e, stored f e)) (live_files d))"
    unfolding file_map_def flushed_image(1) [OF h] by (metis (no_types, lifting) map_eq_conv)
qed

section \<open>Commands\<close>

lemma command_names:
  "\<not> strcaseeq ''initialize'' ''write''" "\<not> strcaseeq ''initialize'' ''read''" "\<not> strcaseeq ''initialize'' ''delete''"
  "\<not> strcaseeq ''initialize'' ''create''" "\<not> strcaseeq ''initialize'' ''format''" "\<not> strcaseeq ''list'' ''write''"
  "\<not> strcaseeq ''list'' ''read''" "\<not> strcaseeq ''list'' ''delete''" "\<not> strcaseeq ''list'' ''create''" "\<not> strcaseeq ''list'' ''format''"
  "\<not> strcaseeq ''format'' ''write''" "\<not> strcaseeq ''format'' ''read''" "\<not> strcaseeq ''format'' ''delete''"
  "\<not> strcaseeq ''format'' ''create''" "strcaseeq ''format'' ''format''" "\<not> strcaseeq ''create'' ''write''"
  "\<not> strcaseeq ''create'' ''read''" "\<not> strcaseeq ''create'' ''delete''" "strcaseeq ''create'' ''create''"
  "\<not> strcaseeq ''read'' ''write''" "strcaseeq ''read'' ''read''" "\<not> strcaseeq ''read'' ''delete''"
  "strcaseeq ''write'' ''write''" "\<not> strcaseeq ''write'' ''delete''" "strcaseeq ''delete'' ''delete''" "strcaseeq ''/FORCE'' ''/FORCE''"
  by code_simp+

lemma load_disk_simps [simp]:
  "disk (load_disk B) = disk B" "host (load_disk B) = host B" "Directory (load_disk B) = directory_of (disk B)"
  "DiskInfo (load_disk B) = fread_at 1024 512 (disk B)"
  by (simp_all add: load_disk_def directory_of_def)

lemma run_commands:
  assumes "tagged (fread_at 1024 512 (disk B))"
  shows "bmfs_main E True [prog, dn, ''write'', f] B = map_option (Pair 0) (write_to_disk E (Some f) (load_disk B))"
    "bmfs_main E True [prog, dn, ''read'', f] B = map_option (Pair 0) (read_file E (Some f) (load_disk B))"
    "bmfs_main E True [prog, dn, ''delete'', f] B = map_option (Pair 0) (delete_file E (Some f) (load_disk B))"
    "bmfs_main E True [prog, dn, ''create'', f, sz] B = map_option (Pair 0) (create_sized E f sz (load_disk B))"
    "bmfs_main E True [prog, dn, ''format'', ''/FORCE''] B = Some (0, format_disk E (load_disk B))"
  using assms by (simp_all add: bmfs_main_def run_command_def command_names the_name_def)

section \<open>A file system\<close>

lemma map_of_place:
  assumes "n \<notin> fst ` set A" and "n \<notin> fst ` set C"
  shows "map_of (A @ (n, v') # C) = (map_of (A @ (n, v) # C))(n \<mapsto> v')" and "map_of (A @ C) = (map_of (A @ (n, v) # C))(n := None)"
proof -
  have "map_of A n = None" "map_of C n = None" using assms by (simp_all add: map_of_eq_None_iff)
  then show "map_of (A @ (n, v') # C) = (map_of (A @ (n, v) # C))(n \<mapsto> v')" and "map_of (A @ C) = (map_of (A @ (n, v) # C))(n := None)"
    by (auto simp: map_add_def fun_eq_iff split: option.splits)
qed

lemma map_of_behind: "map_of A n = None \<Longrightarrow> map_of (A @ [(n, v)]) = (map_of A)(n \<mapsto> v)"
  by (auto simp: map_add_def fun_eq_iff split: option.splits)

lemma find_behind: "\<forall>x\<in>set xs. \<not> P x \<Longrightarrow> P y \<Longrightarrow> find P (xs @ y # ys) = Some y"
  by (induction xs) auto

text \<open>The search agrees with the map.\<close>

lemma findfile_map:
  assumes "image_ok (disk B)" and "nul \<notin> set f"
  shows "(findfile (Some f) (load_disk B) = Some None \<and> file_map (disk B) f = None)
    \<or> (\<exists>xs e ys. findfile (Some f) (load_disk B) = Some (Some (e, length xs)) \<and> entry_in (directory_of (disk B)) xs e ys
         \<and> entry_name e = f \<and> file_map (disk B) f = Some (stored (disk B) e) \<and> room_of (disk B) f = unat (ReservedBlocks e) * 2097152)"
proof -
  let ?d = "directory_of (disk B)"
  note ok = image_okD(3) [OF assms(1)]
  from find_loop_spec [OF directory_okD(5) [OF ok] assms(2), of 0] show ?thesis
  proof
    assume a: "find_loop (Some f) 0 ?d = Some None \<and> (\<forall>x\<in>set (live_files ?d). entry_name x \<noteq> f)"
    then have "file_map (disk B) f = None" by (auto simp: file_map_def map_of_eq_None_iff)
    then show ?thesis using a by (simp add: findfile_def)
  next
    assume "\<exists>xs e ys. find_loop (Some f) 0 ?d = Some (Some (e, 0 + length xs)) \<and> entry_in ?d xs e ys \<and> entry_name e = f"
    then obtain xs e ys where f: "find_loop (Some f) 0 ?d = Some (Some (e, length xs))" and e: "entry_in ?d xs e ys" and n: "entry_name e = f"
      by auto
    have l: "live_files ?d = live_files xs @ e # live_files ys" by (rule entry_in_live [OF e])
    have out: "f \<notin> entry_name ` set (live_files xs)" using directory_okD(4) [OF ok] n unfolding l by auto
    then have "map_of (map (\<lambda>e. (entry_name e, stored (disk B) e)) (live_files xs)) f = None"
      by (simp add: map_of_eq_None_iff image_image)
    then have m: "file_map (disk B) f = Some (stored (disk B) e)" using n by (simp add: file_map_def l map_add_def)
    have "find (\<lambda>e. entry_name e = f) (live_files xs @ e # live_files ys) = Some e" by (rule find_behind) (use out n in \<open>auto simp: image_iff\<close>)
    then have "room_of (disk B) f = unat (ReservedBlocks e) * 2097152" by (simp add: room_of_def l)
    with f e n m show ?thesis by (auto simp: findfile_def)
  qed
qed

lemma contents_written:
  fixes f bs room e
  defines "f1 \<equiv> snd (fwrite_at room (first_block e * 2097152) bs f)"
  assumes "image_ok f" "e \<in> set (live_files (directory_of f))" "length bs \<le> unat (ReservedBlocks e) * 2097152" "img_len f \<le> room"
  shows "img_len f1 = img_len f" "directory_of f1 = directory_of f" "image_ok f1"
    "fread_at (first_block e * 2097152) (length bs) f1 = bs"
    "file_ok nb e2 \<Longrightarrow> files_apart e e2 \<Longrightarrow> stored f1 e2 = stored f e2"
proof -
  note e = file_okD [OF assms(2,3)]
  have fit: "first_block e * 2097152 + length bs \<le> img_len f" using e(4) assms(4) by linarith
  show len: "img_len f1 = img_len f" unfolding f1_def by (rule fwrite_len [OF fit])
  have low: "q + n \<le> 8192 \<Longrightarrow> fread_at q n f1 = fread_at q n f" for q n
    unfolding f1_def by (rule fwrite_read_apart) (use e(5) in linarith)
  show dir: "directory_of f1 = directory_of f" by (simp add: directory_of_def low)
  show "image_ok f1" using assms(2) dir len low by (simp add: image_ok_def)
  show "fread_at (first_block e * 2097152) (length bs) f1 = bs"
    unfolding f1_def using fit assms(5) by (intro fwrite_then_read) linarith
  show "stored f1 e2 = stored f e2" if e2: "file_ok nb e2" "files_apart e e2"
  proof -
    have s2: "unat (FileSize e2) \<le> unat (ReservedBlocks e2) * 2097152" using e2(1) by (simp add: file_ok_def)
    have "behind e * 2097152 \<le> first_block e2 * 2097152 \<or> behind e2 * 2097152 \<le> first_block e * 2097152"
      using e2(2) unfolding files_apart_def by (meson mult_le_mono1)
    then have "first_block e * 2097152 + length bs \<le> first_block e2 * 2097152 \<or>
        first_block e2 * 2097152 + unat (FileSize e2) \<le> first_block e * 2097152"
      using s2 assms(4) by (auto simp: algebra_simps)
    then show ?thesis unfolding stored_def f1_def by (intro fwrite_read_apart) linarith
  qed
qed

lemma entries_apart:
  assumes "directory_ok nb d" and "entry_in d xs e ys" and "x \<in> set (live_files xs) \<union> set (live_files ys)"
  shows "files_apart e x" "file_ok nb x"
proof -
  have l: "live_files d = live_files xs @ e # live_files ys" by (rule entry_in_live [OF assms(2)])
  then show "files_apart e x" using assms(1,3) by (auto simp: directory_ok_def sorted_wrt_append files_apart_def)
  show "file_ok nb x" using assms(1,3) l by (auto simp: directory_ok_def)
qed

lemma other_names:
  assumes "directory_ok nb d" and "entry_in d xs e ys"
  shows "entry_name e \<notin> fst ` set (map (\<lambda>e. (entry_name e, g e)) (live_files xs))"
    "entry_name e \<notin> fst ` set (map (\<lambda>e. (entry_name e, g e)) (live_files ys))"
  using directory_okD(4) [OF assms(1)] unfolding entry_in_live [OF assms(2)] by (auto simp: image_image)

text \<open>A directory in which a file has a new size, or is gone.\<close>

lemma resized_ok:
  assumes "directory_ok nb d" "entry_in d xs e ys" "unat n \<le> unat (ReservedBlocks e) * 2097152"
  shows "directory_ok nb (d[length xs := e\<lparr>FileSize := n\<rparr>])"
    and "live_files (d[length xs := e\<lparr>FileSize := n\<rparr>]) = live_files xs @ e\<lparr>FileSize := n\<rparr> # live_files ys"
proof -
  let ?e = "e\<lparr>FileSize := n\<rparr>"
  have l: "live_files d = live_files xs @ e # live_files ys" by (rule entry_in_live [OF assms(2)])
  have "\<not> end_mark ?e" "\<not> unused_mark ?e" using assms(2) by (simp_all add: entry_in_def end_mark_def unused_mark_def)
  from entry_in_live [OF replace_live(2) [OF assms(2) this]]
  show live: "live_files (d[length xs := ?e]) = live_files xs @ ?e # live_files ys" using replace_live(1) [OF assms(2)] by simp
  have "entry_name ?e = entry_name e" by (simp add: entry_name_def)
  moreover have "file_ok nb ?e" using assms(1,3) l by (auto simp: directory_ok_def file_ok_def)
  moreover have "files_apart ?e x \<longleftrightarrow> files_apart e x" "files_apart x ?e \<longleftrightarrow> files_apart x e" for x by (simp_all add: files_apart_def)
  moreover have "named32 (d[length xs := ?e])" using assms(1,2) set_update_subset_insert [of d "length xs" ?e]
    by (auto simp: directory_ok_def named32_def entry_in_def)
  ultimately show "directory_ok nb (d[length xs := ?e])"
    using assms(1) live unfolding directory_ok_def l by (simp add: sorted_wrt_append)
qed

lemma removed_ok:
  assumes "directory_ok nb d" "entry_in d xs e ys"
  shows "directory_ok nb (d[length xs := e\<lparr>FileName := (FileName e)[0 := 1]\<rparr>])"
    and "live_files (d[length xs := e\<lparr>FileName := (FileName e)[0 := 1]\<rparr>]) = live_files xs @ live_files ys"
proof -
  let ?e = "e\<lparr>FileName := (FileName e)[0 := 1]\<rparr>"
  have l: "live_files d = live_files xs @ e # live_files ys" by (rule entry_in_live [OF assms(2)])
  have n: "length (FileName e) = 32" using assms by (auto simp: directory_ok_def named32_def entry_in_def)
  then have "hd ((FileName e)[0 := 1]) = 1" by (cases "FileName e") auto
  then have "\<not> end_mark ?e" "unused_mark ?e" by (simp_all add: end_mark_def unused_mark_def)
  from replace_live(3) [OF assms(2) this] show live: "live_files (d[length xs := ?e]) = live_files xs @ live_files ys"
    using replace_live(1) [OF assms(2)] by simp
  have "named32 (d[length xs := ?e])" using assms(1) n set_update_subset_insert [of d "length xs" ?e]
    by (auto simp: directory_ok_def named32_def)
  then show "directory_ok nb (d[length xs := ?e])"
    using assms(1) live unfolding directory_ok_def l by (auto simp: sorted_wrt_append)
qed

lemma write_refines:
  assumes ok: "image_ok (disk B)" and room: "img_len (disk B) \<le> space E" and n: "nul \<notin> set f"
    and m: "file_map (disk B) f \<noteq> None" and c: "host B f = Some bs" "length bs \<le> room_of (disk B) f" "length bs \<le> INT_MAX"
  shows "\<exists>B'. write_to_disk E (Some f) (load_disk B) = Some B' \<and> image_ok (disk B') \<and> img_len (disk B') = img_len (disk B)
    \<and> file_map (disk B') = (file_map (disk B))(f \<mapsto> bs) \<and> host B' = host B"
proof -
  let ?d = "directory_of (disk B)" and ?nb = "img_len (disk B) div 2097152"
  obtain xs e ys where found: "findfile (Some f) (load_disk B) = Some (Some (e, length xs))" and e: "entry_in ?d xs e ys"
    and name: "entry_name e = f" and r: "room_of (disk B) f = unat (ReservedBlocks e) * 2097152"
    using findfile_map [OF ok n] m by auto
  note dok = image_okD(3) [OF ok]
  have l: "live_files ?d = live_files xs @ e # live_files ys" by (rule entry_in_live [OF e])
  then have ein: "e \<in> set (live_files ?d)" by simp
  note eD = file_okD [OF ok ein]
  define f1 where "f1 = snd (fwrite_at (space E) (first_block e * 2097152) bs (disk B))"
  note w = contents_written [OF ok ein c(2)[unfolded r] room, folded f1_def]
  have small: "length bs < 2 ^ 64" using c(3) by simp
  have len: "unat (of_nat (length bs) :: u64) = length bs" using small by (simp add: unat_of_nat_small)
  let ?d' = "?d[length xs := e\<lparr>FileSize := of_nat (length bs)\<rparr>]"
  have "unat (of_nat (length bs) :: u64) \<le> unat (ReservedBlocks e) * 2097152" using c(2) r len by simp
  note d' = resized_ok [OF dok e this]
  have B': "write_to_disk E (Some f) (load_disk B) = Some (say (''Complete'' @ line_end)
      ((say (''Writing local file '' @ quoted f @ '' to BMFS... '') (load_disk B))\<lparr>Directory := ?d', disk := flushed (space E) ?d' f1\<rparr>))"
  proof -
    have "\<not> ReservedBlocks e * BLOCK < of_nat (length bs)"
      using c(2) r len room_bytes [OF eD(3)] by (simp add: word_less_nat_alt)
    moreover have "?d ! length xs = e" using e by (simp add: entry_in_def)
    ultimately show ?thesis
      using found c(1,3) by (simp add: write_to_disk_def say_def flush_def flushed_def f1_def seek_block_eq [OF eD(2)] Let_def)
  qed
  have room1: "img_len f1 \<le> space E" using w(1) room by simp
  have ok1: "directory_ok (img_len f1 div 2097152) ?d'" using d'(1) w(1) by simp
  note fin = flushed_ok [OF w(3) room1 ok1]
  have "file_map (flushed (space E) ?d' f1) = (file_map (disk B))(f \<mapsto> bs)"
  proof -
    let ?g = "\<lambda>e. (entry_name e, stored (disk B) e)" and ?h = "\<lambda>e. (entry_name e, stored f1 e)"
    have st: "stored f1 x = stored (disk B) x" if "x \<in> set (live_files xs) \<union> set (live_files ys)" for x
      using w(5) [OF entries_apart(2,1) [OF dok e that]] .
    have same: "map ?h (live_files zs) = map ?g (live_files zs)" if "set (live_files zs) \<subseteq> set (live_files xs) \<union> set (live_files ys)" for zs
      using that st by (simp add: subset_iff)
    have "?h (e\<lparr>FileSize := of_nat (length bs)\<rparr>) = (f, bs)" using name w(4) len by (simp add: entry_name_def stored_def)
    then have "file_map (flushed (space E) ?d' f1) = map_of (map ?g (live_files xs) @ (f, bs) # map ?g (live_files ys))"
      unfolding fin(2) d'(2) by (simp only: map_append list.map same [OF Un_upper1] same [OF Un_upper2])
    also have "\<dots> = (map_of (map ?g (live_files xs) @ (f, stored (disk B) e) # map ?g (live_files ys)))(f \<mapsto> bs)"
      using other_names [OF dok e, of "stored (disk B)"] unfolding name by (intro map_of_place)
    also have "\<dots> = (file_map (disk B))(f \<mapsto> bs)" using name by (simp add: file_map_def l)
    finally show ?thesis .
  qed
  moreover have "img_len (flushed (space E) ?d' f1) = img_len (disk B)"
    using flushed_image(2) [of f1 "space E" ?d'] image_okD(1) [OF w(3)] room1 directory_okD(1,2) [OF ok1] w(1) by simp
  ultimately show ?thesis unfolding B' using fin(1) by (simp add: say_def)
qed

lemma read_refines:
  assumes ok: "image_ok (disk B)" and n: "nul \<notin> set f" and m: "file_map (disk B) f = Some bs" and w: "can_write E f"
    and c: "length bs \<le> INT_MAX"
  shows "\<exists>B'. read_file E (Some f) (load_disk B) = Some B' \<and> disk B' = disk B \<and> host B' = (host B)(f \<mapsto> bs)"
proof -
  let ?d = "directory_of (disk B)"
  obtain xs e ys where found: "findfile (Some f) (load_disk B) = Some (Some (e, length xs))" and e: "entry_in ?d xs e ys"
    and name: "entry_name e = f" and bs: "bs = stored (disk B) e"
    using findfile_map [OF ok n] m by auto
  have ein: "e \<in> set (live_files ?d)" using entry_in_live [OF e] by simp
  note eD = file_okD [OF ok ein]
  have size: "unat (FileSize e) \<le> INT_MAX" using c bs by (simp add: stored_def)
  have inside: "first_block e * 2097152 + unat (FileSize e) \<le> img_len (disk B)" using eD(1,4) by (simp add: file_ok_def)
  have "map (\<lambda>i. if i < img_len (disk B) then img_byte (disk B) i else - 1)
      [seek_block (StartingBlock e)..<seek_block (StartingBlock e) + unat (FileSize e)] = bs"
    unfolding bs stored_def fread_at_def seek_block_eq [OF eD(2)] using inside by (intro map_cong) auto
  moreover have "name_text (FileName e) = Some f" using name_text_eq [of e] name eD(1) by (simp add: file_ok_def)
  ultimately show ?thesis using found w size by (simp add: read_file_def say_def Let_def cong: if_cong)
qed

lemma delete_refines:
  assumes ok: "image_ok (disk B)" and room: "img_len (disk B) \<le> space E" and n: "nul \<notin> set f" and m: "file_map (disk B) f \<noteq> None"
  shows "\<exists>B'. delete_file E (Some f) (load_disk B) = Some B' \<and> image_ok (disk B') \<and> img_len (disk B') = img_len (disk B)
    \<and> file_map (disk B') = (file_map (disk B))(f := None) \<and> host B' = host B"
proof -
  let ?d = "directory_of (disk B)"
  obtain xs e ys where found: "findfile (Some f) (load_disk B) = Some (Some (e, length xs))" and e: "entry_in ?d xs e ys"
    and name: "entry_name e = f"
    using findfile_map [OF ok n] m by auto
  note dok = image_okD(3) [OF ok]
  have l: "live_files ?d = live_files xs @ e # live_files ys" by (rule entry_in_live [OF e])
  let ?d' = "?d[length xs := e\<lparr>FileName := (FileName e)[0 := 1]\<rparr>]"
  note d' = removed_ok [OF dok e]
  have "?d ! length xs = e" using e by (simp add: entry_in_def)
  then have B': "delete_file E (Some f) (load_disk B) = Some (say (''Complete'' @ line_end)
      ((say (''Deleting file '' @ quoted f @ '' from BMFS... '') (load_disk B))\<lparr>Directory := ?d', disk := flushed (space E) ?d' (disk B)\<rparr>))"
    using found by (simp add: delete_file_def say_def flush_def flushed_def Let_def)
  note fin = flushed_ok [OF ok room d'(1)]
  have "file_map (flushed (space E) ?d' (disk B)) = (file_map (disk B))(f := None)"
  proof -
    let ?g = "\<lambda>e. (entry_name e, stored (disk B) e)"
    have "file_map (flushed (space E) ?d' (disk B)) = map_of (map ?g (live_files xs) @ map ?g (live_files ys))"
      unfolding fin(2) d'(2) by simp
    also have "\<dots> = (map_of (map ?g (live_files xs) @ (f, stored (disk B) e) # map ?g (live_files ys)))(f := None)"
      using other_names [OF dok e, of "stored (disk B)"] unfolding name by (intro map_of_place)
    also have "\<dots> = (file_map (disk B))(f := None)" using name by (simp add: file_map_def l)
    finally show ?thesis .
  qed
  moreover have "img_len (flushed (space E) ?d' (disk B)) = img_len (disk B)"
    using flushed_image(2) image_okD(1) [OF ok] room directory_okD(1,2) [OF d'(1)] by blast
  ultimately show ?thesis unfolding B' using fin(1) by (simp add: say_def)
qed

lemma absent_refines:
  assumes "image_ok (disk B)" "nul \<notin> set f" "file_map (disk B) f = None"
  shows "\<exists>B'. write_to_disk E (Some f) (load_disk B) = Some B' \<and> disk B' = disk B \<and> host B' = host B"
    and "\<exists>B'. read_file E (Some f) (load_disk B) = Some B' \<and> disk B' = disk B \<and> host B' = host B"
    and "\<exists>B'. delete_file E (Some f) (load_disk B) = Some B' \<and> disk B' = disk B \<and> host B' = host B"
proof -
  have "findfile (Some f) (load_disk B) = Some None" using findfile_map [OF assms(1,2)] assms(3) by auto
  then show "\<exists>B'. write_to_disk E (Some f) (load_disk B) = Some B' \<and> disk B' = disk B \<and> host B' = host B"
    and "\<exists>B'. read_file E (Some f) (load_disk B) = Some B' \<and> disk B' = disk B \<and> host B' = host B"
    and "\<exists>B'. delete_file E (Some f) (load_disk B) = Some B' \<and> disk B' = disk B \<and> host B' = host B"
    by (simp_all add: write_to_disk_def read_file_def delete_file_def say_def)
qed

section \<open>Formatting\<close>

lemma empty_directory: "live_files (replicate 64 empty_entry) = []" "named32 (replicate 64 empty_entry)"
  by (simp_all add: live_files_def end_mark_def empty_entry_def named32_def numeral_eq_Suc)

lemma format_refines:
  assumes "8192 \<le> img_len (disk B)" "img_len (disk B) \<le> space E" "img_len (disk B) div 1048576 < 2 ^ 32"
  shows "image_ok (disk (format_disk E B))" "file_map (disk (format_disk E B)) = Map.empty" "host (format_disk E B) = host B"
    "img_len (disk (format_disk E B)) = img_len (disk B)" "live_files (directory_of (disk (format_disk E B))) = []"
    "\<forall>e\<in>set (takeWhile (\<lambda>e. \<not> end_mark e) (directory_of (disk (format_disk E B)))). \<not> unused_mark e"
proof -
  let ?info = "map char_byte fs_tag @ replicate 508 0" and ?d = "replicate 64 empty_entry"
  define f1 where "f1 = snd (fwrite_at (space E) 1024 ?info (disk B))"
  have info: "length ?info = 512" by (simp add: fs_tag_def)
  have len: "img_len f1 = img_len (disk B)" unfolding f1_def using info assms by (intro fwrite_len) linarith
  have zero: "byte_char 0 = nul" by (metis byte_char_byte char_byte_zero)
  have "take 5 ?info = map char_byte fs_tag @ [0]" by (simp add: fs_tag_def)
  then have "map byte_char (take 5 ?info) = fs_tag @ [nul]" by (simp add: fs_tag_def zero)
  then have tag: "tagged (fread_at 1024 512 f1)"
    using fwrite_then_read [of 1024 ?info "space E" "disk B"] info assms by (simp add: tagged_def strcaseeq_def f1_def)
  have f: "disk (format_disk E B) = flushed (space E) ?d f1"
    by (simp add: format_disk_def say_def flush_def flushed_def f1_def Let_def)
  have h: "8192 \<le> img_len f1" "img_len f1 \<le> space E" "length ?d = 64" using assms len by simp_all
  note fl = flushed_image [OF h empty_directory(2)]
  show "img_len (disk (format_disk E B)) = img_len (disk B)" unfolding f using fl(2) len by simp
  show "live_files (directory_of (disk (format_disk E B))) = []" unfolding f fl(1) by (rule empty_directory)
  show "\<forall>e\<in>set (takeWhile (\<lambda>e. \<not> end_mark e) (directory_of (disk (format_disk E B)))). \<not> unused_mark e"
    unfolding f fl(1) by (simp add: end_mark_def empty_entry_def numeral_eq_Suc)
  show "image_ok (disk (format_disk E B))"
    using fl tag len assms empty_directory unfolding f by (simp add: image_ok_def directory_ok_def)
  show "file_map (disk (format_disk E B)) = Map.empty" unfolding f file_map_def fl(1) empty_directory(1) by simp
qed (simp add: format_disk_def say_def flush_def Let_def)

section \<open>The place of a new file\<close>

lemma mset_sort_in: "mset (sort_in cmp x ys) = add_mset x (mset ys)"
  by (induction ys) auto

lemma mset_qsort: "mset (qsort cmp xs) = mset xs"
  unfolding qsort_def by (induction xs) (auto simp: mset_sort_in)

lemma set_sort_in: "set (sort_in cmp x ys) = insert x (set ys)"
  by (metis mset_sort_in set_mset_add_mset_insert set_mset_mset)

lemma set_qsort: "set (qsort cmp xs) = set xs"
  by (metis mset_qsort set_mset_mset)

lemma qsort_sorted:
  fixes key :: "'a \<Rightarrow> nat"
  assumes "\<And>a b. a \<in> set xs \<Longrightarrow> b \<in> set xs \<Longrightarrow> cmp a b \<le> 0 \<longleftrightarrow> key a \<le> key b"
  shows "sorted_wrt (\<lambda>a b. key a \<le> key b) (qsort cmp xs)"
  using assms
proof (induction xs)
  case (Cons x xs)
  note agree = Cons.prems
  have insert_sorted: "sorted_wrt (\<lambda>a b. key a \<le> key b) (sort_in cmp x ys)"
    if "sorted_wrt (\<lambda>a b. key a \<le> key b) ys" "set ys \<subseteq> set xs" for ys
    using that
  proof (induction ys)
    case (Cons y ys)
    then have "cmp x y \<le> 0 \<longleftrightarrow> key x \<le> key y" using agree by simp
    then show ?case using Cons by (auto simp: set_sort_in)
  qed simp
  have "sorted_wrt (\<lambda>a b. key a \<le> key b) (qsort cmp xs)" using Cons by simp
  then show ?case using insert_sorted [of "qsort cmp xs"] set_qsort [of cmp xs] by (simp add: qsort_def)
qed (simp add: qsort_def)

text \<open>Blocks \<open>s\<close> to \<open>s + req - 1\<close> are free and in front of the last block.\<close>

definition gap_at :: "nat \<Rightarrow> BMFSEntry list \<Rightarrow> nat \<Rightarrow> nat \<Rightarrow> bool" where
  "gap_at N es req s \<longleftrightarrow> s + req \<le> N \<and> (\<forall>e\<in>set es. s + req \<le> first_block e \<or> behind e \<le> s)"

lemma first_later:
  fixes P Q :: "nat \<Rightarrow> bool"
  assumes "(z \<and> (\<forall>s\<ge>b. \<not> P s)) \<or> (b \<le> G \<and> P G \<and> (\<forall>s\<ge>b. P s \<longrightarrow> G \<le> s))" and "a \<le> b"
    and "\<And>s. a \<le> s \<Longrightarrow> Q s \<longleftrightarrow> b \<le> s \<and> P s"
  shows "(z \<and> (\<forall>s\<ge>a. \<not> Q s)) \<or> (a \<le> G \<and> Q G \<and> (\<forall>s\<ge>a. Q s \<longrightarrow> G \<le> s))"
  using assms by (meson order_trans)

lemma find_gap_spec:
  assumes "sorted_wrt (\<lambda>a b. behind a \<le> first_block b) es"
    and "\<forall>e\<in>set es. unat before \<le> first_block e \<and> behind e \<le> unat (nb - 1) \<and> \<not> unused_mark e"
    and "unat before \<le> unat (nb - 1)" and "1 \<le> unat before" and "1 \<le> unat req"
  shows "(find_gap nb req before es = 0 \<and> (\<forall>s\<ge>unat before. \<not> gap_at (unat (nb - 1)) es (unat req) s))
    \<or> (unat before \<le> unat (find_gap nb req before es) \<and> gap_at (unat (nb - 1)) es (unat req) (unat (find_gap nb req before es))
       \<and> (\<forall>s\<ge>unat before. gap_at (unat (nb - 1)) es (unat req) s \<longrightarrow> unat (find_gap nb req before es) \<le> s))"
  using assms
proof (induction es arbitrary: before)
  case Nil
  have "unat (nb - 1 - before) = unat (nb - 1) - unat before" using Nil by (intro unat_sub) (simp add: word_le_nat_alt)
  then have "req \<le> nb - 1 - before \<longleftrightarrow> unat before + unat req \<le> unat (nb - 1)" using Nil by (simp add: word_le_nat_alt) linarith
  then show ?case using Nil by (auto simp: gap_at_def)
next
  case (Cons e es)
  let ?N = "unat (nb - 1)"
  have e: "unat before \<le> first_block e" "behind e \<le> ?N" "\<not> unused_mark e" using Cons.prems(2) by simp_all
  have "unat (StartingBlock e - before) = first_block e - unat before" using e(1) by (intro unat_sub) (simp add: word_le_nat_alt)
  then have fits: "req \<le> StartingBlock e - before \<longleftrightarrow> unat before + unat req \<le> first_block e" using e(1) by (simp add: word_le_nat_alt) linarith
  show ?case
  proof (cases "unat before + unat req \<le> first_block e")
    case True
    then have f: "find_gap nb req before (e # es) = before" using fits e(3) by simp
    have "unat before + unat req \<le> first_block x" if "x \<in> set (e # es)" for x
    proof -
      have "first_block e \<le> first_block x" using Cons.prems(1) that by auto
      then show ?thesis using True by linarith
    qed
    moreover have "unat before + unat req \<le> ?N" using True e(2) by linarith
    ultimately have "gap_at ?N (e # es) (unat req) (unat before)" unfolding gap_at_def by blast
    then show ?thesis unfolding f by (intro disjI2 conjI order_refl allI impI) assumption+
  next
    case False
    let ?p = "StartingBlock e + ReservedBlocks e"
    have f: "find_gap nb req before (e # es) = find_gap nb req ?p es" using False fits e(3) by simp
    have "?N < 2 ^ LENGTH(64)" by (rule unsigned_less)
    then have "behind e < 2 ^ 64" using e(2) by simp
    then have p: "unat ?p = behind e" by (simp add: unat_word_ariths)
    have g: "gap_at ?N (e # es) (unat req) s \<longleftrightarrow> behind e \<le> s \<and> gap_at ?N es (unat req) s" if "unat before \<le> s" for s
      using that False by (auto simp: gap_at_def)
    have "\<forall>x\<in>set es. unat ?p \<le> first_block x \<and> behind x \<le> ?N \<and> \<not> unused_mark x" using Cons.prems(1,2) p by auto
    moreover have "unat ?p \<le> ?N" "1 \<le> unat ?p" using e Cons.prems(4) p by linarith+
    ultimately have "(find_gap nb req ?p es = 0 \<and> (\<forall>s\<ge>behind e. \<not> gap_at ?N es (unat req) s))
      \<or> (behind e \<le> unat (find_gap nb req ?p es) \<and> gap_at ?N es (unat req) (unat (find_gap nb req ?p es))
         \<and> (\<forall>s\<ge>behind e. gap_at ?N es (unat req) s \<longrightarrow> unat (find_gap nb req ?p es) \<le> s))"
      using Cons.IH [of ?p] Cons.prems(1,5) p by simp
    moreover have b: "unat before \<le> behind e" using e(1) by linarith
    ultimately show ?thesis unfolding f by (intro first_later [OF _ _ g])
  qed
qed

lemma count_entries_plain:
  assumes "\<forall>e\<in>set (takeWhile (\<lambda>e. \<not> end_mark e) d). \<not> unused_mark e"
  shows "count_entries i None d =
    (let n = length (takeWhile (\<lambda>e. \<not> end_mark e) d) in if n < length d then (i + n, Some (i + n)) else (0, None))"
  using assms by (induction d arbitrary: i) (auto simp: Let_def)

text \<open>No entry in front of the end mark is that of a deleted file.\<close>

definition none_deleted :: "BMFSEntry list \<Rightarrow> bool" where
  "none_deleted d \<longleftrightarrow> (\<forall>e\<in>set (takeWhile (\<lambda>e. \<not> end_mark e) d). \<not> unused_mark e)"

lemma none_deleted_live: "none_deleted d \<Longrightarrow> live_files d = takeWhile (\<lambda>e. \<not> end_mark e) d"
  by (simp add: none_deleted_def live_files_def filter_id_conv)

definition good_name :: "string \<Rightarrow> bool" where
  "good_name f \<longleftrightarrow> f \<noteq> [] \<and> nul \<notin> set f \<and> hd f \<noteq> CHR 0x01 \<and> length f < 32"

lemma cut_difference:
  fixes a b :: u64
  assumes "unat a < 2 ^ 31" "unat b < 2 ^ 31"
  shows "sint (ucast (a - b) :: u32) = int (unat a) - int (unat b)"
proof -
  let ?z = "int (unat a) - int (unat b)"
  have "a - b = word_of_int ?z" by simp
  moreover have "(ucast (word_of_int z :: u64) :: u32) = word_of_int z" for z by transfer (simp add: take_bit_take_bit)
  ultimately have "(ucast (a - b) :: u32) = word_of_int ?z" by (simp only:)
  moreover have "sint (word_of_int z :: u32) = z" if "- (2 ^ 31) \<le> z" "z < 2 ^ 31" for z
    using that by (simp add: signed_of_int signed_take_bit_int_eq_self)
  moreover have "unat a < 2147483648" "unat b < 2147483648" using assms by simp_all
  then have "- 2147483648 \<le> ?z" "?z < 2147483648" by linarith+
  then have "- (2 ^ 31) \<le> ?z" "?z < 2 ^ 31" by simp_all
  ultimately show ?thesis by (simp only:)
qed

text \<open>The sorted copy of the directory: the files in the order in which they lie on the disk.\<close>

lemma sorted_files:
  assumes ok: "directory_ok nb d" and nb: "nb < 2 ^ 31" and del: "none_deleted d"
  shows "sorted_wrt (\<lambda>a b. behind a \<le> first_block b) (qsort StartingBlockCmp (live_files d))"
    and "set (qsort StartingBlockCmp (live_files d)) = set (live_files d)"
proof -
  let ?l = "live_files d" and ?q = "qsort StartingBlockCmp (live_files d)"
  show set: "set ?q = set ?l" by (rule set_qsort)
  have small: "first_block e < 2 ^ 31" if "e \<in> set ?l" for e
    using directory_okD(3) [OF ok that] nb unfolding file_ok_def by linarith
  have unmarked: "\<not> unused_mark e" if "e \<in> set ?l" for e using that by (simp add: live_files_def)
  have "StartingBlockCmp a b \<le> 0 \<longleftrightarrow> first_block a \<le> first_block b" if "a \<in> set ?l" "b \<in> set ?l" for a b
    using unmarked that cut_difference [OF small small, OF that]
    by (simp add: StartingBlockCmp_def word_le_nat_alt [symmetric] word_le_def)
  from qsort_sorted [of ?l StartingBlockCmp first_block, OF this]
  have sorted: "sorted_wrt (\<lambda>a b. first_block a \<le> first_block b) ?q" .
  have dl: "distinct ?l" using directory_okD(4) [OF ok] by (simp add: distinct_map)
  then have dq: "distinct ?q" using mset_qsort [of StartingBlockCmp ?l] by (metis mset_eq_imp_distinct_iff)
  have apart: "files_apart a b" if "a \<in> set ?l" "b \<in> set ?l" "a \<noteq> b" for a b
  proof -
    obtain i j where "i < length ?l" "j < length ?l" "a = ?l ! i" "b = ?l ! j" using \<open>a \<in> _\<close> \<open>b \<in> _\<close> by (metis in_set_conv_nth)
    moreover from this have "i < j \<or> j < i" using \<open>a \<noteq> b\<close> by (metis nat_neq_iff)
    moreover have "sorted_wrt files_apart ?l" using ok by (simp add: directory_ok_def)
    ultimately show ?thesis by (auto simp: sorted_wrt_iff_nth_less files_apart_def)
  qed
  show "sorted_wrt (\<lambda>a b. behind a \<le> first_block b) ?q"
  proof (unfold sorted_wrt_iff_nth_less, intro allI impI)
    fix i j assume ij: "i < j" "j < length ?q"
    then have "i < length ?q" by linarith
    then have in_l: "?q ! i \<in> set ?l" "?q ! j \<in> set ?l" unfolding set [symmetric] using ij(2) by (simp_all only: nth_mem)
    have "?q ! i \<noteq> ?q ! j" using dq ij by (simp add: nth_eq_iff_index_eq)
    from apart [OF in_l this] have "behind (?q ! i) \<le> first_block (?q ! j) \<or> behind (?q ! j) \<le> first_block (?q ! i)"
      by (simp add: files_apart_def)
    moreover have "first_block (?q ! i) \<le> first_block (?q ! j)" using sorted ij by (simp add: sorted_wrt_iff_nth_less)
    moreover have "1 \<le> unat (ReservedBlocks (?q ! j))" using directory_okD(3) [OF ok in_l(2)] by (simp add: file_ok_def)
    ultimately show "behind (?q ! i) \<le> first_block (?q ! j)" by linarith
  qed
qed

text \<open>The directory with the new entry behind the files.\<close>

definition new_entry :: "string \<Rightarrow> u64 \<Rightarrow> u64 \<Rightarrow> BMFSEntry \<Rightarrow> BMFSEntry" where
  "new_entry f start req e = e\<lparr>StartingBlock := start, ReservedBlocks := req, FileSize := 0,
     FileName := map char_byte f @ [0] @ drop (length f + 1) (FileName e)\<rparr>"

definition add_entry :: "string \<Rightarrow> u64 \<Rightarrow> u64 \<Rightarrow> BMFSEntry list \<Rightarrow> BMFSEntry list" where
  "add_entry f start req d =
     (let n = length (live_files d); d = d[n := new_entry f start req (d ! n)]
      in if n + 1 < 64 then d[n + 1 := (d ! (n + 1))\<lparr>FileName := (FileName (d ! (n + 1)))[0 := 0]\<rparr>] else d)"

lemma new_entry_ok:
  assumes "length (FileName e) = 32" "good_name f"
  shows "length (FileName (new_entry f s r e)) = 32" "entry_name (new_entry f s r e) = f"
    "\<not> end_mark (new_entry f s r e)" "\<not> unused_mark (new_entry f s r e)" "0 \<in> set (FileName (new_entry f s r e))"
proof -
  have f: "f \<noteq> []" "nul \<notin> set f" "hd f \<noteq> CHR 0x01" "length f < 32" using assms(2) by (auto simp: good_name_def)
  have nz: "\<forall>b\<in>set (map char_byte f). b \<noteq> 0" using f(2) by auto
  have "takeWhile (\<lambda>b. b \<noteq> 0) (map char_byte f @ [0] @ r) = map char_byte f" for r
    using takeWhile_append2 [of "map char_byte f" "\<lambda>b. b \<noteq> 0" "[0] @ r"] nz by simp
  then show "entry_name (new_entry f s r e) = f"
    unfolding entry_name_def new_entry_def by (simp add: o_def)
  have "hd (map char_byte f) = char_byte (hd f)" using f(1) by (rule hd_map)
  moreover have "hd f \<noteq> nul" using f(1,2) by (cases f) auto
  moreover have "char_byte (CHR 0x01) = 1" by (simp add: char_byte_def)
  then have "char_byte (hd f) \<noteq> 1" using f(3) char_byte_inj [of "hd f" "CHR 0x01"] by simp
  ultimately show "\<not> end_mark (new_entry f s r e)" "\<not> unused_mark (new_entry f s r e)"
    using f(1) by (simp_all add: end_mark_def unused_mark_def new_entry_def hd_append)
qed (use assms in \<open>simp_all add: new_entry_def good_name_def\<close>)

lemma add_entry_live:
  assumes ok: "directory_ok nb d" and del: "none_deleted d" and n: "length (live_files d) < 64" and f: "good_name f"
  shows "live_files (add_entry f s r d) = live_files d @ [new_entry f s r (d ! length (live_files d))]"
    "named32 (add_entry f s r d)" "length (add_entry f s r d) = 64" "none_deleted (add_entry f s r d)"
proof -
  let ?t = "takeWhile (\<lambda>e. \<not> end_mark e) d" and ?r = "dropWhile (\<lambda>e. \<not> end_mark e) d"
  note live = none_deleted_live [OF del]
  note d = directory_okD(1,2) [OF ok]
  obtain m rest where r: "?r = m # rest" using n d(1) live by (metis append_Nil2 list.exhaust nat_less_le takeWhile_dropWhile_id)
  then have split: "d = ?t @ m # rest" by (metis takeWhile_dropWhile_id)
  have all: "\<forall>x\<in>set (?t @ m # rest). length (FileName x) = 32" using d(2) by (subst split [symmetric]) (simp add: named32_def)
  have names: "length (FileName m) = 32" "\<forall>x\<in>set rest. length (FileName x) = 32" "\<forall>x\<in>set ?t. length (FileName x) = 32"
    using all by simp_all
  have dn: "d ! length ?t = m" by (subst split) simp
  let ?e = "new_entry f s r m"
  note e = new_entry_ok [OF names(1) f, of s r]
  have d1: "d[length ?t := ?e] = ?t @ ?e # rest" by (subst (1) split) simp
  have plain: "\<forall>x\<in>set ?t. \<not> end_mark x \<and> \<not> unused_mark x" using del set_takeWhileD by (fastforce simp: none_deleted_def)
  have "\<exists>rest'. add_entry f s r d = ?t @ ?e # rest' \<and> (rest' = [] \<or> end_mark (hd rest')) \<and> length rest' = length rest
      \<and> (\<forall>x\<in>set rest'. length (FileName x) = 32)"
  proof (cases rest)
    case Nil
    then have "length ?t + 1 = 64" using d(1) split by (metis One_nat_def length_Cons length_append list.size(3))
    then show ?thesis using Nil names(2) d1 dn by (auto simp: add_entry_def live Let_def)
  next
    case (Cons x xs)
    then have "length ?t + 1 < 64" using d(1) split by (metis length_Cons length_append add_Suc_right less_add_Suc1 Suc_eq_plus1 add_Suc)
    moreover have "(?t @ ?e # rest) ! (length ?t + 1) = x" using Cons by (simp add: nth_append)
    moreover have "(?t @ ?e # rest)[length ?t + 1 := y] = ?t @ ?e # y # xs" for y using Cons by (simp add: list_update_append)
    ultimately have "add_entry f s r d = ?t @ ?e # x\<lparr>FileName := (FileName x)[0 := 0]\<rparr> # xs"
      using d1 dn by (simp add: add_entry_def live Let_def)
    moreover have "end_mark (x\<lparr>FileName := (FileName x)[0 := 0]\<rparr>)"
      using names(2) Cons by (cases "FileName x") (auto simp: end_mark_def)
    ultimately show ?thesis using Cons names(2) by auto
  qed
  then obtain rest' where a: "add_entry f s r d = ?t @ ?e # rest'" and b: "rest' = [] \<or> end_mark (hd rest')"
    and l: "length rest' = length rest" and c: "\<forall>x\<in>set rest'. length (FileName x) = 32" by blast
  have "live_files ?t = ?t" using plain by (induction ?t) (auto simp: live_files_def filter_id_conv takeWhile_eq_all_conv)
  moreover have "live_files rest' = []" using b by (cases rest') (auto simp: live_files_def)
  ultimately have "live_files (add_entry f s r d) = ?t @ [?e]" using a e(3,4) plain by (simp add: live_files_append)
  then show "live_files (add_entry f s r d) = live_files d @ [new_entry f s r (d ! length (live_files d))]" using dn live by simp
  have "takeWhile (\<lambda>e. \<not> end_mark e) rest' = []" using b by (cases rest') auto
  then have "takeWhile (\<lambda>e. \<not> end_mark e) (add_entry f s r d) = ?t @ [?e]" unfolding a using plain e(3) by simp
  then show "none_deleted (add_entry f s r d)" using plain e(4) by (simp add: none_deleted_def)
  show "named32 (add_entry f s r d)" using a e(1) names(3) c by (auto simp: named32_def)
  show "length (add_entry f s r d) = 64" using a l d(1) split by (metis length_Cons length_append)
qed

lemma add_entry_ok:
  assumes ok: "directory_ok nb d" and del: "none_deleted d" and n: "length (live_files d) < 64" and f: "good_name f"
    and new: "\<forall>e\<in>set (live_files d). entry_name e \<noteq> f" and gap: "gap_at (nb - 1) (live_files d) (unat r) (unat s)"
    and pos: "1 \<le> unat s" "1 \<le> unat r"
  shows "directory_ok nb (add_entry f s r d)"
proof -
  note a = add_entry_live [OF ok del n f, of s r]
  let ?e = "new_entry f s r (d ! length (live_files d))"
  have "length (FileName (d ! length (live_files d))) = 32"
    using directory_okD(1,2) [OF ok] n by (simp add: named32_def)
  note e = new_entry_ok [OF this f, of s r]
  have at: "first_block ?e = unat s" "behind ?e = unat s + unat r" "unat (FileSize ?e) = 0" "unat (ReservedBlocks ?e) = unat r"
    by (simp_all add: new_entry_def)
  have "file_ok nb ?e" using gap pos e(5) at by (simp add: file_ok_def gap_at_def)
  moreover have "\<forall>x\<in>set (live_files d). files_apart x ?e" using gap at by (auto simp: gap_at_def files_apart_def)
  ultimately show ?thesis
    using ok a e(2) new unfolding directory_ok_def by (auto simp: sorted_wrt_append)
qed

lemma half_rounded_up:
  fixes m :: u64
  assumes "unat m < 2 ^ 31"
  shows "(if m mod 2 \<noteq> 0 then m + 1 else m) div 2 = of_nat ((unat m + 1) div 2)"
proof -
  have "unat (m + 1) = unat m + 1" using assms by (simp add: unat_word_ariths)
  moreover have "m mod 2 = 0 \<longleftrightarrow> unat m mod 2 = 0" by (simp add: word_unat_eq_iff unat_mod_distrib)
  moreover have "(unat m + 1) div 2 < 2 ^ 64" using assms by simp
  ultimately show ?thesis
    by (simp add: word_unat_eq_iff unat_div_distrib unat_of_nat_small) presburger
qed

lemma create_decides:
  fixes maxsize :: u64
  assumes ok: "image_ok (disk B)" and del: "none_deleted (directory_of (disk B))" and f: "good_name f" "file_map (disk B) f = None"
    and big: "4194304 \<le> img_len (disk B)" and m: "1 \<le> unat maxsize" "unat maxsize < 2 ^ 31"
  defines "d \<equiv> directory_of (disk B)" and "N \<equiv> img_len (disk B) div 2097152 - 1"
    and "req \<equiv> (of_nat ((unat maxsize + 1) div 2) :: u64)"
  shows "(length (live_files d) < 64 \<longrightarrow> (\<forall>s\<ge>1. \<not> gap_at N (live_files d) (unat req) s))
      \<and> (\<exists>t. create E f maxsize (load_disk B) = Some (say t (load_disk B)))
    \<or> length (live_files d) < 64 \<and> (\<exists>s t. 1 \<le> unat s \<and> gap_at N (live_files d) (unat req) (unat s)
        \<and> (\<forall>s'\<ge>1. gap_at N (live_files d) (unat req) s' \<longrightarrow> unat s \<le> s')
        \<and> create E f maxsize (load_disk B) =
            Some (say t ((load_disk B)\<lparr>Directory := add_entry f s req d, disk := flushed (space E) (add_entry f s req d) (disk B)\<rparr>)))"
proof -
  let ?nb = "ucast (disksize (load_disk B) div 2) :: u64" and ?q = "qsort StartingBlockCmp (live_files d)"
  note dok = image_okD(3) [OF ok, folded d_def]
  have del': "none_deleted d" using del by (simp add: d_def)
  have plain: "takeWhile (\<lambda>e. \<not> end_mark e) d = live_files d" using none_deleted_live [OF del'] by simp
  have n31: "img_len (disk B) div 2097152 < 2 ^ 31" by (rule image_okD(4) [OF ok])
  have "img_len (disk B) div 1048576 < 2 ^ 32" using ok by (simp add: image_ok_def)
  then have "unat (disksize (load_disk B)) = img_len (disk B) div 1048576" by (simp add: load_disk_def unat_of_nat_small)
  then have u: "unat ?nb = img_len (disk B) div 2097152"
    by (simp add: unat_ucast32 unat_div_distrib div_mult2_eq [symmetric])
  have two: "2 \<le> img_len (disk B) div 2097152" using div_le_mono [OF big, of 2097152] by simp
  then have "?nb \<noteq> 0" using u by (metis unsigned_0 not_numeral_le_zero)
  then have N: "unat (?nb - 1) = N" using unat_minus_one [of ?nb] unfolding u N_def by blast
  have N1: "1 \<le> N" using two by (simp add: N_def)
  have found: "findfile (Some f) (load_disk B) = Some None" using findfile_map [OF ok, of f] f by (auto simp: good_name_def)
  note half = half_rounded_up [OF m(2), folded req_def]
  have req: "1 \<le> unat req" using m by (simp add: req_def unat_of_nat_small)
  have count: "count_entries 0 None d =
      (if length (live_files d) < 64 then (length (live_files d), Some (length (live_files d))) else (0, None))"
    using count_entries_plain [of d 0] del' directory_okD(1) [OF dok] unfolding none_deleted_def plain by (simp add: Let_def)
  show ?thesis
  proof (cases "length (live_files d) < 64")
    case False
    then show ?thesis using found count half
      by (intro disjI1) (auto simp: create_def Let_def say_def d_def [symmetric])
  next
    case True
    let ?n = "length (live_files d)" and ?s = "find_gap ?nb req 1 ?q"
    have take: "take ?n d = live_files d" using plain by (metis takeWhile_eq_take)
    have one: "unat (1 :: u64) = 1" by simp
    have files: "\<forall>e\<in>set ?q. unat (1 :: u64) \<le> first_block e \<and> behind e \<le> unat (?nb - 1) \<and> \<not> unused_mark e"
      using directory_okD(3) [OF dok] unfolding sorted_files(2) [OF dok n31 del'] N one by (auto simp: file_ok_def N_def live_files_def)
    have same: "gap_at N ?q r s \<longleftrightarrow> gap_at N (live_files d) r s" for r s
      by (simp add: gap_at_def sorted_files(2) [OF dok n31 del'])
    have spec: "(?s = 0 \<and> (\<forall>s\<ge>1. \<not> gap_at N (live_files d) (unat req) s))
      \<or> (1 \<le> unat ?s \<and> gap_at N (live_files d) (unat req) (unat ?s)
         \<and> (\<forall>s\<ge>1. gap_at N (live_files d) (unat req) s \<longrightarrow> unat ?s \<le> s))"
      using find_gap_spec [OF sorted_files(1) [OF dok n31 del'] files _ _ req] N1 unfolding N one same by blast
    have len: "length (FileName (d ! ?n)) = 32" using True directory_okD(1,2) [OF dok] by (simp add: named32_def)
    show ?thesis
    proof (cases "?s = 0")
      case s0: True
      then have "\<forall>s\<ge>1. \<not> gap_at N (live_files d) (unat req) s" using spec by auto
      moreover have "\<exists>t. create E f maxsize (load_disk B) = Some (say t (load_disk B))"
        using found count half take True s0 by (auto simp: create_def Let_def say_def d_def [symmetric])
      ultimately show ?thesis by blast
    next
      case False
      then have "1 \<le> unat ?s" "gap_at N (live_files d) (unat req) (unat ?s)"
        "\<forall>s\<ge>1. gap_at N (live_files d) (unat req) s \<longrightarrow> unat ?s \<le> s" using spec by auto
      moreover have "\<exists>t. create E f maxsize (load_disk B) =
          Some (say t ((load_disk B)\<lparr>Directory := add_entry f ?s req d, disk := flushed (space E) (add_entry f ?s req d) (disk B)\<rparr>))"
        using found count half take True False directory_okD(1) [OF dok] len f(1)
        by (auto simp: create_def Let_def say_def d_def [symmetric] aget_def name_into_def good_name_def add_entry_def
            new_entry_def flush_def flushed_def)
      ultimately show ?thesis using True by blast
    qed
  qed
qed

end
