(* ===== verification/BmfsInit.thy ===== *)
theory BmfsInit
  imports BmfsProps
begin

text \<open>
  The command \<open>initialize\<close> of the disk tool: the image of a new disk with its boot record, boot loader and kernel.
\<close>

section \<open>Initialising a disk\<close>

lemma fread_append: "fread_at p (a + b) f = fread_at p a f @ fread_at (p + a) b f"
  unfolding fread_at_def add.assoc [symmetric] upt_add_eq_append [OF le_add1] map_append ..

lemma zero_fill_len:
  "img_len f = w \<Longrightarrow> w + t \<le> room \<Longrightarrow> \<exists>f'. zero_fill room w t f = (True, f') \<and> img_len f' = w + t"
proof (induction room w t f rule: zero_fill.induct)
  case (1 room w t f)
  show ?case
  proof (cases "t = 0")
    case True
    then show ?thesis using 1 by (simp add: zero_fill.simps)
  next
    case False
    let ?c = "min bufferSize t"
    define f1 where "f1 = snd (fwrite_at room w (replicate ?c 0) f)"
    have "w + length (replicate ?c (0 :: u8)) \<le> room" using 1(3) by simp
    then have w: "fwrite_at room w (replicate ?c 0) f = (True, f1)" "img_len f1 = w + ?c" using 1(2) by (simp_all add: fwrite_at_def f1_def)
    have "w + ?c + (t - ?c) \<le> room" using 1(3) by simp
    from 1(1) [OF False refl refl w(1) [symmetric] TrueI w(2) this] show ?thesis using w False
      by (subst zero_fill.simps) (simp add: Let_def)
  qed
qed

lemma copy_loop_copies:
  "pos + length bs \<le> room \<Longrightarrow> pos + length bs \<le> img_len f \<Longrightarrow>
     \<exists>f'. copy_loop room msg pos bs f = (True, [], pos + length bs, f') \<and> img_len f' = img_len f
       \<and> fread_at pos (length bs) f' = bs \<and> (\<forall>q n. q + n \<le> pos \<or> pos + length bs \<le> q \<longrightarrow> fread_at q n f' = fread_at q n f)"
proof (induction room msg pos bs f rule: copy_loop.induct)
  case (1 room msg pos bs f)
  show ?case
  proof (cases "bs = []")
    case True
    then show ?thesis by (simp add: copy_loop.simps fread_at_def)
  next
    case False
    let ?c = "take bufferSize bs" and ?r = "drop bufferSize bs"
    define f1 where "f1 = snd (fwrite_at room pos ?c f)"
    have l: "length ?c + length ?r = length bs" by simp
    have fits: "pos + length ?c \<le> room" "pos + length ?c \<le> img_len f" using 1(2,3) l by linarith+
    have w: "fwrite_at room pos ?c f = (True, f1)" using fits(1) by (auto simp: fwrite_at_def f1_def)
    have len: "img_len f1 = img_len f" unfolding f1_def by (rule fwrite_len [OF fits(2)])
    have "pos + length ?c + length ?r \<le> room" "pos + length ?c + length ?r \<le> img_len f1" using 1(2,3) l len by linarith+
    from 1(1) [OF False refl refl w [symmetric], unfolded if_True, OF this] obtain f' where
      f': "copy_loop room msg (pos + length ?c) ?r f1 = (True, [], pos + length ?c + length ?r, f')" "img_len f' = img_len f1"
        "fread_at (pos + length ?c) (length ?r) f' = ?r"
        "\<forall>q n. q + n \<le> pos + length ?c \<or> pos + length ?c + length ?r \<le> q \<longrightarrow> fread_at q n f' = fread_at q n f1" by blast
    have "copy_loop room msg pos bs f = (True, [], pos + length bs, f')"
      using f'(1) w False l by (subst copy_loop.simps) (simp add: Let_def del: length_take length_drop)
    moreover have "fread_at pos (length ?c) f' = ?c" using f'(4) fwrite_then_read [OF fits(1), of f, folded f1_def] by simp
    then have "fread_at pos (length bs) f' = bs" using fread_append [of pos "length ?c" "length ?r" f'] f'(3) l by simp
    moreover have "fread_at q n f' = fread_at q n f" if "q + n \<le> pos \<or> pos + length bs \<le> q" for q n
    proof -
      have "q + n \<le> pos + length ?c \<or> pos + length ?c + length ?r \<le> q" and a: "q + n \<le> pos \<or> pos + length ?c \<le> q" using that l by linarith+
      then have "fread_at q n f' = fread_at q n f1" using f'(4) by blast
      also have "\<dots> = fread_at q n f" unfolding f1_def by (rule fwrite_read_apart [OF a])
      finally show ?thesis .
    qed
    ultimately show ?thesis using f'(2) len by auto
  qed
qed

text \<open>Writing a file of the host to the disk, past the directory.\<close>

lemma write_whole_copies:
  assumes "host B name = Some bs" "pos + length bs \<le> space E" "pos + length bs \<le> img_len (disk B)"
  shows "\<exists>B'. write_whole E dn what name pos B = (True, pos + length bs, B') \<and> host B' = host B \<and> img_len (disk B') = img_len (disk B)
    \<and> fread_at pos (length bs) (disk B') = bs
    \<and> (\<forall>q n. q + n \<le> pos \<or> pos + length bs \<le> q \<longrightarrow> fread_at q n (disk B') = fread_at q n (disk B))"
proof -
  obtain f' where "copy_loop (space E) (write_failed dn) pos bs (disk B) = (True, [], pos + length bs, f')" "img_len f' = img_len (disk B)"
    "fread_at pos (length bs) f' = bs" "\<forall>q n. q + n \<le> pos \<or> pos + length bs \<le> q \<longrightarrow> fread_at q n f' = fread_at q n (disk B)"
    using copy_loop_copies [OF assms(2,3)] by blast
  then show ?thesis using assms(1) by (simp add: write_whole_def say_def)
qed

lemma system_copies:
  assumes b: "host B boot = Some bs" and k: "host B kernelf = Some ks" and room: "8192 + length bs + length ks \<le> space E"
    and len: "8192 + length bs + length ks \<le> img_len (disk B)"
  shows "\<exists>B'. write_system E dn what (Some boot) (Some kernelf) B = (True, B') \<and> host B' = host B \<and> img_len (disk B') = img_len (disk B)
    \<and> fread_at 8192 (length bs + length ks) (disk B') = bs @ ks
    \<and> (\<forall>q n. q + n \<le> 8192 \<longrightarrow> fread_at q n (disk B') = fread_at q n (disk B))"
proof -
  have fit1: "8192 + length bs \<le> space E" "8192 + length bs \<le> img_len (disk B)" using room len by linarith+
  obtain B1 where B1: "write_whole E dn (''Writing '' @ what @ '' file.'' @ line_end) boot 8192 B = (True, 8192 + length bs, B1)"
    "host B1 = host B" "img_len (disk B1) = img_len (disk B)" "fread_at 8192 (length bs) (disk B1) = bs"
    "\<forall>q n. q + n \<le> 8192 \<or> 8192 + length bs \<le> q \<longrightarrow> fread_at q n (disk B1) = fread_at q n (disk B)"
    using write_whole_copies [OF b fit1] by blast
  have fit2: "8192 + length bs + length ks \<le> img_len (disk B1)" using len B1(3) by simp
  have k1: "host B1 kernelf = Some ks" using k B1(2) by simp
  obtain B2 where B2: "write_whole E dn (''Writing kernel.'' @ line_end) kernelf (8192 + length bs) B1 = (True, 8192 + length bs + length ks, B2)"
    "host B2 = host B1" "img_len (disk B2) = img_len (disk B1)" "fread_at (8192 + length bs) (length ks) (disk B2) = ks"
    "\<forall>q n. q + n \<le> 8192 + length bs \<or> 8192 + length bs + length ks \<le> q \<longrightarrow> fread_at q n (disk B2) = fread_at q n (disk B1)"
    using write_whole_copies [OF k1 room fit2] by blast
  have "fread_at 8192 (length bs) (disk B2) = bs" using B2(5) B1(4) by simp
  then have both: "fread_at 8192 (length bs + length ks) (disk B2) = bs @ ks" unfolding fread_append using B2(4) by (simp only:)
  have keep: "fread_at q n (disk B2) = fread_at q n (disk B)" if "q + n \<le> 8192" for q n
  proof -
    have "q + n \<le> 8192 + length bs" using that by linarith
    then show ?thesis using B1(5) B2(5) that by (metis (no_types))
  qed
  have "write_system E dn what (Some boot) (Some kernelf) B = (True, B2)" 
    by (simp only: write_system_def option.case Let_def B1(1) B2(1) prod.case not_True_eq_False if_False)
  then show ?thesis using B1(2,3) B2(2,3) both keep by (intro exI [of _ B2]) simp
qed

lemma mbr_written:
  assumes "host B mbr = Some m" "512 \<le> length m" "512 \<le> img_len (disk B)" "img_len (disk B) \<le> space E"
  shows "\<exists>B'. write_mbr E dn mbr B = (True, B') \<and> host B' = host B \<and> img_len (disk B') = img_len (disk B)
    \<and> fread_at 0 512 (disk B') = take 512 m \<and> (\<forall>q n. 512 \<le> q \<longrightarrow> fread_at q n (disk B') = fread_at q n (disk B))"
proof -
  define f1 where "f1 = snd (fwrite_at (space E) 0 (take 512 m) (disk B))"
  have l: "length (take 512 m) = 512" using assms(2) by simp
  have w: "fwrite_at (space E) 0 (take 512 m) (disk B) = (True, f1)" using assms(3,4) l by (simp add: fwrite_at_def f1_def)
  have "img_len f1 = img_len (disk B)" unfolding f1_def by (rule fwrite_len) (use assms(3) l in linarith)
  moreover have "fread_at 0 512 f1 = take 512 m" using fwrite_then_read [of 0 "take 512 m" "space E" "disk B"] assms(3,4) l by (simp add: f1_def)
  moreover have "fread_at q n f1 = fread_at q n (disk B)" if "512 \<le> q" for q n
    unfolding f1_def by (rule fwrite_read_apart) (use l that in linarith)
  moreover have "write_mbr E dn mbr B = (True, (say (''Writing master boot record.'' @ line_end) B)\<lparr>disk := f1\<rparr>)"
    using w assms(1,2) by (simp add: write_mbr_def say_def)
  ultimately show ?thesis by (simp add: say_def)
qed

text \<open>
  C39: A new disk. With a size that is accepted and room on the host and on the disk, \<open>initialize\<close> writes an image of exactly that
  size: a well-formed file system without files, the first 512 bytes of the boot record at the start, and the boot loader and
  the kernel without a gap from 8 KiB on.
\<close>

theorem initialize_makes_disk:
  assumes "disk_size sz = Inr n" and "unat n \<le> space E" and "unat n div 1048576 < 2 ^ 32" and "can_write E dn" and "can_malloc E"
    and "host B mbr = Some m" and "512 \<le> length m" and "host B boot = Some bs" and "host B kernelf = Some ks"
    and "8192 + length bs + length ks \<le> unat n"
  shows "\<exists>B'. bmfs_main E ex [prog, dn, ''initialize'', sz, mbr, boot, kernelf] B = Some (0, B') \<and> image_ok (disk B')
    \<and> img_len (disk B') = unat n \<and> file_map (disk B') = Map.empty \<and> fread_at 0 512 (disk B') = take 512 m
    \<and> fread_at 8192 (length bs + length ks) (disk B') = bs @ ks \<and> host B' = host B"
proof -
  obtain f0 where z: "zero_fill (space E) 0 (unat n) \<lparr>img_byte = (\<lambda>_. 0), img_len = 0\<rparr> = (True, f0)" "img_len f0 = unat n"
    using zero_fill_len [of "\<lparr>img_byte = (\<lambda>_. 0), img_len = 0\<rparr>" 0 "unat n" "space E"] assms(2) by auto
  define B0 where "B0 = B\<lparr>disk := f0\<rparr>"
  have c: "create_disk E dn n B = (True, format_disk E B0)" by (simp add: create_disk_def z(1) B0_def)
  have h: "8192 \<le> img_len (disk B0)" "img_len (disk B0) \<le> space E" "img_len (disk B0) div 1048576 < 2 ^ 32"
    using z(2) assms(2,3,10) by (simp_all add: B0_def)
  note F = format_refines [OF h]
  let ?B1 = "format_disk E B0"
  have F': "img_len (disk ?B1) = unat n" "host ?B1 = host B" using F(3,4) z(2) by (simp_all add: B0_def)
  have "host ?B1 mbr = Some m" "512 \<le> img_len (disk ?B1)" "img_len (disk ?B1) \<le> space E" using F' assms(2,6,10) by simp_all
  from mbr_written [OF this(1) assms(7) this(2,3)] obtain B2 where B2: "write_mbr E dn mbr ?B1 = (True, B2)" "host B2 = host B"
    "img_len (disk B2) = unat n" "fread_at 0 512 (disk B2) = take 512 m" "\<forall>q n. 512 \<le> q \<longrightarrow> fread_at q n (disk B2) = fread_at q n (disk ?B1)"
    using F' by metis
  have "host B2 boot = Some bs" "host B2 kernelf = Some ks" "8192 + length bs + length ks \<le> space E" "8192 + length bs + length ks \<le> img_len (disk B2)"
    using B2(2,3) assms by simp_all
  from system_copies [OF this] obtain B3 where B3: "write_system E dn ''boot loader'' (Some boot) (Some kernelf) B2 = (True, B3)" "host B3 = host B"
    "img_len (disk B3) = unat n" "fread_at 8192 (length bs + length ks) (disk B3) = bs @ ks"
    "\<forall>q n. q + n \<le> 8192 \<longrightarrow> fread_at q n (disk B3) = fread_at q n (disk B2)"
    using B2(2,3) by metis
  have init: "initialize E dn sz (Some mbr) (Some boot) (Some kernelf) B = (0, say (''Disk initialization complete.'' @ line_end) B3)"
    using assms(1,4-6,8,9) by (simp add: initialize_def on_success_def need_def can_read_def c B2(1) B3(1))
  have same: "fread_at q k (disk B3) = fread_at q k (disk ?B1)" if "512 \<le> q" "q + k \<le> 8192" for q k
    using B2(5) B3(5) that by simp
  have dir: "directory_of (disk B3) = directory_of (disk ?B1)" by (simp add: directory_of_def same)
  have "image_ok (disk B3)" using F(1) F'(1) B3(3) dir same [of 1024 512] by (simp add: image_ok_def)
  moreover have "file_map (disk B3) = Map.empty" by (simp add: file_map_def dir F(5))
  moreover have "fread_at 0 512 (disk B3) = take 512 m" using B3(5) B2(4) by simp
  moreover have "strcaseeq ''initialize'' ''initialize''" by (simp add: strcaseeq_def)
  ultimately show ?thesis using init B3(2-4) by (simp add: bmfs_main_def say_def)
qed

definition demo_host :: host_env where
  "demo_host = \<lparr>can_write = (\<lambda>_. True), can_malloc = True, space = 16777216, stdin_line = []\<rparr>"

theorem initialize_makes_disk_witness:
  "\<exists>B'. bmfs_main demo_host False [''bmfs'', ''disk'', ''initialize'', ''6M'', ''mbr'', ''boot'', ''kernel'']
     \<lparr>host = [''mbr'' \<mapsto> replicate 512 85, ''boot'' \<mapsto> [1, 2], ''kernel'' \<mapsto> [3]], disk = \<lparr>img_byte = (\<lambda>_. 0), img_len = 0\<rparr>, disksize = 0,
       DiskInfo = [], Directory = [], shown = []\<rparr> = Some (0, B')
     \<and> image_ok (disk B') \<and> img_len (disk B') = 6291456 \<and> fread_at 8192 3 (disk B') = [1, 2, 3]"
proof -
  have sz: "disk_size ''6M'' = Inr 6291456" by code_simp
  let ?B = "\<lparr>host = [''mbr'' \<mapsto> replicate 512 85, ''boot'' \<mapsto> [1, 2], ''kernel'' \<mapsto> [3]], disk = \<lparr>img_byte = (\<lambda>_. 0), img_len = 0\<rparr>,
      disksize = 0, DiskInfo = [], Directory = [], shown = []\<rparr>"
  have f: "host ?B ''mbr'' = Some (replicate 512 85)" "host ?B ''boot'' = Some [1, 2]" "host ?B ''kernel'' = Some [3]" by simp_all
  show ?thesis
    using initialize_makes_disk [OF sz _ _ _ _ f(1) _ f(2,3), of demo_host "''disk''" False "''bmfs''"] by (auto simp: demo_host_def numeral_3_eq_3)
qed

end
