(* ===== verification/BmfsTool.thy ===== *)
theory BmfsTool
  imports BmfsInit
begin

text \<open>
  The disk tool as an abstract file system: its commands read and update the map that the image stands for; a new file goes
  where it first fits; and the two situations in which the tool gives a new file the blocks of another one.
\<close>

section \<open>The tool and its file system\<close>

text \<open>
  C37: The disk tool is an abstract file system. On every well-formed image that the host has room for, \<open>write\<close> binds an existing
  name to the contents of the local file, if its blocks are enough, and leaves every other file alone; \<open>read\<close> gives the local
  file exactly what the name is bound to and leaves the image alone; \<open>delete\<close> removes the binding only; the image stays
  well-formed; and for a name that is not bound none of the three changes anything. None of these runs ends in a fault. The
  local file that is written, and the contents that are read, have at most \<open>2 ^ 31 - 1\<close> bytes: beyond that the counter of the
  copying loops overflows (\<open>bmfs.c:742\<close>).
\<close>

theorem disk_is_a_map:
  assumes "image_ok (disk B)" and "img_len (disk B) \<le> space E" and "nul \<notin> set f"
  shows "case file_map (disk B) f of
      None \<Rightarrow> \<forall>cmd\<in>{''write'', ''read'', ''delete''}. \<exists>B'. bmfs_main E True [prog, dn, cmd, f] B = Some (0, B')
        \<and> disk B' = disk B \<and> host B' = host B
    | Some old \<Rightarrow>
        (\<forall>bs. host B f = Some bs \<and> length bs \<le> room_of (disk B) f \<and> length bs \<le> INT_MAX \<longrightarrow>
          (\<exists>B'. bmfs_main E True [prog, dn, ''write'', f] B = Some (0, B') \<and> image_ok (disk B') \<and> img_len (disk B') = img_len (disk B)
            \<and> file_map (disk B') = (file_map (disk B))(f \<mapsto> bs) \<and> host B' = host B))
      \<and> (can_write E f \<and> length old \<le> INT_MAX \<longrightarrow>
          (\<exists>B'. bmfs_main E True [prog, dn, ''read'', f] B = Some (0, B') \<and> disk B' = disk B \<and> host B' = (host B)(f \<mapsto> old)))
      \<and> (\<exists>B'. bmfs_main E True [prog, dn, ''delete'', f] B = Some (0, B') \<and> image_ok (disk B') \<and> img_len (disk B') = img_len (disk B)
          \<and> file_map (disk B') = (file_map (disk B))(f := None) \<and> host B' = host B)"
proof (cases "file_map (disk B) f")
  case None
  show ?thesis
    using absent_refines [OF assms(1,3) None, of E] unfolding None by (auto simp: run_commands [OF image_okD(2) [OF assms(1)]])
next
  case (Some old)
  then have m: "file_map (disk B) f \<noteq> None" by simp
  note run = run_commands [OF image_okD(2) [OF assms(1)]]
  show ?thesis
    unfolding Some option.case run
  proof (intro conjI allI impI)
    fix bs assume "host B f = Some bs \<and> length bs \<le> room_of (disk B) f \<and> length bs \<le> INT_MAX"
    then show "\<exists>B'. map_option (Pair 0) (write_to_disk E (Some f) (load_disk B)) = Some (0, B') \<and> image_ok (disk B')
        \<and> img_len (disk B') = img_len (disk B) \<and> file_map (disk B') = (file_map (disk B))(f \<mapsto> bs) \<and> host B' = host B"
      using write_refines [OF assms m] by fastforce
  next
    assume "can_write E f \<and> length old \<le> INT_MAX"
    then show "\<exists>B'. map_option (Pair 0) (read_file E (Some f) (load_disk B)) = Some (0, B') \<and> disk B' = disk B \<and> host B' = (host B)(f \<mapsto> old)"
      using read_refines [OF assms(1,3) Some] by fastforce
  next
    show "\<exists>B'. map_option (Pair 0) (delete_file E (Some f) (load_disk B)) = Some (0, B') \<and> image_ok (disk B')
        \<and> img_len (disk B') = img_len (disk B) \<and> file_map (disk B') = (file_map (disk B))(f := None) \<and> host B' = host B"
      using delete_refines [OF assms m] by fastforce
  qed
qed

text \<open>
  C38: First fit. On a well-formed image without deleted files, \<open>create\<close> with a new name and a size of \<open>n\<close> MiB reserves the
  lowest run of free blocks that is long enough, binds the name to the empty contents and leaves the other files alone; it
  leaves the image as it is exactly when the directory is full or no run of free blocks is long enough.
\<close>

theorem create_takes_first_gap:
  assumes "image_ok (disk B)" and "none_deleted (directory_of (disk B))" and "good_name f" and "file_map (disk B) f = None"
    and "4194304 \<le> img_len (disk B)" and "img_len (disk B) \<le> space E" and "atoi_int sz = Some n" and "1 \<le> n"
  shows "\<exists>B'. bmfs_main E True [prog, dn, ''create'', f, sz] B = Some (0, B') \<and> host B' = host B \<and>
    (let files = live_files (directory_of (disk B)); req = (nat n + 1) div 2;
         free = (\<lambda>s. 1 \<le> s \<and> gap_at (img_len (disk B) div 2097152 - 1) files req s)
     in if length files < 64 \<and> (\<exists>s. free s)
        then image_ok (disk B') \<and> none_deleted (directory_of (disk B')) \<and> img_len (disk B') = img_len (disk B)
          \<and> file_map (disk B') = (file_map (disk B))(f \<mapsto> []) \<and> room_of (disk B') f = req * 2097152
          \<and> (\<exists>e. live_files (directory_of (disk B')) = files @ [e] \<and> entry_name e = f \<and> first_block e = (LEAST s. free s))
        else disk B' = disk B)"
proof -
  let ?d = "directory_of (disk B)" and ?req = "(nat n + 1) div 2" and ?N = "img_len (disk B) div 2097152 - 1"
  note run = run_commands(4) [OF image_okD(2) [OF assms(1)]]
  have n: "n < 2 ^ 31" using assms(7) by (auto simp: atoi_int_def Let_def split: if_splits prod.splits)
  then have m: "unat (word_of_int n :: u64) = nat n" using assms(8) by (simp add: unsigned_of_int take_bit_int_eq_self)
  have sized: "create_sized E f sz (load_disk B) = create E f (word_of_int n) (load_disk B)"
    using assms(7,8) by (simp add: create_sized_def)
  have req: "unat (of_nat ((unat (word_of_int n :: u64) + 1) div 2) :: u64) = ?req" using n by (simp add: m unat_of_nat_small)
  have "1 \<le> unat (word_of_int n :: u64)" "unat (word_of_int n :: u64) < 2 ^ 31" using n assms(8) m by simp_all
  from create_decides [OF assms(1-5) this, of E, unfolded req] show ?thesis
  proof (elim disjE conjE exE)
    fix t assume none: "length (live_files ?d) < 64 \<longrightarrow> (\<forall>s\<ge>1. \<not> gap_at ?N (live_files ?d) ?req s)"
      and c: "create E f (word_of_int n) (load_disk B) = Some (say t (load_disk B))"
    have "\<not> (length (live_files ?d) < 64 \<and> (\<exists>s. 1 \<le> s \<and> gap_at ?N (live_files ?d) ?req s))" using none by blast
    then show ?thesis unfolding run sized c by (simp add: say_def Let_def)
  next
    fix s t
    let ?r = "of_nat ((unat (word_of_int n :: u64) + 1) div 2) :: u64"
    let ?d' = "add_entry f s ?r ?d"
    assume room: "length (live_files ?d) < 64" and s: "1 \<le> unat s" "gap_at ?N (live_files ?d) ?req (unat s)"
      "\<forall>s'\<ge>1. gap_at ?N (live_files ?d) ?req s' \<longrightarrow> unat s \<le> s'"
      and c: "create E f (word_of_int n) (load_disk B) =
        Some (say t ((load_disk B)\<lparr>Directory := ?d', disk := flushed (space E) ?d' (disk B)\<rparr>))"
    note dok = image_okD(3) [OF assms(1)]
    let ?e = "new_entry f s ?r (?d ! length (live_files ?d))"
    have r1: "1 \<le> unat ?r" unfolding req using assms(8) by simp
    have new: "\<forall>e\<in>set (live_files ?d). entry_name e \<noteq> f" using assms(4) by (auto simp: file_map_def map_of_eq_None_iff image_image)
    note a = add_entry_live [OF dok assms(2) room assms(3), of s ?r]
    have ok': "directory_ok (img_len (disk B) div 2097152) ?d'"
      using add_entry_ok [OF dok assms(2) room assms(3) new _ s(1) r1] s(2) unfolding req by blast
    note fin = flushed_ok [OF assms(1,6) ok']
    note img = flushed_image [OF image_okD(1) [OF assms(1)] assms(6) directory_okD(1,2) [OF ok']]
    have "length (FileName (?d ! length (live_files ?d))) = 32" using room directory_okD(1,2) [OF dok] by (simp add: named32_def)
    note e = new_entry_ok [OF this assms(3), of s ?r]
    have rb: "ReservedBlocks ?e = ?r" by (simp add: new_entry_def)
    have "stored (disk B) ?e = []" by (simp add: stored_def new_entry_def fread_at_def)
    then have "file_map (flushed (space E) ?d' (disk B)) = (file_map (disk B))(f \<mapsto> [])"
      using map_of_behind [of "map (\<lambda>e. (entry_name e, stored (disk B) e)) (live_files ?d)" f "[]"] assms(4) e(2)
      unfolding fin(2) a(1) by (simp add: file_map_def)
    moreover have "find (\<lambda>e. entry_name e = f) (live_files ?d @ [?e]) = Some ?e"
      by (rule find_behind) (use new e(2) in simp_all)
    then have "room_of (flushed (space E) ?d' (disk B)) f = ?req * 2097152"
      unfolding room_of_def img(1) a(1) by (simp only: option.case rb req)
    moreover have "first_block ?e = (LEAST s. 1 \<le> s \<and> gap_at ?N (live_files ?d) ?req s)"
      using s by (intro Least_equality [symmetric]) (auto simp: new_entry_def)
    moreover have "\<exists>s. 1 \<le> s \<and> gap_at ?N (live_files ?d) ?req s" using s by blast
    ultimately show ?thesis
      unfolding run sized c using fin(1) img(1,2) a(1,4) e(2) room by (simp add: say_def Let_def)
  qed
qed

section \<open>A small disk\<close>

text \<open>An image of 16 MiB, just formatted, and a local file.\<close>

definition blank_disk :: bmfs where
  "blank_disk =
     \<lparr>host = [''a'' \<mapsto> [1, 2, 3]], disk = \<lparr>img_byte = (\<lambda>_. 0), img_len = 16777216\<rparr>, disksize = 0, DiskInfo = [], Directory = [], shown = []\<rparr>"

definition demo_disk :: bmfs where "demo_disk = format_disk demo_host blank_disk"

lemma demo_disk_ok:
  "image_ok (disk demo_disk)" "file_map (disk demo_disk) = Map.empty" "img_len (disk demo_disk) = 16777216"
  "live_files (directory_of (disk demo_disk)) = []" "none_deleted (directory_of (disk demo_disk))" "host demo_disk = [''a'' \<mapsto> [1, 2, 3]]"
proof -
  have "8192 \<le> img_len (disk blank_disk)" "img_len (disk blank_disk) \<le> space demo_host" "img_len (disk blank_disk) div 1048576 < 2 ^ 32"
    by (simp_all add: blank_disk_def demo_host_def)
  note f = format_refines [OF this, folded demo_disk_def]
  show "image_ok (disk demo_disk)" "file_map (disk demo_disk) = Map.empty" "live_files (directory_of (disk demo_disk)) = []"
    "none_deleted (directory_of (disk demo_disk))" by (fact f(1), fact f(2), fact f(5), fact f(6)[folded none_deleted_def])
  show "img_len (disk demo_disk) = 16777216" "host demo_disk = [''a'' \<mapsto> [1, 2, 3]]" using f(3,4) by (simp_all add: blank_disk_def)
qed

theorem create_takes_first_gap_witness:
  "\<exists>B'. bmfs_main demo_host True [''bmfs'', ''disk'', ''create'', ''a'', ''4''] demo_disk = Some (0, B') \<and> image_ok (disk B')
     \<and> img_len (disk B') = 16777216 \<and> host B' = host demo_disk
     \<and> file_map (disk B') = [''a'' \<mapsto> []] \<and> room_of (disk B') ''a'' = 4194304"
proof -
  have name: "good_name ''a''" by (simp add: good_name_def)
  have sz: "atoi_int ''4'' = Some 4" by code_simp
  have "gap_at 7 [] 2 (Suc 0)" by (simp add: gap_at_def)
  then have "\<exists>s\<ge>Suc 0. gap_at 7 [] 2 s" by blast
  then show ?thesis
    using create_takes_first_gap [OF demo_disk_ok(1,5) name _ _ _ sz, of demo_host "''bmfs''" "''disk''"] demo_disk_ok
    by (auto simp: demo_host_def Let_def)
qed

lemma demo_disk_created:
  "\<exists>B' :: bmfs. image_ok (disk B') \<and> img_len (disk B') = 16777216 \<and> host B' = [''a'' \<mapsto> [1, 2, 3]] \<and> file_map (disk B') ''a'' = Some []
     \<and> room_of (disk B') ''a'' = 4194304"
proof -
  define f where "f = flushed 16777216 (add_entry ''a'' 1 2 (directory_of (disk demo_disk))) (disk demo_disk)"
  have name: "good_name ''a''" by (simp add: good_name_def)
  note d = demo_disk_ok
  have dok: "directory_ok 8 (directory_of (disk demo_disk))" using image_okD(3) [OF d(1)] d(3) by simp
  have ok': "directory_ok 8 (add_entry ''a'' 1 2 (directory_of (disk demo_disk)))"
    by (rule add_entry_ok [OF dok d(5) _ name]) (simp_all add: d(4) gap_at_def)
  have len: "length (live_files (directory_of (disk demo_disk))) < 64" by (simp add: d(4))
  note a = add_entry_live [OF dok d(5) len name, of 1 2]
  have room: "img_len (disk demo_disk) \<le> 16777216" by (simp add: d(3))
  have ok8: "directory_ok (img_len (disk demo_disk) div 2097152) (add_entry ''a'' 1 2 (directory_of (disk demo_disk)))" using ok' d(3) by simp
  note fin = flushed_ok [OF d(1) room ok8] and img = flushed_image [OF image_okD(1) [OF d(1)] room a(3,2)]
  have "length (FileName (directory_of (disk demo_disk) ! 0)) = 32" using directory_okD(1,2) [OF dok] by (simp add: named32_def)
  note e = new_entry_ok [OF this name, of 1 2]
  have "file_map f ''a'' = Some []" "room_of f ''a'' = 4194304" "img_len f = 16777216"
    unfolding f_def room_of_def fin(2) img(1,2) a(1) using e(2) by (simp_all add: d(3,4) stored_def new_entry_def fread_at_def)
  then show ?thesis using fin(1) by (intro exI [of _ "demo_disk\<lparr>disk := f\<rparr>"]) (simp add: f_def d(6))
qed

theorem disk_is_a_map_witness:
  "\<exists>B B' B''. bmfs_main demo_host True [''bmfs'', ''disk'', ''write'', ''a''] B = Some (0, B') \<and> host B ''a'' = Some [1, 2, 3]
     \<and> bmfs_main demo_host True [''bmfs'', ''disk'', ''read'', ''a''] (B'\<lparr>host := Map.empty\<rparr>) = Some (0, B'')
     \<and> host B'' ''a'' = Some [1, 2, 3]"
proof -
  obtain B :: bmfs where B: "image_ok (disk B)" "img_len (disk B) = 16777216" "host B = [''a'' \<mapsto> [1, 2, 3]]" "file_map (disk B) ''a'' = Some []"
    "room_of (disk B) ''a'' = 4194304" using demo_disk_created by blast
  have sp: "img_len (disk B) \<le> space demo_host" "nul \<notin> set ''a''" using B(2) by (simp_all add: demo_host_def)
  have "\<exists>B'. bmfs_main demo_host True [''bmfs'', ''disk'', ''write'', ''a''] B = Some (0, B') \<and> image_ok (disk B')
      \<and> img_len (disk B') = img_len (disk B) \<and> file_map (disk B') ''a'' = Some [1, 2, 3]"
    using disk_is_a_map [OF B(1) sp, of "''bmfs''" "''disk''"] B(3-5) by fastforce
  then obtain B' where w: "bmfs_main demo_host True [''bmfs'', ''disk'', ''write'', ''a''] B = Some (0, B')" and ok': "image_ok (disk B')"
    and len': "img_len (disk B') = img_len (disk B)" and m': "file_map (disk B') ''a'' = Some [1, 2, 3]" by blast
  let ?B = "B'\<lparr>host := Map.empty\<rparr>"
  have "image_ok (disk ?B)" "img_len (disk ?B) \<le> space demo_host" using ok' len' sp by simp_all
  from disk_is_a_map [OF this sp(2), of "''bmfs''" "''disk''"] m'
  have "\<exists>B''. bmfs_main demo_host True [''bmfs'', ''disk'', ''read'', ''a''] ?B = Some (0, B'') \<and> host B'' ''a'' = Some [1, 2, 3]"
    by (fastforce simp: demo_host_def)
  then show ?thesis using w B(3) by (metis fun_upd_same)
qed

section \<open>Two ways to lose a file\<close>

text \<open>The entries of two files in blocks 1 to 2 and 3 to 5 of a disk of 16 MiB, the first of them deleted.\<close>

definition file_entry :: "u8 \<Rightarrow> u64 \<Rightarrow> u64 \<Rightarrow> BMFSEntry" where
  "file_entry b s r = \<lparr>FileName = b # replicate 31 0, StartingBlock = s, ReservedBlocks = r, FileSize = 0, Unused = 0\<rparr>"

text \<open>
  The blocks of a deleted file are looked at once more, behind all the others: a new file of three blocks is put into the
  blocks of the file that is still there.
\<close>

lemma create_over_a_file:
  "find_gap 8 3 1 (qsort StartingBlockCmp [file_entry 1 1 2, file_entry 98 3 3]) = 3"
  by code_simp

text \<open>In a directory without an end mark the search for a gap sees no file at all.\<close>

lemma create_in_full_directory:
  assumes "\<forall>e\<in>set es. \<not> end_mark e \<and> \<not> unused_mark e" and "unused_mark x"
  shows "count_entries 0 None (x # es) = (0, Some 0)"
proof -
  have "count_entries i (Some k) es = (0, Some k)" for i k using assms(1) by (induction es arbitrary: i) auto
  moreover have "\<not> end_mark x" using assms(2) by (simp add: unused_mark_def end_mark_def)
  ultimately show ?thesis using assms(2) by simp
qed

text \<open>The check for an overflow of the size misses most of them: thirty million terabytes are taken for eleven and a half.\<close>

lemma size_overflow_missed: "disk_size ''30000000000000000000'' = Inr 11553255926290448384"
  by code_simp

end
