(* ===== verification/UserTests.thy ===== *)
theory UserTests
  imports UserTools LibC
begin

text \<open>
  The test programs of \<open>Userland/UserApps/Tests\<close>, over any kernel: \<open>syscall.c\<close>, \<open>test_util.c\<close>, \<open>test_mm.c\<close>,
  \<open>test_prio.c\<close>, \<open>test_processes.c\<close> and the start of \<open>test_sync.c\<close>. The static variables of the random
  generator and the memory of the process are threaded through.
\<close>

section \<open>syscall.c\<close>

definition my_getpid :: "'w kernel_calls \<Rightarrow> 'w \<Rightarrow> (u64 \<times> 'w) option" where
  "my_getpid k w = ask k Sys_getPid w"

definition my_create_process ::
  "'w kernel_calls \<Rightarrow> string \<Rightarrow> symbol \<Rightarrow> u32 \<Rightarrow> string list \<Rightarrow> u16 list option \<Rightarrow> bool \<Rightarrow> 'w \<Rightarrow> (u64 \<times> 'w) option" where
  "my_create_process k name main argc av fs fg w = ask k (Sys_createProcess name main argc av fs fg) w"

definition my_nice :: "'w kernel_calls \<Rightarrow> u64 \<Rightarrow> u64 \<Rightarrow> 'w \<Rightarrow> (u64 \<times> 'w) option" where
  "my_nice k pid newPrio w = do { w \<leftarrow> tell k (Sys_changeProcessPriority pid (ucast newPrio)) w; Some (0, w) }"

definition my_kill :: "'w kernel_calls \<Rightarrow> u64 \<Rightarrow> 'w \<Rightarrow> (u32 \<times> 'w) option" where
  "my_kill k pid w = do { (r, w) \<leftarrow> ask k (Sys_deleteProcess pid) w; Some (ucast r, w) }"

definition my_block :: "'w kernel_calls \<Rightarrow> u64 \<Rightarrow> 'w \<Rightarrow> (u64 \<times> 'w) option" where
  "my_block k pid w = do { w \<leftarrow> tell k (Sys_blockProcess pid) w; Some (0, w) }"

definition my_unblock :: "'w kernel_calls \<Rightarrow> u64 \<Rightarrow> 'w \<Rightarrow> (u64 \<times> 'w) option" where
  "my_unblock k pid w = do { w \<leftarrow> tell k (Sys_unblockProcess pid) w; Some (0, w) }"

definition my_sem_open :: "'w kernel_calls \<Rightarrow> string \<Rightarrow> u32 \<Rightarrow> 'w \<Rightarrow> (ptr \<times> 'w) option" where
  "my_sem_open k sem_id initialValue w = ask k (Sys_semOpen sem_id initialValue) w"

definition my_sem_wait :: "'w kernel_calls \<Rightarrow> ptr \<Rightarrow> 'w \<Rightarrow> 'w option" where
  "my_sem_wait k sem w = tell k (Sys_semWait sem) w"

definition my_sem_post :: "'w kernel_calls \<Rightarrow> ptr \<Rightarrow> 'w \<Rightarrow> 'w option" where
  "my_sem_post k sem w = tell k (Sys_semPost sem) w"

definition my_sem_close :: "'w kernel_calls \<Rightarrow> ptr \<Rightarrow> 'w \<Rightarrow> 'w option" where
  "my_sem_close k sem w = tell k (Sys_semClose sem) w"

definition my_yield :: "'w kernel_calls \<Rightarrow> 'w \<Rightarrow> (u64 \<times> 'w) option" where
  "my_yield k w = do { w \<leftarrow> tell k Sys_yield w; Some (0, w) }"

definition my_wait :: "'w kernel_calls \<Rightarrow> u64 \<Rightarrow> 'w \<Rightarrow> (u64 \<times> 'w) option" where
  "my_wait k pid w = do { (_, w) \<leftarrow> ask k (Sys_waitPid pid) w; Some (0, w) }"

section \<open>test_util.c\<close>

type_synonym rng = "u32 \<times> u32"

definition rng_start :: rng where "rng_start = (362436069, 521288629)"

definition GetUint :: "rng \<Rightarrow> u32 \<times> rng" where
  "GetUint r =
     (let m_z = 36969 * (fst r AND 65535) + drop_bit 16 (fst r);
          m_w = 18000 * (snd r AND 65535) + drop_bit 16 (snd r)
      in (push_bit 16 m_z + m_w, (m_z, m_w)))"

text \<open>
  Double precision. The constant of \<open>GetUniform\<close> is the double \<open>0x7FFFFFFF * 2 ^ -63\<close>, and the sum and the
  conversions in front of the two products are exact; so both products are natural numbers in the unit \<open>2 ^ -63\<close>, rounded to 53
  significant bits, ties to even.
\<close>

fun bits :: "nat \<Rightarrow> nat" where
  "bits n = (if n = 0 then 0 else Suc (bits (n div 2)))"

declare bits.simps [simp del]

definition to_double :: "nat \<Rightarrow> nat" where
  "to_double n =
     (let e = bits n - 53; q = n div 2 ^ e; r = n mod 2 ^ e
      in (if 2 * r > 2 ^ e \<or> (2 * r = 2 ^ e \<and> odd q) then q + 1 else q) * 2 ^ e)"

definition GetUniform :: "u32 \<Rightarrow> rng \<Rightarrow> u32 \<times> rng" where
  "GetUniform mx r =
     (let (u, r) = GetUint r
      in (of_nat (to_double (to_double ((unat u + 1) * 0x7FFFFFFF) * unat mx) div 2 ^ 63), r))"

fun memcheck_loop :: "ptr \<Rightarrow> u8 \<Rightarrow> nat \<Rightarrow> memory \<Rightarrow> u8" where
  "memcheck_loop p v 0 m = 1"
| "memcheck_loop p v (Suc n) m = (if m p \<noteq> v then 0 else memcheck_loop (p + 1) v n m)"

definition memcheck :: "ptr \<Rightarrow> u8 \<Rightarrow> u32 \<Rightarrow> memory \<Rightarrow> u8" where
  "memcheck start v sz m = memcheck_loop start v (unat sz) m"

fun satoi_loop :: "string \<Rightarrow> u64 \<Rightarrow> u64 \<Rightarrow> u64 option" where
  "satoi_loop [] res sign = None"
| "satoi_loop (c # cs) res sign =
     (if c = nul then Some (res * sign)
      else if schar c < 48 \<or> schar c > 57 then Some 0
      else satoi_loop cs (res * 10 + of_int (schar c) - 48) sign)"

text \<open>The null pointer is \<open>None\<close>.\<close>

definition satoi :: "string option \<Rightarrow> u64 option" where
  "satoi str =
     (case str of
        None \<Rightarrow> Some 0
      | Some s \<Rightarrow> do { c \<leftarrow> aget s 0; if c = CHR ''-'' then satoi_loop (tl s) 0 (-1) else satoi_loop s 0 1 })"

text \<open>The loops that only pass the time do nothing that can be seen; \<open>endless_loop\<close> does not even end.\<close>

definition bussy_wait :: "u64 \<Rightarrow> 'w \<Rightarrow> 'w option" where
  "bussy_wait n w = Some w"

partial_function (option) endless_print :: "'w kernel_calls \<Rightarrow> u64 \<Rightarrow> u64 \<Rightarrow> 'w \<Rightarrow> 'w option" where
  "endless_print k pid wait w =
     do { w \<leftarrow> printf k ''%d '' [AInt (ucast pid)] w; w \<leftarrow> bussy_wait wait w; endless_print k pid wait w }"

definition endless_loop_print :: "'w kernel_calls \<Rightarrow> u64 \<Rightarrow> 'w \<Rightarrow> 'w option" where
  "endless_loop_print k wait w = do { (pid, w) \<leftarrow> my_getpid k w; endless_print k pid wait w }"

section \<open>test_mm.c\<close>

abbreviation MAX_BLOCKS :: nat where "MAX_BLOCKS \<equiv> 128"

record mm_rq =
  address :: ptr
  mm_size :: u32

text \<open>Requests go on until there are enough; one that is refused is made again with another size.\<close>

partial_function (option) request_loop ::
  "'w kernel_calls \<Rightarrow> u64 \<Rightarrow> mm_rq list \<Rightarrow> u32 \<Rightarrow> rng \<Rightarrow> 'w \<Rightarrow> (mm_rq list \<times> rng \<times> 'w) option" where
  "request_loop k max_memory rqs tot r w =
     (if length rqs < MAX_BLOCKS \<and> ucast tot < max_memory then
        do {
          let u = GetUniform (ucast (max_memory - ucast tot - 1)) r;
          let sz = fst u + 1;
          (p, w) \<leftarrow> mem_alloc k (ucast sz) w;
          if p \<noteq> NULL
          then request_loop k max_memory (rqs @ [\<lparr>address = p, mm_size = sz\<rparr>]) (tot + sz) (snd u) w
          else request_loop k max_memory rqs tot (snd u) w
        }
      else Some (rqs, r, w))"

fun set_blocks :: "nat \<Rightarrow> mm_rq list \<Rightarrow> memory \<Rightarrow> memory" where
  "set_blocks i [] m = m"
| "set_blocks i (b # bs) m =
     set_blocks (Suc i) bs (if address b \<noteq> NULL then memset (address b) (of_nat i) (ucast (mm_size b)) m else m)"

fun check_blocks :: "nat \<Rightarrow> mm_rq list \<Rightarrow> memory \<Rightarrow> bool" where
  "check_blocks i [] m = True"
| "check_blocks i (b # bs) m =
     (if address b \<noteq> NULL \<and> memcheck (address b) (of_nat i) (mm_size b) m = 0 then False else check_blocks (Suc i) bs m)"

fun free_blocks :: "'w kernel_calls \<Rightarrow> mm_rq list \<Rightarrow> 'w \<Rightarrow> 'w option" where
  "free_blocks k [] w = Some w"
| "free_blocks k (b # bs) w =
     do { w \<leftarrow> (if address b \<noteq> NULL then mem_free k (address b) w else Some w); free_blocks k bs w }"

text \<open>One turn of the outer loop; the first result says whether it goes on.\<close>

definition mm_round :: "'w kernel_calls \<Rightarrow> u64 \<Rightarrow> rng \<Rightarrow> memory \<Rightarrow> 'w \<Rightarrow> (bool \<times> rng \<times> memory \<times> 'w) option" where
  "mm_round k max_memory r m w =
     do {
       (rqs, r, w) \<leftarrow> request_loop k max_memory [] 0 r w;
       let m = set_blocks 0 rqs m;
       if \<not> check_blocks 0 rqs m
       then do { w \<leftarrow> printf k (''test_mm ERROR'' @ [newline]) [] w; Some (False, r, m, w) }
       else do { w \<leftarrow> free_blocks k rqs w; Some (True, r, m, w) }
     }"

partial_function (option) mm_loop :: "'w kernel_calls \<Rightarrow> u64 \<Rightarrow> rng \<Rightarrow> memory \<Rightarrow> 'w \<Rightarrow> (u64 \<times> rng \<times> memory \<times> 'w) option" where
  "mm_loop k max_memory r m w =
     do {
       (on, r, m, w) \<leftarrow> mm_round k max_memory r m w;
       if on then mm_loop k max_memory r m w else Some (-1, r, m, w)
     }"

definition test_mm :: "'w kernel_calls \<Rightarrow> string list \<Rightarrow> rng \<Rightarrow> memory \<Rightarrow> 'w \<Rightarrow> (u64 \<times> rng \<times> memory \<times> 'w) option" where
  "test_mm k av r m w =
     (if length av \<noteq> 1 then Some (-1, r, m, w)
      else do {
        max_memory \<leftarrow> satoi (Some (av ! 0 @ [nul]));
        if max_memory \<le> 0 then Some (-1, r, m, w) else mm_loop k max_memory r m w
      })"

section \<open>test_prio.c\<close>

abbreviation TOTAL_PROCESSES :: nat where "TOTAL_PROCESSES \<equiv> 3"

definition prio :: "u64 list" where "prio = [0, 1, 2]"

definition test_fds :: "u16 list" where "test_fds = [0, 1, 2]"

text \<open>The process: it counts up to the static \<open>max_value\<close>, which nothing can see, and says so.\<close>

definition zero_to_max :: "'w kernel_calls \<Rightarrow> 'w \<Rightarrow> 'w option" where
  "zero_to_max k w = do { (pid, w) \<leftarrow> my_getpid k w; printf k (''PROCESS %d DONE!'' @ [newline]) [AInt (ucast pid)] w }"

definition start_counter :: "'w kernel_calls \<Rightarrow> 'w \<Rightarrow> (u64 \<times> 'w) option" where
  "start_counter k w = my_create_process k ''zero_to_max'' ''zero_to_max'' 0 [] (Some test_fds) False w"

text \<open>The three loops over the processes: start, start and set priorities, block first.\<close>

fun prio_start :: "'w kernel_calls \<Rightarrow> nat \<Rightarrow> 'w \<Rightarrow> (u64 list \<times> 'w) option" where
  "prio_start k 0 w = Some ([], w)"
| "prio_start k (Suc n) w = do { (p, w) \<leftarrow> start_counter k w; (pids, w) \<leftarrow> prio_start k n w; Some (p # pids, w) }"

fun prio_nice :: "'w kernel_calls \<Rightarrow> bool \<Rightarrow> u64 list \<Rightarrow> 'w \<Rightarrow> (u64 list \<times> 'w) option" where
  "prio_nice k block [] w = Some ([], w)"
| "prio_nice k block (x # xs) w =
     do {
       (p, w) \<leftarrow> start_counter k w;
       w \<leftarrow> (if block then map_option snd (my_block k p w) else Some w);
       (_, w) \<leftarrow> my_nice k p x w;
       w \<leftarrow> printf k (''  PROCESS %d NEW PRIORITY: %d'' @ [newline]) [AInt (ucast p), AInt (ucast x)] w;
       (pids, w) \<leftarrow> prio_nice k block xs w;
       Some (p # pids, w)
     }"

fun for_pids :: "(u64 \<Rightarrow> 'w \<Rightarrow> (u64 \<times> 'w) option) \<Rightarrow> u64 list \<Rightarrow> 'w \<Rightarrow> 'w option" where
  "for_pids f [] w = Some w"
| "for_pids f (p # pids) w = do { (_, w) \<leftarrow> f p w; for_pids f pids w }"

definition test_prio :: "'w kernel_calls \<Rightarrow> string list \<Rightarrow> 'w \<Rightarrow> (u64 \<times> 'w) option" where
  "test_prio k av w =
     (if length av \<noteq> 1 then Some (-1, w)
      else do {
        max_value \<leftarrow> satoi (Some (av ! 0 @ [nul]));
        if max_value \<le> 0 then Some (-1, w)
        else do {
          w \<leftarrow> printf k (''SAME PRIORITY...'' @ [newline]) [] w;
          (pids, w) \<leftarrow> prio_start k TOTAL_PROCESSES w;
          w \<leftarrow> for_pids (my_wait k) pids w;
          w \<leftarrow> printf k (''SAME PRIORITY, THEN CHANGE IT...'' @ [newline]) [] w;
          (pids, w) \<leftarrow> prio_nice k False prio w;
          w \<leftarrow> for_pids (my_wait k) pids w;
          w \<leftarrow> printf k (''SAME PRIORITY, THEN CHANGE IT WHILE BLOCKED...'' @ [newline]) [] w;
          (pids, w) \<leftarrow> prio_nice k True prio w;
          w \<leftarrow> for_pids (my_unblock k) pids w;
          w \<leftarrow> for_pids (my_wait k) pids w;
          Some (0, w)
        }
      })"

section \<open>test_processes.c\<close>

datatype p_state = P_RUNNING | P_BLOCKED | P_KILLED

record p_rq =
  rq_pid :: u64
  rq_state :: p_state

text \<open>
  The counter of the loops has eight bits. The array has \<open>max_processes\<close> entries, and what an entry holds before it is written
  is an argument. The loops answer \<open>None\<close> as their first result when the test returns -1.
\<close>

partial_function (option) create_all ::
  "'w kernel_calls \<Rightarrow> u64 \<Rightarrow> u8 \<Rightarrow> p_rq list \<Rightarrow> u8 \<Rightarrow> 'w \<Rightarrow> ((p_rq list \<times> u8) option \<times> 'w) option" where
  "create_all k max_processes rq rqs alive w =
     (if ucast rq < max_processes then
        do {
          (p, w) \<leftarrow> my_create_process k ''endless_loop'' ''endless_loop'' 0 [] (Some test_fds) False w;
          rqs \<leftarrow> aset rqs (unat rq) \<lparr>rq_pid = p, rq_state = rq_state (rqs ! unat rq)\<rparr>;
          if p = 0
          then do { w \<leftarrow> printf k (''test_processes: ERROR creating process'' @ [newline]) [] w; Some (None, w) }
          else do {
            w \<leftarrow> changeProcessPriority k p 3 w;
            rqs \<leftarrow> aset rqs (unat rq) \<lparr>rq_pid = p, rq_state = P_RUNNING\<rparr>;
            create_all k max_processes (rq + 1) rqs (alive + 1) w
          }
        }
      else Some (Some (rqs, alive), w))"

text \<open>One process killed or blocked at random.\<close>

definition hit_one :: "'w kernel_calls \<Rightarrow> u8 \<Rightarrow> p_rq \<Rightarrow> u8 \<Rightarrow> 'w \<Rightarrow> ((p_rq \<times> u8) option \<times> 'w) option" where
  "hit_one k action b alive w =
     (if action = 0 \<and> (rq_state b = P_RUNNING \<or> rq_state b = P_BLOCKED) then
        do {
          (r, w) \<leftarrow> my_kill k (rq_pid b) w;
          if r = -1 then do { w \<leftarrow> printf k (''test_processes: ERROR killing process'' @ [newline]) [] w; Some (None, w) }
          else do { (_, w) \<leftarrow> waitPid k (rq_pid b) w; Some (Some (b\<lparr>rq_state := P_KILLED\<rparr>, alive - 1), w) }
        }
      else if action = 1 \<and> rq_state b = P_RUNNING then
        do {
          (r, w) \<leftarrow> my_block k (rq_pid b) w;
          if r = -1 then do { w \<leftarrow> printf k (''test_processes: ERROR blocking process'' @ [newline]) [] w; Some (None, w) }
          else Some (Some (b\<lparr>rq_state := P_BLOCKED\<rparr>, alive), w)
        }
      else Some (Some (b, alive), w))"

partial_function (option) hit_all ::
  "'w kernel_calls \<Rightarrow> u64 \<Rightarrow> u8 \<Rightarrow> p_rq list \<Rightarrow> u8 \<Rightarrow> rng \<Rightarrow> 'w \<Rightarrow> ((p_rq list \<times> u8) option \<times> rng \<times> 'w) option" where
  "hit_all k max_processes rq rqs alive r w =
     (if ucast rq < max_processes then
        do {
          let u = GetUniform 100 r;
          b \<leftarrow> aget rqs (unat rq);
          (x, w) \<leftarrow> hit_one k (ucast (fst u mod 2)) b alive w;
          (case x of
             None \<Rightarrow> Some (None, snd u, w)
           | Some (b, alive) \<Rightarrow> do {
               rqs \<leftarrow> aset rqs (unat rq) b;
               hit_all k max_processes (rq + 1) rqs alive (snd u) w
             })
        }
      else Some (Some (rqs, alive), r, w))"

text \<open>The blocked ones are unblocked at random; the generator is only asked for those.\<close>

partial_function (option) unblock_all ::
  "'w kernel_calls \<Rightarrow> u64 \<Rightarrow> u8 \<Rightarrow> p_rq list \<Rightarrow> rng \<Rightarrow> 'w \<Rightarrow> (p_rq list option \<times> rng \<times> 'w) option" where
  "unblock_all k max_processes rq rqs r w =
     (if ucast rq < max_processes then
        do {
          b \<leftarrow> aget rqs (unat rq);
          if rq_state b \<noteq> P_BLOCKED then unblock_all k max_processes (rq + 1) rqs r w
          else do {
            let u = GetUniform 100 r;
            if fst u mod 2 = 0 then unblock_all k max_processes (rq + 1) rqs (snd u) w
            else do {
              (c, w) \<leftarrow> my_unblock k (rq_pid b) w;
              if c = -1
              then do { w \<leftarrow> printf k (''test_processes: ERROR unblocking process'' @ [newline]) [] w; Some (None, snd u, w) }
              else do {
                rqs \<leftarrow> aset rqs (unat rq) (b\<lparr>rq_state := P_RUNNING\<rparr>);
                unblock_all k max_processes (rq + 1) rqs (snd u) w
              }
            }
          }
        }
      else Some (Some rqs, r, w))"

partial_function (option) kill_loop ::
  "'w kernel_calls \<Rightarrow> u64 \<Rightarrow> p_rq list \<Rightarrow> u8 \<Rightarrow> rng \<Rightarrow> 'w \<Rightarrow> ((p_rq list \<times> u8) option \<times> rng \<times> 'w) option" where
  "kill_loop k max_processes rqs alive r w =
     (if alive > 0 then
        do {
          (x, r, w) \<leftarrow> hit_all k max_processes 0 rqs alive r w;
          (case x of
             None \<Rightarrow> Some (None, r, w)
           | Some (rqs, alive) \<Rightarrow> do {
               (y, r, w) \<leftarrow> unblock_all k max_processes 0 rqs r w;
               (case y of None \<Rightarrow> Some (None, r, w) | Some rqs \<Rightarrow> kill_loop k max_processes rqs alive r w)
             })
        }
      else Some (Some (rqs, alive), r, w))"

partial_function (option) processes_loop :: "'w kernel_calls \<Rightarrow> u64 \<Rightarrow> p_rq list \<Rightarrow> u8 \<Rightarrow> rng \<Rightarrow> 'w \<Rightarrow> (rng \<times> 'w) option" where
  "processes_loop k max_processes rqs alive r w =
     do {
       (x, w) \<leftarrow> create_all k max_processes 0 rqs alive w;
       (case x of
          None \<Rightarrow> Some (r, w)
        | Some (rqs, alive) \<Rightarrow> do {
            (y, r, w) \<leftarrow> kill_loop k max_processes rqs alive r w;
            (case y of None \<Rightarrow> Some (r, w) | Some (rqs, alive) \<Rightarrow> processes_loop k max_processes rqs alive r w)
          })
     }"

definition test_processes :: "'w kernel_calls \<Rightarrow> string list \<Rightarrow> (nat \<Rightarrow> p_rq list) \<Rightarrow> rng \<Rightarrow> 'w \<Rightarrow> (u64 \<times> rng \<times> 'w) option" where
  "test_processes k av stack r w =
     (if length av \<noteq> 1 then Some (-1, r, w)
      else do {
        max_processes \<leftarrow> satoi (Some (av ! 0 @ [nul]));
        if max_processes \<le> 0 then Some (-1, r, w)
        else do { (r, w) \<leftarrow> processes_loop k max_processes (stack (unat max_processes)) 0 r w; Some (-1, r, w) }
      })"

section \<open>test_sync.c\<close>

abbreviation SEM_ID :: string where "SEM_ID \<equiv> ''sem''"
abbreviation TOTAL_PAIR_PROCESSES :: nat where "TOTAL_PAIR_PROCESSES \<equiv> 2"

text \<open>
  The arguments of \<open>my_process_inc\<close>: the number of turns, the increment and whether to use the semaphore, the last two cut to
  eight bits; \<open>None\<close> inside when the process gives up.
\<close>

definition inc_args :: "string list \<Rightarrow> (u64 \<times> u8 \<times> u8) option option" where
  "inc_args av =
     (if length av \<noteq> 3 then Some None
      else do {
        n \<leftarrow> satoi (Some (av ! 0 @ [nul]));
        if n \<le> 0 then Some None
        else do {
          inc \<leftarrow> satoi (Some (av ! 1 @ [nul]));
          if (ucast inc :: u8) = 0 then Some None
          else do {
            use_sem \<leftarrow> satoi (Some (av ! 2 @ [nul]));
            if (ucast use_sem :: u8) <s 0 then Some None else Some (Some (n, ucast inc, ucast use_sem))
          }
        }
      })"

text \<open>The pairs of processes are started, first the one that decrements.\<close>

fun start_pairs :: "'w kernel_calls \<Rightarrow> nat \<Rightarrow> string list \<Rightarrow> string list \<Rightarrow> 'w \<Rightarrow> ((u64 \<times> u64) list \<times> 'w) option" where
  "start_pairs k 0 dec inc w = Some ([], w)"
| "start_pairs k (Suc n) dec inc w =
     do {
       (p, w) \<leftarrow> my_create_process k ''my_process_inc'' ''my_process_inc'' 3 dec (Some test_fds) False w;
       (q, w) \<leftarrow> my_create_process k ''my_process_inc'' ''my_process_inc'' 3 inc (Some test_fds) False w;
       (r, w) \<leftarrow> start_pairs k n dec inc w;
       Some ((p, q) # r, w)
     }"

fun wait_pairs :: "'w kernel_calls \<Rightarrow> (u64 \<times> u64) list \<Rightarrow> 'w \<Rightarrow> 'w option" where
  "wait_pairs k [] w = Some w"
| "wait_pairs k ((p, q) # r) w = do { (_, w) \<leftarrow> my_wait k p w; (_, w) \<leftarrow> my_wait k q w; wait_pairs k r w }"

text \<open>The shared variable lies in memory that the other processes see too: \<open>set_shared\<close> and \<open>get_shared\<close> access it.\<close>

definition test_sync ::
  "'w kernel_calls \<Rightarrow> (u64 \<Rightarrow> 'w \<Rightarrow> 'w) \<Rightarrow> ('w \<Rightarrow> u64) \<Rightarrow> string list \<Rightarrow> 'w \<Rightarrow> (u64 \<times> 'w) option" where
  "test_sync k set_shared get_shared av w =
     (if length av \<noteq> 3 then Some (-1, w)
      else do {
        let w = set_shared 0 w;
        (ids, w) \<leftarrow> start_pairs k TOTAL_PAIR_PROCESSES [av ! 1, ''-1'', av ! 2] [av ! 1, ''1'', av ! 2] w;
        w \<leftarrow> wait_pairs k ids w;
        w \<leftarrow> printf k (''Final value: %d'' @ [newline]) [AInt (ucast (get_shared w))] w;
        Some (0, w)
      })"

section \<open>The commands of the shell\<close>

text \<open>
  \<open>runTestMM\<close>, \<open>runTestPrio\<close> and \<open>runTestProcesses\<close> of \<open>shell.c\<close> leave out the name of the command; \<open>argc\<close> is never 0.
\<close>

definition runTestMM :: "'w kernel_calls \<Rightarrow> string list \<Rightarrow> rng \<Rightarrow> memory \<Rightarrow> 'w \<Rightarrow> (u64 \<times> rng \<times> memory \<times> 'w) option" where
  "runTestMM k av r m w = test_mm k (tl av) r m w"

definition runTestPrio :: "'w kernel_calls \<Rightarrow> string list \<Rightarrow> 'w \<Rightarrow> (u64 \<times> 'w) option" where
  "runTestPrio k av w = test_prio k (tl av) w"

definition runTestProcesses :: "'w kernel_calls \<Rightarrow> string list \<Rightarrow> (nat \<Rightarrow> p_rq list) \<Rightarrow> rng \<Rightarrow> 'w \<Rightarrow> (u64 \<times> rng \<times> 'w) option" where
  "runTestProcesses k av stack r w = test_processes k (tl av) stack r w"

definition runTestSync :: "'w kernel_calls \<Rightarrow> (u64 \<Rightarrow> 'w \<Rightarrow> 'w) \<Rightarrow> ('w \<Rightarrow> u64) \<Rightarrow> string list \<Rightarrow> 'w \<Rightarrow> (u64 \<times> 'w) option" where
  "runTestSync k set_shared get_shared av w = test_sync k set_shared get_shared av w"

section \<open>Random numbers stay below their bound\<close>

lemma bits_le: "0 < n \<Longrightarrow> 2 ^ (bits n - 1) \<le> n"
proof (induction n rule: bits.induct)
  case (1 n)
  show ?case
  proof (cases "n div 2 = 0")
    case True
    then have "n = 1" using 1(2) by auto
    then show ?thesis by (simp add: bits.simps)
  next
    case False
    then have ih: "2 ^ (bits (n div 2) - 1) \<le> n div 2" using 1 by simp
    have "0 < bits (n div 2)" using False by (subst bits.simps) simp
    then have "(2::nat) ^ bits (n div 2) = 2 * 2 ^ (bits (n div 2) - 1)" by (metis power_Suc Suc_diff_1)
    then show ?thesis using ih 1(2) by (subst bits.simps) simp
  qed
qed

text \<open>The rounding error is at most half a unit in the last place.\<close>

lemma to_double_le: "2 ^ 53 * to_double n \<le> (2 ^ 53 + 1) * n"
proof -
  define e where "e = bits n - 53"
  let ?q = "n div 2 ^ e" and ?r = "n mod 2 ^ e"
  have n: "n = ?q * 2 ^ e + ?r" by (rule div_mult_mod_eq [symmetric])
  show ?thesis
  proof (cases "2 * ?r > 2 ^ e \<or> (2 * ?r = 2 ^ e \<and> odd ?q)")
    case False
    then have "to_double n = ?q * 2 ^ e" unfolding to_double_def Let_def e_def [symmetric] by (simp only: if_False)
    also have "\<dots> \<le> n" by simp
    finally show ?thesis by simp
  next
    case True
    then have d: "to_double n = (?q + 1) * 2 ^ e" unfolding to_double_def Let_def e_def [symmetric] by (simp only: if_True)
    have h: "2 ^ e \<le> 2 * ?r" using True by auto
    have e: "0 < e"
    proof (rule ccontr)
      assume "\<not> 0 < e" then show False using True by simp
    qed
    then have "bits n - 1 = 52 + e" by (simp add: e_def)
    moreover have "0 < n" using h by (cases n) auto
    ultimately have big: "2 ^ 52 * 2 ^ e \<le> n" using bits_le [of n] by (simp add: power_add)
    have "to_double n + ?r = ?q * 2 ^ e + ?r + 2 ^ e" by (simp add: d)
    then have "2 * to_double n + 2 * ?r = 2 * n + 2 * 2 ^ e" using n by simp
    then have "2 * to_double n \<le> 2 * n + 2 ^ e" using h by linarith
    then have "2 ^ 52 * (2 * to_double n) \<le> 2 ^ 52 * (2 * n + 2 ^ e)" by (rule mult_le_mono2)
    also have "\<dots> \<le> 2 ^ 52 * (2 * n) + n" using big by (simp add: algebra_simps)
    finally show ?thesis by simp
  qed
qed

lemma GetUniform_bound:
  assumes "GetUniform mx r = (u, r')"
  shows "unat u \<le> unat mx \<and> (mx \<noteq> 0 \<longrightarrow> unat u < unat mx)"
proof -
  obtain v r'' where g: "GetUint r = (v, r'')" by (cases "GetUint r")
  define x where "x = to_double ((unat v + 1) * 0x7FFFFFFF)"
  define y where "y = to_double (x * unat mx)"
  have u: "u = of_nat (y div 2 ^ 63)" using assms by (simp add: GetUniform_def g x_def y_def)
  have v: "unat v + 1 \<le> 2 ^ 32" using unat_less [of v] by simp
  have "2 ^ 53 * x \<le> (2 ^ 53 + 1) * ((unat v + 1) * 0x7FFFFFFF)" unfolding x_def by (rule to_double_le)
  also have "\<dots> \<le> (2 ^ 53 + 1) * (2 ^ 32 * 0x7FFFFFFF)" using v by (intro mult_le_mono2 mult_le_mono1)
  finally have x: "2 ^ 53 * x \<le> (2 ^ 53 + 1) * (2 ^ 32 * 0x7FFFFFFF)" .
  have "2 ^ 53 * y \<le> (2 ^ 53 + 1) * (x * unat mx)" unfolding y_def by (rule to_double_le)
  then have "2 ^ 53 * (2 ^ 53 * y) \<le> (2 ^ 53 + 1) * (2 ^ 53 * x) * unat mx" by simp
  also have "\<dots> \<le> (2 ^ 53 + 1) * ((2 ^ 53 + 1) * (2 ^ 32 * 0x7FFFFFFF)) * unat mx"
    using x by (intro mult_le_mono1 mult_le_mono2)
  finally have y: "2 ^ 53 * (2 ^ 53 * y) \<le> (2 ^ 53 + 1) * ((2 ^ 53 + 1) * (2 ^ 32 * 0x7FFFFFFF)) * unat mx" .
  show ?thesis
  proof (cases "unat mx = 0")
    case True
    then have "y = 0" using y by simp
    then show ?thesis using True by (simp add: u unat_eq_0)
  next
    case False
    have "(2 ^ 53 + 1) * ((2 ^ 53 + 1) * (2 ^ 32 * 0x7FFFFFFF)) * unat mx < 2 ^ 53 * (2 ^ 53 * (2 ^ 63 * unat mx))"
      using False by simp
    then have "y < 2 ^ 63 * unat mx" using y by simp
    then have "y div 2 ^ 63 < unat mx" by (simp add: div_less_iff_less_mult mult.commute)
    moreover have "unat mx < 2 ^ 32" using unat_less [of mx] by simp
    ultimately have "unat u < unat mx" by (simp add: u unat_of_nat_small)
    then show ?thesis by simp
  qed
qed

section \<open>Blocks of memory\<close>

lemma memcheck_iff: "memcheck p v n m \<noteq> 0 \<longleftrightarrow> (\<forall>j<unat n. m (p + of_nat j) = v)"
proof -
  have "memcheck_loop p v n m \<noteq> 0 \<longleftrightarrow> (\<forall>j<n. m (p + of_nat j) = v)" for n
    by (induction p v n m rule: memcheck_loop.induct) (auto simp: All_less_Suc2 algebra_simps)
  then show ?thesis by (simp add: memcheck_def)
qed

lemma ucast_of_nat_u8: "(ucast (of_nat i :: u32) :: u8) = of_nat i"
  by (simp add: word_unat_eq_iff unsigned_ucast_eq unsigned_of_nat take_bit_eq_mod mod_mod_cancel)

text \<open>The addresses of a block, and blocks that do not touch each other.\<close>

definition in_block :: "u64 \<Rightarrow> mm_rq \<Rightarrow> bool" where
  "in_block a b \<longleftrightarrow> unat (a - address b) < unat (mm_size b)"

definition blocks_apart :: "mm_rq list \<Rightarrow> bool" where
  "blocks_apart bs \<longleftrightarrow> (\<forall>i<length bs. \<forall>j<length bs. i \<noteq> j \<longrightarrow> (\<forall>a. \<not> (in_block a (bs ! i) \<and> in_block a (bs ! j))))"

lemma memset_block:
  "memset (address b) c (ucast (mm_size b)) m a = (if in_block a b then ucast c else m a)"
proof -
  have "unat (ucast (mm_size b) :: u64) = unat (mm_size b)" by (rule unat_ucast32)
  moreover have "unat (mm_size b) \<le> 2 ^ 64" using unat_less [of "mm_size b"] by simp
  ultimately show ?thesis by (simp add: memset_def memset_loop_eq in_block_def)
qed

lemma set_blocks_frame: "(\<And>b. b \<in> set bs \<Longrightarrow> \<not> in_block a b) \<Longrightarrow> set_blocks i bs m a = m a"
  by (induction i bs m rule: set_blocks.induct) (simp_all add: memset_block)

lemma apart_tl: "blocks_apart (b # bs) \<Longrightarrow> blocks_apart bs \<and> (\<forall>c\<in>set bs. \<forall>a. \<not> (in_block a b \<and> in_block a c))"
proof -
  assume h: "blocks_apart (b # bs)"
  have "blocks_apart bs"
    unfolding blocks_apart_def
  proof (intro allI impI)
    fix i j a assume "i < length bs" "j < length bs" "i \<noteq> j"
    then show "\<not> (in_block a (bs ! i) \<and> in_block a (bs ! j))"
      using h [unfolded blocks_apart_def, rule_format, of "Suc i" "Suc j"] by simp
  qed
  moreover have "\<not> (in_block a b \<and> in_block a c)" if "c \<in> set bs" for a c
  proof -
    obtain j where "j < length bs" "c = bs ! j" using \<open>c \<in> set bs\<close> by (auto simp: in_set_conv_nth)
    then show ?thesis using h [unfolded blocks_apart_def, rule_format, of 0 "Suc j"] by simp
  qed
  ultimately show ?thesis by blast
qed

text \<open>What has been written into blocks apart from each other is found there again.\<close>

lemma set_then_check:
  assumes "blocks_apart bs" and "\<forall>b\<in>set bs. address b \<noteq> NULL"
  shows "check_blocks i bs (set_blocks i bs m)"
proof -
  have "check_blocks i bs m'" if "blocks_apart bs" "\<forall>b\<in>set bs. address b \<noteq> NULL" "\<forall>b\<in>set bs. \<forall>a. in_block a b \<longrightarrow> m' a = set_blocks i bs m a" for m'
    using that
  proof (induction i bs m rule: set_blocks.induct)
    case (2 i b bs m)
    let ?m = "memset (address b) (of_nat i) (ucast (mm_size b)) m"
    note ap = apart_tl [OF 2(2)]
    have b: "address b \<noteq> NULL" using 2(3) by simp
    have sb: "set_blocks i (b # bs) m = set_blocks (Suc i) bs ?m" using b by simp
    have "m' (address b + of_nat j) = of_nat i" if "j < unat (mm_size b)" for j
    proof -
      let ?a = "address b + of_nat j"
      have j: "j < 2 ^ 64" using that unat_less [of "mm_size b"] by simp
      have inb: "in_block ?a b" using that j by (simp add: in_block_def unat_of_nat_small)
      then have "m' ?a = set_blocks (Suc i) bs ?m ?a" using 2(4) sb by simp
      also have "\<dots> = ?m ?a" using ap inb by (intro set_blocks_frame) blast
      also have "\<dots> = of_nat i" using inb by (simp add: memset_block ucast_of_nat_u8)
      finally show ?thesis .
    qed
    then have "memcheck (address b) (of_nat i) (mm_size b) m' \<noteq> 0" by (simp add: memcheck_iff)
    moreover have "check_blocks (Suc i) bs m'" using 2(1) ap 2(3,4) sb b by simp
    ultimately show ?case by simp
  qed simp
  from this [OF assms] show ?thesis by simp
qed

lemma pages_bound:
  assumes "(a :: nat) * 4096 \<le> b + 4096 * 128"
  shows "a \<le> b div 4096 + 128"
proof -
  have "a * 4096 div 4096 \<le> (b + 4096 * 128) div 4096" using assms by (rule div_le_mono)
  then show ?thesis by simp
qed

lemma pages_needed_le: "pages_needed n * 4096 \<le> unat n + 4096"
  by (auto simp: pages_needed_def Let_def)

lemma unat_ucast_small: "unat (x :: u64) < 2 ^ 32 \<Longrightarrow> unat (ucast x :: u32) = unat x"
  by (simp add: unsigned_ucast_eq take_bit_nat_eq_self)

text \<open>The first \<open>n\<close> turns of the loop, if none of them finds an error.\<close>

fun mm_rounds :: "'w kernel_calls \<Rightarrow> u64 \<Rightarrow> nat \<Rightarrow> rng \<Rightarrow> memory \<Rightarrow> 'w \<Rightarrow> (rng \<times> memory \<times> 'w) option" where
  "mm_rounds k mx 0 r m w = Some (r, m, w)"
| "mm_rounds k mx (Suc n) r m w =
     do { (on, r, m, w) \<leftarrow> mm_round k mx r m w; if on then mm_rounds k mx n r m w else None }"

lemma mm_loop_rounds:
  "mm_rounds k mx n r m w = Some (r', m', w') \<Longrightarrow> mm_loop k mx r m w = mm_loop k mx r' m' w'"
  by (induction n arbitrary: r m w) (auto simp: mm_loop.simps [of k mx] bind_eq_Some_conv split: if_splits)

section \<open>A kernel that hands out memory\<close>

text \<open>
  The contract of the two memory calls: \<open>extent\<close> is the size of the block that starts at an address, 0 if none
  does, and \<open>room\<close> a number of pages that is certain to be found in one piece.
\<close>

locale block_memory =
  fixes k :: "'w kernel_calls" and ok :: "'w \<Rightarrow> bool" and extent :: "'w \<Rightarrow> ptr \<Rightarrow> nat" and room :: "'w \<Rightarrow> nat"
  assumes alloc: "ok w \<Longrightarrow> pages_needed n \<le> room w \<Longrightarrow>
      \<exists>p w'. mem_alloc k n w = Some (p, w') \<and> ok w' \<and> p \<noteq> NULL \<and> extent w p = 0 \<and>
        extent w' = (extent w)(p := pages_needed n * 4096) \<and> room w \<le> room w' + pages_needed n"
    and dealloc: "ok w \<Longrightarrow> 0 < extent w p \<Longrightarrow> \<exists>w'. mem_free k p w = Some w' \<and> ok w' \<and> extent w' = (extent w)(p := 0)"
    and apart: "ok w \<Longrightarrow> 0 < extent w a \<Longrightarrow> 0 < extent w b \<Longrightarrow> a \<noteq> b \<Longrightarrow>
      unat a + extent w a \<le> unat b \<or> unat b + extent w b \<le> unat a"
    and top: "ok w \<Longrightarrow> 0 < extent w a \<Longrightarrow> unat a + extent w a \<le> 2 ^ 64"
    and room_same: "ok w \<Longrightarrow> ok w' \<Longrightarrow> extent w = extent w' \<Longrightarrow> room w = room w'"
begin

text \<open>The blocks requested so far, over what was live before.\<close>

definition requested :: "'w \<Rightarrow> mm_rq list \<Rightarrow> 'w \<Rightarrow> bool" where
  "requested w0 bs w \<longleftrightarrow>
     ok w \<and> distinct (map address bs) \<and>
     (\<forall>b\<in>set bs. address b \<noteq> NULL \<and> extent w0 (address b) = 0 \<and> 0 < mm_size b \<and> unat (mm_size b) \<le> extent w (address b)) \<and>
     (\<forall>p. p \<notin> address ` set bs \<longrightarrow> extent w p = extent w0 p)"

lemma requested_more:
  assumes r: "requested w0 bs w" and "ok w0" and "0 < sz" and "pages_needed (ucast sz) \<le> room w"
  shows "\<exists>p w'. mem_alloc k (ucast sz) w = Some (p, w') \<and> p \<noteq> NULL \<and>
     requested w0 (bs @ [\<lparr>address = p, mm_size = sz\<rparr>]) w' \<and> room w \<le> room w' + pages_needed (ucast sz)"
proof -
  have "ok w" using r by (simp add: requested_def)
  from alloc [OF this assms(4)] obtain p w' where a: "mem_alloc k (ucast sz) w = Some (p, w')" "ok w'" "p \<noteq> NULL" "extent w p = 0"
    "extent w' = (extent w)(p := pages_needed (ucast sz) * 4096)" "room w \<le> room w' + pages_needed (ucast sz)" by blast
  have "unat sz \<le> pages_needed (ucast sz) * 4096" using pages_needed_size [of "ucast sz"] by (simp only: unat_ucast32)
  moreover have new: "p \<notin> address ` set bs"
  proof
    assume "p \<in> address ` set bs"
    then have "0 < extent w p" using r by (auto simp: requested_def word_less_nat_alt)
    with a(4) show False by simp
  qed
  moreover have "extent w0 p = 0" using r new a(4) by (simp add: requested_def)
  ultimately have "requested w0 (bs @ [\<lparr>address = p, mm_size = sz\<rparr>]) w'"
    using r a assms(3) by (auto simp: requested_def)
  with a show ?thesis by blast
qed

lemma request_loop_ok:
  assumes "ok w0" and "unat mx < 2 ^ 32" and "unat mx div 4096 + 128 \<le> room w0"
  shows "requested w0 bs w \<Longrightarrow> length bs \<le> MAX_BLOCKS \<Longrightarrow> unat t \<le> unat mx \<Longrightarrow> room w0 \<le> room w + n \<Longrightarrow> n * 4096 \<le> unat t + 4096 * length bs \<Longrightarrow>
     \<exists>bs' r' w'. request_loop k mx bs t r w = Some (bs', r', w') \<and> requested w0 bs' w' \<and> length bs' \<le> MAX_BLOCKS"
proof (induction "MAX_BLOCKS - length bs" arbitrary: bs t r w n)
  case 0
  then show ?case by (subst request_loop.simps) auto
next
  case (Suc x)
  have t: "unat (ucast t :: u64) = unat t" by (rule unat_ucast32)
  show ?case
  proof (cases "ucast t < mx")
    case False
    then show ?thesis using Suc.prems by (subst request_loop.simps) auto
  next
    case True
    then have lt: "unat t < unat mx" by (simp add: word_less_nat_alt t)
    let ?m = "ucast (mx - ucast t - 1) :: u32"
    obtain u r'' where g: "GetUniform ?m r = (u, r'')" by (cases "GetUniform ?m r")
    have "unat (mx - ucast t) = unat mx - unat t" using True t by (simp add: unat_sub)
    moreover from this have "1 \<le> mx - ucast t" using lt by (simp add: word_le_nat_alt)
    ultimately have "unat (mx - ucast t - 1) = unat mx - unat t - 1" by (simp add: unat_sub)
    then have m: "unat ?m = unat mx - unat t - 1" using assms(2) lt by (simp add: unat_ucast_small)
    have "unat u \<le> unat mx - unat t - 1" using GetUniform_bound [OF g] m by simp
    then have u1: "unat u + 1 \<le> unat mx - unat t" using lt by simp
    then have "unat u + 1 < 2 ^ 32" using assms(2) by simp
    then have sz: "unat (u + 1) = unat u + 1" by (simp add: unat_word_ariths)
    then have sz0: "0 < u + 1" by (simp add: word_less_nat_alt)
    have st: "unat (t + (u + 1)) = unat t + unat u + 1" using u1 lt sz assms(2) by (simp add: unat_word_ariths)
    let ?p = "pages_needed (ucast (u + 1))"
    have pg: "?p * 4096 \<le> unat (u + 1) + 4096" using pages_needed_le [of "ucast (u + 1)"] by (simp only: unat_ucast32)
    have len: "Suc (length bs) \<le> 128" using Suc.hyps(2) by simp
    have tot: "(n + ?p) * 4096 \<le> unat (t + (u + 1)) + 4096 * Suc (length bs)"
      using Suc.prems(5) pg st sz by simp
    also have "\<dots> \<le> unat mx + 4096 * 128" using st u1 lt len by (intro add_mono mult_le_mono2) simp_all
    finally have "n + ?p \<le> unat mx div 4096 + 128" by (rule pages_bound)
    then have room: "?p \<le> room w" using assms(3) Suc.prems(4) by linarith
    from requested_more [OF Suc.prems(1) assms(1) sz0 room] obtain p w' where
      a: "mem_alloc k (ucast (u + 1)) w = Some (p, w')" "p \<noteq> NULL" "requested w0 (bs @ [\<lparr>address = p, mm_size = u + 1\<rparr>]) w'"
        "room w \<le> room w' + ?p" by blast
    have "x = MAX_BLOCKS - length (bs @ [\<lparr>address = p, mm_size = u + 1\<rparr>])" using Suc.hyps(2) by simp
    moreover have "unat (t + (u + 1)) \<le> unat mx" "room w0 \<le> room w' + (n + ?p)" using st u1 lt a(4) Suc.prems(4) by linarith+
    ultimately obtain bs' r' w'' where "request_loop k mx (bs @ [\<lparr>address = p, mm_size = u + 1\<rparr>]) (t + (u + 1)) r'' w' = Some (bs', r', w'')"
      "requested w0 bs' w''" "length bs' \<le> MAX_BLOCKS"
      using Suc.hyps(1) [OF _ a(3), of "t + (u + 1)" "n + ?p" r''] tot len by auto
    then show ?thesis using True a(1,2) Suc.hyps(2) by (subst request_loop.simps) (auto simp: g Let_def)
  qed
qed

lemma free_blocks_ok:
  "requested w0 bs w \<Longrightarrow> \<exists>w'. free_blocks k bs w = Some w' \<and> requested w0 [] w'"
proof (induction bs arbitrary: w)
  case (Cons b bs)
  then have "ok w" "0 < extent w (address b)" "address b \<noteq> NULL"
    by (auto simp: requested_def word_less_nat_alt)
  from dealloc [OF this(1,2)] obtain w' where w': "mem_free k (address b) w = Some w'" "ok w'" "extent w' = (extent w)(address b := 0)"
    by blast
  have "address c \<noteq> address b" if "c \<in> set bs" for c
    using Cons.prems imageI [OF that, of address] by (auto simp: requested_def)
  then have "requested w0 bs w'" using Cons.prems w'(2,3) by (auto simp: requested_def)
  from Cons.IH [OF this] show ?case using w'(1) \<open>address b \<noteq> NULL\<close> by simp
qed simp

lemma in_block_range:
  assumes "requested w0 bs w" and "b \<in> set bs" and "in_block a b"
  shows "unat (address b) \<le> unat a \<and> unat a < unat (address b) + extent w (address b)"
proof -
  have e: "0 < extent w (address b)" "unat (mm_size b) \<le> extent w (address b)" and "ok w"
    using assms(1,2) by (auto simp: requested_def word_less_nat_alt)
  from top [OF this(3) e(1)] have t: "unat (address b) + extent w (address b) \<le> 2 ^ 64" .
  have d: "unat (a - address b) < extent w (address b)" using assms(3) e(2) by (simp add: in_block_def)
  have "unat (address b + (a - address b)) = unat (address b) + unat (a - address b)"
    using d t by (intro unat_add_lem [THEN iffD1]) simp
  then show ?thesis using d by simp
qed

lemma requested_apart:
  assumes r: "requested w0 bs w"
  shows "blocks_apart bs"
  unfolding blocks_apart_def
proof (intro allI impI notI)
  fix i j a assume h: "i < length bs" "j < length bs" "i \<noteq> j" "in_block a (bs ! i) \<and> in_block a (bs ! j)"
  then have m: "bs ! i \<in> set bs" "bs ! j \<in> set bs" by simp_all
  have ne: "address (bs ! i) \<noteq> address (bs ! j)"
    using r h nth_eq_iff_index_eq [of "map address bs" i j] by (simp add: requested_def)
  have "0 < extent w (address (bs ! i))" "0 < extent w (address (bs ! j))" "ok w"
    using r m by (auto simp: requested_def word_less_nat_alt)
  note ap = apart [OF this(3,1,2) ne]
  show False using ap in_block_range [OF r m(1), of a] in_block_range [OF r m(2), of a] h(4) by linarith
qed

lemma requested_elsewhere:
  assumes r: "requested w0 bs w" and p: "0 < extent w0 p" "unat p \<le> unat a" "unat a < unat p + extent w0 p" and b: "b \<in> set bs"
  shows "\<not> in_block a b"
proof
  assume i: "in_block a b"
  have "extent w0 (address b) = 0" "0 < extent w (address b)" "ok w" using r b by (auto simp: requested_def word_less_nat_alt)
  moreover have "p \<notin> address ` set bs" using r p(1) by (auto simp: requested_def)
  then have "extent w p = extent w0 p" using r by (simp add: requested_def)
  moreover have "p \<noteq> address b" using calculation(1) p(1) by auto
  ultimately show False using apart [of w p "address b"] in_block_range [OF r b i] p by simp
qed

lemma mm_round_ok:
  assumes "ok w" and "unat mx < 2 ^ 32" and "unat mx div 4096 + 128 \<le> room w"
  shows "\<exists>r' m' w'. mm_round k mx r m w = Some (True, r', m', w') \<and> ok w' \<and> extent w' = extent w \<and>
     (\<forall>p a. 0 < extent w p \<longrightarrow> unat p \<le> unat a \<longrightarrow> unat a < unat p + extent w p \<longrightarrow> m' a = m a)"
proof -
  have "requested w [] w" using assms(1) by (simp add: requested_def)
  from request_loop_ok [OF assms this, of 0 0 r] obtain bs r' w' where
    q: "request_loop k mx [] 0 r w = Some (bs, r', w')" "requested w bs w'" by auto
  from free_blocks_ok [OF q(2)] obtain w'' where f: "free_blocks k bs w' = Some w''" "requested w [] w''" by blast
  have "check_blocks 0 bs (set_blocks 0 bs m)"
    using set_then_check [OF requested_apart [OF q(2)]] q(2) by (simp add: requested_def)
  then have "mm_round k mx r m w = Some (True, r', set_blocks 0 bs m, w'')" using q(1) f(1) by (simp add: mm_round_def)
  moreover have "ok w''" "extent w'' = extent w" using f(2) by (auto simp: requested_def)
  moreover have "set_blocks 0 bs m a = m a" if "0 < extent w p" "unat p \<le> unat a" "unat a < unat p + extent w p" for p a
    using requested_elsewhere [OF q(2) that] by (rule set_blocks_frame)
  ultimately show ?thesis by blast
qed

lemma mm_rounds_ok:
  assumes "unat mx < 2 ^ 32"
  shows "ok w \<Longrightarrow> unat mx div 4096 + 128 \<le> room w \<Longrightarrow>
     \<exists>r' m' w'. mm_rounds k mx n r m w = Some (r', m', w') \<and> ok w' \<and> extent w' = extent w \<and>
       (\<forall>p a. 0 < extent w p \<longrightarrow> unat p \<le> unat a \<longrightarrow> unat a < unat p + extent w p \<longrightarrow> m' a = m a)"
proof (induction n arbitrary: r m w)
  case (Suc n)
  from mm_round_ok [OF Suc.prems(1) assms Suc.prems(2), of r m] obtain r1 m1 w1 where
    1: "mm_round k mx r m w = Some (True, r1, m1, w1)" "ok w1" "extent w1 = extent w"
      "\<forall>p a. 0 < extent w p \<longrightarrow> unat p \<le> unat a \<longrightarrow> unat a < unat p + extent w p \<longrightarrow> m1 a = m a" by blast
  have "room w1 = room w" using room_same 1(2,3) Suc.prems(1) by metis
  then have "unat mx div 4096 + 128 \<le> room w1" using Suc.prems(2) by simp
  from Suc.IH [OF 1(2) this, of r1 m1] 1 show ?case by fastforce
qed simp

end

end
