(* ===== verification/TestKernel.thy ===== *)
theory TestKernel
  imports UserTests UserKernel
begin

text \<open>
  \<open>test_mm\<close> on the kernel: through its memory calls, with the bitmap manager behind them, the machine keeps the
  contract of \<open>block_memory\<close>.
\<close>

section \<open>The longest free run\<close>

definition free_at :: "pmem \<Rightarrow> nat \<Rightarrow> nat \<Rightarrow> bool" where
  "free_at m = free_run (take (page_count m) (bitmap m))"

definition largest :: "pmem \<Rightarrow> nat" where
  "largest m = Max {n. \<exists>h. free_at m h n}"

lemma free_at_iff:
  "pm_inv m \<Longrightarrow> free_at m h n \<longleftrightarrow> h + n \<le> page_count m \<and> (\<forall>j. h \<le> j \<longrightarrow> j < h + n \<longrightarrow> bitmap m ! j = 0)"
  unfolding free_at_def by (rule free_run_take [OF pm_invD(1)])

lemma runs_finite:
  assumes "pm_inv m"
  shows "finite {n. \<exists>h. free_at m h n}" and "{n. \<exists>h. free_at m h n} \<noteq> {}"
proof -
  have "{n. \<exists>h. free_at m h n} \<subseteq> {..page_count m}" by (auto simp: free_at_iff [OF assms])
  then show "finite {n. \<exists>h. free_at m h n}" by (rule finite_subset) simp
  have "free_at m 0 0" by (simp add: free_at_iff [OF assms])
  then show "{n. \<exists>h. free_at m h n} \<noteq> {}" by blast
qed

lemma largest_run: "pm_inv m \<Longrightarrow> \<exists>h. free_at m h (largest m)"
  using Max_in [OF runs_finite] by (simp add: largest_def)

lemma largest_ge: "pm_inv m \<Longrightarrow> free_at m h n \<Longrightarrow> n \<le> largest m"
  unfolding largest_def by (rule Max_ge [OF runs_finite(1)]) auto

lemma free_prefix: "pm_inv m \<Longrightarrow> free_at m h n \<Longrightarrow> k \<le> n \<Longrightarrow> free_at m h k"
  by (auto simp: free_at_iff)

text \<open>First fit takes from the longest run no more than it hands out.\<close>

lemma largest_claim:
  assumes inv: "pm_inv m" and k: "0 < k" and fit: "free_at m h k" "\<forall>h'. free_at m h' k \<longrightarrow> h \<le> h'" and le: "k \<le> largest m"
  shows "largest m \<le> largest (claim m h k) + k"
proof -
  obtain a where a: "free_at m a (largest m)" using largest_run [OF inv] by blast
  then have "free_at m a k" using free_prefix inv le by blast
  then have ha: "h \<le> a" using fit(2) by blast
  have bnd: "h + k \<le> page_count m" "\<forall>j. h \<le> j \<longrightarrow> j < h + k \<longrightarrow> bitmap m ! j = 0"
    using fit(1) free_at_iff [OF inv] by auto
  have inv': "pm_inv (claim m h k)" by (rule claim_inv [OF inv k bnd])
  have bm: "bitmap (claim m h k) ! j = (if h \<le> j \<and> j < h + k then 1 else bitmap m ! j)" for j
    using pm_shapeD(1) [OF pm_invD(1) [OF inv]] bnd(1) by (simp add: claim_def nth_mark_used)
  have "free_at (claim m h k) (max a (h + k)) (largest m - k)"
    using a ha le unfolding free_at_iff [OF inv] free_at_iff [OF inv'] by (auto simp: bm max_def)
  from largest_ge [OF inv' this] show ?thesis by simp
qed

text \<open>The free runs are those that the live blocks leave.\<close>

lemma largest_extent:
  assumes i: "pm_inv m" "pm_inv m'" and b: "pool_base m = pool_base m'" "page_count m = page_count m'" and e: "extent m = extent m'"
  shows "largest m = largest m'"
proof -
  have r: "run_at m h = run_at m' h" if "h < page_count m" for h
  proof -
    have "page_addr m h = page_addr m' h" using b by (simp add: page_addr_def)
    then show ?thesis
      using extent_page_addr [OF pm_invD(1) [OF i(1)] that] extent_page_addr [OF pm_invD(1) [OF i(2)], of h] that b(2) e by simp
  qed
  have z: "bitmap m ! j \<noteq> 0 \<longleftrightarrow> bitmap m' ! j \<noteq> 0" if "j < page_count m" for j
  proof -
    have "(\<exists>h \<le> j. j < h + run_at m h) \<longleftrightarrow> (\<exists>h \<le> j. j < h + run_at m' h)" using r that by (metis le_less_trans)
    then show ?thesis
      using pm_blocksD(1) [OF pm_invD(2) [OF i(1)], of j] pm_blocksD(1) [OF pm_invD(2) [OF i(2)], of j] that b(2) by simp
  qed
  have "free_at m h n \<longleftrightarrow> free_at m' h n" for h n
    unfolding free_at_iff [OF i(1)] free_at_iff [OF i(2)] using z b(2) by (metis less_le_trans)
  then show ?thesis by (simp add: largest_def)
qed

section \<open>The machine as a memory\<close>

definition memory_ok :: "ptr \<Rightarrow> nat \<Rightarrow> machine \<Rightarrow> bool" where
  "memory_ok base n M \<longleftrightarrow>
     pm_inv (kmem (the_kernel M)) \<and> pool_base (kmem (the_kernel M)) = base \<and> page_count (kmem (the_kernel M)) = n"

lemma alloc_call:
  "machine_call E addr buf regs (Sys_mem_alloc n) M =
     (let (m, a) = Bitmap.mem_alloc (kmem (the_kernel M)) n
      in Some (a, [], M\<lparr>psys := (psys M)\<lparr>sys := (sys (psys M))\<lparr>kern := (the_kernel M)\<lparr>kmem := m\<rparr>\<rparr>\<rparr>\<rparr>))"
  by (simp add: machine_call_def stub_def syscallDispatcher_def service_call_def Let_def answer_def on_kernel_def on_system_def split: prod.split)

lemma free_call:
  "machine_call E addr buf regs (Sys_mem_free p) M =
     map_option (\<lambda>m. (0x92, [], M\<lparr>psys := (psys M)\<lparr>sys := (sys (psys M))\<lparr>kern := (the_kernel M)\<lparr>kmem := m\<rparr>\<rparr>\<rparr>\<rparr>))
       (Bitmap.mem_free (kmem (the_kernel M)) p)"
  by (cases "Bitmap.mem_free (kmem (the_kernel M)) p")
    (simp_all add: machine_call_def stub_def syscallDispatcher_def service_call_def Let_def on_kernel_def on_system_def)

lemma alloc_fits:
  assumes inv: "pm_inv m" and le: "pages_needed n \<le> largest m"
  shows "\<exists>h. Bitmap.mem_alloc m n = (claim m h (pages_needed n), page_addr m h) \<and> pm_inv (claim m h (pages_needed n)) \<and>
     page_addr m h \<noteq> NULL \<and> extent m (page_addr m h) = 0 \<and>
     extent (claim m h (pages_needed n)) = (extent m)(page_addr m h := pages_needed n * 4096) \<and>
     largest m \<le> largest (claim m h (pages_needed n)) + pages_needed n"
proof -
  obtain m' a where al: "Bitmap.mem_alloc m n = (m', a)" by (cases "Bitmap.mem_alloc m n")
  have "\<exists>h. free_at m h (pages_needed n)" using largest_run [OF inv] free_prefix [OF inv _ le] by blast
  then obtain h where h: "m' = claim m h (pages_needed n)" "a = page_addr m h" "free_at m h (pages_needed n)"
      "\<forall>h'. free_at m h' (pages_needed n) \<longrightarrow> h \<le> h'"
    using mem_alloc_cases [OF inv al] unfolding free_at_def by blast
  have b: "h + pages_needed n \<le> page_count m" "\<forall>j. h \<le> j \<longrightarrow> j < h + pages_needed n \<longrightarrow> bitmap m ! j = 0"
    using h(3) unfolding free_at_iff [OF inv] by blast+
  have hp: "h < page_count m" using b(1) pages_needed_pos [of n] by simp
  have a: "a \<noteq> NULL" using page_addr_not_null [OF pm_invD(1) [OF inv] hp] h(2) by simp
  then have "extent m a = 0" by (rule bm.alloc_fresh [OF inv al])
  with a show ?thesis
    using al h claim_inv [OF inv pages_needed_pos b] extent_claim [OF inv pages_needed_pos b(1)]
      largest_claim [OF inv pages_needed_pos h(3,4) le] by auto
qed

lemma extent_top:
  assumes inv: "pm_inv m" and "0 < extent m a"
  shows "unat a + extent m a \<le> 2 ^ 64"
proof -
  obtain h where h: "a = page_addr m h" "h < page_count m" "extent m a = run_at m h * 4096" "h + run_at m h \<le> page_count m"
    using extent_pos [OF assms] by metis
  have sh: "unat (pool_base m) + page_count m * 4096 \<le> 2 ^ 64" using pm_invD(1) [OF inv] by (simp add: pm_shape_def)
  have "unat a = unat (pool_base m) + h * 4096" using unat_page_addr [OF pm_invD(1) [OF inv] h(2)] h(1) by simp
  then show ?thesis using h(3,4) sh mult_le_mono1 [OF h(4), of 4096] by (simp add: add_mult_distrib)
qed

interpretation blocks: block_memory "machine_call E addr buf regs" "memory_ok base n"
  "\<lambda>M. extent (kmem (the_kernel M))" "\<lambda>M. largest (kmem (the_kernel M))" for E addr buf regs base n
proof (unfold_locales, goal_cases)
  case (1 M sz)
  then have inv: "pm_inv (kmem (the_kernel M))" by (simp add: memory_ok_def)
  from alloc_fits [OF inv 1(2)] obtain h where
    h: "Bitmap.mem_alloc (kmem (the_kernel M)) sz = (claim (kmem (the_kernel M)) h (pages_needed sz), page_addr (kmem (the_kernel M)) h)"
      "pm_inv (claim (kmem (the_kernel M)) h (pages_needed sz))" "page_addr (kmem (the_kernel M)) h \<noteq> NULL"
      "extent (kmem (the_kernel M)) (page_addr (kmem (the_kernel M)) h) = 0"
      "extent (claim (kmem (the_kernel M)) h (pages_needed sz)) =
         (extent (kmem (the_kernel M)))(page_addr (kmem (the_kernel M)) h := pages_needed sz * 4096)"
      "largest (kmem (the_kernel M)) \<le> largest (claim (kmem (the_kernel M)) h (pages_needed sz)) + pages_needed sz"
    by blast
  show ?case using h 1(1) by (simp add: UserLib.mem_alloc_def ask_def alloc_call memory_ok_def)
next
  case (2 M p)
  then have inv: "pm_inv (kmem (the_kernel M))" by (simp add: memory_ok_def)
  obtain h where h: "p = page_addr (kmem (the_kernel M)) h" "h < page_count (kmem (the_kernel M))" "0 < run_at (kmem (the_kernel M)) h"
    using extent_pos [OF inv 2(2)] by metis
  show ?case
    using mem_free_live [OF inv h(2)] release_inv [OF inv h(3)] extent_release [OF inv h(2)] h(1) 2(1)
    by (simp add: UserLib.mem_free_def tell_def free_call memory_ok_def)
next
  case (3 M a b)
  then show ?case using bm.extent_disjoint [of "kmem (the_kernel M)" a b] by (simp add: memory_ok_def)
next
  case (4 M a)
  then show ?case using extent_top [of "kmem (the_kernel M)" a] by (simp add: memory_ok_def)
next
  case (5 M M')
  then show ?case using largest_extent [of "kmem (the_kernel M)" "kmem (the_kernel M')"] by (simp add: memory_ok_def)
qed

section \<open>The test on the kernel\<close>

lemma boot_pool_pages: "page_count boot_pool = 2048" "meta_pages 2048 = 3"
  using mem_init_shape(1) [OF boot_pool_init] by (simp_all add: meta_pages_def bm_bytes_al_def rl_bytes_al_def ALIGN_UP_def)

lemma boot_pool_largest: "2045 \<le> largest boot_pool"
proof -
  have "free_at boot_pool 3 2045"
    using mem_init_bitmap [OF boot_pool_init] boot_pool_pages by (simp add: free_at_iff [OF boot_pool_inv])
  then show ?thesis by (rule largest_ge [OF boot_pool_inv])
qed

definition pool_machine :: machine where
  "pool_machine =
     (let P = two_pipes; S = sys P; K = kern S
      in pipe_machine (P\<lparr>sys := S\<lparr>kern := K\<lparr>kmem := boot_pool\<rparr>\<rparr>\<rparr>))"

text \<open>C35: the memory test against the memory manager. On a kernel whose pool has a free run of the pages asked for and 128 more,
  any number of turns of \<open>test_mm\<close>'s loop run through, from any state of the random generator and any contents of memory: every request is
  granted, no block is ever found changed, no byte of a block that was live before is written, and after each turn the live blocks are
  those from before.\<close>

theorem test_mm_never_fails:
  assumes "pm_inv (kmem (the_kernel M))" and "unat mx < 2 ^ 32" and "unat mx div 4096 + 128 \<le> largest (kmem (the_kernel M))"
  shows "\<exists>r' m' M'. mm_rounds (machine_call E addr buf regs) mx n r m M = Some (r', m', M') \<and>
     pm_inv (kmem (the_kernel M')) \<and> extent (kmem (the_kernel M')) = extent (kmem (the_kernel M)) \<and>
     (\<forall>p a. 0 < extent (kmem (the_kernel M)) p \<longrightarrow> unat p \<le> unat a \<longrightarrow> unat a < unat p + extent (kmem (the_kernel M)) p \<longrightarrow> m' a = m a)"
proof -
  have "memory_ok (pool_base (kmem (the_kernel M))) (page_count (kmem (the_kernel M))) M"
    using assms(1) by (simp add: memory_ok_def)
  from blocks.mm_rounds_ok [OF assms(2) this assms(3), of E addr buf regs n r m]
  show ?thesis unfolding memory_ok_def by blast
qed

theorem test_mm_never_fails_witness:
  "\<forall>E addr buf regs. \<exists>r' m' M'. mm_rounds (machine_call E addr buf regs) 0x100000 3 rng_start (\<lambda>_. 0) pool_machine = Some (r', m', M') \<and>
     pm_inv (kmem (the_kernel M'))"
proof (intro allI)
  fix E addr buf regs
  have k: "kmem (the_kernel pool_machine) = boot_pool" by (simp add: pool_machine_def pipe_machine_def Let_def)
  have "unat (0x100000 :: u64) div 4096 + 128 \<le> largest (kmem (the_kernel pool_machine))" using boot_pool_largest by (simp add: k)
  from test_mm_never_fails [OF _ _ this, of E addr buf regs 3 rng_start "\<lambda>_. 0"] boot_pool_inv
  show "\<exists>r' m' M'. mm_rounds (machine_call E addr buf regs) 0x100000 3 rng_start (\<lambda>_. 0) pool_machine = Some (r', m', M') \<and>
     pm_inv (kmem (the_kernel M'))" by (auto simp: k)
qed

end
