(* ===== verification/TestSync.thy ===== *)
theory TestSync
  imports UserTests
begin

text \<open>
  The processes of \<open>test_sync.c\<close>, \<open>my_process_inc\<close>, as a step relation: any number of them add to a shared variable,
  reading it, giving up the processor and writing it back, inside a semaphore or without one. The semaphore is its number of
  permits; nobody unlinks it, so closing it changes nothing for the others.
\<close>

section \<open>The steps\<close>

text \<open>At the head of the loop, then the points of \<open>slowInc\<close> with the local \<open>aux\<close>, then behind it.\<close>

datatype inc_pc = I_loop | I_load | I_yield u64 | I_store u64 | I_post | I_done

record sync =
  shared :: u64
  permits :: nat
  workers :: "(u64 \<times> nat \<times> inc_pc) list"

fun sync_turn :: "bool \<Rightarrow> nat \<Rightarrow> sync \<Rightarrow> sync option" where
  "sync_turn use_sem i s =
     (if i < length (workers s)
      then let (inc, left, pc) = workers s ! i; at = (\<lambda>left pc s. s\<lparr>workers := (workers s)[i := (inc, left, pc)]\<rparr>)
           in (case pc of
                 I_loop \<Rightarrow>
                   if left = 0 then Some (at 0 I_done s)
                   else if \<not> use_sem then Some (at left I_load s)
                   else if permits s = 0 then None
                   else Some (at left I_load (s\<lparr>permits := permits s - 1\<rparr>))
               | I_load \<Rightarrow> Some (at left (I_yield (shared s)) s)
               | I_yield aux \<Rightarrow> Some (at left (I_store aux) s)
               | I_store aux \<Rightarrow> Some (at left I_post (s\<lparr>shared := aux + inc\<rparr>))
               | I_post \<Rightarrow> Some (at (left - 1) I_loop (if use_sem then s\<lparr>permits := permits s + 1\<rparr> else s))
               | I_done \<Rightarrow> None)
      else None)"

inductive sync_step :: "bool \<Rightarrow> sync \<Rightarrow> sync \<Rightarrow> bool" for use_sem where
  step: "sync_turn use_sem i s = Some s' \<Longrightarrow> sync_step use_sem s s'"

text \<open>The processes that \<open>test_sync\<close> starts, each with \<open>n\<close> turns to go.\<close>

definition sync_start :: "nat \<Rightarrow> sync" where
  "sync_start n =
     \<lparr>shared = 0, permits = 1, workers = concat (replicate TOTAL_PAIR_PROCESSES [(-1, n, I_loop), (1, n, I_loop)])\<rparr>"

section \<open>Invariant\<close>

lemma sum_update:
  fixes f :: "'a \<Rightarrow> 'b :: comm_monoid_add"
  assumes "i < length xs"
  shows "sum_list (map f (xs[i := y])) + f (xs ! i) = sum_list (map f xs) + f y"
proof -
  have "sum_list (map f xs) = sum_list (map f (take i xs)) + (f (xs ! i) + sum_list (map f (drop (Suc i) xs)))"
    by (subst id_take_nth_drop [OF assms]) simp
  moreover have "sum_list (map f (xs[i := y])) = sum_list (map f (take i xs)) + (f y + sum_list (map f (drop (Suc i) xs)))"
    by (simp add: upd_conv_take_nth_drop [OF assms])
  ultimately show ?thesis by (simp add: algebra_simps)
qed

text \<open>Whether a process is between its wait and its post, what it still adds, and how many steps it has left.\<close>

fun inside_sem :: "u64 \<times> nat \<times> inc_pc \<Rightarrow> nat" where
  "inside_sem (_, _, pc) = (if pc = I_loop \<or> pc = I_done then 0 else 1)"

fun to_add :: "u64 \<times> nat \<times> inc_pc \<Rightarrow> u64" where
  "to_add (inc, left, pc) = inc * of_nat (if pc = I_post then left - 1 else left)"

fun steps_left :: "u64 \<times> nat \<times> inc_pc \<Rightarrow> nat" where
  "steps_left (_, left, pc) =
     (case pc of I_loop \<Rightarrow> 5 * left + 1 | I_load \<Rightarrow> 5 * left | I_yield _ \<Rightarrow> 5 * left - 1 | I_store _ \<Rightarrow> 5 * left - 2
      | I_post \<Rightarrow> 5 * left - 3 | I_done \<Rightarrow> 0)"

text \<open>A process in the loop has turns to go, and what it has read is still the value of the shared variable.\<close>

fun up_to_date :: "u64 \<Rightarrow> u64 \<times> nat \<times> inc_pc \<Rightarrow> bool" where
  "up_to_date v (_, left, pc) \<longleftrightarrow>
     (case pc of I_loop \<Rightarrow> True | I_load \<Rightarrow> 0 < left | I_yield aux \<Rightarrow> 0 < left \<and> aux = v | I_store aux \<Rightarrow> 0 < left \<and> aux = v
      | I_post \<Rightarrow> 0 < left | I_done \<Rightarrow> left = 0)"

abbreviation total_inside :: "sync \<Rightarrow> nat" where "total_inside s \<equiv> sum_list (map inside_sem (workers s))"
abbreviation outcome :: "sync \<Rightarrow> u64" where "outcome s \<equiv> shared s + sum_list (map to_add (workers s))"
abbreviation to_go :: "sync \<Rightarrow> nat" where "to_go s \<equiv> sum_list (map steps_left (workers s))"

definition sync_inv :: "sync \<Rightarrow> bool" where
  "sync_inv s \<longleftrightarrow> permits s + total_inside s = 1 \<and> (\<forall>w\<in>set (workers s). up_to_date (shared s) w)"

lemma outside_up_to_date: "inside_sem w = 0 \<Longrightarrow> up_to_date v w \<Longrightarrow> up_to_date v' w"
  by (cases w) (auto split: inc_pc.splits if_splits)

lemma others_outside:
  assumes "total_inside s \<le> 1" and "i < length (workers s)" and "inside_sem (workers s ! i) = 1" and "j < length (workers s)" and "j \<noteq> i"
  shows "inside_sem (workers s ! j) = 0"
proof -
  let ?ws = "(workers s)[i := (0, 0, I_done)]"
  have "sum_list (map inside_sem ?ws) = 0"
    using sum_update [OF assms(2), of inside_sem "(0, 0, I_done)"] assms(1,3) by (simp del: sum_list_eq_0_iff)
  moreover have "workers s ! j \<in> set ?ws" using assms(4,5) by (metis length_list_update nth_list_update_neq nth_mem)
  ultimately show ?thesis by auto
qed

text \<open>One step of process \<open>i\<close> that ends at \<open>pc'\<close>, with the shared variable \<open>v\<close> and \<open>n\<close> permits afterwards.\<close>

lemma sync_step_to:
  assumes inv: "sync_inv s" and i: "i < length (workers s)" and w: "workers s ! i = (inc, left, pc)"
    and v: "v = shared s \<or> inside_sem (inc, left, pc) = 1"
    and u: "up_to_date v (inc, left', pc')" and p: "n + inside_sem (inc, left', pc') = permits s + inside_sem (inc, left, pc)"
    and a: "v + to_add (inc, left', pc') = shared s + to_add (inc, left, pc)"
    and l: "Suc (steps_left (inc, left', pc')) = steps_left (inc, left, pc)"
    and s': "s' = \<lparr>shared = v, permits = n, workers = (workers s)[i := (inc, left', pc')]\<rparr>"
  shows "sync_inv s' \<and> outcome s' = outcome s \<and> Suc (to_go s') = to_go s"
proof -
  note up = sum_update [OF i, where y = "(inc, left', pc')", unfolded w]
  have inside1: "total_inside s \<le> 1" using inv by (simp add: sync_inv_def)
  have "up_to_date v x" if x: "x \<in> set (workers s')" for x
  proof -
    obtain j where j: "j < length (workers s)" "x = (workers s)[i := (inc, left', pc')] ! j"
      using x s' by (auto simp: in_set_conv_nth)
    show ?thesis
    proof (cases "j = i")
      case True
      then show ?thesis using j i u by simp
    next
      case False
      then have x': "x = workers s ! j" using j by simp
      then have o: "up_to_date (shared s) x" using inv j(1) by (simp add: sync_inv_def)
      from v show ?thesis
      proof
        assume "v = shared s" then show ?thesis using o by simp
      next
        assume "inside_sem (inc, left, pc) = 1"
        then have "inside_sem x = 0" using others_outside [OF inside1 i _ j(1) False] w x' by simp
        then show ?thesis using o by (rule outside_up_to_date)
      qed
    qed
  qed
  moreover have "permits s' + total_inside s' = 1"
    using up [of inside_sem] p inv unfolding s' sync_inv_def by simp
  moreover have "outcome s' = outcome s"
  proof -
    have "outcome s' + to_add (inc, left, pc) = v + (sum_list (map to_add (workers s)) + to_add (inc, left', pc'))"
      using up [of to_add] unfolding s' by (simp only: sync.simps add.assoc)
    also have "\<dots> = outcome s + to_add (inc, left, pc)" using a by (simp only: ac_simps) (metis (no_types, lifting) add.commute add.left_commute)
    finally show ?thesis by (simp only: add_right_cancel)
  qed
  moreover have "Suc (to_go s') = to_go s"
    using up [of steps_left] l unfolding s' by (simp del: steps_left.simps)
  ultimately show ?thesis by (simp add: sync_inv_def s')
qed

lemma sync_keeps:
  assumes inv: "sync_inv s" and st: "sync_step True s s'"
  shows "sync_inv s' \<and> outcome s' = outcome s \<and> Suc (to_go s') = to_go s"
proof -
  obtain i where t: "sync_turn True i s = Some s'" using st by (cases rule: sync_step.cases)
  then have i: "i < length (workers s)" by (auto split: if_splits)
  obtain inc left pc where w: "workers s ! i = (inc, left, pc)" by (cases "workers s ! i")
  have g: "up_to_date (shared s) (inc, left, pc)" using inv i w by (metis nth_mem sync_inv_def)
  note step = sync_step_to [OF inv i w]
  show ?thesis
  proof (cases pc)
    case I_loop
    show ?thesis
    proof (cases "left = 0")
      case True
      then show ?thesis using t i w I_loop by (intro step [where v = "shared s" and n = "permits s" and left' = 0 and pc' = I_done]) auto
    next
      case False
      with t i w I_loop have "permits s \<noteq> 0" "s' = s\<lparr>permits := permits s - 1, workers := (workers s)[i := (inc, left, I_load)]\<rparr>"
        by (auto split: if_splits)
      then show ?thesis using False I_loop
        by (intro step [where v = "shared s" and n = "permits s - 1" and left' = left and pc' = I_load]) auto
    qed
  next
    case I_load
    then show ?thesis using t i w g by (intro step [where v = "shared s" and n = "permits s" and left' = left and pc' = "I_yield (shared s)"]) auto
  next
    case (I_yield aux)
    then show ?thesis using t i w g by (intro step [where v = "shared s" and n = "permits s" and left' = left and pc' = "I_store aux"]) auto
  next
    case (I_store aux)
    then show ?thesis using t i w g
      by (intro step [where v = "aux + inc" and n = "permits s" and left' = left and pc' = I_post]) (auto simp: algebra_simps)
  next
    case I_post
    then show ?thesis using t i w g
      by (intro step [where v = "shared s" and n = "permits s + 1" and left' = "left - 1" and pc' = I_loop]) auto
  next
    case I_done
    then show ?thesis using t i w by auto
  qed
qed

section \<open>The end of every run\<close>

lemma sync_start_inv: "sync_inv (sync_start n) \<and> outcome (sync_start n) = 0 \<and> to_go (sync_start n) = 20 * n + 4"
  by (simp add: sync_inv_def sync_start_def numeral_2_eq_2)

lemma sync_run_inv:
  assumes "(sync_step True ^^ k) (sync_start n) s"
  shows "sync_inv s \<and> outcome s = 0 \<and> k + to_go s = 20 * n + 4"
  using assms
proof (induction k arbitrary: s)
  case 0
  then show ?case using sync_start_inv [of n] by simp
next
  case (Suc k)
  then obtain s' where "(sync_step True ^^ k) (sync_start n) s'" "sync_step True s' s" by (elim relpowp_Suc_E)
  then have "sync_inv s'" "outcome s' = 0" "k + to_go s' = 20 * n + 4" "sync_inv s \<and> outcome s = outcome s' \<and> Suc (to_go s) = to_go s'"
    using Suc.IH [of s'] sync_keeps [of s' s] by (simp_all only: simp_thms)
  moreover from this have "Suc k + to_go s = 20 * n + 4" by linarith
  ultimately show ?case by (simp only: simp_thms)
qed

text \<open>Nobody waits for ever: a process inside goes on, and when none is inside the semaphore has its permit.\<close>

lemma sync_progress:
  assumes inv: "sync_inv s" and w: "w \<in> set (workers s)" "snd (snd w) \<noteq> I_done"
  shows "\<exists>s'. sync_step True s s'"
proof -
  have go: "\<exists>s'. sync_turn True i s = Some s'"
    if "i < length (workers s)" "snd (snd (workers s ! i)) \<noteq> I_done" "permits s \<noteq> 0 \<or> inside_sem (workers s ! i) = 1" for i
    using that by (cases "workers s ! i") (auto split: inc_pc.splits)
  show ?thesis
  proof (cases "\<exists>w\<in>set (workers s). inside_sem w = 1")
    case True
    then obtain i where "i < length (workers s)" "inside_sem (workers s ! i) = 1" by (auto simp: in_set_conv_nth)
    moreover have "snd (snd (workers s ! i)) \<noteq> I_done" using calculation by (cases "workers s ! i") auto
    ultimately show ?thesis using go sync_step.step by blast
  next
    case False
    then have "\<forall>x\<in>set (workers s). inside_sem x = 0" by (auto split: if_splits)
    then have "total_inside s = 0" by simp
    then have "permits s \<noteq> 0" using inv unfolding sync_inv_def by linarith
    moreover obtain i where "i < length (workers s)" "workers s ! i = w" using w(1) by (auto simp: in_set_conv_nth)
    ultimately show ?thesis using go w(2) sync_step.step by blast
  qed
qed

lemma nothing_to_go: "up_to_date v w \<Longrightarrow> steps_left w = 0 \<longleftrightarrow> snd (snd w) = I_done"
  by (cases w) (auto split: inc_pc.splits)

lemma done_adds_nothing: "up_to_date v w \<Longrightarrow> snd (snd w) = I_done \<Longrightarrow> to_add w = 0"
  by (cases w) auto

lemma done_is_done: "sync_inv s \<Longrightarrow> to_go s = 0 \<Longrightarrow> \<not> sync_step True s s'"
proof
  assume "sync_inv s" "to_go s = 0" "sync_step True s s'"
  then have "Suc (to_go s') = to_go s" using sync_keeps by (metis (no_types))
  then show False using \<open>to_go s = 0\<close> by linarith
qed

text \<open>
  C36: Every schedule of the processes of \<open>test_sync\<close> with the semaphore comes to an end: no run of \<open>n\<close> increments and
  decrements each is longer than \<open>20 n + 4\<close> steps, a run can go on exactly as long as it is shorter than that (nobody waits
  for a permit that never comes), and then all the processes are done and the shared variable is 0 again.
\<close>

theorem sync_ends_at_zero:
  assumes "(sync_step True ^^ k) (sync_start n) s"
  shows "k \<le> 20 * n + 4 \<and> ((\<exists>s'. sync_step True s s') \<longleftrightarrow> k < 20 * n + 4)
    \<and> (k = 20 * n + 4 \<longrightarrow> (\<forall>w\<in>set (workers s). snd (snd w) = I_done) \<and> shared s = 0)"
proof -
  from sync_run_inv [OF assms] have inv: "sync_inv s" and out: "outcome s = 0" and len: "k + to_go s = 20 * n + 4" by auto
  have live: "\<forall>w\<in>set (workers s). up_to_date (shared s) w" using inv by (simp add: sync_inv_def)
  have "\<forall>w\<in>set (workers s). steps_left w = 0 \<longleftrightarrow> snd (snd w) = I_done" using live nothing_to_go by (metis (no_types))
  then have all_done: "to_go s = 0 \<longleftrightarrow> (\<forall>w\<in>set (workers s). snd (snd w) = I_done)" by (simp add: sum_list_eq_0_iff)
  have "(\<exists>s'. sync_step True s s') \<longleftrightarrow> to_go s \<noteq> 0"
  proof
    assume "\<exists>s'. sync_step True s s'" then show "to_go s \<noteq> 0" using done_is_done [OF inv] by blast
  next
    assume "to_go s \<noteq> 0"
    then obtain w where "w \<in> set (workers s)" "snd (snd w) \<noteq> I_done" unfolding all_done by blast
    then show "\<exists>s'. sync_step True s s'" by (rule sync_progress [OF inv])
  qed
  moreover have "shared s = 0" if "to_go s = 0"
  proof -
    have "\<forall>w\<in>set (workers s). to_add w = 0" using that all_done live done_adds_nothing by blast
    then have "sum_list (map to_add (workers s)) = 0" by (auto intro: sum_list_0 simp: sum_list_eq_0_iff map_idI cong: map_cong)
    then show ?thesis using out by simp
  qed
  moreover have "k \<le> 20 * n + 4" and "k < 20 * n + 4 \<longleftrightarrow> to_go s \<noteq> 0" and "k = 20 * n + 4 \<longleftrightarrow> to_go s = 0"
    using len by linarith+
  ultimately show ?thesis using all_done by (safe; simp only: simp_thms)
qed

text \<open>A schedule, the numbers of the processes in the order in which they run.\<close>

fun sync_run :: "bool \<Rightarrow> nat list \<Rightarrow> sync \<Rightarrow> sync option" where
  "sync_run use_sem [] s = Some s"
| "sync_run use_sem (i # is) s = (case sync_turn use_sem i s of None \<Rightarrow> None | Some s' \<Rightarrow> sync_run use_sem is s')"

lemma sync_run_steps: "sync_run use_sem is s = Some s' \<Longrightarrow> (sync_step use_sem ^^ length is) s s'"
proof (induction "is" arbitrary: s)
  case Nil
  then show ?case by simp
next
  case (Cons i "is")
  then obtain t where "sync_turn use_sem i s = Some t" "(sync_step use_sem ^^ length is) t s'" by (auto split: option.splits)
  then show ?case unfolding length_Cons by (intro relpowp_Suc_I2) (auto intro: sync_step.step)
qed

definition one_by_one :: "nat list" where "one_by_one = concat (map (replicate 6) [0, 2, 1, 3])"

lemma one_by_one_run: "sync_run True one_by_one (sync_start 1) \<noteq> None"
  by code_simp

theorem sync_ends_at_zero_witness:
  "\<exists>s. (sync_step True ^^ 24) (sync_start 1) s \<and> \<not> (\<exists>s'. sync_step True s s') \<and> shared s = 0"
proof -
  have l: "length one_by_one = 24" by code_simp
  obtain s where "(sync_step True ^^ 24) (sync_start 1) s" using one_by_one_run sync_run_steps [of True one_by_one "sync_start 1"] l by auto
  then show ?thesis using sync_ends_at_zero [of 24 1 s] by auto
qed

text \<open>Without the semaphore a schedule loses an update: both processes of a pair read the same value.\<close>

lemma race_without_semaphore:
  "case sync_run False ([0, 1, 0, 1, 0, 0, 0, 0, 1, 1, 1, 1] @ replicate 6 2 @ replicate 6 3) (sync_start 1) of
     Some s \<Rightarrow> shared s = 1 \<and> (\<forall>w\<in>set (workers s). snd (snd w) = I_done) | None \<Rightarrow> False"
  by code_simp

end
