(* ===== verification/UnitTests.thy ===== *)
theory UnitTests
  imports Bitmap
begin

text \<open>
  The unit tests of the memory manager, \<open>Kernel/mem/TestMemoryManager.c\<close>, on the part of the test framework
  \<open>test/CuTest.c\<close> that decides their outcome. A test is the list of its steps; a step takes the state of the test
  program and answers whether its assertion held, and \<^term>\<open>None\<close> for undefined behaviour. The first assertion that fails leaves
  the test, which the framework does with \<open>longjmp\<close>. The texts of the failures are left out.
\<close>

section \<open>The framework\<close>

type_synonym 't step = "'t \<Rightarrow> (bool \<times> 't) option"

definition CuAssert :: "bool \<Rightarrow> 't step" where
  "CuAssert condition t = Some (condition, t)"

definition CuAssertTrue :: "bool \<Rightarrow> 't step" where
  "CuAssertTrue condition = (if condition then CuAssert True else CuAssert False)"

definition CuAssertPtrNotNull :: "ptr \<Rightarrow> 't step" where
  "CuAssertPtrNotNull pointer = (if pointer = NULL then CuAssert False else CuAssert True)"

definition CuAssertPtrNull :: "ptr \<Rightarrow> 't step" where
  "CuAssertPtrNull pointer = (if pointer \<noteq> NULL then CuAssert False else CuAssert True)"

text \<open>Both arguments are converted to \<open>int\<close>, 32 bits.\<close>

definition CuAssertIntEquals :: "u64 \<Rightarrow> u64 \<Rightarrow> 't step" where
  "CuAssertIntEquals expected actual =
     (if (ucast expected :: u32) \<noteq> ucast actual then CuAssert False else CuAssert True)"

record 't cu_test =
  test_function :: "'t step list"
  failed :: bool
  ran :: bool

definition CuTestNew :: "'t step list \<Rightarrow> 't cu_test" where
  "CuTestNew f = \<lparr>test_function = f, failed = False, ran = False\<rparr>"

fun run_steps :: "'t step list \<Rightarrow> 't step" where
  "run_steps [] t = Some (True, t)"
| "run_steps (x # xs) t = do { (held, t) \<leftarrow> x t; if held then run_steps xs t else Some (False, t) }"

definition CuTestRun :: "'t cu_test \<Rightarrow> 't \<Rightarrow> ('t cu_test \<times> 't) option" where
  "CuTestRun tc t =
     do { (held, t) \<leftarrow> run_steps (test_function tc) t;
          Some (tc\<lparr>ran := True, failed := failed tc \<or> \<not> held\<rparr>, t) }"

text \<open>The suite has room for 1024 tests; adding one more writes outside its array.\<close>

record 't cu_suite =
  suite_tests :: "'t cu_test list"
  failCount :: nat

definition CuSuiteNew :: "'t cu_suite" where
  "CuSuiteNew = \<lparr>suite_tests = [], failCount = 0\<rparr>"

definition CuSuiteAdd :: "'t cu_suite \<Rightarrow> 't cu_test \<Rightarrow> 't cu_suite option" where
  "CuSuiteAdd s tc = (if length (suite_tests s) < 1024 then Some (s\<lparr>suite_tests := suite_tests s @ [tc]\<rparr>) else None)"

fun CuSuiteRun_from :: "'t cu_test list \<Rightarrow> 't cu_suite \<Rightarrow> 't \<Rightarrow> ('t cu_suite \<times> 't) option" where
  "CuSuiteRun_from [] s t = Some (s, t)"
| "CuSuiteRun_from (tc # tcs) s t =
     do { (tc, t) \<leftarrow> CuTestRun tc t;
          CuSuiteRun_from tcs
            (s\<lparr>suite_tests := suite_tests s @ [tc],
               failCount := (if failed tc then failCount s + 1 else failCount s)\<rparr>) t }"

definition CuSuiteRun :: "'t cu_suite \<Rightarrow> 't \<Rightarrow> ('t cu_suite \<times> 't) option" where
  "CuSuiteRun s t = CuSuiteRun_from (suite_tests s) (s\<lparr>suite_tests := []\<rparr>) t"

definition CuSuiteSummary :: "'t cu_suite \<Rightarrow> string" where
  "CuSuiteSummary s = map (\<lambda>tc. if failed tc then CHR ''F'' else CHR ''.'') (suite_tests s) @ [CHR 0x0A, CHR 0x0A]"

section \<open>The tests of the memory manager\<close>

abbreviation TEST_POOL_SIZE :: u64 where "TEST_POOL_SIZE \<equiv> 1048576"
abbreviation PAGE_SIZE :: u64 where "PAGE_SIZE \<equiv> 4096"

text \<open>The static variables of the test program, with the manager under test.\<close>

datatype slot = allocPtr1 | allocPtr2 | allocPtr3 | allocPtr4

record mem_tests =
  testPool :: ptr
  manager :: pmem
  allocated :: "slot \<Rightarrow> ptr"
  test_stats :: pm_stats
  statsBefore_used :: u64
  statsBefore_free :: u64

type_synonym mstep = "mem_tests step"

definition whenMemoryManagerIsInitialized :: "mem_tests \<Rightarrow> mem_tests" where
  "whenMemoryManagerIsInitialized t = t\<lparr>manager := snd (mem_init (manager t) (testPool t) TEST_POOL_SIZE)\<rparr>"

definition whenMemoryIsAllocated :: "u64 \<Rightarrow> slot \<Rightarrow> mstep" where
  "whenMemoryIsAllocated n x t =
     (let (m, a) = mem_alloc (manager t) n
      in Some (True, t\<lparr>manager := m, allocated := (allocated t)(x := a)\<rparr>))"

definition whenMemoryIsFreed :: "slot \<Rightarrow> mstep" where
  "whenMemoryIsFreed x t = do { m \<leftarrow> mem_free (manager t) (allocated t x); Some (True, t\<lparr>manager := m\<rparr>) }"

definition whenStatsAreRequested :: mstep where
  "whenStatsAreRequested t = Some (True, t\<lparr>test_stats := mem_get_stats (manager t)\<rparr>)"

definition whenStatsAreRecorded :: mstep where
  "whenStatsAreRecorded t =
     (let s = mem_get_stats (manager t)
      in Some (True, t\<lparr>test_stats := s, statsBefore_used := st_used s, statsBefore_free := st_free s\<rparr>))"

definition thenPoolIsValid :: mstep where
  "thenPoolIsValid t = CuAssertPtrNotNull (testPool t) t"

definition thenAllocationSucceeds :: "slot \<Rightarrow> mstep" where
  "thenAllocationSucceeds x t = CuAssertPtrNotNull (allocated t x) t"

definition thenAllocationFails :: "slot \<Rightarrow> mstep" where
  "thenAllocationFails x t = CuAssertPtrNull (allocated t x) t"

definition thenAddressesAreDifferent :: "slot \<Rightarrow> slot \<Rightarrow> mstep" where
  "thenAddressesAreDifferent x y t = CuAssertTrue (allocated t x \<noteq> allocated t y) t"

definition thenAddressesAreSame :: "slot \<Rightarrow> slot \<Rightarrow> mstep" where
  "thenAddressesAreSame x y t = CuAssertIntEquals (allocated t x) (allocated t y) t"

definition thenStatsTotal :: mstep where
  "thenStatsTotal t = CuAssertIntEquals TEST_POOL_SIZE (st_total (test_stats t)) t"

definition thenStatsUsedIsPositive :: mstep where
  "thenStatsUsedIsPositive t = CuAssertTrue (st_used (test_stats t) > 0) t"

definition thenStatsFreeIsLessThanTotal :: mstep where
  "thenStatsFreeIsLessThanTotal t = CuAssertTrue (st_free (test_stats t) < TEST_POOL_SIZE) t"

definition thenStatsAreConsistent :: mstep where
  "thenStatsAreConsistent t =
     CuAssertIntEquals (st_total (test_stats t)) (st_used (test_stats t) + st_free (test_stats t)) t"

definition thenUsedMemoryIncreased :: "u64 \<Rightarrow> mstep" where
  "thenUsedMemoryIncreased amount t =
     (let s = mem_get_stats (manager t)
      in CuAssertIntEquals (statsBefore_used t + amount) (st_used s) (t\<lparr>test_stats := s\<rparr>))"

definition thenFreeMemoryDecreased :: "u64 \<Rightarrow> mstep" where
  "thenFreeMemoryDecreased amount t =
     (let s = mem_get_stats (manager t)
      in CuAssertIntEquals (statsBefore_free t - amount) (st_free s) (t\<lparr>test_stats := s\<rparr>))"

definition thenUsedMemoryDecreased :: "u64 \<Rightarrow> mstep" where
  "thenUsedMemoryDecreased amount t =
     (let s = mem_get_stats (manager t)
      in CuAssertIntEquals (statsBefore_used t - amount) (st_used s) (t\<lparr>test_stats := s\<rparr>))"

definition thenFreeMemoryIncreased :: "u64 \<Rightarrow> mstep" where
  "thenFreeMemoryIncreased amount t =
     (let s = mem_get_stats (manager t)
      in CuAssertIntEquals (statsBefore_free t + amount) (st_free s) (t\<lparr>test_stats := s\<rparr>))"

definition testInitValid :: "mstep list" where
  "testInitValid = [thenPoolIsValid]"

definition testAllocSinglePage :: "mstep list" where
  "testAllocSinglePage =
     [whenMemoryIsAllocated PAGE_SIZE allocPtr1, thenAllocationSucceeds allocPtr1, whenMemoryIsFreed allocPtr1]"

definition testAllocSmallSize :: "mstep list" where
  "testAllocSmallSize =
     [whenMemoryIsAllocated 100 allocPtr1, thenAllocationSucceeds allocPtr1, whenMemoryIsFreed allocPtr1]"

definition testAllocLargeSize :: "mstep list" where
  "testAllocLargeSize =
     [whenMemoryIsAllocated (100 * 1024) allocPtr1, thenAllocationSucceeds allocPtr1, whenMemoryIsFreed allocPtr1]"

definition testAllocZeroBytes :: "mstep list" where
  "testAllocZeroBytes =
     [whenMemoryIsAllocated 0 allocPtr1, thenAllocationSucceeds allocPtr1, whenMemoryIsFreed allocPtr1]"

definition testAllocOutOfMemory :: "mstep list" where
  "testAllocOutOfMemory =
     [whenMemoryIsAllocated (TEST_POOL_SIZE + PAGE_SIZE) allocPtr1, thenAllocationFails allocPtr1]"

definition testAllocMultiple :: "mstep list" where
  "testAllocMultiple =
     [whenMemoryIsAllocated PAGE_SIZE allocPtr1, whenMemoryIsAllocated PAGE_SIZE allocPtr2,
      whenMemoryIsAllocated PAGE_SIZE allocPtr3,
      thenAllocationSucceeds allocPtr1, thenAllocationSucceeds allocPtr2, thenAllocationSucceeds allocPtr3,
      thenAddressesAreDifferent allocPtr1 allocPtr2, thenAddressesAreDifferent allocPtr2 allocPtr3,
      whenMemoryIsFreed allocPtr1, whenMemoryIsFreed allocPtr2, whenMemoryIsFreed allocPtr3]"

definition testAllocFragmentation :: "mstep list" where
  "testAllocFragmentation =
     [whenMemoryIsAllocated PAGE_SIZE allocPtr1, whenMemoryIsAllocated PAGE_SIZE allocPtr2,
      whenMemoryIsAllocated PAGE_SIZE allocPtr3,
      whenMemoryIsFreed allocPtr2,
      whenMemoryIsAllocated PAGE_SIZE allocPtr4, thenAllocationSucceeds allocPtr4,
      thenAddressesAreSame allocPtr2 allocPtr4,
      whenMemoryIsFreed allocPtr1, whenMemoryIsFreed allocPtr3, whenMemoryIsFreed allocPtr4]"

definition testFreeMemory :: "mstep list" where
  "testFreeMemory =
     [whenMemoryIsAllocated PAGE_SIZE allocPtr1, thenAllocationSucceeds allocPtr1, whenMemoryIsFreed allocPtr1,
      CuAssertTrue True]"

definition testFreeAndRealloc :: "mstep list" where
  "testFreeAndRealloc =
     [whenMemoryIsAllocated PAGE_SIZE allocPtr1, whenMemoryIsFreed allocPtr1,
      whenMemoryIsAllocated PAGE_SIZE allocPtr2, thenAddressesAreSame allocPtr1 allocPtr2,
      whenMemoryIsFreed allocPtr2]"

definition testFreeMultiplePages :: "mstep list" where
  "testFreeMultiplePages =
     [whenMemoryIsAllocated (PAGE_SIZE * 5) allocPtr1, thenAllocationSucceeds allocPtr1, whenMemoryIsFreed allocPtr1]"

definition testStatsInitial :: "mstep list" where
  "testStatsInitial =
     [whenStatsAreRequested, thenStatsTotal, thenStatsUsedIsPositive, thenStatsFreeIsLessThanTotal, thenStatsAreConsistent]"

definition testStatsAfterAlloc :: "mstep list" where
  "testStatsAfterAlloc =
     [whenStatsAreRecorded, whenMemoryIsAllocated PAGE_SIZE allocPtr1,
      thenUsedMemoryIncreased PAGE_SIZE, thenFreeMemoryDecreased PAGE_SIZE,
      whenStatsAreRequested, thenStatsAreConsistent, whenMemoryIsFreed allocPtr1]"

definition testStatsAfterFree :: "mstep list" where
  "testStatsAfterFree =
     [whenMemoryIsAllocated PAGE_SIZE allocPtr1, whenStatsAreRecorded, whenMemoryIsFreed allocPtr1,
      thenUsedMemoryDecreased PAGE_SIZE, thenFreeMemoryIncreased PAGE_SIZE,
      whenStatsAreRequested, thenStatsAreConsistent]"

definition testAllocBoundary :: "mstep list" where
  "testAllocBoundary =
     [whenMemoryIsAllocated (PAGE_SIZE - 1) allocPtr1, whenMemoryIsAllocated (PAGE_SIZE + 1) allocPtr2,
      whenMemoryIsAllocated (PAGE_SIZE * 2) allocPtr3,
      thenAllocationSucceeds allocPtr1, thenAllocationSucceeds allocPtr2, thenAllocationSucceeds allocPtr3,
      whenMemoryIsFreed allocPtr1, whenMemoryIsFreed allocPtr2, whenMemoryIsFreed allocPtr3]"

fun add_tests :: "'t step list list \<Rightarrow> 't cu_suite \<Rightarrow> 't cu_suite option" where
  "add_tests [] s = Some s"
| "add_tests (f # fs) s = do { s \<leftarrow> CuSuiteAdd s (CuTestNew f); add_tests fs s }"

text \<open>\<open>malloc\<close> is the host's: its answer is the pool of \<open>t\<close>.\<close>

definition getMemoryManagerTestSuite :: "mem_tests \<Rightarrow> (mem_tests cu_suite \<times> mem_tests) option" where
  "getMemoryManagerTestSuite t =
     do { s \<leftarrow> add_tests
            [testInitValid, testAllocOutOfMemory, testAllocSinglePage, testAllocSmallSize, testAllocLargeSize,
             testAllocZeroBytes, testAllocMultiple, testAllocFragmentation, testFreeMemory, testFreeAndRealloc,
             testFreeMultiplePages, testStatsInitial, testStatsAfterAlloc, testStatsAfterFree, testAllocBoundary]
            CuSuiteNew;
          Some (s, whenMemoryManagerIsInitialized t) }"

section \<open>The pool during the tests\<close>

text \<open>\<open>laid m f\<close>: the test pool, where the block at page \<open>h\<close> has \<open>f h\<close> pages (0 for none). The first two pages hold the tables.\<close>

definition laid :: "pmem \<Rightarrow> (nat \<Rightarrow> nat) \<Rightarrow> bool" where
  "laid m f \<longleftrightarrow> pm_inv m \<and> page_count m = 256 \<and> run_at m = f"

definition busy :: "(nat \<Rightarrow> nat) \<Rightarrow> nat \<Rightarrow> bool" where
  "busy f j \<longleftrightarrow> j < 2 \<or> (\<exists>h \<le> j. j < h + f h)"

lemma busy_none [simp]: "busy (\<lambda>_. 0) j \<longleftrightarrow> j < 2"
  by (auto simp: busy_def)

lemma busy_upd: "f h = 0 \<Longrightarrow> busy (f(h := k)) j \<longleftrightarrow> busy f j \<or> h \<le> j \<and> j < h + k"
  by (auto simp: busy_def split: if_splits)

lemma busyI: "h \<le> j \<Longrightarrow> j < h + f h \<Longrightarrow> busy f j"
  by (auto simp: busy_def)

lemma meta_256: "meta_pages 256 = 2"
  by (simp add: meta_pages_def bm_bytes_al_def rl_bytes_al_def ALIGN_UP_def)

lemma laid_bitmap: "laid m f \<Longrightarrow> j < 256 \<Longrightarrow> bitmap m ! j = 0 \<longleftrightarrow> \<not> busy f j"
  using pm_blocksD(1) [OF pm_invD(2), of m j] by (auto simp: laid_def busy_def meta_256)

lemma laid_free_run:
  "laid m f \<Longrightarrow> free_run (take (page_count m) (bitmap m)) h k \<longleftrightarrow>
     h + k \<le> 256 \<and> (\<forall>j. h \<le> j \<longrightarrow> j < h + k \<longrightarrow> \<not> busy f j)"
  using free_run_take [OF pm_invD(1), of m h k] laid_bitmap [of m f] by (auto simp: laid_def)

text \<open>First fit: \<open>fits f h k\<close> says that \<open>h\<close> starts the first run of \<open>k\<close> free pages.\<close>

definition fits :: "(nat \<Rightarrow> nat) \<Rightarrow> nat \<Rightarrow> nat \<Rightarrow> bool" where
  "fits f h k \<longleftrightarrow> h + k \<le> 256 \<and> (\<forall>j. h \<le> j \<longrightarrow> j < h + k \<longrightarrow> \<not> busy f j) \<and>
     (\<forall>h' < h. \<exists>j. h' \<le> j \<and> j < h' + k \<and> busy f j)"

lemma fits_packed: "\<forall>j. busy f j \<longleftrightarrow> j < h \<Longrightarrow> 0 < k \<Longrightarrow> h + k \<le> 256 \<Longrightarrow> fits f h k"
  by (auto simp: fits_def)

lemma fits_one: "(\<And>j. j < h \<Longrightarrow> busy f j) \<Longrightarrow> \<not> busy f h \<Longrightarrow> h < 256 \<Longrightarrow> fits f h 1"
  using le_less_Suc_eq by (fastforce simp: fits_def)

lemma alloc_laid:
  assumes l: "laid m f" and k: "pages_needed n = k" and fit: "fits f h k"
  shows "mem_alloc m n = (claim m h k, page_addr m h)"
proof -
  obtain m' a where al: "mem_alloc m n = (m', a)" by force
  have fr: "free_run (take (page_count m) (bitmap m)) h k"
    using fit laid_free_run [OF l] by (simp add: fits_def)
  from mem_alloc_cases [OF _ al] fr l k obtain g where
    g: "m' = claim m g k" "a = page_addr m g" "free_run (take (page_count m) (bitmap m)) g k" "g \<le> h"
    unfolding laid_def by blast
  have "\<not> g < h" using g(3) fit laid_free_run [OF l, of g k] unfolding fits_def by blast
  with g al show ?thesis by simp
qed

lemma laid_claim:
  assumes l: "laid m f" and k: "0 < k" and fit: "fits f h k"
  shows "laid (claim m h k) (f(h := k))"
proof -
  have sh: "pm_shape m" using l pm_invD(1) by (auto simp: laid_def)
  have fr: "free_run (take (page_count m) (bitmap m)) h k"
    using fit laid_free_run [OF l] by (simp add: fits_def)
  then have "pm_inv (claim m h k)"
    using l k free_run_take [OF sh] by (intro claim_inv) (auto simp: laid_def)
  moreover have "run_at (claim m h k) = f(h := k)"
    using l k fit run_at_claim [OF sh, of h k] by (auto simp: laid_def fits_def)
  ultimately show ?thesis using l by (simp add: laid_def)
qed

lemma free_laid: "laid m f \<Longrightarrow> h < 256 \<Longrightarrow> mem_free m (page_addr m h) = Some (release m h (f h))"
  using mem_free_live [of m h] by (auto simp: laid_def)

lemma laid_release: "laid m f \<Longrightarrow> 0 < f h \<Longrightarrow> laid (release m h (f h)) (f(h := 0))"
  using release_inv [of m h] by (auto simp: laid_def run_at_release)

lemma laid_addr: "laid m f \<Longrightarrow> h < 256 \<Longrightarrow> page_addr m h \<noteq> NULL"
  using page_addr_not_null [OF pm_invD(1), of m h] by (simp add: laid_def)

lemma laid_addr_eq:
  assumes l: "laid m f" and h: "h < 256" and g: "g < 256"
  shows "page_addr m h = page_addr m g \<longleftrightarrow> h = g"
proof
  have sh: "pm_shape m" "page_count m = 256" using l pm_invD(1) by (auto simp: laid_def)
  assume "page_addr m h = page_addr m g"
  then have "h * 4096 = g * 4096"
    using page_addr_offset [OF sh(1), of h] page_addr_offset [OF sh(1), of g] h g sh(2) by metis
  then show "h = g" by simp
qed simp

lemma page_addr_simps [simp]:
  "page_addr (claim m h k) = page_addr m" "page_addr (release m h k) = page_addr m"
  by (simp_all add: page_addr_def fun_eq_iff)

lemma laid_no_fit: "laid m f \<Longrightarrow> 256 < pages_needed n \<Longrightarrow> mem_alloc m n = (m, NULL)"
proof -
  assume l: "laid m f" and n: "256 < pages_needed n"
  obtain m' a where al: "mem_alloc m n = (m', a)" by force
  have "\<not> free_run (take (page_count m) (bitmap m)) h (pages_needed n)" for h
    using n laid_free_run [OF l, of h] by auto
  with mem_alloc_cases [OF _ al] l al show ?thesis unfolding laid_def by blast
qed

lemma laid_total: "laid m f \<Longrightarrow> used_pages m + free_pages m = 256"
proof -
  assume l: "laid m f"
  then have "pm_counts m" and c: "card (free_set m) \<le> 256"
    using pm_invD(3) card_free_set_le [of m] by (auto simp: laid_def)
  then have "used_pages m + free_pages m = of_nat (256 - card (free_set m) + card (free_set m))"
    using l unfolding pm_counts_def laid_def of_nat_add by simp
  with c show ?thesis by simp
qed

lemma laid_clean_free: "laid m (\<lambda>_. 0) \<Longrightarrow> free_pages m = 254 \<and> used_pages m = 2"
proof -
  assume l: "laid m (\<lambda>_. 0)"
  have "free_set m = {2..<256}"
    using laid_bitmap [OF l] l by (auto simp: free_set_def laid_def)
  then have "pm_counts m \<Longrightarrow> free_pages m = of_nat 254 \<and> used_pages m = of_nat 2"
    using l by (simp add: pm_counts_def laid_def)
  then show ?thesis using l pm_invD(3) by (auto simp: laid_def)
qed

section \<open>Every test passes and cleans up\<close>

definition clean :: "mem_tests \<Rightarrow> bool" where
  "clean t \<longleftrightarrow> testPool t \<noteq> NULL \<and> laid (manager t) (\<lambda>_. 0)"

definition passes :: "mstep list \<Rightarrow> bool" where
  "passes f \<longleftrightarrow> (\<forall>t. clean t \<longrightarrow> (\<exists>t'. run_steps f t = Some (True, t') \<and> clean t' \<and> testPool t' = testPool t))"

lemmas step_defs = whenMemoryIsAllocated_def whenMemoryIsFreed_def whenStatsAreRequested_def whenStatsAreRecorded_def
  thenPoolIsValid_def thenAllocationSucceeds_def thenAllocationFails_def thenAddressesAreDifferent_def
  thenAddressesAreSame_def thenStatsTotal_def thenStatsUsedIsPositive_def thenStatsFreeIsLessThanTotal_def
  thenStatsAreConsistent_def thenUsedMemoryIncreased_def thenFreeMemoryDecreased_def thenUsedMemoryDecreased_def
  thenFreeMemoryIncreased_def CuAssert_def CuAssertTrue_def CuAssertPtrNotNull_def CuAssertPtrNull_def
  CuAssertIntEquals_def Let_def

text \<open>One block allocated in the empty pool and freed again.\<close>

lemma clean_alloc:
  assumes c: "laid m (\<lambda>_. 0)" and n: "pages_needed n = k" "k \<le> 254"
  shows "mem_alloc m n = (claim m 2 k, page_addr m 2)" and "laid (claim m 2 k) ((\<lambda>_. 0)(2 := k))"
    and "page_addr m 2 \<noteq> NULL" and "mem_free (claim m 2 k) (page_addr m 2) = Some (release (claim m 2 k) 2 k)"
    and "laid (release (claim m 2 k) 2 k) (\<lambda>_. 0)"
proof -
  have k: "0 < k" using n pages_needed_pos [of n] by simp
  have fit: "fits (\<lambda>_. 0) 2 k" by (rule fits_packed) (use k n in auto)
  show "mem_alloc m n = (claim m 2 k, page_addr m 2)" by (rule alloc_laid [OF c n(1) fit])
  show l: "laid (claim m 2 k) ((\<lambda>_. 0)(2 := k))" by (rule laid_claim [OF c k fit])
  show "page_addr m 2 \<noteq> NULL" by (rule laid_addr [OF c]) simp
  show "mem_free (claim m 2 k) (page_addr m 2) = Some (release (claim m 2 k) 2 k)"
    using free_laid [OF l, of 2] by simp
  show "laid (release (claim m 2 k) 2 k) (\<lambda>_. 0)"
    using laid_release [OF l, of 2] k by (simp add: fun_upd_idem)
qed

lemma one_page_passes:
  "pages_needed n \<le> 254 \<Longrightarrow> passes [whenMemoryIsAllocated n x, thenAllocationSucceeds x, whenMemoryIsFreed x]"
  using clean_alloc [OF _ refl, of _ n] by (auto simp: passes_def clean_def step_defs)

text \<open>Three blocks side by side: a page, then \<open>k\<close> pages, then \<open>l\<close> pages.\<close>

abbreviation three_blocks :: "nat \<Rightarrow> nat \<Rightarrow> nat \<Rightarrow> nat" where
  "three_blocks k l \<equiv> (\<lambda>_. 0)(2 := 1, 3 := k, 3 + k := l)"

lemma three_allocs:
  assumes c: "laid m (\<lambda>_. 0)" and n: "pages_needed n1 = 1" "pages_needed n2 = k" "pages_needed n3 = l" "k + l \<le> 200"
  defines "m1 \<equiv> claim m 2 1"
  defines "m2 \<equiv> claim m1 3 k"
  defines "m3 \<equiv> claim m2 (3 + k) l"
  shows "mem_alloc m n1 = (m1, page_addr m 2)" and "mem_alloc m1 n2 = (m2, page_addr m 3)"
    and "mem_alloc m2 n3 = (m3, page_addr m (3 + k))" and "laid m3 (three_blocks k l)"
    and "page_addr m3 = page_addr m"
proof -
  have k: "0 < k" and l: "0 < l" using n pages_needed_pos by auto
  note c1 = clean_alloc(1,2) [OF c n(1), simplified, folded m1_def [simplified]]
  have f2: "fits ((\<lambda>_. 0)(2 := 1)) 3 k" by (rule fits_packed) (use k n in \<open>auto simp: busy_upd\<close>)
  have f3: "fits ((\<lambda>_. 0)(2 := 1, 3 := k)) (3 + k) l" by (rule fits_packed) (use l n in \<open>auto simp: busy_upd\<close>)
  have l1: "laid m1 ((\<lambda>_. 0)(2 := 1))" using c1(2) by (simp add: m1_def)
  have l2: "laid m2 ((\<lambda>_. 0)(2 := 1, 3 := k))" unfolding m2_def by (rule laid_claim [OF l1 k f2])
  show "mem_alloc m n1 = (m1, page_addr m 2)" using c1(1) by (simp add: m1_def)
  show "mem_alloc m1 n2 = (m2, page_addr m 3)" using alloc_laid [OF l1 n(2) f2] by (simp add: m2_def m1_def)
  show "mem_alloc m2 n3 = (m3, page_addr m (3 + k))"
    using alloc_laid [OF l2 n(3) f3] by (simp add: m3_def m2_def m1_def)
  show "laid m3 (three_blocks k l)" unfolding m3_def by (rule laid_claim [OF l2 l f3])
  show "page_addr m3 = page_addr m" by (simp add: m3_def m2_def m1_def)
qed

text \<open>Freeing one block of a layout.\<close>

lemma free_block:
  assumes "laid m f" and "f h = k" and "0 < k" and "h < 256"
  shows "mem_free m (page_addr m h) = Some (release m h k)" and "laid (release m h k) (f(h := 0))"
  using free_laid [OF assms(1,4)] laid_release [OF assms(1), of h] assms(2,3) by auto

lemma three_frees:
  assumes l3: "laid m (three_blocks k l)" and k: "0 < k" "0 < l" "k + l \<le> 200"
  defines "m1 \<equiv> release m 2 1"
  defines "m2 \<equiv> release m1 3 k"
  defines "m3 \<equiv> release m2 (3 + k) l"
  shows "mem_free m (page_addr m 2) = Some m1" and "mem_free m1 (page_addr m 3) = Some m2"
    and "mem_free m2 (page_addr m (3 + k)) = Some m3" and "laid m3 (\<lambda>_. 0)"
proof -
  have l1: "laid m1 ((three_blocks k l)(2 := 0))" unfolding m1_def by (rule free_block [OF l3]) (use k in auto)
  have l2: "laid m2 ((three_blocks k l)(2 := 0, 3 := 0))" unfolding m2_def by (rule free_block [OF l1]) (use k in auto)
  have "laid m3 ((three_blocks k l)(2 := 0, 3 := 0, 3 + k := 0))"
    unfolding m3_def by (rule free_block [OF l2]) (use k in auto)
  moreover have "(three_blocks k l)(2 := 0, 3 := 0, 3 + k := 0) = (\<lambda>_. 0)" by auto
  ultimately show "laid m3 (\<lambda>_. 0)" by simp
  show "mem_free m (page_addr m 2) = Some m1" unfolding m1_def by (rule free_block [OF l3]) (use k in auto)
  show "mem_free m1 (page_addr m 3) = Some m2"
    using free_block(1) [OF l1, of 3 k] k by (simp add: m2_def m1_def)
  show "mem_free m2 (page_addr m (3 + k)) = Some m3"
    using free_block(1) [OF l2, of "3 + k" l] k by (simp add: m3_def m2_def m1_def)
qed

lemma pages [simp]:
  "pages_needed 4096 = 1" "pages_needed 100 = 1" "pages_needed 0 = 1" "pages_needed 102400 = 25"
  "pages_needed 20480 = 5" "pages_needed 4095 = 1" "pages_needed 4097 = 2" "pages_needed 8192 = 2"
  "pages_needed 1052672 = 257"
  by (simp_all add: pages_needed_def)

lemma init_valid_passes: "passes testInitValid"
  by (auto simp: passes_def testInitValid_def clean_def step_defs)

lemma out_of_memory_passes: "passes testAllocOutOfMemory"
  using laid_no_fit [of _ "\<lambda>_. 0" 1052672]
  by (auto simp: passes_def testAllocOutOfMemory_def clean_def step_defs)

lemma single_passes:
  "passes testAllocSinglePage" "passes testAllocSmallSize" "passes testAllocLargeSize" "passes testAllocZeroBytes"
  "passes testFreeMultiplePages"
  by (simp_all add: testAllocSinglePage_def testAllocSmallSize_def testAllocLargeSize_def testAllocZeroBytes_def
      testFreeMultiplePages_def one_page_passes)

lemma free_memory_passes: "passes testFreeMemory"
  using clean_alloc [of _ 4096 1] by (auto simp: passes_def testFreeMemory_def clean_def step_defs)

lemma realloc_passes: "passes testFreeAndRealloc"
  unfolding passes_def
proof (intro allI impI)
  fix t assume t: "clean t"
  then have c: "laid (manager t) (\<lambda>_. 0)" by (simp add: clean_def)
  note a = clean_alloc [OF c pages(1), simplified] 
  note b = clean_alloc [OF a(5) pages(1), simplified]
  show "\<exists>t'. run_steps testFreeAndRealloc t = Some (True, t') \<and> clean t' \<and> testPool t' = testPool t"
    using t a b by (simp add: testFreeAndRealloc_def clean_def step_defs)
qed

lemma multiple_passes: "passes testAllocMultiple"
  unfolding passes_def
proof (intro allI impI)
  fix t assume t: "clean t"
  then have c: "laid (manager t) (\<lambda>_. 0)" by (simp add: clean_def)
  note a = three_allocs [OF c pages(1) pages(1) pages(1), simplified]
  note f = three_frees [OF three_allocs(4) [OF c pages(1) pages(1) pages(1)], simplified]
  show "\<exists>t'. run_steps testAllocMultiple t = Some (True, t') \<and> clean t' \<and> testPool t' = testPool t"
    using t a f laid_addr [OF c] laid_addr_eq [OF c] by (simp add: testAllocMultiple_def clean_def step_defs)
qed

lemma boundary_passes: "passes testAllocBoundary"
  unfolding passes_def
proof (intro allI impI)
  fix t assume t: "clean t"
  then have c: "laid (manager t) (\<lambda>_. 0)" by (simp add: clean_def)
  note a = three_allocs [OF c pages(6) pages(7) pages(8), simplified]
  note f = three_frees [OF three_allocs(4) [OF c pages(6) pages(7) pages(8)], simplified]
  show "\<exists>t'. run_steps testAllocBoundary t = Some (True, t') \<and> clean t' \<and> testPool t' = testPool t"
    using t a f laid_addr [OF c] by (simp add: testAllocBoundary_def clean_def step_defs)
qed

text \<open>The middle one of three pages is freed; the next page asked for is that one.\<close>

lemma fragmentation_passes: "passes testAllocFragmentation"
  unfolding passes_def
proof (intro allI impI)
  fix t assume t: "clean t"
  then have c: "laid (manager t) (\<lambda>_. 0)" by (simp add: clean_def)
  define m3 where "m3 = claim (claim (claim (manager t) 2 1) 3 1) 4 1"
  note a = three_allocs [OF c pages(1) pages(1) pages(1), simplified, folded m3_def [simplified]]
  have l3: "laid m3 (three_blocks 1 1)"
    using three_allocs(4) [OF c pages(1) pages(1) pages(1)] by (simp add: m3_def)
  have addr: "page_addr m3 = page_addr (manager t)" by (simp add: m3_def)
  note f1 = free_block [OF l3, of 3 1, simplified]
  have fit: "fits ((three_blocks 1 1)(3 := 0)) 3 1"
  proof (rule fits_one)
    have "busy ((three_blocks 1 1)(3 := 0)) 2" by (rule busyI [of 2]) auto
    then show "busy ((three_blocks 1 1)(3 := 0)) j" if "j < 3" for j
      using that by (cases "j = 2") (auto simp: busy_def)
    show "\<not> busy ((three_blocks 1 1)(3 := 0)) 3"
      unfolding busy_def by (simp split: if_splits)
  qed simp
  note b = alloc_laid [OF f1(2) pages(1), simplified, OF fit [simplified]]
    laid_claim [OF f1(2), of 1 3, simplified, OF fit [simplified]]
  define m5 where "m5 = claim (release m3 3 1) 3 1"
  have l5: "laid m5 (three_blocks 1 1)" using b(2) by (simp add: m5_def fun_upd_twist)
  have addr5: "page_addr m5 = page_addr (manager t)" by (simp add: m5_def addr)
  note f2 = free_block [OF l5, of 2 1, simplified]
  note f3 = free_block [OF f2(2), of 4 1, simplified]
  note f4 = free_block [OF f3(2), of 3 1, simplified]
  have "((\<lambda>_. 0)(2 := 0, 4 := 0, 3 := 0) :: nat \<Rightarrow> nat) = (\<lambda>_. 0)" by auto
  then have "laid (release (release (release m5 2 (Suc 0)) 4 (Suc 0)) 3 (Suc 0)) (\<lambda>_. 0)" using f4(2) by simp
  then show "\<exists>t'. run_steps testAllocFragmentation t = Some (True, t') \<and> clean t' \<and> testPool t' = testPool t"
    using t a b f1 f2 f3 f4 laid_addr [OF c] addr addr5
    by (simp add: testAllocFragmentation_def clean_def step_defs m5_def)
qed

lemma stats_initial_passes: "passes testStatsInitial"
  using laid_clean_free by (auto simp: passes_def testStatsInitial_def clean_def step_defs mem_get_stats_def laid_def)

lemma stats_laid:
  assumes "laid m f"
  shows "st_total (mem_get_stats m) = st_used (mem_get_stats m) + st_free (mem_get_stats m)"
proof -
  have "st_used (mem_get_stats m) + st_free (mem_get_stats m) = (used_pages m + free_pages m) * 4096"
    by (simp add: mem_get_stats_def distrib_right)
  then show ?thesis using laid_total [OF assms] assms by (simp add: mem_get_stats_def laid_def)
qed

lemma stats_change:
  "st_used (mem_get_stats (claim m h (Suc 0))) = st_used (mem_get_stats m) + 4096"
  "st_free (mem_get_stats (claim m h (Suc 0))) = st_free (mem_get_stats m) - 4096"
  "st_used (mem_get_stats (release m h (Suc 0))) = st_used (mem_get_stats m) - 4096"
  "st_free (mem_get_stats (release m h (Suc 0))) = st_free (mem_get_stats m) + 4096"
  by (simp_all add: mem_get_stats_def distrib_right left_diff_distrib)

lemma stats_alloc_passes: "passes testStatsAfterAlloc"
  unfolding passes_def
proof (intro allI impI)
  fix t assume t: "clean t"
  then have c: "laid (manager t) (\<lambda>_. 0)" by (simp add: clean_def)
  note a = clean_alloc [OF c pages(1), simplified]
  show "\<exists>t'. run_steps testStatsAfterAlloc t = Some (True, t') \<and> clean t' \<and> testPool t' = testPool t"
    using t a stats_laid [OF a(2)]
    by (simp add: testStatsAfterAlloc_def clean_def step_defs stats_change)
qed

lemma stats_free_passes: "passes testStatsAfterFree"
  unfolding passes_def
proof (intro allI impI)
  fix t assume t: "clean t"
  then have c: "laid (manager t) (\<lambda>_. 0)" by (simp add: clean_def)
  note a = clean_alloc [OF c pages(1), simplified]
  show "\<exists>t'. run_steps testStatsAfterFree t = Some (True, t') \<and> clean t' \<and> testPool t' = testPool t"
    using t a stats_laid [OF a(5)]
    by (simp add: testStatsAfterFree_def clean_def step_defs stats_change)
qed

section \<open>The suite\<close>

lemma suite_of:
  "add_tests fs s = (if length (suite_tests s) + length fs \<le> 1024 \<or> fs = []
     then Some (s\<lparr>suite_tests := suite_tests s @ map CuTestNew fs\<rparr>) else None)"
  by (induction fs arbitrary: s) (auto simp: CuSuiteAdd_def)

text \<open>A suite of tests that each pass from, and return to, the clean pool: nothing fails and the pool ends clean.\<close>

lemma suite_run:
  assumes "\<forall>f\<in>set fs. passes f" and "clean t"
  shows "\<exists>t'. CuSuiteRun_from (map CuTestNew fs) s t =
     Some (s\<lparr>suite_tests := suite_tests s @ map (\<lambda>f. (CuTestNew f)\<lparr>ran := True\<rparr>) fs\<rparr>, t') \<and> clean t' \<and> testPool t' = testPool t"
  using assms
proof (induction fs arbitrary: s t)
  case (Cons f fs)
  then obtain t1 where t1: "run_steps f t = Some (True, t1)" "clean t1" "testPool t1 = testPool t"
    unfolding passes_def by auto
  from Cons.IH [OF _ t1(2), of "s\<lparr>suite_tests := suite_tests s @ [(CuTestNew f)\<lparr>ran := True\<rparr>]\<rparr>"] Cons.prems(1)
  show ?case using t1 by (auto simp: CuTestRun_def CuTestNew_def)
qed auto

text \<open>
  C40: the unit tests of the memory manager pass. For every pool that does not wrap around the address space, whatever the
  variables held before, the suite runs its 15 tests without undefined behaviour, none of them fails, the summary it prints
  is 15 dots, and the pool ends with every block freed: the invariant holds, no block is live, and the 254 pages behind the
  two tables are free again.
\<close>

theorem memory_tests_pass:
  assumes "testPool t \<noteq> NULL" and "unat (testPool t) + 1048576 \<le> 2 ^ 64"
  shows "\<exists>s t1 s' t'. getMemoryManagerTestSuite t = Some (s, t1) \<and> CuSuiteRun s t1 = Some (s', t') \<and>
           failCount s' = 0 \<and> CuSuiteSummary s' = replicate 15 (CHR ''.'') @ [CHR 0x0A, CHR 0x0A] \<and>
           pm_inv (manager t') \<and> (\<forall>h. run_at (manager t') h = 0) \<and> free_pages (manager t') = 254"
proof -
  let ?fs = "[testInitValid, testAllocOutOfMemory, testAllocSinglePage, testAllocSmallSize, testAllocLargeSize,
             testAllocZeroBytes, testAllocMultiple, testAllocFragmentation, testFreeMemory, testFreeAndRealloc,
             testFreeMultiplePages, testStatsInitial, testStatsAfterAlloc, testStatsAfterFree, testAllocBoundary]"
  let ?t1 = "whenMemoryManagerIsInitialized t"
  obtain m where m: "mem_init (manager t) (testPool t) TEST_POOL_SIZE = (0, m)"
    by (simp add: mem_init_def meta_256 Let_def)
  have "pm_inv m" by (rule mem_init_keeps [OF m]) (use assms in simp_all)
  moreover have "page_count m = 256" "run_at m = (\<lambda>_. 0)"
    using mem_init_shape(1,4) [OF m] by auto
  ultimately have c: "clean ?t1"
    using m assms(1) by (simp add: clean_def laid_def whenMemoryManagerIsInitialized_def)
  have all: "\<forall>f\<in>set ?fs. passes f"
    by (simp add: init_valid_passes out_of_memory_passes single_passes free_memory_passes realloc_passes multiple_passes
        boundary_passes fragmentation_passes stats_initial_passes stats_alloc_passes stats_free_passes)
  have s: "getMemoryManagerTestSuite t = Some (CuSuiteNew\<lparr>suite_tests := map CuTestNew ?fs\<rparr>, ?t1)"
    unfolding getMemoryManagerTestSuite_def by (simp add: suite_of CuSuiteNew_def)
  from suite_run [OF all c, of CuSuiteNew] obtain t' where
    "CuSuiteRun (CuSuiteNew\<lparr>suite_tests := map CuTestNew ?fs\<rparr>) ?t1 =
       Some (CuSuiteNew\<lparr>suite_tests := map (\<lambda>f. (CuTestNew f)\<lparr>ran := True\<rparr>) ?fs\<rparr>, t')" and t': "clean t'"
    by (auto simp: CuSuiteRun_def CuSuiteNew_def)
  moreover have "pm_inv (manager t') \<and> (\<forall>h. run_at (manager t') h = 0) \<and> free_pages (manager t') = 254"
    using t' laid_clean_free [of "manager t'"] by (simp add: clean_def laid_def)
  ultimately show ?thesis
    using s by (simp add: CuSuiteSummary_def CuSuiteNew_def CuTestNew_def numeral_eq_Suc)
qed

definition test_program :: mem_tests where
  "test_program = \<lparr>testPool = 0x10000000, manager = pmem_static, allocated = (\<lambda>_. NULL),
     test_stats = \<lparr>st_total = 0, st_used = 0, st_free = 0\<rparr>, statsBefore_used = 0, statsBefore_free = 0\<rparr>"

theorem memory_tests_pass_witness:
  "testPool test_program \<noteq> NULL \<and> unat (testPool test_program) + 1048576 \<le> 2 ^ 64 \<and>
   (\<exists>s t1 s' t'. getMemoryManagerTestSuite test_program = Some (s, t1) \<and> CuSuiteRun s t1 = Some (s', t') \<and>
      failCount s' = 0 \<and> CuSuiteSummary s' = replicate 15 (CHR ''.'') @ [CHR 0x0A, CHR 0x0A] \<and>
      pm_inv (manager t') \<and> (\<forall>h. run_at (manager t') h = 0) \<and> free_pages (manager t') = 254)"
  using memory_tests_pass [of test_program] by (simp add: test_program_def)

end
