(* ===== verification/Circle.thy ===== *)
theory Circle
  imports Video
begin

text \<open>
  What \<open>drawCircle\<close> of \<open>Kernel/drivers/video/videoDriver.c\<close> paints: the midpoint algorithm on 64-bit words is followed on the
  integers, each row of the figure is measured against the true circle, and the figure is the disc of the given radius up to
  half a pixel, clipped at the edges of the screen.
\<close>

section \<open>The rows of the midpoint algorithm\<close>

text \<open>\<open>edge r k\<close> is the ordinate of the octant's point in column \<open>k\<close>.\<close>

fun edge :: "int \<Rightarrow> nat \<Rightarrow> int" where
  "edge r 0 = r"
| "edge r (Suc k) =
     (if (int k + 1) ^ 2 + edge r k ^ 2 - edge r k < r ^ 2 then edge r k else edge r k - 1)"

text \<open>The columns up to \<open>k\<close> lie in the octant: the loop has not stopped before \<open>k\<close>.\<close>

definition in_octant :: "int \<Rightarrow> nat \<Rightarrow> bool" where
  "in_octant r k \<longleftrightarrow> (\<forall>j<k. int j < edge r j)"

lemma in_octant_Suc: "in_octant r (Suc k) \<longleftrightarrow> in_octant r k \<and> int k < edge r k"
  by (auto simp: in_octant_def less_Suc_eq)

lemma edge_step: "edge r (Suc k) \<le> edge r k" "edge r k - 1 \<le> edge r (Suc k)"
  by simp_all

lemma edge_antimono: "j \<le> k \<Longrightarrow> edge r k \<le> edge r j"
  by (induction k) (auto simp: le_Suc_eq intro: order_trans [OF edge_step(1)])

text \<open>Every point of the octant is the nearest one to the circle in its column.\<close>

lemma edge_near:
  assumes "1 \<le> r" and "in_octant r k"
  shows "int k ^ 2 + edge r k ^ 2 - edge r k \<le> r ^ 2" and "r ^ 2 \<le> int k ^ 2 + edge r k ^ 2 + edge r k"
    and "0 \<le> edge r k" and "int k \<le> edge r k \<Longrightarrow> int k ^ 2 + edge r k ^ 2 - edge r k < r ^ 2"
proof -
  have "int k ^ 2 + edge r k ^ 2 - edge r k \<le> r ^ 2 \<and> r ^ 2 \<le> int k ^ 2 + edge r k ^ 2 + edge r k \<and> 0 \<le> edge r k \<and>
        (int k \<le> edge r k \<longrightarrow> int k ^ 2 + edge r k ^ 2 - edge r k < r ^ 2)"
    using assms(2)
  proof (induction k)
    case 0
    then show ?case using assms(1) by simp
  next
    case (Suc k)
    define y where "y = edge r k"
    have o: "in_octant r k" "int k < y" using Suc.prems by (simp_all add: in_octant_Suc y_def)
    have ih: "int k ^ 2 + y ^ 2 - y < r ^ 2" "r ^ 2 \<le> int k ^ 2 + y ^ 2 + y" "0 \<le> y"
      using Suc.IH [OF o(1)] o(2) by (simp_all add: y_def)
    show ?case
    proof (cases "(int k + 1) ^ 2 + y ^ 2 - y < r ^ 2")
      case True
      then have e: "edge r (Suc k) = y" by (simp add: y_def)
      have "int k ^ 2 \<le> (int k + 1) ^ 2" by (simp add: power2_eq_square algebra_simps)
      then have "r ^ 2 \<le> (int k + 1) ^ 2 + y ^ 2 + y" using ih(2) by linarith
      with True ih(3) show ?thesis unfolding e by (simp add: add.commute)
    next
      case False
      then have e: "edge r (Suc k) = y - 1" by (simp add: y_def)
      have s: "(int k + 1) ^ 2 + (y - 1) ^ 2 + (y - 1) = (int k + 1) ^ 2 + y ^ 2 - y"
        "(int k + 1) ^ 2 + (y - 1) ^ 2 - (y - 1) = int k ^ 2 + y ^ 2 - y + (2 * int k + 3 - 2 * y)"
        by (simp_all add: power2_eq_square algebra_simps)
      have "(int k + 1) ^ 2 + (y - 1) ^ 2 - (y - 1) \<le> r ^ 2" using s(2) ih(1) o(2) by linarith
      moreover have "(int k + 1) ^ 2 + (y - 1) ^ 2 - (y - 1) < r ^ 2" if "int k + 1 \<le> y - 1"
        using s(2) ih(1) that by linarith
      moreover have "r ^ 2 \<le> (int k + 1) ^ 2 + (y - 1) ^ 2 + (y - 1)" using s(1) False by linarith
      ultimately show ?thesis unfolding e using o(2) by (simp add: add.commute)
    qed
  qed
  then show "int k ^ 2 + edge r k ^ 2 - edge r k \<le> r ^ 2" "r ^ 2 \<le> int k ^ 2 + edge r k ^ 2 + edge r k"
    "0 \<le> edge r k" "int k \<le> edge r k \<Longrightarrow> int k ^ 2 + edge r k ^ 2 - edge r k < r ^ 2" by auto
qed

text \<open>The last column: the first one at or past the diagonal.\<close>

lemma last_column:
  assumes "1 \<le> r"
  obtains n where "in_octant r n" and "edge r n \<le> int n" and "int n \<le> r"
proof -
  have top: "edge r k \<le> r" for k using edge_antimono [of 0 k r] by simp
  define n where "n = (LEAST k. edge r k \<le> int k)"
  have ex: "edge r (nat r) \<le> int (nat r)" using top [of "nat r"] assms by simp
  have n: "edge r n \<le> int n" unfolding n_def by (rule LeastI [of "\<lambda>k. edge r k \<le> int k", OF ex])
  have "n \<le> nat r" unfolding n_def by (rule Least_le [of "\<lambda>k. edge r k \<le> int k", OF ex])
  moreover have "in_octant r n"
    using not_less_Least [of _ "\<lambda>k. edge r k \<le> int k"] by (auto simp: in_octant_def n_def not_le)
  ultimately show thesis using that n assms by auto
qed

text \<open>The points \<open>(i, j)\<close>, relative to the centre, of the rows that column \<open>k\<close> of the octant gives.\<close>

definition rows :: "int \<Rightarrow> nat \<Rightarrow> int \<Rightarrow> int \<Rightarrow> bool" where
  "rows r k i j \<longleftrightarrow> \<bar>i\<bar> \<le> int k \<and> \<bar>j\<bar> = edge r k \<or> \<bar>i\<bar> \<le> edge r k \<and> \<bar>j\<bar> = int k"

lemma rows_inside:
  assumes r: "1 \<le> r" and k: "in_octant r k" and p: "rows r k i j"
  shows "i ^ 2 + j ^ 2 \<le> r ^ 2 + r"
proof -
  have "i ^ 2 + j ^ 2 \<le> int k ^ 2 + edge r k ^ 2"
    using p edge_near(3) [OF r k] abs_le_square_iff [of i "int k"] abs_le_square_iff [of i "edge r k"]
    unfolding rows_def by (metis abs_of_nat abs_of_nonneg add.commute add_mono order_refl power2_abs)
  moreover have "edge r k \<le> r" using edge_antimono [of 0 k r] by simp
  ultimately show ?thesis using edge_near(1) [OF r k] by linarith
qed

lemma edge_reaches:
  assumes "a \<le> n" and "edge r n \<le> b" and "b \<le> edge r a"
  shows "\<exists>k. a \<le> k \<and> k \<le> n \<and> edge r k = b"
  using assms
proof (induction n)
  case (Suc n)
  show ?case
  proof (cases "a = Suc n \<or> edge r (Suc n) = b")
    case True
    then show ?thesis using Suc.prems by (metis dual_order.antisym order_refl)
  next
    case False
    then have "a \<le> n" "edge r n \<le> b" using Suc.prems edge_step(2) [of r n] by linarith+
    with Suc.IH Suc.prems(3) show ?thesis by (meson le_SucI)
  qed
qed auto

lemma edge_bound:
  assumes r: "1 \<le> r" and k: "in_octant r k" and b: "int k ^ 2 + b ^ 2 \<le> r ^ 2" "0 \<le> b"
  shows "b \<le> edge r k"
proof (rule ccontr)
  assume "\<not> b \<le> edge r k"
  then have "edge r k + 1 \<le> b" by simp
  then have "(edge r k + 1) ^ 2 \<le> b ^ 2" using edge_near(3) [OF r k] by (intro power_mono) auto
  then have "edge r k ^ 2 + 2 * edge r k + 1 \<le> b ^ 2" by (simp add: power2_eq_square algebra_simps)
  with b edge_near(2,3) [OF r k] show False by linarith
qed

text \<open>Every point of the true disc lies in one of the rows.\<close>

lemma disc_covered:
  assumes r: "1 \<le> r" and n: "in_octant r n" "edge r n \<le> int n" and d: "i ^ 2 + j ^ 2 \<le> r ^ 2"
  shows "\<exists>k \<le> n. rows r k i j"
proof -
  define a where "a = nat \<bar>i\<bar>"
  define b where "b = nat \<bar>j\<bar>"
  have ab: "int a = \<bar>i\<bar>" "int b = \<bar>j\<bar>" by (simp_all add: a_def b_def)
  then have d': "int a ^ 2 + int b ^ 2 \<le> r ^ 2" using d by simp
  have oct: "in_octant r k" if "k \<le> n" for k using n(1) that by (auto simp: in_octant_def)
  have diag: "\<not> (n < a \<and> n < b)"
  proof
    assume "n < a \<and> n < b"
    then have "(int n + 1) ^ 2 \<le> int a ^ 2" "(int n + 1) ^ 2 \<le> int b ^ 2" by (intro power_mono; simp)+
    moreover have "edge r n ^ 2 \<le> int n ^ 2" using n(2) edge_near(3) [OF r n(1)] by (intro power_mono) auto
    ultimately show False
      using d' edge_near(2) [OF r n(1)] n(2) by (simp add: power2_eq_square algebra_simps)
  qed
  show ?thesis
  proof (cases "b \<le> a")
    case True
    with diag have bn: "b \<le> n" by (cases "n < b") auto
    have "int a \<le> edge r b" by (rule edge_bound [OF r oct [OF bn]]) (use d' in simp_all)
    with bn ab show ?thesis by (auto simp: rows_def)
  next
    case False
    with diag have an: "a \<le> n" by (cases "n < a") auto
    have ba: "int b \<le> edge r a" by (rule edge_bound [OF r oct [OF an]]) (use d' in simp_all)
    show ?thesis
    proof (cases "int b < edge r n")
      case True
      then have "b \<le> n" using n(2) by simp
      moreover have "int a \<le> edge r b" using edge_antimono [OF \<open>b \<le> n\<close>, of r] True False by simp
      ultimately show ?thesis using ab by (auto simp: rows_def)
    next
      case bn: False
      then obtain k where "a \<le> k" "k \<le> n" "edge r k = int b" using edge_reaches [OF an _ ba] by auto
      then show ?thesis using ab by (intro exI [of _ k]) (simp add: rows_def)
    qed
  qed
qed

section \<open>Colouring a set of points\<close>

text \<open>\<open>V'\<close> is \<open>V\<close> with the points of \<open>P\<close> that are on the screen in colour \<open>c\<close>.\<close>

definition coloured :: "screen \<Rightarrow> u32 \<Rightarrow> (int \<Rightarrow> int \<Rightarrow> bool) \<Rightarrow> screen \<Rightarrow> bool" where
  "coloured V c P V' \<longleftrightarrow> same_mode V V' \<and>
     (video_ok V \<longrightarrow> (\<forall>x<W V. \<forall>y<H V. pixel V' x y = (if P (int x) (int y) then rgb c else pixel V x y)))"

lemma coloured_none: "coloured V c (\<lambda>_ _. False) V"
  by (simp add: coloured_def)

lemma coloured_trans:
  assumes "coloured V c P V1" and "coloured V1 c Q V2"
  shows "coloured V c (\<lambda>a b. P a b \<or> Q a b) V2"
proof -
  have m: "same_mode V V1" using assms(1) by (simp add: coloured_def)
  then have "video_ok V1 = video_ok V" by (simp add: video_ok_def same_modeD)
  with assms same_mode_trans show ?thesis by (auto simp: coloured_def same_modeD [OF m])
qed

lemma coloured_fold:
  assumes "\<And>z V. z \<in> set zs \<Longrightarrow> coloured V c (P z) (f z V)"
  shows "coloured V c (\<lambda>a b. \<exists>z\<in>set zs. P z a b) (fold f zs V)"
  using assms
proof (induction zs arbitrary: V)
  case (Cons z zs)
  have "coloured V c (\<lambda>a b. P z a b \<or> (\<exists>z\<in>set zs. P z a b)) (fold f zs (f z V))"
    by (rule coloured_trans [OF Cons.prems Cons.IH]) (use Cons.prems in auto)
  then show ?case by simp
qed (simp add: coloured_none)

lemma sint_small: "- (2 ^ 63) \<le> z \<Longrightarrow> z < 2 ^ 63 \<Longrightarrow> sint (word_of_int z :: u64) = z"
  by (simp add: signed_of_int signed_take_bit_int_eq_self)

lemma sless_small:
  "\<bar>a\<bar> < 2 ^ 62 \<Longrightarrow> \<bar>b\<bar> < 2 ^ 62 \<Longrightarrow> (word_of_int a :: u64) <s word_of_int b \<longleftrightarrow> a < b"
  unfolding word_sless_alt by (subst (1 2) sint_small) auto

lemma coloured_pixel: "coloured V c (\<lambda>a b. a = sint x \<and> b = sint y) (putPixelIfValid c x y V)"
proof (cases "0 \<le> sint x \<and> sint x < uint (vbe_width V) \<and> 0 \<le> sint y \<and> sint y < uint (vbe_height V)")
  case True
  have e: "v = of_nat (nat (sint v))" if "0 \<le> sint v" for v :: u64
  proof -
    have "(of_nat (nat (sint v)) :: u64) = of_int (int (nat (sint v)))" by simp
    also have "\<dots> = of_int (sint v)" using that by (simp only: int_nat_eq if_True)
    finally show ?thesis by simp
  qed
  have l: "nat (sint x) < W V" "nat (sint y) < H V" using True by (auto simp: nat_less_iff)
  have p: "putPixelIfValid c x y V = putPixel c (of_nat (nat (sint x))) (of_nat (nat (sint y))) V"
    using True e [of x] e [of y] by (simp add: putPixelIfValid_def getScreenWidth_def getScreenHeight_def)
  show ?thesis
    unfolding coloured_def p using pixel_putPixel [OF _ l(1) _ l(2), of _ _ c] True by auto
next
  case False
  then have "putPixelIfValid c x y V = V"
    by (auto simp: putPixelIfValid_def getScreenWidth_def getScreenHeight_def)
  moreover have "\<not> (int a = sint x \<and> int b = sint y)" if "a < W V" "b < H V" for a b
  proof
    assume "int a = sint x \<and> int b = sint y"
    moreover have "int a < int (W V)" "int b < int (H V)" using that by (simp_all only: of_nat_less_iff)
    ultimately show False using False by auto
  qed
  ultimately show ?thesis by (auto simp: coloured_def)
qed

lemma coloured_hline:
  assumes "x1 \<le> x2" and "- (2 ^ 62) \<le> x1" and "x2 < 2 ^ 62" and "- (2 ^ 62) \<le> y" and "y < 2 ^ 62"
  shows "coloured V c (\<lambda>a b. x1 \<le> a \<and> a \<le> x2 \<and> b = y)
           (drawHLine c (word_of_int x1) (word_of_int x2) (word_of_int y) V)"
proof -
  have s1: "sint (word_of_int x1 :: u64) = x1" by (rule sint_small) (use assms in auto)
  have s2: "sint (word_of_int x2 :: u64) = x2" by (rule sint_small) (use assms in auto)
  have s3: "sint (word_of_int y :: u64) = y" by (rule sint_small) (use assms in auto)
  note s = s1 s2 s3
  have "drawHLine c (word_of_int x1) (word_of_int x2) (word_of_int y) V =
      fold (\<lambda>x. putPixelIfValid c (word_of_int x) (word_of_int y)) [x1..x2] V"
    unfolding drawHLine_def word_sless_alt s using assms(1) by (simp add: s)
  moreover have "coloured V c (\<lambda>a b. \<exists>z\<in>set [x1..x2]. a = z \<and> b = y)
      (fold (\<lambda>x. putPixelIfValid c (word_of_int x) (word_of_int y)) [x1..x2] V)"
  proof (rule coloured_fold)
    fix z V assume "z \<in> set [x1..x2]"
    then have "sint (word_of_int z :: u64) = z" using assms by (intro sint_small) auto
    then show "coloured V c (\<lambda>a b. a = z \<and> b = y) (putPixelIfValid c (word_of_int z) (word_of_int y) V)"
      using coloured_pixel [of V c "word_of_int z" "word_of_int y"] s(3) by simp
  qed
  ultimately show ?thesis by simp
qed

text \<open>The four lines of a column.\<close>

lemma coloured_octants:
  assumes "\<bar>x\<bar> \<le> 2 ^ 40" and "\<bar>y\<bar> \<le> 2 ^ 40" and "0 \<le> dx" and "dx \<le> 2 ^ 20" and "0 \<le> dy" and "dy \<le> 2 ^ 20"
  shows "coloured V c (\<lambda>a b. \<bar>a - x\<bar> \<le> dx \<and> \<bar>b - y\<bar> = dy \<or> \<bar>a - x\<bar> \<le> dy \<and> \<bar>b - y\<bar> = dx)
           (fillCircleOctants c (word_of_int x) (word_of_int y) (word_of_int dx) (word_of_int dy) V)"
proof -
  let ?l = "\<lambda>d e V. drawHLine c (word_of_int (x - d)) (word_of_int (x + d)) (word_of_int (y + e)) V"
  have l: "coloured V c (\<lambda>a b. x - d \<le> a \<and> a \<le> x + d \<and> b = y + e) (?l d e V)"
    if "0 \<le> d" "d \<le> 2 ^ 20" "\<bar>e\<bar> \<le> 2 ^ 20" for d e V
    by (rule coloured_hline) (use that assms(1,2) in auto)
  have "fillCircleOctants c (word_of_int x) (word_of_int y) (word_of_int dx) (word_of_int dy) V =
      ?l dy (- dx) (?l dy dx (?l dx (- dy) (?l dx dy V)))"
    by (simp add: fillCircleOctants_def wi_hom_syms)
  moreover note coloured_trans [OF coloured_trans [OF coloured_trans
        [OF l [of dx dy V] l [of dx "- dy" "?l dx dy V"]] l [of dy dx "?l dx (- dy) (?l dx dy V)"]]
        l [of dy "- dx" "?l dy dx (?l dx (- dy) (?l dx dy V))"]]
  moreover have "(\<lambda>a b. ((x - dx \<le> a \<and> a \<le> x + dx \<and> b = y + dy \<or> x - dx \<le> a \<and> a \<le> x + dx \<and> b = y + - dy) \<or>
        x - dy \<le> a \<and> a \<le> x + dy \<and> b = y + dx) \<or> x - dy \<le> a \<and> a \<le> x + dy \<and> b = y + - dx) =
      (\<lambda>a b. \<bar>a - x\<bar> \<le> dx \<and> \<bar>b - y\<bar> = dy \<or> \<bar>a - x\<bar> \<le> dy \<and> \<bar>b - y\<bar> = dx)"
    using assms by (intro ext) (auto simp: abs_if)
  ultimately show ?thesis using assms by simp
qed

section \<open>The loop\<close>

text \<open>The decision variable of the code: the midpoint below the edge, relative to the circle.\<close>

definition decision :: "int \<Rightarrow> nat \<Rightarrow> int" where
  "decision r k = (int k + 1) ^ 2 + edge r k ^ 2 - edge r k - r ^ 2"

lemma edge_decision: "edge r (Suc k) = (if decision r k < 0 then edge r k else edge r k - 1)"
  by (simp add: decision_def)

lemma decision_Suc:
  "decision r (Suc k) = (if decision r k < 0 then decision r k + (2 * (int k + 1) + 1)
     else decision r k + (2 * (int k + 1) + 1 - 2 * (edge r k - 1)))"
  unfolding decision_def [of r "Suc k"] edge_decision
  by (simp add: decision_def power2_eq_square algebra_simps)

lemma decision_bounds:
  assumes "1 \<le> r" and "r \<le> 2 ^ 20" and "in_octant r k" and "int k \<le> r"
  shows "\<bar>decision r k\<bar> \<le> 2 ^ 22"
  using edge_near [OF assms(1,3)] edge_antimono [of 0 k r] assms(2,4)
  by (auto simp: decision_def abs_le_iff power2_eq_square algebra_simps)

lemma circle_loop_rows:
  assumes r: "1 \<le> r" "r \<le> 2 ^ 20" and n: "in_octant r n" "edge r n \<le> int n" "int n \<le> r" and k: "k \<le> n"
  shows "circle_loop c xc yc (word_of_int (int k)) (word_of_int (edge r k)) (word_of_int (decision r k)) V =
         fold (\<lambda>k. fillCircleOctants c xc yc (word_of_int (int k)) (word_of_int (edge r k))) [Suc k..<Suc n] V"
  using k
proof (induction "n - k" arbitrary: k V)
  case 0
  then have "k = n" by simp
  moreover have "\<not> (word_of_int (int n) :: u64) <s word_of_int (edge r n)"
    using n r edge_near(3) [OF r(1) n(1)] by (subst sless_small) auto
  ultimately show ?case by (simp add: circle_loop.simps)
next
  case (Suc d)
  then have k: "k < n" by simp
  then have o: "in_octant r k" "int k < edge r k" using n(1) by (auto simp: in_octant_def)
  have er: "edge r k \<le> r" using edge_antimono [of 0 k r] by simp
  have lt: "(word_of_int (int k) :: u64) <s word_of_int (edge r k)"
    using o(2) er r by (subst sless_small) auto
  have neg: "(word_of_int (decision r k) :: u64) <s 0 \<longleftrightarrow> decision r k < 0"
    using decision_bounds [OF r o(1)] k n(3) sless_small [of "decision r k" 0] by simp
  have e: "word_of_int (edge r (Suc k)) =
      (if (word_of_int (decision r k) :: u64) <s 0 then word_of_int (edge r k) else word_of_int (edge r k) - 1 :: u64)"
    unfolding neg edge_decision by (simp add: wi_hom_syms)
  have p: "word_of_int (decision r (Suc k)) =
      (if (word_of_int (decision r k) :: u64) <s 0
       then word_of_int (decision r k) + (2 * (word_of_int (int k) + 1) + 1)
       else word_of_int (decision r k) + (2 * (word_of_int (int k) + 1) + 1 - 2 * word_of_int (edge r (Suc k))) :: u64)"
    unfolding neg decision_Suc edge_decision by (simp add: wi_hom_syms)
  have s: "word_of_int (int (Suc k)) = (word_of_int (int k) + 1 :: u64)" by (simp add: wi_hom_syms)
  have "circle_loop c xc yc (word_of_int (int k)) (word_of_int (edge r k)) (word_of_int (decision r k)) V =
      circle_loop c xc yc (word_of_int (int (Suc k))) (word_of_int (edge r (Suc k))) (word_of_int (decision r (Suc k)))
        (fillCircleOctants c xc yc (word_of_int (int (Suc k))) (word_of_int (edge r (Suc k))) V)"
    by (subst circle_loop.simps) (simp only: Let_def if_P [OF lt] p e s)
  also have "\<dots> = fold (\<lambda>k. fillCircleOctants c xc yc (word_of_int (int k)) (word_of_int (edge r k))) [Suc (Suc k)..<Suc n]
        (fillCircleOctants c xc yc (word_of_int (int (Suc k))) (word_of_int (edge r (Suc k))) V)"
    by (rule Suc.hyps(1)) (use Suc.hyps(2) k in auto)
  also have "\<dots> = fold (\<lambda>k. fillCircleOctants c xc yc (word_of_int (int k)) (word_of_int (edge r k))) [Suc k..<Suc n] V"
    using k by (simp add: upt_conv_Cons [of "Suc k" "Suc n"] del: upt_Suc edge.simps)
  finally show ?case .
qed

section \<open>Circles\<close>

text \<open>The points of a circle do not depend on its colour or on what is on the screen.\<close>

lemma circle_coloured:
  assumes "r \<le> 2 ^ 20" and "\<bar>x\<bar> \<le> 2 ^ 40" and "\<bar>y\<bar> \<le> 2 ^ 40"
  obtains P where "\<And>c V. coloured V c P (drawCircle (of_nat r) c (word_of_int x) (word_of_int y) V)"
    and "\<And>a b. (a - x) ^ 2 + (b - y) ^ 2 \<le> int r ^ 2 \<Longrightarrow> P a b"
    and "\<And>a b. P a b \<Longrightarrow> (a - x) ^ 2 + (b - y) ^ 2 \<le> int r ^ 2 + int r"
proof (cases "r = 0")
  case True
  have s: "sint (word_of_int x :: u64) = x" by (rule sint_small) (use assms(2) in auto)
  have t: "sint (word_of_int y :: u64) = y" by (rule sint_small) (use assms(3) in auto)
  show thesis
  proof (rule that [of "\<lambda>a b. a = x \<and> b = y"])
    fix c V
    have "drawCircle (of_nat r) c (word_of_int x) (word_of_int y) V = putPixelIfValid c (word_of_int x) (word_of_int y) V"
      using True by (simp add: drawCircle_def)
    then show "coloured V c (\<lambda>a b. a = x \<and> b = y) (drawCircle (of_nat r) c (word_of_int x) (word_of_int y) V)"
      using coloured_pixel [of V c "word_of_int x" "word_of_int y"] unfolding s t by simp
  next
    fix a b :: int assume "(a - x) ^ 2 + (b - y) ^ 2 \<le> int r ^ 2"
    then show "a = x \<and> b = y" using True sum_power2_le_zero_iff [of "a - x" "b - y"] by simp
  qed simp
next
  case False
  let ?r = "int r"
  have r: "1 \<le> ?r" "?r \<le> 2 ^ 20" using False assms(1) by auto
  obtain n where n: "in_octant ?r n" "edge ?r n \<le> int n" "int n \<le> ?r" using last_column [OF r(1)] .
  let ?fill = "\<lambda>c k. fillCircleOctants c (word_of_int x) (word_of_int y) (word_of_int (int k)) (word_of_int (edge ?r k))"
  have a: "drawCircle (of_nat r) c (word_of_int x) (word_of_int y) V = fold (?fill c) [0..<Suc n] V" for c V
  proof -
    have "\<not> (word_of_int ?r :: u64) \<le>s 0"
      using sless_small [of 0 ?r] r unfolding word_sless_alt word_sle_eq by simp
    moreover have "word_of_int (decision ?r 0) = (1 - word_of_int ?r :: u64)"
      by (simp add: decision_def wi_hom_syms)
    ultimately show ?thesis
      using circle_loop_rows [OF r n, of 0 c "word_of_int x" "word_of_int y" "?fill c 0 V"]
      by (simp add: drawCircle_def upt_conv_Cons [of 0 "Suc n"] del: upt_Suc)
  qed
  have b: "coloured V c (\<lambda>a b. \<exists>k\<in>set [0..<Suc n]. rows ?r k (a - x) (b - y)) (fold (?fill c) [0..<Suc n] V)" for c V
  proof (rule coloured_fold)
    fix k V assume "k \<in> set [0..<Suc n]"
    then have k: "k \<le> n" by auto
    then have "in_octant ?r k" using n(1) by (auto simp: in_octant_def)
    note e = edge_near(3) [OF r(1) this] edge_antimono [of 0 k ?r]
    show "coloured V c (\<lambda>a b. rows ?r k (a - x) (b - y)) (?fill c k V)"
      unfolding rows_def by (rule coloured_octants) (use assms k n(3) e r in auto)
  qed
  have c: "\<exists>k\<in>set [0..<Suc n]. rows ?r k (a - x) (b - y)" if "(a - x) ^ 2 + (b - y) ^ 2 \<le> ?r ^ 2" for a b
  proof -
    from disc_covered [OF r(1) n(1,2) that] obtain k where "k \<le> n" "rows ?r k (a - x) (b - y)" by blast
    then show ?thesis by (intro bexI [of _ k]) auto
  qed
  have d: "(a - x) ^ 2 + (b - y) ^ 2 \<le> ?r ^ 2 + ?r" if k: "k \<in> set [0..<Suc n]" "rows ?r k (a - x) (b - y)" for a b k
  proof (rule rows_inside [OF r(1) _ k(2)])
    show "in_octant ?r k" using n(1) k(1) by (auto simp: in_octant_def)
  qed
  show thesis
    by (rule that [of "\<lambda>a b. \<exists>k\<in>set [0..<Suc n]. rows ?r k (a - x) (b - y)"])
      (unfold a, rule b, erule c, erule bexE, erule (1) d)
qed

text \<open>
  C21: circles. A circle of radius \<open>r\<close> colours, of the points of the screen, every one whose distance from the centre is at
  most \<open>r\<close>, and none whose squared distance is more than \<open>r\<^sup>2 + r\<close>, that is, half a pixel further out; the centre may lie
  outside the screen. The radius is at most \<open>2 ^ 20\<close> and the coordinates of the centre at most \<open>2 ^ 40\<close> either way. Drawn again in another colour, as the game does to erase, it leaves nothing of the first.
\<close>

theorem circle_is_a_disc:
  assumes "video_ok V" and "r \<le> 2 ^ 20" and "\<bar>x\<bar> \<le> 2 ^ 40" and "\<bar>y\<bar> \<le> 2 ^ 40" and "x' < W V" and "y' < H V"
  defines "circle \<equiv> \<lambda>c. drawCircle (of_nat r) c (word_of_int x) (word_of_int y)"
    and "d \<equiv> (int x' - x) ^ 2 + (int y' - y) ^ 2"
  shows "(d \<le> int r ^ 2 \<longrightarrow> pixel (circle c V) x' y' = rgb c) \<and>
         (int r ^ 2 + int r < d \<longrightarrow> pixel (circle c V) x' y' = pixel V x' y') \<and>
         pixel (circle c' (circle c V)) x' y' = pixel (circle c' V) x' y'"
proof -
  obtain P where P: "\<And>c V. coloured V c P (circle c V)"
    "\<And>a b. (a - x) ^ 2 + (b - y) ^ 2 \<le> int r ^ 2 \<Longrightarrow> P a b"
    "\<And>a b. P a b \<Longrightarrow> (a - x) ^ 2 + (b - y) ^ 2 \<le> int r ^ 2 + int r"
    unfolding circle_def using circle_coloured [OF assms(2-4)] by blast
  have m: "same_mode V (circle c V)" using P(1) by (simp add: coloured_def)
  then have ok: "video_ok (circle c V)" "x' < W (circle c V)" "y' < H (circle c V)"
    using assms(1,5,6) by (simp_all only: video_ok_def same_modeD [OF m])
  have px: "video_ok U \<Longrightarrow> x' < W U \<Longrightarrow> y' < H U \<Longrightarrow>
      pixel (circle k U) x' y' = (if P (int x') (int y') then rgb k else pixel U x' y')" for k U
    using P(1) [of U k] unfolding coloured_def by blast
  have "d \<le> int r ^ 2 \<longrightarrow> P (int x') (int y')" "int r ^ 2 + int r < d \<longrightarrow> \<not> P (int x') (int y')"
    using P(2,3) [of "int x'" "int y'"] by (auto simp: d_def)
  then show ?thesis using px [OF assms(1,5,6)] px [OF ok] by auto
qed

theorem circle_is_a_disc_witness:
  "pixel (drawCircle (of_nat 50) 0xFF0000 (word_of_int 100) (word_of_int 100) demo_screen) 130 140 = [0, 0, 0xFF] \<and>
   pixel (drawCircle (of_nat 50) 0xFF0000 (word_of_int 100) (word_of_int 100) demo_screen) 151 100 = [7, 7, 7] \<and>
   pixel (drawCircle (of_nat 9) 0xFF00 (word_of_int 3) (word_of_int (- 7)) demo_screen) 6 1 = [0, 0xFF, 0]"
proof -
  have p: "pixel demo_screen a b = [7, 7, 7]" for a b by (simp add: pixel_def demo_screen_def upt_rec)
  show ?thesis
    using circle_is_a_disc [OF demo_screen_ok(1), of 50 100 100 130 140 "0xFF0000"]
      circle_is_a_disc [OF demo_screen_ok(1), of 50 100 100 151 100 "0xFF0000"]
      circle_is_a_disc [OF demo_screen_ok(1), of 9 3 "- 7" 6 1 "0xFF00"]
    unfolding demo_screen_ok(2,3) p by (simp add: rgb_def)
qed

end
