(* ===== verification/Animations.thy ===== *)
theory Animations
  imports Circle Semaphore UserLib
begin

text \<open>
  The drawing processes \<open>Kernel/proc/test_processes.c\<close>, which call the kernel's functions, and their copies for user space in
  \<open>Userland/UserLib/test_processes.c\<close>. Each clears its box and draws a circle in the middle of it, frame after frame, the
  radius going up and down. The waiting loops between frames have no effect. The processes that never end are given by the
  number of frames that they have drawn.
\<close>

section \<open>The radius\<close>

abbreviation CIRCLE_RADIUS :: int where "CIRCLE_RADIUS \<equiv> 50"
abbreviation BOX_SIZE :: u64 where "BOX_SIZE \<equiv> 120"

definition next_radius :: "int \<times> bool \<Rightarrow> int \<times> bool" where
  "next_radius rg =
     (let (radius, growing) = rg
      in if growing
         then let radius = radius + 2 in (radius, if radius \<ge> CIRCLE_RADIUS then False else growing)
         else let radius = radius - 2 in (radius, if radius \<le> 5 then True else growing))"

definition radius_ok :: "int \<times> bool \<Rightarrow> bool" where
  "radius_ok rg \<longleftrightarrow> 5 \<le> fst rg \<and> fst rg \<le> 51 \<and> odd (fst rg) \<and> (snd rg \<longrightarrow> fst rg < 50) \<and> (\<not> snd rg \<longrightarrow> 5 < fst rg)"

lemma radius_ok_next: "radius_ok rg \<Longrightarrow> radius_ok (next_radius rg)"
  by (cases rg) (auto simp: radius_ok_def next_radius_def Let_def elim!: oddE)

section \<open>The processes of the kernel\<close>

definition frame :: "u32 \<Rightarrow> u64 \<Rightarrow> u64 \<Rightarrow> u64 \<Rightarrow> u64 \<Rightarrow> int \<Rightarrow> screen \<Rightarrow> screen" where
  "frame color bx bY cx cy radius V = Video.drawCircle (word_of_int radius) color cx cy (Video.drawRectangle BOX_SIZE BOX_SIZE 0x000000 bx bY V)"

fun frames :: "nat \<Rightarrow> (int \<Rightarrow> screen \<Rightarrow> screen) \<Rightarrow> int \<times> bool \<Rightarrow> screen \<Rightarrow> (int \<times> bool) \<times> screen" where
  "frames 0 f rg V = (rg, V)"
| "frames (Suc n) f rg V = frames n f (next_radius rg) (f (fst rg) V)"

definition frame_A :: "int \<Rightarrow> screen \<Rightarrow> screen" where "frame_A = frame 0xFF0000 40 40 100 100"
definition frame_B :: "int \<Rightarrow> screen \<Rightarrow> screen" where "frame_B = frame 0x00FF00 240 40 300 100"
definition frame_C :: "int \<Rightarrow> screen \<Rightarrow> screen" where "frame_C = frame 0x0000FF 440 40 500 100"

text \<open>After the wait, at once or when another process posts: the frames, and the post.\<close>

definition guarded_frames :: "(int \<Rightarrow> screen \<Rightarrow> screen) \<Rightarrow> ptr \<Rightarrow> system \<times> screen \<Rightarrow> (system \<times> screen) option" where
  "guarded_frames f s X =
     (let (S, V) = X; (_, V) = frames 2000 f (5, True) V in do { S \<leftarrow> Semaphore.semPost s S; Some (S, V) })"

definition guarded_process :: "(int \<Rightarrow> screen \<Rightarrow> screen) \<Rightarrow> ptr \<Rightarrow> system \<times> screen \<Rightarrow> (int ctl \<times> ptr \<times> system \<times> screen) option" where
  "guarded_process f sp X =
     do {
       (s, S) \<leftarrow> Semaphore.semOpen (Some (''Tester'' @ [nul])) 1 (fst X);
       (r, S) \<leftarrow> Semaphore.semWait sp s S;
       (case r of
          Switch sp' \<Rightarrow> Some (Switch sp', s, S, snd X)
        | Ret _ \<Rightarrow> do { X \<leftarrow> guarded_frames f s (S, snd X); Some (Ret 0, s, X) })
     }"

definition processA :: "ptr \<Rightarrow> system \<times> screen \<Rightarrow> (int ctl \<times> ptr \<times> system \<times> screen) option" where
  "processA = guarded_process frame_A"

definition processB :: "ptr \<Rightarrow> system \<times> screen \<Rightarrow> (int ctl \<times> ptr \<times> system \<times> screen) option" where
  "processB = guarded_process frame_B"

definition processC :: "nat \<Rightarrow> screen \<Rightarrow> screen" where
  "processC n V = snd (frames n frame_C (5, True) V)"

section \<open>The processes of user space\<close>

fun user_frames :: "'w kernel_calls \<Rightarrow> nat \<Rightarrow> u32 \<Rightarrow> u64 \<Rightarrow> u64 \<Rightarrow> int \<times> bool \<Rightarrow> 'w \<Rightarrow> 'w option" where
  "user_frames k 0 color bx cx rg w = Some w"
| "user_frames k (Suc n) color bx cx rg w =
     do {
       w \<leftarrow> UserLib.drawRectangle k BOX_SIZE BOX_SIZE 0x000000 bx 40 w;
       w \<leftarrow> UserLib.drawCircle k (word_of_int (fst rg)) color cx 100 w;
       user_frames k n color bx cx (next_radius rg) w
     }"

definition test_processA :: "'w kernel_calls \<Rightarrow> nat \<Rightarrow> 'w \<Rightarrow> 'w option" where
  "test_processA k n w = user_frames k n 0xFF0000 40 100 (5, True) w"

definition test_processB :: "'w kernel_calls \<Rightarrow> nat \<Rightarrow> 'w \<Rightarrow> 'w option" where
  "test_processB k n w = user_frames k n 0x00FF00 240 300 (5, True) w"

definition test_processC :: "'w kernel_calls \<Rightarrow> nat \<Rightarrow> 'w \<Rightarrow> 'w option" where
  "test_processC k n w = user_frames k n 0x0000FF 440 500 (5, True) w"

section \<open>Clean frames\<close>

text \<open>
  On a screen that the box fits on, a frame leaves every pixel outside of the box alone; inside of it the disc is in the
  circle's colour and everything further out is black again: no frame leaves a trace in the next.
\<close>

lemma frame_is_clean:
  fixes c :: u32
  assumes ok: "video_ok V" and fits: "bx + 120 \<le> W V" "y + 120 \<le> H V" and rad: "5 \<le> r" "r \<le> 51"
    and p: "x' < W V" "y' < H V"
  defines "V' \<equiv> frame c (of_nat bx) (of_nat y) (of_nat (bx + 60)) (of_nat (y + 60)) r V"
    and "d \<equiv> (int x' - int (bx + 60)) ^ 2 + (int y' - int (y + 60)) ^ 2"
  shows "(x' < bx \<or> bx + 120 \<le> x' \<or> y' < y \<or> y + 120 \<le> y' \<longrightarrow> pixel V' x' y' = pixel V x' y') \<and>
         (d \<le> r ^ 2 \<longrightarrow> pixel V' x' y' = rgb c) \<and>
         (bx \<le> x' \<and> x' < bx + 120 \<and> y \<le> y' \<and> y' < y + 120 \<and> r ^ 2 + r < d \<longrightarrow> pixel V' x' y' = [0, 0, 0])"
proof -
  have rr: "word_of_int r = (of_nat (nat r) :: u64)" "int (nat r) = r" using rad by auto
  have small: "W V < 2 ^ 16" "H V < 2 ^ 16"
    using unsigned_less [of "vbe_width V", where 'a = nat] unsigned_less [of "vbe_height V", where 'a = nat] by simp_all
  define R where "R = Video.drawRectangle (of_nat 120) (of_nat 120) 0 (of_nat bx) (of_nat y) V"
  have R: "R = paint 0 (box bx y 120 120) V" unfolding R_def by (rule drawRectangle_paint [OF fits])
  have m: "same_mode V R" unfolding R by simp
  have okR: "video_ok R" "x' < W R" "y' < H R" using ok p by (simp_all only: video_ok_def same_modeD [OF m])
  have inb: "\<forall>(a, b)\<in>set (box bx y 120 120). a < W V \<and> b < H V" using fits by auto
  have pR: "pixel R x' y' = (if (x', y') \<in> set (box bx y 120 120) then rgb 0 else pixel V x' y')"
    unfolding R by (rule pixel_paint [OF ok inb p])
  obtain P where P: "\<And>c V. coloured V c P (Video.drawCircle (of_nat (nat r)) c (word_of_int (int (bx + 60))) (word_of_int (int (y + 60))) V)"
    "\<And>a b. (a - int (bx + 60)) ^ 2 + (b - int (y + 60)) ^ 2 \<le> int (nat r) ^ 2 \<Longrightarrow> P a b"
    "\<And>a b. P a b \<Longrightarrow> (a - int (bx + 60)) ^ 2 + (b - int (y + 60)) ^ 2 \<le> int (nat r) ^ 2 + int (nat r)"
    by (rule circle_coloured [of "nat r" "int (bx + 60)" "int (y + 60)"]) (use rad small fits in auto)
  have V': "V' = Video.drawCircle (of_nat (nat r)) c (word_of_int (int (bx + 60))) (word_of_int (int (y + 60))) R"
    unfolding V'_def frame_def R_def rr(1) by simp
  have px: "pixel V' x' y' = (if P (int x') (int y') then rgb c else pixel R x' y')"
    using P(1) [of R c] okR unfolding V' coloured_def by blast
  have far: "r ^ 2 + r < d" if "x' < bx \<or> bx + 120 \<le> x' \<or> y' < y \<or> y + 120 \<le> y'"
  proof -
    have "60 \<le> \<bar>int x' - int (bx + 60)\<bar> \<or> 60 \<le> \<bar>int y' - int (y + 60)\<bar>" using that by auto
    then have "3600 \<le> (int x' - int (bx + 60)) ^ 2 \<or> 3600 \<le> (int y' - int (y + 60)) ^ 2"
      using power_mono [of 60 "\<bar>int x' - int (bx + 60)\<bar>" 2] power_mono [of 60 "\<bar>int y' - int (y + 60)\<bar>" 2] by auto
    moreover have "0 \<le> (int x' - int (bx + 60)) ^ 2" "0 \<le> (int y' - int (y + 60)) ^ 2" by simp_all
    moreover have "r ^ 2 \<le> 2601" using power_mono [of r 51 2] rad by simp
    ultimately show ?thesis using rad unfolding d_def by linarith
  qed
  have "d \<le> r ^ 2 \<longrightarrow> P (int x') (int y')" "r ^ 2 + r < d \<longrightarrow> \<not> P (int x') (int y')"
    using P(2,3) [of "int x'" "int y'", unfolded rr(2)] unfolding d_def by linarith+
  then show ?thesis using px pR far by (auto simp: rgb_def)
qed

text \<open>However long it runs, the radius stays between 5 and 51, so every frame is a clean one.\<close>

lemma frames_radius: "radius_ok rg \<Longrightarrow> radius_ok (fst (frames n f rg V))"
  by (induction n arbitrary: rg V) (simp_all add: radius_ok_next)

lemma frames_last: "frames (Suc n) f rg V = (let (rg', V') = frames n f rg V in (next_radius rg', f (fst rg') V'))"
  by (induction n arbitrary: rg V) (auto simp: Let_def split: prod.split)

lemma processC_frame:
  "\<exists>r V'. 5 \<le> r \<and> r \<le> 51 \<and> processC (Suc n) V = frame_C r V' \<and> V' = processC n V"
proof -
  obtain rg V' where f: "frames n frame_C (5, True) V = (rg, V')" by (cases "frames n frame_C (5, True) V")
  have "radius_ok rg" using frames_radius [of "(5, True)" n frame_C V] f by (simp add: radius_ok_def)
  then show ?thesis
    using f unfolding processC_def frames_last by (intro exI [of _ "fst rg"] exI [of _ V']) (simp add: radius_ok_def)
qed

end
