(* ===== verification/PipeStream.thy ===== *)
theory PipeStream
  imports Pipe
begin

text \<open>
  A pipe of \<open>Kernel/ipc/pipe.c\<close> under any interleaving of processes that write to it and read from it, blocking and being
  woken. The loops of \<open>pipe_write\<close> and \<open>pipe_read\<close> are cut at the places where the processor can change hands: the wait on
  the semaphore, and what follows it (\<open>pipe_put\<close>, \<open>pipe_get\<close>), which a process that had to wait runs when it is chosen again.
\<close>

section \<open>Two semaphores that share the kernel\<close>

text \<open>The blocks of a waiting queue; the memory of both queues and of everything else.\<close>

definition wq :: "system \<Rightarrow> ptr \<Rightarrow> ptr multiset" where
  "wq S s = mset (blocks (waitingProcesses (the (sems S s))))"

definition two_sems :: "ptr multiset \<Rightarrow> system \<Rightarrow> ptr \<Rightarrow> ptr \<Rightarrow> bool" where
  "two_sems R S a b \<longleftrightarrow>
     a \<noteq> b \<and> sem_inv S a \<and> sem_inv S b \<and> sched_inv (kern S) \<and> mem_ok (R + wq S a + wq S b) (kern S) \<and>
     \<not> pendingDestruction (the (sems S a)) \<and> \<not> pendingDestruction (the (sems S b)) \<and>
     set (waiting S a) \<inter> set (waiting S b) = {}"

lemma two_sems_sym: "two_sems R S a b \<Longrightarrow> two_sems R S b a"
  by (auto simp: two_sems_def ac_simps)

lemma sem_mem_wq: "sem_inv S s \<Longrightarrow> sem_mem R S s \<longleftrightarrow> mem_ok (R + wq S s) (kern S)"
  by (auto simp: sem_mem_def wq_def sem_inv_def)

lemma two_semsD:
  assumes "two_sems R S a b"
  shows "sem_inv S a" and "sched_inv (kern S)" and "sem_mem (R + wq S b) S a"
    and "\<not> pendingDestruction (the (sems S a))" and "sem_inv S b" and "a \<noteq> b"
  using assms sem_mem_wq [of S a "R + wq S b"] by (auto simp: two_sems_def ac_simps)

text \<open>An operation on \<open>a\<close> leaves \<open>b\<close> as it was.\<close>

lemma other_sem:
  assumes "sem_inv S b" and "sems S' b = sems S b" and "set (waiting S b) \<subseteq> blocked_pids (kern S')"
  shows "sem_inv S' b" and "val S' b = val S b" and "waiting S' b = waiting S b"
  using assms by (auto simp: sem_inv_def val_def waiting_def)

lemma two_sems_step:
  assumes t: "two_sems R S a b" and a: "sem_inv S' a" "sched_inv (kern S')" "sem_mem (R + wq S b) S' a"
      "pendingDestruction (the (sems S' a)) = pendingDestruction (the (sems S a))"
    and b: "\<forall>t. t \<noteq> a \<longrightarrow> sems S' t = sems S t" "set (waiting S b) \<subseteq> blocked_pids (kern S')"
    and d: "set (waiting S' a) \<inter> set (waiting S b) = {}"
  shows "two_sems R S' a b" and "val S' b = val S b" and "waiting S' b = waiting S b"
proof -
  have sb: "sems S' b = sems S b" using b(1) t by (auto simp: two_sems_def)
  note o = other_sem [OF two_semsD(5) [OF t] sb b(2)]
  have "wq S' b = wq S b" by (simp add: wq_def sb)
  then have "mem_ok (R + wq S' a + wq S' b) (kern S')"
    using a(3) sem_mem_wq [OF a(1), of "R + wq S b"] by (simp add: ac_simps)
  then show "two_sems R S' a b" using t a o d sb by (auto simp: two_sems_def)
  show "val S' b = val S b" "waiting S' b = waiting S b" by (rule o)+
qed

lemma waiting_blocked: "sem_inv S s \<Longrightarrow> set (waiting S s) \<subseteq> blocked_pids (kern S)"
  by (simp add: sem_inv_def)

lemma running_pid_free:
  assumes "sched_inv k" and "on_cpu k"
  shows "pid (pr_of k (currentProcess k)) \<notin> blocked_pids k" and "getPid k \<noteq> None"
proof -
  have c: "currentProcess k \<in> set (table k)" "st_of k (currentProcess k) = RUNNING"
    using assms(2) by (auto simp: on_cpu_def in_state_def)
  show "getPid k \<noteq> None" using table_okD(3) [OF sched_invD(1) [OF assms(1)] c(1)] by (simp add: getPid_def pcb_def)
  show "pid (pr_of k (currentProcess k)) \<notin> blocked_pids k"
  proof
    assume "pid (pr_of k (currentProcess k)) \<in> blocked_pids k"
    then obtain p where p: "p \<in> in_state k BLOCKED" "pid (pr_of k p) = pid (pr_of k (currentProcess k))"
      by (rule blocked_pidsE)
    then have "p = currentProcess k"
      using table_okD(4) [OF sched_invD(1) [OF assms(1)] _ c(1)] by (auto simp: in_state_def)
    with p(1) c(2) show False by (auto simp: in_state_def)
  qed
qed

lemma two_enter:
  assumes t: "two_sems R S a b" and v: "0 < val S a" and on: "on_cpu (kern S)"
  shows "\<exists>S'. semWait sp a S = Some (Ret (), S') \<and> two_sems R S' a b \<and> val S' a = val S a - 1 \<and> val S' b = val S b \<and>
           kern S' = kern S \<and> (\<forall>n. getSem n S' = getSem n S) \<and> waiting S' a = waiting S a \<and> waiting S' b = waiting S b"
proof -
  note d = two_semsD [OF t]
  from semWait_free [OF d(1) v running_pid_free(2) [OF d(2) on], of sp] obtain S' where
    s: "semWait sp a S = Some (Ret (), S')" "sem_inv S' a" "kern S' = kern S" "val S' a = val S a - 1" "waiting S' a = []"
      "\<forall>t. t \<noteq> a \<longrightarrow> sems S' t = sems S t" "sem_mem (R + wq S b) S' a"
      "pendingDestruction (the (sems S' a)) = pendingDestruction (the (sems S a))" "\<forall>n. getSem n S' = getSem n S"
    using d(3) by auto
  have "two_sems R S' a b" "val S' b = val S b" "waiting S' b = waiting S b"
    by (rule two_sems_step [OF t s(2) _ s(7,8,6)], use s d waiting_blocked [OF d(5)] in simp_all)+
  moreover have "waiting S a = []" using d(1) v by (auto simp: sem_inv_def)
  ultimately show ?thesis using s by (intro exI [of _ S']) simp
qed

lemma two_block:
  assumes t: "two_sems R S a b" and v: "val S a \<le> 0" "- (2 ^ 31) < val S a" and on: "on_cpu (kern S)"
    and pg: "2 < pages_left (kern S)" and nz: "pid (pr_of (kern S) (currentProcess (kern S))) \<noteq> 0"
  shows "\<exists>sp' S'. semWait sp a S = Some (Switch sp', S') \<and> two_sems R S' a b \<and> val S' a = val S a - 1 \<and> val S' b = val S b \<and>
           (\<forall>n. getSem n S' = getSem n S) \<and> waiting S' b = waiting S b \<and>
           waiting S' a = waiting S a @ [pid (pr_of (kern S) (currentProcess (kern S)))]"
proof -
  note d = two_semsD [OF t]
  let ?i = "pid (pr_of (kern S) (currentProcess (kern S)))"
  from semWait_blocks [OF d(1) v d(2,3) pg on nz, of sp] obtain sp' S' where
    s: "semWait sp a S = Some (Switch sp', S')" "sem_inv S' a" "sched_inv (kern S')" "sem_mem (R + wq S b) S' a"
      "val S' a = val S a - 1" "waiting S' a = waiting S a @ [?i]"
      "pendingDestruction (the (sems S' a)) = pendingDestruction (the (sems S a))" "\<forall>n. getSem n S' = getSem n S"
      "\<forall>t. t \<noteq> a \<longrightarrow> sems S' t = sems S t" "blocked_pids (kern S) \<subseteq> blocked_pids (kern S')" by auto
  have fresh: "?i \<notin> set (waiting S b)"
    using running_pid_free(1) [OF d(2) on] waiting_blocked [OF d(5)] by blast
  have wb: "set (waiting S b) \<subseteq> blocked_pids (kern S')" using waiting_blocked [OF d(5)] s(10) by blast
  have dj: "set (waiting S' a) \<inter> set (waiting S b) = {}" using t fresh unfolding s(6) by (auto simp: two_sems_def)
  have "two_sems R S' a b" "val S' b = val S b" "waiting S' b = waiting S b"
    by (rule two_sems_step [OF t s(2,3,4,7,9) wb dj])+
  with s show ?thesis by (intro exI [of _ sp'] exI [of _ S']) simp
qed

text \<open>Either way, read off the result.\<close>

lemma two_wait:
  assumes t: "two_sems R S a b" and on: "on_cpu (kern S)" and q: "val S a \<le> 0 \<longrightarrow> can_queue S a"
    and w: "semWait sp a S = Some (r, S')"
  shows "two_sems R S' a b \<and> int (let_through r) + max 0 (val S' a) = max 0 (val S a) \<and> val S' b = val S b \<and>
           (\<forall>n. getSem n S' = getSem n S)"
proof (cases "0 < val S a")
  case True
  from two_enter [OF t True on, of sp] w True show ?thesis by auto
next
  case False
  then have v: "val S a \<le> 0" by simp
  with q have "- (2 ^ 31) < val S a" "2 < pages_left (kern S)" "pid (pr_of (kern S) (currentProcess (kern S))) \<noteq> 0"
    by (auto simp: can_queue_def)
  from two_block [OF t v this(1) on this(2,3), of sp] w v show ?thesis by auto
qed

lemma two_post:
  assumes t: "two_sems R S a b" and v: "val S a < 2 ^ 31 - 1" and on: "on_cpu (kern S)" and pg: "0 < pages_left (kern S)"
  shows "\<exists>S'. semPost a S = Some S' \<and> two_sems R S' a b \<and> val S' a = val S a + 1 \<and> val S' b = val S b \<and>
           (\<forall>n. getSem n S' = getSem n S) \<and> waiting S' b = waiting S b \<and> waiting S' a = tl (waiting S a)"
proof (cases "waiting S a")
  case Nil
  note d = two_semsD [OF t]
  from semPost_free [OF d(1) Nil v d(4)] obtain S' where
    s: "semPost a S = Some S'" "sem_inv S' a" "kern S' = kern S" "val S' a = val S a + 1" "waiting S' a = []"
      "\<forall>t. t \<noteq> a \<longrightarrow> sems S' t = sems S t" "sem_mem (R + wq S b) S' a"
      "pendingDestruction (the (sems S' a)) = pendingDestruction (the (sems S a))" "\<forall>n. getSem n S' = getSem n S"
    using d(3) by auto
  have "two_sems R S' a b" "val S' b = val S b" "waiting S' b = waiting S b"
    by (rule two_sems_step [OF t s(2) _ s(7,8,6)], use s d waiting_blocked [OF d(5)] in simp_all)+
  with s Nil show ?thesis by (intro exI [of _ S']) simp
next
  case (Cons j js)
  note d = two_semsD [OF t]
  from semPost_wakes [OF d(1) Cons d(2,3) pg running_not_blocked [OF on] d(4)] obtain S' where
    s: "semPost a S = Some S'" "sem_inv S' a" "sched_inv (kern S')" "sem_mem (R + wq S b) S' a"
      "val S' a = val S a + 1" "waiting S' a = js"
      "pendingDestruction (the (sems S' a)) = pendingDestruction (the (sems S a))" "\<forall>n. getSem n S' = getSem n S"
      "\<forall>t. t \<noteq> a \<longrightarrow> sems S' t = sems S t" "blocked_pids (kern S) - {j} \<subseteq> blocked_pids (kern S')" by blast
  have dj: "j \<notin> set (waiting S b)" "set js \<inter> set (waiting S b) = {}" using t Cons by (auto simp: two_sems_def)
  have wb: "set (waiting S b) \<subseteq> blocked_pids (kern S')" using waiting_blocked [OF d(5)] dj(1) s(10) by blast
  have "two_sems R S' a b" "val S' b = val S b" "waiting S' b = waiting S b"
    by (rule two_sems_step [OF t s(2,3,4,7,9) wb], use s(6) dj(2) in simp)+
  with s Cons show ?thesis by (intro exI [of _ S']) simp
qed

lemma two_tick:
  assumes t: "two_sems R S a b" and h: "timer_handler sp (kern S) = Some (sp', k')" and pg: "0 < pages_left (kern S)"
  shows "two_sems R (S\<lparr>kern := k'\<rparr>) a b"
proof -
  note d = two_semsD [OF t]
  let ?k = "(kern S)\<lparr>ticks := ticks (kern S) + 1\<rparr>"
  have k: "sched_inv ?k" "mem_ok (R + wq S a + wq S b) ?k" "0 < pages_left ?k"
    using t pg by (simp_all add: two_sems_def)
  have sc: "schedule sp ?k = Some (sp', k')" using h by (simp add: timer_handler_def)
  from schedule_inv [OF k, of sp] sc have
    r: "sched_inv k'" "mem_ok (R + wq S a + wq S b) k'" "blocked k' = blocked (kern S)" by auto
  have b: "in_state k' BLOCKED = in_state (kern S) BLOCKED"
    using queue_okD(3) [OF sched_invD(2) [OF r(1)]] queue_okD(3) [OF sched_invD(2) [OF d(2)]] r(3) by simp
  have "pid (pr_of k' p) = pid (pr_of (kern S) p)" if "p \<in> in_state (kern S) BLOCKED" for p
  proof -
    have "procs ?k p \<noteq> None" using that table_okD(3) [OF sched_invD(1) [OF d(2)]] by (auto simp: in_state_def)
    from same_pidsD [OF schedule_pids [OF sc] this] show ?thesis by simp
  qed
  from sem_inv_kern [OF d(1) b this] sem_inv_kern [OF d(5) b this] r t show ?thesis
    by (auto simp: two_sems_def wq_def waiting_def)
qed

section \<open>The protocol\<close>

text \<open>
  \<open>ww\<close> writers and \<open>rr\<close> readers have been let through by their semaphore and have not moved their character yet: they come
  from a wait that did not block or were woken. \<open>inp\<close> is everything that was put into the pipe, \<open>out\<close> everything that was
  taken. Each step runs in one process with interrupts disabled. Whether a wait lets its caller through or gives up the
  processor is the result of \<open>semWait\<close>, and a post lets those through that have left the waiting queue by it.
\<close>

inductive stream :: "ptr \<Rightarrow> ptr \<Rightarrow> ptr \<Rightarrow> ptr multiset \<Rightarrow> pipe_sys \<Rightarrow> nat \<Rightarrow> nat \<Rightarrow> string \<Rightarrow> string \<Rightarrow> bool"
  for p rs ws R where
  start: "pipe_ok p P \<Longrightarrow> pipe_sems P (the (pipe_mem P p)) rs ws \<Longrightarrow> two_sems R (sys P) rs ws \<Longrightarrow>
     stream p rs ws R P 0 0 (contents p P) []"
| w_wait: "stream p rs ws R P ww rr inp out \<Longrightarrow> on_cpu (kern (sys P)) \<Longrightarrow>
     semWait sp ws (sys P) = Some (r, S') \<Longrightarrow> (val (sys P) ws \<le> 0 \<longrightarrow> can_queue (sys P) ws) \<Longrightarrow>
     stream p rs ws R (P\<lparr>sys := S'\<rparr>) (ww + let_through r) rr inp out"
| put: "stream p rs ws R P (Suc ww) rr inp out \<Longrightarrow> on_cpu (kern (sys P)) \<Longrightarrow> 0 < pages_left (kern (sys P)) \<Longrightarrow>
     pipe_put p c P = Some P' \<Longrightarrow>
     stream p rs ws R P' ww (rr + (length (waiting (sys P) rs) - length (waiting (sys P') rs))) (inp @ [c]) out"
| r_wait: "stream p rs ws R P ww rr inp out \<Longrightarrow> on_cpu (kern (sys P)) \<Longrightarrow>
     semWait sp rs (sys P) = Some (r, S') \<Longrightarrow> (val (sys P) rs \<le> 0 \<longrightarrow> can_queue (sys P) rs) \<Longrightarrow>
     stream p rs ws R (P\<lparr>sys := S'\<rparr>) ww (rr + let_through r) inp out"
| get: "stream p rs ws R P ww (Suc rr) inp out \<Longrightarrow> on_cpu (kern (sys P)) \<Longrightarrow> 0 < pages_left (kern (sys P)) \<Longrightarrow>
     pipe_get p P = Some (c, P') \<Longrightarrow>
     stream p rs ws R P' (ww + (length (waiting (sys P) ws) - length (waiting (sys P') ws))) rr inp (out @ [c])"
| tick: "stream p rs ws R P ww rr inp out \<Longrightarrow> timer_handler sp (kern (sys P)) = Some (sp', k') \<Longrightarrow>
     0 < pages_left (kern (sys P)) \<Longrightarrow> stream p rs ws R (P\<lparr>sys := (sys P)\<lparr>kern := k'\<rparr>\<rparr>) ww rr inp out"

text \<open>
  Every character in the buffer is counted by the reading semaphore or belongs to a reader that is on its way; every free
  place is counted by the writing semaphore or belongs to a writer that is on its way.
\<close>

definition names_ok :: "pipe_sys \<Rightarrow> pipe_t \<Rightarrow> ptr \<Rightarrow> ptr \<Rightarrow> bool" where
  "names_ok P pipe rs ws \<longleftrightarrow>
     getSem (Some (readSemName pipe)) (sys P) = Some rs \<and> getSem (Some (writeSemName pipe)) (sys P) = Some ws"

definition stream_inv :: "ptr \<Rightarrow> ptr \<Rightarrow> ptr \<Rightarrow> ptr multiset \<Rightarrow> pipe_sys \<Rightarrow> nat \<Rightarrow> nat \<Rightarrow> string \<Rightarrow> string \<Rightarrow> bool" where
  "stream_inv p rs ws R P ww rr inp out \<longleftrightarrow>
     p \<noteq> NULL \<and> two_sems R (sys P) rs ws \<and> inp = out @ contents p P \<and>
     (\<exists>pipe. pipe_mem P p = Some pipe \<and> pipe_ring pipe \<and> names_ok P pipe rs ws \<and>
        int rr + max 0 (val (sys P) rs) = int (unat (psize pipe)) \<and>
        int ww + max 0 (val (sys P) ws) + int (unat (psize pipe)) = int PIPE_BUFFER)"

lemma stream_invE:
  assumes "stream_inv p rs ws R P ww rr inp out"
  obtains pipe where "p \<noteq> NULL" "two_sems R (sys P) rs ws" "inp = out @ contents p P" "pipe_mem P p = Some pipe"
    "pipe_ring pipe" "names_ok P pipe rs ws" "int rr + max 0 (val (sys P) rs) = int (unat (psize pipe))"
    "int ww + max 0 (val (sys P) ws) + int (unat (psize pipe)) = int PIPE_BUFFER"
  using assms unfolding stream_inv_def by blast

text \<open>Steps that leave the buffer alone.\<close>

lemma stream_inv_sys:
  assumes i: "stream_inv p rs ws R P ww rr inp out" and t: "two_sems R S' rs ws" and g: "\<forall>n. getSem n S' = getSem n (sys P)"
    and r: "int rr' + max 0 (val S' rs) = int rr + max 0 (val (sys P) rs)"
    and w: "int ww' + max 0 (val S' ws) = int ww + max 0 (val (sys P) ws)"
  shows "stream_inv p rs ws R (P\<lparr>sys := S'\<rparr>) ww' rr' inp out"
  using i t g r w unfolding stream_inv_def names_ok_def contents_def by auto

lemma stream_put:
  assumes i: "stream_inv p rs ws R P (Suc ww) rr inp out" and on: "on_cpu (kern (sys P))" and pg: "0 < pages_left (kern (sys P))"
  shows "\<exists>P'. pipe_put p c P = Some P' \<and>
           stream_inv p rs ws R P' ww (rr + (length (waiting (sys P) rs) - length (waiting (sys P') rs))) (inp @ [c]) out"
proof -
  from i obtain pipe where pp: "p \<noteq> NULL" "two_sems R (sys P) rs ws" "inp = out @ contents p P" "pipe_mem P p = Some pipe"
    "pipe_ring pipe" "names_ok P pipe rs ws" "int rr + max 0 (val (sys P) rs) = int (unat (psize pipe))"
    "int (Suc ww) + max 0 (val (sys P) ws) + int (unat (psize pipe)) = int PIPE_BUFFER" by (rule stream_invE)
  let ?w = "unat (writePos pipe)" and ?n = "unat (psize pipe)"
  have n: "?n < PIPE_BUFFER"
  proof -
    have "int ?n < int PIPE_BUFFER" using pp(8) by linarith
    then show ?thesis by (simp only: of_nat_less_iff)
  qed
  have r: "length (pbuffer pipe) = PIPE_BUFFER" "ring_ok (pbuffer pipe) (unat (readingPos pipe)) ?w ?n"
    using pp(5) by (auto simp: pipe_ring_def)
  have wl: "?w < PIPE_BUFFER" using r by (simp add: ring_ok_def)
  have "val (sys P) rs \<le> int PIPE_BUFFER" using pp(7,8) by linarith
  then have v: "val (sys P) rs < 2 ^ 31 - 1" by simp
  from two_post [OF pp(2) v on pg] obtain S' where
    s: "semPost rs (sys P) = Some S'" "two_sems R S' rs ws" "val S' rs = val (sys P) rs + 1" "val S' ws = val (sys P) ws"
      "\<forall>n. getSem n S' = getSem n (sys P)" "waiting S' rs = tl (waiting (sys P) rs)" by blast
  let ?pipe = "pipe\<lparr>pbuffer := (pbuffer pipe)[?w := c], writePos := (writePos pipe + 1) mod of_nat PIPE_BUFFER,
                   psize := psize pipe + 1\<rparr>"
  let ?P = "P\<lparr>pipe_mem := (pipe_mem P)(p \<mapsto> ?pipe), sys := S'\<rparr>"
  have st: "pipe_put p c P = Some ?P"
    using pp(1,4,6) s(1) wl r(1)
    by (simp add: pipe_at_def names_ok_def pipe_put_def aset_def upd_pipe_def Let_def)
  note rp = ring_put [OF r(2), of c] and ps = pos_step [of "writePos pipe"] and su = size_up [of "psize pipe"]
  have ring': "pipe_ring ?pipe" using rp(2) ps su wl n r(1) by (simp add: pipe_ring_def)
  have con: "contents p ?P = contents p P @ [c]" using rp(1) su n r(1) pp(4) by (simp add: contents_def)
  have nm: "names_ok ?P ?pipe rs ws" using pp(6) s(5) by (simp add: names_ok_def)
  have cnt: "unat (psize ?pipe) = Suc ?n" using su n by simp
  have len: "int (length (waiting (sys P) rs)) = max 0 (- val (sys P) rs)"
    using two_semsD(1) [OF pp(2)] by (simp add: sem_inv_def)
  have "int (rr + (length (waiting (sys P) rs) - length (waiting S' rs))) + max 0 (val S' rs) = int (Suc ?n)"
    using pp(7) s(3,6) len by (cases "waiting (sys P) rs") (auto simp: max_def split: if_splits)
  moreover have "int ww + max 0 (val S' ws) + int (Suc ?n) = int PIPE_BUFFER" using pp(8) s(4) by simp
  ultimately have "stream_inv p rs ws R ?P ww (rr + (length (waiting (sys P) rs) - length (waiting (sys ?P) rs))) (inp @ [c]) out"
    unfolding stream_inv_def using pp(1,3) s(2) con ring' nm cnt
    by (intro conjI exI [of _ ?pipe]) simp_all
  with st show ?thesis by blast
qed

lemma stream_get:
  assumes i: "stream_inv p rs ws R P ww (Suc rr) inp out" and on: "on_cpu (kern (sys P))" and pg: "0 < pages_left (kern (sys P))"
  shows "\<exists>P' c. pipe_get p P = Some (c, P') \<and> contents p P = c # contents p P' \<and>
           stream_inv p rs ws R P' (ww + (length (waiting (sys P) ws) - length (waiting (sys P') ws))) rr inp (out @ [c])"
proof -
  from i obtain pipe where pp: "p \<noteq> NULL" "two_sems R (sys P) rs ws" "inp = out @ contents p P" "pipe_mem P p = Some pipe"
    "pipe_ring pipe" "names_ok P pipe rs ws" "int (Suc rr) + max 0 (val (sys P) rs) = int (unat (psize pipe))"
    "int ww + max 0 (val (sys P) ws) + int (unat (psize pipe)) = int PIPE_BUFFER" by (rule stream_invE)
  let ?r = "unat (readingPos pipe)" and ?n = "unat (psize pipe)"
  have "0 < int ?n" using pp(7) by linarith
  then have "0 < ?n" by (simp only: of_nat_0_less_iff)
  then have ne: "psize pipe \<noteq> 0" by auto
  note sd = size_down [OF ne]
  have r: "length (pbuffer pipe) = PIPE_BUFFER" "ring_ok (pbuffer pipe) ?r (unat (writePos pipe)) ?n"
    using pp(5) by (auto simp: pipe_ring_def)
  have rl: "?r < PIPE_BUFFER" using r by (simp add: ring_ok_def)
  have "val (sys P) ws \<le> int PIPE_BUFFER" using pp(8) by linarith
  then have v: "val (sys P) ws < 2 ^ 31 - 1" by simp
  from two_post [OF two_sems_sym [OF pp(2)] v on pg] obtain S' where
    s: "semPost ws (sys P) = Some S'" "two_sems R S' ws rs" "val S' ws = val (sys P) ws + 1" "val S' rs = val (sys P) rs"
      "\<forall>n. getSem n S' = getSem n (sys P)" "waiting S' ws = tl (waiting (sys P) ws)" by blast
  note rg = ring_get [OF r(2) [unfolded sd]] and ps = pos_step [of "readingPos pipe"]
  let ?pipe = "pipe\<lparr>readingPos := (readingPos pipe + 1) mod of_nat PIPE_BUFFER, psize := psize pipe - 1\<rparr>"
  let ?P = "P\<lparr>pipe_mem := (pipe_mem P)(p \<mapsto> ?pipe), sys := S'\<rparr>"
  let ?c = "pbuffer pipe ! ?r"
  have st: "pipe_get p P = Some (?c, ?P)"
    using pp(1,4,6) s(1) rl r(1)
    by (simp add: pipe_at_def names_ok_def pipe_get_def aget_def upd_pipe_def Let_def)
  have ring': "pipe_ring ?pipe" using rg(2) ps rl r(1) by (simp add: pipe_ring_def)
  have con: "contents p P = ?c # contents p ?P" using rg(1) r(1) pp(4) ps rl by (simp add: contents_def sd)
  have nm: "names_ok ?P ?pipe rs ws" using pp(6) s(5) by (simp add: names_ok_def)
  have cnt: "Suc (unat (psize ?pipe)) = ?n" using sd by simp
  have len: "int (length (waiting (sys P) ws)) = max 0 (- val (sys P) ws)"
    using two_semsD(5) [OF pp(2)] by (simp add: sem_inv_def)
  have "int rr + max 0 (val S' rs) = int (unat (psize ?pipe))" using pp(7) s(4) cnt [symmetric] by simp
  moreover have "int (ww + (length (waiting (sys P) ws) - length (waiting S' ws))) + max 0 (val S' ws) + int (unat (psize ?pipe)) = int PIPE_BUFFER"
    using pp(8) s(3,6) len cnt [symmetric] by (cases "waiting (sys P) ws") (auto simp: max_def split: if_splits)
  ultimately have "stream_inv p rs ws R ?P (ww + (length (waiting (sys P) ws) - length (waiting (sys ?P) ws))) rr inp (out @ [?c])"
    unfolding stream_inv_def using pp(1,3) two_sems_sym [OF s(2)] con ring' nm
    by (intro conjI exI [of _ ?pipe]) simp_all
  with st con show ?thesis by blast
qed

lemma stream_keeps:
  assumes "stream p rs ws R P ww rr inp out"
  shows "stream_inv p rs ws R P ww rr inp out"
  using assms
proof induction
  case (start P)
  then obtain pipe rs' ws' where o: "p \<noteq> NULL" "pipe_mem P p = Some pipe" "pipe_ring pipe" "pipe_sems P pipe rs' ws'"
    "val (sys P) rs' = int (unat (psize pipe))" "val (sys P) ws' = int PIPE_BUFFER - int (unat (psize pipe))"
    unfolding pipe_ok_def by blast
  then have e: "rs' = rs" "ws' = ws" "names_ok P pipe rs ws" using start.hyps(2) by (auto simp: pipe_sems_def names_ok_def)
  have "unat (psize pipe) \<le> PIPE_BUFFER" using o(3) by (auto simp: pipe_ring_def ring_ok_def)
  then have "int (unat (psize pipe)) \<le> int PIPE_BUFFER" by (simp only: of_nat_le_iff)
  with o e start.hyps(3) show ?case unfolding stream_inv_def by (intro conjI exI [of _ pipe]) simp_all
next
  case (w_wait P ww rr inp out sp r S')
  have t: "two_sems R (sys P) ws rs" using w_wait.IH two_sems_sym by (auto simp: stream_inv_def)
  from two_wait [OF t w_wait.hyps(2,4,3)] have
    s: "two_sems R S' ws rs" "int (let_through r) + max 0 (val S' ws) = max 0 (val (sys P) ws)" "val S' rs = val (sys P) rs"
      "\<forall>n. getSem n S' = getSem n (sys P)" by auto
  show ?case
    by (rule stream_inv_sys [OF w_wait.IH two_sems_sym [OF s(1)] s(4)]) (use s(2,3) in simp_all)
next
  case (put P ww rr inp out c P')
  from stream_put [OF put.IH put.hyps(2,3), of c] put.hyps(4) show ?case by auto
next
  case (r_wait P ww rr inp out sp r S')
  have t: "two_sems R (sys P) rs ws" using r_wait.IH by (auto simp: stream_inv_def)
  from two_wait [OF t r_wait.hyps(2,4,3)] have
    s: "two_sems R S' rs ws" "int (let_through r) + max 0 (val S' rs) = max 0 (val (sys P) rs)" "val S' ws = val (sys P) ws"
      "\<forall>n. getSem n S' = getSem n (sys P)" by auto
  show ?case
    by (rule stream_inv_sys [OF r_wait.IH s(1,4)]) (use s(2,3) in simp_all)
next
  case (get P ww rr inp out c P')
  from stream_get [OF get.IH get.hyps(2,3)] get.hyps(4) show ?case by auto
next
  case (tick P ww rr inp out sp sp' k')
  have t: "two_sems R (sys P) rs ws" using tick.IH by (auto simp: stream_inv_def)
  have g: "\<forall>n. getSem n ((sys P)\<lparr>kern := k'\<rparr>) = getSem n (sys P)" by (intro allI getSem_cong) simp_all
  show ?case
    by (rule stream_inv_sys [OF tick.IH two_tick [OF t tick.hyps(2,3)] g]) (simp_all add: val_def)
qed

text \<open>What the counts say about who waits.\<close>

lemma stream_waiters:
  assumes "stream_inv p rs ws R P ww rr inp out"
  shows "length (contents p P) \<le> PIPE_BUFFER" and "rr \<le> length (contents p P)" and "ww + length (contents p P) \<le> PIPE_BUFFER"
    and "waiting (sys P) rs \<noteq> [] \<Longrightarrow> rr = length (contents p P)"
    and "waiting (sys P) ws \<noteq> [] \<Longrightarrow> ww + length (contents p P) = PIPE_BUFFER"
proof -
  from assms obtain pipe where pp: "two_sems R (sys P) rs ws" "pipe_mem P p = Some pipe"
    "int rr + max 0 (val (sys P) rs) = int (unat (psize pipe))"
    "int ww + max 0 (val (sys P) ws) + int (unat (psize pipe)) = int PIPE_BUFFER" by (rule stream_invE)
  have l: "length (contents p P) = unat (psize pipe)" using pp(2) by (simp add: contents_def)
  have w: "val (sys P) s < 0" if "waiting (sys P) s \<noteq> []" "sem_inv (sys P) s" for s
  proof -
    have "0 < int (length (waiting (sys P) s))" using that(1) by simp
    moreover have "int (length (waiting (sys P) s)) = max 0 (- val (sys P) s)" using that(2) by (simp add: sem_inv_def)
    ultimately show ?thesis by linarith
  qed
  have "int rr \<le> int (unat (psize pipe))" "int ww + int (unat (psize pipe)) \<le> int PIPE_BUFFER" using pp(3,4) by linarith+
  then show "rr \<le> length (contents p P)" "ww + length (contents p P) \<le> PIPE_BUFFER" "length (contents p P) \<le> PIPE_BUFFER"
    unfolding l by linarith+
  show "rr = length (contents p P)" if "waiting (sys P) rs \<noteq> []"
  proof -
    have "int rr = int (unat (psize pipe))" using w [OF that two_semsD(1) [OF pp(1)]] pp(3) by linarith
    then show ?thesis unfolding l by (simp only: of_nat_eq_iff)
  qed
  show "ww + length (contents p P) = PIPE_BUFFER" if "waiting (sys P) ws \<noteq> []"
  proof -
    have "int (ww + unat (psize pipe)) = int PIPE_BUFFER"
      using w [OF that two_semsD(5) [OF pp(1)]] pp(4) by linarith
    then show ?thesis unfolding l by (simp only: of_nat_eq_iff)
  qed
qed

section \<open>The loops of the code are runs of the protocol\<close>

lemma write_goes:
  assumes s: "stream p rs ws R P ww rr inp out" and on: "on_cpu (kern (sys P))" and pg: "2 < pages_left (kern (sys P))"
    and v: "0 < val (sys P) ws"
  shows "\<exists>P' rr'. (\<forall>cs n. pipe_write_from sp p (c # cs) n P = pipe_write_from sp p cs (n + 1) P') \<and>
            stream p rs ws R P' ww rr' (inp @ [c]) out"
proof -
  from stream_keeps [OF s] obtain pipe where pp: "p \<noteq> NULL" "two_sems R (sys P) rs ws" "pipe_mem P p = Some pipe"
    "names_ok P pipe rs ws" by (rule stream_invE)
  from two_enter [OF two_sems_sym [OF pp(2)] v on, of sp] obtain S' where
    w: "semWait sp ws (sys P) = Some (Ret (), S')" "kern S' = kern (sys P)" by blast
  have "stream p rs ws R (P\<lparr>sys := S'\<rparr>) (ww + let_through (Ret ())) rr inp out"
    by (rule stream.w_wait [OF s on w(1)]) (use v in simp)
  then have e: "stream p rs ws R (P\<lparr>sys := S'\<rparr>) (Suc ww) rr inp out" by simp
  have c: "on_cpu (kern (sys (P\<lparr>sys := S'\<rparr>)))" "0 < pages_left (kern (sys (P\<lparr>sys := S'\<rparr>)))" using on pg w(2) by simp_all
  from stream_put [OF stream_keeps [OF e] c, of c] obtain P' where p: "pipe_put p c (P\<lparr>sys := S'\<rparr>) = Some P'" by blast
  have "pipe_write_from sp p (c # cs) n P = pipe_write_from sp p cs (n + 1) P'" for cs n
    using pp w(1) p by (simp add: pipe_at_def names_ok_def Let_def)
  with stream.put [OF e c p] show ?thesis by blast
qed

text \<open>
  One turn of the loop of \<open>pipe_write\<close> in a process that is running: it puts its character and goes on with the next, or it
  waits, gives up the processor, and has put nothing. A process that waited goes on with \<open>pipe_put\<close>.
\<close>

lemma write_turn:
  assumes s: "stream p rs ws R P ww rr inp out" and on: "on_cpu (kern (sys P))" and pg: "2 < pages_left (kern (sys P))"
    and v: "- (2 ^ 31) < val (sys P) ws" and nz: "pid (pr_of (kern (sys P)) (currentProcess (kern (sys P)))) \<noteq> 0"
  shows "(\<exists>P' rr'. (\<forall>cs n. pipe_write_from sp p (c # cs) n P = pipe_write_from sp p cs (n + 1) P') \<and>
            stream p rs ws R P' ww rr' (inp @ [c]) out) \<or>
         (\<exists>sp' P'. (\<forall>cs n. pipe_write_from sp p (c # cs) n P = Some (Switch sp', n, P')) \<and> pipe_mem P' = pipe_mem P \<and>
            stream p rs ws R P' ww rr inp out)"
proof -
  from stream_keeps [OF s] obtain pipe where pp: "p \<noteq> NULL" "two_sems R (sys P) rs ws" "pipe_mem P p = Some pipe"
    "names_ok P pipe rs ws" by (rule stream_invE)
  note t = two_sems_sym [OF pp(2)]
  show ?thesis
  proof (cases "0 < val (sys P) ws")
    case True
    from write_goes [OF s on pg this] show ?thesis by blast
  next
    case False
    then have v0: "val (sys P) ws \<le> 0" by simp
    from two_block [OF t v0 v on pg nz, of sp] obtain sp' S' where
      w: "semWait sp ws (sys P) = Some (Switch sp', S')" by blast
    have "pipe_write_from sp p (c # cs) n P = Some (Switch sp', n, P\<lparr>sys := S'\<rparr>)" for cs n
      using pp w by (simp add: pipe_at_def names_ok_def Let_def)
    moreover have "stream p rs ws R (P\<lparr>sys := S'\<rparr>) (ww + let_through (Switch sp' :: unit ctl)) rr inp out"
      by (rule stream.w_wait [OF s on w]) (use v pg nz in \<open>simp add: can_queue_def\<close>)
    ultimately show ?thesis by (intro disjI2 exI [of _ sp'] exI [of _ "P\<lparr>sys := S'\<rparr>"]) simp
  qed
qed

lemma read_turn:
  assumes s: "stream p rs ws R P ww rr inp out" and on: "on_cpu (kern (sys P))" and pg: "2 < pages_left (kern (sys P))"
    and v: "- (2 ^ 31) < val (sys P) rs" and nz: "pid (pr_of (kern (sys P)) (currentProcess (kern (sys P)))) \<noteq> 0"
  shows "(\<exists>P' ww' c. (\<forall>n acc. pipe_read_from sp p (Suc n) acc P = pipe_read_from sp p n (acc @ [c]) P') \<and>
            contents p P = c # contents p P' \<and> stream p rs ws R P' ww' rr inp (out @ [c])) \<or>
         (\<exists>sp' P'. (\<forall>n acc. pipe_read_from sp p (Suc n) acc P = Some (Switch sp', acc, P')) \<and> pipe_mem P' = pipe_mem P \<and>
            stream p rs ws R P' ww rr inp out)"
proof -
  from stream_keeps [OF s] obtain pipe where pp: "p \<noteq> NULL" "two_sems R (sys P) rs ws" "pipe_mem P p = Some pipe"
    "names_ok P pipe rs ws" by (rule stream_invE)
  show ?thesis
  proof (cases "0 < val (sys P) rs")
    case True
    from two_enter [OF pp(2) True on, of sp] obtain S' where
      w: "semWait sp rs (sys P) = Some (Ret (), S')" "kern S' = kern (sys P)" by blast
    have "stream p rs ws R (P\<lparr>sys := S'\<rparr>) ww (rr + let_through (Ret ())) inp out"
      by (rule stream.r_wait [OF s on w(1)]) (use True in simp)
    then have e: "stream p rs ws R (P\<lparr>sys := S'\<rparr>) ww (Suc rr) inp out" by simp
    have "on_cpu (kern (sys (P\<lparr>sys := S'\<rparr>)))" "0 < pages_left (kern (sys (P\<lparr>sys := S'\<rparr>)))" using on pg w(2) by simp_all
    note c = this
    from stream_get [OF stream_keeps [OF e] c] obtain P' x where
      p: "pipe_get p (P\<lparr>sys := S'\<rparr>) = Some (x, P')" "contents p (P\<lparr>sys := S'\<rparr>) = x # contents p P'" by blast
    have "pipe_read_from sp p (Suc n) acc P = pipe_read_from sp p n (acc @ [x]) P'" for n acc
      using pp w(1) p by (simp add: pipe_at_def names_ok_def Let_def)
    moreover have "contents p P = x # contents p P'" using p(2) by (simp add: contents_def)
    ultimately show ?thesis using stream.get [OF e c p(1)] by blast
  next
    case False
    then have v0: "val (sys P) rs \<le> 0" by simp
    from two_block [OF pp(2) v0 v on pg nz, of sp] obtain sp' S' where
      w: "semWait sp rs (sys P) = Some (Switch sp', S')" by blast
    have "pipe_read_from sp p (Suc n) acc P = Some (Switch sp', acc, P\<lparr>sys := S'\<rparr>)" for n acc
      using pp w by (simp add: pipe_at_def names_ok_def Let_def)
    moreover have "stream p rs ws R (P\<lparr>sys := S'\<rparr>) ww (rr + let_through (Switch sp' :: unit ctl)) inp out"
      by (rule stream.r_wait [OF s on w]) (use v pg nz in \<open>simp add: can_queue_def\<close>)
    ultimately show ?thesis by (intro disjI2 exI [of _ sp'] exI [of _ "P\<lparr>sys := S'\<rparr>"]) simp
  qed
qed

section \<open>Properties\<close>

text \<open>
  C17: a pipe is a stream. Whatever processes write to it and read from it, in whatever order they run, block and are woken:
  what was put in is what was taken out followed by what the pipe holds, at most 256 characters. No wake-up is lost: a reader
  waits only while every character held is meant for a reader on its way, a writer only while every free place is meant for a
  writer on its way; so when nobody is on the way readers wait only for an empty pipe and writers for a full one, and never
  both. A process on its way always finds its place or its character, which is the oldest one.
\<close>

theorem pipe_is_a_stream:
  assumes "stream p rs ws R P ww rr inp out"
  shows "inp = out @ contents p P \<and> length (contents p P) \<le> PIPE_BUFFER \<and>
         (waiting (sys P) rs \<noteq> [] \<longrightarrow> length (contents p P) = rr) \<and>
         (waiting (sys P) ws \<noteq> [] \<longrightarrow> length (contents p P) + ww = PIPE_BUFFER) \<and>
         (ww = 0 \<and> rr = 0 \<longrightarrow> waiting (sys P) rs = [] \<or> waiting (sys P) ws = []) \<and>
         (on_cpu (kern (sys P)) \<and> 0 < pages_left (kern (sys P)) \<longrightarrow>
            (0 < ww \<longrightarrow> (\<exists>P'. pipe_put p c P = Some P')) \<and>
            (0 < rr \<longrightarrow> (\<exists>P'. pipe_get p P = Some (hd (contents p P), P'))))"
proof -
  note i = stream_keeps [OF assms]
  note w = stream_waiters [OF i]
  have "inp = out @ contents p P" using i by (simp add: stream_inv_def)
  moreover have "\<exists>P'. pipe_put p c P = Some P'" if "on_cpu (kern (sys P))" "0 < pages_left (kern (sys P))" "0 < ww"
    using stream_put [OF _ that(1,2), of p rs ws R "ww - 1" rr inp out c] i that(3) by auto
  moreover have "\<exists>P'. pipe_get p P = Some (hd (contents p P), P')" if "on_cpu (kern (sys P))" "0 < pages_left (kern (sys P))" "0 < rr"
    using stream_get [OF _ that(1,2), of p rs ws R ww "rr - 1" inp out] i that(3) by fastforce
  moreover have "waiting (sys P) rs = [] \<or> waiting (sys P) ws = []" if "ww = 0 \<and> rr = 0"
  proof (rule ccontr)
    assume "\<not> (waiting (sys P) rs = [] \<or> waiting (sys P) ws = [])"
    then have "rr = length (contents p P)" "ww + length (contents p P) = PIPE_BUFFER" using w(4,5) by blast+
    with that show False by simp
  qed
  ultimately show ?thesis using w by auto
qed

text \<open>The first pipe of the booted kernel starts such a stream.\<close>

lemma stream_exists:
  "\<exists>p rs ws R P. pipe_open raw_block (0, 0) boot_pipes = Some (0, (3, 4), P) \<and> stream p rs ws R P 0 0 [] [] \<and>
     on_cpu (kern (sys P)) \<and> 1700 < pages_left (kern (sys P)) \<and> 0 < val (sys P) ws \<and>
     pid (pr_of (kern (sys P)) (currentProcess (kern (sys P)))) = 1"
proof -
  obtain p P R rs ws where p: "pipe_open raw_block (0, 0) boot_pipes = Some (0, (3, 4), P)" "pipe_ok p P" "contents p P = []"
     "sched_inv (kern (sys P))" "on_cpu (kern (sys P))" "1700 < pages_left (kern (sys P))"
     "pid (pr_of (kern (sys P)) (currentProcess (kern (sys P)))) = 1"
     "pipe_sems P (the (pipe_mem P p)) rs ws" "waiting (sys P) rs = []" "waiting (sys P) ws = []"
     "sem_mem (R + mset (blocks (waitingProcesses (the (sems (sys P) ws))))) (sys P) rs"
    using first_pipe by blast
  have "mem_ok (R + wq (sys P) ws + wq (sys P) rs) (kern (sys P))"
    using p(8,11) sem_mem_wq [of "sys P" rs] by (simp add: pipe_sems_def wq_def)
  then have t: "two_sems R (sys P) rs ws" using p(4,8,9) by (simp add: two_sems_def pipe_sems_def ac_simps)
  from p(2) obtain pipe rs' ws' where o: "pipe_mem P p = Some pipe" "pipe_sems P pipe rs' ws'"
    "val (sys P) ws' = int PIPE_BUFFER - int (unat (psize pipe))" unfolding pipe_ok_def by blast
  have "unat (psize pipe) = 0" using p(3) o(1) ring_length [of "pbuffer pipe" "unat (readingPos pipe)" "unat (psize pipe)"]
    by (simp add: contents_def)
  moreover have "ws' = ws" using o(1,2) p(8) by (simp add: pipe_sems_def)
  ultimately have "0 < val (sys P) ws" using o(3) by simp
  with stream.start [OF p(2,8) t] p show ?thesis by auto
qed

theorem pipe_is_a_stream_witness:
  "\<exists>p rs ws R P P' rr. pipe_open raw_block (0, 0) boot_pipes = Some (0, (3, 4), P) \<and>
     pipe_write_from 0x700000 p ''a'' 0 P = Some (Ret (), 1, P') \<and> stream p rs ws R P' 0 rr ''a'' [] \<and> contents p P' = ''a''"
proof -
  obtain p rs ws R P where s: "pipe_open raw_block (0, 0) boot_pipes = Some (0, (3, 4), P)" "stream p rs ws R P 0 0 [] []"
    "on_cpu (kern (sys P))" "1700 < pages_left (kern (sys P))" "0 < val (sys P) ws" using stream_exists by blast
  have pg: "2 < pages_left (kern (sys P))" using s(4) by simp
  from write_goes [OF s(2,3) pg s(5), of "0x700000" "CHR ''a''"] obtain P' rr where
    w: "\<forall>cs n. pipe_write_from 0x700000 p (CHR ''a'' # cs) n P = pipe_write_from 0x700000 p cs (n + 1) P'"
      "stream p rs ws R P' 0 rr ''a'' []" by auto
  have "pipe_write_from 0x700000 p ''a'' 0 P = Some (Ret (), 1, P')" using w(1) [rule_format, of "[]" 0] by simp
  moreover have "contents p P' = ''a''" using pipe_is_a_stream [OF w(2)] by simp
  ultimately show ?thesis using s(1) w(2) by blast
qed

end
