(* ===== verification/Spec2Isabelle.thy ===== *)
theory Spec2Isabelle
  imports Buddy GolfKernel ShellParse BmfsTool TestKernel TestSync UnitTests Animations PipeStream
begin

text \<open>
  A verification development for a 64-bit x86 operating system: a kernel with a preemptive scheduler, semaphores, pipes, two
  memory managers and the drivers for keyboard, screen, timer and sound; a user library over its system calls; a shell with
  its commands; the tool that packs the boot image, the tool that makes the disk, and the test programs. All sources named below are under \<open>src/x64BareBones/\<close>.

  \<^bold>\<open>The program.\<close> The boot loader copies the image to memory and enters \<open>Kernel/loader.asm\<close>; \<open>initializeKernelBinary\<close> unpacks the
  modules, \<open>main\<close> (\<open>Kernel/core/kernel.c\<close>) starts the memory manager, the interrupts, the keyboard and the scheduler, and the
  first tick of the timer starts the shell. From then on the kernel runs only on interrupts: the timer (\<open>schedule\<close>), the
  keyboard (\<open>keyboard_handler\<close>) and \<open>int 0x80\<close> (\<open>syscallDispatcher\<close>). Semaphores queue and block processes through the
  scheduler; pipes and the keyboard wait on semaphores; all of them allocate from the memory manager. User programs reach
  the kernel through numbered calls only.

  \<^bold>\<open>How the code is translated.\<close> A C struct is a record with the fields of the code, an enum a datatype, an integer of \<open>w\<close> bits
  a word of that width, so that every sum wraps as it does on the machine. Static variables are the fields of a record that the
  functions take and return. Pointers, sizes and process identifiers are 64-bit words and \<open>NULL\<close> is 0; memory that the code
  addresses freely (frame buffer, text console, user buffers) is a function from addresses to bytes. Whatever is undefined or
  stops the machine (a null dereference, an index out of range, an endless spin on a lock) is the value \<open>None\<close>; every error the
  code reports is a returned value. A kernel call that gives the processor away in the middle is cut there: its first part
  answers \<open>Switch\<close>, and a second definition, \<open>..._resume\<close>, is what runs when the process is chosen again. User programs are
  functions of the kernel they run on: an argument \<open>k\<close> answers each of their system calls and a world \<open>w\<close> is passed through.
  A loop that may not end is a \<open>partial_function\<close> whose endless run is \<open>None\<close>; that such a loop ends is then part of the
  properties. Otherwise no fuel is used: loops over memory recurse on the number of bytes left, loops over words have a
  \<open>measure\<close>.

  \<^bold>\<open>The theories.\<close>
  \<^item> \<open>Prelude\<close>, \<open>Digits\<close>, \<open>Ring\<close>, \<open>Chain\<close>: the types and lemmas that components share; positional numerals and the
    three ways the code prints them; circular buffers and their contract \<open>bounded_fifo\<close>; linked containers as lists of nodes.
  \<^item> \<open>Allocator\<close>, \<open>Bitmap\<close>, \<open>Buddy\<close>: \<open>Kernel/mem/pmem_bitmap.c\<close> and \<open>pmem_buddy.c\<close>, two interpretations of one contract.
    First fit, exact free, no overlap, the statistics; for the buddy system splitting and merging.
  \<^item> \<open>Queue\<close>, \<open>DList\<close>: \<open>Kernel/lib/ADT\<close>, first with pointers in a store of nodes, then as lists of nodes, with the refinement
    between the two; \<open>Owner\<close>: every block of memory has one owner, which is how clients know that their blocks stay apart.
  \<^item> \<open>Sched\<close>, \<open>Process\<close>, \<open>SchedInv\<close>, \<open>Dispatch\<close>, \<open>SchedOps\<close>, \<open>SchedProps\<close>, \<open>SchedTheorems\<close>, \<open>ProcInfo\<close>: \<open>Kernel/sched/scheduler.c\<close> and
    \<open>Kernel/proc/process.c\<close>; the invariants of the process table, the ready queues and their credits, which every operation
    keeps; round robin within a level, quanta, no starvation between levels; the listing of processes. At most the current
    process and the idle process are marked as running: the idle process keeps its mark when it is preempted.
  \<^item> \<open>Semaphore\<close>, \<open>Pipe\<close>, \<open>PipeStream\<close>, \<open>Keyboard\<close>: \<open>Kernel/semaphore/semaphore.c\<close> with the spin lock,
    \<open>Kernel/ipc/pipe.c\<close>, \<open>Kernel/drivers/keyboard/keyboardDriver.c\<close>; conservation of permits, blocking and waking, order of the
    characters. The step relations \<open>sem_run\<close> (one semaphore) and \<open>stream\<close> (one pipe) are the calls of any processes in any
    order, cut where they can lose the processor; which way a call goes is read off the result of \<open>semWait\<close> and the waiting
    queue after \<open>semPost\<close>, never chosen by a rule.
  \<^item> \<open>Strings\<close>, \<open>LibC\<close>: \<open>Kernel/lib/string/strings.c\<close>, \<open>Kernel/lib/console/lib.c\<close> and \<open>naiveConsole.c\<close>.
  \<^item> \<open>Fonts\<close>, \<open>Video\<close>, \<open>Circle\<close>, \<open>Devices\<close>, \<open>Terminal\<close>: the drivers of screen, timer, clock and sound, the interrupt table and
    its dispatch, the boot sequence, the terminal of \<open>sys_write\<close>, the exception handlers; which pixels each drawing changes,
    and that the midpoint algorithm of \<open>drawCircle\<close> fills the disc; \<open>Animations\<close>: the drawing demonstrations of both sides.
  \<^item> \<open>Modules\<close>, \<open>Packer\<close>: \<open>Kernel/core/moduleLoader.c\<close> and the tool \<open>Toolchain/ModulePacker/main.c\<close> that writes the image it reads.
  \<^item> \<open>Syscalls\<close>: \<open>Kernel/syscall/syscalls.c\<close>, every call number on the state of the whole kernel.
  \<^item> \<open>UserLib\<close>, \<open>UserStrings\<close>, \<open>UserIO\<close>, \<open>UserTools\<close>: \<open>Userland/UserLib\<close>; \<open>UserKernel\<close> joins both sides: with the stubs of
    \<open>syscallHelper.asm\<close> the modelled kernel is a kernel for the modelled programs, and pipelines run on its pipes.
  \<^item> \<open>Golf\<close>, \<open>GolfKernel\<close>, \<open>Mvar\<close>, \<open>Shell\<close>, \<open>ShellParse\<close>: the programs of \<open>Userland/UserApps\<close>: the game and the screen it stays
    on, the readers and writers as a step relation, the shell and a reference for what a command line means.
  \<^item> \<open>Bmfs\<close>, \<open>BmfsProps\<close>, \<open>BmfsInit\<close>, \<open>BmfsTool\<close>: \<open>Bootloader/BMFS/bmfs.c\<close>, the tool that formats the disk image and keeps its
    files. The image is its bytes by offset and its length, the directory a list of 64 entries, read and written as
    bytes; \<open>host_env\<close> holds what the host grants (files that can be written, memory, room on its disk, the line typed);
    \<open>qsort\<close> is a stable insertion sort, of which only the order by starting block matters. The lemmas show that each command refines an operation on a map from names
    to contents, and where it does not: three theorems on full directories, deleted files and sizes that overflow.
  \<^item> \<open>UnitTests\<close>: \<open>Kernel/mem/TestMemoryManager.c\<close> on the part of \<open>test/CuTest.c\<close> that decides the outcome of a test.
  \<^item> \<open>UserTests\<close>, \<open>TestKernel\<close>, \<open>TestSync\<close>: the test programs of \<open>Userland/UserApps/Tests\<close>; the memory test on the modelled
    memory manager, and the processes of the synchronisation test as a step relation.

  \<^bold>\<open>Contracts.\<close> Each place where one part relies on another is a locale with an interpretation on the model of the provider: the
  allocator (bitmap and buddy), the bounded buffers of keyboard and pipe, the console of a pipeline stage and the display of
  the game (both on the kernel's system calls), and the memory of the memory test (on the kernel's calls over the bitmap
  manager).

  \<^bold>\<open>Bounds.\<close> Process identifiers are not reused: \<open>createProcess\<close> is described as long as its counter has not reached the last
  64-bit number. The value of a semaphore stays within \<open>int\<close>, a buffer for the listing of processes is shorter than \<open>2 ^ 31\<close>,
  a circle has a radius up to \<open>2 ^ 20\<close> and a centre within \<open>2 ^ 40\<close> so that no sum of the midpoint algorithm wraps, and a disk
  image has fewer than \<open>2 ^ 32\<close> MiB. Operations that allocate ask for the free pages they take. The files that the disk tool copies have fewer than
  \<open>2 ^ 31\<close> bytes, and what its \<open>create\<close> does is described for directories without deleted entries, since behind a deleted
  entry it can put a file over another (\<open>create_over_a_file\<close>). The game starts on a screen of more than 220 pixels each way.

  \<^bold>\<open>Not modelled.\<close> The boot loader \<open>Bootloader/Pure64\<close> is third-party assembly. The assembly that saves and restores registers
  (\<open>interrupts.asm\<close>) is visible only in that a process goes on where it stopped. The contents of process stacks, and with them
  stack overflows, are not modelled. The values that hardware gives (scan codes, clock registers, the mode information of the
  screen) and the addresses that the linker gives are arguments. The unit tests \<open>TestSemaphore.c\<close> and \<open>TestPipe.c\<close> run on stubs
  that replace the scheduler and the lock (\<open>test/MockFunctions.c\<close>), hence on another program than the kernel; what they check is
  proved for every state in \<open>Semaphore\<close> and \<open>Pipe\<close>. Of the test framework the texts of its messages, of the disk tool the
  progress lines of \<open>initialize\<close> are left out. \<open>Terminal/_loader.c\<close> (clearing the uninitialised data) and \<open>idle.c\<close> (a loop that
  halts the processor) have nothing to model. The packer is not described for an output that is also one of its inputs.
\<close>

end
